(* ===== verification/Prelude.thy ===== *)
theory Prelude
  imports Main "HOL-Library.Word" "HOL-Library.Monad_Syntax"
begin

text \<open>
  Shared vocabulary of the development: addresses and pointers, stores of typed objects,
  the C library's \<open>malloc\<close> and \<open>free\<close>, and the generic lemmas the component
  theories use. An operation that may read or write through a pointer returns an
  \<open>option\<close>: \<open>None\<close> stands for undefined behaviour of the C code (a dereference
  of \<open>NULL\<close> or of an object that is not allocated, an access outside an array, a
  read of the wrong member of a union) or, for a loop over pointers, for not returning.
  A theorem that an operation is \<open>Some\<close> therefore states memory safety and
  termination at once.
\<close>

subsection \<open>Addresses, pointers and stores\<close>

type_synonym addr = nat
type_synonym ptr = "addr option"
type_synonym 'b store = "addr \<Rightarrow> 'b option"

type_synonym u8 = "8 word"
type_synonym u32 = "32 word"
type_synonym size_t = "64 word"

text \<open>
  \<open>p->field\<close> as a read and \<open>p->field = v\<close> as an update of one object; both are
  undefined when \<open>p\<close> is \<open>NULL\<close> or dangling.
\<close>

definition deref :: "'b store \<Rightarrow> ptr \<Rightarrow> 'b option" where
  "deref h p = (case p of None \<Rightarrow> None | Some a \<Rightarrow> h a)"

definition modify :: "('b \<Rightarrow> 'b) \<Rightarrow> ptr \<Rightarrow> 'b store \<Rightarrow> 'b store option" where
  "modify u p h =
     (case p of None \<Rightarrow> None
      | Some a \<Rightarrow> (case h a of None \<Rightarrow> None | Some v \<Rightarrow> Some (h(a \<mapsto> u v))))"

named_theorems mem_simps \<open>evaluation of pointer reads and writes\<close>

lemma deref_None [simp, mem_simps]: "deref h None = None"
  by (simp add: deref_def)

lemma deref_Some [simp, mem_simps]: "deref h (Some a) = h a"
  by (simp add: deref_def)

lemma modify_None [simp, mem_simps]: "modify u None h = None"
  by (simp add: modify_def)

lemma modify_Some [mem_simps]:
  "h a = Some v \<Longrightarrow> modify u (Some a) h = Some (h(a \<mapsto> u v))"
  by (simp add: modify_def)

lemma modify_dangling [mem_simps]: "h a = None \<Longrightarrow> modify u (Some a) h = None"
  by (simp add: modify_def)

lemma modify_eq_Some:
  "modify u p h = Some h' \<longleftrightarrow> (\<exists>a v. p = Some a \<and> h a = Some v \<and> h' = h(a \<mapsto> u v))"
  by (auto simp: modify_def split: option.splits)

lemma modify_dom: "modify u p h = Some h' \<Longrightarrow> dom h' = dom h"
  by (auto simp: modify_eq_Some split: if_splits)

text \<open>\<open>a[i] = v\<close> on an array of fixed length: undefined outside it.\<close>

definition arr_get :: "'b list \<Rightarrow> nat \<Rightarrow> 'b option" where
  "arr_get xs i = (if i < length xs then Some (xs ! i) else None)"

definition arr_set :: "'b list \<Rightarrow> nat \<Rightarrow> 'b \<Rightarrow> 'b list option" where
  "arr_set xs i v = (if i < length xs then Some (xs[i := v]) else None)"

lemma arr_get_Some [simp, mem_simps]: "i < length xs \<Longrightarrow> arr_get xs i = Some (xs ! i)"
  by (simp add: arr_get_def)

lemma arr_set_Some [simp, mem_simps]: "i < length xs \<Longrightarrow> arr_set xs i v = Some (xs[i := v])"
  by (simp add: arr_set_def)

lemma arr_get_out [simp, mem_simps]: "length xs \<le> i \<Longrightarrow> arr_get xs i = None"
  by (simp add: arr_get_def)

lemma arr_set_out [simp, mem_simps]: "length xs \<le> i \<Longrightarrow> arr_set xs i v = None"
  by (simp add: arr_set_def)

subsection \<open>Option and list lemmas\<close>

lemma bind_Some_iff:
  "(x \<bind> f = Some y) \<longleftrightarrow> (\<exists>z. x = Some z \<and> f z = Some y)"
  by (cases x) auto

lemma list_update_swap_same: "i \<noteq> j \<Longrightarrow> xs[i := x, j := y] = xs[j := y, i := x]"
  by (rule list_update_swap)

lemma sum_list_update_word:
  fixes xs :: "'a::ab_group_add list"
  shows "i < length xs \<Longrightarrow> sum_list (xs[i := x]) = sum_list xs - xs ! i + x"
proof (induction xs arbitrary: i)
  case Nil
  then show ?case by simp
next
  case (Cons y ys)
  then show ?case by (cases i) (auto simp: algebra_simps)
qed

text \<open>\<open>foldM f xs s\<close> runs the effect \<open>f\<close> on every element, in order.\<close>

fun foldM :: "('a \<Rightarrow> 's \<Rightarrow> 's option) \<Rightarrow> 'a list \<Rightarrow> 's \<Rightarrow> 's option" where
  "foldM f [] s = Some s"
| "foldM f (x # xs) s = f x s \<bind> foldM f xs"

lemma foldM_append: "foldM f (xs @ ys) s = foldM f xs s \<bind> foldM f ys"
  by (induction xs arbitrary: s) (auto split: bind_splits)

lemma foldM_invariant:
  assumes "\<And>x s. x \<in> set xs \<Longrightarrow> I s \<Longrightarrow> \<exists>s'. f x s = Some s' \<and> I s'" and "I s"
  shows "\<exists>s'. foldM f xs s = Some s' \<and> I s'"
  using assms by (induction xs arbitrary: s) fastforce+

text \<open>A \<open>for\<close> loop over \<open>a \<le> k < b\<close> with an invariant that depends on \<open>k\<close>.\<close>

lemma foldM_upt_invariant:
  assumes "a \<le> b" and "I a s"
    and "\<And>k s. a \<le> k \<Longrightarrow> k < b \<Longrightarrow> I k s \<Longrightarrow> \<exists>s'. f k s = Some s' \<and> I (Suc k) s'"
  shows "\<exists>s'. foldM f [a..<b] s = Some s' \<and> I b s'"
  using assms
proof (induction "b - a" arbitrary: a s)
  case 0
  then show ?case by simp
next
  case (Suc m)
  then have "a < b" by simp
  with Suc.prems obtain s1 where s1: "f a s = Some s1" "I (Suc a) s1" by blast
  have "m = b - Suc a" using Suc.hyps(2) by simp
  from Suc.hyps(1) [OF this _ s1(2) Suc.prems(3)] \<open>a < b\<close>
  obtain s' where "foldM f [Suc a..<b] s1 = Some s'" "I b s'" by auto
  with s1 \<open>a < b\<close> show ?case by (simp add: upt_conv_Cons)
qed

end
