(* ===== verification/Range_Alloc.thy ===== *)
theory Range_Alloc
  imports Prelude
begin

text \<open>
  The contract that the bitmap allocator (\<^verbatim>\<open>mem_slot.c\<close>) and the buddy allocator
  (\<^verbatim>\<open>mem_buddy.c\<close>) share: both hand out ranges of an interval of numbers. \<open>rep s B\<close>
  relates a state of the allocator to the set \<open>B\<close> of ranges its client holds. An
  allocation is \<open>None\<close> where the code's behaviour is undefined, and returns no range
  where the code returns -1.
\<close>

definition apart :: "nat \<times> nat \<Rightarrow> nat \<times> nat \<Rightarrow> bool" where
  "apart p q \<longleftrightarrow> fst p + snd p \<le> fst q \<or> fst q + snd q \<le> fst p"

lemma apart_sym: "apart p q \<Longrightarrow> apart q p"
  by (auto simp: apart_def)

datatype 'n range_op = Take 'n | Give nat

locale range_allocator =
  fixes rep :: "'s \<Rightarrow> (nat \<times> nat) set \<Rightarrow> bool"
    and alloc :: "'s \<Rightarrow> 'n \<Rightarrow> (nat option \<times> 's) option"
    and release :: "'s \<Rightarrow> nat \<times> nat \<Rightarrow> 's option"
    and extent :: "'n \<Rightarrow> nat"
    and limit :: "'s \<Rightarrow> nat"
  assumes refuse_law: "rep s B \<Longrightarrow> alloc s n = Some (None, s') \<Longrightarrow> rep s' B \<and> limit s' = limit s"
    and alloc_law: "rep s B \<Longrightarrow> alloc s n = Some (Some a, s') \<Longrightarrow>
      rep s' (insert (a, extent n) B) \<and> limit s' = limit s \<and> a + extent n \<le> limit s \<and> 0 < extent n
      \<and> (\<forall>b\<in>B. apart (a, extent n) b)"
    and release_law: "rep s B \<Longrightarrow> b \<in> B \<Longrightarrow>
      \<exists>s'. release s b = Some s' \<and> rep s' (B - {b}) \<and> limit s' = limit s"
begin

text \<open>A client that keeps the ranges it holds in a list, newest first.\<close>

fun serve :: "'n range_op list \<Rightarrow> 's \<Rightarrow> (nat \<times> nat) list \<Rightarrow> ('s \<times> (nat \<times> nat) list) option" where
  "serve [] s bs = Some (s, bs)"
| "serve (Take n # ops) s bs = do {
     (r, s') \<leftarrow> alloc s n;
     case r of None \<Rightarrow> serve ops s' bs | Some a \<Rightarrow> serve ops s' ((a, extent n) # bs)
   }"
| "serve (Give i # ops) s bs =
     (if i < length bs then do {
        s' \<leftarrow> release s (bs ! i);
        serve ops s' (remove1 (bs ! i) bs)
      }
      else serve ops s bs)"

definition served :: "nat \<Rightarrow> 's \<Rightarrow> (nat \<times> nat) list \<Rightarrow> bool" where
  "served m s bs \<longleftrightarrow> rep s (set bs) \<and> limit s = m \<and> distinct bs \<and> sorted_wrt apart bs
     \<and> (\<forall>b\<in>set bs. fst b + snd b \<le> m \<and> 0 < snd b)"

lemma served_take:
  "served m s bs \<Longrightarrow> alloc s n = Some (Some a, s') \<Longrightarrow> served m s' ((a, extent n) # bs)"
  using alloc_law [of s "set bs" n a s'] by (fastforce simp: served_def apart_def)

lemma sorted_wrt_remove1: "sorted_wrt P xs \<Longrightarrow> sorted_wrt P (remove1 x xs)"
  by (induction xs) (auto dest: notin_set_remove1 set_mp [OF set_remove1_subset])

lemma served_give:
  assumes "served m s bs" and "i < length bs"
  obtains s' where "release s (bs ! i) = Some s'" "served m s' (remove1 (bs ! i) bs)"
proof -
  obtain s' where "release s (bs ! i) = Some s'" "rep s' (set bs - {bs ! i})" "limit s' = limit s"
    using release_law [of s "set bs" "bs ! i"] assms by (auto simp: served_def)
  with assms that [of s'] show thesis by (auto simp: served_def sorted_wrt_remove1)
qed

lemma serve_safe:
  "served m s bs \<Longrightarrow> serve ops s bs = Some (s', bs') \<Longrightarrow> served m s' bs'"
proof (induction ops s bs rule: serve.induct)
  case (2 n ops s bs)
  then obtain r s1 where r: "alloc s n = Some (r, s1)"
    "(case r of None \<Rightarrow> serve ops s1 bs | Some a \<Rightarrow> serve ops s1 ((a, extent n) # bs)) = Some (s', bs')"
    by (auto simp: bind_eq_Some_conv)
  show ?case
  proof (cases r)
    case None
    have "served m s1 bs" using 2(3) refuse_law [of s "set bs" n s1] r(1) None by (simp add: served_def)
    with 2 r None show ?thesis by auto
  next
    case (Some a)
    with 2 r served_take [of m s bs n a s1] show ?thesis by auto
  qed
next
  case (3 i ops s bs)
  show ?case
  proof (cases "i < length bs")
    case True
    then obtain s1 where "release s (bs ! i) = Some s1" "served m s1 (remove1 (bs ! i) bs)"
      using served_give [OF 3(3)] by blast
    with 3 True show ?thesis by auto
  next
    case False
    with 3 show ?thesis by auto
  qed
qed auto

text \<open>Where a sequence goes wrong, it does so at an allocation: everything before it was served.\<close>

lemma serve_none:
  "served m s bs \<Longrightarrow> serve ops s bs = None \<Longrightarrow>
   \<exists>pre n post s' bs'. ops = pre @ Take n # post \<and> serve pre s bs = Some (s', bs') \<and> served m s' bs' \<and> alloc s' n = None"
proof (induction ops arbitrary: s bs)
  case (Cons q ops)
  note serv = Cons.prems(1) and none = Cons.prems(2)
  have step: ?case if next_op: "\<And>qs. serve (q # qs) s bs = serve qs s1 bs1" and ok: "served m s1 bs1" for s1 bs1
  proof -
    obtain pre n post s' bs' where "ops = pre @ Take n # post" "serve pre s1 bs1 = Some (s', bs')" "served m s' bs'" "alloc s' n = None"
      using Cons.IH [OF ok] none next_op by auto
    with next_op [of pre] show ?thesis
      by (intro exI [of _ "q # pre"] exI [of _ n] exI [of _ post] exI [of _ s'] exI [of _ bs']) simp
  qed
  show ?case
  proof (cases q)
    case (Take n)
    show ?thesis
    proof (cases "alloc s n")
      case None
      with serv Take show ?thesis by (intro exI [of _ "[]"] exI [of _ n] exI [of _ ops] exI [of _ s] exI [of _ bs]) simp
    next
      case (Some rs)
      then obtain r s1 where r: "alloc s n = Some (r, s1)" by (cases rs) simp
      show ?thesis
      proof (cases r)
        case None
        then have "served m s1 bs" using serv refuse_law [of s "set bs" n s1] r by (simp add: served_def)
        with step [of s1 bs] r None Take show ?thesis by simp
      next
        case (Some a)
        with step [of s1 "(a, extent n) # bs"] served_take [OF serv, of n a s1] r Take show ?thesis by simp
      qed
    qed
  next
    case (Give i)
    show ?thesis
    proof (cases "i < length bs")
      case True
      obtain s1 where s1: "release s (bs ! i) = Some s1" "served m s1 (remove1 (bs ! i) bs)"
        using served_give [OF serv True] by blast
      with step [of s1 "remove1 (bs ! i) bs"] Give True show ?thesis by simp
    next
      case False
      with step [of s bs] serv Give show ?thesis by simp
    qed
  qed
qed simp

end

text \<open>An allocator whose allocations never go wrong for the requests \<open>fine\<close>.\<close>

locale total_allocator = range_allocator rep alloc release extent limit
  for rep :: "'s \<Rightarrow> (nat \<times> nat) set \<Rightarrow> bool"
    and alloc :: "'s \<Rightarrow> 'n \<Rightarrow> (nat option \<times> 's) option"
    and release :: "'s \<Rightarrow> nat \<times> nat \<Rightarrow> 's option"
    and extent :: "'n \<Rightarrow> nat"
    and limit :: "'s \<Rightarrow> nat" +
  fixes fine :: "'n \<Rightarrow> bool"
  assumes alloc_total: "rep s B \<Longrightarrow> fine n \<Longrightarrow> alloc s n \<noteq> None"
begin

lemma serve_total:
  "served m s bs \<Longrightarrow> (\<And>n. Take n \<in> set ops \<Longrightarrow> fine n) \<Longrightarrow> \<exists>s' bs'. serve ops s bs = Some (s', bs')"
proof (induction ops s bs rule: serve.induct)
  case (2 n ops s bs)
  have "fine n" using 2(4) by simp
  then obtain r s1 where r: "alloc s n = Some (r, s1)"
    using alloc_total [of s "set bs" n] 2(3) by (auto simp: served_def)
  show ?case
  proof (cases r)
    case None
    have "served m s1 bs" using 2(3) refuse_law [of s "set bs" n s1] r None by (simp add: served_def)
    with 2 r None show ?thesis by auto
  next
    case (Some a)
    with 2 r served_take [of m s bs n a s1] show ?thesis by auto
  qed
next
  case (3 i ops s bs)
  show ?case
  proof (cases "i < length bs")
    case True
    then obtain s1 where "release s (bs ! i) = Some s1" "served m s1 (remove1 (bs ! i) bs)"
      using served_give [OF 3(3)] by blast
    with 3 True show ?thesis by auto
  next
    case False
    with 3 show ?thesis by auto
  qed
qed auto

end

end
