(* ===== verification/Mem_Slot.thy ===== *)
theory Mem_Slot
  imports Prelude Range_Alloc "HOL-Library.Signed_Division"
begin

text \<open>
  The bitmap allocator of \<^verbatim>\<open>src/c/src/mem_slot.h\<close> and \<^verbatim>\<open>src/c/src/mem_slot.c\<close>,
  and the bit-counting functions it falls back on without a GNU compiler. Slot \<open>k\<close> is
  bit \<open>7 - k mod 8\<close> of byte \<open>k div 8\<close>. Offsets are C \<open>int\<close>s: division truncates
  towards zero, a shift by a negative count and an access outside \<open>flag\<close> are
  undefined.
\<close>

unbundle bit_operations_syntax

subsection \<open>Counting zeros\<close>

definition bits_cl0_u8 :: "u8 \<Rightarrow> int" where
  "bits_cl0_u8 x =
     (let n = 7;
          (n, x) = (if x AND 240 \<noteq> 0 then (n - 4, drop_bit 4 x) else (n, x));
          (n, x) = (if x AND 12 \<noteq> 0 then (n - 2, drop_bit 2 x) else (n, x))
      in if x AND 2 \<noteq> 0 then n - 1 else n)"

definition bits_ct0_u8 :: "u8 \<Rightarrow> int" where
  "bits_ct0_u8 x =
     (let n = 0;
          (n, x) = (if x AND 15 = 0 then (n + 4, drop_bit 4 x) else (n, x));
          (n, x) = (if x AND 3 = 0 then (n + 2, drop_bit 2 x) else (n, x))
      in if x AND 1 = 0 then n + 1 else n)"

definition bits_cl0_u32 :: "u32 \<Rightarrow> int" where
  "bits_cl0_u32 x =
     (let n = 31;
          (n, x) = (if x AND 4294901760 \<noteq> 0 then (n - 16, drop_bit 16 x) else (n, x));
          (n, x) = (if x AND 65280 \<noteq> 0 then (n - 8, drop_bit 8 x) else (n, x));
          (n, x) = (if x AND 240 \<noteq> 0 then (n - 4, drop_bit 4 x) else (n, x));
          (n, x) = (if x AND 12 \<noteq> 0 then (n - 2, drop_bit 2 x) else (n, x))
      in if x AND 2 \<noteq> 0 then n - 1 else n)"

definition bits_ct0_u32 :: "u32 \<Rightarrow> int" where
  "bits_ct0_u32 x =
     (let n = 0;
          (n, x) = (if x AND 65535 = 0 then (n + 16, drop_bit 16 x) else (n, x));
          (n, x) = (if x AND 255 = 0 then (n + 8, drop_bit 8 x) else (n, x));
          (n, x) = (if x AND 15 = 0 then (n + 4, drop_bit 4 x) else (n, x));
          (n, x) = (if x AND 3 = 0 then (n + 2, drop_bit 2 x) else (n, x))
      in if x AND 1 = 0 then n + 1 else n)"

definition bits_cl0_u64 :: "64 word \<Rightarrow> int" where
  "bits_cl0_u64 x =
     (let n = 63;
          (n, x) = (if x AND 18446744069414584320 \<noteq> 0 then (n - 32, drop_bit 32 x) else (n, x));
          (n, x) = (if x AND 4294901760 \<noteq> 0 then (n - 16, drop_bit 16 x) else (n, x));
          (n, x) = (if x AND 65280 \<noteq> 0 then (n - 8, drop_bit 8 x) else (n, x));
          (n, x) = (if x AND 240 \<noteq> 0 then (n - 4, drop_bit 4 x) else (n, x));
          (n, x) = (if x AND 12 \<noteq> 0 then (n - 2, drop_bit 2 x) else (n, x))
      in if x AND 2 \<noteq> 0 then n - 1 else n)"

definition bits_ct0_u64 :: "64 word \<Rightarrow> int" where
  "bits_ct0_u64 x =
     (let n = 0;
          (n, x) = (if x AND 4294967295 = 0 then (n + 32, drop_bit 32 x) else (n, x));
          (n, x) = (if x AND 65535 = 0 then (n + 16, drop_bit 16 x) else (n, x));
          (n, x) = (if x AND 255 = 0 then (n + 8, drop_bit 8 x) else (n, x));
          (n, x) = (if x AND 15 = 0 then (n + 4, drop_bit 4 x) else (n, x));
          (n, x) = (if x AND 3 = 0 then (n + 2, drop_bit 2 x) else (n, x))
      in if x AND 1 = 0 then n + 1 else n)"

text \<open>
  One halving step of each search. \<open>cl_inv X w (n, x)\<close>: the leading one of \<open>X\<close> is in
  the window of \<open>w\<close> bits that \<open>x\<close> now holds, at distance \<open>n\<close> less \<open>w - 1\<close>.
\<close>

definition cl_step :: "nat \<Rightarrow> 'a::len word \<Rightarrow> int \<times> 'a word \<Rightarrow> int \<times> 'a word" where
  "cl_step k m = (\<lambda>(n, x). if x AND m \<noteq> 0 then (n - int k, drop_bit k x) else (n, x))"

definition ct_step :: "nat \<Rightarrow> 'a::len word \<Rightarrow> int \<times> 'a word \<Rightarrow> int \<times> 'a word" where
  "ct_step k m = (\<lambda>(n, x). if x AND m = 0 then (n + int k, drop_bit k x) else (n, x))"

definition cl_inv :: "nat \<Rightarrow> 'a::len word \<Rightarrow> nat \<Rightarrow> int \<times> 'a word \<Rightarrow> bool" where
  "cl_inv N X w = (\<lambda>(n, x). \<exists>s. x = drop_bit s X \<and> n = int N - 1 - int s \<and> s + w \<le> N
     \<and> x \<noteq> 0 \<and> unat x < 2 ^ w)"

definition ct_inv :: "'a::len word \<Rightarrow> nat \<Rightarrow> int \<times> 'a word \<Rightarrow> bool" where
  "ct_inv X w = (\<lambda>(n, x). \<exists>s. x = drop_bit s X \<and> n = int s \<and> take_bit s X = 0 \<and> take_bit w x \<noteq> 0)"

lemma and_high_nonzero:
  fixes x :: "'a::len word"
  assumes "unat x < 2 ^ (2 * k)" and "2 * k \<le> LENGTH('a)" and m: "m = push_bit k (mask k)"
  shows "x AND m \<noteq> 0 \<longleftrightarrow> drop_bit k x \<noteq> 0"
proof -
  have top: "\<not> bit x j" if "2 * k \<le> j" for j
  proof
    assume "bit x j"
    then have "bit (unat x) j" by (simp add: bit_unsigned_iff)
    then have "2 ^ j \<le> unat x" by (metis bit_nat_iff le_less_linear div_less odd_one even_zero bit_iff_odd)
    with assms(1) that show False by (meson le_less_trans not_less power_increasing one_le_numeral)
  qed
  show ?thesis
  proof
    assume "x AND m \<noteq> 0"
    then obtain j where "bit (x AND m) j" using bit_eqI [of "x AND m" 0] by auto
    then have "bit x j" "k \<le> j" using m by (auto simp: bit_simps)
    then have "bit (drop_bit k x) (j - k)" by (simp add: bit_drop_bit_eq)
    then show "drop_bit k x \<noteq> 0" by auto
  next
    assume "drop_bit k x \<noteq> 0"
    then obtain j where "bit (drop_bit k x) j" using bit_eqI [of "drop_bit k x" 0] by auto
    then have j: "bit x (k + j)" by (simp add: bit_drop_bit_eq)
    with top have "k + j < 2 * k" by (meson not_less)
    with j m assms(2) have "bit (x AND m) (k + j)" by (auto simp: bit_simps)
    then show "x AND m \<noteq> 0" by auto
  qed
qed

lemma unat_drop_bit: "unat (drop_bit k (x :: 'a::len word)) = unat x div 2 ^ k"
  by (simp only: unat_drop_bit_eq drop_bit_nat_def)

lemma cl_step_inv:
  fixes X :: "'a::len word"
  assumes "cl_inv N X w p" and w: "w = 2 * k" and "N \<le> LENGTH('a)" and "m = push_bit k (mask k)"
  shows "cl_inv N X k (cl_step k m p)"
proof -
  obtain n x s where p: "p = (n, x)" and x: "x = drop_bit s X" "n = int N - 1 - int s"
    "s + 2 * k \<le> N" "x \<noteq> 0" "unat x < 2 ^ (2 * k)"
    using assms(1) w by (auto simp: cl_inv_def)
  have eq: "x AND m \<noteq> 0 \<longleftrightarrow> drop_bit k x \<noteq> 0"
    by (rule and_high_nonzero [OF x(5) _ assms(4)]) (use x(3) assms(3) in simp)
  show ?thesis
  proof (cases "drop_bit k x = 0")
    case True
    then have "unat x div 2 ^ k = 0" using unat_drop_bit [of k x] by simp
    then have "unat x < 2 ^ k" by (simp add: div_eq_0_iff)
    with True eq p x show ?thesis by (auto simp: cl_step_def cl_inv_def)
  next
    case False
    have "unat (drop_bit k x) < 2 ^ k"
      using x(5) unfolding unat_drop_bit by (simp add: less_mult_imp_div_less power_add mult_2)
    with False eq p x show ?thesis
      by (auto simp: cl_step_def cl_inv_def intro!: exI [of _ "s + k"]) (simp add: add.commute)
  qed
qed

lemma and_mask_zero: "(x :: 'a::len word) AND mask k = 0 \<longleftrightarrow> take_bit k x = 0"
  by (simp add: take_bit_eq_mask)

lemma ct_step_inv:
  fixes X :: "'a::len word"
  assumes "ct_inv X w p" and w: "w = 2 * k" and "m = mask k"
  shows "ct_inv X k (ct_step k m p)"
proof -
  obtain n x s where p: "p = (n, x)" and x: "x = drop_bit s X" "n = int s" "take_bit s X = 0"
    "take_bit (2 * k) x \<noteq> 0"
    using assms(1) w by (auto simp: ct_inv_def)
  show ?thesis
  proof (cases "take_bit k x = 0")
    case True
    have low: "take_bit (s + k) X = 0"
    proof (rule bit_word_eqI)
      fix j assume "j < LENGTH('a)"
      have "\<not> bit X j" if "j < s + k"
      proof (cases "j < s")
        case True
        with arg_cong [OF x(3), of "\<lambda>w. bit w j"] show ?thesis by (simp add: bit_take_bit_iff)
      next
        case False
        with that arg_cong [OF True, of "\<lambda>w. bit w (j - s)"] x(1) show ?thesis
          by (simp add: bit_take_bit_iff bit_drop_bit_eq)
      qed
      then show "bit (take_bit (s + k) X) j = bit 0 j" by (simp add: bit_take_bit_iff)
    qed
    have high: "take_bit k (drop_bit k x) \<noteq> 0"
    proof
      assume z: "take_bit k (drop_bit k x) = 0"
      have "take_bit (2 * k) x = 0"
      proof (rule bit_word_eqI)
        fix j assume "j < LENGTH('a)"
        have "\<not> bit x j" if "j < 2 * k"
        proof (cases "j < k")
          case True
          with arg_cong [OF \<open>take_bit k x = 0\<close>, of "\<lambda>w. bit w j"] show ?thesis
            by (simp add: bit_take_bit_iff)
        next
          case False
          with that arg_cong [OF z, of "\<lambda>w. bit w (j - k)"] show ?thesis
            by (simp add: bit_take_bit_iff bit_drop_bit_eq)
        qed
        then show "bit (take_bit (2 * k) x) j = bit 0 j" by (simp add: bit_take_bit_iff)
      qed
      with x(4) show False by simp
    qed
    have "ct_inv X k (n + int k, drop_bit k x)"
      unfolding ct_inv_def prod.case by (rule exI [of _ "s + k"]) (use x low high in \<open>simp add: add.commute\<close>)
    with True p assms(3) show ?thesis by (simp add: ct_step_def and_mask_zero)
  next
    case False
    with p x assms(3) show ?thesis by (auto simp: ct_step_def ct_inv_def and_mask_zero)
  qed
qed

text \<open>What the counts promise: the position of the highest and of the lowest one.\<close>

definition is_leading_zeros :: "'a::len word \<Rightarrow> int \<Rightarrow> bool" where
  "is_leading_zeros x n \<longleftrightarrow> 0 \<le> n \<and> n < int LENGTH('a) \<and> bit x (LENGTH('a) - 1 - nat n)
     \<and> (\<forall>j > LENGTH('a) - 1 - nat n. \<not> bit x j)"

definition is_trailing_zeros :: "'a::len word \<Rightarrow> int \<Rightarrow> bool" where
  "is_trailing_zeros x n \<longleftrightarrow> 0 \<le> n \<and> n < int LENGTH('a) \<and> bit x (nat n)
     \<and> (\<forall>j < nat n. \<not> bit x j)"

lemma cl_inv_initial:
  fixes X :: "'a::len word"
  shows "X \<noteq> 0 \<Longrightarrow> cl_inv LENGTH('a) X LENGTH('a) (int LENGTH('a) - 1, X)"
  unfolding cl_inv_def prod.case by (rule exI [of _ 0]) simp

lemma ct_inv_initial:
  fixes X :: "'a::len word"
  shows "X \<noteq> 0 \<Longrightarrow> ct_inv X LENGTH('a) (0, X)"
  unfolding ct_inv_def prod.case by (rule exI [of _ 0]) simp

lemma cl_inv_final:
  fixes X :: "'a::len word"
  assumes "cl_inv LENGTH('a) X 1 p"
  shows "is_leading_zeros X (fst p)"
proof -
  obtain s where s: "fst p = int LENGTH('a) - 1 - int s" "s + 1 \<le> LENGTH('a)"
    "drop_bit s X \<noteq> 0" "unat (drop_bit s X) < 2"
    using assms by (auto simp: cl_inv_def)
  have one: "drop_bit s X = 1"
  proof (rule word_unat_eq_iff [THEN iffD2])
    have "unat (drop_bit s X) \<noteq> 0" using s(3) by (simp add: unat_eq_0)
    with s(4) show "unat (drop_bit s X) = unat (1 :: 'a word)" by simp
  qed
  have "bit X j = bit (1 :: 'a word) (j - s)" if "s \<le> j" for j
    using that arg_cong [OF one, of "\<lambda>w. bit w (j - s)"] by (simp add: bit_drop_bit_eq)
  with s(1,2) show ?thesis by (auto simp: is_leading_zeros_def bit_1_iff nat_diff_distrib)
qed

lemma ct_inv_final:
  fixes X :: "'a::len word"
  assumes "ct_inv X 1 p"
  shows "is_trailing_zeros X (fst p)"
proof -
  obtain s where s: "fst p = int s" "take_bit s X = 0" "take_bit 1 (drop_bit s X) \<noteq> 0"
    using assms by (auto simp: ct_inv_def)
  have "drop_bit s X mod 2 \<noteq> 0" using s(3) by (simp add: take_bit_eq_mod)
  then have "bit X s" by (simp add: bit_iff_odd_drop_bit even_iff_mod_2_eq_zero)
  moreover from this have "s < LENGTH('a)" by (rule bit_imp_le_length)
  moreover have "\<not> bit X j" if "j < s" for j
    using that arg_cong [OF s(2), of "\<lambda>w. bit w j"] by (simp add: bit_take_bit_iff)
  ultimately show ?thesis using s(1) by (simp add: is_trailing_zeros_def)
qed

lemmas zero_count_masks = mask_eq_exp_minus_1 push_bit_eq_mult

lemma cl_step_fold:
  "(if x AND m \<noteq> 0 then (n - numeral k, drop_bit (numeral k) x) else (n, x))
     = cl_step (numeral k) m (n, x)"
  "(if x AND m \<noteq> 0 then n - 1 else n) = fst (cl_step 1 m (n, x))"
  by (auto simp: cl_step_def)

lemma ct_step_fold:
  "(if x AND m = 0 then (n + numeral k, drop_bit (numeral k) x) else (n, x))
     = ct_step (numeral k) m (n, x)"
  "(if x AND m = 0 then n + 1 else n) = fst (ct_step 1 m (n, x))"
  by (auto simp: ct_step_def)

lemma bits_cl0_u8_correct:
  assumes "x \<noteq> 0"
  shows "is_leading_zeros x (bits_cl0_u8 x)"
proof -
  have init: "cl_inv 8 x 8 (7, x)" using cl_inv_initial [OF assms] by simp
  have "cl_inv 8 x 1 (cl_step 1 2 (cl_step 2 12 (cl_step 4 240 (7, x))))"
    by ((rule cl_step_inv)+, rule init, simp_all add: zero_count_masks)
  then have "is_leading_zeros x (fst (cl_step 1 2 (cl_step 2 12 (cl_step 4 240 (7, x)))))"
    using cl_inv_final [of x] by simp
  then show ?thesis
    unfolding bits_cl0_u8_def Let_def cl_step_fold
    by (simp add: case_prod_beta)
qed

lemma bits_ct0_u8_correct:
  assumes "x \<noteq> 0"
  shows "is_trailing_zeros x (bits_ct0_u8 x)"
proof -
  have init: "ct_inv x 8 (0, x)" using ct_inv_initial [OF assms] by simp
  have "ct_inv x 1 (ct_step 1 1 (ct_step 2 3 (ct_step 4 15 (0, x))))"
    by ((rule ct_step_inv)+, rule init, simp_all add: zero_count_masks)
  then have "is_trailing_zeros x (fst (ct_step 1 1 (ct_step 2 3 (ct_step 4 15 (0, x)))))"
    using ct_inv_final [of x] by simp
  then show ?thesis
    unfolding bits_ct0_u8_def Let_def ct_step_fold
    by (simp add: case_prod_beta)
qed

lemma bits_cl0_u32_correct:
  assumes "x \<noteq> 0"
  shows "is_leading_zeros x (bits_cl0_u32 x)"
proof -
  have init: "cl_inv 32 x 32 (31, x)" using cl_inv_initial [OF assms] by simp
  have "cl_inv 32 x 1 (cl_step 1 2 (cl_step 2 12 (cl_step 4 240 (cl_step 8 65280 (cl_step 16 4294901760 (31, x))))))"
    by ((rule cl_step_inv)+, rule init, simp_all add: zero_count_masks)
  then have "is_leading_zeros x (fst (cl_step 1 2 (cl_step 2 12 (cl_step 4 240 (cl_step 8 65280 (cl_step 16 4294901760 (31, x)))))))"
    using cl_inv_final [of x] by simp
  then show ?thesis
    unfolding bits_cl0_u32_def Let_def cl_step_fold
    by (simp add: case_prod_beta)
qed

lemma bits_ct0_u32_correct:
  assumes "x \<noteq> 0"
  shows "is_trailing_zeros x (bits_ct0_u32 x)"
proof -
  have init: "ct_inv x 32 (0, x)" using ct_inv_initial [OF assms] by simp
  have "ct_inv x 1 (ct_step 1 1 (ct_step 2 3 (ct_step 4 15 (ct_step 8 255 (ct_step 16 65535 (0, x))))))"
    by ((rule ct_step_inv)+, rule init, simp_all add: zero_count_masks)
  then have "is_trailing_zeros x (fst (ct_step 1 1 (ct_step 2 3 (ct_step 4 15 (ct_step 8 255 (ct_step 16 65535 (0, x)))))))"
    using ct_inv_final [of x] by simp
  then show ?thesis
    unfolding bits_ct0_u32_def Let_def ct_step_fold
    by (simp add: case_prod_beta)
qed

lemma bits_cl0_u64_correct:
  assumes "x \<noteq> 0"
  shows "is_leading_zeros x (bits_cl0_u64 x)"
proof -
  have init: "cl_inv 64 x 64 (63, x)" using cl_inv_initial [OF assms] by simp
  have "cl_inv 64 x 1 (cl_step 1 2 (cl_step 2 12 (cl_step 4 240 (cl_step 8 65280 (cl_step 16 4294901760 (cl_step 32 18446744069414584320 (63, x)))))))"
    by ((rule cl_step_inv)+, rule init, simp_all add: zero_count_masks)
  then have "is_leading_zeros x (fst (cl_step 1 2 (cl_step 2 12 (cl_step 4 240 (cl_step 8 65280 (cl_step 16 4294901760 (cl_step 32 18446744069414584320 (63, x))))))))"
    using cl_inv_final [of x] by simp
  then show ?thesis
    unfolding bits_cl0_u64_def Let_def cl_step_fold
    by (simp add: case_prod_beta)
qed

lemma bits_ct0_u64_correct:
  assumes "x \<noteq> 0"
  shows "is_trailing_zeros x (bits_ct0_u64 x)"
proof -
  have init: "ct_inv x 64 (0, x)" using ct_inv_initial [OF assms] by simp
  have "ct_inv x 1 (ct_step 1 1 (ct_step 2 3 (ct_step 4 15 (ct_step 8 255 (ct_step 16 65535 (ct_step 32 4294967295 (0, x)))))))"
    by ((rule ct_step_inv)+, rule init, simp_all add: zero_count_masks)
  then have "is_trailing_zeros x (fst (ct_step 1 1 (ct_step 2 3 (ct_step 4 15 (ct_step 8 255 (ct_step 16 65535 (ct_step 32 4294967295 (0, x))))))))"
    using ct_inv_final [of x] by simp
  then show ?thesis
    unfolding bits_ct0_u64_def Let_def ct_step_fold
    by (simp add: case_prod_beta)
qed

subsection \<open>The bitmap\<close>

record mem_slot =
  sl_n :: u8
  sl_flag :: "u8 list"

text \<open>\<open>oom\<close>: the \<open>as_malloc\<close> fails.\<close>

definition slot_new :: "bool \<Rightarrow> u8 \<Rightarrow> mem_slot option" where
  "slot_new oom n = (if oom then None else Some \<lparr>sl_n = n, sl_flag = replicate (unat n) 0\<rparr>)"

definition slot_size :: "mem_slot \<Rightarrow> nat" where
  "slot_size s = unat (sl_n s) * 8"

definition flag_upd :: "(u8 \<Rightarrow> u8) \<Rightarrow> int \<Rightarrow> u8 list \<Rightarrow> u8 list option" where
  "flag_upd f i fl = (if 0 \<le> i \<and> i < int (length fl) then Some (fl[nat i := f (fl ! nat i)]) else None)"

text \<open>\<open>0xff >> k\<close> and \<open>0xff << (8 - k)\<close>, cut to a byte; a negative count is undefined.\<close>

definition shr_ff :: "int \<Rightarrow> u8 option" where
  "shr_ff k = (if 0 \<le> k then Some (drop_bit (nat k) 255) else None)"

definition shl_ff :: "int \<Rightarrow> u8 option" where
  "shl_ff k = (if 0 \<le> k then Some (push_bit (nat k) 255) else None)"

definition int32 :: "int \<Rightarrow> int option" where
  "int32 v = (if - (2 ^ 31) \<le> v \<and> v < 2 ^ 31 then Some v else None)"

definition mark_used_flag :: "u8 list \<Rightarrow> int \<Rightarrow> int \<Rightarrow> u8 list option" where
  "mark_used_flag fl off l = do {
     off0 \<leftarrow> int32 (off + l);
     let i = off sdiv 8;
     let i0 = off0 sdiv 8;
     hi \<leftarrow> shr_ff (off smod 8);
     lo \<leftarrow> shl_ff (8 - off0 smod 8);
     if i = i0 then flag_upd (\<lambda>b. b OR (hi AND lo)) i fl
     else do {
       fl \<leftarrow> flag_upd (\<lambda>b. b OR hi) i fl;
       fl \<leftarrow> flag_upd (\<lambda>b. b OR lo) i0 fl;
       foldM (\<lambda>j fl. flag_upd (\<lambda>_. 255) j fl) [i + 1..i0 - 1] fl
     }
   }"

definition mark_free_flag :: "u8 list \<Rightarrow> int \<Rightarrow> int \<Rightarrow> u8 list option" where
  "mark_free_flag fl off l = do {
     off0 \<leftarrow> int32 (off + l);
     let i = off sdiv 8;
     let i0 = off0 sdiv 8;
     hi \<leftarrow> shr_ff (off smod 8);
     lo \<leftarrow> shl_ff (8 - off0 smod 8);
     if i = i0 then flag_upd (\<lambda>b. b AND NOT (hi AND lo)) i fl
     else do {
       fl \<leftarrow> flag_upd (\<lambda>b. b AND NOT hi) i fl;
       fl \<leftarrow> flag_upd (\<lambda>b. b AND NOT lo) i0 fl;
       foldM (\<lambda>j fl. flag_upd (\<lambda>_. 0) j fl) [i + 1..i0 - 1] fl
     }
   }"

text \<open>
  The scan of \<open>slot_alloc\<close> from byte \<open>i\<close> on: \<open>emp\<close> and \<open>off\<close> are the code's \<open>empty\<close>
  and \<open>offset\<close>. Both stay at most \<open>8 * 255\<close>, so nothing wraps.
\<close>

fun slot_scan :: "nat \<Rightarrow> u8 list \<Rightarrow> nat \<Rightarrow> nat \<Rightarrow> int \<Rightarrow> nat \<times> int" where
  "slot_scan sz [] i emp off = (emp, off)"
| "slot_scan sz (b # fl) i emp off =
     (if \<not> emp < sz then (emp, off)
      else if b = 0 then slot_scan sz fl (i + 1) (emp + 8) off
      else let leading = nat (bits_cl0_u8 b)
           in if emp + leading \<ge> sz then slot_scan sz fl (i + 1) (emp + leading) off
              else let emp = nat (bits_ct0_u8 b)
                   in slot_scan sz fl (i + 1) emp (int i * 8 + (8 - int emp)))"

definition slot_alloc :: "mem_slot option \<Rightarrow> u32 \<Rightarrow> (int \<times> mem_slot option) option" where
  "slot_alloc s sz = (case s of
       None \<Rightarrow> Some (-1, s)
     | Some t \<Rightarrow>
         if unat sz > slot_size t \<or> sz = 0 then Some (-1, s)
         else let (emp, off) = slot_scan (unat sz) (take (unat (sl_n t)) (sl_flag t)) 0 0 0
              in if emp \<ge> unat sz then do {
                   fl \<leftarrow> mark_used_flag (sl_flag t) off (sint sz);
                   Some (off, Some (t\<lparr>sl_flag := fl\<rparr>))
                 }
                 else Some (-1, s))"

text \<open>The sum \<open>offset + size\<close> is unsigned, and wraps; \<open>offset\<close> alone is compared as an \<open>int\<close>.\<close>

definition slot_free :: "mem_slot option \<Rightarrow> int \<Rightarrow> u32 \<Rightarrow> mem_slot option option" where
  "slot_free s off sz = (case s of
       None \<Rightarrow> Some s
     | Some t \<Rightarrow>
         if off > int (slot_size t) \<or> unat (word_of_int off + sz) > slot_size t then Some s
         else do {
           fl \<leftarrow> mark_free_flag (sl_flag t) off (sint sz);
           Some (Some (t\<lparr>sl_flag := fl\<rparr>))
         })"

definition byte_chars :: "u8 \<Rightarrow> string" where
  "byte_chars b = map (\<lambda>j. if b AND drop_bit j (push_bit 7 1) \<noteq> 0 then CHR ''*'' else CHR ''_'') [0..<8]"

text \<open>The line \<open>slot_print\<close> writes.\<close>

definition slot_print :: "mem_slot option \<Rightarrow> string" where
  "slot_print s = (case s of
       None \<Rightarrow> []
     | Some t \<Rightarrow> concat (map byte_chars (take (unat (sl_n t)) (sl_flag t))) @ [CHR 0x0A])"

subsection \<open>Marking a range\<close>

text \<open>\<open>slot_used fl k\<close>: bit \<open>k\<close> of the map, counted from the top of the first byte.\<close>

definition slot_used :: "u8 list \<Rightarrow> nat \<Rightarrow> bool" where
  "slot_used fl k = bit (fl ! (k div 8)) (7 - k mod 8)"

lemma bit_ff: "bit (255 :: u8) j \<longleftrightarrow> j < 8"
proof -
  have "(255 :: u8) = mask 8" by (simp add: mask_eq_exp_minus_1)
  then have "bit (255 :: u8) j \<longleftrightarrow> bit (mask 8 :: u8) j" by (simp only:)
  also have "\<dots> \<longleftrightarrow> j < 8" unfolding bit_mask_iff by (auto simp: possible_bit_word)
  finally show ?thesis .
qed

lemma bit_shr_ff: "j < 8 \<Longrightarrow> bit (drop_bit r (255 :: u8)) (7 - j) \<longleftrightarrow> r \<le> j"
  by (simp only: bit_drop_bit_eq o_def bit_ff) auto

lemma bit_shl_ff: "j < 8 \<Longrightarrow> r \<le> 8 \<Longrightarrow> bit (push_bit (8 - r) (255 :: u8)) (7 - j) \<longleftrightarrow> j < r"
  by (simp only: bit_push_bit_iff possible_bit_word bit_ff) auto

lemma flag_upd_int:
  "i < length fl \<Longrightarrow> flag_upd f (int i) fl = Some (fl[i := f (fl ! i)])"
  by (simp add: flag_upd_def)

lemma flag_upd_out: "length fl \<le> i \<Longrightarrow> flag_upd f (int i) fl = None"
  by (simp add: flag_upd_def)

lemma fill_bytes:
  "(\<forall>j\<in>set js. 0 \<le> j \<and> j < int (length fl)) \<Longrightarrow>
   \<exists>fl'. foldM (\<lambda>j fl. flag_upd (\<lambda>_. v) j fl) js fl = Some fl' \<and> length fl' = length fl
     \<and> (\<forall>k < length fl. fl' ! k = (if int k \<in> set js then v else fl ! k))"
proof (induction js arbitrary: fl)
  case Nil
  then show ?case by simp
next
  case (Cons j js)
  let ?fl = "fl[nat j := v]"
  have upd: "flag_upd (\<lambda>_. v) j fl = Some ?fl" using Cons.prems by (simp add: flag_upd_def)
  obtain fl' where fl': "foldM (\<lambda>j fl. flag_upd (\<lambda>_. v) j fl) js ?fl = Some fl'"
    "length fl' = length fl"
    "\<forall>k < length fl. fl' ! k = (if int k \<in> set js then v else ?fl ! k)"
    using Cons.IH [of ?fl] Cons.prems by auto
  have "\<forall>k < length fl. fl' ! k = (if int k \<in> set (j # js) then v else fl ! k)"
    using fl'(3) Cons.prems by (auto simp: nth_list_update)
  with fl' upd show ?case by auto
qed

lemma sdiv_smod_8 [simp]: "int k sdiv 8 = int (k div 8)" "int k smod 8 = int (k mod 8)"
  by (cases "k = 0"; simp add: signed_divide_int_def signed_modulo_int_def zdiv_int zmod_int)+

lemma shr_ff_int [simp]: "shr_ff (int k) = Some (drop_bit k 255)"
  by (simp add: shr_ff_def)

lemma shl_ff_int [simp]: "r \<le> 8 \<Longrightarrow> shl_ff (8 - int r) = Some (push_bit (8 - r) 255)"
  by (simp add: shl_ff_def nat_diff_distrib)

lemma int32_int [simp]: "k < 2 ^ 31 \<Longrightarrow> int32 (int k) = Some (int k)"
  by (simp add: int32_def)

text \<open>
  Both marking functions are one scheme: a byte operation that sets or clears the bits of
  a mask, and the value of the whole bytes in between.
\<close>

definition mark_range ::
  "(u8 \<Rightarrow> u8 \<Rightarrow> u8) \<Rightarrow> u8 \<Rightarrow> u8 list \<Rightarrow> int \<Rightarrow> int \<Rightarrow> u8 list option" where
  "mark_range g v fl off l = do {
     off0 \<leftarrow> int32 (off + l);
     let i = off sdiv 8;
     let i0 = off0 sdiv 8;
     hi \<leftarrow> shr_ff (off smod 8);
     lo \<leftarrow> shl_ff (8 - off0 smod 8);
     if i = i0 then flag_upd (\<lambda>b. g b (hi AND lo)) i fl
     else do {
       fl \<leftarrow> flag_upd (\<lambda>b. g b hi) i fl;
       fl \<leftarrow> flag_upd (\<lambda>b. g b lo) i0 fl;
       foldM (\<lambda>j fl. flag_upd (\<lambda>_. v) j fl) [i + 1..i0 - 1] fl
     }
   }"

lemma mark_used_range: "mark_used_flag = mark_range (\<lambda>b m. b OR m) 255"
  by (intro ext) (simp add: mark_used_flag_def mark_range_def)

lemma mark_free_range: "mark_free_flag = mark_range (\<lambda>b m. b AND NOT m) 0"
  by (intro ext) (simp add: mark_free_flag_def mark_range_def)

lemma byte_order_le: "(a :: nat) \<le> k \<longleftrightarrow> a div 8 < k div 8 \<or> a div 8 = k div 8 \<and> a mod 8 \<le> k mod 8"
proof -
  have "a = 8 * (a div 8) + a mod 8" "k = 8 * (k div 8) + k mod 8" "a mod 8 < 8" "k mod 8 < 8" by simp_all
  then show ?thesis by linarith
qed

lemma byte_order_less: "(k :: nat) < a \<longleftrightarrow> k div 8 < a div 8 \<or> k div 8 = a div 8 \<and> k mod 8 < a mod 8"
  using byte_order_le [of a k] by linarith

lemma mark_range_correct:
  assumes g: "\<And>b m j. j < 8 \<Longrightarrow> bit (g b m) j = (if bit m j then c else bit b j)"
    and v: "\<And>j. j < 8 \<Longrightarrow> bit v j = c"
    and fits: "off + l < 8 * length fl" and small: "8 * length fl < 2 ^ 31"
  shows "\<exists>fl'. mark_range g v fl (int off) (int l) = Some fl' \<and> length fl' = length fl
    \<and> (\<forall>k < 8 * length fl. slot_used fl' k = (if off \<le> k \<and> k < off + l then c else slot_used fl k))"
proof -
  define i i0 where "i = off div 8" and "i0 = (off + l) div 8"
  define hi lo :: u8 where "hi = drop_bit (off mod 8) 255" and "lo = push_bit (8 - (off + l) mod 8) 255"
  have i: "i < length fl" "i0 < length fl" "i \<le> i0" using fits by (auto simp: i_def i0_def div_le_mono)
  have hi: "bit hi (7 - k mod 8) \<longleftrightarrow> off mod 8 \<le> k mod 8" for k
    unfolding hi_def by (rule bit_shr_ff) simp
  have lo: "bit lo (7 - k mod 8) \<longleftrightarrow> k mod 8 < (off + l) mod 8" for k
    unfolding lo_def by (rule bit_shl_ff) simp_all
  have pos: "off \<le> k \<longleftrightarrow> i < k div 8 \<or> i = k div 8 \<and> off mod 8 \<le> k mod 8"
    "k < off + l \<longleftrightarrow> k div 8 < i0 \<or> k div 8 = i0 \<and> k mod 8 < (off + l) mod 8" for k
    unfolding i_def i0_def by (rule byte_order_le, rule byte_order_less)
  have eval: "mark_range g v fl (int off) (int l) =
      (if i = i0 then Some (fl[i := g (fl ! i) (hi AND lo)])
       else foldM (\<lambda>j fl. flag_upd (\<lambda>_. v) j fl) [int i + 1..int i0 - 1]
              (fl[i := g (fl ! i) hi, i0 := g (fl ! i0) lo]))"
  proof -
    have sum: "int off + int l = int (off + l)" by simp
    have r: "(off + l) mod 8 \<le> 8" by (simp add: less_imp_le)
    have fits32: "int32 (int (off + l)) = Some (int (off + l))" using fits small by (intro int32_int) simp
    then show ?thesis
      unfolding mark_range_def sum fits32 bind.bind_lunit Let_def sdiv_smod_8 shr_ff_int
        shl_ff_int [OF r] i_def [symmetric] i0_def [symmetric] hi_def [symmetric] lo_def [symmetric]
      using i by (simp add: flag_upd_int)
  qed
  show ?thesis
  proof (cases "i = i0")
    case True
    let ?fl = "fl[i := g (fl ! i) (hi AND lo)]"
    have "slot_used ?fl k = (if off \<le> k \<and> k < off + l then c else slot_used fl k)"
      if "k < 8 * length fl" for k
      using i True that unfolding pos
      by (cases "k div 8 = i") (auto simp: slot_used_def g bit_and_iff hi lo)
    with eval True show ?thesis by auto
  next
    case False
    let ?fl = "fl[i := g (fl ! i) hi, i0 := g (fl ! i0) lo]"
    obtain fl' where fl': "foldM (\<lambda>j fl. flag_upd (\<lambda>_. v) j fl) [int i + 1..int i0 - 1] ?fl = Some fl'"
      "length fl' = length fl"
      "\<forall>k < length fl. fl' ! k = (if int k \<in> set [int i + 1..int i0 - 1] then v else ?fl ! k)"
      using fill_bytes [of "[int i + 1..int i0 - 1]" ?fl v] i by auto
    have "slot_used fl' k = (if off \<le> k \<and> k < off + l then c else slot_used fl k)"
      if k: "k < 8 * length fl" for k
    proof -
      have "fl' ! (k div 8) = (if i < k div 8 \<and> k div 8 < i0 then v else ?fl ! (k div 8))"
        using fl'(3) k by auto
      with i False k show ?thesis unfolding pos
        by (cases "k div 8 = i"; cases "k div 8 = i0") (auto simp: slot_used_def g v hi lo)
    qed
    with eval False fl' show ?thesis by auto
  qed
qed

text \<open>A range that ends at the last slot reads and writes the byte after the map.\<close>

lemma mark_range_at_end:
  assumes "off + l = 8 * length fl" and "0 < l"
  shows "mark_range g v fl (int off) (int l) = None"
proof -
  have ends: "off div 8 < length fl" "int off + int l = int (8 * length fl)" using assms by linarith+
  have out: "flag_upd f (int (length fl)) (fl[i := w]) = None" for f i w by (simp add: flag_upd_def)
  have "mark_range g v fl (int off) (int l) = None" if "8 * length fl < 2 ^ 31"
    unfolding mark_range_def ends(2) int32_int [OF that] using ends(1)
    by (simp only: sdiv_smod_8 bind.bind_lunit shr_ff_int shl_ff_int Let_def) (simp add: flag_upd_int out)
  moreover have "mark_range g v fl (int off) (int l) = None" if "\<not> 8 * length fl < 2 ^ 31"
    using that unfolding mark_range_def ends(2) by (simp add: int32_def)
  ultimately show ?thesis by blast
qed

lemmas mark_used_correct =
  mark_range_correct [where g = "\<lambda>b m. b OR m" and v = 255 and c = True, folded mark_used_range]

lemmas mark_free_correct =
  mark_range_correct [where g = "\<lambda>b m. b AND NOT m" and v = 0 and c = False, folded mark_free_range]

subsection \<open>The scan\<close>

definition slots_free :: "u8 list \<Rightarrow> nat \<Rightarrow> nat \<Rightarrow> bool" where
  "slots_free fl a l \<longleftrightarrow> (\<forall>k. a \<le> k \<and> k < a + l \<longrightarrow> \<not> slot_used fl k)"

lemma slots_free_0 [simp]: "slots_free fl a 0"
  by (auto simp: slots_free_def)

lemma slots_free_mono: "slots_free fl a l \<Longrightarrow> l' \<le> l \<Longrightarrow> slots_free fl a l'"
  by (auto simp: slots_free_def)

lemma slots_free_add: "slots_free fl a (l + m) \<longleftrightarrow> slots_free fl a l \<and> slots_free fl (a + l) m"
proof -
  have "a \<le> k \<and> k < a + (l + m) \<longleftrightarrow> a \<le> k \<and> k < a + l \<or> a + l \<le> k \<and> k < a + l + m" for k by auto
  then show ?thesis unfolding slots_free_def by blast
qed

lemma byte_leading:
  assumes "b \<noteq> 0"
  shows "nat (bits_cl0_u8 b) < 8" "bit b (7 - nat (bits_cl0_u8 b))"
    "j < nat (bits_cl0_u8 b) \<Longrightarrow> \<not> bit b (7 - j)"
  using bits_cl0_u8_correct [OF assms] by (auto simp: is_leading_zeros_def)

lemma byte_trailing:
  assumes "b \<noteq> 0"
  shows "nat (bits_ct0_u8 b) < 8" "bit b (nat (bits_ct0_u8 b))"
    "8 - nat (bits_ct0_u8 b) \<le> j \<Longrightarrow> j < 8 \<Longrightarrow> \<not> bit b (7 - j)"
  using bits_ct0_u8_correct [OF assms] by (auto simp: is_trailing_zeros_def)

lemma slot_used_byte:
  "i = length pre \<Longrightarrow> j < 8 \<Longrightarrow> slot_used (pre @ b # rest) (8 * i + j) \<longleftrightarrow> bit b (7 - j)"
  by (simp add: slot_used_def)

lemma slots_free_byte:
  assumes "\<And>j. a \<le> j \<Longrightarrow> j < a + l \<Longrightarrow> \<not> bit b (7 - j)" and "a + l \<le> 8"
  shows "slots_free (pre @ b # rest) (8 * length pre + a) l"
  unfolding slots_free_def
proof (intro allI impI)
  fix k assume k: "8 * length pre + a \<le> k \<and> k < 8 * length pre + a + l"
  define j where "j = k - 8 * length pre"
  have j: "k = 8 * length pre + j" "a \<le> j" "j < a + l" using k unfolding j_def by linarith+
  with assms(2) have "slot_used (pre @ b # rest) k \<longleftrightarrow> bit b (7 - j)"
    using slot_used_byte [of "length pre" pre j b rest] by simp
  with j assms(1) [of j] show "\<not> slot_used (pre @ b # rest) k" by simp
qed

text \<open>Whatever the scan returns is a free range of the length it returns.\<close>

lemma slot_scan_sound:
  assumes "slots_free (pre @ fl) a emp" and "emp < sz \<Longrightarrow> a + emp = 8 * length pre"
    and "a + emp \<le> 8 * length pre" and "slot_scan sz fl (length pre) emp (int a) = (e, off)"
  shows "\<exists>a'. off = int a' \<and> a' + e \<le> 8 * length (pre @ fl) \<and> slots_free (pre @ fl) a' e"
  using assms
proof (induction fl arbitrary: pre a emp)
  case Nil
  then show ?case by auto
next
  case (Cons b fl)
  show ?case
  proof (cases "emp < sz")
    case False
    with Cons.prems show ?thesis by fastforce
  next
    case True
    with Cons.prems have at: "a + emp = 8 * length pre" by simp
    let ?pre = "pre @ [b]"
    have pre: "pre @ b # fl = ?pre @ fl" "length ?pre = length pre + 1" by simp_all
    consider (zero) "b = 0" | (lead) "b \<noteq> 0" "emp + nat (bits_cl0_u8 b) \<ge> sz"
      | (trail) "b \<noteq> 0" "\<not> emp + nat (bits_cl0_u8 b) \<ge> sz" by blast
    then show ?thesis
    proof cases
      case zero
      have "slots_free (?pre @ fl) a (emp + 8)"
        using Cons.prems(1) slots_free_byte [of 0 8 b pre fl] zero by (simp add: slots_free_add at)
      with zero True at Cons.prems(4) Cons.IH [of ?pre a "emp + 8"] show ?thesis by simp
    next
      case lead
      let ?l = "nat (bits_cl0_u8 b)"
      have "slots_free (?pre @ fl) a (emp + ?l)"
        using Cons.prems(1) slots_free_byte [of 0 ?l b pre fl] byte_leading [OF lead(1)]
        by (simp add: slots_free_add at)
      with lead True at Cons.prems(4) Cons.IH [of ?pre a "emp + ?l"] byte_leading(1) [OF lead(1)]
      show ?thesis by simp
    next
      case trail
      let ?t = "nat (bits_ct0_u8 b)" and ?a = "8 * length pre + (8 - nat (bits_ct0_u8 b))"
      have t: "?t < 8" by (rule byte_trailing(1) [OF trail(1)])
      have "slots_free (?pre @ fl) ?a ?t"
        using slots_free_byte [of "8 - ?t" ?t b pre fl] byte_trailing [OF trail(1)] by simp
      moreover have "int (length pre) * 8 + (8 - int ?t) = int ?a" using t by simp
      then have "slot_scan sz fl (length ?pre) ?t (int ?a) = (e, off)"
        using Cons.prems(4) True trail unfolding slot_scan.simps Let_def pre(2) by (simp add: mult.commute)
      ultimately show ?thesis
        unfolding pre(1) using Cons.IH [of ?pre ?a ?t] t by simp
    qed
  qed
qed

text \<open>
  The scan looks at the zeros at the top and at the bottom of a byte and not between:
  a run of seven slots or more is never between, so it is not missed.
\<close>

lemma slot_scan_complete:
  assumes "emp < sz \<Longrightarrow> a + emp = 8 * length pre \<and> (a = 0 \<or> slot_used (pre @ fl) (a - 1))
      \<and> (\<forall>r. r + sz \<le> 8 * length pre \<longrightarrow> \<not> slots_free (pre @ fl) r sz)"
    and "7 \<le> sz" and "fst (slot_scan sz fl (length pre) emp (int a)) < sz"
    and "r + sz \<le> 8 * length (pre @ fl)"
  shows "\<not> slots_free (pre @ fl) r sz"
  using assms
proof (induction fl arbitrary: pre a emp)
  case Nil
  then show ?case by auto
next
  case (Cons b fl)
  show ?case
  proof (cases "emp < sz")
    case False
    with Cons.prems(3) show ?thesis by simp
  next
    case True
    with Cons.prems(1) have at: "a + emp = 8 * length pre"
      and edge: "a = 0 \<or> slot_used (pre @ b # fl) (a - 1)"
      and none: "\<And>r. r + sz \<le> 8 * length pre \<Longrightarrow> \<not> slots_free (pre @ b # fl) r sz" by auto
    let ?pre = "pre @ [b]"
    have start: "a \<le> r" if "slots_free (pre @ b # fl) r sz" "8 * length pre < r + sz" for r
    proof (rule ccontr)
      assume "\<not> a \<le> r"
      with edge that at have "r \<le> a - 1 \<and> a - 1 < r + sz" "slot_used (pre @ b # fl) (a - 1)" by auto
      with that(1) show False by (simp add: slots_free_def)
    qed
    consider (zero) "b = 0" | (lead) "b \<noteq> 0" "emp + nat (bits_cl0_u8 b) \<ge> sz"
      | (trail) "b \<noteq> 0" "\<not> emp + nat (bits_cl0_u8 b) \<ge> sz" by blast
    then show ?thesis
    proof cases
      case zero
      have no: "\<not> slots_free (pre @ b # fl) r sz" if "emp + 8 < sz" "r + sz \<le> 8 * length ?pre" for r
        using none [of r] start [of r] that at by (cases "r + sz \<le> 8 * length pre") auto
      show ?thesis
        using zero True at edge Cons.prems(2-4) Cons.IH [of "emp + 8" a ?pre] no by auto
    next
      case lead
      then show ?thesis using True Cons.prems(3) by (cases fl) auto
    next
      case trail
      let ?l = "nat (bits_cl0_u8 b)" and ?t = "nat (bits_ct0_u8 b)"
      let ?a = "8 * length pre + (8 - ?t)"
      have l: "?l < 8" "slot_used (pre @ b # fl) (8 * length pre + ?l)"
        using byte_leading [OF trail(1)] slot_used_byte [of "length pre" pre ?l b fl] by auto
      have t: "?t < 8" "slot_used (pre @ b # fl) (8 * length pre + (7 - ?t))"
        using byte_trailing [OF trail(1)] slot_used_byte [of "length pre" pre "7 - ?t" b fl] by auto
      have no: "\<not> slots_free (pre @ b # fl) r sz" if r: "?t < sz" "r + sz \<le> 8 * length ?pre" for r
      proof
        assume free: "slots_free (pre @ b # fl) r sz"
        then have out: "\<not> (r \<le> k \<and> k < r + sz)" if "slot_used (pre @ b # fl) k" for k
          using that by (auto simp: slots_free_def)
        have past: "8 * length pre < r + sz" using none [of r] free by force
        show False
          using out [OF l(2)] out [OF t(2)] start [OF free past] past r trail(2) at l(1) t(1)
            Cons.prems(2) by (simp; linarith)
      qed
      have "int (length pre) * 8 + (8 - int ?t) = int ?a" "?a - 1 = 8 * length pre + (7 - ?t)"
        using t by simp_all
      moreover from this have "fst (slot_scan sz fl (length ?pre) ?t (int ?a)) < sz"
        using Cons.prems(3) True trail unfolding slot_scan.simps Let_def by (simp add: mult.commute)
      ultimately show ?thesis
        using Cons.prems(2,4) Cons.IH [of ?t ?a ?pre] no t by simp
    qed
  qed
qed

subsection \<open>Allocation and release\<close>

definition slot_ok :: "mem_slot \<Rightarrow> bool" where
  "slot_ok t \<longleftrightarrow> length (sl_flag t) = unat (sl_n t)"

lemma slot_ok_small: "slot_ok t \<Longrightarrow> length (sl_flag t) < 256"
  using unsigned_less [of "sl_n t", where ?'a = nat] by (simp add: slot_ok_def)

lemma slot_new_ok:
  "slot_new False n = Some t \<Longrightarrow> slot_ok t \<and> slots_free (sl_flag t) 0 (slot_size t)"
  by (auto simp: slot_new_def slot_ok_def slots_free_def slot_used_def slot_size_def)

lemma sint_small: "unat (w :: u32) < 2 ^ 31 \<Longrightarrow> sint w = int (unat w)"
proof -
  assume "unat w < 2 ^ 31"
  then have "int (unat w) < int (2 ^ 31)" by (simp only: of_nat_less_iff)
  then have "uint w < 2 ^ 31" by simp
  then have "sint w = uint w"
    unfolding sint_uint
    by (intro signed_take_bit_int_eq_self order.trans [OF _ unsigned_greater_eq]) simp_all
  then show ?thesis by (simp only: uint_nat)
qed

lemma flags_eqI:
  assumes "length fl' = length fl" and "\<And>k. k < 8 * length fl \<Longrightarrow> slot_used fl' k = slot_used fl k"
  shows "fl' = fl"
proof (rule nth_equalityI [OF assms(1)])
  fix i assume i: "i < length fl'"
  show "fl' ! i = fl ! i"
  proof (rule bit_word_eqI)
    fix j assume "j < LENGTH(8)"
    define m where "m = 7 - j"
    with \<open>j < LENGTH(8)\<close> have m: "m < 8" "j = 7 - m" by simp_all
    have "8 * i + m < 8 * length fl" using i assms(1) m(1) by linarith
    from assms(2) [OF this] m show "bit (fl' ! i) j = bit (fl ! i) j" by (simp add: slot_used_def)
  qed
qed

text \<open>The cases of \<open>slot_alloc\<close> on a well-formed map, by what the scan returns.\<close>

lemma slot_alloc_cases:
  assumes "slot_ok t" and "sz \<noteq> 0" and "unat sz \<le> slot_size t"
  obtains (full) "slot_alloc (Some t) sz = Some (-1, Some t)"
      "fst (slot_scan (unat sz) (sl_flag t) 0 0 0) < unat sz"
  | (found) a where "slots_free (sl_flag t) a (unat sz)" "a + unat sz \<le> 8 * length (sl_flag t)"
      "slot_alloc (Some t) sz =
         map_option (\<lambda>fl. (int a, Some (t\<lparr>sl_flag := fl\<rparr>))) (mark_used_flag (sl_flag t) (int a) (int (unat sz)))"
proof -
  obtain e off where scan: "slot_scan (unat sz) (sl_flag t) 0 0 0 = (e, off)" by fastforce
  have all: "take (unat (sl_n t)) (sl_flag t) = sl_flag t" using assms(1) by (simp add: slot_ok_def)
  have guard: "\<not> (unat sz > slot_size t \<or> sz = 0)" using assms by auto
  have sint: "sint sz = int (unat sz)"
    using assms slot_ok_small [OF assms(1)] by (intro sint_small) (simp add: slot_ok_def slot_size_def)
  show thesis
  proof (cases "unat sz \<le> e")
    case True
    obtain a where a: "off = int a" "a + e \<le> 8 * length (sl_flag t)" "slots_free (sl_flag t) a e"
      using slot_scan_sound [of "[]" "sl_flag t" 0 0 "unat sz"] scan by auto
    show thesis
    proof (rule found)
      show "slots_free (sl_flag t) a (unat sz)" by (rule slots_free_mono [OF a(3) True])
      show "a + unat sz \<le> 8 * length (sl_flag t)" using a(2) True by simp
      show "slot_alloc (Some t) sz = map_option (\<lambda>fl. (int a, Some (t\<lparr>sl_flag := fl\<rparr>)))
          (mark_used_flag (sl_flag t) (int a) (int (unat sz)))"
        using guard scan True a(1)
        by (cases "mark_used_flag (sl_flag t) (int a) (int (unat sz))")
          (auto simp: slot_alloc_def all sint Let_def)
    qed
  next
    case False
    show thesis by (rule full) (use guard scan False in \<open>auto simp: slot_alloc_def all Let_def\<close>)
  qed
qed

lemma slot_alloc_rejects: "sz = 0 \<or> unat sz > slot_size t \<Longrightarrow> slot_alloc (Some t) sz = Some (-1, Some t)"
  by (auto simp: slot_alloc_def)

definition slot_taken :: "mem_slot \<Rightarrow> nat \<Rightarrow> nat \<Rightarrow> mem_slot \<Rightarrow> bool" where
  "slot_taken t a l t' \<longleftrightarrow> sl_n t' = sl_n t \<and> slot_ok t' \<and> a + l < slot_size t \<and> slots_free (sl_flag t) a l
     \<and> (\<forall>k < slot_size t. slot_used (sl_flag t') k \<longleftrightarrow> a \<le> k \<and> k < a + l \<or> slot_used (sl_flag t) k)"

lemma slot_alloc_correct:
  assumes "slot_ok t" and ret: "slot_alloc (Some t) sz = Some (off, s')"
  shows "off = -1 \<and> s' = Some t \<or> (\<exists>a t'. off = int a \<and> s' = Some t' \<and> slot_taken t a (unat sz) t' \<and> 0 < unat sz)"
proof (cases "sz \<noteq> 0 \<and> unat sz \<le> slot_size t")
  case False
  then have "sz = 0 \<or> unat sz > slot_size t" by auto
  with ret slot_alloc_rejects show ?thesis by simp
next
  case True
  then have pos: "0 < unat sz" by (simp add: unat_gt_0)
  from True have "sz \<noteq> 0" "unat sz \<le> slot_size t" by auto
  with \<open>slot_ok t\<close> show ?thesis
  proof (cases rule: slot_alloc_cases)
    case full
    with ret show ?thesis by simp
  next
    case (found a)
    let ?fl = "sl_flag t"
    have len: "8 * length ?fl = slot_size t" "8 * length ?fl < 2 ^ 31"
      using \<open>slot_ok t\<close> slot_ok_small [OF \<open>slot_ok t\<close>] by (simp_all add: slot_ok_def slot_size_def)
    obtain fl' where fl': "mark_used_flag ?fl (int a) (int (unat sz)) = Some fl'"
      "off = int a" "s' = Some (t\<lparr>sl_flag := fl'\<rparr>)"
      using ret found(3) by auto
    have inside: "a + unat sz < 8 * length ?fl"
      using fl'(1) mark_range_at_end [OF _ pos, folded mark_used_range] found(2) len(2) pos
        mark_range_at_end [of a "unat sz" ?fl "\<lambda>b m. b OR m" 255, folded mark_used_range]
      by (metis le_neq_implies_less option.distinct(1))
    have "\<exists>fl'. mark_used_flag ?fl (int a) (int (unat sz)) = Some fl' \<and> length fl' = length ?fl
      \<and> (\<forall>k < 8 * length ?fl. slot_used fl' k = (if a \<le> k \<and> k < a + unat sz then True else slot_used ?fl k))"
      by (rule mark_used_correct [OF _ _ inside len(2)]) (simp only: bit_or_iff bit_ff; auto)+
    with fl' have "length fl' = length ?fl"
      "\<forall>k < 8 * length ?fl. slot_used fl' k = (if a \<le> k \<and> k < a + unat sz then True else slot_used ?fl k)"
      by auto
    with fl' found(1) inside len \<open>slot_ok t\<close> pos show ?thesis
      by (auto simp: slot_taken_def slot_ok_def slot_size_def)
  qed
qed

text \<open>The last slot of the map is the one that no allocation may end at.\<close>

lemma slot_alloc_to_end:
  assumes "slot_ok t" and "slot_alloc (Some t) sz = None"
  shows "\<exists>a. a + unat sz = slot_size t \<and> slots_free (sl_flag t) a (unat sz)"
proof (cases "sz \<noteq> 0 \<and> unat sz \<le> slot_size t")
  case False
  then have "sz = 0 \<or> unat sz > slot_size t" by auto
  with assms slot_alloc_rejects show ?thesis by simp
next
  case True
  then have "sz \<noteq> 0" "unat sz \<le> slot_size t" by auto
  with \<open>slot_ok t\<close> show ?thesis
  proof (cases rule: slot_alloc_cases)
    case full
    with assms show ?thesis by simp
  next
    case (found a)
    let ?fl = "sl_flag t"
    have len: "8 * length ?fl = slot_size t" "8 * length ?fl < 2 ^ 31"
      using \<open>slot_ok t\<close> slot_ok_small [OF \<open>slot_ok t\<close>] by (simp_all add: slot_ok_def slot_size_def)
    have "\<not> a + unat sz < 8 * length ?fl"
    proof
      assume inside: "a + unat sz < 8 * length ?fl"
      have "\<exists>fl'. mark_used_flag ?fl (int a) (int (unat sz)) = Some fl' \<and> length fl' = length ?fl
        \<and> (\<forall>k < 8 * length ?fl. slot_used fl' k = (if a \<le> k \<and> k < a + unat sz then True else slot_used ?fl k))"
        by (rule mark_used_correct [OF _ _ inside len(2)]) (simp only: bit_or_iff bit_ff; auto)+
      with assms(2) found(3) show False by auto
    qed
    with found len show ?thesis by auto
  qed
qed

lemma slot_alloc_complete:
  assumes "slot_ok t" and "slot_alloc (Some t) sz = Some (-1, s')"
    and "7 \<le> unat sz" and "a + unat sz \<le> slot_size t"
  shows "\<not> slots_free (sl_flag t) a (unat sz)"
proof -
  have "sz \<noteq> 0" "unat sz \<le> slot_size t" using assms(3,4) by auto
  with \<open>slot_ok t\<close> show ?thesis
  proof (cases rule: slot_alloc_cases)
    case full
    then show ?thesis
      using slot_scan_complete [of 0 "unat sz" 0 "[]" "sl_flag t" a] assms
      by (simp add: slot_ok_def slot_size_def)
  next
    case (found b)
    with assms(2) show ?thesis by auto
  qed
qed

lemma slot_free_correct:
  assumes "slot_ok t" and "a + unat sz < slot_size t"
  shows "\<exists>t'. slot_free (Some t) (int a) sz = Some (Some t') \<and> sl_n t' = sl_n t \<and> slot_ok t'
    \<and> (\<forall>k < slot_size t. slot_used (sl_flag t') k \<longleftrightarrow> \<not> (a \<le> k \<and> k < a + unat sz) \<and> slot_used (sl_flag t) k)"
proof -
  let ?fl = "sl_flag t"
  have len: "8 * length ?fl = slot_size t" "8 * length ?fl < 2 ^ 31"
    using \<open>slot_ok t\<close> slot_ok_small [OF \<open>slot_ok t\<close>] by (simp_all add: slot_ok_def slot_size_def)
  have sint: "sint sz = int (unat sz)" using assms(2) len by (intro sint_small) simp
  have "word_of_int (int a) + sz = of_nat (a + unat sz)" by simp
  then have sum: "unat (word_of_int (int a) + sz) = a + unat sz"
    using assms(2) len by (simp only: unsigned_of_nat) (simp add: take_bit_nat_eq_self)
  have inside: "a + unat sz < 8 * length ?fl" using assms(2) len by simp
  have "\<exists>fl'. mark_free_flag ?fl (int a) (int (unat sz)) = Some fl' \<and> length fl' = length ?fl
    \<and> (\<forall>k < 8 * length ?fl. slot_used fl' k = (if a \<le> k \<and> k < a + unat sz then False else slot_used ?fl k))"
    by (rule mark_free_correct [OF _ _ inside len(2)]) (auto simp: bit_and_iff bit_not_iff)
  then obtain fl' where fl': "mark_free_flag ?fl (int a) (int (unat sz)) = Some fl'" "length fl' = length ?fl"
    "\<forall>k < 8 * length ?fl. slot_used fl' k = (if a \<le> k \<and> k < a + unat sz then False else slot_used ?fl k)" by blast
  have "slot_free (Some t) (int a) sz = Some (Some (t\<lparr>sl_flag := fl'\<rparr>))"
    unfolding slot_free_def option.case sum sint fl'(1) using assms(2) by simp
  with fl' len \<open>slot_ok t\<close> show ?thesis by (auto simp: slot_ok_def)
qed

text \<open>Releasing what was just allocated gives back the map, bit for bit.\<close>

lemma slot_alloc_free:
  assumes "slot_ok t" and "slot_alloc (Some t) sz = Some (int a, s')"
  shows "slot_free s' (int a) sz = Some (Some t)"
proof -
  obtain t' where t': "s' = Some t'" "slot_taken t a (unat sz) t'"
    using slot_alloc_correct [OF assms] by auto
  then have len: "slot_size t' = slot_size t" "slot_ok t'" "a + unat sz < slot_size t"
    by (auto simp: slot_taken_def slot_size_def)
  obtain t'' where t'': "slot_free (Some t') (int a) sz = Some (Some t'')" "sl_n t'' = sl_n t'" "slot_ok t''"
    "\<forall>k < slot_size t'. slot_used (sl_flag t'') k \<longleftrightarrow> \<not> (a \<le> k \<and> k < a + unat sz) \<and> slot_used (sl_flag t') k"
    using slot_free_correct [of t' a sz] len by auto
  have "sl_flag t'' = sl_flag t"
  proof (rule flags_eqI)
    show "length (sl_flag t'') = length (sl_flag t)"
      using t'(2) t''(2,3) assms(1) by (simp add: slot_taken_def slot_ok_def)
    fix k assume "k < 8 * length (sl_flag t)"
    then have "k < slot_size t" using assms(1) by (simp add: slot_ok_def slot_size_def)
    with t'(2) t''(4) len(1) show "slot_used (sl_flag t'') k = slot_used (sl_flag t) k"
      by (auto simp: slot_taken_def slots_free_def)
  qed
  then have "t'' = t" using t'(2) t''(2) by (simp add: slot_taken_def)
  with t' t'' show ?thesis by simp
qed

subsection \<open>The contract\<close>

text \<open>
  The map alone does not tell one range from two that touch; the ranges a client holds are
  any family of disjoint ranges whose union is the used slots.
\<close>

definition slot_rep :: "mem_slot \<Rightarrow> (nat \<times> nat) set \<Rightarrow> bool" where
  "slot_rep t B \<longleftrightarrow> slot_ok t \<and> (\<forall>p\<in>B. fst p + snd p < slot_size t \<and> 0 < snd p)
     \<and> (\<forall>p\<in>B. \<forall>q\<in>B. p \<noteq> q \<longrightarrow> apart p q)
     \<and> (\<forall>k < slot_size t. slot_used (sl_flag t) k \<longleftrightarrow> (\<exists>p\<in>B. fst p \<le> k \<and> k < fst p + snd p))"

definition slot_take :: "mem_slot \<Rightarrow> u32 \<Rightarrow> (nat option \<times> mem_slot) option" where
  "slot_take t sz = (case slot_alloc (Some t) sz of
       Some (off, Some t') \<Rightarrow> Some (if off = -1 then None else Some (nat off), t')
     | _ \<Rightarrow> None)"

definition slot_give :: "mem_slot \<Rightarrow> nat \<times> nat \<Rightarrow> mem_slot option" where
  "slot_give t b = (case slot_free (Some t) (int (fst b)) (of_nat (snd b)) of Some (Some t') \<Rightarrow> Some t' | _ \<Rightarrow> None)"

lemma slot_take_rep:
  assumes rep: "slot_rep t B" and taken: "slot_taken t a l t'" and l: "0 < l"
  shows "slot_rep t' (insert (a, l) B)" "\<forall>b\<in>B. apart (a, l) b"
proof -
  have sz: "slot_size t' = slot_size t" using taken by (simp add: slot_taken_def slot_size_def)
  show far: "\<forall>b\<in>B. apart (a, l) b"
  proof (rule ballI, rule ccontr)
    fix b assume b: "b \<in> B" "\<not> apart (a, l) b"
    define k where "k = max a (fst b)"
    have b2: "fst b + snd b < slot_size t" "0 < snd b" using rep b(1) by (auto simp: slot_rep_def)
    have k: "a \<le> k" "k < a + l" "fst b \<le> k" "k < fst b + snd b"
      using b(2) b2 l by (auto simp: k_def apart_def max_def)
    moreover from k b2 have "k < slot_size t" by linarith
    ultimately have "slot_used (sl_flag t) k" using rep b(1) unfolding slot_rep_def by blast
    with k taken show False by (auto simp: slot_taken_def slots_free_def)
  qed
  have "slot_used (sl_flag t') k \<longleftrightarrow> (\<exists>p\<in>insert (a, l) B. fst p \<le> k \<and> k < fst p + snd p)"
    if "k < slot_size t'" for k
    using that rep taken unfolding sz by (simp add: slot_rep_def slot_taken_def)
  moreover have "fst p + snd p < slot_size t' \<and> 0 < snd p" if "p \<in> insert (a, l) B" for p
    using that rep taken l unfolding sz by (auto simp: slot_rep_def slot_taken_def)
  moreover have "apart p q" if "p \<in> insert (a, l) B" "q \<in> insert (a, l) B" "p \<noteq> q" for p q
  proof -
    have "apart x y" if "x \<in> B" "y \<in> B" "x \<noteq> y" for x y using that rep by (simp add: slot_rep_def)
    with that far apart_sym [of "(a, l)"] show ?thesis by blast
  qed
  moreover have "slot_ok t'" using taken by (simp add: slot_taken_def)
  ultimately show "slot_rep t' (insert (a, l) B)" unfolding slot_rep_def by blast
qed

lemma slot_give_law:
  assumes rep: "slot_rep t B" and b: "b \<in> B"
  shows "\<exists>t'. slot_give t b = Some t' \<and> slot_rep t' (B - {b}) \<and> slot_size t' = slot_size t"
proof -
  have ok: "slot_ok t" and fits: "fst b + snd b < slot_size t" "0 < snd b" using rep b by (auto simp: slot_rep_def)
  have "snd b < 2 ^ 32" using fits slot_ok_small [OF ok] ok by (simp add: slot_ok_def slot_size_def)
  then have u: "unat (of_nat (snd b) :: u32) = snd b" by (simp add: unsigned_of_nat take_bit_nat_eq_self)
  obtain t' where t': "slot_free (Some t) (int (fst b)) (of_nat (snd b)) = Some (Some t')" "sl_n t' = sl_n t"
    "slot_ok t'" "\<forall>k < slot_size t. slot_used (sl_flag t') k
      \<longleftrightarrow> \<not> (fst b \<le> k \<and> k < fst b + snd b) \<and> slot_used (sl_flag t) k"
    using slot_free_correct [OF ok, of "fst b" "of_nat (snd b)"] fits unfolding u by blast
  have sz: "slot_size t' = slot_size t" using t'(2) by (simp add: slot_size_def)
  have apart: "apart p q" if "p \<in> B" "q \<in> B" "p \<noteq> q" for p q using rep that by (simp add: slot_rep_def)
  have used: "slot_used (sl_flag t) k \<longleftrightarrow> (\<exists>p\<in>B. fst p \<le> k \<and> k < fst p + snd p)" if "k < slot_size t" for k
    using rep that by (simp add: slot_rep_def)
  have one: "p = b" if "p \<in> B" "fst p \<le> k" "k < fst p + snd p" "fst b \<le> k" "k < fst b + snd b" for p k
    using apart [OF that(1) b] that(2-) by (cases "p = b") (auto simp: apart_def)
  have now: "slot_used (sl_flag t') k \<longleftrightarrow> (\<exists>p\<in>B - {b}. fst p \<le> k \<and> k < fst p + snd p)" if "k < slot_size t" for k
    using t'(4) used [OF that] one [of _ k] that by blast
  have "slot_rep t' (B - {b})"
    unfolding slot_rep_def sz using t'(3) now apart rep by (auto simp: slot_rep_def)
  with t'(1) sz show ?thesis by (simp add: slot_give_def)
qed

lemma slot_take_cases:
  assumes "slot_ok t" and "slot_take t sz = Some (r, t')"
  shows "r = None \<and> t' = t \<or> (\<exists>a. r = Some a \<and> slot_taken t a (unat sz) t' \<and> 0 < unat sz)"
proof -
  obtain off where off: "slot_alloc (Some t) sz = Some (off, Some t')" "r = (if off = -1 then None else Some (nat off))"
    using assms(2) by (auto simp: slot_take_def split: option.splits prod.splits)
  from slot_alloc_correct [OF assms(1) off(1)] off(2) show ?thesis by auto
qed

interpretation slot: range_allocator slot_rep slot_take slot_give unat slot_size
proof unfold_locales
  fix s B n s'
  assume rep: "slot_rep s B" and r: "slot_take s n = Some (None, s')"
  with slot_take_cases [OF _ r] show "slot_rep s' B \<and> slot_size s' = slot_size s" by (auto simp: slot_rep_def)
next
  fix s B n a s'
  assume rep: "slot_rep s B" and r: "slot_take s n = Some (Some a, s')"
  then have t: "slot_taken s a (unat n) s'" "0 < unat n" using slot_take_cases [OF _ r] by (auto simp: slot_rep_def)
  with slot_take_rep [OF rep t] show "slot_rep s' (insert (a, unat n) B) \<and> slot_size s' = slot_size s
      \<and> a + unat n \<le> slot_size s \<and> 0 < unat n \<and> (\<forall>b\<in>B. apart (a, unat n) b)"
    by (auto simp: slot_taken_def slot_size_def)
next
  fix s B b
  assume "slot_rep s B" "b \<in> B"
  then show "\<exists>s'. slot_give s b = Some s' \<and> slot_rep s' (B - {b}) \<and> slot_size s' = slot_size s"
    by (rule slot_give_law)
qed

subsection \<open>The properties\<close>

text \<open>C31: The six binary searches for the first and the last one bit (\<open>bits_cl0\<close> and \<open>bits_ct0\<close> of 8, 32
  and 64 bits) return the number of zeros above the highest and below the lowest one of every word
  that is not 0.\<close>

theorem zero_counts_correct:
  fixes x :: u8 and y :: u32 and z :: "64 word"
  assumes "x \<noteq> 0" and "y \<noteq> 0" and "z \<noteq> 0"
  shows "is_leading_zeros x (bits_cl0_u8 x) \<and> is_trailing_zeros x (bits_ct0_u8 x)
    \<and> is_leading_zeros y (bits_cl0_u32 y) \<and> is_trailing_zeros y (bits_ct0_u32 y)
    \<and> is_leading_zeros z (bits_cl0_u64 z) \<and> is_trailing_zeros z (bits_ct0_u64 z)"
  using assms by (simp add: bits_cl0_u8_correct bits_ct0_u8_correct bits_cl0_u32_correct bits_ct0_u32_correct
      bits_cl0_u64_correct bits_ct0_u64_correct)

theorem zero_counts_correct_witness:
  "is_leading_zeros (24 :: u8) 3 \<and> is_trailing_zeros (24 :: u8) 3 \<and> is_leading_zeros (1 :: u32) 31
    \<and> is_trailing_zeros (2 ^ 40 :: 64 word) 40"
proof -
  have "bits_cl0_u8 24 = 3" "bits_ct0_u8 24 = 3" "bits_cl0_u32 1 = 31" "bits_ct0_u64 (2 ^ 40) = 40" by code_simp+
  with zero_counts_correct [of 24 1 "2 ^ 40"] show ?thesis by simp
qed

text \<open>What \<open>slot_alloc\<close> marks, \<open>slot_free\<close> of the same range clears: the map of slots is as before
  the allocation, bit for bit.\<close>

theorem slot_alloc_then_free:
  assumes "slot_ok t" and "slot_alloc (Some t) sz = Some (int a, s')"
  shows "slot_free s' (int a) sz = Some (Some t)"
  by (rule slot_alloc_free [OF assms])

theorem slot_alloc_then_free_witness:
  "\<exists>s'. slot_alloc (Some \<lparr>sl_n = 2, sl_flag = [240, 1]\<rparr>) 9 = Some (4, s')
    \<and> slot_free s' 4 9 = Some (Some \<lparr>sl_n = 2, sl_flag = [240, 1]\<rparr>)"
proof -
  have "slot_alloc (Some \<lparr>sl_n = 2, sl_flag = [240, 1]\<rparr>) 9 = Some (int 4, Some \<lparr>sl_n = 2, sl_flag = [255, 249]\<rparr>)"
    by code_simp
  from slot_alloc_then_free [OF _ this] this show ?thesis by (auto simp: slot_ok_def)
qed

text \<open>An allocation that fails with -1 has no free range of its size to miss, for requests of at least
  7 slots.\<close>

theorem slot_alloc_finds:
  assumes "slot_ok t" and "slot_alloc (Some t) sz = Some (-1, s')" and "7 \<le> unat sz" and "a + unat sz \<le> slot_size t"
  shows "\<not> slots_free (sl_flag t) a (unat sz)"
  by (rule slot_alloc_complete [OF assms])

theorem slot_alloc_finds_witness:
  "slot_alloc (Some \<lparr>sl_n = 2, sl_flag = [192, 24]\<rparr>) 10 = Some (-1, Some \<lparr>sl_n = 2, sl_flag = [192, 24]\<rparr>)
    \<and> \<not> slots_free [192, 24] 2 10"
proof -
  have run: "slot_alloc (Some \<lparr>sl_n = 2, sl_flag = [192, 24]\<rparr>) 10 = Some (-1, Some \<lparr>sl_n = 2, sl_flag = [192, 24]\<rparr>)"
    by code_simp
  from slot_alloc_finds [OF _ run, of 2] run show ?thesis by (simp add: slot_ok_def slot_size_def)
qed

text \<open>An allocation is undefined exactly when the range it picks ends at the last slot: it then
  writes the byte behind the map. Such a range is free, so the request is one that fits.\<close>

theorem slot_alloc_overruns:
  assumes "slot_ok t"
  shows "slot_alloc (Some t) sz = None \<Longrightarrow> \<exists>a. a + unat sz = slot_size t \<and> slots_free (sl_flag t) a (unat sz)"
    \<comment> \<open>for instance the whole of an empty map\<close>
  by (rule slot_alloc_to_end [OF assms])

theorem slot_alloc_overruns_witness:
  "slot_alloc (slot_new False 2) 16 = None \<and> (\<exists>a. a + 16 = slot_size (the (slot_new False 2)) \<and> slots_free [0, 0] a 16)"
proof -
  have new: "slot_new False 2 = Some \<lparr>sl_n = 2, sl_flag = [0, 0]\<rparr>" by code_simp
  have run: "slot_alloc (Some \<lparr>sl_n = 2, sl_flag = [0, 0]\<rparr>) 16 = None" by code_simp
  from slot_alloc_overruns [OF _ run] run show ?thesis unfolding new by (simp add: slot_ok_def)
qed

text \<open>C30: a client of a new slot map makes any sequence of allocations and releases, and gives back only ranges it
  holds. When no allocation picks a range that ends at the last slot, the sequence is served, and the
  ranges the client then holds are disjoint, end before the last slot and are exactly the slots
  marked as used. Otherwise the first such allocation, of a range that fits and is free, is where
  it goes wrong: it writes the byte behind the map. A release never goes wrong.\<close>

theorem slot_ranges_disjoint:
  assumes "slot_new False n = Some t"
  shows "case slot.serve ops t [] of
      Some (t', bs) \<Rightarrow> slot_rep t' (set bs) \<and> sorted_wrt apart bs \<and> (\<forall>b\<in>set bs. fst b + snd b < slot_size t')
    | None \<Rightarrow> \<exists>pre k post t' bs a. ops = pre @ Take k # post \<and> slot.serve pre t [] = Some (t', bs) \<and> slot_rep t' (set bs)
        \<and> slot_alloc (Some t') k = None \<and> a + unat k = slot_size t' \<and> slots_free (sl_flag t') a (unat k)"
proof -
  have "slot_rep t {}"
    using slot_new_ok [OF assms(1)] by (auto simp: slot_rep_def slots_free_def)
  then have served: "slot.served (slot_size t) t []" by (simp add: slot.served_def)
  show ?thesis
  proof (cases "slot.serve ops t []")
    case (Some tb)
    then obtain t' bs where tb: "slot.serve ops t [] = Some (t', bs)" by (cases tb) simp
    have "slot.served (slot_size t) t' bs" by (rule slot.serve_safe [OF served tb])
    then show ?thesis unfolding tb by (auto simp: slot.served_def slot_rep_def)
  next
    case None
    from slot.serve_none [OF served this] obtain pre k post t' bs where
      at: "ops = pre @ Take k # post" "slot.serve pre t [] = Some (t', bs)" "slot.served (slot_size t) t' bs" "slot_take t' k = None" by blast
    then have rep: "slot_rep t' (set bs)" by (simp add: slot.served_def)
    then have ok: "slot_ok t'" by (simp add: slot_rep_def)
    have none: "slot_alloc (Some t') k = None"
    proof (rule ccontr)
      assume "slot_alloc (Some t') k \<noteq> None"
      then obtain off s' where run: "slot_alloc (Some t') k = Some (off, s')" by auto
      from slot_alloc_correct [OF ok run] run at(4) show False by (auto simp: slot_take_def)
    qed
    obtain a where "a + unat k = slot_size t'" "slots_free (sl_flag t') a (unat k)" using slot_alloc_to_end [OF ok none] by blast
    with at(1,2) rep none show ?thesis unfolding None option.case by blast
  qed
qed

theorem slot_ranges_disjoint_witness:
  "\<exists>t t' bs. slot_new False 2 = Some t \<and> slot.serve [Take 5, Take 4, Give 1] t [] = Some (t', bs)
    \<and> bs = [(5, 4)] \<and> slot_rep t' {(5, 4)} \<and> slot.serve [Take 5, Take 11] t [] = None"
proof -
  have new: "slot_new False 2 = Some \<lparr>sl_n = 2, sl_flag = [0, 0]\<rparr>" by code_simp
  have steps: "slot_take \<lparr>sl_n = 2, sl_flag = [0, 0]\<rparr> 5 = Some (Some 0, \<lparr>sl_n = 2, sl_flag = [248, 0]\<rparr>)"
    "slot_take \<lparr>sl_n = 2, sl_flag = [248, 0]\<rparr> 4 = Some (Some 5, \<lparr>sl_n = 2, sl_flag = [255, 128]\<rparr>)"
    "slot_give \<lparr>sl_n = 2, sl_flag = [255, 128]\<rparr> (0, 5) = Some \<lparr>sl_n = 2, sl_flag = [7, 128]\<rparr>"
    "slot_take \<lparr>sl_n = 2, sl_flag = [248, 0]\<rparr> 11 = None" by code_simp+
  then have runs: "slot.serve [Take 5, Take 4, Give 1] \<lparr>sl_n = 2, sl_flag = [0, 0]\<rparr> [] = Some (\<lparr>sl_n = 2, sl_flag = [7, 128]\<rparr>, [(5, 4)])"
    "slot.serve [Take 5, Take 11] \<lparr>sl_n = 2, sl_flag = [0, 0]\<rparr> [] = None"
    by simp_all
  from slot_ranges_disjoint [OF new, of "[Take 5, Take 4, Give 1]"] have "slot_rep \<lparr>sl_n = 2, sl_flag = [7, 128]\<rparr> {(5, 4)}"
    unfolding runs(1) by simp
  with new runs show ?thesis by auto
qed

end
