(* ===== verification/Mem_Buddy.thy ===== *)
theory Mem_Buddy
  imports Prelude Range_Alloc
begin

text \<open>
  The buddy allocator of \<^verbatim>\<open>src/c/src/mem_buddy.c\<close>: a heap-ordered array
  \<open>longest\<close> whose entry at a node of height \<open>k\<close> is one more than the logarithm of the
  largest free block below it, and 0 when there is none. The array is abstracted to a
  tree whose nodes are free, allocated or split.

  \<open>BUDDY_SIZE\<close> is an \<open>int\<close> and \<open>2 * BUDDY_SIZE\<close> overflows from \<open>logn = 30\<close> on, which
  is undefined; below that every index is under \<open>2 ^ 30\<close> and every entry under 31, so
  indices and entries are naturals here. A size is a 32-bit word, as \<open>fix_size\<close> wraps.
\<close>

unbundle bit_operations_syntax

subsection \<open>The code\<close>

record mem_buddy =
  bd_logn :: nat
  bd_longest :: "nat list"

definition parent :: "nat \<Rightarrow> nat" where
  "parent i = (i + 1) div 2 - 1"

definition left_child :: "nat \<Rightarrow> nat" where
  "left_child i = i * 2 + 1"

definition right_child :: "nat \<Rightarrow> nat" where
  "right_child i = i * 2 + 2"

definition is_power_of_2 :: "u32 \<Rightarrow> bool" where
  "is_power_of_2 x \<longleftrightarrow> x AND (x - 1) = 0"

definition node_size :: "nat \<Rightarrow> nat" where
  "node_size x = (if x = 0 then 0 else 2 ^ (x - 1))"

definition buddy_size :: "mem_buddy \<Rightarrow> nat" where
  "buddy_size b = 2 ^ bd_logn b"

definition fix_size :: "u32 \<Rightarrow> u32" where
  "fix_size sz =
     (let sz = sz OR drop_bit 1 sz;
          sz = sz OR drop_bit 2 sz;
          sz = sz OR drop_bit 4 sz;
          sz = sz OR drop_bit 8 sz;
          sz = sz OR drop_bit 16 sz
      in sz + 1)"

text \<open>The loop of \<open>buddy_new\<close>: the counter \<open>node_logn\<close> drops where a level begins.\<close>

fun buddy_fill :: "nat list \<Rightarrow> nat \<Rightarrow> nat list" where
  "buddy_fill [] node_logn = []"
| "buddy_fill (i # is) node_logn =
     (let node_logn = (if is_power_of_2 (of_nat (i + 1)) then node_logn - 1 else node_logn)
      in (node_logn + 1) # buddy_fill is node_logn)"

definition buddy_new :: "bool \<Rightarrow> nat \<Rightarrow> mem_buddy option option" where
  "buddy_new oom logn =
     (if logn > 29 then None
      else if oom then Some None
      else Some (Some \<lparr>bd_logn = logn, bd_longest = buddy_fill [0..<2 * 2 ^ logn - 1] (logn + 1)\<rparr>))"

function buddy_descend :: "nat list \<Rightarrow> nat \<Rightarrow> nat \<Rightarrow> nat \<Rightarrow> (nat \<times> nat) option" where
  "buddy_descend lg sz nsize i =
     (if nsize = sz then Some (i, nsize)
      else if left_child i < length lg then
        if node_size (lg ! left_child i) \<ge> sz then buddy_descend lg sz (nsize div 2) (left_child i)
        else buddy_descend lg sz (nsize div 2) (right_child i)
      else None)"
  by pat_completeness auto
termination
  by (relation "measure (\<lambda>(lg, _, _, i). length lg - i)") (auto simp: left_child_def right_child_def)

lemma parent_less [termination_simp]: "i \<noteq> 0 \<Longrightarrow> parent i < i"
  by (auto simp: parent_def)

fun buddy_up :: "nat \<Rightarrow> nat list \<Rightarrow> nat list option" where
  "buddy_up i lg =
     (if i = 0 then Some lg
      else do {
        l \<leftarrow> arr_get lg (left_child (parent i));
        r \<leftarrow> arr_get lg (right_child (parent i));
        lg \<leftarrow> arr_set lg (parent i) (if l > r then l else r);
        buddy_up (parent i) lg
      })"

definition buddy_alloc :: "mem_buddy option \<Rightarrow> u32 \<Rightarrow> (int \<times> mem_buddy option) option" where
  "buddy_alloc b sz = (case b of
       None \<Rightarrow> Some (-1, None)
     | Some d \<Rightarrow>
         let sz = (if \<not> is_power_of_2 sz then fix_size sz else sz) in do {
           top \<leftarrow> arr_get (bd_longest d) 0;
           if node_size top < unat sz then Some (-1, Some d)
           else do {
             (i, nsize) \<leftarrow> buddy_descend (bd_longest d) (unat sz) (buddy_size d) 0;
             lg \<leftarrow> arr_set (bd_longest d) i 0;
             let offset = (i + 1) * nsize - buddy_size d;
             lg \<leftarrow> buddy_up i lg;
             Some (int offset, Some (d\<lparr>bd_longest := lg\<rparr>))
           }
         })"

fun buddy_find :: "nat list \<Rightarrow> nat \<Rightarrow> nat \<Rightarrow> (nat \<times> nat) option option" where
  "buddy_find lg node_logn i = do {
     v \<leftarrow> arr_get lg i;
     if v = 0 then Some (Some (i, node_logn))
     else if i = 0 then Some None
     else buddy_find lg (node_logn + 1) (parent i)
   }"

fun buddy_merge :: "nat \<Rightarrow> nat \<Rightarrow> nat list \<Rightarrow> nat list option" where
  "buddy_merge node_logn i lg =
     (if i = 0 then Some lg
      else do {
        l \<leftarrow> arr_get lg (left_child (parent i));
        r \<leftarrow> arr_get lg (right_child (parent i));
        lg \<leftarrow> arr_set lg (parent i)
                (if l = r \<and> l = node_logn + 1 then node_logn + 1 else if l > r then l else r);
        buddy_merge (node_logn + 1) (parent i) lg
      })"

definition buddy_free :: "mem_buddy option \<Rightarrow> nat \<Rightarrow> mem_buddy option option" where
  "buddy_free b offset = (case b of
       None \<Rightarrow> Some None
     | Some d \<Rightarrow>
         if offset \<ge> buddy_size d then Some (Some d)
         else do {
           found \<leftarrow> buddy_find (bd_longest d) 1 (offset + buddy_size d - 1);
           case found of
             None \<Rightarrow> Some (Some d)
           | Some (i, node_logn) \<Rightarrow> do {
               lg \<leftarrow> arr_set (bd_longest d) i node_logn;
               lg \<leftarrow> buddy_merge node_logn i lg;
               Some (Some (d\<lparr>bd_longest := lg\<rparr>))
             }
         })"

declare buddy_descend.simps [simp del] buddy_up.simps [simp del]
  buddy_find.simps [simp del] buddy_merge.simps [simp del]

subsection \<open>Rounding up to a power of two\<close>

definition smeared :: "u32 \<Rightarrow> nat \<Rightarrow> u32 \<Rightarrow> bool" where
  "smeared X w x \<longleftrightarrow> (\<forall>j. bit x j \<longleftrightarrow> (\<exists>i. j \<le> i \<and> i < j + w \<and> bit X i))"

lemma smeared_step: "smeared X w x \<Longrightarrow> w' = 2 * w \<Longrightarrow> smeared X w' (x OR drop_bit w x)"
proof -
  assume s: "smeared X w x" and w: "w' = 2 * w"
  have "(\<exists>i. j \<le> i \<and> i < j + w \<and> bit X i) \<or> (\<exists>i. w + j \<le> i \<and> i < w + j + w \<and> bit X i)
    \<longleftrightarrow> (\<exists>i. j \<le> i \<and> i < j + w' \<and> bit X i)" for j
  proof
    assume "\<exists>i. j \<le> i \<and> i < j + w' \<and> bit X i"
    then obtain i where i: "j \<le> i" "i < j + w'" "bit X i" by blast
    with w show "(\<exists>i. j \<le> i \<and> i < j + w \<and> bit X i) \<or> (\<exists>i. w + j \<le> i \<and> i < w + j + w \<and> bit X i)"
      by (cases "i < j + w") auto
  next
    assume "(\<exists>i. j \<le> i \<and> i < j + w \<and> bit X i) \<or> (\<exists>i. w + j \<le> i \<and> i < w + j + w \<and> bit X i)"
    then obtain i where i: "bit X i" "j \<le> i \<and> i < j + w \<or> w + j \<le> i \<and> i < w + j + w" by blast
    from i(2) w have "j \<le> i \<and> i < j + w'" by linarith
    with i(1) show "\<exists>i. j \<le> i \<and> i < j + w' \<and> bit X i" by blast
  qed
  with s show ?thesis by (simp add: smeared_def bit_or_iff bit_drop_bit_eq)
qed

lemma top_bit:
  assumes "(X :: u32) \<noteq> 0"
  obtains m where "m < 32" "bit X m" "\<And>j. m < j \<Longrightarrow> \<not> bit X j"
proof -
  let ?S = "{j. bit X j}"
  have fin: "finite ?S" by (rule finite_subset [of _ "{..<32}"]) (auto dest: bit_imp_le_length)
  have ne: "?S \<noteq> {}" using assms bit_eqI [of X 0] by auto
  show thesis
  proof (rule that [of "Max ?S"])
    show "bit X (Max ?S)" using Max_in [OF fin ne] by simp
    then show "Max ?S < 32" using bit_imp_le_length [of X "Max ?S"] by simp
    show "\<not> bit X j" if "Max ?S < j" for j
      using Max_ge [OF fin, of j] that by (meson mem_Collect_eq not_less)
  qed
qed

lemma unat_between:
  assumes "m < 32" "bit (X :: u32) m" "\<And>j. m < j \<Longrightarrow> \<not> bit X j"
  shows "2 ^ m \<le> unat X" "unat X < 2 ^ Suc m"
proof -
  have "bit (unat X) m" using assms(1,2) by (simp add: bit_unsigned_iff)
  then have "unat X div 2 ^ m \<noteq> 0" by (metis bit_iff_odd even_zero)
  then show "2 ^ m \<le> unat X" by (simp add: div_eq_0_iff)
  have "take_bit (Suc m) (unat X) = unat X"
  proof (rule bit_eqI)
    fix j
    show "bit (take_bit (Suc m) (unat X)) j = bit (unat X) j"
      using assms(3) [of j] by (cases "j < Suc m") (auto simp: bit_take_bit_iff bit_unsigned_iff)
  qed
  then show "unat X < 2 ^ Suc m" by (metis take_bit_nat_less_exp)
qed

lemma fix_size_eq:
  assumes "m < 32" "bit (X :: u32) m" "\<And>j. m < j \<Longrightarrow> \<not> bit X j"
  shows "fix_size X = mask (Suc m) + 1"
proof -
  let ?f = "\<lambda>w x. x OR drop_bit w x"
  have "smeared X 1 X" unfolding smeared_def by (auto simp: le_less_Suc_eq)
  then have "smeared X 2 (?f 1 X)" by (rule smeared_step) simp
  then have "smeared X 4 (?f 2 (?f 1 X))" by (rule smeared_step) simp
  then have "smeared X 8 (?f 4 (?f 2 (?f 1 X)))" by (rule smeared_step) simp
  then have "smeared X 16 (?f 8 (?f 4 (?f 2 (?f 1 X))))" by (rule smeared_step) simp
  then have "smeared X 32 (?f 16 (?f 8 (?f 4 (?f 2 (?f 1 X)))))" by (rule smeared_step) simp
  moreover have "(\<exists>i. j \<le> i \<and> i < j + 32 \<and> bit X i) \<longleftrightarrow> j < Suc m" for j
  proof
    assume "\<exists>i. j \<le> i \<and> i < j + 32 \<and> bit X i"
    with assms(3) show "j < Suc m" by (metis le_less_trans less_Suc_eq_le not_less)
  qed (use assms(1,2) in \<open>auto intro!: exI [of _ m]\<close>)
  ultimately have "?f 16 (?f 8 (?f 4 (?f 2 (?f 1 X)))) = mask (Suc m)"
    using assms(1) by (intro bit_word_eqI) (auto simp: smeared_def bit_mask_iff)
  then show ?thesis by (simp only: fix_size_def Let_def)
qed

lemma fix_size_power:
  assumes "m < 31" "bit (X :: u32) m" "\<And>j. m < j \<Longrightarrow> \<not> bit X j"
  shows "unat (fix_size X) = 2 ^ Suc m"
proof -
  have "fix_size X = 2 ^ Suc m"
    using fix_size_eq [of m X] assms by (simp add: mask_eq_exp_minus_1)
  also have "\<dots> = of_nat (2 ^ Suc m)" by simp
  finally show ?thesis
    using assms(1) power_strict_increasing [of "Suc m" 32 "2 :: nat"]
    by (simp only: unsigned_of_nat) (simp add: take_bit_nat_eq_self)
qed

lemma power_of_2_iff:
  assumes "m < 32" "bit (X :: u32) m" "\<And>j. m < j \<Longrightarrow> \<not> bit X j"
  shows "is_power_of_2 X \<longleftrightarrow> unat X = 2 ^ m"
proof -
  note between = unat_between [of m X, OF assms]
  have pos: "0 < unat X" using between(1) less_le_trans [of 0 "2 ^ m" "unat X"] by simp
  then have "1 \<le> X" by (simp add: word_le_nat_alt)
  then have minus: "unat (X - 1) = unat X - 1" by (simp add: unat_sub)
  show ?thesis
  proof
    assume p: "is_power_of_2 X"
    show "unat X = 2 ^ m"
    proof (rule ccontr)
      assume "unat X \<noteq> 2 ^ m"
      with between have "2 ^ m \<le> unat X - 1" "unat X - 1 < 2 * 2 ^ m" by auto
      then have "(unat X - 1) div 2 ^ m = 1" by (simp add: div_nat_eqI)
      then have "bit (unat (X - 1)) m" unfolding minus by (simp add: bit_iff_odd)
      then have "bit (X - 1) m" by (simp add: bit_unsigned_iff)
      with assms(2) have "bit (X AND (X - 1)) m" by (simp add: bit_and_iff)
      with p show False by (simp add: is_power_of_2_def)
    qed
  next
    assume eq: "unat X = 2 ^ m"
    show "is_power_of_2 X"
      unfolding is_power_of_2_def
    proof (rule bit_word_eqI)
      fix j assume "j < LENGTH(32)"
      have "\<not> bit (unat X - 1) j" if "j = m" unfolding eq that by (simp add: bit_iff_odd)
      moreover have "\<not> bit X j" if "j \<noteq> m"
      proof
        assume "bit X j"
        then have "bit (2 ^ m :: nat) j" unfolding eq [symmetric] using \<open>j < LENGTH(32)\<close>
          by (simp add: bit_unsigned_iff)
        with that show False by (simp add: bit_exp_iff)
      qed
      ultimately show "bit (X AND (X - 1)) j = bit (0 :: u32) j"
        unfolding bit_and_iff minus [symmetric] by (auto simp: bit_unsigned_iff)
    qed
  qed
qed

text \<open>The rounding of \<open>buddy_alloc\<close>, up to \<open>2 ^ 31\<close>: the least power of two that is enough.\<close>

lemma round_up:
  assumes "0 < unat X" and "unat X \<le> 2 ^ 31"
  obtains j where "unat (if \<not> is_power_of_2 X then fix_size X else X) = 2 ^ j"
    "unat X \<le> 2 ^ j" "2 ^ j < 2 * unat X" "j < 32"
proof -
  have "X \<noteq> 0" using assms(1) by (auto simp: unat_gt_0)
  then obtain m where m: "m < 32" "bit X m" "\<And>j. m < j \<Longrightarrow> \<not> bit X j" by (rule top_bit) blast
  note between = unat_between [of m X, OF m]
  show thesis
  proof (cases "is_power_of_2 X")
    case True
    then have "unat X = 2 ^ m" using power_of_2_iff [of m X] m by blast
    with True m(1) that [of m] show thesis by simp
  next
    case False
    then have ne: "unat X \<noteq> 2 ^ m" using power_of_2_iff [of m X] m by blast
    have "m < 31"
    proof (rule ccontr)
      assume "\<not> m < 31"
      with m(1) have "m = 31" by simp
      with between(1) ne assms(2) show False by simp
    qed
    with False m ne between that [of "Suc m"] fix_size_power [of m X] show thesis by simp
  qed
qed

subsection \<open>The tree the array stands for\<close>

datatype btree = BFree | BAlloc | BSplit btree btree

fun avail :: "nat \<Rightarrow> btree \<Rightarrow> nat" where
  "avail k BFree = k + 1"
| "avail k BAlloc = 0"
| "avail k (BSplit a b) = max (avail (k - 1) a) (avail (k - 1) b)"

fun bt_ok :: "nat \<Rightarrow> btree \<Rightarrow> bool" where
  "bt_ok k BFree \<longleftrightarrow> True"
| "bt_ok k BAlloc \<longleftrightarrow> True"
| "bt_ok 0 (BSplit a b) \<longleftrightarrow> False"
| "bt_ok (Suc k) (BSplit a b) \<longleftrightarrow> bt_ok k a \<and> bt_ok k b"

text \<open>The allocated blocks, and the free ones, of a tree of height \<open>k\<close> that starts at \<open>base\<close>.\<close>

fun blocks :: "nat \<Rightarrow> nat \<Rightarrow> btree \<Rightarrow> (nat \<times> nat) set" where
  "blocks base k BFree = {}"
| "blocks base k BAlloc = {(base, 2 ^ k)}"
| "blocks base k (BSplit a b) = blocks base (k - 1) a \<union> blocks (base + 2 ^ (k - 1)) (k - 1) b"

fun free_blocks :: "nat \<Rightarrow> nat \<Rightarrow> btree \<Rightarrow> (nat \<times> nat) set" where
  "free_blocks base k BFree = {(base, k)}"
| "free_blocks base k BAlloc = {}"
| "free_blocks base k (BSplit a b) = free_blocks base (k - 1) a \<union> free_blocks (base + 2 ^ (k - 1)) (k - 1) b"

fun halves :: "btree \<Rightarrow> btree \<times> btree" where
  "halves (BSplit a b) = (a, b)"
| "halves _ = (BFree, BFree)"

fun balloc :: "nat \<Rightarrow> nat \<Rightarrow> btree \<Rightarrow> nat \<times> btree" where
  "balloc 0 j t = (0, BAlloc)"
| "balloc (Suc k) j t =
     (if j = Suc k then (0, BAlloc)
      else let (a, b) = halves t
           in if j < avail k a then let (off, a') = balloc k j a in (off, BSplit a' b)
              else let (off, b') = balloc k j b in (2 ^ k + off, BSplit a b'))"

fun bfree :: "nat \<Rightarrow> nat \<Rightarrow> btree \<Rightarrow> btree" where
  "bfree k off BFree = BFree"
| "bfree k off BAlloc = BFree"
| "bfree k off (BSplit a b) =
     (if off < 2 ^ (k - 1) then BSplit (bfree (k - 1) off a) b
      else BSplit a (bfree (k - 1) (off - 2 ^ (k - 1)) b))"

lemma avail_le: "bt_ok k t \<Longrightarrow> avail k t \<le> k + 1"
  by (induction k t rule: bt_ok.induct) auto

lemma avail_full: "bt_ok k t \<Longrightarrow> k < avail k t \<Longrightarrow> t = BFree"
  using avail_le by (induction k t rule: bt_ok.induct) fastforce+

lemma avail_halves:
  "bt_ok (Suc k) t \<Longrightarrow> j \<le> k \<Longrightarrow> j < avail (Suc k) t \<Longrightarrow> halves t = (a, b) \<Longrightarrow>
   t \<noteq> BAlloc \<and> bt_ok k a \<and> bt_ok k b \<and> (j < avail k a \<or> j < avail k b)"
  by (cases t) auto

lemma avail_free_blocks:
  "bt_ok k t \<Longrightarrow> j < avail k t \<longleftrightarrow> (\<exists>(x, h) \<in> free_blocks base k t. j \<le> h)"
  by (induction k t arbitrary: base rule: bt_ok.induct) (simp_all add: less_max_iff_disj bex_Un less_Suc_eq_le)

lemma blocks_bounds:
  "bt_ok k t \<Longrightarrow> (x, l) \<in> blocks base k t \<Longrightarrow> base \<le> x \<and> x + l \<le> base + 2 ^ k \<and> 0 < l"
proof (induction k t arbitrary: base rule: bt_ok.induct)
  case (4 k a b)
  then show ?case by (fastforce simp: add.assoc)
qed auto

text \<open>Allocation adds one aligned block, apart from the others.\<close>

lemma balloc_blocks:
  "bt_ok k t \<Longrightarrow> j \<le> k \<Longrightarrow> j < avail k t \<Longrightarrow> balloc k j t = (off, t') \<Longrightarrow>
   bt_ok k t' \<and> off + 2 ^ j \<le> 2 ^ k \<and> 2 ^ j dvd off
   \<and> blocks base k t' = insert (base + off, 2 ^ j) (blocks base k t)
   \<and> (\<forall>(x, l) \<in> blocks base k t. x + l \<le> base + off \<or> base + off + 2 ^ j \<le> x)"
proof (induction k arbitrary: base t off t')
  case 0
  then have "t = BFree" using avail_full [of 0 t] by simp
  with 0 show ?case by auto
next
  case (Suc k)
  show ?case
  proof (cases "j = Suc k")
    case True
    then have "t = BFree" using avail_full [of "Suc k" t] Suc.prems by simp
    with Suc.prems True show ?thesis by auto
  next
    case False
    obtain a b where h: "halves t = (a, b)" by fastforce
    have ab: "t \<noteq> BAlloc" "bt_ok k a" "bt_ok k b" "j < avail k a \<or> j < avail k b" "j \<le> k"
      using avail_halves [OF Suc.prems(1) _ Suc.prems(3) h] Suc.prems(2) False by auto
    have bl: "blocks base (Suc k) t = blocks base k a \<union> blocks (base + 2 ^ k) k b"
      using ab(1) h by (cases t) auto
    have dv: "2 ^ j dvd (2 :: nat) ^ k" using ab(5) by (rule le_imp_power_dvd)
    show ?thesis
    proof (cases "j < avail k a")
      case True
      then obtain a' where a': "balloc k j a = (off, a')" "t' = BSplit a' b"
        using Suc.prems(4) False h by (auto split: prod.splits)
      note IH = Suc.IH [OF ab(2,5) True a'(1), of base]
      have "(x, l) \<in> blocks (base + 2 ^ k) k b \<Longrightarrow> base + off + 2 ^ j \<le> x" for x l
        using blocks_bounds [OF ab(3), of x l "base + 2 ^ k"] IH by auto
      with IH a' bl ab(3) show ?thesis by fastforce
    next
      case no: False
      then have jb: "j < avail k b" using ab(4) by simp
      from no obtain off' b' where b': "balloc k j b = (off', b')" "t' = BSplit a b'" "off = 2 ^ k + off'"
        using Suc.prems(4) False h by (auto split: prod.splits)
      note IH = Suc.IH [OF ab(3,5) jb b'(1), of "base + 2 ^ k"]
      have "(x, l) \<in> blocks base k a \<Longrightarrow> x + l \<le> base + off" for x l
        using blocks_bounds [OF ab(2), of x l base] b'(3) by auto
      with IH b' bl ab(2) dv show ?thesis by (auto simp: add.assoc)
    qed
  qed
qed

text \<open>Release removes the block the offset lies in.\<close>

lemma bfree_blocks:
  "bt_ok k t \<Longrightarrow> off < 2 ^ k \<Longrightarrow>
   bt_ok k (bfree k off t)
   \<and> blocks base k (bfree k off t) = blocks base k t - {(x, l). x \<le> base + off \<and> base + off < x + l}"
proof (induction k t arbitrary: base off rule: bt_ok.induct)
  case (4 k a b)
  note ok = 4(3)
  show ?case
  proof (cases "off < 2 ^ k")
    case True
    have "\<not> (x \<le> base + off \<and> base + off < x + l)" if "(x, l) \<in> blocks (base + 2 ^ k) k b" for x l
      using blocks_bounds [OF _ that] ok True by auto
    with True 4(1) [of off base] ok show ?thesis by auto
  next
    case False
    then have off: "off - 2 ^ k < 2 ^ k" "base + 2 ^ k + (off - 2 ^ k) = base + off" using 4(4) by auto
    have "\<not> (x \<le> base + off \<and> base + off < x + l)" if "(x, l) \<in> blocks base k a" for x l
      using blocks_bounds [OF _ that] ok False by auto
    with False 4(2) [OF _ off(1), of "base + 2 ^ k"] off(2) ok show ?thesis by auto
  qed
qed auto

subsection \<open>The array and the tree\<close>

fun brepr :: "nat list \<Rightarrow> nat \<Rightarrow> nat \<Rightarrow> btree \<Rightarrow> bool" where
  "brepr lg i 0 t \<longleftrightarrow> i < length lg \<and> bt_ok 0 t \<and> lg ! i = avail 0 t"
| "brepr lg i (Suc k) BFree \<longleftrightarrow> i < length lg \<and> lg ! i = k + 2
     \<and> brepr lg (left_child i) k BFree \<and> brepr lg (right_child i) k BFree"
| "brepr lg i (Suc k) BAlloc \<longleftrightarrow> i < length lg \<and> lg ! i = 0
     \<and> brepr lg (left_child i) k BFree \<and> brepr lg (right_child i) k BFree"
| "brepr lg i (Suc k) (BSplit a b) \<longleftrightarrow> i < length lg
     \<and> lg ! i = max (lg ! left_child i) (lg ! right_child i)
     \<and> brepr lg (left_child i) k a \<and> brepr lg (right_child i) k b"

fun sub :: "nat \<Rightarrow> nat \<Rightarrow> nat set" where
  "sub i 0 = {i}"
| "sub i (Suc k) = insert i (sub (left_child i) k \<union> sub (right_child i) k)"

lemma brepr_val: "brepr lg i k t \<Longrightarrow> i < length lg \<and> lg ! i = avail k t \<and> bt_ok k t"
  by (induction lg i k t rule: brepr.induct) auto

lemma brepr_halves:
  "brepr lg i (Suc k) t \<Longrightarrow> halves t = (a, b) \<Longrightarrow>
   brepr lg (left_child i) k a \<and> brepr lg (right_child i) k b"
  by (cases t) auto

lemma brepr_frame:
  "brepr lg i k t \<Longrightarrow> length lg' = length lg \<Longrightarrow> (\<And>x. x \<in> sub i k \<Longrightarrow> lg' ! x = lg ! x) \<Longrightarrow> brepr lg' i k t"
proof (induction lg i k t arbitrary: lg' rule: brepr.induct)
  case (4 lg i k a b)
  have "left_child i \<in> sub (left_child i) k" "right_child i \<in> sub (right_child i) k" by (cases k; simp)+
  with 4 show ?case by auto
qed auto

lemma sub_range: "x \<in> sub i k \<Longrightarrow> \<exists>d. 2 ^ d * (i + 1) \<le> x + 1 \<and> x + 1 < 2 ^ d * (i + 2)"
proof (induction k arbitrary: i)
  case 0
  then show ?case by (auto intro: exI [of _ 0])
next
  case (Suc k)
  then consider "x = i" | "x \<in> sub (left_child i) k" | "x \<in> sub (right_child i) k" by auto
  then show ?case
  proof cases
    case 1
    then show ?thesis by (auto intro: exI [of _ 0])
  next
    case 2
    from Suc.IH [OF this] obtain d where
      "2 ^ d * (2 * i + 2) \<le> x + 1" "x + 1 < 2 ^ d * (2 * i + 3)" by (auto simp: left_child_def algebra_simps)
    then have "2 ^ Suc d * (i + 1) \<le> x + 1 \<and> x + 1 < 2 ^ Suc d * (i + 2)" by (simp add: algebra_simps)
    then show ?thesis by blast
  next
    case 3
    from Suc.IH [OF this] obtain d where
      "2 ^ d * (2 * i + 3) \<le> x + 1" "x + 1 < 2 ^ d * (2 * i + 4)" by (auto simp: right_child_def algebra_simps)
    then have "2 ^ Suc d * (i + 1) \<le> x + 1 \<and> x + 1 < 2 ^ Suc d * (i + 2)" by (simp add: algebra_simps)
    then show ?thesis by blast
  qed
qed

lemma le_pow_mult: "(n :: nat) \<le> 2 ^ d * n"
  using mult_le_mono1 [of 1 "2 ^ d" n] by simp

lemma sub_disjoint:
  "i \<notin> sub (left_child i) k" "i \<notin> sub (right_child i) k"
  "x \<in> sub (left_child i) k \<Longrightarrow> x \<notin> sub (right_child i) k"
proof -
  show "i \<notin> sub (left_child i) k"
  proof
    assume "i \<in> sub (left_child i) k"
    from sub_range [OF this] obtain d :: nat where "2 ^ d * (left_child i + 1) \<le> i + 1" by blast
    moreover have "left_child i + 1 \<le> 2 ^ d * (left_child i + 1)" by (rule le_pow_mult)
    ultimately show False unfolding left_child_def by linarith
  qed
  show "i \<notin> sub (right_child i) k"
  proof
    assume "i \<in> sub (right_child i) k"
    from sub_range [OF this] obtain d :: nat where "2 ^ d * (right_child i + 1) \<le> i + 1" by blast
    moreover have "right_child i + 1 \<le> 2 ^ d * (right_child i + 1)" by (rule le_pow_mult)
    ultimately show False unfolding right_child_def by linarith
  qed
  assume "x \<in> sub (left_child i) k"
  from sub_range [OF this] obtain d where d: "2 ^ d * (2 * i + 2) \<le> x + 1" "x + 1 < 2 ^ d * (2 * i + 3)"
    by (auto simp: left_child_def algebra_simps)
  show "x \<notin> sub (right_child i) k"
  proof
    assume "x \<in> sub (right_child i) k"
    from sub_range [OF this] obtain e where e: "2 ^ e * (2 * i + 3) \<le> x + 1" "x + 1 < 2 ^ e * (2 * i + 4)"
      by (auto simp: right_child_def algebra_simps)
    show False
    proof (cases "d \<le> e")
      case True
      then have "(2 :: nat) ^ d * (2 * i + 3) \<le> 2 ^ e * (2 * i + 3)" by (intro mult_right_mono power_increasing) simp_all
      with d e show False by linarith
    next
      case False
      then have "(2 :: nat) ^ Suc e * (2 * i + 2) \<le> 2 ^ d * (2 * i + 2)" by (intro mult_right_mono power_increasing) simp_all
      then have "2 ^ e * (4 * i + 4) \<le> x + 1" using d by (simp add: algebra_simps)
      moreover have "2 ^ e * (2 * i + 4) \<le> 2 ^ e * (4 * i + 4)" by simp
      ultimately show False using e by linarith
    qed
  qed
qed

lemma parent_child [simp]: "parent (left_child i) = i" "parent (right_child i) = i"
  "0 < left_child i" "0 < right_child i"
  by (simp_all add: parent_def left_child_def right_child_def)

lemma node_size_ge: "node_size v \<ge> 2 ^ j \<longleftrightarrow> j < v"
  by (cases v) (auto simp: node_size_def)

text \<open>
  What a step inside the subtree of \<open>i\<close> leaves: that subtree stands for \<open>t'\<close> and every
  entry outside it is untouched.
\<close>

definition subtree_now :: "nat list \<Rightarrow> nat list \<Rightarrow> nat \<Rightarrow> nat \<Rightarrow> btree \<Rightarrow> bool" where
  "subtree_now lg lg' i k t' \<longleftrightarrow> length lg' = length lg \<and> brepr lg' i k t'
     \<and> (\<forall>x. x \<notin> sub i k \<longrightarrow> lg' ! x = lg ! x)"

lemma root_in_sub: "i \<in> sub i k"
  by (cases k) auto

lemma brepr_other: "brepr lg i k t \<Longrightarrow> m \<notin> sub i k \<Longrightarrow> brepr (lg[m := v]) i k t"
  by (erule brepr_frame) (simp, metis nth_list_update_neq)

lemma subtree_now_left:
  assumes "subtree_now lg lg1 (left_child i) k a'" and "brepr lg (right_child i) k b" and "i < length lg"
    and "v = max (lg1 ! left_child i) (lg1 ! right_child i)"
  shows "subtree_now lg (lg1[i := v]) i (Suc k) (BSplit a' b)"
proof -
  have "brepr (lg1[i := v]) (left_child i) k a'"
    using assms(1) by (intro brepr_other sub_disjoint(1)) (simp add: subtree_now_def)
  moreover have "brepr (lg1[i := v]) (right_child i) k b"
  proof (rule brepr_frame [OF assms(2)])
    show "length (lg1[i := v]) = length lg" using assms(1) by (simp add: subtree_now_def)
    fix x assume x: "x \<in> sub (right_child i) k"
    then have "x \<noteq> i" "x \<notin> sub (left_child i) k" by (metis sub_disjoint)+
    then show "lg1[i := v] ! x = lg ! x" using assms(1) by (simp add: subtree_now_def)
  qed
  moreover have "i \<noteq> left_child i" "i \<noteq> right_child i" by (simp_all add: left_child_def right_child_def)
  moreover have "length lg1 = length lg" using assms(1) by (simp add: subtree_now_def)
  moreover have "lg1[i := v] ! x = lg ! x" if "x \<notin> sub i (Suc k)" for x
    using assms(1) that by (auto simp: subtree_now_def)
  ultimately show ?thesis
    using assms(3,4) unfolding subtree_now_def by (simp del: sub.simps)
qed

lemma subtree_now_right:
  assumes "subtree_now lg lg1 (right_child i) k b'" and "brepr lg (left_child i) k a" and "i < length lg"
    and "v = max (lg1 ! left_child i) (lg1 ! right_child i)"
  shows "subtree_now lg (lg1[i := v]) i (Suc k) (BSplit a b')"
proof -
  have "brepr (lg1[i := v]) (right_child i) k b'"
    using assms(1) by (intro brepr_other sub_disjoint(2)) (simp add: subtree_now_def)
  moreover have "brepr (lg1[i := v]) (left_child i) k a"
  proof (rule brepr_frame [OF assms(2)])
    show "length (lg1[i := v]) = length lg" using assms(1) by (simp add: subtree_now_def)
    fix x assume x: "x \<in> sub (left_child i) k"
    then have "x \<noteq> i" "x \<notin> sub (right_child i) k" by (metis sub_disjoint)+
    then show "lg1[i := v] ! x = lg ! x" using assms(1) by (simp add: subtree_now_def)
  qed
  moreover have "i \<noteq> left_child i" "i \<noteq> right_child i" by (simp_all add: left_child_def right_child_def)
  moreover have "length lg1 = length lg" using assms(1) by (simp add: subtree_now_def)
  moreover have "lg1[i := v] ! x = lg ! x" if "x \<notin> sub i (Suc k)" for x
    using assms(1) that by (auto simp: subtree_now_def)
  ultimately show ?thesis
    using assms(3,4) unfolding subtree_now_def by (simp del: sub.simps)
qed

lemma buddy_up_child:
  assumes "c = left_child i \<or> c = right_child i" and "left_child i < length lg" "right_child i < length lg" "i < length lg"
  shows "buddy_up c lg = buddy_up i (lg[i := max (lg ! left_child i) (lg ! right_child i)])"
proof -
  have "c \<noteq> 0" "parent c = i" using assms(1) by auto
  then show ?thesis
    using assms(2-4) by (subst buddy_up.simps) (simp add: max_def if_distrib [of "\<lambda>v. lg[i := v]"])
qed

lemma buddy_alloc_subtree:
  "brepr lg i k t \<Longrightarrow> j \<le> k \<Longrightarrow> j < avail k t \<Longrightarrow> balloc k j t = (off, t') \<Longrightarrow>
   \<exists>m lg'. buddy_descend lg (2 ^ j) (2 ^ k) i = Some (m, 2 ^ j) \<and> m < length lg
     \<and> (m + 1) * 2 ^ j = (i + 1) * 2 ^ k + off \<and> buddy_up m (lg[m := 0]) = buddy_up i lg'
     \<and> subtree_now lg lg' i k t'"
proof (induction k arbitrary: i t off t')
  case 0
  have val: "i < length lg" "bt_ok 0 t" using brepr_val [OF 0(1)] by blast+
  have "0 < avail 0 t" using 0(3) by linarith
  then have "t = BFree" by (rule avail_full [OF val(2)])
  have "i < length lg" "t' = BAlloc" "off = 0" "j = 0" using 0(2,4) val(1) by auto
  then have "subtree_now lg (lg[i := 0]) i 0 t'" by (simp add: subtree_now_def)
  with val(1) \<open>off = 0\<close> \<open>j = 0\<close> show ?case
    by (intro exI [of _ i] exI [of _ "lg[i := 0]"]) (simp add: buddy_descend.simps)
next
  case (Suc k)
  have len: "i < length lg" "lg ! i = avail (Suc k) t" "bt_ok (Suc k) t" using brepr_val [OF Suc.prems(1)] by auto
  show ?case
  proof (cases "j = Suc k")
    case True
    then have free: "t = BFree" using avail_full [OF len(3)] Suc.prems by simp
    have "brepr (lg[i := 0]) i (Suc k) BAlloc"
      using Suc.prems(1) len(1) free by (auto intro!: brepr_other sub_disjoint)
    then have "subtree_now lg (lg[i := 0]) i (Suc k) t'"
      using Suc.prems(4) True by (auto simp: subtree_now_def)
    with Suc.prems(4) True len(1) show ?thesis
      by (intro exI [of _ i] exI [of _ "lg[i := 0]"]) (auto simp: buddy_descend.simps)
  next
    case False
    obtain a b where h: "halves t = (a, b)" by fastforce
    have ab: "t \<noteq> BAlloc" "j < avail k a \<or> j < avail k b" "j \<le> k"
      using avail_halves [OF len(3) _ Suc.prems(3) h] Suc.prems(2) False by auto
    have rep: "brepr lg (left_child i) k a" "brepr lg (right_child i) k b"
      using brepr_halves [OF Suc.prems(1) h] by auto
    note val = brepr_val [OF rep(1)] brepr_val [OF rep(2)]
    have step: "buddy_descend lg (2 ^ j) (2 ^ Suc k) i =
        (if j < avail k a then buddy_descend lg (2 ^ j) (2 ^ k) (left_child i)
         else buddy_descend lg (2 ^ j) (2 ^ k) (right_child i))"
    proof -
      have "(2 :: nat) ^ Suc k \<noteq> 2 ^ j" using False power_inject_exp [of "2 :: nat" "Suc k" j] by auto
      moreover have "(2 :: nat) ^ Suc k div 2 = 2 ^ k" by simp
      ultimately show ?thesis
        using val by (subst buddy_descend.simps) (simp add: node_size_ge del: power_Suc)
    qed
    show ?thesis
    proof (cases "j < avail k a")
      case True
      then obtain a' where a': "balloc k j a = (off, a')" "t' = BSplit a' b"
        using Suc.prems(4) False h by (auto split: prod.splits)
      obtain m lg1 where m: "buddy_descend lg (2 ^ j) (2 ^ k) (left_child i) = Some (m, 2 ^ j)" "m < length lg"
        "(m + 1) * 2 ^ j = (left_child i + 1) * 2 ^ k + off"
        "buddy_up m (lg[m := 0]) = buddy_up (left_child i) lg1" "subtree_now lg lg1 (left_child i) k a'"
        using Suc.IH [OF rep(1) ab(3) True a'(1)] by blast
      have now: "subtree_now lg (lg1[i := max (lg1 ! left_child i) (lg1 ! right_child i)]) i (Suc k) t'"
        unfolding a'(2) by (rule subtree_now_left [OF m(5) rep(2) len(1) refl])
      have "length lg1 = length lg" using m(5) by (simp add: subtree_now_def)
      then have "buddy_up m (lg[m := 0]) = buddy_up i (lg1[i := max (lg1 ! left_child i) (lg1 ! right_child i)])"
        unfolding m(4) using val len(1) by (intro buddy_up_child) auto
      with m now step True show ?thesis
        by (intro exI [of _ m] exI [of _ "lg1[i := max (lg1 ! left_child i) (lg1 ! right_child i)]"])
          (simp add: left_child_def algebra_simps)
    next
      case no: False
      then have jb: "j < avail k b" using ab(2) by simp
      from no obtain off' b' where b': "balloc k j b = (off', b')" "t' = BSplit a b'" "off = 2 ^ k + off'"
        using Suc.prems(4) False h by (auto split: prod.splits)
      obtain m lg1 where m: "buddy_descend lg (2 ^ j) (2 ^ k) (right_child i) = Some (m, 2 ^ j)" "m < length lg"
        "(m + 1) * 2 ^ j = (right_child i + 1) * 2 ^ k + off'"
        "buddy_up m (lg[m := 0]) = buddy_up (right_child i) lg1" "subtree_now lg lg1 (right_child i) k b'"
        using Suc.IH [OF rep(2) ab(3) jb b'(1)] by blast
      have now: "subtree_now lg (lg1[i := max (lg1 ! left_child i) (lg1 ! right_child i)]) i (Suc k) t'"
        unfolding b'(2) by (rule subtree_now_right [OF m(5) rep(1) len(1) refl])
      have "length lg1 = length lg" using m(5) by (simp add: subtree_now_def)
      then have "buddy_up m (lg[m := 0]) = buddy_up i (lg1[i := max (lg1 ! left_child i) (lg1 ! right_child i)])"
        unfolding m(4) using val len(1) by (intro buddy_up_child) auto
      with m now step no b'(3) show ?thesis
        by (intro exI [of _ m] exI [of _ "lg1[i := max (lg1 ! left_child i) (lg1 ! right_child i)]"])
          (simp add: right_child_def algebra_simps)
    qed
  qed
qed

lemma buddy_find_step:
  "i < length lg \<Longrightarrow> lg ! i \<noteq> 0 \<Longrightarrow> i \<noteq> 0 \<Longrightarrow> buddy_find lg n i = buddy_find lg (n + 1) (parent i)"
  by (subst buddy_find.simps) simp

lemma buddy_find_here: "i < length lg \<Longrightarrow> lg ! i = 0 \<Longrightarrow> buddy_find lg n i = Some (Some (i, n))"
  by (subst buddy_find.simps) simp

text \<open>
  Upwards from the leaf of an offset: in a subtree where the offset is free every entry on
  the way is nonzero, otherwise the search stops at the allocated block the offset is in.
\<close>

fun covered :: "nat \<Rightarrow> nat \<Rightarrow> btree \<Rightarrow> bool" where
  "covered k off BFree \<longleftrightarrow> False"
| "covered k off BAlloc \<longleftrightarrow> True"
| "covered k off (BSplit a b) \<longleftrightarrow>
     (if off < 2 ^ (k - 1) then covered (k - 1) off a else covered (k - 1) (off - 2 ^ (k - 1)) b)"

lemma leaf_child:
  assumes "off < 2 ^ Suc k" and "l + 1 = (i + 1) * 2 ^ Suc k + off"
  obtains (left) "off < 2 ^ k" "l + 1 = (left_child i + 1) * 2 ^ k + off"
  | (right) "\<not> off < 2 ^ k" "off - 2 ^ k < 2 ^ k" "l + 1 = (right_child i + 1) * 2 ^ k + (off - 2 ^ k)"
proof (cases "off < 2 ^ k")
  case True
  with assms left show thesis by (simp add: left_child_def algebra_simps)
next
  case False
  with assms right show thesis by (simp add: right_child_def algebra_simps)
qed

lemma buddy_find_free:
  "brepr lg i k t \<Longrightarrow> \<not> covered k off t \<Longrightarrow> off < 2 ^ k \<Longrightarrow> l + 1 = (i + 1) * 2 ^ k + off \<Longrightarrow>
   buddy_find lg 1 l = buddy_find lg (k + 1) i \<and> lg ! i \<noteq> 0"
proof (induction k arbitrary: i t off)
  case 0
  then have "l = i" "t = BFree" by (cases t; simp)+
  with 0 show ?case by simp
next
  case (Suc k)
  obtain a b where h: "halves t = (a, b)" by fastforce
  have rep: "brepr lg (left_child i) k a" "brepr lg (right_child i) k b"
    using brepr_halves [OF Suc.prems(1) h] by auto
  have t: "t \<noteq> BAlloc" using Suc.prems(2) by auto
  have top: "lg ! i \<noteq> 0" if "lg ! left_child i \<noteq> 0 \<or> lg ! right_child i \<noteq> 0"
    using Suc.prems(1) t that by (cases t) auto
  from Suc.prems(3,4) show ?case
  proof (cases rule: leaf_child)
    case left
    have "\<not> covered k off a" using Suc.prems(2) left(1) h t by (cases t) auto
    from Suc.IH [OF rep(1) this left] brepr_val [OF rep(1)] top buddy_find_step [of "left_child i" lg "k + 1"]
    show ?thesis by simp
  next
    case right
    have "\<not> covered k (off - 2 ^ k) b" using Suc.prems(2) right(1) h t by (cases t) auto
    from Suc.IH [OF rep(2) this right(2,3)] brepr_val [OF rep(2)] top buddy_find_step [of "right_child i" lg "k + 1"]
    show ?thesis by simp
  qed
qed

text \<open>
  On the way back up the code compares the children with the value of the parent's own
  full block, which no child can have: the halves of a block are never joined again.
\<close>

lemma buddy_merge_child:
  assumes "c = left_child i \<or> c = right_child i" and "left_child i < length lg" "right_child i < length lg" "i < length lg"
    and "lg ! left_child i \<le> n"
  shows "buddy_merge n c lg = buddy_merge (n + 1) i (lg[i := max (lg ! left_child i) (lg ! right_child i)])"
proof -
  have "c \<noteq> 0" "parent c = i" using assms(1) by auto
  then show ?thesis
    using assms(2-5) by (subst buddy_merge.simps) (auto simp: max_def)
qed

lemma buddy_free_subtree:
  "brepr lg i k t \<Longrightarrow> covered k off t \<Longrightarrow> off < 2 ^ k \<Longrightarrow> l + 1 = (i + 1) * 2 ^ k + off \<Longrightarrow>
   \<exists>m h lg'. buddy_find lg 1 l = Some (Some (m, h)) \<and> m < length lg
     \<and> buddy_merge h m (lg[m := h]) = buddy_merge (k + 1) i lg' \<and> subtree_now lg lg' i k (bfree k off t)"
proof (induction k arbitrary: i t off)
  case 0
  then have "l = i" "t = BAlloc" "i < length lg" "lg ! i = 0" by (cases t; simp)+
  then have "subtree_now lg (lg[i := 1]) i 0 (bfree 0 off t)" by (simp add: subtree_now_def)
  with \<open>l = i\<close> \<open>i < length lg\<close> \<open>lg ! i = 0\<close> buddy_find_here [of i lg 1] show ?case by auto
next
  case (Suc k)
  obtain a b where h: "halves t = (a, b)" by fastforce
  have rep: "brepr lg (left_child i) k a" "brepr lg (right_child i) k b"
    using brepr_halves [OF Suc.prems(1) h] by auto
  note val = brepr_val [OF Suc.prems(1)] brepr_val [OF rep(1)] brepr_val [OF rep(2)]
  have range: "left_child i < length lg" "right_child i < length lg" "i < length lg" using val by auto
  show ?case
  proof (cases t)
    case BFree
    with Suc.prems(2) show ?thesis by simp
  next
    case BAlloc
    have zero: "lg ! i = 0" using Suc.prems(1) BAlloc by simp
    from Suc.prems(3,4) have "buddy_find lg 1 l = buddy_find lg (k + 2) i"
    proof (cases rule: leaf_child)
      case left
      have "\<not> covered k off a" using h BAlloc by auto
      from buddy_find_free [OF rep(1) this left] range buddy_find_step [of "left_child i" lg "k + 1"]
      show ?thesis by simp
    next
      case right
      have "\<not> covered k (off - 2 ^ k) b" using h BAlloc by auto
      from buddy_find_free [OF rep(2) this right(2,3)] range buddy_find_step [of "right_child i" lg "k + 1"]
      show ?thesis by simp
    qed
    then have found: "buddy_find lg 1 l = Some (Some (i, k + 2))"
      using buddy_find_here [OF range(3) zero] by simp
    have "subtree_now lg (lg[i := k + 2]) i (Suc k) (bfree (Suc k) off t)"
      using Suc.prems(1) BAlloc range by (auto simp: subtree_now_def intro!: brepr_other sub_disjoint)
    with found range(3) show ?thesis by auto
  next
    case (BSplit a' b')
    then have t: "t = BSplit a b" using h by simp
    from Suc.prems(3,4) show ?thesis
    proof (cases rule: leaf_child)
      case left
      have "covered k off a" using Suc.prems(2) t left(1) by simp
      from Suc.IH [OF rep(1) this left] obtain m h lg1 where
        m: "buddy_find lg 1 l = Some (Some (m, h))" "m < length lg"
          "buddy_merge h m (lg[m := h]) = buddy_merge (k + 1) (left_child i) lg1"
          "subtree_now lg lg1 (left_child i) k (bfree k off a)" by blast
      have small: "lg1 ! left_child i \<le> k + 1"
        using m(4) brepr_val [of lg1 "left_child i" k "bfree k off a"] avail_le [of k "bfree k off a"]
        by (auto simp: subtree_now_def)
      have "length lg1 = length lg" using m(4) by (simp add: subtree_now_def)
      then have "buddy_merge h m (lg[m := h])
          = buddy_merge (k + 2) i (lg1[i := max (lg1 ! left_child i) (lg1 ! right_child i)])"
        unfolding m(3) using range small buddy_merge_child [of "left_child i" i lg1 "k + 1"] by simp
      moreover have "subtree_now lg (lg1[i := max (lg1 ! left_child i) (lg1 ! right_child i)]) i (Suc k)
          (bfree (Suc k) off t)"
        using subtree_now_left [OF m(4) rep(2) range(3) refl] t left(1) by simp
      ultimately show ?thesis using m(1,2) by auto
    next
      case right
      have "covered k (off - 2 ^ k) b" using Suc.prems(2) t right(1) by simp
      from Suc.IH [OF rep(2) this right(2,3)] obtain m h lg1 where
        m: "buddy_find lg 1 l = Some (Some (m, h))" "m < length lg"
          "buddy_merge h m (lg[m := h]) = buddy_merge (k + 1) (right_child i) lg1"
          "subtree_now lg lg1 (right_child i) k (bfree k (off - 2 ^ k) b)" by blast
      have "left_child i \<notin> sub (right_child i) k" using root_in_sub sub_disjoint(3) by blast
      then have "lg1 ! left_child i = lg ! left_child i" using m(4) by (simp add: subtree_now_def)
      then have small: "lg1 ! left_child i \<le> k + 1" using val avail_le [of k a] by auto
      have "length lg1 = length lg" using m(4) by (simp add: subtree_now_def)
      then have "buddy_merge h m (lg[m := h])
          = buddy_merge (k + 2) i (lg1[i := max (lg1 ! left_child i) (lg1 ! right_child i)])"
        unfolding m(3) using range small buddy_merge_child [of "right_child i" i lg1 "k + 1"] by simp
      moreover have "subtree_now lg (lg1[i := max (lg1 ! left_child i) (lg1 ! right_child i)]) i (Suc k)
          (bfree (Suc k) off t)"
        using subtree_now_right [OF m(4) rep(1) range(3) refl] t right(1) by simp
      ultimately show ?thesis using m(1,2) by auto
    qed
  qed
qed

subsection \<open>The operations\<close>

definition buddy_ok :: "mem_buddy \<Rightarrow> btree \<Rightarrow> bool" where
  "buddy_ok d t \<longleftrightarrow> bd_logn d \<le> 29 \<and> length (bd_longest d) = 2 * 2 ^ bd_logn d - 1
     \<and> brepr (bd_longest d) 0 (bd_logn d) t"

fun lg2 :: "nat \<Rightarrow> nat" where
  "lg2 n = (if n \<le> 1 then 0 else Suc (lg2 (n div 2)))"

declare lg2.simps [simp del]

lemma lg2_bounds: "0 < n \<Longrightarrow> 2 ^ lg2 n \<le> n \<and> n < 2 ^ Suc (lg2 n)"
proof (induction n rule: lg2.induct)
  case (1 n)
  show ?case
  proof (cases "n \<le> 1")
    case True
    with 1 show ?thesis by (auto simp: lg2.simps [of n])
  next
    case False
    then have "lg2 n = Suc (lg2 (n div 2))" by (simp add: lg2.simps [of n])
    moreover have "2 ^ lg2 (n div 2) \<le> n div 2" "n div 2 < 2 ^ Suc (lg2 (n div 2))" using 1 False by auto
    then have "2 * 2 ^ lg2 (n div 2) \<le> n" "n < 2 * 2 ^ Suc (lg2 (n div 2))" by linarith+
    ultimately show ?thesis by simp
  qed
qed

lemma lg2_unique: "2 ^ d \<le> n \<Longrightarrow> n < 2 ^ Suc d \<Longrightarrow> lg2 n = d"
proof -
  assume n: "2 ^ d \<le> n" "n < 2 ^ Suc d"
  then have "0 < n" by (cases n) auto
  from lg2_bounds [OF this] n have "(2 :: nat) ^ lg2 n < 2 ^ Suc d" "(2 :: nat) ^ d < 2 ^ Suc (lg2 n)" by linarith+
  then have "lg2 n < Suc d" "d < Suc (lg2 n)" using power_less_imp_less_exp [of "2 :: nat"] by (metis one_less_numeral_iff semiring_norm(76))+
  then show ?thesis by simp
qed

lemma power_of_2_nat:
  assumes "0 < n" "n < 2 ^ 32"
  shows "is_power_of_2 (of_nat n) \<longleftrightarrow> n = 2 ^ lg2 n"
proof -
  have u: "unat (of_nat n :: u32) = n" using assms(2) by (simp add: unsigned_of_nat take_bit_nat_eq_self)
  then have "(of_nat n :: u32) \<noteq> 0" using assms(1) by (metis unat_0 less_numeral_extra(3))
  then obtain m where m: "m < 32" "bit (of_nat n :: u32) m" "\<And>j. m < j \<Longrightarrow> \<not> bit (of_nat n :: u32) j"
    by (rule top_bit) blast
  have "lg2 n = m" using unat_between [of m "of_nat n", OF m] u by (intro lg2_unique) simp_all
  with power_of_2_iff [of m "of_nat n", OF m] u show ?thesis by simp
qed

lemma lg2_Suc: "0 < n \<Longrightarrow> lg2 (n + 1) = (if n + 1 = 2 ^ lg2 (n + 1) then lg2 n + 1 else lg2 n)"
proof -
  assume n: "0 < n"
  note b = lg2_bounds [OF n]
  show ?thesis
  proof (cases "n + 1 < 2 ^ Suc (lg2 n)")
    case True
    then have "lg2 (n + 1) = lg2 n" using b by (intro lg2_unique) simp_all
    with b show ?thesis by auto
  next
    case False
    with b have eq: "n + 1 = 2 ^ Suc (lg2 n)" by linarith
    then have "lg2 (n + 1) = Suc (lg2 n)" by (intro lg2_unique) simp_all
    with eq show ?thesis by simp
  qed
qed

lemma buddy_fill_eq:
  assumes "logn \<le> 29" and "a \<le> n" and "n < 2 ^ Suc logn"
  shows "buddy_fill [a..<n] (if a = 0 then logn + 1 else logn - lg2 a)
    = map (\<lambda>i. logn - lg2 (i + 1) + 1) [a..<n]"
  using assms(2)
proof (induction "n - a" arbitrary: a)
  case 0
  then show ?case by simp
next
  case (Suc x)
  then have a: "a < n" by simp
  have bound: "(2 :: nat) ^ Suc logn \<le> 2 ^ 30" using assms(1) by (intro power_increasing) auto
  have p: "is_power_of_2 (of_nat (a + 1)) \<longleftrightarrow> a + 1 = 2 ^ lg2 (a + 1)"
    by (rule power_of_2_nat) (use a assms(3) bound in simp_all)
  have now: "(if is_power_of_2 (of_nat (a + 1)) then (if a = 0 then logn + 1 else logn - lg2 a) - 1
      else (if a = 0 then logn + 1 else logn - lg2 a)) = logn - lg2 (a + 1)"
  proof (cases "a = 0")
    case True
    have "lg2 1 = 0" by (simp add: lg2.simps)
    with True p show ?thesis by simp
  next
    case False
    have "(2 :: nat) ^ lg2 (a + 1) < 2 ^ Suc logn"
      using lg2_bounds [of "a + 1"] a assms(3) by linarith
    then have "lg2 (a + 1) < Suc logn" using power_less_imp_less_exp [of "2 :: nat"] by (metis one_less_numeral_iff semiring_norm(76))
    moreover have "lg2 (a + 1) = (if is_power_of_2 (of_nat (a + 1)) then lg2 a + 1 else lg2 a)"
      unfolding p using False by (intro lg2_Suc) simp
    ultimately show ?thesis using False by (cases "is_power_of_2 (of_nat (a + 1))") simp_all
  qed
  have "buddy_fill [a + 1..<n] (logn - lg2 (a + 1)) = map (\<lambda>i. logn - lg2 (i + 1) + 1) [a + 1..<n]"
    using Suc.hyps(1) [of "a + 1"] Suc.hyps(2) a by simp
  then show ?case unfolding upt_conv_Cons [OF a] buddy_fill.simps now Let_def by simp
qed

lemma brepr_fill:
  assumes "\<And>i. i < length lg \<Longrightarrow> lg ! i = logn - lg2 (i + 1) + 1" and "length lg + 1 = 2 ^ Suc logn"
  shows "2 ^ d \<le> i + 1 \<Longrightarrow> i + 1 < 2 ^ Suc d \<Longrightarrow> d + k = logn \<Longrightarrow> brepr lg i k BFree"
proof (induction k arbitrary: d i)
  case 0
  then have "i < length lg" using assms(2) by simp
  with 0 assms(1) lg2_unique [of d "i + 1"] show ?case by simp
next
  case (Suc k)
  have "(2 :: nat) ^ Suc d \<le> 2 ^ Suc logn" using Suc.prems(3) by (intro power_increasing) auto
  then have i: "i < length lg" using assms(2) Suc.prems(2) by linarith
  have "brepr lg (left_child i) k BFree" "brepr lg (right_child i) k BFree"
    using Suc.prems by (auto intro!: Suc.IH [of "Suc d"] simp: left_child_def right_child_def)
  with i assms(1) lg2_unique [of d "i + 1"] Suc.prems show ?case by simp
qed

lemma buddy_new_ok:
  assumes "logn \<le> 29"
  shows "\<exists>d. buddy_new False logn = Some (Some d) \<and> bd_logn d = logn \<and> buddy_ok d BFree"
proof -
  let ?lg = "buddy_fill [0..<2 * 2 ^ logn - 1] (logn + 1)"
  have eq: "?lg = map (\<lambda>i. logn - lg2 (i + 1) + 1) [0..<2 * 2 ^ logn - 1]"
    using buddy_fill_eq [OF assms, of 0 "2 * 2 ^ logn - 1"] by simp
  then have "brepr ?lg 0 logn BFree" by (intro brepr_fill [of _ logn 0]) auto
  with assms eq show ?thesis by (auto simp: buddy_new_def buddy_ok_def)
qed

lemma buddy_alloc_correct:
  assumes "buddy_ok d t" and "unat (if \<not> is_power_of_2 sz then fix_size sz else sz) = 2 ^ j"
  shows "j < avail (bd_logn d) t \<Longrightarrow> balloc (bd_logn d) j t = (off, t') \<Longrightarrow>
      \<exists>d'. buddy_alloc (Some d) sz = Some (int off, Some d') \<and> bd_logn d' = bd_logn d \<and> buddy_ok d' t'"
    and "\<not> j < avail (bd_logn d) t \<Longrightarrow> buddy_alloc (Some d) sz = Some (-1, Some d)"
proof -
  let ?lg = "bd_longest d" and ?k = "bd_logn d"
  have rep: "brepr ?lg 0 ?k t" using assms(1) by (simp add: buddy_ok_def)
  note val = brepr_val [OF rep]
  have top: "arr_get ?lg 0 = Some (avail ?k t)" using val by simp
  show "buddy_alloc (Some d) sz = Some (-1, Some d)" if no: "\<not> j < avail ?k t"
  proof -
    have "node_size (avail ?k t) < 2 ^ j" using no by (simp add: node_size_ge not_less flip: not_le)
    then show ?thesis unfolding buddy_alloc_def option.case Let_def assms(2) by (simp add: top)
  qed
  assume av: "j < avail ?k t" and ba: "balloc ?k j t = (off, t')"
  have "j \<le> ?k" using av avail_le [of ?k t] val by linarith
  from buddy_alloc_subtree [OF rep this av ba] obtain m lg' where
    m: "buddy_descend ?lg (2 ^ j) (2 ^ ?k) 0 = Some (m, 2 ^ j)" "m < length ?lg"
      "(m + 1) * 2 ^ j = 2 ^ ?k + off" "buddy_up m (?lg[m := 0]) = buddy_up 0 lg'" "subtree_now ?lg lg' 0 ?k t'" by auto
  have "buddy_up 0 lg' = Some lg'" by (simp add: buddy_up.simps)
  moreover have "\<not> node_size (avail ?k t) < 2 ^ j" using av by (simp add: node_size_ge not_less)
  ultimately have "buddy_alloc (Some d) sz = Some (int off, Some (d\<lparr>bd_longest := lg'\<rparr>))"
    unfolding buddy_alloc_def option.case Let_def assms(2) using m by (simp add: top buddy_size_def)
  with m(5) assms(1) show "\<exists>d'. buddy_alloc (Some d) sz = Some (int off, Some d') \<and> bd_logn d' = ?k \<and> buddy_ok d' t'"
    by (auto simp: buddy_ok_def subtree_now_def)
qed

lemma bfree_not_covered: "\<not> covered k off t \<Longrightarrow> bfree k off t = t"
  by (induction k off t rule: bfree.induct) (auto split: if_splits)

lemma buddy_free_correct:
  assumes "buddy_ok d t" and "off < buddy_size d"
  shows "\<exists>d'. buddy_free (Some d) off = Some (Some d') \<and> bd_logn d' = bd_logn d \<and> buddy_ok d' (bfree (bd_logn d) off t)"
proof -
  let ?lg = "bd_longest d" and ?k = "bd_logn d"
  have rep: "brepr ?lg 0 ?k t" using assms(1) by (simp add: buddy_ok_def)
  have off: "off < 2 ^ ?k" "off + buddy_size d - 1 + 1 = (0 + 1) * 2 ^ ?k + off" "\<not> buddy_size d \<le> off"
    using assms(2) by (simp_all add: buddy_size_def)
  show ?thesis
  proof (cases "covered ?k off t")
    case True
    from buddy_free_subtree [OF rep True off(1,2)] obtain m h lg' where
      m: "buddy_find ?lg 1 (off + buddy_size d - 1) = Some (Some (m, h))" "m < length ?lg"
        "buddy_merge h m (?lg[m := h]) = buddy_merge (?k + 1) 0 lg'" "subtree_now ?lg lg' 0 ?k (bfree ?k off t)" by auto
    have "buddy_merge (?k + 1) 0 lg' = Some lg'" by (simp add: buddy_merge.simps)
    then have "buddy_free (Some d) off = Some (Some (d\<lparr>bd_longest := lg'\<rparr>))"
      using m off(3) by (simp add: buddy_free_def)
    with m(4) assms(1) show ?thesis by (auto simp: buddy_ok_def subtree_now_def)
  next
    case False
    from buddy_find_free [OF rep False off(1,2)] brepr_val [OF rep]
    have "buddy_find ?lg 1 (off + buddy_size d - 1) = Some None" by (simp add: buddy_find.simps)
    with off(3) bfree_not_covered [OF False] assms(1) show ?thesis by (simp add: buddy_free_def)
  qed
qed

lemma buddy_descend_zero:
  "i + 1 = 2 ^ e \<Longrightarrow> length lg + 1 = 2 ^ Suc (e + k) \<Longrightarrow> buddy_descend lg 0 (2 ^ k) i = None"
proof (induction k arbitrary: e i)
  case 0
  then have "\<not> left_child i < length lg" by (simp add: left_child_def)
  then show ?case by (simp add: buddy_descend.simps)
next
  case (Suc k)
  have "buddy_descend lg 0 (2 ^ k) (left_child i) = None"
    using Suc.prems by (intro Suc.IH [of _ "Suc e"]) (simp_all add: left_child_def)
  then show ?case by (simp add: buddy_descend.simps [of _ _ _ i])
qed

lemma buddy_alloc_zero:
  assumes "buddy_ok d t"
  shows "buddy_alloc (Some d) 0 = None"
proof -
  have "length (bd_longest d) + 1 = 2 ^ Suc (0 + bd_logn d)" using assms by (simp add: buddy_ok_def)
  then have "buddy_descend (bd_longest d) 0 (2 ^ bd_logn d) 0 = None" by (intro buddy_descend_zero [of 0 0]) simp_all
  then show ?thesis by (simp add: buddy_alloc_def is_power_of_2_def buddy_size_def arr_get_def)
qed

subsection \<open>The contract\<close>

lemma blocks_apart:
  "bt_ok k t \<Longrightarrow> p \<in> blocks base k t \<Longrightarrow> q \<in> blocks base k t \<Longrightarrow> p \<noteq> q \<Longrightarrow> apart p q"
proof (induction k t arbitrary: base p q rule: bt_ok.induct)
  case (4 k a b)
  have cross: "apart p q" if "p \<in> blocks base k a" "q \<in> blocks (base + 2 ^ k) k b" for p q
    using that 4(3) blocks_bounds [of k a "fst p" "snd p" base] blocks_bounds [of k b "fst q" "snd q" "base + 2 ^ k"]
    by (auto simp: apart_def)
  have ok: "bt_ok k a" "bt_ok k b" using 4(3) by simp_all
  have "p \<in> blocks base k a \<or> p \<in> blocks (base + 2 ^ k) k b"
    "q \<in> blocks base k a \<or> q \<in> blocks (base + 2 ^ k) k b" using 4(4,5) by simp_all
  then show ?case
    using 4(1) [OF ok(1) _ _ 4(6)] 4(2) [OF ok(2) _ _ 4(6)] cross [of p q] apart_sym [OF cross [of q p]] by blast
qed auto

definition buddy_rep :: "mem_buddy \<Rightarrow> (nat \<times> nat) set \<Rightarrow> bool" where
  "buddy_rep d B \<longleftrightarrow> (\<exists>t. buddy_ok d t \<and> B = blocks 0 (bd_logn d) t)"

definition buddy_extent :: "u32 \<Rightarrow> nat" where
  "buddy_extent sz = unat (if \<not> is_power_of_2 sz then fix_size sz else sz)"

definition buddy_fine :: "u32 \<Rightarrow> bool" where
  "buddy_fine sz \<longleftrightarrow> 0 < unat sz \<and> unat sz \<le> 2 ^ 31"

text \<open>\<open>buddy_alloc\<close> and \<open>buddy_free\<close> on an allocator that exists, -1 read as no range.\<close>

definition buddy_take :: "mem_buddy \<Rightarrow> u32 \<Rightarrow> (nat option \<times> mem_buddy) option" where
  "buddy_take d sz = (case buddy_alloc (Some d) sz of
       Some (off, Some d') \<Rightarrow> Some (if off = -1 then None else Some (nat off), d')
     | _ \<Rightarrow> None)"

definition buddy_give :: "mem_buddy \<Rightarrow> nat \<times> nat \<Rightarrow> mem_buddy option" where
  "buddy_give d b = (case buddy_free (Some d) (fst b) of Some (Some d') \<Rightarrow> Some d' | _ \<Rightarrow> None)"

text \<open>
  Requests of 0 or of more than \<open>2 ^ 31\<close> are rounded to 0, which is undefined from there on:
  a request that returns at all has an extent that is a power of two.
\<close>

lemma round_zero:
  assumes "\<not> buddy_fine sz"
  shows "unat (if \<not> is_power_of_2 sz then fix_size sz else sz) = 0"
proof (cases "sz = 0")
  case True
  then show ?thesis by (simp add: is_power_of_2_def)
next
  case False
  then obtain m where m: "m < 32" "bit sz m" "\<And>j. m < j \<Longrightarrow> \<not> bit sz j" by (rule top_bit) blast
  have big: "2 ^ 31 < unat sz" using assms False by (auto simp: buddy_fine_def unat_gt_0 not_le)
  then have "(2 :: nat) ^ 31 < 2 ^ Suc m" using unat_between(2) [of m sz, OF m] by linarith
  then have "31 < Suc m" using power_less_imp_less_exp [of "2 :: nat"] by (metis one_less_numeral_iff semiring_norm(76))
  with m(1) have "m = 31" by simp
  with big power_of_2_iff [of m sz, OF m] have "\<not> is_power_of_2 sz" by auto
  moreover have "fix_size sz = 0"
    using fix_size_eq [of m sz, OF m] \<open>m = 31\<close> by (simp add: mask_eq_exp_minus_1)
  ultimately show ?thesis by simp
qed

lemma buddy_alloc_not_fine:
  assumes "buddy_ok d t" and "\<not> buddy_fine sz"
  shows "buddy_alloc (Some d) sz = None"
proof -
  have zero: "unat (if \<not> is_power_of_2 sz then fix_size sz else sz) = 0" by (rule round_zero [OF assms(2)])
  have "length (bd_longest d) + 1 = 2 ^ Suc (0 + bd_logn d)" using assms by (simp add: buddy_ok_def)
  then have "buddy_descend (bd_longest d) 0 (2 ^ bd_logn d) 0 = None" by (intro buddy_descend_zero [of 0 0]) simp_all
  then show ?thesis unfolding buddy_alloc_def option.case Let_def zero by (simp add: buddy_size_def arr_get_def)
qed

lemma buddy_take_cases:
  assumes "buddy_rep d B" and "buddy_fine sz"
  obtains (refused) "buddy_take d sz = Some (None, d)"
  | (taken) a d' where "buddy_take d sz = Some (Some a, d')" "buddy_rep d' (insert (a, buddy_extent sz) B)"
      "bd_logn d' = bd_logn d" "a + buddy_extent sz \<le> buddy_size d" "0 < buddy_extent sz"
      "\<forall>b\<in>B. apart (a, buddy_extent sz) b"
proof -
  obtain t where t: "buddy_ok d t" "B = blocks 0 (bd_logn d) t" using assms(1) by (auto simp: buddy_rep_def)
  have ok: "bt_ok (bd_logn d) t" using t(1) brepr_val by (auto simp: buddy_ok_def)
  obtain j where j: "unat (if \<not> is_power_of_2 sz then fix_size sz else sz) = 2 ^ j"
    using round_up [of sz] assms(2) by (auto simp: buddy_fine_def)
  then have ext: "buddy_extent sz = 2 ^ j" by (simp add: buddy_extent_def)
  show thesis
  proof (cases "j < avail (bd_logn d) t")
    case False
    from buddy_alloc_correct(2) [OF t(1) j False] show thesis by (intro refused) (simp add: buddy_take_def)
  next
    case True
    obtain off t' where ba: "balloc (bd_logn d) j t = (off, t')" by fastforce
    have "j \<le> bd_logn d" using True avail_le [OF ok] by linarith
    note b = balloc_blocks [OF ok this True ba, of 0]
    obtain d' where d': "buddy_alloc (Some d) sz = Some (int off, Some d')" "bd_logn d' = bd_logn d" "buddy_ok d' t'"
      using buddy_alloc_correct(1) [OF t(1) j True ba] by blast
    show thesis
    proof (rule taken)
      show "buddy_take d sz = Some (Some off, d')" using d'(1) by (simp add: buddy_take_def)
      show "buddy_rep d' (insert (off, buddy_extent sz) B)" using d' b t ext by (auto simp: buddy_rep_def)
      show "\<forall>b\<in>B. apart (off, buddy_extent sz) b" using b t ext by (fastforce simp: apart_def)
    qed (use d' b ext in \<open>auto simp: buddy_size_def\<close>)
  qed
qed

lemma buddy_take_not_fine: "buddy_rep d B \<Longrightarrow> \<not> buddy_fine sz \<Longrightarrow> buddy_take d sz = None"
  using buddy_alloc_not_fine by (auto simp: buddy_rep_def buddy_take_def)

lemma buddy_give_law:
  assumes "buddy_rep d B" and "b \<in> B"
  shows "\<exists>d'. buddy_give d b = Some d' \<and> buddy_rep d' (B - {b}) \<and> bd_logn d' = bd_logn d"
proof -
  obtain t where t: "buddy_ok d t" "B = blocks 0 (bd_logn d) t" using assms(1) by (auto simp: buddy_rep_def)
  have ok: "bt_ok (bd_logn d) t" using t(1) brepr_val by (auto simp: buddy_ok_def)
  obtain x l where b: "b = (x, l)" "x + l \<le> 2 ^ bd_logn d" "0 < l"
    using blocks_bounds [OF ok, of "fst b" "snd b" 0] assms(2) t(2) by (cases b) auto
  have x: "x < buddy_size d" "x < 2 ^ bd_logn d" using b by (auto simp: buddy_size_def)
  have only: "p = b" if "p \<in> B" "fst p \<le> x" "x < fst p + snd p" for p
  proof (rule ccontr)
    assume "p \<noteq> b"
    then have "apart p b" using blocks_apart [OF ok] that(1) assms(2) t(2) by blast
    with that(2,3) b show False by (simp add: apart_def)
  qed
  have "p \<in> B - {(y, m). y \<le> 0 + x \<and> 0 + x < y + m} \<longleftrightarrow> p \<in> B - {b}" for p
    using only [of p] b by (cases "p = b") (auto simp: case_prod_beta)
  then have "B - {(y, m). y \<le> 0 + x \<and> 0 + x < y + m} = B - {b}" by blast
  with bfree_blocks [OF ok x(2), of 0] t(2)
  have bl: "blocks 0 (bd_logn d) (bfree (bd_logn d) x t) = B - {b}" by simp
  obtain d' where "buddy_free (Some d) x = Some (Some d')" "bd_logn d' = bd_logn d"
    "buddy_ok d' (bfree (bd_logn d) x t)" using buddy_free_correct [OF t(1) x(1)] by blast
  with bl b(1) show ?thesis by (auto simp: buddy_give_def buddy_rep_def)
qed

interpretation buddy: total_allocator buddy_rep buddy_take buddy_give buddy_extent buddy_size buddy_fine
proof unfold_locales
  fix s B n s'
  assume rep: "buddy_rep s B" and r: "buddy_take s n = Some (None, s')"
  then have fine: "buddy_fine n" using buddy_take_not_fine [OF rep] by fastforce
  show "buddy_rep s' B \<and> buddy_size s' = buddy_size s"
    using r rep by (cases rule: buddy_take_cases [OF rep fine]) auto
next
  fix s B n a s'
  assume rep: "buddy_rep s B" and r: "buddy_take s n = Some (Some a, s')"
  then have fine: "buddy_fine n" using buddy_take_not_fine [OF rep] by fastforce
  show "buddy_rep s' (insert (a, buddy_extent n) B) \<and> buddy_size s' = buddy_size s
      \<and> a + buddy_extent n \<le> buddy_size s \<and> 0 < buddy_extent n \<and> (\<forall>b\<in>B. apart (a, buddy_extent n) b)"
    using r rep by (cases rule: buddy_take_cases [OF rep fine]) (auto simp: buddy_size_def)
next
  fix s B b
  assume "buddy_rep s B" "b \<in> B"
  then show "\<exists>s'. buddy_give s b = Some s' \<and> buddy_rep s' (B - {b}) \<and> buddy_size s' = buddy_size s"
    using buddy_give_law by (auto simp: buddy_size_def)
next
  fix s B n
  assume "buddy_rep s B" "buddy_fine n"
  then show "buddy_take s n \<noteq> None" by (cases rule: buddy_take_cases) auto
qed

subsection \<open>Blocks are never joined again\<close>

text \<open>
  \<open>buddy_free\<close> compares the children's values with the value of their parent, so the test
  for a free pair is never true: once the arena is split, it stays split.
\<close>

definition arena_split :: "mem_buddy \<Rightarrow> bool" where
  "arena_split d \<longleftrightarrow> (\<exists>a b. buddy_ok d (BSplit a b))"

lemma balloc_split:
  assumes "bt_ok k t" and "j < avail k t" and "t = BSplit a b \<or> t = BFree \<and> j < k"
  shows "\<exists>a' b'. snd (balloc k j t) = BSplit a' b'"
proof -
  obtain k' where k: "k = Suc k'" using assms by (cases k) auto
  have "j \<noteq> Suc k'"
  proof
    assume "j = Suc k'"
    with assms(2) k avail_full [OF assms(1)] have "t = BFree" by simp
    with assms(3) k \<open>j = Suc k'\<close> show False by auto
  qed
  with k show ?thesis by (auto simp: split_def Let_def)
qed

lemma extent_power: "buddy_fine sz \<Longrightarrow> \<exists>j. buddy_extent sz = 2 ^ j"
  unfolding buddy_fine_def buddy_extent_def by (rule round_up [of sz]) blast+

lemma take_splits:
  assumes "buddy_ok d t" and "buddy_take d sz = Some (r, d')"
    and "(\<exists>a b. t = BSplit a b) \<or> t = BFree \<and> r \<noteq> None \<and> buddy_extent sz < buddy_size d"
  shows "arena_split d' \<and> bd_logn d' = bd_logn d"
proof -
  have fine: "buddy_fine sz"
    using assms(2) buddy_alloc_not_fine [OF assms(1), of sz] by (cases "buddy_fine sz") (auto simp: buddy_take_def)
  then obtain j where j: "buddy_extent sz = 2 ^ j" using extent_power by blast
  note code = buddy_alloc_correct [OF assms(1) j [unfolded buddy_extent_def]]
  have ok: "bt_ok (bd_logn d) t" using assms(1) brepr_val by (auto simp: buddy_ok_def)
  show ?thesis
  proof (cases "j < avail (bd_logn d) t")
    case False
    with code(2) assms show ?thesis by (auto simp: buddy_take_def arena_split_def)
  next
    case True
    obtain off t' where ba: "balloc (bd_logn d) j t = (off, t')" by fastforce
    have "j < bd_logn d" if "buddy_extent sz < buddy_size d"
      using that j power_less_imp_less_exp [of "2 :: nat" j] by (simp add: buddy_size_def)
    then have "\<exists>a b. t' = BSplit a b" using balloc_split [OF ok True] assms(3) ba by fastforce
    with code(1) [OF True ba] assms(2) show ?thesis
      unfolding arena_split_def by (auto simp: buddy_take_def) blast
  qed
qed

lemma give_splits:
  assumes "arena_split d" and "buddy_give d p = Some d'"
  shows "arena_split d' \<and> bd_logn d' = bd_logn d"
proof (cases "fst p < buddy_size d")
  case True
  obtain a b where "buddy_ok d (BSplit a b)" using assms(1) by (auto simp: arena_split_def)
  from buddy_free_correct [OF this True] assms(2) show ?thesis
    by (fastforce simp: buddy_give_def arena_split_def split: if_splits)
next
  case False
  with assms show ?thesis by (auto simp: buddy_give_def buddy_free_def)
qed

lemma serve_splits:
  "arena_split d \<Longrightarrow> buddy.serve ops d bs = Some (d', bs') \<Longrightarrow> arena_split d' \<and> bd_logn d' = bd_logn d"
proof (induction ops d bs rule: buddy.serve.induct)
  case (2 sz ops d bs)
  obtain r d1 where step: "buddy_take d sz = Some (r, d1)" using 2(4) by (auto simp: bind_eq_Some_conv)
  from 2(3) obtain a b where "buddy_ok d (BSplit a b)" by (auto simp: arena_split_def)
  then have d1: "arena_split d1 \<and> bd_logn d1 = bd_logn d" by (rule take_splits [OF _ step]) blast
  show ?case
  proof (cases r)
    case None
    with 2(1) [OF step refl None] 2(4) step d1 show ?thesis by simp
  next
    case (Some x)
    with 2(2) [OF step refl Some] 2(4) step d1 show ?thesis by simp
  qed
next
  case (3 i ops d bs)
  show ?case
  proof (cases "i < length bs")
    case True
    then obtain d1 where step: "buddy_give d (bs ! i) = Some d1" using 3(4) by (auto simp: bind_eq_Some_conv)
    with 3(1) [OF True] 3(4) True give_splits [OF 3(3) step] show ?thesis by simp
  next
    case False
    with 3(2) [OF False] 3(3,4) show ?thesis by simp
  qed
qed simp

lemma split_refuses_whole:
  assumes "arena_split d" and "buddy_extent sz = buddy_size d"
  shows "buddy_take d sz = Some (None, d)"
proof -
  obtain a b where t: "buddy_ok d (BSplit a b)" using assms(1) by (auto simp: arena_split_def)
  then have ok: "bt_ok (bd_logn d) (BSplit a b)" using brepr_val by (auto simp: buddy_ok_def)
  have "\<not> bd_logn d < avail (bd_logn d) (BSplit a b)" using avail_full [OF ok] by auto
  from buddy_alloc_correct(2) [OF t _ this, of sz] assms(2)
  show ?thesis by (simp add: buddy_take_def buddy_extent_def buddy_size_def)
qed

lemma buddy_never_merges:
  assumes "logn \<le> 29" and "buddy_new False logn = Some (Some d0)"
    and "buddy_take d0 sz = Some (Some a, d1)" and "buddy_extent sz < 2 ^ logn"
    and "buddy.serve ops d1 bs = Some (d2, bs2)" and "buddy_extent whole = 2 ^ logn"
  shows "buddy_take d2 whole = Some (None, d2)"
proof -
  have d0: "bd_logn d0 = logn" "buddy_ok d0 BFree" using buddy_new_ok [OF assms(1)] assms(2) by auto
  with take_splits [OF d0(2) assms(3)] assms(4) have "arena_split d1" "bd_logn d1 = logn"
    by (auto simp: buddy_size_def)
  with serve_splits [OF _ assms(5)] split_refuses_whole [of d2] assms(6) show ?thesis
    by (auto simp: buddy_size_def)
qed

subsection \<open>The properties\<close>

text \<open>A new arena of \<open>2 ^ logn\<close> units (\<open>logn\<close> at most 29) represents the free tree: its array holds at
  every node the size of the block below it, and nothing is allocated.\<close>

theorem buddy_new_is_free:
  assumes "logn \<le> 29"
  shows "\<exists>d. buddy_new False logn = Some (Some d) \<and> buddy_ok d BFree \<and> buddy_rep d {} \<and> buddy_size d = 2 ^ logn"
  using buddy_new_ok [OF assms] by (fastforce simp: buddy_rep_def buddy_size_def)

theorem buddy_new_is_free_witness:
  "\<exists>d. buddy_new False 2 = Some (Some d) \<and> bd_longest d = [3, 2, 2, 1, 1, 1, 1] \<and> buddy_ok d BFree"
proof -
  have "map_option (map_option bd_longest) (buddy_new False 2) = Some (Some [3, 2, 2, 1, 1, 1, 1])" by code_simp
  with buddy_new_is_free [of 2] show ?thesis by auto
qed

text \<open>C33: for a request of 1 to \<open>2 ^ 31\<close> units, rounded up to a power of two that is less than twice the
  request, \<open>buddy_alloc\<close> fails exactly when the tree has no free block that large, and then changes
  nothing; otherwise it takes an aligned block that overlaps no allocated one.\<close>

theorem buddy_alloc_iff_free_block:
  assumes "buddy_ok d t" and "0 < unat sz" and "unat sz \<le> 2 ^ 31"
  shows "\<exists>j. buddy_extent sz = 2 ^ j \<and> unat sz \<le> 2 ^ j \<and> 2 ^ j < 2 * unat sz \<and>
    (if \<exists>(x, h) \<in> free_blocks 0 (bd_logn d) t. j \<le> h
     then \<exists>off d' t'. buddy_alloc (Some d) sz = Some (int off, Some d') \<and> buddy_ok d' t' \<and> 2 ^ j dvd off
       \<and> blocks 0 (bd_logn d) t' = insert (off, 2 ^ j) (blocks 0 (bd_logn d) t)
       \<and> (\<forall>b \<in> blocks 0 (bd_logn d) t. apart (off, 2 ^ j) b)
     else buddy_alloc (Some d) sz = Some (-1, Some d))"
proof -
  obtain j where j: "unat (if \<not> is_power_of_2 sz then fix_size sz else sz) = 2 ^ j" "unat sz \<le> 2 ^ j" "2 ^ j < 2 * unat sz"
    by (rule round_up [OF assms(2,3)]) blast
  have ok: "bt_ok (bd_logn d) t" using assms(1) brepr_val by (auto simp: buddy_ok_def)
  note code = buddy_alloc_correct [OF assms(1) j(1)]
  show ?thesis
  proof (cases "j < avail (bd_logn d) t")
    case True
    obtain off t' where ba: "balloc (bd_logn d) j t = (off, t')" by fastforce
    have "j \<le> bd_logn d" using True avail_le [OF ok] by linarith
    note bl = balloc_blocks [OF ok this True ba, of 0]
    obtain d' where d': "buddy_alloc (Some d) sz = Some (int off, Some d')" "buddy_ok d' t'"
      using code(1) [OF True ba] by blast
    have "\<forall>b \<in> blocks 0 (bd_logn d) t. apart (off, 2 ^ j) b" using bl by (auto simp: apart_def)
    with d' bl True avail_free_blocks [OF ok, of j 0] j show ?thesis
      by (intro exI [of _ j]) (simp add: buddy_extent_def, blast)
  next
    case False
    with code(2) avail_free_blocks [OF ok, of j 0] j show ?thesis
      by (intro exI [of _ j]) (auto simp: buddy_extent_def)
  qed
qed

theorem buddy_alloc_iff_free_block_witness:
  "\<exists>d'. buddy_alloc (Some \<lparr>bd_logn = 1, bd_longest = [2, 1, 1]\<rparr>) 1 = Some (0, Some d') \<and> buddy_ok d' (BSplit BAlloc BFree)"
proof -
  let ?d = "\<lparr>bd_logn = 1, bd_longest = [2, 1, 1]\<rparr>"
  have ok: "buddy_ok ?d BFree" by (simp add: buddy_ok_def left_child_def right_child_def)
  have "buddy_extent 1 = 1" by code_simp
  then have "(buddy_extent 1 = 2 ^ j) = (j = 0)" for j by (cases j) auto
  with buddy_alloc_iff_free_block [OF ok, of 1] obtain off d' t' where
    "buddy_alloc (Some ?d) 1 = Some (int off, Some d')" "buddy_ok d' t'" by auto
  moreover have "buddy_alloc (Some ?d) 1 = Some (0, Some \<lparr>bd_logn = 1, bd_longest = [1, 0, 1]\<rparr>)" by code_simp
  moreover have "buddy_ok \<lparr>bd_logn = 1, bd_longest = [1, 0, 1]\<rparr> (BSplit BAlloc BFree)"
    by (simp add: buddy_ok_def left_child_def right_child_def)
  ultimately show ?thesis by simp
qed

text \<open>C32: for every sequence of allocations of 1 to \<open>2 ^ 31\<close> units and releases of blocks held, the arena
  never behaves in an undefined way, and the blocks held are disjoint and inside the arena.\<close>

theorem buddy_serves_apart:
  assumes "logn \<le> 29" and "buddy_new False logn = Some (Some d)" and "\<And>n. Take n \<in> set ops \<Longrightarrow> buddy_fine n"
  shows "\<exists>d' bs. buddy.serve ops d [] = Some (d', bs) \<and> buddy_rep d' (set bs) \<and> sorted_wrt apart bs
    \<and> (\<forall>b\<in>set bs. fst b + snd b \<le> 2 ^ logn)"
proof -
  have "buddy_rep d {}" "buddy_size d = 2 ^ logn"
    using buddy_new_ok [OF assms(1)] assms(2) by (fastforce simp: buddy_rep_def buddy_size_def)+
  then have start: "buddy.served (2 ^ logn) d []" by (simp add: buddy.served_def)
  obtain d' bs where run: "buddy.serve ops d [] = Some (d', bs)"
    using buddy.serve_total [OF start, of ops] assms(3) by blast
  with buddy.serve_safe [OF start run] show ?thesis by (auto simp: buddy.served_def)
qed

theorem buddy_serves_apart_witness:
  "\<exists>d d' bs. buddy_new False 3 = Some (Some d) \<and> buddy.serve [Take 3, Take 1, Give 1, Take 2] d [] = Some (d', bs)
    \<and> sorted_wrt apart bs"
proof -
  obtain d where d: "buddy_new False 3 = Some (Some d)" using buddy_new_ok [of 3] by auto
  have "buddy_fine n" if "Take n \<in> set [Take 3, Take 1, Give 1, Take 2]" for n :: u32
    using that by (auto simp: buddy_fine_def)
  then obtain d' bs where "buddy.serve [Take 3, Take 1, Give 1, Take 2] d [] = Some (d', bs)" "sorted_wrt apart bs"
    using buddy_serves_apart [OF _ d, of "[Take 3, Take 1, Give 1, Take 2]"] by auto
  with d show ?thesis by blast
qed

text \<open>Blocks are never joined again: once a block smaller than the arena has been allocated from a new
  arena, a request for the whole arena fails for ever, even after everything has been given back.\<close>

theorem buddy_never_joins:
  assumes "logn \<le> 29" and "buddy_new False logn = Some (Some d0)"
    and "buddy_take d0 sz = Some (Some a, d1)" and "buddy_extent sz < 2 ^ logn"
    and "buddy.serve ops d1 bs = Some (d2, bs2)" and "buddy_extent whole = 2 ^ logn"
  shows "buddy_take d2 whole = Some (None, d2)"
  by (rule buddy_never_merges [OF assms])

theorem buddy_never_joins_witness:
  "\<exists>d0 d1 d2. buddy_new False 2 = Some (Some d0) \<and> buddy_take d0 4 \<noteq> Some (None, d0)
    \<and> buddy_take d0 1 = Some (Some 0, d1) \<and> buddy.serve [Give 0] d1 [(0, 1)] = Some (d2, [])
    \<and> buddy_take d2 4 = Some (None, d2)"
proof -
  let ?d0 = "\<lparr>bd_logn = 2, bd_longest = [3, 2, 2, 1, 1, 1, 1]\<rparr>"
  let ?d1 = "\<lparr>bd_logn = 2, bd_longest = [2, 1, 2, 0, 1, 1, 1]\<rparr>"
  let ?d2 = "\<lparr>bd_logn = 2, bd_longest = [2, 1, 2, 1, 1, 1, 1]\<rparr>"
  have runs: "buddy_new False 2 = Some (Some ?d0)" "buddy_take ?d0 1 = Some (Some 0, ?d1)"
    "buddy_give ?d1 (0, 1) = Some ?d2" "buddy_extent 1 = 1" "buddy_extent 4 = 4" "map_option fst (buddy_take ?d0 4) = Some (Some 0)"
    by code_simp+
  then have serve: "buddy.serve [Give 0] ?d1 [(0, 1)] = Some (?d2, [])" by simp
  from buddy_never_joins [OF _ runs(1,2) _ serve, of 4] runs serve show ?thesis by auto
qed

text \<open>A request of 0 units, or of more than \<open>2 ^ 31\<close>, is rounded to 0; the descent of \<open>buddy_alloc\<close> then
  runs past the array: its behaviour is undefined.\<close>

theorem buddy_alloc_out_of_range:
  assumes "buddy_ok d t" and "\<not> (0 < unat sz \<and> unat sz \<le> 2 ^ 31)"
  shows "buddy_alloc (Some d) sz = None"
  using buddy_alloc_not_fine [OF assms(1)] assms(2) by (simp add: buddy_fine_def)

theorem buddy_alloc_out_of_range_witness:
  "buddy_alloc (Some \<lparr>bd_logn = 1, bd_longest = [2, 1, 1]\<rparr>) 0 = None"
proof -
  have "buddy_ok \<lparr>bd_logn = 1, bd_longest = [2, 1, 1]\<rparr> BFree"
    by (simp add: buddy_ok_def left_child_def right_child_def)
  from buddy_alloc_out_of_range [OF this, of 0] show ?thesis by simp
qed

end
