(* ===== verification/As_Dlist.thy ===== *)
theory As_Dlist
  imports Prelude
begin

text \<open>
  The intrusive doubly linked list of \<^verbatim>\<open>src/c/src/dlist.h\<close> and
  \<^verbatim>\<open>src/c/src/dlist.c\<close>. A node (\<open>as_dlist_node_t\<close>) is embedded in the
  objects it links, so the operations are polymorphic in the record extension: the store
  of the blocks of \<open>bytes.c\<close> and that of the thread resources of \<open>thread.c\<close> are
  instances. \<open>is_dlist h d xs\<close> says that the list header \<open>d\<close> and the store
  \<open>h\<close> hold exactly the nodes \<open>xs\<close>, in order, linked both ways.
\<close>

subsection \<open>Data and operations\<close>

record dnode =
  dl_next :: ptr
  dl_prev :: ptr

record dlist =
  dl_head :: ptr
  dl_tail :: ptr

definition dlist_node_init :: "ptr \<Rightarrow> 'a dnode_scheme store \<Rightarrow> 'a dnode_scheme store option" where
  "dlist_node_init n h =
     do { h \<leftarrow> modify (\<lambda>x. x\<lparr>dl_next := None\<rparr>) n h;
          modify (\<lambda>x. x\<lparr>dl_prev := None\<rparr>) n h }"

definition dlist_init :: "dlist \<Rightarrow> dlist" where
  "dlist_init d = d\<lparr>dl_head := None, dl_tail := None\<rparr>"

definition dlist_is_empty :: "dlist \<Rightarrow> bool" where
  "dlist_is_empty d \<longleftrightarrow> dl_head d = None"

definition dlist_add_to_head ::
  "dlist \<Rightarrow> addr \<Rightarrow> 'a dnode_scheme store \<Rightarrow> (dlist \<times> 'a dnode_scheme store) option" where
  "dlist_add_to_head d n h =
     do { h \<leftarrow> modify (\<lambda>x. x\<lparr>dl_prev := None\<rparr>) (Some n) h;
          h \<leftarrow> modify (\<lambda>x. x\<lparr>dl_next := dl_head d\<rparr>) (Some n) h;
          (d, h) \<leftarrow>
            (if \<not> dlist_is_empty d
             then do { h \<leftarrow> modify (\<lambda>x. x\<lparr>dl_prev := Some n\<rparr>) (dl_head d) h;
                       Some (d, h) }
             else Some (d\<lparr>dl_tail := Some n\<rparr>, h));
          Some (d\<lparr>dl_head := Some n\<rparr>, h) }"

definition dlist_add_to_tail ::
  "dlist \<Rightarrow> addr \<Rightarrow> 'a dnode_scheme store \<Rightarrow> (dlist \<times> 'a dnode_scheme store) option" where
  "dlist_add_to_tail d n h =
     do { h \<leftarrow> modify (\<lambda>x. x\<lparr>dl_next := None\<rparr>) (Some n) h;
          h \<leftarrow> modify (\<lambda>x. x\<lparr>dl_prev := dl_tail d\<rparr>) (Some n) h;
          (d, h) \<leftarrow>
            (if \<not> dlist_is_empty d
             then do { h \<leftarrow> modify (\<lambda>x. x\<lparr>dl_next := Some n\<rparr>) (dl_tail d) h;
                       Some (d, h) }
             else Some (d\<lparr>dl_head := Some n\<rparr>, h));
          Some (d\<lparr>dl_tail := Some n\<rparr>, h) }"

definition dlist_del ::
  "dlist \<Rightarrow> addr \<Rightarrow> 'a dnode_scheme store \<Rightarrow> (dlist \<times> 'a dnode_scheme store) option" where
  "dlist_del d n h =
     do { x \<leftarrow> deref h (Some n);
          let d = (if dl_head d = Some n then d\<lparr>dl_head := dl_next x\<rparr> else d);
          let d = (if dl_tail d = Some n then d\<lparr>dl_tail := dl_prev x\<rparr> else d);
          let prev = dl_prev x;
          let nxt = dl_next x;
          h \<leftarrow> (if prev \<noteq> None then modify (\<lambda>y. y\<lparr>dl_next := nxt\<rparr>) prev h else Some h);
          h \<leftarrow> (if nxt \<noteq> None then modify (\<lambda>y. y\<lparr>dl_prev := prev\<rparr>) nxt h else Some h);
          Some (d, h) }"

text \<open>
  \<open>dlist_pos_travel\<close>: the macro reads \<open>next\<close> before it calls \<open>_func_\<close> on the
  node, so that the function may release the node. The function acts on a state \<open>'s\<close>
  that holds the store of the nodes, read by \<open>st\<close>.
\<close>

partial_function (option) dlist_pos_travel ::
  "('s \<Rightarrow> 'a dnode_scheme store) \<Rightarrow> (addr \<Rightarrow> 's \<Rightarrow> 's option) \<Rightarrow> ptr \<Rightarrow> 's \<Rightarrow> 's option" where
  "dlist_pos_travel st func n s =
     (case n of
        None \<Rightarrow> Some s
      | Some a \<Rightarrow>
          do { x \<leftarrow> st s a;
               s \<leftarrow> func a s;
               dlist_pos_travel st func (dl_next x) s })"

subsection \<open>The abstraction\<close>

text \<open>
  \<open>dseg h pr xs nx\<close>: the nodes \<open>xs\<close> are linked in order, the first one's
  \<open>prev\<close> is \<open>pr\<close> and the last one's \<open>next\<close> is \<open>nx\<close>.
\<close>

definition hd_ptr :: "addr list \<Rightarrow> ptr \<Rightarrow> ptr" where
  "hd_ptr xs nx = (case xs of [] \<Rightarrow> nx | a # _ \<Rightarrow> Some a)"

definition last_ptr :: "ptr \<Rightarrow> addr list \<Rightarrow> ptr" where
  "last_ptr pr xs = (if xs = [] then pr else Some (last xs))"

fun dseg :: "'a dnode_scheme store \<Rightarrow> ptr \<Rightarrow> addr list \<Rightarrow> ptr \<Rightarrow> bool" where
  "dseg h pr [] nx \<longleftrightarrow> True"
| "dseg h pr (a # xs) nx \<longleftrightarrow>
     (\<exists>n. h a = Some n \<and> dl_prev n = pr \<and> dl_next n = hd_ptr xs nx) \<and> dseg h (Some a) xs nx"

definition is_dlist :: "'a dnode_scheme store \<Rightarrow> dlist \<Rightarrow> addr list \<Rightarrow> bool" where
  "is_dlist h d xs \<longleftrightarrow>
     distinct xs \<and> dl_head d = hd_ptr xs None \<and> dl_tail d = last_ptr None xs \<and> dseg h None xs None"

lemma hd_ptr_simps [simp]:
  "hd_ptr [] nx = nx" "hd_ptr (a # xs) nx = Some a"
  "hd_ptr (xs @ ys) nx = hd_ptr xs (hd_ptr ys nx)"
  by (auto simp: hd_ptr_def split: list.splits)

lemma last_ptr_simps [simp]:
  "last_ptr pr [] = pr" "last_ptr pr (a # xs) = last_ptr (Some a) xs"
  "last_ptr pr (xs @ ys) = last_ptr (last_ptr pr xs) ys"
  by (auto simp: last_ptr_def)

lemma last_ptr_neq [simp]: "n \<notin> set xs \<Longrightarrow> pr \<noteq> Some n \<Longrightarrow> last_ptr pr xs \<noteq> Some n"
  using last_in_set [of xs] by (cases "xs = []") (auto simp: last_ptr_def)

lemma dseg_append [simp]:
  "dseg h pr (xs @ ys) nx \<longleftrightarrow> dseg h pr xs (hd_ptr ys nx) \<and> dseg h (last_ptr pr xs) ys nx"
  by (induction xs arbitrary: pr) auto

lemma dseg_frame: "(\<And>a. a \<in> set xs \<Longrightarrow> h' a = h a) \<Longrightarrow> dseg h' pr xs nx = dseg h pr xs nx"
  by (induction xs arbitrary: pr) auto

lemma dseg_upd_other [simp]: "a \<notin> set xs \<Longrightarrow> dseg (h(a := v)) pr xs nx = dseg h pr xs nx"
  by (rule dseg_frame) auto

lemma dseg_in_dom: "dseg h pr xs nx \<Longrightarrow> set xs \<subseteq> dom h"
  by (induction xs arbitrary: pr) auto

lemma is_dlist_in_dom: "is_dlist h d xs \<Longrightarrow> set xs \<subseteq> dom h"
  by (auto simp: is_dlist_def dest!: dseg_in_dom)

lemma dseg_unique: "dseg h pr xs None \<Longrightarrow> dseg h pr' ys None \<Longrightarrow> hd_ptr xs None = hd_ptr ys None \<Longrightarrow> xs = ys"
proof (induction xs arbitrary: pr pr' ys)
  case Nil
  then show ?case by (cases ys) simp_all
next
  case (Cons a xs)
  then obtain zs where ys: "ys = a # zs" by (cases ys) simp_all
  with Cons.prems have "xs = zs" by (intro Cons.IH [of "Some a" "Some a"]) auto
  with ys show ?case by simp
qed

lemma is_dlist_unique: "is_dlist h d xs \<Longrightarrow> is_dlist h d ys \<Longrightarrow> xs = ys"
  by (auto simp: is_dlist_def intro: dseg_unique)

text \<open>Relinking one end of a segment touches one node.\<close>

lemma dseg_set_prev:
  "dseg h pr (a # xs) nx \<Longrightarrow> a \<notin> set xs \<Longrightarrow> h a = Some n \<Longrightarrow>
   dseg (h(a \<mapsto> n\<lparr>dl_prev := pr'\<rparr>)) pr' (a # xs) nx"
  by auto

lemma dseg_set_next:
  "dseg h pr (xs @ [a]) nx \<Longrightarrow> a \<notin> set xs \<Longrightarrow> h a = Some n \<Longrightarrow>
   dseg (h(a \<mapsto> n\<lparr>dl_next := nx'\<rparr>)) pr (xs @ [a]) nx'"
  by auto

subsection \<open>The operations on the abstraction\<close>

lemma dlist_node_init_Some:
  "h a = Some x \<Longrightarrow>
   dlist_node_init (Some a) h = Some (h(a \<mapsto> x\<lparr>dl_next := None, dl_prev := None\<rparr>))"
  by (simp add: dlist_node_init_def mem_simps)

lemma is_dlist_init [simp]: "is_dlist h (dlist_init d) []"
  by (simp add: is_dlist_def dlist_init_def)

lemma dlist_is_empty_iff: "is_dlist h d xs \<Longrightarrow> dlist_is_empty d \<longleftrightarrow> xs = []"
  by (cases xs) (auto simp: is_dlist_def dlist_is_empty_def)

lemma dlist_add_to_head_refines:
  assumes "is_dlist h d xs" and "n \<in> dom h" and "n \<notin> set xs"
  shows "\<exists>d' h'. dlist_add_to_head d n h = Some (d', h') \<and> is_dlist h' d' (n # xs)
           \<and> dom h' = dom h \<and> (\<forall>a. a \<notin> set (n # xs) \<longrightarrow> h' a = h a)"
proof (cases xs)
  case Nil
  with assms show ?thesis
    by (auto simp: dlist_add_to_head_def is_dlist_def dlist_is_empty_def mem_simps)
next
  case (Cons b ys)
  from assms Cons obtain x y where x: "h n = Some x" and y: "h b = Some y" and "b \<noteq> n"
    by (auto simp: is_dlist_def)
  with assms Cons show ?thesis
    by (auto simp: dlist_add_to_head_def is_dlist_def dlist_is_empty_def mem_simps)
qed

lemma dlist_add_to_tail_refines:
  assumes "is_dlist h d xs" and "n \<in> dom h" and "n \<notin> set xs"
  shows "\<exists>d' h'. dlist_add_to_tail d n h = Some (d', h') \<and> is_dlist h' d' (xs @ [n])
           \<and> dom h' = dom h \<and> (\<forall>a. a \<notin> set (n # xs) \<longrightarrow> h' a = h a)"
proof (cases xs rule: rev_cases)
  case Nil
  with assms show ?thesis
    by (auto simp: dlist_add_to_tail_def is_dlist_def dlist_is_empty_def mem_simps)
next
  case (snoc ys b)
  from assms snoc obtain x y where x: "h n = Some x" and y: "h b = Some y" and "b \<noteq> n"
    by (auto simp: is_dlist_def)
  with assms snoc show ?thesis
    by (cases ys)
       (auto simp: dlist_add_to_tail_def is_dlist_def dlist_is_empty_def mem_simps)
qed

lemma dlist_del_refines:
  assumes "is_dlist h d xs" and "n \<in> set xs"
  shows "\<exists>d' h'. dlist_del d n h = Some (d', h') \<and> is_dlist h' d' (remove1 n xs)
           \<and> dom h' = dom h \<and> h' n = h n \<and> (\<forall>a. a \<notin> set xs \<longrightarrow> h' a = h a)"
proof -
  from assms(2) obtain ys zs where xs: "xs = ys @ n # zs" and "n \<notin> set ys"
    by (meson split_list_first)
  with assms obtain x where x: "h n = Some x" "dl_prev x = last_ptr None ys" "dl_next x = hd_ptr zs None"
    by (auto simp: is_dlist_def)
  have rem: "remove1 n xs = ys @ zs" using xs \<open>n \<notin> set ys\<close> by (simp add: remove1_append)
  show ?thesis
  proof (cases ys rule: rev_cases)
    case Nil
    with assms x xs rem show ?thesis
      by (cases zs) (auto simp: dlist_del_def is_dlist_def mem_simps Let_def)
  next
    case (snoc ys' b)
    with assms x xs rem show ?thesis
      by (cases zs; cases ys') (auto simp: dlist_del_def is_dlist_def mem_simps Let_def)
  qed
qed

text \<open>The operations write links only: the object around a node keeps its contents.\<close>

definition same_payload :: "'a dnode_scheme store \<Rightarrow> 'a dnode_scheme store \<Rightarrow> bool" where
  "same_payload h h' \<longleftrightarrow> (\<forall>c. map_option dnode.more (h' c) = map_option dnode.more (h c))"

lemma same_payload_refl [simp]: "same_payload h h"
  by (simp add: same_payload_def)

lemma same_payload_trans: "same_payload h h' \<Longrightarrow> same_payload h' h'' \<Longrightarrow> same_payload h h''"
  by (simp add: same_payload_def)

lemma modify_payload:
  "modify u p h = Some h' \<Longrightarrow> (\<And>x. dnode.more (u x) = dnode.more x) \<Longrightarrow> same_payload h h'"
  by (auto simp: modify_eq_Some same_payload_def)

lemma dlist_add_to_head_payload:
  "dlist_add_to_head d n h = Some (d', h') \<Longrightarrow> same_payload h h'"
  by (auto simp: dlist_add_to_head_def bind_eq_Some_conv split: if_splits
      dest!: modify_payload intro: same_payload_trans)

lemma dlist_add_to_tail_payload:
  "dlist_add_to_tail d n h = Some (d', h') \<Longrightarrow> same_payload h h'"
  by (auto simp: dlist_add_to_tail_def bind_eq_Some_conv split: if_splits
      dest!: modify_payload intro: same_payload_trans)

lemma dlist_del_payload: "dlist_del d n h = Some (d', h') \<Longrightarrow> same_payload h h'"
  by (auto simp: dlist_del_def bind_eq_Some_conv Let_def split: if_splits
      dest!: modify_payload intro: same_payload_trans)

text \<open>
  A traversal whose function touches no other node is a fold over the list: also when
  the function releases the node it is given.
\<close>

lemma dlist_pos_travel_foldM:
  assumes local: "\<And>a s s'. func a s = Some s' \<Longrightarrow> (\<forall>b. b \<noteq> a \<longrightarrow> st s' b = st s b)"
    and "dseg (st s) pr xs None" and "distinct xs"
  shows "dlist_pos_travel st func (hd_ptr xs None) s = foldM func xs s"
  using assms(2,3)
proof (induction xs arbitrary: s pr)
  case Nil
  then show ?case by (simp add: dlist_pos_travel.simps)
next
  case (Cons a xs)
  then obtain x where x: "st s a = Some x" "dl_next x = hd_ptr xs None" by auto
  show ?case
  proof (cases "func a s")
    case None
    with x show ?thesis by (simp add: dlist_pos_travel.simps)
  next
    case (Some s')
    with Cons.prems local [OF Some] have "dseg (st s') (Some a) xs None"
      by (subst dseg_frame [where h = "st s"]) auto
    with Cons.IH Cons.prems x Some show ?thesis
      by (simp add: dlist_pos_travel.simps)
  qed
qed

subsection \<open>The interface its clients use\<close>

text \<open>
  What \<open>bytes.c\<close> and \<open>thread.c\<close> rely on: a relation between the concrete state
  and the list of its members, and what each operation does to the list.
\<close>

locale linked_list =
  fixes holds :: "'h \<Rightarrow> 'd \<Rightarrow> addr list \<Rightarrow> bool"
    and valid :: "'h \<Rightarrow> addr set"
    and empty_list :: "'d"
    and add_head :: "'d \<Rightarrow> addr \<Rightarrow> 'h \<Rightarrow> ('d \<times> 'h) option"
    and add_tail :: "'d \<Rightarrow> addr \<Rightarrow> 'h \<Rightarrow> ('d \<times> 'h) option"
    and del :: "'d \<Rightarrow> addr \<Rightarrow> 'h \<Rightarrow> ('d \<times> 'h) option"
  assumes holds_empty: "holds h empty_list []"
    and add_head_law: "holds h d xs \<Longrightarrow> n \<in> valid h \<Longrightarrow> n \<notin> set xs \<Longrightarrow>
      \<exists>d' h'. add_head d n h = Some (d', h') \<and> holds h' d' (n # xs) \<and> valid h' = valid h"
    and add_tail_law: "holds h d xs \<Longrightarrow> n \<in> valid h \<Longrightarrow> n \<notin> set xs \<Longrightarrow>
      \<exists>d' h'. add_tail d n h = Some (d', h') \<and> holds h' d' (xs @ [n]) \<and> valid h' = valid h"
    and del_law: "holds h d xs \<Longrightarrow> n \<in> set xs \<Longrightarrow>
      \<exists>d' h'. del d n h = Some (d', h') \<and> holds h' d' (remove1 n xs) \<and> valid h' = valid h"
begin

lemma add_tail_many:
  assumes "holds h d xs" and "set ns \<subseteq> valid h" and "distinct ns" and "set ns \<inter> set xs = {}"
  shows "\<exists>d' h'. foldM (\<lambda>n (d, h). add_tail d n h) ns (d, h) = Some (d', h')
           \<and> holds h' d' (xs @ ns) \<and> valid h' = valid h"
  using assms
proof (induction ns arbitrary: xs d h)
  case Nil
  then show ?case by simp
next
  case (Cons n ns)
  then obtain d1 h1 where one: "add_tail d n h = Some (d1, h1)" "holds h1 d1 (xs @ [n])"
      "valid h1 = valid h"
    using add_tail_law [of h d xs n] by auto
  with Cons.prems Cons.IH [of h1 d1 "xs @ [n]"] show ?case by auto
qed

lemma add_head_many:
  assumes "holds h d xs" and "set ns \<subseteq> valid h" and "distinct ns" and "set ns \<inter> set xs = {}"
  shows "\<exists>d' h'. foldM (\<lambda>n (d, h). add_head d n h) ns (d, h) = Some (d', h')
           \<and> holds h' d' (rev ns @ xs) \<and> valid h' = valid h"
  using assms
proof (induction ns arbitrary: xs d h)
  case Nil
  then show ?case by simp
next
  case (Cons n ns)
  then obtain d1 h1 where one: "add_head d n h = Some (d1, h1)" "holds h1 d1 (n # xs)"
      "valid h1 = valid h"
    using add_head_law [of h d xs n] by auto
  with Cons.prems Cons.IH [of h1 d1 "n # xs"] show ?case by auto
qed

lemma del_many:
  assumes "holds h d xs" and "set ns \<subseteq> set xs" and "distinct ns" and "distinct xs"
  shows "\<exists>d' h'. foldM (\<lambda>n (d, h). del d n h) ns (d, h) = Some (d', h')
           \<and> holds h' d' (filter (\<lambda>x. x \<notin> set ns) xs) \<and> valid h' = valid h"
  using assms
proof (induction ns arbitrary: xs d h)
  case Nil
  then show ?case by simp
next
  case (Cons n ns)
  then obtain d1 h1 where one: "del d n h = Some (d1, h1)" "holds h1 d1 (remove1 n xs)"
      "valid h1 = valid h"
    using del_law [of h d xs n] by auto
  have "filter (\<lambda>x. x \<notin> set ns) (remove1 n xs) = filter (\<lambda>x. x \<notin> set (n # ns)) xs"
    using Cons.prems(4) by (auto simp: distinct_remove1_removeAll removeAll_filter_not_eq
        intro: filter_cong)
  moreover have "set ns \<subseteq> set (remove1 n xs)" "distinct (remove1 n xs)"
    using Cons.prems by auto
  ultimately show ?case using Cons.prems one Cons.IH [of h1 d1 "remove1 n xs"] by simp
qed

end

text \<open>The code's list operations keep that interface, for every record extension.\<close>

definition dlist_empty :: dlist where
  "dlist_empty = \<lparr>dl_head = None, dl_tail = None\<rparr>"

interpretation dll: linked_list is_dlist dom dlist_empty dlist_add_to_head dlist_add_to_tail dlist_del
proof (unfold_locales, goal_cases)
  case (1 h)
  show ?case by (simp add: is_dlist_def dlist_empty_def)
next
  case (2 h d xs n)
  then show ?case using dlist_add_to_head_refines [of h d xs n] by blast
next
  case (3 h d xs n)
  then show ?case using dlist_add_to_tail_refines [of h d xs n] by blast
next
  case (4 h d xs n)
  then show ?case using dlist_del_refines [of h d xs n] by blast
qed

subsection \<open>The properties\<close>

definition small_nodes :: "unit dnode_scheme store" where
  "small_nodes = [1 \<mapsto> \<lparr>dl_next = Some 2, dl_prev = None\<rparr>, 2 \<mapsto> \<lparr>dl_next = None, dl_prev = Some 1\<rparr>,
     3 \<mapsto> \<lparr>dl_next = None, dl_prev = None\<rparr>]"

lemma small_list: "is_dlist small_nodes \<lparr>dl_head = Some 1, dl_tail = Some 2\<rparr> [1, 2]"
  by (simp add: is_dlist_def small_nodes_def hd_ptr_def last_ptr_def)



text \<open>\<open>dlist_pos_travel\<close> with a function that touches no other node, and may release the node it is
  given, ends and is the fold of the function over the members in order.\<close>

theorem travel_is_fold:
  assumes "\<And>a s s'. func a s = Some s' \<Longrightarrow> (\<forall>b. b \<noteq> a \<longrightarrow> st s' b = st s b)" and "is_dlist (st s) d xs"
  shows "dlist_pos_travel st func (dl_head d) s = foldM func xs s"
  using dlist_pos_travel_foldM [of func st s None xs] assms by (simp add: is_dlist_def)

theorem travel_is_fold_witness:
  "\<exists>s'. dlist_pos_travel fst (\<lambda>a (h, l). Some (h(a := None), l @ [a])) (Some 1) (small_nodes, []) = Some s'
    \<and> snd s' = [1, 2] \<and> fst s' 1 = None"
proof -
  have "is_dlist (fst (small_nodes, [] :: addr list)) \<lparr>dl_head = Some 1, dl_tail = Some 2\<rparr> [1, 2]"
    using small_list by simp
  from travel_is_fold [of "\<lambda>a (h, l). Some (h(a := None), l @ [a])" fst, OF _ this] show ?thesis by auto
qed

end
