(* ===== verification/Rb_Tree.thy ===== *)
theory Rb_Tree
  imports Prelude
begin

text \<open>
  The intrusive red-black tree of \<^verbatim>\<open>src/c/src/rb_tree.h\<close> and
  \<^verbatim>\<open>src/c/src/rb_tree.c\<close>: nodes with parent pointers in a store, the macros for
  insertion, search and the consuming postorder traversal, both rotations and both
  rebalancing loops. A loop over pointers is a \<open>partial_function\<close>, so a loop that does
  not end is \<open>None\<close>, as is every dereference of \<open>NULL\<close>.
\<close>

subsection \<open>Nodes and trees\<close>

datatype color = Red | Black

record rb_node =
  rn_parent :: ptr
  rn_left :: ptr
  rn_right :: ptr
  rn_color :: color

record rb_tree =
  rb_mem :: "rb_node store"
  rb_root :: ptr

definition rb_get :: "(rb_node \<Rightarrow> 'b) \<Rightarrow> ptr \<Rightarrow> rb_tree \<Rightarrow> 'b option" where
  "rb_get f p t = map_option f (deref (rb_mem t) p)"

definition rb_set :: "(rb_node \<Rightarrow> rb_node) \<Rightarrow> ptr \<Rightarrow> rb_tree \<Rightarrow> rb_tree option" where
  "rb_set u p t = map_option (\<lambda>m. t\<lparr>rb_mem := m\<rparr>) (modify u p (rb_mem t))"

text \<open>The mirror-image halves of the code, and its macros over \<open>left\<close> and \<open>right\<close>, take a side.\<close>

datatype side = L | R

definition opp :: "side \<Rightarrow> side" where
  "opp d = (case d of L \<Rightarrow> R | R \<Rightarrow> L)"

definition rn_child :: "side \<Rightarrow> rb_node \<Rightarrow> ptr" where
  "rn_child d nd = (case d of L \<Rightarrow> rn_left nd | R \<Rightarrow> rn_right nd)"

definition is_null_or_black :: "ptr \<Rightarrow> rb_tree \<Rightarrow> bool option" where
  "is_null_or_black n t = (if n = None then Some True else map_option (\<lambda>c. c = Black) (rb_get rn_color n t))"

text \<open>
  The statement \<open>if (fa == NULL) root = new; else if (old == fa->left) fa->left = new; else
  fa->right = new;\<close> which the code writes out in each place.
\<close>

definition replace_child :: "ptr \<Rightarrow> ptr \<Rightarrow> ptr \<Rightarrow> rb_tree \<Rightarrow> rb_tree option" where
  "replace_child fa old new t =
     (if fa = None then Some (t\<lparr>rb_root := new\<rparr>)
      else do {
        l \<leftarrow> rb_get rn_left fa t;
        if old = l then rb_set (rn_left_update (\<lambda>_. new)) fa t
        else rb_set (rn_right_update (\<lambda>_. new)) fa t
      })"

subsection \<open>Rotations\<close>

definition rotate_right :: "ptr \<Rightarrow> rb_tree \<Rightarrow> rb_tree option" where
  "rotate_right q t = do {
     p \<leftarrow> rb_get rn_left q t;
     y \<leftarrow> rb_get rn_right p t;
     t \<leftarrow> (if y \<noteq> None then rb_set (rn_parent_update (\<lambda>_. q)) y t else Some t);
     t \<leftarrow> rb_set (rn_left_update (\<lambda>_. y)) q t;
     fa \<leftarrow> rb_get rn_parent q t;
     t \<leftarrow> replace_child fa q p t;
     t \<leftarrow> rb_set (rn_right_update (\<lambda>_. q)) p t;
     t \<leftarrow> rb_set (rn_parent_update (\<lambda>_. fa)) p t;
     rb_set (rn_parent_update (\<lambda>_. p)) q t
   }"

definition rotate_left :: "ptr \<Rightarrow> rb_tree \<Rightarrow> rb_tree option" where
  "rotate_left p t = do {
     q \<leftarrow> rb_get rn_right p t;
     if q = None then Some t
     else do {
       y \<leftarrow> rb_get rn_left q t;
       t \<leftarrow> (if y \<noteq> None then rb_set (rn_parent_update (\<lambda>_. p)) y t else Some t);
       t \<leftarrow> rb_set (rn_right_update (\<lambda>_. y)) p t;
       fa \<leftarrow> rb_get rn_parent p t;
       t \<leftarrow> replace_child fa p q t;
       t \<leftarrow> rb_set (rn_left_update (\<lambda>_. p)) q t;
       t \<leftarrow> rb_set (rn_parent_update (\<lambda>_. fa)) q t;
       rb_set (rn_parent_update (\<lambda>_. q)) p t
     }
   }"

definition rotate_dir :: "side \<Rightarrow> ptr \<Rightarrow> rb_tree \<Rightarrow> rb_tree option" where
  "rotate_dir d = (case d of L \<Rightarrow> rotate_left | R \<Rightarrow> rotate_right)"

subsection \<open>Insertion\<close>

text \<open>
  \<open>as_rb_node_t **\<close>: the address of a variable that holds a root, or of a child field.
  The variable is the tree's \<open>root\<close> in the macro and a local one in
  \<open>rb_tree_insert_to_most_left\<close>; its value travels with the store.
\<close>

datatype link = AtRoot | AtLeft addr | AtRight addr

definition link_read :: "link \<Rightarrow> rb_tree \<Rightarrow> ptr option" where
  "link_read lk t = (case lk of
       AtRoot \<Rightarrow> Some (rb_root t)
     | AtLeft a \<Rightarrow> rb_get rn_left (Some a) t
     | AtRight a \<Rightarrow> rb_get rn_right (Some a) t)"

definition link_write :: "link \<Rightarrow> ptr \<Rightarrow> rb_tree \<Rightarrow> rb_tree option" where
  "link_write lk v t = (case lk of
       AtRoot \<Rightarrow> Some (t\<lparr>rb_root := v\<rparr>)
     | AtLeft a \<Rightarrow> rb_set (rn_left_update (\<lambda>_. v)) (Some a) t
     | AtRight a \<Rightarrow> rb_set (rn_right_update (\<lambda>_. v)) (Some a) t)"

partial_function (option) link_walk :: "(addr \<Rightarrow> bool) \<Rightarrow> ptr \<Rightarrow> link \<Rightarrow> rb_tree \<Rightarrow> (link \<times> rb_tree) option" where
  "link_walk go_left n lk t = do {
     p \<leftarrow> link_read lk t;
     case p of
       None \<Rightarrow> Some (lk, t)
     | Some a \<Rightarrow> do {
         t \<leftarrow> rb_set (rn_parent_update (\<lambda>_. p)) n t;
         link_walk go_left n (if go_left a then AtLeft a else AtRight a) t
       }
   }"

text \<open>
  The three insertions differ in the test that picks the side: \<open>go_left a\<close> is
  \<open>lt n a\<close> in the macro, true in \<open>most_left\<close> and false in \<open>most_right\<close>.
\<close>

definition insert_at_link :: "(addr \<Rightarrow> bool) \<Rightarrow> ptr \<Rightarrow> rb_tree \<Rightarrow> rb_tree option" where
  "insert_at_link go_left n t = do {
     t \<leftarrow> rb_set (\<lambda>_. \<lparr>rn_parent = None, rn_left = None, rn_right = None, rn_color = Red\<rparr>) n t;
     (lk, t) \<leftarrow> link_walk go_left n AtRoot t;
     link_write lk n t
   }"

definition rb_tree_insert :: "(addr \<Rightarrow> addr \<Rightarrow> bool) \<Rightarrow> addr \<Rightarrow> rb_tree \<Rightarrow> rb_tree option" where
  "rb_tree_insert lt n t = insert_at_link (lt n) (Some n) t"

text \<open>Both return the new value of the local variable and the tree, whose root they do not touch.\<close>

definition rb_tree_insert_to_most_left :: "ptr \<Rightarrow> ptr \<Rightarrow> rb_tree \<Rightarrow> (ptr \<times> rb_tree) option" where
  "rb_tree_insert_to_most_left var n t = do {
     t' \<leftarrow> insert_at_link (\<lambda>_. True) n (t\<lparr>rb_root := var\<rparr>);
     Some (rb_root t', t'\<lparr>rb_root := rb_root t\<rparr>)
   }"

definition rb_tree_insert_to_most_right :: "ptr \<Rightarrow> ptr \<Rightarrow> rb_tree \<Rightarrow> (ptr \<times> rb_tree) option" where
  "rb_tree_insert_to_most_right var n t = do {
     t' \<leftarrow> insert_at_link (\<lambda>_. False) n (t\<lparr>rb_root := var\<rparr>);
     Some (rb_root t', t'\<lparr>rb_root := rb_root t\<rparr>)
   }"

definition uncle :: "ptr \<Rightarrow> rb_tree \<Rightarrow> ptr option" where
  "uncle n t = do {
     fa \<leftarrow> rb_get rn_parent n t;
     g \<leftarrow> rb_get rn_parent fa t;
     r \<leftarrow> rb_get rn_right g t;
     if fa = r then rb_get rn_left g t else rb_get rn_right g t
   }"

definition is_red :: "ptr \<Rightarrow> rb_tree \<Rightarrow> bool option" where
  "is_red n t = (if n = None then Some False else map_option (\<lambda>c. c = Red) (rb_get rn_color n t))"

text \<open>\<open>n == fa->d && fa == gf->(opposite of d)\<close>.\<close>

definition inner_grandchild :: "side \<Rightarrow> ptr \<Rightarrow> ptr \<Rightarrow> ptr \<Rightarrow> rb_tree \<Rightarrow> bool option" where
  "inner_grandchild d n fa gf t = do {
     c \<leftarrow> rb_get (rn_child d) fa t;
     if n = c then map_option (\<lambda>g. fa = g) (rb_get (rn_child (opp d)) gf t) else Some False
   }"

definition insert_rotate :: "ptr \<Rightarrow> ptr \<Rightarrow> rb_tree \<Rightarrow> (ptr \<times> rb_tree) option" where
  "insert_rotate n fa t = do {
     gf \<leftarrow> rb_get rn_parent fa t;
     lr \<leftarrow> inner_grandchild R n fa gf t;
     (n, fa, gf, t) \<leftarrow>
       (if lr then do {
          t \<leftarrow> rotate_left fa t;
          n \<leftarrow> rb_get rn_left n t;
          fa \<leftarrow> rb_get rn_parent n t;
          gf \<leftarrow> rb_get rn_parent fa t;
          Some (n, fa, gf, t)
        }
        else do {
          rl \<leftarrow> inner_grandchild L n fa gf t;
          if rl then do {
            t \<leftarrow> rotate_right fa t;
            n \<leftarrow> rb_get rn_right n t;
            fa \<leftarrow> rb_get rn_parent n t;
            gf \<leftarrow> rb_get rn_parent fa t;
            Some (n, fa, gf, t)
          }
          else Some (n, fa, gf, t)
        });
     t \<leftarrow> rb_set (rn_color_update (\<lambda>_. Black)) fa t;
     t \<leftarrow> rb_set (rn_color_update (\<lambda>_. Red)) gf t;
     l \<leftarrow> rb_get rn_left fa t;
     t \<leftarrow> (if n = l then rotate_right gf t else rotate_left gf t);
     Some (n, t)
   }"

partial_function (option) insert_loop :: "ptr \<Rightarrow> rb_tree \<Rightarrow> rb_tree option" where
  "insert_loop n t = do {
     fa \<leftarrow> rb_get rn_parent n t;
     go \<leftarrow> is_red fa t;
     if \<not> go then Some t
     else do {
       uc \<leftarrow> uncle n t;
       uc_red \<leftarrow> is_red uc t;
       if uc_red then do {
         t \<leftarrow> rb_set (rn_color_update (\<lambda>_. Black)) fa t;
         t \<leftarrow> rb_set (rn_color_update (\<lambda>_. Black)) uc t;
         gf \<leftarrow> rb_get rn_parent fa t;
         t \<leftarrow> rb_set (rn_color_update (\<lambda>_. Red)) gf t;
         insert_loop gf t
       }
       else do {
         (n, t) \<leftarrow> insert_rotate n fa t;
         insert_loop n t
       }
     }
   }"

text \<open>The tree exists, so of the guard \<open>t == NULL || n == NULL\<close> the second half is left.\<close>

definition rb_tree_insert_case :: "ptr \<Rightarrow> rb_tree \<Rightarrow> rb_tree option" where
  "rb_tree_insert_case n t =
     (if n = None then Some t
      else do {
        t \<leftarrow> insert_loop n t;
        rb_set (rn_color_update (\<lambda>_. Black)) (rb_root t) t
      })"

subsection \<open>Search and traversal\<close>

partial_function (option) find_loop :: "(addr \<Rightarrow> bool) \<Rightarrow> (addr \<Rightarrow> bool) \<Rightarrow> ptr \<Rightarrow> rb_tree \<Rightarrow> ptr option" where
  "find_loop eq lt p t = (case p of
       None \<Rightarrow> Some None
     | Some a \<Rightarrow>
         if eq a then Some p
         else do {
           nx \<leftarrow> (if lt a then rb_get rn_left p t else rb_get rn_right p t);
           find_loop eq lt nx t
         })"

definition rb_tree_find :: "('k \<Rightarrow> addr \<Rightarrow> bool) \<Rightarrow> ('k \<Rightarrow> addr \<Rightarrow> bool) \<Rightarrow> 'k \<Rightarrow> rb_tree \<Rightarrow> ptr option" where
  "rb_tree_find eq lt key t = find_loop (eq key) (lt key) (rb_root t) t"

text \<open>
  The traversal unlinks each leaf from its father before it hands it to the callback,
  which gets the tree's store and a state of its own and may free the node.
\<close>

partial_function (option) postorder_loop ::
  "(addr \<Rightarrow> rb_tree \<times> 's \<Rightarrow> (rb_tree \<times> 's) option) \<Rightarrow> ptr \<Rightarrow> rb_tree \<times> 's \<Rightarrow> (rb_tree \<times> 's) option" where
  "postorder_loop func tn ts = (case tn of
       None \<Rightarrow> Some ts
     | Some a \<Rightarrow> do {
         l \<leftarrow> rb_get rn_left tn (fst ts);
         r \<leftarrow> rb_get rn_right tn (fst ts);
         if l \<noteq> None then postorder_loop func l ts
         else if r \<noteq> None then postorder_loop func r ts
         else do {
           fa \<leftarrow> rb_get rn_parent tn (fst ts);
           t \<leftarrow> (if fa \<noteq> None then do {
                    fl \<leftarrow> rb_get rn_left fa (fst ts);
                    if tn = fl then rb_set (rn_left_update (\<lambda>_. None)) fa (fst ts)
                    else rb_set (rn_right_update (\<lambda>_. None)) fa (fst ts)
                  }
                  else Some (fst ts));
           ts \<leftarrow> func a (t, snd ts);
           postorder_loop func fa ts
         }
       })"

subsection \<open>Deletion\<close>

definition delete_case1 :: "side \<Rightarrow> ptr \<Rightarrow> ptr \<Rightarrow> rb_tree \<Rightarrow> (ptr \<times> rb_tree) option" where
  "delete_case1 d fa s t = do {
     t \<leftarrow> rb_set (rn_color_update (\<lambda>_. Black)) s t;
     t \<leftarrow> rb_set (rn_color_update (\<lambda>_. Red)) fa t;
     t \<leftarrow> rotate_dir d fa t;
     s \<leftarrow> rb_get (rn_child (opp d)) fa t;
     Some (s, t)
   }"

definition delete_case2 :: "ptr \<Rightarrow> ptr \<Rightarrow> rb_tree \<Rightarrow> (ptr \<times> ptr \<times> rb_tree) option" where
  "delete_case2 fa s t = do {
     t \<leftarrow> rb_set (rn_color_update (\<lambda>_. Red)) s t;
     fa' \<leftarrow> rb_get rn_parent fa t;
     Some (fa, fa', t)
   }"

definition delete_case3 :: "side \<Rightarrow> ptr \<Rightarrow> ptr \<Rightarrow> rb_tree \<Rightarrow> (ptr \<times> rb_tree) option" where
  "delete_case3 d fa s t = do {
     c \<leftarrow> rb_get (rn_child d) s t;
     t \<leftarrow> (if c \<noteq> None then rb_set (rn_color_update (\<lambda>_. Black)) c t else Some t);
     t \<leftarrow> rb_set (rn_color_update (\<lambda>_. Red)) s t;
     t \<leftarrow> rotate_dir (opp d) s t;
     s \<leftarrow> rb_get (rn_child (opp d)) fa t;
     Some (s, t)
   }"

definition delete_case4 :: "side \<Rightarrow> ptr \<Rightarrow> ptr \<Rightarrow> rb_tree \<Rightarrow> (ptr \<times> rb_tree) option" where
  "delete_case4 d fa s t = do {
     c \<leftarrow> rb_get rn_color fa t;
     t \<leftarrow> rb_set (rn_color_update (\<lambda>_. c)) s t;
     t \<leftarrow> rb_set (rn_color_update (\<lambda>_. Black)) fa t;
     c \<leftarrow> rb_get (rn_child (opp d)) s t;
     t \<leftarrow> (if c \<noteq> None then rb_set (rn_color_update (\<lambda>_. Black)) c t else Some t);
     t \<leftarrow> rotate_dir d fa t;
     Some (rb_root t, t)
   }"

text \<open>
  One turn of the loop of \<open>rb_tree_delete_case\<close>, the same code for each side, from the test
  of the sibling's children on and as a whole: whether it leaves by \<open>break\<close>, and the new
  \<open>n\<close>, \<open>fa\<close> and tree.
\<close>

definition delete_rest :: "side \<Rightarrow> ptr \<Rightarrow> ptr \<Rightarrow> rb_tree \<Rightarrow> (bool \<times> ptr \<times> ptr \<times> rb_tree) option" where
  "delete_rest d fa s t = do {
     sl \<leftarrow> rb_get rn_left s t;
     sr \<leftarrow> rb_get rn_right s t;
     bl \<leftarrow> is_null_or_black sl t;
     br \<leftarrow> is_null_or_black sr t;
     if bl \<and> br then do {
       (n, fa, t) \<leftarrow> delete_case2 fa s t;
       Some (False, n, fa, t)
     }
     else do {
       (s, t) \<leftarrow> (if (case d of L \<Rightarrow> br | R \<Rightarrow> bl) then delete_case3 d fa s t else Some (s, t));
       (n, t) \<leftarrow> delete_case4 d fa s t;
       Some (True, n, fa, t)
     }
   }"

definition delete_turn :: "ptr \<Rightarrow> ptr \<Rightarrow> rb_tree \<Rightarrow> (bool \<times> ptr \<times> ptr \<times> rb_tree) option" where
  "delete_turn n fa t = do {
     l \<leftarrow> rb_get rn_left fa t;
     let d = (if n = l then L else R);
     s \<leftarrow> rb_get (rn_child (opp d)) fa t;
     c \<leftarrow> rb_get rn_color s t;
     (s, t) \<leftarrow> (if c = Red then delete_case1 d fa s t else Some (s, t));
     delete_rest d fa s t
   }"

partial_function (option) delete_loop :: "ptr \<Rightarrow> ptr \<Rightarrow> rb_tree \<Rightarrow> (ptr \<times> rb_tree) option" where
  "delete_loop n fa t = do {
     b \<leftarrow> is_null_or_black n t;
     if b \<and> n \<noteq> rb_root t then do {
       (brk, n, fa, t) \<leftarrow> delete_turn n fa t;
       if brk then Some (n, t) else delete_loop n fa t
     }
     else Some (n, t)
   }"

definition rb_tree_delete_case :: "ptr \<Rightarrow> ptr \<Rightarrow> rb_tree \<Rightarrow> rb_tree option" where
  "rb_tree_delete_case n fa t = do {
     (n, t) \<leftarrow> delete_loop n fa t;
     if n \<noteq> None then rb_set (rn_color_update (\<lambda>_. Black)) n t else Some t
   }"

text \<open>The successor leaves its place: nothing to do when it is the right child of \<open>n\<close>.\<close>

definition splice_leaf :: "ptr \<Rightarrow> ptr \<Rightarrow> ptr \<Rightarrow> ptr \<Rightarrow> rb_tree \<Rightarrow> (ptr \<times> rb_tree) option" where
  "splice_leaf n leaf rc fa t =
     (if fa = n then Some (leaf, t)
      else do {
        t \<leftarrow> (if rc \<noteq> None then rb_set (rn_parent_update (\<lambda>_. fa)) rc t else Some t);
        t \<leftarrow> rb_set (rn_left_update (\<lambda>_. rc)) fa t;
        nr \<leftarrow> rb_get rn_right n t;
        t \<leftarrow> rb_set (rn_right_update (\<lambda>_. nr)) leaf t;
        t \<leftarrow> rb_set (rn_parent_update (\<lambda>_. leaf)) nr t;
        Some (fa, t)
      })"

definition swap_node_with_leaf :: "ptr \<Rightarrow> ptr \<Rightarrow> rb_tree \<Rightarrow> rb_tree option" where
  "swap_node_with_leaf n leaf t = do {
     c \<leftarrow> rb_get rn_color leaf t;
     fa \<leftarrow> rb_get rn_parent n t;
     t \<leftarrow> replace_child fa n leaf t;
     rc \<leftarrow> rb_get rn_right leaf t;
     fa \<leftarrow> rb_get rn_parent leaf t;
     (fa, t) \<leftarrow> splice_leaf n leaf rc fa t;
     np \<leftarrow> rb_get rn_parent n t;
     t \<leftarrow> rb_set (rn_parent_update (\<lambda>_. np)) leaf t;
     nc \<leftarrow> rb_get rn_color n t;
     t \<leftarrow> rb_set (rn_color_update (\<lambda>_. nc)) leaf t;
     nl \<leftarrow> rb_get rn_left n t;
     t \<leftarrow> rb_set (rn_left_update (\<lambda>_. nl)) leaf t;
     t \<leftarrow> rb_set (rn_parent_update (\<lambda>_. leaf)) nl t;
     if c = Black then rb_tree_delete_case rc fa t else Some t
   }"

definition swap_node_with_subtree :: "ptr \<Rightarrow> ptr \<Rightarrow> rb_tree \<Rightarrow> rb_tree option" where
  "swap_node_with_subtree n sub t = do {
     gf \<leftarrow> rb_get rn_parent n t;
     if gf = None then do {
       let t = t\<lparr>rb_root := sub\<rparr>;
       t \<leftarrow> rb_set (rn_color_update (\<lambda>_. Black)) sub t;
       rb_set (rn_parent_update (\<lambda>_. None)) sub t
     }
     else do {
       t \<leftarrow> replace_child gf n sub t;
       t \<leftarrow> rb_set (rn_parent_update (\<lambda>_. gf)) sub t;
       nc \<leftarrow> rb_get rn_color n t;
       sc \<leftarrow> rb_get rn_color sub t;
       if nc = Red \<or> sc = Red then rb_set (rn_color_update (\<lambda>_. Black)) sub t
       else rb_tree_delete_case sub gf t
     }
   }"

definition remove_node_has_one_child :: "ptr \<Rightarrow> rb_tree \<Rightarrow> rb_tree option" where
  "remove_node_has_one_child ori t = do {
     fa \<leftarrow> rb_get rn_parent ori t;
     l \<leftarrow> rb_get rn_left ori t;
     sub \<leftarrow> (if l = None then rb_get rn_right ori t else Some l);
     t \<leftarrow> (if sub \<noteq> None then rb_set (rn_parent_update (\<lambda>_. fa)) sub t else Some t);
     t \<leftarrow> replace_child fa ori sub t;
     c \<leftarrow> rb_get rn_color ori t;
     if c = Black then rb_tree_delete_case sub fa t else Some t
   }"

partial_function (option) leftmost_loop :: "ptr \<Rightarrow> rb_tree \<Rightarrow> ptr option" where
  "leftmost_loop leaf t = do {
     l \<leftarrow> rb_get rn_left leaf t;
     if l \<noteq> None then leftmost_loop l t else Some leaf
   }"

text \<open>
  The guard \<open>t == NULL && n == NULL\<close> never holds for a tree that exists: a \<open>NULL\<close> node is
  dereferenced.
\<close>

definition rb_tree_delete :: "ptr \<Rightarrow> rb_tree \<Rightarrow> rb_tree option" where
  "rb_tree_delete n t = do {
     l \<leftarrow> rb_get rn_left n t;
     r \<leftarrow> rb_get rn_right n t;
     if l = None \<or> r = None then remove_node_has_one_child n t
     else do {
       leaf \<leftarrow> leftmost_loop r t;
       swap_node_with_leaf n leaf t
     }
   }"

definition rb_tree_remove_subtree :: "ptr \<Rightarrow> rb_tree \<Rightarrow> rb_tree option" where
  "rb_tree_remove_subtree sub t = do {
     fa \<leftarrow> rb_get rn_parent sub t;
     if fa = None then Some (t\<lparr>rb_root := None\<rparr>)
     else do {
       l \<leftarrow> rb_get rn_left fa t;
       if sub = l then do {
         sil \<leftarrow> rb_get rn_right fa t;
         t \<leftarrow> swap_node_with_subtree fa sil t;
         (sil, t) \<leftarrow> rb_tree_insert_to_most_left sil fa t;
         rb_tree_insert_case fa t
       }
       else do {
         t \<leftarrow> swap_node_with_subtree fa l t;
         (sil, t) \<leftarrow> rb_tree_insert_to_most_right l fa t;
         rb_tree_insert_case fa t
       }
     }
   }"

text \<open>The loops evaluate.\<close>

declare link_walk.simps [code] insert_loop.simps [code] find_loop.simps [code] postorder_loop.simps [code]
  delete_loop.simps [code] leftmost_loop.simps [code]

end
