(* ===== verification/Rb_Shape.thy ===== *)
theory Rb_Shape
  imports Rb_Tree
begin

text \<open>
  What a store of linked nodes stands for. A tree of addresses with one node in focus is
  the path from the focus up to the root (a list of frames, each with the sibling it
  leaves behind) and the subtree in focus. \<open>focus m0 t k T\<close> says that the nodes of \<open>t\<close> are
  linked that way, that no address occurs twice, and that every other address still holds
  what it held in the store \<open>m0\<close>. Each primitive of the code (a colour, a rotation, a
  child replaced) is one lemma about \<open>focus\<close>.
\<close>

subsection \<open>Trees and paths\<close>

datatype rbt = Leaf | Node color rbt addr rbt

datatype frame = Fr side color addr rbt

type_synonym path = "frame list"

text \<open>\<open>mk d c x a y\<close>: a node whose child on side \<open>d\<close> is \<open>x\<close>.\<close>

fun mk :: "side \<Rightarrow> color \<Rightarrow> rbt \<Rightarrow> addr \<Rightarrow> rbt \<Rightarrow> rbt" where
  "mk L c x a y = Node c x a y"
| "mk R c x a y = Node c y a x"

fun addrs :: "rbt \<Rightarrow> addr list" where
  "addrs Leaf = []"
| "addrs (Node c l a r) = addrs l @ a # addrs r"

fun root_ptr :: "rbt \<Rightarrow> ptr" where
  "root_ptr Leaf = None"
| "root_ptr (Node c l a r) = Some a"

fun plug :: "path \<Rightarrow> rbt \<Rightarrow> rbt" where
  "plug [] T = T"
| "plug (Fr d c a s # k) T = plug k (mk d c T a s)"

fun path_parent :: "path \<Rightarrow> ptr" where
  "path_parent [] = None"
| "path_parent (Fr d c a s # k) = Some a"

fun path_addrs :: "path \<Rightarrow> addr list" where
  "path_addrs [] = []"
| "path_addrs (Fr d c a s # k) = a # addrs s @ path_addrs k"

fun node_of :: "ptr \<Rightarrow> side \<Rightarrow> color \<Rightarrow> ptr \<Rightarrow> ptr \<Rightarrow> rb_node" where
  "node_of fa L c x y = \<lparr>rn_parent = fa, rn_left = x, rn_right = y, rn_color = c\<rparr>"
| "node_of fa R c x y = \<lparr>rn_parent = fa, rn_left = y, rn_right = x, rn_color = c\<rparr>"

fun is_tree :: "rb_node store \<Rightarrow> ptr \<Rightarrow> rbt \<Rightarrow> bool" where
  "is_tree m fa Leaf \<longleftrightarrow> True"
| "is_tree m fa (Node c l a r) \<longleftrightarrow>
     m a = Some (node_of fa L c (root_ptr l) (root_ptr r)) \<and> is_tree m (Some a) l \<and> is_tree m (Some a) r"

fun is_path :: "rb_node store \<Rightarrow> ptr \<Rightarrow> path \<Rightarrow> ptr \<Rightarrow> bool" where
  "is_path m root [] p \<longleftrightarrow> root = p"
| "is_path m root (Fr d c a s # k) p \<longleftrightarrow>
     m a = Some (node_of (path_parent k) d c p (root_ptr s)) \<and> is_tree m (Some a) s \<and> is_path m root k (Some a)"

definition focus :: "rb_node store \<Rightarrow> rb_tree \<Rightarrow> path \<Rightarrow> rbt \<Rightarrow> bool" where
  "focus m0 t k T \<longleftrightarrow> is_path (rb_mem t) (rb_root t) k (root_ptr T)
     \<and> is_tree (rb_mem t) (path_parent k) T \<and> distinct (path_addrs k @ addrs T)
     \<and> (\<forall>b. b \<notin> set (path_addrs k) \<and> b \<notin> set (addrs T) \<longrightarrow> rb_mem t b = m0 b)"

text \<open>The whole tree: the focus is the root.\<close>

abbreviation rb_is :: "rb_node store \<Rightarrow> rb_tree \<Rightarrow> rbt \<Rightarrow> bool" where
  "rb_is m0 t T \<equiv> focus m0 t [] T"

subsection \<open>Moving the focus\<close>

lemma is_tree_mk [simp]:
  "is_tree m fa (mk d c x a y) \<longleftrightarrow>
     m a = Some (node_of fa d c (root_ptr x) (root_ptr y)) \<and> is_tree m (Some a) x \<and> is_tree m (Some a) y"
  by (cases d) auto

lemma root_ptr_mk [simp]: "root_ptr (mk d c x a y) = Some a"
  by (cases d) auto

lemma set_addrs_mk [simp]: "set (addrs (mk d c x a y)) = insert a (set (addrs x) \<union> set (addrs y))"
  by (cases d) auto

lemma distinct_addrs_mk [simp]:
  "distinct (addrs (mk d c x a y)) \<longleftrightarrow> distinct (addrs x) \<and> distinct (addrs y) \<and> a \<notin> set (addrs x) \<and> a \<notin> set (addrs y)
     \<and> set (addrs x) \<inter> set (addrs y) = {}"
  by (cases d) auto

lemma opp_simps [simp]: "opp L = R" "opp R = L" "opp (opp d) = d"
  by (simp_all add: opp_def) (cases d; simp)

lemma opp_neq [simp]: "opp d \<noteq> d" "d \<noteq> opp d"
  by (cases d; simp)+

lemma mk_opp [simp]: "mk (opp d) c x a y = mk d c y a x"
  by (cases d) auto

lemma node_of_opp [simp]: "node_of fa (opp d) c x y = node_of fa d c y x"
  by (cases d) auto

lemma node_of_sel [simp]:
  "rn_parent (node_of fa d c x y) = fa" "rn_color (node_of fa d c x y) = c"
  "rn_child d (node_of fa d c x y) = x" "rn_child (opp d) (node_of fa d c x y) = y"
  by (cases d; simp add: rn_child_def)+

lemma node_of_upd [simp]:
  "rn_parent_update (\<lambda>_. v) (node_of fa d c x y) = node_of v d c x y"
  "rn_color_update (\<lambda>_. c') (node_of fa d c x y) = node_of fa d c' x y"
  by (cases d; simp)+

lemma focus_up: "focus m0 t (Fr d c a s # k) T \<longleftrightarrow> focus m0 t k (mk d c T a s)"
  by (auto simp: focus_def)

lemma focus_down_left: "focus m0 t k (Node c l a r) \<longleftrightarrow> focus m0 t (Fr L c a r # k) l"
  by (simp add: focus_up)

lemma focus_down_right: "focus m0 t k (Node c l a r) \<longleftrightarrow> focus m0 t (Fr R c a l # k) r"
  by (simp add: focus_up)

lemma focus_plug: "focus m0 t k T \<longleftrightarrow> rb_is m0 t (plug k T)"
  by (induction k T rule: plug.induct) (auto simp: focus_up)

lemma focus_here:
  "focus m0 t k (mk d c x a y) \<Longrightarrow> rb_mem t a = Some (node_of (path_parent k) d c (root_ptr x) (root_ptr y))"
  by (simp add: focus_def)

lemma focus_node:
  "focus m0 t k (Node c l a r) \<Longrightarrow> rb_mem t a = Some (node_of (path_parent k) L c (root_ptr l) (root_ptr r))"
  by (simp add: focus_def)

lemma focus_above:
  "focus m0 t (Fr d c a s # k) T \<Longrightarrow> rb_mem t a = Some (node_of (path_parent k) d c (root_ptr T) (root_ptr s))"
  by (simp add: focus_def)

lemma focus_root: "focus m0 t [] T \<Longrightarrow> rb_root t = root_ptr T"
  by (simp add: focus_def)

lemma rb_get_Some [simp]: "rb_mem t a = Some nd \<Longrightarrow> rb_get f (Some a) t = Some (f nd)"
  by (simp add: rb_get_def)

lemma rb_get_None [simp]: "rb_get f None t = None"
  by (simp add: rb_get_def)

lemma rb_set_Some: "rb_mem t a = Some nd \<Longrightarrow> rb_set u (Some a) t = Some (t\<lparr>rb_mem := (rb_mem t)(a \<mapsto> u nd)\<rparr>)"
  by (simp add: rb_set_def modify_Some)

subsection \<open>What is not touched stays\<close>

lemma is_tree_cong: "(\<And>b. b \<in> set (addrs T) \<Longrightarrow> m' b = m b) \<Longrightarrow> is_tree m' fa T \<longleftrightarrow> is_tree m fa T"
  by (induction m' fa T rule: is_tree.induct) auto

lemma is_path_cong: "(\<And>b. b \<in> set (path_addrs k) \<Longrightarrow> m' b = m b) \<Longrightarrow> is_path m' root k p \<longleftrightarrow> is_path m root k p"
proof (induction m' root k p rule: is_path.induct)
  case (2 m' root d c a s k p)
  have "is_tree m' (Some a) s \<longleftrightarrow> is_tree m (Some a) s" using 2(2) by (intro is_tree_cong) simp
  with 2 show ?case by simp
qed simp

lemma is_path_weaken: "is_path m root k p \<Longrightarrow> b \<in> set (path_addrs k) \<Longrightarrow> m b \<noteq> None"
proof (induction m root k p rule: is_path.induct)
  case (2 m root d c a s k p)
  have "is_tree m fa T \<Longrightarrow> b \<in> set (addrs T) \<Longrightarrow> m b \<noteq> None" for fa T
    by (induction m fa T rule: is_tree.induct) auto
  with 2 show ?case by auto
qed simp

lemma replace_child_path:
  assumes "is_path (rb_mem t) (rb_root t) k (Some a)" and "distinct (path_addrs k)" and "a \<notin> set (path_addrs k)"
  obtains t' where "replace_child (path_parent k) (Some a) new t = Some t'"
    "is_path (rb_mem t') (rb_root t') k new" "\<And>b. b \<notin> set (path_addrs k) \<Longrightarrow> rb_mem t' b = rb_mem t b"
proof (cases k)
  case Nil
  show thesis by (rule that [of "t\<lparr>rb_root := new\<rparr>"]) (simp_all add: Nil replace_child_def)
next
  case (Cons f k')
  obtain d c p s where f: "f = Fr d c p s" by (cases f)
  have p: "rb_mem t p = Some (node_of (path_parent k') d c (Some a) (root_ptr s))" "is_tree (rb_mem t) (Some p) s"
    "is_path (rb_mem t) (rb_root t) k' (Some p)" using assms(1) Cons f by auto
  have notin: "p \<notin> set (addrs s)" "p \<notin> set (path_addrs k')" using assms(2) Cons f by auto
  have "root_ptr s \<noteq> Some a" using assms(3) Cons f by (cases s) auto
  let ?t = "t\<lparr>rb_mem := (rb_mem t)(p \<mapsto> node_of (path_parent k') d c new (root_ptr s))\<rparr>"
  have "replace_child (path_parent k) (Some a) new t = Some ?t"
    using p(1) \<open>root_ptr s \<noteq> Some a\<close> Cons f by (cases d) (auto simp: replace_child_def rb_set_Some)
  moreover have "is_tree (rb_mem ?t) (Some p) s" using p(2) notin by (subst is_tree_cong) auto
  moreover have "is_path (rb_mem ?t) (rb_root ?t) k' (Some p)" using p(3) notin by simp (subst is_path_cong; auto)
  ultimately show thesis using Cons f by (intro that [of ?t]) auto
qed

lemma reparent:
  assumes "is_tree (rb_mem t) fa T" and "distinct (addrs T)"
  obtains t' where "(if root_ptr T \<noteq> None then rb_set (rn_parent_update (\<lambda>_. v)) (root_ptr T) t else Some t) = Some t'"
    "is_tree (rb_mem t') v T" "rb_root t' = rb_root t" "\<And>b. b \<notin> set (addrs T) \<Longrightarrow> rb_mem t' b = rb_mem t b"
proof (cases T)
  case Leaf
  show thesis by (rule that [of t]) (simp_all add: Leaf)
next
  case (Node c l a r)
  let ?m = "(rb_mem t)(a \<mapsto> node_of v L c (root_ptr l) (root_ptr r))"
  have "is_tree ?m (Some a) l" "is_tree ?m (Some a) r"
    using assms Node by (subst is_tree_cong [of _ _ "rb_mem t"]; auto)+
  with assms Node show thesis by (intro that [of "t\<lparr>rb_mem := ?m\<rparr>"]) (simp_all add: rb_set_Some)
qed

subsection \<open>The primitives\<close>

lemma set_color_focus:
  assumes "focus m0 t k (mk d c x a y)"
  obtains t' where "rb_set (rn_color_update (\<lambda>_. c')) (Some a) t = Some t'" "focus m0 t' k (mk d c' x a y)"
proof -
  let ?m = "(rb_mem t)(a \<mapsto> node_of (path_parent k) d c' (root_ptr x) (root_ptr y))"
  have "is_tree ?m (Some a) x" "is_tree ?m (Some a) y"
    using assms by (subst is_tree_cong [of _ _ "rb_mem t"]; auto simp: focus_def)+
  moreover have "is_path ?m (rb_root t) k (Some a)"
    using assms by (subst is_path_cong [of _ _ "rb_mem t"]) (auto simp: focus_def)
  ultimately have "focus m0 (t\<lparr>rb_mem := ?m\<rparr>) k (mk d c' x a y)" using assms by (auto simp: focus_def)
  with focus_here [OF assms] show thesis by (intro that [of "t\<lparr>rb_mem := ?m\<rparr>"]) (simp_all add: rb_set_Some)
qed

text \<open>The same at the father of the focus, and at the root of the sibling.\<close>

lemma set_color_above:
  assumes "focus m0 t (Fr d c a s # k) T"
  obtains t' where "rb_set (rn_color_update (\<lambda>_. c')) (Some a) t = Some t'" "focus m0 t' (Fr d c' a s # k) T"
  using set_color_focus [of m0 t k d c T a s] assms by (auto simp: focus_up)

lemma set_color_sibling:
  assumes "focus m0 t (Fr d c a (mk e cs x s y) # k) T"
  obtains t' where "rb_set (rn_color_update (\<lambda>_. c')) (Some s) t = Some t'" "focus m0 t' (Fr d c a (mk e c' x s y) # k) T"
proof -
  have "focus m0 t (Fr (opp d) c a T # k) (mk e cs x s y)" using assms by (simp add: focus_up)
  then obtain t' where "rb_set (rn_color_update (\<lambda>_. c')) (Some s) t = Some t'"
    "focus m0 t' (Fr (opp d) c a T # k) (mk e c' x s y)" by (rule set_color_focus)
  then show thesis by (intro that [of t']) (simp_all add: focus_up)
qed

lemma rotate_left_focus:
  assumes "focus m0 t k (mk L c x a (mk L c' y b z))"
  obtains t' where "rotate_left (Some a) t = Some t'" "focus m0 t' k (mk L c' (mk L c x a y) b z)"
proof -
  let ?fa = "path_parent k"
  have a: "rb_mem t a = Some (node_of ?fa L c (root_ptr x) (Some b))"
    and b: "rb_mem t b = Some (node_of (Some a) L c' (root_ptr y) (root_ptr z))"
    and x: "is_tree (rb_mem t) (Some a) x" and y: "is_tree (rb_mem t) (Some b) y" and z: "is_tree (rb_mem t) (Some b) z"
    and path: "is_path (rb_mem t) (rb_root t) k (Some a)"
    and dis: "distinct (path_addrs k)" "a \<notin> set (path_addrs k)" "b \<notin> set (path_addrs k)" "a \<noteq> b"
      "distinct (addrs x)" "distinct (addrs y)" "distinct (addrs z)"
      "set (path_addrs k) \<inter> set (addrs x) = {}" "set (path_addrs k) \<inter> set (addrs y) = {}"
      "set (path_addrs k) \<inter> set (addrs z) = {}" "a \<notin> set (addrs x)" "a \<notin> set (addrs y)" "a \<notin> set (addrs z)"
      "b \<notin> set (addrs x)" "b \<notin> set (addrs y)" "b \<notin> set (addrs z)" "set (addrs x) \<inter> set (addrs y) = {}"
      "set (addrs x) \<inter> set (addrs z) = {}" "set (addrs y) \<inter> set (addrs z) = {}"
    and out: "\<And>p. p \<notin> set (path_addrs k) \<Longrightarrow> p \<noteq> a \<Longrightarrow> p \<noteq> b \<Longrightarrow> p \<notin> set (addrs x) \<Longrightarrow> p \<notin> set (addrs y)
      \<Longrightarrow> p \<notin> set (addrs z) \<Longrightarrow> rb_mem t p = m0 p"
    using assms by (auto simp: focus_def)
  obtain t1 where t1: "(if root_ptr y \<noteq> None then rb_set (rn_parent_update (\<lambda>_. Some a)) (root_ptr y) t else Some t) = Some t1"
    "is_tree (rb_mem t1) (Some a) y" "rb_root t1 = rb_root t" "\<And>p. p \<notin> set (addrs y) \<Longrightarrow> rb_mem t1 p = rb_mem t p"
    by (rule reparent [OF y dis(6), of "Some a"]) blast
  let ?t2 = "t1\<lparr>rb_mem := (rb_mem t1)(a \<mapsto> node_of ?fa L c (root_ptr x) (root_ptr y))\<rparr>"
  have t2: "rb_set (rn_right_update (\<lambda>_. root_ptr y)) (Some a) t1 = Some ?t2"
    using t1(4) [OF dis(12)] a by (simp add: rb_set_Some)
  have "is_path (rb_mem ?t2) (rb_root ?t2) k (Some a)"
    using path t1(3,4) dis(2,9) by simp (subst is_path_cong [of _ _ "rb_mem t"]; auto)
  then obtain t3 where t3: "replace_child ?fa (Some a) (Some b) ?t2 = Some t3"
    "is_path (rb_mem t3) (rb_root t3) k (Some b)" "\<And>p. p \<notin> set (path_addrs k) \<Longrightarrow> rb_mem t3 p = rb_mem ?t2 p"
    by (rule replace_child_path [OF _ dis(1,2), of _ "Some b"]) blast
  have b3: "rb_mem t3 b = Some (node_of (Some a) L c' (root_ptr y) (root_ptr z))"
    using t3(3) [OF dis(3)] t1(4) [OF dis(15)] b dis(4) by simp
  have a3: "rb_mem t3 a = Some (node_of ?fa L c (root_ptr x) (root_ptr y))" using t3(3) [OF dis(2)] by simp
  let ?m = "(rb_mem t3)(b \<mapsto> node_of ?fa L c' (Some a) (root_ptr z), a \<mapsto> node_of (Some b) L c (root_ptr x) (root_ptr y))"
  have "rotate_left (Some a) t = Some (t3\<lparr>rb_mem := ?m\<rparr>)"
    unfolding rotate_left_def using a b t1(1) t2 t3(1) b3 a3 dis(4) by (simp add: rb_set_Some fun_upd_twist)
  moreover have keep: "?m p = rb_mem t p" if "p \<in> set (addrs x) \<union> set (addrs z)" for p
  proof -
    have "p \<notin> set (path_addrs k)" "p \<notin> set (addrs y)" "p \<noteq> a" "p \<noteq> b" using that dis by blast+
    then show ?thesis using t3(3) [of p] t1(4) [of p] by simp
  qed
  moreover have keep_y: "?m p = rb_mem t1 p" if "p \<in> set (addrs y)" for p
  proof -
    have "p \<notin> set (path_addrs k)" "p \<noteq> a" "p \<noteq> b" using that dis by blast+
    then show ?thesis using t3(3) [of p] by simp
  qed
  moreover have "is_tree ?m (Some a) x"
    by (rule is_tree_cong [THEN iffD2, OF _ x]) (rule keep, simp)
  moreover have "is_tree ?m (Some b) z"
    by (rule is_tree_cong [THEN iffD2, OF _ z]) (rule keep, simp)
  moreover have "is_tree ?m (Some a) y"
    by (rule is_tree_cong [THEN iffD2, OF _ t1(2)]) (rule keep_y)
  moreover have "is_path ?m (rb_root t3) k (Some b)"
    by (rule is_path_cong [THEN iffD2, OF _ t3(2)]) (use dis in auto)
  moreover have "?m p = m0 p" if "p \<notin> set (path_addrs k)" "p \<notin> set (addrs (mk L c' (mk L c x a y) b z))" for p
    using that t3(3) [of p] t1(4) [of p] out [of p] by simp
  ultimately show thesis
    using dis by (intro that [of "t3\<lparr>rb_mem := ?m\<rparr>"]) (auto simp: focus_def)
qed

lemma rotate_right_focus:
  assumes "focus m0 t k (mk R c x a (mk R c' y b z))"
  obtains t' where "rotate_right (Some a) t = Some t'" "focus m0 t' k (mk R c' (mk R c x a y) b z)"
proof -
  let ?fa = "path_parent k"
  have a: "rb_mem t a = Some (node_of ?fa R c (root_ptr x) (Some b))"
    and b: "rb_mem t b = Some (node_of (Some a) R c' (root_ptr y) (root_ptr z))"
    and x: "is_tree (rb_mem t) (Some a) x" and y: "is_tree (rb_mem t) (Some b) y" and z: "is_tree (rb_mem t) (Some b) z"
    and path: "is_path (rb_mem t) (rb_root t) k (Some a)"
    and dis: "distinct (path_addrs k)" "a \<notin> set (path_addrs k)" "b \<notin> set (path_addrs k)" "a \<noteq> b"
      "distinct (addrs x)" "distinct (addrs y)" "distinct (addrs z)"
      "set (path_addrs k) \<inter> set (addrs x) = {}" "set (path_addrs k) \<inter> set (addrs y) = {}"
      "set (path_addrs k) \<inter> set (addrs z) = {}" "a \<notin> set (addrs x)" "a \<notin> set (addrs y)" "a \<notin> set (addrs z)"
      "b \<notin> set (addrs x)" "b \<notin> set (addrs y)" "b \<notin> set (addrs z)" "set (addrs x) \<inter> set (addrs y) = {}"
      "set (addrs x) \<inter> set (addrs z) = {}" "set (addrs y) \<inter> set (addrs z) = {}"
    and out: "\<And>p. p \<notin> set (path_addrs k) \<Longrightarrow> p \<noteq> a \<Longrightarrow> p \<noteq> b \<Longrightarrow> p \<notin> set (addrs x) \<Longrightarrow> p \<notin> set (addrs y)
      \<Longrightarrow> p \<notin> set (addrs z) \<Longrightarrow> rb_mem t p = m0 p"
    using assms by (auto simp: focus_def)
  obtain t1 where t1: "(if root_ptr y \<noteq> None then rb_set (rn_parent_update (\<lambda>_. Some a)) (root_ptr y) t else Some t) = Some t1"
    "is_tree (rb_mem t1) (Some a) y" "rb_root t1 = rb_root t" "\<And>p. p \<notin> set (addrs y) \<Longrightarrow> rb_mem t1 p = rb_mem t p"
    by (rule reparent [OF y dis(6), of "Some a"]) blast
  let ?t2 = "t1\<lparr>rb_mem := (rb_mem t1)(a \<mapsto> node_of ?fa R c (root_ptr x) (root_ptr y))\<rparr>"
  have t2: "rb_set (rn_left_update (\<lambda>_. root_ptr y)) (Some a) t1 = Some ?t2"
    using t1(4) [OF dis(12)] a by (simp add: rb_set_Some)
  have "is_path (rb_mem ?t2) (rb_root ?t2) k (Some a)"
    using path t1(3,4) dis(2,9) by simp (subst is_path_cong [of _ _ "rb_mem t"]; auto)
  then obtain t3 where t3: "replace_child ?fa (Some a) (Some b) ?t2 = Some t3"
    "is_path (rb_mem t3) (rb_root t3) k (Some b)" "\<And>p. p \<notin> set (path_addrs k) \<Longrightarrow> rb_mem t3 p = rb_mem ?t2 p"
    by (rule replace_child_path [OF _ dis(1,2), of _ "Some b"]) blast
  have b3: "rb_mem t3 b = Some (node_of (Some a) R c' (root_ptr y) (root_ptr z))"
    using t3(3) [OF dis(3)] t1(4) [OF dis(15)] b dis(4) by simp
  have a3: "rb_mem t3 a = Some (node_of ?fa R c (root_ptr x) (root_ptr y))" using t3(3) [OF dis(2)] by simp
  let ?m = "(rb_mem t3)(b \<mapsto> node_of ?fa R c' (Some a) (root_ptr z), a \<mapsto> node_of (Some b) R c (root_ptr x) (root_ptr y))"
  have "rotate_right (Some a) t = Some (t3\<lparr>rb_mem := ?m\<rparr>)"
    unfolding rotate_right_def using a b t1(1) t2 t3(1) b3 a3 dis(4) by (simp add: rb_set_Some fun_upd_twist)
  moreover have keep: "?m p = rb_mem t p" if "p \<in> set (addrs x) \<union> set (addrs z)" for p
  proof -
    have "p \<notin> set (path_addrs k)" "p \<notin> set (addrs y)" "p \<noteq> a" "p \<noteq> b" using that dis by blast+
    then show ?thesis using t3(3) [of p] t1(4) [of p] by simp
  qed
  moreover have keep_y: "?m p = rb_mem t1 p" if "p \<in> set (addrs y)" for p
  proof -
    have "p \<notin> set (path_addrs k)" "p \<noteq> a" "p \<noteq> b" using that dis by blast+
    then show ?thesis using t3(3) [of p] by simp
  qed
  moreover have "is_tree ?m (Some a) x"
    by (rule is_tree_cong [THEN iffD2, OF _ x]) (rule keep, simp)
  moreover have "is_tree ?m (Some b) z"
    by (rule is_tree_cong [THEN iffD2, OF _ z]) (rule keep, simp)
  moreover have "is_tree ?m (Some a) y"
    by (rule is_tree_cong [THEN iffD2, OF _ t1(2)]) (rule keep_y)
  moreover have "is_path ?m (rb_root t3) k (Some b)"
    by (rule is_path_cong [THEN iffD2, OF _ t3(2)]) (use dis in auto)
  moreover have "?m p = m0 p" if "p \<notin> set (path_addrs k)" "p \<notin> set (addrs (mk R c' (mk R c x a y) b z))" for p
    using that t3(3) [of p] t1(4) [of p] out [of p] by simp
  ultimately show thesis
    using dis by (intro that [of "t3\<lparr>rb_mem := ?m\<rparr>"]) (auto simp: focus_def)
qed

lemma rotate_dir_focus:
  assumes "focus m0 t k (mk d c x a (mk d c' y b z))"
  obtains t' where "rotate_dir d (Some a) t = Some t'" "focus m0 t' k (mk d c' (mk d c x a y) b z)"
proof (cases d)
  case L
  have "focus m0 t k (mk L c x a (mk L c' y b z))" using assms L by simp
  then obtain t' where "rotate_left (Some a) t = Some t'" "focus m0 t' k (mk L c' (mk L c x a y) b z)"
    by (rule rotate_left_focus)
  with L show thesis by (intro that [of t']) (simp_all add: rotate_dir_def)
next
  case R
  have "focus m0 t k (mk R c x a (mk R c' y b z))" using assms R by simp
  then obtain t' where "rotate_right (Some a) t = Some t'" "focus m0 t' k (mk R c' (mk R c x a y) b z)"
    by (rule rotate_right_focus)
  with R show thesis by (intro that [of t']) (simp_all add: rotate_dir_def)
qed

end
