(* ===== verification/Rb_Insert.thy ===== *)
theory Rb_Insert
  imports Rb_Shape
begin

text \<open>
  Insertion into the red-black tree: the walk to the new leaf and the rebalancing loop
  compute functions on trees, and those keep the order of the addresses and the
  red-black invariants.
\<close>

subsection \<open>The walk to the new leaf\<close>

fun link_at :: "path \<Rightarrow> link" where
  "link_at [] = AtRoot"
| "link_at (Fr L c a s # k) = AtLeft a"
| "link_at (Fr R c a s # k) = AtRight a"

fun walk :: "(addr \<Rightarrow> bool) \<Rightarrow> path \<Rightarrow> rbt \<Rightarrow> path" where
  "walk g k Leaf = k"
| "walk g k (Node c l a r) = (if g a then walk g (Fr L c a r # k) l else walk g (Fr R c a l # k) r)"

lemma link_read_focus: "focus m0 t k T \<Longrightarrow> link_read (link_at k) t = Some (root_ptr T)"
  by (cases k rule: link_at.cases) (auto simp: focus_def link_read_def)

lemma focus_outside:
  assumes "focus m0 t k T" and "n \<notin> set (path_addrs k)" and "n \<notin> set (addrs T)"
  shows "focus (m0(n := v)) (t\<lparr>rb_mem := (rb_mem t)(n := v)\<rparr>) k T"
proof -
  have "is_path ((rb_mem t)(n := v)) (rb_root t) k (root_ptr T)"
    using assms by (subst is_path_cong [of _ _ "rb_mem t"]) (auto simp: focus_def)
  moreover have "is_tree ((rb_mem t)(n := v)) (path_parent k) T"
    using assms by (subst is_tree_cong [of _ _ "rb_mem t"]) (auto simp: focus_def)
  ultimately show ?thesis using assms(1) by (auto simp: focus_def)
qed

lemma focus_other: "focus m0 t k T \<Longrightarrow> n \<notin> set (path_addrs k) \<Longrightarrow> n \<notin> set (addrs T) \<Longrightarrow> m0 n = rb_mem t n"
  by (simp add: focus_def)

lemma link_walk_focus:
  "focus m0 t k T \<Longrightarrow> n \<notin> set (path_addrs k) \<Longrightarrow> n \<notin> set (addrs T) \<Longrightarrow>
   rb_mem t n = Some (node_of (path_parent k) L Red None None) \<Longrightarrow>
   \<exists>t' m1. link_walk g (Some n) (link_at k) t = Some (link_at (walk g k T), t') \<and> focus m1 t' (walk g k T) Leaf
     \<and> rb_mem t' n = Some (node_of (path_parent (walk g k T)) L Red None None) \<and> n \<notin> set (path_addrs (walk g k T))
     \<and> (\<forall>b. b \<noteq> n \<longrightarrow> m1 b = m0 b)"
proof (induction T arbitrary: m0 t k)
  case Leaf
  have "link_walk g (Some n) (link_at k) t = Some (link_at k, t)"
    using link_read_focus [OF Leaf(1)] by (subst link_walk.simps) simp
  with Leaf show ?case by auto
next
  case (Node c l a r)
  let ?nd = "node_of (Some a) L Red None None"
  let ?t = "t\<lparr>rb_mem := (rb_mem t)(n \<mapsto> ?nd)\<rparr>"
  have set: "rb_set (rn_parent_update (\<lambda>_. Some a)) (Some n) t = Some ?t"
    using Node.prems(4) by (simp add: rb_set_Some)
  have foc: "focus (m0(n \<mapsto> ?nd)) ?t k (Node c l a r)" by (rule focus_outside [OF Node.prems(1-3)])
  have step: "link_walk g (Some n) (link_at k) t = link_walk g (Some n) (if g a then AtLeft a else AtRight a) ?t"
    using link_read_focus [OF Node.prems(1)] set by (subst link_walk.simps) simp
  show ?case
  proof (cases "g a")
    case True
    have "focus (m0(n \<mapsto> ?nd)) ?t (Fr L c a r # k) l" using foc by (simp only: focus_down_left)
    from Node.IH(1) [OF this] Node.prems(2,3) True show ?thesis unfolding step by fastforce
  next
    case False
    have "focus (m0(n \<mapsto> ?nd)) ?t (Fr R c a l # k) r" using foc by (simp only: focus_down_right)
    from Node.IH(2) [OF this] Node.prems(2,3) False show ?thesis unfolding step by fastforce
  qed
qed

lemma link_write_focus:
  assumes "focus m1 t k Leaf" and "rb_mem t n = Some (node_of (path_parent k) L Red None None)"
    and "n \<notin> set (path_addrs k)" and m: "\<And>b. b \<noteq> n \<Longrightarrow> m1 b = m0 b"
  obtains t' where "link_write (link_at k) (Some n) t = Some t'" "focus m0 t' k (Node Red Leaf n Leaf)"
proof (cases k)
  case Nil
  with assms show thesis
    by (intro that [of "t\<lparr>rb_root := Some n\<rparr>"]) (auto simp: link_write_def focus_def)
next
  case (Cons f k')
  obtain d c a s where f: "f = Fr d c a s" by (cases f)
  have a: "rb_mem t a = Some (node_of (path_parent k') d c None (root_ptr s))" "is_tree (rb_mem t) (Some a) s"
    "is_path (rb_mem t) (rb_root t) k' (Some a)" "distinct (a # addrs s @ path_addrs k')"
    using assms(1) Cons f by (auto simp: focus_def)
  let ?t = "t\<lparr>rb_mem := (rb_mem t)(a \<mapsto> node_of (path_parent k') d c (Some n) (root_ptr s))\<rparr>"
  have "link_write (link_at k) (Some n) t = Some ?t"
    using a(1) Cons f by (cases d) (auto simp: link_write_def rb_set_Some)
  moreover have "is_tree (rb_mem ?t) (Some a) s" using a(2,4) by (subst is_tree_cong) auto
  moreover have "is_path (rb_mem ?t) (rb_root ?t) k' (Some a)" using a(3,4) by simp (subst is_path_cong; auto)
  ultimately show thesis
    using assms Cons f a(4) by (intro that [of ?t]) (auto simp: focus_def)
qed

lemma insert_at_link_focus:
  assumes "rb_is m0 t T" and "n \<notin> set (addrs T)" and "rb_mem t n \<noteq> None"
  obtains t' where "insert_at_link g (Some n) t = Some t'" "focus m0 t' (walk g [] T) (Node Red Leaf n Leaf)"
proof -
  let ?nd = "node_of None L Red None None"
  let ?t = "t\<lparr>rb_mem := (rb_mem t)(n \<mapsto> ?nd)\<rparr>"
  have set: "rb_set (\<lambda>_. ?nd) (Some n) t = Some ?t" using assms(3) by (auto simp: rb_set_Some)
  have "focus (m0(n \<mapsto> ?nd)) ?t [] T" by (rule focus_outside) (use assms in simp_all)
  then obtain t1 m1 where t1: "link_walk g (Some n) (link_at []) ?t = Some (link_at (walk g [] T), t1)"
    "focus m1 t1 (walk g [] T) Leaf" "rb_mem t1 n = Some (node_of (path_parent (walk g [] T)) L Red None None)"
    "n \<notin> set (path_addrs (walk g [] T))" "\<forall>b. b \<noteq> n \<longrightarrow> m1 b = (m0(n \<mapsto> ?nd)) b"
    using link_walk_focus [of "m0(n \<mapsto> ?nd)" ?t "[]" T n g] assms(2) by auto
  obtain t' where "link_write (link_at (walk g [] T)) (Some n) t1 = Some t'"
    "focus m0 t' (walk g [] T) (Node Red Leaf n Leaf)"
    by (rule link_write_focus [OF t1(2-4), of m0]) (use t1(5) in auto)
  with set t1(1) show thesis by (intro that [of t']) (simp_all add: insert_at_link_def)
qed

subsection \<open>The rebalancing loop\<close>

fun color_of :: "rbt \<Rightarrow> color" where
  "color_of Leaf = Black"
| "color_of (Node c l a r) = c"

fun paint :: "color \<Rightarrow> rbt \<Rightarrow> rbt" where
  "paint c Leaf = Leaf"
| "paint c (Node c' l a r) = Node c l a r"

fun child_of :: "side \<Rightarrow> rbt \<Rightarrow> rbt" where
  "child_of d Leaf = Leaf"
| "child_of L (Node c l a r) = l"
| "child_of R (Node c l a r) = r"

fun label_of :: "rbt \<Rightarrow> addr" where
  "label_of Leaf = 0"
| "label_of (Node c l a r) = a"

text \<open>The subtree of the grandfather \<open>g\<close> after the rotations: \<open>T\<close> hangs at side \<open>d\<close> of \<open>a\<close>, \<open>a\<close> at side \<open>e\<close> of \<open>g\<close>.\<close>

definition insert_rotated :: "side \<Rightarrow> side \<Rightarrow> rbt \<Rightarrow> addr \<Rightarrow> rbt \<Rightarrow> addr \<Rightarrow> rbt \<Rightarrow> rbt" where
  "insert_rotated d e T a s g u =
     (if d = e then mk e Black T a (mk e Red s g u)
      else mk e Black (mk e Red s a (child_of e T)) (label_of T) (mk e Red (child_of d T) g u))"

fun fixup :: "path \<Rightarrow> rbt \<Rightarrow> rbt" where
  "fixup [] T = T"
| "fixup [f] T = plug [f] T"
| "fixup (Fr d c a s # Fr e c' g u # k) T =
     (if c = Black then plug (Fr d c a s # Fr e c' g u # k) T
      else if color_of u = Red then fixup k (mk e Red (mk d Black T a s) g (paint Black u))
      else plug k (insert_rotated d e T a s g u))"

fun frame_color :: "frame \<Rightarrow> color" where
  "frame_color (Fr d c a s) = c"

definition black_top :: "path \<Rightarrow> bool" where
  "black_top k \<longleftrightarrow> k \<noteq> [] \<longrightarrow> frame_color (last k) = Black"

lemma mk_cases: "root_ptr T = Some n \<Longrightarrow> T = mk d (color_of T) (child_of d T) n (child_of (opp d) T)"
  by (cases T; cases d) auto

lemma mk_sel [simp]: "color_of (mk d c x a y) = c" "child_of d (mk d c x a y) = x" "child_of (opp d) (mk d c x a y) = y"
  "label_of (mk d c x a y) = a"
  by (cases d; simp)+

lemma focus_parent: "focus m0 t k T \<Longrightarrow> root_ptr T = Some n \<Longrightarrow> rb_get rn_parent (Some n) t = Some (path_parent k)"
  by (cases T) (auto simp: focus_def)

lemma is_tree_color: "is_tree m fa T \<Longrightarrow> rb_mem t = m \<Longrightarrow> is_red (root_ptr T) t = Some (color_of T = Red)"
  by (cases T) (auto simp: is_red_def)

lemma is_red_above: "focus m0 t (Fr d c a s # k) T \<Longrightarrow> is_red (Some a) t = Some (c = Red)"
  by (drule focus_above) (simp add: is_red_def)

lemma sibling_neq: "focus m0 t (Fr d c a s # k) T \<Longrightarrow> root_ptr T = Some n \<Longrightarrow> root_ptr s \<noteq> Some n"
  by (cases T; cases s) (auto simp: focus_def)

lemma uncle_focus:
  assumes "focus m0 t (Fr d c a s # Fr e c' g u # k) T" and "root_ptr T = Some n"
  shows "uncle (Some n) t = Some (root_ptr u)" "is_red (root_ptr u) t = Some (color_of u = Red)"
proof -
  have f: "focus m0 t (Fr e c' g u # k) (mk d c T a s)" using assms(1) by (simp add: focus_up)
  have "root_ptr u \<noteq> Some a" using sibling_neq [OF f] by simp
  with assms focus_above [OF assms(1)] focus_above [OF f] focus_parent [OF assms]
  show "uncle (Some n) t = Some (root_ptr u)" by (cases e) (auto simp: uncle_def)
  show "is_red (root_ptr u) t = Some (color_of u = Red)"
    using f by (intro is_tree_color) (auto simp: focus_def)
qed

lemma rn_child_eq: "rn_child L = rn_left" "rn_child R = rn_right"
  by (simp_all add: rn_child_def fun_eq_iff)

lemma inner_focus:
  assumes "focus m0 t (Fr d c a s # Fr e c' g u # k) T" and "root_ptr T = Some n"
  shows "inner_grandchild d' (Some n) (Some a) (Some g) t = Some (d = d' \<and> e = opp d')"
proof -
  have f: "focus m0 t (Fr e c' g u # k) (mk d c T a s)" using assms(1) by (simp add: focus_up)
  have "root_ptr u \<noteq> Some a" "root_ptr s \<noteq> Some n" using sibling_neq [OF f] sibling_neq [OF assms] by auto
  with assms(2) focus_above [OF assms(1)] focus_above [OF f]
  show ?thesis by (cases d; cases e; cases d') (auto simp: inner_grandchild_def rn_child_def)
qed

text \<open>The last part of a rotating turn, with the new leaf on the outer side.\<close>

lemma outer_rotation:
  assumes f: "focus m0 t (Fr e ca a s # Fr e c' g u # k) T" and n: "root_ptr T = Some n"
  obtains t' where
    "do { t \<leftarrow> rb_set (rn_color_update (\<lambda>_. Black)) (Some a) t;
          t \<leftarrow> rb_set (rn_color_update (\<lambda>_. Red)) (Some g) t;
          l \<leftarrow> rb_get rn_left (Some a) t;
          t \<leftarrow> (if Some n = l then rotate_right (Some g) t else rotate_left (Some g) t);
          Some (Some n, t) } = Some (Some n, t')"
    "focus m0 t' k (mk e Black T a (mk e Red s g u))"
proof -
  obtain t1 where t1: "rb_set (rn_color_update (\<lambda>_. Black)) (Some a) t = Some t1"
    "focus m0 t1 (Fr e Black a s # Fr e c' g u # k) T" by (rule set_color_above [OF f])
  have "focus m0 t1 (Fr e c' g u # k) (mk e Black T a s)" using t1(2) by (simp add: focus_up)
  then obtain t2 where t2: "rb_set (rn_color_update (\<lambda>_. Red)) (Some g) t1 = Some t2"
    "focus m0 t2 (Fr e Red g u # k) (mk e Black T a s)" by (rule set_color_above)
  have f2: "focus m0 t2 (Fr e Black a s # Fr e Red g u # k) T" using t2(2) by (simp add: focus_up)
  have l: "rb_get rn_left (Some a) t2 = Some l \<Longrightarrow> Some n = l \<longleftrightarrow> e = L" for l
    using focus_above [OF f2] sibling_neq [OF f2 n] n by (cases e) auto
  have "focus m0 t2 k (mk (opp e) Red u g (mk (opp e) Black s a T))" using f2 by (simp add: focus_up)
  then obtain t3 where t3: "rotate_dir (opp e) (Some g) t2 = Some t3"
    "focus m0 t3 k (mk (opp e) Black (mk (opp e) Red u g s) a T)" by (rule rotate_dir_focus)
  have "\<exists>l. rb_get rn_left (Some a) t2 = Some l" using focus_above [OF f2] by auto
  with l t1(1) t2(1) t3 show thesis by (intro that [of t3]) (cases e; auto simp: rotate_dir_def)+
qed

lemma insert_rotate_focus:
  assumes f: "focus m0 t (Fr d Red a s # Fr e c' g u # k) T" and n: "root_ptr T = Some n"
  obtains n' t' where "insert_rotate (Some n) (Some a) t = Some (Some n', t')"
    "focus m0 t' k (insert_rotated d e T a s g u)" "rb_get rn_parent (Some n') t' \<noteq> None"
    "is_red (the (rb_get rn_parent (Some n') t')) t' = Some False"
proof -
  have up: "focus m0 t (Fr e c' g u # k) (mk d Red T a s)" using f by (simp add: focus_up)
  have gf: "rb_get rn_parent (Some a) t = Some (Some g)" using focus_parent [OF up, of a] by simp
  note inner = inner_focus [OF f n]
  have fin: "rb_get rn_parent (Some n') t' \<noteq> None \<and> is_red (the (rb_get rn_parent (Some n') t')) t' = Some False"
    if "focus m0 t' k (mk e Black T' a' s')" "root_ptr T' = Some n'" for t' n' T' a' s'
  proof -
    have "focus m0 t' (Fr e Black a' s' # k) T'" using that(1) by (simp add: focus_up)
    from focus_parent [OF this that(2)] is_red_above [OF this] show ?thesis by simp
  qed
  show thesis
  proof (cases "d = e")
    case True
    have ne: "\<not> (d = R \<and> e = opp R)" "\<not> (d = L \<and> e = opp L)" using True by auto
    obtain t' where t': "do { t \<leftarrow> rb_set (rn_color_update (\<lambda>_. Black)) (Some a) t;
          t \<leftarrow> rb_set (rn_color_update (\<lambda>_. Red)) (Some g) t;
          l \<leftarrow> rb_get rn_left (Some a) t;
          t \<leftarrow> (if Some n = l then rotate_right (Some g) t else rotate_left (Some g) t);
          Some (Some n, t) } = Some (Some n, t')" "focus m0 t' k (mk e Black T a (mk e Red s g u))"
      by (rule outer_rotation [OF f [unfolded True] n])
    have "insert_rotate (Some n) (Some a) t = Some (Some n, t')"
      unfolding insert_rotate_def gf inner bind.bind_lunit if_not_P [OF ne(1)] if_not_P [OF ne(2)] using t'(1) by simp
    with t'(2) fin [OF t'(2) n] True show thesis by (intro that [of n t']) (auto simp: insert_rotated_def)
  next
    case False
    then have d: "d = opp e" by (cases d; cases e) auto
    let ?x = "child_of d T" and ?y = "child_of e T"
    have T: "T = mk e (color_of T) ?y n ?x" using mk_cases [OF n, of e] d by simp
    have "focus m0 t (Fr e c' g u # k) (mk e Red s a (mk e (color_of T) ?y n ?x))"
      using up T d by simp
    then obtain t1 where t1: "rotate_dir e (Some a) t = Some t1"
      "focus m0 t1 (Fr e c' g u # k) (mk e (color_of T) (mk e Red s a ?y) n ?x)" by (rule rotate_dir_focus)
    have f1: "focus m0 t1 (Fr e (color_of T) n ?x # Fr e c' g u # k) (mk e Red s a ?y)" using t1(2) by (simp add: focus_up)
    have get: "rb_get (rn_child e) (Some n) t1 = Some (Some a)" "rb_get rn_parent (Some a) t1 = Some (Some n)"
      "rb_get rn_parent (Some n) t1 = Some (Some g)"
      using focus_here [OF t1(2)] focus_parent [OF f1, of a] by simp_all
    obtain t2 where t2: "do { t \<leftarrow> rb_set (rn_color_update (\<lambda>_. Black)) (Some n) t1;
          t \<leftarrow> rb_set (rn_color_update (\<lambda>_. Red)) (Some g) t;
          l \<leftarrow> rb_get rn_left (Some n) t;
          t \<leftarrow> (if Some a = l then rotate_right (Some g) t else rotate_left (Some g) t);
          Some (Some a, t) } = Some (Some a, t2)" "focus m0 t2 k (mk e Black (mk e Red s a ?y) n (mk e Red ?x g u))"
      by (rule outer_rotation [OF f1]) simp
    have "insert_rotate (Some n) (Some a) t = Some (Some a, t2)"
      using t1(1) t2(1) get d unfolding insert_rotate_def gf inner bind.bind_lunit
      by (cases e) (simp_all add: rotate_dir_def rn_child_eq)
    moreover have "insert_rotated d e T a s g u = mk e Black (mk e Red s a ?y) n (mk e Red ?x g u)"
      using False n by (cases T) (auto simp: insert_rotated_def)
    ultimately show thesis using t2(2) fin [OF t2(2)] by (intro that [of a t2]) auto
  qed
qed

lemma insert_loop_stop:
  "focus m0 t (Fr d Black a s # k) T \<Longrightarrow> root_ptr T = Some n \<Longrightarrow> insert_loop (Some n) t = Some t"
  using focus_parent [of m0 t "Fr d Black a s # k" T n] is_red_above [of m0 t d Black a s k T]
  by (subst insert_loop.simps) simp

lemma insert_loop_focus:
  "focus m0 t k T \<Longrightarrow> root_ptr T = Some n \<Longrightarrow> black_top k \<Longrightarrow>
   \<exists>t'. insert_loop (Some n) t = Some t' \<and> rb_is m0 t' (fixup k T)"
proof (induction k T arbitrary: t n rule: fixup.induct)
  case (1 T)
  then have "insert_loop (Some n) t = Some t"
    using focus_parent [of m0 t "[]" T n] by (subst insert_loop.simps) (simp add: is_red_def)
  with 1 show ?case by simp
next
  case (2 f T)
  obtain d a s where f: "f = Fr d Black a s" using 2(3) by (cases f) (auto simp: black_top_def)
  have "rb_is m0 t (plug [f] T)" using 2(1) by (simp only: focus_plug [symmetric])
  with insert_loop_stop [of m0 t d a s "[]" T n] 2 f show ?case by simp
next
  case (3 d c a s e c' g u k T)
  note foc = 3(2) and n = 3(3)
  show ?case
  proof (cases "c = Black")
    case True
    have "rb_is m0 t (plug (Fr d c a s # Fr e c' g u # k) T)" using foc by (simp only: focus_plug [symmetric])
    with insert_loop_stop [of m0 t d a s _ T n] foc n True show ?thesis by auto
  next
    case False
    then have c: "c = Red" by (cases c) auto
    have par: "rb_get rn_parent (Some n) t = Some (Some a)" using focus_parent [OF foc n] by simp
    have red: "is_red (Some a) t = Some True" using is_red_above [OF foc] c by simp
    note unc = uncle_focus [OF foc n]
    show ?thesis
    proof (cases "color_of u")
      case Red
      then obtain ul x ur where u: "u = mk L Red ul x ur" by (cases u) auto
      obtain t1 where t1: "rb_set (rn_color_update (\<lambda>_. Black)) (Some a) t = Some t1"
        "focus m0 t1 (Fr d Black a s # Fr e c' g u # k) T" by (rule set_color_above [OF foc])
      have f1: "focus m0 t1 (Fr e c' g (mk L Red ul x ur) # k) (mk d Black T a s)" using t1(2) u by (simp add: focus_up)
      obtain t2 where t2: "rb_set (rn_color_update (\<lambda>_. Black)) (Some x) t1 = Some t2"
        "focus m0 t2 (Fr e c' g (mk L Black ul x ur) # k) (mk d Black T a s)" by (rule set_color_sibling [OF f1])
      obtain t3 where t3: "rb_set (rn_color_update (\<lambda>_. Red)) (Some g) t2 = Some t3"
        "focus m0 t3 (Fr e Red g (mk L Black ul x ur) # k) (mk d Black T a s)" by (rule set_color_above [OF t2(2)])
      have gf: "rb_get rn_parent (Some a) t2 = Some (Some g)" using focus_parent [OF t2(2), of a] by simp
      have "focus m0 t3 k (mk e Red (mk d Black T a s) g (paint Black u))" using t3(2) u by (simp add: focus_up)
      moreover have "black_top k" using 3(4) by (cases k) (auto simp: black_top_def)
      ultimately obtain t' where t': "insert_loop (Some g) t3 = Some t'"
        "rb_is m0 t' (fixup k (mk e Red (mk d Black T a s) g (paint Black u)))"
        using 3(1) [OF False Red] by auto
      have "insert_loop (Some n) t = insert_loop (Some g) t3"
        using par red unc t1(1) t2(1) t3(1) gf u by (subst insert_loop.simps) simp
      with t' c Red show ?thesis by simp
    next
      case Black
      obtain n' t1 where t1: "insert_rotate (Some n) (Some a) t = Some (Some n', t1)"
        "focus m0 t1 k (insert_rotated d e T a s g u)" "rb_get rn_parent (Some n') t1 \<noteq> None"
        "is_red (the (rb_get rn_parent (Some n') t1)) t1 = Some False"
        by (rule insert_rotate_focus [OF foc [unfolded c] n])
      have "insert_loop (Some n') t1 = Some t1" using t1(3,4) by (subst insert_loop.simps) auto
      then have "insert_loop (Some n) t = Some t1"
        using par red unc t1(1) Black by (subst insert_loop.simps) simp
      moreover have "rb_is m0 t1 (plug k (insert_rotated d e T a s g u))" using t1(2) by (simp only: focus_plug [symmetric])
      ultimately show ?thesis using c Black by auto
    qed
  qed
qed

lemma paint_mk [simp]: "paint c (mk d c' x a y) = mk d c x a y"
  by (cases d) auto

lemma insert_case_focus:
  assumes "focus m0 t k T" and "root_ptr T = Some n" and "black_top k" and "fixup k T \<noteq> Leaf"
  obtains t' where "rb_tree_insert_case (Some n) t = Some t'" "rb_is m0 t' (paint Black (fixup k T))"
proof -
  obtain t1 where t1: "insert_loop (Some n) t = Some t1" "rb_is m0 t1 (fixup k T)"
    using insert_loop_focus [OF assms(1-3)] by blast
  obtain c l a r where T: "fixup k T = mk L c l a r" using assms(4) by (cases "fixup k T") auto
  have root: "rb_root t1 = Some a" using focus_root [OF t1(2)] T by simp
  obtain t' where "rb_set (rn_color_update (\<lambda>_. Black)) (Some a) t1 = Some t'" "rb_is m0 t' (mk L Black l a r)"
    by (rule set_color_focus [OF t1(2) [unfolded T]])
  with t1(1) root T show thesis by (intro that [of t']) (simp_all add: rb_tree_insert_case_def)
qed

subsection \<open>Order\<close>

fun before :: "path \<Rightarrow> addr list" where
  "before [] = []"
| "before (Fr L c a s # k) = before k"
| "before (Fr R c a s # k) = before k @ addrs s @ [a]"

fun after :: "path \<Rightarrow> addr list" where
  "after [] = []"
| "after (Fr L c a s # k) = a # addrs s @ after k"
| "after (Fr R c a s # k) = after k"

lemma addrs_plug: "addrs (plug k T) = before k @ addrs T @ after k"
  by (induction k arbitrary: T rule: before.induct) auto

lemma insert_rotated_addrs:
  "T \<noteq> Leaf \<Longrightarrow> addrs (insert_rotated d e T a s g u) = addrs (mk e c' (mk d c T a s) g u)"
  by (cases T; cases d; cases e) (auto simp: insert_rotated_def)

lemma paint_addrs [simp]: "addrs (paint c T) = addrs T"
  by (cases T) auto

lemma fixup_addrs: "T \<noteq> Leaf \<Longrightarrow> addrs (fixup k T) = addrs (plug k T)"
proof (induction k T rule: fixup.induct)
  case (3 d c a s e c' g u k T)
  have "mk e Red (mk d Black T a s) g (paint Black u) \<noteq> Leaf" by (cases e) auto
  moreover have "addrs (mk e Red (mk d Black T a s) g (paint Black u)) = addrs (mk e c' (mk d c T a s) g u)"
    by (cases d; cases e) auto
  ultimately show ?case
    using 3 insert_rotated_addrs [of T d e a s g u c' c] by (auto simp: addrs_plug)
qed auto

lemma fixup_node: "T \<noteq> Leaf \<Longrightarrow> fixup k T \<noteq> Leaf"
  using fixup_addrs [of T k] by (cases T) (auto simp: addrs_plug)

text \<open>The place of a new key in an ordered list: behind every key that is not greater.\<close>

fun ins_after :: "(addr \<Rightarrow> 'k::linorder) \<Rightarrow> addr \<Rightarrow> addr list \<Rightarrow> addr list" where
  "ins_after key n [] = [n]"
| "ins_after key n (x # xs) = (if key n < key x then n # x # xs else x # ins_after key n xs)"

lemma set_ins_after [simp]: "set (ins_after key n xs) = insert n (set xs)"
  by (induction xs) auto

lemma sorted_ins_after: "sorted (map key xs) \<Longrightarrow> sorted (map key (ins_after key n xs))"
  by (induction xs) auto

lemma ins_after_append:
  "(\<forall>x\<in>set xs. \<not> key n < key x) \<Longrightarrow> ins_after key n (xs @ ys) = xs @ ins_after key n ys"
  by (induction xs) auto

lemma ins_after_front:
  "(\<forall>x\<in>set ys. key n < key x) \<Longrightarrow> ins_after key n (xs @ ys) = ins_after key n xs @ ys"
  by (induction xs) (auto, cases ys, auto)

lemma walk_addrs:
  assumes "sorted (map key (addrs T))"
  shows "addrs (plug (walk (\<lambda>a. key n < key a) k T) (Node Red Leaf n Leaf)) = before k @ ins_after key n (addrs T) @ after k"
  using assms
proof (induction T arbitrary: k)
  case Leaf
  then show ?case by (simp add: addrs_plug)
next
  case (Node c l a r)
  have s: "sorted (map key (addrs l))" "sorted (map key (addrs r))" "\<forall>x\<in>set (addrs l). key x \<le> key a"
    "\<forall>x\<in>set (addrs r). key a \<le> key x" using Node.prems by (auto simp: sorted_append)
  show ?case
  proof (cases "key n < key a")
    case True
    then have "ins_after key n (addrs l @ a # addrs r) = ins_after key n (addrs l) @ a # addrs r"
      using s(4) by (intro ins_after_front) auto
    with True Node.IH(1) [OF s(1)] show ?thesis by simp
  next
    case False
    then have "ins_after key n ((addrs l @ [a]) @ addrs r) = (addrs l @ [a]) @ ins_after key n (addrs r)"
      using s(3) by (intro ins_after_append) auto
    with False Node.IH(2) [OF s(2)] show ?thesis by simp
  qed
qed

subsection \<open>Balance\<close>

fun bh :: "rbt \<Rightarrow> nat" where
  "bh Leaf = 0"
| "bh (Node c l a r) = bh l + (if c = Black then 1 else 0)"

fun invh :: "rbt \<Rightarrow> bool" where
  "invh Leaf \<longleftrightarrow> True"
| "invh (Node c l a r) \<longleftrightarrow> invh l \<and> invh r \<and> bh l = bh r"

fun invc :: "rbt \<Rightarrow> bool" where
  "invc Leaf \<longleftrightarrow> True"
| "invc (Node c l a r) \<longleftrightarrow> invc l \<and> invc r \<and> (c = Red \<longrightarrow> color_of l = Black \<and> color_of r = Black)"

definition rb_valid :: "rbt \<Rightarrow> bool" where
  "rb_valid T \<longleftrightarrow> invc T \<and> invh T \<and> color_of T = Black"

fun path_inv :: "path \<Rightarrow> color \<Rightarrow> nat \<Rightarrow> bool" where
  "path_inv [] c h \<longleftrightarrow> True"
| "path_inv (Fr d c' a s # k) c h \<longleftrightarrow> invc s \<and> invh s \<and> bh s = h
     \<and> (c' = Red \<longrightarrow> c = Black \<and> color_of s = Black) \<and> path_inv k c' (h + (if c' = Black then 1 else 0))"

lemma inv_mk [simp]:
  "invh (mk d c x a y) \<longleftrightarrow> invh x \<and> invh y \<and> bh x = bh y"
  "invc (mk d c x a y) \<longleftrightarrow> invc x \<and> invc y \<and> (c = Red \<longrightarrow> color_of x = Black \<and> color_of y = Black)"
  by (cases d; auto)+

lemma bh_mk [simp]: "bh x = bh y \<Longrightarrow> bh (mk d c x a y) = bh x + (if c = Black then 1 else 0)"
  by (cases d) auto

lemma plug_inv:
  "invc (plug k T) \<and> invh (plug k T) \<longleftrightarrow> invc T \<and> invh T \<and> path_inv k (color_of T) (bh T)"
proof (induction k T rule: plug.induct)
  case (2 d c a s k T)
  then show ?case by (cases "bh T = bh s") auto
qed simp

lemma plug_color: "color_of (plug k T) = (if k = [] then color_of T else frame_color (last k))"
  by (induction k T rule: plug.induct) auto

lemma path_inv_black: "path_inv k c h \<Longrightarrow> path_inv k Black h"
  by (cases k rule: before.cases) auto

lemma path_inv_red: "path_inv k Black h \<Longrightarrow> (k \<noteq> [] \<Longrightarrow> frame_color (hd k) = Black) \<Longrightarrow> path_inv k c h"
  by (cases k rule: before.cases) auto

lemma invc_paint: "invc T \<Longrightarrow> invc (paint Black T)"
  by (cases T) auto

lemma invh_paint [simp]: "invh (paint c T) \<longleftrightarrow> invh T"
  by (cases T) auto

lemma paint_black [simp]: "color_of (paint Black T) = Black"
  by (cases T) auto

lemma red_node: "color_of T = Red \<Longrightarrow> \<exists>l a r. T = Node Red l a r"
  by (cases T) auto

lemma fixup_inv:
  "path_inv k Black (bh T) \<Longrightarrow> invc T \<Longrightarrow> invh T \<Longrightarrow> color_of T = Red \<Longrightarrow> black_top k \<Longrightarrow>
   invh (fixup k T) \<and> invc (paint Black (fixup k T))"
proof (induction k T rule: fixup.induct)
  case (1 T)
  then show ?case by (simp add: invc_paint)
next
  case (2 f T)
  obtain d a s where f: "f = Fr d Black a s" using 2(5) by (cases f) (auto simp: black_top_def)
  with 2 show ?case by (auto simp: black_top_def)
next
  case (3 d c a s e c' g u k T)
  show ?case
  proof (cases "c = Black")
    case True
    have "path_inv (Fr d c a s # Fr e c' g u # k) (color_of T) (bh T)"
      by (rule path_inv_red [OF 3(2)]) (use True in simp)
    then show ?thesis using True 3(3,4) plug_inv [of "Fr d c a s # Fr e c' g u # k" T]
      by (simp add: invc_paint)
  next
    case False
    then have c: "c = Red" by (cases c) auto
    have c': "c' = Black" using 3(2) c by (cases c') auto
    have inv: "invc s" "invh s" "bh s = bh T" "color_of s = Black" "invc u" "invh u" "bh u = bh T"
      "path_inv k Black (bh T + 1)" using 3(2) c c' by auto
    show ?thesis
    proof (cases "color_of u")
      case Red
      then obtain ul x ur where u: "u = Node Red ul x ur" using red_node by blast
      have "black_top k" using 3(6) by (cases k) (auto simp: black_top_def)
      let ?N = "mk e Red (mk d Black T a s) g (paint Black u)"
      have "bh ?N = bh T + 1" "color_of ?N = Red" "invc ?N" "invh ?N" using inv u 3(3,4) by auto
      with 3(1) [OF False Red] inv(8) \<open>black_top k\<close> c Red show ?thesis by simp
    next
      case Black
      obtain l n r where T: "T = Node Red l n r" using red_node [OF 3(5)] by blast
      let ?N = "insert_rotated d e T a s g u"
      have T': "invc l" "invc r" "invh l" "invh r" "color_of l = Black" "color_of r = Black" "bh l = bh T" "bh r = bh T"
        using 3(3,4) T by auto
      have ch: "child_of L T = l" "child_of R T = r" "label_of T = n" using T by simp_all
      have "invc ?N \<and> invh ?N \<and> bh ?N = bh T + 1 \<and> color_of ?N = Black"
      proof (cases "d = e")
        case True
        show ?thesis using inv(1-7) Black 3(3,4) True by (simp add: insert_rotated_def)
      next
        case False
        show ?thesis using inv(1-7) Black T' False by (cases d; cases e) (simp_all add: insert_rotated_def ch)
      qed
      with plug_inv [of k ?N] inv(8) c Black show ?thesis by (simp add: invc_paint)
    qed
  qed
qed

lemma walk_path:
  "path_inv k (color_of T) (bh T) \<Longrightarrow> invc T \<Longrightarrow> invh T \<Longrightarrow> path_inv (walk g k T) Black 0"
proof (induction T arbitrary: k)
  case (Node c l a r)
  then show ?case by (cases "color_of l"; cases "color_of r") auto
qed simp

lemma walk_black_top: "black_top k \<Longrightarrow> (k = [] \<Longrightarrow> color_of T = Black) \<Longrightarrow> black_top (walk g k T)"
proof (induction T arbitrary: k)
  case (Node c l a r)
  have "black_top (Fr d c a s # k)" for d s using Node.prems by (cases k) (auto simp: black_top_def)
  then show ?case by (cases "g a") (auto intro!: Node.IH)
qed simp

text \<open>Insertion and rebalancing together, as \<open>asthread_th_add_to_pool\<close> runs them.\<close>

lemma rb_insert_correct:
  assumes "rb_is m0 t T" and "rb_valid T" and "sorted (map key (addrs T))"
    and "n \<notin> set (addrs T)" and "rb_mem t n \<noteq> None"
  obtains t1 t2 T' where "rb_tree_insert (\<lambda>x a. key x < key a) n t = Some t1"
    "rb_tree_insert_case (Some n) t1 = Some t2" "rb_is m0 t2 T'" "rb_valid T'"
    "addrs T' = ins_after key n (addrs T)"
proof -
  let ?k = "walk (\<lambda>a. key n < key a) [] T" and ?N = "Node Red Leaf n Leaf"
  obtain t1 where t1: "insert_at_link (\<lambda>a. key n < key a) (Some n) t = Some t1" "focus m0 t1 ?k ?N"
    by (rule insert_at_link_focus [OF assms(1,4,5)])
  have top: "black_top ?k" using assms(2) by (intro walk_black_top) (auto simp: black_top_def rb_valid_def)
  have node: "fixup ?k ?N \<noteq> Leaf" by (rule fixup_node) simp
  obtain t2 where t2: "rb_tree_insert_case (Some n) t1 = Some t2" "rb_is m0 t2 (paint Black (fixup ?k ?N))"
    by (rule insert_case_focus [OF t1(2) _ top node, of n]) simp
  have "path_inv ?k Black (bh ?N)" using walk_path [of "[]" T] assms(2) by (simp add: rb_valid_def)
  then have "rb_valid (paint Black (fixup ?k ?N))"
    using fixup_inv [of ?k ?N] top by (simp add: rb_valid_def)
  moreover have "addrs (paint Black (fixup ?k ?N)) = ins_after key n (addrs T)"
    using fixup_addrs [of ?N ?k] walk_addrs [OF assms(3), of n "[]"] by simp
  ultimately show thesis using t1(1) t2 
    by (intro that [of t1 t2 "paint Black (fixup ?k ?N)"]) (simp_all add: rb_tree_insert_def)
qed

subsection \<open>The property, and a tree to see it on\<close>

text \<open>Nodes 1 and 2, the second one red, and a node 3 that is not in the tree yet.\<close>

definition small_tree :: rb_tree where
  "small_tree = \<lparr>rb_mem = [1 \<mapsto> node_of None L Black None (Some 2), 2 \<mapsto> node_of (Some 1) L Red None None,
     3 \<mapsto> node_of None L Red None None], rb_root = Some 1\<rparr>"

lemma small_tree_is: "rb_is (rb_mem small_tree) small_tree (Node Black Leaf 1 (Node Red Leaf 2 Leaf))"
  by (simp add: small_tree_def focus_def)

text \<open>C1: inserting a node (\<open>rb_tree_insert\<close>, then \<open>rb_tree_insert_case\<close>) into a red-black tree
  ordered by a key ends without an undefined access, gives a valid red-black tree again, puts the
  node into the order behind every node with an equal key, and changes no node outside the tree.\<close>

theorem rb_insert_keeps:
  assumes "rb_is m0 t T" and "rb_valid T" and "sorted (map key (addrs T))"
    and "n \<notin> set (addrs T)" and "rb_mem t n \<noteq> None"
  shows "\<exists>t1 t2 T'. rb_tree_insert (\<lambda>x a. key x < key a) n t = Some t1
    \<and> rb_tree_insert_case (Some n) t1 = Some t2 \<and> rb_is m0 t2 T' \<and> rb_valid T'
    \<and> addrs T' = ins_after key n (addrs T) \<and> sorted (map key (addrs T'))"
  by (rule rb_insert_correct [OF assms]) (auto simp: sorted_ins_after [OF assms(3)])

theorem rb_insert_keeps_witness:
  "\<exists>t1 t2 T'. rb_tree_insert (\<lambda>x a. x < a) 3 small_tree = Some t1
    \<and> rb_tree_insert_case (Some 3) t1 = Some t2 \<and> rb_is (rb_mem small_tree) t2 T' \<and> rb_valid T'
    \<and> addrs T' = [1, 2, 3] \<and> sorted (map id (addrs T'))"
  using rb_insert_keeps [OF small_tree_is, of id 3] by (simp add: rb_valid_def small_tree_def)

end
