(* ===== verification/Rb_Delete.thy ===== *)
theory Rb_Delete
  imports Rb_Insert
begin

text \<open>
  Deletion from the red-black tree: the four cases of the rebalancing loop, the removal of
  a node with at most one child, and the exchange with the successor otherwise.
\<close>

subsection \<open>The rebalancing loop on trees\<close>

definition both_black :: "rbt \<Rightarrow> bool" where
  "both_black s \<longleftrightarrow> color_of (child_of L s) = Black \<and> color_of (child_of R s) = Black"

text \<open>Cases 3 and 4: \<open>T\<close> hangs at side \<open>d\<close> of \<open>a\<close>, of colour \<open>c\<close>; \<open>s\<close> is the sibling.\<close>

definition delete_rotated :: "side \<Rightarrow> color \<Rightarrow> addr \<Rightarrow> rbt \<Rightarrow> rbt \<Rightarrow> rbt" where
  "delete_rotated d c a s T =
     (let sl = child_of d s; sr = child_of (opp d) s
      in if color_of sr = Black
         then mk d c (mk d Black T a (child_of d sl)) (label_of sl) (mk d Black (child_of (opp d) sl) (label_of s) sr)
         else mk d c (mk d Black T a sl) (label_of s) (paint Black sr))"

fun del_fix :: "path \<Rightarrow> rbt \<Rightarrow> rbt" where
  "del_fix [] T = paint Black T"
| "del_fix (Fr d c a s # k) T =
     (if color_of T = Red then plug (Fr d c a s # k) (paint Black T)
      else if color_of s = Red then
        (let sl = child_of d s; k' = Fr d Black (label_of s) (child_of (opp d) s) # k
         in if both_black sl then plug k' (mk d Black T a (paint Red sl))
            else paint Black (plug k' (delete_rotated d Red a sl T)))
      else if both_black s then del_fix k (mk d c T a (paint Red s))
      else paint Black (plug k (delete_rotated d c a s T)))"

lemma is_null_or_black_tree:
  "is_tree (rb_mem t) fa T \<Longrightarrow> is_null_or_black (root_ptr T) t = Some (color_of T = Black)"
  by (cases T) (auto simp: is_null_or_black_def)

lemma plug_root: "k \<noteq> [] \<Longrightarrow> \<exists>b\<in>set (path_addrs k). root_ptr (plug k T) = Some b"
proof (induction k T rule: plug.induct)
  case (2 d c a s k T)
  then show ?case by (cases "k = []") auto
qed simp

lemma root_above:
  assumes "focus m0 t (Fr d c a s # k) T"
  shows "root_ptr T \<noteq> rb_root t"
proof -
  let ?k = "Fr d c a s # k"
  have "rb_root t = root_ptr (plug ?k T)" by (rule focus_root [OF focus_plug [THEN iffD1, OF assms]])
  moreover have "?k \<noteq> []" by simp
  from plug_root [OF this, of T] obtain b where "b \<in> set (path_addrs ?k)" "root_ptr (plug ?k T) = Some b" ..
  moreover from this(1) assms have "root_ptr T \<noteq> Some b" by (cases T) (auto simp: focus_def)
  ultimately show ?thesis by (simp only: not_False_eq_True)
qed

text \<open>Case 1: a red sibling is rotated up; its near child becomes the sibling.\<close>

lemma delete_case1_focus:
  assumes "focus m0 t (Fr d c a (mk d cs sl b sr) # k) T"
  obtains t' where "delete_case1 d (Some a) (Some b) t = Some (root_ptr sl, t')"
    "focus m0 t' (Fr d Red a sl # Fr d Black b sr # k) T"
proof -
  obtain t1 where t1: "rb_set (rn_color_update (\<lambda>_. Black)) (Some b) t = Some t1"
    "focus m0 t1 (Fr d c a (mk d Black sl b sr) # k) T" by (rule set_color_sibling [OF assms])
  obtain t2 where t2: "rb_set (rn_color_update (\<lambda>_. Red)) (Some a) t1 = Some t2"
    "focus m0 t2 (Fr d Red a (mk d Black sl b sr) # k) T" by (rule set_color_above [OF t1(2)])
  have "focus m0 t2 k (mk d Red T a (mk d Black sl b sr))" using t2(2) by (simp add: focus_up)
  then obtain t3 where t3: "rotate_dir d (Some a) t2 = Some t3" "focus m0 t3 k (mk d Black (mk d Red T a sl) b sr)"
    by (rule rotate_dir_focus)
  have f3: "focus m0 t3 (Fr d Red a sl # Fr d Black b sr # k) T" using t3(2) by (simp add: focus_up)
  with focus_above [OF f3] t1(1) t2(1) t3(1) show thesis
    by (intro that [of t3]) (simp_all add: delete_case1_def)
qed

lemma delete_case2_focus:
  assumes "focus m0 t (Fr d c a (mk e cs sl b sr) # k) T"
  obtains t' where "delete_case2 (Some a) (Some b) t = Some (Some a, path_parent k, t')"
    "focus m0 t' k (mk d c T a (mk e Red sl b sr))"
proof -
  obtain t1 where t1: "rb_set (rn_color_update (\<lambda>_. Red)) (Some b) t = Some t1"
    "focus m0 t1 (Fr d c a (mk e Red sl b sr) # k) T" by (rule set_color_sibling [OF assms])
  with focus_above [OF t1(2)] show thesis
    by (intro that [of t1]) (simp_all add: delete_case2_def focus_up)
qed

lemma delete_case3_focus:
  assumes "focus m0 t (Fr d c a (mk d cs (mk d cx p x q) b sr) # k) T"
  obtains t' where "delete_case3 d (Some a) (Some b) t = Some (Some x, t')"
    "focus m0 t' (Fr d c a (mk d Black p x (mk d Red q b sr)) # k) T"
proof -
  have f: "focus m0 t (Fr d cs b sr # Fr (opp d) c a T # k) (mk d cx p x q)" using assms by (simp add: focus_up)
  obtain t1 where t1: "rb_set (rn_color_update (\<lambda>_. Black)) (Some x) t = Some t1"
    "focus m0 t1 (Fr d cs b sr # Fr (opp d) c a T # k) (mk d Black p x q)" by (rule set_color_focus [OF f])
  obtain t2 where t2: "rb_set (rn_color_update (\<lambda>_. Red)) (Some b) t1 = Some t2"
    "focus m0 t2 (Fr d Red b sr # Fr (opp d) c a T # k) (mk d Black p x q)" by (rule set_color_above [OF t1(2)])
  have "focus m0 t2 (Fr (opp d) c a T # k) (mk (opp d) Red sr b (mk (opp d) Black q x p))"
    using t2(2) by (simp add: focus_up)
  then obtain t3 where t3: "rotate_dir (opp d) (Some b) t2 = Some t3"
    "focus m0 t3 (Fr (opp d) c a T # k) (mk (opp d) Black (mk (opp d) Red sr b q) x p)" by (rule rotate_dir_focus)
  have f3: "focus m0 t3 (Fr d c a (mk d Black p x (mk d Red q b sr)) # k) T" using t3(2) by (simp add: focus_up)
  have "rb_get (rn_child d) (Some b) t = Some (Some x)" using focus_above [OF f] by simp
  with focus_above [OF f3] f3 t1(1) t2(1) t3(1) show thesis
    by (intro that [of t3]) (simp_all add: delete_case3_def)
qed

lemma delete_case4_focus:
  assumes "focus m0 t (Fr d c a (mk d cs sl b sr) # k) T"
  obtains t' where "delete_case4 d (Some a) (Some b) t = Some (rb_root t', t')"
    "focus m0 t' k (mk d c (mk d Black T a sl) b (paint Black sr))"
proof -
  have ca: "rb_get rn_color (Some a) t = Some c" using focus_above [OF assms] by simp
  obtain t1 where t1: "rb_set (rn_color_update (\<lambda>_. c)) (Some b) t = Some t1"
    "focus m0 t1 (Fr d c a (mk d c sl b sr) # k) T" by (rule set_color_sibling [OF assms])
  obtain t2 where t2: "rb_set (rn_color_update (\<lambda>_. Black)) (Some a) t1 = Some t2"
    "focus m0 t2 (Fr d Black a (mk d c sl b sr) # k) T" by (rule set_color_above [OF t1(2)])
  have f2: "focus m0 t2 (Fr (opp d) Black a T # k) (mk d c sl b sr)" using t2(2) by (simp add: focus_up)
  have far: "rb_get (rn_child (opp d)) (Some b) t2 = Some (root_ptr sr)" using focus_here [OF f2] by simp
  have "\<exists>t3. (if root_ptr sr \<noteq> None then rb_set (rn_color_update (\<lambda>_. Black)) (root_ptr sr) t2 else Some t2) = Some t3
    \<and> focus m0 t3 (Fr d Black a (mk d c sl b (paint Black sr)) # k) T"
  proof (cases sr)
    case Leaf
    with t2(2) show ?thesis by simp
  next
    case (Node cr p x q)
    then have "focus m0 t2 (Fr (opp d) c b sl # Fr (opp d) Black a T # k) (mk L cr p x q)"
      using f2 by (simp add: focus_up)
    then obtain t3 where "rb_set (rn_color_update (\<lambda>_. Black)) (Some x) t2 = Some t3"
      "focus m0 t3 (Fr (opp d) c b sl # Fr (opp d) Black a T # k) (mk L Black p x q)" by (rule set_color_focus)
    with Node show ?thesis by (auto simp: focus_up)
  qed
  then obtain t3 where t3: "(if root_ptr sr \<noteq> None then rb_set (rn_color_update (\<lambda>_. Black)) (root_ptr sr) t2 else Some t2) = Some t3"
    "focus m0 t3 (Fr d Black a (mk d c sl b (paint Black sr)) # k) T" by blast
  have "focus m0 t3 k (mk d Black T a (mk d c sl b (paint Black sr)))" using t3(2) by (simp add: focus_up)
  then obtain t4 where t4: "rotate_dir d (Some a) t3 = Some t4"
    "focus m0 t4 k (mk d c (mk d Black T a sl) b (paint Black sr))" by (rule rotate_dir_focus)
  with ca t1(1) t2(1) far t3(1) show thesis
    by (intro that [of t4]) (simp_all add: delete_case4_def)
qed

text \<open>
  A turn with a black sibling: either the double black moves up, or the tree is done. The
  last two components of the result are not used after a \<open>break\<close>.
\<close>

lemma delete_rest_focus:
  assumes foc: "focus m0 t (Fr d c a s # k) T" and s: "root_ptr s = Some b"
  shows "both_black s \<Longrightarrow> \<exists>t'. delete_rest d (Some a) (Some b) t = Some (False, Some a, path_parent k, t')
      \<and> focus m0 t' k (mk d c T a (paint Red s))"
    and "\<not> both_black s \<Longrightarrow> \<exists>fa t'. delete_rest d (Some a) (Some b) t = Some (True, rb_root t', fa, t')
      \<and> focus m0 t' k (delete_rotated d c a s T)"
proof -
  let ?sl = "child_of d s" and ?sr = "child_of (opp d) s"
  have s_mk: "s = mk d (color_of s) ?sl b ?sr" by (rule mk_cases [OF s])
  have lab: "label_of s = b" using s by (cases s) auto
  have f: "focus m0 t (Fr d c a (mk d (color_of s) ?sl b ?sr) # k) T" using foc s_mk by simp
  have fs: "focus m0 t (Fr (opp d) c a T # k) (mk d (color_of s) ?sl b ?sr)" using f by (simp add: focus_up)
  have bl: "is_null_or_black (root_ptr ?sl) t = Some (color_of ?sl = Black)"
    "is_null_or_black (root_ptr ?sr) t = Some (color_of ?sr = Black)"
    using fs by (auto simp: focus_def intro!: is_null_or_black_tree)
  define p where "p = (\<lambda>e. root_ptr (child_of e s))"
  have get: "rb_get rn_left (Some b) t = Some (p L)" "rb_get rn_right (Some b) t = Some (p R)"
    using focus_here [OF fs] by (cases d; simp add: p_def)+
  have blk: "is_null_or_black (p L) t = Some (color_of (child_of L s) = Black)"
    "is_null_or_black (p R) t = Some (color_of (child_of R s) = Black)"
    using bl by (cases d; simp add: p_def)+
  have rest: "delete_rest d (Some a) (Some b) t =
      (if both_black s then do { (n, fa, t) \<leftarrow> delete_case2 (Some a) (Some b) t; Some (False, n, fa, t) }
       else do {
         (s', t) \<leftarrow> (if color_of ?sr = Black then delete_case3 d (Some a) (Some b) t else Some (Some b, t));
         (n, t) \<leftarrow> delete_case4 d (Some a) s' t;
         Some (True, n, Some a, t) })"
    unfolding delete_rest_def get blk bind.bind_lunit both_black_def by (cases d) simp_all
  show "\<exists>t'. delete_rest d (Some a) (Some b) t = Some (False, Some a, path_parent k, t')
      \<and> focus m0 t' k (mk d c T a (paint Red s))" if bb: "both_black s"
  proof -
    obtain t' where "delete_case2 (Some a) (Some b) t = Some (Some a, path_parent k, t')"
      "focus m0 t' k (mk d c T a (mk d Red ?sl b ?sr))" by (rule delete_case2_focus [OF f])
    moreover have "paint Red s = mk d Red ?sl b ?sr" by (subst s_mk) simp
    ultimately show ?thesis using bb rest by simp
  qed
  assume nb: "\<not> both_black s"
  show "\<exists>fa t'. delete_rest d (Some a) (Some b) t = Some (True, rb_root t', fa, t')
      \<and> focus m0 t' k (delete_rotated d c a s T)"
  proof (cases "color_of ?sr")
    case Red
    obtain t' where "delete_case4 d (Some a) (Some b) t = Some (rb_root t', t')"
      "focus m0 t' k (mk d c (mk d Black T a ?sl) b (paint Black ?sr))" by (rule delete_case4_focus [OF f])
    then show ?thesis using nb rest Red lab by (auto simp: delete_rotated_def Let_def)
  next
    case Black
    then have "color_of ?sl = Red" using nb by (cases d; cases "color_of ?sl") (auto simp: both_black_def)
    then obtain x where x: "root_ptr ?sl = Some x" by (cases ?sl) auto
    let ?p = "child_of d ?sl" and ?q = "child_of (opp d) ?sl"
    have sl: "?sl = mk d (color_of ?sl) ?p x ?q" by (rule mk_cases [OF x])
    have "label_of ?sl = x" by (subst sl) simp
    have f': "focus m0 t (Fr d c a (mk d (color_of s) (mk d (color_of ?sl) ?p x ?q) b ?sr) # k) T" using f sl by simp
    obtain t1 where t1: "delete_case3 d (Some a) (Some b) t = Some (Some x, t1)"
      "focus m0 t1 (Fr d c a (mk d Black ?p x (mk d Red ?q b ?sr)) # k) T" by (rule delete_case3_focus [OF f'])
    obtain t' where "delete_case4 d (Some a) (Some x) t1 = Some (rb_root t', t')"
      "focus m0 t' k (mk d c (mk d Black T a ?p) x (paint Black (mk d Red ?q b ?sr)))"
      by (rule delete_case4_focus [OF t1(2)])
    then show ?thesis
      using nb rest Black t1(1) lab \<open>label_of ?sl = x\<close> by (auto simp: delete_rotated_def Let_def)
  qed
qed

text \<open>A whole turn.\<close>

lemma delete_turn_side:
  assumes "focus m0 t (Fr d c a s # k) T" and "root_ptr s = Some b"
  shows "delete_turn (root_ptr T) (Some a) t = do {
     (s', t) \<leftarrow> (if color_of s = Red then delete_case1 d (Some a) (Some b) t else Some (Some b, t));
     delete_rest d (Some a) s' t }"
proof -
  have "root_ptr T \<noteq> Some b"
    using sibling_neq [OF assms(1)] assms(2) by (cases T) auto
  then have side: "rb_get rn_left (Some a) t = Some l \<Longrightarrow> (if root_ptr T = l then L else R) = d" for l
    using focus_above [OF assms(1)] assms(2) by (cases d) auto
  obtain l where l: "rb_get rn_left (Some a) t = Some l" using focus_above [OF assms(1)] by simp
  have s: "rb_get (rn_child (opp d)) (Some a) t = Some (Some b)" using focus_above [OF assms(1)] assms(2) by simp
  have "rb_get rn_color (Some b) t = Some (color_of s)" using assms by (cases s) (auto simp: focus_def)
  then show ?thesis
    unfolding delete_turn_def l bind.bind_lunit Let_def side [OF l] s by simp
qed

text \<open>What the rebalancing needs: the sibling is deep enough that no \<open>NULL\<close> is reached.\<close>

lemma sibling_exists: "invh s \<Longrightarrow> bh s = Suc h \<Longrightarrow> \<exists>b. root_ptr s = Some b"
  by (cases s) auto

lemma red_sibling:
  assumes "color_of s = Red" and "invc s" and "invh s"
  obtains sl b sr where "s = mk d Red sl b sr" "color_of sl = Black" "color_of sr = Black" "bh sl = bh s" "bh sr = bh s"
    "invc sl" "invc sr" "invh sl" "invh sr"
proof -
  obtain b where b: "root_ptr s = Some b" using assms(1) by (cases s) auto
  have s: "s = mk d Red (child_of d s) b (child_of (opp d) s)" using mk_cases [OF b, of d] assms(1) by simp
  then have "invc (mk d Red (child_of d s) b (child_of (opp d) s))" "invh (mk d Red (child_of d s) b (child_of (opp d) s))"
    "bh s = bh (mk d Red (child_of d s) b (child_of (opp d) s))" using assms(2,3) by auto
  then show thesis by (intro that [OF s]) auto
qed

lemma delete_case_step:
  "rb_tree_delete_case n fa t = do {
     b \<leftarrow> is_null_or_black n t;
     if b \<and> n \<noteq> rb_root t then do {
       (brk, n, fa, t) \<leftarrow> delete_turn n fa t;
       if brk then (if n \<noteq> None then rb_set (rn_color_update (\<lambda>_. Black)) n t else Some t)
       else rb_tree_delete_case n fa t
     }
     else (if n \<noteq> None then rb_set (rn_color_update (\<lambda>_. Black)) n t else Some t)
   }"
  unfolding rb_tree_delete_case_def
  by (subst delete_loop.simps) (auto split: bind_split prod.splits option.splits)

text \<open>\<open>T\<close> is one black node short, or is red and only has to be painted.\<close>

definition del_ok :: "path \<Rightarrow> rbt \<Rightarrow> bool" where
  "del_ok k T \<longleftrightarrow> path_inv k Black (bh T + 1) \<and> invc (paint Black T) \<and> invh T"

lemma paint_same: "color_of T = c \<Longrightarrow> paint c T = T"
  by (cases T) auto

lemma bh_paint_red: "color_of s = Black \<Longrightarrow> s \<noteq> Leaf \<Longrightarrow> bh s = bh (paint Red s) + 1"
  by (cases s) auto

lemma both_black_inv: "invc s \<Longrightarrow> both_black s \<Longrightarrow> invc (paint Red s)"
  by (cases s) (auto simp: both_black_def)

lemma del_ok_sibling:
  assumes "del_ok (Fr d c a s # k) T"
  shows "invc s" "invh s" "bh s = bh T + 1" "c = Red \<Longrightarrow> color_of s = Black" "path_inv k c (bh T + 1 + (if c = Black then 1 else 0))"
    "\<exists>b. root_ptr s = Some b" "color_of T = Black \<Longrightarrow> invc T" "invh T"
  using assms sibling_exists [of s "bh T"] paint_same [of T Black] by (auto simp: del_ok_def)

lemma del_ok_up:
  assumes "del_ok (Fr d c a s # k) T" and "color_of T = Black" "color_of s = Black" "both_black s"
  shows "del_ok k (mk d c T a (paint Red s))"
proof -
  note sib = del_ok_sibling [OF assms(1)]
  have "s \<noteq> Leaf" using sib(6) by auto
  then have b: "bh (paint Red s) = bh T" using bh_paint_red [OF assms(3)] sib(3) by simp
  then have "bh (mk d c T a (paint Red s)) + 1 = bh T + 1 + (if c = Black then 1 else 0)" by simp
  with sib b both_black_inv [OF sib(1) assms(4)] assms(2) path_inv_black [OF sib(5)] show ?thesis
    by (simp add: del_ok_def)
qed

lemma paint_root_focus:
  assumes "focus m0 t k T"
  obtains t' where "(if root_ptr T \<noteq> None then rb_set (rn_color_update (\<lambda>_. Black)) (root_ptr T) t else Some t) = Some t'"
    "focus m0 t' k (paint Black T)"
proof (cases T)
  case Leaf
  with assms show thesis by (intro that [of t]) simp_all
next
  case (Node c l a r)
  then have "focus m0 t k (mk L c l a r)" using assms by simp
  then obtain t' where "rb_set (rn_color_update (\<lambda>_. Black)) (Some a) t = Some t'" "focus m0 t' k (mk L Black l a r)"
    by (rule set_color_focus)
  with Node show thesis by (intro that [of t']) simp_all
qed

lemma delete_case_stop:
  assumes "focus m0 t k T" and "color_of T = Red \<or> k = []"
  obtains t' where "rb_tree_delete_case (root_ptr T) fa t = Some t'" "focus m0 t' k (paint Black T)"
proof -
  have b: "is_null_or_black (root_ptr T) t = Some (color_of T = Black)"
    using assms(1) is_null_or_black_tree [of t "path_parent k" T] by (simp add: focus_def)
  have "\<not> (color_of T = Black \<and> root_ptr T \<noteq> rb_root t)" using assms(2) focus_root [of m0 t T] assms(1) by auto
  then have step: "rb_tree_delete_case (root_ptr T) fa t =
      (if root_ptr T \<noteq> None then rb_set (rn_color_update (\<lambda>_. Black)) (root_ptr T) t else Some t)"
    unfolding delete_case_step [of "root_ptr T" fa t] b bind.bind_lunit by (simp only: if_not_P if_False)
  show thesis by (rule paint_root_focus [OF assms(1)], rule that) (simp_all only: step)
qed

text \<open>The tree left after a \<open>break\<close>: the new \<open>n\<close> is the root.\<close>

lemma paint_top:
  assumes "focus m0 t k T"
  obtains t' where "(if rb_root t \<noteq> None then rb_set (rn_color_update (\<lambda>_. Black)) (rb_root t) t else Some t) = Some t'"
    "rb_is m0 t' (paint Black (plug k T))"
proof -
  have whole: "rb_is m0 t (plug k T)" by (rule focus_plug [THEN iffD1, OF assms])
  show thesis
    using paint_root_focus [OF whole] that unfolding focus_root [OF whole] by blast
qed

lemma delete_case_turn:
  assumes "focus m0 t (Fr d c a s # k) T" and "color_of T = Black"
  shows "rb_tree_delete_case (root_ptr T) (Some a) t = do {
       (brk, n, fa, t) \<leftarrow> delete_turn (root_ptr T) (Some a) t;
       if brk then (if n \<noteq> None then rb_set (rn_color_update (\<lambda>_. Black)) n t else Some t)
       else rb_tree_delete_case n fa t }"
proof -
  have "is_null_or_black (root_ptr T) t = Some (color_of T = Black)"
    using assms(1) is_null_or_black_tree [of t "Some a" T] by (simp add: focus_def)
  with assms root_above [OF assms(1)] show ?thesis by (subst delete_case_step) simp
qed

lemma delete_case_focus:
  "focus m0 t k T \<Longrightarrow> del_ok k T \<Longrightarrow>
   \<exists>t'. rb_tree_delete_case (root_ptr T) (path_parent k) t = Some t' \<and> rb_is m0 t' (del_fix k T)"
proof (induction k T arbitrary: t rule: del_fix.induct)
  case (1 T)
  then show ?case using delete_case_stop [of m0 t "[]" T "path_parent []"] by auto
next
  case (2 d c a s k T)
  note foc = 2(2)
  note sib = del_ok_sibling [OF 2(3)]
  obtain b where b: "root_ptr s = Some b" using sib(6) by blast
  show ?case
  proof (cases "color_of T")
    case Red
    obtain t' where "rb_tree_delete_case (root_ptr T) (Some a) t = Some t'" "focus m0 t' (Fr d c a s # k) (paint Black T)"
      by (rule delete_case_stop [OF foc, of "Some a"]) (use Red in simp)
    with Red focus_plug [of m0 t' "Fr d c a s # k" "paint Black T"] show ?thesis by simp
  next
    case black: Black
    note turn = delete_case_turn [OF foc black, unfolded delete_turn_side [OF foc b]]
    show ?thesis
    proof (cases "color_of s")
      case Red
      obtain sl x sr where s: "s = mk d Red sl x sr" "bh sl = bh s" using red_sibling [OF Red sib(1,2), of d] by metis
      have x: "x = b" using b s by simp
      obtain t1 where t1: "delete_case1 d (Some a) (Some b) t = Some (root_ptr sl, t1)"
        "focus m0 t1 (Fr d Red a sl # Fr d Black b sr # k) T"
        by (rule delete_case1_focus [OF foc [unfolded s(1) x]])
      have "invh sl" using sib(2) s(1) by simp
      then obtain y where y: "root_ptr sl = Some y" using sibling_exists [of sl "bh T"] s(2) sib(3) by auto
      have parts: "child_of d s = sl" "child_of (opp d) s = sr" "label_of s = b" using s(1) x by simp_all
      show ?thesis
      proof (cases "both_black sl")
        case True
        obtain t2 where t2: "delete_rest d (Some a) (Some y) t1 = Some (False, Some a, Some b, t2)"
          "focus m0 t2 (Fr d Black b sr # k) (mk d Red T a (paint Red sl))"
          using delete_rest_focus(1) [OF t1(2) y True] by auto
        obtain t3 where "rb_tree_delete_case (root_ptr (mk d Red T a (paint Red sl))) (Some b) t2 = Some t3"
          "focus m0 t3 (Fr d Black b sr # k) (paint Black (mk d Red T a (paint Red sl)))"
          by (rule delete_case_stop [OF t2(2), of "Some b"]) simp
        then show ?thesis
          using turn t1(1) t2(1) y Red black True parts focus_plug [of m0 t3 "Fr d Black b sr # k"] by simp
      next
        case False
        obtain fa t2 where t2: "delete_rest d (Some a) (Some y) t1 = Some (True, rb_root t2, fa, t2)"
          "focus m0 t2 (Fr d Black b sr # k) (delete_rotated d Red a sl T)"
          using delete_rest_focus(2) [OF t1(2) y False] by auto
        obtain t3 where "(if rb_root t2 \<noteq> None then rb_set (rn_color_update (\<lambda>_. Black)) (rb_root t2) t2 else Some t2) = Some t3"
          "rb_is m0 t3 (paint Black (plug (Fr d Black b sr # k) (delete_rotated d Red a sl T)))"
          by (rule paint_top [OF t2(2)])
        then show ?thesis using turn t1(1) t2(1) y Red black False parts by simp
      qed
    next
      case Black
      show ?thesis
      proof (cases "both_black s")
        case True
        obtain t1 where t1: "delete_rest d (Some a) (Some b) t = Some (False, Some a, path_parent k, t1)"
          "focus m0 t1 k (mk d c T a (paint Red s))" using delete_rest_focus(1) [OF foc b True] by auto
        obtain t2 where "rb_tree_delete_case (Some a) (path_parent k) t1 = Some t2"
          "rb_is m0 t2 (del_fix k (mk d c T a (paint Red s)))"
          using 2(1) [OF _ _ True t1(2) del_ok_up [OF 2(3) black Black True]] black Black by auto
        then show ?thesis using turn t1(1) black Black True by simp
      next
        case False
        obtain fa t1 where t1: "delete_rest d (Some a) (Some b) t = Some (True, rb_root t1, fa, t1)"
          "focus m0 t1 k (delete_rotated d c a s T)" using delete_rest_focus(2) [OF foc b False] by auto
        obtain t2 where "(if rb_root t1 \<noteq> None then rb_set (rn_color_update (\<lambda>_. Black)) (rb_root t1) t1 else Some t1) = Some t2"
          "rb_is m0 t2 (paint Black (plug k (delete_rotated d c a s T)))" by (rule paint_top [OF t1(2)])
        then show ?thesis using turn t1(1) black Black False by simp
      qed
    qed
  qed
qed

subsection \<open>Order and balance after the loop\<close>

lemma delete_rotated_node:
  assumes "root_ptr s = Some b" and "\<not> both_black s"
  shows "addrs (delete_rotated d c a s T) = addrs (mk d c T a s)"
    and "invc s \<Longrightarrow> invh s \<Longrightarrow> color_of s = Black \<Longrightarrow> bh s = bh T + 1 \<Longrightarrow> invc T \<Longrightarrow> invh T \<Longrightarrow>
      invc (delete_rotated d c a s T) \<and> invh (delete_rotated d c a s T) \<and> color_of (delete_rotated d c a s T) = c
      \<and> bh (delete_rotated d c a s T) = bh T + 1 + (if c = Black then 1 else 0)"
proof -
  obtain cs l r where s: "s = Node cs l b r" using assms(1) by (cases s) auto
  show "addrs (delete_rotated d c a s T) = addrs (mk d c T a s)"
    using assms(2) s by (cases d; cases l; cases r) (auto simp: delete_rotated_def both_black_def Let_def)
  show "invc s \<Longrightarrow> invh s \<Longrightarrow> color_of s = Black \<Longrightarrow> bh s = bh T + 1 \<Longrightarrow> invc T \<Longrightarrow> invh T \<Longrightarrow>
      invc (delete_rotated d c a s T) \<and> invh (delete_rotated d c a s T) \<and> color_of (delete_rotated d c a s T) = c
      \<and> bh (delete_rotated d c a s T) = bh T + 1 + (if c = Black then 1 else 0)"
    using assms(2) s by (cases d; cases l; cases r) (auto simp: delete_rotated_def both_black_def Let_def)
qed

text \<open>The rebalanced tree has the same addresses in the same order, and is balanced.\<close>

lemma valid_plug:
  assumes "invc X" "invh X" "path_inv k (color_of X) (bh X)" and "black_top k" "k = [] \<Longrightarrow> color_of X = Black"
  shows "rb_valid (plug k X)"
  using assms plug_inv [of k X] by (auto simp: rb_valid_def plug_color black_top_def)

lemma valid_paint_plug:
  assumes "invc X" "invh X" "path_inv k (color_of X) (bh X)"
  shows "rb_valid (paint Black (plug k X))"
  using assms plug_inv [of k X] by (auto simp: rb_valid_def invc_paint)

lemma del_fix_correct:
  "del_ok k T \<Longrightarrow> black_top k \<Longrightarrow> addrs (del_fix k T) = addrs (plug k T) \<and> rb_valid (del_fix k T)"
proof (induction k T rule: del_fix.induct)
  case (1 T)
  then show ?case by (simp add: del_ok_def rb_valid_def)
next
  case (2 d c a s k T)
  note sib = del_ok_sibling [OF 2(2)]
  obtain b where b: "root_ptr s = Some b" using sib(6) by blast
  have pk: "path_inv (Fr d c a s # k) Black (bh T + 1)" using 2(2) by (simp add: del_ok_def)
  show ?case
  proof (cases "color_of T")
    case Red
    then obtain l x r where T: "T = Node Red l x r" using red_node by blast
    have "rb_valid (plug (Fr d c a s # k) (paint Black T))"
    proof (rule valid_plug)
      show "invc (paint Black T)" "invh (paint Black T)" using 2(2) by (simp_all add: del_ok_def)
      show "path_inv (Fr d c a s # k) (color_of (paint Black T)) (bh (paint Black T))" using pk T by simp
    qed (use 2(3) in auto)
    with Red show ?thesis by (simp add: addrs_plug del: plug.simps)
  next
    case black: Black
    note T = sib(7) [OF black] sib(8)
    show ?thesis
    proof (cases "color_of s")
      case Red
      obtain sl x sr where s: "s = mk d Red sl x sr" "color_of sl = Black" "color_of sr = Black" "bh sl = bh s" "bh sr = bh s"
        "invc sl" "invc sr" "invh sl" "invh sr" using red_sibling [OF Red sib(1,2), of d] by metis
      have c: "c = Black" using sib(4) Red by (cases c) auto
      let ?k = "Fr d Black x sr # k"
      obtain y where y: "root_ptr sl = Some y" using sibling_exists [of sl "bh T"] s(4,8) sib(3) by auto
      have kin: "path_inv ?k Red (bh T + 1)" "path_inv ?k Black (bh T + 1)"
        using sib(5) s(3,5,7,9) unfolding sib(3) c by simp_all
      have addrs_s: "addrs (plug (Fr d c a s # k) T) = addrs (plug ?k (mk d c' T a sl))" for c'
        unfolding s(1) by (cases d) (simp_all add: addrs_plug)
      have top: "black_top ?k" using 2(3) by (cases k) (auto simp: black_top_def)
      show ?thesis
      proof (cases "both_black sl")
        case True
        have b': "bh (paint Red sl) = bh T" using bh_paint_red [OF s(2)] y s(4) [unfolded sib(3)] by fastforce
        have "rb_valid (plug ?k (mk d Black T a (paint Red sl)))"
        proof (rule valid_plug [OF _ _ _ top])
          show "invc (mk d Black T a (paint Red sl))" using T both_black_inv [OF s(6) True] by simp
          show "invh (mk d Black T a (paint Red sl))" using T s(8) b' by simp
          show "path_inv ?k (color_of (mk d Black T a (paint Red sl))) (bh (mk d Black T a (paint Red sl)))"
            using kin(2) b' by simp
        qed simp
        moreover have "addrs (plug ?k (mk d Black T a (paint Red sl))) = addrs (plug ?k (mk d Black T a sl))"
          unfolding addrs_plug by (cases d) simp_all
        ultimately show ?thesis using Red black True addrs_s [of Black] s(1) by (simp del: plug.simps)
      next
        case False
        note dr = delete_rotated_node [OF y False]
        have "invc (delete_rotated d Red a sl T) \<and> invh (delete_rotated d Red a sl T)
            \<and> color_of (delete_rotated d Red a sl T) = Red \<and> bh (delete_rotated d Red a sl T) = bh T + 1"
          using dr(2) [of T d Red a] s(2,6,8) s(4) [unfolded sib(3)] T by simp
        then have "rb_valid (paint Black (plug ?k (delete_rotated d Red a sl T)))"
          using kin by (intro valid_paint_plug) simp_all
        moreover have "addrs (plug ?k (delete_rotated d Red a sl T)) = addrs (plug ?k (mk d Red T a sl))"
          unfolding addrs_plug dr(1) ..
        ultimately show ?thesis using Red black False addrs_s [of Red] s(1) by (simp del: plug.simps)
      qed
    next
      case Black
      show ?thesis
      proof (cases "both_black s")
        case True
        have "black_top k" using 2(3) by (cases k) (auto simp: black_top_def)
        with 2(1) [OF _ _ True del_ok_up [OF 2(2) black Black True]] black Black
        have IH: "addrs (del_fix k (mk d c T a (paint Red s))) = addrs (plug k (mk d c T a (paint Red s)))"
          "rb_valid (del_fix k (mk d c T a (paint Red s)))" by auto
        have "addrs (plug k (mk d c T a (paint Red s))) = addrs (plug k (mk d c T a s))"
          unfolding addrs_plug by (cases d) simp_all
        with IH black Black True show ?thesis by simp
      next
        case False
        note dr = delete_rotated_node [OF b False]
        have "invc (delete_rotated d c a s T) \<and> invh (delete_rotated d c a s T) \<and> color_of (delete_rotated d c a s T) = c
            \<and> bh (delete_rotated d c a s T) = bh T + 1 + (if c = Black then 1 else 0)"
          using dr(2) [of T d c a] sib Black T by simp
        then have "rb_valid (paint Black (plug k (delete_rotated d c a s T)))"
          using sib(5) by (intro valid_paint_plug) simp_all
        moreover have "addrs (plug k (delete_rotated d c a s T)) = addrs (plug k (mk d c T a s))"
          unfolding addrs_plug dr(1) ..
        ultimately show ?thesis using black Black False by simp
      qed
    qed
  qed
qed

subsection \<open>Unlinking a node\<close>

text \<open>\<open>forget n m0 t\<close>: the frame store, with what the unlinked node \<open>n\<close> holds now.\<close>

abbreviation forget :: "addr \<Rightarrow> rb_node store \<Rightarrow> rb_tree \<Rightarrow> rb_node store" where
  "forget n m0 t \<equiv> m0(n := rb_mem t n)"

lemma unlink_focus:
  assumes "focus m0 t k (Node c l n r)" and sub: "l = Leaf \<and> sub = r \<or> r = Leaf \<and> sub = l"
  obtains t1 t' where
    "(if root_ptr sub \<noteq> None then rb_set (rn_parent_update (\<lambda>_. path_parent k)) (root_ptr sub) t else Some t) = Some t1"
    "replace_child (path_parent k) (Some n) (root_ptr sub) t1 = Some t'" "focus (forget n m0 t) t' k sub"
    "rb_mem t' n = rb_mem t n" "rb_mem t n = Some (node_of (path_parent k) L c (root_ptr l) (root_ptr r))"
proof -
  have n: "rb_mem t n = Some (node_of (path_parent k) L c (root_ptr l) (root_ptr r))"
    and path: "is_path (rb_mem t) (rb_root t) k (Some n)" and tree: "is_tree (rb_mem t) (Some n) sub"
    and dis: "distinct (path_addrs k)" "n \<notin> set (path_addrs k)" "n \<notin> set (addrs sub)" "distinct (addrs sub)"
      "set (path_addrs k) \<inter> set (addrs sub) = {}"
    and out: "\<And>b. b \<notin> set (path_addrs k) \<Longrightarrow> b \<noteq> n \<Longrightarrow> b \<notin> set (addrs sub) \<Longrightarrow> rb_mem t b = m0 b"
    using assms by (auto simp: focus_def)
  obtain t1 where t1: "(if root_ptr sub \<noteq> None then rb_set (rn_parent_update (\<lambda>_. path_parent k)) (root_ptr sub) t else Some t) = Some t1"
    "is_tree (rb_mem t1) (path_parent k) sub" "rb_root t1 = rb_root t" "\<And>p. p \<notin> set (addrs sub) \<Longrightarrow> rb_mem t1 p = rb_mem t p"
    by (rule reparent [OF tree dis(4), of "path_parent k"]) blast
  have keep: "\<And>b. b \<in> set (path_addrs k) \<Longrightarrow> rb_mem t1 b = rb_mem t b" using t1(4) dis(5) by blast
  have "is_path (rb_mem t1) (rb_root t1) k (Some n)"
    unfolding t1(3) by (rule is_path_cong [THEN iffD2, OF keep path])
  then obtain t' where t': "replace_child (path_parent k) (Some n) (root_ptr sub) t1 = Some t'"
    "is_path (rb_mem t') (rb_root t') k (root_ptr sub)" "\<And>p. p \<notin> set (path_addrs k) \<Longrightarrow> rb_mem t' p = rb_mem t1 p"
    by (rule replace_child_path [OF _ dis(1,2), of _ "root_ptr sub"]) blast
  have keep': "\<And>b. b \<in> set (addrs sub) \<Longrightarrow> rb_mem t' b = rb_mem t1 b" using t'(3) dis(5) by blast
  have "is_tree (rb_mem t') (path_parent k) sub" by (rule is_tree_cong [THEN iffD2, OF keep' t1(2)])
  moreover have "rb_mem t' b = (forget n m0 t) b" if "b \<notin> set (path_addrs k)" "b \<notin> set (addrs sub)" for b
    using t'(3) [OF that(1)] t1(4) [OF that(2)] out [OF that(1) _ that(2)] by auto
  ultimately have "focus (forget n m0 t) t' k sub" using t'(2) dis by (auto simp: focus_def)
  moreover have "rb_mem t' n = rb_mem t n" using t'(3) [OF dis(2)] t1(4) [OF dis(3)] by simp
  ultimately show thesis using t1(1) t'(1) n by (intro that)
qed

lemma valid_plugD:
  assumes "rb_valid (plug k X)"
  shows "invc X" "invh X" "path_inv k (color_of X) (bh X)" "black_top k" "k = [] \<Longrightarrow> color_of X = Black"
  using assms plug_inv [of k X] by (auto simp: rb_valid_def plug_color black_top_def)

text \<open>Both removals end alike: the black height of \<open>sub\<close> is what it was, or one less.\<close>

lemma finish_removal:
  assumes foc: "focus m1 t k sub" and fa: "fa = path_parent k" and inv: "invc sub" "invh sub" and top: "black_top k"
    and red: "c = Red \<Longrightarrow> color_of sub = Black \<and> path_inv k Black (bh sub)"
    and black: "c = Black \<Longrightarrow> path_inv k Black (bh sub + 1)" and k: "k = [] \<Longrightarrow> c = Black"
  obtains t' T' where "(if c = Black then rb_tree_delete_case (root_ptr sub) fa t else Some t) = Some t'"
    "rb_is m1 t' T'" "rb_valid T'" "addrs T' = addrs (plug k sub)"
proof (cases c)
  case Red
  have "rb_valid (plug k sub)" by (rule valid_plug) (use inv top red [OF Red] k Red in auto)
  with Red focus_plug [THEN iffD1, OF foc] show thesis by (intro that [of t "plug k sub"]) simp_all
next
  case Black
  have ok: "del_ok k sub" using black [OF Black] inv by (simp add: del_ok_def invc_paint)
  from delete_case_focus [OF foc ok] del_fix_correct [OF ok top] Black fa show thesis
    by (auto intro: that [of _ "del_fix k sub"])
qed

lemma forget_eq:
  assumes "rb_is (forget n m0 t) t' T'" and "n \<notin> set (addrs T')"
  shows "rb_is (forget n m0 t') t' T'"
  using assms unfolding focus_def by auto

lemma remove_one_child_correct:
  assumes foc: "focus m0 t k (Node c l n r)" and one: "l = Leaf \<or> r = Leaf" and valid: "rb_valid (plug k (Node c l n r))"
  obtains t' T' where "remove_node_has_one_child (Some n) t = Some t'" "rb_is (forget n m0 t') t' T'" "rb_valid T'"
    "addrs T' = before k @ addrs l @ addrs r @ after k"
proof -
  note inv = valid_plugD [OF valid]
  define sub where "sub = (if l = Leaf then r else l)"
  have "l = Leaf \<and> sub = r \<or> r = Leaf \<and> sub = l" using one by (auto simp: sub_def)
  then obtain t1 t2 where
    t1: "(if root_ptr sub \<noteq> None then rb_set (rn_parent_update (\<lambda>_. path_parent k)) (root_ptr sub) t else Some t) = Some t1"
    and t2: "replace_child (path_parent k) (Some n) (root_ptr sub) t1 = Some t2" "focus (forget n m0 t) t2 k sub"
    and n: "rb_mem t2 n = rb_mem t n" "rb_mem t n = Some (node_of (path_parent k) L c (root_ptr l) (root_ptr r))"
    by (rule unlink_focus [OF foc])
  have sub_ptr: "(if root_ptr l = None then rb_get rn_right (Some n) t else Some (root_ptr l)) = Some (root_ptr sub)"
    using n(2) by (cases l) (auto simp: sub_def)
  have code: "remove_node_has_one_child (Some n) t
      = (if c = Black then rb_tree_delete_case (root_ptr sub) (path_parent k) t2 else Some t2)"
    using n sub_ptr t1 t2(1) by (simp add: remove_node_has_one_child_def)
  have s: "invc sub" "invh sub" "bh sub = bh l" "c = Red \<Longrightarrow> color_of sub = Black"
    using inv(1,2) one by (auto simp: sub_def)
  obtain t' T' where res: "remove_node_has_one_child (Some n) t = Some t'" "rb_is (forget n m0 t) t' T'"
    "rb_valid T'" "addrs T' = addrs (plug k sub)"
    unfolding code
  proof (rule finish_removal [OF t2(2) refl s(1,2) inv(4)])
    show "c = Red \<Longrightarrow> color_of sub = Black \<and> path_inv k Black (bh sub)"
      using inv(3) s(3,4) path_inv_black by auto
    show "c = Black \<Longrightarrow> path_inv k Black (bh sub + 1)" using inv(3) s(3) by auto
    show "k = [] \<Longrightarrow> c = Black" using inv(5) by simp
  qed
  have addrs: "addrs T' = before k @ addrs l @ addrs r @ after k" using res(4) one by (auto simp: addrs_plug sub_def)
  have "distinct (addrs (plug k (Node c l n r)))"
    using focus_plug [THEN iffD1, OF foc] by (simp add: focus_def)
  then have "n \<notin> set (addrs T')" using addrs by (auto simp: addrs_plug)
  with res addrs forget_eq [OF res(2)] show thesis by (intro that)
qed

subsection \<open>Exchange with the successor\<close>

fun seg_parent :: "ptr \<Rightarrow> path \<Rightarrow> ptr" where
  "seg_parent fa [] = fa"
| "seg_parent fa (Fr d c a s # kk) = Some a"

fun is_seg :: "rb_node store \<Rightarrow> ptr \<Rightarrow> path \<Rightarrow> ptr \<Rightarrow> bool" where
  "is_seg m fa [] p \<longleftrightarrow> True"
| "is_seg m fa (Fr d c a s # kk) p \<longleftrightarrow> m a = Some (node_of (seg_parent fa kk) d c p (root_ptr s))
     \<and> is_tree m (Some a) s \<and> is_seg m fa kk (Some a)"

lemma is_tree_plug: "is_tree m fa (plug kk X) \<longleftrightarrow> is_seg m fa kk (root_ptr X) \<and> is_tree m (seg_parent fa kk) X"
  by (induction kk X rule: plug.induct) auto

lemma set_plug: "set (addrs (plug kk X)) = set (path_addrs kk) \<union> set (addrs X)"
  by (induction kk X rule: plug.induct) auto

lemma distinct_plug: "distinct (addrs (plug kk X)) \<longleftrightarrow> distinct (path_addrs kk @ addrs X)"
  by (induction kk X rule: plug.induct) (auto simp: set_plug)

lemma plug_append: "plug (k @ k') X = plug k' (plug k X)"
  by (induction k X rule: plug.induct) auto

lemma focus_append: "focus m0 t (k @ k') X \<longleftrightarrow> focus m0 t k' (plug k X)"
  by (induction k X rule: plug.induct) (auto simp: focus_up)

fun left_only :: "path \<Rightarrow> bool" where
  "left_only [] \<longleftrightarrow> True"
| "left_only (Fr d c a s # kk) \<longleftrightarrow> d = L \<and> left_only kk"

lemma leftmost_focus:
  "focus m0 t k T \<Longrightarrow> T \<noteq> Leaf \<Longrightarrow> \<exists>kk cm m rc. leftmost_loop (root_ptr T) t = Some (Some m)
     \<and> T = plug kk (Node cm Leaf m rc) \<and> left_only kk"
proof (induction T arbitrary: k)
  case (Node c l a r)
  have get: "rb_get rn_left (Some a) t = Some (root_ptr l)" using focus_node [OF Node.prems(1)] by simp
  show ?case
  proof (cases "l = Leaf")
    case True
    then have "leftmost_loop (Some a) t = Some (Some a)" using get by (subst leftmost_loop.simps) simp
    with True show ?thesis by (intro exI [of _ "[]"]) auto
  next
    case False
    then obtain kk cm m rc where IH: "leftmost_loop (root_ptr l) t = Some (Some m)"
      "l = plug kk (Node cm Leaf m rc)" "left_only kk"
      using Node.IH(1) [of "Fr L c a r # k"] Node.prems(1) by (auto simp: focus_down_left)
    have "root_ptr l \<noteq> None" using False by (cases l) auto
    then have "leftmost_loop (Some a) t = Some (Some m)" using get IH(1) by (subst leftmost_loop.simps) simp
    moreover have "Node c l a r = plug (kk @ [Fr L c a r]) (Node cm Leaf m rc)"
      using IH(2) by (simp add: plug_append)
    moreover have "left_only (kk @ [Fr L c a r])" using IH(3) by (induction kk rule: left_only.induct) auto
    ultimately show ?thesis by (metis root_ptr.simps(2))
  qed
qed simp

lemma plug_root_eq: "k \<noteq> [] \<Longrightarrow> root_ptr (plug k X) = root_ptr (plug k Y)"
proof (induction k arbitrary: X Y)
  case (Cons f k)
  then show ?case by (cases f; cases "k = []") auto
qed simp

lemma is_seg_cong:
  "is_seg M fa k p \<Longrightarrow> (\<And>b. b \<in> set (path_addrs k) \<Longrightarrow> M' b = M b) \<Longrightarrow> is_seg M' fa k p"
proof (induction M fa k p rule: is_seg.induct)
  case (2 M fa d c a s kk p)
  have "is_tree M' (Some a) s \<longleftrightarrow> is_tree M (Some a) s" by (rule is_tree_cong) (use 2(3) in auto)
  with 2 show ?case by auto
qed simp

text \<open>The successor \<open>m\<close> is cut out of the right subtree, which then hangs below \<open>m\<close>.\<close>

lemma splice_leaf_tree:
  assumes tree: "is_tree (rb_mem t) (Some n) (plug kk (Node cm Leaf m rc))" and left: "left_only kk"
    and dis: "distinct (n # addrs (plug kk (Node cm Leaf m rc)))"
    and n: "rb_get rn_right (Some n) t = Some (root_ptr (plug kk (Node cm Leaf m rc)))"
  obtains fa t' where
    "splice_leaf (Some n) (Some m) (root_ptr rc) (seg_parent (Some n) kk) t = Some (seg_parent (Some m) kk, t')"
    "is_tree (rb_mem t') (Some m) (plug kk rc)" "rb_mem t' m = Some (node_of fa L cm None (root_ptr (plug kk rc)))"
    "rb_root t' = rb_root t" "\<And>b. b \<notin> set (addrs (plug kk (Node cm Leaf m rc))) \<Longrightarrow> rb_mem t' b = rb_mem t b"
proof (cases kk)
  case Nil
  with tree show thesis by (intro that [of t]) (auto simp: splice_leaf_def)
next
  case (Cons fr k1)
  then obtain cf f s where fr: "kk = Fr L cf f s # k1" using left by (cases fr) auto
  let ?old = "Fr L cf f s # k1"
  have m: "rb_mem t m = Some (node_of (Some f) L cm None (root_ptr rc))" and rc: "is_tree (rb_mem t) (Some m) rc"
    and f: "rb_mem t f = Some (node_of (seg_parent (Some n) k1) L cf (Some m) (root_ptr s))"
    and s: "is_tree (rb_mem t) (Some f) s" and seg: "is_seg (rb_mem t) (Some n) k1 (Some f)"
    using tree fr by (auto simp: is_tree_plug)
  have d: "distinct (f # addrs s @ path_addrs k1 @ m # addrs rc)" "n \<notin> set (f # addrs s @ path_addrs k1 @ m # addrs rc)"
    using dis fr by (auto simp: distinct_plug set_plug)
  obtain t1 where t1: "(if root_ptr rc \<noteq> None then rb_set (rn_parent_update (\<lambda>_. Some f)) (root_ptr rc) t else Some t) = Some t1"
    "is_tree (rb_mem t1) (Some f) rc" "rb_root t1 = rb_root t" "\<And>p. p \<notin> set (addrs rc) \<Longrightarrow> rb_mem t1 p = rb_mem t p"
    by (rule reparent [OF rc, of "Some f"]) (use d(1) in auto)
  let ?m2 = "(rb_mem t1)(f \<mapsto> node_of (seg_parent (Some n) k1) L cf (root_ptr rc) (root_ptr s))"
  let ?t2 = "t1\<lparr>rb_mem := ?m2\<rparr>"
  have f1: "rb_mem t1 f = rb_mem t f" using t1(4) d(1) by simp
  have set2: "rb_set (rn_left_update (\<lambda>_. root_ptr rc)) (Some f) t1 = Some ?t2" using f f1 by (simp add: rb_set_Some)
  have "is_tree ?m2 (Some n) (plug ?old rc)"
  proof -
    have keep: "?m2 b = rb_mem t b" if "b \<in> set (addrs s) \<union> set (path_addrs k1)" for b
      using t1(4) [of b] that d(1) by auto
    have "is_tree ?m2 (Some f) s" by (rule is_tree_cong [THEN iffD2, OF _ s]) (rule keep, simp)
    moreover have "is_tree ?m2 (Some f) rc"
      by (rule is_tree_cong [THEN iffD2, OF _ t1(2)]) (use d(1) in auto)
    moreover have "is_seg ?m2 (Some n) k1 (Some f)"
      by (rule is_seg_cong [OF seg]) (rule keep, simp)
    ultimately show ?thesis by (auto simp: is_tree_plug)
  qed
  note tree2 = this
  let ?T = "plug ?old rc"
  define r0 where "r0 = root_ptr ?T"
  have r0: "root_ptr (plug kk (Node cm Leaf m rc)) = r0" "r0 \<noteq> None"
    using plug_root [of ?old rc] plug_root_eq [of ?old rc "Node cm Leaf m rc"] unfolding r0_def fr by auto
  have m2: "?m2 m = Some (node_of (Some f) L cm None (root_ptr rc))" using m t1(4) [of m] d(1) by auto
  have n2: "rb_get rn_right (Some n) ?t2 = Some r0"
  proof -
    have "rb_mem ?t2 n = rb_mem t n" using t1(4) [of n] d(2) by auto
    with n r0(1) show ?thesis by (simp add: rb_get_def)
  qed
  let ?t3 = "?t2\<lparr>rb_mem := ?m2(m \<mapsto> node_of (Some f) L cm None r0)\<rparr>"
  have set3: "rb_set (rn_right_update (\<lambda>_. r0)) (Some m) ?t2 = Some ?t3" using m2 by (simp add: rb_set_Some)
  have notin: "m \<notin> set (addrs ?T)" "distinct (addrs ?T)" using d(1) by (auto simp: set_plug distinct_plug)
  have tree3: "is_tree (rb_mem ?t3) (Some n) ?T"
    by (rule is_tree_cong [THEN iffD2, OF _ tree2]) (use notin(1) in auto)
  obtain t4 where t4: "(if root_ptr ?T \<noteq> None then rb_set (rn_parent_update (\<lambda>_. Some m)) (root_ptr ?T) ?t3 else Some ?t3) = Some t4"
    "is_tree (rb_mem t4) (Some m) ?T" "rb_root t4 = rb_root ?t3" "\<And>p. p \<notin> set (addrs ?T) \<Longrightarrow> rb_mem t4 p = rb_mem ?t3 p"
    by (rule reparent [OF tree3 notin(2), of "Some m"]) blast
  have "Some f \<noteq> Some n" using d(2) by auto
  moreover have set4: "rb_set (rn_parent_update (\<lambda>_. Some m)) r0 ?t3 = Some t4" using t4(1) r0(2) by (simp add: r0_def)
  ultimately have "splice_leaf (Some n) (Some m) (root_ptr rc) (Some f) t = Some (Some f, t4)"
    unfolding splice_leaf_def using t1(1) set2 n2 set3 set4 by simp
  moreover have "rb_mem t4 m = Some (node_of (Some f) L cm None (root_ptr ?T))"
    using t4(4) [OF notin(1)] by (simp add: r0_def)
  moreover have "rb_mem t4 b = rb_mem t b" if "b \<notin> set (addrs (plug kk (Node cm Leaf m rc)))" for b
    using that t4(4) [of b] t1(4) [of b] fr by (auto simp: set_plug)
  ultimately show thesis using t4(2,3) t1(3) fr by (intro that [of t4 "Some f"]) simp_all
qed

lemma swap_focus:
  assumes foc: "focus m0 t k (Node c l n r)" and l: "l \<noteq> Leaf" and r: "r = plug kk (Node cm Leaf m rc)" "left_only kk"
  obtains t' where "swap_node_with_leaf (Some n) (Some m) t
      = (if cm = Black then rb_tree_delete_case (root_ptr rc) (path_parent (kk @ Fr R c m l # k)) t' else Some t')"
    "focus (forget n m0 t') t' (kk @ Fr R c m l # k) rc"
proof -
  let ?r' = "plug kk rc"
  have n: "rb_mem t n = Some (node_of (path_parent k) L c (root_ptr l) (root_ptr r))"
    and path: "is_path (rb_mem t) (rb_root t) k (Some n)"
    and tl: "is_tree (rb_mem t) (Some n) l" and tr: "is_tree (rb_mem t) (Some n) (plug kk (Node cm Leaf m rc))"
    and d: "distinct (path_addrs k)" "n \<notin> set (path_addrs k)" "distinct (addrs l)" "distinct (n # addrs r)"
      "n \<notin> set (addrs l)" "set (addrs l) \<inter> set (addrs r) = {}" "set (path_addrs k) \<inter> set (addrs l) = {}"
      "set (path_addrs k) \<inter> set (addrs r) = {}"
    and out: "\<And>b. b \<notin> set (path_addrs k) \<Longrightarrow> b \<noteq> n \<Longrightarrow> b \<notin> set (addrs l) \<Longrightarrow> b \<notin> set (addrs r) \<Longrightarrow> rb_mem t b = m0 b"
    using foc r(1) by (auto simp: focus_def)
  have rset: "set (addrs r) = insert m (set (addrs ?r'))" and rd: "distinct (addrs ?r')" "m \<notin> set (addrs ?r')"
    using d(4) r(1) by (auto simp: set_plug distinct_plug)
  have mr: "m \<in> set (addrs r)" using rset by simp
  have m: "rb_mem t m = Some (node_of (seg_parent (Some n) kk) L cm None (root_ptr rc))" using tr by (simp add: is_tree_plug)
  obtain t1 where t1: "replace_child (path_parent k) (Some n) (Some m) t = Some t1"
    "is_path (rb_mem t1) (rb_root t1) k (Some m)" "\<And>b. b \<notin> set (path_addrs k) \<Longrightarrow> rb_mem t1 b = rb_mem t b"
    by (rule replace_child_path [OF path d(1,2), of "Some m"]) blast
  have same1: "rb_mem t1 b = rb_mem t b" if "b = n \<or> b \<in> set (addrs l) \<or> b \<in> set (addrs r)" for b
    using t1(3) [of b] that d by blast
  have tr1: "is_tree (rb_mem t1) (Some n) (plug kk (Node cm Leaf m rc))"
    by (rule is_tree_cong [THEN iffD2, OF _ tr]) (use same1 r(1) in blast)
  have n1: "rb_get rn_right (Some n) t1 = Some (root_ptr (plug kk (Node cm Leaf m rc)))"
    using same1 [of n] n r(1) by simp
  obtain fa t2 where t2: "splice_leaf (Some n) (Some m) (root_ptr rc) (seg_parent (Some n) kk) t1 = Some (seg_parent (Some m) kk, t2)"
    "is_tree (rb_mem t2) (Some m) ?r'" "rb_mem t2 m = Some (node_of fa L cm None (root_ptr ?r'))"
    "rb_root t2 = rb_root t1" "\<And>b. b \<notin> set (addrs r) \<Longrightarrow> rb_mem t2 b = rb_mem t1 b"
    by (rule splice_leaf_tree [OF tr1 r(2) _ n1]) (use d(4) r(1) in auto)
  let ?nd = "node_of (path_parent k) L c (root_ptr l) (root_ptr ?r')"
  let ?t3 = "t2\<lparr>rb_mem := (rb_mem t2)(m \<mapsto> ?nd)\<rparr>"
  have n2: "rb_mem t2 n = rb_mem t n" using t2(5) [of n] same1 [of n] d(4) by simp
  have l_off: "b \<noteq> m \<and> b \<notin> set (addrs r)" if "b \<in> set (addrs l)" for b using that d(6) mr by blast
  have "is_tree (rb_mem ?t3) (Some n) l"
    by (rule is_tree_cong [THEN iffD2, OF _ tl]) (use l_off t2(5) same1 in auto)
  then obtain t4 where t4: "(if root_ptr l \<noteq> None then rb_set (rn_parent_update (\<lambda>_. Some m)) (root_ptr l) ?t3 else Some ?t3) = Some t4"
    "is_tree (rb_mem t4) (Some m) l" "rb_root t4 = rb_root ?t3" "\<And>b. b \<notin> set (addrs l) \<Longrightarrow> rb_mem t4 b = rb_mem ?t3 b"
    by (rule reparent [OF _ d(3), of _ _ "Some m"]) blast
  have "root_ptr l \<noteq> None" using l by (cases l) auto
  then have set4: "rb_set (rn_parent_update (\<lambda>_. Some m)) (root_ptr l) ?t3 = Some t4" using t4(1) by simp
  have ml: "m \<notin> set (addrs l)" using l_off by blast
  have fa_eq: "seg_parent (Some m) kk = path_parent (kk @ Fr R c m l # k)" 
  proof (cases kk)
    case (Cons f kk')
    then show ?thesis by (cases f) simp
  qed simp
  have mn: "m \<noteq> n" using d(4) mr by auto
  have code: "swap_node_with_leaf (Some n) (Some m) t
      = (if cm = Black then rb_tree_delete_case (root_ptr rc) (path_parent (kk @ Fr R c m l # k)) t4 else Some t4)"
    unfolding swap_node_with_leaf_def fa_eq [symmetric]
    using n m t1(1) same1 [OF disjI2, OF disjI2, OF mr] t2(1,3) n2 set4 mn by (simp add: rb_set_Some)
  have "rb_mem t4 m = Some ?nd" using t4(4) [OF ml] by simp
  moreover have "is_tree (rb_mem t4) (Some m) ?r'"
  proof (rule is_tree_cong [THEN iffD2, OF _ t2(2)])
    fix b assume "b \<in> set (addrs ?r')"
    then have "b \<notin> set (addrs l)" "b \<noteq> m" using d(6) rset rd(2) by auto
    then show "rb_mem t4 b = rb_mem t2 b" using t4(4) [of b] by simp
  qed
  moreover have "is_path (rb_mem t4) (rb_root t4) k (Some m)"
  proof -
    have "rb_mem t4 b = rb_mem t1 b" if "b \<in> set (path_addrs k)" for b
    proof -
      have "b \<notin> set (addrs l)" "b \<notin> set (addrs r)" "b \<noteq> m" using that d(7,8) mr by blast+
      then show ?thesis using t4(4) [of b] t2(5) [of b] by simp
    qed
    from is_path_cong [THEN iffD2, OF this t1(2)] t4(3) t2(4) show ?thesis by simp
  qed
  moreover have "rb_mem t4 b = (forget n m0 t4) b"
    if "b \<notin> set (path_addrs k)" "b \<noteq> m" "b \<notin> set (addrs l)" "b \<notin> set (addrs ?r')" for b
  proof (cases "b = n")
    case False
    then show ?thesis using that out [of b] t4(4) [of b] t2(5) [of b] t1(3) [of b] rset by simp
  qed simp
  moreover have "m \<notin> set (path_addrs k)" "set (path_addrs k) \<inter> set (addrs ?r') = {}"
    "set (addrs l) \<inter> set (addrs ?r') = {}" using d(6,8) mr rset by blast+
  ultimately have "focus (forget n m0 t4) t4 k (Node c l m ?r')"
    using t4(2) d(1,3,7) rd ml by (auto simp: focus_def)
  then have "focus (forget n m0 t4) t4 (kk @ Fr R c m l # k) rc"
    by (simp add: focus_append focus_down_right)
  with code show thesis by (intro that)
qed

lemma find_node: "n \<in> set (addrs T) \<Longrightarrow> \<exists>k c l r. T = plug k (Node c l n r)"
proof (induction T)
  case (Node c l a r)
  consider "n = a" | "n \<in> set (addrs l)" | "n \<in> set (addrs r)" using Node.prems by auto
  then show ?case
  proof cases
    case 1
    then show ?thesis by (intro exI [of _ "[]"]) auto
  next
    case 2
    then obtain k c' l' r' where "l = plug k (Node c' l' n r')" using Node.IH(1) by blast
    then have "Node c l a r = plug (k @ [Fr L c a r]) (Node c' l' n r')" by (simp add: plug_append)
    then show ?thesis by blast
  next
    case 3
    then obtain k c' l' r' where "r = plug k (Node c' l' n r')" using Node.IH(2) by blast
    then have "Node c l a r = plug (k @ [Fr R c a l]) (Node c' l' n r')" by (simp add: plug_append)
    then show ?thesis by blast
  qed
qed simp

text \<open>The balance of a path does not depend on the labels of its frames.\<close>

lemma path_inv_relabel: "path_inv (kk @ Fr d c a s # k) h b \<longleftrightarrow> path_inv (kk @ Fr d c a' s # k) h b"
  by (induction kk h b rule: path_inv.induct) auto

lemma before_append: "before (kk @ k) = before k @ before kk"
  by (induction kk rule: before.induct) auto

lemma after_append: "after (kk @ k) = after kk @ after k"
  by (induction kk rule: after.induct) auto

lemma before_left_only: "left_only kk \<Longrightarrow> before kk = []"
  by (induction kk rule: before.induct) auto

lemma rb_delete_correct:
  assumes "rb_is m0 t T" and "rb_valid T" and "n \<in> set (addrs T)"
  obtains t' T' where "rb_tree_delete (Some n) t = Some t'" "rb_is (forget n m0 t') t' T'" "rb_valid T'"
    "addrs T' = remove1 n (addrs T)"
proof -
  obtain k c l r where T: "T = plug k (Node c l n r)" using find_node [OF assms(3)] by blast
  have foc: "focus m0 t k (Node c l n r)" using focus_plug [THEN iffD2] assms(1) T by simp
  have dist: "distinct (before k @ addrs l @ n # addrs r @ after k)"
    using assms(1) T by (simp add: focus_def addrs_plug)
  then have rem: "remove1 n (addrs T) = before k @ addrs l @ addrs r @ after k"
    unfolding T by (simp add: addrs_plug remove1_append)
  note get = focus_node [OF foc]
  show thesis
  proof (cases "l = Leaf \<or> r = Leaf")
    case True
    obtain t' T' where res: "remove_node_has_one_child (Some n) t = Some t'" "rb_is (forget n m0 t') t' T'" "rb_valid T'"
      "addrs T' = before k @ addrs l @ addrs r @ after k"
      by (rule remove_one_child_correct [OF foc True]) (use assms(2) T in auto)
    have "rb_tree_delete (Some n) t = remove_node_has_one_child (Some n) t"
      using get True by (auto simp: rb_tree_delete_def)
    with res rem show thesis by (intro that [of t' T']) simp_all
  next
    case False
    then have lr: "l \<noteq> Leaf" "r \<noteq> Leaf" "root_ptr l \<noteq> None" "root_ptr r \<noteq> None" by (cases l; cases r; simp)+
    have "focus m0 t (Fr R c n l # k) r" using foc by (simp only: focus_down_right)
    from leftmost_focus [OF this lr(2)] obtain kk cm m rc where
      m: "leftmost_loop (root_ptr r) t = Some (Some m)" "r = plug kk (Node cm Leaf m rc)" "left_only kk" by blast
    let ?K = "kk @ Fr R c m l # k"
    obtain t1 where t1: "swap_node_with_leaf (Some n) (Some m) t
        = (if cm = Black then rb_tree_delete_case (root_ptr rc) (path_parent ?K) t1 else Some t1)"
      "focus (forget n m0 t1) t1 ?K rc" by (rule swap_focus [OF foc lr(1) m(2,3)])
    have code: "rb_tree_delete (Some n) t
        = (if cm = Black then rb_tree_delete_case (root_ptr rc) (path_parent ?K) t1 else Some t1)"
      using get lr(3,4) m(1) t1(1) by (auto simp: rb_tree_delete_def)
    have "T = plug (kk @ Fr R c n l # k) (Node cm Leaf m rc)" using T m(2) by (simp add: plug_append)
    then have "rb_valid (plug (kk @ Fr R c n l # k) (Node cm Leaf m rc))" using assms(2) by simp
    note inv = valid_plugD [OF this]
    have top: "black_top ?K" using inv(4) by (cases k) (auto simp: black_top_def)
    have pin: "path_inv ?K cm (bh (Node cm Leaf m rc))" 
      using inv(3) path_inv_relabel [THEN iffD1, of kk R c n l k] by simp
    have rc: "invc rc" "invh rc" "bh rc = 0" "cm = Red \<Longrightarrow> color_of rc = Black" using inv(1,2) by auto
    obtain t' T' where res: "rb_tree_delete (Some n) t = Some t'" "rb_is (forget n m0 t1) t' T'" "rb_valid T'"
      "addrs T' = addrs (plug ?K rc)"
      unfolding code
    proof (rule finish_removal [OF t1(2) refl rc(1,2) top, of cm])
      show "cm = Red \<Longrightarrow> color_of rc = Black \<and> path_inv ?K Black (bh rc)"
        using pin rc(3,4) path_inv_black [of ?K Red] by simp
      show "cm = Black \<Longrightarrow> path_inv ?K Black (bh rc + 1)" using pin rc(3) by simp
      show "?K = [] \<Longrightarrow> cm = Black" by simp
    qed
    have "addrs r = m # addrs rc @ after kk" using m(2,3) by (simp add: addrs_plug before_left_only)
    then have addrs: "addrs T' = before k @ addrs l @ addrs r @ after k"
      using res(4) m(3) by (simp add: addrs_plug before_append after_append before_left_only)
    then have "n \<notin> set (addrs T')" using dist by auto
    from forget_eq [OF res(2) this] res(1,3) addrs rem show thesis by (intro that [of t' T']) simp_all
  qed
qed

subsection \<open>The property\<close>

text \<open>C2: \<open>rb_tree_delete\<close> of a node of a red-black tree ends without an undefined access, takes
  exactly that node out of the order of the tree, gives a valid red-black tree again, and changes
  no node outside the tree (the removed node itself keeps stale links).\<close>

theorem rb_delete_keeps:
  assumes "rb_is m0 t T" and "rb_valid T" and "n \<in> set (addrs T)"
  shows "\<exists>t' T'. rb_tree_delete (Some n) t = Some t' \<and> rb_is (m0(n := rb_mem t' n)) t' T' \<and> rb_valid T'
    \<and> addrs T' = remove1 n (addrs T)"
  by (rule rb_delete_correct [OF assms]) blast

theorem rb_delete_keeps_witness:
  "\<exists>t' T'. rb_tree_delete (Some 1) small_tree = Some t'
    \<and> rb_is ((rb_mem small_tree)(1 := rb_mem t' 1)) t' T' \<and> rb_valid T' \<and> addrs T' = [2]"
  using rb_delete_keeps [OF small_tree_is, of 1] by (simp add: rb_valid_def)

end
