(* ===== verification/Thread.thy ===== *)
theory Thread
  imports As_Dlist Rb_Delete
begin

text \<open>
  The cooperative threads of \<^verbatim>\<open>src/c/src/thread.h\<close> and
  \<^verbatim>\<open>src/c/src/thread.c\<close>: the pools that order sleeping and waiting threads by
  deadline, the list of resources a thread owns, and the epoll registration of a resource.
  The red-black node \<open>p_idx\<close> is part of the thread, so a node and its thread have the
  same address (\<open>container_of\<close>). The Lua interpreter and the kernel are not part of the
  program: \<open>ref\<close> and \<open>unref\<close> (a thread's Lua coroutine), \<open>ctl\<close> (\<open>epoll_ctl\<close>),
  \<open>fdf\<close> and \<open>freef\<close> (the function pointers of a resource, by number) are arguments,
  and their state is the component \<open>w_ext\<close>.
\<close>

subsection \<open>Data\<close>

datatype tstatus = TS_Ready | TS_Run | TS_Sleep | TS_Stop

datatype rstatus = RS_Idle | RS_Ev

datatype tmode = TM_Simple | TM_Loop_Socks

record as_res = dnode +
  rs_freef :: "nat option"
  rs_fdf :: nat
  rs_status :: rstatus
  rs_th :: ptr
  rs_d :: int

record as_thread =
  th_tid :: u32
  th_T :: ptr
  th_et :: int
  th_pool :: ptr
  th_status :: tstatus
  th_mode :: tmode
  th_mfd_res :: ptr
  th_resl :: dlist

record th_array =
  ta_n :: nat
  ta_ths :: "ptr list"

text \<open>A pool (\<open>as_rb_tree_t\<close>) is the address of a root pointer; all pools share the nodes.\<close>

record 'x world =
  w_nodes :: "rb_node store"
  w_pools :: "ptr store"
  w_ths :: "as_thread store"
  w_res :: "as_res store"
  w_cur_tid :: u32
  w_ext :: 'x

definition set_th :: "(as_thread \<Rightarrow> as_thread) \<Rightarrow> ptr \<Rightarrow> 'x world \<Rightarrow> 'x world option" where
  "set_th u p w = map_option (\<lambda>m. w\<lparr>w_ths := m\<rparr>) (modify u p (w_ths w))"

definition set_res :: "(as_res \<Rightarrow> as_res) \<Rightarrow> ptr \<Rightarrow> 'x world \<Rightarrow> 'x world option" where
  "set_res u p w = map_option (\<lambda>m. w\<lparr>w_res := m\<rparr>) (modify u p (w_res w))"

definition on_pool :: "ptr \<Rightarrow> (rb_tree \<Rightarrow> ('r \<times> rb_tree) option) \<Rightarrow> 'x world \<Rightarrow> ('r \<times> 'x world) option" where
  "on_pool p f w = do {
     a \<leftarrow> p;
     root \<leftarrow> w_pools w a;
     (r, t) \<leftarrow> f \<lparr>rb_mem = w_nodes w, rb_root = root\<rparr>;
     Some (r, w\<lparr>w_nodes := rb_mem t, w_pools := (w_pools w)(a \<mapsto> rb_root t)\<rparr>)
   }"

definition unit_op :: "(rb_tree \<Rightarrow> rb_tree option) \<Rightarrow> rb_tree \<Rightarrow> (unit \<times> rb_tree) option" where
  "unit_op f t = map_option (Pair ()) (f t)"

definition et_of :: "'x world \<Rightarrow> addr \<Rightarrow> int" where
  "et_of w a = (case w_ths w a of None \<Rightarrow> 0 | Some th \<Rightarrow> th_et th)"

definition node_et_lt :: "'x world \<Rightarrow> addr \<Rightarrow> addr \<Rightarrow> bool" where
  "node_et_lt w a b \<longleftrightarrow> et_of w a < et_of w b"

subsection \<open>Threads and pools\<close>

text \<open>\<open>cur_tid\<close> is a static 32-bit counter; the result is it, read as an \<open>int\<close>.\<close>

definition asthread_th_init ::
  "(u32 \<Rightarrow> 'x \<Rightarrow> ptr \<times> 'x) \<Rightarrow> ptr \<Rightarrow> 'x world \<Rightarrow> (int \<times> 'x world) option" where
  "asthread_th_init ref th w = (
     let w = w\<lparr>w_cur_tid := w_cur_tid w + 1\<rparr>;
         (T, x) = ref (w_cur_tid w) (w_ext w);
         w = w\<lparr>w_ext := x\<rparr>
     in if T = None then Some (-1, w\<lparr>w_cur_tid := w_cur_tid w - 1\<rparr>)
        else do {
          w \<leftarrow> set_th (\<lambda>t. t\<lparr>th_tid := w_cur_tid w, th_T := T, th_status := TS_Ready, th_mode := TM_Simple,
                               th_pool := None, th_resl := dlist_init (th_resl t)\<rparr>) th w;
          Some (sint (w_cur_tid w), w)
        })"

partial_function (option) th_free_loop ::
  "(nat \<Rightarrow> addr \<Rightarrow> 'x world \<Rightarrow> 'x world option) \<Rightarrow> ptr \<Rightarrow> 'x world \<Rightarrow> 'x world option" where
  "th_free_loop freef dln w = (case dln of
       None \<Rightarrow> Some w
     | Some a \<Rightarrow> do {
         w \<leftarrow> set_res (rs_th_update (\<lambda>_. None)) (Some a) w;
         r \<leftarrow> w_res w a;
         w \<leftarrow> (case rs_freef r of
                 None \<Rightarrow> Some w
               | Some f \<Rightarrow> do {
                   w \<leftarrow> freef f a w;
                   set_res (rs_freef_update (\<lambda>_. None)) (Some a) w
                 });
         th_free_loop freef (dl_next r) w
       })"

definition asthread_th_free ::
  "(ptr \<Rightarrow> u32 \<Rightarrow> 'x \<Rightarrow> 'x) \<Rightarrow> (nat \<Rightarrow> addr \<Rightarrow> 'x world \<Rightarrow> 'x world option) \<Rightarrow> ptr \<Rightarrow> 'x world \<Rightarrow> (int \<times> 'x world) option" where
  "asthread_th_free unref freef th w = do {
     t \<leftarrow> deref (w_ths w) th;
     let w = w\<lparr>w_ext := unref (th_T t) (th_tid t) (w_ext w)\<rparr>;
     w \<leftarrow> th_free_loop freef (dl_head (th_resl t)) w;
     Some (0, w)
   }"

definition asthread_th_add_to_pool :: "addr \<Rightarrow> ptr \<Rightarrow> 'x world \<Rightarrow> (int \<times> 'x world) option" where
  "asthread_th_add_to_pool th pool w = do {
     t \<leftarrow> w_ths w th;
     if pool = None \<or> th_status t = TS_Stop then Some (-1, w)
     else do {
       w \<leftarrow> set_th (th_pool_update (\<lambda>_. pool)) (Some th) w;
       (_, w) \<leftarrow> on_pool pool (unit_op (rb_tree_insert (node_et_lt w) th)) w;
       (_, w) \<leftarrow> on_pool pool (unit_op (rb_tree_insert_case (Some th))) w;
       Some (0, w)
     }
   }"

definition asthread_th_del_from_pool :: "addr \<Rightarrow> 'x world \<Rightarrow> (int \<times> 'x world) option" where
  "asthread_th_del_from_pool th w = do {
     t \<leftarrow> w_ths w th;
     if th_pool t = None then Some (-1, w)
     else do {
       (_, w) \<leftarrow> on_pool (th_pool t) (unit_op (rb_tree_delete (Some th))) w;
       w \<leftarrow> set_th (th_pool_update (\<lambda>_. None)) (Some th) w;
       Some (0, w)
     }
   }"

definition asthread_th_add_to_array :: "addr \<Rightarrow> th_array \<Rightarrow> 'x world \<Rightarrow> (th_array \<times> 'x world) option" where
  "asthread_th_add_to_array th arr w = do {
     (_, w) \<leftarrow> asthread_th_del_from_pool th w;
     ths \<leftarrow> arr_set (ta_ths arr) (ta_n arr) (Some th);
     Some (arr\<lparr>ta_ths := ths, ta_n := ta_n arr + 1\<rparr>, w)
   }"

definition asthread_th_to_stop :: "addr \<Rightarrow> th_array \<Rightarrow> 'x world \<Rightarrow> (th_array \<times> 'x world) option" where
  "asthread_th_to_stop th arr w = do {
     w \<leftarrow> set_th (th_status_update (\<lambda>_. TS_Stop)) (Some th) w;
     w \<leftarrow> set_th (th_pool_update (\<lambda>_. None)) (Some th) w;
     asthread_th_add_to_array th arr w
   }"

definition asthread_th_to_sleep :: "addr \<Rightarrow> int \<Rightarrow> ptr \<Rightarrow> 'x world \<Rightarrow> 'x world option" where
  "asthread_th_to_sleep th et pool w = do {
     w \<leftarrow> set_th (th_et_update (\<lambda>_. et)) (Some th) w;
     w \<leftarrow> set_th (th_status_update (\<lambda>_. TS_Sleep)) (Some th) w;
     (_, w) \<leftarrow> asthread_th_add_to_pool th pool w;
     Some w
   }"

definition asthread_th_to_iowait :: "addr \<Rightarrow> int \<Rightarrow> ptr \<Rightarrow> 'x world \<Rightarrow> 'x world option" where
  "asthread_th_to_iowait th et pool w = do {
     w \<leftarrow> set_th (th_et_update (\<lambda>_. et)) (Some th) w;
     w \<leftarrow> set_th (th_status_update (\<lambda>_. TS_Run)) (Some th) w;
     (_, w) \<leftarrow> asthread_th_add_to_pool th pool w;
     Some w
   }"

definition asthread_th_is_ready :: "as_thread \<Rightarrow> bool" where
  "asthread_th_is_ready t \<longleftrightarrow> th_status t = TS_Ready"

definition asthread_th_is_stop :: "as_thread \<Rightarrow> bool" where
  "asthread_th_is_stop t \<longleftrightarrow> th_status t = TS_Stop"

definition asthread_th_is_simple_mode :: "as_thread \<Rightarrow> bool" where
  "asthread_th_is_simple_mode t \<longleftrightarrow> th_mode t = TM_Simple"

subsection \<open>Resources\<close>

definition asthread_res_init :: "ptr \<Rightarrow> nat option \<Rightarrow> nat \<Rightarrow> 'x world \<Rightarrow> (int \<times> 'x world) option" where
  "asthread_res_init res ff fdf w = do {
     w \<leftarrow> set_res (\<lambda>r. r\<lparr>rs_status := RS_Idle, rs_freef := ff, rs_fdf := fdf\<rparr>) res w;
     h \<leftarrow> dlist_node_init res (w_res w);
     Some (0, w\<lparr>w_res := h\<rparr>)
   }"

definition asthread_res_add_to_th :: "addr \<Rightarrow> addr \<Rightarrow> 'x world \<Rightarrow> (int \<times> 'x world) option" where
  "asthread_res_add_to_th res th w = do {
     w \<leftarrow> set_res (rs_th_update (\<lambda>_. Some th)) (Some res) w;
     t \<leftarrow> w_ths w th;
     (d, h) \<leftarrow> dlist_add_to_head (th_resl t) res (w_res w);
     w \<leftarrow> set_th (th_resl_update (\<lambda>_. d)) (Some th) (w\<lparr>w_res := h\<rparr>);
     Some (0, w)
   }"

definition asthread_res_del_from_th :: "addr \<Rightarrow> addr \<Rightarrow> 'x world \<Rightarrow> (int \<times> 'x world) option" where
  "asthread_res_del_from_th res th w = do {
     t \<leftarrow> w_ths w th;
     (d, h) \<leftarrow> dlist_del (th_resl t) res (w_res w);
     w \<leftarrow> set_th (th_resl_update (\<lambda>_. d)) (Some th) (w\<lparr>w_res := h\<rparr>);
     Some (0, w)
   }"

datatype ep_op = EP_Add | EP_Mod

text \<open>\<open>ctl op epfd fd data events\<close>; the \<open>debug_perror\<close> of a failed call is not modelled.\<close>

definition res_ev_ctl ::
  "(ep_op \<Rightarrow> int \<Rightarrow> int \<Rightarrow> addr \<Rightarrow> u32 \<Rightarrow> 'x \<Rightarrow> int \<times> 'x) \<Rightarrow> (nat \<Rightarrow> int \<Rightarrow> int) \<Rightarrow> ep_op \<Rightarrow> u32 \<Rightarrow> rstatus
   \<Rightarrow> addr \<Rightarrow> int \<Rightarrow> 'x world \<Rightarrow> (int \<times> 'x world) option" where
  "res_ev_ctl ctl fdf op events st res epfd w = do {
     r \<leftarrow> w_res w res;
     let (ret, x) = ctl op epfd (fdf (rs_fdf r) (rs_d r)) res events (w_ext w);
     let w = w\<lparr>w_ext := x\<rparr>;
     w \<leftarrow> (if ret = 0 then set_res (rs_status_update (\<lambda>_. st)) (Some res) w else Some w);
     Some (ret, w)
   }"

definition asthread_res_ev_init where
  "asthread_res_ev_init ctl fdf res epfd w = res_ev_ctl ctl fdf EP_Add 0 RS_Idle res epfd w"

definition asthread_res_ev_add where
  "asthread_res_ev_add ctl fdf res epfd events w = res_ev_ctl ctl fdf EP_Mod events RS_Ev res epfd w"

definition asthread_res_ev_del where
  "asthread_res_ev_del ctl fdf res epfd w = do {
     r \<leftarrow> w_res w res;
     if rs_status r = RS_Ev then Some (0, w)
     else res_ev_ctl ctl fdf EP_Mod 0 RS_Idle res epfd w
   }"

definition asthread_remove_res_from_epfd where
  "asthread_remove_res_from_epfd ctl fdf th epfd w = do {
     t \<leftarrow> w_ths w th;
     dlist_pos_travel w_res (\<lambda>a w. map_option snd (asthread_res_ev_del ctl fdf a epfd w)) (dl_head (th_resl t)) w
   }"

subsection \<open>Timeouts\<close>

partial_function (option) expired_spine :: "(addr \<Rightarrow> int) \<Rightarrow> int \<Rightarrow> ptr \<Rightarrow> rb_tree \<Rightarrow> ptr option" where
  "expired_spine et now n t = do {
     r \<leftarrow> rb_get rn_right n t;
     case r of
       None \<Rightarrow> Some n
     | Some b \<Rightarrow> if now \<ge> et b then expired_spine et now r t else Some n
   }"

partial_function (option) expired_left :: "(addr \<Rightarrow> int) \<Rightarrow> int \<Rightarrow> ptr \<Rightarrow> rb_tree \<Rightarrow> ptr option" where
  "expired_left et now n t = (case n of
       None \<Rightarrow> Some None
     | Some a \<Rightarrow> if et a > now then do {
                   l \<leftarrow> rb_get rn_left n t;
                   expired_left et now l t
                 }
                 else Some n)"

text \<open>On a pool whose root is not \<open>NULL\<close>; \<open>now\<close> is the result of \<open>time(NULL)\<close>.\<close>

definition remove_timeout :: "(addr \<Rightarrow> int) \<Rightarrow> int \<Rightarrow> rb_tree \<Rightarrow> (ptr \<times> rb_tree) option" where
  "remove_timeout et now t = (case rb_root t of
       None \<Rightarrow> Some (None, t)
     | Some root \<Rightarrow>
         if now \<ge> et root then do {
           n \<leftarrow> expired_spine et now (Some root) t;
           r \<leftarrow> rb_get rn_right n t;
           let t = t\<lparr>rb_root := r\<rparr>;
           t \<leftarrow> (if r \<noteq> None then do {
                    t \<leftarrow> rb_set (rn_parent_update (\<lambda>_. None)) r t;
                    rb_set (rn_color_update (\<lambda>_. Black)) r t
                  }
                  else Some t);
           t \<leftarrow> rb_set (rn_right_update (\<lambda>_. None)) n t;
           Some (Some root, t)
         }
         else do {
           l \<leftarrow> rb_get rn_left (Some root) t;
           ret \<leftarrow> expired_left et now l t;
           t \<leftarrow> (if ret \<noteq> None then rb_tree_remove_subtree ret t else Some t);
           Some (ret, t)
         })"

definition asthread_remove_timeout_threads :: "int \<Rightarrow> ptr \<Rightarrow> 'x world \<Rightarrow> (ptr \<times> 'x world) option" where
  "asthread_remove_timeout_threads now pool w = on_pool pool (remove_timeout (et_of w) now) w"

declare th_free_loop.simps [code] expired_spine.simps [code] expired_left.simps [code]

subsection \<open>Pools stay ordered and balanced\<close>

definition pool_tree :: "'x world \<Rightarrow> addr \<Rightarrow> rb_tree \<Rightarrow> bool" where
  "pool_tree w p t \<longleftrightarrow> w_pools w p = Some (rb_root t) \<and> rb_mem t = w_nodes w"

definition pool_is :: "'x world \<Rightarrow> addr \<Rightarrow> rbt \<Rightarrow> bool" where
  "pool_is w p T \<longleftrightarrow> (\<exists>t. pool_tree w p t \<and> rb_is (w_nodes w) t T) \<and> rb_valid T \<and> sorted (map (et_of w) (addrs T))"

lemma on_pool_Some:
  "pool_tree w p t \<Longrightarrow> f t = Some (r, t') \<Longrightarrow>
   on_pool (Some p) f w = Some (r, w\<lparr>w_nodes := rb_mem t', w_pools := (w_pools w)(p \<mapsto> rb_root t')\<rparr>)"
  by (cases t) (simp add: on_pool_def pool_tree_def)

lemma set_th_Some:
  "w_ths w a = Some t \<Longrightarrow> set_th u (Some a) w = Some (w\<lparr>w_ths := (w_ths w)(a \<mapsto> u t)\<rparr>)"
  by (simp add: set_th_def modify_Some)

lemma set_res_Some:
  "w_res w a = Some r \<Longrightarrow> set_res u (Some a) w = Some (w\<lparr>w_res := (w_res w)(a \<mapsto> u r)\<rparr>)"
  by (simp add: set_res_def modify_Some)

lemma et_of_upd [simp]: "et_of (w\<lparr>w_nodes := x\<rparr>) = et_of w" "et_of (w\<lparr>w_pools := y\<rparr>) = et_of w"
  "et_of (w\<lparr>w_res := z\<rparr>) = et_of w" "et_of (w\<lparr>w_ext := e\<rparr>) = et_of w"
  by (simp_all add: et_of_def fun_eq_iff)

lemma rb_is_own: "rb_is m0 t T \<Longrightarrow> rb_is (rb_mem t) t T"
  by (simp add: focus_def)

lemma rb_is_elsewhere:
  "rb_is m0 t T \<Longrightarrow> (\<And>a. a \<in> set (addrs T) \<Longrightarrow> m a = rb_mem t a) \<Longrightarrow> rb_is m \<lparr>rb_mem = m, rb_root = rb_root t\<rparr> T"
  using is_tree_cong [of T m "rb_mem t" None] by (auto simp: focus_def)

text \<open>The pools other than \<open>p\<close>, with nodes of their own, are not touched.\<close>

definition others_kept :: "'x world \<Rightarrow> addr \<Rightarrow> addr set \<Rightarrow> 'x world \<Rightarrow> bool" where
  "others_kept w p A w' \<longleftrightarrow> (\<forall>q T. q \<noteq> p \<longrightarrow> pool_is w q T \<longrightarrow> A \<inter> set (addrs T) = {} \<longrightarrow> pool_is w' q T)"

lemma others_keptI:
  assumes "\<And>a. a \<notin> A \<Longrightarrow> w_nodes w' a = w_nodes w a" and "\<And>q. q \<noteq> p \<Longrightarrow> w_pools w' q = w_pools w q"
    and "\<And>a. a \<notin> A \<Longrightarrow> et_of w' a = et_of w a"
  shows "others_kept w p A w'"
  unfolding others_kept_def
proof (intro allI impI)
  fix q T assume q: "q \<noteq> p" "pool_is w q T" "A \<inter> set (addrs T) = {}"
  then obtain t where t: "pool_tree w q t" "rb_is (w_nodes w) t T" by (auto simp: pool_is_def)
  let ?t = "\<lparr>rb_mem = w_nodes w', rb_root = rb_root t\<rparr>"
  have "rb_is (w_nodes w') ?t T"
  proof (rule rb_is_elsewhere [OF t(2)])
    fix a assume "a \<in> set (addrs T)"
    then have "a \<notin> A" using q(3) by blast
    then show "w_nodes w' a = rb_mem t a" using assms(1) t(1) by (simp add: pool_tree_def)
  qed
  moreover have "pool_tree w' q ?t" using t(1) q(1) assms(2) by (simp add: pool_tree_def)
  moreover have "map (et_of w') (addrs T) = map (et_of w) (addrs T)"
    by (rule map_cong [OF refl], rule assms(3)) (use q(3) in blast)
  moreover from this have "sorted (map (et_of w') (addrs T))" using q(2) by (simp only: pool_is_def)
  ultimately show "pool_is w' q T" using q(2) unfolding pool_is_def by blast
qed

lemma pool_is_cong:
  assumes "pool_is w p T" and "w_pools w' p = w_pools w p" and "w_nodes w' = w_nodes w"
    and "\<And>a. a \<in> set (addrs T) \<Longrightarrow> et_of w' a = et_of w a"
  shows "pool_is w' p T"
proof -
  have "map (et_of w') (addrs T) = map (et_of w) (addrs T)" by (rule map_cong [OF refl]) (rule assms(4))
  then have "sorted (map (et_of w') (addrs T))" using assms(1) by (simp only: pool_is_def)
  with assms(1-3) show ?thesis by (simp add: pool_is_def pool_tree_def)
qed

lemma others_kept_trans:
  assumes "others_kept w1 p A w'" and "\<And>q T. q \<noteq> p \<Longrightarrow> A \<inter> set (addrs T) = {} \<Longrightarrow> pool_is w q T \<Longrightarrow> pool_is w1 q T"
    and "\<And>q T. pool_is w' q T \<Longrightarrow> pool_is w2 q T"
  shows "others_kept w p A w2"
  using assms unfolding others_kept_def by blast

lemma add_to_pool_correct:
  assumes pool: "pool_is w p T" and th: "w_ths w n = Some tn" "th_status tn \<noteq> TS_Stop"
    and fresh: "n \<notin> set (addrs T)" "w_nodes w n \<noteq> None"
  obtains w' T' where "asthread_th_add_to_pool n (Some p) w = Some (0, w')" "pool_is w' p T'"
    "addrs T' = ins_after (et_of w) n (addrs T)" "w_ths w' = (w_ths w)(n \<mapsto> tn\<lparr>th_pool := Some p\<rparr>)"
    "et_of w' = et_of w" "others_kept w p (insert n (set (addrs T))) w'" "w_res w' = w_res w"
    "dom (w_nodes w) \<subseteq> dom (w_nodes w')" "w_ext w' = w_ext w"
proof -
  obtain t where t: "pool_tree w p t" "rb_is (w_nodes w) t T" "rb_valid T" "sorted (map (et_of w) (addrs T))"
    using pool by (auto simp: pool_is_def)
  have "rb_mem t n \<noteq> None" using fresh(2) t(1) by (simp add: pool_tree_def)
  then obtain t1 t2 T' where t12: "rb_tree_insert (\<lambda>x a. et_of w x < et_of w a) n t = Some t1"
    "rb_tree_insert_case (Some n) t1 = Some t2" "rb_is (w_nodes w) t2 T'" "rb_valid T'"
    "addrs T' = ins_after (et_of w) n (addrs T)"
    by (rule rb_insert_correct [OF t(2-4) fresh(1)])
  let ?w1 = "w\<lparr>w_ths := (w_ths w)(n \<mapsto> tn\<lparr>th_pool := Some p\<rparr>)\<rparr>"
  have et1: "et_of ?w1 = et_of w" using th(1) by (auto simp: et_of_def fun_eq_iff)
  have lt: "node_et_lt ?w1 = (\<lambda>x a. et_of w x < et_of w a)" by (simp add: node_et_lt_def et1 fun_eq_iff)
  let ?w2 = "?w1\<lparr>w_nodes := rb_mem t1, w_pools := (w_pools w)(p \<mapsto> rb_root t1)\<rparr>"
  let ?w3 = "?w1\<lparr>w_nodes := rb_mem t2, w_pools := (w_pools w)(p \<mapsto> rb_root t2)\<rparr>"
  have tree1: "pool_tree ?w1 p t" using t(1) by (simp add: pool_tree_def)
  have tree2: "pool_tree ?w2 p t1" by (simp add: pool_tree_def)
  have op1: "on_pool (Some p) (unit_op (rb_tree_insert (node_et_lt ?w1) n)) ?w1 = Some ((), ?w2)"
    using on_pool_Some [OF tree1, of "unit_op (rb_tree_insert (node_et_lt ?w1) n)" "()" t1] t12(1)
    by (simp add: unit_op_def lt)
  have op2: "on_pool (Some p) (unit_op (rb_tree_insert_case (Some n))) ?w2 = Some ((), ?w3)"
    using on_pool_Some [OF tree2, of "unit_op (rb_tree_insert_case (Some n))" "()" t2] t12(2) by (simp add: unit_op_def)
  have code: "asthread_th_add_to_pool n (Some p) w = Some (0, ?w3)"
    unfolding asthread_th_add_to_pool_def using th op1 op2 by (simp add: set_th_Some)
  have et3: "et_of ?w3 = et_of w" using et1 by (simp add: et_of_def fun_eq_iff)
  have "rb_is (rb_mem t2) t2 T'" by (rule rb_is_own [OF t12(3)])
  then have "pool_is ?w3 p T'"
    using t12(4,5) t(4) et3 sorted_ins_after [of "et_of w" "addrs T" n] by (auto simp: pool_is_def pool_tree_def)
  moreover have "others_kept w p (insert n (set (addrs T))) ?w3"
  proof (rule others_keptI)
    fix a assume "a \<notin> insert n (set (addrs T))"
    then have "a \<notin> set (addrs T')" using t12(5) by simp
    with t12(3) show "w_nodes ?w3 a = w_nodes w a" by (simp add: focus_def)
  qed (simp_all add: et1)
  moreover have "dom (w_nodes w) \<subseteq> dom (w_nodes ?w3)"
  proof -
    have "is_tree m fa X \<Longrightarrow> b \<in> set (addrs X) \<Longrightarrow> m b \<noteq> None" for m fa X b
      by (induction m fa X rule: is_tree.induct) auto
    with t12(3) have "rb_mem t2 b \<noteq> None" if "b \<in> set (addrs T')" for b using that by (auto simp: focus_def)
    moreover have "rb_mem t2 b = w_nodes w b" if "b \<notin> set (addrs T')" for b using t12(3) that by (simp add: focus_def)
    ultimately show ?thesis by (auto simp: dom_def) (metis option.distinct(1))
  qed
  ultimately show thesis using code t12(5) et3 by (intro that [of ?w3 T']) simp_all
qed

lemma del_from_pool_correct:
  assumes pool: "pool_is w p T" and th: "w_ths w n = Some tn" "th_pool tn = Some p" and n: "n \<in> set (addrs T)"
  obtains w' T' where "asthread_th_del_from_pool n w = Some (0, w')" "pool_is w' p T'"
    "addrs T' = remove1 n (addrs T)" "w_ths w' = (w_ths w)(n \<mapsto> tn\<lparr>th_pool := None\<rparr>)"
    "et_of w' = et_of w" "others_kept w p (set (addrs T)) w'" "w_res w' = w_res w"
    "w_ext w' = w_ext w"
proof -
  obtain t where t: "pool_tree w p t" "rb_is (w_nodes w) t T" "rb_valid T" "sorted (map (et_of w) (addrs T))"
    using pool by (auto simp: pool_is_def)
  obtain t' T' where t': "rb_tree_delete (Some n) t = Some t'" "rb_is (forget n (w_nodes w) t') t' T'" "rb_valid T'"
    "addrs T' = remove1 n (addrs T)" by (rule rb_delete_correct [OF t(2,3) n])
  let ?w1 = "w\<lparr>w_nodes := rb_mem t', w_pools := (w_pools w)(p \<mapsto> rb_root t')\<rparr>"
  let ?w2 = "?w1\<lparr>w_ths := (w_ths w)(n \<mapsto> tn\<lparr>th_pool := None\<rparr>)\<rparr>"
  have op: "on_pool (Some p) (unit_op (rb_tree_delete (Some n))) w = Some ((), ?w1)"
    using on_pool_Some [OF t(1), of "unit_op (rb_tree_delete (Some n))" "()" t'] t'(1) by (simp add: unit_op_def)
  have code: "asthread_th_del_from_pool n w = Some (0, ?w2)"
    using th op by (simp add: asthread_th_del_from_pool_def set_th_Some)
  have et2: "et_of ?w2 = et_of w" using th(1) by (auto simp: et_of_def fun_eq_iff)
  have "sorted (map (et_of w) (remove1 n (addrs T)))"
    by (rule sorted_map_remove1 [OF t(4)])
  then have "pool_is ?w2 p T'"
    using rb_is_own [OF t'(2)] t'(3,4) et2 by (auto simp: pool_is_def pool_tree_def)
  moreover have "others_kept w p (set (addrs T)) ?w2"
  proof (rule others_keptI)
    fix a assume a: "a \<notin> set (addrs T)"
    then have "a \<notin> set (addrs T')" "a \<noteq> n" using t'(4) n by (auto dest: notin_set_remove1)
    with t'(2) show "w_nodes ?w2 a = w_nodes w a" by (simp add: focus_def)
  qed (simp_all add: et2)
  ultimately show thesis using code t'(4) et2 by (intro that [of ?w2 T']) simp_all
qed

subsection \<open>Timeouts: an expired root\<close>

fun right_only :: "path \<Rightarrow> bool" where
  "right_only [] \<longleftrightarrow> True"
| "right_only (Fr d c a s # kk) \<longleftrightarrow> d = R \<and> right_only kk"

lemma right_only_snoc [simp]: "right_only (kk @ [Fr d c a s]) \<longleftrightarrow> right_only kk \<and> d = R"
  by (induction kk rule: right_only.induct) auto

lemma after_right_only: "right_only kk \<Longrightarrow> after kk = []"
  by (induction kk rule: after.induct) auto

lemma expired_spine_focus:
  "focus m0 t k (Node c l n r) \<Longrightarrow> et n \<le> now \<Longrightarrow>
   \<exists>kk c' l' n' r'. expired_spine et now (Some n) t = Some (Some n') \<and> Node c l n r = plug kk (Node c' l' n' r')
     \<and> right_only kk \<and> et n' \<le> now \<and> (\<forall>b. root_ptr r' = Some b \<longrightarrow> now < et b)"
proof (induction r arbitrary: k c l n)
  case Leaf
  have "expired_spine et now (Some n) t = Some (Some n)"
    using focus_node [OF Leaf(1)] by (subst expired_spine.simps) simp
  with Leaf(2) show ?case by (intro exI [of _ "[]"]) auto
next
  case (Node cr rl b rr)
  have get: "rb_get rn_right (Some n) t = Some (Some b)" using focus_node [OF Node.prems(1)] by simp
  show ?case
  proof (cases "et b \<le> now")
    case False
    then have "expired_spine et now (Some n) t = Some (Some n)" using get by (subst expired_spine.simps) simp
    with Node.prems(2) False show ?thesis by (intro exI [of _ "[]"]) auto
  next
    case True
    have "focus m0 t (Fr R c n l # k) (Node cr rl b rr)" using Node.prems(1) by (simp add: focus_up)
    from Node.IH(2) [OF this True] obtain kk c' l' n' r' where
      IH: "expired_spine et now (Some b) t = Some (Some n')" "Node cr rl b rr = plug kk (Node c' l' n' r')"
      "right_only kk" "et n' \<le> now" "\<forall>b. root_ptr r' = Some b \<longrightarrow> now < et b" by blast
    have "expired_spine et now (Some n) t = Some (Some n')" using get True IH(1) by (subst expired_spine.simps) simp
    moreover have "Node c l n (Node cr rl b rr) = plug (kk @ [Fr R c n l]) (Node c' l' n' r')"
      using IH(2) by (simp add: plug_append)
    ultimately show ?thesis using IH(3-5) by (metis right_only_snoc)
  qed
qed

text \<open>The right subtree of a node becomes a tree of its own.\<close>

lemma detach_right:
  assumes "focus m0 t kk (Node c l n r)"
  obtains t' where
    "(do { t \<leftarrow> (if root_ptr r \<noteq> None then do {
                    t \<leftarrow> rb_set (rn_parent_update (\<lambda>_. None)) (root_ptr r) (t\<lparr>rb_root := root_ptr r\<rparr>);
                    rb_set (rn_color_update (\<lambda>_. Black)) (root_ptr r) t
                  }
                  else Some (t\<lparr>rb_root := root_ptr r\<rparr>));
           rb_set (rn_right_update (\<lambda>_. None)) (Some n) t }) = Some t'"
    "rb_is (rb_mem t') t' (paint Black r)" "is_tree (rb_mem t') None (plug kk (Node c l n Leaf))"
    "\<And>b. b \<notin> set (addrs (plug kk (Node c l n r))) \<Longrightarrow> rb_mem t' b = rb_mem t b"
proof -
  define m1 where "m1 = (case r of Leaf \<Rightarrow> rb_mem t | Node cr x b y \<Rightarrow> (rb_mem t)(b \<mapsto> node_of None L Black (root_ptr x) (root_ptr y)))"
  let ?m2 = "m1(n \<mapsto> node_of (path_parent kk) L c (root_ptr l) None)"
  let ?t = "t\<lparr>rb_mem := ?m2, rb_root := root_ptr r\<rparr>"
  have whole: "is_tree (rb_mem t) None (plug kk (Node c l n r))" "distinct (addrs (plug kk (Node c l n r)))"
    using focus_plug [THEN iffD1, OF assms] by (auto simp: focus_def)
  have n: "rb_mem t n = Some (node_of (path_parent kk) L c (root_ptr l) (root_ptr r))" by (rule focus_node [OF assms])
  have d: "n \<notin> set (addrs r)" "n \<notin> set (addrs l)" "n \<notin> set (path_addrs kk)" "set (addrs l) \<inter> set (addrs r) = {}"
    "set (path_addrs kk) \<inter> set (addrs r) = {}" "distinct (addrs r)"
    using whole(2) by (auto simp: distinct_plug)
  have off: "m1 b = rb_mem t b" if "b \<notin> set (addrs r)" for b using that by (cases r) (auto simp: m1_def)
  have seg_par: "seg_parent None kk = path_parent kk" by (cases kk rule: path_parent.cases) auto
  have seg: "is_seg (rb_mem t) None kk (Some n)" "is_tree (rb_mem t) (Some n) l" "is_tree (rb_mem t) (Some n) r"
    using whole(1) by (auto simp: is_tree_plug)
  have "is_tree m1 None (paint Black r)"
  proof (cases r)
    case (Node cr x b y)
    have "is_tree m1 (Some b) x" "is_tree m1 (Some b) y"
      using seg(3) d(6) Node by (subst is_tree_cong [of _ _ "rb_mem t"]; auto simp: m1_def)+
    with Node show ?thesis by (simp add: m1_def)
  qed simp
  then have "is_tree ?m2 None (paint Black r)" using d(1) by (subst is_tree_cong [of _ _ m1]) auto
  moreover have "root_ptr (paint Black r) = root_ptr r" by (cases r) auto
  ultimately have own: "rb_is ?m2 ?t (paint Black r)" using d(6) by (simp add: focus_def)
  have "is_seg ?m2 None kk (Some n)"
  proof (rule is_seg_cong [OF seg(1)])
    fix b assume "b \<in> set (path_addrs kk)"
    then have "b \<noteq> n" "b \<notin> set (addrs r)" using d by blast+
    then show "?m2 b = rb_mem t b" using off by simp
  qed
  moreover have "is_tree ?m2 (Some n) l"
  proof (rule is_tree_cong [THEN iffD2, OF _ seg(2)])
    fix b assume "b \<in> set (addrs l)"
    then have "b \<noteq> n" "b \<notin> set (addrs r)" using d by blast+
    then show "?m2 b = rb_mem t b" using off by simp
  qed
  ultimately have cut: "is_tree ?m2 None (plug kk (Node c l n Leaf))" by (simp add: is_tree_plug seg_par)
  have keep: "?m2 b = rb_mem t b" if "b \<notin> set (addrs (plug kk (Node c l n r)))" for b
    using that off [of b] by (auto simp: set_plug)
  have "(do { t \<leftarrow> (if root_ptr r \<noteq> None then do {
                    t \<leftarrow> rb_set (rn_parent_update (\<lambda>_. None)) (root_ptr r) (t\<lparr>rb_root := root_ptr r\<rparr>);
                    rb_set (rn_color_update (\<lambda>_. Black)) (root_ptr r) t
                  }
                  else Some (t\<lparr>rb_root := root_ptr r\<rparr>));
           rb_set (rn_right_update (\<lambda>_. None)) (Some n) t }) = Some ?t"
    using n d(1) seg(3) by (cases r) (auto simp: rb_set_Some m1_def)
  with own cut keep show thesis by (intro that [of ?t]) simp_all
qed

lemma remove_timeout_root:
  assumes "rb_is m0 t T" and "rb_valid T" and "sorted (map et (addrs T))" and "root_ptr T = Some a" and "et a \<le> now"
  obtains t' X T' where "remove_timeout et now t = Some (Some a, t')" "rb_is (rb_mem t') t' T'" "rb_valid T'"
    "is_tree (rb_mem t') None X" "root_ptr X = Some a" "addrs T = addrs X @ addrs T'" "\<forall>x\<in>set (addrs X). et x \<le> now"
    "\<forall>b. root_ptr T' = Some b \<longrightarrow> now < et b" "\<And>b. b \<notin> set (addrs T) \<Longrightarrow> rb_mem t' b = m0 b"
proof -
  obtain c0 l0 r0 where T: "T = Node c0 l0 a r0" using assms(4) by (cases T) auto
  obtain kk c l n r where sp: "expired_spine et now (Some a) t = Some (Some n)" "T = plug kk (Node c l n r)"
    "right_only kk" "et n \<le> now" "\<forall>b. root_ptr r = Some b \<longrightarrow> now < et b"
    using expired_spine_focus [of m0 t "[]" c0 l0 a r0 et now] assms(1,5) T by auto
  have foc: "focus m0 t kk (Node c l n r)" using focus_plug [THEN iffD2] assms(1) sp(2) by simp
  obtain t' where t': "(do { t \<leftarrow> (if root_ptr r \<noteq> None then do {
                    t \<leftarrow> rb_set (rn_parent_update (\<lambda>_. None)) (root_ptr r) (t\<lparr>rb_root := root_ptr r\<rparr>);
                    rb_set (rn_color_update (\<lambda>_. Black)) (root_ptr r) t
                  }
                  else Some (t\<lparr>rb_root := root_ptr r\<rparr>));
           rb_set (rn_right_update (\<lambda>_. None)) (Some n) t }) = Some t'"
    "rb_is (rb_mem t') t' (paint Black r)" "is_tree (rb_mem t') None (plug kk (Node c l n Leaf))"
    "\<And>b. b \<notin> set (addrs (plug kk (Node c l n r))) \<Longrightarrow> rb_mem t' b = rb_mem t b"
    by (rule detach_right [OF foc]) blast
  have root: "rb_root t = Some a" using focus_root [OF assms(1)] assms(4) by simp
  have r: "rb_get rn_right (Some n) t = Some (root_ptr r)" using focus_node [OF foc] by simp
  have code: "remove_timeout et now t = Some (Some a, t')"
    using root assms(5) sp(1) r t'(1) by (simp add: remove_timeout_def Let_def bind_eq_Some_conv)
  let ?X = "plug kk (Node c l n Leaf)"
  have addrs: "addrs T = addrs ?X @ addrs (paint Black r)"
    using sp(2,3) by (simp add: addrs_plug after_right_only)
  have X: "addrs ?X = before kk @ addrs l @ [n]" using sp(3) by (simp add: addrs_plug after_right_only)
  have "\<forall>x\<in>set (addrs ?X). et x \<le> et n"
    using assms(3) unfolding addrs X by (auto simp: sorted_append)
  then have old: "\<forall>x\<in>set (addrs ?X). et x \<le> now" using sp(4) by auto
  have "rb_valid (paint Black r)"
    using valid_plugD(1,2) [of kk "Node c l n r"] assms(2) sp(2) by (auto simp: rb_valid_def invc_paint)
  moreover have "root_ptr ?X = Some a"
  proof (cases "kk = []")
    case True
    then show ?thesis using sp(2) T by simp
  next
    case False
    from plug_root_eq [OF this, of "Node c l n Leaf" "Node c l n r"] show ?thesis using sp(2) assms(4) by simp
  qed
  moreover have "root_ptr (paint Black r) = root_ptr r" by (cases r) auto
  moreover have "rb_mem t' b = m0 b" if "b \<notin> set (addrs T)" for b
    using t'(4) [of b] that assms(1) sp(2) by (simp add: focus_def)
  ultimately show thesis
    using code t'(2,3) addrs old sp(5) by (intro that [of t' "paint Black r" ?X]) simp_all
qed

subsection \<open>Timeouts: a root that is not expired\<close>

text \<open>
  Then the code looks for an expired node down the left spine and hands its whole subtree
  to \<open>rb_tree_remove_subtree\<close>, which takes the sibling of that node to exist.
\<close>

lemma remove_subtree_no_sibling:
  assumes "rb_is m0 t (Node c (Node cl l b r) a Leaf)"
  shows "rb_tree_remove_subtree (Some b) t = None"
proof -
  have "focus m0 t (Fr L c a Leaf # []) (Node cl l b r)" using assms by (simp add: focus_up)
  from focus_parent [OF this, of b] focus_above [OF this] show ?thesis
    by (simp add: rb_tree_remove_subtree_def swap_node_with_subtree_def rb_set_def)
qed

lemma remove_timeout_crash:
  assumes "rb_is m0 t (Node c (Node cl l b r) a Leaf)" and "now < et a" and "et b \<le> now"
  shows "remove_timeout et now t = None"
proof -
  have root: "rb_root t = Some a" using focus_root [OF assms(1)] by simp
  have left: "rb_get rn_left (Some a) t = Some (Some b)" using focus_node [OF assms(1)] by simp
  have "expired_left et now (Some b) t = Some (Some b)" using assms(3) by (subst expired_left.simps) simp
  with root left assms(2) remove_subtree_no_sibling [OF assms(1)] show ?thesis
    by (simp add: remove_timeout_def)
qed

subsection \<open>Resources of a thread\<close>

definition res_owned :: "'x world \<Rightarrow> addr \<Rightarrow> addr list \<Rightarrow> bool" where
  "res_owned w th rs \<longleftrightarrow> (\<exists>t. w_ths w th = Some t \<and> is_dlist (w_res w) (th_resl t) rs)"

lemma is_dlist_set_th:
  assumes "is_dlist h d xs" and "h a = Some r"
  shows "is_dlist (h(a \<mapsto> rs_th_update f r)) d xs"
proof -
  have "dseg h pr xs nx \<Longrightarrow> dseg (h(a \<mapsto> rs_th_update f r)) pr xs nx" for pr xs nx
    by (induction xs arbitrary: pr) (use assms(2) in auto)
  with assms(1) show ?thesis by (simp add: is_dlist_def)
qed

lemma res_add_correct:
  assumes "res_owned w th rs" and "res \<notin> set rs" and "w_res w res \<noteq> None"
  shows "\<exists>w' r. asthread_res_add_to_th res th w = Some (0, w') \<and> res_owned w' th (res # rs)
    \<and> w_res w' res = Some r \<and> rs_th r = Some th"
proof -
  obtain t where t: "w_ths w th = Some t" "is_dlist (w_res w) (th_resl t) rs" using assms(1) by (auto simp: res_owned_def)
  obtain r where r: "w_res w res = Some r" using assms(3) by auto
  let ?h = "(w_res w)(res \<mapsto> rs_th_update (\<lambda>_. Some th) r)"
  obtain d h where dh: "dlist_add_to_head (th_resl t) res ?h = Some (d, h)" "is_dlist h d (res # rs)"
    using dlist_add_to_head_refines [OF is_dlist_set_th [OF t(2) r], of res "\<lambda>_. Some th"] assms(2) by auto
  have "same_payload ?h h" by (rule dlist_add_to_head_payload [OF dh(1)])
  then have "map_option dnode.more (h res) = Some (dnode.more (rs_th_update (\<lambda>_. Some th) r))"
    unfolding same_payload_def by (drule_tac x = res in spec) simp
  then obtain r' where r': "h res = Some r'" "dnode.more r' = dnode.more (rs_th_update (\<lambda>_. Some th) r)" by auto
  then have "rs_th r' = Some th" by (cases r; cases r') simp
  with t(1) r dh r'(1) show ?thesis
    by (auto simp: asthread_res_add_to_th_def set_res_Some set_th_Some res_owned_def)
qed

lemma res_del_correct:
  assumes "res_owned w th rs" and "res \<in> set rs"
  shows "\<exists>w'. asthread_res_del_from_th res th w = Some (0, w') \<and> res_owned w' th (remove1 res rs)"
proof -
  obtain t where t: "w_ths w th = Some t" "is_dlist (w_res w) (th_resl t) rs" using assms(1) by (auto simp: res_owned_def)
  obtain d h where "dlist_del (th_resl t) res (w_res w) = Some (d, h)" "is_dlist h d (remove1 res rs)"
    using dlist_del_refines [OF t(2) assms(2)] by blast
  with t(1) show ?thesis by (auto simp: asthread_res_del_from_th_def set_th_Some res_owned_def)
qed

text \<open>Freeing a thread: each resource is orphaned, and its release function runs once.\<close>

definition release_one :: "(nat \<Rightarrow> addr \<Rightarrow> int \<Rightarrow> 'x \<Rightarrow> 'x) \<Rightarrow> as_res store \<Rightarrow> addr \<Rightarrow> 'x \<Rightarrow> 'x" where
  "release_one cl h a x =
     (case h a of None \<Rightarrow> x | Some r \<Rightarrow> (case rs_freef r of None \<Rightarrow> x | Some f \<Rightarrow> cl f a (rs_d r) x))"

definition orphaned :: "as_res store \<Rightarrow> addr set \<Rightarrow> as_res store" where
  "orphaned h A = (\<lambda>a. if a \<in> A then map_option (\<lambda>r. r\<lparr>rs_freef := None, rs_th := None\<rparr>) (h a) else h a)"

lemma th_free_loop_correct:
  assumes "\<And>f a w r. w_res w a = Some r \<Longrightarrow> freef f a w = Some (w\<lparr>w_ext := cl f a (rs_d r) (w_ext w)\<rparr>)"
  shows "dseg (w_res w) pr rs None \<Longrightarrow> distinct rs \<Longrightarrow>
    th_free_loop freef (hd_ptr rs None) w
      = Some (w\<lparr>w_res := orphaned (w_res w) (set rs), w_ext := fold (release_one cl (w_res w)) rs (w_ext w)\<rparr>)"
proof (induction rs arbitrary: w pr)
  case Nil
  then show ?case by (simp add: th_free_loop.simps orphaned_def)
next
  case (Cons a rs)
  obtain r where r: "w_res w a = Some r" "dl_next r = hd_ptr rs None" using Cons.prems(1) by auto
  let ?h = "(w_res w)(a \<mapsto> r\<lparr>rs_freef := None, rs_th := None\<rparr>)"
  let ?w = "w\<lparr>w_res := ?h, w_ext := release_one cl (w_res w) a (w_ext w)\<rparr>"
  have step: "th_free_loop freef (hd_ptr (a # rs) None) w = th_free_loop freef (hd_ptr rs None) ?w"
  proof (cases "rs_freef r")
    case None
    with r show ?thesis
      by (cases r) (subst th_free_loop.simps, simp add: set_res_Some release_one_def)
  next
    case (Some f)
    with r assms show ?thesis
      by (cases r; cases w) (subst th_free_loop.simps, simp add: set_res_Some release_one_def)
  qed
  have "dseg (w_res ?w) (Some a) rs None" using Cons.prems by simp
  moreover have "distinct rs" using Cons.prems(2) by simp
  ultimately have IH: "th_free_loop freef (hd_ptr rs None) ?w = Some (?w\<lparr>w_res := orphaned (w_res ?w) (set rs),
      w_ext := fold (release_one cl (w_res ?w)) rs (w_ext ?w)\<rparr>)" by (rule Cons.IH)
  have "orphaned ?h (set rs) = orphaned (w_res w) (set (a # rs))"
    using r(1) Cons.prems(2) by (auto simp: orphaned_def fun_eq_iff)
  moreover have "fold (release_one cl ?h) rs x = fold (release_one cl (w_res w)) rs x" for x
    using Cons.prems(2) by (intro fold_cong) (auto simp: release_one_def)
  ultimately show ?case unfolding step IH by simp
qed

lemma th_free_correct:
  assumes "\<And>f a w r. w_res w a = Some r \<Longrightarrow> freef f a w = Some (w\<lparr>w_ext := cl f a (rs_d r) (w_ext w)\<rparr>)"
    and "w_ths w th = Some t" and "is_dlist (w_res w) (th_resl t) rs"
  shows "asthread_th_free unref freef (Some th) w
    = Some (0, w\<lparr>w_res := orphaned (w_res w) (set rs),
                 w_ext := fold (release_one cl (w_res w)) rs (unref (th_T t) (th_tid t) (w_ext w))\<rparr>)"
  using th_free_loop_correct [where cl = cl, OF assms(1), of "w\<lparr>w_ext := unref (th_T t) (th_tid t) (w_ext w)\<rparr>" None rs] assms(2,3)
  by (simp add: asthread_th_free_def is_dlist_def Let_def)

text \<open>
  \<open>asthread_res_ev_del\<close> returns at once for a resource that has events, and clears the
  events of one that has none.
\<close>

lemma ev_add_then_del:
  assumes "asthread_res_ev_add ctl fdf res epfd events w = Some (0, w1)"
  shows "asthread_res_ev_del ctl fdf res epfd w1 = Some (0, w1)"
proof -
  obtain r where r: "w_res w res = Some r"
    using assms by (auto simp: asthread_res_ev_add_def res_ev_ctl_def bind_eq_Some_conv)
  obtain ret x where ret: "ctl EP_Mod epfd (fdf (rs_fdf r) (rs_d r)) res events (w_ext w) = (ret, x)" by fastforce
  have "w_res w1 res = Some (r\<lparr>rs_status := RS_Ev\<rparr>)"
    using assms r ret by (auto simp: asthread_res_ev_add_def res_ev_ctl_def set_res_Some bind_eq_Some_conv Let_def split: if_splits)
  then show ?thesis by (auto simp: asthread_res_ev_del_def)
qed

lemma remove_from_epfd_nothing:
  assumes "w_ths w th = Some t" and "is_dlist (w_res w) (th_resl t) rs"
    and "\<forall>a\<in>set rs. \<exists>r. w_res w a = Some r \<and> rs_status r = RS_Ev"
  shows "asthread_remove_res_from_epfd ctl fdf th epfd w = Some w"
proof -
  let ?f = "\<lambda>a w. map_option snd (asthread_res_ev_del ctl fdf a epfd w)"
  have "dseg (w_res w) pr xs None \<Longrightarrow> set xs \<subseteq> set rs \<Longrightarrow> dlist_pos_travel w_res ?f (hd_ptr xs None) w = Some w" for pr xs
  proof (induction xs arbitrary: pr)
    case Nil
    then show ?case by (simp add: dlist_pos_travel.simps)
  next
    case (Cons a xs)
    then have "?f a w = Some w" using assms(3) by (auto simp: asthread_res_ev_del_def)
    with Cons show ?case by (subst dlist_pos_travel.simps) auto
  qed
  with assms(1,2) show ?thesis by (auto simp: asthread_remove_res_from_epfd_def is_dlist_def)
qed

subsection \<open>The properties, and a small world to see them on\<close>

text \<open>
  Threads 1 and 2 wait in the pool at address 10, thread 3 is ready. Resources 20 and 21
  belong to thread 3, resource 22 to nobody. The external state is a log.
\<close>

definition some_thread :: "ptr \<Rightarrow> tstatus \<Rightarrow> int \<Rightarrow> dlist \<Rightarrow> as_thread" where
  "some_thread pool st et rl = \<lparr>th_tid = 7, th_T = Some 100, th_et = et, th_pool = pool, th_status = st,
     th_mode = TM_Simple, th_mfd_res = None, th_resl = rl\<rparr>"

definition some_res :: "ptr \<Rightarrow> ptr \<Rightarrow> rstatus \<Rightarrow> ptr \<Rightarrow> as_res" where
  "some_res nx pv st th = \<lparr>dl_next = nx, dl_prev = pv, rs_freef = Some 0, rs_fdf = 0, rs_status = st, rs_th = th, rs_d = 5\<rparr>"

definition small_world :: "addr list world" where
  "small_world = \<lparr>w_nodes = rb_mem small_tree, w_pools = [10 \<mapsto> Some 1],
     w_ths = [1 \<mapsto> some_thread (Some 10) TS_Run 40 (dlist_init dlist_empty),
              2 \<mapsto> some_thread (Some 10) TS_Sleep 50 (dlist_init dlist_empty),
              3 \<mapsto> some_thread None TS_Ready 45 \<lparr>dl_head = Some 20, dl_tail = Some 21\<rparr>],
     w_res = [20 \<mapsto> some_res (Some 21) None RS_Ev (Some 3), 21 \<mapsto> some_res None (Some 20) RS_Ev (Some 3),
              22 \<mapsto> some_res None None RS_Idle None],
     w_cur_tid = 3, w_ext = []\<rparr>"

lemma small_pool: "pool_is small_world 10 (Node Black Leaf 1 (Node Red Leaf 2 Leaf))"
  using small_tree_is unfolding pool_is_def pool_tree_def
  by (intro conjI exI [of _ small_tree])
    (auto simp: small_world_def small_tree_def rb_valid_def et_of_def some_thread_def)

lemma small_resources: "is_dlist (w_res small_world) \<lparr>dl_head = Some 20, dl_tail = Some 21\<rparr> [20, 21]"
  by (simp add: small_world_def some_res_def is_dlist_def hd_ptr_def last_ptr_def)

text \<open>C18: \<open>asthread_th_add_to_pool\<close> puts a thread that is not stopped into an ordered, balanced pool
  behind every thread with the same or an earlier deadline; the pool stays a valid red-black tree
  ordered by deadline, the thread records its pool, and the other pools are as before.\<close>

theorem add_to_pool_keeps:
  assumes "pool_is w p T" and "w_ths w n = Some tn" and "th_status tn \<noteq> TS_Stop"
    and "n \<notin> set (addrs T)" and "w_nodes w n \<noteq> None"
  shows "\<exists>w' T'. asthread_th_add_to_pool n (Some p) w = Some (0, w') \<and> pool_is w' p T'
    \<and> addrs T' = ins_after (et_of w) n (addrs T) \<and> w_ths w' = (w_ths w)(n \<mapsto> tn\<lparr>th_pool := Some p\<rparr>)
    \<and> others_kept w p (insert n (set (addrs T))) w'"
  by (rule add_to_pool_correct [OF assms]) blast

theorem add_to_pool_keeps_witness:
  "\<exists>w' T'. asthread_th_add_to_pool 3 (Some 10) small_world = Some (0, w') \<and> pool_is w' 10 T' \<and> addrs T' = [1, 3, 2]"
  using add_to_pool_keeps [OF small_pool, of 3] by (auto simp: small_world_def small_tree_def some_thread_def et_of_def)

text \<open>C19: \<open>asthread_th_del_from_pool\<close> takes exactly its thread out of the pool it is in, wherever it
  stands in the tree; the pool stays valid and ordered, the thread records that it is in no pool,
  and the other pools are as before.\<close>

theorem del_from_pool_keeps:
  assumes "pool_is w p T" and "w_ths w n = Some tn" and "th_pool tn = Some p" and "n \<in> set (addrs T)"
  shows "\<exists>w' T'. asthread_th_del_from_pool n w = Some (0, w') \<and> pool_is w' p T'
    \<and> addrs T' = remove1 n (addrs T) \<and> w_ths w' = (w_ths w)(n \<mapsto> tn\<lparr>th_pool := None\<rparr>)
    \<and> others_kept w p (set (addrs T)) w'"
  by (rule del_from_pool_correct [OF assms]) blast

theorem del_from_pool_keeps_witness:
  "\<exists>w' T'. asthread_th_del_from_pool 1 small_world = Some (0, w') \<and> pool_is w' 10 T' \<and> addrs T' = [2]"
  using del_from_pool_keeps [OF small_pool, of 1] by (auto simp: small_world_def some_thread_def)

text \<open>\<open>asthread_th_free\<close> gives the Lua thread back, then goes over the resources of the thread
  once, in list order: each loses its owner, its release function runs if it has one and is then
  cleared, so that no second release can happen; nothing else changes.\<close>

theorem th_free_releases_each:
  assumes "\<And>f a w r. w_res w a = Some r \<Longrightarrow> freef f a w = Some (w\<lparr>w_ext := cl f a (rs_d r) (w_ext w)\<rparr>)"
    and "w_ths w th = Some t" and "is_dlist (w_res w) (th_resl t) rs"
  shows "asthread_th_free unref freef (Some th) w
    = Some (0, w\<lparr>w_res := orphaned (w_res w) (set rs),
                 w_ext := fold (release_one cl (w_res w)) rs (unref (th_T t) (th_tid t) (w_ext w))\<rparr>)"
  by (rule th_free_correct [where freef = freef and cl = cl, OF _ assms(2,3)]) (rule assms(1))

theorem th_free_releases_each_witness:
  "map_option (\<lambda>(r, w). (r, w_ext w, map_option rs_th (w_res w 20), map_option rs_freef (w_res w 21), map_option rs_freef (w_res w 22)))
     (asthread_th_free (\<lambda>_ _ x. 1 # x) (\<lambda>f a w. Some (w\<lparr>w_ext := a # w_ext w\<rparr>)) (Some 3) small_world)
   = Some (0, [21, 20, 1], Some None, Some None, Some (Some 0))"
proof -
  have th: "w_ths small_world 3 = Some (some_thread None TS_Ready 45 \<lparr>dl_head = Some 20, dl_tail = Some 21\<rparr>)"
    by (simp add: small_world_def)
  show ?thesis
    using th_free_releases_each [where cl = "\<lambda>f a d x. a # x" and freef = "\<lambda>f a w. Some (w\<lparr>w_ext := a # w_ext w\<rparr>)"
        and unref = "\<lambda>_ _ x. 1 # x", OF refl th, of "[20, 21]"] small_resources
    by (simp add: some_thread_def release_one_def orphaned_def small_world_def some_res_def)
qed

text \<open>Adding a resource to a thread and deleting it again gives back the list of the thread's
  resources; after the addition it is the first one and knows its owner.\<close>

theorem res_add_then_del:
  assumes "res_owned w th rs" and "res \<notin> set rs" and "w_res w res \<noteq> None"
  shows "\<exists>w1 r w2. asthread_res_add_to_th res th w = Some (0, w1) \<and> res_owned w1 th (res # rs)
    \<and> w_res w1 res = Some r \<and> rs_th r = Some th
    \<and> asthread_res_del_from_th res th w1 = Some (0, w2) \<and> res_owned w2 th rs"
proof -
  obtain w1 r where "asthread_res_add_to_th res th w = Some (0, w1)" "res_owned w1 th (res # rs)"
    "w_res w1 res = Some r" "rs_th r = Some th" using res_add_correct [OF assms] by blast
  with res_del_correct [of w1 th "res # rs" res] show ?thesis by auto
qed

theorem res_add_then_del_witness:
  "\<exists>w1 w2. asthread_res_add_to_th 22 3 small_world = Some (0, w1) \<and> res_owned w1 3 [22, 20, 21]
    \<and> asthread_res_del_from_th 22 3 w1 = Some (0, w2) \<and> res_owned w2 3 [20, 21]"
  using res_add_then_del [of small_world 3 "[20, 21]" 22] small_resources
  by (auto simp: res_owned_def small_world_def some_thread_def some_res_def)

text \<open>After \<open>asthread_res_ev_add\<close> has registered events for a resource, \<open>asthread_res_ev_del\<close>
  reports success without a call of \<open>epoll_ctl\<close> and without any change: the events stay registered.\<close>

theorem ev_del_keeps_events:
  assumes "asthread_res_ev_add ctl fdf res epfd events w = Some (0, w1)"
  shows "asthread_res_ev_del ctl fdf res epfd w1 = Some (0, w1)"
  by (rule ev_add_then_del [OF assms])

theorem ev_del_keeps_events_witness:
  "\<exists>w1. asthread_res_ev_add (\<lambda>_ _ _ a _ x. (0, a # x)) (\<lambda>_ d. d) 22 9 1 small_world = Some (0, w1)
    \<and> asthread_res_ev_del (\<lambda>_ _ _ a _ x. (0, a # x)) (\<lambda>_ d. d) 22 9 w1 = Some (0, w1) \<and> w_ext w1 = [22]"
proof -
  obtain w1 where w1: "asthread_res_ev_add (\<lambda>_ _ _ a _ x. (0, a # x)) (\<lambda>_ d. d) 22 9 1 small_world = Some (0, w1)"
    "w_ext w1 = [22]"
    by (auto simp: asthread_res_ev_add_def res_ev_ctl_def small_world_def set_res_Some)
  from ev_del_keeps_events [OF w1(1)] w1 show ?thesis by blast
qed

text \<open>\<open>asthread_remove_res_from_epfd\<close>, which the worker calls before it resumes a thread, changes
  nothing for a thread all of whose resources have registered events.\<close>

theorem remove_from_epfd_is_noop:
  assumes "w_ths w th = Some t" and "is_dlist (w_res w) (th_resl t) rs"
    and "\<forall>a\<in>set rs. \<exists>r. w_res w a = Some r \<and> rs_status r = RS_Ev"
  shows "asthread_remove_res_from_epfd ctl fdf th epfd w = Some w"
  by (rule remove_from_epfd_nothing [OF assms])

theorem remove_from_epfd_is_noop_witness:
  "asthread_remove_res_from_epfd (\<lambda>_ _ _ a _ x. (0, a # x)) (\<lambda>_ d. d) 3 9 small_world = Some small_world"
proof -
  have th: "w_ths small_world 3 = Some (some_thread None TS_Ready 45 \<lparr>dl_head = Some 20, dl_tail = Some 21\<rparr>)"
    by (simp add: small_world_def)
  show ?thesis
    using remove_from_epfd_is_noop [OF th, of "[20, 21]"] small_resources
    by (simp add: some_thread_def small_world_def some_res_def)
qed

end
