(* ===== verification/Rb_Search.thy ===== *)
theory Rb_Search
  imports Rb_Delete
begin

text \<open>
  The two macros of \<^verbatim>\<open>src/c/src/rb_tree.h\<close> that read a tree: the search by key, and
  the consuming postorder traversal, whose contract with its callback is the locale
  \<open>traversal\<close>.
\<close>

subsection \<open>Search\<close>

definition found_by :: "(addr \<Rightarrow> 'k) \<Rightarrow> 'k \<Rightarrow> addr list \<Rightarrow> ptr \<Rightarrow> bool" where
  "found_by kf key xs p \<longleftrightarrow> (case p of None \<Rightarrow> key \<notin> kf ` set xs | Some a \<Rightarrow> a \<in> set xs \<and> kf a = key)"

lemma find_loop_correct:
  fixes kf :: "addr \<Rightarrow> 'k :: linorder"
  assumes "is_tree (rb_mem t) fa T" and "sorted (map kf (addrs T))"
  shows "\<exists>p. find_loop (\<lambda>a. key = kf a) (\<lambda>a. key < kf a) (root_ptr T) t = Some p \<and> found_by kf key (addrs T) p"
  using assms
proof (induction T arbitrary: fa)
  case Leaf
  then show ?case by (simp add: find_loop.simps found_by_def)
next
  case (Node c l a r)
  have tr: "rb_mem t a = Some (node_of fa L c (root_ptr l) (root_ptr r))" "is_tree (rb_mem t) (Some a) l"
    "is_tree (rb_mem t) (Some a) r" using Node.prems(1) by auto
  have s: "sorted (map kf (addrs l))" "sorted (map kf (addrs r))" "\<forall>x\<in>set (addrs l). kf x \<le> kf a"
    "\<forall>x\<in>set (addrs r). kf a \<le> kf x" using Node.prems(2) by (auto simp: sorted_append)
  consider (eq) "key = kf a" | (less) "key < kf a" | (greater) "kf a < key" by fastforce
  then show ?case
  proof cases
    case eq
    then show ?thesis by (subst find_loop.simps) (auto simp: found_by_def)
  next
    case less
    with tr(1) have "find_loop (\<lambda>a. key = kf a) (\<lambda>a. key < kf a) (Some a) t
        = find_loop (\<lambda>a. key = kf a) (\<lambda>a. key < kf a) (root_ptr l) t" by (subst find_loop.simps) auto
    with Node.IH(1) [OF tr(2) s(1)] less s(4) show ?thesis by (fastforce simp: found_by_def split: option.splits)
  next
    case greater
    with tr(1) have "find_loop (\<lambda>a. key = kf a) (\<lambda>a. key < kf a) (Some a) t
        = find_loop (\<lambda>a. key = kf a) (\<lambda>a. key < kf a) (root_ptr r) t" by (subst find_loop.simps) auto
    with Node.IH(2) [OF tr(3) s(2)] greater s(3) show ?thesis by (fastforce simp: found_by_def split: option.splits)
  qed
qed

subsection \<open>The consuming traversal\<close>

fun postorder :: "rbt \<Rightarrow> addr list" where
  "postorder Leaf = []"
| "postorder (Node c l a r) = postorder l @ postorder r @ [a]"

lemma set_postorder [simp]: "set (postorder T) = set (addrs T)"
  by (induction T) auto

lemma distinct_postorder [simp]: "distinct (postorder T) \<longleftrightarrow> distinct (addrs T)"
  by (induction T) auto

text \<open>What the loop visits after the subtree below a path: the ancestors and their other subtrees.\<close>

fun pending :: "path \<Rightarrow> addr list" where
  "pending [] = []"
| "pending (Fr d c a s # k) = postorder s @ a # pending k"

lemma set_pending [simp]: "set (pending k) = set (path_addrs k)"
  by (induction k rule: pending.induct) auto

lemma distinct_pending [simp]: "distinct (pending k) \<longleftrightarrow> distinct (path_addrs k)"
  by (induction k rule: pending.induct) auto

text \<open>What the father of a leaf becomes when the leaf is unlinked, whichever child it is.\<close>

definition unlink_child :: "addr \<Rightarrow> rb_node \<Rightarrow> rb_node" where
  "unlink_child x nd = (if rn_left nd = Some x then nd\<lparr>rn_left := None\<rparr> else nd\<lparr>rn_right := None\<rparr>)"

text \<open>
  The contract of the callback: \<open>todo xs (t, s)\<close> holds while the nodes \<open>xs\<close> are still to be
  visited. The callback gets the first of them, must leave the others alone, and \<open>todo\<close>
  must not depend on their contents, which the traversal changes as it unlinks leaves.
\<close>

locale traversal =
  fixes func :: "addr \<Rightarrow> rb_tree \<times> 's \<Rightarrow> (rb_tree \<times> 's) option"
    and todo :: "addr list \<Rightarrow> rb_tree \<times> 's \<Rightarrow> bool"
  assumes visit_law: "todo (a # xs) (t, s) \<Longrightarrow> a \<notin> set xs \<Longrightarrow>
      \<exists>t' s'. func a (t, s) = Some (t', s') \<and> todo xs (t', s') \<and> (\<forall>b\<in>set xs. rb_mem t' b = rb_mem t b)"
    and frame_law: "todo xs (t, s) \<Longrightarrow> b \<in> set xs \<Longrightarrow> rb_mem t b \<noteq> None \<Longrightarrow>
      todo xs (t\<lparr>rb_mem := (rb_mem t)(b \<mapsto> nd)\<rparr>, s)"
begin

text \<open>At a leaf: it is unlinked from its father and visited.\<close>

lemma at_leaf:
  assumes "rb_mem t x = Some (node_of fa L c None None)" and "todo (x # rest) (t, s)" and "x \<notin> set rest"
    and fa: "\<And>f. fa = Some f \<Longrightarrow> f \<in> set rest \<and> rb_mem t f \<noteq> None"
  shows "\<exists>t' s'. postorder_loop func (Some x) (t, s) = postorder_loop func fa (t', s') \<and> todo rest (t', s')
    \<and> (\<forall>b\<in>set rest. rb_mem t' b = (if fa = Some b then map_option (unlink_child x) (rb_mem t b) else rb_mem t b))"
proof -
  obtain t1 where t1: "(if fa \<noteq> None then do {
         fl \<leftarrow> rb_get rn_left fa t;
         if Some x = fl then rb_set (rn_left_update (\<lambda>_. None)) fa t
         else rb_set (rn_right_update (\<lambda>_. None)) fa t
       } else Some t) = Some t1" "todo (x # rest) (t1, s)"
    "\<And>b. rb_mem t1 b = (if fa = Some b then map_option (unlink_child x) (rb_mem t b) else rb_mem t b)"
  proof (cases fa)
    case None
    with assms(2) show thesis by (intro that [of t]) auto
  next
    case (Some f)
    then obtain nd where nd: "rb_mem t f = Some nd" "f \<in> set rest" using fa by auto
    let ?t = "t\<lparr>rb_mem := (rb_mem t)(f \<mapsto> unlink_child x nd)\<rparr>"
    have "todo (x # rest) (?t, s)" by (rule frame_law [OF assms(2)]) (use nd in auto)
    with Some nd show thesis by (intro that [of ?t]) (auto simp: rb_set_Some unlink_child_def)
  qed
  obtain t' s' where t': "func x (t1, s) = Some (t', s')" "todo rest (t', s')"
    "\<forall>b\<in>set rest. rb_mem t' b = rb_mem t1 b" using visit_law [OF t1(2) assms(3)] by blast
  have "postorder_loop func (Some x) (t, s) = postorder_loop func fa (t', s')"
    using assms(1) t1(1) t'(1) by (subst postorder_loop.simps) (cases fa; auto simp: bind_eq_Some_conv)
  with t'(2,3) t1(3) show ?thesis by (intro exI [of _ t'] exI [of _ s']) auto
qed

text \<open>The loop comes back to the root of a subtree when everything below it is done.\<close>

lemma empty_subtree:
  assumes "is_tree (rb_mem t) fa (Node c l a r)" and "distinct (addrs (Node c l a r) @ rest)"
    and "todo (postorder (Node c l a r) @ rest) (t, s)"
  shows "\<exists>t' s'. postorder_loop func (Some a) (t, s) = postorder_loop func (Some a) (t', s')
    \<and> rb_mem t' a = Some (node_of fa L c None None) \<and> todo (a # rest) (t', s')
    \<and> (\<forall>b\<in>set rest. rb_mem t' b = rb_mem t b)"
  using assms
proof (induction "size (Node c l a r)" arbitrary: fa c l a r rest t s rule: less_induct)
  case less
  have tr: "rb_mem t a = Some (node_of fa L c (root_ptr l) (root_ptr r))" "is_tree (rb_mem t) (Some a) l"
    "is_tree (rb_mem t) (Some a) r" using less.prems(1) by auto
  have child: "\<exists>t' s'. postorder_loop func (root_ptr X) (t, s) = postorder_loop func (Some a) (t', s')
      \<and> todo xs (t', s')
      \<and> (\<forall>b\<in>set xs. rb_mem t' b = (if b = a then map_option (unlink_child x) (rb_mem t a) else rb_mem t b))"
    if X: "size X < size (Node c l a r)" "root_ptr X = Some x" "is_tree (rb_mem t) (Some a) X"
      "distinct (addrs X @ xs)" "todo (postorder X @ xs) (t, s)" "a \<in> set xs" "rb_mem t a \<noteq> None" for X x xs t s
  proof -
    obtain c' l' r' where X': "X = Node c' l' x r'" using X(2) by (cases X) auto
    obtain t1 s1 where t1: "postorder_loop func (Some x) (t, s) = postorder_loop func (Some x) (t1, s1)"
      "rb_mem t1 x = Some (node_of (Some a) L c' None None)" "todo (x # xs) (t1, s1)"
      "\<forall>b\<in>set xs. rb_mem t1 b = rb_mem t b"
      using less.hyps [of c' l' x r' t "Some a" xs s] X unfolding X' by blast
    have x: "x \<notin> set xs" using X(4) X' by auto
    have "\<exists>t' s'. postorder_loop func (Some x) (t1, s1) = postorder_loop func (Some a) (t', s') \<and> todo xs (t', s')
        \<and> (\<forall>b\<in>set xs. rb_mem t' b = (if Some a = Some b then map_option (unlink_child x) (rb_mem t1 b) else rb_mem t1 b))"
      by (rule at_leaf [OF t1(2,3) x]) (use X(6,7) t1(4) in auto)
    then obtain t2 s2 where "postorder_loop func (Some x) (t1, s1) = postorder_loop func (Some a) (t2, s2)" "todo xs (t2, s2)"
      "\<forall>b\<in>set xs. rb_mem t2 b = (if Some a = Some b then map_option (unlink_child x) (rb_mem t1 b) else rb_mem t1 b)" by blast
    with t1(1,4) X(2) show ?thesis by (intro exI [of _ t2] exI [of _ s2]) auto
  qed
  obtain t1 s1 where left: "postorder_loop func (Some a) (t, s) = postorder_loop func (Some a) (t1, s1)"
    "rb_mem t1 a = Some (node_of fa L c None (root_ptr r))" "todo (postorder r @ a # rest) (t1, s1)"
    "\<forall>b\<in>set (addrs r) \<union> set rest. rb_mem t1 b = rb_mem t b"
  proof (cases "root_ptr l")
    case None
    then have "l = Leaf" by (cases l) auto
    with less.prems tr None show thesis by (intro that [of t s]) auto
  next
    case (Some x)
    have "postorder_loop func (Some a) (t, s) = postorder_loop func (root_ptr l) (t, s)"
      using tr(1) Some by (subst postorder_loop.simps) simp
    moreover have "\<exists>t' s'. postorder_loop func (root_ptr l) (t, s) = postorder_loop func (Some a) (t', s')
      \<and> todo (postorder r @ a # rest) (t', s')
      \<and> (\<forall>b\<in>set (postorder r @ a # rest). rb_mem t' b = (if b = a then map_option (unlink_child x) (rb_mem t a) else rb_mem t b))"
      by (rule child) (use Some tr less.prems in auto)
    ultimately show thesis using less.prems(2) tr(1) Some
      by (elim exE conjE, intro that) (auto simp: unlink_child_def)
  qed
  have tree: "is_tree (rb_mem t1) (Some a) r"
    by (rule is_tree_cong [THEN iffD2, OF _ tr(3)]) (use left(4) in auto)
  obtain t2 s2 where right: "postorder_loop func (Some a) (t1, s1) = postorder_loop func (Some a) (t2, s2)"
    "rb_mem t2 a = Some (node_of fa L c None None)" "todo (a # rest) (t2, s2)"
    "\<forall>b\<in>set rest. rb_mem t2 b = rb_mem t1 b"
  proof (cases "root_ptr r")
    case None
    then have "r = Leaf" by (cases r) auto
    with left None show thesis by (intro that [of t1 s1]) auto
  next
    case (Some x)
    have "postorder_loop func (Some a) (t1, s1) = postorder_loop func (root_ptr r) (t1, s1)"
      using left(2) Some by (subst postorder_loop.simps) simp
    moreover have "\<exists>t' s'. postorder_loop func (root_ptr r) (t1, s1) = postorder_loop func (Some a) (t', s')
      \<and> todo (a # rest) (t', s')
      \<and> (\<forall>b\<in>set (a # rest). rb_mem t' b = (if b = a then map_option (unlink_child x) (rb_mem t1 a) else rb_mem t1 b))"
      by (rule child) (use Some tree left less.prems in auto)
    ultimately show thesis using less.prems(2) left(2) Some
      by (elim exE conjE, intro that) (auto simp: unlink_child_def)
  qed
  from left(1,4) right show ?case by auto
qed

lemma climb:
  "is_tree (rb_mem t) (path_parent k) T \<Longrightarrow> is_seg (rb_mem t) None k (root_ptr T) \<Longrightarrow> T \<noteq> Leaf \<Longrightarrow>
   distinct (path_addrs k @ addrs T) \<Longrightarrow> todo (postorder T @ pending k) (t, s) \<Longrightarrow>
   \<exists>t' s'. postorder_loop func (root_ptr T) (t, s) = Some (t', s') \<and> todo [] (t', s')"
proof (induction k arbitrary: T t s rule: pending.induct)
  case 1
  then obtain c l a r where T: "T = Node c l a r" by (cases T) auto
  obtain t1 s1 where t1: "postorder_loop func (Some a) (t, s) = postorder_loop func (Some a) (t1, s1)"
    "rb_mem t1 a = Some (node_of None L c None None)" "todo [a] (t1, s1)"
    using empty_subtree [of t None c l a r "[]" s] 1 T by auto
  from at_leaf [OF t1(2,3)] t1(1) T show ?case by (auto simp: postorder_loop.simps [of _ None])
next
  case (2 d c' b s' k)
  then obtain c l a r where T: "T = Node c l a r" by (cases T) auto
  have sp: "seg_parent None k = path_parent k" by (cases k rule: path_parent.cases) auto
  have b: "rb_mem t b = Some (node_of (path_parent k) d c' (Some a) (root_ptr s'))" "is_tree (rb_mem t) (Some b) s'"
    "is_seg (rb_mem t) None k (Some b)" using 2(3) T sp by auto
  have dist: "distinct (addrs (Node c l a r) @ pending (Fr d c' b s' # k))"
    using 2(5) T by auto
  obtain t1 s1 where t1: "postorder_loop func (Some a) (t, s) = postorder_loop func (Some a) (t1, s1)"
    "rb_mem t1 a = Some (node_of (Some b) L c None None)" "todo (a # pending (Fr d c' b s' # k)) (t1, s1)"
    "\<forall>x\<in>set (pending (Fr d c' b s' # k)). rb_mem t1 x = rb_mem t x"
    using empty_subtree [of t "Some b" c l a r "pending (Fr d c' b s' # k)" s] 2(2,6) dist T by auto
  have "\<exists>t' s''. postorder_loop func (Some a) (t1, s1) = postorder_loop func (Some b) (t', s'')
      \<and> todo (pending (Fr d c' b s' # k)) (t', s'')
      \<and> (\<forall>x\<in>set (pending (Fr d c' b s' # k)). rb_mem t' x
            = (if Some b = Some x then map_option (unlink_child a) (rb_mem t1 x) else rb_mem t1 x))"
    by (rule at_leaf [OF t1(2,3)]) (use dist t1(4) b(1) in auto)
  then obtain t2 s2 where t2: "postorder_loop func (Some a) (t1, s1) = postorder_loop func (Some b) (t2, s2)"
    "todo (pending (Fr d c' b s' # k)) (t2, s2)"
    "\<forall>x\<in>set (pending (Fr d c' b s' # k)). rb_mem t2 x = (if b = x then map_option (unlink_child a) (rb_mem t x) else rb_mem t x)"
    using t1(4) by auto
  have a_s: "root_ptr s' \<noteq> Some a" using dist by (cases s') auto
  have b2: "rb_mem t2 b = Some (node_of (path_parent k) d c' None (root_ptr s'))"
    using t2(3) b(1) a_s by (cases d) (auto simp: unlink_child_def)
  have keep: "rb_mem t2 x = rb_mem t x" if "x \<in> set (addrs s') \<union> set (path_addrs k)" for x
    using t2(3) that 2(5) by auto
  have "is_tree (rb_mem t2) (Some b) s'" by (rule is_tree_cong [THEN iffD2, OF _ b(2)]) (use keep in auto)
  then have "is_tree (rb_mem t2) (path_parent k) (mk d c' Leaf b s')" using b2 by simp
  moreover have "is_seg (rb_mem t2) None k (Some b)" by (rule is_seg_cong [OF b(3)]) (use keep in auto)
  moreover have "postorder (mk d c' Leaf b s') = postorder s' @ [b]" by (cases d) auto
  moreover have "mk d c' Leaf b s' \<noteq> Leaf" by (cases d) auto
  moreover have "distinct (path_addrs k @ addrs (mk d c' Leaf b s'))" using 2(5) by (cases d) auto
  ultimately have "\<exists>t' s''. postorder_loop func (Some b) (t2, s2) = Some (t', s'') \<and> todo [] (t', s'')"
    using 2(1) [of t2 "mk d c' Leaf b s'" s2] t2(2) by simp
  with t1(1) t2(1) T show ?case by simp
qed

theorem visits_all:
  assumes "is_tree (rb_mem t) None T" and "distinct (addrs T)" and "todo (postorder T) (t, s)"
  shows "\<exists>t' s'. postorder_loop func (root_ptr T) (t, s) = Some (t', s') \<and> todo [] (t', s')"
proof (cases "T = Leaf")
  case True
  with assms(3) show ?thesis by (simp add: postorder_loop.simps)
next
  case False
  from climb [of t "[]" T s] False assms show ?thesis by simp
qed

end

text \<open>A callback that only collects the nodes it is given.\<close>

definition collect :: "addr \<Rightarrow> rb_tree \<times> addr list \<Rightarrow> (rb_tree \<times> addr list) option" where
  "collect a ts = Some (fst ts, snd ts @ [a])"

interpretation col: traversal collect "\<lambda>xs (t, s). s @ xs = total" for total
  by unfold_locales (auto simp: collect_def)

lemma postorder_collects:
  assumes "is_tree (rb_mem t) None T" and "distinct (addrs T)"
  shows "\<exists>t'. postorder_loop collect (root_ptr T) (t, []) = Some (t', postorder T)"
  using col.visits_all [OF assms, where total = "postorder T" and s = "[]"] by simp

subsection \<open>The properties\<close>

text \<open>On a tree ordered by a key, \<open>rb_tree_find\<close> ends, returns a node of the tree that has the
  key when there is one, and \<open>NULL\<close> when there is none.\<close>

theorem rb_find_correct:
  fixes kf :: "addr \<Rightarrow> 'k :: linorder"
  assumes "rb_is m0 t T" and "sorted (map kf (addrs T))"
  shows "\<exists>p. rb_tree_find (\<lambda>k a. k = kf a) (\<lambda>k a. k < kf a) key t = Some p \<and> found_by kf key (addrs T) p"
  using find_loop_correct [of t None T kf key] assms focus_root [OF assms(1)]
  by (simp add: rb_tree_find_def focus_def)

theorem rb_find_correct_witness:
  "\<exists>p. rb_tree_find (\<lambda>k a. k = id a) (\<lambda>k a. k < id a) 2 small_tree = Some p \<and> found_by id 2 [1, 2] p"
  using rb_find_correct [OF small_tree_is, of id 2] by simp

text \<open>C34: \<open>rb_tree_postorder_travel\<close> over a whole tree ends and gives every node to the callback
  exactly once, children before their parent.\<close>

theorem postorder_visits_each:
  assumes "rb_is m0 t T"
  shows "\<exists>t'. postorder_loop collect (rb_root t) (t, []) = Some (t', postorder T)
    \<and> distinct (postorder T) \<and> set (postorder T) = set (addrs T)"
proof -
  have tree: "is_tree (rb_mem t) None T" "distinct (addrs T)" using assms by (auto simp: focus_def)
  with postorder_collects [OF tree] focus_root [OF assms] show ?thesis by simp
qed

theorem postorder_visits_each_witness:
  "\<exists>t'. postorder_loop collect (Some 1) (small_tree, []) = Some (t', [2, 1])"
  using postorder_visits_each [OF small_tree_is] by (simp add: small_tree_def)

end
