(* ===== verification/Timeouts.thy ===== *)
theory Timeouts
  imports Thread Rb_Search
begin

text \<open>
  What \<open>asthread_remove_timeout_threads\<close> does when the root of the pool is not expired
  but its left child is, and what the traversal of its result by the worker
  (\<open>process_io_timeout\<close>, \<open>process_sleep\<close> of \<^verbatim>\<open>src/c/src/mw_worker.c\<close>) then visits: the
  subtree that is handed over still points to its old father, which is back in the pool.
\<close>

subsection \<open>The father is put back as the leftmost leaf\<close>

lemma walk_left_only: "left_only k \<Longrightarrow> left_only (walk (\<lambda>_. True) k T)"
  by (induction T arbitrary: k) auto

lemma walk_left_addrs:
  "addrs (plug (walk (\<lambda>_. True) k T) (Node Red Leaf n Leaf)) = before k @ n # addrs T @ after k"
  by (induction T arbitrary: k) (auto simp: addrs_plug)

lemma fixup_left: "left_only k \<Longrightarrow> \<exists>k'. fixup k T = plug k' T"
proof (induction k T rule: fixup.induct)
  case (1 T)
  show ?case by (intro exI [of _ "[]"]) simp
next
  case (2 f T)
  show ?case by (intro exI [of _ "[f]"]) simp
next
  case (3 d c a s e c' g u k T)
  then have lr: "d = L" "e = L" "left_only k" by auto
  show ?case
  proof (cases "c = Black")
    case True
    then show ?thesis by (intro exI [of _ "Fr d c a s # Fr e c' g u # k"]) simp
  next
    case no: False
    show ?thesis
    proof (cases "color_of u = Red")
      case True
      from 3(1) [OF no True lr(3)] obtain k' where
        "fixup k (mk e Red (mk d Black T a s) g (paint Black u)) = plug k' (mk e Red (mk d Black T a s) g (paint Black u))" by blast
      with no True show ?thesis by (intro exI [of _ "Fr d Black a s # Fr e Red g (paint Black u) # k'"]) simp
    next
      case False
      with no lr show ?thesis
        by (intro exI [of _ "Fr L Black a (mk L Red s g u) # k"]) (simp add: insert_rotated_def)
    qed
  qed
qed

lemma paint_plug: "k \<noteq> [] \<Longrightarrow> \<exists>k'. paint c (plug k T) = plug k' T"
proof (induction k arbitrary: T)
  case (Cons f k)
  obtain d c' a s where f: "f = Fr d c' a s" by (cases f)
  show ?case
  proof (cases "k = []")
    case True
    with f show ?thesis by (intro exI [of _ "[Fr d c a s]"]) simp
  next
    case False
    from Cons.IH [OF False, of "mk d c' T a s"] obtain k' where
      "paint c (plug k (mk d c' T a s)) = plug k' (mk d c' T a s)" by blast
    with f show ?thesis by (intro exI [of _ "f # k'"]) simp
  qed
qed simp

lemma paint_leaf: "\<exists>k' c'. paint c (plug k (Node c0 Leaf a Leaf)) = plug k' (Node c' Leaf a Leaf)"
proof (cases "k = []")
  case True
  then show ?thesis by (intro exI [of _ "[]"] exI [of _ c]) simp
next
  case False
  from paint_plug [OF this] show ?thesis by blast
qed

text \<open>The sibling subtree becomes a tree of its own.\<close>

lemma promote_sibling:
  assumes "rb_is m0 t (Node c B a s)" and "s \<noteq> Leaf"
  obtains t1 where "swap_node_with_subtree (Some a) (root_ptr s) t = Some t1"
    "rb_is (rb_mem t1) t1 (paint Black s)" "\<And>x. x \<notin> set (addrs s) \<Longrightarrow> rb_mem t1 x = rb_mem t x"
proof -
  obtain cs x b y where s: "s = Node cs x b y" using assms(2) by (cases s) auto
  let ?m = "(rb_mem t)(b \<mapsto> node_of None L Black (root_ptr x) (root_ptr y))"
  let ?t = "t\<lparr>rb_mem := ?m, rb_root := Some b\<rparr>"
  have tr: "rb_mem t a = Some (node_of None L c (root_ptr B) (Some b))"
    "rb_mem t b = Some (node_of (Some a) L cs (root_ptr x) (root_ptr y))"
    "is_tree (rb_mem t) (Some b) x" "is_tree (rb_mem t) (Some b) y" "distinct (addrs s)"
    using assms(1) s by (auto simp: focus_def)
  have "is_tree ?m (Some b) x" "is_tree ?m (Some b) y"
    using tr(3-5) s by (subst is_tree_cong [of _ _ "rb_mem t"]; auto)+
  then have "rb_is (rb_mem ?t) ?t (paint Black s)" using tr(5) s by (simp add: focus_def)
  moreover have "swap_node_with_subtree (Some a) (root_ptr s) t = Some ?t"
    using tr(1,2) s by (simp add: swap_node_with_subtree_def rb_set_Some)
  ultimately show thesis using s by (intro that [of ?t]) auto
qed

lemma put_back_left:
  assumes "rb_is m t T" and "T \<noteq> Leaf" and "rb_valid T" and "a \<notin> set (addrs T)" and "rb_mem t a \<noteq> None"
  obtains t' t'' k c where "rb_tree_insert_to_most_left (rb_root t) (Some a) t = Some (rb_root t, t')"
    "rb_tree_insert_case (Some a) t' = Some t''" "rb_is m t'' (plug k (Node c Leaf a Leaf))"
    "rb_valid (plug k (Node c Leaf a Leaf))" "addrs (plug k (Node c Leaf a Leaf)) = a # addrs T"
proof -
  let ?k = "walk (\<lambda>_. True) [] T" and ?N = "Node Red Leaf a Leaf"
  obtain t' where t': "insert_at_link (\<lambda>_. True) (Some a) t = Some t'" "focus m t' ?k ?N"
    by (rule insert_at_link_focus [OF assms(1,4,5)])
  have top: "black_top ?k" using assms(3) by (intro walk_black_top) (auto simp: black_top_def rb_valid_def)
  have node: "fixup ?k ?N \<noteq> Leaf" by (rule fixup_node) simp
  obtain t'' where t'': "rb_tree_insert_case (Some a) t' = Some t''" "rb_is m t'' (paint Black (fixup ?k ?N))"
    by (rule insert_case_focus [OF t'(2) _ top node, of a]) simp
  have "path_inv ?k Black (bh ?N)" using walk_path [of "[]" T] assms(3) by (simp add: rb_valid_def)
  then have valid: "rb_valid (paint Black (fixup ?k ?N))"
    using fixup_inv [of ?k ?N] top by (simp add: rb_valid_def)
  have addrs: "addrs (paint Black (fixup ?k ?N)) = a # addrs T"
    using fixup_addrs [of ?N ?k] walk_left_addrs [of "[]" T a] by simp
  obtain k0 where "fixup ?k ?N = plug k0 ?N" using fixup_left [OF walk_left_only [of "[]" T]] by auto
  then obtain k c where kc: "paint Black (fixup ?k ?N) = plug k (Node c Leaf a Leaf)"
    using paint_leaf [of Black k0 Red a] by auto
  have walk: "root_ptr (plug (walk (\<lambda>_. True) k X) Y) = root_ptr (plug k X)" if "X \<noteq> Leaf" for k X Y
    using that
  proof (induction X arbitrary: k)
    case (Node c l b r)
    show ?case
    proof (cases "l = Leaf")
      case True
      from plug_root_eq [of "Fr L c b r # k" Y Leaf] True show ?thesis by simp
    next
      case False
      from Node.IH(1) [OF False, of "Fr L c b r # k"] show ?thesis by simp
    qed
  qed simp
  have "rb_root t' = root_ptr (plug ?k ?N)" using focus_root [OF focus_plug [THEN iffD1, OF t'(2)]] .
  also have "\<dots> = rb_root t" using walk [OF assms(2), of "[]" ?N] focus_root [OF assms(1)] by simp
  finally have "rb_tree_insert_to_most_left (rb_root t) (Some a) t = Some (rb_root t, t')"
    using t'(1) by (simp add: rb_tree_insert_to_most_left_def)
  from that [OF this t''(1)] t''(2) valid addrs kc show thesis by simp
qed

subsection \<open>The left child of the root is expired, the root is not\<close>

lemma remove_timeout_left_child:
  assumes "rb_is m0 t (Node c (Node cl l b r) a s)" and "s \<noteq> Leaf" and "rb_valid (Node c (Node cl l b r) a s)"
    and "now < et a" and "et b \<le> now"
  obtains t' k c' where "remove_timeout et now t = Some (Some b, t')"
    "rb_is (rb_mem t') t' (plug k (Node c' Leaf a Leaf))" "rb_valid (plug k (Node c' Leaf a Leaf))"
    "addrs (plug k (Node c' Leaf a Leaf)) = a # addrs s" "is_tree (rb_mem t') (Some a) (Node cl l b r)"
    "rb_mem t' b = rb_mem t b" "\<And>x. x \<notin> set (a # addrs s) \<Longrightarrow> rb_mem t' x = rb_mem t x"
proof -
  have dist: "distinct (addrs (Node c (Node cl l b r) a s))"
    and tree: "is_tree (rb_mem t) None (Node c (Node cl l b r) a s)" using assms(1) by (auto simp: focus_def)
  obtain t1 where t1: "swap_node_with_subtree (Some a) (root_ptr s) t = Some t1" "rb_is (rb_mem t1) t1 (paint Black s)"
    "\<And>x. x \<notin> set (addrs s) \<Longrightarrow> rb_mem t1 x = rb_mem t x" by (rule promote_sibling [OF assms(1,2)]) blast
  have root1: "rb_root t1 = root_ptr s" using focus_root [OF t1(2)] assms(2) by (cases s) auto
  have a: "a \<notin> set (addrs s)" "rb_mem t1 a = rb_mem t a" using dist t1(3) by auto
  obtain t2 t' k c' where t': "rb_tree_insert_to_most_left (rb_root t1) (Some a) t1 = Some (rb_root t1, t2)"
    "rb_tree_insert_case (Some a) t2 = Some t'" "rb_is (rb_mem t1) t' (plug k (Node c' Leaf a Leaf))"
    "rb_valid (plug k (Node c' Leaf a Leaf))" "addrs (plug k (Node c' Leaf a Leaf)) = a # addrs (paint Black s)"
  proof (rule put_back_left [OF t1(2)])
    show "paint Black s \<noteq> Leaf" using assms(2) by (cases s) auto
    show "rb_valid (paint Black s)" using assms(3) by (auto simp: rb_valid_def invc_paint)
    show "a \<notin> set (addrs (paint Black s))" using a(1) by simp
    show "rb_mem t1 a \<noteq> None" using a(2) tree by simp
  qed blast
  have keep: "rb_mem t' x = rb_mem t x" if "x \<notin> set (a # addrs s)" for x
  proof -
    have "x \<notin> set (addrs (plug k (Node c' Leaf a Leaf)))" using that t'(5) by simp
    with t'(3) t1(3) [of x] that show ?thesis by (auto simp: focus_def)
  qed
  have sub: "is_tree (rb_mem t') (Some a) (Node cl l b r)"
  proof (rule is_tree_cong [THEN iffD2])
    show "is_tree (rb_mem t) (Some a) (Node cl l b r)" using tree by simp
    show "rb_mem t' x = rb_mem t x" if "x \<in> set (addrs (Node cl l b r))" for x
      by (rule keep) (use that dist in auto)
  qed
  have b: "rb_mem t' b = rb_mem t b" by (rule keep) (use dist in auto)
  have "rb_get rn_left (Some a) t = Some (Some b)" "rb_get rn_right (Some a) t = Some (root_ptr s)"
    "rb_get rn_parent (Some b) t = Some (Some a)" using tree by simp_all
  then have "rb_tree_remove_subtree (Some b) t = Some t'"
    using t1(1) t'(1,2) root1 by (simp add: rb_tree_remove_subtree_def)
  moreover have "expired_left et now (Some b) t = Some (Some b)" using assms(5) by (subst expired_left.simps) simp
  ultimately have "remove_timeout et now t = Some (Some b, t')"
    using focus_root [OF assms(1)] assms(4) \<open>rb_get rn_left (Some a) t = Some (Some b)\<close>
    by (simp add: remove_timeout_def)
  from that [OF this rb_is_own [OF t'(3)] t'(4) _ sub b keep] t'(5) show thesis by simp
qed

text \<open>
  The traversal of the worker starts at the subtree, climbs over its stale father pointer
  into the pool, and goes on from there to every node of the pool.
\<close>

lemma traversal_climbs:
  assumes "is_tree (rb_mem t) (Some a) (Node cl l b r)" and "rb_is m0 t (plug k (Node c' Leaf a Leaf))"
    and "distinct (addrs (Node cl l b r) @ addrs (plug k (Node c' Leaf a Leaf)))"
  shows "\<exists>t'. postorder_loop collect (Some b) (t, [])
    = Some (t', postorder (Node cl l b r) @ a # pending k)"
proof -
  let ?all = "postorder (Node cl l b r) @ a # pending k"
  have foc: "focus m0 t k (Node c' Leaf a Leaf)" by (rule focus_plug [THEN iffD2, OF assms(2)])
  have a: "rb_mem t a = Some (node_of (path_parent k) L c' None None)" using focus_node [OF foc] by simp
  have seg: "is_seg (rb_mem t) None k (Some a)"
    using assms(2) by (auto simp: focus_def is_tree_plug)
  have set: "set (addrs (plug k (Node c' Leaf a Leaf))) = insert a (set (path_addrs k))" by (auto simp: set_plug)
  have dist: "distinct (a # path_addrs k)" using assms(3) by (auto simp: distinct_plug)
  have sep: "set (addrs (Node cl l b r)) \<inter> insert a (set (path_addrs k)) = {}" using assms(3) set by auto
  let ?todo = "\<lambda>xs (t :: rb_tree, s). s @ xs = ?all"
  obtain t1 s1 where t1: "postorder_loop collect (Some b) (t, []) = postorder_loop collect (Some b) (t1, s1)"
    "rb_mem t1 b = Some (node_of (Some a) L cl None None)" "s1 @ b # a # pending k = ?all"
    "\<forall>x\<in>set (a # pending k). rb_mem t1 x = rb_mem t x"
  proof -
    have "distinct (addrs (Node cl l b r) @ a # pending k)" using assms(3) dist sep by auto
    from col.empty_subtree [where total = ?all and s = "[]", OF assms(1) this]
    have "\<exists>t' s'. postorder_loop collect (Some b) (t, []) = postorder_loop collect (Some b) (t', s')
      \<and> rb_mem t' b = Some (node_of (Some a) L cl None None) \<and> s' @ b # a # pending k = ?all
      \<and> (\<forall>x\<in>set (a # pending k). rb_mem t' x = rb_mem t x)" by simp
    with that show thesis by blast
  qed
  have "\<exists>t' s'. postorder_loop collect (Some b) (t1, s1) = postorder_loop collect (Some a) (t', s') \<and> s' @ a # pending k = ?all
      \<and> (\<forall>x\<in>set (a # pending k). rb_mem t' x = (if Some a = Some x then map_option (unlink_child b) (rb_mem t1 x) else rb_mem t1 x))"
    using col.at_leaf [where total = ?all and rest = "a # pending k", OF t1(2)] t1(3,4) sep a by auto
  then obtain t2 s2 where t2: "postorder_loop collect (Some b) (t1, s1) = postorder_loop collect (Some a) (t2, s2)"
    "s2 @ a # pending k = ?all"
    "\<forall>x\<in>set (a # pending k). rb_mem t2 x = (if a = x then map_option (unlink_child b) (rb_mem t1 x) else rb_mem t1 x)" by auto
  have a2: "rb_mem t2 a = Some (node_of (path_parent k) L c' None None)"
    using t2(3) t1(4) a by (simp add: unlink_child_def)
  have "rb_mem t2 x = rb_mem t x" if "x \<in> set (path_addrs k)" for x using that t1(4) t2(3) dist by auto
  then have "is_seg (rb_mem t2) None k (Some a)" by (rule is_seg_cong [OF seg])
  then obtain t3 s3 where "postorder_loop collect (Some a) (t2, s2) = Some (t3, s3)" "s3 = ?all"
    using col.climb [where total = ?all, of t2 k "Node c' Leaf a Leaf" s2] a2 dist t2(2) by auto
  with t1(1) t2(1) show ?thesis by auto
qed

subsection \<open>The properties, and pools to see them on\<close>

text \<open>C16: when the root of the pool is expired, \<open>asthread_remove_timeout_threads\<close> splits the pool in
  two: the tree it returns holds a prefix of the deadline order, all of it expired, and the rest is a
  valid red-black pool whose root is not expired; no node outside the pool changes.\<close>

theorem timeout_expired_root:
  assumes "rb_is m0 t T" and "rb_valid T" and "sorted (map et (addrs T))" and "root_ptr T = Some a" and "et a \<le> now"
  shows "\<exists>t' X T'. remove_timeout et now t = Some (Some a, t') \<and> rb_is (rb_mem t') t' T' \<and> rb_valid T'
    \<and> is_tree (rb_mem t') None X \<and> root_ptr X = Some a \<and> addrs T = addrs X @ addrs T'
    \<and> (\<forall>x\<in>set (addrs X). et x \<le> now) \<and> (\<forall>b. root_ptr T' = Some b \<longrightarrow> now < et b)
    \<and> (\<forall>b. b \<notin> set (addrs T) \<longrightarrow> rb_mem t' b = m0 b)"
  by (rule remove_timeout_root [OF assms]) blast

theorem timeout_expired_root_witness:
  "\<exists>t' X T'. remove_timeout (\<lambda>a. int a) 1 small_tree = Some (Some 1, t') \<and> rb_is (rb_mem t') t' T'
    \<and> rb_valid T' \<and> is_tree (rb_mem t') None X \<and> root_ptr X = Some 1 \<and> [1, 2] = addrs X @ addrs T'
    \<and> (\<forall>x\<in>set (addrs X). int x \<le> 1)"
  using timeout_expired_root [OF small_tree_is, of int 1 1] by (auto simp: rb_valid_def)

text \<open>Deadlines 20 at the root, 5 and 8 on its left, 30 on its right.\<close>

definition early_pool :: rb_tree where
  "early_pool = \<lparr>rb_mem = [1 \<mapsto> node_of None L Black (Some 2) (Some 4), 2 \<mapsto> node_of (Some 1) L Black None (Some 3),
     3 \<mapsto> node_of (Some 2) L Red None None, 4 \<mapsto> node_of (Some 1) L Black None None], rb_root = Some 1\<rparr>"

definition early_et :: "addr \<Rightarrow> int" where
  "early_et a = (if a = 1 then 20 else if a = 2 then 5 else if a = 3 then 8 else 30)"

lemma early_pool_is:
  "rb_is (rb_mem early_pool) early_pool (Node Black (Node Black Leaf 2 (Node Red Leaf 3 Leaf)) 1 (Node Black Leaf 4 Leaf))"
  by (simp add: early_pool_def focus_def)

text \<open>C17: when the root of the pool has a right child, and is not expired but its left child is, the
  traversal that the worker starts at the result of \<open>asthread_remove_timeout_threads\<close> visits every thread of the pool
  exactly once: threads whose deadline is far away are resumed as timed out, because the subtree that
  is handed over keeps its pointer to its father, who is back in the pool. (A root without a right
  child is dereferenced as \<open>NULL\<close> there: \<open>timeout_crash\<close>.)\<close>

theorem timeout_takes_all:
  assumes "rb_is m0 t (Node c (Node cl l b r) a s)" and "s \<noteq> Leaf" and "rb_valid (Node c (Node cl l b r) a s)"
    and "now < et a" and "et b \<le> now"
  shows "\<exists>t' t'' xs. remove_timeout et now t = Some (Some b, t') \<and> postorder_loop collect (Some b) (t', []) = Some (t'', xs)
    \<and> distinct xs \<and> set xs = set (addrs (Node c (Node cl l b r) a s))"
proof -
  obtain t' k c' where t': "remove_timeout et now t = Some (Some b, t')"
    "rb_is (rb_mem t') t' (plug k (Node c' Leaf a Leaf))" "addrs (plug k (Node c' Leaf a Leaf)) = a # addrs s"
    "is_tree (rb_mem t') (Some a) (Node cl l b r)" by (rule remove_timeout_left_child [OF assms]) blast
  have dist: "distinct (addrs (Node cl l b r) @ a # addrs s)" using assms(1) by (auto simp: focus_def)
  have rest: "set (a # pending k) = set (a # addrs s)"
    using arg_cong [OF t'(3), of set] by (simp add: set_plug)
  have "distinct (a # pending k)" using dist arg_cong [OF t'(3), of distinct] by (simp add: distinct_plug)
  with dist rest traversal_climbs [OF t'(4,2)] t'(1,3) show ?thesis by fastforce
qed

theorem timeout_takes_all_witness:
  "\<exists>t' t'' xs. remove_timeout early_et 6 early_pool = Some (Some 2, t')
    \<and> postorder_loop collect (Some 2) (t', []) = Some (t'', xs) \<and> distinct xs \<and> set xs = {1, 2, 3, 4} \<and> early_et 4 = 30"
  using timeout_takes_all [OF early_pool_is, of 6 early_et] by (simp add: rb_valid_def early_et_def insert_commute)

text \<open>When the root is not expired, its left child is, and it has no right child,
  \<open>asthread_remove_timeout_threads\<close> dereferences the missing sibling in \<open>rb_tree_remove_subtree\<close>:
  its behaviour is undefined.\<close>

theorem timeout_crash:
  assumes "rb_is m0 t (Node c (Node cl l b r) a Leaf)" and "now < et a" and "et b \<le> now"
  shows "remove_timeout et now t = None"
  by (rule remove_timeout_crash [OF assms])

definition lopsided_pool :: rb_tree where
  "lopsided_pool = \<lparr>rb_mem = [1 \<mapsto> node_of None L Black (Some 2) None, 2 \<mapsto> node_of (Some 1) L Red None None], rb_root = Some 1\<rparr>"

theorem timeout_crash_witness: "remove_timeout early_et 6 lopsided_pool = None"
proof (rule timeout_crash)
  show "rb_is (rb_mem lopsided_pool) lopsided_pool (Node Black (Node Red Leaf 2 Leaf) 1 Leaf)"
    by (simp add: lopsided_pool_def focus_def)
qed (simp_all add: early_et_def)

end
