(* ===== verification/Utils.thy ===== *)
theory Utils
  imports Prelude
begin

text \<open>
  The \<open>binary_search\<close> macro of \<^verbatim>\<open>src/c/src/utils.h\<close>. Its array is only
  used through the two macros it is given, which are the arguments \<open>eq\<close> and
  \<open>lt\<close> here; they read the array, so they may be undefined. The indices are C
  \<open>int\<close>s, and \<open>right\<close> starts at \<open>-1\<close> for an empty array.
\<close>

function binary_search_loop ::
  "(int \<Rightarrow> bool option) \<Rightarrow> (int \<Rightarrow> bool option) \<Rightarrow> int \<Rightarrow> int \<Rightarrow> int option" where
  "binary_search_loop eq lt left right =
     (if left < right then
        (let mid = (left + right) div 2
         in do { e \<leftarrow> eq mid;
                 if e then Some mid
                 else do { l \<leftarrow> lt mid;
                           if l then binary_search_loop eq lt (mid + 1) right
                           else binary_search_loop eq lt left (mid - 1) } })
      else Some left)"
  by pat_completeness auto
termination
  by (relation "measure (\<lambda>(eq, lt, left, right). nat (right - left))") auto

declare binary_search_loop.simps [simp del]

definition binary_search :: "(int \<Rightarrow> bool option) \<Rightarrow> (int \<Rightarrow> bool option) \<Rightarrow> nat \<Rightarrow> int option" where
  "binary_search eq lt len = binary_search_loop eq lt 0 (int len - 1)"

text \<open>
  On a sorted array the loop ends inside the array at an index that is either a hit or
  a split point: everything before it is smaller and everything after it is larger.
\<close>

definition search_post :: "(nat \<Rightarrow> 'k::linorder) \<Rightarrow> 'k \<Rightarrow> nat \<Rightarrow> nat \<Rightarrow> bool" where
  "search_post a key n i \<longleftrightarrow>
     i < n \<and> (a i = key \<or> ((\<forall>j<i. a j < key) \<and> (\<forall>j<n. i < j \<longrightarrow> key < a j)))"

lemma binary_search_loop_post:
  fixes a :: "nat \<Rightarrow> 'k::linorder"
  assumes sorted: "\<And>i j. i \<le> j \<Longrightarrow> j < n \<Longrightarrow> a i \<le> a j"
    and eq: "\<And>i. i < n \<Longrightarrow> eq (int i) = Some (a i = key)"
    and lt: "\<And>i. i < n \<Longrightarrow> lt (int i) = Some (a i < key)"
    and "0 \<le> left" "left \<le> right + 1" "right < int n" "left < int n"
    and "\<forall>j. int j < left \<longrightarrow> a j < key"
    and "\<forall>j<n. right < int j \<longrightarrow> key < a j"
  shows "\<exists>i. binary_search_loop eq lt left right = Some (int i) \<and> search_post a key n i"
  using assms(4-)
proof (induction "nat (right - left)" arbitrary: left right rule: less_induct)
  case less
  show ?case
  proof (cases "left < right")
    case False
    with less.prems have "left = right \<or> left = right + 1" by linarith
    with less.prems False show ?thesis
      by (intro exI [of _ "nat left"])
        (auto simp: binary_search_loop.simps search_post_def nat_less_iff)
  next
    case True
    define mid where "mid = nat ((left + right) div 2)"
    have mid: "(left + right) div 2 = int mid" "left \<le> int mid" "int mid < right" "mid < n"
      using True less.prems by (auto simp: mid_def)
    consider (hit) "a mid = key" | (below) "a mid < key" | (above) "key < a mid"
      by (meson linorder_less_linear)
    then show ?thesis
    proof cases
      case hit
      with True mid show ?thesis
        by (auto simp: binary_search_loop.simps [of _ _ left right] eq search_post_def Let_def)
    next
      case below
      have "\<forall>j. int j < int mid + 1 \<longrightarrow> a j < key"
        using below sorted [of _ mid] mid by (auto intro: le_less_trans)
      with less.hyps [of right "int mid + 1"] less.prems mid
      obtain i where "binary_search_loop eq lt (int mid + 1) right = Some (int i)"
        "search_post a key n i" by auto
      moreover have "a mid \<noteq> key" using below by auto
      ultimately show ?thesis using True mid below
        by (auto simp: binary_search_loop.simps [of _ _ left right] eq lt Let_def)
    next
      case above
      have "\<forall>j<n. int mid - 1 < int j \<longrightarrow> key < a j"
        using above sorted [of mid] by (auto intro: less_le_trans)
      with less.hyps [of "int mid - 1" left] less.prems mid
      obtain i where "binary_search_loop eq lt left (int mid - 1) = Some (int i)"
        "search_post a key n i" by auto
      moreover have "a mid \<noteq> key" "\<not> a mid < key" using above by auto
      ultimately show ?thesis using True mid
        by (auto simp: binary_search_loop.simps [of _ _ left right] eq lt Let_def)
    qed
  qed
qed

lemma binary_search_post:
  fixes a :: "nat \<Rightarrow> 'k::linorder"
  assumes "0 < n"
    and "\<And>i j. i \<le> j \<Longrightarrow> j < n \<Longrightarrow> a i \<le> a j"
    and "\<And>i. i < n \<Longrightarrow> eq (int i) = Some (a i = key)"
    and "\<And>i. i < n \<Longrightarrow> lt (int i) = Some (a i < key)"
  shows "\<exists>i. binary_search eq lt n = Some (int i) \<and> search_post a key n i"
  unfolding binary_search_def
  by (rule binary_search_loop_post) (use assms in auto)

subsection \<open>The property\<close>

text \<open>On a sorted array that is not empty, the \<open>binary_search\<close> macro ends, reads only indices of the
  array, and returns an index of the array that holds the key, or one with everything before it smaller
  and everything behind it greater than the key.\<close>

theorem binary_search_splits:
  fixes a :: "nat \<Rightarrow> 'k::linorder"
  assumes "0 < n" and "\<And>i j. i \<le> j \<Longrightarrow> j < n \<Longrightarrow> a i \<le> a j"
  shows "\<exists>i. binary_search (\<lambda>i. if 0 \<le> i \<and> i < int n then Some (a (nat i) = key) else None)
      (\<lambda>i. if 0 \<le> i \<and> i < int n then Some (a (nat i) < key) else None) n = Some (int i)
    \<and> i < n \<and> (a i = key \<or> (\<forall>j<i. a j < key) \<and> (\<forall>j<n. i < j \<longrightarrow> key < a j))"
  using binary_search_post [OF assms, where key = key and
      eq = "\<lambda>i. if 0 \<le> i \<and> i < int n then Some (a (nat i) = key) else None" and
      lt = "\<lambda>i. if 0 \<le> i \<and> i < int n then Some (a (nat i) < key) else None"]
  by (simp add: search_post_def)

theorem binary_search_splits_witness:
  "\<exists>i. binary_search (\<lambda>i. if 0 \<le> i \<and> i < int 4 then Some (10 * nat i = 20) else None)
      (\<lambda>i. if 0 \<le> i \<and> i < int 4 then Some (10 * nat i < 20) else None) 4 = Some (int i) \<and> i = 2"
proof -
  obtain i where i: "binary_search (\<lambda>i. if 0 \<le> i \<and> i < int 4 then Some (10 * nat i = 20) else None)
      (\<lambda>i. if 0 \<le> i \<and> i < int 4 then Some (10 * nat i < 20) else None) 4 = Some (int i)"
    "10 * i = 20 \<or> (\<forall>j<i. 10 * j < 20) \<and> (\<forall>j<4. i < j \<longrightarrow> 20 < 10 * j)"
    using binary_search_splits [of 4 "\<lambda>i. 10 * i" 20] by auto
  have "i = 2"
  proof (rule ccontr)
    assume "i \<noteq> 2"
    with i(2) have "\<not> 2 < i" "\<not> i < 2" by (auto dest: spec [of _ 2])
    with \<open>i \<noteq> 2\<close> show False by simp
  qed
  with i(1) show ?thesis by blast
qed

end
