(* ===== verification/Mem_Pool.thy ===== *)
theory Mem_Pool
  imports Utils
begin

text \<open>
  The fixed-size memory pool of \<^verbatim>\<open>src/c/src/mem_pool.h\<close> and
  \<^verbatim>\<open>src/c/src/mem_pool.c\<close>. A pool holds \<open>n\<close> size classes, sorted, and one more
  field with size \<open>SIZE_MAX\<close> for requests above the largest class. A block carries in
  front of its bytes a union: the class it belongs to while it is in use, or the next free
  block of its class. The pointer that the code hands out, \<open>d->d\<close>, and the block
  \<open>d\<close> it is computed from by \<open>container_of\<close> are one address here. Addresses are
  those of the C library's allocator: call number \<open>k\<close> of \<open>malloc\<close> returns the
  fresh address \<open>k\<close>, or \<open>NULL\<close> when \<open>oom k\<close>; as \<open>oom\<close> is any function,
  a theorem covers every pattern of failures.
\<close>

subsection \<open>Data\<close>

record mp_field =
  fld_size :: size_t
  fld_pool :: ptr
  fld_header :: ptr

text \<open>\<open>empty\<close> and \<open>used\<close> are C \<open>int\<close>s, kept here as their 32 bits.\<close>

record mp_pool =
  mp_empty :: u32
  mp_used :: u32
  mp_n :: u8
  mp_f :: "mp_field list"

text \<open>
  The union \<open>as_mem_data_fixed_p_t\<close>: a field is named by its pool and its index in
  that pool. Reading the member that was not written last is undefined.
\<close>

datatype mp_link = Uninit | Field addr nat | Next ptr

record mp_data =
  d_p :: mp_link
  d_d :: "u8 option list"

record mem =
  pools :: "mp_pool store"
  blks :: "mp_data store"
  brk :: nat
  oom :: "nat \<Rightarrow> bool"

definition link_field :: "mp_link \<Rightarrow> (addr \<times> nat) option" where
  "link_field l = (case l of Field pa i \<Rightarrow> Some (pa, i) | _ \<Rightarrow> None)"

definition link_next :: "mp_link \<Rightarrow> ptr option" where
  "link_next l = (case l of Next p \<Rightarrow> Some p | _ \<Rightarrow> None)"

subsection \<open>The C library: malloc, realloc and free of a block\<close>

text \<open>
  \<open>offsetof(as_mem_data_fixed_t, d)\<close> is 8. The argument of \<open>malloc\<close> is computed
  in \<open>size_t\<close> and may wrap; an object too small for its header is not entered into the
  store, so that writing its header is undefined.
\<close>

definition d_offset :: size_t where
  "d_offset = 8"

definition malloc_data_fixed :: "size_t \<Rightarrow> mem \<Rightarrow> ptr \<times> mem" where
  "malloc_data_fixed x s =
     (let k = brk s; bytes = unat (d_offset + x); s = s\<lparr>brk := Suc k\<rparr>
      in if oom s k then (None, s)
         else if bytes < 8 then (Some k, s)
         else (Some k, s\<lparr>blks := (blks s)(k \<mapsto>
                 \<lparr>d_p = Uninit, d_d = replicate (bytes - 8) None\<rparr>)\<rparr>))"

definition free_data :: "addr \<Rightarrow> mem \<Rightarrow> mem" where
  "free_data a s = s\<lparr>blks := (blks s)(a := None)\<rparr>"

definition resize_bytes :: "nat \<Rightarrow> u8 option list \<Rightarrow> u8 option list" where
  "resize_bytes k xs = take k xs @ replicate (k - length xs) None"

definition realloc_data_fixed :: "addr \<Rightarrow> size_t \<Rightarrow> mem \<Rightarrow> (ptr \<times> mem) option" where
  "realloc_data_fixed d x s =
     (let k = brk s; bytes = unat (d_offset + x); s' = s\<lparr>brk := Suc k\<rparr>
      in do { b \<leftarrow> blks s d;
              if oom s k then Some (None, s')
              else if bytes < 8 then Some (Some k, free_data d s')
              else Some (Some k, (free_data d s')\<lparr>blks := ((blks s)(d := None))(k \<mapsto>
                     b\<lparr>d_d := resize_bytes (bytes - 8) (d_d b)\<rparr>)\<rparr>) })"

text \<open>\<open>memcpy (to, from, k)\<close> between two blocks.\<close>

definition memcpy_data :: "addr \<Rightarrow> addr \<Rightarrow> nat \<Rightarrow> mem \<Rightarrow> mem option" where
  "memcpy_data to fr k s =
     do { x \<leftarrow> blks s fr;
          y \<leftarrow> blks s to;
          if k \<le> length (d_d x) \<and> k \<le> length (d_d y)
          then Some (s\<lparr>blks := (blks s)(to \<mapsto>
                       y\<lparr>d_d := take k (d_d x) @ drop k (d_d y)\<rparr>)\<rparr>)
          else None }"

subsection \<open>Creating a pool\<close>

definition uninit_field :: mp_field where
  "uninit_field = \<lparr>fld_size = 0, fld_pool = None, fld_header = None\<rparr>"

definition memp_init_field :: "addr \<Rightarrow> size_t list \<Rightarrow> nat \<Rightarrow> mp_field list \<Rightarrow> mp_field list option" where
  "memp_init_field p fsize i f =
     do { x \<leftarrow> arr_get fsize i;
          arr_set f i \<lparr>fld_size = x, fld_pool = Some p, fld_header = None\<rparr> }"

definition memp_sort_step :: "nat \<Rightarrow> nat \<Rightarrow> mp_field list \<Rightarrow> mp_field list option" where
  "memp_sort_step i j f =
     do { a \<leftarrow> arr_get f i;
          b \<leftarrow> arr_get f j;
          if fld_size a > fld_size b
          then do { let tmp = fld_size a;
                    f \<leftarrow> arr_set f i (a\<lparr>fld_size := fld_size b\<rparr>);
                    arr_set f j (b\<lparr>fld_size := tmp\<rparr>) }
          else Some f }"

definition memp_sort :: "nat \<Rightarrow> mp_field list \<Rightarrow> mp_field list option" where
  "memp_sort n f = foldM (\<lambda>i. foldM (memp_sort_step i) [i + 1..<n]) [0..<n - 1] f"

definition memp_new :: "size_t list \<Rightarrow> u32 \<Rightarrow> mem \<Rightarrow> (ptr \<times> mem) option" where
  "memp_new fsize n s =
     (if n < 1 then Some (None, s)
      else
        let p = brk s; s = s\<lparr>brk := Suc p\<rparr>; k = unat n
        in if oom s p then Some (None, s)
           else do { f \<leftarrow> foldM (memp_init_field p fsize) [0..<k] (replicate (k + 1) uninit_field);
                     f \<leftarrow> arr_set f k \<lparr>fld_size = -1, fld_pool = Some p, fld_header = None\<rparr>;
                     f \<leftarrow> memp_sort k f;
                     Some (Some p, s\<lparr>pools := (pools s)(p \<mapsto>
                       \<lparr>mp_empty = 0, mp_used = 0, mp_n = ucast n, mp_f = f\<rparr>)\<rparr>) })"

subsection \<open>Allocating, recycling, resizing, destroying\<close>

definition field_size_eq :: "mp_field list \<Rightarrow> size_t \<Rightarrow> int \<Rightarrow> bool option" where
  "field_size_eq f s idx = map_option (\<lambda>x. fld_size x = s) (arr_get f (nat idx))"

definition field_size_lt :: "mp_field list \<Rightarrow> size_t \<Rightarrow> int \<Rightarrow> bool option" where
  "field_size_lt f s idx = map_option (\<lambda>x. fld_size x < s) (arr_get f (nat idx))"

definition set_field :: "addr \<Rightarrow> nat \<Rightarrow> addr \<Rightarrow> mem \<Rightarrow> mem option" where
  "set_field p i d s =
     do { b \<leftarrow> modify (\<lambda>x. x\<lparr>d_p := Field p i\<rparr>) (Some d) (blks s);
          Some (s\<lparr>blks := b\<rparr>) }"

text \<open>The index of the class that serves a request: the search and the step past it.\<close>

definition memp_pick :: "mp_pool \<Rightarrow> size_t \<Rightarrow> int option" where
  "memp_pick pl sz =
     do { i \<leftarrow> binary_search (field_size_eq (mp_f pl) sz) (field_size_lt (mp_f pl) sz)
                 (unat (mp_n pl));
          x \<leftarrow> arr_get (mp_f pl) (nat i);
          Some (if fld_size x < sz then i + 1 else i) }"

text \<open>Above the largest class: a block of its own from \<open>malloc\<close>.\<close>

definition memp_alloc_large :: "addr \<Rightarrow> size_t \<Rightarrow> mem \<Rightarrow> (ptr \<times> mem) option" where
  "memp_alloc_large p sz s =
     do { pl \<leftarrow> pools s p;
          (case malloc_data_fixed sz s of
             (None, s) \<Rightarrow> Some (None, s)
           | (Some d, s) \<Rightarrow> do { s \<leftarrow> set_field p (unat (mp_n pl)) d s; Some (Some d, s) }) }"

text \<open>In a class: the first free block if there is one, else a new block of the class's size.\<close>

definition memp_take_block :: "addr \<Rightarrow> nat \<Rightarrow> mem \<Rightarrow> (ptr \<times> mem) option" where
  "memp_take_block p i s =
     do { pl \<leftarrow> pools s p;
          fi \<leftarrow> arr_get (mp_f pl) i;
          (case fld_header fi of
             Some d \<Rightarrow>
               do { x \<leftarrow> blks s d;
                    nx \<leftarrow> link_next (d_p x);
                    f \<leftarrow> arr_set (mp_f pl) i (fi\<lparr>fld_header := nx\<rparr>);
                    s \<leftarrow> set_field p i d s;
                    Some (Some d, s\<lparr>pools := (pools s)(p \<mapsto>
                      pl\<lparr>mp_f := f, mp_empty := mp_empty pl - ucast (fld_size fi)\<rparr>)\<rparr>) }
           | None \<Rightarrow>
               (case malloc_data_fixed (fld_size fi) s of
                  (None, s) \<Rightarrow> Some (None, s)
                | (Some d, s) \<Rightarrow> do { s \<leftarrow> set_field p i d s; Some (Some d, s) })) }"

definition memp_alloc_class :: "addr \<Rightarrow> nat \<Rightarrow> mem \<Rightarrow> (ptr \<times> mem) option" where
  "memp_alloc_class p i s =
     do { (d, s) \<leftarrow> memp_take_block p i s;
          (case d of
             None \<Rightarrow> Some (None, s)
           | Some d \<Rightarrow>
               do { pl \<leftarrow> pools s p;
                    fi \<leftarrow> arr_get (mp_f pl) i;
                    Some (Some d, s\<lparr>pools := (pools s)(p \<mapsto>
                      pl\<lparr>mp_used := mp_used pl + ucast (fld_size fi)\<rparr>)\<rparr>) }) }"

definition memp_alloc :: "ptr \<Rightarrow> size_t \<Rightarrow> mem \<Rightarrow> (ptr \<times> mem) option" where
  "memp_alloc pp sz s =
     (case pp of
        None \<Rightarrow> Some (None, s)
      | Some p \<Rightarrow>
        if sz = 0 then Some (None, s)
        else do { pl \<leftarrow> pools s p;
                  i \<leftarrow> memp_pick pl sz;
                  if int (unat (mp_n pl)) \<le> i then memp_alloc_large p sz s
                  else memp_alloc_class p (nat i) s })"

definition memp_recycle :: "ptr \<Rightarrow> mem \<Rightarrow> mem option" where
  "memp_recycle dd s =
     (case dd of
        None \<Rightarrow> Some s
      | Some a \<Rightarrow>
        do { d \<leftarrow> blks s a;
             (p, i) \<leftarrow> link_field (d_p d);
             pl \<leftarrow> pools s p;
             f \<leftarrow> arr_get (mp_f pl) i;
             if fld_size f = -1 then Some (free_data a s)
             else do {
               b \<leftarrow> modify (\<lambda>x. x\<lparr>d_p := Next (fld_header f)\<rparr>) (Some a) (blks s);
               fs \<leftarrow> arr_set (mp_f pl) i (f\<lparr>fld_header := Some a\<rparr>);
               ps \<leftarrow> modify (\<lambda>pl. pl\<lparr>mp_f := fs\<rparr>) (Some p) (pools s);
               ps \<leftarrow> modify (\<lambda>pl. pl\<lparr>mp_empty := mp_empty pl + ucast (fld_size f),
                                   mp_used := mp_used pl - ucast (fld_size f)\<rparr>)
                      (fld_pool f) ps;
               Some (s\<lparr>blks := b, pools := ps\<rparr>) } })"

definition memp_realloc :: "ptr \<Rightarrow> size_t \<Rightarrow> mem \<Rightarrow> (ptr \<times> mem) option" where
  "memp_realloc dd sz s =
     (case dd of
        None \<Rightarrow> Some (None, s)
      | Some a \<Rightarrow>
        if sz = 0 then do { s \<leftarrow> memp_recycle dd s; Some (None, s) }
        else do {
          d \<leftarrow> blks s a;
          (q, i) \<leftarrow> link_field (d_p d);
          ql \<leftarrow> pools s q;
          f \<leftarrow> arr_get (mp_f ql) i;
          pl \<leftarrow> deref (pools s) (fld_pool f);
          if fld_size f = -1 then do {
            g \<leftarrow> (if unat (mp_n pl) = 0 then None else arr_get (mp_f pl) (unat (mp_n pl) - 1));
            if sz \<le> fld_size g then do {
              (ndd, s) \<leftarrow> memp_alloc (fld_pool f) sz s;
              (case ndd of
                 Some nd \<Rightarrow> do { s \<leftarrow> memcpy_data nd a (unat sz) s;
                                s \<leftarrow> memp_recycle dd s;
                                Some (Some nd, s) }
               | None \<Rightarrow> Some (None, s)) }
            else realloc_data_fixed a sz s }
          else if sz > fld_size f then do {
            (ndd, s) \<leftarrow> memp_alloc (fld_pool f) sz s;
            (case ndd of
               Some nd \<Rightarrow> do { s \<leftarrow> memcpy_data nd a (unat (fld_size f)) s;
                              s \<leftarrow> memp_recycle dd s;
                              Some (Some nd, s) }
             | None \<Rightarrow> Some (None, s)) }
          else Some (dd, s) })"

partial_function (option) memp_free_list :: "ptr \<Rightarrow> mem \<Rightarrow> mem option" where
  "memp_free_list hdr s =
     (case hdr of
        None \<Rightarrow> Some s
      | Some a \<Rightarrow> do { x \<leftarrow> blks s a;
                      d \<leftarrow> link_next (d_p x);
                      memp_free_list d (free_data a s) })"

definition memp_destroy :: "ptr \<Rightarrow> mem \<Rightarrow> mem option" where
  "memp_destroy pp s =
     (case pp of
        None \<Rightarrow> Some s
      | Some p \<Rightarrow>
        do { pl \<leftarrow> pools s p;
             s \<leftarrow> foldM (\<lambda>i s. do { f \<leftarrow> arr_get (mp_f pl) i; memp_free_list (fld_header f) s })
                    [0..<unat (mp_n pl)] s;
             Some (s\<lparr>pools := (pools s)(p := None)\<rparr>) })"


subsection \<open>The invariant of a pool\<close>

definition classes :: "mp_pool \<Rightarrow> nat" where
  "classes pl = unat (mp_n pl)"

definition class_size :: "mp_pool \<Rightarrow> nat \<Rightarrow> size_t" where
  "class_size pl i = fld_size (mp_f pl ! i)"

text \<open>What never changes after \<open>memp_new\<close>: the sorted classes and the last field.\<close>

definition pool_shape :: "addr \<Rightarrow> mp_pool \<Rightarrow> bool" where
  "pool_shape p pl \<longleftrightarrow>
     0 < classes pl \<and> length (mp_f pl) = classes pl + 1
     \<and> (\<forall>i\<le>classes pl. fld_pool (mp_f pl ! i) = Some p)
     \<and> class_size pl (classes pl) = -1
     \<and> (\<forall>i j. i \<le> j \<and> j < classes pl \<longrightarrow> class_size pl i \<le> class_size pl j)
     \<and> (\<forall>i<classes pl. unat (class_size pl i) < 2 ^ 64 - 8)"

text \<open>The blocks of a free list, in the order they will be handed out.\<close>

fun chain :: "mp_data store \<Rightarrow> ptr \<Rightarrow> addr list \<Rightarrow> bool" where
  "chain h p [] \<longleftrightarrow> p = None"
| "chain h p (a # xs) \<longleftrightarrow>
     p = Some a \<and> (\<exists>b nx. h a = Some b \<and> d_p b = Next nx \<and> chain h nx xs)"

definition cap :: "mp_data store \<Rightarrow> addr \<Rightarrow> nat" where
  "cap h a = (case h a of None \<Rightarrow> 0 | Some b \<Rightarrow> length (d_d b))"

definition owned :: "addr \<Rightarrow> nat set \<Rightarrow> mp_data store \<Rightarrow> addr set" where
  "owned p I h = {a. \<exists>b i. h a = Some b \<and> d_p b = Field p i \<and> i \<in> I}"

text \<open>
  The invariant, over the number of classes \<open>n\<close>, their sizes \<open>sz\<close>, the heads of
  their free lists \<open>hdr\<close> and the free lists \<open>fl\<close> themselves. \<open>used_ok\<close> and
  \<open>empty_ok\<close> are the accounting: the two counters are the bytes of the blocks in use
  and of the free blocks, modulo \<open>2 ^ 32\<close>.
\<close>

definition lists_ok :: "nat \<Rightarrow> (nat \<Rightarrow> size_t) \<Rightarrow> (nat \<Rightarrow> ptr) \<Rightarrow> mp_data store \<Rightarrow> (nat \<Rightarrow> addr list) \<Rightarrow> bool" where
  "lists_ok n sz hdr h fl \<longleftrightarrow>
     (\<forall>i<n. chain h (hdr i) (fl i) \<and> distinct (fl i) \<and> (\<forall>a\<in>set (fl i). cap h a = unat (sz i)))
     \<and> (\<forall>i<n. \<forall>j<n. i \<noteq> j \<longrightarrow> set (fl i) \<inter> set (fl j) = {})"

definition live_ok :: "addr \<Rightarrow> nat \<Rightarrow> (nat \<Rightarrow> size_t) \<Rightarrow> mp_data store \<Rightarrow> bool" where
  "live_ok p n sz h \<longleftrightarrow>
     (\<forall>a b i. h a = Some b \<and> d_p b = Field p i \<longrightarrow>
        i \<le> n \<and> (i < n \<longrightarrow> length (d_d b) = unat (sz i))
        \<and> (i = n \<longrightarrow> (\<forall>j<n. unat (sz j) < length (d_d b))))"

definition fresh_ok :: "nat \<Rightarrow> 'b store \<Rightarrow> bool" where
  "fresh_ok k h \<longleftrightarrow> (\<forall>a\<ge>k. h a = None)"

definition used_ok :: "addr \<Rightarrow> nat \<Rightarrow> u32 \<Rightarrow> mp_data store \<Rightarrow> bool" where
  "used_ok p n used h \<longleftrightarrow> used = of_nat (\<Sum>a\<in>owned p {..<n} h. cap h a)"

definition empty_ok :: "nat \<Rightarrow> (nat \<Rightarrow> size_t) \<Rightarrow> u32 \<Rightarrow> (nat \<Rightarrow> addr list) \<Rightarrow> bool" where
  "empty_ok n sz emp fl \<longleftrightarrow> emp = of_nat (\<Sum>i<n. length (fl i) * unat (sz i))"

abbreviation hdr_of :: "mp_pool \<Rightarrow> nat \<Rightarrow> ptr" where
  "hdr_of pl i \<equiv> fld_header (mp_f pl ! i)"

definition memp_inv :: "addr \<Rightarrow> (nat \<Rightarrow> addr list) \<Rightarrow> mem \<Rightarrow> bool" where
  "memp_inv p fl s \<longleftrightarrow> (\<exists>pl. pools s p = Some pl \<and> pool_shape p pl
     \<and> lists_ok (classes pl) (class_size pl) (hdr_of pl) (blks s) fl
     \<and> live_ok p (classes pl) (class_size pl) (blks s)
     \<and> fresh_ok (brk s) (blks s)
     \<and> used_ok p (classes pl) (mp_used pl) (blks s)
     \<and> empty_ok (classes pl) (class_size pl) (mp_empty pl) fl)"

lemma chain_frame: "(\<And>a. a \<in> set xs \<Longrightarrow> h' a = h a) \<Longrightarrow> chain h' p xs = chain h p xs"
  by (induction xs arbitrary: p) auto

lemma chain_upd_other [simp]: "a \<notin> set xs \<Longrightarrow> chain (h(a := v)) p xs = chain h p xs"
  by (rule chain_frame) auto

lemma chain_Next: "chain h p xs \<Longrightarrow> a \<in> set xs \<Longrightarrow> \<exists>b nx. h a = Some b \<and> d_p b = Next nx"
  by (induction xs arbitrary: p) auto

lemma chain_in_dom: "chain h p xs \<Longrightarrow> set xs \<subseteq> dom h"
  using chain_Next by blast

lemma cap_Some [simp]: "h a = Some b \<Longrightarrow> cap h a = length (d_d b)"
  by (simp add: cap_def)

lemma cap_upd: "cap (h(a := v)) b = (if b = a then (case v of None \<Rightarrow> 0 | Some x \<Rightarrow> length (d_d x)) else cap h b)"
  by (simp add: cap_def)

lemma owned_upd_Some:
  "owned p I (h(a \<mapsto> b)) =
     (if \<exists>i\<in>I. d_p b = Field p i then insert a (owned p I h) else owned p I h - {a})"
  by (auto simp: owned_def split: if_splits)

lemma owned_upd_None: "owned p I (h(a := None)) = owned p I h - {a}"
  by (auto simp: owned_def)

lemma sum_one_point:
  fixes f g :: "nat \<Rightarrow> nat"
  assumes "i < n" and "\<And>j. j < n \<Longrightarrow> j \<noteq> i \<Longrightarrow> g j = f j" and "g i = f i + k"
  shows "(\<Sum>j<n. g j) = (\<Sum>j<n. f j) + k"
proof -
  have "(\<Sum>j<n. g j) = g i + (\<Sum>j\<in>{..<n} - {i}. g j)"
    using assms(1) by (simp add: sum.remove)
  also have "(\<Sum>j\<in>{..<n} - {i}. g j) = (\<Sum>j\<in>{..<n} - {i}. f j)"
    using assms(2) by (intro sum.cong) auto
  also have "g i + (\<Sum>j\<in>{..<n} - {i}. f j) = (\<Sum>j<n. f j) + k"
    using assms(1,3) by (simp add: sum.remove [of "{..<n}" i f])
  finally show ?thesis .
qed

subsection \<open>Choosing the class\<close>

definition best_class :: "mp_pool \<Rightarrow> size_t \<Rightarrow> nat \<Rightarrow> bool" where
  "best_class pl sz i \<longleftrightarrow> i \<le> classes pl
     \<and> (i < classes pl \<longrightarrow> sz \<le> class_size pl i
          \<and> (\<forall>j<classes pl. sz \<le> class_size pl j \<longrightarrow> class_size pl i \<le> class_size pl j))
     \<and> (i = classes pl \<longrightarrow> (\<forall>j<classes pl. class_size pl j < sz))"

lemma memp_pick_best:
  assumes shape: "pool_shape p pl"
  shows "\<exists>i. memp_pick pl sz = Some (int i) \<and> best_class pl sz i"
proof -
  have len: "i < classes pl \<Longrightarrow> i < length (mp_f pl)" for i
    using shape by (simp add: pool_shape_def)
  have mono: "i \<le> j \<Longrightarrow> j < classes pl \<Longrightarrow> class_size pl i \<le> class_size pl j" for i j
    using shape by (simp add: pool_shape_def)
  obtain i where i: "binary_search (field_size_eq (mp_f pl) sz) (field_size_lt (mp_f pl) sz) (classes pl)
      = Some (int i)" and post: "search_post (class_size pl) sz (classes pl) i"
    using binary_search_post [where a = "class_size pl" and key = sz and n = "classes pl"
        and eq = "field_size_eq (mp_f pl) sz" and lt = "field_size_lt (mp_f pl) sz"] shape mono len
    by (auto simp: pool_shape_def field_size_eq_def field_size_lt_def class_size_def)
  from post have "i < classes pl" by (simp add: search_post_def)
  define k where "k = (if class_size pl i < sz then i + 1 else i)"
  have "memp_pick pl sz = Some (int k)"
    using i \<open>i < classes pl\<close> len [of i] by (simp add: memp_pick_def classes_def k_def class_size_def)
  moreover have "best_class pl sz k"
  proof (cases "class_size pl i = sz")
    case True
    with \<open>i < classes pl\<close> show ?thesis by (simp add: best_class_def k_def)
  next
    case False
    with post have low: "\<forall>j<i. class_size pl j < sz"
      and high: "\<forall>j<classes pl. i < j \<longrightarrow> sz < class_size pl j"
      by (auto simp: search_post_def)
    show ?thesis
    proof (cases "class_size pl i < sz")
      case True
      with low have "\<forall>j<k. class_size pl j < sz" by (auto simp: k_def less_Suc_eq)
      moreover have "k \<le> j \<Longrightarrow> j < classes pl \<Longrightarrow> class_size pl k \<le> class_size pl j" for j
        by (rule mono)
      moreover have "k < classes pl \<Longrightarrow> sz < class_size pl k" using True high by (simp add: k_def)
      ultimately show ?thesis using True \<open>i < classes pl\<close>
        by (auto simp: best_class_def k_def not_le not_less linorder_not_less)
          (metis leD le_less_linear)
    next
      case False
      then have "sz \<le> class_size pl i" by simp
      with low mono False \<open>i < classes pl\<close> show ?thesis
        by (auto simp: best_class_def k_def) (metis leD not_less)
    qed
  qed
  ultimately show ?thesis by blast
qed

subsection \<open>Allocation keeps the invariant\<close>

lemma unat_offset: "unat x < 2 ^ 64 - 8 \<Longrightarrow> unat (d_offset + x) = 8 + unat x"
  unfolding d_offset_def by (subst unat_add_lem [THEN iffD1]) auto

lemma malloc_data_fixed_cases:
  assumes "unat x < 2 ^ 64 - 8"
  shows "malloc_data_fixed x s =
    (if oom s (brk s) then (None, s\<lparr>brk := Suc (brk s)\<rparr>)
     else (Some (brk s), s\<lparr>brk := Suc (brk s), blks := (blks s)(brk s \<mapsto>
             \<lparr>d_p = Uninit, d_d = replicate (unat x) None\<rparr>)\<rparr>))"
  using unat_offset [OF assms] by (simp add: malloc_data_fixed_def Let_def)

lemma set_field_Some:
  "blks s d = Some b \<Longrightarrow>
   set_field p i d s = Some (s\<lparr>blks := (blks s)(d \<mapsto> b\<lparr>d_p := Field p i\<rparr>)\<rparr>)"
  by (simp add: set_field_def mem_simps)

lemma finite_owned: "(\<And>a. n \<le> a \<Longrightarrow> h a = None) \<Longrightarrow> finite (owned p I h)"
  by (rule finite_subset [of _ "{..<n}"])
    (auto simp: owned_def, metis not_less option.distinct(1))

lemma sum_cap_frame: "(\<And>a. a \<in> A \<Longrightarrow> h' a = h a) \<Longrightarrow> (\<Sum>a\<in>A. cap h' a) = (\<Sum>a\<in>A. cap h a)"
  by (rule sum.cong) (auto simp: cap_def)

lemma fresh_ok_upd: "fresh_ok k h \<Longrightarrow> a < k \<Longrightarrow> fresh_ok k (h(a := v))"
  by (auto simp: fresh_ok_def)

lemma fresh_ok_Suc: "fresh_ok k h \<Longrightarrow> fresh_ok (Suc k) (h(k := v))"
  by (auto simp: fresh_ok_def)

lemma fresh_ok_mono: "fresh_ok k h \<Longrightarrow> k \<le> k' \<Longrightarrow> fresh_ok k' h"
  by (auto simp: fresh_ok_def)

lemma fresh_ok_less: "fresh_ok k h \<Longrightarrow> h a = Some b \<Longrightarrow> a < k"
  by (metis fresh_ok_def not_less option.distinct(1))

lemma fresh_ok_finite: "fresh_ok k h \<Longrightarrow> finite (owned p I h)"
  by (rule finite_owned [of k]) (simp add: fresh_ok_def)

lemma lists_ok_chain: "lists_ok n sz hdr h fl \<Longrightarrow> i < n \<Longrightarrow> chain h (hdr i) (fl i)"
  by (simp add: lists_ok_def)

lemma lists_ok_distinct: "lists_ok n sz hdr h fl \<Longrightarrow> i < n \<Longrightarrow> distinct (fl i)"
  by (simp add: lists_ok_def)

lemma lists_ok_cap: "lists_ok n sz hdr h fl \<Longrightarrow> i < n \<Longrightarrow> a \<in> set (fl i) \<Longrightarrow> cap h a = unat (sz i)"
  by (simp add: lists_ok_def)

lemma lists_ok_disjoint:
  "lists_ok n sz hdr h fl \<Longrightarrow> i < n \<Longrightarrow> j < n \<Longrightarrow> a \<in> set (fl i) \<Longrightarrow> a \<in> set (fl j) \<Longrightarrow> i = j"
  unfolding lists_ok_def by blast

lemma lists_okI:
  assumes "\<And>i. i < n \<Longrightarrow> chain h (hdr i) (fl i)" and "\<And>i. i < n \<Longrightarrow> distinct (fl i)"
    and "\<And>i a. i < n \<Longrightarrow> a \<in> set (fl i) \<Longrightarrow> cap h a = unat (sz i)"
    and "\<And>i j a. i < n \<Longrightarrow> j < n \<Longrightarrow> a \<in> set (fl i) \<Longrightarrow> a \<in> set (fl j) \<Longrightarrow> i = j"
  shows "lists_ok n sz hdr h fl"
  unfolding lists_ok_def using assms by (intro conjI allI impI ballI) blast+

lemma lists_ok_not_owned:
  "lists_ok n sz hdr h fl \<Longrightarrow> i < n \<Longrightarrow> h a = Some b \<Longrightarrow> d_p b = Field p j \<Longrightarrow> a \<notin> set (fl i)"
  using chain_Next [OF lists_ok_chain] by fastforce

lemma lists_ok_upd_other:
  assumes "lists_ok n sz hdr h fl" and "\<And>i. i < n \<Longrightarrow> a \<notin> set (fl i)"
  shows "lists_ok n sz hdr (h(a := v)) fl"
proof (rule lists_okI)
  fix i assume i: "i < n"
  show "chain (h(a := v)) (hdr i) (fl i)" using lists_ok_chain [OF assms(1) i] assms(2) [OF i] by simp
  show "distinct (fl i)" using lists_ok_distinct [OF assms(1) i] .
  show "cap (h(a := v)) x = unat (sz i)" if "x \<in> set (fl i)" for x
    using lists_ok_cap [OF assms(1) i that] assms(2) [OF i] that by (auto simp: cap_upd)
qed (rule lists_ok_disjoint [OF assms(1)])

lemma used_ok_upd:
  assumes "used_ok p n u h" and "fresh_ok k h" and "h a = x"
    and "u' = u - (case x of None \<Rightarrow> 0 | Some b \<Rightarrow>
               if \<exists>i<n. d_p b = Field p i then of_nat (length (d_d b)) else 0)
            + (case y of None \<Rightarrow> 0 | Some b \<Rightarrow>
               if \<exists>i<n. d_p b = Field p i then of_nat (length (d_d b)) else 0)"
  shows "used_ok p n u' (h(a := y))"
proof -
  let ?A = "owned p {..<n} h - {a}"
  have fin: "finite ?A" using assms(2) by (simp add: fresh_ok_finite)
  have A: "(\<Sum>b\<in>?A. cap (h(a := y)) b) = (\<Sum>b\<in>?A. cap h b)"
    by (rule sum_cap_frame) auto
  have mem: "a \<in> owned p {..<n} h \<longleftrightarrow> (\<exists>b. x = Some b \<and> (\<exists>i<n. d_p b = Field p i))"
    using assms(3) by (auto simp: owned_def)
  have old: "(of_nat (\<Sum>b\<in>owned p {..<n} h. cap h b) :: u32) = of_nat (\<Sum>b\<in>?A. cap h b)
      + (case x of None \<Rightarrow> 0 | Some b \<Rightarrow>
           if \<exists>i<n. d_p b = Field p i then of_nat (length (d_d b)) else 0)"
  proof (cases "a \<in> owned p {..<n} h")
    case True
    moreover obtain b where "x = Some b" "\<exists>i<n. d_p b = Field p i" using True mem by auto
    moreover have "finite (owned p {..<n} h)" using assms(2) by (simp add: fresh_ok_finite)
    ultimately show ?thesis
      using assms(3) by (simp add: sum.remove [of "owned p {..<n} h" a] del: of_nat_sum)
  next
    case False
    with mem show ?thesis by (cases x) (auto simp del: of_nat_sum)
  qed
  have new: "(of_nat (\<Sum>b\<in>owned p {..<n} (h(a := y)). cap (h(a := y)) b) :: u32) =
      of_nat (\<Sum>b\<in>?A. cap h b)
      + (case y of None \<Rightarrow> 0 | Some b \<Rightarrow>
           if \<exists>i<n. d_p b = Field p i then of_nat (length (d_d b)) else 0)"
  proof (cases y)
    case None
    with A show ?thesis by (simp add: owned_upd_None del: of_nat_sum)
  next
    case (Some b)
    show ?thesis
    proof (cases "\<exists>i<n. d_p b = Field p i")
      case True
      then have "owned p {..<n} (h(a := y)) = insert a ?A" using Some by (auto simp: owned_upd_Some)
      moreover have "(\<Sum>b\<in>insert a ?A. cap (h(a := y)) b) = cap (h(a := y)) a + (\<Sum>b\<in>?A. cap (h(a := y)) b)"
        by (rule sum.insert) (use fin in auto)
      moreover have "cap (h(a := y)) a = length (d_d b)" using Some by (simp add: cap_upd)
      ultimately show ?thesis using A Some True by (simp del: of_nat_sum insert_Diff_single)
    next
      case False
      then have "owned p {..<n} (h(a := y)) = ?A" using Some by (auto simp: owned_upd_Some)
      with A Some False show ?thesis by (auto simp del: of_nat_sum)
    qed
  qed
  from assms(1,4) old new show ?thesis unfolding used_ok_def by simp
qed


lemma lists_ok_take:
  assumes ok: "lists_ok n sz hdr h fl" and i: "i < n" and fl: "fl i = d # ds"
    and b: "h d = Some b" "d_p b = Next nx"
  shows "lists_ok n sz (hdr(i := nx)) (h(d \<mapsto> b\<lparr>d_p := Field p i\<rparr>)) (fl(i := ds))"
proof (rule lists_okI)
  let ?h = "h(d \<mapsto> b\<lparr>d_p := Field p i\<rparr>)"
  have capeq: "cap ?h x = cap h x" for x using b by (simp add: cap_upd)
  have sub: "x \<in> set ((fl(i := ds)) j) \<Longrightarrow> x \<in> set (fl j)" for x j
    using fl by (auto split: if_splits)
  have out: "d \<notin> set ((fl(i := ds)) j)" if "j < n" for j
  proof
    assume d: "d \<in> set ((fl(i := ds)) j)"
    from lists_ok_disjoint [OF ok that i sub [OF d]] fl have "j = i" by simp
    with d lists_ok_distinct [OF ok i] fl show False by simp
  qed
  fix j assume j: "j < n"
  show "chain ?h ((hdr(i := nx)) j) ((fl(i := ds)) j)"
    using lists_ok_chain [OF ok j] fl b out [OF j] by (cases "j = i") auto
  show "distinct ((fl(i := ds)) j)"
    using lists_ok_distinct [OF ok j] fl by (cases "j = i") auto
  show "cap ?h x = unat (sz j)" if "x \<in> set ((fl(i := ds)) j)" for x
    using lists_ok_cap [OF ok j sub [OF that]] unfolding capeq .
  show "j = k" if "k < n" "x \<in> set ((fl(i := ds)) j)" "x \<in> set ((fl(i := ds)) k)" for k x
    using lists_ok_disjoint [OF ok j that(1) sub sub] that(2,3) .
qed

lemma lists_ok_give:
  assumes ok: "lists_ok n sz hdr h fl" and i: "i < n"
    and b: "h a = Some b" "d_p b = Field p i" "length (d_d b) = unat (sz i)"
  shows "lists_ok n sz (hdr(i := Some a)) (h(a \<mapsto> b\<lparr>d_p := Next (hdr i)\<rparr>)) (fl(i := a # fl i))"
proof (rule lists_okI)
  let ?h = "h(a \<mapsto> b\<lparr>d_p := Next (hdr i)\<rparr>)" and ?fl = "fl(i := a # fl i)"
  have out: "a \<notin> set (fl j)" if "j < n" for j
    using lists_ok_not_owned [OF ok that b(1,2)] .
  have capeq: "cap ?h x = cap h x" for x using b by (simp add: cap_upd)
  have mem: "x \<in> set (?fl j) \<longleftrightarrow> x \<in> set (fl j) \<or> (j = i \<and> x = a)" for x j by auto
  fix j assume j: "j < n"
  show "chain ?h ((hdr(i := Some a)) j) (?fl j)"
    using lists_ok_chain [OF ok j] b out [OF j] by (cases "j = i") auto
  show "distinct (?fl j)"
    using lists_ok_distinct [OF ok j] out [OF j] by (cases "j = i") auto
  show "cap ?h x = unat (sz j)" if "x \<in> set (?fl j)" for x
    using that lists_ok_cap [OF ok j] b(3) cap_Some [of h a b, OF b(1)] unfolding mem capeq by auto
  show "j = k" if "k < n" "x \<in> set (?fl j)" "x \<in> set (?fl k)" for k x
    using that lists_ok_disjoint [OF ok j that(1)] out [OF j] out [OF that(1)] unfolding mem by auto
qed

lemma empty_ok_take:
  assumes "empty_ok n sz e fl" and "i < n" and "fl i = d # ds"
  shows "empty_ok n sz (e - ucast (sz i)) (fl(i := ds))"
proof -
  have "(\<Sum>j<n. length (fl j) * unat (sz j)) =
      (\<Sum>j<n. length ((fl(i := ds)) j) * unat (sz j)) + unat (sz i)"
    using assms(3) by (intro sum_one_point [OF assms(2)]) auto
  with assms(1) have "e = of_nat ((\<Sum>j<n. length ((fl(i := ds)) j) * unat (sz j)) + unat (sz i))"
    by (simp only: empty_ok_def)
  then show ?thesis unfolding empty_ok_def by (simp del: of_nat_sum fun_upd_apply)
qed

lemma empty_ok_give:
  assumes "empty_ok n sz e fl" and "i < n"
  shows "empty_ok n sz (e + ucast (sz i)) (fl(i := a # fl i))"
proof -
  have "(\<Sum>j<n. length ((fl(i := a # fl i)) j) * unat (sz j)) =
      (\<Sum>j<n. length (fl j) * unat (sz j)) + unat (sz i)"
    by (intro sum_one_point [OF assms(2)]) auto
  then show ?thesis using assms(1) unfolding empty_ok_def
    by (simp del: of_nat_sum fun_upd_apply)
qed

text \<open>The counters and the heads are the only parts of a pool that the operations write.\<close>

lemma pool_upd_simps [simp]:
  "classes (pl\<lparr>mp_used := u\<rparr>) = classes pl" "classes (pl\<lparr>mp_empty := e\<rparr>) = classes pl"
  "classes (pl\<lparr>mp_f := f\<rparr>) = classes pl"
  "class_size (pl\<lparr>mp_used := u\<rparr>) = class_size pl" "class_size (pl\<lparr>mp_empty := e\<rparr>) = class_size pl"
  "hdr_of (pl\<lparr>mp_used := u\<rparr>) = hdr_of pl" "hdr_of (pl\<lparr>mp_empty := e\<rparr>) = hdr_of pl"
  "pool_shape p (pl\<lparr>mp_used := u\<rparr>) = pool_shape p pl"
  "pool_shape p (pl\<lparr>mp_empty := e\<rparr>) = pool_shape p pl"
  by (auto simp: classes_def class_size_def pool_shape_def fun_eq_iff)

definition set_header :: "mp_pool \<Rightarrow> nat \<Rightarrow> ptr \<Rightarrow> mp_pool" where
  "set_header pl i x = pl\<lparr>mp_f := (mp_f pl)[i := (mp_f pl ! i)\<lparr>fld_header := x\<rparr>]\<rparr>"

lemma set_header_simps [simp]:
  "classes (set_header pl i x) = classes pl"
  "mp_used (set_header pl i x) = mp_used pl" "mp_empty (set_header pl i x) = mp_empty pl"
  by (simp_all add: set_header_def)

lemma class_size_set_header [simp]: "class_size (set_header pl i x) = class_size pl"
  by (cases "i < length (mp_f pl)")
    (auto simp: set_header_def class_size_def fun_eq_iff nth_list_update list_update_beyond)

lemma pool_shape_length: "pool_shape p pl \<Longrightarrow> i \<le> classes pl \<Longrightarrow> i < length (mp_f pl)"
  by (simp add: pool_shape_def)

lemma hdr_of_set_header:
  "pool_shape p pl \<Longrightarrow> i \<le> classes pl \<Longrightarrow> hdr_of (set_header pl i x) = (hdr_of pl)(i := x)"
  using pool_shape_length [of p pl i] by (auto simp: set_header_def fun_eq_iff nth_list_update)

lemma pool_shape_set_header [simp]: "pool_shape p (set_header pl i x) = pool_shape p pl"
proof -
  have "fld_pool (mp_f (set_header pl i x) ! j) = fld_pool (mp_f pl ! j)" for j
    by (cases "i < length (mp_f pl)")
      (auto simp: set_header_def nth_list_update list_update_beyond)
  moreover have "length (mp_f (set_header pl i x)) = length (mp_f pl)"
    by (simp add: set_header_def)
  ultimately show ?thesis by (simp add: pool_shape_def)
qed

text \<open>The four ways in which an operation changes the store and the pool.\<close>

lemma memp_inv_fresh:
  assumes inv: "memp_inv p fl s" and pl: "pools s p = Some pl"
    and i: "i \<le> classes pl" and ds: "i < classes pl \<longrightarrow> length ds = unat (class_size pl i)"
    and big: "i = classes pl \<longrightarrow> (\<forall>j<classes pl. unat (class_size pl j) < length ds)"
  shows "memp_inv p fl (s\<lparr>brk := Suc (brk s), blks := (blks s)(brk s \<mapsto> \<lparr>d_p = Field p i, d_d = ds\<rparr>),
      pools := (pools s)(p \<mapsto> pl\<lparr>mp_used := mp_used pl +
        (if i < classes pl then ucast (class_size pl i) else 0)\<rparr>)\<rparr>)"
proof -
  have none: "blks s (brk s) = None" using inv by (auto simp: memp_inv_def fresh_ok_def)
  have out: "brk s \<notin> set (fl j)" if "j < classes pl" for j
    using inv pl that none chain_in_dom by (fastforce simp: memp_inv_def lists_ok_def)
  have "used_ok p (classes pl) (mp_used pl + (if i < classes pl then ucast (class_size pl i) else 0))
      ((blks s)(brk s \<mapsto> \<lparr>d_p = Field p i, d_d = ds\<rparr>))"
    by (rule used_ok_upd [of _ _ "mp_used pl" _ "brk s" _ None])
      (use inv pl none i ds in \<open>auto simp: memp_inv_def\<close>)
  with inv pl i ds big out show ?thesis
    by (auto simp: memp_inv_def fresh_ok_Suc lists_ok_upd_other live_ok_def)
qed

lemma memp_inv_take:
  assumes inv: "memp_inv p fl s" and pl: "pools s p = Some pl" and i: "i < classes pl"
    and fl: "fl i = d # ds" and b: "blks s d = Some b" and nx: "d_p b = Next nx"
  shows "memp_inv p (fl(i := ds)) (s\<lparr>blks := (blks s)(d \<mapsto> b\<lparr>d_p := Field p i\<rparr>),
      pools := (pools s)(p \<mapsto> set_header pl i nx
        \<lparr>mp_empty := mp_empty pl - ucast (class_size pl i),
         mp_used := mp_used pl + ucast (class_size pl i)\<rparr>)\<rparr>)"
proof -
  have len: "length (d_d b) = unat (class_size pl i)"
    using inv pl i fl b by (fastforce simp: memp_inv_def lists_ok_def)
  have used: "used_ok p (classes pl) (mp_used pl + ucast (class_size pl i))
      ((blks s)(d \<mapsto> b\<lparr>d_p := Field p i\<rparr>))"
    by (rule used_ok_upd [of _ _ "mp_used pl" _ "brk s" _ "Some b"])
      (use inv pl b nx i len in \<open>auto simp: memp_inv_def\<close>)
  have shape: "pool_shape p pl" and lists: "lists_ok (classes pl) (class_size pl) (hdr_of pl) (blks s) fl"
    and emp: "empty_ok (classes pl) (class_size pl) (mp_empty pl) fl"
    using inv pl by (auto simp: memp_inv_def)
  have "live_ok p (classes pl) (class_size pl) ((blks s)(d \<mapsto> b\<lparr>d_p := Field p i\<rparr>))"
    using inv pl i len by (auto simp: memp_inv_def live_ok_def)
  moreover have "fresh_ok (brk s) ((blks s)(d \<mapsto> b\<lparr>d_p := Field p i\<rparr>))"
    using inv b by (auto simp: memp_inv_def intro: fresh_ok_upd fresh_ok_less)
  ultimately show ?thesis
    using used shape lists_ok_take [OF lists i fl b nx, of p] empty_ok_take [OF emp i fl] i
    by (simp add: memp_inv_def hdr_of_set_header fun_upd_same del: fun_upd_apply)
qed

lemma memp_inv_give:
  assumes inv: "memp_inv p fl s" and pl: "pools s p = Some pl" and i: "i < classes pl"
    and b: "blks s a = Some b" and fld: "d_p b = Field p i"
  shows "memp_inv p (fl(i := a # fl i)) (s\<lparr>blks := (blks s)(a \<mapsto> b\<lparr>d_p := Next (hdr_of pl i)\<rparr>),
      pools := (pools s)(p \<mapsto> set_header pl i (Some a)
        \<lparr>mp_empty := mp_empty pl + ucast (class_size pl i),
         mp_used := mp_used pl - ucast (class_size pl i)\<rparr>)\<rparr>)"
proof -
  have len: "length (d_d b) = unat (class_size pl i)"
    using inv pl i b fld by (auto simp: memp_inv_def live_ok_def)
  have used: "used_ok p (classes pl) (mp_used pl - ucast (class_size pl i))
      ((blks s)(a \<mapsto> b\<lparr>d_p := Next (hdr_of pl i)\<rparr>))"
    by (rule used_ok_upd [of _ _ "mp_used pl" _ "brk s" _ "Some b"])
      (use inv pl b fld i len in \<open>auto simp: memp_inv_def\<close>)
  have shape: "pool_shape p pl" and lists: "lists_ok (classes pl) (class_size pl) (hdr_of pl) (blks s) fl"
    and emp: "empty_ok (classes pl) (class_size pl) (mp_empty pl) fl"
    using inv pl by (auto simp: memp_inv_def)
  have "live_ok p (classes pl) (class_size pl) ((blks s)(a \<mapsto> b\<lparr>d_p := Next (hdr_of pl i)\<rparr>))"
    using inv pl i len by (auto simp: memp_inv_def live_ok_def)
  moreover have "fresh_ok (brk s) ((blks s)(a \<mapsto> b\<lparr>d_p := Next (hdr_of pl i)\<rparr>))"
    using inv b by (auto simp: memp_inv_def intro: fresh_ok_upd fresh_ok_less)
  ultimately show ?thesis
    using used shape lists_ok_give [OF lists i b fld len] empty_ok_give [OF emp i] i
    by (simp add: memp_inv_def hdr_of_set_header fun_upd_same del: fun_upd_apply)
qed

lemma memp_inv_free_large:
  assumes inv: "memp_inv p fl s" and pl: "pools s p = Some pl"
    and b: "blks s a = Some b" and fld: "d_p b = Field p (classes pl)"
  shows "memp_inv p fl (free_data a s)"
proof -
  have "used_ok p (classes pl) (mp_used pl) ((blks s)(a := None))"
    by (rule used_ok_upd [of _ _ "mp_used pl" _ "brk s" _ "Some b"])
      (use inv pl b fld in \<open>auto simp: memp_inv_def\<close>)
  moreover have "a \<notin> set (fl j)" if "j < classes pl" for j
    using inv pl b fld that lists_ok_not_owned by (fastforce simp: memp_inv_def)
  moreover have "fresh_ok (brk s) ((blks s)(a := None))"
    using inv by (auto simp: memp_inv_def fresh_ok_def)
  ultimately show ?thesis using inv pl
    by (auto simp: memp_inv_def free_data_def lists_ok_upd_other live_ok_def)
qed


lemma memp_inv_write:
  assumes inv: "memp_inv p fl s" and b: "blks s a = Some b" and fld: "d_p b = Field p i"
    and len: "length d = length (d_d b)"
  shows "memp_inv p fl (s\<lparr>blks := (blks s)(a \<mapsto> b\<lparr>d_d := d\<rparr>)\<rparr>)"
proof -
  obtain pl where pl: "pools s p = Some pl" using inv by (auto simp: memp_inv_def)
  have "used_ok p (classes pl) (mp_used pl) ((blks s)(a \<mapsto> b\<lparr>d_d := d\<rparr>))"
    by (rule used_ok_upd [of _ _ "mp_used pl" _ "brk s" _ "Some b"])
      (use inv pl b fld len in \<open>auto simp: memp_inv_def\<close>)
  moreover have "a \<notin> set (fl j)" if "j < classes pl" for j
    using inv pl b fld that lists_ok_not_owned by (fastforce simp: memp_inv_def)
  moreover have "fresh_ok (brk s) ((blks s)(a \<mapsto> b\<lparr>d_d := d\<rparr>))"
    using inv b by (auto simp: memp_inv_def intro: fresh_ok_upd fresh_ok_less)
  moreover have "live_ok p (classes pl) (class_size pl) ((blks s)(a \<mapsto> b\<lparr>d_d := d\<rparr>))"
    using inv pl b len by (auto simp: memp_inv_def live_ok_def)
  ultimately show ?thesis using inv pl
    by (auto simp: memp_inv_def lists_ok_upd_other)
qed

lemma memp_inv_brk:
  "memp_inv p fl s \<Longrightarrow> brk s \<le> k \<Longrightarrow> memp_inv p fl (s\<lparr>brk := k\<rparr>)"
  by (auto simp: memp_inv_def intro: fresh_ok_mono)

subsection \<open>What each operation does\<close>

lemma memp_inv_pool: "memp_inv p fl s \<Longrightarrow> \<exists>pl. pools s p = Some pl \<and> pool_shape p pl"
  by (auto simp: memp_inv_def)

lemma memp_alloc_eq:
  assumes "memp_inv p fl s" and "pools s p = Some pl" and "sz \<noteq> 0"
  shows "\<exists>i. best_class pl sz i \<and> memp_alloc (Some p) sz s =
           (if i < classes pl then memp_alloc_class p i s else memp_alloc_large p sz s)"
proof -
  obtain i where "memp_pick pl sz = Some (int i)" "best_class pl sz i"
    using memp_pick_best [of p pl sz] assms by (auto simp: memp_inv_def)
  moreover have "uint (mp_n pl) \<le> int i \<longleftrightarrow> \<not> i < classes pl"
    unfolding classes_def by (simp add: uint_nat not_less del: of_nat_unat)
  ultimately show ?thesis using assms by (intro exI [of _ i]) (simp add: memp_alloc_def)
qed

lemma memp_alloc_class_reuse:
  assumes "memp_inv p fl s" and "pools s p = Some pl" and "i < classes pl" and "fl i = d # ds"
  obtains b nx where "blks s d = Some b" "d_p b = Next nx"
    "memp_alloc_class p i s = Some (Some d, s\<lparr>blks := (blks s)(d \<mapsto> b\<lparr>d_p := Field p i\<rparr>),
      pools := (pools s)(p \<mapsto> set_header pl i nx
        \<lparr>mp_empty := mp_empty pl - ucast (class_size pl i),
         mp_used := mp_used pl + ucast (class_size pl i)\<rparr>)\<rparr>)"
proof -
  have "chain (blks s) (hdr_of pl i) (d # ds)" and len: "i < length (mp_f pl)"
    using assms by (auto simp: memp_inv_def pool_shape_def dest: lists_ok_chain)
  then obtain b nx where hdr: "hdr_of pl i = Some d" and b: "blks s d = Some b" "d_p b = Next nx" by auto
  have sz: "fld_size (mp_f (set_header pl i nx) ! i) = class_size pl i"
    using fun_cong [OF class_size_set_header, of pl i nx i] by (simp only: class_size_def)
  have "memp_take_block p i s = Some (Some d, s\<lparr>blks := (blks s)(d \<mapsto> b\<lparr>d_p := Field p i\<rparr>),
      pools := (pools s)(p \<mapsto> set_header pl i nx\<lparr>mp_empty := mp_empty pl - ucast (class_size pl i)\<rparr>)\<rparr>)"
    using assms hdr b len
    by (simp add: memp_take_block_def link_next_def set_field_Some set_header_def class_size_def)
  with len b sz show thesis
    by (intro that [of b nx]) (simp_all add: memp_alloc_class_def class_size_def set_header_def)
qed

lemma memp_alloc_class_malloc:
  assumes "memp_inv p fl s" and "pools s p = Some pl" and "i < classes pl" and "fl i = []"
  shows "memp_alloc_class p i s = (if oom s (brk s) then Some (None, s\<lparr>brk := Suc (brk s)\<rparr>)
     else Some (Some (brk s), s\<lparr>brk := Suc (brk s),
       blks := (blks s)(brk s \<mapsto> \<lparr>d_p = Field p i, d_d = replicate (unat (class_size pl i)) None\<rparr>),
       pools := (pools s)(p \<mapsto> pl\<lparr>mp_used := mp_used pl + ucast (class_size pl i)\<rparr>)\<rparr>))"
proof -
  have "chain (blks s) (hdr_of pl i) []" and len: "i < length (mp_f pl)"
    and sz: "unat (class_size pl i) < 2 ^ 64 - 8"
    using assms by (auto simp: memp_inv_def pool_shape_def dest: lists_ok_chain)
  with assms show ?thesis
    by (simp add: memp_alloc_class_def memp_take_block_def malloc_data_fixed_cases set_field_Some
        class_size_def del: One_nat_def)
qed

lemma memp_alloc_large_malloc:
  assumes "pools s p = Some pl" and "unat sz < 2 ^ 64 - 8"
  shows "memp_alloc_large p sz s = (if oom s (brk s) then Some (None, s\<lparr>brk := Suc (brk s)\<rparr>)
     else Some (Some (brk s), s\<lparr>brk := Suc (brk s),
       blks := (blks s)(brk s \<mapsto> \<lparr>d_p = Field p (classes pl), d_d = replicate (unat sz) None\<rparr>)\<rparr>))"
  using assms by (simp add: memp_alloc_large_def malloc_data_fixed_cases set_field_Some classes_def)

text \<open>
  The parts of a pool that no operation changes, and what a successful or a failed
  allocation does to the store.
\<close>

definition same_classes :: "addr \<Rightarrow> mem \<Rightarrow> mem \<Rightarrow> bool" where
  "same_classes p s s' \<longleftrightarrow> (\<forall>pl. pools s p = Some pl \<longrightarrow>
     (\<exists>pl'. pools s' p = Some pl' \<and> classes pl' = classes pl \<and> class_size pl' = class_size pl))"

definition alloc_post :: "addr \<Rightarrow> mp_pool \<Rightarrow> size_t \<Rightarrow> mem \<Rightarrow> ptr \<Rightarrow> mem \<Rightarrow> bool" where
  "alloc_post p pl sz s r s' \<longleftrightarrow> oom s' = oom s \<and>
     (case r of
        None \<Rightarrow> oom s (brk s) \<and> blks s' = blks s \<and> pools s' = pools s
      | Some a \<Rightarrow> a \<notin> owned p UNIV (blks s) \<and>
          (\<exists>i b. best_class pl sz i \<and> blks s' = (blks s)(a \<mapsto> b) \<and> d_p b = Field p i
             \<and> length (d_d b) = (if i < classes pl then unat (class_size pl i) else unat sz)))"

lemma alloc_postI:
  "a \<notin> owned p UNIV (blks s) \<Longrightarrow> best_class pl sz i \<Longrightarrow> blks s' = (blks s)(a \<mapsto> b) \<Longrightarrow>
   oom s' = oom s \<Longrightarrow> d_p b = Field p i \<Longrightarrow> length (d_d b) = (if i < classes pl then unat (class_size pl i) else unat sz) \<Longrightarrow>
   alloc_post p pl sz s (Some a) s'"
  unfolding alloc_post_def by (simp only: option.case) blast

lemma memp_alloc_correct:
  assumes inv: "memp_inv p fl s" and pl: "pools s p = Some pl"
    and sz: "sz \<noteq> 0" "unat sz < 2 ^ 64 - 8"
  shows "\<exists>r s' fl'. memp_alloc (Some p) sz s = Some (r, s') \<and> memp_inv p fl' s'
           \<and> same_classes p s s' \<and> alloc_post p pl sz s r s'"
proof -
  obtain i where best: "best_class pl sz i" and eq: "memp_alloc (Some p) sz s =
      (if i < classes pl then memp_alloc_class p i s else memp_alloc_large p sz s)"
    using memp_alloc_eq [OF inv pl sz(1)] by blast
  have none: "blks s (brk s) = None" using inv by (auto simp: memp_inv_def fresh_ok_def)
  have brk: "memp_inv p fl (s\<lparr>brk := Suc (brk s)\<rparr>)" by (rule memp_inv_brk [OF inv]) simp
  consider (reuse) d ds where "i < classes pl" "fl i = d # ds"
    | (new) "i < classes pl" "fl i = []" | (large) "i = classes pl"
    using best by (cases "fl i") (auto simp: best_class_def le_less)
  then show ?thesis
  proof cases
    case reuse
    let ?s = "\<lambda>b nx. s\<lparr>blks := (blks s)(d \<mapsto> b\<lparr>d_p := Field p i\<rparr>),
        pools := (pools s)(p \<mapsto> set_header pl i nx
        \<lparr>mp_empty := mp_empty pl - ucast (class_size pl i),
         mp_used := mp_used pl + ucast (class_size pl i)\<rparr>)\<rparr>"
    obtain b nx where b: "blks s d = Some b" "d_p b = Next nx"
      and res: "memp_alloc_class p i s = Some (Some d, ?s b nx)"
      by (rule memp_alloc_class_reuse [OF inv pl reuse])
    have "lists_ok (classes pl) (class_size pl) (hdr_of pl) (blks s) fl"
      using inv pl by (auto simp: memp_inv_def)
    then have len: "length (d_d b) = unat (class_size pl i)"
      using lists_ok_cap [of "classes pl" "class_size pl" "hdr_of pl" "blks s" fl i d] reuse b by simp
    have "alloc_post p pl sz s (Some d) (?s b nx)"
      by (rule alloc_postI [OF _ best, where b = "b\<lparr>d_p := Field p i\<rparr>"])
        (use b len reuse(1) in \<open>simp_all add: owned_def\<close>)
    moreover have "same_classes p s (?s b nx)" using pl by (simp add: same_classes_def)
    moreover have "memp_inv p (fl(i := ds)) (?s b nx)" by (rule memp_inv_take [OF inv pl reuse b])
    moreover have "memp_alloc (Some p) sz s = Some (Some d, ?s b nx)" using eq res reuse(1) by simp
    ultimately show ?thesis by blast
  next
    case new
    let ?b = "\<lparr>d_p = Field p i, d_d = replicate (unat (class_size pl i)) None\<rparr>"
    let ?s = "s\<lparr>brk := Suc (brk s), blks := (blks s)(brk s \<mapsto> ?b),
       pools := (pools s)(p \<mapsto> pl\<lparr>mp_used := mp_used pl + ucast (class_size pl i)\<rparr>)\<rparr>"
    have post: "alloc_post p pl sz s (Some (brk s)) ?s"
      by (rule alloc_postI [OF _ best, where b = ?b]) (use none new(1) in \<open>simp_all add: owned_def\<close>)
    have inv': "memp_inv p fl ?s"
      using memp_inv_fresh [OF inv pl, of i "replicate (unat (class_size pl i)) None"] new(1) by simp
    have same: "same_classes p s ?s" using pl by (simp add: same_classes_def)
    have res: "memp_alloc (Some p) sz s = (if oom s (brk s)
        then Some (None, s\<lparr>brk := Suc (brk s)\<rparr>) else Some (Some (brk s), ?s))"
      using eq memp_alloc_class_malloc [OF inv pl new] new(1) by simp
    show ?thesis
    proof (cases "oom s (brk s)")
      case True
      with res brk show ?thesis
        by (intro exI [of _ None] exI [of _ "s\<lparr>brk := Suc (brk s)\<rparr>"] exI [of _ fl])
          (simp add: alloc_post_def same_classes_def)
    next
      case False
      then have "memp_alloc (Some p) sz s = Some (Some (brk s), ?s)" using res by simp
      with inv' same post show ?thesis by blast
    qed
  next
    case large
    let ?b = "\<lparr>d_p = Field p i, d_d = replicate (unat sz) None\<rparr>"
    let ?s = "s\<lparr>brk := Suc (brk s), blks := (blks s)(brk s \<mapsto> ?b)\<rparr>"
    have post: "alloc_post p pl sz s (Some (brk s)) ?s"
      by (rule alloc_postI [OF _ best, where b = ?b]) (use none large in \<open>simp_all add: owned_def\<close>)
    have "(pools s)(p \<mapsto> pl\<lparr>mp_used := mp_used pl\<rparr>) = pools s" using pl by auto
    then have inv': "memp_inv p fl ?s"
      using memp_inv_fresh [OF inv pl, of i "replicate (unat sz) None"] large best
      by (simp add: best_class_def word_less_nat_alt)
    have same: "same_classes p s ?s" using pl by (simp add: same_classes_def)
    have res: "memp_alloc (Some p) sz s = (if oom s (brk s)
        then Some (None, s\<lparr>brk := Suc (brk s)\<rparr>) else Some (Some (brk s), ?s))"
      using eq memp_alloc_large_malloc [OF pl sz(2)] large by simp
    show ?thesis
    proof (cases "oom s (brk s)")
      case True
      with res brk show ?thesis
        by (intro exI [of _ None] exI [of _ "s\<lparr>brk := Suc (brk s)\<rparr>"] exI [of _ fl])
          (simp add: alloc_post_def same_classes_def)
    next
      case False
      then have "memp_alloc (Some p) sz s = Some (Some (brk s), ?s)" using res by simp
      with inv' same post show ?thesis by blast
    qed
  qed
qed

subsection \<open>The property, and a pool to see it on\<close>

text \<open>Classes of 8 and 16 bytes; block 1, of the first class, is in use.\<close>

definition small_pool_fields :: "mp_field list" where
  "small_pool_fields = [\<lparr>fld_size = 8, fld_pool = Some 0, fld_header = None\<rparr>,
     \<lparr>fld_size = 16, fld_pool = Some 0, fld_header = None\<rparr>, \<lparr>fld_size = -1, fld_pool = Some 0, fld_header = None\<rparr>]"

definition small_mem :: mem where
  "small_mem = \<lparr>pools = [0 \<mapsto> \<lparr>mp_empty = 0, mp_used = 8, mp_n = 2, mp_f = small_pool_fields\<rparr>],
     blks = [1 \<mapsto> \<lparr>d_p = Field 0 0, d_d = replicate 8 (Some 7)\<rparr>], brk = 2, oom = (\<lambda>_. False)\<rparr>"

lemma small_mem_inv: "memp_inv 0 (\<lambda>_. []) small_mem"
proof -
  let ?pl = "\<lparr>mp_empty = 0, mp_used = 8, mp_n = 2, mp_f = small_pool_fields\<rparr>"
  let ?b = "[1 \<mapsto> \<lparr>d_p = Field 0 0, d_d = replicate 8 (Some 7)\<rparr>] :: mp_data store"
  have cls: "classes ?pl = 2" by (simp add: classes_def)
  have sizes: "class_size ?pl 0 = 8" "class_size ?pl 1 = 16" "class_size ?pl 2 = -1"
    by (simp_all add: class_size_def small_pool_fields_def numeral_2_eq_2)
  have hdr: "hdr_of ?pl i = None \<and> fld_pool (small_pool_fields ! i) = Some 0" if "i \<le> 2" for i
  proof -
    from that consider "i = 0" | "i = 1" | "i = 2" by linarith
    then show ?thesis by cases (simp_all add: small_pool_fields_def numeral_2_eq_2)
  qed
  have below: "i < 2 \<longleftrightarrow> i = 0 \<or> i = 1" for i :: nat by linarith
  have mono: "class_size ?pl i \<le> class_size ?pl j" if "i \<le> j" "j < 2" for i j
  proof -
    from that consider "i = j" | "i = 0" "j = 1" by linarith
    then show ?thesis by cases (simp_all add: sizes del: One_nat_def)
  qed
  have small: "unat (class_size ?pl i) < 2 ^ 64 - 8" if "i < 2" for i
  proof -
    from that consider "i = 0" | "i = 1" by linarith
    then show ?thesis by cases (simp_all add: sizes del: One_nat_def)
  qed
  have "length small_pool_fields = 3" by (simp add: small_pool_fields_def)
  then have "pool_shape 0 ?pl" unfolding pool_shape_def cls using hdr sizes(3) mono small by simp
  moreover have "lists_ok 2 (class_size ?pl) (hdr_of ?pl) ?b (\<lambda>_. [])" using hdr by (simp add: lists_ok_def)
  moreover have "live_ok 0 2 (class_size ?pl) ?b" using sizes by (auto simp: live_ok_def)
  moreover have "owned 0 {..<2} ?b = {1}" by (auto simp: owned_def)
  then have "used_ok 0 2 8 ?b" by (simp add: used_ok_def cap_def)
  moreover have "fresh_ok 2 ?b" by (simp add: fresh_ok_def)
  moreover have "empty_ok 2 (class_size ?pl) 0 (\<lambda>_. [])" by (simp add: empty_ok_def)
  ultimately show ?thesis unfolding memp_inv_def by (simp add: small_mem_def cls)
qed

text \<open>C20: \<open>memp_alloc\<close> of a size that is not 0 from a pool in order returns \<open>NULL\<close> only when the C
  library's \<open>malloc\<close> fails, and then changes nothing; otherwise it returns a block that was not in
  use, of the smallest class that fits (or of the requested size when no class fits), tags it with
  that class, touches no other block, and keeps the invariant of the pool: the free lists, and the
  counters of used and free bytes.\<close>

theorem memp_alloc_best_fit:
  assumes "memp_inv p fl s" and "pools s p = Some pl" and "sz \<noteq> 0" and "unat sz < 2 ^ 64 - 8"
  shows "\<exists>r s' fl'. memp_alloc (Some p) sz s = Some (r, s') \<and> memp_inv p fl' s'
    \<and> same_classes p s s' \<and> alloc_post p pl sz s r s'"
  by (rule memp_alloc_correct [OF assms])

theorem memp_alloc_best_fit_witness:
  "\<exists>s' fl' b. memp_alloc (Some 0) 9 small_mem = Some (Some 2, s') \<and> memp_inv 0 fl' s'
    \<and> blks s' 2 = Some b \<and> length (d_d b) = 16 \<and> blks s' 1 = blks small_mem 1"
proof -
  let ?pl = "\<lparr>mp_empty = 0, mp_used = 8, mp_n = 2, mp_f = small_pool_fields\<rparr>"
  have pl: "pools small_mem 0 = Some ?pl" by (simp add: small_mem_def)
  have run: "map_option (\<lambda>(r, s'). (r, map_option (\<lambda>b. length (d_d b)) (blks s' 2), map_option d_d (blks s' 1)))
      (memp_alloc (Some 0) 9 small_mem) = Some (Some 2, Some 16, Some (replicate 8 (Some 7)))" by code_simp
  have ok: "unat (9 :: size_t) < 2 ^ 64 - 8" by simp
  obtain r s' fl' where s': "memp_alloc (Some 0) 9 small_mem = Some (r, s')" "memp_inv 0 fl' s'"
    "alloc_post 0 ?pl 9 small_mem r s'" using memp_alloc_best_fit [OF small_mem_inv pl _ ok] by auto
  with run have "r = Some 2" "map_option (\<lambda>b. length (d_d b)) (blks s' 2) = Some 16" by auto
  moreover from this s'(3) have "blks s' 1 = blks small_mem 1" by (auto simp: alloc_post_def)
  ultimately show ?thesis using s'(1,2) by auto
qed

end
