(* ===== verification/Mem_Pool_Ops.thy ===== *)
theory Mem_Pool_Ops
  imports Mem_Pool "HOL-Library.Multiset"
begin

text \<open>
  Recycling, resizing, creating and destroying a pool (\<^verbatim>\<open>src/c/src/mem_pool.c\<close>), and
  the interface \<open>block_pool\<close> through which the byte buffers, the threads and the
  counters use the pool.
\<close>

subsection \<open>Recycling\<close>

lemma class_size_not_sentinel: "pool_shape p pl \<Longrightarrow> i < classes pl \<Longrightarrow> class_size pl i \<noteq> -1"
proof
  assume "pool_shape p pl" "i < classes pl" and eq: "class_size pl i = -1"
  then have "unat (class_size pl i) < 2 ^ 64 - 8" unfolding pool_shape_def by blast
  then show False using eq by (simp add: unsigned_minus_1_eq_mask mask_eq_exp_minus_1)
qed

lemma memp_recycle_class:
  assumes inv: "memp_inv p fl s" and pl: "pools s p = Some pl" and i: "i < classes pl"
    and b: "blks s a = Some b" "d_p b = Field p i"
  shows "memp_recycle (Some a) s = Some (s\<lparr>blks := (blks s)(a \<mapsto> b\<lparr>d_p := Next (hdr_of pl i)\<rparr>),
      pools := (pools s)(p \<mapsto> set_header pl i (Some a)
        \<lparr>mp_empty := mp_empty pl + ucast (class_size pl i),
         mp_used := mp_used pl - ucast (class_size pl i)\<rparr>)\<rparr>)"
proof -
  have shape: "pool_shape p pl" using inv pl by (auto simp: memp_inv_def)
  then have "fld_pool (mp_f pl ! i) = Some p" "i < length (mp_f pl)"
    "fld_size (mp_f pl ! i) \<noteq> -1"
    using i class_size_not_sentinel [OF shape i] by (auto simp: pool_shape_def class_size_def)
  with pl b show ?thesis
    by (simp add: memp_recycle_def link_field_def modify_Some set_header_def class_size_def)
qed

lemma memp_recycle_large:
  assumes inv: "memp_inv p fl s" and pl: "pools s p = Some pl"
    and b: "blks s a = Some b" "d_p b = Field p (classes pl)"
  shows "memp_recycle (Some a) s = Some (free_data a s)"
proof -
  have "fld_size (mp_f pl ! classes pl) = -1" "classes pl < length (mp_f pl)"
    using inv pl by (auto simp: memp_inv_def pool_shape_def class_size_def)
  with pl b show ?thesis by (simp add: memp_recycle_def link_field_def)
qed

lemma owned_cases:
  assumes "memp_inv p fl s" and "pools s p = Some pl" and "a \<in> owned p UNIV (blks s)"
  obtains b i where "blks s a = Some b" "d_p b = Field p i"
    "i < classes pl" "length (d_d b) = unat (class_size pl i)"
  | b where "blks s a = Some b" "d_p b = Field p (classes pl)"
    "\<And>j. j < classes pl \<Longrightarrow> unat (class_size pl j) < length (d_d b)"
proof -
  obtain b i where b: "blks s a = Some b" "d_p b = Field p i" using assms(3) by (auto simp: owned_def)
  with assms(1,2) have "i \<le> classes pl \<and> (i < classes pl \<longrightarrow> length (d_d b) = unat (class_size pl i))
      \<and> (i = classes pl \<longrightarrow> (\<forall>j<classes pl. unat (class_size pl j) < length (d_d b)))"
    by (auto simp: memp_inv_def live_ok_def)
  with b that show thesis by (cases "i < classes pl") auto
qed

lemma owned_not_Field: "(\<And>i. d_p b \<noteq> Field p i) \<Longrightarrow> owned p I (h(a \<mapsto> b)) = owned p I h - {a}"
  by (auto simp: owned_upd_Some)

lemma memp_recycle_correct:
  assumes inv: "memp_inv p fl s" and a: "a \<in> owned p UNIV (blks s)"
  shows "\<exists>s' fl'. memp_recycle (Some a) s = Some s' \<and> memp_inv p fl' s' \<and> same_classes p s s'
           \<and> owned p UNIV (blks s') = owned p UNIV (blks s) - {a}
           \<and> (\<forall>x. x \<noteq> a \<longrightarrow> blks s' x = blks s x)"
proof -
  obtain pl where pl: "pools s p = Some pl" using memp_inv_pool [OF inv] by blast
  from inv pl a show ?thesis
  proof (cases rule: owned_cases)
    case (1 b i)
    let ?s = "s\<lparr>blks := (blks s)(a \<mapsto> b\<lparr>d_p := Next (hdr_of pl i)\<rparr>),
      pools := (pools s)(p \<mapsto> set_header pl i (Some a)
        \<lparr>mp_empty := mp_empty pl + ucast (class_size pl i),
         mp_used := mp_used pl - ucast (class_size pl i)\<rparr>)\<rparr>"
    have "memp_recycle (Some a) s = Some ?s" by (rule memp_recycle_class [OF inv pl 1(3,1,2)])
    moreover have "memp_inv p (fl(i := a # fl i)) ?s" by (rule memp_inv_give [OF inv pl 1(3,1,2)])
    moreover have "same_classes p s ?s" using pl by (simp add: same_classes_def)
    moreover have "owned p UNIV (blks ?s) = owned p UNIV (blks s) - {a}"
      by (simp add: owned_not_Field)
    ultimately show ?thesis by (intro exI conjI) (assumption | simp)+
  next
    case (2 b)
    have "memp_inv p fl (free_data a s)" by (rule memp_inv_free_large [OF inv pl 2(1,2)])
    with memp_recycle_large [OF inv pl 2(1,2)] pl show ?thesis
      by (auto simp: free_data_def same_classes_def owned_upd_None)
  qed
qed

text \<open>Recycling a block twice is undefined: the union no longer holds a class.\<close>

lemma memp_recycle_twice:
  assumes inv: "memp_inv p fl s" and a: "a \<in> owned p UNIV (blks s)"
    and rec: "memp_recycle (Some a) s = Some s'"
  shows "memp_recycle (Some a) s' = None"
proof -
  obtain pl where pl: "pools s p = Some pl" using memp_inv_pool [OF inv] by blast
  from inv pl a show ?thesis
  proof (cases rule: owned_cases)
    case (1 b i)
    with memp_recycle_class [OF inv pl 1(3,1,2)] rec show ?thesis
      by (auto simp: memp_recycle_def link_field_def)
  next
    case (2 b)
    with memp_recycle_large [OF inv pl 2(1,2)] rec show ?thesis
      by (auto simp: memp_recycle_def free_data_def)
  qed
qed

subsection \<open>Resizing\<close>

lemma memcpy_data_Some:
  "blks s fr = Some x \<Longrightarrow> blks s to = Some y \<Longrightarrow> k \<le> length (d_d x) \<Longrightarrow> k \<le> length (d_d y) \<Longrightarrow>
   memcpy_data to fr k s =
     Some (s\<lparr>blks := (blks s)(to \<mapsto> y\<lparr>d_d := take k (d_d x) @ drop k (d_d y)\<rparr>)\<rparr>)"
  by (simp add: memcpy_data_def)

text \<open>
  What a resize promises: the block \<open>a\<close> is replaced by a block of at least \<open>sz\<close>
  bytes that starts with the bytes of \<open>a\<close>, and nothing else changes; or it fails and
  nothing changes.
\<close>

definition realloc_post :: "addr \<Rightarrow> addr \<Rightarrow> size_t \<Rightarrow> mem \<Rightarrow> ptr \<Rightarrow> mem \<Rightarrow> bool" where
  "realloc_post p a sz s r s' \<longleftrightarrow>
     (case r of
        None \<Rightarrow> blks s' = blks s \<and> pools s' = pools s
      | Some c \<Rightarrow>
          (c = a \<or> c \<notin> owned p UNIV (blks s))
          \<and> owned p UNIV (blks s') = insert c (owned p UNIV (blks s) - {a})
          \<and> (\<forall>x\<in>owned p UNIV (blks s). x \<noteq> a \<longrightarrow> blks s' x = blks s x)
          \<and> (\<forall>x y. blks s a = Some x \<and> blks s' c = Some y \<longrightarrow> unat sz \<le> length (d_d y)
               \<and> take (min (unat sz) (length (d_d x))) (d_d y)
                   = take (min (unat sz) (length (d_d x))) (d_d x)))"

text \<open>The common path: a new block, a copy of \<open>k\<close> bytes, the old block recycled.\<close>

definition move_block :: "addr \<Rightarrow> addr \<Rightarrow> size_t \<Rightarrow> nat \<Rightarrow> mem \<Rightarrow> (ptr \<times> mem) option" where
  "move_block p a sz k s =
     do { (ndd, s) \<leftarrow> memp_alloc (Some p) sz s;
          (case ndd of
             Some nd \<Rightarrow> do { s \<leftarrow> memcpy_data nd a k s;
                            s \<leftarrow> memp_recycle (Some a) s;
                            Some (Some nd, s) }
           | None \<Rightarrow> Some (None, s)) }"

lemma move_block_correct:
  assumes inv: "memp_inv p fl s" and a: "a \<in> owned p UNIV (blks s)" and x: "blks s a = Some x"
    and sz: "sz \<noteq> 0" "unat sz < 2 ^ 64 - 8"
    and k: "k = min (unat sz) (length (d_d x))"
  shows "\<exists>r s' fl'. move_block p a sz k s = Some (r, s') \<and> memp_inv p fl' s'
           \<and> same_classes p s s' \<and> realloc_post p a sz s r s'"
proof -
  obtain pl where pl: "pools s p = Some pl" using memp_inv_pool [OF inv] by blast
  obtain r s1 fl1 where al: "memp_alloc (Some p) sz s = Some (r, s1)" and inv1: "memp_inv p fl1 s1"
    and same1: "same_classes p s s1" and post: "alloc_post p pl sz s r s1"
    using memp_alloc_correct [OF inv pl sz] by blast
  show ?thesis
  proof (cases r)
    case None
    with al inv1 same1 post show ?thesis
      by (auto simp: move_block_def alloc_post_def realloc_post_def)
  next
    case (Some c)
    from post Some obtain i y where c: "c \<notin> owned p UNIV (blks s)" and best: "best_class pl sz i"
      and h1: "blks s1 = (blks s)(c \<mapsto> y)" and y: "d_p y = Field p i"
      and len: "length (d_d y) = (if i < classes pl then unat (class_size pl i) else unat sz)"
      by (auto simp: alloc_post_def)
    have "c \<noteq> a" using a c by auto
    have big: "unat sz \<le> length (d_d y)"
      using len best by (auto simp: best_class_def word_le_nat_alt)
    let ?y = "y\<lparr>d_d := take k (d_d x) @ drop k (d_d y)\<rparr>"
    let ?s2 = "s1\<lparr>blks := (blks s1)(c \<mapsto> ?y)\<rparr>"
    have cp: "memcpy_data c a k s1 = Some ?s2"
      by (rule memcpy_data_Some) (use h1 x k big \<open>c \<noteq> a\<close> in auto)
    have len2: "length (d_d ?y) = length (d_d y)" using k big by auto
    have inv2: "memp_inv p fl1 ?s2"
      by (rule memp_inv_write [OF inv1 _ y]) (use h1 k big in auto)
    have own2: "owned p UNIV (blks ?s2) = insert c (owned p UNIV (blks s))"
      using y h1 by (auto simp: owned_upd_Some)
    then have "a \<in> owned p UNIV (blks ?s2)" using a by simp
    from memp_recycle_correct [OF inv2 this] obtain s3 fl3 where
      rec: "memp_recycle (Some a) ?s2 = Some s3" and inv3: "memp_inv p fl3 s3"
      and same3: "same_classes p ?s2 s3"
      and own3: "owned p UNIV (blks s3) = owned p UNIV (blks ?s2) - {a}"
      and frame: "\<forall>z. z \<noteq> a \<longrightarrow> blks s3 z = blks ?s2 z" by blast
    have res: "move_block p a sz k s = Some (Some c, s3)"
      using al cp rec Some by (simp add: move_block_def)
    have same: "same_classes p s s3"
      using same1 same3 pl by (fastforce simp: same_classes_def)
    have "realloc_post p a sz s (Some c) s3"
      using c own2 own3 frame h1 x big len2 k \<open>c \<noteq> a\<close>
      by (auto simp: realloc_post_def)
    with res inv3 same show ?thesis by blast
  qed
qed


lemma resize_bytes_length [simp]: "length (resize_bytes k xs) = k"
  by (simp add: resize_bytes_def)

lemma resize_bytes_take: "take (min k (length xs)) (resize_bytes k xs) = take (min k (length xs)) xs"
  by (simp add: resize_bytes_def min_def)

lemma realloc_large_correct:
  assumes inv: "memp_inv p fl s" and pl: "pools s p = Some pl"
    and x: "blks s a = Some x" "d_p x = Field p (classes pl)"
    and sz: "unat sz < 2 ^ 64 - 8" and big: "\<And>j. j < classes pl \<Longrightarrow> class_size pl j < sz"
  shows "\<exists>r s'. realloc_data_fixed a sz s = Some (r, s') \<and> memp_inv p fl s'
           \<and> same_classes p s s' \<and> realloc_post p a sz s r s'"
proof (cases "oom s (brk s)")
  case True
  with x have "realloc_data_fixed a sz s = Some (None, s\<lparr>brk := Suc (brk s)\<rparr>)"
    by (simp add: realloc_data_fixed_def Let_def)
  moreover have "memp_inv p fl (s\<lparr>brk := Suc (brk s)\<rparr>)" by (rule memp_inv_brk [OF inv]) simp
  ultimately show ?thesis by (auto simp: same_classes_def realloc_post_def)
next
  case False
  let ?ds = "resize_bytes (unat sz) (d_d x)"
  let ?s = "(free_data a s)\<lparr>brk := Suc (brk s),
      blks := ((blks s)(a := None))(brk s \<mapsto> \<lparr>d_p = Field p (classes pl), d_d = ?ds\<rparr>)\<rparr>"
  have none: "blks s (brk s) = None" using inv by (auto simp: memp_inv_def fresh_ok_def)
  have inv1: "memp_inv p fl (free_data a s)" by (rule memp_inv_free_large [OF inv pl x])
  have pl1: "pools (free_data a s) p = Some pl" using pl by (simp add: free_data_def)
  have same_pools: "(pools s)(p \<mapsto> pl\<lparr>mp_used := mp_used pl\<rparr>) = pools s" using pl by auto
  have "x\<lparr>d_d := d\<rparr> = \<lparr>d_p = Field p (classes pl), d_d = d\<rparr>" for d
    using x(2) by (cases x) simp
  then have "realloc_data_fixed a sz s = Some (Some (brk s), ?s)"
    using False x(1) sz by (simp add: realloc_data_fixed_def Let_def unat_offset free_data_def)
  moreover have "memp_inv p fl ?s"
    using memp_inv_fresh [OF inv1 pl1, of "classes pl" ?ds] big same_pools
    by (simp add: free_data_def word_less_nat_alt)
  moreover have "same_classes p s ?s" using pl by (simp add: same_classes_def free_data_def)
  moreover have "realloc_post p a sz s (Some (brk s)) ?s"
    using x none resize_bytes_take [of "unat sz" "d_d x"]
    by (auto simp: realloc_post_def owned_upd_Some owned_upd_None owned_def)
  ultimately show ?thesis by blast
qed

lemma memp_realloc_correct:
  assumes inv: "memp_inv p fl s" and a: "a \<in> owned p UNIV (blks s)"
    and sz: "sz \<noteq> 0" "unat sz < 2 ^ 64 - 8"
  shows "\<exists>r s' fl'. memp_realloc (Some a) sz s = Some (r, s') \<and> memp_inv p fl' s'
           \<and> same_classes p s s' \<and> realloc_post p a sz s r s'"
proof -
  obtain pl where pl: "pools s p = Some pl" and shape: "pool_shape p pl"
    using memp_inv_pool [OF inv] by blast
  have fld: "i \<le> classes pl \<Longrightarrow> arr_get (mp_f pl) i = Some (mp_f pl ! i)
      \<and> fld_pool (mp_f pl ! i) = Some p" for i
    using shape by (simp add: pool_shape_def)
  from inv pl a show ?thesis
  proof (cases rule: owned_cases)
    case (1 x i)
    then have len: "length (d_d x) = unat (fld_size (mp_f pl ! i))" by (simp add: class_size_def)
    have small: "fld_size (mp_f pl ! i) \<noteq> -1"
      using class_size_not_sentinel [OF shape 1(3)] by (simp add: class_size_def)
    show ?thesis
    proof (cases "sz > fld_size (mp_f pl ! i)")
      case True
      then have k: "unat (fld_size (mp_f pl ! i)) = min (unat sz) (length (d_d x))"
        using len by (simp add: word_less_nat_alt)
      have "memp_realloc (Some a) sz s = move_block p a sz (unat (fld_size (mp_f pl ! i))) s"
        using 1 pl sz True small fld [of i]
        by (simp add: memp_realloc_def move_block_def link_field_def)
      with move_block_correct [OF inv a 1(1) sz k] show ?thesis by simp
    next
      case False
      then have "memp_realloc (Some a) sz s = Some (Some a, s)"
        using 1 pl sz small fld [of i] by (simp add: memp_realloc_def link_field_def)
      moreover have "realloc_post p a sz s (Some a) s"
        using False a len 1(1) by (auto simp: realloc_post_def word_le_nat_alt not_less)
      moreover have "same_classes p s s" by (simp add: same_classes_def)
      ultimately show ?thesis using inv by blast
    qed
  next
    case (2 x)
    have sent: "fld_size (mp_f pl ! classes pl) = -1"
      using shape by (simp add: pool_shape_def class_size_def)
    have n: "0 < classes pl" using shape by (simp add: pool_shape_def)
    have last: "arr_get (mp_f pl) (classes pl - 1) = Some (mp_f pl ! (classes pl - 1))"
      using fld [of "classes pl - 1"] n by simp
    let ?g = "fld_size (mp_f pl ! (classes pl - 1))"
    have eq: "memp_realloc (Some a) sz s = (if sz \<le> ?g then move_block p a sz (unat sz) s
        else realloc_data_fixed a sz s)"
      using 2(1,2) pl sz sent fld [of "classes pl"] last n
      by (simp add: memp_realloc_def move_block_def link_field_def classes_def del: One_nat_def)
    show ?thesis
    proof (cases "sz \<le> ?g")
      case True
      then have k: "unat sz = min (unat sz) (length (d_d x))"
        using 2(3) [of "classes pl - 1"] n by (simp add: word_le_nat_alt class_size_def)
      from move_block_correct [OF inv a 2(1) sz k] True eq show ?thesis by simp
    next
      case False
      have "class_size pl j < sz" if "j < classes pl" for j
      proof -
        from that n have "j \<le> classes pl - 1" "classes pl - 1 < classes pl" by auto
        with shape have "class_size pl j \<le> class_size pl (classes pl - 1)"
          unfolding pool_shape_def by blast
        with False show ?thesis by (simp add: class_size_def)
      qed
      from realloc_large_correct [OF inv pl 2(1,2) sz(2) this] False eq show ?thesis by auto
    qed
  qed
qed

subsection \<open>Creating a pool\<close>

text \<open>
  The exchange sort moves sizes only: \<open>same_frame\<close> says that nothing else of the
  fields changes, and \<open>sorted_upto n i f\<close> that each of the first \<open>i\<close> sizes is at most
  every later one.
\<close>

definition same_frame :: "nat \<Rightarrow> mp_field list \<Rightarrow> mp_field list \<Rightarrow> bool" where
  "same_frame n f f' \<longleftrightarrow> length f' = length f
     \<and> (\<forall>k. fld_pool (f' ! k) = fld_pool (f ! k) \<and> fld_header (f' ! k) = fld_header (f ! k))
     \<and> (\<forall>k\<ge>n. f' ! k = f ! k)
     \<and> mset (map fld_size f') = mset (map fld_size f)"

definition sorted_upto :: "nat \<Rightarrow> nat \<Rightarrow> mp_field list \<Rightarrow> bool" where
  "sorted_upto n i f \<longleftrightarrow>
     (\<forall>a b. a < i \<and> a < b \<and> b < n \<longrightarrow> fld_size (f ! a) \<le> fld_size (f ! b))"

lemma same_frame_refl [simp]: "same_frame n f f"
  by (simp add: same_frame_def)

lemma same_frame_trans: "same_frame n f g \<Longrightarrow> same_frame n g h \<Longrightarrow> same_frame n f h"
  by (simp add: same_frame_def)

lemma memp_sort_step_Some:
  assumes "i < j" and "j < n" and "n \<le> length f"
  shows "\<exists>f'. memp_sort_step i j f = Some f' \<and> same_frame n f f'
    \<and> fld_size (f' ! i) = min (fld_size (f ! i)) (fld_size (f ! j))
    \<and> fld_size (f' ! j) = max (fld_size (f ! i)) (fld_size (f ! j))
    \<and> (\<forall>k. k \<noteq> i \<and> k \<noteq> j \<longrightarrow> f' ! k = f ! k)"
proof (cases "fld_size (f ! i) > fld_size (f ! j)")
  case False
  with assms show ?thesis by (auto simp: memp_sort_step_def min_def max_def)
next
  case True
  let ?f = "f[i := (f ! i)\<lparr>fld_size := fld_size (f ! j)\<rparr>, j := (f ! j)\<lparr>fld_size := fld_size (f ! i)\<rparr>]"
  have step: "memp_sort_step i j f = Some ?f"
    using assms True by (simp add: memp_sort_step_def)
  have nth: "?f ! k = (if k = j then (f ! j)\<lparr>fld_size := fld_size (f ! i)\<rparr>
      else if k = i then (f ! i)\<lparr>fld_size := fld_size (f ! j)\<rparr> else f ! k)" for k
    using assms by (cases "k < length f") (auto simp: nth_list_update)
  have "map fld_size ?f = (map fld_size f)[i := map fld_size f ! j, j := map fld_size f ! i]"
    using assms by (simp add: map_update)
  then have "mset (map fld_size ?f) = mset (map fld_size f)"
    using assms mset_swap [of j "map fld_size f" i] by simp
  then have "same_frame n f ?f"
    using assms by (simp add: same_frame_def nth)
  moreover have "fld_size (?f ! i) = min (fld_size (f ! i)) (fld_size (f ! j))"
    "fld_size (?f ! j) = max (fld_size (f ! i)) (fld_size (f ! j))"
    using assms True by (auto simp: nth min_def max_def)
  moreover have "\<forall>k. k \<noteq> i \<and> k \<noteq> j \<longrightarrow> ?f ! k = f ! k" by (simp add: nth)
  ultimately show ?thesis using step by blast
qed

lemma memp_sort_inner:
  assumes i: "i < n" and n: "n \<le> length f" and sorted: "sorted_upto n i f"
  shows "\<exists>f'. foldM (memp_sort_step i) [i + 1..<n] f = Some f' \<and> same_frame n f f'
           \<and> sorted_upto n (Suc i) f'"
proof -
  let ?I = "\<lambda>k g. same_frame n f g \<and> sorted_upto n i g
      \<and> (\<forall>b. i < b \<and> b < k \<longrightarrow> fld_size (g ! i) \<le> fld_size (g ! b))"
  have "\<exists>f'. foldM (memp_sort_step i) [i + 1..<n] f = Some f' \<and> ?I n f'"
  proof (rule foldM_upt_invariant [where I = ?I])
    show "i + 1 \<le> n" using i by simp
    show "?I (i + 1) f" using sorted by auto
    fix k g assume k: "i + 1 \<le> k" "k < n" and I: "?I k g"
    then have "n \<le> length g" using n by (simp add: same_frame_def)
    with memp_sort_step_Some [of i k n g] k obtain g' where
      g': "memp_sort_step i k g = Some g'" "same_frame n g g'"
        "fld_size (g' ! i) = min (fld_size (g ! i)) (fld_size (g ! k))"
        "fld_size (g' ! k) = max (fld_size (g ! i)) (fld_size (g ! k))"
        "\<forall>m. m \<noteq> i \<and> m \<noteq> k \<longrightarrow> g' ! m = g ! m" by auto
    have "sorted_upto n i g'"
      unfolding sorted_upto_def
    proof (intro allI impI)
      fix a b assume ab: "a < i \<and> a < b \<and> b < n"
      then have "fld_size (g ! a) \<le> fld_size (g ! i)" "fld_size (g ! a) \<le> fld_size (g ! k)"
        "fld_size (g ! a) \<le> fld_size (g ! b)"
        using I k by (auto simp: sorted_upto_def)
      with ab k g'(3-5) show "fld_size (g' ! a) \<le> fld_size (g' ! b)"
        by (cases "b = i"; cases "b = k") (auto simp: min_def max_def)
    qed
    moreover have "fld_size (g' ! i) \<le> fld_size (g' ! b)" if "i < b" "b < Suc k" for b
      using that I g'(3-5) k by (cases "b = k") (auto simp: min_def)
    moreover have "same_frame n f g'" using same_frame_trans I g'(2) by blast
    ultimately show "\<exists>g'. memp_sort_step i k g = Some g' \<and> ?I (Suc k) g'"
      using g'(1) by blast
  qed
  then obtain f' where f': "foldM (memp_sort_step i) [i + 1..<n] f = Some f'" "?I n f'" by blast
  then have "sorted_upto n (Suc i) f'" by (auto simp: sorted_upto_def less_Suc_eq)
  with f' show ?thesis by blast
qed

lemma memp_sort_correct:
  assumes "0 < n" and "n \<le> length f"
  shows "\<exists>f'. memp_sort n f = Some f' \<and> same_frame n f f'
    \<and> (\<forall>a b. a \<le> b \<and> b < n \<longrightarrow> fld_size (f' ! a) \<le> fld_size (f' ! b))"
proof -
  let ?I = "\<lambda>i g. same_frame n f g \<and> sorted_upto n i g"
  have "\<exists>f'. foldM (\<lambda>i. foldM (memp_sort_step i) [i + 1..<n]) [0..<n - 1] f = Some f' \<and> ?I (n - 1) f'"
  proof (rule foldM_upt_invariant [where I = ?I])
    show "?I 0 f" by (simp add: sorted_upto_def)
    fix i g assume "0 \<le> i" "i < n - 1" and I: "?I i g"
    moreover have "i < n" using \<open>i < n - 1\<close> by simp
    moreover have "n \<le> length g" using I assms by (simp add: same_frame_def)
    ultimately obtain g' where "foldM (memp_sort_step i) [i + 1..<n] g = Some g'"
      "same_frame n g g'" "sorted_upto n (Suc i) g'"
      using memp_sort_inner [of i n g] by auto
    with same_frame_trans [of n f g g'] I
    show "\<exists>g'. foldM (memp_sort_step i) [i + 1..<n] g = Some g' \<and> ?I (Suc i) g'" by blast
  qed simp
  then obtain f' where f': "memp_sort n f = Some f'" "?I (n - 1) f'"
    unfolding memp_sort_def by blast
  have "fld_size (f' ! a) \<le> fld_size (f' ! b)" if "a \<le> b" "b < n" for a b
    using f'(2) that by (cases "a = b") (auto simp: sorted_upto_def)
  with f' show ?thesis by blast
qed


lemma memp_init_fields:
  assumes "k \<le> length fsize"
  shows "\<exists>f. foldM (memp_init_field p fsize) [0..<k] (replicate (k + 1) uninit_field) = Some f
    \<and> length f = k + 1
    \<and> (\<forall>i<k. f ! i = \<lparr>fld_size = fsize ! i, fld_pool = Some p, fld_header = None\<rparr>)"
proof -
  let ?I = "\<lambda>m f. length f = k + 1
    \<and> (\<forall>i<m. f ! i = \<lparr>fld_size = fsize ! i, fld_pool = Some p, fld_header = None\<rparr>)"
  have "\<exists>f. foldM (memp_init_field p fsize) [0..<k] (replicate (k + 1) uninit_field) = Some f \<and> ?I k f"
  proof (rule foldM_upt_invariant [where I = ?I])
    fix m f assume m: "0 \<le> m" "m < k" and I: "?I m f"
    let ?x = "\<lparr>fld_size = fsize ! m, fld_pool = Some p, fld_header = None\<rparr>"
    have "memp_init_field p fsize m f = Some (f[m := ?x])"
      using m I assms by (simp add: memp_init_field_def)
    moreover have "?I (Suc m) (f[m := ?x])"
      using m I by (auto simp: nth_list_update less_Suc_eq)
    ultimately show "\<exists>f'. memp_init_field p fsize m f = Some f' \<and> ?I (Suc m) f'" by blast
  qed simp_all
  then show ?thesis .
qed

text \<open>
  A new pool: the classes are the first \<open>n\<close> sizes, sorted, and every list is empty. The
  count is kept in one byte, so the statement needs \<open>n \<le> 255\<close>.
\<close>

lemma memp_new_correct:
  assumes n: "0 < unat n" "unat n \<le> 255" "unat n \<le> length fsize"
    and small: "\<And>x. x \<in> set fsize \<Longrightarrow> unat x < 2 ^ 64 - 8"
    and fresh: "fresh_ok (brk s) (blks s)" and clean: "owned (brk s) UNIV (blks s) = {}"
    and mem: "\<not> oom s (brk s)"
  shows "\<exists>s' pl. memp_new fsize n s = Some (Some (brk s), s') \<and> memp_inv (brk s) (\<lambda>_. []) s'
    \<and> blks s' = blks s \<and> brk s' = Suc (brk s) \<and> oom s' = oom s
    \<and> pools s' = (pools s)(brk s \<mapsto> pl) \<and> classes pl = unat n
    \<and> map (class_size pl) [0..<unat n] = sort (take (unat n) fsize)"
proof -
  let ?p = "brk s" and ?k = "unat n"
  let ?last = "\<lparr>fld_size = -1, fld_pool = Some ?p, fld_header = None\<rparr>"
  obtain f0 where f0: "foldM (memp_init_field ?p fsize) [0..<?k] (replicate (?k + 1) uninit_field) = Some f0"
    "length f0 = ?k + 1"
    "\<forall>i<?k. f0 ! i = \<lparr>fld_size = fsize ! i, fld_pool = Some ?p, fld_header = None\<rparr>"
    using memp_init_fields [OF n(3)] by blast
  let ?f1 = "f0[?k := ?last]"
  have len1: "length ?f1 = ?k + 1" using f0(2) by simp
  have f1: "?f1 ! i = (if i < ?k then \<lparr>fld_size = fsize ! i, fld_pool = Some ?p, fld_header = None\<rparr>
      else ?last)" if "i \<le> ?k" for i
    using f0(2,3) that by (auto simp: nth_list_update)
  obtain f where f: "memp_sort ?k ?f1 = Some f" "same_frame ?k ?f1 f"
    "\<forall>a b. a \<le> b \<and> b < ?k \<longrightarrow> fld_size (f ! a) \<le> fld_size (f ! b)"
    using memp_sort_correct [OF n(1), of ?f1] len1 by auto
  let ?pl = "\<lparr>mp_empty = 0, mp_used = 0, mp_n = ucast n, mp_f = f\<rparr>"
  let ?s = "s\<lparr>brk := Suc ?p, pools := (pools s)(?p \<mapsto> ?pl)\<rparr>"
  have cls: "classes ?pl = ?k"
    using n(2) by (simp add: classes_def unsigned_ucast_eq unsigned_take_bit_eq take_bit_nat_eq_self)
  have len: "length f = ?k + 1" using f(2) len1 by (simp add: same_frame_def)
  have frame: "i \<le> ?k \<Longrightarrow> fld_pool (f ! i) = Some ?p \<and> fld_header (f ! i) = None" for i
    using f(2) f1 [of i] by (auto simp: same_frame_def)
  have lastf: "f ! ?k = ?last" using f(2) f1 [of ?k] by (simp add: same_frame_def)
  have split: "map fld_size xs = map fld_size (take ?k xs) @ [fld_size (xs ! ?k)]"
    if "length xs = ?k + 1" for xs :: "mp_field list"
    using that by (metis Suc_eq_plus1 append_take_drop_id drop_all lessI list.simps(8,9) map_append
        take_Suc_conv_app_nth take_all_iff order_refl)
  have take1: "map fld_size (take ?k ?f1) = take ?k fsize"
    using len1 n(3) f0(3) by (intro nth_equalityI) auto
  have "mset (map fld_size f) = mset (map fld_size ?f1)" using f(2) by (simp add: same_frame_def)
  then have perm: "mset (map fld_size (take ?k f)) = mset (take ?k fsize)"
    unfolding split [OF len] split [OF len1] take1 using lastf f1 [of ?k] by simp
  have sizes: "map (class_size ?pl) [0..<?k] = map fld_size (take ?k f)"
    using len by (intro nth_equalityI) (auto simp: class_size_def)
  have sorted: "sorted (map fld_size (take ?k f))"
    using f(3) len by (simp add: sorted_iff_nth_mono)
  have cls_sort: "map (class_size ?pl) [0..<?k] = sort (take ?k fsize)"
    using perm sorted sizes by (metis properties_for_sort)
  have bound: "unat (class_size ?pl i) < 2 ^ 64 - 8" if "i < ?k" for i
  proof -
    from that have "class_size ?pl i \<in> set (map (class_size ?pl) [0..<?k])" by simp
    then have "class_size ?pl i \<in> set (take ?k fsize)" unfolding cls_sort by simp
    then show ?thesis using small in_set_takeD by metis
  qed
  have shape: "pool_shape ?p ?pl"
    unfolding pool_shape_def cls using n(1) len frame lastf f(3) bound
    by (auto simp: class_size_def)
  have lists: "lists_ok ?k (class_size ?pl) (hdr_of ?pl) (blks s) (\<lambda>_. [])"
    using frame by (simp add: lists_ok_def)
  have live: "live_ok ?p ?k (class_size ?pl) (blks s)"
    using clean by (auto simp: live_ok_def owned_def)
  have used: "used_ok ?p ?k 0 (blks s)"
  proof -
    have "owned ?p {..<?k} (blks s) = {}" using clean by (auto simp: owned_def)
    then show ?thesis by (simp add: used_ok_def)
  qed
  have "memp_inv ?p (\<lambda>_. []) ?s"
    unfolding memp_inv_def using cls shape lists live used fresh
    by (auto simp: empty_ok_def intro: fresh_ok_mono)
  moreover have "memp_new fsize n s = Some (Some ?p, ?s)"
    using n(1) mem f0(1,2) f(1) by (simp add: memp_new_def Let_def unat_gt_0 word_less_1)
  ultimately show ?thesis using cls cls_sort by (intro exI [of _ ?s] exI [of _ ?pl]) simp
qed

lemma memp_free_list_chain:
  "chain (blks s) hp xs \<Longrightarrow> distinct xs \<Longrightarrow>
   memp_free_list hp s = Some (s\<lparr>blks := (\<lambda>a. if a \<in> set xs then None else blks s a)\<rparr>)"
proof (induction xs arbitrary: hp s)
  case Nil
  then show ?case by (simp add: memp_free_list.simps)
next
  case (Cons a xs)
  then obtain b nx where b: "hp = Some a" "blks s a = Some b" "d_p b = Next nx"
    and tl: "chain (blks s) nx xs" by auto
  from tl Cons.prems have "chain (blks (free_data a s)) nx xs" by (simp add: free_data_def)
  from Cons.IH [OF this] Cons.prems b show ?case
    by (auto simp: memp_free_list.simps [of "Some a"] link_next_def free_data_def fun_eq_iff
        intro!: arg_cong [of _ _ "\<lambda>h. s\<lparr>blks := h\<rparr>"])
qed

lemma memp_destroy_correct:
  assumes inv: "memp_inv p fl s" and pl: "pools s p = Some pl"
  shows "memp_destroy (Some p) s = Some (s\<lparr>
    blks := (\<lambda>a. if a \<in> (\<Union>i<classes pl. set (fl i)) then None else blks s a),
    pools := (pools s)(p := None)\<rparr>)"
proof -
  have lists: "lists_ok (classes pl) (class_size pl) (hdr_of pl) (blks s) fl"
    and shape: "pool_shape p pl" using inv pl by (auto simp: memp_inv_def)
  let ?step = "\<lambda>i s. do { f \<leftarrow> arr_get (mp_f pl) i; memp_free_list (fld_header f) s }"
  let ?s = "\<lambda>m. s\<lparr>blks := (\<lambda>a. if a \<in> (\<Union>i<m. set (fl i)) then None else blks s a)\<rparr>"
  have "\<exists>s'. foldM ?step [0..<classes pl] s = Some s' \<and> s' = ?s (classes pl)"
  proof (rule foldM_upt_invariant [where I = "\<lambda>m t. t = ?s m"])
    fix m t assume m: "0 \<le> m" "m < classes pl" and t: "t = ?s m"
    have "arr_get (mp_f pl) m = Some (mp_f pl ! m)"
      using pool_shape_length [OF shape, of m] m by simp
    moreover have "chain (blks t) (hdr_of pl m) (fl m)"
    proof (subst chain_frame)
      fix a assume a: "a \<in> set (fl m)"
      have "a \<notin> set (fl i)" if "i < m" for i
        using lists_ok_disjoint [OF lists _ m(2) _ a, of i] that m by auto
      with t show "blks t a = blks s a" by auto
    qed (rule lists_ok_chain [OF lists m(2)])
    ultimately have "?step m t = Some (t\<lparr>blks := (\<lambda>a. if a \<in> set (fl m) then None else blks t a)\<rparr>)"
      using memp_free_list_chain lists_ok_distinct [OF lists m(2)] by simp
    also have "t\<lparr>blks := (\<lambda>a. if a \<in> set (fl m) then None else blks t a)\<rparr> = ?s (Suc m)"
      using t by (auto simp: less_Suc_eq fun_eq_iff intro!: arg_cong [of _ _ "\<lambda>h. s\<lparr>blks := h\<rparr>"])
    finally show "\<exists>t'. ?step m t = Some t' \<and> t' = ?s (Suc m)" by blast
  qed simp_all
  with pl show ?thesis by (simp add: memp_destroy_def classes_def)
qed

subsection \<open>The properties\<close>

lemma small_mem_owned: "owned 0 UNIV (blks small_mem) = {1}"
  by (auto simp: owned_def small_mem_def)

text \<open>\<open>memp_recycle\<close> of a block in use keeps the invariant of the pool, counters included: the
  block is no longer in use (it heads the free list of its class, or went back to the C library when it
  was above the largest class), and no other block is touched.\<close>

theorem memp_recycle_keeps:
  assumes "memp_inv p fl s" and "a \<in> owned p UNIV (blks s)"
  shows "\<exists>s' fl'. memp_recycle (Some a) s = Some s' \<and> memp_inv p fl' s' \<and> same_classes p s s'
    \<and> owned p UNIV (blks s') = owned p UNIV (blks s) - {a} \<and> (\<forall>x. x \<noteq> a \<longrightarrow> blks s' x = blks s x)"
  by (rule memp_recycle_correct [OF assms])

theorem memp_recycle_keeps_witness:
  "\<exists>s' fl'. memp_recycle (Some 1) small_mem = Some s' \<and> memp_inv 0 fl' s' \<and> owned 0 UNIV (blks s') = {}"
  using memp_recycle_keeps [OF small_mem_inv, of 1] by (auto simp: small_mem_owned)

text \<open>Recycling the same block a second time is undefined: its union holds the free list's link,
  or the block is gone.\<close>

theorem double_recycle_undefined:
  assumes "memp_inv p fl s" and "a \<in> owned p UNIV (blks s)" and "memp_recycle (Some a) s = Some s'"
  shows "memp_recycle (Some a) s' = None"
  by (rule memp_recycle_twice [OF assms])

theorem double_recycle_undefined_witness:
  "\<exists>s'. memp_recycle (Some 1) small_mem = Some s' \<and> memp_recycle (Some 1) s' = None"
  using memp_recycle_correct [OF small_mem_inv, of 1] double_recycle_undefined [OF small_mem_inv, of 1]
  by (auto simp: small_mem_owned)

text \<open>C28: \<open>memp_realloc\<close> to a size that is not 0 keeps the invariant of the pool; a block it returns
  has room for the new size and holds the bytes of the old block up to the smaller of the two sizes,
  the old block is in use only if it is the one returned, and on failure nothing changes.\<close>

theorem memp_realloc_keeps_bytes:
  assumes "memp_inv p fl s" and "a \<in> owned p UNIV (blks s)" and "sz \<noteq> 0" and "unat sz < 2 ^ 64 - 8"
  shows "\<exists>r s' fl'. memp_realloc (Some a) sz s = Some (r, s') \<and> memp_inv p fl' s'
    \<and> same_classes p s s' \<and> realloc_post p a sz s r s'"
  by (rule memp_realloc_correct [OF assms])

theorem memp_realloc_keeps_bytes_witness:
  "\<exists>c s' fl' y. memp_realloc (Some 1) 12 small_mem = Some (Some c, s') \<and> memp_inv 0 fl' s'
    \<and> blks s' c = Some y \<and> 12 \<le> length (d_d y) \<and> take 8 (d_d y) = replicate 8 (Some 7) \<and> owned 0 UNIV (blks s') = {c}"
proof -
  have run: "map_option (\<lambda>(r, s'). (r, blks s' 2 \<noteq> None)) (memp_realloc (Some 1) 12 small_mem) = Some (Some 2, True)"
    by code_simp
  have one: "(1 :: addr) \<in> owned 0 UNIV (blks small_mem)" by (simp add: small_mem_owned)
  have small: "unat (12 :: size_t) < 2 ^ 64 - 8" by simp
  obtain r s' fl' where s': "memp_realloc (Some 1) 12 small_mem = Some (r, s')" "memp_inv 0 fl' s'"
    "realloc_post 0 1 12 small_mem r s'" using memp_realloc_keeps_bytes [OF small_mem_inv one _ small] by auto
  with run obtain y where y: "r = Some 2" "blks s' 2 = Some y" by auto
  have "blks small_mem 1 = Some \<lparr>d_p = Field 0 0, d_d = replicate 8 (Some 7)\<rparr>" by (simp add: small_mem_def)
  with s'(3) y have "12 \<le> length (d_d y)" "take 8 (d_d y) = replicate 8 (Some 7)" "owned 0 UNIV (blks s') = {2}"
    by (simp_all add: realloc_post_def small_mem_owned)
  with s'(1,2) y show ?thesis by blast
qed

text \<open>\<open>memp_new\<close> of 1 to 255 sizes, when \<open>malloc\<close> succeeds, makes a pool in order whose classes are
  those sizes sorted, with empty free lists, and touches no block.\<close>

theorem memp_new_sorts:
  assumes "0 < unat n" and "unat n \<le> 255" and "unat n \<le> length fsize"
    and "\<And>x. x \<in> set fsize \<Longrightarrow> unat x < 2 ^ 64 - 8"
    and "fresh_ok (brk s) (blks s)" and "owned (brk s) UNIV (blks s) = {}" and "\<not> oom s (brk s)"
  shows "\<exists>s' pl. memp_new fsize n s = Some (Some (brk s), s') \<and> memp_inv (brk s) (\<lambda>_. []) s'
    \<and> blks s' = blks s \<and> pools s' = (pools s)(brk s \<mapsto> pl)
    \<and> map (class_size pl) [0..<unat n] = sort (take (unat n) fsize)"
  using memp_new_correct [OF assms] by blast

definition no_mem :: mem where
  "no_mem = \<lparr>pools = (\<lambda>_. None), blks = (\<lambda>_. None), brk = 0, oom = (\<lambda>_. False)\<rparr>"

lemma no_mem_clean: "fresh_ok (brk no_mem) (blks no_mem)" "owned (brk no_mem) UNIV (blks no_mem) = {}" "\<not> oom no_mem (brk no_mem)"
  by (simp_all add: no_mem_def fresh_ok_def owned_def)

theorem memp_new_sorts_witness:
  "\<exists>s' pl. memp_new [32, 12, 16] 3 no_mem = Some (Some 0, s') \<and> memp_inv 0 (\<lambda>_. []) s'
    \<and> pools s' 0 = Some pl \<and> map (class_size pl) [0..<3] = [12, 16, 32]"
proof -
  have small: "unat x < 2 ^ 64 - 8" if "x \<in> set [32, 12, 16]" for x :: size_t using that by auto
  have n: "0 < unat (3 :: u32)" "unat (3 :: u32) \<le> 255" "unat (3 :: u32) \<le> length [32, 12, 16]" by simp_all
  from memp_new_sorts [OF n small no_mem_clean] show ?thesis by (auto simp: no_mem_def)
qed

text \<open>\<open>memp_new\<close> keeps the number of classes in one byte: a pool of 256 sizes records 0 classes, so a
  request of any size gets a block of its own from \<open>malloc\<close>, tagged with the first class.\<close>

theorem memp_new_256_forgets:
  assumes "256 \<le> length fsize" and "\<not> oom s (brk s)"
  shows "\<exists>s' pl i. memp_new fsize 256 s = Some (Some (brk s), s') \<and> pools s' (brk s) = Some pl \<and> classes pl = 0
    \<and> length (mp_f pl) = 257 \<and> memp_pick pl sz = Some i
    \<and> (sz \<noteq> 0 \<longrightarrow> memp_alloc (Some (brk s)) sz s' = memp_alloc_large (brk s) sz s')"
proof -
  let ?last = "\<lparr>fld_size = -1, fld_pool = Some (brk s), fld_header = None\<rparr>"
  obtain f0 where f0: "foldM (memp_init_field (brk s) fsize) [0..<256] (replicate (256 + 1) uninit_field) = Some f0"
    "length f0 = 256 + 1" using memp_init_fields [OF assms(1)] by blast
  obtain f where f: "memp_sort 256 (f0[256 := ?last]) = Some f" "same_frame 256 (f0[256 := ?last]) f"
    using memp_sort_correct [of 256 "f0[256 := ?last]"] f0(2) by auto
  let ?pl = "\<lparr>mp_empty = 0, mp_used = 0, mp_n = 0, mp_f = f\<rparr>"
  let ?s = "s\<lparr>brk := Suc (brk s), pools := (pools s)(brk s \<mapsto> ?pl)\<rparr>"
  have len: "length f = 257" using f(2) f0(2) by (simp add: same_frame_def)
  have "unat (256 :: u32) = 256" "(256 :: u8) = 0" "\<not> (256 :: u32) < 1" by simp_all
  then have new: "memp_new fsize 256 s = Some (Some (brk s), ?s)"
    using assms(2) f0 f(1) by (simp add: memp_new_def Let_def \<open>(256 :: u8) = 0\<close>)
  have pick: "memp_pick ?pl sz = Some (if fld_size (f ! 0) < sz then 1 else 0)"
    using len by (simp add: memp_pick_def binary_search_def binary_search_loop.simps)
  then have "sz \<noteq> 0 \<longrightarrow> memp_alloc (Some (brk s)) sz ?s = memp_alloc_large (brk s) sz ?s"
    by (simp add: memp_alloc_def)
  with new pick len show ?thesis by (intro exI [of _ ?s] exI [of _ ?pl]) (simp add: classes_def)
qed

theorem memp_new_256_forgets_witness:
  "\<exists>s' pl. memp_new (replicate 256 8) 256 no_mem = Some (Some 0, s') \<and> pools s' 0 = Some pl \<and> classes pl = 0
    \<and> memp_alloc (Some 0) 8 s' = memp_alloc_large 0 8 s'"
  using memp_new_256_forgets [of "replicate 256 8" no_mem 8] no_mem_clean(3) by (auto simp: no_mem_def)

text \<open>\<open>memp_destroy\<close> ends, gives every block of every free list and the pool itself back to the C
  library, and leaves the blocks that are still in use where they are.\<close>

theorem memp_destroy_frees_lists:
  assumes "memp_inv p fl s" and "pools s p = Some pl"
  shows "memp_destroy (Some p) s = Some (s\<lparr>
    blks := (\<lambda>a. if a \<in> (\<Union>i<classes pl. set (fl i)) then None else blks s a),
    pools := (pools s)(p := None)\<rparr>)"
  by (rule memp_destroy_correct [OF assms])

theorem memp_destroy_frees_lists_witness:
  "\<exists>s'. memp_destroy (Some 0) small_mem = Some s' \<and> blks s' 1 = blks small_mem 1 \<and> pools s' 0 = None"
proof -
  have "pools small_mem 0 = Some \<lparr>mp_empty = 0, mp_used = 8, mp_n = 2, mp_f = small_pool_fields\<rparr>"
    by (simp add: small_mem_def)
  from memp_destroy_frees_lists [OF small_mem_inv this] show ?thesis by simp
qed

end
