(* ===== verification/Mem_Pool_Client.thy ===== *)
theory Mem_Pool_Client
  imports Mem_Pool_Ops
begin

text \<open>
  The pool as its clients see it. \<open>block_pool\<close> is the contract that \<open>bytes.c\<close>,
  \<open>mw_worker.c\<close>, \<open>lm_socket.c\<close> and \<open>lm_counter.c\<close> rely on: what
  \<open>memp_alloc\<close> returns is a block that is not in use and large enough, what is recycled
  is no longer in use, and no operation touches the other blocks in use. The step relation
  \<open>pool_step\<close> is any sequence of calls of a client that keeps the rules.
\<close>

subsection \<open>The contract\<close>

text \<open>A sequence of requests; the answers may be \<open>NULL\<close>.\<close>

fun alloc_seq :: "(size_t \<Rightarrow> 's \<Rightarrow> (ptr \<times> 's) option) \<Rightarrow> size_t list \<Rightarrow> 's \<Rightarrow> (ptr list \<times> 's) option" where
  "alloc_seq alloc [] s = Some ([], s)"
| "alloc_seq alloc (sz # szs) s =
     do { (r, s) \<leftarrow> alloc sz s; (rs, s) \<leftarrow> alloc_seq alloc szs s; Some (r # rs, s) }"

locale block_pool =
  fixes inv :: "'s \<Rightarrow> bool"
    and live :: "'s \<Rightarrow> addr set"
    and obj :: "'s \<Rightarrow> addr \<Rightarrow> 'o option"
    and bytes :: "'o \<Rightarrow> nat"
    and ok_size :: "size_t \<Rightarrow> bool"
    and alloc :: "size_t \<Rightarrow> 's \<Rightarrow> (ptr \<times> 's) option"
    and recycle :: "addr \<Rightarrow> 's \<Rightarrow> 's option"
  assumes alloc_law: "inv s \<Longrightarrow> ok_size sz \<Longrightarrow>
      \<exists>r s'. alloc sz s = Some (r, s') \<and> inv s' \<and> (\<forall>x\<in>live s. obj s' x = obj s x)
        \<and> live s' = live s \<union> set_option r \<and> set_option r \<inter> live s = {}
        \<and> (\<forall>a. r = Some a \<longrightarrow> (\<exists>v. obj s' a = Some v \<and> unat sz \<le> bytes v))"
    and recycle_law: "inv s \<Longrightarrow> a \<in> live s \<Longrightarrow>
      \<exists>s'. recycle a s = Some s' \<and> inv s' \<and> live s' = live s - {a}
        \<and> (\<forall>x\<in>live s'. obj s' x = obj s x)"
begin

lemma alloc_seq_law:
  assumes "inv s" and "\<And>sz. sz \<in> set szs \<Longrightarrow> ok_size sz"
  shows "\<exists>rs s'. alloc_seq alloc szs s = Some (rs, s') \<and> inv s' \<and> length rs = length szs
    \<and> (\<forall>x\<in>live s. obj s' x = obj s x)
    \<and> live s' = live s \<union> {a. Some a \<in> set rs} \<and> live s \<inter> {a. Some a \<in> set rs} = {}
    \<and> distinct (filter (\<lambda>r. r \<noteq> None) rs)
    \<and> (\<forall>i<length szs. \<forall>a. rs ! i = Some a \<longrightarrow> (\<exists>v. obj s' a = Some v \<and> unat (szs ! i) \<le> bytes v))"
  using assms
proof (induction szs arbitrary: s)
  case Nil
  then show ?case by auto
next
  case (Cons sz szs)
  obtain r s1 where one: "alloc sz s = Some (r, s1)" "inv s1" "\<forall>x\<in>live s. obj s1 x = obj s x"
    "live s1 = live s \<union> set_option r" "set_option r \<inter> live s = {}"
    "\<forall>a. r = Some a \<longrightarrow> (\<exists>v. obj s1 a = Some v \<and> unat sz \<le> bytes v)"
    using alloc_law [of s sz] Cons.prems by auto
  obtain rs s' where rest: "alloc_seq alloc szs s1 = Some (rs, s')" "inv s'" "length rs = length szs"
    "\<forall>x\<in>live s1. obj s' x = obj s1 x" "live s' = live s1 \<union> {a. Some a \<in> set rs}"
    "live s1 \<inter> {a. Some a \<in> set rs} = {}" "distinct (filter (\<lambda>r. r \<noteq> None) rs)"
    "\<forall>i<length szs. \<forall>a. rs ! i = Some a \<longrightarrow> (\<exists>v. obj s' a = Some v \<and> unat (szs ! i) \<le> bytes v)"
    using Cons.IH [OF one(2)] Cons.prems by auto
  have "distinct (filter (\<lambda>r. r \<noteq> None) (r # rs))"
    using rest(6,7) one(4) by (cases r) auto
  moreover have "\<exists>v. obj s' a = Some v \<and> unat ((sz # szs) ! i) \<le> bytes v"
    if "i < length (sz # szs)" "(r # rs) ! i = Some a" for i a
    using that rest(4,8) one(4,6) by (cases i) fastforce+
  moreover have "\<forall>x\<in>live s. obj s' x = obj s x" using one(3,4) rest(4) by auto
  moreover have "live s \<inter> {a. Some a \<in> set (r # rs)} = {}"
    using one(4,5) rest(6) by auto
  ultimately show ?case using one(1,4) rest(1,2,3,5) by (auto simp: set_eq_iff)
qed

lemma recycle_many:
  assumes "inv s" and "distinct as" and "set as \<subseteq> live s"
  shows "\<exists>s'. foldM recycle as s = Some s' \<and> inv s' \<and> live s' = live s - set as
    \<and> (\<forall>x\<in>live s'. obj s' x = obj s x)"
  using assms
proof (induction as arbitrary: s)
  case Nil
  then show ?case by simp
next
  case (Cons a as)
  obtain s1 where one: "recycle a s = Some s1" "inv s1" "live s1 = live s - {a}"
    "\<forall>x\<in>live s1. obj s1 x = obj s x"
    using recycle_law [of s a] Cons.prems by auto
  moreover have "distinct as" "set as \<subseteq> live s1" using Cons.prems one(3) by auto
  ultimately obtain s' where "foldM recycle as s1 = Some s'" "inv s'" "live s' = live s1 - set as"
    "\<forall>x\<in>live s'. obj s' x = obj s1 x"
    using Cons.IH [of s1] by blast
  with one show ?case by auto
qed

lemma alloc_then_recycle:
  assumes "inv s" and "ok_size sz" and "alloc sz s = Some (Some a, s1)"
  shows "\<exists>s2. recycle a s1 = Some s2 \<and> inv s2 \<and> live s2 = live s \<and> (\<forall>x\<in>live s. obj s2 x = obj s x)"
proof -
  from alloc_law [OF assms(1,2)] assms(3)
  have "inv s1" "live s1 = insert a (live s)" "a \<notin> live s" "\<forall>x\<in>live s. obj s1 x = obj s x" by auto
  with recycle_law [of s1 a] show ?thesis by auto
qed

end

subsection \<open>The pool keeps it\<close>

definition pool_ok :: "addr \<Rightarrow> mem \<Rightarrow> bool" where
  "pool_ok p s \<longleftrightarrow> (\<exists>fl. memp_inv p fl s)"

definition pool_live :: "addr \<Rightarrow> mem \<Rightarrow> addr set" where
  "pool_live p s = owned p UNIV (blks s)"

definition pool_size_ok :: "size_t \<Rightarrow> bool" where
  "pool_size_ok sz \<longleftrightarrow> sz \<noteq> 0 \<and> unat sz < 2 ^ 64 - 8"

lemma best_class_bound:
  "best_class pl sz i \<Longrightarrow> length d = (if i < classes pl then unat (class_size pl i) else unat sz) \<Longrightarrow>
   unat sz \<le> length d"
  by (auto simp: best_class_def word_le_nat_alt)

interpretation mp: block_pool "pool_ok p" "pool_live p" blks "\<lambda>b. length (d_d b)" pool_size_ok
  "memp_alloc (Some p)" "\<lambda>a. memp_recycle (Some a)" for p
proof (unfold_locales, goal_cases)
  case (1 s sz)
  then obtain fl where inv: "memp_inv p fl s" by (auto simp: pool_ok_def)
  obtain pl where pl: "pools s p = Some pl" using memp_inv_pool [OF inv] by blast
  from 1 have sz: "sz \<noteq> 0" "unat sz < 2 ^ 64 - 8" by (auto simp: pool_size_ok_def)
  obtain r s' fl' where res: "memp_alloc (Some p) sz s = Some (r, s')" "memp_inv p fl' s'"
    and post: "alloc_post p pl sz s r s'"
    using memp_alloc_correct [OF inv pl sz] by blast
  show ?case
  proof (cases r)
    case None
    with res post show ?thesis by (auto simp: alloc_post_def pool_ok_def pool_live_def)
  next
    case (Some a)
    with post obtain i b where b: "a \<notin> owned p UNIV (blks s)" "best_class pl sz i"
      "blks s' = (blks s)(a \<mapsto> b)" "d_p b = Field p i"
      "length (d_d b) = (if i < classes pl then unat (class_size pl i) else unat sz)"
      by (auto simp: alloc_post_def)
    moreover have "owned p UNIV (blks s') = insert a (owned p UNIV (blks s))"
      using b(3,4) by (auto simp: owned_upd_Some)
    moreover have "unat sz \<le> length (d_d b)" by (rule best_class_bound [OF b(2,5)])
    ultimately show ?thesis using res Some by (auto simp: pool_ok_def pool_live_def)
  qed
next
  case (2 s a)
  then show ?case
    using memp_recycle_correct [of p _ s a] by (fastforce simp: pool_ok_def pool_live_def)
qed

text \<open>\<open>NULL\<close> comes back only when the C library's \<open>malloc\<close> fails.\<close>

lemma memp_alloc_nonnull:
  assumes ok: "pool_ok p s" and sz: "pool_size_ok sz" and mem: "\<not> oom s (brk s)"
  obtains a s' b where "memp_alloc (Some p) sz s = Some (Some a, s')" "pool_ok p s'"
    "a \<notin> pool_live p s" "pool_live p s' = insert a (pool_live p s)"
    "blks s' a = Some b" "unat sz \<le> length (d_d b)"
    "\<forall>x\<in>pool_live p s. blks s' x = blks s x" "oom s' = oom s"
proof -
  from ok obtain fl where inv: "memp_inv p fl s" by (auto simp: pool_ok_def)
  obtain pl where pl: "pools s p = Some pl" using memp_inv_pool [OF inv] by blast
  obtain r s' where res: "memp_alloc (Some p) sz s = Some (r, s')" and post: "alloc_post p pl sz s r s'"
    using memp_alloc_correct [OF inv pl, of sz] sz unfolding pool_size_ok_def by blast
  from post mem obtain a where r: "r = Some a" by (cases r) (auto simp: alloc_post_def)
  from mp.alloc_law [OF ok sz] res r post that [of a s'] show thesis
    by (auto simp: alloc_post_def)
qed

lemma memp_alloc_total:
  assumes ok: "pool_ok p s" and sz: "pool_size_ok sz"
  shows "\<exists>r s'. memp_alloc (Some p) sz s = Some (r, s') \<and> pool_ok p s' \<and> pool_live p s' = pool_live p s \<union> set_option r
    \<and> set_option r \<inter> pool_live p s = {} \<and> oom s' = oom s \<and> (r = None \<longrightarrow> oom s (brk s))
    \<and> same_classes p s s'"
proof -
  from ok obtain fl where inv: "memp_inv p fl s" by (auto simp: pool_ok_def)
  obtain pl where pl: "pools s p = Some pl" using memp_inv_pool [OF inv] by blast
  obtain r s' where res: "memp_alloc (Some p) sz s = Some (r, s')" "same_classes p s s'" and post: "alloc_post p pl sz s r s'"
    using memp_alloc_correct [OF inv pl, of sz] sz unfolding pool_size_ok_def by blast
  from post have "oom s' = oom s" "r = None \<longrightarrow> oom s (brk s)" by (auto simp: alloc_post_def)
  with mp.alloc_law [OF ok sz] res show ?thesis by auto
qed

subsection \<open>Runs of a client\<close>

inductive pool_step :: "addr \<Rightarrow> mem \<Rightarrow> mem \<Rightarrow> bool" for p where
  alloc: "pool_size_ok sz \<Longrightarrow> memp_alloc (Some p) sz s = Some (r, s') \<Longrightarrow> pool_step p s s'"
| recycle: "a \<in> pool_live p s \<Longrightarrow> memp_recycle (Some a) s = Some s' \<Longrightarrow> pool_step p s s'"
| realloc: "a \<in> pool_live p s \<Longrightarrow> pool_size_ok sz \<Longrightarrow> memp_realloc (Some a) sz s = Some (r, s') \<Longrightarrow>
    pool_step p s s'"
| overwrite: "a \<in> pool_live p s \<Longrightarrow> blks s a = Some b \<Longrightarrow> length d = length (d_d b) \<Longrightarrow>
    s' = s\<lparr>blks := (blks s)(a \<mapsto> b\<lparr>d_d := d\<rparr>)\<rparr> \<Longrightarrow> pool_step p s s'"

inductive pool_run :: "addr \<Rightarrow> mem \<Rightarrow> mem \<Rightarrow> bool" for p where
  refl: "pool_run p s s"
| step: "pool_run p s s' \<Longrightarrow> pool_step p s' s'' \<Longrightarrow> pool_run p s s''"

lemma pool_step_ok:
  assumes "pool_step p s s'" and "pool_ok p s"
  shows "pool_ok p s' \<and> same_classes p s s'"
proof -
  from assms(2) obtain fl where inv: "memp_inv p fl s" by (auto simp: pool_ok_def)
  obtain pl where pl: "pools s p = Some pl" using memp_inv_pool [OF inv] by blast
  from assms(1) show ?thesis
  proof cases
    case (alloc sz r)
    then show ?thesis using memp_alloc_correct [OF inv pl, of sz]
      by (auto simp: pool_size_ok_def pool_ok_def)
  next
    case (recycle a)
    then show ?thesis using memp_recycle_correct [OF inv, of a]
      by (auto simp: pool_live_def pool_ok_def)
  next
    case (realloc a sz r)
    then show ?thesis using memp_realloc_correct [OF inv, of a sz]
      by (auto simp: pool_size_ok_def pool_live_def pool_ok_def)
  next
    case (overwrite a b d)
    then obtain i where "d_p b = Field p i" by (auto simp: pool_live_def owned_def)
    from memp_inv_write [OF inv overwrite(2) this overwrite(3)] overwrite(4) show ?thesis
      by (auto simp: pool_ok_def same_classes_def)
  qed
qed

lemma pool_run_ok: "pool_run p s s' \<Longrightarrow> pool_ok p s \<Longrightarrow> pool_ok p s' \<and> same_classes p s s'"
proof (induction rule: pool_run.induct)
  case (refl s)
  then show ?case by (simp add: same_classes_def)
next
  case (step s s' s'')
  then have "pool_ok p s'" "same_classes p s s'" by auto
  with pool_step_ok [OF step.hyps(2)] have "pool_ok p s''" "same_classes p s' s''" by auto
  with \<open>same_classes p s s'\<close> show ?case by (fastforce simp: same_classes_def)
qed

subsection \<open>The properties\<close>

text \<open>A run of requests to a pool returns pairwise different blocks, none of them in use before, each
  with room for its request; the blocks already in use keep their contents, and \<open>NULL\<close> is the only
  other answer.\<close>

theorem alloc_requests_apart:
  assumes "pool_ok p s" and "\<And>sz. sz \<in> set szs \<Longrightarrow> pool_size_ok sz"
  shows "\<exists>rs s'. alloc_seq (memp_alloc (Some p)) szs s = Some (rs, s') \<and> pool_ok p s' \<and> length rs = length szs
    \<and> (\<forall>x\<in>pool_live p s. blks s' x = blks s x)
    \<and> pool_live p s' = pool_live p s \<union> {a. Some a \<in> set rs} \<and> pool_live p s \<inter> {a. Some a \<in> set rs} = {}
    \<and> distinct (filter (\<lambda>r. r \<noteq> None) rs)
    \<and> (\<forall>i<length szs. \<forall>a. rs ! i = Some a \<longrightarrow> (\<exists>v. blks s' a = Some v \<and> unat (szs ! i) \<le> length (d_d v)))"
  by (rule mp.alloc_seq_law [OF assms])

theorem alloc_requests_apart_witness:
  "\<exists>rs s'. alloc_seq (memp_alloc (Some 0)) [8, 8, 100] small_mem = Some (rs, s') \<and> pool_ok 0 s' \<and> length rs = 3
    \<and> blks s' 1 = blks small_mem 1 \<and> distinct (filter (\<lambda>r. r \<noteq> None) rs)"
proof -
  have ok: "pool_ok 0 small_mem" using small_mem_inv by (auto simp: pool_ok_def)
  have sizes: "pool_size_ok sz" if "sz \<in> set [8, 8, 100]" for sz using that by (auto simp: pool_size_ok_def)
  obtain rs s' where "alloc_seq (memp_alloc (Some 0)) [8, 8, 100] small_mem = Some (rs, s')" "pool_ok 0 s'" "length rs = 3"
    "\<forall>x\<in>pool_live 0 small_mem. blks s' x = blks small_mem x" "distinct (filter (\<lambda>r. r \<noteq> None) rs)"
    using alloc_requests_apart [OF ok, of "[8, 8, 100]"] sizes by (simp only: list.size) auto
  then show ?thesis by (auto simp: pool_live_def small_mem_owned)
qed

text \<open>C27: any sequence of allocations, recyclings, resizings and writes by a client that recycles and
  resizes only blocks in use keeps the pool in order (free lists, classes, and both byte counters) and
  never changes its classes.\<close>

theorem pool_run_keeps_order:
  assumes "pool_run p s s'" and "pool_ok p s"
  shows "pool_ok p s' \<and> same_classes p s s'"
  by (rule pool_run_ok [OF assms])

theorem pool_run_keeps_order_witness:
  "\<exists>s'. memp_recycle (Some 1) small_mem = Some s' \<and> pool_run 0 small_mem s' \<and> pool_ok 0 s'"
proof -
  have ok: "pool_ok 0 small_mem" using small_mem_inv by (auto simp: pool_ok_def)
  have live: "1 \<in> pool_live 0 small_mem" by (simp add: pool_live_def small_mem_owned)
  obtain s' where s': "memp_recycle (Some 1) small_mem = Some s'"
    using mp.recycle_law [OF ok live] by blast
  then have "pool_run 0 small_mem s'"
    using pool_run.step [OF pool_run.refl pool_step.recycle [OF live s']] by blast
  with pool_run_keeps_order [OF this ok] s' show ?thesis by blast
qed

end
