(* ===== verification/Bytes.thy ===== *)
theory Bytes
  imports As_Dlist Mem_Pool_Client
begin

text \<open>
  The byte buffer of \<^verbatim>\<open>src/c/src/bytes.h\<close> and \<^verbatim>\<open>src/c/src/bytes.c\<close>: a list of
  blocks taken from a memory pool, filled by \<open>read(2)\<close>. The store \<open>bblk\<close> is the
  typed view of the pool's blocks as \<open>as_bytes_block_t\<close>; writing a block header or its
  bytes is undefined when the pool's block is too small for it. The descriptor is a script:
  what call number \<open>k\<close> of \<open>read\<close> answers to a request for so many bytes.
\<close>

subsection \<open>Data\<close>

record bblock = dnode +
  b_size :: size_t
  b_used :: size_t
  b_d :: "u8 list"

record as_bytes =
  bs_size :: size_t
  bs_used :: size_t
  bs_cnt :: u32
  bs_mp :: ptr
  bs_dl :: dlist

datatype read_result = RData "u8 list" | RErr int

record bst =
  bmem :: mem
  bblk :: "bblock store"
  fd_script :: "nat \<Rightarrow> size_t \<Rightarrow> read_result"
  fd_pos :: nat

definition EAGAIN :: int where
  "EAGAIN = 11"

definition MAX_BLOCK_SIZE :: size_t where
  "MAX_BLOCK_SIZE = 1024"

text \<open>\<open>offsetof (as_bytes_block_t, d)\<close> is 32: two pointers and two sizes.\<close>

definition sizeof_bytes_block :: "size_t \<Rightarrow> size_t" where
  "sizeof_bytes_block n = 32 + n"

subsection \<open>Operations\<close>

definition bytes_init :: "ptr \<Rightarrow> as_bytes \<Rightarrow> as_bytes" where
  "bytes_init mp bs = bs\<lparr>bs_size := 0, bs_used := 0, bs_cnt := 0, bs_mp := mp,
     bs_dl := dlist_init (bs_dl bs)\<rparr>"

text \<open>The block header is written into the memory that the pool returned.\<close>

definition bytes_block_init :: "ptr \<Rightarrow> size_t \<Rightarrow> bst \<Rightarrow> bst option" where
  "bytes_block_init b sz st =
     do { a \<leftarrow> b;
          m \<leftarrow> blks (bmem st) a;
          if 32 \<le> length (d_d m)
          then Some (st\<lparr>bblk := (bblk st)(a \<mapsto> \<lparr>dl_next = None, dl_prev = None,
                      b_size = sz, b_used = 0, b_d = replicate (length (d_d m) - 32) 0\<rparr>)\<rparr>)
          else None }"

text \<open>\<open>nbyte = read (fd, ptr, rsize)\<close>: the result, \<open>-1\<close> on error, goes into a
  \<open>size_t\<close>.\<close>

definition read_ret :: "read_result \<Rightarrow> size_t" where
  "read_ret r = (case r of RData d \<Rightarrow> of_nat (length d) | RErr _ \<Rightarrow> -1)"

definition read_errno :: "read_result \<Rightarrow> int" where
  "read_errno r = (case r of RData _ \<Rightarrow> 0 | RErr e \<Rightarrow> e)"

definition fd_read :: "addr \<Rightarrow> size_t \<Rightarrow> bst \<Rightarrow> (read_result \<times> bst) option" where
  "fd_read a rsize st =
     (let r = fd_script st (fd_pos st) rsize; st = st\<lparr>fd_pos := Suc (fd_pos st)\<rparr>
      in case r of
           RErr _ \<Rightarrow> Some (r, st)
         | RData d \<Rightarrow>
             do { b \<leftarrow> bblk st a;
                  if length d \<le> length (b_d b)
                  then Some (r, st\<lparr>bblk := (bblk st)(a \<mapsto>
                         b\<lparr>b_d := d @ drop (length d) (b_d b)\<rparr>)\<rparr>)
                  else None })"

partial_function (option) bytes_read_loop ::
  "as_bytes \<Rightarrow> bst \<Rightarrow> size_t \<Rightarrow> size_t \<Rightarrow> (size_t \<times> as_bytes \<times> bst) option" where
  "bytes_read_loop bs st rsize n =
     do { (block, m) \<leftarrow> memp_alloc (bs_mp bs) (sizeof_bytes_block rsize) (bmem st);
          st \<leftarrow> bytes_block_init block rsize (st\<lparr>bmem := m\<rparr>);
          a \<leftarrow> block;
          (r, st) \<leftarrow> fd_read a rsize st;
          let nbyte = read_ret r;
          if nbyte < 0 then
            do { m \<leftarrow> memp_recycle block (bmem st);
                 if read_errno r = EAGAIN then Some (n, bs, st\<lparr>bmem := m\<rparr>)
                 else Some (-1, bs, st\<lparr>bmem := m\<rparr>) }
          else
            do { h \<leftarrow> modify (\<lambda>b. b\<lparr>b_used := nbyte\<rparr>) block (bblk st);
                 let bs = bs\<lparr>bs_size := bs_size bs + rsize, bs_used := bs_used bs + nbyte,
                             bs_cnt := bs_cnt bs + 1\<rparr>;
                 (dl, h) \<leftarrow> dlist_add_to_tail (bs_dl bs) a h;
                 let bs = bs\<lparr>bs_dl := dl\<rparr>;
                 let st = st\<lparr>bblk := h\<rparr>;
                 let n = n + nbyte;
                 let rsize = (if rsize < MAX_BLOCK_SIZE then push_bit 1 rsize else rsize);
                 if nbyte > 0 then bytes_read_loop bs st rsize n
                 else Some (n, bs, st) } }"

definition bytes_read_from_fd :: "as_bytes \<Rightarrow> bst \<Rightarrow> (size_t \<times> as_bytes \<times> bst) option" where
  "bytes_read_from_fd bs st = bytes_read_loop bs st 64 0"

text \<open>\<open>bytes_offset\<close>: the result is the C return value with the two output parameters.\<close>

partial_function (option) bytes_offset_loop ::
  "bblock store \<Rightarrow> ptr \<Rightarrow> size_t \<Rightarrow> u32 \<Rightarrow> (int \<times> u32 \<times> size_t) option" where
  "bytes_offset_loop h node offset out_n =
     (case node of
        None \<Rightarrow> Some (1, out_n, 0)
      | Some a \<Rightarrow>
          do { b \<leftarrow> h a;
               if offset < b_used b then Some (0, out_n, offset)
               else bytes_offset_loop h (dl_next b) (offset - b_used b) (out_n + 1) })"

definition bytes_offset :: "as_bytes \<Rightarrow> bst \<Rightarrow> size_t \<Rightarrow> (int \<times> (u32 \<times> size_t) option) option" where
  "bytes_offset bs st offset =
     (if bs_used bs \<le> offset then Some (1, None)
      else do { (r, n, m) \<leftarrow> bytes_offset_loop (bblk st) (dl_head (bs_dl bs)) offset 0;
                Some (r, Some (n, m)) })"

text \<open>The loop of \<open>bytes_copy_to\<close> changes neither \<open>offset\<close> nor \<open>node\<close>.\<close>

partial_function (option) bytes_copy_to_loop :: "ptr \<Rightarrow> size_t \<Rightarrow> unit option" where
  "bytes_copy_to_loop node offset =
     (if offset \<noteq> 0 then bytes_copy_to_loop node offset else Some ())"

definition bytes_copy_to :: "as_bytes \<Rightarrow> ptr \<Rightarrow> size_t \<Rightarrow> size_t \<Rightarrow> size_t option" where
  "bytes_copy_to bs p offset n =
     do { _ \<leftarrow> bytes_copy_to_loop (dl_head (bs_dl bs)) offset; Some 0 }"

definition bytes_length :: "as_bytes \<Rightarrow> size_t" where
  "bytes_length bs = bs_used bs"

definition recycle_block :: "addr \<Rightarrow> bst \<Rightarrow> bst option" where
  "recycle_block a st =
     do { m \<leftarrow> memp_recycle (Some a) (bmem st);
          Some (st\<lparr>bmem := m, bblk := (bblk st)(a := None)\<rparr>) }"

definition bytes_destroy :: "as_bytes \<Rightarrow> bst \<Rightarrow> (as_bytes \<times> bst) option" where
  "bytes_destroy bs st =
     do { let bs = bs\<lparr>bs_size := 0, bs_used := 0, bs_cnt := 0\<rparr>;
          st \<leftarrow> dlist_pos_travel bblk recycle_block (dl_head (bs_dl bs)) st;
          Some (bs\<lparr>bs_dl := dlist_init (bs_dl bs)\<rparr>, st) }"

subsection \<open>The invariant of a buffer\<close>

definition block_bytes :: "bblock \<Rightarrow> u8 list" where
  "block_bytes b = take (unat (b_used b)) (b_d b)"

definition bytes_data :: "bblock store \<Rightarrow> addr list \<Rightarrow> u8 list" where
  "bytes_data h xs = concat (map (\<lambda>a. case h a of None \<Rightarrow> [] | Some b \<Rightarrow> block_bytes b) xs)"

definition block_ok :: "bst \<Rightarrow> addr \<Rightarrow> bool" where
  "block_ok st a \<longleftrightarrow> (\<exists>b m. bblk st a = Some b \<and> blks (bmem st) a = Some m
     \<and> length (b_d b) = length (d_d m) - 32 \<and> 32 + unat (b_size b) \<le> length (d_d m)
     \<and> b_used b \<le> b_size b)"

definition bytes_ok :: "addr \<Rightarrow> as_bytes \<Rightarrow> bst \<Rightarrow> addr list \<Rightarrow> bool" where
  "bytes_ok p bs st xs \<longleftrightarrow>
     bs_mp bs = Some p \<and> pool_ok p (bmem st) \<and> is_dlist (bblk st) (bs_dl bs) xs
     \<and> set xs \<subseteq> pool_live p (bmem st) \<and> (\<forall>a\<in>set xs. block_ok st a)
     \<and> bs_cnt bs = of_nat (length xs)
     \<and> bs_size bs = (\<Sum>a\<leftarrow>xs. case bblk st a of None \<Rightarrow> 0 | Some b \<Rightarrow> b_size b)
     \<and> bs_used bs = of_nat (length (bytes_data (bblk st) xs))"

text \<open>Only the links of a block change when the list is relinked.\<close>

definition size_at :: "bblock store \<Rightarrow> addr \<Rightarrow> size_t" where
  "size_at h a = (case h a of None \<Rightarrow> 0 | Some b \<Rightarrow> b_size b)"

definition data_at :: "bblock store \<Rightarrow> addr \<Rightarrow> u8 list" where
  "data_at h a = (case h a of None \<Rightarrow> [] | Some b \<Rightarrow> block_bytes b)"

lemma bytes_data_eq: "bytes_data h xs = concat (map (data_at h) xs)"
  by (simp add: bytes_data_def data_at_def cong: map_cong)

lemma bblock_more:
  "dnode.more x = dnode.more y \<Longrightarrow> b_size (x :: bblock) = b_size y \<and> b_used x = b_used y \<and> b_d x = b_d y"
  by (cases x; cases y) simp

lemma same_payloadE:
  fixes h h' :: "bblock store"
  assumes "same_payload h h'" and "h a = Some b"
  obtains b' where "h' a = Some b'" "b_size b' = b_size b" "b_used b' = b_used b" "b_d b' = b_d b"
proof -
  from assms have "map_option dnode.more (h' a) = Some (dnode.more b)" by (simp add: same_payload_def)
  then obtain b' where "h' a = Some b'" "dnode.more b' = dnode.more b" by auto
  with bblock_more that show thesis by blast
qed

lemma same_payload_at:
  fixes h h' :: "bblock store"
  assumes "same_payload h h'"
  shows "size_at h' a = size_at h a \<and> data_at h' a = data_at h a"
proof (cases "h a")
  case None
  with assms have "h' a = None" unfolding same_payload_def by (metis option.map_disc_iff)
  with None show ?thesis by (simp add: size_at_def data_at_def)
next
  case (Some b)
  from same_payloadE [OF assms Some] obtain b' where "h' a = Some b'" "b_size b' = b_size b"
    "b_used b' = b_used b" "b_d b' = b_d b" .
  with Some show ?thesis by (simp add: size_at_def data_at_def block_bytes_def)
qed

lemma bytes_ok_alt:
  "bytes_ok p bs st xs \<longleftrightarrow>
     bs_mp bs = Some p \<and> pool_ok p (bmem st) \<and> is_dlist (bblk st) (bs_dl bs) xs
     \<and> set xs \<subseteq> pool_live p (bmem st) \<and> (\<forall>a\<in>set xs. block_ok st a)
     \<and> bs_cnt bs = of_nat (length xs)
     \<and> bs_size bs = (\<Sum>a\<leftarrow>xs. size_at (bblk st) a)
     \<and> bs_used bs = of_nat (length (concat (map (data_at (bblk st)) xs)))"
  by (simp add: bytes_ok_def bytes_data_eq size_at_def)

lemma at_upd:
  "size_at (h(a \<mapsto> b)) c = (if c = a then b_size b else size_at h c)"
  "data_at (h(a \<mapsto> b)) c = (if c = a then block_bytes b else data_at h c)"
  by (simp_all add: size_at_def data_at_def)

lemma block_ok_payload:
  assumes "block_ok st a" and "same_payload (bblk st) (bblk st')"
    and "blks (bmem st') a = blks (bmem st) a"
  shows "block_ok st' a"
proof -
  from assms(1) obtain b x where b: "bblk st a = Some b" "blks (bmem st) a = Some x"
    "length (b_d b) = length (d_d x) - 32" "32 + unat (b_size b) \<le> length (d_d x)"
    "b_used b \<le> b_size b" by (auto simp: block_ok_def)
  from same_payloadE [OF assms(2) b(1)] obtain b' where "bblk st' a = Some b'" "b_size b' = b_size b"
    "b_used b' = b_used b" "b_d b' = b_d b" .
  with b assms(3) show ?thesis by (simp add: block_ok_def)
qed

subsection \<open>One round of the read loop\<close>

definition grow :: "size_t \<Rightarrow> size_t" where
  "grow rsize = (if rsize < MAX_BLOCK_SIZE then push_bit 1 rsize else rsize)"

lemma sizeof_bytes_block_unat:
  "rsize \<le> 1024 \<Longrightarrow> unat (sizeof_bytes_block rsize) = 32 + unat rsize"
  unfolding sizeof_bytes_block_def
  by (subst unat_add_lem [THEN iffD1]) (auto simp: word_le_nat_alt)

lemma of_nat_pos_iff: "n \<le> 1024 \<Longrightarrow> (0 :: size_t) < of_nat n \<longleftrightarrow> 0 < n"
  by (simp add: word_less_nat_alt unsigned_of_nat take_bit_nat_eq_self)

lemma unat_len: "n \<le> 1024 \<Longrightarrow> unat (of_nat n :: size_t) = n"
  by (simp add: unsigned_of_nat take_bit_nat_eq_self)

definition read_round ::
  "addr \<Rightarrow> as_bytes \<Rightarrow> bst \<Rightarrow> addr list \<Rightarrow> u8 list \<Rightarrow> addr \<Rightarrow> as_bytes \<Rightarrow> bst \<Rightarrow> bool" where
  "read_round p bs st xs d a bs' st' \<longleftrightarrow>
     bytes_ok p bs' st' (xs @ [a]) \<and> a \<notin> pool_live p (bmem st)
     \<and> pool_live p (bmem st') = insert a (pool_live p (bmem st))
     \<and> (\<forall>x\<in>pool_live p (bmem st). blks (bmem st') x = blks (bmem st) x)
     \<and> bytes_data (bblk st') (xs @ [a]) = bytes_data (bblk st) xs @ d
     \<and> bs_used bs' = bs_used bs + of_nat (length d) \<and> oom (bmem st') = oom (bmem st)
     \<and> fd_script st' = fd_script st \<and> fd_pos st' = Suc (fd_pos st)"

lemma bytes_read_round:
  assumes ok: "bytes_ok p bs st xs" and rs: "rsize \<le> 1024" and mem: "\<not> oom (bmem st) (brk (bmem st))"
    and rd: "fd_script st (fd_pos st) rsize = RData d" and len: "length d \<le> unat rsize"
  shows "\<exists>a bs' st'. read_round p bs st xs d a bs' st' \<and>
     bytes_read_loop bs st rsize n =
       (if d \<noteq> [] then bytes_read_loop bs' st' (grow rsize) (n + of_nat (length d))
        else Some (n + of_nat (length d), bs', st'))"
proof -
  from ok have mp: "bs_mp bs = Some p" and pok: "pool_ok p (bmem st)"
    and dl: "is_dlist (bblk st) (bs_dl bs) xs" and live: "set xs \<subseteq> pool_live p (bmem st)"
    and blocks: "\<And>a. a \<in> set xs \<Longrightarrow> block_ok st a"
    by (auto simp: bytes_ok_def)
  have usz: "unat (sizeof_bytes_block rsize) = 32 + unat rsize"
    using rs by (rule sizeof_bytes_block_unat)
  have "unat rsize \<le> 1024" using rs by (simp add: word_le_nat_alt)
  then have dlen: "length d \<le> 1024" using len by simp
  have "pool_size_ok (sizeof_bytes_block rsize)"
    using usz \<open>unat rsize \<le> 1024\<close> by (auto simp: pool_size_ok_def)
  from memp_alloc_nonnull [OF pok this mem] obtain a m1 x where
    al: "memp_alloc (Some p) (sizeof_bytes_block rsize) (bmem st) = Some (Some a, m1)"
    and pok1: "pool_ok p m1" and new: "a \<notin> pool_live p (bmem st)"
    and live1: "pool_live p m1 = insert a (pool_live p (bmem st))"
    and x: "blks m1 a = Some x" "32 + unat rsize \<le> length (d_d x)"
    and frame: "\<forall>c\<in>pool_live p (bmem st). blks m1 c = blks (bmem st) c"
    and oom1: "oom m1 = oom (bmem st)"
    unfolding usz by metis
  let ?z = "replicate (length (d_d x) - 32) 0"
  define b :: bblock where "b = \<lparr>dl_next = None, dl_prev = None, b_size = rsize,
      b_used = of_nat (length d), b_d = d @ drop (length d) ?z\<rparr>"
  let ?h = "(bblk st)(a \<mapsto> b)"
  have a_xs: "a \<notin> set xs" using new live by auto
  then have "is_dlist ?h (bs_dl bs) xs" using dl by (simp add: is_dlist_def)
  from dlist_add_to_tail_refines [OF this _ a_xs] obtain dl' h where
    app: "dlist_add_to_tail (bs_dl bs) a ?h = Some (dl', h)" and dl': "is_dlist h dl' (xs @ [a])"
    by auto
  have pay: "same_payload ?h h" by (rule dlist_add_to_tail_payload [OF app])
  let ?bs = "bs\<lparr>bs_size := bs_size bs + rsize, bs_used := bs_used bs + of_nat (length d),
      bs_cnt := bs_cnt bs + 1, bs_dl := dl'\<rparr>"
  let ?st = "st\<lparr>bmem := m1, fd_pos := Suc (fd_pos st), bblk := h\<rparr>"
  have "length d \<le> length ?z" using x(2) len by simp
  then have loop: "bytes_read_loop bs st rsize n =
      (if d \<noteq> [] then bytes_read_loop ?bs ?st (grow rsize) (n + of_nat (length d))
       else Some (n + of_nat (length d), ?bs, ?st))"
    using mp al x rd app of_nat_pos_iff [OF dlen]
    by (simp add: bytes_read_loop.simps [of bs] bytes_block_init_def fd_read_def read_ret_def
        modify_Some b_def grow_def Let_def)
  have bb: "block_bytes b = d" using unat_len [OF dlen] by (simp add: b_def block_bytes_def)
  have at_old: "size_at h c = size_at (bblk st) c" "data_at h c = data_at (bblk st) c"
    if "c \<in> set xs" for c
    using that a_xs same_payload_at [OF pay, of c] by (auto simp: at_upd)
  have at_new: "size_at h a = rsize" "data_at h a = d"
    using same_payload_at [OF pay, of a] bb by (auto simp: at_upd b_def)
  have sum_old: "sum_list (map (size_at h) xs) = sum_list (map (size_at (bblk st)) xs)"
    "concat (map (data_at h) xs) = concat (map (data_at (bblk st)) xs)"
    using at_old by (simp_all cong: map_cong)
  have okb: "block_ok ?st c" if c: "c \<in> set (xs @ [a])" for c
  proof (cases "c = a")
    case True
    let ?st0 = "st\<lparr>bmem := m1, bblk := ?h\<rparr>"
    have "unat (of_nat (length d) :: size_t) \<le> unat rsize" using unat_len [OF dlen] len by simp
    then have "block_ok ?st0 a" using x len by (simp add: block_ok_def b_def word_le_nat_alt)
    then show ?thesis unfolding True by (rule block_ok_payload) (use pay in simp_all)
  next
    case False
    with c have cx: "c \<in> set xs" by simp
    let ?st0 = "st\<lparr>bblk := ?h\<rparr>"
    have "blks m1 c = blks (bmem st) c" using frame cx live by auto
    moreover have "block_ok ?st0 c" using blocks [OF cx] False by (simp add: block_ok_def)
    ultimately show ?thesis by (elim block_ok_payload) (use pay in simp_all)
  qed
  have "bytes_ok p ?bs ?st (xs @ [a])"
    unfolding bytes_ok_alt using ok mp pok1 dl' live live1 okb sum_old at_new
    by (auto simp: bytes_ok_alt simp del: length_concat)
  moreover have "bytes_data (bblk ?st) (xs @ [a]) = bytes_data (bblk st) xs @ d"
    using sum_old at_new by (simp add: bytes_data_eq)
  ultimately have "read_round p bs st xs d a ?bs ?st"
    using new live1 frame oom1 by (simp add: read_round_def)
  with loop show ?thesis by blast
qed

subsection \<open>Reading a descriptor to its end\<close>

text \<open>
  The descriptor answers the chunks \<open>cs\<close> and then end of file, each chunk within the
  size asked for; the sizes asked for are 64, 128, 256, 512 and then 1024.
\<close>

fun script_gives :: "(nat \<Rightarrow> size_t \<Rightarrow> read_result) \<Rightarrow> nat \<Rightarrow> size_t \<Rightarrow> u8 list list \<Rightarrow> bool" where
  "script_gives f pos rsize [] \<longleftrightarrow> f pos rsize = RData []"
| "script_gives f pos rsize (c # cs) \<longleftrightarrow>
     f pos rsize = RData c \<and> c \<noteq> [] \<and> length c \<le> unat rsize
     \<and> script_gives f (Suc pos) (grow rsize) cs"

definition read_sizes :: "size_t set" where
  "read_sizes = {64, 128, 256, 512, 1024}"

lemma grow_read_sizes: "r \<in> read_sizes \<Longrightarrow> grow r \<in> read_sizes"
  by (auto simp: read_sizes_def grow_def MAX_BLOCK_SIZE_def)

lemma read_sizes_le: "r \<in> read_sizes \<Longrightarrow> r \<le> 1024"
  by (auto simp: read_sizes_def)

lemma bytes_read_loop_all:
  assumes "bytes_ok p bs st xs" and "rsize \<in> read_sizes" and "\<forall>k. \<not> oom (bmem st) k"
    and "script_gives (fd_script st) (fd_pos st) rsize cs"
  shows "\<exists>bs' st' ys. bytes_read_loop bs st rsize n = Some (n + of_nat (length (concat cs)), bs', st')
    \<and> bytes_ok p bs' st' (xs @ ys) \<and> length ys = Suc (length cs)
    \<and> bytes_data (bblk st') (xs @ ys) = bytes_data (bblk st) xs @ concat cs
    \<and> bs_used bs' = bs_used bs + of_nat (length (concat cs))
    \<and> pool_live p (bmem st') = pool_live p (bmem st) \<union> set ys
    \<and> pool_live p (bmem st) \<inter> set ys = {}"
  using assms
proof (induction cs arbitrary: bs st xs rsize n)
  case Nil
  then have "fd_script st (fd_pos st) rsize = RData []" "\<not> oom (bmem st) (brk (bmem st))" by auto
  with bytes_read_round [OF Nil.prems(1) read_sizes_le [OF Nil.prems(2)], of "[]" n]
  obtain a bs' st' where "read_round p bs st xs [] a bs' st'"
    "bytes_read_loop bs st rsize n = Some (n, bs', st')" by auto
  then show ?case
    by (intro exI [of _ bs'] exI [of _ st'] exI [of _ "[a]"]) (auto simp: read_round_def)
next
  case (Cons c cs)
  from Cons.prems(4) have c: "fd_script st (fd_pos st) rsize = RData c" "length c \<le> unat rsize" "c \<noteq> []"
    and cs: "script_gives (fd_script st) (Suc (fd_pos st)) (grow rsize) cs" by auto
  have "\<not> oom (bmem st) (brk (bmem st))" using Cons.prems(3) by blast
  from bytes_read_round [OF Cons.prems(1) read_sizes_le [OF Cons.prems(2)] this c(1,2), of n] c(3)
  obtain a bs1 st1 where round: "read_round p bs st xs c a bs1 st1"
    and eq: "bytes_read_loop bs st rsize n = bytes_read_loop bs1 st1 (grow rsize) (n + of_nat (length c))"
    by auto
  from round have one: "bytes_ok p bs1 st1 (xs @ [a])" "a \<notin> pool_live p (bmem st)"
    "pool_live p (bmem st1) = insert a (pool_live p (bmem st))"
    "bytes_data (bblk st1) (xs @ [a]) = bytes_data (bblk st) xs @ c"
    "bs_used bs1 = bs_used bs + of_nat (length c)" "oom (bmem st1) = oom (bmem st)"
    "fd_script st1 = fd_script st" "fd_pos st1 = Suc (fd_pos st)"
    by (auto simp: read_round_def)
  from Cons.IH [OF one(1) grow_read_sizes [OF Cons.prems(2)], of "n + of_nat (length c)"]
    Cons.prems(3) one(6-8) cs
  obtain bs' st' ys where "bytes_read_loop bs1 st1 (grow rsize) (n + of_nat (length c)) =
      Some (n + of_nat (length c) + of_nat (length (concat cs)), bs', st')"
    "bytes_ok p bs' st' ((xs @ [a]) @ ys)" "length ys = Suc (length cs)"
    "bytes_data (bblk st') ((xs @ [a]) @ ys) = bytes_data (bblk st1) (xs @ [a]) @ concat cs"
    "bs_used bs' = bs_used bs1 + of_nat (length (concat cs))"
    "pool_live p (bmem st') = pool_live p (bmem st1) \<union> set ys"
    "pool_live p (bmem st1) \<inter> set ys = {}" by auto
  with one eq show ?case
    by (intro exI [of _ bs'] exI [of _ st'] exI [of _ "a # ys"]) (auto simp: add.assoc)
qed

text \<open>
  The error branch of the loop is dead: \<open>nbyte\<close> is unsigned. The loop ends only when
  \<open>read\<close> returns 0.
\<close>

lemma nbyte_never_negative: "\<not> read_ret r < 0"
  by simp

lemma bytes_read_loop_needs_eof:
  assumes ret: "bytes_read_loop bs st rsize n = Some r"
  shows "\<not> (\<forall>k\<ge>fd_pos st. \<forall>sz d. fd_script st k sz = RData d \<longrightarrow> d \<noteq> [] \<and> length d \<le> unat sz)"
proof (rule bytes_read_loop.raw_induct [where P = "\<lambda>bs st rsize n r.
    \<not> (\<forall>k\<ge>fd_pos st. \<forall>sz d. fd_script st k sz = RData d \<longrightarrow> d \<noteq> [] \<and> length d \<le> unat sz)", OF _ ret],
    rule notI)
  fix f :: "as_bytes \<Rightarrow> bst \<Rightarrow> size_t \<Rightarrow> size_t \<Rightarrow> (size_t \<times> as_bytes \<times> bst) option"
    and bs :: as_bytes and st :: bst and rsize n :: size_t and r
  assume IH: "\<And>bs st rsize n r. f bs st rsize n = Some r \<Longrightarrow>
      \<not> (\<forall>k\<ge>fd_pos st. \<forall>sz d. fd_script st k sz = RData d \<longrightarrow> d \<noteq> [] \<and> length d \<le> unat sz)"
    and body: "do { (block, m) \<leftarrow> memp_alloc (bs_mp bs) (sizeof_bytes_block rsize) (bmem st);
          st \<leftarrow> bytes_block_init block rsize (st\<lparr>bmem := m\<rparr>);
          a \<leftarrow> block;
          (r, st) \<leftarrow> fd_read a rsize st;
          let nbyte = read_ret r;
          if nbyte < 0 then
            do { m \<leftarrow> memp_recycle block (bmem st);
                 if read_errno r = EAGAIN then Some (n, bs, st\<lparr>bmem := m\<rparr>)
                 else Some (-1, bs, st\<lparr>bmem := m\<rparr>) }
          else
            do { h \<leftarrow> modify (\<lambda>b. b\<lparr>b_used := nbyte\<rparr>) block (bblk st);
                 let bs = bs\<lparr>bs_size := bs_size bs + rsize, bs_used := bs_used bs + nbyte,
                             bs_cnt := bs_cnt bs + 1\<rparr>;
                 (dl, h) \<leftarrow> dlist_add_to_tail (bs_dl bs) a h;
                 let bs = bs\<lparr>bs_dl := dl\<rparr>;
                 let st = st\<lparr>bblk := h\<rparr>;
                 let n = n + nbyte;
                 let rsize = (if rsize < MAX_BLOCK_SIZE then push_bit 1 rsize else rsize);
                 if nbyte > 0 then f bs st rsize n
                 else Some (n, bs, st) } } = Some r"
    and never: "\<forall>k\<ge>fd_pos st. \<forall>sz d. fd_script st k sz = RData d \<longrightarrow> d \<noteq> [] \<and> length d \<le> unat sz"
  from body obtain block m st1 a rr st2 h dl h2 where
    init: "bytes_block_init block rsize (st\<lparr>bmem := m\<rparr>) = Some st1"
    and rd: "fd_read a rsize st1 = Some (rr, st2)"
    and rest: "(if 0 < read_ret rr then f (bs\<lparr>bs_size := bs_size bs + rsize,
        bs_used := bs_used bs + read_ret rr, bs_cnt := bs_cnt bs + 1, bs_dl := dl\<rparr>) (st2\<lparr>bblk := h2\<rparr>)
        (if rsize < MAX_BLOCK_SIZE then push_bit 1 rsize else rsize) (n + read_ret rr)
      else Some (n + read_ret rr, bs\<lparr>bs_size := bs_size bs + rsize,
        bs_used := bs_used bs + read_ret rr, bs_cnt := bs_cnt bs + 1, bs_dl := dl\<rparr>, st2\<lparr>bblk := h2\<rparr>)) = Some r"
    by (auto simp: bind_eq_Some_conv Let_def)
  have st1: "fd_script st1 = fd_script st" "fd_pos st1 = fd_pos st"
    using init by (auto simp: bytes_block_init_def bind_eq_Some_conv split: if_splits)
  have st2: "fd_script st2 = fd_script st" "fd_pos st2 = Suc (fd_pos st)"
    "rr = fd_script st (fd_pos st) rsize"
    using rd st1 by (auto simp: fd_read_def Let_def bind_eq_Some_conv split: read_result.splits if_splits)
  have "0 < read_ret rr"
  proof (cases rr)
    case (RErr e)
    then show ?thesis by (simp add: read_ret_def word_gt_0)
  next
    case (RData d)
    then have "fd_script st (fd_pos st) rsize = RData d" using st2(3) by simp
    with never have "d \<noteq> []" "length d \<le> unat rsize" by blast+
    moreover have "length d < 2 ^ 64"
      using \<open>length d \<le> unat rsize\<close> unsigned_less [of rsize, where ?'a = nat] by simp
    ultimately show ?thesis
      using RData by (simp add: read_ret_def word_less_nat_alt unsigned_of_nat take_bit_nat_eq_self)
  qed
  with rest obtain bs' n' rs' where "f bs' (st2\<lparr>bblk := h2\<rparr>) rs' n' = Some r"
    by (simp only: if_True)
  note IH [OF this]
  moreover have "\<forall>k\<ge>fd_pos (st2\<lparr>bblk := h2\<rparr>). \<forall>sz d.
      fd_script (st2\<lparr>bblk := h2\<rparr>) k sz = RData d \<longrightarrow> d \<noteq> [] \<and> length d \<le> unat sz"
    using never st2(1,2) by (auto simp: Suc_le_eq dest: less_imp_le)
  ultimately show False by blast
qed

subsection \<open>Locating an offset\<close>

lemma bytes_offset_loop_correct:
  assumes "dseg h pr xs None" and "\<forall>a\<in>set xs. unat (b_used (the (h a))) \<le> length (b_d (the (h a)))"
    and "unat offset < length (concat (map (data_at h) xs))"
  shows "\<exists>i m. bytes_offset_loop h (hd_ptr xs None) offset k = Some (0, k + of_nat i, m)
    \<and> i < length xs \<and> unat m < length (data_at h (xs ! i))
    \<and> unat offset = length (concat (map (data_at h) (take i xs))) + unat m"
  using assms
proof (induction xs arbitrary: pr offset k)
  case Nil
  then show ?case by simp
next
  case (Cons a xs)
  then obtain b where b: "h a = Some b" "dl_next b = hd_ptr xs None" by auto
  with Cons.prems(2) have len: "length (data_at h a) = unat (b_used b)"
    by (simp add: data_at_def block_bytes_def)
  have step: "bytes_offset_loop h (hd_ptr (a # xs) None) offset k =
      (if offset < b_used b then Some (0, k, offset)
       else bytes_offset_loop h (hd_ptr xs None) (offset - b_used b) (k + 1))"
    using b by (simp add: bytes_offset_loop.simps [of h "Some a"])
  show ?case
  proof (cases "offset < b_used b")
    case True
    with step len show ?thesis by (intro exI [of _ 0] exI [of _ offset]) (simp add: word_less_nat_alt)
  next
    case False
    then have sub: "unat (offset - b_used b) = unat offset - unat (b_used b)"
      by (simp add: unat_sub)
    from Cons.prems sub len False
    have "unat (offset - b_used b) < length (concat (map (data_at h) xs))"
      by (auto simp: word_less_nat_alt)
    with Cons.IH [of "Some a" "offset - b_used b" "k + 1"] Cons.prems
    obtain i m where "bytes_offset_loop h (hd_ptr xs None) (offset - b_used b) (k + 1) =
        Some (0, k + 1 + of_nat i, m)" "i < length xs" "unat m < length (data_at h (xs ! i))"
      "unat (offset - b_used b) = length (concat (map (data_at h) (take i xs))) + unat m" by auto
    with step False sub len show ?thesis
      by (intro exI [of _ "Suc i"] exI [of _ m]) (auto simp: word_less_nat_alt add.assoc)
  qed
qed

subsection \<open>Destroying a buffer\<close>

lemma foldM_recycle_block:
  "foldM recycle_block xs st = map_option (\<lambda>m. st\<lparr>bmem := m,
     bblk := bblk st |` (- set xs)\<rparr>)
     (foldM (\<lambda>a. memp_recycle (Some a)) xs (bmem st))"
proof (induction xs arbitrary: st)
  case Nil
  then show ?case by simp
next
  case (Cons a xs)
  have "((bblk st)(a := None)) |` (- set xs) = bblk st |` (- set (a # xs))"
    by (auto simp: restrict_map_def fun_eq_iff)
  then show ?case
    by (cases "memp_recycle (Some a) (bmem st)")
      (simp_all add: recycle_block_def [of a] Cons.IH del: restrict_fun_upd fun_upd_apply list.set)
qed

lemma bytes_destroy_correct:
  assumes ok: "bytes_ok p bs st xs"
  shows "\<exists>bs' st'. bytes_destroy bs st = Some (bs', st') \<and> bytes_ok p bs' st' []
    \<and> bs_used bs' = 0 \<and> pool_live p (bmem st') = pool_live p (bmem st) - set xs
    \<and> (\<forall>x\<in>pool_live p (bmem st'). blks (bmem st') x = blks (bmem st) x)"
proof -
  from ok have dl: "dseg (bblk st) None xs None" "distinct xs" "dl_head (bs_dl bs) = hd_ptr xs None"
    and pok: "pool_ok p (bmem st)" and live: "set xs \<subseteq> pool_live p (bmem st)"
    and mp: "bs_mp bs = Some p"
    by (auto simp: bytes_ok_def is_dlist_def)
  from mp.recycle_many [OF pok dl(2) live] obtain m where
    m: "foldM (\<lambda>a. memp_recycle (Some a)) xs (bmem st) = Some m" "pool_ok p m"
    "pool_live p m = pool_live p (bmem st) - set xs"
    "\<forall>x\<in>pool_live p m. blks m x = blks (bmem st) x" by auto
  have "dlist_pos_travel bblk recycle_block (hd_ptr xs None) st = foldM recycle_block xs st"
    by (rule dlist_pos_travel_foldM [where st = bblk, OF _ dl(1,2)])
      (auto simp: recycle_block_def bind_eq_Some_conv)
  with m dl(3) mp show ?thesis
    by (auto simp: bytes_destroy_def foldM_recycle_block bytes_ok_def bytes_data_def Let_def)
qed

subsection \<open>The properties, and a buffer to see them on\<close>

definition small_buf :: as_bytes where
  "small_buf = \<lparr>bs_size = 0, bs_used = 0, bs_cnt = 0, bs_mp = Some 0, bs_dl = dlist_empty\<rparr>"

text \<open>The descriptor gives three bytes, then end of file.\<close>

definition small_bst :: bst where
  "small_bst = \<lparr>bmem = small_mem, bblk = (\<lambda>_. None),
     fd_script = (\<lambda>k sz. if k = 0 then RData [1, 2, 3] else RData []), fd_pos = 0\<rparr>"

lemma small_buf_ok: "bytes_ok 0 small_buf small_bst []"
  using small_mem_inv
  by (auto simp: bytes_ok_def small_buf_def small_bst_def pool_ok_def is_dlist_def dlist_empty_def bytes_data_def hd_ptr_def last_ptr_def)

lemma small_script: "\<forall>k. \<not> oom (bmem small_bst) k" "script_gives (fd_script small_bst) (fd_pos small_bst) 64 [[1, 2, 3]]"
  by (simp_all add: small_bst_def small_mem_def)

lemma small_read:
  obtains bs st ys where "bytes_read_from_fd small_buf small_bst = Some (3, bs, st)" "bytes_ok 0 bs st ys"
    "bytes_data (bblk st) ys = [1, 2, 3]" "pool_live 0 (bmem st) - set ys = {1}"
proof -
  have "(64 :: size_t) \<in> read_sizes" by (simp add: read_sizes_def)
  from bytes_read_loop_all [OF small_buf_ok this small_script, of 0] that show thesis
    by (auto simp: bytes_read_from_fd_def bytes_data_def pool_live_def small_mem_owned small_bst_def)
qed

text \<open>C29: reading a descriptor that gives chunks within the sizes asked for and then end of file appends
  exactly those bytes, in order, to the buffer, one fresh block for each call of \<open>read\<close>, returns their
  number, and keeps the buffer's sizes, counts and links in order.\<close>

theorem read_appends_all:
  assumes "bytes_ok p bs st xs" and "\<forall>k. \<not> oom (bmem st) k" and "script_gives (fd_script st) (fd_pos st) 64 cs"
  shows "\<exists>bs' st' ys. bytes_read_from_fd bs st = Some (of_nat (length (concat cs)), bs', st')
    \<and> bytes_ok p bs' st' (xs @ ys) \<and> length ys = Suc (length cs)
    \<and> bytes_data (bblk st') (xs @ ys) = bytes_data (bblk st) xs @ concat cs
    \<and> bs_used bs' = bs_used bs + of_nat (length (concat cs))
    \<and> pool_live p (bmem st') = pool_live p (bmem st) \<union> set ys \<and> pool_live p (bmem st) \<inter> set ys = {}"
  using bytes_read_loop_all [OF assms(1) _ assms(2,3), of 0]
  by (simp add: bytes_read_from_fd_def read_sizes_def)

theorem read_appends_all_witness:
  "\<exists>bs' st' ys. bytes_read_from_fd small_buf small_bst = Some (3, bs', st') \<and> bytes_ok 0 bs' st' ys
    \<and> length ys = 2 \<and> bytes_data (bblk st') ys = [1, 2, 3] \<and> 1 \<notin> set ys"
  using read_appends_all [OF small_buf_ok small_script]
  by (auto simp: small_bst_def bytes_data_def pool_live_def small_mem_owned numeral_2_eq_2)

text \<open>A read that returns has seen an answer of 0 bytes (or one longer than asked for): the result of
  \<open>read\<close> is kept in a \<open>size_t\<close>, so the branches for an error are never taken, and on a descriptor that
  keeps failing, \<open>EAGAIN\<close> included, the loop does not end.\<close>

theorem read_ends_only_at_eof:
  assumes "bytes_read_from_fd bs st = Some r"
  shows "\<exists>k\<ge>fd_pos st. \<exists>sz d. fd_script st k sz = RData d \<and> (d = [] \<or> unat sz < length d)"
  using bytes_read_loop_needs_eof [OF assms [unfolded bytes_read_from_fd_def]] by (auto simp: not_le)

theorem read_ends_only_at_eof_witness:
  "\<exists>r k sz d. bytes_read_from_fd small_buf small_bst = Some r \<and> fd_script small_bst k sz = RData d
    \<and> (d = [] \<or> unat sz < length d)"
proof -
  obtain bs st where r: "bytes_read_from_fd small_buf small_bst = Some (3, bs, st)" by (rule small_read)
  from read_ends_only_at_eof [OF r] r show ?thesis by blast
qed

text \<open>\<open>bytes_offset\<close> of a position inside the buffer finds the block that holds it, by its index in the
  list, and the position within that block.\<close>

theorem offset_finds_block:
  assumes ok: "bytes_ok p bs st xs" and off: "unat offset < length (bytes_data (bblk st) xs)"
    and len: "length (bytes_data (bblk st) xs) < 2 ^ 64"
  shows "\<exists>i m. bytes_offset bs st offset = Some (0, Some (of_nat i, m)) \<and> i < length xs
    \<and> unat m < length (data_at (bblk st) (xs ! i))
    \<and> unat offset = length (bytes_data (bblk st) (take i xs)) + unat m
    \<and> bytes_data (bblk st) xs ! unat offset = data_at (bblk st) (xs ! i) ! unat m"
proof -
  have "\<forall>a\<in>set xs. unat (b_used (the (bblk st a))) \<le> length (b_d (the (bblk st a)))"
    using ok by (auto simp: bytes_ok_def block_ok_def word_le_nat_alt)
  then obtain i m where im: "bytes_offset_loop (bblk st) (dl_head (bs_dl bs)) offset 0 = Some (0, of_nat i, m)"
    "i < length xs" "unat m < length (data_at (bblk st) (xs ! i))"
    "unat offset = length (concat (map (data_at (bblk st)) (take i xs))) + unat m"
    using bytes_offset_loop_correct [of "bblk st" None xs offset 0] ok off
    by (auto simp: bytes_ok_def is_dlist_def bytes_data_eq)
  have "unat (bs_used bs) = length (bytes_data (bblk st) xs)"
    using ok len by (simp add: bytes_ok_def unsigned_of_nat take_bit_nat_eq_self)
  then have "bytes_offset bs st offset = Some (0, Some (of_nat i, m))"
    using off im(1) by (simp add: bytes_offset_def word_le_nat_alt)
  moreover have "concat (map (data_at (bblk st)) xs) = concat (map (data_at (bblk st)) (take i xs))
      @ data_at (bblk st) (xs ! i) @ concat (map (data_at (bblk st)) (drop (Suc i) xs))"
    using im(2) by (subst id_take_nth_drop [of i xs]) simp_all
  then have "bytes_data (bblk st) xs ! unat offset = data_at (bblk st) (xs ! i) ! unat m"
    using im(3,4) by (simp add: bytes_data_eq nth_append)
  ultimately show ?thesis using im(2-4) by (auto simp: bytes_data_eq)
qed

theorem offset_finds_block_witness:
  "\<exists>bs' st' ys i m. bytes_read_from_fd small_buf small_bst = Some (3, bs', st')
    \<and> bytes_offset bs' st' 2 = Some (0, Some (of_nat i, m)) \<and> data_at (bblk st') (ys ! i) ! unat m = 3"
proof -
  obtain bs st ys where r: "bytes_read_from_fd small_buf small_bst = Some (3, bs, st)" "bytes_ok 0 bs st ys"
    "bytes_data (bblk st) ys = [1, 2, 3]" by (rule small_read)
  then have "unat (2 :: size_t) < length (bytes_data (bblk st) ys)" by simp
  from offset_finds_block [OF r(2) this] r(1,3) show ?thesis by auto
qed

text \<open>\<open>bytes_copy_to\<close> of an offset that is not 0 does not return, and with offset 0 it copies nothing:
  its loop changes neither the offset nor the node.\<close>

lemma copy_loop_ends: "bytes_copy_to_loop node offset = Some u \<Longrightarrow> offset = 0"
  by (rule bytes_copy_to_loop.raw_induct [where P = "\<lambda>_ offset _. offset = 0"]) (auto split: if_splits)

theorem copy_to_returns_only_for_0:
  "bytes_copy_to bs ptr offset n = (if offset = 0 then Some 0 else None)"
proof (cases "offset = 0")
  case True
  then show ?thesis by (simp add: bytes_copy_to_def bytes_copy_to_loop.simps)
next
  case False
  then have "bytes_copy_to_loop (dl_head (bs_dl bs)) offset = None"
    using copy_loop_ends by (cases "bytes_copy_to_loop (dl_head (bs_dl bs)) offset") auto
  with False show ?thesis by (simp add: bytes_copy_to_def)
qed

text \<open>\<open>bytes_destroy\<close> gives every block of the buffer back to its pool, leaves the other blocks in use
  untouched, and the buffer is empty and in order.\<close>

theorem destroy_recycles_blocks:
  assumes "bytes_ok p bs st xs"
  shows "\<exists>bs' st'. bytes_destroy bs st = Some (bs', st') \<and> bytes_ok p bs' st' []
    \<and> bs_used bs' = 0 \<and> pool_live p (bmem st') = pool_live p (bmem st) - set xs
    \<and> (\<forall>x\<in>pool_live p (bmem st'). blks (bmem st') x = blks (bmem st) x)"
  by (rule bytes_destroy_correct [OF assms])

theorem destroy_recycles_blocks_witness:
  "\<exists>bs1 st1 bs2 st2. bytes_read_from_fd small_buf small_bst = Some (3, bs1, st1)
    \<and> bytes_destroy bs1 st1 = Some (bs2, st2) \<and> bytes_ok 0 bs2 st2 [] \<and> pool_live 0 (bmem st2) = {1}"
proof -
  obtain bs st ys where r: "bytes_read_from_fd small_buf small_bst = Some (3, bs, st)" "bytes_ok 0 bs st ys"
    "pool_live 0 (bmem st) - set ys = {1}" by (rule small_read)
  from destroy_recycles_blocks [OF r(2)] r(1,3) show ?thesis by auto
qed

end
