(* ===== verification/Server.thy ===== *)
theory Server
  imports Bytes
begin

text \<open>
  The socket helpers of \<^verbatim>\<open>src/c/src/server.c\<close>. The kernel is not part of the
  program: its calls are the fields of \<open>net\<close>, over a state of any type, and a call that
  can fail answers \<open>-1\<close> or, for \<open>read\<close> and \<open>send\<close>, the error number on the left.
\<close>

unbundle bit_operations_syntax

subsection \<open>The system calls\<close>

type_synonym u16 = "16 word"

record 'x net =
  sc_socket :: "'x \<Rightarrow> int \<times> 'x"
  sc_reuseaddr :: "int \<Rightarrow> 'x \<Rightarrow> 'x"
  sc_bind :: "int \<Rightarrow> u16 \<Rightarrow> 'x \<Rightarrow> int \<times> 'x"
  sc_aton :: "string \<Rightarrow> u32 option"
  sc_connect :: "int \<Rightarrow> u32 \<Rightarrow> u16 \<Rightarrow> 'x \<Rightarrow> int \<times> 'x"
  sc_close :: "int \<Rightarrow> 'x \<Rightarrow> 'x"
  sc_getfl :: "int \<Rightarrow> 'x \<Rightarrow> int \<times> 'x"
  sc_setfl :: "int \<Rightarrow> int \<Rightarrow> 'x \<Rightarrow> int \<times> 'x"
  sc_accept :: "int \<Rightarrow> 'x \<Rightarrow> int \<times> 'x"
  sc_sendmsg :: "int \<Rightarrow> int \<Rightarrow> 'x \<Rightarrow> int \<times> 'x"
  sc_recvmsg :: "int \<Rightarrow> 'x \<Rightarrow> (int \<times> int option) \<times> 'x"
  sc_setsnd :: "int \<Rightarrow> int \<Rightarrow> 'x \<Rightarrow> int \<times> 'x"
  sc_getsnd :: "int \<Rightarrow> 'x \<Rightarrow> int option \<times> 'x"
  sc_read :: "int \<Rightarrow> nat \<Rightarrow> 'x \<Rightarrow> (int + u8 list) \<times> 'x"
  sc_send :: "int \<Rightarrow> u8 list \<Rightarrow> 'x \<Rightarrow> (int + nat) \<times> 'x"

text \<open>Assignment to an \<open>int\<close>.\<close>

definition to_int :: "int \<Rightarrow> int" where
  "to_int z = signed_take_bit 31 z"

lemma to_int_small [simp]: "- (2 ^ 31) \<le> z \<Longrightarrow> z < 2 ^ 31 \<Longrightarrow> to_int z = z"
  by (simp add: to_int_def signed_take_bit_int_eq_self)

definition O_NONBLOCK :: int where
  "O_NONBLOCK = 0x800"

definition MAXLEN :: nat where
  "MAXLEN = 256"

subsection \<open>Operations\<close>

definition simple_bind_name_to_socket :: "'x net \<Rightarrow> int \<Rightarrow> u16 \<Rightarrow> 'x \<Rightarrow> int \<times> 'x" where
  "simple_bind_name_to_socket net sock port x = sc_bind net sock port x"

definition simple_connect_socket :: "'x net \<Rightarrow> int \<Rightarrow> string \<Rightarrow> u16 \<Rightarrow> 'x \<Rightarrow> int \<times> 'x" where
  "simple_connect_socket net sock hostname port x = (case sc_aton net hostname of
       None \<Rightarrow> (-1, x)
     | Some addr \<Rightarrow> sc_connect net sock addr port x)"

definition set_non_block :: "'x net \<Rightarrow> int \<Rightarrow> 'x \<Rightarrow> int \<times> 'x" where
  "set_non_block net fd x = (
     let (flags, x) = sc_getfl net fd x
     in if flags = -1 then (-1, x)
        else let (r, x) = sc_setfl net fd (flags OR O_NONBLOCK) x
             in if r = -1 then (-1, x) else (0, x))"

definition make_server_socket :: "'x net \<Rightarrow> u16 \<Rightarrow> 'x \<Rightarrow> int \<times> 'x" where
  "make_server_socket net port x = (
     let (sock, x) = sc_socket net x
     in if sock < 0 then (-1, x)
        else let x = sc_reuseaddr net sock x;
                 (r, x) = simple_bind_name_to_socket net sock port x
             in if r < 0 then (-1, sc_close net sock x) else (sock, x))"

definition make_client_socket :: "'x net \<Rightarrow> string \<Rightarrow> u16 \<Rightarrow> 'x \<Rightarrow> int \<times> 'x" where
  "make_client_socket net hostname port x = (
     let (sock, x) = sc_socket net x
     in if sock < 0 then (-1, x)
        else let (r, x) = simple_bind_name_to_socket net sock 0 x
             in if r < 0 then (-1, sc_close net sock x)
                else let (r, x) = simple_connect_socket net sock hostname port x
                     in if r < 0 then (-1, sc_close net sock x) else (sock, x))"

text \<open>The sum \<open>n\<close> is an \<open>int\<close>: its overflow is undefined.\<close>

partial_function (option) simple_read_loop :: "'x net \<Rightarrow> int \<Rightarrow> int \<Rightarrow> 'x \<Rightarrow> (int \<times> 'x) option" where
  "simple_read_loop net fd n x = (case sc_read net fd MAXLEN x of
       (Inl e, x) \<Rightarrow> if e = EAGAIN then Some (n, x) else Some (-1, x)
     | (Inr d, x) \<Rightarrow>
         if d = [] then Some (0, x)
         else if n + int (length d) < 2 ^ 31 then simple_read_loop net fd (n + int (length d)) x
         else None)"

definition simple_read_from_client :: "'x net \<Rightarrow> int \<Rightarrow> 'x \<Rightarrow> (int \<times> 'x) option" where
  "simple_read_from_client net fd x = simple_read_loop net fd 0 x"

text \<open>\<open>i < len\<close> compares as \<open>size_t\<close>; \<open>send\<close> gets \<open>len - i\<close> bytes from \<open>buf + i\<close>,
  undefined when the buffer is shorter.\<close>

partial_function (option) simple_write_loop ::
  "'x net \<Rightarrow> int \<Rightarrow> u8 list \<Rightarrow> size_t \<Rightarrow> int \<Rightarrow> 'x \<Rightarrow> (int \<times> 'x) option" where
  "simple_write_loop net fd buf len i x = (
     if (of_int i :: size_t) < len then
       if unat len \<le> length buf then
         case sc_send net fd (take (unat (len - of_int i)) (drop (nat i) buf)) x of
           (Inl e, x) \<Rightarrow> if e = EAGAIN then Some (i, x) else Some (-1, x)
         | (Inr m, x) \<Rightarrow>
             let n = to_int (int m)
             in if n < 0 then Some (-1, x)
                else if n = 0 then Some (i, x)
                else simple_write_loop net fd buf len (to_int (i + n)) x
       else None
     else Some (to_int (uint len), x))"

definition simple_write_to_client :: "'x net \<Rightarrow> int \<Rightarrow> u8 list \<Rightarrow> size_t \<Rightarrow> 'x \<Rightarrow> (int \<times> 'x) option" where
  "simple_write_to_client net fd buf len x = simple_write_loop net fd buf len 0 x"

definition new_accept_fd :: "'x net \<Rightarrow> int \<Rightarrow> 'x \<Rightarrow> int \<times> 'x" where
  "new_accept_fd net fd x = sc_accept net fd x"

definition send_fd_by_socket :: "'x net \<Rightarrow> int \<Rightarrow> int \<Rightarrow> 'x \<Rightarrow> int \<times> 'x" where
  "send_fd_by_socket net sock fd x = (
     let (r, x) = sc_sendmsg net sock fd x
     in if r < 0 then (-1, x) else (0, x))"

text \<open>
  \<open>CMSG_FIRSTHDR\<close> is \<open>NULL\<close> when the message carries no control data, for instance at
  the end of the stream; the code reads through it all the same.
\<close>

definition recv_fd_from_socket :: "'x net \<Rightarrow> int \<Rightarrow> 'x \<Rightarrow> (int \<times> 'x) option" where
  "recv_fd_from_socket net sock x = (
     let ((r, cmsg), x) = sc_recvmsg net sock x
     in if r < 0 then Some (-1, x)
        else do { fd \<leftarrow> cmsg; Some (fd, x) })"

definition set_socket_send_buffer_size :: "'x net \<Rightarrow> int \<Rightarrow> int \<Rightarrow> 'x \<Rightarrow> int \<times> 'x" where
  "set_socket_send_buffer_size net fd snd_size x = (
     let (r, x) = sc_setsnd net fd snd_size x
     in if r = -1 then (-1, x)
        else case sc_getsnd net fd x of
               (None, x) \<Rightarrow> (snd_size, x)
             | (Some sz, x) \<Rightarrow> (sz, x))"

declare simple_read_loop.simps [code] simple_write_loop.simps [code]

subsection \<open>No socket is lost\<close>

text \<open>
  \<open>fds x\<close> is the set of open descriptors of the process: \<open>socket\<close> opens a new one,
  \<open>close\<close> closes one, the other calls change nothing.
\<close>

definition tracks_fds :: "'x net \<Rightarrow> ('x \<Rightarrow> int set) \<Rightarrow> bool" where
  "tracks_fds net fds \<longleftrightarrow>
     (\<forall>x s y. sc_socket net x = (s, y) \<longrightarrow> (if s < 0 then fds y = fds x else s \<notin> fds x \<and> fds y = insert s (fds x)))
     \<and> (\<forall>s x. fds (sc_close net s x) = fds x - {s}) \<and> (\<forall>s x. fds (sc_reuseaddr net s x) = fds x)
     \<and> (\<forall>s p x. fds (snd (sc_bind net s p x)) = fds x) \<and> (\<forall>s a p x. fds (snd (sc_connect net s a p x)) = fds x)"

lemma tracks_fdsD:
  assumes "tracks_fds net fds"
  shows "sc_socket net x = (s, y) \<Longrightarrow> if s < 0 then fds y = fds x else s \<notin> fds x \<and> fds y = insert s (fds x)"
    and "fds (sc_close net s x) = fds x - {s}" and "fds (sc_reuseaddr net s x) = fds x"
    and "sc_bind net s p x = (r, y) \<Longrightarrow> fds y = fds x" and "sc_connect net s a p x = (r, y) \<Longrightarrow> fds y = fds x"
  using assms unfolding tracks_fds_def by (metis snd_conv)+

lemma make_server_socket_fds:
  assumes "tracks_fds net fds" and "make_server_socket net port x = (s, y)"
  shows "if s < 0 then fds y = fds x else s \<notin> fds x \<and> fds y = insert s (fds x)"
proof -
  note fds = tracks_fdsD [OF assms(1)]
  obtain s1 x1 where sock: "sc_socket net x = (s1, x1)" by fastforce
  obtain r x2 where bind: "sc_bind net s1 port (sc_reuseaddr net s1 x1) = (r, x2)" by fastforce
  have "fds x2 = fds x1" using fds(4) [OF bind] fds(3) by simp
  with fds(1) [OF sock] assms(2) sock bind show ?thesis
    by (auto simp: make_server_socket_def simple_bind_name_to_socket_def fds(2) split: if_splits)
qed

lemma make_client_socket_fds:
  assumes "tracks_fds net fds" and "make_client_socket net host port x = (s, y)"
  shows "if s < 0 then fds y = fds x else s \<notin> fds x \<and> fds y = insert s (fds x)"
proof -
  note fds = tracks_fdsD [OF assms(1)]
  obtain s1 x1 where sock: "sc_socket net x = (s1, x1)" by fastforce
  obtain r x2 where bind: "sc_bind net s1 0 x1 = (r, x2)" by fastforce
  obtain r' x3 where conn: "simple_connect_socket net s1 host port x2 = (r', x3)" by fastforce
  have "fds x2 = fds x1" by (rule fds(4) [OF bind])
  moreover have "fds x3 = fds x2"
    using conn fds(5) by (auto simp: simple_connect_socket_def split: option.splits)
  ultimately show ?thesis using fds(1) [OF sock] assms(2) sock bind conn
    by (auto simp: make_client_socket_def simple_bind_name_to_socket_def fds(2) split: if_splits)
qed

subsection \<open>Reading and writing\<close>

text \<open>The bytes of a write arrive in order; what was sent before an error is not reported.\<close>

definition sends_prefix :: "'x net \<Rightarrow> int \<Rightarrow> ('x \<Rightarrow> u8 list) \<Rightarrow> bool" where
  "sends_prefix net fd sent \<longleftrightarrow> (\<forall>d x r y. sc_send net fd d x = (r, y) \<longrightarrow>
     (case r of Inl e \<Rightarrow> sent y = sent x | Inr m \<Rightarrow> m \<le> length d \<and> sent y = sent x @ take m d))"

lemma simple_write_loop_sends:
  assumes "sends_prefix net fd sent" and "length buf < 2 ^ 31" and "len = of_nat (length buf)"
  shows "i \<le> length buf \<Longrightarrow> \<exists>r y k. simple_write_loop net fd buf len (int i) x = Some (r, y) \<and> i \<le> k \<and> k \<le> length buf
    \<and> sent y = sent x @ take (k - i) (drop i buf) \<and> (r = -1 \<or> r = int k)"
proof (induction "length buf - i" arbitrary: i x rule: less_induct)
  case less
  have ulen: "unat len = length buf" using assms(2,3) by (simp add: unsigned_of_nat take_bit_nat_eq_self)
  have ui: "unat (of_nat j :: size_t) = j" if "j \<le> length buf" for j
    using assms(2) that by (simp add: unsigned_of_nat take_bit_nat_eq_self)
  have cmp: "(of_int (int i) :: size_t) < len \<longleftrightarrow> i < length buf" using ui [OF less.prems] ulen by (simp add: word_less_nat_alt)
  show ?case
  proof (cases "i < length buf")
    case False
    then have "simple_write_loop net fd buf len (int i) x = Some (int (length buf), x)"
      using cmp ulen assms(2) by (subst simple_write_loop.simps) (simp add: uint_nat del: of_nat_unat)
    with less.prems False show ?thesis by (intro exI [of _ "int (length buf)"] exI [of _ x] exI [of _ i]) auto
  next
    case True
    have "unat (len - of_int (int i)) = length buf - i"
      using ui [of i] ulen cmp True by (simp add: unat_sub word_le_nat_alt)
    then have arg: "take (unat (len - of_int (int i))) (drop (nat (int i)) buf) = drop i buf" by simp
    obtain r y where send: "sc_send net fd (drop i buf) x = (r, y)" by fastforce
    show ?thesis
    proof (cases r)
      case (Inl e)
      then have "simple_write_loop net fd buf len (int i) x = Some (if e = EAGAIN then int i else -1, y)"
        using cmp True arg send ulen by (subst simple_write_loop.simps) simp
      moreover have "sent y = sent x" using assms(1) send Inl by (fastforce simp: sends_prefix_def)
      ultimately show ?thesis using less.prems
        by (intro exI [of _ "if e = EAGAIN then int i else -1"] exI [of _ y] exI [of _ i]) auto
    next
      case (Inr m)
      have m: "m \<le> length buf - i" "sent y = sent x @ take m (drop i buf)"
        using assms(1) send Inr by (fastforce simp: sends_prefix_def)+
      then have "int i + int m < 2 ^ 31" using assms(2) True by simp
      then have small: "to_int (int m) = int m" "to_int (int i + int m) = int (i + m)" by simp_all
      show ?thesis
      proof (cases "m = 0")
        case True
        then have "simple_write_loop net fd buf len (int i) x = Some (int i, y)"
          using cmp \<open>i < length buf\<close> arg send Inr ulen small by (subst simple_write_loop.simps) simp
        with less.prems m True show ?thesis by (intro exI [of _ "int i"] exI [of _ y] exI [of _ i]) auto
      next
        case False
        then have step: "simple_write_loop net fd buf len (int i) x = simple_write_loop net fd buf len (int (i + m)) y"
          using cmp \<open>i < length buf\<close> arg send Inr ulen small by (subst simple_write_loop.simps) simp
        have "length buf - (i + m) < length buf - i" "i + m \<le> length buf" using False m(1) True by auto
        from less.hyps [OF this, of y] obtain r' z k where
          IH: "simple_write_loop net fd buf len (int (i + m)) y = Some (r', z)" "i + m \<le> k" "k \<le> length buf"
            "sent z = sent y @ take (k - (i + m)) (drop (i + m) buf)" "r' = -1 \<or> r' = int k" by blast
        have "take (k - i) (drop i buf) = take m (drop i buf) @ take (k - (i + m)) (drop (i + m) buf)"
          using take_add [of m "k - (i + m)" "drop i buf"] IH(2) by (simp add: add.commute)
        with IH step m show ?thesis by (intro exI [of _ r'] exI [of _ z] exI [of _ k]) auto
      qed
    qed
  qed
qed

text \<open>A descriptor that answers the chunks \<open>ds\<close> and then \<open>stop\<close>, which ends the loop.\<close>

fun chunks :: "'x net \<Rightarrow> int \<Rightarrow> 'x \<Rightarrow> u8 list list \<Rightarrow> int + u8 list \<Rightarrow> 'x \<Rightarrow> bool" where
  "chunks net fd x [] stop y \<longleftrightarrow> sc_read net fd MAXLEN x = (stop, y)"
| "chunks net fd x (d # ds) stop y \<longleftrightarrow> d \<noteq> [] \<and> (\<exists>x'. sc_read net fd MAXLEN x = (Inr d, x') \<and> chunks net fd x' ds stop y)"

lemma simple_read_loop_counts:
  "chunks net fd x ds stop y \<Longrightarrow> stop = Inr [] \<or> stop = Inl e \<Longrightarrow> n + int (length (concat ds)) < 2 ^ 31 \<Longrightarrow>
   simple_read_loop net fd n x
     = Some (if stop = Inr [] then 0 else if stop = Inl EAGAIN then n + int (length (concat ds)) else -1, y)"
proof (induction ds arbitrary: n x)
  case Nil
  then show ?case by (cases "e = EAGAIN") (subst simple_read_loop.simps, auto)+
next
  case (Cons d ds)
  then obtain x' where x': "d \<noteq> []" "sc_read net fd MAXLEN x = (Inr d, x')" "chunks net fd x' ds stop y" by auto
  with Cons.prems(3) have "simple_read_loop net fd n x = simple_read_loop net fd (n + int (length d)) x'"
    by (subst simple_read_loop.simps) simp
  with Cons.IH [OF x'(3) Cons.prems(2), of "n + int (length d)"] Cons.prems(3) show ?case by (simp add: add.assoc)
qed

subsection \<open>The properties, and a kernel to see them on\<close>

text \<open>
  Descriptor 3 is free, port 80 is taken, \<open>send\<close> takes two bytes at a time until six have been
  sent, \<open>read\<close> answers five bytes and then has no more.
\<close>

record tiny_os =
  os_open :: "int list"
  os_sent :: "u8 list"
  os_reads :: nat

definition tiny_net :: "tiny_os net" where
  "tiny_net = \<lparr>sc_socket = (\<lambda>x. if 3 \<in> set (os_open x) then (-1, x) else (3, x\<lparr>os_open := 3 # os_open x\<rparr>)),
     sc_reuseaddr = (\<lambda>_ x. x), sc_bind = (\<lambda>_ p x. (if p = 80 then -1 else 0, x)), sc_aton = (\<lambda>_. Some 1),
     sc_connect = (\<lambda>_ _ _ x. (-1, x)), sc_close = (\<lambda>s x. x\<lparr>os_open := removeAll s (os_open x)\<rparr>),
     sc_getfl = (\<lambda>_ x. (2, x)), sc_setfl = (\<lambda>_ _ x. (0, x)), sc_accept = (\<lambda>_ x. (-1, x)), sc_sendmsg = (\<lambda>_ _ x. (0, x)),
     sc_recvmsg = (\<lambda>_ x. ((0, None), x)), sc_setsnd = (\<lambda>_ _ x. (0, x)), sc_getsnd = (\<lambda>_ x. (None, x)),
     sc_read = (\<lambda>_ _ x. (if os_reads x = 0 then Inr [1, 2, 3, 4, 5] else Inl EAGAIN, x\<lparr>os_reads := Suc (os_reads x)\<rparr>)),
     sc_send = (\<lambda>_ d x. if 6 \<le> length (os_sent x) then (Inl 32, x) else (Inr (min 2 (length d)), x\<lparr>os_sent := os_sent x @ take 2 d\<rparr>))\<rparr>"

definition tiny_start :: tiny_os where
  "tiny_start = \<lparr>os_open = [0], os_sent = [], os_reads = 0\<rparr>"

lemma tiny_tracks: "tracks_fds tiny_net (\<lambda>x. set (os_open x))"
  by (auto simp: tracks_fds_def tiny_net_def)

lemma tiny_sends: "sends_prefix tiny_net fd os_sent"
  by (auto simp: sends_prefix_def tiny_net_def min_def)

text \<open>C37: \<open>make_server_socket\<close> and \<open>make_client_socket\<close> lose no descriptor: when they fail, every
  socket they opened is closed again, on each of their error paths; when they succeed, the result is
  the one new descriptor of the process.\<close>

theorem sockets_not_lost:
  assumes "tracks_fds net fds" and "make_server_socket net port x = (s, y) \<or> make_client_socket net host port x = (s, y)"
  shows "if s < 0 then fds y = fds x else s \<notin> fds x \<and> fds y = insert s (fds x)"
  using make_server_socket_fds [OF assms(1)] make_client_socket_fds [OF assms(1)] assms(2) by blast

theorem sockets_not_lost_witness:
  "set (os_open (snd (make_client_socket tiny_net ''::1'' 9 tiny_start))) = {0}
   \<and> set (os_open (snd (make_server_socket tiny_net 9 tiny_start))) = {0, 3}"
proof -
  obtain y where y: "make_client_socket tiny_net ''::1'' 9 tiny_start = (-1, y)"
    by (simp add: make_client_socket_def simple_bind_name_to_socket_def simple_connect_socket_def tiny_net_def tiny_start_def Let_def)
  obtain z where z: "make_server_socket tiny_net 9 tiny_start = (3, z)"
    by (simp add: make_server_socket_def simple_bind_name_to_socket_def tiny_net_def tiny_start_def Let_def)
  show ?thesis
    using sockets_not_lost [where port = 9 and host = "''::1''", OF tiny_tracks disjI2, OF y]
      sockets_not_lost [where port = 9 and host = "''::1''", OF tiny_tracks disjI1, OF z] y z
    by (auto simp: tiny_start_def)
qed

text \<open>\<open>simple_write_to_client\<close> returns, and the peer has then received a prefix of the buffer, in
  order and without gaps: the whole of it or the number of bytes returned, except that an error
  hides how many bytes went out before it.\<close>

theorem write_sends_prefix:
  assumes "sends_prefix net fd sent" and "length buf < 2 ^ 31"
  shows "\<exists>r y k. simple_write_to_client net fd buf (of_nat (length buf)) x = Some (r, y) \<and> k \<le> length buf
    \<and> sent y = sent x @ take k buf \<and> (r = -1 \<or> r = int k)"
  using simple_write_loop_sends [OF assms HOL.refl, of 0 x] by (auto simp: simple_write_to_client_def)

theorem write_sends_prefix_witness:
  "\<exists>y k. simple_write_to_client tiny_net 1 [1, 2, 3, 4, 5, 6, 7, 8] 8 tiny_start = Some (-1, y)
     \<and> os_sent y = take k [1, 2, 3, 4, 5, 6, 7, 8] \<and> k = 6"
proof -
  have code: "map_option (\<lambda>(r, y). (r, os_sent y)) (simple_write_to_client tiny_net 1 [1, 2, 3, 4, 5, 6, 7, 8] 8 tiny_start)
    = Some (-1, [1, 2, 3, 4, 5, 6])" by code_simp
  have buf: "length [1, 2, 3, 4, 5, 6, 7, 8 :: u8] < 2 ^ 31" "of_nat (length [1, 2, 3, 4, 5, 6, 7, 8 :: u8]) = (8 :: size_t)"
    "length [1, 2, 3, 4, 5, 6, 7, 8 :: u8] = 8" by simp_all
  obtain r y k where y: "simple_write_to_client tiny_net 1 [1, 2, 3, 4, 5, 6, 7, 8] 8 tiny_start = Some (r, y)" "k \<le> 8"
    "os_sent y = take k [1, 2, 3, 4, 5, 6, 7, 8]"
    using write_sends_prefix [OF tiny_sends buf(1), of 1 tiny_start] unfolding buf(2,3) by (auto simp: tiny_start_def)
  with code have "r = -1" "length (os_sent y) = 6" by auto
  moreover from this(2) y(2,3) have "k = 6" by simp
  ultimately show ?thesis using y by blast
qed

text \<open>\<open>simple_read_from_client\<close> returns the number of bytes read when the descriptor runs dry, and
  \<open>-1\<close> on any other error; but at the end of the stream it returns 0 whatever it has read before,
  so that a last message followed by the end of the stream looks like no message.\<close>

theorem read_forgets_at_eof:
  assumes "chunks net fd x ds stop y" and "stop = Inr [] \<or> stop = Inl e" and "length (concat ds) < 2 ^ 31"
  shows "simple_read_from_client net fd x
    = Some (if stop = Inr [] then 0 else if stop = Inl EAGAIN then int (length (concat ds)) else -1, y)"
  using simple_read_loop_counts [OF assms(1,2), of 0] assms(3) by (simp add: simple_read_from_client_def)

theorem read_forgets_at_eof_witness:
  "simple_read_from_client tiny_net 4 tiny_start = Some (5, tiny_start\<lparr>os_reads := 2\<rparr>)"
proof -
  have "chunks tiny_net 4 tiny_start [[1, 2, 3, 4, 5]] (Inl EAGAIN) (tiny_start\<lparr>os_reads := 2\<rparr>)"
    by (simp add: tiny_net_def tiny_start_def numeral_2_eq_2)
  from read_forgets_at_eof [OF this, of EAGAIN] show ?thesis by simp
qed

end
