(* ===== verification/Worker.thy ===== *)
theory Worker
  imports Timeouts Server
begin

text \<open>
  The worker process of \<^verbatim>\<open>src/c/src/mw_worker.c\<close>: it accepts connections, gives each
  its own Lua thread, resumes threads on events and timeouts, sorts what they yield into the two
  pools, and frees the threads that ended at the end of each turn of its loop. The state is the
  \<open>world\<close> of threads, resources and pools, the memory pool they are allocated from, and
  the array of stopped threads. \<open>w_ths\<close>, \<open>w_nodes\<close> and \<open>w_res\<close> are the typed views
  of the blocks of the memory pool: a view begins when the block is allocated and ends when it is
  recycled. The kernel and the Lua interpreter are the fields of \<open>env\<close>; a call of \<open>lua_run\<close>
  runs Lua code, which may call back and change the whole state, and a binding that the worker calls
  itself may run the collector of Lua, which is \<open>lua_work\<close>.
\<close>

unbundle bit_operations_syntax

subsection \<open>Data\<close>

text \<open>
  The values on the stack of a Lua thread that the C code looks at; a list has the top of the
  stack last. \<open>LCoerce n\<close> is a value that is no integer but converts to one, such as a numeral
  in a string; \<open>LUd\<close> is a full userdata. \<open>LYield vs\<close>: \<open>vs\<close> is what the stack has grown by.
\<close>

datatype lval = LInt int | LCoerce int | LPtr ptr | LUd addr | LStr "u8 list" | LNil

datatype lua_result = LYield "lval list" | LOk | LErr

text \<open>
  The calls of \<^verbatim>\<open>lua_bind.c\<close> that the worker makes itself: \<open>lbind_ref_tid_lthread\<close>,
  \<open>lbind_unref_tid_lthread\<close> and \<open>lbind_set_thread_local_vars\<close>. Their answers and their effect on the
  Lua state are \<open>lua_ref\<close>, \<open>lua_unref\<close> and \<open>lua_set_local\<close> below. The memory of that state comes from
  the pool of the worker, and each of them may allocate and run the collector, whose \<open>__gc\<close>
  of a socket closes a descriptor and takes a resource away: \<open>lua_work\<close> is what a call does in
  this way to the worker as a whole. It comes before the answer, which may depend on all of it. A
  call returns: a Lua error is caught by \<open>lua_pcall\<close>.
\<close>

datatype lua_call = LC_Ref u32 | LC_Unref ptr u32 | LC_Set_Local ptr addr

record 'x worker =
  wk_world :: "'x world"
  wk_mem :: mem
  wk_stop :: th_array

record worker_ctx =
  cx_mem_pool :: ptr
  cx_io_pool :: addr
  cx_sleep_pool :: addr
  cx_stop_threads :: ptr
  cx_cfd_res :: addr
  cx_epfd :: int
  cx_cfd :: int
  cx_conn_timeout :: int

record ep_event =
  ev_events :: u32
  ev_res :: addr

record 'x env = "'x net" +
  en_ctl :: "ep_op \<Rightarrow> int \<Rightarrow> int \<Rightarrow> addr \<Rightarrow> u32 \<Rightarrow> 'x \<Rightarrow> int \<times> 'x"
  en_wait :: "int \<Rightarrow> 'x \<Rightarrow> ep_event list \<times> 'x"
  en_time :: "'x \<Rightarrow> int"
  en_errno :: "'x \<Rightarrow> int"
  lua_ref :: "u32 \<Rightarrow> 'x \<Rightarrow> ptr \<times> 'x"
  lua_unref :: "ptr \<Rightarrow> u32 \<Rightarrow> 'x \<Rightarrow> 'x"
  lua_set_local :: "ptr \<Rightarrow> addr \<Rightarrow> 'x \<Rightarrow> 'x"
  lua_work :: "lua_call \<Rightarrow> 'x worker \<Rightarrow> 'x worker"
  lua_run :: "bool \<Rightarrow> ptr \<Rightarrow> lval list \<Rightarrow> 'x worker \<Rightarrow> (lua_result \<times> 'x worker) option"

definition EPOLLIN :: u32 where "EPOLLIN = 0x001"
definition EPOLLOUT :: u32 where "EPOLLOUT = 0x004"
definition EPOLLERR :: u32 where "EPOLLERR = 0x008"
definition EPOLLHUP :: u32 where "EPOLLHUP = 0x010"
definition EPOLLET :: u32 where "EPOLLET = 0x80000000"

definition LAS_S_WAIT_FOR_INPUT :: int where "LAS_S_WAIT_FOR_INPUT = 0"
definition LAS_S_WAIT_FOR_OUTPUT :: int where "LAS_S_WAIT_FOR_OUTPUT = 1"
definition LAS_S_READY_TO_INPUT :: int where "LAS_S_READY_TO_INPUT = 2"
definition LAS_S_READY_TO_OUTPUT :: int where "LAS_S_READY_TO_OUTPUT = 3"
definition LAS_S_YIELD_FOR_IO :: int where "LAS_S_YIELD_FOR_IO = 5"
definition LAS_S_YIELD_FOR_SLEEP :: int where "LAS_S_YIELD_FOR_SLEEP = 6"
definition LAS_S_YIELD_FOR_EV :: int where "LAS_S_YIELD_FOR_EV = 7"
definition LAS_S_RESUME_IO :: int where "LAS_S_RESUME_IO = 8"
definition LAS_S_RESUME_IO_ERROR :: int where "LAS_S_RESUME_IO_ERROR = 9"
definition LAS_S_RESUME_IO_TIMEOUT :: int where "LAS_S_RESUME_IO_TIMEOUT = 10"
definition LAS_S_RESUME_SLEEP :: int where "LAS_S_RESUME_SLEEP = 11"

lemmas las_codes = LAS_S_WAIT_FOR_INPUT_def LAS_S_WAIT_FOR_OUTPUT_def LAS_S_READY_TO_INPUT_def
  LAS_S_READY_TO_OUTPUT_def LAS_S_YIELD_FOR_IO_def LAS_S_YIELD_FOR_SLEEP_def LAS_S_YIELD_FOR_EV_def
  LAS_S_RESUME_IO_def LAS_S_RESUME_IO_ERROR_def LAS_S_RESUME_IO_TIMEOUT_def LAS_S_RESUME_SLEEP_def

text \<open>\<open>lua_isinteger\<close> and \<open>lua_tointeger\<close>, the second into an \<open>int\<close>, \<open>lua_touserdata\<close>.\<close>

definition lua_is :: "int \<Rightarrow> lval \<Rightarrow> bool" where
  "lua_is n v \<longleftrightarrow> v = LInt n"

definition lua_tointeger :: "lval \<Rightarrow> int" where
  "lua_tointeger v = (case v of LInt n \<Rightarrow> n | LCoerce n \<Rightarrow> n | _ \<Rightarrow> 0)"

definition lua_touserdata :: "lval \<Rightarrow> ptr" where
  "lua_touserdata v = (case v of LPtr p \<Rightarrow> p | LUd a \<Rightarrow> Some a | _ \<Rightarrow> None)"

definition on_world :: "('x world \<Rightarrow> ('r \<times> 'x world) option) \<Rightarrow> 'x worker \<Rightarrow> ('r \<times> 'x worker) option" where
  "on_world f k = map_option (\<lambda>(r, w). (r, k\<lparr>wk_world := w\<rparr>)) (f (wk_world k))"

definition on_ext :: "('x \<Rightarrow> 'x) \<Rightarrow> 'x worker \<Rightarrow> 'x worker" where
  "on_ext f k = k\<lparr>wk_world := (wk_world k)\<lparr>w_ext := f (w_ext (wk_world k))\<rparr>\<rparr>"

definition wk_time :: "'x env \<Rightarrow> 'x worker \<Rightarrow> int" where
  "wk_time en k = en_time en (w_ext (wk_world k))"

definition wk_thread :: "addr \<Rightarrow> 'x worker \<Rightarrow> as_thread option" where
  "wk_thread th k = w_ths (wk_world k) th"

subsection \<open>The functions of a resource\<close>

text \<open>
  The worker gives each connection the pair \<open>res_free_f\<close>, \<open>res_fd_f\<close>; so does
  \<^verbatim>\<open>lm_socket.c\<close>. They are number 0. The descriptor is in \<open>rs_d\<close>.
\<close>

definition res_free_f :: "'x env \<Rightarrow> nat \<Rightarrow> addr \<Rightarrow> 'x world \<Rightarrow> 'x world option" where
  "res_free_f en f res w = do {
     r \<leftarrow> w_res w res;
     Some (w\<lparr>w_ext := sc_close en (rs_d r) (w_ext w)\<rparr>)
   }"

definition res_fd_f :: "nat \<Rightarrow> int \<Rightarrow> int" where
  "res_fd_f f d = d"

subsection \<open>Sorting a thread by what it yields\<close>

definition th_remove_res_from_epfd :: "'x env \<Rightarrow> addr \<Rightarrow> int \<Rightarrow> 'x worker \<Rightarrow> (unit \<times> 'x worker) option" where
  "th_remove_res_from_epfd en th epfd k = do {
     t \<leftarrow> wk_thread th k;
     if asthread_th_is_simple_mode t
     then on_world (\<lambda>w. map_option (Pair ()) (asthread_remove_res_from_epfd (en_ctl en) res_fd_f th epfd w)) k
     else Some ((), k)
   }"

text \<open>\<open>vs\<close> is \<open>[LAS_S_YIELD_FOR_IO, res, io_type, secs]\<close>.\<close>

definition th_yield_for_io :: "'x env \<Rightarrow> worker_ctx \<Rightarrow> addr \<Rightarrow> lval list \<Rightarrow> 'x worker \<Rightarrow> 'x worker option" where
  "th_yield_for_io en cx th vs k = do {
     let res = lua_touserdata (vs ! 1);
     let io_type = to_int (lua_tointeger (vs ! 2));
     let secs = to_int (lua_tointeger (vs ! 3));
     let secs = (if secs < 0 then cx_conn_timeout cx else secs);
     (_, k) \<leftarrow> on_world (\<lambda>w. map_option (Pair ()) (asthread_th_to_iowait th (wk_time en k + secs) (Some (cx_io_pool cx)) w)) k;
     let events = (if io_type = LAS_S_WAIT_FOR_INPUT then EPOLLIN OR EPOLLET else EPOLLOUT OR EPOLLET);
     r \<leftarrow> res;
     (_, k) \<leftarrow> on_world (asthread_res_ev_add (en_ctl en) res_fd_f r (cx_epfd cx) events) k;
     Some k
   }"

definition th_yield_for_sleep :: "'x env \<Rightarrow> worker_ctx \<Rightarrow> addr \<Rightarrow> lval list \<Rightarrow> 'x worker \<Rightarrow> 'x worker option" where
  "th_yield_for_sleep en cx th vs k = do {
     let secs = to_int (lua_tointeger (vs ! 1));
     (_, k) \<leftarrow> on_world (\<lambda>w. map_option (Pair ()) (asthread_th_to_sleep th (wk_time en k + secs) (Some (cx_sleep_pool cx)) w)) k;
     Some k
   }"

definition th_yield_for_ev :: "'x env \<Rightarrow> worker_ctx \<Rightarrow> addr \<Rightarrow> lval list \<Rightarrow> 'x worker \<Rightarrow> 'x worker option" where
  "th_yield_for_ev en cx th vs k = do {
     let secs = to_int (lua_tointeger (vs ! 1));
     (_, k) \<leftarrow> on_world (\<lambda>w. map_option (Pair ()) (asthread_th_to_sleep th (wk_time en k + secs) (Some (cx_sleep_pool cx)) w)) k;
     Some k
   }"

text \<open>The pointer to the array of stopped threads is not checked for \<open>NULL\<close>.\<close>

definition th_to_stop :: "worker_ctx \<Rightarrow> addr \<Rightarrow> 'x worker \<Rightarrow> 'x worker option" where
  "th_to_stop cx th k = do {
     _ \<leftarrow> cx_stop_threads cx;
     (arr, k) \<leftarrow> on_world (asthread_th_to_stop th (wk_stop k)) k;
     Some (k\<lparr>wk_stop := arr\<rparr>)
   }"

definition thread_resume :: "'x env \<Rightarrow> worker_ctx \<Rightarrow> addr \<Rightarrow> lval list \<Rightarrow> 'x worker \<Rightarrow> 'x worker option" where
  "thread_resume en cx th args k = do {
     t \<leftarrow> wk_thread th k;
     if asthread_th_is_stop t then Some k
     else do {
       (ret, k) \<leftarrow> lua_run en (asthread_th_is_ready t) (th_T t) args k;
       case ret of
         LYield vs \<Rightarrow>
           if length vs = 4 \<and> lua_is LAS_S_YIELD_FOR_IO (vs ! 0) then th_yield_for_io en cx th vs k
           else if length vs = 2 \<and> lua_is LAS_S_YIELD_FOR_SLEEP (vs ! 0) then th_yield_for_sleep en cx th vs k
           else if length vs = 2 \<and> lua_is LAS_S_YIELD_FOR_EV (vs ! 0) then th_yield_for_ev en cx th vs k
           else th_to_stop cx th k
       | _ \<Rightarrow> th_to_stop cx th k
     }
   }"

subsection \<open>Connections\<close>

text \<open>\<open>sizeof (as_thread_t)\<close> and \<open>sizeof_thread_res (int)\<close> on x86-64.\<close>

definition sizeof_thread :: size_t where
  "sizeof_thread = 96"

definition sizeof_thread_res_int :: size_t where
  "sizeof_thread_res_int = 52"

text \<open>
  The bytes of a fresh block are not initialised; every field is written before it is read, so
  that the values with which a view begins do not matter.
\<close>

definition fresh_thread :: as_thread where
  "fresh_thread = \<lparr>th_tid = 0, th_T = None, th_et = 0, th_pool = None, th_status = TS_Ready,
     th_mode = TM_Simple, th_mfd_res = None, th_resl = dlist_init dlist_empty\<rparr>"

definition fresh_res :: as_res where
  "fresh_res = \<lparr>dl_next = None, dl_prev = None, rs_freef = None, rs_fdf = 0, rs_status = RS_Idle, rs_th = None, rs_d = 0\<rparr>"

definition alloc_thread :: "worker_ctx \<Rightarrow> 'x worker \<Rightarrow> (ptr \<times> 'x worker) option" where
  "alloc_thread cx k = do {
     (p, m) \<leftarrow> memp_alloc (cx_mem_pool cx) sizeof_thread (wk_mem k);
     let k = k\<lparr>wk_mem := m\<rparr>;
     case p of
       None \<Rightarrow> Some (p, k)
     | Some a \<Rightarrow> Some (p, k\<lparr>wk_world := (wk_world k)\<lparr>
         w_ths := (w_ths (wk_world k))(a \<mapsto> fresh_thread),
         w_nodes := (w_nodes (wk_world k))(a \<mapsto> node_of None L Red None None)\<rparr>\<rparr>)
   }"

definition alloc_res :: "worker_ctx \<Rightarrow> 'x worker \<Rightarrow> (ptr \<times> 'x worker) option" where
  "alloc_res cx k = do {
     (p, m) \<leftarrow> memp_alloc (cx_mem_pool cx) sizeof_thread_res_int (wk_mem k);
     let k = k\<lparr>wk_mem := m\<rparr>;
     case p of
       None \<Rightarrow> Some (p, k)
     | Some a \<Rightarrow> Some (p, k\<lparr>wk_world := (wk_world k)\<lparr>w_res := (w_res (wk_world k))(a \<mapsto> fresh_res)\<rparr>\<rparr>)
   }"

definition recycle_thread :: "ptr \<Rightarrow> 'x worker \<Rightarrow> 'x worker option" where
  "recycle_thread p k = do {
     m \<leftarrow> memp_recycle p (wk_mem k);
     let k = k\<lparr>wk_mem := m\<rparr>;
     case p of
       None \<Rightarrow> Some k
     | Some a \<Rightarrow> Some (k\<lparr>wk_world := (wk_world k)\<lparr>
         w_ths := (w_ths (wk_world k))(a := None), w_nodes := (w_nodes (wk_world k))(a := None)\<rparr>\<rparr>)
   }"

definition recycle_res :: "ptr \<Rightarrow> 'x worker \<Rightarrow> 'x worker option" where
  "recycle_res p k = do {
     m \<leftarrow> memp_recycle p (wk_mem k);
     let k = k\<lparr>wk_mem := m\<rparr>;
     case p of
       None \<Rightarrow> Some k
     | Some a \<Rightarrow> Some (k\<lparr>wk_world := (wk_world k)\<lparr>w_res := (w_res (wk_world k))(a := None)\<rparr>\<rparr>)
   }"

definition new_fd_func :: "'x env \<Rightarrow> bool \<Rightarrow> int \<Rightarrow> 'x \<Rightarrow> (int \<times> 'x) option" where
  "new_fd_func en single_mode fd x =
     (if single_mode then Some (new_accept_fd (net.truncate en) fd x)
      else recv_fd_from_socket (net.truncate en) fd x)"

text \<open>The resource of a connection: \<open>handle_accept\<close> from the allocation of \<open>res\<close> to \<open>th->mfd_res = res\<close>.\<close>

definition new_connection :: "'x env \<Rightarrow> worker_ctx \<Rightarrow> int \<Rightarrow> ptr \<Rightarrow> ptr \<Rightarrow> 'x world \<Rightarrow> 'x world option" where
  "new_connection en cx fd th res w = do {
     w \<leftarrow> set_res (rs_d_update (\<lambda>_. fd)) res w;
     (_, w) \<leftarrow> asthread_res_init res (Some 0) 0 w;
     r \<leftarrow> res;
     a \<leftarrow> th;
     (_, w) \<leftarrow> asthread_res_add_to_th r a w;
     (_, w) \<leftarrow> asthread_res_ev_init (en_ctl en) res_fd_f r (cx_epfd cx) w;
     set_th (th_mfd_res_update (\<lambda>_. res)) th w
   }"

text \<open>
  What the loop of \<open>handle_accept\<close> does for one descriptor. The Lua call in \<open>asthread_th_init\<close> comes
  after its only other effect so far, the counter \<open>cur_tid\<close>, which no code outside of
  \<^verbatim>\<open>thread.c\<close> sees.
\<close>

definition accept_one :: "'x env \<Rightarrow> worker_ctx \<Rightarrow> int \<Rightarrow> 'x worker \<Rightarrow> 'x worker option" where
  "accept_one en cx fd k = do {
     let k = on_ext (\<lambda>x. snd (set_non_block (net.truncate en) fd x)) k;
     (th, k) \<leftarrow> alloc_thread cx k;
     let k = lua_work en (LC_Ref (w_cur_tid (wk_world k) + 1)) k;
     (tid, k) \<leftarrow> on_world (asthread_th_init (lua_ref en) th) k;
     if tid = -1 then recycle_thread th k
     else do {
       (res, k) \<leftarrow> alloc_res cx k;
       (_, k) \<leftarrow> on_world (\<lambda>w. map_option (Pair ()) (new_connection en cx fd th res w)) k;
       a \<leftarrow> th;
       t \<leftarrow> wk_thread a k;
       let k = on_ext (lua_set_local en (th_T t) a) (lua_work en (LC_Set_Local (th_T t) a) k);
       thread_resume en cx a [] k
     }
   }"

partial_function (option) handle_accept :: "'x env \<Rightarrow> worker_ctx \<Rightarrow> bool \<Rightarrow> 'x worker \<Rightarrow> 'x worker option" where
  "handle_accept en cx single_mode k = do {
     (fd, x) \<leftarrow> new_fd_func en single_mode (cx_cfd cx) (w_ext (wk_world k));
     let k = on_ext (\<lambda>_. x) k;
     if fd = -1 then Some k
     else do {
       k \<leftarrow> accept_one en cx fd k;
       handle_accept en cx single_mode k
     }
   }"

subsection \<open>Events\<close>

text \<open>The thread of a resource leaves its pool before it is resumed.\<close>

definition wake_for_event :: "'x env \<Rightarrow> worker_ctx \<Rightarrow> addr \<Rightarrow> (int \<Rightarrow> lval list) \<Rightarrow> 'x worker \<Rightarrow> 'x worker option" where
  "wake_for_event en cx res args k = do {
     r \<leftarrow> w_res (wk_world k) res;
     th \<leftarrow> rs_th r;
     t \<leftarrow> wk_thread th k;
     if asthread_th_is_stop t then Some k
     else do {
       (_, k) \<leftarrow> on_world (asthread_th_del_from_pool th) k;
       (_, k) \<leftarrow> th_remove_res_from_epfd en th (cx_epfd cx) k;
       thread_resume en cx th (args (en_errno en (w_ext (wk_world k)))) k
     }
   }"

definition handle_fd_read :: "'x env \<Rightarrow> worker_ctx \<Rightarrow> addr \<Rightarrow> 'x worker \<Rightarrow> 'x worker option" where
  "handle_fd_read en cx res k =
     wake_for_event en cx res (\<lambda>_. [LInt LAS_S_RESUME_IO, LPtr (Some res), LInt LAS_S_READY_TO_INPUT]) k"

definition handle_fd_write :: "'x env \<Rightarrow> worker_ctx \<Rightarrow> addr \<Rightarrow> 'x worker \<Rightarrow> 'x worker option" where
  "handle_fd_write en cx res k =
     wake_for_event en cx res (\<lambda>_. [LInt LAS_S_RESUME_IO, LPtr (Some res), LInt LAS_S_READY_TO_OUTPUT]) k"

definition handle_fd_error :: "'x env \<Rightarrow> worker_ctx \<Rightarrow> addr \<Rightarrow> 'x worker \<Rightarrow> 'x worker option" where
  "handle_fd_error en cx res k =
     (if res = cx_cfd_res cx then do {
        r \<leftarrow> w_res (wk_world k) (cx_cfd_res cx);
        Some (on_ext (sc_close en (rs_d r)) k)
      }
      else wake_for_event en cx res (\<lambda>e. [LInt LAS_S_RESUME_IO_ERROR, LPtr (Some res), LInt e]) k)"

definition process_event :: "'x env \<Rightarrow> worker_ctx \<Rightarrow> bool \<Rightarrow> ep_event \<Rightarrow> 'x worker \<Rightarrow> 'x worker option" where
  "process_event en cx single_mode e k = (
     let res = ev_res e; events = ev_events e
     in if events AND EPOLLERR \<noteq> 0 \<or> events AND EPOLLHUP \<noteq> 0
           \<or> \<not> (events AND EPOLLIN \<noteq> 0 \<or> events AND EPOLLOUT \<noteq> 0) then handle_fd_error en cx res k
        else if res = cx_cfd_res cx then handle_accept en cx single_mode k
        else if events AND EPOLLIN \<noteq> 0 then handle_fd_read en cx res k
        else if events AND EPOLLOUT \<noteq> 0 then handle_fd_write en cx res k
        else Some k)"

text \<open>The events of one \<open>epoll_wait\<close>, at most \<open>_MAX_EVENTS\<close> of them; none when it fails.\<close>

definition process_io :: "'x env \<Rightarrow> worker_ctx \<Rightarrow> bool \<Rightarrow> 'x worker \<Rightarrow> 'x worker option" where
  "process_io en cx single_mode k = (
     let (events, x) = en_wait en (cx_epfd cx) (w_ext (wk_world k))
     in foldM (process_event en cx single_mode) events (on_ext (\<lambda>_. x) k))"

subsection \<open>Timeouts and the end of threads\<close>

text \<open>\<open>asthread_th_free\<close> begins with the Lua call; it reads the thread before it.\<close>

definition free_thread :: "'x env \<Rightarrow> addr \<Rightarrow> 'x worker \<Rightarrow> 'x worker option" where
  "free_thread en th k = do {
     t \<leftarrow> wk_thread th k;
     let k = lua_work en (LC_Unref (th_T t) (th_tid t)) k;
     (_, k) \<leftarrow> on_world (asthread_th_free (lua_unref en) (res_free_f en) (Some th)) k;
     t \<leftarrow> wk_thread th k;
     k \<leftarrow> recycle_res (th_mfd_res t) k;
     recycle_thread (Some th) k
   }"

text \<open>The counter \<open>n\<close> is read through \<open>ctx->stop_threads\<close>, which is not checked for \<open>NULL\<close>; no step of the loop changes it.\<close>

definition process_stop_threads :: "'x env \<Rightarrow> worker_ctx \<Rightarrow> 'x worker \<Rightarrow> 'x worker option" where
  "process_stop_threads en cx k = do {
     _ \<leftarrow> cx_stop_threads cx;
     foldM (\<lambda>i k. do {
         p \<leftarrow> arr_get (ta_ths (wk_stop k)) i;
         th \<leftarrow> p;
         free_thread en th k
       }) [0..<ta_n (wk_stop k)] k
   }"

text \<open>
  The traversal of a detached tree runs on the nodes of the world: its function gets the
  whole state.
\<close>

definition travel_threads :: "(addr \<Rightarrow> 'x worker \<Rightarrow> 'x worker option) \<Rightarrow> ptr \<Rightarrow> 'x worker \<Rightarrow> 'x worker option" where
  "travel_threads f p k = map_option
     (\<lambda>(t, k). k\<lparr>wk_world := (wk_world k)\<lparr>w_nodes := rb_mem t\<rparr>\<rparr>)
     (postorder_loop (\<lambda>a (t, k). map_option (\<lambda>k. (\<lparr>rb_mem = w_nodes (wk_world k), rb_root = rb_root t\<rparr>, k))
        (f a (k\<lparr>wk_world := (wk_world k)\<lparr>w_nodes := rb_mem t\<rparr>\<rparr>)))
      p (\<lparr>rb_mem = w_nodes (wk_world k), rb_root = None\<rparr>, k))"

definition p_io_timeout_thread :: "'x env \<Rightarrow> worker_ctx \<Rightarrow> addr \<Rightarrow> 'x worker \<Rightarrow> 'x worker option" where
  "p_io_timeout_thread en cx th k = do {
     t \<leftarrow> wk_thread th k;
     if asthread_th_is_stop t then Some k
     else do {
       (_, k) \<leftarrow> th_remove_res_from_epfd en th (cx_epfd cx) k;
       thread_resume en cx th [LInt LAS_S_RESUME_IO_TIMEOUT] k
     }
   }"

definition process_io_timeout :: "'x env \<Rightarrow> worker_ctx \<Rightarrow> 'x worker \<Rightarrow> 'x worker option" where
  "process_io_timeout en cx k = do {
     (tr, k) \<leftarrow> on_world (asthread_remove_timeout_threads (wk_time en k) (Some (cx_io_pool cx))) k;
     travel_threads (p_io_timeout_thread en cx) tr k
   }"

definition p_sleep_thread :: "'x env \<Rightarrow> worker_ctx \<Rightarrow> addr \<Rightarrow> 'x worker \<Rightarrow> 'x worker option" where
  "p_sleep_thread en cx th k = do {
     t \<leftarrow> wk_thread th k;
     if asthread_th_is_stop t then Some k
     else thread_resume en cx th [LInt LAS_S_RESUME_SLEEP] k
   }"

definition process_sleep :: "'x env \<Rightarrow> worker_ctx \<Rightarrow> 'x worker \<Rightarrow> 'x worker option" where
  "process_sleep en cx k = do {
     (tr, k) \<leftarrow> on_world (asthread_remove_timeout_threads (wk_time en k) (Some (cx_sleep_pool cx))) k;
     travel_threads (p_sleep_thread en cx) tr k
   }"

definition r_thread_from_pool :: "'x env \<Rightarrow> addr \<Rightarrow> 'x worker \<Rightarrow> 'x worker option" where
  "r_thread_from_pool en th k = free_thread en th k"

definition recycle_threads_from_pool :: "'x env \<Rightarrow> worker_ctx \<Rightarrow> 'x worker \<Rightarrow> 'x worker option" where
  "recycle_threads_from_pool en cx k = do {
     io \<leftarrow> w_pools (wk_world k) (cx_io_pool cx);
     k \<leftarrow> travel_threads (r_thread_from_pool en) io k;
     sl \<leftarrow> w_pools (wk_world k) (cx_sleep_pool cx);
     travel_threads (r_thread_from_pool en) sl k
   }"

subsection \<open>The process\<close>

definition worker_sizes :: "size_t list" where
  "worker_sizes = [12, 16, 24, 32, 48, 64, 128, 256, 384, 512, 768, 1064, 2048, 4096]"

text \<open>\<open>sizeof_thread_array (_MAX_EVENTS)\<close>; the macro takes the offset of the wrong structure, 48 instead of 8.\<close>

definition sizeof_thread_array_max :: size_t where
  "sizeof_thread_array_max = 848"

text \<open>
  From the start of \<open>process\<close> to its loop. \<open>create\<close> is \<open>epoll_create (1)\<close>, \<open>lua_start\<close> makes
  the Lua state of the worker, whose memory comes from the pool; \<open>io\<close> and \<open>sl\<close> are the
  addresses of the two pools in \<open>ctx\<close>. The array of stopped threads has room for as many pointers
  as fit behind its counter in the block that the pool returns.
\<close>

definition process_start ::
  "'x env \<Rightarrow> ('x \<Rightarrow> int \<times> 'x) \<Rightarrow> (ptr \<Rightarrow> 'x worker \<Rightarrow> 'x worker option) \<Rightarrow> addr \<Rightarrow> addr \<Rightarrow> int \<Rightarrow> int
   \<Rightarrow> 'x worker \<Rightarrow> (worker_ctx \<times> 'x worker) option" where
  "process_start en create lua_start io sl cfd conn_timeout k = do {
     let k = on_ext (\<lambda>x. snd (set_non_block (net.truncate en) cfd x)) k;
     let k = k\<lparr>wk_world := (wk_world k)\<lparr>w_pools := (w_pools (wk_world k))(io \<mapsto> None, sl \<mapsto> None)\<rparr>\<rparr>;
     (mp, m) \<leftarrow> memp_new worker_sizes 14 (wk_mem k);
     let cx = \<lparr>cx_mem_pool = mp, cx_io_pool = io, cx_sleep_pool = sl, cx_stop_threads = None, cx_cfd_res = 0,
               cx_epfd = 0, cx_cfd = cfd, cx_conn_timeout = conn_timeout\<rparr>;
     (res, k) \<leftarrow> alloc_res cx (k\<lparr>wk_mem := m\<rparr>);
     (_, k) \<leftarrow> on_world (\<lambda>w. map_option (Pair ()) (set_res (\<lambda>r. r\<lparr>rs_freef := None, rs_th := None, rs_d := cfd\<rparr>) res w)) k;
     r \<leftarrow> res;
     let (epfd, x) = create (w_ext (wk_world k));
     let k = on_ext (\<lambda>_. snd (en_ctl en EP_Add epfd cfd r (EPOLLIN OR EPOLLET) x)) k;
     k \<leftarrow> lua_start mp k;
     (st, m) \<leftarrow> memp_alloc mp sizeof_thread_array_max (wk_mem k);
     ths \<leftarrow> (case st of None \<Rightarrow> Some [] | Some a \<Rightarrow> map_option (\<lambda>b. replicate ((length (d_d b) - 8) div 8) None) (blks m a));
     Some (cx\<lparr>cx_stop_threads := st, cx_cfd_res := r, cx_epfd := epfd\<rparr>,
           k\<lparr>wk_mem := m, wk_stop := \<lparr>ta_n = 0, ta_ths = ths\<rparr>\<rparr>)
   }"

text \<open>One turn of the loop; its first statement writes through \<open>ctx.stop_threads\<close>, which \<open>memp_alloc\<close> may have left \<open>NULL\<close>.\<close>

definition process_turn :: "'x env \<Rightarrow> worker_ctx \<Rightarrow> bool \<Rightarrow> 'x worker \<Rightarrow> 'x worker option" where
  "process_turn en cx single_mode k = do {
     _ \<leftarrow> cx_stop_threads cx;
     let k = k\<lparr>wk_stop := (wk_stop k)\<lparr>ta_n := 0\<rparr>\<rparr>;
     k \<leftarrow> process_io en cx single_mode k;
     k \<leftarrow> process_io_timeout en cx k;
     k \<leftarrow> process_sleep en cx k;
     process_stop_threads en cx k
   }"

text \<open>\<open>keep_running\<close> is cleared by a signal; it is read from the outside world.\<close>

partial_function (option) process_loop ::
  "('x \<Rightarrow> bool) \<Rightarrow> 'x env \<Rightarrow> worker_ctx \<Rightarrow> bool \<Rightarrow> 'x worker \<Rightarrow> 'x worker option" where
  "process_loop keep_running en cx single_mode k =
     (if keep_running (w_ext (wk_world k)) then do {
        k \<leftarrow> process_turn en cx single_mode k;
        process_loop keep_running en cx single_mode k
      }
      else Some k)"

text \<open>After the loop; \<open>lua_close\<close> may give memory back to the pool.\<close>

definition process_end :: "'x env \<Rightarrow> ('x worker \<Rightarrow> 'x worker option) \<Rightarrow> worker_ctx \<Rightarrow> 'x worker \<Rightarrow> 'x worker option" where
  "process_end en lua_close cx k = do {
     k \<leftarrow> process_stop_threads en cx k;
     k \<leftarrow> recycle_threads_from_pool en cx k;
     m \<leftarrow> memp_recycle (cx_stop_threads cx) (wk_mem k);
     k \<leftarrow> recycle_res (Some (cx_cfd_res cx)) (k\<lparr>wk_mem := m\<rparr>);
     k \<leftarrow> lua_close k;
     m \<leftarrow> memp_destroy (cx_mem_pool cx) (wk_mem k);
     Some (k\<lparr>wk_mem := m\<rparr>)
   }"

declare handle_accept.simps [code] process_loop.simps [code]

end
