(* ===== verification/Worker_Sort.thy ===== *)
theory Worker_Sort
  imports Worker
begin

text \<open>
  What \<open>thread_resume\<close> does with a thread: one that asks to wait for a socket goes into the io
  pool, one that asks to sleep or to wait for events into the sleep pool, every other one into the
  array of stopped threads.
\<close>

subsection \<open>Into a pool\<close>

lemma to_pool_correct:
  assumes pool: "pool_is w p T" and th: "w_ths w n = Some tn" and new: "n \<notin> set (addrs T)" "w_nodes w n \<noteq> None"
    and st: "st \<noteq> TS_Stop"
  obtains w' T' where
    "(do { w \<leftarrow> set_th (th_et_update (\<lambda>_. et)) (Some n) w;
           w \<leftarrow> set_th (th_status_update (\<lambda>_. st)) (Some n) w;
           (_, w) \<leftarrow> asthread_th_add_to_pool n (Some p) w;
           Some w }) = Some w'"
    "pool_is w' p T'" "addrs T' = ins_after ((et_of w)(n := et)) n (addrs T)"
    "w_ths w' = (w_ths w)(n \<mapsto> tn\<lparr>th_et := et, th_status := st, th_pool := Some p\<rparr>)"
    "others_kept w p (insert n (set (addrs T))) w'" "w_res w' = w_res w" "w_ext w' = w_ext w"
proof -
  let ?tn = "tn\<lparr>th_et := et, th_status := st\<rparr>"
  let ?w = "w\<lparr>w_ths := (w_ths w)(n \<mapsto> ?tn)\<rparr>"
  have et: "et_of ?w = (et_of w)(n := et)" by (auto simp: et_of_def fun_eq_iff)
  have keep: "pool_is ?w q S" if "n \<notin> set (addrs S)" "pool_is w q S" for q S
    by (rule pool_is_cong [OF that(2)]) (use that(1) et in auto)
  obtain w' T' where w': "asthread_th_add_to_pool n (Some p) ?w = Some (0, w')" "pool_is w' p T'"
    "addrs T' = ins_after (et_of ?w) n (addrs T)" "w_ths w' = (w_ths ?w)(n \<mapsto> ?tn\<lparr>th_pool := Some p\<rparr>)"
    "others_kept ?w p (insert n (set (addrs T))) w'" "w_res w' = w_res ?w" "w_ext w' = w_ext ?w"
    by (rule add_to_pool_correct [OF keep [OF new(1) pool], of n ?tn]) (use st new in auto)
  have "others_kept w p (insert n (set (addrs T))) w'"
    by (rule others_kept_trans [OF w'(5)]) (use keep in auto)
  with w' th et show thesis by (intro that [of w' T']) (simp_all add: set_th_Some)
qed

lemma iowait_correct:
  assumes "pool_is w p T" and "w_ths w n = Some tn" and "n \<notin> set (addrs T)" and "w_nodes w n \<noteq> None"
  shows "\<exists>w' T'. asthread_th_to_iowait n et (Some p) w = Some w' \<and> pool_is w' p T'
    \<and> addrs T' = ins_after ((et_of w)(n := et)) n (addrs T)
    \<and> w_ths w' = (w_ths w)(n \<mapsto> tn\<lparr>th_et := et, th_status := TS_Run, th_pool := Some p\<rparr>)
    \<and> others_kept w p (insert n (set (addrs T))) w' \<and> w_res w' = w_res w \<and> w_ext w' = w_ext w"
  unfolding asthread_th_to_iowait_def
  by (rule to_pool_correct [OF assms, of TS_Run et]) (simp, blast)

lemma sleep_correct:
  assumes "pool_is w p T" and "w_ths w n = Some tn" and "n \<notin> set (addrs T)" and "w_nodes w n \<noteq> None"
  shows "\<exists>w' T'. asthread_th_to_sleep n et (Some p) w = Some w' \<and> pool_is w' p T'
    \<and> addrs T' = ins_after ((et_of w)(n := et)) n (addrs T)
    \<and> w_ths w' = (w_ths w)(n \<mapsto> tn\<lparr>th_et := et, th_status := TS_Sleep, th_pool := Some p\<rparr>)
    \<and> others_kept w p (insert n (set (addrs T))) w' \<and> w_res w' = w_res w \<and> w_ext w' = w_ext w"
  unfolding asthread_th_to_sleep_def
  by (rule to_pool_correct [OF assms, of TS_Sleep et]) (simp, blast)

lemma on_world_Some: "f (wk_world k) = Some (r, w) \<Longrightarrow> on_world f k = Some (r, k\<lparr>wk_world := w\<rparr>)"
  by (simp add: on_world_def)

lemma ev_add_Some:
  assumes "w_res w r = Some rr" and "ctl EP_Mod epfd (fdf (rs_fdf rr) (rs_d rr)) r events (w_ext w) = (ret, x)"
  shows "asthread_res_ev_add ctl fdf r epfd events w
    = Some (ret, w\<lparr>w_res := (if ret = 0 then (w_res w)(r \<mapsto> rr\<lparr>rs_status := RS_Ev\<rparr>) else w_res w), w_ext := x\<rparr>)"
  using assms by (simp add: asthread_res_ev_add_def res_ev_ctl_def set_res_Some)

subsection \<open>Waiting for a socket, sleeping, stopping\<close>

definition io_secs :: "worker_ctx \<Rightarrow> int \<Rightarrow> int" where
  "io_secs cx secs = (if to_int secs < 0 then cx_conn_timeout cx else to_int secs)"

definition io_events :: "int \<Rightarrow> u32" where
  "io_events io = (if to_int io = LAS_S_WAIT_FOR_INPUT then EPOLLIN OR EPOLLET else EPOLLOUT OR EPOLLET)"

text \<open>The thread \<open>t\<close> ran with \<open>args\<close> and left the state \<open>k1\<close>.\<close>

definition ran :: "'x env \<Rightarrow> addr \<Rightarrow> lval list \<Rightarrow> 'x worker \<Rightarrow> lua_result \<Rightarrow> 'x worker \<Rightarrow> bool" where
  "ran en th args k ret k1 \<longleftrightarrow> (\<exists>t. wk_thread th k = Some t \<and> th_status t \<noteq> TS_Stop
     \<and> lua_run en (th_status t = TS_Ready) (th_T t) args k = Some (ret, k1))"

text \<open>It may be put into pool \<open>p\<close>.\<close>

definition poolable :: "addr \<Rightarrow> addr \<Rightarrow> rbt \<Rightarrow> 'x worker \<Rightarrow> bool" where
  "poolable th p T k \<longleftrightarrow> pool_is (wk_world k) p T \<and> th \<notin> set (addrs T)
     \<and> w_nodes (wk_world k) th \<noteq> None \<and> wk_thread th k \<noteq> None"

text \<open>The thread \<open>th\<close> went from state \<open>k\<close> into pool \<open>p\<close> with a deadline and a status.\<close>

definition put_in_pool :: "addr \<Rightarrow> addr \<Rightarrow> rbt \<Rightarrow> int \<Rightarrow> tstatus \<Rightarrow> 'x worker \<Rightarrow> 'x worker \<Rightarrow> bool" where
  "put_in_pool th p T et st k k' \<longleftrightarrow> (\<exists>T'. pool_is (wk_world k') p T'
     \<and> addrs T' = ins_after ((et_of (wk_world k))(th := et)) th (addrs T))
     \<and> w_ths (wk_world k') = (w_ths (wk_world k))(th \<mapsto> (the (wk_thread th k))\<lparr>th_et := et, th_status := st, th_pool := Some p\<rparr>)
     \<and> others_kept (wk_world k) p (insert th (set (addrs T))) (wk_world k')
     \<and> wk_stop k' = wk_stop k \<and> wk_mem k' = wk_mem k"

lemma resume_io:
  assumes run: "ran en th args k (LYield [LInt LAS_S_YIELD_FOR_IO, LPtr (Some r), LInt io, LInt secs]) k1"
    and pool: "poolable th (cx_io_pool cx) T k1" and res: "w_res (wk_world k1) r = Some rr"
  shows "\<exists>k' ret x. thread_resume en cx th args k = Some k'
    \<and> put_in_pool th (cx_io_pool cx) T (wk_time en k1 + io_secs cx secs) TS_Run k1 k'
    \<and> en_ctl en EP_Mod (cx_epfd cx) (rs_d rr) r (io_events io) (w_ext (wk_world k1)) = (ret, x)
    \<and> w_ext (wk_world k') = x
    \<and> w_res (wk_world k') r = Some (if ret = 0 then rr\<lparr>rs_status := RS_Ev\<rparr> else rr)"
proof -
  obtain t where t: "wk_thread th k = Some t" "th_status t \<noteq> TS_Stop"
    "lua_run en (th_status t = TS_Ready) (th_T t) args k
       = Some (LYield [LInt LAS_S_YIELD_FOR_IO, LPtr (Some r), LInt io, LInt secs], k1)"
    using run by (auto simp: ran_def)
  obtain t1 where t1: "w_ths (wk_world k1) th = Some t1" using pool by (auto simp: poolable_def wk_thread_def)
  let ?et = "wk_time en k1 + io_secs cx secs"
  obtain w' T' where w': "asthread_th_to_iowait th ?et (Some (cx_io_pool cx)) (wk_world k1) = Some w'"
    "pool_is w' (cx_io_pool cx) T'" "addrs T' = ins_after ((et_of (wk_world k1))(th := ?et)) th (addrs T)"
    "w_ths w' = (w_ths (wk_world k1))(th \<mapsto> t1\<lparr>th_et := ?et, th_status := TS_Run, th_pool := Some (cx_io_pool cx)\<rparr>)"
    "others_kept (wk_world k1) (cx_io_pool cx) (insert th (set (addrs T))) w'" "w_res w' = w_res (wk_world k1)"
    "w_ext w' = w_ext (wk_world k1)"
    using iowait_correct [of "wk_world k1" "cx_io_pool cx" T th t1 ?et] pool t1 by (auto simp: poolable_def)
  obtain ret x where ctl: "en_ctl en EP_Mod (cx_epfd cx) (rs_d rr) r (io_events io) (w_ext (wk_world k1)) = (ret, x)" by fastforce
  let ?w = "w'\<lparr>w_res := (if ret = 0 then (w_res w')(r \<mapsto> rr\<lparr>rs_status := RS_Ev\<rparr>) else w_res w'), w_ext := x\<rparr>"
  have "asthread_res_ev_add (en_ctl en) res_fd_f r (cx_epfd cx) (io_events io) w' = Some (ret, ?w)"
    by (rule ev_add_Some) (use w'(6,7) res ctl in \<open>simp_all add: res_fd_f_def\<close>)
  then have code: "thread_resume en cx th args k = Some (k1\<lparr>wk_world := ?w\<rparr>)"
    using t w'(1) by (simp add: thread_resume_def asthread_th_is_stop_def asthread_th_is_ready_def th_yield_for_io_def
        lua_is_def lua_touserdata_def lua_tointeger_def io_secs_def io_events_def on_world_def)
  have keep: "pool_is ?w q S" if "pool_is w' q S" for q S
    by (rule pool_is_cong [OF that]) (simp_all add: et_of_def)
  have "put_in_pool th (cx_io_pool cx) T ?et TS_Run k1 (k1\<lparr>wk_world := ?w\<rparr>)"
    unfolding put_in_pool_def
    using keep [OF w'(2)] w'(3,4) t1 others_kept_trans [OF w'(5) _ keep] by (auto simp: wk_thread_def)
  with code ctl res w'(6) show ?thesis by (intro exI [of _ "k1\<lparr>wk_world := ?w\<rparr>"] exI [of _ ret] exI [of _ x]) auto
qed

lemma resume_sleep:
  assumes run: "ran en th args k (LYield [LInt kind, LInt secs]) k1"
    and kind: "kind = LAS_S_YIELD_FOR_SLEEP \<or> kind = LAS_S_YIELD_FOR_EV" and pool: "poolable th (cx_sleep_pool cx) T k1"
  shows "\<exists>k'. thread_resume en cx th args k = Some k' \<and> w_res (wk_world k') = w_res (wk_world k1)
    \<and> put_in_pool th (cx_sleep_pool cx) T (wk_time en k1 + to_int secs) TS_Sleep k1 k'"
proof -
  obtain t where t: "wk_thread th k = Some t" "th_status t \<noteq> TS_Stop"
    "lua_run en (th_status t = TS_Ready) (th_T t) args k = Some (LYield [LInt kind, LInt secs], k1)"
    using run by (auto simp: ran_def)
  obtain t1 where t1: "w_ths (wk_world k1) th = Some t1" using pool by (auto simp: poolable_def wk_thread_def)
  let ?et = "wk_time en k1 + to_int secs"
  obtain w' T' where w': "asthread_th_to_sleep th ?et (Some (cx_sleep_pool cx)) (wk_world k1) = Some w'"
    "pool_is w' (cx_sleep_pool cx) T'" "addrs T' = ins_after ((et_of (wk_world k1))(th := ?et)) th (addrs T)"
    "w_ths w' = (w_ths (wk_world k1))(th \<mapsto> t1\<lparr>th_et := ?et, th_status := TS_Sleep, th_pool := Some (cx_sleep_pool cx)\<rparr>)"
    "others_kept (wk_world k1) (cx_sleep_pool cx) (insert th (set (addrs T))) w'" "w_res w' = w_res (wk_world k1)"
    using sleep_correct [of "wk_world k1" "cx_sleep_pool cx" T th t1 ?et] pool t1 by (auto simp: poolable_def)
  have code: "thread_resume en cx th args k = Some (k1\<lparr>wk_world := w'\<rparr>)"
    using t w'(1) kind by (auto simp: thread_resume_def asthread_th_is_stop_def asthread_th_is_ready_def th_yield_for_sleep_def
        th_yield_for_ev_def lua_is_def lua_tointeger_def on_world_def)
  moreover have "put_in_pool th (cx_sleep_pool cx) T ?et TS_Sleep k1 (k1\<lparr>wk_world := w'\<rparr>)"
    unfolding put_in_pool_def using w'(2-5) t1 by (auto simp: wk_thread_def)
  ultimately show ?thesis using w'(6) by (intro exI [of _ "k1\<lparr>wk_world := w'\<rparr>"]) simp
qed

text \<open>The results for which a thread goes on.\<close>

definition goes_on :: "lua_result \<Rightarrow> bool" where
  "goes_on ret \<longleftrightarrow> (\<exists>vs. ret = LYield vs \<and> (length vs = 4 \<and> lua_is LAS_S_YIELD_FOR_IO (vs ! 0)
     \<or> length vs = 2 \<and> (lua_is LAS_S_YIELD_FOR_SLEEP (vs ! 0) \<or> lua_is LAS_S_YIELD_FOR_EV (vs ! 0))))"

definition stopped_state :: "addr \<Rightarrow> 'x worker \<Rightarrow> 'x worker" where
  "stopped_state th k = k\<lparr>
     wk_world := (wk_world k)\<lparr>w_ths := (w_ths (wk_world k))(th \<mapsto> (the (wk_thread th k))\<lparr>th_status := TS_Stop, th_pool := None\<rparr>)\<rparr>,
     wk_stop := \<lparr>ta_n = ta_n (wk_stop k) + 1, ta_ths = (ta_ths (wk_stop k))[ta_n (wk_stop k) := Some th]\<rparr>\<rparr>"

lemma to_stop_eq:
  assumes "w_ths w th = Some t"
  shows "asthread_th_to_stop th arr w = (if ta_n arr < length (ta_ths arr)
     then Some (\<lparr>ta_n = ta_n arr + 1, ta_ths = (ta_ths arr)[ta_n arr := Some th]\<rparr>,
                w\<lparr>w_ths := (w_ths w)(th \<mapsto> t\<lparr>th_status := TS_Stop, th_pool := None\<rparr>)\<rparr>)
     else None)"
  using assms by (cases arr) (simp add: asthread_th_to_stop_def set_th_Some asthread_th_add_to_array_def
      asthread_th_del_from_pool_def not_less)

lemma th_to_stop_eq:
  assumes "wk_thread th k = Some t" and "cx_stop_threads cx \<noteq> None"
  shows "th_to_stop cx th k = (if ta_n (wk_stop k) < length (ta_ths (wk_stop k)) then Some (stopped_state th k) else None)"
  using assms to_stop_eq [of "wk_world k" th t "wk_stop k"]
  by (auto simp: th_to_stop_def on_world_def stopped_state_def wk_thread_def)

lemma resume_stops:
  assumes run: "ran en th args k ret k1" and ret: "\<not> goes_on ret" and there: "wk_thread th k1 \<noteq> None" "cx_stop_threads cx \<noteq> None"
  shows "thread_resume en cx th args k =
    (if ta_n (wk_stop k1) < length (ta_ths (wk_stop k1)) then Some (stopped_state th k1) else None)"
proof -
  obtain t where t: "wk_thread th k = Some t" "th_status t \<noteq> TS_Stop"
    "lua_run en (th_status t = TS_Ready) (th_T t) args k = Some (ret, k1)"
    using run by (auto simp: ran_def)
  then have "thread_resume en cx th args k = th_to_stop cx th k1"
    using ret by (cases ret) (auto simp: thread_resume_def asthread_th_is_stop_def asthread_th_is_ready_def goes_on_def)
  with there th_to_stop_eq [of th k1 _ cx] show ?thesis by auto
qed

lemma handlers_ignore_stopped:
  assumes "wk_thread th k = Some t" and "th_status t = TS_Stop"
  shows "thread_resume en cx th args k = Some k" and "p_io_timeout_thread en cx th k = Some k"
    and "p_sleep_thread en cx th k = Some k"
    and "w_res (wk_world k) r = Some rr \<Longrightarrow> rs_th rr = Some th \<Longrightarrow> wake_for_event en cx r f k = Some k"
  using assms by (auto simp: thread_resume_def p_io_timeout_thread_def p_sleep_thread_def wake_for_event_def asthread_th_is_stop_def)

subsection \<open>The properties, and a worker to see them on\<close>

text \<open>
  A kernel and a Lua interpreter of which every call succeeds and which run each thread with the
  same result \<open>ret\<close>; \<open>accept\<close> and \<open>close\<close> act on the outside world.
\<close>

definition demo_env :: "('x \<Rightarrow> int \<times> 'x) \<Rightarrow> (int \<Rightarrow> 'x \<Rightarrow> 'x) \<Rightarrow> lua_result \<Rightarrow> 'x env" where
  "demo_env accept close ret = \<lparr>sc_socket = (\<lambda>x. (3, x)), sc_reuseaddr = (\<lambda>_ x. x), sc_bind = (\<lambda>_ _ x. (0, x)),
     sc_aton = (\<lambda>_. Some 1), sc_connect = (\<lambda>_ _ _ x. (0, x)), sc_close = close, sc_getfl = (\<lambda>_ x. (2, x)),
     sc_setfl = (\<lambda>_ _ x. (0, x)), sc_accept = (\<lambda>_. accept), sc_sendmsg = (\<lambda>_ _ x. (0, x)),
     sc_recvmsg = (\<lambda>_ x. ((0, None), x)), sc_setsnd = (\<lambda>_ _ x. (0, x)), sc_getsnd = (\<lambda>_ x. (None, x)),
     sc_read = (\<lambda>_ _ x. (Inr [], x)), sc_send = (\<lambda>_ d x. (Inr (length d), x)),
     en_ctl = (\<lambda>_ _ _ _ _ x. (0, x)), en_wait = (\<lambda>_ x. ([\<lparr>ev_events = EPOLLIN, ev_res = 5\<rparr>], x)), en_time = (\<lambda>_. 100),
     en_errno = (\<lambda>_. 0), lua_ref = (\<lambda>_ x. (Some 99, x)), lua_unref = (\<lambda>_ _ x. x), lua_set_local = (\<lambda>_ _ x. x), lua_work = (\<lambda>_ k. k),
     lua_run = (\<lambda>_ _ _ k. Some (ret, k))\<rparr>"

definition demo_cx :: worker_ctx where
  "demo_cx = \<lparr>cx_mem_pool = Some 0, cx_io_pool = 10, cx_sleep_pool = 10, cx_stop_threads = Some 6, cx_cfd_res = 5,
     cx_epfd = 9, cx_cfd = 8, cx_conn_timeout = 30\<rparr>"

text \<open>The small world in a worker: thread 3 is ready, resource 20 is its connection.\<close>

definition small_worker :: "addr list worker" where
  "small_worker = \<lparr>wk_world = small_world, wk_mem = small_mem, wk_stop = \<lparr>ta_n = 0, ta_ths = [None, None]\<rparr>\<rparr>"

lemma small_ran: "ran (demo_env accept close ret) 3 args small_worker ret small_worker"
  by (simp add: ran_def small_worker_def small_world_def some_thread_def wk_thread_def demo_env_def)

lemma small_poolable: "poolable 3 10 (Node Black Leaf 1 (Node Red Leaf 2 Leaf)) small_worker"
  using small_pool by (simp add: poolable_def small_worker_def wk_thread_def) (simp add: small_world_def small_tree_def)

text \<open>C13: a thread that yields for input or output on a socket goes into the io pool with the deadline it
  asked for, or the configured one when it asked for a negative time, in order behind every earlier
  deadline, and its socket is registered for exactly the event it waits for.\<close>

theorem resume_waits_for_io:
  assumes "ran en th args k (LYield [LInt LAS_S_YIELD_FOR_IO, LPtr (Some r), LInt io, LInt secs]) k1"
    and "poolable th (cx_io_pool cx) T k1" and "w_res (wk_world k1) r = Some rr"
  shows "\<exists>k' ret x. thread_resume en cx th args k = Some k'
    \<and> put_in_pool th (cx_io_pool cx) T (wk_time en k1 + io_secs cx secs) TS_Run k1 k'
    \<and> en_ctl en EP_Mod (cx_epfd cx) (rs_d rr) r (io_events io) (w_ext (wk_world k1)) = (ret, x)
    \<and> w_ext (wk_world k') = x \<and> w_res (wk_world k') r = Some (if ret = 0 then rr\<lparr>rs_status := RS_Ev\<rparr> else rr)"
  by (rule resume_io [OF assms])

theorem resume_waits_for_io_witness:
  "\<exists>k' T'. thread_resume (demo_env (\<lambda>x. (-1, x)) (\<lambda>_ x. x) (LYield [LInt LAS_S_YIELD_FOR_IO, LPtr (Some 20), LInt 0, LInt (-1)]))
      demo_cx 3 [] small_worker = Some k' \<and> pool_is (wk_world k') 10 T' \<and> addrs T' = [1, 2, 3]
    \<and> map_option th_et (wk_thread 3 k') = Some 130"
proof -
  have res: "w_res (wk_world small_worker) 20 = Some (some_res (Some 21) None RS_Ev (Some 3))"
    by (simp add: small_worker_def small_world_def)
  obtain k' where k': "thread_resume (demo_env (\<lambda>x. (-1, x)) (\<lambda>_ x. x) (LYield [LInt LAS_S_YIELD_FOR_IO, LPtr (Some 20), LInt 0, LInt (-1)]))
      demo_cx 3 [] small_worker = Some k'"
    "put_in_pool 3 10 (Node Black Leaf 1 (Node Red Leaf 2 Leaf)) 130 TS_Run small_worker k'"
    using resume_waits_for_io [where cx = demo_cx, OF small_ran _ res] small_poolable
    by (fastforce simp: demo_cx_def wk_time_def demo_env_def io_secs_def)
  then show ?thesis
    by (auto simp: put_in_pool_def wk_thread_def) (auto simp: small_worker_def small_world_def et_of_def some_thread_def)
qed

text \<open>A thread that yields to sleep, or to wait for the events of its sockets, goes into the sleep pool
  with the deadline it asked for, in order behind every earlier deadline.\<close>

theorem resume_sleeps:
  assumes "ran en th args k (LYield [LInt kind, LInt secs]) k1" and "kind = LAS_S_YIELD_FOR_SLEEP \<or> kind = LAS_S_YIELD_FOR_EV"
    and "poolable th (cx_sleep_pool cx) T k1"
  shows "\<exists>k'. thread_resume en cx th args k = Some k' \<and> w_res (wk_world k') = w_res (wk_world k1)
    \<and> put_in_pool th (cx_sleep_pool cx) T (wk_time en k1 + to_int secs) TS_Sleep k1 k'"
  by (rule resume_sleep [OF assms])

theorem resume_sleeps_witness:
  "\<exists>k' T'. thread_resume (demo_env (\<lambda>x. (-1, x)) (\<lambda>_ x. x) (LYield [LInt LAS_S_YIELD_FOR_SLEEP, LInt (-55)])) demo_cx 3 [] small_worker
      = Some k' \<and> pool_is (wk_world k') 10 T' \<and> addrs T' = [1, 3, 2] \<and> map_option th_status (wk_thread 3 k') = Some TS_Sleep"
proof -
  obtain k' where k': "thread_resume (demo_env (\<lambda>x. (-1, x)) (\<lambda>_ x. x) (LYield [LInt LAS_S_YIELD_FOR_SLEEP, LInt (-55)]))
      demo_cx 3 [] small_worker = Some k'"
    "put_in_pool 3 10 (Node Black Leaf 1 (Node Red Leaf 2 Leaf)) 45 TS_Sleep small_worker k'"
    using resume_sleeps [where cx = demo_cx, OF small_ran disjI1 [OF HOL.refl]] small_poolable
    by (fastforce simp: demo_cx_def wk_time_def demo_env_def)
  then show ?thesis
    by (auto simp: put_in_pool_def wk_thread_def) (auto simp: small_worker_def small_world_def et_of_def some_thread_def)
qed

text \<open>C14: a thread that returns, fails or yields anything else is marked as stopped, leaves its pool without
  being taken out of its tree, and is appended to the array of stopped threads; when the array is
  full the code writes behind it.\<close>

theorem resume_ends:
  assumes "ran en th args k ret k1" and "\<not> goes_on ret" and "wk_thread th k1 \<noteq> None" and "cx_stop_threads cx \<noteq> None"
  shows "thread_resume en cx th args k =
    (if ta_n (wk_stop k1) < length (ta_ths (wk_stop k1)) then Some (stopped_state th k1) else None)"
  by (rule resume_stops [OF assms])

theorem resume_ends_witness:
  "thread_resume (demo_env (\<lambda>x. (-1, x)) (\<lambda>_ x. x) LErr) demo_cx 3 [] small_worker = Some (stopped_state 3 small_worker)"
  using resume_ends [where cx = demo_cx, OF small_ran, of LErr]
  by (simp add: goes_on_def demo_cx_def wk_thread_def small_worker_def small_world_def)

text \<open>C15: a thread that has stopped is never run again: \<open>thread_resume\<close>, the handlers of reading, writing and
  failing sockets and of both kinds of timeouts leave the whole state as it is.\<close>

theorem stopped_never_runs:
  assumes "wk_thread th k = Some t" and "th_status t = TS_Stop" and "w_res (wk_world k) r = Some rr" and "rs_th rr = Some th"
    and "r \<noteq> cx_cfd_res cx"
  shows "thread_resume en cx th args k = Some k \<and> handle_fd_read en cx r k = Some k \<and> handle_fd_write en cx r k = Some k
    \<and> handle_fd_error en cx r k = Some k \<and> p_io_timeout_thread en cx th k = Some k \<and> p_sleep_thread en cx th k = Some k"
  using handlers_ignore_stopped [OF assms(1,2)] assms(3-5)
  by (simp add: handle_fd_read_def handle_fd_write_def handle_fd_error_def)

theorem stopped_never_runs_witness:
  "handle_fd_read (demo_env (\<lambda>x. (-1, x)) (\<lambda>_ x. x) LOk) demo_cx 20 (stopped_state 3 small_worker) = Some (stopped_state 3 small_worker)"
proof -
  obtain t where "wk_thread 3 (stopped_state 3 small_worker) = Some t" "th_status t = TS_Stop"
    by (simp add: stopped_state_def wk_thread_def)
  moreover have "w_res (wk_world (stopped_state 3 small_worker)) 20 = Some (some_res (Some 21) None RS_Ev (Some 3))"
    by (simp add: stopped_state_def small_worker_def small_world_def)
  ultimately show ?thesis using stopped_never_runs [where cx = demo_cx and r = 20] by (fastforce simp: demo_cx_def some_res_def)
qed

end
