(* ===== verification/Worker_Life.thy ===== *)
theory Worker_Life
  imports Worker_Sort
begin

text \<open>
  The life of the threads of a worker: an invariant of its whole state that every handler of
  its loop keeps, whatever the Lua code yields. A block of the memory pool that is seen as a
  thread or as a resource is in use, as one of the two; the resources of a thread are a list of
  their own, with the resource of its connection among them; and the array of stopped threads
  holds each thread that has ended exactly once.
\<close>

subsection \<open>The invariant\<close>

definition stopped :: "'x world \<Rightarrow> addr set" where
  "stopped w = {a. \<exists>t. w_ths w a = Some t \<and> th_status t = TS_Stop}"

definition blocks_ok :: "addr \<Rightarrow> 'x worker \<Rightarrow> bool" where
  "blocks_ok mp k \<longleftrightarrow> pool_ok mp (wk_mem k)
     \<and> dom (w_ths (wk_world k)) \<union> dom (w_res (wk_world k)) \<subseteq> pool_live mp (wk_mem k)
     \<and> dom (w_ths (wk_world k)) \<inter> dom (w_res (wk_world k)) = {}"

definition owns :: "'x world \<Rightarrow> as_thread \<Rightarrow> addr list \<Rightarrow> bool" where
  "owns w t rs \<longleftrightarrow> is_dlist (w_res w) (th_resl t) rs \<and> (\<exists>m. th_mfd_res t = Some m \<and> m \<in> set rs)"

definition owners_ok :: "addr set \<Rightarrow> 'x world \<Rightarrow> bool" where
  "owners_ok A w \<longleftrightarrow> (\<exists>R. (\<forall>a\<in>A. \<forall>t. w_ths w a = Some t \<longrightarrow> owns w t (R a))
     \<and> (\<forall>a\<in>A \<inter> dom (w_ths w). \<forall>b\<in>A \<inter> dom (w_ths w). a \<noteq> b \<longrightarrow> set (R a) \<inter> set (R b) = {}))"

definition stop_ok :: "addr list \<Rightarrow> th_array \<Rightarrow> bool" where
  "stop_ok ys arr \<longleftrightarrow> ta_n arr = length ys \<and> take (length ys) (ta_ths arr) = map Some ys \<and> distinct ys"

definition worker_ok :: "addr \<Rightarrow> addr list \<Rightarrow> 'x worker \<Rightarrow> bool" where
  "worker_ok mp ys k \<longleftrightarrow> blocks_ok mp k \<and> owners_ok UNIV (wk_world k) \<and> stop_ok ys (wk_stop k)
     \<and> stopped (wk_world k) = set ys"

text \<open>The invariant without the array; \<open>A\<close> are the threads whose lists are complete.\<close>

definition core_ok :: "addr set \<Rightarrow> addr \<Rightarrow> addr set \<Rightarrow> 'x worker \<Rightarrow> bool" where
  "core_ok A mp S k \<longleftrightarrow> blocks_ok mp k \<and> owners_ok A (wk_world k) \<and> stopped (wk_world k) = S"

lemma worker_ok_core: "worker_ok mp ys k \<longleftrightarrow> core_ok UNIV mp (set ys) k \<and> stop_ok ys (wk_stop k)"
  by (auto simp: worker_ok_def core_ok_def)

subsection \<open>Steps that change nothing the invariant sees\<close>

definition th_view :: "as_thread \<Rightarrow> bool \<times> dlist \<times> ptr" where
  "th_view t = (th_status t = TS_Stop, th_resl t, th_mfd_res t)"

definition link_view :: "as_res \<Rightarrow> ptr \<times> ptr" where
  "link_view r = (dl_next r, dl_prev r)"

definition quiet_w :: "'x world \<Rightarrow> 'x world \<Rightarrow> bool" where
  "quiet_w w w' \<longleftrightarrow> (\<forall>a. map_option th_view (w_ths w' a) = map_option th_view (w_ths w a))
     \<and> (\<forall>a. map_option link_view (w_res w' a) = map_option link_view (w_res w a))"

definition quiet :: "'x worker \<Rightarrow> 'x worker \<Rightarrow> bool" where
  "quiet k k' \<longleftrightarrow> wk_mem k' = wk_mem k \<and> wk_stop k' = wk_stop k \<and> quiet_w (wk_world k) (wk_world k')"

named_theorems quiets \<open>operations that are quiet\<close>

lemma quiet_w_refl [simp, quiets]: "quiet_w w w"
  by (simp add: quiet_w_def)

lemma quiet_w_trans [trans]: "quiet_w w1 w2 \<Longrightarrow> quiet_w w2 w3 \<Longrightarrow> quiet_w w1 w3"
  by (simp add: quiet_w_def)

lemma quiet_refl [simp]: "quiet k k"
  by (simp add: quiet_def)

lemma quiet_trans [trans]: "quiet k1 k2 \<Longrightarrow> quiet k2 k3 \<Longrightarrow> quiet k1 k3"
  by (auto simp: quiet_def intro: quiet_w_trans)

lemma map_option_dom: "(\<And>a. map_option f (h' a) = map_option f (h a)) \<Longrightarrow> dom h' = dom h"
  by (auto simp: dom_def) (metis option.map_disc_iff not_None_eq)+

lemma quiet_w_dom:
  assumes "quiet_w w w'"
  shows "dom (w_ths w') = dom (w_ths w)" and "dom (w_res w') = dom (w_res w)"
  using assms by (auto simp: quiet_w_def intro!: map_option_dom)

lemma quiet_w_thread:
  assumes "quiet_w w w'" and "w_ths w' a = Some t'"
  obtains t where "w_ths w a = Some t" "th_view t' = th_view t"
proof -
  from assms have "map_option th_view (w_ths w a) = Some (th_view t')" by (metis quiet_w_def option.simps(9))
  with that show thesis by auto
qed

lemma quiet_w_stopped:
  assumes "quiet_w w w'"
  shows "stopped w' = stopped w"
proof -
  have "a \<in> stopped w \<longleftrightarrow> (\<exists>v. map_option th_view (w_ths w a) = Some v \<and> fst v)" for a and w :: "'a world"
    by (auto simp: stopped_def th_view_def)
  with assms show ?thesis unfolding quiet_w_def by (metis set_eqI)
qed

lemma dseg_links:
  assumes "\<And>a. map_option link_view (h' a) = map_option link_view (h a)"
  shows "dseg h pr xs nx \<Longrightarrow> dseg h' pr xs nx"
proof (induction xs arbitrary: pr)
  case (Cons a xs)
  then obtain n where n: "h a = Some n" "dl_prev n = pr" "dl_next n = hd_ptr xs nx" by auto
  with assms [of a] obtain n' where "h' a = Some n'" "link_view n' = link_view n" by auto
  with n Cons show ?case by (auto simp: link_view_def)
qed simp

lemma quiet_w_lists:
  assumes "quiet_w w w'" and "owners_ok A w"
  shows "owners_ok A w'"
proof -
  obtain R where R: "\<And>a t. a \<in> A \<Longrightarrow> w_ths w a = Some t \<Longrightarrow> owns w t (R a)"
    "\<forall>a\<in>A \<inter> dom (w_ths w). \<forall>b\<in>A \<inter> dom (w_ths w). a \<noteq> b \<longrightarrow> set (R a) \<inter> set (R b) = {}"
    using assms(2) unfolding owners_ok_def by blast
  have links: "map_option link_view (w_res w' a) = map_option link_view (w_res w a)" for a
    using assms(1) by (simp add: quiet_w_def)
  have "owns w' t' (R a)" if a: "a \<in> A" "w_ths w' a = Some t'" for a t'
  proof -
    obtain t where "w_ths w a = Some t" "th_view t' = th_view t" by (rule quiet_w_thread [OF assms(1) a(2)])
    with R(1) [OF a(1)] dseg_links [OF links] show ?thesis by (auto simp: owns_def th_view_def is_dlist_def)
  qed
  with R(2) show ?thesis unfolding owners_ok_def quiet_w_dom(1) [OF assms(1)] by (intro exI [of _ R]) blast
qed

lemma quiet_blocks: "quiet k k' \<Longrightarrow> blocks_ok mp k \<Longrightarrow> blocks_ok mp k'"
  by (simp add: quiet_def blocks_ok_def quiet_w_dom [of "wk_world k" "wk_world k'"])

lemma quiet_ok: "quiet k k' \<Longrightarrow> worker_ok mp ys k \<Longrightarrow> worker_ok mp ys k'"
  using quiet_blocks [of k k' mp] quiet_w_lists [of "wk_world k" "wk_world k'" UNIV] quiet_w_stopped
  by (auto simp: quiet_def worker_ok_def)

lemma on_world_quiet:
  assumes "on_world f k = Some (r, k')" and "\<And>w'. f (wk_world k) = Some (r, w') \<Longrightarrow> quiet_w (wk_world k) w'"
  shows "quiet k k'"
  using assms by (auto simp: on_world_def quiet_def)

lemma on_ext_quiet: "quiet k (on_ext f k)"
  by (simp add: on_ext_def quiet_def quiet_w_def)

lemma quiet_w_upd [simp]:
  "quiet_w w (w'\<lparr>w_ext := x\<rparr>) = quiet_w w w'" "quiet_w w (w'\<lparr>w_nodes := n\<rparr>) = quiet_w w w'"
  "quiet_w w (w'\<lparr>w_pools := p\<rparr>) = quiet_w w w'" "quiet_w w (w'\<lparr>w_cur_tid := c\<rparr>) = quiet_w w w'"
  by (simp_all add: quiet_w_def)

lemma set_res_quiet:
  assumes "set_res u p w = Some w'" and "\<And>r. link_view (u r) = link_view r"
  shows "quiet_w w w'"
  using assms by (auto simp: set_res_def modify_eq_Some quiet_w_def)

lemma set_th_quiet:
  assumes "set_th u p w = Some w'" and "\<And>a t. p = Some a \<Longrightarrow> w_ths w a = Some t \<Longrightarrow> th_view (u t) = th_view t"
  shows "quiet_w w w'"
  using assms by (auto simp: set_th_def modify_eq_Some quiet_w_def)

lemma on_pool_quiet: "on_pool p f w = Some (r, w') \<Longrightarrow> quiet_w w w'"
  by (auto simp: on_pool_def bind_eq_Some_conv)

lemma ev_ctl_quiet:
  assumes "res_ev_ctl ctl fdf op events st res epfd w = Some (ret, w')"
  shows "quiet_w w w'"
proof -
  obtain r where r: "w_res w res = Some r" using assms by (auto simp: res_ev_ctl_def bind_eq_Some_conv)
  obtain ret' x where "ctl op epfd (fdf (rs_fdf r) (rs_d r)) res events (w_ext w) = (ret', x)" by fastforce
  with assms r show ?thesis
    by (auto simp: res_ev_ctl_def set_res_Some quiet_w_def link_view_def Let_def split: if_splits)
qed

lemma ev_del_quiet: "asthread_res_ev_del ctl fdf res epfd w = Some (ret, w') \<Longrightarrow> quiet_w w w'"
  by (auto simp: asthread_res_ev_del_def bind_eq_Some_conv split: if_splits dest: ev_ctl_quiet)

lemma travel_preserves:
  assumes "dlist_pos_travel st func n s = Some s'" and "P s" and "\<And>a s s'. func a s = Some s' \<Longrightarrow> P s \<Longrightarrow> P s'"
  shows "P s'"
proof -
  have "(\<forall>a s s'. func a s = Some s' \<longrightarrow> P s \<longrightarrow> P s') \<longrightarrow> P s \<longrightarrow> P s'"
    by (rule dlist_pos_travel.raw_induct
        [of "\<lambda>st func n s s'. (\<forall>a s s'. func a s = Some s' \<longrightarrow> P s \<longrightarrow> P s') \<longrightarrow> P s \<longrightarrow> P s'", OF _ assms(1)])
      (auto simp: bind_eq_Some_conv split: option.splits)
  with assms(2,3) show ?thesis by blast
qed

lemma remove_res_quiet:
  assumes "asthread_remove_res_from_epfd ctl fdf th epfd w = Some w'"
  shows "quiet_w w w'"
proof -
  obtain t :: as_thread where t: "dlist_pos_travel w_res (\<lambda>a w. map_option snd (asthread_res_ev_del ctl fdf a epfd w)) (dl_head (th_resl t)) w = Some w'"
    using assms unfolding asthread_remove_res_from_epfd_def bind_eq_Some_conv by blast
  show ?thesis
    by (rule travel_preserves [OF t, of "quiet_w w"]) (auto dest!: ev_del_quiet intro: quiet_w_trans)
qed

lemma th_remove_quiet: "th_remove_res_from_epfd en th epfd k = Some (r, k') \<Longrightarrow> quiet k k'"
  by (auto simp: th_remove_res_from_epfd_def bind_eq_Some_conv dest: remove_res_quiet intro: on_world_quiet split: if_splits)

lemma del_from_pool_quiet: "asthread_th_del_from_pool th w = Some (r, w') \<Longrightarrow> quiet_w w w'"
  by (auto simp: asthread_th_del_from_pool_def bind_eq_Some_conv th_view_def split: if_splits
      dest!: on_pool_quiet set_th_quiet intro: quiet_w_trans)

lemma add_to_pool_quiet:
  assumes "asthread_th_add_to_pool th p w = Some (r, w')"
  shows "quiet_w w w'"
proof (cases "\<exists>t. w_ths w th = Some t \<and> p \<noteq> None \<and> th_status t \<noteq> TS_Stop")
  case True
  then obtain w1 w2 u1 u2 where "set_th (th_pool_update (\<lambda>_. p)) (Some th) w = Some w1"
    "on_pool p (unit_op (rb_tree_insert (node_et_lt w1) th)) w1 = Some (u1, w2)"
    "on_pool p (unit_op (rb_tree_insert_case (Some th))) w2 = Some (u2, w')"
    using assms by (auto simp: asthread_th_add_to_pool_def bind_eq_Some_conv split: if_splits)
  then show ?thesis
    by (auto simp: th_view_def dest!: on_pool_quiet set_th_quiet intro: quiet_w_trans)
next
  case False
  with assms show ?thesis by (auto simp: asthread_th_add_to_pool_def bind_eq_Some_conv split: if_splits)
qed

subsection \<open>Resuming a thread\<close>

text \<open>
  What is asked of Lua. The code it runs keeps the invariant, and stops no thread itself. A call
  from the worker may allocate, give back, and collect sockets, so that resources go and lists of
  resources get shorter; it keeps the invariant too, and changes no pool of threads and nothing
  else of a thread (\<open>unlisted\<close>) nor of the resource of a connection (\<open>conn_view\<close>).
\<close>

definition unlisted :: "as_thread \<Rightarrow> as_thread" where
  "unlisted t = t\<lparr>th_resl := dlist_init dlist_empty\<rparr>"

definition conn_view :: "as_res \<Rightarrow> nat option \<times> ptr \<times> int" where
  "conn_view r = (rs_freef r, rs_th r, rs_d r)"

definition lua_frame :: "'x worker \<Rightarrow> 'x worker \<Rightarrow> bool" where
  "lua_frame k k' \<longleftrightarrow> wk_stop k' = wk_stop k \<and> oom (wk_mem k') = oom (wk_mem k)
     \<and> w_nodes (wk_world k') = w_nodes (wk_world k) \<and> w_pools (wk_world k') = w_pools (wk_world k)
     \<and> w_cur_tid (wk_world k') = w_cur_tid (wk_world k)
     \<and> (\<forall>a. map_option unlisted (w_ths (wk_world k') a) = map_option unlisted (w_ths (wk_world k) a))
     \<and> (\<forall>a t m. w_ths (wk_world k) a = Some t \<longrightarrow> th_mfd_res t = Some m
           \<longrightarrow> map_option conn_view (w_res (wk_world k') m) = map_option conn_view (w_res (wk_world k) m))"

definition calls_keep :: "'x env \<Rightarrow> addr \<Rightarrow> bool" where
  "calls_keep en mp \<longleftrightarrow> (\<forall>c A S k. core_ok A mp S k \<longrightarrow> core_ok A mp S (lua_work en c k) \<and> lua_frame k (lua_work en c k))"

definition lua_keeps :: "'x env \<Rightarrow> addr \<Rightarrow> bool" where
  "lua_keeps en mp \<longleftrightarrow> (\<forall>b T args k ret k' ys. worker_ok mp ys k \<longrightarrow>
     lua_run en b T args k = Some (ret, k') \<longrightarrow> worker_ok mp ys k') \<and> calls_keep en mp"

lemma calls_keepD:
  assumes "calls_keep en mp" and "core_ok A mp S k"
  shows "core_ok A mp S (lua_work en c k)" and "lua_frame k (lua_work en c k)"
  using assms by (simp_all add: calls_keep_def)

lemma lua_frame_thread:
  assumes "lua_frame k k'" and "w_ths (wk_world k) a = Some t"
  obtains t' where "w_ths (wk_world k') a = Some t'" "unlisted t' = unlisted t"
proof -
  from assms have "map_option unlisted (w_ths (wk_world k') a) = Some (unlisted t)" unfolding lua_frame_def by simp
  with that show thesis by auto
qed

lemma unlisted_fields:
  assumes "unlisted t' = unlisted t"
  shows "th_tid t' = th_tid t" "th_T t' = th_T t" "th_et t' = th_et t" "th_pool t' = th_pool t" "th_status t' = th_status t"
    "th_mode t' = th_mode t" "th_mfd_res t' = th_mfd_res t"
  using assms unfolding unlisted_def by (cases t; cases t'; simp)+

lemma lua_frame_conn:
  assumes "lua_frame k k'" and "w_ths (wk_world k) a = Some t" and "th_mfd_res t = Some m"
  shows "map_option conn_view (w_res (wk_world k') m) = map_option conn_view (w_res (wk_world k) m)"
  using assms unfolding lua_frame_def by blast

lemma lua_frame_refl [simp]: "lua_frame k k"
  by (simp add: lua_frame_def)

text \<open>
  The invariant with the array, whatever it holds; without an array no thread has ended.
\<close>

definition threads_ok :: "worker_ctx \<Rightarrow> addr \<Rightarrow> 'x worker \<Rightarrow> bool" where
  "threads_ok cx mp k \<longleftrightarrow> (\<exists>ys. worker_ok mp ys k \<and> (cx_stop_threads cx = None \<longrightarrow> ys = []))"

lemma threads_okI [intro?]: "worker_ok mp ys k \<Longrightarrow> (cx_stop_threads cx = None \<Longrightarrow> ys = []) \<Longrightarrow> threads_ok cx mp k"
  unfolding threads_ok_def by (intro exI conjI impI)

lemma quiet_threads: "quiet k k' \<Longrightarrow> threads_ok cx mp k \<Longrightarrow> threads_ok cx mp k'"
  unfolding threads_ok_def by (elim exE conjE) (intro exI conjI, rule quiet_ok)

lemma to_pool_quiet:
  assumes "(do { w \<leftarrow> set_th (th_et_update (\<lambda>_. et)) (Some n) w;
           w \<leftarrow> set_th (th_status_update (\<lambda>_. st)) (Some n) w;
           (_, w) \<leftarrow> asthread_th_add_to_pool n p w;
           Some w }) = Some w'"
    and "st \<noteq> TS_Stop" and "n \<notin> stopped w"
  shows "quiet_w w w'"
proof -
  obtain w1 w2 r where w: "set_th (th_et_update (\<lambda>_. et)) (Some n) w = Some w1"
    "set_th (th_status_update (\<lambda>_. st)) (Some n) w1 = Some w2" "asthread_th_add_to_pool n p w2 = Some (r, w')"
    using assms(1) by (auto simp: bind_eq_Some_conv)
  have one: "quiet_w w w1" by (rule set_th_quiet [OF w(1)]) (simp add: th_view_def)
  then have "n \<notin> stopped w1" using assms(3) by (simp add: quiet_w_stopped)
  then have "quiet_w w1 w2" using assms(2) by (intro set_th_quiet [OF w(2)]) (simp add: th_view_def stopped_def)
  from quiet_w_trans [OF quiet_w_trans [OF one this] add_to_pool_quiet [OF w(3)]] show ?thesis .
qed

lemma iowait_quiet: "asthread_th_to_iowait n et p w = Some w' \<Longrightarrow> n \<notin> stopped w \<Longrightarrow> quiet_w w w'"
  using to_pool_quiet [where st = TS_Run and et = et and n = n and p = p and w = w and w' = w'] by (simp add: asthread_th_to_iowait_def)

lemma sleep_quiet: "asthread_th_to_sleep n et p w = Some w' \<Longrightarrow> n \<notin> stopped w \<Longrightarrow> quiet_w w w'"
  using to_pool_quiet [where st = TS_Sleep and et = et and n = n and p = p and w = w and w' = w'] by (simp add: asthread_th_to_sleep_def)

lemma yield_for_io_quiet:
  assumes "th_yield_for_io en cx th vs k = Some k'" and "th \<notin> stopped (wk_world k)"
  shows "quiet k k'"
proof -
  obtain et k1 r ret events where
    k1: "on_world (\<lambda>w. map_option (Pair ()) (asthread_th_to_iowait th et (Some (cx_io_pool cx)) w)) k = Some ((), k1)"
    and k': "on_world (asthread_res_ev_add (en_ctl en) res_fd_f r (cx_epfd cx) events) k1 = Some (ret, k')"
    using assms(1) by (auto simp: th_yield_for_io_def bind_eq_Some_conv Let_def)
  have "quiet k k1" by (rule on_world_quiet [OF k1]) (use assms(2) in \<open>auto intro: iowait_quiet\<close>)
  moreover have "quiet k1 k'"
    by (rule on_world_quiet [OF k']) (auto simp: asthread_res_ev_add_def dest: ev_ctl_quiet)
  ultimately show ?thesis by (rule quiet_trans)
qed

lemma yield_for_sleep_quiet:
  assumes "th_yield_for_sleep en cx th vs k = Some k' \<or> th_yield_for_ev en cx th vs k = Some k'"
    and "th \<notin> stopped (wk_world k)"
  shows "quiet k k'"
proof -
  obtain et where
    k': "on_world (\<lambda>w. map_option (Pair ()) (asthread_th_to_sleep th et (Some (cx_sleep_pool cx)) w)) k = Some ((), k')"
    using assms(1) by (auto simp: th_yield_for_sleep_def th_yield_for_ev_def bind_eq_Some_conv Let_def)
  show ?thesis by (rule on_world_quiet [OF k']) (use assms(2) in \<open>auto intro: sleep_quiet\<close>)
qed

lemma stop_ok_snoc:
  assumes "stop_ok ys arr" and "th \<notin> set ys" and "ta_n arr < length (ta_ths arr)"
  shows "stop_ok (ys @ [th]) \<lparr>ta_n = ta_n arr + 1, ta_ths = (ta_ths arr)[ta_n arr := Some th]\<rparr>"
  using assms by (auto simp: stop_ok_def take_Suc_conv_app_nth)

lemma owners_ok_status:
  assumes "owners_ok A w" and "w_ths w th = Some t"
  shows "owners_ok A (w\<lparr>w_ths := (w_ths w)(th \<mapsto> t\<lparr>th_status := st, th_pool := p\<rparr>)\<rparr>)"
proof -
  let ?w = "w\<lparr>w_ths := (w_ths w)(th \<mapsto> t\<lparr>th_status := st, th_pool := p\<rparr>)\<rparr>"
  have "dom (w_ths ?w) = dom (w_ths w)" using assms(2) by auto
  moreover have "owns ?w s = owns w s" for s by (simp add: owns_def fun_eq_iff)
  moreover have "owns w (t\<lparr>th_status := st, th_pool := p\<rparr>) = owns w t" by (simp add: owns_def fun_eq_iff)
  moreover obtain R where "\<forall>a\<in>A. \<forall>t. w_ths w a = Some t \<longrightarrow> owns w t (R a)"
    "\<forall>a\<in>A \<inter> dom (w_ths w). \<forall>b\<in>A \<inter> dom (w_ths w). a \<noteq> b \<longrightarrow> set (R a) \<inter> set (R b) = {}"
    using assms(1) unfolding owners_ok_def by blast
  ultimately show ?thesis using assms(2) unfolding owners_ok_def by (intro exI [of _ R]) auto
qed

lemma th_to_stop_ok:
  assumes "worker_ok mp ys k" and "th \<notin> set ys" and "th_to_stop cx th k = Some k'"
  shows "worker_ok mp (ys @ [th]) k'"
proof -
  obtain t where t: "w_ths (wk_world k) th = Some t" "cx_stop_threads cx \<noteq> None"
    using assms(3) by (auto simp: th_to_stop_def on_world_def asthread_th_to_stop_def set_th_def modify_eq_Some bind_eq_Some_conv)
  then have k': "k' = stopped_state th k" "ta_n (wk_stop k) < length (ta_ths (wk_stop k))"
    using assms(3) th_to_stop_eq [of th k t cx] by (auto simp: wk_thread_def split: if_splits)
  have "dom ((w_ths (wk_world k))(th \<mapsto> v)) = dom (w_ths (wk_world k))" for v using t(1) by auto
  then have "blocks_ok mp k'" using assms(1) unfolding k'(1) by (simp add: worker_ok_def blocks_ok_def stopped_state_def)
  moreover have "stopped (wk_world k') = insert th (stopped (wk_world k))"
    by (auto simp: k'(1) stopped_state_def stopped_def split: if_splits)
  moreover have "owners_ok UNIV (wk_world k')"
    using owners_ok_status [of UNIV "wk_world k" th t] assms(1) t(1)
    by (simp add: k'(1) stopped_state_def worker_ok_def wk_thread_def)
  moreover have "stop_ok (ys @ [th]) (wk_stop k')"
    using stop_ok_snoc [of ys "wk_stop k" th] assms(1,2) k' by (simp add: worker_ok_def stopped_state_def)
  ultimately show ?thesis using assms(1) by (simp add: worker_ok_def)
qed

lemma thread_resume_ok:
  assumes "lua_keeps en mp" and "threads_ok cx mp k" and "thread_resume en cx th args k = Some k'"
  shows "threads_ok cx mp k'"
proof -
  obtain t where t: "wk_thread th k = Some t" using assms(3) by (auto simp: thread_resume_def bind_eq_Some_conv)
  show ?thesis
  proof (cases "th_status t = TS_Stop")
    case True
    with t assms show ?thesis by (auto simp: thread_resume_def asthread_th_is_stop_def)
  next
    case False
    with t assms(3) obtain ret k1 where run: "lua_run en (asthread_th_is_ready t) (th_T t) args k = Some (ret, k1)"
      unfolding thread_resume_def by (auto simp: asthread_th_is_stop_def bind_eq_Some_conv)
    have out: "(\<exists>vs. th_yield_for_io en cx th vs k1 = Some k' \<or> th_yield_for_sleep en cx th vs k1 = Some k'
        \<or> th_yield_for_ev en cx th vs k1 = Some k') \<or> th_to_stop cx th k1 = Some k'"
      using assms(3) t False run
      by (simp add: thread_resume_def asthread_th_is_stop_def split: lua_result.splits if_splits) blast+
    obtain ys where ys: "worker_ok mp ys k" "cx_stop_threads cx = None \<longrightarrow> ys = []" using assms(2) by (auto simp: threads_ok_def)
    have k1: "worker_ok mp ys k1" using assms(1) ys(1) run unfolding lua_keeps_def by blast
    then have at1: "threads_ok cx mp k1" using ys(2) by (auto simp: threads_ok_def)
    have "th \<notin> stopped (wk_world k)" using t False by (simp add: stopped_def wk_thread_def)
    then have th: "th \<notin> set ys" using ys(1) by (simp add: worker_ok_def)
    then have "th \<notin> stopped (wk_world k1)" using k1 by (simp add: worker_ok_def)
    with out at1 have "threads_ok cx mp k' \<or> th_to_stop cx th k1 = Some k'"
      by (meson quiet_threads yield_for_io_quiet yield_for_sleep_quiet)
    moreover have "threads_ok cx mp k'" if stop: "th_to_stop cx th k1 = Some k'"
    proof
      show "worker_ok mp (ys @ [th]) k'" by (rule th_to_stop_ok [OF k1 th stop])
      show "ys @ [th] = []" if "cx_stop_threads cx = None" using stop that by (simp add: th_to_stop_def)
    qed
    ultimately show ?thesis by blast
  qed
qed

subsection \<open>Events and timeouts\<close>

lemma wake_for_event_ok:
  assumes "lua_keeps en mp" and "threads_ok cx mp k" and "wake_for_event en cx res args k = Some k'"
  shows "threads_ok cx mp k'"
proof -
  obtain r th t where r: "w_res (wk_world k) res = Some r" "rs_th r = Some th" "wk_thread th k = Some t"
    using assms(3) by (auto simp: wake_for_event_def bind_eq_Some_conv)
  show ?thesis
  proof (cases "asthread_th_is_stop t")
    case True
    with r assms(2,3) show ?thesis by (auto simp: wake_for_event_def)
  next
    case False
    with r assms(3) obtain r1 k1 r2 k2 as where k: "on_world (asthread_th_del_from_pool th) k = Some (r1, k1)"
      "th_remove_res_from_epfd en th (cx_epfd cx) k1 = Some (r2, k2)" "thread_resume en cx th as k2 = Some k'"
      unfolding wake_for_event_def by (auto simp: bind_eq_Some_conv)
    have "quiet k k1" by (rule on_world_quiet [OF k(1)]) (rule del_from_pool_quiet)
    then have "quiet k k2" using th_remove_quiet [OF k(2)] by (rule quiet_trans)
    from thread_resume_ok [OF assms(1) quiet_threads [OF this assms(2)] k(3)] show ?thesis .
  qed
qed

lemma on_ext_ok: "threads_ok cx mp k \<Longrightarrow> threads_ok cx mp (on_ext f k)"
  by (rule quiet_threads [OF on_ext_quiet])

lemma fd_handlers_ok:
  assumes "lua_keeps en mp" and "threads_ok cx mp k"
  shows "handle_fd_read en cx res k = Some k' \<Longrightarrow> threads_ok cx mp k'"
    and "handle_fd_write en cx res k = Some k' \<Longrightarrow> threads_ok cx mp k'"
    and "handle_fd_error en cx res k = Some k' \<Longrightarrow> threads_ok cx mp k'"
  using wake_for_event_ok [OF assms]
  by (auto simp: handle_fd_read_def handle_fd_write_def handle_fd_error_def bind_eq_Some_conv split: if_splits
      intro: on_ext_ok [OF assms(2)])

lemma postorder_preserves:
  assumes "postorder_loop func p ts = Some ts'" and "P (snd ts)"
    and "\<And>a t s t' s'. func a (t, s) = Some (t', s') \<Longrightarrow> P s \<Longrightarrow> P s'"
  shows "P (snd ts')"
proof -
  have "(\<forall>a t s t' s'. func a (t, s) = Some (t', s') \<longrightarrow> P s \<longrightarrow> P s') \<longrightarrow> P (snd ts) \<longrightarrow> P (snd ts')"
    by (rule postorder_loop.raw_induct
        [of "\<lambda>func p ts ts'. (\<forall>a t s t' s'. func a (t, s) = Some (t', s') \<longrightarrow> P s \<longrightarrow> P s') \<longrightarrow> P (snd ts) \<longrightarrow> P (snd ts')", OF _ assms(1)])
      (fastforce simp: bind_eq_Some_conv split: option.splits if_splits)
  with assms(2,3) show ?thesis by blast
qed

lemma nodes_quiet: "quiet k (k\<lparr>wk_world := (wk_world k)\<lparr>w_nodes := n\<rparr>\<rparr>)"
  by (simp add: quiet_def)

lemma travel_threads_ok:
  assumes "travel_threads f p k = Some k'" and "threads_ok cx mp k"
    and f: "\<And>a k k'. f a k = Some k' \<Longrightarrow> threads_ok cx mp k \<Longrightarrow> threads_ok cx mp k'"
  shows "threads_ok cx mp k'"
proof -
  let ?P = "threads_ok cx mp"
  obtain t k1 where k1: "postorder_loop (\<lambda>a (t, k). map_option (\<lambda>k. (\<lparr>rb_mem = w_nodes (wk_world k), rb_root = rb_root t\<rparr>, k))
        (f a (k\<lparr>wk_world := (wk_world k)\<lparr>w_nodes := rb_mem t\<rparr>\<rparr>)))
      p (\<lparr>rb_mem = w_nodes (wk_world k), rb_root = None\<rparr>, k) = Some (t, k1)"
    "k' = k1\<lparr>wk_world := (wk_world k1)\<lparr>w_nodes := rb_mem t\<rparr>\<rparr>"
    using assms(1) by (auto simp: travel_threads_def)
  have "?P (snd (t, k1))"
    by (rule postorder_preserves [OF k1(1)]) (use assms(2) in \<open>auto dest!: f intro: quiet_threads [OF nodes_quiet]\<close>)
  then show ?thesis unfolding k1(2) by (auto intro: quiet_threads [OF nodes_quiet])
qed

lemma timeouts_ok:
  assumes "lua_keeps en mp" and "threads_ok cx mp k"
  shows "process_io_timeout en cx k = Some k' \<Longrightarrow> threads_ok cx mp k'"
    and "process_sleep en cx k = Some k' \<Longrightarrow> threads_ok cx mp k'"
proof -
  have io: "threads_ok cx mp k'" if "p_io_timeout_thread en cx a k = Some k'" "threads_ok cx mp k" for a k k'
  proof -
    from that(1) obtain t where t: "wk_thread a k = Some t" by (auto simp: p_io_timeout_thread_def bind_eq_Some_conv)
    show ?thesis
    proof (cases "asthread_th_is_stop t")
      case True
      with t that show ?thesis by (auto simp: p_io_timeout_thread_def)
    next
      case False
      with t that(1) obtain r k1 where k1: "th_remove_res_from_epfd en a (cx_epfd cx) k = Some (r, k1)"
        "thread_resume en cx a [LInt LAS_S_RESUME_IO_TIMEOUT] k1 = Some k'"
        by (auto simp: p_io_timeout_thread_def bind_eq_Some_conv)
      from thread_resume_ok [OF assms(1) quiet_threads [OF th_remove_quiet [OF k1(1)] that(2)] k1(2)] show ?thesis .
    qed
  qed
  have sl: "threads_ok cx mp k'" if "p_sleep_thread en cx a k = Some k'" "threads_ok cx mp k" for a k k'
  proof -
    from that(1) obtain t where t: "wk_thread a k = Some t" by (auto simp: p_sleep_thread_def bind_eq_Some_conv)
    with that thread_resume_ok [OF assms(1) that(2), of a] show ?thesis
      by (cases "asthread_th_is_stop t") (auto simp: p_sleep_thread_def)
  qed
  have first: "threads_ok cx mp k1" if "on_world (asthread_remove_timeout_threads now p) k = Some (tr, k1)" for now p tr k1
    by (rule quiet_threads [OF on_world_quiet [OF that] assms(2)]) (auto simp: asthread_remove_timeout_threads_def dest: on_pool_quiet)
  show "threads_ok cx mp k'" if "process_io_timeout en cx k = Some k'"
  proof -
    from that obtain tr k1 where k1: "on_world (asthread_remove_timeout_threads (wk_time en k) (Some (cx_io_pool cx))) k = Some (tr, k1)"
      "travel_threads (p_io_timeout_thread en cx) tr k1 = Some k'" by (auto simp: process_io_timeout_def bind_eq_Some_conv)
    show ?thesis by (rule travel_threads_ok [OF k1(2) first [OF k1(1)]]) (rule io)
  qed
  show "threads_ok cx mp k'" if "process_sleep en cx k = Some k'"
  proof -
    from that obtain tr k1 where k1: "on_world (asthread_remove_timeout_threads (wk_time en k) (Some (cx_sleep_pool cx))) k = Some (tr, k1)"
      "travel_threads (p_sleep_thread en cx) tr k1 = Some k'" by (auto simp: process_sleep_def bind_eq_Some_conv)
    show ?thesis by (rule travel_threads_ok [OF k1(2) first [OF k1(1)]]) (rule sl)
  qed
qed

subsection \<open>Blocks come and go\<close>

lemma quiet_core: "quiet k k' \<Longrightarrow> core_ok A mp S k \<Longrightarrow> core_ok A mp S k'"
  using quiet_blocks [of k k' mp] quiet_w_lists [of "wk_world k" "wk_world k'" A] quiet_w_stopped
  by (auto simp: quiet_def core_ok_def)

abbreviation live :: "addr \<Rightarrow> 'x worker \<Rightarrow> addr set" where
  "live mp k \<equiv> pool_live mp (wk_mem k)"

definition no_oom :: "'x worker \<Rightarrow> bool" where
  "no_oom k \<longleftrightarrow> (\<forall>n. \<not> oom (wk_mem k) n)"

lemma sizes_ok [simp]: "pool_size_ok sizeof_thread" "pool_size_ok sizeof_thread_res_int"
  by (simp_all add: pool_size_ok_def sizeof_thread_def sizeof_thread_res_int_def)

lemma owners_ok_drop:
  assumes "owners_ok (- {a}) w" and "w_ths w' = (w_ths w)(a := None)" and "w_res w' = w_res w"
  shows "owners_ok UNIV w'"
proof -
  obtain R where R: "\<forall>b\<in>- {a}. \<forall>t. w_ths w b = Some t \<longrightarrow> owns w t (R b)"
    "\<forall>b\<in>- {a} \<inter> dom (w_ths w). \<forall>c\<in>- {a} \<inter> dom (w_ths w). b \<noteq> c \<longrightarrow> set (R b) \<inter> set (R c) = {}"
    using assms(1) unfolding owners_ok_def by blast
  have "owns w' = owns w" by (intro ext) (simp add: owns_def assms(3))
  with R assms(2) show ?thesis unfolding owners_ok_def by (intro exI [of _ R]) auto
qed

lemma owners_ok_grow:
  assumes "owners_ok UNIV w" and "w_ths w' = (w_ths w)(a \<mapsto> t)" and "w_res w' = w_res w"
  shows "owners_ok (- {a}) w'"
proof -
  obtain R where R: "\<forall>b t. w_ths w b = Some t \<longrightarrow> owns w t (R b)"
    "\<forall>b\<in>dom (w_ths w). \<forall>c\<in>dom (w_ths w). b \<noteq> c \<longrightarrow> set (R b) \<inter> set (R c) = {}"
    using assms(1) unfolding owners_ok_def by auto
  have "owns w' = owns w" by (intro ext) (simp add: owns_def assms(3))
  with R(1) have "\<forall>b\<in>- {a}. \<forall>t. w_ths w' b = Some t \<longrightarrow> owns w' t (R b)" using assms(2) by simp
  moreover have "\<forall>b\<in>- {a} \<inter> dom (w_ths w'). \<forall>c\<in>- {a} \<inter> dom (w_ths w'). b \<noteq> c \<longrightarrow> set (R b) \<inter> set (R c) = {}"
    using R(2) assms(2) by simp
  ultimately show ?thesis unfolding owners_ok_def by blast
qed

lemma owners_ok_drop_res:
  assumes "owners_ok UNIV w" and "w_ths w a = Some t" and "th_mfd_res t = Some m"
    and "w_ths w' = w_ths w" and "w_res w' = (w_res w)(m := None)"
  shows "owners_ok (- {a}) w'"
proof -
  obtain R where R: "\<forall>b t. w_ths w b = Some t \<longrightarrow> owns w t (R b)"
    "\<forall>b\<in>dom (w_ths w). \<forall>c\<in>dom (w_ths w). b \<noteq> c \<longrightarrow> set (R b) \<inter> set (R c) = {}"
    using assms(1) unfolding owners_ok_def by auto
  have "m \<in> set (R a)" using R(1) assms(2,3) by (fastforce simp: owns_def)
  then have off: "m \<notin> set (R b)" if "b \<noteq> a" "b \<in> dom (w_ths w)" for b using R(2) assms(2) that by blast
  have "owns w' s (R b)" if "b \<noteq> a" "w_ths w b = Some s" for b s
  proof -
    have "m \<notin> set (R b)" by (rule off) (use that in auto)
    moreover have "owns w s (R b)" using R(1) that(2) by blast
    ultimately show ?thesis using assms(5) by (simp add: owns_def is_dlist_def)
  qed
  with R(2) assms(4) show ?thesis unfolding owners_ok_def by (intro exI [of _ R]) auto
qed

lemma recycle_thread_ok:
  assumes "core_ok (- {a}) mp S k" and "a \<in> dom (w_ths (wk_world k))"
  shows "\<exists>k'. recycle_thread (Some a) k = Some k' \<and> core_ok UNIV mp (S - {a}) k' \<and> wk_stop k' = wk_stop k
    \<and> live mp k' = live mp k - {a} \<and> w_ths (wk_world k') = (w_ths (wk_world k))(a := None)
    \<and> w_res (wk_world k') = w_res (wk_world k) \<and> w_ext (wk_world k') = w_ext (wk_world k)"
proof -
  have blocks: "pool_ok mp (wk_mem k)" "dom (w_ths (wk_world k)) \<union> dom (w_res (wk_world k)) \<subseteq> live mp k"
    "dom (w_ths (wk_world k)) \<inter> dom (w_res (wk_world k)) = {}" using assms(1) by (auto simp: core_ok_def blocks_ok_def)
  obtain m where m: "memp_recycle (Some a) (wk_mem k) = Some m" "pool_ok mp m" "pool_live mp m = live mp k - {a}"
    using mp.recycle_law [OF blocks(1), of a] assms(2) blocks(2) by blast
  let ?w = "(wk_world k)\<lparr>w_ths := (w_ths (wk_world k))(a := None), w_nodes := (w_nodes (wk_world k))(a := None)\<rparr>"
  let ?k = "k\<lparr>wk_mem := m, wk_world := ?w\<rparr>"
  have "a \<notin> dom (w_res (wk_world k))" using blocks(3) assms(2) by blast
  then have "blocks_ok mp ?k" using blocks m by (auto simp: blocks_ok_def)
  moreover have "owners_ok UNIV ?w" by (rule owners_ok_drop [where a = a and w = "wk_world k"]) (use assms(1) in \<open>simp_all add: core_ok_def\<close>)
  moreover have "stopped ?w = S - {a}" using assms(1) by (auto simp: core_ok_def stopped_def split: if_splits)
  ultimately show ?thesis using m by (intro exI [of _ ?k]) (simp add: recycle_thread_def core_ok_def)
qed

lemma recycle_res_ok:
  assumes "core_ok UNIV mp S k" and "w_ths (wk_world k) a = Some t" and "th_mfd_res t = Some m"
  shows "\<exists>k'. recycle_res (Some m) k = Some k' \<and> core_ok (- {a}) mp S k' \<and> wk_stop k' = wk_stop k
    \<and> live mp k' = live mp k - {m} \<and> w_ths (wk_world k') = w_ths (wk_world k)
    \<and> w_res (wk_world k') = (w_res (wk_world k))(m := None) \<and> w_ext (wk_world k') = w_ext (wk_world k)"
proof -
  have blocks: "pool_ok mp (wk_mem k)" "dom (w_ths (wk_world k)) \<union> dom (w_res (wk_world k)) \<subseteq> live mp k"
    "dom (w_ths (wk_world k)) \<inter> dom (w_res (wk_world k)) = {}" using assms(1) by (auto simp: core_ok_def blocks_ok_def)
  obtain rs where "owns (wk_world k) t rs" using assms(1,2) unfolding core_ok_def owners_ok_def by blast
  then have m_res: "m \<in> dom (w_res (wk_world k))" using assms(3) is_dlist_in_dom by (fastforce simp: owns_def)
  obtain mm where m: "memp_recycle (Some m) (wk_mem k) = Some mm" "pool_ok mp mm" "pool_live mp mm = live mp k - {m}"
    using mp.recycle_law [OF blocks(1), of m] m_res blocks(2) by blast
  let ?w = "(wk_world k)\<lparr>w_res := (w_res (wk_world k))(m := None)\<rparr>"
  let ?k = "k\<lparr>wk_mem := mm, wk_world := ?w\<rparr>"
  have "m \<notin> dom (w_ths (wk_world k))" using blocks(3) m_res by blast
  then have "blocks_ok mp ?k" using blocks m by (auto simp: blocks_ok_def)
  moreover have "owners_ok (- {a}) ?w"
    by (rule owners_ok_drop_res [OF _ assms(2,3)]) (use assms(1) in \<open>simp_all add: core_ok_def\<close>)
  moreover have "stopped ?w = S" using assms(1) by (simp add: core_ok_def stopped_def)
  ultimately show ?thesis using m by (intro exI [of _ ?k]) (simp add: recycle_res_def core_ok_def)
qed

lemma alloc_thread_ok:
  assumes "core_ok UNIV mp S k" and "cx_mem_pool cx = Some mp"
  shows "\<exists>r k'. alloc_thread cx k = Some (r, k') \<and> wk_stop k' = wk_stop k \<and> live mp k' = live mp k \<union> set_option r
    \<and> oom (wk_mem k') = oom (wk_mem k) \<and> (r = None \<longrightarrow> \<not> no_oom k)
    \<and> w_res (wk_world k') = w_res (wk_world k) \<and> w_ext (wk_world k') = w_ext (wk_world k)
    \<and> (case r of None \<Rightarrow> core_ok UNIV mp S k' \<and> w_ths (wk_world k') = w_ths (wk_world k)
       | Some a \<Rightarrow> core_ok (- {a}) mp S k' \<and> a \<notin> live mp k \<and> a \<notin> S
           \<and> w_ths (wk_world k') = (w_ths (wk_world k))(a \<mapsto> fresh_thread))"
proof -
  have blocks: "pool_ok mp (wk_mem k)" "dom (w_ths (wk_world k)) \<union> dom (w_res (wk_world k)) \<subseteq> live mp k"
    "dom (w_ths (wk_world k)) \<inter> dom (w_res (wk_world k)) = {}" using assms(1) by (auto simp: core_ok_def blocks_ok_def)
  obtain r m where m: "memp_alloc (Some mp) sizeof_thread (wk_mem k) = Some (r, m)" "pool_ok mp m"
    "pool_live mp m = live mp k \<union> set_option r" "set_option r \<inter> live mp k = {}" "oom m = oom (wk_mem k)"
    "r = None \<longrightarrow> \<not> no_oom k"
    using memp_alloc_total [OF blocks(1) sizes_ok(1)] unfolding no_oom_def by blast
  show ?thesis
  proof (cases r)
    case None
    with m assms blocks show ?thesis
      by (intro exI [of _ None] exI [of _ "k\<lparr>wk_mem := m\<rparr>"])
        (simp add: alloc_thread_def core_ok_def blocks_ok_def no_oom_def)
  next
    case (Some a)
    let ?w = "(wk_world k)\<lparr>w_ths := (w_ths (wk_world k))(a \<mapsto> fresh_thread), w_nodes := (w_nodes (wk_world k))(a \<mapsto> node_of None L Red None None)\<rparr>"
    let ?k = "k\<lparr>wk_mem := m, wk_world := ?w\<rparr>"
    have a: "a \<notin> live mp k" "w_ths (wk_world k) a = None" "a \<notin> dom (w_res (wk_world k))" using m(4) Some blocks(2) by auto
    have "blocks_ok mp ?k" using blocks m(2,3) Some a by (auto simp: blocks_ok_def)
    moreover have "owners_ok (- {a}) ?w"
      by (rule owners_ok_grow [where w = "wk_world k"]) (use assms(1) in \<open>simp_all add: core_ok_def\<close>)
    moreover have "stopped ?w = S" "a \<notin> S"
      using assms(1) a(2) by (auto simp: core_ok_def stopped_def fresh_thread_def split: if_splits)
    ultimately show ?thesis using m(1,3,5) Some a(1) assms(2)
      by (intro exI [of _ "Some a"] exI [of _ ?k]) (simp add: alloc_thread_def core_ok_def)
  qed
qed

lemma alloc_res_ok:
  assumes "core_ok A mp S k" and "cx_mem_pool cx = Some mp"
  shows "\<exists>r k'. alloc_res cx k = Some (r, k') \<and> wk_stop k' = wk_stop k \<and> live mp k' = live mp k \<union> set_option r
    \<and> oom (wk_mem k') = oom (wk_mem k) \<and> (r = None \<longrightarrow> \<not> no_oom k)
    \<and> same_classes mp (wk_mem k) (wk_mem k')
    \<and> w_ths (wk_world k') = w_ths (wk_world k) \<and> w_ext (wk_world k') = w_ext (wk_world k)
    \<and> w_cur_tid (wk_world k') = w_cur_tid (wk_world k)
    \<and> (case r of None \<Rightarrow> core_ok A mp S k' \<and> w_res (wk_world k') = w_res (wk_world k)
       | Some m \<Rightarrow> blocks_ok mp k' \<and> m \<notin> live mp k \<and> w_res (wk_world k') = (w_res (wk_world k))(m \<mapsto> fresh_res))"
proof -
  have blocks: "pool_ok mp (wk_mem k)" "dom (w_ths (wk_world k)) \<union> dom (w_res (wk_world k)) \<subseteq> live mp k"
    "dom (w_ths (wk_world k)) \<inter> dom (w_res (wk_world k)) = {}" using assms(1) by (auto simp: core_ok_def blocks_ok_def)
  obtain r m where m: "memp_alloc (Some mp) sizeof_thread_res_int (wk_mem k) = Some (r, m)" "pool_ok mp m"
    "pool_live mp m = live mp k \<union> set_option r" "set_option r \<inter> live mp k = {}" "oom m = oom (wk_mem k)"
    "r = None \<longrightarrow> \<not> no_oom k" "same_classes mp (wk_mem k) m"
    using memp_alloc_total [OF blocks(1) sizes_ok(2)] unfolding no_oom_def by blast
  show ?thesis
  proof (cases r)
    case None
    with m assms blocks show ?thesis
      by (intro exI [of _ None] exI [of _ "k\<lparr>wk_mem := m\<rparr>"]) (simp add: alloc_res_def core_ok_def blocks_ok_def)
  next
    case (Some a)
    let ?k = "k\<lparr>wk_mem := m, wk_world := (wk_world k)\<lparr>w_res := (w_res (wk_world k))(a \<mapsto> fresh_res)\<rparr>\<rparr>"
    have a: "a \<notin> live mp k" "a \<notin> dom (w_ths (wk_world k))" using m(4) Some blocks(2) by auto
    then have "blocks_ok mp ?k" using blocks m(2,3) Some by (auto simp: blocks_ok_def)
    then show ?thesis using m(1,3,5,7) Some a(1) assms(2)
      by (intro exI [of _ "Some a"] exI [of _ ?k]) (simp add: alloc_res_def)
  qed
qed

subsection \<open>A new connection\<close>

lemma th_init_eq:
  assumes "ref (w_cur_tid w + 1) (w_ext w) = (T, x)" and "w_ths w a = Some t"
  shows "asthread_th_init ref (Some a) w = Some (if T = None then (-1, w\<lparr>w_ext := x\<rparr>)
    else (sint (w_cur_tid w + 1), w\<lparr>w_cur_tid := w_cur_tid w + 1, w_ext := x,
      w_ths := (w_ths w)(a \<mapsto> t\<lparr>th_tid := w_cur_tid w + 1, th_T := T, th_status := TS_Ready, th_mode := TM_Simple,
        th_pool := None, th_resl := dlist_init (th_resl t)\<rparr>)\<rparr>))"
  using assms by (auto simp: asthread_th_init_def Let_def set_th_Some)

definition conn_res :: "int \<Rightarrow> addr \<Rightarrow> as_res" where
  "conn_res fd th = \<lparr>dl_next = None, dl_prev = None, rs_freef = Some 0, rs_fdf = 0, rs_status = RS_Idle,
     rs_th = Some th, rs_d = fd\<rparr>"

definition conn_thread :: "addr \<Rightarrow> as_thread \<Rightarrow> as_thread" where
  "conn_thread m t = t\<lparr>th_resl := \<lparr>dl_head = Some m, dl_tail = Some m\<rparr>, th_mfd_res := Some m\<rparr>"

lemma new_connection_eq:
  assumes "w_ths w a = Some t" and "th_resl t = dlist_init d" and "w_res w m = Some fresh_res"
    and "en_ctl en EP_Add (cx_epfd cx) fd m 0 (w_ext w) = (ret, x)"
  shows "new_connection en cx fd (Some a) (Some m) w = Some (w\<lparr>w_ths := (w_ths w)(a \<mapsto> conn_thread m t),
    w_res := (w_res w)(m \<mapsto> conn_res fd a), w_ext := x\<rparr>)"
proof -
  let ?r0 = "\<lparr>dl_next = None, dl_prev = None, rs_freef = Some 0, rs_fdf = 0, rs_status = RS_Idle, rs_th = None, rs_d = fd\<rparr>"
  let ?w1 = "w\<lparr>w_res := (w_res w)(m \<mapsto> fresh_res\<lparr>rs_d := fd\<rparr>)\<rparr>" and ?w2 = "w\<lparr>w_res := (w_res w)(m \<mapsto> ?r0)\<rparr>"
  let ?w3 = "w\<lparr>w_res := (w_res w)(m \<mapsto> conn_res fd a), w_ths := (w_ths w)(a \<mapsto> t\<lparr>th_resl := \<lparr>dl_head = Some m, dl_tail = Some m\<rparr>\<rparr>)\<rparr>"
  have one: "set_res (rs_d_update (\<lambda>_. fd)) (Some m) w = Some ?w1" using assms(3) by (simp add: set_res_Some)
  have two: "asthread_res_init (Some m) (Some 0) 0 ?w1 = Some (0, ?w2)"
    by (simp add: asthread_res_init_def set_res_Some dlist_node_init_Some fresh_res_def)
  have three: "asthread_res_add_to_th m a ?w2 = Some (0, ?w3)"
    using assms(1,2)
    by (cases d) (simp add: asthread_res_add_to_th_def set_res_Some set_th_Some dlist_add_to_head_def modify_Some dlist_init_def
        dlist_is_empty_def conn_res_def)
  have four: "asthread_res_ev_init (en_ctl en) res_fd_f m (cx_epfd cx) ?w3 = Some (ret, ?w3\<lparr>w_ext := x\<rparr>)"
    using assms(4) by (simp add: asthread_res_ev_init_def res_ev_ctl_def res_fd_f_def conn_res_def set_res_Some Let_def)
  show ?thesis by (simp add: new_connection_def one two three four set_th_Some conn_thread_def)
qed

lemma owners_ok_connect:
  assumes "owners_ok (- {a}) w" and "w_res w m = None" and "w_ths w' = (w_ths w)(a \<mapsto> conn_thread m t)"
    and "w_res w' = (w_res w)(m \<mapsto> conn_res fd a)"
  shows "owners_ok UNIV w'"
proof -
  obtain R where R: "\<forall>b\<in>- {a}. \<forall>t. w_ths w b = Some t \<longrightarrow> owns w t (R b)"
    "\<forall>b\<in>- {a} \<inter> dom (w_ths w). \<forall>c\<in>- {a} \<inter> dom (w_ths w). b \<noteq> c \<longrightarrow> set (R b) \<inter> set (R c) = {}"
    using assms(1) unfolding owners_ok_def by blast
  let ?R = "R(a := [m])"
  have old: "m \<notin> set (R b) \<and> owns w' s (R b)" if "b \<noteq> a" "w_ths w b = Some s" for b s
  proof -
    have own: "owns w s (R b)" using R(1) that by blast
    then have "m \<notin> set (R b)" using is_dlist_in_dom assms(2) by (fastforce simp: owns_def)
    with own assms(4) show ?thesis by (simp add: owns_def is_dlist_def)
  qed
  have "owns w' (conn_thread m t) [m]" using assms(4) by (simp add: owns_def conn_thread_def conn_res_def is_dlist_def)
  with old assms(3) have "\<forall>b\<in>UNIV. \<forall>s. w_ths w' b = Some s \<longrightarrow> owns w' s (?R b)" by auto
  moreover have "\<forall>b\<in>UNIV \<inter> dom (w_ths w'). \<forall>c\<in>UNIV \<inter> dom (w_ths w'). b \<noteq> c \<longrightarrow> set (?R b) \<inter> set (?R c) = {}"
    using R(2) old assms(3) by auto
  ultimately show ?thesis unfolding owners_ok_def by blast
qed

lemma blocks_ok_dom:
  "blocks_ok mp k \<Longrightarrow> wk_mem k' = wk_mem k \<Longrightarrow> dom (w_ths (wk_world k')) = dom (w_ths (wk_world k)) \<Longrightarrow>
   dom (w_res (wk_world k')) = dom (w_res (wk_world k)) \<Longrightarrow> blocks_ok mp k'"
  by (simp add: blocks_ok_def)

text \<open>Everything up to the first run of the new thread.\<close>

definition conn_ready :: "addr \<Rightarrow> addr set \<Rightarrow> int \<Rightarrow> addr \<Rightarrow> addr \<Rightarrow> 'x worker \<Rightarrow> 'x worker \<Rightarrow> bool" where
  "conn_ready mp S fd a m k k1 \<longleftrightarrow> core_ok UNIV mp S k1 \<and> wk_stop k1 = wk_stop k \<and> a \<notin> live mp k \<and> a \<noteq> m
     \<and> (\<exists>t. wk_thread a k1 = Some t \<and> th_status t = TS_Ready \<and> th_pool t = None \<and> th_mfd_res t = Some m)
     \<and> map_option conn_view (w_res (wk_world k1) m) = Some (Some 0, Some a, fd)
     \<and> (\<forall>b. b \<noteq> a \<longrightarrow> map_option unlisted (w_ths (wk_world k1) b) = map_option unlisted (w_ths (wk_world k) b))"

lemma recycle_refused:
  assumes "core_ok (- {a}) mp S k" and "a \<in> dom (w_ths (wk_world k))" and "a \<notin> S"
  shows "\<exists>k'. recycle_thread (Some a) k = Some k' \<and> core_ok UNIV mp S k' \<and> wk_stop k' = wk_stop k
    \<and> live mp k' = live mp k - {a} \<and> w_ths (wk_world k') = (w_ths (wk_world k))(a := None)
    \<and> w_res (wk_world k') = w_res (wk_world k) \<and> w_ext (wk_world k') = w_ext (wk_world k)"
  using recycle_thread_ok [OF assms(1,2)] assms(3) by simp

text \<open>The call of \<open>asthread_th_init\<close> on a new thread.\<close>

lemma conn_init:
  assumes core: "core_ok (- {a}) mp S k" and t0: "w_ths (wk_world k) a = Some t0" "unlisted t0 = unlisted fresh_thread"
  obtains tid w where "asthread_th_init ref (Some a) (wk_world k) = Some (tid, w)" "core_ok (- {a}) mp S (k\<lparr>wk_world := w\<rparr>)"
    "\<And>b. b \<noteq> a \<Longrightarrow> w_ths w b = w_ths (wk_world k) b" "a \<in> dom (w_ths w)"
    "tid \<noteq> -1 \<longrightarrow> (\<exists>t. w_ths w a = Some t \<and> th_status t = TS_Ready \<and> th_pool t = None \<and> th_resl t = dlist_init dlist_empty)"
proof -
  obtain T x where ref: "ref (w_cur_tid (wk_world k) + 1) (w_ext (wk_world k)) = (T, x)" by fastforce
  have st: "th_status t0 = TS_Ready" "th_mfd_res t0 = None" "th_pool t0 = None" using unlisted_fields [OF t0(2)] by (simp_all add: fresh_thread_def)
  have init: "dlist_init d = dlist_init dlist_empty" for d by (simp add: dlist_init_def)
  let ?t = "t0\<lparr>th_tid := w_cur_tid (wk_world k) + 1, th_T := T, th_status := TS_Ready, th_mode := TM_Simple,
        th_pool := None, th_resl := dlist_init (th_resl t0)\<rparr>"
  let ?w = "if T = None then (wk_world k)\<lparr>w_ext := x\<rparr> else (wk_world k)\<lparr>w_cur_tid := w_cur_tid (wk_world k) + 1, w_ext := x,
      w_ths := (w_ths (wk_world k))(a \<mapsto> ?t)\<rparr>"
  have eq: "asthread_th_init ref (Some a) (wk_world k) = Some (if T = None then -1 else sint (w_cur_tid (wk_world k) + 1), ?w)"
    using th_init_eq [where ref = ref and w = "wk_world k" and a = a, OF ref t0(1)] by simp
  have dom: "dom (w_ths ?w) = dom (w_ths (wk_world k))" using t0(1) by auto
  have "blocks_ok mp (k\<lparr>wk_world := ?w\<rparr>)" using core dom by (auto simp: core_ok_def blocks_ok_def)
  moreover have "stopped ?w = S" using core t0(1) st(1) by (auto simp: core_ok_def stopped_def)
  moreover have "owners_ok (- {a}) ?w"
  proof -
    obtain R where R: "\<forall>b\<in>- {a}. \<forall>t. w_ths (wk_world k) b = Some t \<longrightarrow> owns (wk_world k) t (R b)"
      "\<forall>b\<in>- {a} \<inter> dom (w_ths (wk_world k)). \<forall>c\<in>- {a} \<inter> dom (w_ths (wk_world k)). b \<noteq> c \<longrightarrow> set (R b) \<inter> set (R c) = {}"
      using core unfolding core_ok_def owners_ok_def by blast
    have "owns ?w = owns (wk_world k)" by (intro ext) (simp add: owns_def)
    with R dom show ?thesis unfolding owners_ok_def by (intro exI [of _ R]) auto
  qed
  ultimately have "core_ok (- {a}) mp S (k\<lparr>wk_world := ?w\<rparr>)" by (simp add: core_ok_def)
  moreover have "w_ths ?w b = w_ths (wk_world k) b" if "b \<noteq> a" for b using that by simp
  moreover have "a \<in> dom (w_ths ?w)" using dom t0(1) by blast
  moreover have "\<exists>t. w_ths ?w a = Some t \<and> th_status t = TS_Ready \<and> th_pool t = None \<and> th_resl t = dlist_init dlist_empty"
    if "T \<noteq> None" using that init [of "th_resl t0"] by (simp del: not_None_eq)
  moreover have "(if T = None then -1 else sint (w_cur_tid (wk_world k) + 1)) \<noteq> (-1 :: int) \<longrightarrow> T \<noteq> None" by simp
  ultimately show thesis by (intro that [OF eq]) blast+
qed

lemma accept_one_cases:
  assumes core: "core_ok UNIV mp S k" and mp: "cx_mem_pool cx = Some mp" and calls: "calls_keep en mp"
  shows "(accept_one en cx fd k = None \<and> \<not> no_oom k)
    \<or> (\<exists>k'. accept_one en cx fd k = Some k' \<and> core_ok UNIV mp S k' \<and> wk_stop k' = wk_stop k
        \<and> (\<forall>b. map_option unlisted (w_ths (wk_world k') b) = map_option unlisted (w_ths (wk_world k) b)))
    \<or> (\<exists>a m k1. conn_ready mp S fd a m k k1 \<and> accept_one en cx fd k = thread_resume en cx a [] k1)"
proof -
  let ?k0 = "on_ext (\<lambda>x. snd (set_non_block (net.truncate en) fd x)) k"
  have core0: "core_ok UNIV mp S ?k0" by (rule quiet_core [OF on_ext_quiet core])
  have same0: "wk_stop ?k0 = wk_stop k" "live mp ?k0 = live mp k" "w_ths (wk_world ?k0) = w_ths (wk_world k)"
    "oom (wk_mem ?k0) = oom (wk_mem k)" "no_oom ?k0 = no_oom k" by (simp_all add: on_ext_def no_oom_def)
  obtain r k1 where k1: "alloc_thread cx ?k0 = Some (r, k1)" "wk_stop k1 = wk_stop k"
    "oom (wk_mem k1) = oom (wk_mem k)" "r = None \<longrightarrow> \<not> no_oom k"
    "case r of None \<Rightarrow> core_ok UNIV mp S k1 \<and> w_ths (wk_world k1) = w_ths (wk_world k)
       | Some a \<Rightarrow> core_ok (- {a}) mp S k1 \<and> a \<notin> live mp k \<and> a \<notin> S \<and> w_ths (wk_world k1) = (w_ths (wk_world k))(a \<mapsto> fresh_thread)"
    using alloc_thread_ok [OF core0 mp] unfolding same0 by blast
  let ?k2 = "lua_work en (LC_Ref (w_cur_tid (wk_world k1) + 1)) k1"
  show ?thesis
  proof (cases r)
    case None
    with k1(5) have core1: "core_ok UNIV mp S k1" and ths1: "w_ths (wk_world k1) = w_ths (wk_world k)" by simp_all
    note core2 = calls_keepD(1) [OF calls core1] and frame2 = calls_keepD(2) [OF calls core1]
    obtain T x where ref: "lua_ref en (w_cur_tid (wk_world ?k2) + 1) (w_ext (wk_world ?k2)) = (T, x)" by fastforce
    show ?thesis
    proof (cases "T = None")
      case True
      then have "accept_one en cx fd k = Some (on_ext (\<lambda>_. x) ?k2)"
        using k1(1) ref None
        by (simp add: accept_one_def on_world_def asthread_th_init_def Let_def recycle_thread_def memp_recycle_def on_ext_def)
      moreover have "core_ok UNIV mp S (on_ext (\<lambda>_. x) ?k2)" by (rule quiet_core [OF on_ext_quiet core2])
      ultimately show ?thesis using k1(2) ths1 frame2 by (simp add: on_ext_def lua_frame_def)
    next
      case False
      then have "accept_one en cx fd k = None"
        using k1(1) ref None by (cases T) (simp_all add: accept_one_def on_world_def asthread_th_init_def Let_def set_th_def)
      with k1(4) None show ?thesis by simp
    qed
  next
    case (Some a)
    with k1(5) have a: "core_ok (- {a}) mp S k1" "a \<notin> live mp k" "a \<notin> S" "w_ths (wk_world k1) = (w_ths (wk_world k))(a \<mapsto> fresh_thread)"
      by simp_all
    note core2 = calls_keepD(1) [OF calls a(1)] and frame2 = calls_keepD(2) [OF calls a(1)]
    have "w_ths (wk_world k1) a = Some fresh_thread" using a(4) by simp
    from lua_frame_thread [OF frame2 this] obtain t0 where t0: "w_ths (wk_world ?k2) a = Some t0" "unlisted t0 = unlisted fresh_thread" .
    obtain tid w3 where init: "asthread_th_init (lua_ref en) (Some a) (wk_world ?k2) = Some (tid, w3)"
      and core3: "core_ok (- {a}) mp S (?k2\<lparr>wk_world := w3\<rparr>)"
      and w3: "\<And>b. b \<noteq> a \<Longrightarrow> w_ths w3 b = w_ths (wk_world ?k2) b" "a \<in> dom (w_ths w3)"
        "tid \<noteq> -1 \<longrightarrow> (\<exists>t. w_ths w3 a = Some t \<and> th_status t = TS_Ready \<and> th_pool t = None \<and> th_resl t = dlist_init dlist_empty)"
      by (rule conn_init [OF core2 t0, of "lua_ref en"]) blast
    have others: "map_option unlisted (w_ths w3 b) = map_option unlisted (w_ths (wk_world k) b)" if "b \<noteq> a" for b
      using frame2 w3(1) [OF that] a(4) that by (simp add: lua_frame_def)
    let ?k3 = "?k2\<lparr>wk_world := w3\<rparr>"
    have oom3: "no_oom ?k3 = no_oom k" "wk_stop ?k3 = wk_stop k" using k1(2,3) frame2 by (simp_all add: no_oom_def lua_frame_def)
    have new_a: "w_ths (wk_world k) a = None" using core a(2) by (auto simp: core_ok_def blocks_ok_def)
    show ?thesis
    proof (cases "tid = -1")
      case True
      then have "accept_one en cx fd k = recycle_thread (Some a) ?k3" using k1(1) Some init by (simp add: accept_one_def on_world_def)
      moreover obtain k4 where "recycle_thread (Some a) ?k3 = Some k4" "core_ok UNIV mp S k4" "wk_stop k4 = wk_stop ?k3"
        "w_ths (wk_world k4) = (w_ths w3)(a := None)"
        using recycle_refused [OF core3 _ a(3)] w3(2) by auto
      ultimately show ?thesis using oom3(2) others new_a by auto
    next
      case False
      obtain t where t: "w_ths w3 a = Some t" "th_status t = TS_Ready" "th_pool t = None" "th_resl t = dlist_init dlist_empty"
        using w3(3) False by auto
      obtain q k4 where k4: "alloc_res cx ?k3 = Some (q, k4)" "wk_stop k4 = wk_stop k" "q = None \<longrightarrow> \<not> no_oom k"
        "w_ths (wk_world k4) = w_ths w3"
        "case q of None \<Rightarrow> True | Some m \<Rightarrow> blocks_ok mp k4 \<and> m \<notin> live mp ?k3 \<and> w_res (wk_world k4) = (w_res w3)(m \<mapsto> fresh_res)"
        using alloc_res_ok [OF core3 mp] unfolding oom3 by (auto split: option.splits)
      show ?thesis
      proof (cases q)
        case None
        then have "accept_one en cx fd k = None" using k1(1) Some init False k4(1)
          by (simp add: accept_one_def on_world_def new_connection_def set_res_def)
        with k4(3) None show ?thesis by simp
      next
        case m: (Some m)
        obtain ret x where ctl: "en_ctl en EP_Add (cx_epfd cx) fd m 0 (w_ext (wk_world k4)) = (ret, x)" by fastforce
        let ?w5 = "(wk_world k4)\<lparr>w_ths := (w_ths (wk_world k4))(a \<mapsto> conn_thread m t), w_res := (w_res (wk_world k4))(m \<mapsto> conn_res fd a), w_ext := x\<rparr>"
        let ?k5 = "k4\<lparr>wk_world := ?w5\<rparr>"
        have conn: "new_connection en cx fd (Some a) (Some m) (wk_world k4) = Some ?w5"
          by (rule new_connection_eq) (use t k4 m ctl in auto)
        have blocks3: "dom (w_res w3) \<subseteq> live mp ?k3" "a \<in> live mp ?k3" using core3 w3(2) by (auto simp: core_ok_def blocks_ok_def)
        have new: "w_res w3 m = None" "m \<noteq> a" using k4(5) m blocks3 by auto
        have "blocks_ok mp ?k5"
          by (rule blocks_ok_dom [of mp k4]) (use t(1) k4(4,5) m in auto)
        moreover have "owners_ok UNIV ?w5"
          by (rule owners_ok_connect [of a w3 m _ t fd]) (use core3 new k4(4,5) m in \<open>auto simp: core_ok_def\<close>)
        moreover have "stopped ?w5 = S"
        proof -
          have "stopped w3 = S" using core3 by (simp add: core_ok_def)
          moreover have "stopped ?w5 = stopped w3" using t k4(4) by (auto simp: stopped_def conn_thread_def)
          ultimately show ?thesis by simp
        qed
        ultimately have core5: "core_ok UNIV mp S ?k5" by (simp add: core_ok_def)
        let ?c = "LC_Set_Local (th_T (conn_thread m t)) a"
        let ?k6 = "on_ext (lua_set_local en (th_T (conn_thread m t)) a) (lua_work en ?c ?k5)"
        have out: "accept_one en cx fd k = thread_resume en cx a [] ?k6"
          using k1(1) Some init False k4(1) m conn by (simp add: accept_one_def on_world_def wk_thread_def)
        have core6: "core_ok UNIV mp S ?k6" by (rule quiet_core [OF on_ext_quiet calls_keepD(1) [OF calls core5]])
        note frame6 = calls_keepD(2) [OF calls core5, of ?c]
        have at5: "w_ths (wk_world ?k5) a = Some (conn_thread m t)" "w_res (wk_world ?k5) m = Some (conn_res fd a)" by simp_all
        obtain t' where t': "w_ths (wk_world (lua_work en ?c ?k5)) a = Some t'" "unlisted t' = unlisted (conn_thread m t)"
          by (rule lua_frame_thread [OF frame6 at5(1)])
        have "th_mfd_res (conn_thread m t) = Some m" by (simp add: conn_thread_def)
        then have "map_option conn_view (w_res (wk_world (lua_work en ?c ?k5)) m) = Some (Some 0, Some a, fd)"
          using lua_frame_conn [OF frame6 at5(1)] at5(2) by (simp only: option.map) (simp add: conn_view_def conn_res_def)
        moreover have "th_status t' = TS_Ready" "th_pool t' = None" "th_mfd_res t' = Some m"
          using unlisted_fields [OF t'(2)] t(2,3) by (simp_all add: conn_thread_def)
        moreover have "map_option unlisted (w_ths (wk_world ?k6) b) = map_option unlisted (w_ths (wk_world k) b)" if "b \<noteq> a" for b
          using frame6 others [OF that] k4(4) that by (simp add: lua_frame_def on_ext_def)
        moreover have "wk_stop ?k6 = wk_stop k" using frame6 k4(2) by (simp add: lua_frame_def on_ext_def)
        ultimately have "conn_ready mp S fd a m k ?k6"
          unfolding conn_ready_def using core6 a(2) new(2) t'(1) by (simp add: wk_thread_def on_ext_def)
        with out show ?thesis by blast
      qed
    qed
  qed
qed

lemma accept_one_ok:
  assumes "lua_keeps en mp" and "cx_mem_pool cx = Some mp" and "threads_ok cx mp k" and "accept_one en cx fd k = Some k'"
  shows "threads_ok cx mp k'"
proof -
  obtain ys where ys: "worker_ok mp ys k" "cx_stop_threads cx = None \<longrightarrow> ys = []" using assms(3) by (auto simp: threads_ok_def)
  have core: "core_ok UNIV mp (set ys) k" "stop_ok ys (wk_stop k)" using ys(1) by (simp_all add: worker_ok_core)
  have calls: "calls_keep en mp" using assms(1) by (simp add: lua_keeps_def)
  from accept_one_cases [OF core(1) assms(2) calls, of fd] show ?thesis
  proof (elim disjE exE conjE)
    fix k1 assume "accept_one en cx fd k = Some k1" "core_ok UNIV mp (set ys) k1" "wk_stop k1 = wk_stop k"
    with core(2) assms(4) have "worker_ok mp ys k'" by (simp add: worker_ok_core)
    then show ?thesis using ys(2) by (auto simp: threads_ok_def)
  next
    fix a m k1
    assume "conn_ready mp (set ys) fd a m k k1" "accept_one en cx fd k = thread_resume en cx a [] k1"
    with assms(4) have k1: "conn_ready mp (set ys) fd a m k k1" "thread_resume en cx a [] k1 = Some k'" by simp_all
    then have "worker_ok mp ys k1" using core(2) by (simp add: conn_ready_def worker_ok_core)
    then have "threads_ok cx mp k1" using ys(2) by (auto simp: threads_ok_def)
    from thread_resume_ok [OF assms(1) this k1(2)] show ?thesis .
  qed (use assms(4) in simp)
qed

lemma handle_accept_ok:
  assumes "lua_keeps en mp" and "cx_mem_pool cx = Some mp" and "threads_ok cx mp k" and "handle_accept en cx single_mode k = Some k'"
  shows "threads_ok cx mp k'"
proof -
  let ?P = "\<lambda>en cx k k'. lua_keeps en mp \<longrightarrow> cx_mem_pool cx = Some mp \<longrightarrow> threads_ok cx mp k \<longrightarrow> threads_ok cx mp k'"
  have "?P en cx k k'"
  proof (rule handle_accept.raw_induct [of "\<lambda>en cx single_mode k k'. ?P en cx k k'", OF _ assms(4)], intro impI)
    fix rec and en :: "'a env" and cx single_mode k k'
    assume IH: "\<And>en cx single_mode k k'. rec en cx single_mode k = Some k' \<Longrightarrow> ?P en cx k k'"
      and step: "do {
         (fd, x) \<leftarrow> new_fd_func en single_mode (cx_cfd cx) (w_ext (wk_world k));
         let k = on_ext (\<lambda>_. x) k;
         if fd = -1 then Some k
         else do { k \<leftarrow> accept_one en cx fd k; rec en cx single_mode k } } = Some k'"
      and pre: "lua_keeps en mp" "cx_mem_pool cx = Some mp" "threads_ok cx mp k"
    from step obtain fd x where fd: "(if fd = -1 then Some (on_ext (\<lambda>_. x) k)
       else do { k \<leftarrow> accept_one en cx fd (on_ext (\<lambda>_. x) k); rec en cx single_mode k }) = Some k'"
      by (auto simp: bind_eq_Some_conv Let_def)
    have at: "threads_ok cx mp (on_ext (\<lambda>_. x) k)" by (rule on_ext_ok [OF pre(3)])
    show "threads_ok cx mp k'"
    proof (cases "fd = -1")
      case True
      with fd at show ?thesis by auto
    next
      case False
      with fd obtain k1 where "accept_one en cx fd (on_ext (\<lambda>_. x) k) = Some k1" "rec en cx single_mode k1 = Some k'"
        by (auto simp: bind_eq_Some_conv)
      with accept_one_ok [OF pre(1,2) at] IH pre(1,2) show ?thesis by blast
    qed
  qed
  with assms(1-3) show ?thesis by blast
qed

lemma process_event_ok:
  assumes "lua_keeps en mp" and "cx_mem_pool cx = Some mp" and "threads_ok cx mp k" and "process_event en cx single_mode e k = Some k'"
  shows "threads_ok cx mp k'"
  using assms(3,4) fd_handlers_ok [OF assms(1,3)] handle_accept_ok [OF assms(1,2,3)]
  unfolding process_event_def Let_def by (auto split: if_splits)

lemma foldM_preserves:
  assumes "\<And>x s s'. f x s = Some s' \<Longrightarrow> I s \<Longrightarrow> I s'"
  shows "foldM f xs s = Some s' \<Longrightarrow> I s \<Longrightarrow> I s'"
  by (induction xs arbitrary: s) (auto simp: bind_eq_Some_conv dest: assms)

lemma process_io_ok:
  assumes "lua_keeps en mp" and "cx_mem_pool cx = Some mp" and "threads_ok cx mp k" and "process_io en cx single_mode k = Some k'"
  shows "threads_ok cx mp k'"
proof -
  obtain es x where es: "foldM (process_event en cx single_mode) es (on_ext (\<lambda>_. x) k) = Some k'"
    using assms(4) by (auto simp: process_io_def split: prod.splits)
  show ?thesis
    by (rule foldM_preserves [where I = "threads_ok cx mp", OF _ es])
      (use on_ext_ok [OF assms(3)] process_event_ok [OF assms(1,2)] in blast)+
qed

subsection \<open>Freeing the threads that ended\<close>

lemma recycle_frames:
  "recycle_res p k = Some k' \<Longrightarrow> w_pools (wk_world k') = w_pools (wk_world k) \<and> w_nodes (wk_world k') = w_nodes (wk_world k)"
  "recycle_thread (Some a) k = Some k' \<Longrightarrow> w_pools (wk_world k') = w_pools (wk_world k) \<and> w_nodes (wk_world k') = (w_nodes (wk_world k))(a := None)"
  by (auto simp: recycle_res_def recycle_thread_def Let_def bind_eq_Some_conv split: option.splits)

text \<open>The release functions of the resources of a thread close their descriptors.\<close>

definition close_all :: "'x env \<Rightarrow> 'x world \<Rightarrow> as_thread \<Rightarrow> addr list \<Rightarrow> 'x" where
  "close_all en w t rs = fold (release_one (\<lambda>f a d. sc_close en d) (w_res w)) rs (lua_unref en (th_T t) (th_tid t) (w_ext w))"

lemma th_free_eq:
  assumes "w_ths w a = Some t" and "is_dlist (w_res w) (th_resl t) rs"
  shows "asthread_th_free (lua_unref en) (res_free_f en) (Some a) w
    = Some (0, w\<lparr>w_res := orphaned (w_res w) (set rs), w_ext := close_all en w t rs\<rparr>)"
  unfolding close_all_def
  by (rule th_free_correct [where freef = "res_free_f en" and cl = "\<lambda>f a d. sc_close en d", OF _ assms]) (simp add: res_free_f_def)

lemma free_thread_ok:
  assumes "core_ok UNIV mp S k" and "w_ths (wk_world k) a = Some t"
    and before: "w_ths (wk_world k0) a = Some t0" and work: "lua_work en (LC_Unref (th_T t0) (th_tid t0)) k0 = k"
  obtains rs m k' where "owns (wk_world k) t rs" "th_mfd_res t = Some m" "free_thread en a k0 = Some k'" "core_ok UNIV mp (S - {a}) k'"
    "wk_stop k' = wk_stop k" "live mp k' = live mp k - {m, a}" "w_ths (wk_world k') = (w_ths (wk_world k))(a := None)"
    "w_ext (wk_world k') = close_all en (wk_world k) t rs" "w_res (wk_world k') = (orphaned (w_res (wk_world k)) (set rs))(m := None)"
    "w_pools (wk_world k') = w_pools (wk_world k)" "w_nodes (wk_world k') = (w_nodes (wk_world k))(a := None)"
proof -
  obtain rs where rs: "owns (wk_world k) t rs" using assms(1,2) unfolding core_ok_def owners_ok_def by blast
  then obtain m where m: "th_mfd_res t = Some m" by (auto simp: owns_def)
  let ?w1 = "(wk_world k)\<lparr>w_res := orphaned (w_res (wk_world k)) (set rs), w_ext := close_all en (wk_world k) t rs\<rparr>"
  let ?k1 = "k\<lparr>wk_world := ?w1\<rparr>"
  have free: "on_world (asthread_th_free (lua_unref en) (res_free_f en) (Some a)) k = Some (0, ?k1)"
    by (rule on_world_Some, rule th_free_eq) (use assms(2) rs in \<open>auto simp: owns_def\<close>)
  have "map_option link_view (orphaned h A b) = map_option link_view (h b)" for h A b
    by (cases "h b") (simp_all add: orphaned_def link_view_def)
  then have q1: "quiet k ?k1" by (simp add: quiet_def quiet_w_def)
  obtain k2 where k2: "recycle_res (Some m) ?k1 = Some k2" "core_ok (- {a}) mp S k2" "wk_stop k2 = wk_stop k"
    "live mp k2 = live mp k - {m}" "w_ths (wk_world k2) = w_ths (wk_world k)" "w_ext (wk_world k2) = close_all en (wk_world k) t rs"
    "w_res (wk_world k2) = (orphaned (w_res (wk_world k)) (set rs))(m := None)"
    using recycle_res_ok [OF quiet_core [OF q1 assms(1)], of a t m] assms(2) m by auto
  obtain k3 where k3: "recycle_thread (Some a) k2 = Some k3" "core_ok UNIV mp (S - {a}) k3" "wk_stop k3 = wk_stop k"
    "live mp k3 = live mp k - {m, a}" "w_ths (wk_world k3) = (w_ths (wk_world k))(a := None)"
    "w_ext (wk_world k3) = close_all en (wk_world k) t rs" "w_res (wk_world k3) = w_res (wk_world k2)"
    using recycle_thread_ok [OF k2(2)] k2 assms(2) by auto
  moreover have "free_thread en a k0 = recycle_thread (Some a) k2"
    using free before work assms(2) m k2(1) by (simp add: free_thread_def wk_thread_def)
  moreover have "w_pools (wk_world k3) = w_pools (wk_world k) \<and> w_nodes (wk_world k3) = (w_nodes (wk_world k))(a := None)"
    using recycle_frames(1) [OF k2(1)] recycle_frames(2) [OF k3(1)] by simp
  ultimately show thesis using rs m k2(7) by (intro that [of rs m k3]) simp_all
qed

text \<open>The threads of \<open>B\<close> are gone, and the collector at most shortened the lists of the others.\<close>

definition only_gone :: "addr set \<Rightarrow> 'x worker \<Rightarrow> 'x worker \<Rightarrow> bool" where
  "only_gone B k k' \<longleftrightarrow> (\<forall>a. map_option unlisted (w_ths (wk_world k') a)
     = (if a \<in> B then None else map_option unlisted (w_ths (wk_world k) a)))"

text \<open>The calls of the worker give memory back and take none.\<close>

definition only_gives :: "'x env \<Rightarrow> addr \<Rightarrow> bool" where
  "only_gives en mp \<longleftrightarrow> (\<forall>c k. live mp (lua_work en c k) \<subseteq> live mp k)"

lemma only_gone_thread:
  assumes "only_gone B k k'" and "w_ths (wk_world k) a = Some t" and "a \<notin> B"
  obtains t' where "w_ths (wk_world k') a = Some t'" "unlisted t' = unlisted t"
proof -
  from assms have "map_option unlisted (w_ths (wk_world k') a) = Some (unlisted t)" unfolding only_gone_def by simp
  with that show thesis by auto
qed

lemma only_gone_None:
  assumes "only_gone B k k'" and "a \<in> B \<or> w_ths (wk_world k) a = None"
  shows "w_ths (wk_world k') a = None"
proof -
  have "map_option unlisted (w_ths (wk_world k') a) = None" using assms by (cases "a \<in> B") (simp_all add: only_gone_def)
  then show ?thesis by simp
qed

lemma only_gone_step:
  assumes "only_gone B k k1" and "lua_frame k1 k2" and "w_ths (wk_world k3) = (w_ths (wk_world k2))(a := None)"
  shows "only_gone (insert a B) k k3"
  unfolding only_gone_def
proof
  fix b
  have "map_option unlisted (w_ths (wk_world k2) b) = map_option unlisted (w_ths (wk_world k1) b)" using assms(2) by (simp add: lua_frame_def)
  then show "map_option unlisted (w_ths (wk_world k3) b) = (if b \<in> insert a B then None else map_option unlisted (w_ths (wk_world k) b))"
    using assms(1,3) by (cases "b = a"; cases "b \<in> B") (auto simp: only_gone_def)
qed

text \<open>The same when all that is known of the call is its contract.\<close>

lemma free_thread_keeps:
  assumes calls: "calls_keep en mp" and core: "core_ok UNIV mp S k" and "w_ths (wk_world k) a = Some t"
  obtains m k1 k' t1 rs where "k1 = lua_work en (LC_Unref (th_T t) (th_tid t)) k" "free_thread en a k = Some k'"
    "core_ok UNIV mp (S - {a}) k'" "wk_stop k' = wk_stop k" "live mp k' = live mp k1 - {m, a}" "lua_frame k k1"
    "w_ths (wk_world k') = (w_ths (wk_world k1))(a := None)" "w_pools (wk_world k') = w_pools (wk_world k)"
    "w_nodes (wk_world k') = (w_nodes (wk_world k))(a := None)" "core_ok UNIV mp S k1"
    "w_ths (wk_world k1) a = Some t1" "owns (wk_world k1) t1 rs" "th_mfd_res t1 = Some m"
    "w_res (wk_world k') = (orphaned (w_res (wk_world k1)) (set rs))(m := None)"
proof -
  let ?k1 = "lua_work en (LC_Unref (th_T t) (th_tid t)) k"
  note core1 = calls_keepD(1) [OF calls core] and frame = calls_keepD(2) [OF calls core, of "LC_Unref (th_T t) (th_tid t)"]
  obtain t1 where t1: "w_ths (wk_world ?k1) a = Some t1" "unlisted t1 = unlisted t" by (rule lua_frame_thread [OF frame assms(3)])
  obtain rs m k' where t1': "owns (wk_world ?k1) t1 rs" "w_res (wk_world k') = (orphaned (w_res (wk_world ?k1)) (set rs))(m := None)"
    and k': "th_mfd_res t1 = Some m" "free_thread en a k = Some k'" "core_ok UNIV mp (S - {a}) k'" "wk_stop k' = wk_stop ?k1"
    "live mp k' = live mp ?k1 - {m, a}" "w_ths (wk_world k') = (w_ths (wk_world ?k1))(a := None)"
    "w_pools (wk_world k') = w_pools (wk_world ?k1)" "w_nodes (wk_world k') = (w_nodes (wk_world ?k1))(a := None)"
    by (rule free_thread_ok [OF core1 t1(1) assms(3) HOL.refl]) blast
  then show thesis using frame core1 t1(1) t1'
    by (intro that [of ?k1 k' m t1 rs]) (simp_all add: lua_frame_def)
qed

text \<open>Every thread of the array is freed, each with the resource of its connection.\<close>

lemma process_stop_threads_ok:
  assumes "worker_ok mp ys k" and calls: "calls_keep en mp" and cx: "cx_stop_threads cx \<noteq> None"
  shows "\<exists>k'. process_stop_threads en cx k = Some k' \<and> core_ok UNIV mp {} k' \<and> wk_stop k' = wk_stop k
    \<and> only_gone (set ys) k k' \<and> (only_gives en mp \<longrightarrow> live mp k' \<subseteq> live mp k - set ys)"
proof -
  let ?f = "\<lambda>i k. do { p \<leftarrow> arr_get (ta_ths (wk_stop k)) i; th \<leftarrow> p; free_thread en th k }"
  let ?I = "\<lambda>i k'. core_ok UNIV mp (set (drop i ys)) k' \<and> wk_stop k' = wk_stop k \<and> only_gone (set (take i ys)) k k'
    \<and> (only_gives en mp \<longrightarrow> live mp k' \<subseteq> live mp k - set (take i ys))"
  have core: "core_ok UNIV mp (set ys) k" and stop: "stop_ok ys (wk_stop k)" using assms(1) by (simp_all add: worker_ok_core)
  have len: "length ys \<le> length (ta_ths (wk_stop k))"
    using stop unfolding stop_ok_def by (metis length_map length_take min.cobounded1)
  have nth: "arr_get (ta_ths (wk_stop k)) i = Some (Some (ys ! i))" if "i < length ys" for i
  proof -
    have "take (length ys) (ta_ths (wk_stop k)) ! i = Some (ys ! i)" using stop that by (simp add: stop_ok_def)
    with that len show ?thesis by simp
  qed
  have step: "\<exists>k''. ?f i k' = Some k'' \<and> ?I (Suc i) k''" if i: "i < length ys" "?I i k'" for i k'
  proof -
    let ?a = "ys ! i"
    have dist: "distinct ys" using stop by (simp add: stop_ok_def)
    have parts: "drop i ys = ?a # drop (Suc i) ys" "take (Suc i) ys = take i ys @ [?a]"
      using i(1) by (simp_all add: Cons_nth_drop_Suc take_Suc_conv_app_nth)
    have "distinct (take i ys @ drop i ys)" using dist by simp
    then have a: "?a \<notin> set (take i ys)" "?a \<notin> set (drop (Suc i) ys)" unfolding parts by auto
    from i(2) have I: "core_ok UNIV mp (set (drop i ys)) k'" "wk_stop k' = wk_stop k" "only_gone (set (take i ys)) k k'" by blast+
    have "?a \<in> stopped (wk_world k)" using core i(1) by (simp add: core_ok_def)
    then obtain t0 where t0: "w_ths (wk_world k) ?a = Some t0" by (auto simp: stopped_def)
    obtain t where t: "w_ths (wk_world k') ?a = Some t" by (rule only_gone_thread [OF I(3) t0 a(1)]) blast
    obtain m k1 k'' where k'': "k1 = lua_work en (LC_Unref (th_T t) (th_tid t)) k'" "free_thread en ?a k' = Some k''"
      "core_ok UNIV mp (set (drop i ys) - {?a}) k''" "wk_stop k'' = wk_stop k'" "live mp k'' = live mp k1 - {m, ?a}"
      "lua_frame k' k1" "w_ths (wk_world k'') = (w_ths (wk_world k1))(?a := None)"
      by (rule free_thread_keeps [OF calls I(1) t]) blast
    have "set (drop i ys) - {?a} = set (drop (Suc i) ys)" using a(2) parts(1) by auto
    moreover have "?f i k' = Some k''" using I(2) nth [OF i(1)] k''(2) by simp
    moreover have "only_gone (set (take (Suc i) ys)) k k''"
      using only_gone_step [OF I(3) k''(6,7)] unfolding parts(2) by simp
    moreover have "live mp k'' \<subseteq> live mp k - set (take (Suc i) ys)" if give: "only_gives en mp"
    proof -
      have "live mp k1 \<subseteq> live mp k'" using give k''(1) by (simp add: only_gives_def)
      moreover have "live mp k' \<subseteq> live mp k - set (take i ys)" using i(2) give by blast
      ultimately show ?thesis unfolding parts(2) k''(5) by auto
    qed
    ultimately show ?thesis using k''(3,4) I(2) by (intro exI [of _ k'']) simp
  qed
  have "?I 0 k" using core by (simp add: only_gone_def)
  then have "\<exists>k'. foldM ?f [0..<length ys] k = Some k' \<and> ?I (length ys) k'"
    by (rule foldM_upt_invariant [OF le0]) (rule step)
  with stop cx show ?thesis by (auto simp: process_stop_threads_def stop_ok_def)
qed

text \<open>One turn of the loop.\<close>

lemma turn_ok:
  assumes lua: "lua_keeps en mp" and mp: "cx_mem_pool cx = Some mp" and start: "core_ok UNIV mp {} k"
    and k1: "process_io en cx single_mode (k\<lparr>wk_stop := (wk_stop k)\<lparr>ta_n := 0\<rparr>\<rparr>) = Some k1"
    and k2: "process_io_timeout en cx k1 = Some k2" and k3: "process_sleep en cx k2 = Some k3"
  obtains ys where "worker_ok mp ys k3" "cx_stop_threads cx = None \<longrightarrow> ys = []"
    "cx_stop_threads cx \<noteq> None \<Longrightarrow> \<exists>k'. process_turn en cx single_mode k = Some k' \<and> core_ok UNIV mp {} k' \<and> only_gone (set ys) k3 k'
       \<and> (only_gives en mp \<longrightarrow> live mp k' \<subseteq> live mp k3 - set ys)"
proof -
  have calls: "calls_keep en mp" using lua by (simp add: lua_keeps_def)
  have "worker_ok mp [] (k\<lparr>wk_stop := (wk_stop k)\<lparr>ta_n := 0\<rparr>\<rparr>)"
    using start by (simp add: worker_ok_core core_ok_def blocks_ok_def stop_ok_def)
  then have "threads_ok cx mp (k\<lparr>wk_stop := (wk_stop k)\<lparr>ta_n := 0\<rparr>\<rparr>)" by (auto simp: threads_ok_def)
  from process_io_ok [OF lua mp this k1] have "threads_ok cx mp k1" .
  from timeouts_ok(1) [OF lua this k2] have "threads_ok cx mp k2" .
  from timeouts_ok(2) [OF lua this k3] obtain ys where ys: "worker_ok mp ys k3" "cx_stop_threads cx = None \<longrightarrow> ys = []"
    by (auto simp: threads_ok_def)
  show thesis
  proof (rule that [OF ys])
    assume cx: "cx_stop_threads cx \<noteq> None"
    then have "process_turn en cx single_mode k = process_stop_threads en cx k3" using k1 k2 k3 by (auto simp: process_turn_def)
    with process_stop_threads_ok [OF ys(1) calls cx] show "\<exists>k'. process_turn en cx single_mode k = Some k' \<and> core_ok UNIV mp {} k' \<and> only_gone (set ys) k3 k'
       \<and> (only_gives en mp \<longrightarrow> live mp k' \<subseteq> live mp k3 - set ys)" by auto
  qed
qed

subsection \<open>The start\<close>

text \<open>What is asked of the start of Lua: its memory comes from the pool, by the rules of a client of the pool.\<close>

definition lua_boots :: "(ptr \<Rightarrow> 'x worker \<Rightarrow> 'x worker option) \<Rightarrow> bool" where
  "lua_boots lua_start \<longleftrightarrow> (\<forall>p k. pool_ok p (wk_mem k) \<longrightarrow> (\<exists>x m. lua_start (Some p) k = Some (on_ext (\<lambda>_. x) (k\<lparr>wk_mem := m\<rparr>))
     \<and> pool_run p (wk_mem k) m \<and> pool_live p (wk_mem k) \<subseteq> pool_live p m \<and> oom m = oom (wk_mem k)))"

lemma stop_class: "i < 14 \<Longrightarrow> sizeof_thread_array_max \<le> worker_sizes ! i \<Longrightarrow> worker_sizes ! i \<le> 1064 \<Longrightarrow> i = 11"
proof -
  have "list_all (\<lambda>i. sizeof_thread_array_max \<le> worker_sizes ! i \<longrightarrow> worker_sizes ! i \<le> 1064 \<longrightarrow> i = 11) [0..<14]" by code_simp
  then show "i < 14 \<Longrightarrow> sizeof_thread_array_max \<le> worker_sizes ! i \<Longrightarrow> worker_sizes ! i \<le> 1064 \<Longrightarrow> i = 11"
    by (simp add: list_all_iff)
qed

lemma stop_block:
  assumes "pool_ok p s" and "pools s p = Some pl" and "classes pl = 14" and "map (class_size pl) [0..<14] = worker_sizes"
    and "\<not> oom s (brk s)"
  obtains a s' b where "memp_alloc (Some p) sizeof_thread_array_max s = Some (Some a, s')" "pool_ok p s'"
    "a \<notin> pool_live p s" "pool_live p s' = insert a (pool_live p s)" "blks s' a = Some b" "length (d_d b) = 1064"
proof -
  from assms(1) obtain fl where inv: "memp_inv p fl s" by (auto simp: pool_ok_def)
  have ok: "sizeof_thread_array_max \<noteq> 0" "unat sizeof_thread_array_max < 2 ^ 64 - 8" by (simp_all add: sizeof_thread_array_max_def)
  obtain r s' fl' where s': "memp_alloc (Some p) sizeof_thread_array_max s = Some (r, s')" "memp_inv p fl' s'"
    "alloc_post p pl sizeof_thread_array_max s r s'" using memp_alloc_correct [OF inv assms(2) ok] by blast
  from s'(3) assms(5) obtain a i b where a: "r = Some a" "a \<notin> owned p UNIV (blks s)" "best_class pl sizeof_thread_array_max i"
    "blks s' = (blks s)(a \<mapsto> b)" "d_p b = Field p i"
    "length (d_d b) = (if i < classes pl then unat (class_size pl i) else unat sizeof_thread_array_max)"
    by (cases r) (auto simp: alloc_post_def)
  have sizes: "class_size pl j = worker_sizes ! j" if "j < 14" for j
    using arg_cong [OF assms(4), of "\<lambda>xs. xs ! j"] that by simp
  have at11: "worker_sizes ! 11 = 1064" "sizeof_thread_array_max = 848" by (simp_all add: worker_sizes_def sizeof_thread_array_max_def)
  have "i \<noteq> 14"
  proof
    assume "i = 14"
    with a(3) assms(3) have "class_size pl 11 < sizeof_thread_array_max" by (simp add: best_class_def)
    with sizes [of 11] at11 show False by (simp add: sizeof_thread_array_max_def)
  qed
  then have i: "i < 14" using a(3) assms(3) by (simp add: best_class_def)
  have "sizeof_thread_array_max \<le> worker_sizes ! i \<and> worker_sizes ! i \<le> worker_sizes ! 11"
  proof -
    have "sizeof_thread_array_max \<le> class_size pl 11" using sizes [of 11] at11(1) by (simp add: sizeof_thread_array_max_def)
    moreover have "11 < classes pl" "i < classes pl" using i assms(3) by simp_all
    ultimately have "sizeof_thread_array_max \<le> class_size pl i \<and> class_size pl i \<le> class_size pl 11"
      using a(3) unfolding best_class_def by blast
    with sizes [of 11] sizes [OF i] show ?thesis by simp
  qed
  then have "i = 11" using stop_class [OF i] at11 by simp
  then have "length (d_d b) = 1064" using a(6) assms(3) sizes [of 11] by (simp add: worker_sizes_def)
  moreover have "owned p UNIV (blks s') = insert a (owned p UNIV (blks s))" using a(4,5) by (auto simp: owned_upd_Some)
  ultimately show thesis using that [of a s' b] s'(1,2) a(1,2,4) by (auto simp: pool_ok_def pool_live_def)
qed

lemma process_start_ok:
  assumes fresh: "fresh_ok (brk s) (blks s)" "owned (brk s) UNIV (blks s) = {}" "\<forall>n. \<not> oom s n"
    and k: "wk_mem k = s" "w_ths (wk_world k) = (\<lambda>_. None)" "w_res (wk_world k) = (\<lambda>_. None)" and lua: "lua_boots lua_start"
  shows "\<exists>cx k'. process_start en create lua_start io sl cfd conn_timeout k = Some (cx, k') \<and> cx_mem_pool cx = Some (brk s)
    \<and> core_ok UNIV (brk s) {} k' \<and> length (ta_ths (wk_stop k')) = 132 \<and> cx_stop_threads cx \<noteq> None
    \<and> (\<exists>r. w_res (wk_world k') (cx_cfd_res cx) = Some r \<and> rs_d r = cfd \<and> rs_freef r = None \<and> rs_th r = None)"
proof -
  let ?p = "brk s"
  have small: "unat x < 2 ^ 64 - 8" if "x \<in> set worker_sizes" for x
    using that by (auto simp: worker_sizes_def)
  have n: "0 < unat (14 :: u32)" "unat (14 :: u32) \<le> 255" "unat (14 :: u32) \<le> length worker_sizes"
    by (simp_all add: worker_sizes_def)
  obtain m0 pl where m0: "memp_new worker_sizes 14 s = Some (Some ?p, m0)" "memp_inv ?p (\<lambda>_. []) m0" "blks m0 = blks s"
    "oom m0 = oom s" "pools m0 = (pools s)(?p \<mapsto> pl)" "classes pl = 14"
    "map (class_size pl) [0..<14] = sort (take 14 worker_sizes)"
    using memp_new_correct [OF n small fresh(1,2)] fresh(3) by auto
  have sorted: "sort (take 14 worker_sizes) = worker_sizes" by (simp add: worker_sizes_def)
  let ?w0 = "(wk_world k)\<lparr>w_ext := snd (set_non_block (net.truncate en) cfd (w_ext (wk_world k))),
    w_pools := (w_pools (wk_world k))(io \<mapsto> None, sl \<mapsto> None)\<rparr>"
  let ?k0 = "k\<lparr>wk_world := ?w0, wk_mem := m0\<rparr>"
  let ?cx = "\<lparr>cx_mem_pool = Some ?p, cx_io_pool = io, cx_sleep_pool = sl, cx_stop_threads = None, cx_cfd_res = 0,
    cx_epfd = 0, cx_cfd = cfd, cx_conn_timeout = conn_timeout\<rparr>"
  have core0: "core_ok UNIV ?p {} ?k0"
    using m0(2) k(2,3) by (auto simp: core_ok_def blocks_ok_def owners_ok_def stopped_def pool_ok_def)
  have "no_oom ?k0" using fresh(3) m0(4) by (simp add: no_oom_def)
  then obtain r k1 where k1: "alloc_res ?cx ?k0 = Some (Some r, k1)" "w_ths (wk_world k1) = (\<lambda>_. None)"
    "oom (wk_mem k1) = oom s" "blocks_ok ?p k1" "w_res (wk_world k1) = [r \<mapsto> fresh_res]"
    using alloc_res_ok [OF core0, of ?cx] k(2,3) m0(4) by (auto split: option.splits)
  have live1: "live ?p k1 = insert r (live ?p ?k0)" and same1: "same_classes ?p m0 (wk_mem k1)"
    using alloc_res_ok [OF core0, of ?cx] k1(1) by auto
  let ?r = "fresh_res\<lparr>rs_freef := None, rs_th := None, rs_d := cfd\<rparr>"
  let ?w1 = "(wk_world k1)\<lparr>w_res := [r \<mapsto> ?r]\<rparr>"
  have set1: "set_res (\<lambda>r. r\<lparr>rs_freef := None, rs_th := None, rs_d := cfd\<rparr>) (Some r) (wk_world k1) = Some ?w1"
    using k1(5) by (simp add: set_res_Some)
  obtain epfd x where create: "create (w_ext (wk_world k1)) = (epfd, x)" by fastforce
  let ?k2 = "on_ext (\<lambda>_. snd (en_ctl en EP_Add epfd cfd r (EPOLLIN OR EPOLLET) x)) (k1\<lparr>wk_world := ?w1\<rparr>)"
  have mem2: "wk_mem ?k2 = wk_mem k1" by (simp add: on_ext_def)
  have pool2: "pool_ok ?p (wk_mem k1)" using k1(4) by (simp add: blocks_ok_def)
  obtain x3 m3 where k3: "lua_start (Some ?p) ?k2 = Some (on_ext (\<lambda>_. x3) (?k2\<lparr>wk_mem := m3\<rparr>))" "pool_run ?p (wk_mem k1) m3"
    "pool_live ?p (wk_mem k1) \<subseteq> pool_live ?p m3" "oom m3 = oom (wk_mem k1)"
    using lua pool2 mem2 unfolding lua_boots_def by metis
  from pool_run_ok [OF k3(2) pool2] have m3: "pool_ok ?p m3" "same_classes ?p (wk_mem k1) m3" by auto
  obtain pl3 where pl3: "pools m3 ?p = Some pl3" "classes pl3 = 14" "class_size pl3 = class_size pl"
    using same1 m3(2) m0(5,6) unfolding same_classes_def by force
  obtain a m4 b where m4: "memp_alloc (Some ?p) sizeof_thread_array_max m3 = Some (Some a, m4)" "pool_ok ?p m4"
    "pool_live ?p m4 = insert a (pool_live ?p m3)" "blks m4 a = Some b" "length (d_d b) = 1064"
    by (rule stop_block [OF m3(1) pl3(1,2)]) (use pl3(3) m0(7) sorted k3(4) k1(3) fresh(3) in auto)
  let ?k4 = "on_ext (\<lambda>_. x3) (?k2\<lparr>wk_mem := m3\<rparr>)\<lparr>wk_mem := m4, wk_stop := \<lparr>ta_n = 0, ta_ths = replicate 132 None\<rparr>\<rparr>"
  let ?cx' = "?cx\<lparr>cx_stop_threads := Some a, cx_cfd_res := r, cx_epfd := epfd\<rparr>"
  have "process_start en create lua_start io sl cfd conn_timeout k = Some (?cx', ?k4)"
    using m0(1) k1(1) set1 create k3(1) m4(1,4,5) k(1)
    by (simp add: process_start_def on_ext_def on_world_def Let_def)
  moreover have "core_ok UNIV ?p {} ?k4"
    using m4(2,3) k3(3) live1 k1(2)
    by (auto simp: core_ok_def blocks_ok_def owners_ok_def stopped_def on_ext_def)
  ultimately show ?thesis by (intro exI [of _ ?cx'] exI [of _ ?k4]) (simp add: on_ext_def)
qed

lemma accept_refused:
  assumes core: "core_ok UNIV mp S k" and mp: "cx_mem_pool cx = Some mp" and ref: "\<And>n x. fst (lua_ref en n x) = None"
    and work: "\<And>c k. lua_work en c k = k"
  shows "\<exists>k' tid. accept_one en cx fd k = Some k' \<and> live mp k' = live mp k \<and> w_ths (wk_world k') = w_ths (wk_world k)
    \<and> w_res (wk_world k') = w_res (wk_world k)
    \<and> w_ext (wk_world k') = snd (lua_ref en tid (snd (set_non_block (net.truncate en) fd (w_ext (wk_world k)))))"
proof -
  let ?k0 = "on_ext (\<lambda>x. snd (set_non_block (net.truncate en) fd x)) k"
  have core0: "core_ok UNIV mp S ?k0" by (rule quiet_core [OF on_ext_quiet core])
  obtain r k1 where k1: "alloc_thread cx ?k0 = Some (r, k1)" "live mp k1 = live mp k \<union> set_option r"
    "w_res (wk_world k1) = w_res (wk_world k)" "w_ext (wk_world k1) = snd (set_non_block (net.truncate en) fd (w_ext (wk_world k)))"
    "case r of None \<Rightarrow> w_ths (wk_world k1) = w_ths (wk_world k)
       | Some a \<Rightarrow> core_ok (- {a}) mp S k1 \<and> a \<notin> live mp k \<and> w_ths (wk_world k1) = (w_ths (wk_world k))(a \<mapsto> fresh_thread)"
    using alloc_thread_ok [OF core0 mp] by (auto simp: on_ext_def split: option.splits)
  let ?tid = "w_cur_tid (wk_world k1) + 1"
  obtain x where x: "lua_ref en ?tid (w_ext (wk_world k1)) = (None, x)" using ref [of ?tid] by (metis prod.collapse)
  have init: "asthread_th_init (lua_ref en) r (wk_world k1) = Some (-1, (wk_world k1)\<lparr>w_ext := x\<rparr>)"
    using x by (simp add: asthread_th_init_def Let_def)
  let ?k2 = "on_ext (\<lambda>_. x) k1"
  have code: "accept_one en cx fd k = recycle_thread r ?k2"
    using k1(1) init by (simp add: accept_one_def on_world_def on_ext_def work)
  show ?thesis
  proof (cases r)
    case None
    with code k1 x show ?thesis
      by (intro exI [of _ ?k2] exI [of _ ?tid]) (simp add: recycle_thread_def memp_recycle_def on_ext_def)
  next
    case (Some a)
    have core2: "core_ok (- {a}) mp S ?k2" by (rule quiet_core [OF on_ext_quiet]) (use k1(5) Some in simp)
    have a: "w_ths (wk_world k) a = None" "a \<notin> live mp k" using core k1(5) Some by (auto simp: core_ok_def blocks_ok_def)
    have "a \<in> dom (w_ths (wk_world ?k2))" using k1(5) Some by (simp add: on_ext_def)
    from recycle_thread_ok [OF core2 this] obtain k3 where k3: "recycle_thread (Some a) ?k2 = Some k3" "live mp k3 = live mp ?k2 - {a}"
      "w_ths (wk_world k3) = (w_ths (wk_world ?k2))(a := None)" "w_res (wk_world k3) = w_res (wk_world ?k2)"
      "w_ext (wk_world k3) = w_ext (wk_world ?k2)" by blast
    have "(w_ths (wk_world k))(a := None) = w_ths (wk_world k)" using a(1) by (simp add: fun_upd_idem)
    with code k1 Some k3 a x show ?thesis
      by (intro exI [of _ k3] exI [of _ ?tid]) (auto simp: on_ext_def)
  qed
qed

subsection \<open>The properties, and a worker to see them on\<close>

text \<open>Of the outside world only the pending connections and the closed descriptors are kept.\<close>

definition accept_next :: "int list \<times> int list \<Rightarrow> int \<times> int list \<times> int list" where
  "accept_next x = (case x of ([], c) \<Rightarrow> (-1, [], c) | (f # fs, c) \<Rightarrow> (f, fs, c))"

definition log_close :: "int \<Rightarrow> int list \<times> int list \<Rightarrow> int list \<times> int list" where
  "log_close d x = (fst x, d # snd x)"

definition life_env :: "(int list \<times> int list) env" where
  "life_env = demo_env accept_next log_close LOk"

definition life_cx :: worker_ctx where
  "life_cx = demo_cx\<lparr>cx_sleep_pool := 11\<rparr>"

definition life_worker :: "(int list \<times> int list) worker" where
  "life_worker = \<lparr>wk_world = \<lparr>w_nodes = (\<lambda>_. None), w_pools = [10 \<mapsto> None, 11 \<mapsto> None], w_ths = (\<lambda>_. None),
     w_res = (\<lambda>_. None), w_cur_tid = 0, w_ext = ([7], [])\<rparr>, wk_mem = small_mem, wk_stop = \<lparr>ta_n = 0, ta_ths = [None, None]\<rparr>\<rparr>"

lemma life_core: "core_ok UNIV 0 {} life_worker"
  using small_mem_inv by (auto simp: core_ok_def blocks_ok_def owners_ok_def stopped_def life_worker_def pool_ok_def)

lemma life_no_oom: "no_oom life_worker"
  by (simp add: no_oom_def life_worker_def small_mem_def)

lemma life_lua: "lua_keeps life_env mp"
  by (simp add: lua_keeps_def calls_keep_def life_env_def demo_env_def)

text \<open>C3: in a turn of the worker's loop whose first three phases return (they do not overrun the array of stopped
  threads, and the timeouts find trees that they can take apart), whatever the events and whatever
  the Lua code yields, each thread that ended is in the array exactly once, and nothing else is,
  when the turn comes to \<open>process_stop_threads\<close>; that then never goes wrong: exactly these threads are
  freed, the others keep their state but for resources that the collector takes from their lists,
  and no freed block is left in use, unless a later call of Lua allocated it again.\<close>

theorem turn_frees_stopped:
  assumes "lua_keeps en mp" and "cx_mem_pool cx = Some mp" and "core_ok UNIV mp {} k"
    and "process_io en cx single_mode (k\<lparr>wk_stop := (wk_stop k)\<lparr>ta_n := 0\<rparr>\<rparr>) = Some k1"
    and "process_io_timeout en cx k1 = Some k2" and "process_sleep en cx k2 = Some k3" and "cx_stop_threads cx \<noteq> None"
  shows "\<exists>ys k'. ta_n (wk_stop k3) = length ys \<and> take (length ys) (ta_ths (wk_stop k3)) = map Some ys
    \<and> distinct ys \<and> set ys = stopped (wk_world k3) \<and> process_turn en cx single_mode k = Some k'
    \<and> only_gone (set ys) k3 k' \<and> core_ok UNIV mp {} k'
    \<and> (only_gives en mp \<longrightarrow> live mp k' \<subseteq> live mp k3 - set ys)"
  by (rule turn_ok [OF assms(1-6)]) (use assms(7) in \<open>auto simp: worker_ok_def stop_ok_def\<close>)

theorem turn_frees_stopped_witness:
  "\<exists>k'. process_turn life_env life_cx True life_worker = Some k' \<and> core_ok UNIV 0 {} k' \<and> snd (w_ext (wk_world k')) = [7]"
proof -
  let ?io = "process_io life_env life_cx True (life_worker\<lparr>wk_stop := (wk_stop life_worker)\<lparr>ta_n := 0\<rparr>\<rparr>)"
  have "\<not> Option.is_none ?io" by code_simp
  moreover have "\<not> Option.is_none (process_io_timeout life_env life_cx (the ?io))" by code_simp
  moreover have "\<not> Option.is_none (process_sleep life_env life_cx (the (process_io_timeout life_env life_cx (the ?io))))" by code_simp
  ultimately obtain k1 k2 k3 where k: "?io = Some k1" "process_io_timeout life_env life_cx k1 = Some k2"
    "process_sleep life_env life_cx k2 = Some k3" by (auto simp: Option.is_none_def)
  have cx: "cx_mem_pool life_cx = Some 0" "cx_stop_threads life_cx \<noteq> None" by (simp_all add: life_cx_def demo_cx_def)
  from turn_frees_stopped [OF life_lua cx(1) life_core k cx(2)] obtain k' where
    "process_turn life_env life_cx True life_worker = Some k'" "core_ok UNIV 0 {} k'" by blast
  moreover have "map_option (\<lambda>k. snd (w_ext (wk_world k))) (process_turn life_env life_cx True life_worker) = Some [7]" by code_simp
  ultimately show ?thesis by auto
qed

text \<open>When memory does not run out, \<open>handle_accept\<close> takes each connection in one of two ways: the Lua
  coroutine is refused and no thread is left, or the thread starts with a block of its own and a
  resource that holds the descriptor, everything else keeping its invariant.\<close>

theorem accept_prepares:
  assumes "core_ok UNIV mp S k" and "cx_mem_pool cx = Some mp" and "calls_keep en mp" and "no_oom k"
  shows "(\<exists>k'. accept_one en cx fd k = Some k' \<and> core_ok UNIV mp S k' \<and> wk_stop k' = wk_stop k
        \<and> (\<forall>b. map_option unlisted (w_ths (wk_world k') b) = map_option unlisted (w_ths (wk_world k) b)))
    \<or> (\<exists>a m k1. conn_ready mp S fd a m k k1 \<and> accept_one en cx fd k = thread_resume en cx a [] k1)"
  using accept_one_cases [OF assms(1-3), of fd] assms(4) by blast

theorem accept_prepares_witness:
  "\<exists>a m k1. conn_ready 0 {} 7 a m life_worker k1
    \<and> accept_one life_env life_cx 7 life_worker = thread_resume life_env life_cx a [] k1"
proof -
  have "map_option (\<lambda>k. ta_n (wk_stop k)) (accept_one life_env life_cx 7 life_worker) = Some 1" by code_simp
  moreover have "ta_n (wk_stop life_worker) = 0" "cx_mem_pool life_cx = Some 0" by (simp_all add: life_worker_def life_cx_def demo_cx_def)
  moreover have "calls_keep life_env 0" using life_lua by (simp add: lua_keeps_def)
  ultimately show ?thesis using accept_prepares [OF life_core _ _ life_no_oom, of life_cx life_env 7] by auto
qed

text \<open>When Lua refuses a coroutine for an accepted connection, and the call collects nothing, the worker gives the thread's block back
  and goes on, and never closes the descriptor: all it did to the outside world is to make the
  descriptor non-blocking and to ask for the coroutine.\<close>

theorem accept_leaks_refused:
  assumes "core_ok UNIV mp S k" and "cx_mem_pool cx = Some mp" and "\<And>n x. fst (lua_ref en n x) = None"
    and "\<And>c k. lua_work en c k = k"
  shows "\<exists>k' tid. accept_one en cx fd k = Some k' \<and> live mp k' = live mp k \<and> w_ths (wk_world k') = w_ths (wk_world k)
    \<and> w_res (wk_world k') = w_res (wk_world k)
    \<and> w_ext (wk_world k') = snd (lua_ref en tid (snd (set_non_block (net.truncate en) fd (w_ext (wk_world k)))))"
  by (rule accept_refused [OF assms])

theorem accept_leaks_refused_witness:
  "\<exists>k'. accept_one (life_env\<lparr>lua_ref := \<lambda>_ x. (None, x)\<rparr>) life_cx 7 life_worker = Some k' \<and> snd (w_ext (wk_world k')) = []"
proof -
  have work: "lua_work (life_env\<lparr>lua_ref := \<lambda>_ x. (None, x)\<rparr>) c k = k" for c k by (simp add: life_env_def demo_env_def)
  have "cx_mem_pool life_cx = Some 0" by (simp add: life_cx_def demo_cx_def)
  from accept_leaks_refused [where en = "life_env\<lparr>lua_ref := \<lambda>_ x. (None, x)\<rparr>" and fd = 7, OF life_core this _ work] obtain k' where
    "accept_one (life_env\<lparr>lua_ref := \<lambda>_ x. (None, x)\<rparr>) life_cx 7 life_worker = Some k'"
    "w_ext (wk_world k') = snd (set_non_block (net.truncate (life_env\<lparr>lua_ref := \<lambda>_ x. (None, x)\<rparr>)) 7 (w_ext (wk_world life_worker)))" by auto
  then show ?thesis by (auto simp: set_non_block_def life_env_def demo_env_def net.truncate_def life_worker_def)
qed

text \<open>C36: \<open>process\<close> reaches its loop in a state that keeps the invariant, without any thread, with the
  listening descriptor in a resource without owner; its array of stopped threads has room for 132
  threads, not for the number that may end in one turn.\<close>

theorem worker_starts:
  assumes "fresh_ok (brk s) (blks s)" and "owned (brk s) UNIV (blks s) = {}" and "\<forall>n. \<not> oom s n" and "wk_mem k = s"
    and "w_ths (wk_world k) = (\<lambda>_. None)" and "w_res (wk_world k) = (\<lambda>_. None)" and "lua_boots lua_start"
  shows "\<exists>cx k'. process_start en create lua_start io sl cfd conn_timeout k = Some (cx, k') \<and> cx_mem_pool cx = Some (brk s)
    \<and> core_ok UNIV (brk s) {} k' \<and> length (ta_ths (wk_stop k')) = 132 \<and> cx_stop_threads cx \<noteq> None
    \<and> (\<exists>r. w_res (wk_world k') (cx_cfd_res cx) = Some r \<and> rs_d r = cfd \<and> rs_freef r = None \<and> rs_th r = None)"
  by (rule process_start_ok [OF assms])

theorem worker_starts_witness:
  "\<exists>cx k'. process_start life_env (\<lambda>x. (9, x)) (\<lambda>_ k. Some k) 10 11 8 30 (life_worker\<lparr>wk_mem := no_mem\<rparr>) = Some (cx, k')
    \<and> core_ok UNIV 0 {} k' \<and> length (ta_ths (wk_stop k')) = 132"
proof -
  have "k = on_ext (\<lambda>_. w_ext (wk_world k)) (k\<lparr>wk_mem := wk_mem k\<rparr>)" for k :: "(int list \<times> int list) worker"
    by (simp add: on_ext_def)
  then have boot: "lua_boots (\<lambda>_ k :: (int list \<times> int list) worker. Some k)"
    unfolding lua_boots_def using pool_run.refl by blast
  have k: "wk_mem (life_worker\<lparr>wk_mem := no_mem\<rparr>) = no_mem" "w_ths (wk_world (life_worker\<lparr>wk_mem := no_mem\<rparr>)) = (\<lambda>_. None)"
    "w_res (wk_world (life_worker\<lparr>wk_mem := no_mem\<rparr>)) = (\<lambda>_. None)" by (simp_all add: life_worker_def)
  have oom: "\<forall>n. \<not> oom no_mem n" by (simp add: no_mem_def)
  from worker_starts [OF no_mem_clean(1,2) oom k boot, of life_env "\<lambda>x. (9, x)" 10 11 8 30] show ?thesis by (auto simp: no_mem_def)
qed

end
