(* ===== verification/Lm_Socket.thy ===== *)
theory Lm_Socket
  imports Worker_Life
begin

text \<open>
  The Lua module of sockets, \<^verbatim>\<open>src/c/src/lm_socket.h\<close> and \<^verbatim>\<open>src/c/src/lm_socket.c\<close>: the C
  functions that Lua code calls. Lua itself is not part of the program. A function gets its
  arguments as \<open>luaL_check*\<close> and \<open>lua_tolstring\<close> deliver them; it returns values, raises a Lua
  error, or yields values with the continuation that runs when the thread is resumed. A
  continuation gets the stack: the arguments of the function, then the values of the resume.
  \<open>cx\<close> is the worker's context in the registry, \<open>th\<close> the thread in the thread-local variable.
  What Lua itself allocates while such a function runs, and a collection in the middle of it, are not
  part of these definitions; a collection is a call of the finalizer \<open>lcf_socket_close\<close> between them.
\<close>

subsection \<open>Data\<close>

datatype sock_type = LM_SOCK_TYPE_SYSTEM | LM_SOCK_TYPE_CUSTOM

record lm_sock =
  sk_res :: ptr
  sk_type :: sock_type

record send_ctx =
  sx_res :: ptr
  sx_buf :: "u8 list"
  sx_len :: nat
  sx_idx :: nat

text \<open>
  The userdata of the module, the contexts of unfinished sends (a typed view of blocks of the
  memory pool) and the table \<open>LLK_RES_SOCK_TABLE\<close> of each thread, from resources to sockets.
\<close>

record 'x lua =
  lu_wk :: "'x worker"
  lu_socks :: "lm_sock store"
  lu_sends :: "send_ctx store"
  lu_tab :: "addr \<Rightarrow> ptr \<Rightarrow> ptr"
  lu_next :: addr

datatype kont = K_Read | K_Send addr | K_EvWait

datatype lcf = LRet "lval list" | LError | LYieldK "lval list" kont

definition EINVAL :: int where "EINVAL = 22"
definition EBADFD :: int where "EBADFD = 77"
definition ETIMEDOUT :: int where "ETIMEDOUT = 110"
definition LAS_D_TIMOUT_SECS :: int where "LAS_D_TIMOUT_SECS = 15"

definition sizeof_send_ctx :: size_t where
  "sizeof_send_ctx = 32"

text \<open>\<open>luaL_checkinteger (L, i)\<close>; \<open>None\<close> is the error it raises.\<close>

definition checkinteger :: "nat \<Rightarrow> lval list \<Rightarrow> int option" where
  "checkinteger i stk = (if 1 \<le> i \<and> i \<le> length stk then
     (case stk ! (i - 1) of LInt n \<Rightarrow> Some n | LCoerce n \<Rightarrow> Some n | _ \<Rightarrow> None) else None)"

text \<open>\<open>lua_touserdata (L, -i)\<close>.\<close>

definition userdata_from_top :: "nat \<Rightarrow> lval list \<Rightarrow> ptr" where
  "userdata_from_top i stk = (if 1 \<le> i \<and> i \<le> length stk then lua_touserdata (stk ! (length stk - i)) else None)"

definition lu_on_wk :: "('x worker \<Rightarrow> ('r \<times> 'x worker) option) \<Rightarrow> 'x lua \<Rightarrow> ('r \<times> 'x lua) option" where
  "lu_on_wk f s = map_option (\<lambda>(r, k). (r, s\<lparr>lu_wk := k\<rparr>)) (f (lu_wk s))"

definition lu_res :: "ptr \<Rightarrow> 'x lua \<Rightarrow> as_res option" where
  "lu_res p s = deref (w_res (wk_world (lu_wk s))) p"

definition lu_th :: "ptr \<Rightarrow> 'x lua \<Rightarrow> as_thread option" where
  "lu_th p s = deref (w_ths (wk_world (lu_wk s))) p"

definition lu_call :: "('x \<Rightarrow> 'r \<times> 'x) \<Rightarrow> 'x lua \<Rightarrow> 'r \<times> 'x lua" where
  "lu_call f s = (let (r, x) = f (w_ext (wk_world (lu_wk s))) in (r, s\<lparr>lu_wk := on_ext (\<lambda>_. x) (lu_wk s)\<rparr>))"

definition res_fd :: "as_res \<Rightarrow> int" where
  "res_fd r = res_fd_f (rs_fdf r) (rs_d r)"

subsection \<open>Opening and closing\<close>

definition new_userdata :: "lm_sock \<Rightarrow> 'x lua \<Rightarrow> addr \<times> 'x lua" where
  "new_userdata sk s = (lu_next s, s\<lparr>lu_socks := (lu_socks s)(lu_next s \<mapsto> sk), lu_next := Suc (lu_next s)\<rparr>)"

definition lcf_socket_get_msock :: "ptr \<Rightarrow> 'x lua \<Rightarrow> (lcf \<times> 'x lua) option" where
  "lcf_socket_get_msock th s = do {
     t \<leftarrow> lu_th th s;
     let (sock, s) = new_userdata \<lparr>sk_res = th_mfd_res t, sk_type = LM_SOCK_TYPE_SYSTEM\<rparr> s;
     Some (LRet [LUd sock], s)
   }"

text \<open>The resource of a socket that has been connected, from \<open>sock->res->d = fd\<close> on.\<close>

definition new_sock_res :: "'x env \<Rightarrow> worker_ctx \<Rightarrow> int \<Rightarrow> ptr \<Rightarrow> ptr \<Rightarrow> 'x world \<Rightarrow> 'x world option" where
  "new_sock_res en cx fd th res w = do {
     w \<leftarrow> set_res (rs_d_update (\<lambda>_. fd)) res w;
     (_, w) \<leftarrow> asthread_res_init res (Some 0) 0 w;
     r \<leftarrow> res;
     a \<leftarrow> th;
     (_, w) \<leftarrow> asthread_res_add_to_th r a w;
     (_, w) \<leftarrow> asthread_res_ev_init (en_ctl en) res_fd_f r (cx_epfd cx) w;
     Some w
   }"

definition lcf_socket_new :: "'x env \<Rightarrow> worker_ctx \<Rightarrow> ptr \<Rightarrow> string \<Rightarrow> int \<Rightarrow> 'x lua \<Rightarrow> (lcf \<times> 'x lua) option" where
  "lcf_socket_new en cx th host port s = do {
     let (sock, s) = new_userdata \<lparr>sk_res = None, sk_type = LM_SOCK_TYPE_CUSTOM\<rparr> s;
     (res, s) \<leftarrow> lu_on_wk (alloc_res cx) s;
     let s = s\<lparr>lu_socks := (lu_socks s)(sock \<mapsto> \<lparr>sk_res = res, sk_type = LM_SOCK_TYPE_CUSTOM\<rparr>)\<rparr>;
     if res = None then Some (LError, s)
     else do {
       let (fd, s) = lu_call (make_client_socket (net.truncate en) host (of_int port)) s;
       if fd < 0 then do {
         (_, s) \<leftarrow> lu_on_wk (\<lambda>k. map_option (Pair ()) (recycle_res res k)) s;
         Some (LError, s)
       }
       else do {
         let (_, s) = lu_call (set_non_block (net.truncate en) fd) s;
         (_, s) \<leftarrow> lu_on_wk (on_world (\<lambda>w. map_option (Pair ()) (new_sock_res en cx fd th res w))) s;
         Some (LRet [LUd sock], s)
       }
     }
   }"

definition lcf_socket_tostring :: "addr \<Rightarrow> 'x lua \<Rightarrow> (addr \<times> ptr \<times> int) option" where
  "lcf_socket_tostring sock s = do {
     sk \<leftarrow> lu_socks s sock;
     fd \<leftarrow> (if sk_res sk \<noteq> None then map_option res_fd (lu_res (sk_res sk) s) else Some (-1));
     Some (sock, sk_res sk, fd)
   }"

definition lcf_socket_get_res :: "addr \<Rightarrow> 'x lua \<Rightarrow> (lcf \<times> 'x lua) option" where
  "lcf_socket_get_res sock s = do {
     sk \<leftarrow> lu_socks s sock;
     Some (LRet [LPtr (sk_res sk)], s)
   }"

text \<open>Also the \<open>__gc\<close> of a socket.\<close>

definition lcf_socket_close :: "'x env \<Rightarrow> addr \<Rightarrow> 'x lua \<Rightarrow> (lcf \<times> 'x lua) option" where
  "lcf_socket_close en sock s = do {
     sk \<leftarrow> lu_socks s sock;
     if sk_res sk = None \<or> sk_type sk = LM_SOCK_TYPE_SYSTEM then Some (LRet [], s)
     else do {
       a \<leftarrow> sk_res sk;
       r \<leftarrow> lu_res (Some a) s;
       (_, s) \<leftarrow> (case rs_th r of
                    None \<Rightarrow> Some (0, s)
                  | Some th \<Rightarrow> lu_on_wk (on_world (asthread_res_del_from_th a th)) s);
       r \<leftarrow> lu_res (Some a) s;
       (_, s) \<leftarrow> (case rs_freef r of
                    None \<Rightarrow> Some ((), s)
                  | Some f \<Rightarrow> lu_on_wk (on_world (\<lambda>w. map_option (Pair ()) (res_free_f en f a w))) s);
       (_, s) \<leftarrow> lu_on_wk (\<lambda>k. map_option (Pair ()) (recycle_res (Some a) k)) s;
       Some (LRet [], s\<lparr>lu_socks := (lu_socks s)(sock \<mapsto> sk\<lparr>sk_res := None\<rparr>)\<rparr>)
     }
   }"

subsection \<open>Reading\<close>

definition read_values :: "int + u8 list \<Rightarrow> lval list" where
  "read_values r = (case r of Inl e \<Rightarrow> [LInt 0, LNil, LInt e] | Inr d \<Rightarrow> [LInt (int (length d)), LStr d, LNil])"

definition read_size :: "int \<Rightarrow> nat" where
  "read_size n = (if n \<le> 0 then 1024 else nat n)"

definition lcf_socket_sread :: "'x env \<Rightarrow> addr \<Rightarrow> int \<Rightarrow> 'x lua \<Rightarrow> (lcf \<times> 'x lua) option" where
  "lcf_socket_sread en sock n s = do {
     sk \<leftarrow> lu_socks s sock;
     if sk_res sk = None then Some (LRet [LInt 0, LNil, LInt EBADFD], s)
     else do {
       r \<leftarrow> lu_res (sk_res sk) s;
       let (d, s) = lu_call (sc_read en (res_fd r) (read_size (to_int n))) s;
       Some (LRet (read_values d), s)
     }
   }"

definition k_socket_read :: "'x env \<Rightarrow> bool \<Rightarrow> lval list \<Rightarrow> 'x lua \<Rightarrow> (lcf \<times> 'x lua) option" where
  "k_socket_read en yielded stk s = (
     if \<not> yielded then Some (LError, s)
     else case checkinteger 4 stk of
       None \<Rightarrow> Some (LError, s)
     | Some type \<Rightarrow>
         if to_int type = LAS_S_RESUME_IO_TIMEOUT then Some (LRet [LInt 0, LNil, LInt ETIMEDOUT], s)
         else
           let res = userdata_from_top 2 stk; stk = take (length stk - 3) stk
           in case checkinteger 2 stk of
                None \<Rightarrow> Some (LError, s)
              | Some n \<Rightarrow> do {
                  r \<leftarrow> lu_res res s;
                  let (d, s) = lu_call (sc_read en (res_fd r) (read_size (to_int n))) s;
                  Some (LRet (read_values d), s)
                })"

definition lcf_socket_read :: "addr \<Rightarrow> int \<Rightarrow> 'x lua \<Rightarrow> (lcf \<times> 'x lua) option" where
  "lcf_socket_read sock timeout s = do {
     let timeout = to_int timeout;
     let timeout = (if timeout < 0 then LAS_D_TIMOUT_SECS else timeout);
     sk \<leftarrow> lu_socks s sock;
     if sk_res sk = None then Some (LRet [LInt 0, LNil, LInt EBADFD], s)
     else do {
       r \<leftarrow> lu_res (sk_res sk) s;
       t \<leftarrow> lu_th (rs_th r) s;
       if th_mode t \<noteq> TM_Simple then Some (LError, s)
       else Some (LYieldK [LInt LAS_S_YIELD_FOR_IO, LPtr (sk_res sk), LInt LAS_S_WAIT_FOR_INPUT, LInt timeout] K_Read, s)
     }
   }"

subsection \<open>Sending\<close>

text \<open>\<open>buf\<close> is \<open>None\<close> when the argument is no string; \<open>nbyte\<close> is an \<open>int\<close>.\<close>

definition lcf_socket_ssend :: "'x env \<Rightarrow> addr \<Rightarrow> u8 list option \<Rightarrow> 'x lua \<Rightarrow> (lcf \<times> 'x lua) option" where
  "lcf_socket_ssend en sock buf s = do {
     sk \<leftarrow> lu_socks s sock;
     if sk_res sk = None then Some (LRet [LInt 0, LInt EBADFD], s)
     else case buf of
       None \<Rightarrow> Some (LRet [LInt 0, LInt EINVAL], s)
     | Some buf \<Rightarrow> do {
         r \<leftarrow> lu_res (sk_res sk) s;
         let (m, s) = lu_call (sc_send en (res_fd r) buf) s;
         case m of
           Inl e \<Rightarrow> Some (LRet [LInt 0, LInt e], s)
         | Inr m \<Rightarrow> if to_int (int m) < 0 then Some (LRet [LInt 0, LInt (en_errno en (w_ext (wk_world (lu_wk s))))], s)
                    else Some (LRet [LInt (to_int (int m)), LNil], s)
       }
   }"

definition recycle_send :: "addr \<Rightarrow> 'x lua \<Rightarrow> 'x lua option" where
  "recycle_send c s = do {
     m \<leftarrow> memp_recycle (Some c) (wk_mem (lu_wk s));
     Some (s\<lparr>lu_wk := (lu_wk s)\<lparr>wk_mem := m\<rparr>, lu_sends := (lu_sends s)(c := None)\<rparr>)
   }"

text \<open>The loop; it ends with the values to return or by yielding.\<close>

partial_function (option) send_loop :: "'x env \<Rightarrow> addr \<Rightarrow> ptr \<Rightarrow> int \<Rightarrow> 'x lua \<Rightarrow> (lcf \<times> 'x lua) option" where
  "send_loop en c res fd s = do {
     cx \<leftarrow> lu_sends s c;
     let (m, s) = lu_call (sc_send en fd (drop (sx_idx cx) (sx_buf cx))) s;
     case m of
       Inr m \<Rightarrow>
         if m = sx_len cx - sx_idx cx then Some (LRet [LInt (int (sx_len cx)), LNil], s)
         else send_loop en c res fd (s\<lparr>lu_sends := (lu_sends s)(c \<mapsto> cx\<lparr>sx_idx := sx_idx cx + m\<rparr>)\<rparr>)
     | Inl e \<Rightarrow>
         if e \<noteq> EAGAIN then Some (LRet [LInt (int (sx_idx cx)), LInt e], s)
         else Some (LYieldK [LInt LAS_S_YIELD_FOR_IO, LPtr res, LInt LAS_S_WAIT_FOR_OUTPUT, LInt LAS_D_TIMOUT_SECS] (K_Send c), s)
   }"

text \<open>What follows the choice of \<open>res\<close>.\<close>

definition send_from :: "'x env \<Rightarrow> addr \<Rightarrow> ptr \<Rightarrow> 'x lua \<Rightarrow> (lcf \<times> 'x lua) option" where
  "send_from en c res s = do {
     r \<leftarrow> lu_res res s;
     (out, s) \<leftarrow> send_loop en c res (res_fd r) s;
     case out of
       LRet vs \<Rightarrow> do { s \<leftarrow> recycle_send c s; Some (LRet vs, s) }
     | _ \<Rightarrow> Some (out, s)
   }"

datatype lua_status = S_Ok | S_Yield | S_Other

text \<open>The type of the resume is read at index 1, where the socket is.\<close>

definition k_socket_send :: "'x env \<Rightarrow> lua_status \<Rightarrow> addr \<Rightarrow> lval list \<Rightarrow> 'x lua \<Rightarrow> (lcf \<times> 'x lua) option" where
  "k_socket_send en status c stk s = (case status of
       S_Ok \<Rightarrow> do {
         cx \<leftarrow> lu_sends s c;
         send_from en c (sx_res cx) s
       }
     | S_Yield \<Rightarrow> (case checkinteger 1 stk of
           None \<Rightarrow> Some (LError, s)
         | Some type \<Rightarrow>
             if to_int type = LAS_S_RESUME_IO_TIMEOUT then do {
               cx \<leftarrow> lu_sends s c;
               s \<leftarrow> recycle_send c s;
               Some (LRet [LInt (int (sx_idx cx)), LInt ETIMEDOUT], s)
             }
             else send_from en c (userdata_from_top 2 stk) s)
     | S_Other \<Rightarrow> do {
         s \<leftarrow> recycle_send c s;
         Some (LError, s)
       })"

definition lcf_socket_send :: "'x env \<Rightarrow> worker_ctx \<Rightarrow> addr \<Rightarrow> u8 list option \<Rightarrow> 'x lua \<Rightarrow> (lcf \<times> 'x lua) option" where
  "lcf_socket_send en cx sock buf s = do {
     sk \<leftarrow> lu_socks s sock;
     if sk_res sk = None then Some (LRet [LInt 0, LInt EBADFD], s)
     else do {
       r \<leftarrow> lu_res (sk_res sk) s;
       t \<leftarrow> lu_th (rs_th r) s;
       if th_mode t \<noteq> TM_Simple then Some (LError, s)
       else case buf of
         None \<Rightarrow> Some (LRet [LInt 0, LInt EINVAL], s)
       | Some buf \<Rightarrow> do {
           (p, m) \<leftarrow> memp_alloc (cx_mem_pool cx) sizeof_send_ctx (wk_mem (lu_wk s));
           c \<leftarrow> p;
           let s = s\<lparr>lu_wk := (lu_wk s)\<lparr>wk_mem := m\<rparr>,
                     lu_sends := (lu_sends s)(c \<mapsto> \<lparr>sx_res = sk_res sk, sx_buf = buf, sx_len = length buf, sx_idx = 0\<rparr>)\<rparr>;
           k_socket_send en S_Ok c [LUd sock, LStr buf] s
         }
     }
   }"

subsection \<open>Waiting for several sockets\<close>

fun ev_begin_loop :: "'x env \<Rightarrow> worker_ctx \<Rightarrow> addr \<Rightarrow> nat \<Rightarrow> (addr \<times> int) list \<Rightarrow> nat \<Rightarrow> 'x lua \<Rightarrow> (nat option \<times> 'x lua) option" where
  "ev_begin_loop en cx th 0 args m s = Some (Some m, s)"
| "ev_begin_loop en cx th (Suc n) [] m s = Some (None, s)"
| "ev_begin_loop en cx th (Suc n) ((sock, ev) # args) m s = (case lu_socks s sock of
       None \<Rightarrow> Some (None, s)
     | Some sk \<Rightarrow> (case sk_res sk of
         None \<Rightarrow> Some (Some m, s)
       | Some a \<Rightarrow> do {
           r \<leftarrow> lu_res (Some a) s;
           if rs_th r \<noteq> Some th then Some (Some m, s)
           else do {
             let s = s\<lparr>lu_tab := (lu_tab s)(th := (lu_tab s th)(Some a := Some sock))\<rparr>;
             (_, s) \<leftarrow> lu_on_wk (on_world (\<lambda>w. map_option (Pair ()) (set_res (rs_status_update (\<lambda>_. RS_Ev)) (Some a) w))) s;
             (_, s) \<leftarrow> lu_on_wk (on_world (asthread_res_ev_add (en_ctl en) res_fd_f a (cx_epfd cx) (of_int ev))) s;
             ev_begin_loop en cx th n args (Suc m) s
           }
         }))"

text \<open>\<open>args\<close> are the pairs of a socket and an event that follow \<open>n\<close>; an error leaves the loop at once.\<close>

definition lcf_socket_ev_begin :: "'x env \<Rightarrow> worker_ctx \<Rightarrow> addr \<Rightarrow> int \<Rightarrow> (addr \<times> int) list \<Rightarrow> 'x lua \<Rightarrow> (lcf \<times> 'x lua) option" where
  "lcf_socket_ev_begin en cx th n args s = do {
     let s = s\<lparr>lu_tab := (lu_tab s)(th := (\<lambda>_. None))\<rparr>;
     (m, s) \<leftarrow> ev_begin_loop en cx th (nat (to_int n)) args 0 s;
     case m of
       None \<Rightarrow> Some (LError, s)
     | Some m \<Rightarrow> do {
         (_, s) \<leftarrow> lu_on_wk (on_world (\<lambda>w. map_option (Pair ()) (set_th (th_mode_update (\<lambda>_. TM_Loop_Socks)) (Some th) w))) s;
         Some (LRet [LInt (int m)], s)
       }
   }"

definition lcf_socket_ev_end :: "'x env \<Rightarrow> worker_ctx \<Rightarrow> ptr \<Rightarrow> 'x lua \<Rightarrow> (lcf \<times> 'x lua) option" where
  "lcf_socket_ev_end en cx th s = (case th of
       None \<Rightarrow> Some (LRet [], s)
     | Some a \<Rightarrow> do {
         t \<leftarrow> lu_th th s;
         if th_mode t \<noteq> TM_Loop_Socks then Some (LRet [], s)
         else do {
           (_, s) \<leftarrow> lu_on_wk (on_world (\<lambda>w. map_option (Pair ()) (set_th (th_mode_update (\<lambda>_. TM_Simple)) (Some a) w))) s;
           (_, s) \<leftarrow> lu_on_wk (on_world (\<lambda>w. map_option (Pair ()) (asthread_remove_res_from_epfd (en_ctl en) res_fd_f a (cx_epfd cx) w))) s;
           Some (LRet [], s)
         }
       })"

definition tab_value :: "addr \<Rightarrow> lval \<Rightarrow> 'x lua \<Rightarrow> lval" where
  "tab_value th v s = (case lu_tab s th (lua_touserdata v) of None \<Rightarrow> LNil | Some a \<Rightarrow> LUd a)"

definition stack_at :: "nat \<Rightarrow> lval list \<Rightarrow> lval" where
  "stack_at i stk = (if 1 \<le> i \<and> i \<le> length stk then stk ! (i - 1) else LNil)"

text \<open>It returns the three values on top of the stack.\<close>

definition k_socket_ev_wait :: "bool \<Rightarrow> addr \<Rightarrow> lval list \<Rightarrow> 'x lua \<Rightarrow> lcf" where
  "k_socket_ev_wait yielded th stk s = (
     if \<not> yielded then LError
     else case checkinteger 2 stk of
       None \<Rightarrow> LError
     | Some type \<Rightarrow>
         let type = to_int type;
             stk = (if type = LAS_S_RESUME_IO then stk @ [stack_at 2 stk, tab_value th (stack_at 3 stk) s, stack_at 4 stk]
                    else if type = LAS_S_RESUME_IO_ERROR then stk @ [stack_at 2 stk, tab_value th (stack_at 3 stk) s, LNil]
                    else if type = LAS_S_RESUME_SLEEP then stk @ [LNil, LNil]
                    else stk)
         in LRet (drop (length stk - 3) stk))"

definition lcf_socket_ev_wait :: "int \<Rightarrow> lcf" where
  "lcf_socket_ev_wait timeout = LYieldK [LInt LAS_S_YIELD_FOR_EV, LInt (to_int timeout)] K_EvWait"

declare send_loop.simps [code]

end
