(* ===== verification/Sock_Life.thy ===== *)
theory Sock_Life
  imports Lm_Socket
begin

text \<open>
  Sockets and threads together: the Lua code of a thread opens and closes sockets of its own, the
  garbage collector closes those that are left, and the worker frees the threads that ended and
  with them their resources. Whatever the order, every descriptor is closed once and every block
  given back once.
\<close>

subsection \<open>The invariant\<close>

text \<open>\<open>Rs th\<close> is the list of the resources of thread \<open>th\<close>.\<close>

definition lists_are :: "(addr \<Rightarrow> addr list) \<Rightarrow> 'x world \<Rightarrow> bool" where
  "lists_are Rs w \<longleftrightarrow> (\<forall>th t. w_ths w th = Some t \<longrightarrow> owns w t (Rs th))
     \<and> (\<forall>a b. w_ths w a \<noteq> None \<longrightarrow> w_ths w b \<noteq> None \<longrightarrow> a \<noteq> b \<longrightarrow> set (Rs a) \<inter> set (Rs b) = {})"

text \<open>
  Resource \<open>b\<close> is there, is no thread's connection, and is in the list of its owner only.
\<close>

definition held :: "(addr \<Rightarrow> addr list) \<Rightarrow> addr \<Rightarrow> 'x world \<Rightarrow> bool" where
  "held Rs b w \<longleftrightarrow> (\<exists>r. w_res w b = Some r \<and> (\<forall>th. rs_th r = Some th \<longrightarrow> w_ths w th \<noteq> None)
     \<and> (\<forall>th t. w_ths w th = Some t \<longrightarrow> th_mfd_res t \<noteq> Some b \<and> (b \<in> set (Rs th) \<longleftrightarrow> rs_th r = Some th)))"

definition custom :: "'x lua \<Rightarrow> addr \<Rightarrow> addr \<Rightarrow> bool" where
  "custom s c b \<longleftrightarrow> lu_socks s c = Some \<lparr>sk_res = Some b, sk_type = LM_SOCK_TYPE_CUSTOM\<rparr>"

definition socks_ok :: "(addr \<Rightarrow> addr list) \<Rightarrow> 'x lua \<Rightarrow> bool" where
  "socks_ok Rs s \<longleftrightarrow> (\<forall>c b. custom s c b \<longrightarrow> held Rs b (wk_world (lu_wk s)))
     \<and> (\<forall>c c' b. custom s c b \<longrightarrow> custom s c' b \<longrightarrow> c = c') \<and> (\<forall>c. lu_socks s c \<noteq> None \<longrightarrow> c < lu_next s)"

definition lua_ok :: "addr \<Rightarrow> addr set \<Rightarrow> 'x lua \<Rightarrow> bool" where
  "lua_ok mp S s \<longleftrightarrow> blocks_ok mp (lu_wk s) \<and> stopped (wk_world (lu_wk s)) = S
     \<and> (\<exists>Rs. lists_are Rs (wk_world (lu_wk s)) \<and> socks_ok Rs s)"

lemma lists_are_owners: "lists_are Rs w \<Longrightarrow> owners_ok UNIV w"
  unfolding lists_are_def owners_ok_def by (intro exI [of _ Rs]) blast

lemma lua_ok_core: "lua_ok mp S s \<Longrightarrow> core_ok UNIV mp S (lu_wk s)"
  by (auto simp: lua_ok_def core_ok_def intro: lists_are_owners)

subsection \<open>The list of one thread changes\<close>

lemma lists_are_update:
  assumes lists: "lists_are Rs w" and t: "w_ths w th = Some t" and w': "w_ths w' = (w_ths w)(th \<mapsto> t\<lparr>th_resl := d\<rparr>)"
    and rs: "is_dlist (w_res w') d rs" "set rs \<subseteq> insert a (set (Rs th))" "\<And>m. th_mfd_res t = Some m \<Longrightarrow> m \<in> set rs"
    and agree: "\<And>b. b \<noteq> a \<Longrightarrow> b \<notin> set (Rs th) \<Longrightarrow> w_res w' b = w_res w b"
    and new: "\<And>c. c \<noteq> th \<Longrightarrow> w_ths w c \<noteq> None \<Longrightarrow> a \<notin> set (Rs c)"
  shows "lists_are (Rs(th := rs)) w'"
proof -
  have other: "owns w' s (Rs c)" if "c \<noteq> th" "w_ths w c = Some s" for c s
  proof -
    have "set (Rs c) \<inter> set (Rs th) = {}" "owns w s (Rs c)" using lists that t by (auto simp: lists_are_def)
    moreover have "a \<notin> set (Rs c)" using new that by auto
    ultimately have "dseg (w_res w') None (Rs c) None = dseg (w_res w) None (Rs c) None"
      by (intro dseg_frame agree) auto
    with \<open>owns w s (Rs c)\<close> show ?thesis by (simp add: owns_def is_dlist_def)
  qed
  have "owns w t (Rs th)" using lists t by (simp add: lists_are_def)
  then have "owns w' (t\<lparr>th_resl := d\<rparr>) rs" using rs(1,3) by (auto simp: owns_def)
  with other w' have "\<forall>c s. w_ths w' c = Some s \<longrightarrow> owns w' s ((Rs(th := rs)) c)" by auto
  moreover have "set rs \<inter> set (Rs c) = {}" if "c \<noteq> th" "w_ths w c \<noteq> None" for c
    using lists t that rs(2) new [OF that] unfolding lists_are_def by fast
  then have "\<forall>b c. w_ths w' b \<noteq> None \<longrightarrow> w_ths w' c \<noteq> None \<longrightarrow> b \<noteq> c \<longrightarrow> set ((Rs(th := rs)) b) \<inter> set ((Rs(th := rs)) c) = {}"
    using lists w' by (auto simp: lists_are_def)
  ultimately show ?thesis unfolding lists_are_def by blast
qed

lemma held_update:
  assumes held: "held Rs b w" and "b \<noteq> a" and t: "w_ths w th = Some t" and w': "w_ths w' = (w_ths w)(th \<mapsto> t\<lparr>th_resl := d\<rparr>)"
    and rs: "set rs - {a} = set (Rs th) - {a}" and r: "map_option rs_th (w_res w' b) = map_option rs_th (w_res w b)"
  shows "held (Rs(th := rs)) b w'"
proof -
  obtain r0 where r0: "w_res w b = Some r0" "\<forall>th. rs_th r0 = Some th \<longrightarrow> w_ths w th \<noteq> None"
    "\<forall>th t. w_ths w th = Some t \<longrightarrow> th_mfd_res t \<noteq> Some b \<and> (b \<in> set (Rs th) \<longleftrightarrow> rs_th r0 = Some th)"
    using held by (auto simp: held_def)
  obtain r1 where r1: "w_res w' b = Some r1" "rs_th r1 = rs_th r0" using r r0(1) by auto
  have "b \<in> set rs \<longleftrightarrow> b \<in> set (Rs th)" using rs \<open>b \<noteq> a\<close> by blast
  then have mem: "b \<in> set ((Rs(th := rs)) c) \<longleftrightarrow> b \<in> set (Rs c)" for c by simp
  have there: "w_ths w' c \<noteq> None" if "w_ths w c \<noteq> None" for c using that w' by simp
  show ?thesis unfolding held_def
  proof (intro exI [of _ r1] conjI allI impI)
    show "w_res w' b = Some r1" by (rule r1(1))
    show "w_ths w' c \<noteq> None" if "rs_th r1 = Some c" for c using r0(2) r1(2) that there by simp
    fix c u assume "w_ths w' c = Some u"
    then obtain s where s: "w_ths w c = Some s" "th_mfd_res u = th_mfd_res s" using t w' by (auto split: if_splits)
    show "th_mfd_res u \<noteq> Some b" using r0(3) s by simp
    show "b \<in> set ((Rs(th := rs)) c) \<longleftrightarrow> rs_th r1 = Some c" using r0(3) s(1) r1(2) mem by simp
  qed
qed

lemma payload_th: "dnode.more r' = dnode.more (r :: as_res) \<Longrightarrow>
  rs_th r' = rs_th r \<and> rs_d r' = rs_d r \<and> rs_freef r' = rs_freef r \<and> rs_fdf r' = rs_fdf r \<and> rs_status r' = rs_status r"
  by (cases r; cases r') simp

lemma map_payload_th: "map_option dnode.more x = map_option dnode.more (y :: as_res option) \<Longrightarrow> map_option rs_th x = map_option rs_th y"
  by (cases x; cases y) (auto dest!: payload_th)

subsection \<open>Opening a socket\<close>

lemma res_add_eq:
  assumes t: "w_ths w th = Some t" "is_dlist (w_res w) (th_resl t) rs" and r: "w_res w a = Some r" and "a \<notin> set rs"
  obtains d h where "asthread_res_add_to_th a th w = Some (0, w\<lparr>w_res := h, w_ths := (w_ths w)(th \<mapsto> t\<lparr>th_resl := d\<rparr>)\<rparr>)"
    "is_dlist h d (a # rs)" "\<And>b. b \<noteq> a \<Longrightarrow> b \<notin> set rs \<Longrightarrow> h b = w_res w b" "dom h = dom (w_res w)"
    "\<And>b. map_option dnode.more (h b) = map_option dnode.more (((w_res w)(a \<mapsto> r\<lparr>rs_th := Some th\<rparr>)) b)"
proof -
  let ?h = "(w_res w)(a \<mapsto> r\<lparr>rs_th := Some th\<rparr>)"
  obtain d h where dh: "dlist_add_to_head (th_resl t) a ?h = Some (d, h)" "is_dlist h d (a # rs)" "dom h = dom ?h"
    "\<forall>b. b \<notin> set (a # rs) \<longrightarrow> h b = ?h b"
    using dlist_add_to_head_refines [OF is_dlist_set_th [OF t(2) r, of "\<lambda>_. Some th"], of a] assms(4) by auto
  have "same_payload ?h h" by (rule dlist_add_to_head_payload [OF dh(1)])
  with t(1) r dh show thesis
    by (intro that [of d h]) (auto simp: asthread_res_add_to_th_def set_res_Some set_th_Some same_payload_def)
qed

lemma new_sock_res_eq:
  assumes t: "w_ths w th = Some t" "is_dlist (w_res w) (th_resl t) rs" and r: "w_res w a = Some fresh_res" and "a \<notin> set rs"
  obtains d h x w' ra where "new_sock_res en cx fd (Some th) (Some a) w = Some w'"
    "w_ths w' = (w_ths w)(th \<mapsto> t\<lparr>th_resl := d\<rparr>)" "is_dlist (w_res w') d (a # rs)"
    "\<And>b. b \<noteq> a \<Longrightarrow> b \<notin> set rs \<Longrightarrow> w_res w' b = w_res w b" "dom (w_res w') = dom (w_res w)"
    "\<And>b. b \<noteq> a \<Longrightarrow> map_option rs_th (w_res w' b) = map_option rs_th (w_res w b)"
    "w_res w' a = Some ra" "rs_th ra = Some th" "rs_d ra = fd" "rs_freef ra = Some 0"
proof -
  let ?r0 = "\<lparr>dl_next = None, dl_prev = None, rs_freef = Some 0, rs_fdf = 0, rs_status = RS_Idle, rs_th = None, rs_d = fd\<rparr>"
  let ?w1 = "w\<lparr>w_res := (w_res w)(a \<mapsto> fresh_res\<lparr>rs_d := fd\<rparr>)\<rparr>" and ?w2 = "w\<lparr>w_res := (w_res w)(a \<mapsto> ?r0)\<rparr>"
  have one: "set_res (rs_d_update (\<lambda>_. fd)) (Some a) w = Some ?w1" using r by (simp add: set_res_Some)
  have two: "asthread_res_init (Some a) (Some 0) 0 ?w1 = Some (0, ?w2)"
    by (simp add: asthread_res_init_def set_res_Some dlist_node_init_Some fresh_res_def)
  have t2: "w_ths ?w2 th = Some t" "is_dlist (w_res ?w2) (th_resl t) rs" "w_res ?w2 a = Some ?r0"
    using t \<open>a \<notin> set rs\<close> by (simp_all add: is_dlist_def)
  obtain d h where add: "asthread_res_add_to_th a th ?w2 = Some (0, ?w2\<lparr>w_res := h, w_ths := (w_ths ?w2)(th \<mapsto> t\<lparr>th_resl := d\<rparr>)\<rparr>)"
    "is_dlist h d (a # rs)" "\<And>b. b \<noteq> a \<Longrightarrow> b \<notin> set rs \<Longrightarrow> h b = w_res ?w2 b" "dom h = dom (w_res ?w2)"
    "\<And>b. map_option dnode.more (h b) = map_option dnode.more (((w_res ?w2)(a \<mapsto> ?r0\<lparr>rs_th := Some th\<rparr>)) b)"
    by (rule res_add_eq [OF t2 \<open>a \<notin> set rs\<close>]) blast
  let ?w3 = "?w2\<lparr>w_res := h, w_ths := (w_ths ?w2)(th \<mapsto> t\<lparr>th_resl := d\<rparr>)\<rparr>"
  from add(5) [of a] obtain ra where ra: "h a = Some ra" "dnode.more ra = dnode.more (?r0\<lparr>rs_th := Some th\<rparr>)" by auto
  then have ra3: "rs_th ra = Some th" "rs_d ra = fd" "rs_freef ra = Some 0" "rs_status ra = RS_Idle" using payload_th [OF ra(2)] by simp_all
  have idle: "h(a \<mapsto> ra\<lparr>rs_status := RS_Idle\<rparr>) = h" using ra(1) ra3(4) by (cases ra) (auto simp: fun_eq_iff)
  have keep: "map_option rs_th (h b) = map_option rs_th (w_res w b)" if "b \<noteq> a" for b
    using map_payload_th [OF add(5) [of b]] that by simp
  obtain ret x where ctl: "en_ctl en EP_Add (cx_epfd cx) (res_fd_f (rs_fdf ra) (rs_d ra)) a 0 (w_ext w) = (ret, x)" by fastforce
  show thesis
    using r ra(1) ra3(1-3) add(2-4) ctl keep idle
    by (intro that [of "?w3\<lparr>w_ext := x\<rparr>" d ra])
       (auto simp: new_sock_res_def one two add(1) asthread_res_ev_init_def res_ev_ctl_def set_res_Some Let_def)
qed

lemma lists_in_dom: "lists_are Rs w \<Longrightarrow> w_ths w th \<noteq> None \<Longrightarrow> set (Rs th) \<subseteq> dom (w_res w)"
  using is_dlist_in_dom by (fastforce simp: lists_are_def owns_def)

lemma socket_new_at:
  assumes ok: "lua_ok mp S s" and mp: "cx_mem_pool cx = Some mp" and mem: "alloc_res cx (lu_wk s) = Some (Some a0, k0)"
    and th: "wk_thread th (lu_wk s) = Some t"
    and conn: "make_client_socket (net.truncate en) host (of_int port) (w_ext (wk_world (lu_wk s))) = (fd, x)" "0 \<le> fd"
  obtains s' a r where "lcf_socket_new en cx (Some th) host port s = Some (LRet [LUd (lu_next s)], s')" "lua_ok mp S s'"
    "custom s' (lu_next s) a" "w_res (wk_world (lu_wk s')) a = Some r" "rs_d r = fd" "rs_th r = Some th" "rs_freef r = Some 0"
proof -
  let ?s1 = "s\<lparr>lu_socks := (lu_socks s)(lu_next s \<mapsto> \<lparr>sk_res = None, sk_type = LM_SOCK_TYPE_CUSTOM\<rparr>), lu_next := Suc (lu_next s)\<rparr>"
  let ?w = "wk_world (lu_wk s)"
  obtain a k1 where k1: "alloc_res cx (lu_wk s) = Some (Some a, k1)" "blocks_ok mp k1" "a \<notin> live mp (lu_wk s)"
    "w_res (wk_world k1) = (w_res ?w)(a \<mapsto> fresh_res)" "w_ths (wk_world k1) = w_ths ?w" "w_ext (wk_world k1) = w_ext ?w"
    using alloc_res_ok [OF lua_ok_core [OF ok] mp] mem by (auto split: option.splits)
  obtain Rs where Rs: "lists_are Rs ?w" "socks_ok Rs s" using ok by (auto simp: lua_ok_def)
  have blocks: "blocks_ok mp (lu_wk s)" "stopped ?w = S" using ok by (simp_all add: lua_ok_def)
  then have a: "w_res ?w a = None" using k1(3) by (auto simp: blocks_ok_def)
  have off: "a \<notin> set (Rs c)" if "w_ths ?w c \<noteq> None" for c using lists_in_dom [OF Rs(1) that] a by auto
  obtain r0 y where nb: "set_non_block (net.truncate en) fd x = (r0, y)" by fastforce
  let ?k2 = "on_ext (\<lambda>_. y) (on_ext (\<lambda>_. x) k1)"
  have t: "w_ths (wk_world ?k2) th = Some t" "is_dlist (w_res (wk_world ?k2)) (th_resl t) (Rs th)" "w_res (wk_world ?k2) a = Some fresh_res"
    using th Rs(1) k1(4,5) off [of th] by (auto simp: on_ext_def wk_thread_def lists_are_def owns_def is_dlist_def)
  have "a \<notin> set (Rs th)" using off th by (simp add: wk_thread_def)
  have ths: "w_ths (wk_world ?k2) = w_ths ?w" using k1(5) by (simp add: on_ext_def)
  obtain d w' ra where w': "new_sock_res en cx fd (Some th) (Some a) (wk_world ?k2) = Some w'"
    "w_ths w' = (w_ths ?w)(th \<mapsto> t\<lparr>th_resl := d\<rparr>)" "is_dlist (w_res w') d (a # Rs th)"
    "\<And>b. b \<noteq> a \<Longrightarrow> b \<notin> set (Rs th) \<Longrightarrow> w_res w' b = w_res (wk_world ?k2) b" "dom (w_res w') = dom (w_res (wk_world ?k2))"
    "\<And>b. b \<noteq> a \<Longrightarrow> map_option rs_th (w_res w' b) = map_option rs_th (w_res (wk_world ?k2) b)"
    "w_res w' a = Some ra" "rs_th ra = Some th" "rs_d ra = fd" "rs_freef ra = Some 0"
    by (rule new_sock_res_eq [OF t \<open>a \<notin> set (Rs th)\<close>, of en cx fd, unfolded ths]) blast
  let ?s' = "?s1\<lparr>lu_wk := ?k2\<lparr>wk_world := w'\<rparr>, lu_socks := (lu_socks ?s1)(lu_next s \<mapsto> \<lparr>sk_res = Some a, sk_type = LM_SOCK_TYPE_CUSTOM\<rparr>)\<rparr>"
  have code: "lcf_socket_new en cx (Some th) host port s = Some (LRet [LUd (lu_next s)], ?s')"
    using k1(1,6) conn nb w'(1)
    by (simp add: lcf_socket_new_def new_userdata_def lu_on_wk_def lu_call_def on_world_def on_ext_def Let_def)
  have same: "w_res w' b = w_res ?w b" if "b \<noteq> a" "b \<notin> set (Rs th)" for b using w'(4) that k1(4) by (simp add: on_ext_def)
  have keep: "map_option rs_th (w_res w' b) = map_option rs_th (w_res ?w b)" if "b \<noteq> a" for b
    using w'(6) [OF that] that k1(4) by (simp add: on_ext_def)
  have tw: "w_ths ?w th = Some t" using th by (simp add: wk_thread_def)
  let ?Rs = "Rs(th := a # Rs th)"
  have own: "owns ?w t (Rs th)" using Rs(1) tw by (simp add: lists_are_def)
  have lists: "lists_are ?Rs w'"
    by (rule lists_are_update [OF Rs(1) tw w'(2,3), of a]) (use own same off in \<open>auto simp: owns_def\<close>)
  have mfd: "th_mfd_res u \<noteq> Some a" if "w_ths w' c = Some u" for c u
  proof -
    from that obtain v where "w_ths ?w c = Some v" "th_mfd_res v = th_mfd_res u" using w'(2) tw by (auto split: if_splits)
    moreover from this(1) have "owns ?w v (Rs c)" "a \<notin> set (Rs c)" using Rs(1) off by (simp_all add: lists_are_def)
    ultimately show ?thesis by (auto simp: owns_def)
  qed
  have held_a: "held ?Rs a w'" unfolding held_def
  proof (intro exI [of _ ra] conjI allI impI)
    fix c u assume c: "w_ths w' c = Some u"
    show "th_mfd_res u \<noteq> Some a" by (rule mfd [OF c])
    have "w_ths ?w c \<noteq> None" using c w'(2) tw by (auto split: if_splits)
    then show "a \<in> set (?Rs c) \<longleftrightarrow> rs_th ra = Some c" using off [of c] w'(8) by auto
  qed (use w'(2,7,8) in auto)
  have old: "held ?Rs b w' \<and> b \<noteq> a \<and> c < lu_next s" if "custom s c b" for c b
  proof -
    have "held Rs b ?w" "c < lu_next s" using Rs(2) that by (auto simp: socks_ok_def custom_def)
    moreover from this(1) have "b \<noteq> a" using a by (auto simp: held_def)
    ultimately show ?thesis using held_update [OF \<open>held Rs b ?w\<close> \<open>b \<noteq> a\<close> tw w'(2)] keep by simp
  qed
  have custom: "custom ?s' c b \<longleftrightarrow> (if c = lu_next s then b = a else custom s c b)" for c b by (auto simp: custom_def)
  have "socks_ok ?Rs ?s'"
    unfolding socks_ok_def custom using held_a old Rs(2) by (auto simp: socks_ok_def less_Suc_eq split: if_splits)
  moreover have "stopped w' = S" using blocks(2) w'(2) tw by (auto simp: stopped_def split: if_splits)
  moreover have "blocks_ok mp (?k2\<lparr>wk_world := w'\<rparr>)"
    by (rule blocks_ok_dom [OF k1(2)]) (use w'(2,5) k1(5) tw in \<open>auto simp: on_ext_def\<close>)
  ultimately have "lua_ok mp S ?s'" using lists by (auto simp: lua_ok_def)
  with code w'(7-10) show thesis by (intro that [of ?s' a ra]) (simp_all add: custom_def)
qed

lemma socket_new_ok:
  assumes "lua_ok mp S s" and "cx_mem_pool cx = Some mp" and "no_oom (lu_wk s)" and "wk_thread th (lu_wk s) = Some t"
    and "make_client_socket (net.truncate en) host (of_int port) (w_ext (wk_world (lu_wk s))) = (fd, x)" and "0 \<le> fd"
  obtains s' a r where "lcf_socket_new en cx (Some th) host port s = Some (LRet [LUd (lu_next s)], s')" "lua_ok mp S s'"
    "custom s' (lu_next s) a" "w_res (wk_world (lu_wk s')) a = Some r" "rs_d r = fd" "rs_th r = Some th" "rs_freef r = Some 0"
proof -
  obtain a k1 where "alloc_res cx (lu_wk s) = Some (Some a, k1)"
    using alloc_res_ok [OF lua_ok_core [OF assms(1)] assms(2)] assms(3) by auto
  from socket_new_at [OF assms(1,2) this assms(4-6)] that show thesis by blast
qed

subsection \<open>Closing a socket\<close>

lemma res_del_eq:
  assumes t: "w_ths w th = Some t" "is_dlist (w_res w) (th_resl t) rs" and a: "a \<in> set rs" "w_res w a = Some r"
  obtains d h ra where "asthread_res_del_from_th a th w = Some (0, w\<lparr>w_res := h, w_ths := (w_ths w)(th \<mapsto> t\<lparr>th_resl := d\<rparr>)\<rparr>)"
    "is_dlist h d (remove1 a rs)" "\<And>b. b \<notin> set rs \<Longrightarrow> h b = w_res w b" "dom h = dom (w_res w)"
    "\<And>b. map_option rs_th (h b) = map_option rs_th (w_res w b)" "h a = Some ra" "rs_freef ra = rs_freef r" "rs_d ra = rs_d r"
proof -
  obtain d h where dh: "dlist_del (th_resl t) a (w_res w) = Some (d, h)" "is_dlist h d (remove1 a rs)" "dom h = dom (w_res w)"
    "\<forall>b. b \<notin> set rs \<longrightarrow> h b = w_res w b" using dlist_del_refines [OF t(2) a(1)] by blast
  have pay: "map_option dnode.more (h b) = map_option dnode.more (w_res w b)" for b
    using dlist_del_payload [OF dh(1)] by (simp add: same_payload_def)
  from pay [of a] a(2) obtain ra where ra: "h a = Some ra" "dnode.more ra = dnode.more r" by auto
  with t(1) dh map_payload_th [OF pay] payload_th [OF ra(2)] show thesis
    by (intro that [of d h ra]) (auto simp: asthread_res_del_from_th_def set_th_Some)
qed

lemma lists_drop_res:
  assumes "lists_are Rs w" and "\<And>th. w_ths w th \<noteq> None \<Longrightarrow> a \<notin> set (Rs th)"
    and "w_ths w' = w_ths w" and "w_res w' = (w_res w)(a := None)"
  shows "lists_are Rs w'" and "b \<noteq> a \<Longrightarrow> held Rs b w \<Longrightarrow> held Rs b w'"
proof -
  have "owns w' t (Rs th)" if "w_ths w th = Some t" for th t
    using assms(1,2) assms(4) that by (simp add: lists_are_def owns_def is_dlist_def)
  then show "lists_are Rs w'" using assms(1,3) by (simp add: lists_are_def)
  show "held Rs b w'" if "b \<noteq> a" "held Rs b w" using that assms(3,4) by (simp add: held_def)
qed

text \<open>The thread of the resource, if it has one, forgets it; \<open>freef\<close> closes the descriptor.\<close>

lemma socket_close_ok:
  assumes ok: "lua_ok mp S s" and sk: "custom s c a"
  obtains r s' where "w_res (wk_world (lu_wk s)) a = Some r" "lcf_socket_close en c s = Some (LRet [], s')" "lua_ok mp S s'"
    "live mp (lu_wk s') = live mp (lu_wk s) - {a}" "lu_socks s' = (lu_socks s)(c \<mapsto> \<lparr>sk_res = None, sk_type = LM_SOCK_TYPE_CUSTOM\<rparr>)"
    "w_ext (wk_world (lu_wk s')) = (if rs_freef r = None then w_ext (wk_world (lu_wk s)) else sc_close en (rs_d r) (w_ext (wk_world (lu_wk s))))"
proof -
  let ?w = "wk_world (lu_wk s)" and ?sk = "\<lparr>sk_res = Some a, sk_type = LM_SOCK_TYPE_CUSTOM\<rparr>"
  obtain Rs where Rs: "lists_are Rs ?w" "socks_ok Rs s" using ok by (auto simp: lua_ok_def)
  have blocks: "blocks_ok mp (lu_wk s)" "stopped ?w = S" using ok by (simp_all add: lua_ok_def)
  have "held Rs a ?w" using Rs(2) sk by (auto simp: socks_ok_def)
  then obtain r where r: "w_res ?w a = Some r" "\<And>th. rs_th r = Some th \<Longrightarrow> w_ths ?w th \<noteq> None"
    "\<And>th t. w_ths ?w th = Some t \<Longrightarrow> th_mfd_res t \<noteq> Some a \<and> (a \<in> set (Rs th) \<longleftrightarrow> rs_th r = Some th)"
    by (auto simp: held_def)
  obtain w1 r1 Rs1 where w1: "(case rs_th r of None \<Rightarrow> Some (0 :: int, s)
      | Some th \<Rightarrow> lu_on_wk (on_world (asthread_res_del_from_th a th)) s) = Some (0, s\<lparr>lu_wk := (lu_wk s)\<lparr>wk_world := w1\<rparr>\<rparr>)"
    "w_res w1 a = Some r1" "rs_freef r1 = rs_freef r" "rs_d r1 = rs_d r" "w_ext w1 = w_ext ?w" "dom (w_res w1) = dom (w_res ?w)"
    "dom (w_ths w1) = dom (w_ths ?w)" "stopped w1 = S" "lists_are Rs1 w1" "\<And>th. w_ths w1 th \<noteq> None \<Longrightarrow> a \<notin> set (Rs1 th)"
    "\<And>b. b \<noteq> a \<Longrightarrow> held Rs b ?w \<Longrightarrow> held Rs1 b w1"
  proof (cases "rs_th r")
    case None
    have "a \<notin> set (Rs th)" if "w_ths ?w th \<noteq> None" for th using r(3) None that by auto
    with None r(1) Rs(1) blocks(2) show thesis by (intro that [of ?w r Rs]) simp_all
  next
    case (Some th)
    then obtain t where t: "w_ths ?w th = Some t" using r(2) by auto
    then have own: "owns ?w t (Rs th)" "a \<in> set (Rs th)" "th_mfd_res t \<noteq> Some a" using Rs(1) r(3) Some by (auto simp: lists_are_def)
    then have list: "is_dlist (w_res ?w) (th_resl t) (Rs th)" by (simp add: owns_def)
    obtain d h ra where del: "asthread_res_del_from_th a th ?w = Some (0, ?w\<lparr>w_res := h, w_ths := (w_ths ?w)(th \<mapsto> t\<lparr>th_resl := d\<rparr>)\<rparr>)"
      "is_dlist h d (remove1 a (Rs th))" "\<And>b. b \<notin> set (Rs th) \<Longrightarrow> h b = w_res ?w b" "dom h = dom (w_res ?w)"
      "\<And>b. map_option rs_th (h b) = map_option rs_th (w_res ?w b)" "h a = Some ra" "rs_freef ra = rs_freef r" "rs_d ra = rs_d r"
      by (rule res_del_eq [OF t list own(2) r(1)]) blast
    let ?w1 = "?w\<lparr>w_res := h, w_ths := (w_ths ?w)(th \<mapsto> t\<lparr>th_resl := d\<rparr>)\<rparr>" and ?Rs = "Rs(th := remove1 a (Rs th))"
    have "distinct (Rs th)" using list by (simp add: is_dlist_def)
    have "lists_are ?Rs ?w1"
      by (rule lists_are_update [OF Rs(1) t, of _ d _ a])
         (use del own Some r(3) \<open>distinct (Rs th)\<close> in \<open>auto simp: owns_def\<close>)
    moreover have "held ?Rs b ?w1" if "b \<noteq> a" "held Rs b ?w" for b
      by (rule held_update [OF that(2,1) t]) (use del(5) \<open>distinct (Rs th)\<close> in auto)
    moreover have "a \<notin> set (?Rs c)" if "w_ths ?w1 c \<noteq> None" for c
      using that r(3) Some \<open>distinct (Rs th)\<close> by (cases "c = th") auto
    moreover have "stopped ?w1 = S" using blocks(2) t by (auto simp: stopped_def split: if_splits)
    moreover have "dom (w_ths ?w1) = dom (w_ths ?w)" using t by auto
    ultimately show thesis using del(1,4,6-8) Some by (intro that [of ?w1 ra ?Rs]) (simp_all add: lu_on_wk_def on_world_def)
  qed
  define w2 where "w2 = (if rs_freef r = None then w1 else w1\<lparr>w_ext := sc_close en (rs_d r) (w_ext ?w)\<rparr>)"
  let ?s2 = "s\<lparr>lu_wk := (lu_wk s)\<lparr>wk_world := w2\<rparr>\<rparr>"
  have step2: "(case rs_freef r1 of None \<Rightarrow> Some ((), s\<lparr>lu_wk := (lu_wk s)\<lparr>wk_world := w1\<rparr>\<rparr>)
      | Some f \<Rightarrow> lu_on_wk (on_world (\<lambda>w. map_option (Pair ()) (res_free_f en f a w))) (s\<lparr>lu_wk := (lu_wk s)\<lparr>wk_world := w1\<rparr>\<rparr>))
    = Some ((), ?s2)"
    using w1(2-5) by (auto simp: w2_def lu_on_wk_def on_world_def res_free_f_def split: option.splits)
  have w2: "w_res w2 = w_res w1" "w_ths w2 = w_ths w1" by (simp_all add: w2_def)
  have "pool_ok mp (wk_mem (lu_wk s))" "a \<in> live mp (lu_wk s)" using blocks(1) r(1) by (auto simp: blocks_ok_def)
  from mp.recycle_law [OF this] obtain m where m: "memp_recycle (Some a) (wk_mem (lu_wk s)) = Some m" "pool_ok mp m"
    "pool_live mp m = live mp (lu_wk s) - {a}" by blast
  let ?w3 = "w2\<lparr>w_res := (w_res w2)(a := None)\<rparr>"
  let ?k3 = "(lu_wk s)\<lparr>wk_mem := m, wk_world := ?w3\<rparr>"
  let ?s3 = "s\<lparr>lu_wk := ?k3, lu_socks := (lu_socks s)(c \<mapsto> ?sk\<lparr>sk_res := None\<rparr>)\<rparr>"
  have code: "lcf_socket_close en c s = Some (LRet [], ?s3)"
    using sk r(1) w1(1,2) step2 m(1) by (simp add: custom_def lcf_socket_close_def lu_res_def lu_on_wk_def recycle_res_def)
  have lists: "lists_are Rs1 ?w3" and held: "\<And>b. b \<noteq> a \<Longrightarrow> held Rs1 b w1 \<Longrightarrow> held Rs1 b ?w3"
    by (rule lists_drop_res [OF w1(9,10)]; use w2 in simp)+
  have others: "custom ?s3 c' b \<longleftrightarrow> custom s c' b \<and> c' \<noteq> c" for c' b by (auto simp: custom_def)
  have "b \<noteq> a" if "custom s c' b" "c' \<noteq> c" for c' b using Rs(2) that sk unfolding socks_ok_def by blast
  then have "socks_ok Rs1 ?s3"
    unfolding socks_ok_def others using Rs(2) sk held w1(11) by (auto simp: socks_ok_def custom_def)
  moreover have "blocks_ok mp ?k3" using blocks(1) m(2,3) w1(6,7) w2 r(1) by (auto simp: blocks_ok_def)
  moreover have "stopped ?w3 = S" using w1(8) w2(2) by (simp add: stopped_def)
  ultimately have "lua_ok mp S ?s3" using lists by (auto simp: lua_ok_def)
  moreover have "w_ext ?w3 = (if rs_freef r = None then w_ext ?w else sc_close en (rs_d r) (w_ext ?w))" using w1(5) by (simp add: w2_def)
  ultimately show thesis using code r(1) m(3) by (intro that [of r ?s3]) simp_all
qed

subsection \<open>The end of a thread\<close>

lemma thread_end_ok:
  assumes ok: "lua_ok mp S s" and t: "w_ths (wk_world (lu_wk s)) a = Some t"
    and before: "w_ths (wk_world k0) a = Some t0" and work: "lua_work en (LC_Unref (th_T t0) (th_tid t0)) k0 = lu_wk s"
  obtains k' rs where "free_thread en a k0 = Some k'" "lua_ok mp (S - {a}) (s\<lparr>lu_wk := k'\<rparr>)" "w_ths (wk_world k') a = None"
    "owns (wk_world (lu_wk s)) t rs" "w_ext (wk_world k') = close_all en (wk_world (lu_wk s)) t rs"
    "\<And>c b r. custom s c b \<Longrightarrow> w_res (wk_world (lu_wk s)) b = Some r \<Longrightarrow>
       w_res (wk_world k') b = Some (if rs_th r = Some a then r\<lparr>rs_freef := None, rs_th := None\<rparr> else r) \<and> (rs_th r = Some a \<longrightarrow> b \<in> set rs)"
proof -
  let ?w = "wk_world (lu_wk s)"
  obtain Rs where Rs: "lists_are Rs ?w" "socks_ok Rs s" using ok by (auto simp: lua_ok_def)
  then have own: "owns ?w t (Rs a)" using t by (simp add: lists_are_def)
  obtain rs m k' where rs: "owns ?w t rs" and m1: "th_mfd_res t = Some m" and k': "free_thread en a k0 = Some k'"
    "core_ok UNIV mp (S - {a}) k'" "w_ths (wk_world k') = (w_ths ?w)(a := None)"
    and world0: "w_res (wk_world k') = (orphaned (w_res ?w) (set rs))(m := None)" "w_ext (wk_world k') = close_all en ?w t rs"
    by (rule free_thread_ok [OF lua_ok_core [OF ok] t before work]) blast
  have "rs = Rs a" using rs own by (auto simp: owns_def dest: is_dlist_unique)
  note world = world0 [unfolded this]
  have m: "th_mfd_res t = Some m" "m \<in> set (Rs a)" using m1 own by (auto simp: owns_def)
  let ?w' = "wk_world k'"
  have after: "w_res ?w' b = Some (if rs_th r = Some a then r\<lparr>rs_freef := None, rs_th := None\<rparr> else r) \<and> (rs_th r = Some a \<longleftrightarrow> b \<in> set (Rs a))"
    if "held Rs b ?w" "w_res ?w b = Some r" for b r
    using that t m(1) world(1) by (auto simp: held_def orphaned_def)
  have "owns ?w' u (Rs c)" if "c \<noteq> a" "w_ths ?w c = Some u" for c u
  proof -
    have apart: "set (Rs c) \<inter> set (Rs a) = {}" and own_c: "owns ?w u (Rs c)" using Rs(1) that t by (auto simp: lists_are_def)
    have "dseg (w_res ?w') None (Rs c) None = dseg (w_res ?w) None (Rs c) None"
      by (rule dseg_frame) (use apart m(2) world(1) in \<open>auto simp: orphaned_def\<close>)
    with own_c show ?thesis by (simp add: owns_def is_dlist_def)
  qed
  then have lists: "lists_are Rs ?w'" using Rs(1) k'(3) by (simp add: lists_are_def)
  have held': "held Rs b ?w'" if b: "held Rs b ?w" for b
  proof -
    obtain r where r: "w_res ?w b = Some r" "\<And>th. rs_th r = Some th \<Longrightarrow> w_ths ?w th \<noteq> None"
      "\<And>th u. w_ths ?w th = Some u \<Longrightarrow> th_mfd_res u \<noteq> Some b \<and> (b \<in> set (Rs th) \<longleftrightarrow> rs_th r = Some th)"
      using b by (auto simp: held_def)
    show ?thesis unfolding held_def
    proof (intro exI conjI allI impI)
      show "w_res ?w' b = Some (if rs_th r = Some a then r\<lparr>rs_freef := None, rs_th := None\<rparr> else r)" using after [OF b r(1)] by simp
    qed (use r k'(3) in \<open>auto split: if_splits\<close>)
  qed
  have custom: "custom (s\<lparr>lu_wk := k'\<rparr>) = custom s" by (intro ext) (simp add: custom_def)
  have "socks_ok Rs (s\<lparr>lu_wk := k'\<rparr>)" unfolding socks_ok_def custom using Rs(2) held' by (auto simp: socks_ok_def)
  with k'(2) lists have "lua_ok mp (S - {a}) (s\<lparr>lu_wk := k'\<rparr>)" by (auto simp: lua_ok_def core_ok_def)
  moreover have "held Rs b ?w" if "custom s c b" for c b using Rs(2) that by (auto simp: socks_ok_def)
  ultimately show thesis using k'(1,3) own world(2) after by (intro that [of k' "Rs a"]) auto
qed

subsection \<open>The properties, and a thread with one connection to see them on\<close>

text \<open>Thread 1 has the connection 2; socket 1 is what \<open>get_msock\<close> gave it.\<close>

definition duo_mem :: mem where
  "duo_mem = snd (the (memp_alloc (Some 0) 9 small_mem))"

definition duo_lua :: "'x \<Rightarrow> 'x lua" where
  "duo_lua x = \<lparr>lu_wk = \<lparr>wk_world = \<lparr>w_nodes = [1 \<mapsto> node_of None L Red None None], w_pools = [10 \<mapsto> None, 11 \<mapsto> None],
       w_ths = [1 \<mapsto> conn_thread 2 fresh_thread], w_res = [2 \<mapsto> conn_res 7 1], w_cur_tid = 1, w_ext = x\<rparr>,
     wk_mem = duo_mem, wk_stop = \<lparr>ta_n = 0, ta_ths = [None, None]\<rparr>\<rparr>,
     lu_socks = [1 \<mapsto> \<lparr>sk_res = Some 2, sk_type = LM_SOCK_TYPE_SYSTEM\<rparr>], lu_sends = (\<lambda>_. None), lu_tab = (\<lambda>_ _. None), lu_next = 2\<rparr>"

lemma duo_mem_ok: "pool_ok 0 duo_mem" "pool_live 0 duo_mem = {1, 2}" "oom duo_mem = (\<lambda>_. False)"
proof -
  have ok: "pool_ok 0 small_mem" using small_mem_inv by (auto simp: pool_ok_def)
  have "pool_size_ok 9" by (simp add: pool_size_ok_def)
  from memp_alloc_total [OF ok this] obtain r m where m: "memp_alloc (Some 0) 9 small_mem = Some (r, m)" "pool_ok 0 m"
    "pool_live 0 m = pool_live 0 small_mem \<union> set_option r" "oom m = oom small_mem" by blast
  then have duo: "duo_mem = m" by (simp add: duo_mem_def)
  have "map_option fst (memp_alloc (Some 0) 9 small_mem) = Some (Some 2)" by code_simp
  then have r: "r = Some 2" using m(1) by simp
  have "pool_live 0 small_mem = {1}" by (auto simp: pool_live_def owned_def small_mem_def)
  then show "pool_ok 0 duo_mem" "pool_live 0 duo_mem = {1, 2}" unfolding duo using m(2,3) r by auto
  show "oom duo_mem = (\<lambda>_. False)" unfolding duo m(4) by (simp add: small_mem_def)
qed

lemma duo_no_oom: "no_oom (lu_wk (duo_lua x))"
  by (simp add: no_oom_def duo_lua_def duo_mem_ok)

lemma duo_ok: "lua_ok 0 {} (duo_lua x)"
proof -
  let ?w = "wk_world (lu_wk (duo_lua x))"
  have "lists_are (\<lambda>_. [2]) ?w" by (auto simp: lists_are_def owns_def is_dlist_def duo_lua_def conn_thread_def conn_res_def)
  moreover have "socks_ok (\<lambda>_. [2]) (duo_lua x)" by (simp add: socks_ok_def custom_def duo_lua_def)
  moreover have "blocks_ok 0 (lu_wk (duo_lua x))" using duo_mem_ok by (auto simp: blocks_ok_def duo_lua_def)
  moreover have "stopped ?w = {}" by (simp add: stopped_def duo_lua_def conn_thread_def fresh_thread_def)
  ultimately show ?thesis by (auto simp: lua_ok_def)
qed

lemma duo_next: "lu_next (duo_lua x) = 2"
  and duo_thread: "wk_thread 1 (lu_wk (duo_lua x)) = Some (conn_thread 2 fresh_thread)"
  and life_cx_pool: "cx_mem_pool life_cx = Some 0"
  by (simp_all add: duo_lua_def wk_thread_def life_cx_def demo_cx_def)

definition log_env :: "int list env" where
  "log_env = demo_env (\<lambda>x. (-1, x)) (\<lambda>d x. d # x) LOk"

lemma log_connects: "make_client_socket (net.truncate log_env) ''h'' (of_int 80) x = (3, x)"
  by (simp add: make_client_socket_def simple_bind_name_to_socket_def simple_connect_socket_def log_env_def demo_env_def net.truncate_def)

lemma duo_opens:
  obtains s' a r where "lcf_socket_new log_env life_cx (Some 1) ''h'' 80 (duo_lua []) = Some (LRet [LUd 2], s')" "lua_ok 0 {} s'"
    "custom s' 2 a" "w_res (wk_world (lu_wk s')) a = Some r" "rs_d r = 3" "rs_th r = Some 1" "rs_freef r = Some 0"
  by (rule socket_new_ok [OF duo_ok life_cx_pool duo_no_oom duo_thread log_connects, unfolded duo_next]) (use that in auto)

text \<open>C8: \<open>new\<close> of a socket that connects returns a socket with a resource of its own, which holds the
  descriptor and belongs to the running thread, and keeps the invariant of threads, resources,
  sockets and memory.\<close>

theorem socket_opens:
  assumes "lua_ok mp S s" and "cx_mem_pool cx = Some mp" and "no_oom (lu_wk s)" and "wk_thread th (lu_wk s) = Some t"
    and "make_client_socket (net.truncate en) host (of_int port) (w_ext (wk_world (lu_wk s))) = (fd, x)" and "0 \<le> fd"
  shows "\<exists>s' a r. lcf_socket_new en cx (Some th) host port s = Some (LRet [LUd (lu_next s)], s') \<and> lua_ok mp S s'
    \<and> custom s' (lu_next s) a \<and> w_res (wk_world (lu_wk s')) a = Some r \<and> rs_d r = fd \<and> rs_th r = Some th"
  using socket_new_ok [OF assms] by metis

theorem socket_opens_witness:
  "\<exists>s' a r. lcf_socket_new log_env life_cx (Some 1) ''h'' 80 (duo_lua []) = Some (LRet [LUd 2], s')
    \<and> custom s' 2 a \<and> w_res (wk_world (lu_wk s')) a = Some r \<and> rs_d r = 3 \<and> rs_th r = Some 1"
proof -
  have "(0 :: int) \<le> 3" by simp
  from socket_opens [OF duo_ok life_cx_pool duo_no_oom duo_thread log_connects this, unfolded duo_next] show ?thesis by blast
qed

text \<open>C7: closing a socket, by hand or by the garbage collector, takes its resource out of the thread's list,
  closes the descriptor unless the thread has done so, gives the block back and keeps the
  invariant; closing it once more does nothing.\<close>

theorem close_releases:
  assumes "lua_ok mp S s" and "custom s c a"
  shows "\<exists>r s'. w_res (wk_world (lu_wk s)) a = Some r \<and> lcf_socket_close en c s = Some (LRet [], s') \<and> lua_ok mp S s'
    \<and> live mp (lu_wk s') = live mp (lu_wk s) - {a} \<and> lcf_socket_close en c s' = Some (LRet [], s')
    \<and> w_ext (wk_world (lu_wk s')) = (if rs_freef r = None then w_ext (wk_world (lu_wk s)) else sc_close en (rs_d r) (w_ext (wk_world (lu_wk s))))"
proof -
  obtain r s' where s': "w_res (wk_world (lu_wk s)) a = Some r" "lcf_socket_close en c s = Some (LRet [], s')" "lua_ok mp S s'"
    "live mp (lu_wk s') = live mp (lu_wk s) - {a}" "lu_socks s' = (lu_socks s)(c \<mapsto> \<lparr>sk_res = None, sk_type = LM_SOCK_TYPE_CUSTOM\<rparr>)"
    "w_ext (wk_world (lu_wk s')) = (if rs_freef r = None then w_ext (wk_world (lu_wk s)) else sc_close en (rs_d r) (w_ext (wk_world (lu_wk s))))"
    by (rule socket_close_ok [OF assms])
  moreover from this(5) have "lcf_socket_close en c s' = Some (LRet [], s')" by (simp add: lcf_socket_close_def)
  ultimately show ?thesis by blast
qed

theorem close_releases_witness:
  "\<exists>s s' a. lua_ok 0 {} s \<and> custom s 2 a \<and> lcf_socket_close log_env 2 s = Some (LRet [], s') \<and> w_ext (wk_world (lu_wk s')) = 3 # w_ext (wk_world (lu_wk s))"
proof -
  obtain s :: "int list lua" and a r where s: "lua_ok 0 {} s" "custom s 2 a" "w_res (wk_world (lu_wk s)) a = Some r" "rs_d r = 3" "rs_freef r = Some 0"
    by (rule duo_opens) blast
  from close_releases [OF s(1,2), of log_env] s(3-5) obtain s' where "lcf_socket_close log_env 2 s = Some (LRet [], s')"
    "w_ext (wk_world (lu_wk s')) = 3 # w_ext (wk_world (lu_wk s))" by (auto simp: log_env_def demo_env_def)
  with s(1,2) show ?thesis by blast
qed

text \<open>C6: when a thread ends before its sockets are collected, freeing it closes their descriptors and leaves
  their resources; the collection of a socket then gives the block of its resource back without a
  second \<open>close\<close>. The invariant holds all the time. Freeing begins with a call of Lua, in which the
  collector may run: \<open>k0\<close> is the worker before it, \<open>s\<close> the state that it leaves, which keeps the
  invariant and has the socket still.\<close>

theorem ended_thread_closes_once:
  assumes "lua_ok mp S s" and "wk_thread a (lu_wk s) = Some t" and "custom s c b"
    and "w_res (wk_world (lu_wk s)) b = Some r" and "rs_th r = Some a"
    and "wk_thread a k0 = Some t0" and "lua_work en (LC_Unref (th_T t0) (th_tid t0)) k0 = lu_wk s"
  shows "\<exists>k' rs s'. free_thread en a k0 = Some k' \<and> owns (wk_world (lu_wk s)) t rs \<and> b \<in> set rs
    \<and> w_ext (wk_world k') = close_all en (wk_world (lu_wk s)) t rs \<and> lua_ok mp (S - {a}) (s\<lparr>lu_wk := k'\<rparr>)
    \<and> lcf_socket_close en c (s\<lparr>lu_wk := k'\<rparr>) = Some (LRet [], s') \<and> w_ext (wk_world (lu_wk s')) = w_ext (wk_world k')
    \<and> live mp (lu_wk s') = live mp k' - {b} \<and> lua_ok mp (S - {a}) s'"
proof -
  have t: "w_ths (wk_world (lu_wk s)) a = Some t" using assms(2) by (simp add: wk_thread_def)
  have t0: "w_ths (wk_world k0) a = Some t0" using assms(6) by (simp add: wk_thread_def)
  obtain k' rs where k': "free_thread en a k0 = Some k'" "lua_ok mp (S - {a}) (s\<lparr>lu_wk := k'\<rparr>)"
    "owns (wk_world (lu_wk s)) t rs" "w_ext (wk_world k') = close_all en (wk_world (lu_wk s)) t rs"
    and res: "\<And>c b r. custom s c b \<Longrightarrow> w_res (wk_world (lu_wk s)) b = Some r \<Longrightarrow> w_res (wk_world k') b
      = Some (if rs_th r = Some a then r\<lparr>rs_freef := None, rs_th := None\<rparr> else r) \<and> (rs_th r = Some a \<longrightarrow> b \<in> set rs)"
    by (rule thread_end_ok [OF assms(1) t t0 assms(7)]) blast
  from res [OF assms(3,4)] have b: "w_res (wk_world k') b = Some (r\<lparr>rs_freef := None, rs_th := None\<rparr>)" "b \<in> set rs"
    using assms(5) by simp_all
  have sock: "custom (s\<lparr>lu_wk := k'\<rparr>) c b" using assms(3) by (simp add: custom_def)
  have wk: "lu_wk (s\<lparr>lu_wk := k'\<rparr>) = k'" by simp
  obtain r' s' where close: "w_res (wk_world k') b = Some r'" "lcf_socket_close en c (s\<lparr>lu_wk := k'\<rparr>) = Some (LRet [], s')"
    "lua_ok mp (S - {a}) s'" "live mp (lu_wk s') = live mp k' - {b}"
    "w_ext (wk_world (lu_wk s')) = (if rs_freef r' = None then w_ext (wk_world k') else sc_close en (rs_d r') (w_ext (wk_world k')))"
    by (rule socket_close_ok [OF k'(2) sock, of en, unfolded wk]) blast
  have "rs_freef r' = None" using close(1) b(1) by auto
  then have "w_ext (wk_world (lu_wk s')) = w_ext (wk_world k')" using close(5) by simp
  with k' b(2) close(2-4) show ?thesis by blast
qed

theorem ended_thread_closes_once_witness:
  "\<exists>s k' s'. lua_ok 0 {} s \<and> free_thread log_env 1 (lu_wk s) = Some k' \<and> lcf_socket_close log_env 2 (s\<lparr>lu_wk := k'\<rparr>) = Some (LRet [], s')
    \<and> w_ext (wk_world (lu_wk s')) = w_ext (wk_world k')"
proof -
  obtain s :: "int list lua" and a r where s: "lua_ok 0 {} s" "custom s 2 a" "w_res (wk_world (lu_wk s)) a = Some r" "rs_th r = Some 1"
    by (rule duo_opens) blast
  then obtain t where t: "wk_thread 1 (lu_wk s) = Some t"
    by (auto simp: lua_ok_def socks_ok_def held_def wk_thread_def) (metis option.inject)
  have "lua_work log_env (LC_Unref (th_T t) (th_tid t)) (lu_wk s) = lu_wk s" by (simp add: log_env_def demo_env_def)
  from ended_thread_closes_once [OF s(1) t s(2-4) t this] s(1) show ?thesis by blast
qed

end
