(* ===== verification/Sock_Io.thy ===== *)
theory Sock_Io
  imports Sock_Life
begin

text \<open>
  How the socket functions end: a connection that fails, a send and what becomes of it when it has
  to wait, a read and the worker that wakes it, the end of waiting for several sockets.
\<close>

subsection \<open>A connection that fails\<close>

lemma new_fails:
  assumes blocks: "core_ok A mp S (lu_wk s)" and mp: "cx_mem_pool cx = Some mp" and mem: "no_oom (lu_wk s)"
    and conn: "make_client_socket (net.truncate en) host (of_int port) (w_ext (wk_world (lu_wk s))) = (fd, x)" "fd < 0"
  obtains s' where "lcf_socket_new en cx th host port s = Some (LError, s')" "live mp (lu_wk s') = live mp (lu_wk s)"
    "lcf_socket_close en (lu_next s) s' = None"
proof -
  let ?s1 = "s\<lparr>lu_socks := (lu_socks s)(lu_next s \<mapsto> \<lparr>sk_res = None, sk_type = LM_SOCK_TYPE_CUSTOM\<rparr>), lu_next := Suc (lu_next s)\<rparr>"
  obtain a k1 where k1: "alloc_res cx (lu_wk s) = Some (Some a, k1)" "live mp k1 = insert a (live mp (lu_wk s))"
    "blocks_ok mp k1" "a \<notin> live mp (lu_wk s)" "w_res (wk_world k1) = (w_res (wk_world (lu_wk s)))(a \<mapsto> fresh_res)"
    "w_ext (wk_world k1) = w_ext (wk_world (lu_wk s))"
    using alloc_res_ok [OF blocks mp] mem by (auto split: option.splits)
  note fd = conn [folded k1(6)]
  let ?k2 = "on_ext (\<lambda>_. x) k1"
  have ok: "pool_ok mp (wk_mem ?k2)" "a \<in> live mp ?k2" using k1(2,3) by (simp_all add: blocks_ok_def on_ext_def)
  obtain m where m: "memp_recycle (Some a) (wk_mem ?k2) = Some m" "pool_live mp m = live mp ?k2 - {a}"
    using mp.recycle_law [OF ok] by blast
  let ?k3 = "?k2\<lparr>wk_mem := m, wk_world := (wk_world ?k2)\<lparr>w_res := (w_res (wk_world ?k2))(a := None)\<rparr>\<rparr>"
  let ?s3 = "?s1\<lparr>lu_wk := ?k3, lu_socks := (lu_socks ?s1)(lu_next s \<mapsto> \<lparr>sk_res = Some a, sk_type = LM_SOCK_TYPE_CUSTOM\<rparr>)\<rparr>"
  have "lcf_socket_new en cx th host port s = Some (LError, ?s3)"
    using k1(1) fd m(1) by (simp add: lcf_socket_new_def new_userdata_def lu_on_wk_def lu_call_def recycle_res_def Let_def)
  moreover have "live mp ?k3 = live mp (lu_wk s)" using m(2) k1(2,4) by (simp add: on_ext_def)
  moreover have "lcf_socket_close en (lu_next s) ?s3 = None" by (simp add: lcf_socket_close_def lu_res_def)
  ultimately show thesis by (intro that [of ?s3]) simp_all
qed

subsection \<open>How a send ends\<close>

definition send_out :: "ptr \<Rightarrow> addr \<Rightarrow> u8 list \<Rightarrow> nat \<Rightarrow> lcf \<Rightarrow> bool" where
  "send_out res c buf j out \<longleftrightarrow> (out = LRet [LInt (int (length buf)), LNil] \<and> j = length buf)
     \<or> (\<exists>e. out = LRet [LInt (int j), LInt e])
     \<or> out = LYieldK [LInt LAS_S_YIELD_FOR_IO, LPtr res, LInt LAS_S_WAIT_FOR_OUTPUT, LInt LAS_D_TIMOUT_SECS] (K_Send c)"

definition send_context :: "ptr \<Rightarrow> u8 list \<Rightarrow> nat \<Rightarrow> send_ctx" where
  "send_context res buf i = \<lparr>sx_res = res, sx_buf = buf, sx_len = length buf, sx_idx = i\<rparr>"

lemma send_context_fold: "\<lparr>sx_res = res, sx_buf = buf, sx_len = length buf, sx_idx = i\<rparr> = send_context res buf i"
  and send_context_res: "sx_res (send_context res buf i) = res"
  by (simp_all add: send_context_def)

lemma sends_prefix_truncate: "sends_prefix (net.truncate en) fd sent \<Longrightarrow> sc_send en fd d x = (r, y) \<Longrightarrow>
  (case r of Inl e \<Rightarrow> sent y = sent x | Inr m \<Rightarrow> m \<le> length d \<and> sent y = sent x @ take m d)"
  by (simp add: sends_prefix_def net.truncate_def)

definition ext_of :: "'x lua \<Rightarrow> 'x" where
  "ext_of s = w_ext (wk_world (lu_wk s))"

lemma send_loop_ok:
  assumes sends: "sends_prefix (net.truncate en) fd sent"
    and progress: "\<forall>d x y. sc_send en fd d x = (Inr 0, y) \<longrightarrow> d = []"
  shows "lu_sends s c = Some (send_context res buf i) \<Longrightarrow> i \<le> length buf \<Longrightarrow>
    \<exists>out x j. send_loop en c r fd s = Some (out, s\<lparr>lu_wk := on_ext (\<lambda>_. x) (lu_wk s), lu_sends := (lu_sends s)(c \<mapsto> send_context res buf j)\<rparr>)
      \<and> (\<exists>j'. send_out r c buf j' out \<and> j' \<le> length buf \<and> i \<le> j' \<and> sent x = sent (ext_of s) @ take (j' - i) (drop i buf)
        \<and> (\<forall>vs k. out = LYieldK vs k \<longrightarrow> j' = j))"
proof (induction "length buf - i" arbitrary: i s rule: less_induct)
  case less
  obtain m y where send: "sc_send en fd (drop i buf) (ext_of s) = (m, y)" by fastforce
  let ?s1 = "s\<lparr>lu_wk := on_ext (\<lambda>_. y) (lu_wk s)\<rparr>"
  have call: "lu_call (sc_send en fd (drop i buf)) s = (m, ?s1)" using send by (simp add: lu_call_def ext_of_def)
  let ?s2 = "\<lambda>j. s\<lparr>lu_wk := on_ext (\<lambda>_. y) (lu_wk s), lu_sends := (lu_sends s)(c \<mapsto> send_context res buf j)\<rparr>"
  let ?out = "\<lambda>e. if e \<noteq> EAGAIN then LRet [LInt (int i), LInt e]
    else LYieldK [LInt LAS_S_YIELD_FOR_IO, LPtr r, LInt LAS_S_WAIT_FOR_OUTPUT, LInt LAS_D_TIMOUT_SECS] (K_Send c)"
  have same: "?s1 = ?s2 i"
    using less.prems(1) by (simp add: fun_upd_idem)
  show ?case
  proof (cases m)
    case (Inl e)
    have "sent y = sent (ext_of s)" using sends_prefix_truncate [OF sends send] Inl by simp
    moreover have "send_loop en c r fd s = Some (?out e, ?s1)"
      using less.prems(1) call Inl by (subst send_loop.simps) (simp add: send_context_def)
    then have "send_loop en c r fd s = Some (?out e, ?s2 i)" by (simp only: same [symmetric])
    moreover have "send_out r c buf i (?out e)" by (auto simp: send_out_def)
    ultimately show ?thesis using less.prems(2)
      by (intro exI [of _ "?out e"] exI [of _ y] exI [of _ i] conjI exI [of _ i]) auto
  next
    case (Inr n)
    then have n: "n \<le> length buf - i" "sent y = sent (ext_of s) @ take n (drop i buf)"
      using sends_prefix_truncate [OF sends send] by simp_all
    show ?thesis
    proof (cases "n = length buf - i")
      case True
      let ?ret = "LRet [LInt (int (length buf)), LNil]"
      from True have "send_loop en c r fd s = Some (?ret, ?s1)"
        using less.prems(1) call Inr by (subst send_loop.simps) (simp add: send_context_def)
      then have "send_loop en c r fd s = Some (?ret, ?s2 i)" by (simp only: same [symmetric])
      with n True less.prems(2) show ?thesis
        by (intro exI [of _ ?ret] exI [of _ y] exI [of _ i] conjI exI [of _ "length buf"]) (auto simp: send_out_def)
    next
      case False
      then have "n \<noteq> 0" using progress send Inr n(1) by fastforce
      let ?s3 = "?s1\<lparr>lu_sends := (lu_sends s)(c \<mapsto> send_context res buf (i + n))\<rparr>"
      have step: "send_loop en c r fd s = send_loop en c r fd ?s3"
        using less.prems(1) call Inr False by (subst send_loop.simps) (simp add: send_context_def)
      have "length buf - (i + n) < length buf - i" "i + n \<le> length buf" "lu_sends ?s3 c = Some (send_context res buf (i + n))"
        using \<open>n \<noteq> 0\<close> n(1) False by auto
      from less.hyps [OF this(1,3,2)] obtain out x j j' where
        IH: "send_loop en c r fd ?s3 = Some (out, ?s3\<lparr>lu_wk := on_ext (\<lambda>_. x) (lu_wk ?s3), lu_sends := (lu_sends ?s3)(c \<mapsto> send_context res buf j)\<rparr>)"
        "send_out r c buf j' out" "j' \<le> length buf" "i + n \<le> j'" "sent x = sent (ext_of ?s3) @ take (j' - (i + n)) (drop (i + n) buf)"
        "\<forall>vs k. out = LYieldK vs k \<longrightarrow> j' = j" by blast
      have "take (j' - i) (drop i buf) = take n (drop i buf) @ take (j' - (i + n)) (drop (i + n) buf)"
        using take_add [of n "j' - (i + n)" "drop i buf"] IH(4) by (simp add: add.commute)
      then have "sent x = sent (ext_of s) @ take (j' - i) (drop i buf)" using IH(5) n(2) by (simp add: ext_of_def on_ext_def)
      moreover have "send_loop en c r fd s = Some (out, s\<lparr>lu_wk := on_ext (\<lambda>_. x) (lu_wk s), lu_sends := (lu_sends s)(c \<mapsto> send_context res buf j)\<rparr>)"
        using step IH(1) by (simp add: on_ext_def)
      ultimately show ?thesis using IH(2-4,6) by (intro exI [of _ out] exI [of _ x] exI [of _ j] conjI exI [of _ j']) auto
    qed
  qed
qed

text \<open>
  A send returns how far it came and gives its context back, or it waits with its context still
  in use, as much of the buffer sent as the context says.
\<close>

lemma socket_send_ok:
  assumes blocks: "pool_ok mp (wk_mem (lu_wk s))" and mp: "cx_mem_pool cx = Some mp" and mem: "no_oom (lu_wk s)"
    and sock: "lu_socks s sock = Some sk" "sk_res sk = Some a" "w_res (wk_world (lu_wk s)) a = Some r" "rs_th r = Some th"
      "w_ths (wk_world (lu_wk s)) th = Some t" "th_mode t = TM_Simple"
    and sends: "sends_prefix (net.truncate en) (res_fd r) sent"
    and progress: "\<forall>d x y. sc_send en (res_fd r) d x = (Inr 0, y) \<longrightarrow> d = []"
  obtains out s' c j where "lcf_socket_send en cx sock (Some buf) s = Some (out, s')" "send_out (Some a) c buf j out"
    "j \<le> length buf" "sent (ext_of s') = sent (ext_of s) @ take j buf" "c \<notin> live mp (lu_wk s)" "pool_ok mp (wk_mem (lu_wk s'))"
    "live mp (lu_wk s') = (if \<exists>vs. out = LRet vs then live mp (lu_wk s) else insert c (live mp (lu_wk s)))"
    "\<And>vs k. out = LYieldK vs k \<Longrightarrow> lu_sends s' c = Some (send_context (Some a) buf j)"
    "wk_world (lu_wk s') = (wk_world (lu_wk s))\<lparr>w_ext := ext_of s'\<rparr>" "lu_socks s' = lu_socks s" "lu_next s' = lu_next s"
proof -
  have "pool_size_ok sizeof_send_ctx" by (simp add: pool_size_ok_def sizeof_send_ctx_def)
  from memp_alloc_total [OF blocks this] obtain p m where pm: "memp_alloc (Some mp) sizeof_send_ctx (wk_mem (lu_wk s)) = Some (p, m)"
    "pool_ok mp m" "pool_live mp m = live mp (lu_wk s) \<union> set_option p" "set_option p \<inter> live mp (lu_wk s) = {}" "p \<noteq> None"
    using mem by (auto simp: no_oom_def)
  then obtain c where c: "p = Some c" by auto
  let ?s1 = "s\<lparr>lu_wk := (lu_wk s)\<lparr>wk_mem := m\<rparr>, lu_sends := (lu_sends s)(c \<mapsto> send_context (Some a) buf 0)\<rparr>"
  obtain out x j j' where loop: "send_loop en c (Some a) (res_fd r) ?s1
      = Some (out, ?s1\<lparr>lu_wk := on_ext (\<lambda>_. x) (lu_wk ?s1), lu_sends := (lu_sends ?s1)(c \<mapsto> send_context (Some a) buf j)\<rparr>)"
    "send_out (Some a) c buf j' out" "j' \<le> length buf" "sent x = sent (ext_of ?s1) @ take j' buf" "\<forall>vs k. out = LYieldK vs k \<longrightarrow> j' = j"
    using send_loop_ok [OF sends progress, where s = ?s1 and c = c and i = 0 and res = "Some a" and buf = buf and r = "Some a"]
    by auto
  let ?s2 = "s\<lparr>lu_wk := on_ext (\<lambda>_. x) ((lu_wk s)\<lparr>wk_mem := m\<rparr>), lu_sends := (lu_sends s)(c \<mapsto> send_context (Some a) buf j)\<rparr>"
  have ext: "sent x = sent (ext_of s) @ take j' buf" using loop(4) by (simp add: ext_of_def)
  have code: "lcf_socket_send en cx sock (Some buf) s = (case out of
       LRet vs \<Rightarrow> do { s \<leftarrow> recycle_send c ?s2; Some (LRet vs, s) } | _ \<Rightarrow> Some (out, ?s2))"
    using sock mp pm(1) c loop(1)
    by (simp add: lcf_socket_send_def lu_res_def lu_th_def k_socket_send_def send_from_def send_context_fold send_context_res)
  show thesis
  proof (cases "\<exists>vs. out = LRet vs")
    case True
    have ok: "pool_ok mp (wk_mem (lu_wk ?s2))" "c \<in> live mp (lu_wk ?s2)" using pm(2,3) c by (simp_all add: on_ext_def)
    obtain m' where m': "memp_recycle (Some c) (wk_mem (lu_wk ?s2)) = Some m'" "pool_ok mp m'" "pool_live mp m' = live mp (lu_wk ?s2) - {c}"
      using mp.recycle_law [OF ok] by blast
    let ?s3 = "?s2\<lparr>lu_wk := (lu_wk ?s2)\<lparr>wk_mem := m'\<rparr>, lu_sends := (lu_sends ?s2)(c := None)\<rparr>"
    have "lcf_socket_send en cx sock (Some buf) s = Some (out, ?s3)" using code True m'(1) by (auto simp: recycle_send_def)
    moreover have "pool_live mp m' = live mp (lu_wk s)" using m'(3) pm(3,4) c by (auto simp: on_ext_def)
    ultimately show thesis using loop(2,3) m'(2) ext pm(4) c True
      by (intro that [of out ?s3 c j']) (auto simp: ext_of_def on_ext_def)
  next
    case False
    then have out: "\<exists>vs k. out = LYieldK vs k" using loop(2) by (auto simp: send_out_def)
    then have "lcf_socket_send en cx sock (Some buf) s = Some (out, ?s2)" using code by auto
    with out loop(2,3,5) pm(2-4) c ext show thesis
      by (intro that [of out ?s2 c j']) (auto simp: ext_of_def on_ext_def)
  qed
qed

subsection \<open>The end of waiting for several sockets\<close>

text \<open>\<open>reg x b\<close> is what the kernel watches of resource \<open>b\<close>; a call changes that of its resource only.\<close>

definition epoll_local :: "'x env \<Rightarrow> ('x \<Rightarrow> addr \<Rightarrow> u32) \<Rightarrow> bool" where
  "epoll_local en reg \<longleftrightarrow> (\<forall>op epfd fd a ev x b. b \<noteq> a \<longrightarrow> reg (snd (en_ctl en op epfd fd a ev x)) b = reg x b)"

definition events_kept :: "('x \<Rightarrow> addr \<Rightarrow> u32) \<Rightarrow> 'x world \<Rightarrow> 'x world \<Rightarrow> bool" where
  "events_kept reg w w' \<longleftrightarrow> w_ths w' = w_ths w \<and> (\<forall>b r. w_res w b = Some r \<longrightarrow> rs_status r = RS_Ev \<longrightarrow>
     w_res w' b = Some r \<and> reg (w_ext w') b = reg (w_ext w) b)"

lemma ev_del_result:
  assumes "epoll_local en reg" and a: "w_res w a = Some r"
  obtains ret w' where "asthread_res_ev_del (en_ctl en) fdf a epfd w = Some (ret, w')" "events_kept reg w w'"
    "\<And>b. b \<noteq> a \<Longrightarrow> w_res w' b = w_res w b"
proof (cases "rs_status r = RS_Ev")
  case True
  with True a show thesis by (intro that [of 0 w]) (auto simp: asthread_res_ev_del_def events_kept_def)
next
  case False
  obtain ret x where ctl: "en_ctl en EP_Mod epfd (fdf (rs_fdf r) (rs_d r)) a 0 (w_ext w) = (ret, x)" by fastforce
  let ?w = "w\<lparr>w_res := (if ret = 0 then (w_res w)(a \<mapsto> r\<lparr>rs_status := RS_Idle\<rparr>) else w_res w), w_ext := x\<rparr>"
  have "reg x b = reg (w_ext w) b" if "b \<noteq> a" for b
    using assms(1) that ctl unfolding epoll_local_def by (metis snd_conv)
  then have "reg x b = reg (w_ext w) b" if "w_res w b = Some rb" "rs_status rb = RS_Ev" for b rb
    using that a False by (cases "b = a") auto
  then show thesis using False a ctl
    by (intro that [of ret ?w]) (auto simp: asthread_res_ev_del_def res_ev_ctl_def set_res_Some events_kept_def Let_def)
qed

lemma remove_keeps_events:
  assumes reg: "epoll_local en reg" and t: "w_ths w th = Some t" "is_dlist (w_res w) (th_resl t) rs"
  obtains w' where "asthread_remove_res_from_epfd (en_ctl en) fdf th epfd w = Some w'" "events_kept reg w w'"
proof -
  let ?f = "\<lambda>a w. map_option snd (asthread_res_ev_del (en_ctl en) fdf a epfd w)"
  have "dseg (w_res w) pr xs None \<Longrightarrow> distinct xs \<Longrightarrow> \<exists>w'. dlist_pos_travel w_res ?f (hd_ptr xs None) w = Some w' \<and> events_kept reg w w'" for pr xs
  proof (induction xs arbitrary: pr w)
    case Nil
    then show ?case by (simp add: dlist_pos_travel.simps events_kept_def)
  next
    case (Cons a xs)
    then obtain r where r: "w_res w a = Some r" "dl_next r = hd_ptr xs None" "dseg (w_res w) (Some a) xs None" by auto
    obtain ret w1 where w1: "asthread_res_ev_del (en_ctl en) fdf a epfd w = Some (ret, w1)" "events_kept reg w w1"
      "\<And>b. b \<noteq> a \<Longrightarrow> w_res w1 b = w_res w b" by (rule ev_del_result [OF reg r(1)]) blast
    have "dseg (w_res w1) (Some a) xs None"
      by (subst dseg_frame [of xs "w_res w1" "w_res w"]) (use r(3) Cons.prems(2) in \<open>auto intro!: w1(3)\<close>)
    from Cons.IH [OF this] Cons.prems(2) obtain w2 where "dlist_pos_travel w_res ?f (hd_ptr xs None) w1 = Some w2" "events_kept reg w1 w2" by auto
    moreover have "events_kept reg w w2" using w1(2) \<open>events_kept reg w1 w2\<close> unfolding events_kept_def by metis
    ultimately show ?case using r(1,2) w1(1) by (subst dlist_pos_travel.simps) auto
  qed
  with t obtain w' where "dlist_pos_travel w_res ?f (dl_head (th_resl t)) w = Some w'" "events_kept reg w w'"
    unfolding is_dlist_def by metis
  with t(1) show thesis by (intro that [of w']) (simp_all add: asthread_remove_res_from_epfd_def)
qed

lemma ev_end_ok:
  assumes reg: "epoll_local en reg" and t: "w_ths (wk_world (lu_wk s)) th = Some t" "th_mode t = TM_Loop_Socks"
    and rs: "is_dlist (w_res (wk_world (lu_wk s))) (th_resl t) rs"
  obtains s' where "lcf_socket_ev_end en cx (Some th) s = Some (LRet [], s')"
    "w_ths (wk_world (lu_wk s')) = (w_ths (wk_world (lu_wk s)))(th \<mapsto> t\<lparr>th_mode := TM_Simple\<rparr>)"
    "\<And>b r. w_res (wk_world (lu_wk s)) b = Some r \<Longrightarrow> rs_status r = RS_Ev \<Longrightarrow>
       w_res (wk_world (lu_wk s')) b = Some r \<and> reg (ext_of s') b = reg (ext_of s) b"
proof -
  let ?w = "wk_world (lu_wk s)"
  let ?w1 = "?w\<lparr>w_ths := (w_ths ?w)(th \<mapsto> t\<lparr>th_mode := TM_Simple\<rparr>)\<rparr>"
  have t1: "w_ths ?w1 th = Some (t\<lparr>th_mode := TM_Simple\<rparr>)" "is_dlist (w_res ?w1) (th_resl (t\<lparr>th_mode := TM_Simple\<rparr>)) rs" using rs by simp_all
  obtain w' where w': "asthread_remove_res_from_epfd (en_ctl en) res_fd_f th (cx_epfd cx) ?w1 = Some w'" "events_kept reg ?w1 w'"
    by (rule remove_keeps_events [OF reg t1]) blast
  let ?s' = "s\<lparr>lu_wk := (lu_wk s)\<lparr>wk_world := w'\<rparr>\<rparr>"
  have "lcf_socket_ev_end en cx (Some th) s = Some (LRet [], ?s')"
    using t w'(1) by (simp add: lcf_socket_ev_end_def lu_th_def lu_on_wk_def on_world_def set_th_Some)
  with w'(2) show thesis by (intro that [of ?s']) (auto simp: events_kept_def ext_of_def)
qed

lemma lua_ok_ext:
  assumes "lua_ok mp S s" and "wk_world (lu_wk s') = (wk_world (lu_wk s))\<lparr>w_ext := x\<rparr>" and "pool_ok mp (wk_mem (lu_wk s'))"
    and "live mp (lu_wk s) \<subseteq> live mp (lu_wk s')" and "lu_socks s' = lu_socks s" and "lu_next s' = lu_next s"
  shows "lua_ok mp S s'"
proof -
  let ?w = "wk_world (lu_wk s)" and ?w' = "wk_world (lu_wk s')"
  obtain Rs where "lists_are Rs ?w" "socks_ok Rs s" using assms(1) by (auto simp: lua_ok_def)
  moreover have "custom s' = custom s" by (intro ext) (simp add: custom_def assms(5))
  moreover have "owns ?w' = owns ?w" by (intro ext) (simp add: owns_def assms(2))
  ultimately have "lists_are Rs ?w'" "socks_ok Rs s'" using assms(2,5,6) by (simp_all add: lists_are_def socks_ok_def held_def)
  then show ?thesis using assms(1-4) by (auto simp: lua_ok_def blocks_ok_def stopped_def)
qed

subsection \<open>A read and the worker\<close>

lemma read_yields:
  assumes "lcf_socket_read sock timeout s = Some (LYieldK vs K_Read, s)"
  obtains sk a r where "lu_socks s sock = Some sk" "sk_res sk = Some a" "w_res (wk_world (lu_wk s)) a = Some r"
    "vs = [LInt LAS_S_YIELD_FOR_IO, LPtr (Some a), LInt LAS_S_WAIT_FOR_INPUT,
           LInt (if to_int timeout < 0 then LAS_D_TIMOUT_SECS else to_int timeout)]"
  using assms by (auto simp: lcf_socket_read_def lu_res_def bind_eq_Some_conv Let_def split: if_splits)

lemma to_int_idem [simp]: "to_int (to_int z) = to_int z"
  by (simp add: to_int_def)

text \<open>How \<open>k_socket_read\<close> goes on with what the worker resumes it with.\<close>

lemma k_read_goes_on:
  assumes "w_res (wk_world (lu_wk s)) a = Some r" and "sc_read en (rs_d r) (read_size (to_int n)) (ext_of s) = (d, x)"
  shows "k_socket_read en True [LUd sock, LInt n, t, LInt LAS_S_RESUME_IO, LPtr (Some a), LInt LAS_S_READY_TO_INPUT] s
    = Some (LRet (read_values d), s\<lparr>lu_wk := on_ext (\<lambda>_. x) (lu_wk s)\<rparr>)"
    and "k_socket_read en True [LUd sock, LInt n, t, LInt LAS_S_RESUME_IO_TIMEOUT] s = Some (LRet [LInt 0, LNil, LInt ETIMEDOUT], s)"
  using assms by (simp_all add: k_socket_read_def checkinteger_def userdata_from_top_def las_codes lua_touserdata_def
      lu_res_def lu_call_def ext_of_def res_fd_def res_fd_f_def)

subsection \<open>The properties\<close>

text \<open>A connection that fails raises a Lua error and leaves no block in use, but the socket that has been
  made keeps the pointer to the block given back: when the garbage collector closes it the program
  reads freed memory.\<close>

theorem failed_connect_dangles:
  assumes "lua_ok mp S s" and "cx_mem_pool cx = Some mp" and "no_oom (lu_wk s)"
    and "make_client_socket (net.truncate en) host (of_int port) (w_ext (wk_world (lu_wk s))) = (fd, x)" and "fd < 0"
  shows "\<exists>s'. lcf_socket_new en cx th host port s = Some (LError, s') \<and> live mp (lu_wk s') = live mp (lu_wk s)
    \<and> lcf_socket_close en (lu_next s) s' = None"
  using new_fails [OF lua_ok_core [OF assms(1)] assms(2-5)] by metis

theorem failed_connect_dangles_witness:
  "\<exists>s'. lcf_socket_new (log_env\<lparr>sc_socket := \<lambda>x. (-1, x)\<rparr>) life_cx (Some 1) ''h'' 80 (duo_lua []) = Some (LError, s')
    \<and> lcf_socket_close (log_env\<lparr>sc_socket := \<lambda>x. (-1, x)\<rparr>) 2 s' = None"
proof -
  let ?en = "log_env\<lparr>sc_socket := \<lambda>x. (-1, x)\<rparr>"
  have "make_client_socket (net.truncate ?en) ''h'' (of_int 80) x = (-1, x)" for x
    by (simp add: make_client_socket_def net.truncate_def)
  from failed_connect_dangles [OF duo_ok life_cx_pool duo_no_oom this] show ?thesis by (simp add: duo_next) blast
qed

text \<open>C9: a socket that reads makes its thread yield, and the worker puts the thread into the io pool with the
  deadline of the read (15 seconds when it gives none) and has the kernel watch its resource for
  input. What the worker resumes it with makes the continuation read that resource's descriptor, or
  report the timeout.\<close>

theorem read_protocol:
  assumes "lcf_socket_read sock timeout s = Some (LYieldK vs K_Read, s)" and "ran en th args k (LYield vs) (lu_wk s)"
    and "poolable th (cx_io_pool cx) T (lu_wk s)"
  shows "\<exists>a r k' ret x. w_res (wk_world (lu_wk s)) a = Some r \<and> thread_resume en cx th args k = Some k'
    \<and> put_in_pool th (cx_io_pool cx) T (wk_time en (lu_wk s) + (if to_int timeout < 0 then 15 else to_int timeout)) TS_Run (lu_wk s) k'
    \<and> en_ctl en EP_Mod (cx_epfd cx) (rs_d r) a (EPOLLIN OR EPOLLET) (ext_of s) = (ret, x) \<and> w_ext (wk_world k') = x
    \<and> (\<forall>s2 r2 n t d y. w_res (wk_world (lu_wk s2)) a = Some r2 \<longrightarrow> sc_read en (rs_d r2) (read_size (to_int n)) (ext_of s2) = (d, y) \<longrightarrow>
        k_socket_read en True [LUd sock, LInt n, t, LInt LAS_S_RESUME_IO, LPtr (Some a), LInt LAS_S_READY_TO_INPUT] s2
          = Some (LRet (read_values d), s2\<lparr>lu_wk := on_ext (\<lambda>_. y) (lu_wk s2)\<rparr>)
        \<and> k_socket_read en True [LUd sock, LInt n, t, LInt LAS_S_RESUME_IO_TIMEOUT] s2 = Some (LRet [LInt 0, LNil, LInt ETIMEDOUT], s2))"
proof -
  obtain sk a r where a: "lu_socks s sock = Some sk" "w_res (wk_world (lu_wk s)) a = Some r"
    "vs = [LInt LAS_S_YIELD_FOR_IO, LPtr (Some a), LInt LAS_S_WAIT_FOR_INPUT, LInt (if to_int timeout < 0 then LAS_D_TIMOUT_SECS else to_int timeout)]"
    by (rule read_yields [OF assms(1)])
  have secs: "io_secs cx (if to_int timeout < 0 then LAS_D_TIMOUT_SECS else to_int timeout) = (if to_int timeout < 0 then 15 else to_int timeout)"
    by (simp add: io_secs_def LAS_D_TIMOUT_SECS_def)
  have ev: "io_events LAS_S_WAIT_FOR_INPUT = (EPOLLIN OR EPOLLET)" by (simp add: io_events_def LAS_S_WAIT_FOR_INPUT_def)
  from resume_io [OF assms(2) [unfolded a(3)] assms(3) a(2), unfolded secs ev] obtain k' ret x where
    "thread_resume en cx th args k = Some k'"
    "put_in_pool th (cx_io_pool cx) T (wk_time en (lu_wk s) + (if to_int timeout < 0 then 15 else to_int timeout)) TS_Run (lu_wk s) k'"
    "en_ctl en EP_Mod (cx_epfd cx) (rs_d r) a (EPOLLIN OR EPOLLET) (w_ext (wk_world (lu_wk s))) = (ret, x)" "w_ext (wk_world k') = x"
    by blast
  with a(2) k_read_goes_on show ?thesis
    by (intro exI [of _ a] exI [of _ r] exI [of _ k'] exI [of _ ret] exI [of _ x]) (auto simp: ext_of_def)
qed

definition yields_read :: lua_result where
  "yields_read = LYield [LInt LAS_S_YIELD_FOR_IO, LPtr (Some 2), LInt LAS_S_WAIT_FOR_INPUT, LInt 15]"

theorem read_protocol_witness:
  "\<exists>k'. thread_resume (demo_env (\<lambda>x. (-1, x)) (\<lambda>_ x. x) yields_read) life_cx 1 [] (lu_wk (duo_lua [] :: int list lua)) = Some k'
    \<and> map_option th_et (wk_thread 1 k') = Some 115"
proof -
  let ?en = "demo_env (\<lambda>x. (-1, x)) (\<lambda>_ x. x) yields_read" and ?s = "duo_lua [] :: int list lua"
  have read: "lcf_socket_read 1 (-1) ?s = Some (LYieldK [LInt LAS_S_YIELD_FOR_IO, LPtr (Some 2), LInt LAS_S_WAIT_FOR_INPUT, LInt 15] K_Read, ?s)"
    by (simp add: lcf_socket_read_def duo_lua_def lu_res_def lu_th_def conn_res_def conn_thread_def fresh_thread_def LAS_D_TIMOUT_SECS_def)
  have ran: "ran ?en 1 [] (lu_wk ?s) (LYield [LInt LAS_S_YIELD_FOR_IO, LPtr (Some 2), LInt LAS_S_WAIT_FOR_INPUT, LInt 15]) (lu_wk ?s)"
    by (simp add: ran_def duo_lua_def wk_thread_def conn_thread_def fresh_thread_def demo_env_def yields_read_def)
  have "poolable 1 (cx_io_pool life_cx) Leaf (lu_wk ?s)"
    unfolding poolable_def pool_is_def
    by (intro conjI exI [of _ "\<lparr>rb_mem = [1 \<mapsto> node_of None L Red None None], rb_root = None\<rparr>"])
       (simp_all add: duo_lua_def wk_thread_def life_cx_def demo_cx_def pool_tree_def focus_def rb_valid_def)
  from read_protocol [OF read ran this] obtain k' where
    "thread_resume ?en life_cx 1 [] (lu_wk ?s) = Some k'" "put_in_pool 1 (cx_io_pool life_cx) Leaf (wk_time ?en (lu_wk ?s) + 15) TS_Run (lu_wk ?s) k'"
    by auto
  then show ?thesis by (auto simp: put_in_pool_def wk_thread_def wk_time_def demo_env_def)
qed

text \<open>C10: a send in an open thread returns with all bytes sent, or with an error and the number of bytes
  sent, and gives its context back; or it waits, and the context, which stays in use, says how
  much the peer has received. Memory and sockets stay in order.\<close>

theorem send_outcome:
  assumes "lua_ok mp S s" and "cx_mem_pool cx = Some mp" and "no_oom (lu_wk s)"
    and "lu_socks s sock = Some sk" and "sk_res sk = Some a" and "w_res (wk_world (lu_wk s)) a = Some r" and "rs_th r = Some th"
    and "wk_thread th (lu_wk s) = Some t" and "th_mode t = TM_Simple"
    and "sends_prefix (net.truncate en) (res_fd r) sent" and "\<forall>d x y. sc_send en (res_fd r) d x = (Inr 0, y) \<longrightarrow> d = []"
  shows "\<exists>out s' c j. lcf_socket_send en cx sock (Some buf) s = Some (out, s') \<and> send_out (Some a) c buf j out \<and> j \<le> length buf
    \<and> sent (ext_of s') = sent (ext_of s) @ take j buf \<and> lua_ok mp S s'
    \<and> (case out of LYieldK vs k \<Rightarrow> live mp (lu_wk s') = insert c (live mp (lu_wk s)) \<and> lu_sends s' c = Some (send_context (Some a) buf j)
        | _ \<Rightarrow> live mp (lu_wk s') = live mp (lu_wk s))"
proof -
  have blocks: "pool_ok mp (wk_mem (lu_wk s))" using assms(1) by (simp add: lua_ok_def blocks_ok_def)
  have t: "w_ths (wk_world (lu_wk s)) th = Some t" using assms(8) by (simp add: wk_thread_def)
  obtain out s' c j where s': "lcf_socket_send en cx sock (Some buf) s = Some (out, s')" "send_out (Some a) c buf j out" "j \<le> length buf"
    "sent (ext_of s') = sent (ext_of s) @ take j buf" "c \<notin> live mp (lu_wk s)" "pool_ok mp (wk_mem (lu_wk s'))"
    "live mp (lu_wk s') = (if \<exists>vs. out = LRet vs then live mp (lu_wk s) else insert c (live mp (lu_wk s)))"
    "\<And>vs k. out = LYieldK vs k \<Longrightarrow> lu_sends s' c = Some (send_context (Some a) buf j)"
    "wk_world (lu_wk s') = (wk_world (lu_wk s))\<lparr>w_ext := ext_of s'\<rparr>" "lu_socks s' = lu_socks s" "lu_next s' = lu_next s"
    by (rule socket_send_ok [OF blocks assms(2,3) assms(4-7) t assms(9-11)]) blast
  have "lua_ok mp S s'" by (rule lua_ok_ext [OF assms(1) s'(9) s'(6) _ s'(10,11)]) (use s'(7) in auto)
  moreover have "out \<noteq> LError" using s'(2) by (auto simp: send_out_def)
  ultimately show ?thesis using s'(1-4,7,8)
    by (intro exI [of _ out] exI [of _ s'] exI [of _ c] exI [of _ j]) (auto split: lcf.split)
qed

text \<open>A peer that takes two bytes at a time, and one that takes none.\<close>

definition two_env :: "u8 list env" where
  "two_env = (demo_env (\<lambda>x. (-1, x)) (\<lambda>_ x. x) LOk)\<lparr>sc_send := \<lambda>_ d x. (Inr (min 2 (length d)), x @ take 2 d)\<rparr>"

definition full_env :: "u8 list env" where
  "full_env = (demo_env (\<lambda>x. (-1, x)) (\<lambda>_ x. x) LOk)\<lparr>sc_send := \<lambda>_ _ x. (Inl EAGAIN, x)\<rparr>"

lemma two_env_sends: "sends_prefix (net.truncate two_env) fd (\<lambda>x. x)" "\<forall>d x y. sc_send two_env fd d x = (Inr 0, y) \<longrightarrow> d = []"
  and full_env_sends: "sends_prefix (net.truncate full_env) fd (\<lambda>x. x)" "\<forall>d x y. sc_send full_env fd d x = (Inr 0, y) \<longrightarrow> d = []"
  by (auto simp: sends_prefix_def two_env_def full_env_def demo_env_def net.truncate_def min_def)

lemma duo_sock: "lu_socks (duo_lua x) 1 = Some \<lparr>sk_res = Some 2, sk_type = LM_SOCK_TYPE_SYSTEM\<rparr>"
  "w_res (wk_world (lu_wk (duo_lua x))) 2 = Some (conn_res 7 1)" "rs_th (conn_res 7 1) = Some 1" "th_mode (conn_thread 2 fresh_thread) = TM_Simple"
  by (simp_all add: duo_lua_def conn_res_def conn_thread_def fresh_thread_def)

theorem send_outcome_witness:
  "\<exists>out s' c j. lcf_socket_send two_env life_cx 1 (Some [1, 2, 3]) (duo_lua []) = Some (out, s')
    \<and> send_out (Some 2) c [1, 2, 3] j out \<and> ext_of s' = take j [1, 2, 3] \<and> lua_ok 0 {} s'"
  using send_outcome [OF duo_ok life_cx_pool duo_no_oom duo_sock(1) _ duo_sock(2,3) duo_thread duo_sock(4) two_env_sends, of "[1, 2, 3]" "[]"]
  by (simp add: ext_of_def duo_lua_def) blast

text \<open>A send that has had to wait is never finished: the continuation reads the type of the resume at
  index 1 of the stack, where the socket is, so whatever it is resumed with it raises a Lua error,
  sends nothing and leaves its context in use.\<close>

theorem waiting_send_fails:
  assumes "pool_ok mp (wk_mem (lu_wk s))" and "cx_mem_pool cx = Some mp" and "no_oom (lu_wk s)"
    and "lu_socks s sock = Some sk" and "sk_res sk = Some a" and "w_res (wk_world (lu_wk s)) a = Some r" and "rs_th r = Some th"
    and "w_ths (wk_world (lu_wk s)) th = Some t" and "th_mode t = TM_Simple"
    and "sends_prefix (net.truncate en) (res_fd r) sent" and "\<forall>d x y. sc_send en (res_fd r) d x = (Inr 0, y) \<longrightarrow> d = []"
    and "lcf_socket_send en cx sock (Some buf) s = Some (LYieldK vs k, s')"
  shows "\<exists>c. k = K_Send c \<and> c \<notin> live mp (lu_wk s) \<and> c \<in> live mp (lu_wk s')
    \<and> (\<forall>below args. k_socket_send en S_Yield c (LUd sock # below @ args) s' = Some (LError, s'))"
proof -
  obtain out s1 c j where s': "lcf_socket_send en cx sock (Some buf) s = Some (out, s1)" "send_out (Some a) c buf j out"
    "c \<notin> live mp (lu_wk s)" "live mp (lu_wk s1) = (if \<exists>vs. out = LRet vs then live mp (lu_wk s) else insert c (live mp (lu_wk s)))"
    by (rule socket_send_ok [OF assms(1-11)]) blast
  then have "k = K_Send c" "c \<in> live mp (lu_wk s')" using assms(12) by (auto simp: send_out_def)
  moreover have "k_socket_send en S_Yield c (LUd sock # below @ args) s' = Some (LError, s')" for below args
    by (simp add: k_socket_send_def checkinteger_def)
  ultimately show ?thesis using s'(3) by blast
qed

theorem waiting_send_fails_witness:
  "\<exists>c s'. lcf_socket_send full_env life_cx 1 (Some [1, 2, 3]) (duo_lua []) = Some (LYieldK [LInt LAS_S_YIELD_FOR_IO, LPtr (Some 2),
      LInt LAS_S_WAIT_FOR_OUTPUT, LInt LAS_D_TIMOUT_SECS] (K_Send c), s')
    \<and> k_socket_send full_env S_Yield c [LUd 1, LStr [1, 2, 3], LPtr None, LInt LAS_S_RESUME_IO, LPtr (Some 2), LInt LAS_S_READY_TO_OUTPUT] s'
      = Some (LError, s') \<and> c \<in> live 0 (lu_wk s')"
proof -
  let ?run = "lcf_socket_send full_env life_cx 1 (Some [1, 2, 3]) (duo_lua [])"
  have "map_option fst ?run = Some (LYieldK [LInt LAS_S_YIELD_FOR_IO, LPtr (Some 2), LInt LAS_S_WAIT_FOR_OUTPUT, LInt LAS_D_TIMOUT_SECS] (K_Send 3))"
    by code_simp
  then obtain s' where s': "?run = Some (LYieldK [LInt LAS_S_YIELD_FOR_IO, LPtr (Some 2), LInt LAS_S_WAIT_FOR_OUTPUT, LInt LAS_D_TIMOUT_SECS] (K_Send 3), s')"
    by auto
  have mem: "pool_ok 0 (wk_mem (lu_wk (duo_lua [])))" by (simp add: duo_lua_def duo_mem_ok)
  have t: "w_ths (wk_world (lu_wk (duo_lua []))) 1 = Some (conn_thread 2 fresh_thread)" by (simp add: duo_lua_def)
  from waiting_send_fails [OF mem life_cx_pool duo_no_oom duo_sock(1) _ duo_sock(2,3) t duo_sock(4) full_env_sends s'] have
    "3 \<in> live 0 (lu_wk s') \<and> (\<forall>below args. k_socket_send full_env S_Yield 3 (LUd 1 # below @ args) s' = Some (LError, s'))" by auto
  then have "3 \<in> live 0 (lu_wk s')" "k_socket_send full_env S_Yield 3 (LUd 1 # [LStr [1, 2, 3], LPtr None] @
    [LInt LAS_S_RESUME_IO, LPtr (Some 2), LInt LAS_S_READY_TO_OUTPUT]) s' = Some (LError, s')" by blast+
  with s' show ?thesis by auto
qed

text \<open>\<open>ev_end\<close> makes the thread wait for single sockets again, but the kernel goes on watching the sockets
  it has waited for: the resources with registered events keep them.\<close>

theorem ev_end_keeps_events:
  assumes "epoll_local en reg" and "wk_thread th (lu_wk s) = Some t" and "th_mode t = TM_Loop_Socks"
    and "owns (wk_world (lu_wk s)) t rs"
  shows "\<exists>s'. lcf_socket_ev_end en cx (Some th) s = Some (LRet [], s') \<and> wk_thread th (lu_wk s') = Some (t\<lparr>th_mode := TM_Simple\<rparr>)
    \<and> (\<forall>b r. w_res (wk_world (lu_wk s)) b = Some r \<longrightarrow> rs_status r = RS_Ev \<longrightarrow>
         w_res (wk_world (lu_wk s')) b = Some r \<and> reg (ext_of s') b = reg (ext_of s) b)"
proof -
  have t: "w_ths (wk_world (lu_wk s)) th = Some t" using assms(2) by (simp add: wk_thread_def)
  have "is_dlist (w_res (wk_world (lu_wk s))) (th_resl t) rs" using assms(4) by (simp add: owns_def)
  then obtain s' where "lcf_socket_ev_end en cx (Some th) s = Some (LRet [], s')"
    "w_ths (wk_world (lu_wk s')) = (w_ths (wk_world (lu_wk s)))(th \<mapsto> t\<lparr>th_mode := TM_Simple\<rparr>)"
    "\<And>b r. w_res (wk_world (lu_wk s)) b = Some r \<Longrightarrow> rs_status r = RS_Ev \<Longrightarrow>
       w_res (wk_world (lu_wk s')) b = Some r \<and> reg (ext_of s') b = reg (ext_of s) b"
    by (rule ev_end_ok [OF assms(1) t assms(3)]) blast
  then show ?thesis by (intro exI [of _ s']) (simp add: wk_thread_def)
qed

text \<open>The outside world of the witness is what the kernel watches.\<close>

definition watch_env :: "(addr \<Rightarrow> u32) env" where
  "watch_env = (demo_env (\<lambda>x. (-1, x)) (\<lambda>_ x. x) LOk)\<lparr>en_ctl := \<lambda>_ _ _ a ev x. (0, x(a := ev))\<rparr>"

theorem ev_end_keeps_events_witness:
  "\<exists>s s'. lcf_socket_ev_begin watch_env life_cx 1 1 [(1, 1)] (duo_lua (\<lambda>_. 0)) = Some (LRet [LInt 1], s)
    \<and> lcf_socket_ev_end watch_env life_cx (Some 1) s = Some (LRet [], s') \<and> ext_of s' 2 = 1"
proof -
  let ?t = "(conn_thread 2 fresh_thread)\<lparr>th_mode := TM_Loop_Socks\<rparr>" and ?r = "(conn_res 7 1)\<lparr>rs_status := RS_Ev\<rparr>"
  obtain s where s: "lcf_socket_ev_begin watch_env life_cx 1 1 [(1, 1)] (duo_lua (\<lambda>_. 0)) = Some (LRet [LInt 1], s)"
    "wk_thread 1 (lu_wk s) = Some ?t" "w_res (wk_world (lu_wk s)) 2 = Some ?r" "ext_of s 2 = 1"
    by (simp add: lcf_socket_ev_begin_def duo_lua_def lu_res_def lu_on_wk_def on_world_def set_res_Some set_th_Some ev_add_Some
        watch_env_def conn_res_def ext_of_def wk_thread_def asthread_res_ev_add_def res_ev_ctl_def)
  have reg: "epoll_local watch_env (\<lambda>x. x)" by (simp add: epoll_local_def watch_env_def)
  have "owns (wk_world (lu_wk s)) ?t [2]" using s(3) by (simp add: owns_def is_dlist_def conn_thread_def conn_res_def)
  from ev_end_keeps_events [OF reg s(2) _ this, of life_cx] s show ?thesis by auto
qed

end
