(* ===== verification/Master.thy ===== *)
theory Master
  imports Worker_Sort
begin

text \<open>
  The master process, \<^verbatim>\<open>src/c/src/mw_server.c\<close>: it opens the listening socket, forks the
  workers, each at the other end of a pair of sockets, and hands the connections it accepts to the
  workers in turn. What it needs of the kernel beyond \<open>net\<close> is in \<open>os\<close>.
\<close>

unbundle bit_operations_syntax

subsection \<open>Definitions\<close>

record 'x os = "'x net" +
  os_listen :: "int \<Rightarrow> int \<Rightarrow> 'x \<Rightarrow> int \<times> 'x"
  os_pair :: "'x \<Rightarrow> (int \<times> int) option \<times> 'x"
  os_fork :: "'x \<Rightarrow> int \<times> 'x"
  os_create :: "'x \<Rightarrow> int \<times> 'x"
  os_ctl :: "int \<Rightarrow> int \<Rightarrow> u32 \<Rightarrow> 'x \<Rightarrow> int \<times> 'x"
  os_wait :: "int \<Rightarrow> 'x \<Rightarrow> (u32 \<times> int) list \<times> 'x"

text \<open>
  The loop that accepts; \<open>child_sockets\<close> is not initialised where a fork failed, and \<open>n\<close> must
  not be 0. Both reasons for \<open>accept\<close> to fail end the loop.
\<close>

partial_function (option) accept_loop ::
  "'x os \<Rightarrow> int \<Rightarrow> int option list \<Rightarrow> nat \<Rightarrow> nat \<Rightarrow> 'x \<Rightarrow> (nat \<times> 'x) option" where
  "accept_loop os socket child_sockets n j x = (
     let (infd, x) = new_accept_fd (net.truncate os) socket x
     in if infd = -1 then Some (j, x)
        else do {
          c \<leftarrow> arr_get child_sockets j;
          channel \<leftarrow> c;
          let (_, x) = send_fd_by_socket (net.truncate os) channel infd x;
          if n = 0 then None
          else accept_loop os socket child_sockets n ((j + 1) mod n) (sc_close os infd x)
        })"

definition master_event :: "'x os \<Rightarrow> int \<Rightarrow> int option list \<Rightarrow> nat \<Rightarrow> u32 \<times> int \<Rightarrow> nat \<times> 'x \<Rightarrow> (nat \<times> 'x) option" where
  "master_event os socket child_sockets n e s = (
     let (events, fd) = e; (j, x) = s
     in if events AND EPOLLERR \<noteq> 0 \<or> events AND EPOLLHUP \<noteq> 0 \<or> events AND EPOLLIN = 0 then Some (j, sc_close os fd x)
        else if fd = socket then accept_loop os socket child_sockets n j x
        else Some (j, x))"

definition master_turn :: "'x os \<Rightarrow> int \<Rightarrow> int \<Rightarrow> int option list \<Rightarrow> nat \<Rightarrow> nat \<times> 'x \<Rightarrow> (nat \<times> 'x) option" where
  "master_turn os epfd socket child_sockets n s = (
     let (j, x) = s; (events, x) = os_wait os epfd x
     in foldM (master_event os socket child_sockets n) events (j, x))"

text \<open>The process never ends: its first \<open>k\<close> turns.\<close>

definition master_process :: "'x os \<Rightarrow> int \<Rightarrow> int option list \<Rightarrow> nat \<Rightarrow> nat \<Rightarrow> 'x \<Rightarrow> (nat \<times> 'x) option" where
  "master_process os socket child_sockets n k x = (
     let (epfd, x) = os_create os x;
         (_, x) = set_non_block (net.truncate os) socket x;
         (_, x) = os_ctl os epfd socket (EPOLLIN OR EPOLLET) x
     in foldM (\<lambda>_. master_turn os epfd socket child_sockets n) [0..<k] (0, x))"

datatype role = Worker_Role int | Master_Role int "int option list" | Exit_Failure

text \<open>
  The loop that forks, from worker \<open>i\<close> on. \<open>sockets\<close> keeps its old contents when \<open>socketpair\<close>
  fails; a worker leaves the loop at once with its end of the pair, which must be there. The last
  result of \<open>fork\<close> decides who the process is: it is not initialised when there is no worker.
\<close>

fun spawn :: "'x os \<Rightarrow> nat \<Rightarrow> (int \<times> int) option \<Rightarrow> int option \<Rightarrow> int option list \<Rightarrow> 'x \<Rightarrow> ((int \<times> int option list) \<times> 'x) option" where
  "spawn os 0 sockets child cs x = map_option (\<lambda>c. ((c, cs), x)) child"
| "spawn os (Suc n) sockets child cs x = (
     let (p, x) = os_pair os x;
         sockets = (case p of None \<Rightarrow> sockets | Some s \<Rightarrow> Some s);
         (child, x) = os_fork os x
     in if child = -1 then spawn os n sockets (Some child) (cs @ [None]) x
        else do {
          (s0, s1) \<leftarrow> sockets;
          if child \<noteq> 0 then spawn os n sockets (Some child) (cs @ [Some s1]) (sc_close os s0 x)
          else Some ((0, [Some s0]), sc_close os s1 x)
        })"

definition master_workers_server :: "'x os \<Rightarrow> int \<Rightarrow> nat \<Rightarrow> 'x \<Rightarrow> (role \<times> 'x) option" where
  "master_workers_server os port n x = (
     let (fd, x) = make_server_socket (net.truncate os) (of_int port) x
     in if fd < 0 then Some (Exit_Failure, x)
        else let (_, x) = set_non_block (net.truncate os) fd x;
                 (r, x) = os_listen os fd 500 x
             in if r < 0 then Some (Exit_Failure, x)
                else do {
                  ((child, cs), x) \<leftarrow> spawn os n None None [] x;
                  if child \<noteq> 0 then Some (Master_Role fd cs, x)
                  else (case cs of [Some channel] \<Rightarrow> Some (Worker_Role channel, x) | _ \<Rightarrow> None)
                })"

declare accept_loop.simps [code]

subsection \<open>Turns\<close>

text \<open>What the worker number \<open>i\<close> of \<open>n\<close> gets of \<open>fs\<close> when number \<open>j\<close> is next.\<close>

fun share :: "nat \<Rightarrow> nat \<Rightarrow> nat \<Rightarrow> 'a list \<Rightarrow> 'a list" where
  "share n i j [] = []"
| "share n i j (f # fs) = (if i = j then [f] else []) @ share n i ((j + 1) mod n) fs"

text \<open>\<open>i\<close> has its first turn after \<open>(i + n - j) mod n\<close> others.\<close>

lemma turn_after:
  fixes i j n :: nat
  assumes "i < n" and "j < n"
  shows "(i + n - (j + 1) mod n) mod n = (if i = j then n - 1 else (i + n - j) mod n - 1)"
    and "i \<noteq> j \<Longrightarrow> 0 < (i + n - j) mod n"
proof -
  have lt: "(i + n - j) mod n = (if j \<le> i then i - j else i + n - j)"
  proof (cases "j \<le> i")
    case True
    then have "i + n - j = (i - j) + n" by simp
    then have "(i + n - j) mod n = (i - j) mod n" by (simp only: mod_add_self2)
    with True assms show ?thesis by simp
  qed (use assms in simp)
  have succ: "(j + 1) mod n = (if j + 1 = n then 0 else j + 1)" using assms by (simp add: mod_if)
  show "i \<noteq> j \<Longrightarrow> 0 < (i + n - j) mod n" using lt assms by auto
  show "(i + n - (j + 1) mod n) mod n = (if i = j then n - 1 else (i + n - j) mod n - 1)"
    unfolding lt succ using assms by (simp add: mod_if) linarith
qed

lemma share_length:
  "i < n \<Longrightarrow> j < n \<Longrightarrow> length (share n i j fs)
    = (let d = (i + n - j) mod n in if d < length fs then (length fs - 1 - d) div n + 1 else 0)"
proof (induction fs arbitrary: j)
  case Nil
  then show ?case by simp
next
  case (Cons f fs)
  have j': "(j + 1) mod n < n" using Cons.prems by simp
  note IH = Cons.IH [OF Cons.prems(1) j', unfolded Let_def turn_after(1) [OF Cons.prems]]
  show ?case
  proof (cases "i = j")
    case True
    have "(i + n - j) mod n = 0" using True by simp
    moreover have "(if n - 1 < length fs then (length fs - 1 - (n - 1)) div n + 1 else 0) = length fs div n"
    proof (cases "n \<le> length fs")
      case True
      then have "length fs - 1 - (n - 1) = length fs - n" "n - 1 < length fs" using Cons.prems by auto
      moreover have "length fs div n = (length fs - n) div n + 1" using True Cons.prems by (simp add: le_div_geq)
      ultimately show ?thesis by simp
    qed auto
    ultimately have "length (share n i j (f # fs)) = length fs div n + 1"
      using IH [unfolded if_P [OF True]] True by (simp del: One_nat_def)
    with True show ?thesis by simp
  next
    case False
    then show ?thesis using IH turn_after(2) [OF Cons.prems False] by (auto simp: Let_def)
  qed
qed

lemma share_fair:
  assumes "i < n" and "i' < n" and "j < n"
  shows "length (share n i j fs) \<le> length (share n i' j fs) + 1"
proof -
  have n: "0 < n" using assms by simp
  have d: "(k + n - j) mod n < n" for k using n by simp
  have upper: "length (share n i j fs) \<le> (length fs - 1) div n + 1"
    unfolding share_length [OF assms(1,3)] Let_def by (auto intro: div_le_mono)
  have "(length fs - 1) div n \<le> length (share n i' j fs)"
  proof (cases "(i' + n - j) mod n < length fs")
    case True
    have "length fs - 1 \<le> (length fs - 1 - (i' + n - j) mod n) + n" using d [of i'] by linarith
    then have "(length fs - 1) div n \<le> ((length fs - 1 - (i' + n - j) mod n) + n) div n" by (rule div_le_mono)
    also have "\<dots> = (length fs - 1 - (i' + n - j) mod n) div n + 1" by (subst div_add_self2) (use n in simp_all)
    finally show ?thesis unfolding share_length [OF assms(2,3)] Let_def using True by simp
  next
    case False
    then have "length fs - 1 < n" using d [of i'] n by linarith
    then show ?thesis by simp
  qed
  with upper show ?thesis by linarith
qed

subsection \<open>The connections are handed out in turn\<close>

text \<open>
  \<open>q x\<close> are the connections that wait, \<open>got c x\<close> the descriptors that arrived at channel \<open>c\<close>,
  \<open>cl x\<close> the closed ones; \<open>sendmsg\<close> succeeds.
\<close>

definition got_all :: "(int \<Rightarrow> 'x \<Rightarrow> int list) \<Rightarrow> 'x \<Rightarrow> int \<Rightarrow> int list" where
  "got_all got x = (\<lambda>c. got c x)"

definition kernel_ok :: "'x os \<Rightarrow> int \<Rightarrow> ('x \<Rightarrow> int list) \<Rightarrow> (int \<Rightarrow> 'x \<Rightarrow> int list) \<Rightarrow> ('x \<Rightarrow> int list) \<Rightarrow> bool" where
  "kernel_ok os socket q got cl \<longleftrightarrow>
     (\<forall>x f y. sc_accept os socket x = (f, y) \<longrightarrow> got_all got y = got_all got x \<and> cl y = cl x
        \<and> (case q x of [] \<Rightarrow> f = -1 \<and> q y = [] | g # gs \<Rightarrow> f = g \<and> g \<noteq> -1 \<and> q y = gs))
     \<and> (\<forall>c f x r y. sc_sendmsg os c f x = (r, y) \<longrightarrow> q y = q x \<and> cl y = cl x \<and> got_all got y = (got_all got x)(c := got c x @ [f]))
     \<and> (\<forall>f x. q (sc_close os f x) = q x \<and> cl (sc_close os f x) = cl x @ [f] \<and> got_all got (sc_close os f x) = got_all got x)"

lemma kernel_okD:
  assumes "kernel_ok os socket q got cl"
  shows "sc_accept os socket x = (f, y) \<Longrightarrow> q x = [] \<Longrightarrow> f = -1 \<and> q y = [] \<and> cl y = cl x \<and> got_all got y = got_all got x"
    and "sc_accept os socket x = (f, y) \<Longrightarrow> q x = g # gs \<Longrightarrow> f = g \<and> g \<noteq> -1 \<and> q y = gs \<and> cl y = cl x \<and> got_all got y = got_all got x"
    and "sc_sendmsg os c f x = (r, y) \<Longrightarrow> q y = q x \<and> cl y = cl x \<and> got_all got y = (got_all got x)(c := got c x @ [f])"
    and "q (sc_close os f x) = q x \<and> cl (sc_close os f x) = cl x @ [f] \<and> got_all got (sc_close os f x) = got_all got x"
proof -
  note parts = assms [unfolded kernel_ok_def]
  note acc = conjunct1 [OF parts, rule_format] and rest = conjunct2 [OF parts]
  show "f = -1 \<and> q y = [] \<and> cl y = cl x \<and> got_all got y = got_all got x" if "sc_accept os socket x = (f, y)" "q x = []"
    using acc [OF that(1)] that(2) by simp
  show "f = g \<and> g \<noteq> -1 \<and> q y = gs \<and> cl y = cl x \<and> got_all got y = got_all got x"
    if "sc_accept os socket x = (f, y)" "q x = g # gs"
    using acc [OF that(1)] that(2) by simp
  show "q y = q x \<and> cl y = cl x \<and> got_all got y = (got_all got x)(c := got c x @ [f])" if "sc_sendmsg os c f x = (r, y)"
    by (rule conjunct1 [OF rest, rule_format, OF that])
  show "q (sc_close os f x) = q x \<and> cl (sc_close os f x) = cl x @ [f] \<and> got_all got (sc_close os f x) = got_all got x"
    using conjunct2 [OF rest] by blast
qed

lemma accept_loop_shares:
  assumes ok: "kernel_ok os socket q got cl" and cs: "length cs = n" "distinct cs" "0 < n"
  shows "j < n \<Longrightarrow> \<exists>y. accept_loop os socket (map Some cs) n j x = Some ((j + length (q x)) mod n, y) \<and> q y = []
    \<and> cl y = cl x @ q x \<and> (\<forall>i<n. got (cs ! i) y = got (cs ! i) x @ share n i j (q x))"
proof (induction "q x" arbitrary: j x)
  case Nil
  obtain f y where acc: "sc_accept os socket x = (f, y)" by fastforce
  from kernel_okD(1) [OF ok acc Nil(1) [symmetric]] have "f = -1" "q y = []" "cl y = cl x" "got_all got y = got_all got x" by simp_all
  with acc Nil show ?case
    by (subst accept_loop.simps) (auto simp: new_accept_fd_def net.truncate_def got_all_def fun_eq_iff Nil(1) [symmetric])
next
  case (Cons g gs)
  obtain f x1 where acc: "sc_accept os socket x = (f, x1)" by fastforce
  from kernel_okD(2) [OF ok acc Cons(2) [symmetric]]
  have x1: "f = g" "g \<noteq> -1" "q x1 = gs" "cl x1 = cl x" "got_all got x1 = got_all got x" by simp_all
  obtain r x2 where send: "sc_sendmsg os (cs ! j) g x1 = (r, x2)" by fastforce
  from kernel_okD(3) [OF ok send] have x2: "q x2 = q x1" "cl x2 = cl x1" "got_all got x2 = (got_all got x1)(cs ! j := got (cs ! j) x1 @ [g])" by simp_all
  let ?x3 = "sc_close os g x2"
  have x3: "q ?x3 = q x2" "cl ?x3 = cl x2 @ [g]" "got_all got ?x3 = got_all got x2" using kernel_okD(4) [OF ok] by simp_all
  have "(j + 1) mod n < n" using cs(3) by simp
  from Cons.hyps(1) [OF _ this, of ?x3] x1 x2 x3 obtain y where y:
    "accept_loop os socket (map Some cs) n ((j + 1) mod n) ?x3 = Some (((j + 1) mod n + length gs) mod n, y)" "q y = []"
    "cl y = cl ?x3 @ gs" "\<forall>i<n. got (cs ! i) y = got (cs ! i) ?x3 @ share n i ((j + 1) mod n) gs" by auto
  have "accept_loop os socket (map Some cs) n j x = accept_loop os socket (map Some cs) n ((j + 1) mod n) ?x3"
    using acc x1(1,2) send cs Cons.prems
    by (subst accept_loop.simps) (auto simp: new_accept_fd_def send_fd_by_socket_def net.truncate_def arr_get_def)
  moreover have "((j + 1) mod n + length gs) mod n = (j + length (q x)) mod n"
    by (simp add: Cons.hyps(2) [symmetric] mod_add_left_eq)
  moreover have "got (cs ! i) ?x3 = got (cs ! i) x @ (if i = j then [g] else [])" if "i < n" for i
  proof -
    have "cs ! i = cs ! j \<longleftrightarrow> i = j" using cs that Cons.prems by (simp add: nth_eq_iff_index_eq)
    moreover have "got_all got ?x3 (cs ! i) = ((got_all got x)(cs ! j := got_all got x (cs ! j) @ [g])) (cs ! i)"
      using x1(5) x2(3) x3(3) by (simp add: got_all_def fun_eq_iff)
    ultimately show ?thesis by (simp add: got_all_def)
  qed
  ultimately show ?case using y x1 x2 x3 by (intro exI [of _ y]) (auto simp: Cons.hyps(2) [symmetric])
qed

text \<open>A channel whose fork failed is used all the same.\<close>

lemma accept_loop_no_channel:
  assumes "kernel_ok os socket q got cl" and "q x \<noteq> []" and "arr_get child_sockets j = Some None"
  shows "accept_loop os socket child_sockets n j x = None"
proof -
  obtain g gs where q: "q x = g # gs" using assms(2) by (cases "q x") auto
  obtain f y where acc: "sc_accept os socket x = (f, y)" by fastforce
  from kernel_okD(2) [OF assms(1) acc q] have "f \<noteq> -1" by simp
  with acc assms(3) show ?thesis by (subst accept_loop.simps) (simp add: new_accept_fd_def net.truncate_def)
qed

lemma spawn_roles:
  "spawn os n sockets child cs x = Some ((c, cs'), y) \<Longrightarrow> child \<noteq> Some 0 \<Longrightarrow>
   if c = 0 then \<exists>channel. cs' = [Some channel] else length cs' = length cs + n"
proof (induction n arbitrary: sockets child cs x)
  case 0
  then show ?case by auto
next
  case (Suc n)
  obtain p x1 where pair: "os_pair os x = (p, x1)" by fastforce
  obtain ch x2 where fork: "os_fork os x1 = (ch, x2)" by fastforce
  let ?s = "case p of None \<Rightarrow> sockets | Some s \<Rightarrow> Some s"
  consider "ch = -1" | "ch = 0" | "ch \<noteq> -1" "ch \<noteq> 0" by blast
  then show ?case
  proof cases
    case 1
    then have "spawn os n ?s (Some ch) (cs @ [None]) x2 = Some ((c, cs'), y)" using Suc.prems(1) pair fork by simp
    from Suc.IH [OF this] 1 show ?thesis by simp
  next
    case 2
    then show ?thesis using Suc.prems(1) pair fork by (auto simp: bind_eq_Some_conv)
  next
    case 3
    then obtain s0 s1 where "spawn os n ?s (Some ch) (cs @ [Some s1]) (sc_close os s0 x2) = Some ((c, cs'), y)"
      using Suc.prems(1) pair fork by (auto simp: bind_eq_Some_conv Let_def)
    from Suc.IH [OF this] 3 show ?thesis by simp
  qed
qed

subsection \<open>The properties, and a kernel to see them on\<close>

text \<open>C23: the master takes every connection that waits, hands the first to the worker whose turn it is and each
  further one to the next, closes its own copy of each, and remembers whose turn comes next; so
  the numbers of connections that any two workers get differ by at most one.\<close>

theorem connections_in_turn:
  assumes "kernel_ok os socket q got cl" and "length cs = n" and "distinct cs" and "0 < n" and "j < n"
  shows "\<exists>y. accept_loop os socket (map Some cs) n j x = Some ((j + length (q x)) mod n, y) \<and> q y = []
    \<and> cl y = cl x @ q x \<and> (\<forall>i<n. got (cs ! i) y = got (cs ! i) x @ share n i j (q x))
    \<and> (\<forall>i<n. \<forall>i'<n. length (share n i j (q x)) \<le> length (share n i' j (q x)) + 1)"
  using accept_loop_shares [OF assms(1-4), of j x] assms(5) share_fair by metis

text \<open>The outside world: the connections that wait, what was sent where, what was closed.\<close>

type_synonym hands = "nat list \<times> (int \<times> int) list \<times> int list"

definition hand_os :: "hands os" where
  "hand_os = net.extend (net.truncate ((demo_env (\<lambda>(q, s, c). case q of [] \<Rightarrow> (-1, [], s, c) | f # fs \<Rightarrow> (int f, fs, s, c))
       (\<lambda>f (q, s, c). (q, s, c @ [f])) LOk)\<lparr>sc_sendmsg := \<lambda>ch f (q, s, c). (0, q, s @ [(ch, f)], c)\<rparr>))
     (os.fields (\<lambda>_ _ x. (0, x)) (\<lambda>x. (None, x)) (\<lambda>x. (-1, x)) (\<lambda>x. (9, x)) (\<lambda>_ _ _ x. (0, x)) (\<lambda>_ x. ([], x)))"

definition arrived :: "int \<Rightarrow> hands \<Rightarrow> int list" where
  "arrived c x = map snd (filter (\<lambda>(d, _). d = c) (fst (snd x)))"

lemma hand_kernel: "kernel_ok hand_os 3 (\<lambda>x. map int (fst x)) arrived (\<lambda>x. snd (snd x))"
  by (auto simp: kernel_ok_def hand_os_def demo_env_def net.defs os.defs got_all_def arrived_def fun_eq_iff split: list.splits)

theorem connections_in_turn_witness:
  "\<exists>y. accept_loop hand_os 3 [Some 21, Some 22] 2 1 ([5, 6, 7], [], []) = Some (0, y) \<and> arrived 21 y = [6] \<and> arrived 22 y = [5, 7]
    \<and> snd (snd y) = [5, 6, 7]"
proof -
  have "length [21, 22 :: int] = 2" "distinct [21, 22 :: int]" "0 < (2 :: nat)" "1 < (2 :: nat)" by simp_all
  from connections_in_turn [OF hand_kernel this, of "([5, 6, 7], [], [])"] obtain y where
    y: "accept_loop hand_os 3 [Some 21, Some 22] 2 1 ([5, 6, 7], [], []) = Some (0, y)" "snd (snd y) = [5, 6, 7]"
    "\<forall>i<2. arrived ([21, 22] ! i) y = arrived ([21, 22] ! i) ([5, 6, 7], [], []) @ share 2 i 1 [5, 6, 7]" by auto
  from y(3) [rule_format, of 0] y(3) [rule_format, of 1] y(1,2) show ?thesis by (simp add: arrived_def)
qed

end
