(* ===== verification/Lua_Alloc.thy ===== *)
theory Lua_Alloc
  imports Mem_Pool_Client
begin

text \<open>
  The memory of a worker's Lua state: \<open>lalloc\<close> of \<^verbatim>\<open>src/c/src/lua_bind.c\<close>, over the memory
  pool. \<open>lua_memory\<close> is what Lua asks of its allocator and what it may rely on then.
\<close>

subsection \<open>The allocator\<close>

definition LUA_TTABLE :: size_t where "LUA_TTABLE = 5"

text \<open>For a new block Lua gives the kind of the object as \<open>osize\<close>.\<close>

definition lalloc_size :: "size_t \<Rightarrow> size_t \<Rightarrow> size_t" where
  "lalloc_size osize nsize = (if osize = LUA_TTABLE then nsize * 4 else nsize)"

definition lalloc :: "ptr \<Rightarrow> ptr \<Rightarrow> size_t \<Rightarrow> size_t \<Rightarrow> mem \<Rightarrow> (ptr \<times> mem) option" where
  "lalloc ud p osize nsize s =
     (if nsize = 0 then do { s \<leftarrow> memp_recycle p s; Some (None, s) }
      else if p \<noteq> None then memp_realloc p nsize s
      else memp_alloc ud (lalloc_size osize nsize) s)"

subsection \<open>What Lua relies on\<close>

text \<open>
  A request for a new block, or about the block \<open>a\<close>: afterwards the block is gone or replaced by
  one with room for the new size that holds the old contents up to the smaller size, or nothing has
  changed and \<open>NULL\<close> came back. The other blocks keep their contents.
\<close>

definition answers :: "addr set \<Rightarrow> (addr \<Rightarrow> 'b list option) \<Rightarrow> ptr \<Rightarrow> nat \<Rightarrow> ptr \<Rightarrow> addr set \<Rightarrow> (addr \<Rightarrow> 'b list option) \<Rightarrow> bool" where
  "answers L h p n r L' h' \<longleftrightarrow> (\<forall>x\<in>L - set_option p. h' x = h x)
     \<and> (if n = 0 then r = None \<and> L' = L - set_option p
        else case r of
          None \<Rightarrow> L' = L \<and> (\<forall>x\<in>L. h' x = h x)
        | Some c \<Rightarrow> c \<notin> L - set_option p \<and> L' = insert c (L - set_option p) \<and> (\<exists>d. h' c = Some d \<and> n \<le> length d
            \<and> (\<forall>a b. p = Some a \<longrightarrow> h a = Some b \<longrightarrow> take (min n (length b)) d = take (min n (length b)) b)))"

text \<open>Requests by number: each number names at most one block.\<close>

datatype lua_req = New nat size_t size_t | Resize nat size_t | Free nat

fun lua_calls :: "(ptr \<Rightarrow> size_t \<Rightarrow> size_t \<Rightarrow> 's \<Rightarrow> (ptr \<times> 's) option) \<Rightarrow> lua_req list \<Rightarrow> (nat \<rightharpoonup> addr \<times> size_t) \<Rightarrow> 's
   \<Rightarrow> ((nat \<rightharpoonup> addr \<times> size_t) \<times> 's) option" where
  "lua_calls call [] h s = Some (h, s)"
| "lua_calls call (New i kind n # rs) h s = (
     if h i \<noteq> None then lua_calls call rs h s
     else do { (r, s) \<leftarrow> call None kind n s;
               lua_calls call rs (case r of None \<Rightarrow> h | Some a \<Rightarrow> h(i \<mapsto> (a, n))) s })"
| "lua_calls call (Resize i n # rs) h s = (case h i of
       None \<Rightarrow> lua_calls call rs h s
     | Some (a, m) \<Rightarrow> do { (r, s) \<leftarrow> call (Some a) m n s;
                          lua_calls call rs (case r of None \<Rightarrow> (if n = 0 then h(i := None) else h) | Some c \<Rightarrow> h(i \<mapsto> (c, n))) s })"
| "lua_calls call (Free i # rs) h s = (case h i of
       None \<Rightarrow> lua_calls call rs h s
     | Some (a, m) \<Rightarrow> do { (_, s) \<leftarrow> call (Some a) m 0 s; lua_calls call rs (h(i := None)) s })"

fun req_size :: "lua_req \<Rightarrow> size_t" where
  "req_size (New i kind n) = n"
| "req_size (Resize i n) = n"
| "req_size (Free i) = 0"

text \<open>\<open>B\<close> are blocks of others.\<close>

definition names_ok :: "addr set \<Rightarrow> addr set \<Rightarrow> (addr \<Rightarrow> 'b list option) \<Rightarrow> (nat \<rightharpoonup> addr \<times> size_t) \<Rightarrow> bool" where
  "names_ok B L room h \<longleftrightarrow> B \<subseteq> L
     \<and> (\<forall>i a n. h i = Some (a, n) \<longrightarrow> a \<in> L - B \<and> (\<exists>d. room a = Some d \<and> unat n \<le> length d))
     \<and> (\<forall>i j a n m. h i = Some (a, n) \<longrightarrow> h j = Some (a, m) \<longrightarrow> i = j)"

lemma names_ok_answer:
  assumes ok: "names_ok B L room h" and p: "\<And>a. p = Some a \<Longrightarrow> \<exists>m. h i = Some (a, m)" "p = None \<Longrightarrow> h i = None"
    and ans: "answers L room p (unat n) r L' room'"
  shows "names_ok B L' room' (case r of None \<Rightarrow> (if n = 0 then h(i := None) else h) | Some c \<Rightarrow> h(i \<mapsto> (c, n)))"
    and "\<And>x. x \<in> B \<Longrightarrow> room' x = room x"
proof -
  have other: "a \<in> L - set_option p - B \<and> room' a = room a \<and> (\<exists>d. room a = Some d \<and> unat m \<le> length d)"
    if "h j = Some (a, m)" "j \<noteq> i" for j a m
  proof -
    have "a \<in> L - B" "\<exists>d. room a = Some d \<and> unat m \<le> length d" using ok that(1) unfolding names_ok_def by blast+
    moreover have "p \<noteq> Some a" using ok p(1) [of a] that unfolding names_ok_def by blast
    then have "a \<notin> set_option p" by auto
    ultimately show ?thesis using ans by (auto simp: answers_def)
  qed
  have "B \<subseteq> L" using ok by (simp add: names_ok_def)
  moreover have "set_option p \<inter> B = {}"
  proof (cases p)
    case (Some a)
    with p(1) obtain m where "h i = Some (a, m)" by blast
    with ok Some show ?thesis unfolding names_ok_def by fastforce
  qed simp
  ultimately have own: "set_option p \<inter> B = {}" "B \<subseteq> L" by blast+
  show "room' x = room x" if "x \<in> B" for x using ans own that by (auto simp: answers_def)
  show "names_ok B L' room' (case r of None \<Rightarrow> (if n = 0 then h(i := None) else h) | Some c \<Rightarrow> h(i \<mapsto> (c, n)))"
  proof (cases r)
    case (Some c)
    then have c: "c \<notin> L - set_option p" "L' = insert c (L - set_option p)" "\<exists>d. room' c = Some d \<and> unat n \<le> length d"
      using ans by (auto simp: answers_def split: if_splits)
    then have new: "c \<in> L' - B" using own by blast
    have "a \<in> L' - B \<and> a \<noteq> c \<and> (\<exists>d. room' a = Some d \<and> unat m \<le> length d)" if "h j = Some (a, m)" "j \<noteq> i" for j a m
      using other [OF that] c(1,2) by auto
    moreover have "j = k" if "h j = Some (a, m)" "h k = Some (a, m')" for j k a m m' using ok that unfolding names_ok_def by blast
    ultimately show ?thesis using own c(2,3) new Some unfolding names_ok_def by (auto split: if_splits)
  next
    case None
    show ?thesis
    proof (cases "n = 0")
      case True
      then have "L' = L - set_option p" using ans None by (simp add: answers_def)
      with True None own ok other show ?thesis unfolding names_ok_def by (auto split: if_splits)
    next
      case False
      then have "L' = L" "\<forall>x\<in>L. room' x = room x" using ans None by (auto simp: answers_def unat_eq_0)
      with False None ok show ?thesis unfolding names_ok_def by auto
    qed
  qed
qed

locale lua_memory =
  fixes inv :: "'s \<Rightarrow> bool"
    and live :: "'s \<Rightarrow> addr set"
    and room :: "'s \<Rightarrow> addr \<Rightarrow> 'b list option"
    and fits :: "size_t \<Rightarrow> bool"
    and call :: "ptr \<Rightarrow> size_t \<Rightarrow> size_t \<Rightarrow> 's \<Rightarrow> (ptr \<times> 's) option"
  assumes call_law: "inv s \<Longrightarrow> set_option p \<subseteq> live s \<Longrightarrow> fits nsize \<Longrightarrow>
      \<exists>r s'. call p osize nsize s = Some (r, s') \<and> inv s' \<and> answers (live s) (room s) p (unat nsize) r (live s') (room s')"
begin

lemma calls_law:
  assumes "inv s" and "names_ok B (live s) (room s) h" and "\<And>r. r \<in> set rs \<Longrightarrow> fits (req_size r)"
  shows "\<exists>h' s'. lua_calls call rs h s = Some (h', s') \<and> inv s' \<and> names_ok B (live s') (room s') h' \<and> (\<forall>x\<in>B. room s' x = room s x)"
  using assms
proof (induction rs arbitrary: h s)
  case Nil
  then show ?case by simp
next
  case (Cons q rs)
  have step: "\<exists>h1 s1. lua_calls call (q # rs) h s = lua_calls call rs h1 s1 \<and> inv s1 \<and> names_ok B (live s1) (room s1) h1
      \<and> (\<forall>x\<in>B. room s1 x = room s x)"
  proof -
    have one: "\<exists>r s1. call p osize n s = Some (r, s1) \<and> inv s1 \<and> (\<forall>x\<in>B. room s1 x = room s x)
        \<and> names_ok B (live s1) (room s1) (case r of None \<Rightarrow> (if n = 0 then h(i := None) else h) | Some c \<Rightarrow> h(i \<mapsto> (c, n)))
        \<and> (n = 0 \<longrightarrow> r = None)"
      if p: "\<And>a. p = Some a \<Longrightarrow> \<exists>m. h i = Some (a, m)" "p = None \<Longrightarrow> h i = None" and n: "fits n" for p i osize n
    proof -
      have "set_option p \<subseteq> live s" using Cons.prems(2) p(1) unfolding names_ok_def by (cases p) (simp, fastforce)
      from call_law [OF Cons.prems(1) this n] obtain r s1 where r: "call p osize n s = Some (r, s1)" "inv s1"
        "answers (live s) (room s) p (unat n) r (live s1) (room s1)" by blast
      with names_ok_answer [OF Cons.prems(2) p r(3)] show ?thesis by (auto simp: answers_def)
    qed
    have fits: "fits (req_size q)" using Cons.prems(3) by simp
    show ?thesis
    proof (cases q)
      case (New i kind n)
      show ?thesis
      proof (cases "h i")
        case None
        let ?h1 = "\<lambda>r. case r of None \<Rightarrow> h | Some a \<Rightarrow> h(i \<mapsto> (a, n))"
        have same: "(case r of None \<Rightarrow> (if n = 0 then h(i := None) else h) | Some c \<Rightarrow> h(i \<mapsto> (c, n))) = ?h1 r" for r
          using None by (cases r) auto
        obtain r s1 where "call None kind n s = Some (r, s1)" "inv s1" "\<forall>x\<in>B. room s1 x = room s x" "names_ok B (live s1) (room s1) (?h1 r)"
          using one [of None i n kind] None New fits unfolding same by auto
        then show ?thesis using None New by (intro exI [of _ "?h1 r"] exI [of _ s1]) simp
      qed (use New Cons.prems in auto)
    next
      case (Resize i n)
      show ?thesis
      proof (cases "h i")
        case (Some am)
        then obtain a m where am: "h i = Some (a, m)" by (cases am) auto
        let ?h1 = "\<lambda>r. case r of None \<Rightarrow> (if n = 0 then h(i := None) else h) | Some c \<Rightarrow> h(i \<mapsto> (c, n))"
        obtain r s1 where "call (Some a) m n s = Some (r, s1)" "inv s1" "\<forall>x\<in>B. room s1 x = room s x" "names_ok B (live s1) (room s1) (?h1 r)"
          using one [of "Some a" i n m] am Resize fits by auto
        then show ?thesis using am Resize by (intro exI [of _ "?h1 r"] exI [of _ s1]) simp
      qed (use Resize Cons.prems in auto)
    next
      case (Free i)
      show ?thesis
      proof (cases "h i")
        case (Some am)
        then obtain a m where am: "h i = Some (a, m)" by (cases am) auto
        obtain s1 where "call (Some a) m 0 s = Some (None, s1)" "inv s1" "\<forall>x\<in>B. room s1 x = room s x"
          "names_ok B (live s1) (room s1) (h(i := None))"
          using one [of "Some a" i 0 m] am Free fits by auto
        then show ?thesis using am Free by (intro exI [of _ "h(i := None)"] exI [of _ s1]) simp
      qed (use Free Cons.prems in auto)
    qed
  qed
  then obtain h1 s1 where s1: "lua_calls call (q # rs) h s = lua_calls call rs h1 s1" "inv s1" "names_ok B (live s1) (room s1) h1"
    "\<forall>x\<in>B. room s1 x = room s x" by blast
  from Cons.IH [OF s1(2,3)] Cons.prems(3) s1(1,4) show ?case by auto
qed

end

interpretation lua: lua_memory "pool_ok p" "pool_live p" "\<lambda>s a. map_option d_d (blks s a)" "\<lambda>n. unat n < 2 ^ 61" "lalloc (Some p)" for p
proof (unfold_locales, goal_cases)
  case (1 s q nsize osize)
  then have ok: "pool_ok p s" and q: "set_option q \<subseteq> pool_live p s" and n: "unat nsize < 2 ^ 61" by simp_all
  show ?case
  proof (cases "nsize = 0")
    case True
    show ?thesis
    proof (cases q)
      case None
      with True ok show ?thesis by (simp add: lalloc_def memp_recycle_def answers_def)
    next
      case (Some a)
      with q have "a \<in> pool_live p s" by simp
      from mp.recycle_law [OF ok this] obtain s' where "memp_recycle (Some a) s = Some s'" "pool_ok p s'"
        "pool_live p s' = pool_live p s - {a}" "\<forall>x\<in>pool_live p s'. blks s' x = blks s x" by blast
      with True Some show ?thesis by (auto simp: lalloc_def answers_def)
    qed
  next
    case False
    have size: "pool_size_ok nsize" using n False by (simp add: pool_size_ok_def)
    show ?thesis
    proof (cases q)
      case None
      have "unat (nsize * 4) = unat nsize * 4" using n by (simp add: unat_mult_lem [THEN iffD1])
      then have big: "pool_size_ok (lalloc_size osize nsize)" "unat nsize \<le> unat (lalloc_size osize nsize)"
        using n False by (auto simp: lalloc_size_def pool_size_ok_def unat_eq_0)
      from mp.alloc_law [OF ok big(1)] obtain r s' where r: "memp_alloc (Some p) (lalloc_size osize nsize) s = Some (r, s')" "pool_ok p s'"
        "\<forall>x\<in>pool_live p s. blks s' x = blks s x" "pool_live p s' = pool_live p s \<union> set_option r" "set_option r \<inter> pool_live p s = {}"
        "\<forall>a. r = Some a \<longrightarrow> (\<exists>v. blks s' a = Some v \<and> unat (lalloc_size osize nsize) \<le> length (d_d v))" by blast
      have "answers (pool_live p s) (\<lambda>a. map_option d_d (blks s a)) None (unat nsize) r (pool_live p s') (\<lambda>a. map_option d_d (blks s' a))"
        using r(3-6) False big(2) by (cases r) (fastforce simp: answers_def unat_eq_0)+
      with r(1,2) None False show ?thesis by (simp add: lalloc_def)
    next
      case (Some a)
      then have a: "a \<in> owned p UNIV (blks s)" using q by (simp add: pool_live_def)
      from ok obtain fl where inv: "memp_inv p fl s" by (auto simp: pool_ok_def)
      have "unat nsize < 2 ^ 64 - 8" using size by (simp add: pool_size_ok_def)
      from memp_realloc_correct [OF inv a False this] obtain r s' fl' where r: "memp_realloc (Some a) nsize s = Some (r, s')"
        "memp_inv p fl' s'" "realloc_post p a nsize s r s'" by blast
      have "answers (pool_live p s) (\<lambda>a. map_option d_d (blks s a)) (Some a) (unat nsize) r (pool_live p s') (\<lambda>a. map_option d_d (blks s' a))"
      proof (cases r)
        case None
        with r(3) False show ?thesis by (simp add: realloc_post_def answers_def unat_eq_0 pool_live_def)
      next
        case (Some c)
        with r(3) have post: "c = a \<or> c \<notin> owned p UNIV (blks s)" "owned p UNIV (blks s') = insert c (owned p UNIV (blks s) - {a})"
          "\<forall>x\<in>owned p UNIV (blks s). x \<noteq> a \<longrightarrow> blks s' x = blks s x"
          "\<And>x y. blks s a = Some x \<Longrightarrow> blks s' c = Some y \<Longrightarrow> unat nsize \<le> length (d_d y)
             \<and> take (min (unat nsize) (length (d_d x))) (d_d y) = take (min (unat nsize) (length (d_d x))) (d_d x)"
          by (simp_all add: realloc_post_def)
        from a obtain x where x: "blks s a = Some x" by (auto simp: owned_def)
        have "c \<in> owned p UNIV (blks s')" using post(2) by simp
        then obtain y where y: "blks s' c = Some y" by (auto simp: owned_def)
        from post(4) [OF x y] post(1-3) x y Some False show ?thesis
          by (auto simp: answers_def unat_eq_0 pool_live_def)
      qed
      with r(1,2) Some False show ?thesis by (auto simp: lalloc_def pool_ok_def)
    qed
  qed
qed

lemma lalloc_size_ok:
  assumes "unat nsize < 2 ^ 61" and "nsize \<noteq> 0"
  shows "pool_size_ok (lalloc_size osize nsize)"
proof -
  have "unat (nsize * 4) = unat nsize * 4" using assms(1) by (simp add: unat_mult_lem [THEN iffD1])
  with assms show ?thesis by (auto simp: lalloc_size_def pool_size_ok_def simp flip: unat_eq_0)
qed

text \<open>Each call is a run of a client that keeps the rules of the pool.\<close>

lemma lalloc_run:
  assumes "set_option q \<subseteq> pool_live p s" and n: "unat nsize < 2 ^ 61" and call: "lalloc (Some p) q osize nsize s = Some (r, s')"
  shows "pool_run p s s'"
proof -
  have size: "nsize \<noteq> 0 \<Longrightarrow> pool_size_ok nsize" using n by (simp add: pool_size_ok_def)
  have big: "nsize \<noteq> 0 \<Longrightarrow> pool_size_ok (lalloc_size osize nsize)" using n by (rule lalloc_size_ok)
  have "s' = s \<or> pool_step p s s'"
  proof (cases q)
    case None
    then show ?thesis using call big by (auto simp: lalloc_def memp_recycle_def intro: pool_step.alloc split: if_splits)
  next
    case (Some a)
    then show ?thesis using call assms(1) size
      by (auto simp: lalloc_def bind_eq_Some_conv intro: pool_step.recycle pool_step.realloc split: if_splits)
  qed
  then show ?thesis using pool_run.step [OF pool_run.refl] pool_run.refl by blast
qed

subsection \<open>The properties\<close>

text \<open>When it answers \<open>NULL\<close>, and which blocks can be resized without any memory.\<close>

definition large_block :: "addr \<Rightarrow> mem \<Rightarrow> addr \<Rightarrow> bool" where
  "large_block p s a \<longleftrightarrow> (\<exists>pl b. pools s p = Some pl \<and> blks s a = Some b \<and> d_p b = Field p (classes pl))"

lemma memp_realloc_null:
  assumes ok: "pool_ok p s" and a: "a \<in> pool_live p s" and sz: "pool_size_ok sz" and run: "memp_realloc (Some a) sz s = Some (None, s')"
  shows "oom s (brk s)"
proof -
  from ok obtain fl where inv: "memp_inv p fl s" by (auto simp: pool_ok_def)
  obtain pl where pl: "pools s p = Some pl" and shape: "pool_shape p pl" using memp_inv_pool [OF inv] by blast
  have short: "oom s (brk s)" if "memp_alloc (Some p) sz s = Some (None, s1)" for s1
    using memp_alloc_total [OF ok sz] that by auto
  have "a \<in> owned p UNIV (blks s)" using a by (simp add: pool_live_def)
  from inv pl this obtain b i where b: "blks s a = Some b" "d_p b = Field p i" "i \<le> classes pl"
    by (cases rule: owned_cases) auto
  have fld: "arr_get (mp_f pl) i = Some (mp_f pl ! i)" "fld_pool (mp_f pl ! i) = Some p" using shape b(3) by (simp_all add: pool_shape_def)
  have moved: "oom s (brk s)" if "move_block p a sz k s = Some (None, s')" for k
    using that short by (auto simp: move_block_def bind_eq_Some_conv split: option.splits)
  have "sz \<noteq> 0" using sz by (simp add: pool_size_ok_def)
  then have "(\<exists>k. move_block p a sz k s = Some (None, s')) \<or> realloc_data_fixed a sz s = Some (None, s')"
    using run b fld pl by (auto simp: memp_realloc_def move_block_def link_field_def bind_eq_Some_conv split: if_splits)
  then show ?thesis using moved b(1) by (auto simp: realloc_data_fixed_def Let_def split: if_splits)
qed

lemma memp_realloc_small:
  assumes ok: "pool_ok p s" and a: "a \<in> pool_live p s" "blks s a = Some b" "\<not> large_block p s a" and sz: "sz \<noteq> 0" "unat sz \<le> length (d_d b)"
  shows "memp_realloc (Some a) sz s = Some (Some a, s)"
proof -
  from ok obtain fl where inv: "memp_inv p fl s" by (auto simp: pool_ok_def)
  obtain pl where pl: "pools s p = Some pl" and shape: "pool_shape p pl" using memp_inv_pool [OF inv] by blast
  have "a \<in> owned p UNIV (blks s)" using a(1) by (simp add: pool_live_def)
  with inv pl show ?thesis
  proof (cases rule: owned_cases)
    case (1 x i)
    have fld: "arr_get (mp_f pl) i = Some (mp_f pl ! i)" "fld_pool (mp_f pl ! i) = Some p" using shape 1(3) by (simp_all add: pool_shape_def)
    have "fld_size (mp_f pl ! i) \<noteq> -1" using class_size_not_sentinel [OF shape 1(3)] by (simp add: class_size_def)
    moreover have "\<not> sz > fld_size (mp_f pl ! i)" using 1 a(2) sz(2) by (simp add: class_size_def word_less_nat_alt)
    ultimately show ?thesis using 1 a(2) pl sz(1) fld by (simp add: memp_realloc_def link_field_def)
  next
    case (2 x)
    with a(3) pl show ?thesis by (auto simp: large_block_def)
  qed
qed

text \<open>C22: \<open>lalloc\<close> frees, resizes and allocates as it is asked: what it returns has room for the request and holds
  the old contents, it returns \<open>NULL\<close> for a size that is not 0 only when the system has no memory,
  which leaves everything as it is, and it is a client that keeps the rules of the memory pool. A block of
  a size class is resized in place, without any memory, to every size up to the one it has. A
  block larger than all classes is moved even when it shrinks, so that shrinking it can give \<open>NULL\<close>,
  which Lua does not allow (\<open>lalloc_shrink_null\<close>).\<close>

theorem lalloc_answers:
  assumes "pool_ok p s" and "set_option q \<subseteq> pool_live p s" and "unat nsize < 2 ^ 61"
  shows "\<exists>r s'. lalloc (Some p) q osize nsize s = Some (r, s') \<and> pool_ok p s' \<and> pool_run p s s'
    \<and> answers (pool_live p s) (\<lambda>a. map_option d_d (blks s a)) q (unat nsize) r (pool_live p s') (\<lambda>a. map_option d_d (blks s' a))
    \<and> (nsize \<noteq> 0 \<longrightarrow> r = None \<longrightarrow> oom s (brk s))
    \<and> (\<forall>a b. q = Some a \<longrightarrow> blks s a = Some b \<longrightarrow> \<not> large_block p s a \<longrightarrow> nsize \<noteq> 0 \<longrightarrow> unat nsize \<le> length (d_d b)
        \<longrightarrow> r = Some a \<and> s' = s)"
proof -
  obtain r s' where run: "lalloc (Some p) q osize nsize s = Some (r, s')" "pool_ok p s'"
    "answers (pool_live p s) (\<lambda>a. map_option d_d (blks s a)) q (unat nsize) r (pool_live p s') (\<lambda>a. map_option d_d (blks s' a))"
    using lua.call_law [OF assms] by blast
  have "oom s (brk s)" if "nsize \<noteq> 0" "r = None"
  proof (cases q)
    case None
    have "pool_size_ok (lalloc_size osize nsize)" using assms(3) that(1) by (rule lalloc_size_ok)
    from memp_alloc_total [OF assms(1) this] run(1) None that show ?thesis by (auto simp: lalloc_def)
  next
    case (Some a)
    have "pool_size_ok nsize" using assms(3) that(1) by (simp add: pool_size_ok_def)
    then show ?thesis using memp_realloc_null [OF assms(1), of a nsize s'] run(1) Some that assms(2) by (simp add: lalloc_def)
  qed
  moreover have "r = Some a \<and> s' = s" if "q = Some a" "blks s a = Some b" "\<not> large_block p s a" "nsize \<noteq> 0" "unat nsize \<le> length (d_d b)" for a b
    using memp_realloc_small [OF assms(1) _ that(2,3,4,5)] run(1) that(1,4) assms(2) by (simp add: lalloc_def)
  ultimately show ?thesis using run lalloc_run [OF assms(2,3) run(1)] by blast
qed

theorem lalloc_answers_witness:
  "\<exists>c s' d. lalloc (Some 0) (Some 1) 8 12 small_mem = Some (Some c, s') \<and> map_option d_d (blks s' c) = Some d \<and> take 8 d = replicate 8 (Some 7)"
proof -
  have ok: "pool_ok 0 small_mem" using small_mem_inv by (auto simp: pool_ok_def)
  have live: "set_option (Some 1) \<subseteq> pool_live 0 small_mem" by (simp add: pool_live_def small_mem_owned)
  have size: "unat (12 :: size_t) < 2 ^ 61" by simp
  have "map_option fst (lalloc (Some 0) (Some 1) 8 12 small_mem) = Some (Some 2)" by code_simp
  moreover have "map_option d_d (blks small_mem 1) = Some (replicate 8 (Some 7))" by (simp add: small_mem_def)
  ultimately show ?thesis using lalloc_answers [OF ok live size, of 8] by (auto simp: answers_def)
qed

text \<open>A block of 100 bytes, larger than every class, that is to shrink to 50 when the system has no memory.\<close>

definition short_mem :: mem where
  "short_mem = (snd (the (memp_alloc (Some 0) 100 small_mem)))\<lparr>oom := (\<lambda>_. True)\<rparr>"

lemma lalloc_shrink_null: "map_option fst (lalloc (Some 0) (Some 2) 100 50 short_mem) = Some None"
  by code_simp

text \<open>C21: whatever Lua allocates, resizes and frees, the blocks it holds are pairwise different, each has room
  for the size last asked for, and the blocks that others hold in the same pool (threads, resources,
  buffers) stay in use with their contents.\<close>

theorem lua_blocks_apart:
  assumes "pool_ok p s" and "\<And>r. r \<in> set rs \<Longrightarrow> unat (req_size r) < 2 ^ 61"
  shows "\<exists>h s'. lua_calls (lalloc (Some p)) rs Map.empty s = Some (h, s') \<and> pool_ok p s'
    \<and> names_ok (pool_live p s) (pool_live p s') (\<lambda>a. map_option d_d (blks s' a)) h
    \<and> (\<forall>x\<in>pool_live p s. map_option d_d (blks s' x) = map_option d_d (blks s x))"
proof -
  have "names_ok (pool_live p s) (pool_live p s) (\<lambda>a. map_option d_d (blks s a)) Map.empty" by (simp add: names_ok_def)
  from lua.calls_law [OF assms(1) this assms(2)] show ?thesis by blast
qed

theorem lua_blocks_apart_witness:
  "\<exists>h s'. lua_calls (lalloc (Some 0)) [New 0 5 8, New 1 0 100, Resize 1 20, Free 0] Map.empty small_mem = Some (h, s')
    \<and> 1 \<in> pool_live 0 s' \<and> map_option d_d (blks s' 1) = Some (replicate 8 (Some 7))"
proof -
  have ok: "pool_ok 0 small_mem" using small_mem_inv by (auto simp: pool_ok_def)
  have sizes: "unat (req_size r) < 2 ^ 61" if "r \<in> set [New 0 5 8, New 1 0 100, Resize 1 20, Free 0]" for r using that by auto
  have "1 \<in> pool_live 0 small_mem" "map_option d_d (blks small_mem 1) = Some (replicate 8 (Some 7))"
    by (simp_all add: pool_live_def small_mem_owned) (simp add: small_mem_def)
  moreover obtain h s' where "lua_calls (lalloc (Some 0)) [New 0 5 8, New 1 0 100, Resize 1 20, Free 0] Map.empty small_mem = Some (h, s')"
    "pool_live 0 small_mem \<subseteq> pool_live 0 s'"
    "\<forall>x\<in>pool_live 0 small_mem. map_option d_d (blks s' x) = map_option d_d (blks small_mem x)"
    using lua_blocks_apart [OF ok sizes] unfolding names_ok_def by blast
  ultimately show ?thesis by (intro exI [of _ h] exI [of _ s']) auto
qed

end
