(* ===== verification/Lm_Counter.thy ===== *)
theory Lm_Counter
  imports Mem_Pool_Client
begin

text \<open>
  The Lua module of counters, \<^verbatim>\<open>src/c/src/lm_counter.h\<close> and \<^verbatim>\<open>src/c/src/lm_counter.c\<close>. A counter
  is an \<open>int\<close> in a block of the memory pool that the registry holds under \<open>LRK_MEM_POOL\<close>; the
  module takes what it finds there, \<open>NULL\<close> when there is nothing, and no code of the program puts
  a pool there. A function gets its arguments as the \<open>luaL_check*\<close> functions deliver them; \<open>None\<close>
  is undefined behaviour.
\<close>

subsection \<open>Definitions\<close>

text \<open>The blocks of the counters (a typed view), the userdata, and the pool in the registry.\<close>

record lm_counter_ud =
  cu_c :: ptr
  cu_name :: "string option"

record counters =
  co_mem :: mem
  co_vals :: "int store"
  co_uds :: "lm_counter_ud store"
  co_next :: addr
  co_pool :: ptr

definition sizeof_counter :: size_t where "sizeof_counter = 4"

definition int_ok :: "int \<Rightarrow> bool" where
  "int_ok v \<longleftrightarrow> - (2 ^ 31) \<le> v \<and> v < 2 ^ 31"

definition counter_create :: "int \<Rightarrow> ptr \<Rightarrow> counters \<Rightarrow> (ptr \<times> counters) option" where
  "counter_create start mp s =
     (if mp = None then Some (None, s)
      else do {
        (c, m) \<leftarrow> memp_alloc mp sizeof_counter (co_mem s);
        let s = s\<lparr>co_mem := m\<rparr>;
        case c of
          None \<Rightarrow> Some (None, s)
        | Some a \<Rightarrow> Some (c, s\<lparr>co_vals := (co_vals s)(a \<mapsto> start)\<rparr>)
      })"

definition counter_destroy :: "ptr \<Rightarrow> counters \<Rightarrow> counters option" where
  "counter_destroy c s = (case c of
       None \<Rightarrow> Some s
     | Some a \<Rightarrow> do {
         m \<leftarrow> memp_recycle c (co_mem s);
         Some (s\<lparr>co_mem := m, co_vals := (co_vals s)(a := None)\<rparr>)
       })"

text \<open>The overflow of \<open>int\<close> is undefined.\<close>

definition counter_add :: "ptr \<Rightarrow> int \<Rightarrow> counters \<Rightarrow> counters option" where
  "counter_add c amount s = (case c of
       None \<Rightarrow> Some s
     | Some a \<Rightarrow> do {
         v \<leftarrow> co_vals s a;
         if int_ok (v + amount) then Some (s\<lparr>co_vals := (co_vals s)(a \<mapsto> v + amount)\<rparr>) else None
       })"

definition counter_getval :: "ptr \<Rightarrow> counters \<Rightarrow> int option" where
  "counter_getval c s = (case c of None \<Rightarrow> Some 0 | Some a \<Rightarrow> co_vals s a)"

text \<open>\<open>luaL_checkstring\<close> returns no \<open>NULL\<close>; \<open>strdup\<close> succeeds.\<close>

definition lcf_counter_new :: "int \<Rightarrow> string \<Rightarrow> counters \<Rightarrow> (addr \<times> counters) option" where
  "lcf_counter_new start name s = do {
     let mp = co_pool s;
     let cu = co_next s;
     let s = s\<lparr>co_uds := (co_uds s)(cu \<mapsto> \<lparr>cu_c = None, cu_name = None\<rparr>), co_next := Suc cu\<rparr>;
     (c, s) \<leftarrow> counter_create start mp s;
     Some (cu, s\<lparr>co_uds := (co_uds s)(cu \<mapsto> \<lparr>cu_c = c, cu_name = Some name\<rparr>)\<rparr>)
   }"

definition lcf_counter_add :: "addr \<Rightarrow> int \<Rightarrow> counters \<Rightarrow> counters option" where
  "lcf_counter_add cu amount s = do {
     u \<leftarrow> co_uds s cu;
     counter_add (cu_c u) amount s
   }"

definition lcf_counter_getval :: "addr \<Rightarrow> counters \<Rightarrow> int option" where
  "lcf_counter_getval cu s = do {
     u \<leftarrow> co_uds s cu;
     counter_getval (cu_c u) s
   }"

text \<open>\<open>lua_pushstring\<close> of \<open>NULL\<close> pushes nil.\<close>

definition lcf_counter_getname :: "addr \<Rightarrow> counters \<Rightarrow> string option option" where
  "lcf_counter_getname cu s = map_option cu_name (co_uds s cu)"

definition lcf_counter_destroy :: "addr \<Rightarrow> counters \<Rightarrow> counters option" where
  "lcf_counter_destroy cu s = do {
     u \<leftarrow> co_uds s cu;
     s \<leftarrow> counter_destroy (cu_c u) s;
     Some (s\<lparr>co_uds := (co_uds s)(cu \<mapsto> \<lparr>cu_c = None, cu_name = None\<rparr>)\<rparr>)
   }"

definition lcf_counter_tostring :: "addr \<Rightarrow> counters \<Rightarrow> (string option \<times> int) option" where
  "lcf_counter_tostring cu s = do {
     u \<leftarrow> co_uds s cu;
     v \<leftarrow> counter_getval (cu_c u) s;
     Some (cu_name u, v)
   }"

subsection \<open>Counting\<close>

definition counts :: "addr \<Rightarrow> ptr \<Rightarrow> int \<Rightarrow> counters \<Rightarrow> bool" where
  "counts cu c v s \<longleftrightarrow> (\<exists>n. co_uds s cu = Some \<lparr>cu_c = c, cu_name = n\<rparr>)
     \<and> (case c of None \<Rightarrow> v = 0 | Some a \<Rightarrow> co_vals s a = Some v)"

text \<open>Without a block nothing is counted.\<close>

definition counted :: "ptr \<Rightarrow> int \<Rightarrow> int list \<Rightarrow> int" where
  "counted c v amounts = (if c = None then 0 else v + sum_list amounts)"

lemma adds_count:
  "counts cu c v s \<Longrightarrow> (\<And>k. c \<noteq> None \<Longrightarrow> k \<le> length amounts \<Longrightarrow> int_ok (v + sum_list (take k amounts))) \<Longrightarrow>
   \<exists>s'. foldM (lcf_counter_add cu) amounts s = Some s' \<and> counts cu c (counted c v amounts) s' \<and> co_mem s' = co_mem s"
proof (induction amounts arbitrary: v s)
  case Nil
  then show ?case by (cases c) (simp_all add: counted_def counts_def)
next
  case (Cons n ns)
  show ?case
  proof (cases c)
    case None
    then have "lcf_counter_add cu m s = Some s" for m
      using Cons.prems(1) by (auto simp: lcf_counter_add_def counter_add_def counts_def)
    then have "foldM (lcf_counter_add cu) ms s = Some s" for ms by (induction ms) simp_all
    moreover have "counts cu c (counted c v (n # ns)) s" using Cons.prems(1) None by (simp add: counts_def counted_def)
    ultimately show ?thesis by blast
  next
    case (Some a)
    have "int_ok (v + n)" using Cons.prems(2) [of 1] Some by simp
    then have step: "lcf_counter_add cu n s = Some (s\<lparr>co_vals := (co_vals s)(a \<mapsto> v + n)\<rparr>)"
      using Cons.prems(1) Some by (auto simp: lcf_counter_add_def counter_add_def counts_def)
    have "counts cu c (v + n) (s\<lparr>co_vals := (co_vals s)(a \<mapsto> v + n)\<rparr>)" using Cons.prems(1) Some by (auto simp: counts_def)
    moreover have "int_ok (v + n + sum_list (take k ns))" if "k \<le> length ns" for k
      using Cons.prems(2) [of "Suc k"] that Some by (simp add: add.assoc)
    ultimately obtain s' where "foldM (lcf_counter_add cu) ns (s\<lparr>co_vals := (co_vals s)(a \<mapsto> v + n)\<rparr>) = Some s'"
      "counts cu c (counted c (v + n) ns) s'" "co_mem s' = co_mem s" using Cons.IH by fastforce
    with step Some show ?thesis by (simp add: counted_def add.assoc)
  qed
qed

lemma counter_new_ok:
  assumes "co_pool s = Some p" and "pool_ok p (co_mem s)"
  obtains cu c s' where "lcf_counter_new start name s = Some (cu, s')" "counts cu c (if c = None then 0 else start) s'" "pool_ok p (co_mem s')"
    "pool_live p (co_mem s') = pool_live p (co_mem s) \<union> set_option c" "set_option c \<inter> pool_live p (co_mem s) = {}"
    "c = None \<Longrightarrow> oom (co_mem s) (brk (co_mem s))"
proof -
  have "pool_size_ok sizeof_counter" by (simp add: pool_size_ok_def sizeof_counter_def)
  from memp_alloc_total [OF assms(2) this] obtain c m where m: "memp_alloc (Some p) sizeof_counter (co_mem s) = Some (c, m)" "pool_ok p m"
    "pool_live p m = pool_live p (co_mem s) \<union> set_option c" "set_option c \<inter> pool_live p (co_mem s) = {}"
    "c = None \<longrightarrow> oom (co_mem s) (brk (co_mem s))" by blast
  show thesis
  proof (cases c)
    case None
    with m assms(1) show thesis
      by (intro that [of "co_next s" "s\<lparr>co_mem := m, co_uds := (co_uds s)(co_next s \<mapsto> \<lparr>cu_c = None, cu_name = Some name\<rparr>), co_next := Suc (co_next s)\<rparr>" c])
         (auto simp: lcf_counter_new_def counter_create_def counts_def Let_def)
  next
    case (Some a)
    with m assms(1) show thesis
      by (intro that [of "co_next s" "s\<lparr>co_mem := m, co_vals := (co_vals s)(a \<mapsto> start),
            co_uds := (co_uds s)(co_next s \<mapsto> \<lparr>cu_c = c, cu_name = Some name\<rparr>), co_next := Suc (co_next s)\<rparr>" c])
         (auto simp: lcf_counter_new_def counter_create_def counts_def Let_def)
  qed
qed

lemma counter_destroy_ok:
  assumes "counts cu c v s" and "pool_ok p (co_mem s)" and "set_option c \<subseteq> pool_live p (co_mem s)"
  obtains s' where "lcf_counter_destroy cu s = Some s'" "pool_ok p (co_mem s')" "pool_live p (co_mem s') = pool_live p (co_mem s) - set_option c"
    "lcf_counter_destroy cu s' = Some s'"
proof (cases c)
  case None
  with assms(1,2) show thesis
    by (intro that [of "s\<lparr>co_uds := (co_uds s)(cu \<mapsto> \<lparr>cu_c = None, cu_name = None\<rparr>)\<rparr>"])
       (auto simp: counts_def lcf_counter_destroy_def counter_destroy_def)
next
  case (Some a)
  with assms(3) have "a \<in> pool_live p (co_mem s)" by simp
  from mp.recycle_law [OF assms(2) this] obtain m where "memp_recycle (Some a) (co_mem s) = Some m" "pool_ok p m"
    "pool_live p m = pool_live p (co_mem s) - {a}" by blast
  note m = this
  let ?s = "s\<lparr>co_mem := m, co_vals := (co_vals s)(a := None), co_uds := (co_uds s)(cu \<mapsto> \<lparr>cu_c = None, cu_name = None\<rparr>)\<rparr>"
  obtain n where "co_uds s cu = Some \<lparr>cu_c = Some a, cu_name = n\<rparr>" using assms(1) Some by (auto simp: counts_def)
  with m(1) have "lcf_counter_destroy cu s = Some ?s" by (simp add: lcf_counter_destroy_def counter_destroy_def)
  moreover have "lcf_counter_destroy cu ?s = Some ?s" by (simp add: lcf_counter_destroy_def counter_destroy_def)
  ultimately show thesis using m(2,3) Some by (intro that [of ?s]) simp_all
qed

subsection \<open>The properties\<close>

text \<open>A counter made from a pool in order counts: after any additions that do not overflow it reads its
  start plus their sum, and \<open>__gc\<close> gives its block back once. When there is no memory for its
  block, or no pool in the registry, it reads 0 whatever is added.\<close>

theorem counter_counts:
  assumes "co_pool s = Some p" and "pool_ok p (co_mem s)" and "\<forall>k\<le>length amounts. int_ok (start + sum_list (take k amounts))"
  shows "\<exists>cu c s1 s2 s3. lcf_counter_new start name s = Some (cu, s1) \<and> foldM (lcf_counter_add cu) amounts s1 = Some s2
    \<and> map_option cu_c (co_uds s2 cu) = Some c
    \<and> lcf_counter_getval cu s2 = Some (if c = None then 0 else start + sum_list amounts) \<and> (c = None \<longrightarrow> oom (co_mem s) (brk (co_mem s)))
    \<and> lcf_counter_destroy cu s2 = Some s3 \<and> lcf_counter_destroy cu s3 = Some s3 \<and> pool_ok p (co_mem s3)
    \<and> pool_live p (co_mem s3) = pool_live p (co_mem s)"
proof -
  obtain cu c s1 where s1: "lcf_counter_new start name s = Some (cu, s1)" "counts cu c (if c = None then 0 else start) s1" "pool_ok p (co_mem s1)"
    "pool_live p (co_mem s1) = pool_live p (co_mem s) \<union> set_option c" "set_option c \<inter> pool_live p (co_mem s) = {}"
    "c = None \<Longrightarrow> oom (co_mem s) (brk (co_mem s))" by (rule counter_new_ok [OF assms(1,2)]) blast
  have "int_ok ((if c = None then 0 else start) + sum_list (take k amounts))" if "c \<noteq> None" "k \<le> length amounts" for k
    using assms(3) that by (cases c) simp_all
  from adds_count [OF s1(2) this] obtain s2 where s2: "foldM (lcf_counter_add cu) amounts s1 = Some s2" "co_mem s2 = co_mem s1"
    "counts cu c (counted c (if c = None then 0 else start) amounts) s2"
    by blast
  then have val: "lcf_counter_getval cu s2 = Some (if c = None then 0 else start + sum_list amounts)"
    by (cases c) (auto simp: counts_def counted_def lcf_counter_getval_def counter_getval_def)
  obtain s3 where s3: "lcf_counter_destroy cu s2 = Some s3" "pool_ok p (co_mem s3)" "lcf_counter_destroy cu s3 = Some s3"
    "pool_live p (co_mem s3) = pool_live p (co_mem s2) - set_option c"
    by (rule counter_destroy_ok [OF s2(3), of p]) (use s1(3,4) s2(2) in auto)
  show ?thesis
  proof (rule exI [of _ cu], rule exI [of _ c], rule exI [of _ s1], rule exI [of _ s2], rule exI [of _ s3], intro conjI)
    show "lcf_counter_new start name s = Some (cu, s1)" by (rule s1(1))
    show "foldM (lcf_counter_add cu) amounts s1 = Some s2" by (rule s2(1))
    show "lcf_counter_getval cu s2 = Some (if c = None then 0 else start + sum_list amounts)" by (rule val)
    show "map_option cu_c (co_uds s2 cu) = Some c" using s2(3) by (auto simp: counts_def)
    show "c = None \<longrightarrow> oom (co_mem s) (brk (co_mem s))" using s1(6) by blast
    show "pool_live p (co_mem s3) = pool_live p (co_mem s)" using s3(4) s1(4,5) s2(2) by auto
  qed (use s3(1-3) in simp_all)
qed

definition some_counters :: "ptr \<Rightarrow> counters" where
  "some_counters p = \<lparr>co_mem = small_mem, co_vals = (\<lambda>_. None), co_uds = (\<lambda>_. None), co_next = 0, co_pool = p\<rparr>"

theorem counter_counts_witness:
  "\<exists>cu s1 s2. lcf_counter_new 3 ''n'' (some_counters (Some 0)) = Some (cu, s1) \<and> foldM (lcf_counter_add cu) [4, -2] s1 = Some s2
    \<and> lcf_counter_getval cu s2 = Some 5"
proof -
  have pool: "co_pool (some_counters (Some 0)) = Some 0" "pool_ok 0 (co_mem (some_counters (Some 0)))"
    using small_mem_inv by (auto simp: some_counters_def pool_ok_def)
  have sums: "\<forall>k\<le>length [4, -2 :: int]. int_ok (3 + sum_list (take k [4, -2]))"
  proof (intro allI impI)
    fix k assume "k \<le> length [4, -2 :: int]"
    then have "k = 0 \<or> k = 1 \<or> k = 2" by auto
    then show "int_ok (3 + sum_list (take k [4, -2]))" by (auto simp: int_ok_def numeral_2_eq_2)
  qed
  have mem: "\<not> oom (co_mem (some_counters (Some 0))) n" for n by (simp add: some_counters_def small_mem_def)
  have "3 + sum_list [4, -2] = (5 :: int)" by simp
  from counter_counts [OF pool sums, of "''n''", unfolded this] show ?thesis
  proof (elim exE conjE)
    fix cu c s1 s2
    assume count: "lcf_counter_new 3 ''n'' (some_counters (Some 0)) = Some (cu, s1)" "foldM (lcf_counter_add cu) [4, -2] s1 = Some s2"
      "lcf_counter_getval cu s2 = Some (if c = None then 0 else 5)"
      "c = None \<longrightarrow> oom (co_mem (some_counters (Some 0))) (brk (co_mem (some_counters (Some 0))))"
    have "c \<noteq> None" using count(4) mem by blast
    then have "lcf_counter_getval cu s2 = Some 5" using count(3) by (simp only: if_False)
    with count(1,2) show ?thesis by (intro exI conjI)
  qed
qed

text \<open>The program registers no pool: every counter reads 0.\<close>

lemma counter_without_pool:
  assumes "co_pool s = None"
  shows "\<exists>cu s1. lcf_counter_new start name s = Some (cu, s1) \<and> foldM (lcf_counter_add cu) amounts s1 = Some s1 \<and> lcf_counter_getval cu s1 = Some 0"
proof -
  let ?s1 = "s\<lparr>co_uds := (co_uds s)(co_next s \<mapsto> \<lparr>cu_c = None, cu_name = Some name\<rparr>), co_next := Suc (co_next s)\<rparr>"
  have "lcf_counter_new start name s = Some (co_next s, ?s1)"
    using assms by (simp add: lcf_counter_new_def counter_create_def Let_def)
  moreover have "lcf_counter_add (co_next s) m ?s1 = Some ?s1" for m by (simp add: lcf_counter_add_def counter_add_def)
  then have "foldM (lcf_counter_add (co_next s)) amounts ?s1 = Some ?s1" by (induction amounts) simp_all
  moreover have "lcf_counter_getval (co_next s) ?s1 = Some 0" by (simp add: lcf_counter_getval_def counter_getval_def)
  ultimately show ?thesis by blast
qed

end
