(* ===== verification/Pconf.thy ===== *)
theory Pconf
  imports Server
begin

text \<open>
  The configuration, \<^verbatim>\<open>src/c/src/lua_pconf.h\<close> and \<^verbatim>\<open>src/c/src/lua_pconf.c\<close>: a value of the
  global table \<open>as_config\<close> that a Lua file has set, and the macros of \<^verbatim>\<open>mw_worker.c\<close> that read
  it. The values of Lua are of any type \<open>'v\<close>; \<open>lua_vals\<close> are the calls the code makes on them,
  an index may raise an error.
\<close>

subsection \<open>Definitions\<close>

datatype ltype = T_Nil | T_Number | T_String | T_Other

record 'v lua_vals =
  lv_nil :: 'v
  lv_istable :: "'v \<Rightarrow> bool"
  lv_index :: "'v \<Rightarrow> string \<Rightarrow> 'v option"
  lv_type :: "'v \<Rightarrow> ltype"
  lv_int :: "'v \<Rightarrow> int"
  lv_str :: "'v \<Rightarrow> string"

text \<open>From the global value on, along the fields on the stack.\<close>

fun lcf_get_value :: "'v lua_vals \<Rightarrow> 'v \<Rightarrow> string list \<Rightarrow> 'v option" where
  "lcf_get_value lv v [] = Some v"
| "lcf_get_value lv v (k # ks) = (
     if \<not> lv_istable lv v then Some (lv_nil lv)
     else do { v \<leftarrow> lv_index lv v k; lcf_get_value lv v ks })"

datatype cnf_type = LPCNF_TNONE | LPCNF_TNIL | LPCNF_TNUMBER | LPCNF_TSTRING

text \<open>The union: which member was written, if any.\<close>

datatype cnf_value = Val_Unset | Val_I int | Val_S string | Val_Null

record cnf_return =
  cnf_type :: cnf_type
  cnf_val :: cnf_value

definition lpconf_get_pconf_value :: "'v lua_vals \<Rightarrow> 'v \<Rightarrow> string list \<Rightarrow> cnf_return" where
  "lpconf_get_pconf_value lv as_config ks = (case lcf_get_value lv as_config ks of
       None \<Rightarrow> \<lparr>cnf_type = LPCNF_TNONE, cnf_val = Val_Unset\<rparr>
     | Some v \<Rightarrow> (case lv_type lv v of
           T_Nil \<Rightarrow> \<lparr>cnf_type = LPCNF_TNIL, cnf_val = Val_Null\<rparr>
         | T_Number \<Rightarrow> \<lparr>cnf_type = LPCNF_TNUMBER, cnf_val = Val_I (to_int (lv_int lv v))\<rparr>
         | T_String \<Rightarrow> \<lparr>cnf_type = LPCNF_TSTRING, cnf_val = Val_S (lv_str lv v)\<rparr>
         | T_Other \<Rightarrow> \<lparr>cnf_type = LPCNF_TNONE, cnf_val = Val_Unset\<rparr>))"

text \<open>
  The macros read a member of the union whatever the type is: of a null pointer the integer is 0,
  that of a string or of no value is not known.
\<close>

definition get_cnf_int_val :: "'v lua_vals \<Rightarrow> 'v \<Rightarrow> string list \<Rightarrow> int option" where
  "get_cnf_int_val lv as_config ks = (case cnf_val (lpconf_get_pconf_value lv as_config ks) of
       Val_I n \<Rightarrow> Some n | Val_Null \<Rightarrow> Some 0 | _ \<Rightarrow> None)"

definition get_cnf_str_val :: "'v lua_vals \<Rightarrow> 'v \<Rightarrow> string list \<Rightarrow> string option option" where
  "get_cnf_str_val lv as_config ks = (case cnf_val (lpconf_get_pconf_value lv as_config ks) of
       Val_S s \<Rightarrow> Some (Some s) | Val_Null \<Rightarrow> Some None | _ \<Rightarrow> None)"

subsection \<open>Configurations as trees\<close>

text \<open>A configuration without metamethods, and what the path of a field leads to.\<close>

datatype cfg = C_Nil | C_Num int | C_Str string | C_Other | C_Tab "(string \<times> cfg) list"

definition cfg_vals :: "cfg lua_vals" where
  "cfg_vals = \<lparr>lv_nil = C_Nil, lv_istable = (\<lambda>v. case v of C_Tab _ \<Rightarrow> True | _ \<Rightarrow> False),
     lv_index = (\<lambda>v k. case v of C_Tab kvs \<Rightarrow> Some (case map_of kvs k of None \<Rightarrow> C_Nil | Some w \<Rightarrow> w) | _ \<Rightarrow> None),
     lv_type = (\<lambda>v. case v of C_Nil \<Rightarrow> T_Nil | C_Num _ \<Rightarrow> T_Number | C_Str _ \<Rightarrow> T_String | _ \<Rightarrow> T_Other),
     lv_int = (\<lambda>v. case v of C_Num n \<Rightarrow> n | _ \<Rightarrow> 0), lv_str = (\<lambda>v. case v of C_Str s \<Rightarrow> s | _ \<Rightarrow> [])\<rparr>"

inductive path :: "cfg \<Rightarrow> string list \<Rightarrow> cfg \<Rightarrow> bool" where
  here: "path v [] v"
| down: "map_of kvs k = Some w \<Longrightarrow> path w ks v \<Longrightarrow> path (C_Tab kvs) (k # ks) v"

inductive_cases path_ConsE: "path v (k # ks) w"
inductive_simps path_simps [simp]: "path v [] w" "path (C_Tab kvs) (k # ks) w"

lemma get_value_path:
  "lcf_get_value cfg_vals v ks = Some w \<Longrightarrow> w \<noteq> C_Nil \<Longrightarrow> path v ks w"
proof (induction ks arbitrary: v)
  case (Cons k ks)
  show ?case
  proof (cases v)
    case (C_Tab kvs)
    have get: "lcf_get_value cfg_vals (case map_of kvs k of None \<Rightarrow> C_Nil | Some u \<Rightarrow> u) ks = Some w"
      using Cons.prems(1) C_Tab by (simp add: cfg_vals_def)
    have nil: "lcf_get_value cfg_vals C_Nil ks = Some C_Nil" by (cases ks) (simp_all add: cfg_vals_def)
    from get nil Cons.prems(2) obtain u where "map_of kvs k = Some u" by (cases "map_of kvs k") auto
    with get Cons.IH [of u] Cons.prems(2) C_Tab show ?thesis by simp
  qed (use Cons.prems in \<open>simp_all add: cfg_vals_def\<close>)
qed simp

lemma path_get_value: "path v ks w \<Longrightarrow> lcf_get_value cfg_vals v ks = Some w"
  by (induction rule: path.induct) (simp_all add: cfg_vals_def)

lemma get_value_total: "\<exists>w. lcf_get_value cfg_vals v ks = Some w"
  by (induction ks arbitrary: v) (auto simp: cfg_vals_def split: cfg.splits)

subsection \<open>The property\<close>

text \<open>An integer of the configuration is the number its path leads to, as an \<open>int\<close>; when the path leads
  nowhere, or to nil, it reads as 0, and no error is reported.\<close>

theorem config_int:
  "(\<forall>n. path v ks (C_Num n) \<longrightarrow> get_cnf_int_val cfg_vals v ks = Some (to_int n))
   \<and> ((\<forall>w. path v ks w \<longrightarrow> w = C_Nil) \<longrightarrow> get_cnf_int_val cfg_vals v ks = Some 0)"
proof (intro conjI allI impI)
  show "get_cnf_int_val cfg_vals v ks = Some (to_int n)" if "path v ks (C_Num n)" for n
    using path_get_value [OF that] by (simp add: get_cnf_int_val_def lpconf_get_pconf_value_def) (simp add: cfg_vals_def)
next
  assume nil: "\<forall>w. path v ks w \<longrightarrow> w = C_Nil"
  obtain w where w: "lcf_get_value cfg_vals v ks = Some w" using get_value_total by blast
  then have "w = C_Nil" using get_value_path nil by blast
  with w show "get_cnf_int_val cfg_vals v ks = Some 0"
    by (simp add: get_cnf_int_val_def lpconf_get_pconf_value_def) (simp add: cfg_vals_def)
qed

definition demo_cfg :: cfg where
  "demo_cfg = C_Tab [(''tcp_port'', C_Num 5555), (''log'', C_Tab [(''level'', C_Num 2)]), (''name'', C_Str ''a'')]"

theorem config_int_witness:
  "get_cnf_int_val cfg_vals demo_cfg [''log'', ''level''] = Some 2 \<and> get_cnf_int_val cfg_vals demo_cfg [''n_workers''] = Some 0"
proof -
  have "path demo_cfg [''log'', ''level''] (C_Num 2)" "\<forall>w. path demo_cfg [''n_workers''] w \<longrightarrow> w = C_Nil" by (simp_all add: demo_cfg_def)
  with config_int [of demo_cfg "[''log'', ''level'']"] config_int [of demo_cfg "[''n_workers'']"] show ?thesis by simp
qed

end
