(* ===== verification/Test_Servers.thy ===== *)
theory Test_Servers
  imports Worker_Sort
begin

text \<open>
  The two servers the program was tried with, \<^verbatim>\<open>src/c/src/epoll_server.c\<close> and
  \<^verbatim>\<open>src/c/src/select_server.c\<close>: each turn of their loops, over the helpers of \<open>Server\<close>.
\<close>

unbundle bit_operations_syntax

subsection \<open>The server with epoll\<close>

datatype ep_ctl = CTL_Add | CTL_Mod | CTL_Del

record 'x ep_net = "'x net" +
  eq_wait :: "'x \<Rightarrow> (u32 \<times> int) list \<times> 'x"
  eq_ctl :: "ep_ctl \<Rightarrow> int \<Rightarrow> u32 \<Rightarrow> 'x \<Rightarrow> 'x"

text \<open>\<open>"+OK\r\n"\<close>, and \<open>msg\<close>.\<close>

definition OK_REPLY :: "u8 list" where
  "OK_REPLY = [43, 79, 75, 13, 10]"

definition SND_MSG :: "u8 list" where
  "SND_MSG = [43, 97, 97, 97, 97, 97, 97, 97, 13, 10]"

partial_function (option) accept_clients :: "'x ep_net \<Rightarrow> int \<Rightarrow> 'x \<Rightarrow> (int \<times> 'x) option" where
  "accept_clients net fd x = (
     let (infd, x) = new_accept_fd (net.truncate net) fd x
     in if infd = -1 then Some (infd, x)
        else let (_, x) = set_non_block (net.truncate net) infd x;
                 (_, x) = set_socket_send_buffer_size (net.truncate net) infd 2048 x
             in accept_clients net fd (eq_ctl net CTL_Add infd (EPOLLIN OR EPOLLET) x))"

partial_function (option) read_client :: "'x ep_net \<Rightarrow> int \<Rightarrow> 'x \<Rightarrow> 'x option" where
  "read_client net infd x = (case sc_read net infd 1 x of
       (Inl e, x) \<Rightarrow>
         if e = EAGAIN then let (_, x) = sc_send net infd OK_REPLY x in Some (eq_ctl net CTL_Add infd (EPOLLIN OR EPOLLET) x)
         else Some (sc_close net infd x)
     | (Inr d, x) \<Rightarrow>
         if d = [] then Some (sc_close net infd x)
         else read_client net infd (eq_ctl net CTL_Add infd (EPOLLIN OR EPOLLET) x))"

text \<open>
  \<open>infd\<close> outlives the turn and is not initialised: an event for input removes from the epoll set
  what \<open>infd\<close> was before, and only then takes the descriptor of the event.
\<close>

definition epoll_event :: "'x ep_net \<Rightarrow> int \<Rightarrow> u32 \<times> int \<Rightarrow> int option \<times> 'x \<Rightarrow> (int option \<times> 'x) option" where
  "epoll_event net fd e s = (
     let (events, efd) = e; (infd, x) = s
     in if events AND EPOLLERR \<noteq> 0 \<or> events AND EPOLLHUP \<noteq> 0 \<or> \<not> (events AND EPOLLIN \<noteq> 0 \<or> events AND EPOLLOUT \<noteq> 0)
        then Some (infd, sc_close net efd x)
        else if efd = fd then do { (i, x) \<leftarrow> accept_clients net fd x; Some (Some i, x) }
        else if events AND EPOLLIN \<noteq> 0 then do {
          old \<leftarrow> infd;
          x \<leftarrow> read_client net efd (eq_ctl net CTL_Del old 0 x);
          Some (Some efd, x)
        }
        else if events AND EPOLLOUT \<noteq> 0 then do {
          (n, x) \<leftarrow> simple_write_to_client (net.truncate net) efd SND_MSG 10 x;
          Some (Some efd, if n \<le> 0 then sc_close net efd x else eq_ctl net CTL_Mod efd (EPOLLIN OR EPOLLET) x)
        }
        else Some (infd, x))"

text \<open>While \<open>keep_running\<close>; \<open>k\<close> turns.\<close>

definition epoll_turn :: "'x ep_net \<Rightarrow> int \<Rightarrow> int option \<times> 'x \<Rightarrow> (int option \<times> 'x) option" where
  "epoll_turn net fd s = (let (infd, x) = s; (events, x) = eq_wait net x in foldM (epoll_event net fd) events (infd, x))"

definition epoll_server :: "'x ep_net \<Rightarrow> int \<Rightarrow> nat \<Rightarrow> 'x \<Rightarrow> (int option \<times> 'x) option" where
  "epoll_server net fd k x = (
     let (_, x) = set_non_block (net.truncate net) fd x
     in foldM (\<lambda>_. epoll_turn net fd) [0..<k] (None, eq_ctl net CTL_Add fd (EPOLLIN OR EPOLLET) x))"

subsection \<open>The server with select\<close>

definition FD_SETSIZE :: nat where "FD_SETSIZE = 1024"

record 'x sel_net = "'x net" +
  sl_select :: "int list \<Rightarrow> 'x \<Rightarrow> int list option \<times> 'x"
  sl_write :: "int \<Rightarrow> u8 list \<Rightarrow> 'x \<Rightarrow> int \<times> 'x"

text \<open>A set of descriptors as a list; \<open>FD_SET\<close> of a descriptor out of range is undefined.\<close>

definition fd_set_add :: "int \<Rightarrow> int list \<Rightarrow> int list option" where
  "fd_set_add fd fds = (if 0 \<le> fd \<and> fd < int FD_SETSIZE then Some (List.insert fd fds) else None)"

definition select_one :: "'x sel_net \<Rightarrow> int \<Rightarrow> int \<Rightarrow> int list \<times> 'x \<Rightarrow> (int list \<times> 'x) option" where
  "select_one net fd i s = (
     let (active, x) = s
     in if i = fd then
          let (infd, x) = new_accept_fd (net.truncate net) fd x
          in if infd < 0 then Some (active, x)
             else let (_, x) = set_non_block (net.truncate net) infd x
                  in map_option (\<lambda>active. (active, x)) (fd_set_add infd active)
        else do {
          (n, x) \<leftarrow> simple_read_from_client (net.truncate net) i x;
          if n \<le> 0 then Some (removeAll i active, sc_close net i x)
          else let (_, x) = sl_write net i OK_REPLY x in Some (active, x)
        })"

text \<open>One turn; a failure of \<open>select\<close> ends the program.\<close>

definition select_turn :: "'x sel_net \<Rightarrow> int \<Rightarrow> int list \<times> 'x \<Rightarrow> ((int list \<times> 'x) option) option" where
  "select_turn net fd s = (
     let (active, x) = s; (ready, x) = sl_select net active x
     in case ready of
          None \<Rightarrow> Some None
        | Some ready \<Rightarrow> map_option Some
            (foldM (\<lambda>i s. if int i \<in> set ready then select_one net fd (int i) s else Some s) [0..<FD_SETSIZE] (active, x)))"

declare accept_clients.simps [code] read_client.simps [code]

subsection \<open>The set of select is the set of open descriptors\<close>

text \<open>\<open>fds x\<close> are the open descriptors: \<open>accept\<close> opens one, \<open>close\<close> closes one, the rest changes nothing.\<close>

definition select_fds :: "'x sel_net \<Rightarrow> ('x \<Rightarrow> int set) \<Rightarrow> bool" where
  "select_fds net fds \<longleftrightarrow>
     (\<forall>fd x. fds (snd (sc_accept net fd x)) = (if fst (sc_accept net fd x) < 0 then fds x else insert (fst (sc_accept net fd x)) (fds x)))
     \<and> (\<forall>fd x. fds (sc_close net fd x) = fds x - {fd}) \<and> (\<forall>fd n x. fds (snd (sc_read net fd n x)) = fds x)
     \<and> (\<forall>fd x. fds (snd (sc_getfl net fd x)) = fds x) \<and> (\<forall>fd fl x. fds (snd (sc_setfl net fd fl x)) = fds x)
     \<and> (\<forall>fd d x. fds (snd (sl_write net fd d x)) = fds x) \<and> (\<forall>a x. fds (snd (sl_select net a x)) = fds x)"

lemma select_fdsD:
  assumes "select_fds net fds"
  shows "sc_accept net fd x = (r, y) \<Longrightarrow> fds y = (if r < 0 then fds x else insert r (fds x))"
    and "fds (sc_close net fd x) = fds x - {fd}" and "sc_read net fd n x = (d, y) \<Longrightarrow> fds y = fds x"
    and "sc_getfl net fd x = (fl, y) \<Longrightarrow> fds y = fds x" and "sc_setfl net fd fl x = (r, y) \<Longrightarrow> fds y = fds x"
    and "sl_write net fd m x = (r, y) \<Longrightarrow> fds y = fds x" and "sl_select net a x = (q, y) \<Longrightarrow> fds y = fds x"
  using assms unfolding select_fds_def by (metis fst_conv snd_conv)+

lemma read_loop_keeps:
  assumes "\<And>x d y. sc_read net fd MAXLEN x = (d, y) \<Longrightarrow> fds y = fds x"
  shows "simple_read_loop net fd n x = Some (r, y) \<Longrightarrow> fds y = fds x"
proof -
  have "(\<forall>x d y. sc_read net fd MAXLEN x = (d, y) \<longrightarrow> fds y = fds x) \<longrightarrow> fds (snd p) = fds x" if "simple_read_loop net fd n x = Some p" for p
    by (rule simple_read_loop.raw_induct
        [of "\<lambda>net fd n x p. (\<forall>x d y. sc_read net fd MAXLEN x = (d, y) \<longrightarrow> fds y = fds x) \<longrightarrow> fds (snd p) = fds x"
          "(((net, fd), n), x)" p, unfolded prod.case, OF _ that])
       (fastforce split: prod.splits sum.splits if_splits)
  then show "simple_read_loop net fd n x = Some (r, y) \<Longrightarrow> fds y = fds x" using assms by fastforce
qed

lemma select_one_tracks:
  assumes fds: "select_fds net fds" and one: "select_one net fd i (active, x) = Some (active', x')" and eq: "set active = fds x"
  shows "set active' = fds x'"
proof (cases "i = fd")
  case True
  obtain infd x1 where acc: "sc_accept net fd x = (infd, x1)" by fastforce
  note x1 = select_fdsD(1) [OF fds acc]
  obtain r x2 where nb: "set_non_block (net.truncate net) infd x1 = (r, x2)" by fastforce
  have "fds x2 = fds x1"
    using nb select_fdsD(4,5) [OF fds] by (fastforce simp: set_non_block_def net.truncate_def split: prod.splits if_splits)
  with True acc x1 nb one eq show ?thesis
    by (auto simp: select_one_def new_accept_fd_def net.truncate_def fd_set_add_def split: if_splits)
next
  case False
  then obtain n x1 where n: "simple_read_loop (net.truncate net) i 0 x = Some (n, x1)"
    using one by (auto simp: select_one_def simple_read_from_client_def bind_eq_Some_conv)
  have "fds x1 = fds x"
    by (rule read_loop_keeps [OF _ n]) (use select_fdsD(3) [OF fds] in \<open>simp add: net.truncate_def\<close>)
  moreover obtain r x2 where w: "sl_write net i OK_REPLY x1 = (r, x2)" by fastforce
  ultimately show ?thesis using False one n eq select_fdsD(2) [OF fds] select_fdsD(6) [OF fds w]
    by (auto simp: select_one_def simple_read_from_client_def split: if_splits)
qed

lemma select_turn_tracks:
  assumes fds: "select_fds net fds" and turn: "select_turn net fd (active, x) = Some (Some (active', x'))" and eq: "set active = fds x"
  shows "set active' = fds x'"
proof -
  let ?step = "\<lambda>ready i s. if int i \<in> set ready then select_one net fd (int i) s else Some s"
  obtain ready y where sel: "sl_select net active x = (Some ready, y)"
    "foldM (?step ready) [0..<FD_SETSIZE] (active, y) = Some (active', x')"
    using turn by (auto simp: select_turn_def split: prod.splits option.splits)
  have run: "foldM (?step ready) is (a, z) = Some (a', z') \<Longrightarrow> set a = fds z \<Longrightarrow> set a' = fds z'" for "is" a z a' z'
  proof (induction "is" arbitrary: a z)
    case (Cons i "is")
    then obtain a1 z1 where one: "?step ready i (a, z) = Some (a1, z1)" "foldM (?step ready) is (a1, z1) = Some (a', z')"
      by (auto simp: bind_eq_Some_conv)
    have "set a1 = fds z1" using one(1) Cons.prems(2) select_one_tracks [OF fds, of fd "int i" a z a1 z1] by (auto split: if_splits)
    with Cons.IH [OF one(2)] show ?case by blast
  qed auto
  have "set active = fds y" using select_fdsD(7) [OF fds sel(1)] eq by simp
  with run [OF sel(2)] show ?thesis by simp
qed

subsection \<open>What epoll forgets\<close>

text \<open>
  The loop that accepts ends with \<open>infd = -1\<close>: the event for input that follows removes descriptor \<open>-1\<close>
  from the epoll set instead of its own.
\<close>

lemma accept_clients_infd: "accept_clients net fd x = Some r \<Longrightarrow> fst r = -1"
proof -
  show "fst r = -1" if "accept_clients net fd x = Some r"
    by (rule accept_clients.raw_induct [of "\<lambda>net fd x r. fst r = -1" "((net, fd), x)" r, unfolded prod.case, OF _ that]) (auto split: prod.splits if_splits)
qed

lemma input_removes_other:
  assumes "epoll_event net fd (EPOLLIN, fd) (infd, x) = Some (infd', y)" and "c \<noteq> fd"
  shows "epoll_event net fd (EPOLLIN, c) (infd', y) = map_option (Pair (Some c)) (read_client net c (eq_ctl net CTL_Del (-1) 0 y))"
proof -
  have "infd' = Some (-1)"
    using assms(1) accept_clients_infd [of net fd x] by (auto simp: epoll_event_def EPOLLIN_def EPOLLERR_def EPOLLHUP_def bind_eq_Some_conv)
  with assms(2) show ?thesis
    by (simp add: epoll_event_def EPOLLIN_def EPOLLERR_def EPOLLHUP_def map_option_case Option.bind_def split: option.splits)
qed

subsection \<open>The property, and a set of descriptors to see it on\<close>

text \<open>After each turn of the server with select, the descriptors it watches are exactly the open ones: none is
  lost and none is watched after it was closed.\<close>

theorem select_watches_open:
  assumes "select_fds net fds" and "select_turn net fd (active, x) = Some (Some (active', x'))" and "set active = fds x"
  shows "set active' = fds x'"
  by (rule select_turn_tracks [OF assms])

definition fds_net :: "int list sel_net" where
  "fds_net = net.extend (net.truncate (demo_env (\<lambda>x. (1 + sum_list (map abs x), (1 + sum_list (map abs x)) # x)) (\<lambda>fd x. removeAll fd x) LOk))
     (sel_net.fields (\<lambda>a x. (Some a, x)) (\<lambda>_ _ x. (3, x)))"

lemma fds_net_ok: "select_fds fds_net set"
proof -
  have "0 \<le> sum_list (map abs x)" for x :: "int list" by (rule sum_list_nonneg) auto
  then have "\<not> 1 + sum_list (map abs x) < 0" for x :: "int list" by (simp add: not_less add_nonneg_nonneg)
  then show ?thesis by (auto simp: select_fds_def fds_net_def demo_env_def net.defs sel_net.defs)
qed

theorem select_watches_open_witness:
  "\<exists>a x. select_turn fds_net 3 ([3, 5], [3, 5]) = Some (Some (a, x)) \<and> set a = set x \<and> x = [9, 3]"
proof -
  let ?step = "\<lambda>i s. if int i \<in> set [3, 5] then select_one fds_net 3 (int i) s else Some s"
  have skip: "foldM ?step is s = Some s" if "\<And>i. i \<in> set is \<Longrightarrow> i \<noteq> 3 \<and> i \<noteq> 5" for "is" s
    using that by (induction "is") auto
  have list: "[0..<FD_SETSIZE] = [0..<3] @ 3 # [4..<5] @ 5 # [6..<FD_SETSIZE]"
    using upt_add_eq_append [of 0 3 1021] upt_conv_Cons [of 3 1024] upt_conv_Cons [of 4 1024] upt_conv_Cons [of 5 1024] upt_conv_Cons [of 4 5]
    by (simp add: FD_SETSIZE_def)
  have three: "select_one fds_net 3 3 ([3, 5], [3, 5]) = Some ([9, 3, 5], [9, 3, 5])" by code_simp
  have five: "select_one fds_net 3 5 ([9, 3, 5], [9, 3, 5]) = Some ([9, 3], [9, 3])" by code_simp
  have skips: "foldM ?step [0..<3] s = Some s" "foldM ?step [4..<5] s = Some s" "foldM ?step [6..<FD_SETSIZE] s = Some s" for s
    by (rule skip; auto)+
  have steps: "?step 3 ([3, 5], [3, 5]) = Some ([9, 3, 5], [9, 3, 5])" "?step 5 ([9, 3, 5], [9, 3, 5]) = Some ([9, 3], [9, 3])"
    using three five by simp_all
  have "foldM ?step [0..<FD_SETSIZE] ([3, 5], [3, 5]) = Some ([9, 3], [9, 3])"
    by (simp only: list foldM_append foldM.simps skips steps bind.bind_lunit)
  moreover have sel: "sl_select fds_net [3, 5] [3, 5] = (Some [3, 5], [3, 5])" by (simp add: fds_net_def net.defs sel_net.defs)
  ultimately have turn: "select_turn fds_net 3 ([3, 5], [3, 5]) = Some (Some ([9, 3], [9, 3]))"
    by (simp only: select_turn_def Let_def prod.case sel option.case option.map)
  with select_watches_open [OF fds_net_ok turn] show ?thesis by auto
qed

end
