(* ===== verification/Lua_Api.thy ===== *)
theory Lua_Api
  imports Prelude
begin

text \<open>
  What the code calls of the C interface of Lua 5.3. Lua is not part of the program: its functions
  are the parameter \<open>lua_api\<close> of the definitions that use them, over a state \<open>'x\<close> of which nothing
  is known. The reference manual describes them on stacks of values, tables and threads; \<open>lview\<close> is
  that picture and \<open>doc\<close> the manual's description of each function on it. \<open>api_ok\<close> states that the
  functions do to the view of the state what the manual says, or raise an error for want of memory;
  \<open>luaL_loadfile\<close> may also answer \<open>LUA_ERRMEM\<close> and push a message of its own.
\<close>

subsection \<open>Programs over the interface\<close>

text \<open>
  A call returns, or raises a Lua error, that is, jumps to the protected call around it;
  \<open>Undef\<close> is a call about which the manual says nothing.
\<close>

datatype 'a lres = Fine 'a | Raised | Undef

type_synonym ('x, 'a) lprog = "'x \<Rightarrow> 'a lres \<times> 'x"

definition ret :: "'a \<Rightarrow> ('x, 'a) lprog" where
  "ret a x = (Fine a, x)"

definition bnd :: "('x, 'a) lprog \<Rightarrow> ('a \<Rightarrow> ('x, 'b) lprog) \<Rightarrow> ('x, 'b) lprog" where
  "bnd m f x = (case m x of (Fine a, y) \<Rightarrow> f a y | (Raised, y) \<Rightarrow> (Raised, y) | (Undef, y) \<Rightarrow> (Undef, y))"

fun steps :: "('x, unit) lprog list \<Rightarrow> ('x, unit) lprog" where
  "steps [] = ret ()"
| "steps (m # ms) = bnd m (\<lambda>_. steps ms)"

definition undef :: "('x, 'a) lprog" where
  "undef x = (Undef, x)"

text \<open>A program over a part of a larger state.\<close>

definition zoom :: "('s \<Rightarrow> 'x) \<Rightarrow> (('x \<Rightarrow> 'x) \<Rightarrow> 's \<Rightarrow> 's) \<Rightarrow> ('x, 'a) lprog \<Rightarrow> ('s, 'a) lprog" where
  "zoom get upd m s = (let (r, x) = m (get s) in (r, upd (\<lambda>_. x) s))"

text \<open>What a light userdata points to: a C string is named by its characters.\<close>

datatype cptr = NULL_PTR | Block addr | Chars string

datatype lv = V_Nil | V_Int int | V_Str string | V_Light cptr | V_Tab addr | V_Thr addr | V_Ud addr | V_Chunk nat | V_C string

datatype lidx = Idx int | Registry

text \<open>
  \<open>la_push\<close> stands for \<open>lua_pushnil\<close>, \<open>lua_pushinteger\<close>, \<open>lua_pushlightuserdata\<close> and
  \<open>lua_pushcfunction\<close>; \<open>la_pcall\<close> is \<open>lua_pcall\<close> for the C function that was pushed below the
  arguments, given as the program it runs, with its number of results.
\<close>

record 'x lua_api =
  la_push :: "addr \<Rightarrow> lv \<Rightarrow> ('x, unit) lprog"
  la_pushvalue :: "addr \<Rightarrow> lidx \<Rightarrow> ('x, unit) lprog"
  la_pushthread :: "addr \<Rightarrow> ('x, unit) lprog"
  la_pushstring :: "addr \<Rightarrow> string \<Rightarrow> ('x, unit) lprog"
  la_pop :: "addr \<Rightarrow> nat \<Rightarrow> ('x, unit) lprog"
  la_gettop :: "addr \<Rightarrow> ('x, int) lprog"
  la_type :: "addr \<Rightarrow> lidx \<Rightarrow> ('x, int) lprog"
  la_tointeger :: "addr \<Rightarrow> lidx \<Rightarrow> ('x, int) lprog"
  la_tostring :: "addr \<Rightarrow> lidx \<Rightarrow> ('x, string option) lprog"
  la_touserdata :: "addr \<Rightarrow> lidx \<Rightarrow> ('x, cptr) lprog"
  la_tothread :: "addr \<Rightarrow> lidx \<Rightarrow> ('x, ptr) lprog"
  la_checkinteger :: "addr \<Rightarrow> lidx \<Rightarrow> ('x, int) lprog"
  la_checkudata :: "addr \<Rightarrow> lidx \<Rightarrow> string \<Rightarrow> ('x, addr) lprog"
  la_newtable :: "addr \<Rightarrow> ('x, unit) lprog"
  la_newthread :: "addr \<Rightarrow> ('x, unit) lprog"
  la_newuserdata :: "addr \<Rightarrow> ('x, unit) lprog"
  la_gettable :: "addr \<Rightarrow> lidx \<Rightarrow> ('x, unit) lprog"
  la_settable :: "addr \<Rightarrow> lidx \<Rightarrow> ('x, unit) lprog"
  la_getfield :: "addr \<Rightarrow> lidx \<Rightarrow> string \<Rightarrow> ('x, unit) lprog"
  la_setfield :: "addr \<Rightarrow> lidx \<Rightarrow> string \<Rightarrow> ('x, unit) lprog"
  la_getglobal :: "addr \<Rightarrow> string \<Rightarrow> ('x, unit) lprog"
  la_setmetatable :: "addr \<Rightarrow> lidx \<Rightarrow> ('x, unit) lprog"
  la_newmetatable :: "addr \<Rightarrow> string \<Rightarrow> ('x, unit) lprog"
  la_setfuncs :: "addr \<Rightarrow> (string \<times> string) list \<Rightarrow> ('x, unit) lprog"
  la_loadfile :: "addr \<Rightarrow> string \<Rightarrow> ('x, int) lprog"
  la_error :: "addr \<Rightarrow> ('x, unit) lprog"
  la_pcall :: "addr \<Rightarrow> nat \<Rightarrow> nat \<Rightarrow> ('x, int) lprog \<Rightarrow> ('x, int) lprog"

subsection \<open>The picture of the manual\<close>

text \<open>
  A thread has a stack of frames, the running function first; a frame has its size and its
  values, the top first. Tables, threads and userdata are numbered as they are made, so that a
  number names one object for ever. A weak entry may be dropped once its key is garbage; as nothing
  can ask for such a key, the view keeps it. \<open>lw_file\<close> is what loading a file gives: 0 and a
  chunk, or a code and a message.
\<close>

record lview =
  lw_stk :: "addr \<Rightarrow> (nat \<times> lv list) list"
  lw_tab :: "addr \<Rightarrow> lv \<Rightarrow> lv"
  lw_meta :: "addr \<Rightarrow> ptr"
  lw_next :: addr
  lw_reg :: addr
  lw_glob :: addr
  lw_file :: "string \<Rightarrow> int \<times> lv"

definition frame :: "addr \<Rightarrow> lview \<Rightarrow> lv list" where
  "frame L w = (case lw_stk w L of [] \<Rightarrow> [] | (_, vs) # _ \<Rightarrow> vs)"

definition set_frame :: "addr \<Rightarrow> lv list \<Rightarrow> lview \<Rightarrow> lview" where
  "set_frame L vs w = w\<lparr>lw_stk := (lw_stk w)(L := (case lw_stk w L of [] \<Rightarrow> [] | (n, _) # fs \<Rightarrow> (n, vs) # fs))\<rparr>"

definition room :: "addr \<Rightarrow> lview \<Rightarrow> nat" where
  "room L w = (case lw_stk w L of [] \<Rightarrow> 0 | (n, vs) # _ \<Rightarrow> n - length vs)"

definition slot_of :: "lv list \<Rightarrow> int \<Rightarrow> nat option" where
  "slot_of vs i = (if 0 < i \<and> i \<le> int (length vs) then Some (length vs - nat i)
     else if i < 0 \<and> - i \<le> int (length vs) then Some (nat (- i) - 1) else None)"

definition lua_at :: "addr \<Rightarrow> lidx \<Rightarrow> lview \<Rightarrow> lv option" where
  "lua_at L i w = (case i of Registry \<Rightarrow> Some (V_Tab (lw_reg w)) | Idx i \<Rightarrow> map_option ((!) (frame L w)) (slot_of (frame L w) i))"

definition has_meta :: "addr \<Rightarrow> string \<Rightarrow> lview \<Rightarrow> bool" where
  "has_meta t ev w \<longleftrightarrow> (case lw_meta w t of None \<Rightarrow> False | Some m \<Rightarrow> lw_tab w m (V_Str ev) \<noteq> V_Nil)"

definition LUA_TNIL :: int where "LUA_TNIL = 0"
definition LUA_TLIGHTUSERDATA :: int where "LUA_TLIGHTUSERDATA = 2"

definition lua_type :: "lv \<Rightarrow> int" where
  "lua_type v = (case v of V_Nil \<Rightarrow> LUA_TNIL | V_Light _ \<Rightarrow> LUA_TLIGHTUSERDATA | V_Int _ \<Rightarrow> 3 | V_Str _ \<Rightarrow> 4 | V_Tab _ \<Rightarrow> 5
     | V_Chunk _ \<Rightarrow> 6 | V_C _ \<Rightarrow> 6 | V_Ud _ \<Rightarrow> 7 | V_Thr _ \<Rightarrow> 8)"

definition d_push :: "addr \<Rightarrow> lv \<Rightarrow> (lview, unit) lprog" where
  "d_push L v w = (if 0 < room L w then (Fine (), set_frame L (v # frame L w) w) else (Undef, w))"

definition d_value :: "addr \<Rightarrow> lidx \<Rightarrow> (lv \<Rightarrow> ('a lres)) \<Rightarrow> (lview, 'a) lprog" where
  "d_value L i f w = (case lua_at L i w of None \<Rightarrow> (Undef, w) | Some v \<Rightarrow> (f v, w))"

text \<open>Values without a metatable cannot be indexed; of strings and userdata nothing is said here.\<close>

definition d_index :: "lv \<Rightarrow> lv \<Rightarrow> lview \<Rightarrow> lv lres" where
  "d_index v k w = (case v of
       V_Tab t \<Rightarrow> if lw_tab w t k = V_Nil \<and> has_meta t ''__index'' w then Undef else Fine (lw_tab w t k)
     | V_Nil \<Rightarrow> Raised | V_Light _ \<Rightarrow> Raised | _ \<Rightarrow> Undef)"

definition d_assign :: "lv \<Rightarrow> lv \<Rightarrow> lv \<Rightarrow> (lview, unit) lprog" where
  "d_assign v k u w = (case v of
       V_Tab t \<Rightarrow> if lw_tab w t k = V_Nil \<and> has_meta t ''__newindex'' w then (Undef, w)
                 else if k = V_Nil then (Raised, w)
                 else (Fine (), w\<lparr>lw_tab := (lw_tab w)(t := (lw_tab w t)(k := u))\<rparr>)
     | V_Ud a \<Rightarrow> if has_meta a ''__newindex'' w then (Undef, w) else (Raised, w)
     | V_Nil \<Rightarrow> (Raised, w) | V_Light _ \<Rightarrow> (Raised, w) | _ \<Rightarrow> (Undef, w))"

definition d_new :: "addr \<Rightarrow> (addr \<Rightarrow> lv) \<Rightarrow> (addr \<Rightarrow> lview \<Rightarrow> lview) \<Rightarrow> (lview, unit) lprog" where
  "d_new L v f w = d_push L (v (lw_next w)) (f (lw_next w) (w\<lparr>lw_next := lw_next w + 1\<rparr>))"

definition new_tab :: "(lv \<Rightarrow> lv) \<Rightarrow> addr \<Rightarrow> lview \<Rightarrow> lview" where
  "new_tab c a w = w\<lparr>lw_tab := (lw_tab w)(a := c), lw_meta := (lw_meta w)(a := None)\<rparr>"


definition d_gettable :: "addr \<Rightarrow> lidx \<Rightarrow> (lview, unit) lprog" where
  "d_gettable L i w = (case (lua_at L i w, frame L w) of
       (Some v, k # vs) \<Rightarrow> (case d_index v k w of
           Fine u \<Rightarrow> (Fine (), set_frame L (u # vs) w) | Raised \<Rightarrow> (Raised, w) | Undef \<Rightarrow> (Undef, w))
     | _ \<Rightarrow> (Undef, w))"

definition d_settable :: "addr \<Rightarrow> lidx \<Rightarrow> (lview, unit) lprog" where
  "d_settable L i w = (case (lua_at L i w, frame L w) of
       (Some v, u # k # vs) \<Rightarrow> d_assign v k u (set_frame L vs w)
     | _ \<Rightarrow> (Undef, w))"

definition d_getfield :: "addr \<Rightarrow> lidx \<Rightarrow> string \<Rightarrow> (lview, unit) lprog" where
  "d_getfield L i s w = (case lua_at L i w of
       Some v \<Rightarrow> (case d_index v (V_Str s) w of Fine u \<Rightarrow> d_push L u w | Raised \<Rightarrow> (Raised, w) | Undef \<Rightarrow> (Undef, w))
     | None \<Rightarrow> (Undef, w))"

definition d_getglobal :: "addr \<Rightarrow> string \<Rightarrow> (lview, unit) lprog" where
  "d_getglobal L s w = (case d_index (V_Tab (lw_glob w)) (V_Str s) w of
       Fine u \<Rightarrow> d_push L u w | Raised \<Rightarrow> (Raised, w) | Undef \<Rightarrow> (Undef, w))"

definition d_setfield :: "addr \<Rightarrow> lidx \<Rightarrow> string \<Rightarrow> (lview, unit) lprog" where
  "d_setfield L i s w = (case (lua_at L i w, frame L w) of
       (Some v, u # vs) \<Rightarrow> d_assign v (V_Str s) u (set_frame L vs w)
     | _ \<Rightarrow> (Undef, w))"

definition d_setmetatable :: "addr \<Rightarrow> lidx \<Rightarrow> (lview, unit) lprog" where
  "d_setmetatable L i w = (case (lua_at L i w, frame L w) of
       (Some (V_Tab t), V_Tab m # vs) \<Rightarrow> (Fine (), (set_frame L vs w)\<lparr>lw_meta := (lw_meta w)(t := Some m)\<rparr>)
     | (Some (V_Ud t), V_Tab m # vs) \<Rightarrow> (Fine (), (set_frame L vs w)\<lparr>lw_meta := (lw_meta w)(t := Some m)\<rparr>)
     | (Some (V_Ud t), V_Nil # vs) \<Rightarrow> (Fine (), (set_frame L vs w)\<lparr>lw_meta := (lw_meta w)(t := None)\<rparr>)
     | _ \<Rightarrow> (Undef, w))"

definition d_newmetatable :: "addr \<Rightarrow> string \<Rightarrow> (lview, unit) lprog" where
  "d_newmetatable L s w = (
     let t = lw_tab w (lw_reg w) (V_Str s)
     in if t \<noteq> V_Nil then d_push L t w
        else d_new L V_Tab (\<lambda>a w. let w = new_tab ((\<lambda>_. V_Nil)(V_Str ''__name'' := V_Str s)) a w
               in w\<lparr>lw_tab := (lw_tab w)(lw_reg w := (lw_tab w (lw_reg w))(V_Str s := V_Tab a))\<rparr>) w)"

text \<open>Userdata whose metatable is the one registered under a name.\<close>

definition d_checkudata :: "addr \<Rightarrow> lidx \<Rightarrow> string \<Rightarrow> (lview, addr) lprog" where
  "d_checkudata L i s w = (case lua_at L i w of
       Some (V_Ud a) \<Rightarrow> (case lw_meta w a of
           Some m \<Rightarrow> if lw_tab w (lw_reg w) (V_Str s) = V_Tab m then (Fine a, w) else (Raised, w)
         | None \<Rightarrow> (Raised, w))
     | _ \<Rightarrow> (Raised, w))"

text \<open>Registers C functions, each with the name it gets, in the table on top.\<close>

definition d_setfuncs :: "addr \<Rightarrow> (string \<times> string) list \<Rightarrow> (lview, unit) lprog" where
  "d_setfuncs L fs w = (case frame L w of
       V_Tab t # vs \<Rightarrow> if has_meta t ''__newindex'' w then (Undef, w)
         else (Fine (), w\<lparr>lw_tab := (lw_tab w)(t := fold (\<lambda>(f, c) t. t(V_Str f := V_C c)) fs (lw_tab w t))\<rparr>)
     | _ \<Rightarrow> (Undef, w))"

definition LUA_OK :: int where "LUA_OK = 0"

definition LUA_MINSTACK :: nat where "LUA_MINSTACK = 20"

text \<open>The frame of a function that is called with the \<open>n\<close> values on top, above the function itself.\<close>

definition enter :: "addr \<Rightarrow> nat \<Rightarrow> lview \<Rightarrow> lview" where
  "enter L n w = w\<lparr>lw_stk := (lw_stk w)(L := (case lw_stk w L of
       [] \<Rightarrow> [] | (lim, vs) # fs \<Rightarrow> (n + LUA_MINSTACK, take n vs) # (lim, drop (n + 1) vs) # fs))\<rparr>"

definition leave :: "addr \<Rightarrow> lv list \<Rightarrow> lview \<Rightarrow> lview" where
  "leave L vs w = w\<lparr>lw_stk := (lw_stk w)(L := (case tl (lw_stk w L) of [] \<Rightarrow> [] | (lim, us) # fs \<Rightarrow> (lim, vs @ us) # fs))\<rparr>"

text \<open>The last \<open>k\<close> values, cut or filled up with nil to \<open>r\<close>.\<close>

definition results :: "nat \<Rightarrow> nat \<Rightarrow> lv list \<Rightarrow> lv list" where
  "results k r vs = rev (take r (rev (take k vs) @ replicate r V_Nil))"

definition d_pcall :: "addr \<Rightarrow> nat \<Rightarrow> nat \<Rightarrow> (lview, int) lprog \<Rightarrow> (lview, int) lprog" where
  "d_pcall L n r f w = (
     if length (frame L w) \<le> n then (Undef, w)
     else case f (enter L n w) of
         (Fine k, w) \<Rightarrow> if 0 \<le> k \<and> k \<le> int (length (frame L w)) then (Fine LUA_OK, leave L (results (nat k) r (frame L w)) w) else (Undef, w)
       | (Raised, w) \<Rightarrow> (Fine 2, leave L [V_Str ''error''] w)
       | (Undef, w) \<Rightarrow> (Undef, w))"

definition doc :: "lview lua_api" where
  "doc = \<lparr>
     la_push = d_push,
     la_pushvalue = (\<lambda>L i w. case lua_at L i w of Some v \<Rightarrow> d_push L v w | None \<Rightarrow> (Undef, w)),
     la_pushthread = (\<lambda>L. d_push L (V_Thr L)),
     la_pushstring = (\<lambda>L s. d_push L (V_Str s)),
     la_pop = (\<lambda>L n w. if n \<le> length (frame L w) then (Fine (), set_frame L (drop n (frame L w)) w) else (Undef, w)),
     la_gettop = (\<lambda>L w. (Fine (int (length (frame L w))), w)),
     la_type = (\<lambda>L i. d_value L i (\<lambda>v. Fine (lua_type v))),
     la_tointeger = (\<lambda>L i. d_value L i (\<lambda>v. case v of V_Int n \<Rightarrow> Fine n | V_Str _ \<Rightarrow> Undef | _ \<Rightarrow> Fine 0)),
     la_tostring = (\<lambda>L i. d_value L i (\<lambda>v. case v of V_Str s \<Rightarrow> Fine (Some s) | V_Int _ \<Rightarrow> Undef | _ \<Rightarrow> Fine None)),
     la_touserdata = (\<lambda>L i. d_value L i (\<lambda>v. Fine (case v of V_Light p \<Rightarrow> p | V_Ud a \<Rightarrow> Block a | _ \<Rightarrow> NULL_PTR))),
     la_tothread = (\<lambda>L i. d_value L i (\<lambda>v. Fine (case v of V_Thr T \<Rightarrow> Some T | _ \<Rightarrow> None))),
     la_checkinteger = (\<lambda>L i w. case lua_at L i w of Some (V_Int n) \<Rightarrow> (Fine n, w) | Some (V_Str _) \<Rightarrow> (Undef, w) | _ \<Rightarrow> (Raised, w)),
     la_checkudata = d_checkudata,
     la_newtable = (\<lambda>L. d_new L V_Tab (new_tab (\<lambda>_. V_Nil))),
     la_newthread = (\<lambda>L. d_new L V_Thr (\<lambda>T w. w\<lparr>lw_stk := (lw_stk w)(T := [(LUA_MINSTACK, [])])\<rparr>)),
     la_newuserdata = (\<lambda>L. d_new L V_Ud (\<lambda>a w. w\<lparr>lw_meta := (lw_meta w)(a := None)\<rparr>)),
     la_gettable = d_gettable,
     la_settable = d_settable,
     la_getfield = d_getfield,
     la_setfield = d_setfield,
     la_getglobal = d_getglobal,
     la_setmetatable = d_setmetatable,
     la_newmetatable = d_newmetatable,
     la_setfuncs = d_setfuncs,
     la_loadfile = (\<lambda>L s w. case d_push L (snd (lw_file w s)) w of
         (Fine _, w) \<Rightarrow> (Fine (fst (lw_file w s)), w) | (_, w) \<Rightarrow> (Undef, w)),
     la_error = (\<lambda>L w. (Raised, w)),
     la_pcall = d_pcall\<rparr>"

subsection \<open>Doing what the manual says\<close>

text \<open>What no call on thread \<open>L\<close> touches: the older frames and the threads that exist.\<close>

definition kept :: "addr \<Rightarrow> lview \<Rightarrow> lview \<Rightarrow> bool" where
  "kept L w w' \<longleftrightarrow> lw_next w \<le> lw_next w' \<and> lw_reg w' = lw_reg w \<and> lw_glob w' = lw_glob w \<and> lw_file w' = lw_file w
     \<and> map fst (lw_stk w' L) = map fst (lw_stk w L) \<and> tl (lw_stk w' L) = tl (lw_stk w L)
     \<and> (\<forall>T. T \<noteq> L \<and> T < lw_next w \<longrightarrow> lw_stk w' T = lw_stk w T)"

definition exactly :: "('x \<Rightarrow> lview) \<Rightarrow> addr \<Rightarrow> ('x, 'a) lprog \<Rightarrow> (lview, 'a) lprog \<Rightarrow> bool" where
  "exactly view L m s \<longleftrightarrow> (\<forall>x r w. s (view x) = (r, w) \<longrightarrow> r \<noteq> Undef \<longrightarrow> L < lw_next (view x) \<longrightarrow> (\<exists>y. m x = (r, y) \<and> view y = w))"

definition keeps :: "addr \<Rightarrow> (lview, 'a) lprog \<Rightarrow> bool" where
  "keeps L s \<longleftrightarrow> (\<forall>w r w'. s w = (r, w') \<longrightarrow> r \<noteq> Undef \<longrightarrow> L < lw_next w \<longrightarrow> kept L w w')"

definition follows :: "('x \<Rightarrow> lview) \<Rightarrow> addr \<Rightarrow> ('x, 'a) lprog \<Rightarrow> (lview, 'a) lprog \<Rightarrow> bool" where
  "follows view L m s \<longleftrightarrow> keeps L s \<and> (\<forall>x r w. s (view x) = (r, w) \<longrightarrow> r \<noteq> Undef \<longrightarrow> L < lw_next (view x) \<longrightarrow>
     (\<exists>r' y. m x = (r', y) \<and> (r' = r \<and> view y = w \<or> r' = Raised \<and> kept L (view x) (view y))))"

text \<open>
  A program that does one of several things the manual allows: in every state one of the family
  \<open>s\<close>, or it raises an error.
\<close>

definition follows_one :: "('x \<Rightarrow> lview) \<Rightarrow> addr \<Rightarrow> ('x, 'a) lprog \<Rightarrow> ('i \<Rightarrow> (lview, 'a) lprog) \<Rightarrow> bool" where
  "follows_one view L m s \<longleftrightarrow> (\<forall>i. keeps L (s i)) \<and> (\<forall>x. \<exists>i. \<forall>r w. s i (view x) = (r, w) \<longrightarrow> r \<noteq> Undef \<longrightarrow> L < lw_next (view x) \<longrightarrow>
     (\<exists>r' y. m x = (r', y) \<and> (r' = r \<and> view y = w \<or> r' = Raised \<and> kept L (view x) (view y))))"

text \<open>
  \<open>luaL_loadfile\<close> loads the file, or gives \<open>LUA_ERRMEM\<close> and pushes a message: it has a protected
  call of its own around the reading and the compiling.
\<close>

definition LUA_ERRMEM :: int where "LUA_ERRMEM = 4"

definition loading :: "addr \<Rightarrow> string \<Rightarrow> string option \<Rightarrow> (lview, int) lprog" where
  "loading L s short = (case short of
       None \<Rightarrow> la_loadfile doc L s
     | Some e \<Rightarrow> bnd (d_push L (V_Str e)) (\<lambda>_. ret LUA_ERRMEM))"

text \<open>
  A protected call of a function that does what the manual says: it may always fail for want of
  memory, with a message in place of the function and its arguments.
\<close>

definition protects_at :: "('x \<Rightarrow> lview) \<Rightarrow> addr \<Rightarrow> nat \<Rightarrow> 'x \<Rightarrow> ('x, int) lprog \<Rightarrow> (lview, int) lprog \<Rightarrow> bool" where
  "protects_at view L n x m s \<longleftrightarrow> (\<forall>c w. s (view x) = (Fine c, w) \<longrightarrow> L < lw_next (view x) \<longrightarrow> (\<exists>c' y. m x = (Fine c', y)
     \<and> (c = LUA_OK \<and> c' = LUA_OK \<and> view y = w
       \<or> c' \<noteq> LUA_OK \<and> kept L (view x) (view y) \<and> (\<exists>e. frame L (view y) = e # drop (n + 1) (frame L (view x))))))"

definition protects :: "('x \<Rightarrow> lview) \<Rightarrow> addr \<Rightarrow> nat \<Rightarrow> ('x, int) lprog \<Rightarrow> ('i \<Rightarrow> (lview, int) lprog) \<Rightarrow> bool" where
  "protects view L n m s \<longleftrightarrow> (\<forall>x. \<exists>i. protects_at view L n x m (s i))"

definition api_ok :: "('x \<Rightarrow> lview) \<Rightarrow> 'x lua_api \<Rightarrow> bool" where
  "api_ok view A \<longleftrightarrow>
     (\<forall>L v. exactly view L (la_push A L v) (la_push doc L v)) \<and> (\<forall>L i. exactly view L (la_pushvalue A L i) (la_pushvalue doc L i))
     \<and> (\<forall>L. exactly view L (la_pushthread A L) (la_pushthread doc L)) \<and> (\<forall>L n. exactly view L (la_pop A L n) (la_pop doc L n))
     \<and> (\<forall>L. exactly view L (la_gettop A L) (la_gettop doc L)) \<and> (\<forall>L i. exactly view L (la_type A L i) (la_type doc L i))
     \<and> (\<forall>L i. exactly view L (la_tointeger A L i) (la_tointeger doc L i))
     \<and> (\<forall>L i. exactly view L (la_touserdata A L i) (la_touserdata doc L i)) \<and> (\<forall>L i. exactly view L (la_tothread A L i) (la_tothread doc L i))
     \<and> (\<forall>L i. exactly view L (la_setmetatable A L i) (la_setmetatable doc L i)) \<and> (\<forall>L. exactly view L (la_error A L) (la_error doc L))
     \<and> (\<forall>L s. follows view L (la_pushstring A L s) (la_pushstring doc L s)) \<and> (\<forall>L i. follows view L (la_tostring A L i) (la_tostring doc L i))
     \<and> (\<forall>L. follows view L (la_newtable A L) (la_newtable doc L)) \<and> (\<forall>L. follows view L (la_newthread A L) (la_newthread doc L))
     \<and> (\<forall>L. follows view L (la_newuserdata A L) (la_newuserdata doc L)) \<and> (\<forall>L i. follows view L (la_gettable A L i) (la_gettable doc L i))
     \<and> (\<forall>L i. follows view L (la_settable A L i) (la_settable doc L i)) \<and> (\<forall>L i s. follows view L (la_getfield A L i s) (la_getfield doc L i s))
     \<and> (\<forall>L i s. follows view L (la_setfield A L i s) (la_setfield doc L i s)) \<and> (\<forall>L s. follows view L (la_getglobal A L s) (la_getglobal doc L s))
     \<and> (\<forall>L s. follows view L (la_newmetatable A L s) (la_newmetatable doc L s)) \<and> (\<forall>L fs. follows view L (la_setfuncs A L fs) (la_setfuncs doc L fs))
     \<and> (\<forall>L i. follows view L (la_checkinteger A L i) (la_checkinteger doc L i)) \<and> (\<forall>L i s. follows view L (la_checkudata A L i s) (la_checkudata doc L i s))
     \<and> (\<forall>L s. follows_one view L (la_loadfile A L s) (loading L s))
     \<and> (\<forall>L n r f (g :: string option \<Rightarrow> (lview, int) lprog). follows_one view L f g \<longrightarrow> protects view L n (la_pcall A L n r f) (\<lambda>i. la_pcall doc L n r (g i)))"


subsection \<open>Frames\<close>

lemma frame_set_frame [simp]: "lw_stk w L \<noteq> [] \<Longrightarrow> frame L (set_frame L vs w) = vs"
  by (auto simp: frame_def set_frame_def split: list.splits)

lemma room_set_frame [simp]: "lw_stk w L \<noteq> [] \<Longrightarrow> room L (set_frame L vs w) = fst (hd (lw_stk w L)) - length vs"
  by (auto simp: room_def set_frame_def split: list.splits)

lemma room_pos: "0 < room L w \<Longrightarrow> lw_stk w L \<noteq> []"
  by (auto simp: room_def split: list.splits)

lemma set_frame_same [simp]: "set_frame L us (set_frame L vs w) = set_frame L us w"
  by (auto simp: set_frame_def split: list.splits)

lemma set_frame_frame [simp]: "set_frame L (frame L w) w = w"
  by (cases w) (auto simp: set_frame_def frame_def fun_upd_idem_iff split: list.splits)

lemma set_frame_simps [simp]:
  "lw_tab (set_frame L vs w) = lw_tab w" "lw_meta (set_frame L vs w) = lw_meta w" "lw_next (set_frame L vs w) = lw_next w"
  "lw_reg (set_frame L vs w) = lw_reg w" "lw_glob (set_frame L vs w) = lw_glob w" "lw_file (set_frame L vs w) = lw_file w"
  "lw_stk (set_frame L vs w) L = [] \<longleftrightarrow> lw_stk w L = []" "tl (lw_stk (set_frame L vs w) L) = tl (lw_stk w L)"
  "map fst (lw_stk (set_frame L vs w) L) = map fst (lw_stk w L)" "T \<noteq> L \<Longrightarrow> lw_stk (set_frame L vs w) T = lw_stk w T"
  by (auto simp: set_frame_def split: list.splits)

lemma frame_upd [simp]:
  "frame L (w\<lparr>lw_tab := t\<rparr>) = frame L w" "frame L (w\<lparr>lw_meta := m\<rparr>) = frame L w" "frame L (w\<lparr>lw_next := n\<rparr>) = frame L w"
  "room L (w\<lparr>lw_tab := t\<rparr>) = room L w" "room L (w\<lparr>lw_meta := m\<rparr>) = room L w" "room L (w\<lparr>lw_next := n\<rparr>) = room L w"
  by (simp_all add: frame_def room_def)

subsection \<open>Programs that keep what is not theirs\<close>

named_theorems kept_intros

lemma kept_refl [simp]: "kept L w w"
  by (simp add: kept_def)

lemma kept_trans [trans]: "kept L u v \<Longrightarrow> kept L v w \<Longrightarrow> kept L u w"
  by (auto simp: kept_def)

lemma kept_set_frame [simp, kept_intros]: "kept L w (set_frame L vs w)"
  by (simp add: kept_def)

lemma kept_tabs [simp, kept_intros]: "kept L w (w\<lparr>lw_tab := t\<rparr>)" "kept L w (w\<lparr>lw_meta := m\<rparr>)"
  by (simp_all add: kept_def)

lemma keepsD: "keeps L s \<Longrightarrow> s w = (r, w') \<Longrightarrow> r \<noteq> Undef \<Longrightarrow> L < lw_next w \<Longrightarrow> kept L w w'"
  by (auto simp: keeps_def)

lemma exactlyD: "exactly view L m s \<Longrightarrow> s (view x) = (r, w) \<Longrightarrow> r \<noteq> Undef \<Longrightarrow> L < lw_next (view x) \<Longrightarrow> \<exists>y. m x = (r, y) \<and> view y = w"
  unfolding exactly_def by blast

lemma followsD:
  assumes "follows view L m s" and "s (view x) = (r, w)" and "r \<noteq> Undef" and "L < lw_next (view x)"
  obtains r' y where "m x = (r', y)" and "kept L (view x) (view y)" and "r' = r \<and> view y = w \<or> r' = Raised"
  using assms keepsD unfolding follows_def by metis

lemma followsI:
  assumes "keeps L s" and "\<And>x r w. s (view x) = (r, w) \<Longrightarrow> r \<noteq> Undef \<Longrightarrow> L < lw_next (view x) \<Longrightarrow>
    \<exists>r' y. m x = (r', y) \<and> (r' = r \<and> view y = w \<or> r' = Raised \<and> kept L (view x) (view y))"
  shows "follows view L m s"
  using assms unfolding follows_def by blast

lemma follows_keeps: "follows view L m s \<Longrightarrow> keeps L s"
  by (simp add: follows_def)

lemma follows_exactly: "exactly view L m s \<Longrightarrow> keeps L s \<Longrightarrow> follows view L m s"
  unfolding follows_def using exactlyD by metis

lemma bnd_simps [simp]:
  "m x = (Fine a, y) \<Longrightarrow> bnd m f x = f a y" "m x = (Raised, y) \<Longrightarrow> bnd m f x = (Raised, y)" "m x = (Undef, y) \<Longrightarrow> bnd m f x = (Undef, y)"
  by (simp_all add: bnd_def)

lemma bndE:
  assumes "bnd m f x = (r, w)" and "r \<noteq> Undef"
  obtains a y where "m x = (Fine a, y)" and "f a y = (r, w)" | "m x = (Raised, w)" and "r = Raised"
  using assms by (auto simp: bnd_def split: prod.splits lres.splits)

lemma kept_next: "kept L w w' \<Longrightarrow> L < lw_next w \<Longrightarrow> L < lw_next w'"
  by (auto simp: kept_def)

lemma bnd_keeps [kept_intros]:
  assumes "keeps L m" and "\<And>a. keeps L (f a)"
  shows "keeps L (bnd m f)"
  unfolding keeps_def
proof (intro allI impI)
  fix w r w' assume run: "bnd m f w = (r, w')" "r \<noteq> Undef" and L: "L < lw_next w"
  from run show "kept L w w'"
  proof (rule bndE)
    fix a y assume "m w = (Fine a, y)" "f a y = (r, w')"
    moreover from this have "kept L w y" using keepsD [OF assms(1)] L by blast
    ultimately show ?thesis using keepsD [OF assms(2)] run(2) kept_next [OF _ L] kept_trans by metis
  qed (use keepsD [OF assms(1)] L in blast)
qed

lemma ret_keeps [kept_intros]: "keeps L (ret a)"
  by (simp add: keeps_def ret_def)

lemma undef_keeps [kept_intros]: "keeps L undef"
  by (simp add: keeps_def undef_def)

lemma steps_keeps [kept_intros]: "(\<And>m. m \<in> set ms \<Longrightarrow> keeps L m) \<Longrightarrow> keeps L (steps ms)"
  by (induction ms) (auto intro!: kept_intros)

text \<open>The functions of the interface, one after the other.\<close>

lemma d_push_keeps [kept_intros]: "keeps L (d_push L v)"
  by (auto simp: keeps_def d_push_def split: if_splits)

lemma d_value_keeps [kept_intros]: "keeps L (d_value L i f)"
  by (auto simp: keeps_def d_value_def split: option.splits)

lemma d_assign_keeps: "d_assign v k u w = (r, w') \<Longrightarrow> r \<noteq> Undef \<Longrightarrow> kept L w w'"
  by (auto simp: d_assign_def split: lv.splits if_splits)

lemma d_new_keeps:
  assumes "\<And>a w. L < a \<Longrightarrow> lw_next w = a + 1 \<Longrightarrow> kept L (w\<lparr>lw_next := a\<rparr>) (f a w)"
  shows "keeps L (d_new L v f)"
  unfolding keeps_def
proof (intro allI impI)
  fix w :: lview and r w' assume run: "d_new L v f w = (r, w')" "r \<noteq> Undef" and L: "L < lw_next w"
  have one: "kept L w (f (lw_next w) (w\<lparr>lw_next := lw_next w + 1\<rparr>))"
    using assms [OF L, of "w\<lparr>lw_next := lw_next w + 1\<rparr>"] by simp
  show "kept L w w'"
    using kept_trans [OF one keepsD [OF d_push_keeps, OF run(1) [unfolded d_new_def] run(2) kept_next [OF one L]]] .
qed

lemma d_gettable_keeps [kept_intros]: "keeps L (d_gettable L i)"
  by (auto simp: keeps_def d_gettable_def split: option.splits list.splits lres.splits)

lemma d_settable_keeps [kept_intros]: "keeps L (d_settable L i)"
  unfolding keeps_def d_settable_def
  by (auto split: option.splits list.splits intro: kept_trans [OF kept_set_frame d_assign_keeps])

lemma d_setfield_keeps [kept_intros]: "keeps L (d_setfield L i s)"
  unfolding keeps_def d_setfield_def
  by (auto split: option.splits list.splits intro: kept_trans [OF kept_set_frame d_assign_keeps])

lemma d_getfield_keeps [kept_intros]: "keeps L (d_getfield L i s)"
  by (auto simp: keeps_def d_getfield_def d_push_def split: option.splits lres.splits if_splits)

lemma d_getglobal_keeps [kept_intros]: "keeps L (d_getglobal L s)"
  by (auto simp: keeps_def d_getglobal_def d_push_def split: option.splits lres.splits if_splits)

lemma d_setmetatable_keeps [kept_intros]: "keeps L (d_setmetatable L i)"
  by (auto simp: keeps_def d_setmetatable_def split: option.splits list.splits lv.splits intro: kept_trans [OF kept_set_frame kept_tabs(2)])

lemma new_tab_kept: "lw_next w = a + 1 \<Longrightarrow> kept L (w\<lparr>lw_next := a\<rparr>) (new_tab c a w)"
  by (simp add: kept_def new_tab_def)

lemma d_newmetatable_keeps [kept_intros]: "keeps L (d_newmetatable L s)"
proof -
  let ?f = "\<lambda>a w. let w = new_tab ((\<lambda>_. V_Nil)(V_Str ''__name'' := V_Str s)) a w
     in w\<lparr>lw_tab := (lw_tab w)(lw_reg w := (lw_tab w (lw_reg w))(V_Str s := V_Tab a))\<rparr>"
  have "kept L (w\<lparr>lw_next := a\<rparr>) (?f a w)" if "lw_next w = a + 1" for a :: addr and w
    using kept_trans [OF new_tab_kept [OF that] kept_tabs(1)] by (simp add: Let_def)
  then have new: "keeps L (d_new L V_Tab ?f)" by (intro d_new_keeps)
  show ?thesis unfolding keeps_def
  proof (intro allI impI)
    fix w r w' assume "d_newmetatable L s w = (r, w')" "r \<noteq> Undef" "L < lw_next w"
    then show "kept L w w'" using keepsD [OF new, of w] keepsD [OF d_push_keeps, of _ _ w]
      by (auto simp: d_newmetatable_def Let_def split: if_splits)
  qed
qed

lemma d_setfuncs_keeps [kept_intros]: "keeps L (d_setfuncs L fs)"
  by (auto simp: keeps_def d_setfuncs_def split: list.splits lv.splits if_splits)

lemma doc_keeps [kept_intros]:
  "keeps L (la_push doc L v)" "keeps L (la_pushvalue doc L i)" "keeps L (la_pushthread doc L)" "keeps L (la_pushstring doc L s)"
  "keeps L (la_pop doc L n)" "keeps L (la_gettop doc L)" "keeps L (la_type doc L i)"
  "keeps L (la_tointeger doc L i)" "keeps L (la_tostring doc L i)" "keeps L (la_touserdata doc L i)" "keeps L (la_tothread doc L i)"
  "keeps L (la_newtable doc L)" "keeps L (la_newthread doc L)" "keeps L (la_newuserdata doc L)" "keeps L (la_gettable doc L i)"
  "keeps L (la_settable doc L i)" "keeps L (la_getfield doc L i s)" "keeps L (la_setfield doc L i s)" "keeps L (la_getglobal doc L s)"
  "keeps L (la_setmetatable doc L i)" "keeps L (la_newmetatable doc L s)" "keeps L (la_setfuncs doc L fs)" "keeps L (la_loadfile doc L s)" "keeps L (la_error doc L)"
  "keeps L (la_checkinteger doc L i)" "keeps L (la_checkudata doc L i s)"
proof -
  show "keeps L (la_pushvalue doc L i)"
    unfolding keeps_def doc_def by (auto split: option.splits dest: keepsD [OF d_push_keeps])
  show "keeps L (la_newtable doc L)" using d_new_keeps [of L "new_tab (\<lambda>_. V_Nil)" V_Tab] new_tab_kept by (simp add: doc_def)
  show "keeps L (la_newthread doc L)"
    using d_new_keeps [of L "\<lambda>T w. w\<lparr>lw_stk := (lw_stk w)(T := [(LUA_MINSTACK, [])])\<rparr>" V_Thr] by (simp add: doc_def kept_def)
  show "keeps L (la_newuserdata doc L)" using d_new_keeps [of L "\<lambda>a w. w\<lparr>lw_meta := (lw_meta w)(a := None)\<rparr>" V_Ud] by (simp add: doc_def kept_def)
  show "keeps L (la_checkinteger doc L i)" "keeps L (la_checkudata doc L i s)"
    by (auto simp: keeps_def doc_def d_checkudata_def split: option.splits lv.splits if_splits)
  show "keeps L (la_loadfile doc L s)"
    unfolding keeps_def doc_def by (auto split: prod.splits lres.splits dest: keepsD [OF d_push_keeps])
  show "keeps L (la_pop doc L n)" "keeps L (la_gettop doc L)" "keeps L (la_error doc L)"
    by (auto simp: keeps_def doc_def split: if_splits)
qed (simp_all add: doc_def kept_intros)

subsection \<open>Sequences\<close>

named_theorems follow_intros

lemma follows_bnd [follow_intros]:
  assumes m: "follows view L m s" and f: "\<And>a. follows view L (f a) (g a)"
  shows "follows view L (bnd m f) (bnd s g)"
proof (rule followsI)
  show "keeps L (bnd s g)" using follows_keeps [OF m] follows_keeps [OF f] by (rule bnd_keeps)
next
  fix x r w assume run: "bnd s g (view x) = (r, w)" "r \<noteq> Undef" and L: "L < lw_next (view x)"
  from run show "\<exists>r' y. bnd m f x = (r', y) \<and> (r' = r \<and> view y = w \<or> r' = Raised \<and> kept L (view x) (view y))"
  proof (rule bndE)
    fix a v assume s: "s (view x) = (Fine a, v)" and g: "g a v = (r, w)"
    from followsD [OF m s _ L] obtain r' y where y: "m x = (r', y)" "kept L (view x) (view y)" "r' = Fine a \<and> view y = v \<or> r' = Raised"
      by blast
    show ?thesis
    proof (cases "r' = Raised")
      case False
      then have y': "r' = Fine a" "view y = v" using y(3) by auto
      obtain r2 z where "f a y = (r2, z)" "kept L (view y) (view z)" "r2 = r \<and> view z = w \<or> r2 = Raised"
        by (rule followsD [OF f, of a y r w]) (use y' g run(2) kept_next [OF y(2) L] in auto)
      then show ?thesis using y y' kept_trans by auto
    qed (use y in simp)
  next
    assume s: "s (view x) = (Raised, w)" and "r = Raised"
    then show ?thesis using followsD [OF m s _ L] by fastforce
  qed
qed

lemma follows_ret [follow_intros]: "follows view L (ret a) (ret a)"
  by (auto simp: follows_def ret_def keeps_def)

lemma follows_undef [follow_intros]: "follows view L m undef"
  by (auto simp: follows_def undef_def keeps_def)

lemma follows_steps [follow_intros]: "list_all2 (follows view L) ms ss \<Longrightarrow> follows view L (steps ms) (steps ss)"
  by (induction rule: list_all2_induct) (auto intro!: follow_intros)

lemma follows_if [follow_intros]: "(c \<Longrightarrow> follows view L m s) \<Longrightarrow> (\<not> c \<Longrightarrow> follows view L m' s') \<Longrightarrow> follows view L (if c then m else m') (if c then s else s')"
  by simp

lemma follows_map [follow_intros]: "(\<And>i. i \<in> set is \<Longrightarrow> follows view L (f i) (g i)) \<Longrightarrow> list_all2 (follows view L) (map f is) (map g is)"
  by (simp add: list_all2_conv_all_nth)

declare list_all2_Cons1 [simp del]

lemma api_exactly:
  assumes "api_ok view A"
  shows "exactly view L (la_push A L v) (la_push doc L v)" "exactly view L (la_pushvalue A L i) (la_pushvalue doc L i)"
    "exactly view L (la_pushthread A L) (la_pushthread doc L)" "exactly view L (la_pop A L n) (la_pop doc L n)"
    "exactly view L (la_gettop A L) (la_gettop doc L)" "exactly view L (la_type A L i) (la_type doc L i)"
    "exactly view L (la_tointeger A L i) (la_tointeger doc L i)"
    "exactly view L (la_touserdata A L i) (la_touserdata doc L i)" "exactly view L (la_tothread A L i) (la_tothread doc L i)"
    "exactly view L (la_setmetatable A L i) (la_setmetatable doc L i)" "exactly view L (la_error A L) (la_error doc L)"
  using assms by (simp_all add: api_ok_def)

lemma api_follows:
  assumes "api_ok view A"
  shows "follows view L (la_push A L v) (la_push doc L v)" "follows view L (la_pushvalue A L i) (la_pushvalue doc L i)"
    "follows view L (la_pushthread A L) (la_pushthread doc L)" "follows view L (la_pop A L n) (la_pop doc L n)"
    "follows view L (la_gettop A L) (la_gettop doc L)" "follows view L (la_type A L i) (la_type doc L i)"
    "follows view L (la_tointeger A L i) (la_tointeger doc L i)"
    "follows view L (la_touserdata A L i) (la_touserdata doc L i)" "follows view L (la_tothread A L i) (la_tothread doc L i)"
    "follows view L (la_setmetatable A L i) (la_setmetatable doc L i)" "follows view L (la_error A L) (la_error doc L)"
    "follows view L (la_pushstring A L s) (la_pushstring doc L s)" "follows view L (la_tostring A L i) (la_tostring doc L i)"
    "follows view L (la_newtable A L) (la_newtable doc L)" "follows view L (la_newthread A L) (la_newthread doc L)"
    "follows view L (la_newuserdata A L) (la_newuserdata doc L)" "follows view L (la_gettable A L i) (la_gettable doc L i)"
    "follows view L (la_settable A L i) (la_settable doc L i)" "follows view L (la_getfield A L i s) (la_getfield doc L i s)"
    "follows view L (la_setfield A L i s) (la_setfield doc L i s)" "follows view L (la_getglobal A L s) (la_getglobal doc L s)"
    "follows view L (la_newmetatable A L s) (la_newmetatable doc L s)" "follows view L (la_setfuncs A L fs) (la_setfuncs doc L fs)"
    "follows view L (la_checkinteger A L i) (la_checkinteger doc L i)" "follows view L (la_checkudata A L i s) (la_checkudata doc L i s)"
  using api_exactly [OF assms] doc_keeps by (simp_all add: follows_exactly) (use assms in \<open>simp_all add: api_ok_def\<close>)

lemma follows_oneD:
  assumes "follows_one view L m s"
  obtains i where "\<And>r w. s i (view x) = (r, w) \<Longrightarrow> r \<noteq> Undef \<Longrightarrow> L < lw_next (view x) \<Longrightarrow>
    \<exists>r' y. m x = (r', y) \<and> kept L (view x) (view y) \<and> (r' = r \<and> view y = w \<or> r' = Raised)"
proof -
  have keeps: "keeps L (s i)" for i using assms by (simp add: follows_one_def)
  obtain i where "\<forall>r w. s i (view x) = (r, w) \<longrightarrow> r \<noteq> Undef \<longrightarrow> L < lw_next (view x) \<longrightarrow>
     (\<exists>r' y. m x = (r', y) \<and> (r' = r \<and> view y = w \<or> r' = Raised \<and> kept L (view x) (view y)))"
    using assms unfolding follows_one_def by blast
  then show thesis using that keepsD [OF keeps] by metis
qed

lemma follows_one_const [simp]: "follows_one view L m (\<lambda>_. s) \<longleftrightarrow> follows view L m s"
  by (simp add: follows_one_def follows_def)

text \<open>One of the calls of a sequence may do one of several things.\<close>

lemma follows_one_bnd:
  assumes m: "follows_one view L m s" and f: "\<And>a. follows view L (f a) (g a)"
  shows "follows_one view L (bnd m f) (\<lambda>i. bnd (s i) g)"
  unfolding follows_one_def
proof (intro conjI allI)
  show "keeps L (bnd (s i) g)" for i
    using m follows_keeps [OF f] by (intro bnd_keeps) (simp_all add: follows_one_def)
  fix x
  obtain i where i: "\<And>r w. s i (view x) = (r, w) \<Longrightarrow> r \<noteq> Undef \<Longrightarrow> L < lw_next (view x) \<Longrightarrow>
    \<exists>r' y. m x = (r', y) \<and> kept L (view x) (view y) \<and> (r' = r \<and> view y = w \<or> r' = Raised)"
    using follows_oneD [OF m, of x] by blast
  show "\<exists>i. \<forall>r w. bnd (s i) g (view x) = (r, w) \<longrightarrow> r \<noteq> Undef \<longrightarrow> L < lw_next (view x) \<longrightarrow>
    (\<exists>r' y. bnd m f x = (r', y) \<and> (r' = r \<and> view y = w \<or> r' = Raised \<and> kept L (view x) (view y)))"
  proof (intro exI [of _ i] allI impI)
    fix r w assume run: "bnd (s i) g (view x) = (r, w)" "r \<noteq> Undef" and L: "L < lw_next (view x)"
    from run show "\<exists>r' y. bnd m f x = (r', y) \<and> (r' = r \<and> view y = w \<or> r' = Raised \<and> kept L (view x) (view y))"
    proof (rule bndE)
      fix a v assume s: "s i (view x) = (Fine a, v)" and g: "g a v = (r, w)"
      from i [OF s _ L] obtain r' y where y: "m x = (r', y)" "kept L (view x) (view y)" "r' = Fine a \<and> view y = v \<or> r' = Raised"
        by blast
      show ?thesis
      proof (cases "r' = Raised")
        case False
        then have y': "r' = Fine a" "view y = v" using y(3) by auto
        obtain r2 z where "f a y = (r2, z)" "kept L (view y) (view z)" "r2 = r \<and> view z = w \<or> r2 = Raised"
          by (rule followsD [OF f, of a y r w]) (use y' g run(2) kept_next [OF y(2) L] in auto)
        then show ?thesis using y y' kept_trans by auto
      qed (use y in simp)
    next
      assume s: "s i (view x) = (Raised, w)" and "r = Raised"
      then show ?thesis using i [OF s _ L] by fastforce
    qed
  qed
qed

lemma follows_one_after:
  fixes m :: "('x, 'a) lprog" and g :: "'a \<Rightarrow> 'i \<Rightarrow> (lview, 'b) lprog"
  assumes m: "follows view L m s" and f: "\<And>a. follows_one view L (f a) (g a)"
  shows "follows_one view L (bnd m f) (\<lambda>i. bnd s (\<lambda>a. g a i))"
  unfolding follows_one_def
proof (intro conjI allI)
  have keeps: "keeps L (g a i)" for a i using f by (simp add: follows_one_def)
  show "keeps L (bnd s (\<lambda>a. g a i))" for i using follows_keeps [OF m] keeps by (rule bnd_keeps)
  fix x
  show "\<exists>i. \<forall>r w. bnd s (\<lambda>a. g a i) (view x) = (r, w) \<longrightarrow> r \<noteq> Undef \<longrightarrow> L < lw_next (view x) \<longrightarrow>
    (\<exists>r' y. bnd m f x = (r', y) \<and> (r' = r \<and> view y = w \<or> r' = Raised \<and> kept L (view x) (view y)))"
  proof (cases "L < lw_next (view x) \<and> fst (s (view x)) \<noteq> Undef")
    case True
    obtain q v where q: "s (view x) = (q, v)" "q \<noteq> Undef" "L < lw_next (view x)" using True by (cases "s (view x)") auto
    obtain q' y where y: "m x = (q', y)" "kept L (view x) (view y)" "q' = q \<and> view y = v \<or> q' = Raised"
      by (rule followsD [OF m q])
    show ?thesis
    proof (cases q')
      case (Fine a)
      then have y': "q = Fine a" "view y = v" using y(3) by auto
      obtain i where i: "\<And>r w. g a i (view y) = (r, w) \<Longrightarrow> r \<noteq> Undef \<Longrightarrow> L < lw_next (view y) \<Longrightarrow>
          \<exists>r' z. f a y = (r', z) \<and> kept L (view y) (view z) \<and> (r' = r \<and> view z = w \<or> r' = Raised)"
        using follows_oneD [OF f [of a], of y] by blast
      have run: "bnd s (\<lambda>a. g a j) (view x) = g a j (view y)" "bnd m f x = f a y" for j using q(1) y(1) y' Fine by (simp_all add: bnd_def)
      show ?thesis unfolding run using i kept_next [OF y(2) q(3)] kept_trans [OF y(2)] by blast
    next
      case Raised
      then show ?thesis using y(1,2) by (simp add: bnd_def)
    qed (use y q in auto)
  qed (auto simp: bnd_def split: prod.splits)
qed

lemma api_loads: "api_ok view A \<Longrightarrow> follows_one view L (la_loadfile A L s) (loading L s)"
  by (simp add: api_ok_def)

lemma api_protects:
  fixes g :: "string option \<Rightarrow> (lview, int) lprog"
  shows "api_ok view A \<Longrightarrow> follows_one view L f g \<Longrightarrow> protects view L n (la_pcall A L n r f) (\<lambda>i. la_pcall doc L n r (g i))"
  unfolding api_ok_def by blast

lemma api_protects_at:
  assumes "api_ok view A" and "follows view L f g"
  shows "protects_at view L n x (la_pcall A L n r f) (la_pcall doc L n r g)"
  using api_protects [OF assms(1), of L f "\<lambda>_. g" n r] assms(2) by (simp add: protects_def)

subsection \<open>The picture is a machine of its own\<close>

lemma follows_id: "keeps L s \<Longrightarrow> follows id L s s"
  by (auto simp: follows_def)

lemma leave_enter:
  assumes "kept L (enter L n w) v" and "L < lw_next w" and "n < length (frame L w)"
  shows "kept L w (leave L us v)" and "frame L (leave L us v) = us @ drop (n + 1) (frame L w)"
proof -
  obtain lim vs fs where stk: "lw_stk w L = (lim, vs) # fs" "n < length vs"
    using assms(3) by (auto simp: frame_def split: list.splits)
  with assms(1) have "tl (lw_stk v L) = (lim, drop (n + 1) vs) # fs" by (simp add: kept_def enter_def)
  with assms(1) stk show "kept L w (leave L us v)" "frame L (leave L us v) = us @ drop (n + 1) (frame L w)"
    by (auto simp: kept_def enter_def leave_def frame_def)
qed

lemma doc_protects:
  fixes g :: "'i \<Rightarrow> (lview, int) lprog"
  assumes "follows_one id L f g"
  shows "protects id L n (d_pcall L n r f) (\<lambda>i. d_pcall L n r (g i))"
  unfolding protects_def
proof
  fix x :: lview
  obtain i where i: "\<And>q v. g i (id (enter L n x)) = (q, v) \<Longrightarrow> q \<noteq> Undef \<Longrightarrow> L < lw_next (id (enter L n x)) \<Longrightarrow>
    \<exists>q' v'. f (enter L n x) = (q', v') \<and> kept L (id (enter L n x)) (id v') \<and> (q' = q \<and> id v' = v \<or> q' = Raised)"
    using follows_oneD [OF assms, of "enter L n x"] by blast
  have "protects_at id L n x (d_pcall L n r f) (d_pcall L n r (g i))"
    unfolding protects_at_def
  proof (intro allI impI)
    fix c w assume call: "d_pcall L n r (g i) (id x) = (Fine c, w)" and L: "L < lw_next (id x)"
    then have n: "n < length (frame L x)" by (auto simp: d_pcall_def split: if_splits)
    then have Le: "L < lw_next (enter L n x)" using L by (simp add: enter_def)
    obtain q v where g: "g i (enter L n x) = (q, v)" by fastforce
    have q: "q \<noteq> Undef" using call n g by (auto simp: d_pcall_def)
    obtain q' v' where f: "f (enter L n x) = (q', v')" "kept L (enter L n x) v'" "q' = q \<and> v' = v \<or> q' = Raised"
      using i [of q v] g q Le by auto
    have err: "\<exists>c' y. d_pcall L n r f x = (Fine c', y) \<and> c' \<noteq> LUA_OK \<and> kept L x y \<and> (\<exists>e. frame L y = e # drop (n + 1) (frame L x))" if "q' = Raised"
      using n f that leave_enter [OF f(2) _ n] L by (auto simp: d_pcall_def LUA_OK_def)
    show "\<exists>c' y. d_pcall L n r f x = (Fine c', y) \<and> (c = LUA_OK \<and> c' = LUA_OK \<and> id y = w
        \<or> c' \<noteq> LUA_OK \<and> kept L (id x) (id y) \<and> (\<exists>e. frame L (id y) = e # drop (n + 1) (frame L (id x))))"
    proof (cases "q' = Raised")
      case False
      with f have "f (enter L n x) = g i (enter L n x)" "q \<noteq> Raised" using g by auto
      with call n g show ?thesis by (auto simp: d_pcall_def split: if_splits lres.splits)
    qed (use err in auto)
  qed
  then show "\<exists>i. protects_at id L n x (d_pcall L n r f) (d_pcall L n r (g i))" by blast
qed

lemma loading_keeps: "keeps L (loading L s e)"
  unfolding loading_def using doc_keeps by (auto split: option.splits intro!: kept_intros simp del: doc_keeps)

lemma doc_loads: "follows_one id L (la_loadfile doc L s) (loading L s)"
  unfolding follows_one_def using loading_keeps by (auto simp: loading_def intro!: exI [of _ None])

lemma doc_ok: "api_ok id doc"
proof -
  have "la_pcall doc = d_pcall" by (simp add: doc_def)
  then show ?thesis
    unfolding api_ok_def using doc_keeps doc_loads by (simp add: exactly_def follows_id doc_protects)
qed

end
