(* ===== verification/Lua_Bind.thy ===== *)
theory Lua_Bind
  imports Lua_Api Server
begin

text \<open>
  The bindings of \<^verbatim>\<open>src/c/src/lua_bind.h\<close> and \<^verbatim>\<open>src/c/src/lua_bind.c\<close>: tables in the registry of
  Lua for the coroutines by thread id, for the compiled code by file, and for the variables of each
  coroutine. Each operation is a C function run in a protected call. Also the module
  \<^verbatim>\<open>src/c/src/lm_base.c\<close> and the registration of \<^verbatim>\<open>src/c/src/lua_adapter53.c\<close>, which use them.
\<close>

subsection \<open>Names\<close>

definition LRK_WORKER_CTX :: string where "LRK_WORKER_CTX = ''as_lrk_000''"
definition LRK_FD_THREAD_TABLE :: string where "LRK_FD_THREAD_TABLE = ''as_lrk_001''"
definition LRK_THREAD_LOCAL_VAR_TABLE :: string where "LRK_THREAD_LOCAL_VAR_TABLE = ''as_lrk_002''"
definition LRK_LCODE_CHUNK_TABLE :: string where "LRK_LCODE_CHUNK_TABLE = ''as_lrk_003''"
definition LRK_TID_THREAD_TABLE :: string where "LRK_TID_THREAD_TABLE = ''as_lrk_004''"
definition LRK_BYTES_REF_TABLE :: string where "LRK_BYTES_REF_TABLE = ''as_lrk_007''"
definition LLK_THREAD :: string where "LLK_THREAD = ''as_llk_001''"

definition LTTYPE_THREAD_LOCAL_VAR :: int where "LTTYPE_THREAD_LOCAL_VAR = 0"
definition LTTYPE_REGISTRY :: int where "LTTYPE_REGISTRY = 1"

text \<open>A value that is passed with its type.\<close>

datatype lvarg = LTYPE_INT int | LTYPE_PTR cptr | LTYPE_STACK int

subsection \<open>Pieces that the functions share\<close>

text \<open>The pointer of an argument that must be a string of C.\<close>

definition with_chars :: "cptr \<Rightarrow> (string \<Rightarrow> ('x, 'a) lprog) \<Rightarrow> ('x, 'a) lprog" where
  "with_chars p k = (case p of Chars s \<Rightarrow> k s | _ \<Rightarrow> undef)"

definition lbind_checkmetatable :: "'x lua_api \<Rightarrow> addr \<Rightarrow> string \<Rightarrow> string \<Rightarrow> ('x, unit) lprog" where
  "lbind_checkmetatable A L tname emsg = bnd (la_getfield A L Registry tname) (\<lambda>_.
     bnd (la_type A L (Idx (-1))) (\<lambda>ty.
       if ty = LUA_TNIL then steps [la_pushstring A L emsg, la_error A L] else ret ()))"

definition lbind_checkregvalue :: "'x lua_api \<Rightarrow> addr \<Rightarrow> string \<Rightarrow> int \<Rightarrow> string \<Rightarrow> ('x, unit) lprog" where
  "lbind_checkregvalue A L field type emsg = bnd (steps [la_pushstring A L field, la_gettable A L Registry]) (\<lambda>_.
     bnd (la_type A L (Idx (-1))) (\<lambda>ty.
       if ty \<noteq> type then steps [la_pushstring A L emsg, la_error A L] else ret ()))"

text \<open>After a protected call: a message is popped, the code is the result.\<close>

definition pop_error :: "'x lua_api \<Rightarrow> addr \<Rightarrow> int \<Rightarrow> ('x, int) lprog" where
  "pop_error A L r = (if r \<noteq> LUA_OK then bnd (la_pop A L 1) (\<lambda>_. ret r) else ret r)"

subsection \<open>The tables\<close>

definition newL_weak_metatable :: "'x lua_api \<Rightarrow> addr \<Rightarrow> string \<Rightarrow> string \<Rightarrow> ('x, unit) lprog" where
  "newL_weak_metatable A L name mode = steps [
     la_newmetatable A L name,
     la_pushvalue A L (Idx (-1)),
     la_pushstring A L ''__mode'',
     la_pushstring A L mode,
     la_settable A L (Idx (-3)),
     la_setmetatable A L (Idx (-2))]"

definition lcf_init_state :: "'x lua_api \<Rightarrow> (addr \<Rightarrow> ('x, unit) lprog) \<Rightarrow> addr \<Rightarrow> ('x, int) lprog" where
  "lcf_init_state A openlibs L = bnd (steps [
     openlibs L,
     la_newmetatable A L LRK_FD_THREAD_TABLE,
     la_newmetatable A L LRK_LCODE_CHUNK_TABLE,
     la_newmetatable A L LRK_TID_THREAD_TABLE,
     newL_weak_metatable A L LRK_THREAD_LOCAL_VAR_TABLE ''k'',
     newL_weak_metatable A L LRK_BYTES_REF_TABLE ''k'']) (\<lambda>_. ret 0)"

definition lbind_init_state :: "'x lua_api \<Rightarrow> (addr \<Rightarrow> ('x, unit) lprog) \<Rightarrow> addr \<Rightarrow> ('x, int) lprog" where
  "lbind_init_state A openlibs L = bnd (la_push A L (V_C ''lcf_init_state'')) (\<lambda>_.
     bnd (la_pcall A L 0 0 (lcf_init_state A openlibs L)) (pop_error A L))"

subsection \<open>The path of packages\<close>

text \<open>What C sees of a string of Lua; the lengths are kept in an \<open>int\<close>.\<close>

definition c_str :: "string \<Rightarrow> string" where
  "c_str s = takeWhile (\<lambda>c. c \<noteq> CHR 0x00) s"

definition lcf_append_lua_package_field :: "'x lua_api \<Rightarrow> addr \<Rightarrow> ('x, int) lprog" where
  "lcf_append_lua_package_field A L = bnd (la_touserdata A L (Idx 1)) (\<lambda>f. bnd (la_touserdata A L (Idx 2)) (\<lambda>path.
     if path = NULL_PTR then bnd (steps [la_pushstring A L ''path is NULL'', la_error A L]) (\<lambda>_. undef)
     else with_chars f (\<lambda>f. with_chars path (\<lambda>path.
       bnd (steps [la_getglobal A L ''package'', la_getfield A L (Idx (-1)) f]) (\<lambda>_.
         bnd (la_tostring A L (Idx (-1))) (\<lambda>cur. case cur of None \<Rightarrow> undef | Some cur_path \<Rightarrow>
           if length (c_str cur_path) + length path + 2 < 2 ^ 31 then
             bnd (steps [la_newuserdata A L, la_pushstring A L (c_str cur_path @ '';'' @ path), la_setfield A L (Idx (-4)) f]) (\<lambda>_. ret 0)
           else undef))))))"

definition lbind_append_lua_package_field :: "'x lua_api \<Rightarrow> addr \<Rightarrow> string \<Rightarrow> cptr \<Rightarrow> ('x, int) lprog" where
  "lbind_append_lua_package_field A L field path = bnd (steps [
     la_push A L (V_C ''lcf_append_lua_package_field''), la_push A L (V_Light (Chars field)), la_push A L (V_Light path)]) (\<lambda>_.
     bnd (la_pcall A L 2 0 (lcf_append_lua_package_field A L)) (pop_error A L))"

subsection \<open>Coroutines by thread id\<close>

definition lcf_ref_tid_lthread :: "'x lua_api \<Rightarrow> addr \<Rightarrow> ('x, int) lprog" where
  "lcf_ref_tid_lthread A L = bnd (la_tointeger A L (Idx (-1))) (\<lambda>n. let tid = (of_int n :: u32) in
     bnd (steps [
       lbind_checkmetatable A L LRK_TID_THREAD_TABLE ''tid thread table not exist'',
       lbind_checkmetatable A L LRK_THREAD_LOCAL_VAR_TABLE ''thread local var table not exist'',
       la_newthread A L,
       la_push A L (V_Int (uint tid)),
       la_pushvalue A L (Idx (-2)),
       la_settable A L (Idx (-5)),
       la_pushvalue A L (Idx (-1)),
       la_newtable A L,
       la_settable A L (Idx (-4))]) (\<lambda>_. ret 1))"

definition lbind_ref_tid_lthread :: "'x lua_api \<Rightarrow> addr \<Rightarrow> u32 \<Rightarrow> ('x, ptr) lprog" where
  "lbind_ref_tid_lthread A L tid = bnd (steps [la_push A L (V_C ''lcf_ref_tid_lthread''), la_push A L (V_Int (uint tid))]) (\<lambda>_.
     bnd (la_pcall A L 1 1 (lcf_ref_tid_lthread A L)) (\<lambda>r.
       if r = LUA_OK then bnd (la_tothread A L (Idx (-1))) (\<lambda>T. bnd (la_pop A L 1) (\<lambda>_. ret T))
       else bnd (la_pop A L 1) (\<lambda>_. ret None)))"

definition lcf_unref_tid_lthread :: "'x lua_api \<Rightarrow> addr \<Rightarrow> ('x, int) lprog" where
  "lcf_unref_tid_lthread A L = bnd (la_tointeger A L (Idx (-1))) (\<lambda>n. let tid = (of_int n :: u32) in
     bnd (steps [
       lbind_checkmetatable A L LRK_TID_THREAD_TABLE ''tid thread table not exist'',
       la_push A L (V_Int (uint tid)),
       la_push A L V_Nil,
       la_settable A L (Idx (-3))]) (\<lambda>_. ret 0))"

definition lbind_unref_tid_lthread :: "'x lua_api \<Rightarrow> addr \<Rightarrow> u32 \<Rightarrow> ('x, int) lprog" where
  "lbind_unref_tid_lthread A L tid = bnd (steps [la_push A L (V_C ''lcf_unref_tid_lthread''), la_push A L (V_Int (uint tid))]) (\<lambda>_.
     bnd (la_pcall A L 1 0 (lcf_unref_tid_lthread A L)) (pop_error A L))"

subsection \<open>Compiled code by file\<close>

text \<open>The result of \<open>luaL_loadfile\<close> is not looked at: what it pushed is stored, also a message.\<close>

definition lcf_ref_lcode_chunk :: "'x lua_api \<Rightarrow> addr \<Rightarrow> ('x, int) lprog" where
  "lcf_ref_lcode_chunk A L = bnd (la_touserdata A L (Idx (-1))) (\<lambda>p. with_chars p (\<lambda>filename.
     bnd (steps [
       lbind_checkmetatable A L LRK_LCODE_CHUNK_TABLE ''lcode chunk table not exist'',
       la_pushstring A L filename,
       bnd (la_loadfile A L filename) (\<lambda>_. ret ()),
       la_settable A L (Idx (-3))]) (\<lambda>_. ret 0)))"

definition lbind_ref_lcode_chunk :: "'x lua_api \<Rightarrow> addr \<Rightarrow> string \<Rightarrow> ('x, int) lprog" where
  "lbind_ref_lcode_chunk A L filename = bnd (steps [la_push A L (V_C ''lcf_ref_lcode_chunk''), la_push A L (V_Light (Chars filename))]) (\<lambda>_.
     bnd (la_pcall A L 1 0 (lcf_ref_lcode_chunk A L)) (pop_error A L))"

definition lcf_unref_lcode_chunk :: "'x lua_api \<Rightarrow> addr \<Rightarrow> ('x, int) lprog" where
  "lcf_unref_lcode_chunk A L = bnd (la_touserdata A L (Idx (-1))) (\<lambda>p. with_chars p (\<lambda>filename.
     bnd (steps [la_pushstring A L filename, la_push A L V_Nil, la_settable A L (Idx (-3))]) (\<lambda>_. ret 0)))"

definition lbind_unref_lcode_chunk :: "'x lua_api \<Rightarrow> addr \<Rightarrow> string \<Rightarrow> ('x, int) lprog" where
  "lbind_unref_lcode_chunk A L filename = bnd (steps [la_push A L (V_C ''lcf_unref_lcode_chunk''), la_push A L (V_Light (Chars filename))]) (\<lambda>_.
     bnd (la_pcall A L 1 0 (lcf_unref_lcode_chunk A L)) (pop_error A L))"

definition lcf_get_lcode_chunk :: "'x lua_api \<Rightarrow> addr \<Rightarrow> ('x, int) lprog" where
  "lcf_get_lcode_chunk A L = bnd (la_touserdata A L (Idx (-1))) (\<lambda>p. with_chars p (\<lambda>filename.
     bnd (steps [
       lbind_checkmetatable A L LRK_LCODE_CHUNK_TABLE ''lcode chunk table not exist'',
       la_pushstring A L filename,
       la_gettable A L (Idx (-2))]) (\<lambda>_. ret 1)))"

definition lbind_get_lcode_chunk :: "'x lua_api \<Rightarrow> addr \<Rightarrow> string \<Rightarrow> ('x, int) lprog" where
  "lbind_get_lcode_chunk A L filename = bnd (steps [la_push A L (V_C ''lcf_get_lcode_chunk''), la_push A L (V_Light (Chars filename))]) (\<lambda>_.
     bnd (la_pcall A L 1 1 (lcf_get_lcode_chunk A L)) (pop_error A L))"

subsection \<open>Variables of a coroutine, and of the registry\<close>

definition lcf_get_thread_local_vars :: "'x lua_api \<Rightarrow> addr \<Rightarrow> ('x, int) lprog" where
  "lcf_get_thread_local_vars A L = bnd (la_gettop A L) (\<lambda>n.
     bnd (steps ([
       lbind_checkmetatable A L LRK_THREAD_LOCAL_VAR_TABLE ''thread local var table not exist'',
       la_pushthread A L,
       la_gettable A L (Idx (-2))]
     @ map (\<lambda>i. bnd (la_touserdata A L (Idx 1)) (\<lambda>p. with_chars p (\<lambda>field.
         steps [la_pushstring A L field, la_gettable A L (Idx (n + 2))]))) [1..n])) (\<lambda>_. ret n))"

definition lbind_get_thread_local_vars :: "'x lua_api \<Rightarrow> addr \<Rightarrow> string list \<Rightarrow> ('x, int) lprog" where
  "lbind_get_thread_local_vars A T names = bnd (steps (la_push A T (V_C ''lcf_get_thread_local_vars'')
       # map (\<lambda>f. la_push A T (V_Light (Chars f))) names)) (\<lambda>_.
     bnd (la_pcall A T (length names) (length names) (lcf_get_thread_local_vars A T)) (pop_error A T))"

definition lcf_set_va_list :: "'x lua_api \<Rightarrow> addr \<Rightarrow> ('x, int) lprog" where
  "lcf_set_va_list A L = bnd (la_gettop A L) (\<lambda>n. bnd (la_tointeger A L (Idx 1)) (\<lambda>ttype.
     bnd (if to_int ttype = LTTYPE_REGISTRY then ret Registry
          else bnd (steps [
            lbind_checkmetatable A L LRK_THREAD_LOCAL_VAR_TABLE ''thread local var table not exist'',
            la_pushthread A L,
            la_gettable A L (Idx (-2))]) (\<lambda>_. ret (Idx (n + 2)))) (\<lambda>tidx.
     bnd (steps (map (\<lambda>i. bnd (la_touserdata A L (Idx (i * 2))) (\<lambda>p. with_chars p (\<lambda>field.
       steps [la_pushstring A L field, la_pushvalue A L (Idx (i * 2 + 1)), la_settable A L tidx]))) [1..n div 2])) (\<lambda>_. ret 0))))"

definition push_varg :: "'x lua_api \<Rightarrow> addr \<Rightarrow> int \<Rightarrow> lvarg \<Rightarrow> ('x, unit) lprog" where
  "push_varg A L sn v = (case v of
       LTYPE_INT n \<Rightarrow> la_push A L (V_Int n)
     | LTYPE_STACK idx \<Rightarrow> la_pushvalue A L (Idx (if idx < 0 then sn + idx + 1 else idx))
     | LTYPE_PTR p \<Rightarrow> la_push A L (V_Light p))"

definition lbind_set_va_list :: "'x lua_api \<Rightarrow> addr \<Rightarrow> int \<Rightarrow> (string \<times> lvarg) list \<Rightarrow> ('x, int) lprog" where
  "lbind_set_va_list A L ttype vs = bnd (la_gettop A L) (\<lambda>sn.
     bnd (steps ([la_push A L (V_C ''lcf_set_va_list''), la_push A L (V_Int ttype)]
       @ concat (map (\<lambda>(field, v). [la_push A L (V_Light (Chars field)), push_varg A L sn v]) vs))) (\<lambda>_.
     bnd (la_pcall A L (2 * length vs + 1) 0 (lcf_set_va_list A L)) (pop_error A L)))"

subsection \<open>The module \<open>lm_base\<close>\<close>

text \<open>
  \<open>tids\<close> gives the id of the thread at an address. Nothing is on the stack where
  the variables could not be got.
\<close>

definition lcf_get_tid :: "'x lua_api \<Rightarrow> (addr \<Rightarrow> u32 option) \<Rightarrow> addr \<Rightarrow> ('x, int) lprog" where
  "lcf_get_tid A tids L = bnd (lbind_get_thread_local_vars A L [LLK_THREAD]) (\<lambda>_.
     bnd (la_touserdata A L (Idx (-1))) (\<lambda>p. case p of
       Block th \<Rightarrow> (case tids th of Some tid \<Rightarrow> bnd (la_push A L (V_Int (uint tid))) (\<lambda>_. ret 1) | None \<Rightarrow> undef)
     | _ \<Rightarrow> undef))"

definition set_ints :: "'x lua_api \<Rightarrow> addr \<Rightarrow> string \<Rightarrow> (string \<times> int) list \<Rightarrow> ('x, unit) lprog list" where
  "set_ints A L name cs = la_newtable A L # concat (map (\<lambda>(f, n). [la_push A L (V_Int n), la_setfield A L (Idx (-2)) f]) cs)
     @ [la_setfield A L (Idx (-2)) name]"

text \<open>A new table with the functions of a module.\<close>

definition aluaL_newlib :: "'x lua_api \<Rightarrow> addr \<Rightarrow> (string \<times> string) list \<Rightarrow> ('x, unit) lprog list" where
  "aluaL_newlib A L I = [la_newtable A L, la_setfuncs A L I]"

text \<open>The module, and the tables \<open>S\<close>, \<open>E\<close>, \<open>D\<close> and \<open>EV\<close> of constants.\<close>

definition luaopen_lm_base :: "'x lua_api \<Rightarrow> addr \<Rightarrow> ('x, int) lprog" where
  "luaopen_lm_base A L = bnd (steps (aluaL_newlib A L [(''get_tid'', ''lcf_get_tid'')]
     @ set_ints A L ''S'' [(''YIELD_FOR_IO'', 5), (''RESUME_IO'', 8), (''RESUME_SLEEP'', 11), (''WAIT_FOR_INPUT'', 0),
         (''WAIT_FOR_OUTPUT'', 1), (''READY_TO_INPUT'', 2), (''READY_TO_OUTPUT'', 3)]
     @ set_ints A L ''E'' [(''EAGAIN'', 11), (''EBADFD'', 77), (''EINVAL'', 22), (''ETIMEDOUT'', 110)]
     @ set_ints A L ''D'' [(''TIMEOUT_SECS'', 15)]
     @ set_ints A L ''EV'' [(''EPOLLIN'', 1), (''EPOLLOUT'', 4), (''EPOLLET'', 2147483648)])) (\<lambda>_. ret 1)"

subsection \<open>Registration\<close>

text \<open>\<open>luaL_getmetatable\<close> returns the type of what it pushes, and 1 is the type of a boolean.\<close>

definition aluaL_newmetatable_with_methods :: "'x lua_api \<Rightarrow> addr \<Rightarrow> string \<Rightarrow> (string \<times> string) list \<Rightarrow> ('x, unit) lprog" where
  "aluaL_newmetatable_with_methods A L name I = bnd (la_getfield A L Registry name) (\<lambda>_. bnd (la_type A L (Idx (-1))) (\<lambda>ty.
     if ty = 1 then ret ()
     else steps [la_newmetatable A L name, la_pushvalue A L (Idx (-1)), la_setfield A L (Idx (-2)) ''__index'', la_setfuncs A L I]))"

end
