(* ===== verification/Lua_Run.thy ===== *)
theory Lua_Run
  imports Lua_Bind
begin

text \<open>
  What the bindings of Lua do, whenever the interface does what its manual says: the tables of the
  registry are three maps, and the operations are updates and lookups of these maps that leave the
  stack as their comments say.
\<close>

subsection \<open>The C functions do what they do on the picture\<close>

declare list_all2_Cons [follow_intros] list_all2_Nil [follow_intros]

lemma follows_with_chars [follow_intros]:
  "(\<And>s. follows view L (f s) (g s)) \<Longrightarrow> follows view L (with_chars p f) (with_chars p g)"
  by (simp add: with_chars_def follow_intros split: cptr.splits)

lemma follows_cons [follow_intros]:
  "follows view L m s \<Longrightarrow> list_all2 (follows view L) ms ss \<Longrightarrow> list_all2 (follows view L) (m # ms) (s # ss)"
  "list_all2 (follows view L) [] []"
  by simp_all

declare list_all2_appendI [follow_intros]

lemma checkmetatable_follows [follow_intros]:
  "api_ok view A \<Longrightarrow> follows view L (lbind_checkmetatable A L t e) (lbind_checkmetatable doc L t e)"
  unfolding lbind_checkmetatable_def by (intro follow_intros api_follows)

lemma weak_follows [follow_intros]:
  "api_ok view A \<Longrightarrow> follows view L (newL_weak_metatable A L t e) (newL_weak_metatable doc L t e)"
  unfolding newL_weak_metatable_def by (intro follow_intros api_follows)

lemma init_follows:
  "api_ok view A \<Longrightarrow> follows view L (openlibs L) (libs L) \<Longrightarrow> follows view L (lcf_init_state A openlibs L) (lcf_init_state doc libs L)"
  unfolding lcf_init_state_def by (intro follow_intros api_follows)

lemma ref_tid_follows: "api_ok view A \<Longrightarrow> follows view L (lcf_ref_tid_lthread A L) (lcf_ref_tid_lthread doc L)"
  unfolding lcf_ref_tid_lthread_def Let_def by (intro follow_intros api_follows)

lemma unref_tid_follows: "api_ok view A \<Longrightarrow> follows view L (lcf_unref_tid_lthread A L) (lcf_unref_tid_lthread doc L)"
  unfolding lcf_unref_tid_lthread_def Let_def by (intro follow_intros api_follows)

text \<open>What \<open>lcf_ref_lcode_chunk\<close> does where the loading does what \<open>loading\<close> says.\<close>

abbreviation ref_chunk :: "addr \<Rightarrow> string option \<Rightarrow> (lview, int) lprog" where
  "ref_chunk L e \<equiv> lcf_ref_lcode_chunk (doc\<lparr>la_loadfile := \<lambda>L s. loading L s e\<rparr>) L"

lemma ref_chunk_follows:
  assumes ok: "api_ok view A" and load: "\<And>f. follows view L (la_loadfile A L f) (la_loadfile doc L f)"
  shows "follows view L (lcf_ref_lcode_chunk A L) (lcf_ref_lcode_chunk doc L)"
  using ok unfolding lcf_ref_lcode_chunk_def by (intro follow_intros api_follows load)

lemma ref_chunk_one:
  assumes ok: "api_ok view A"
  shows "follows_one view L (lcf_ref_lcode_chunk A L) (ref_chunk L)"
proof -
  let ?chk = "lbind_checkmetatable doc L LRK_LCODE_CHUNK_TABLE ''lcode chunk table not exist''"
  let ?rest = "\<lambda>f e. bnd (bnd ?chk (\<lambda>_. bnd (la_pushstring doc L f) (\<lambda>_. bnd (bnd (loading L f e) (\<lambda>_. ret ()))
    (\<lambda>_. bnd (la_settable doc L (Idx (-3))) (\<lambda>_. ret ()))))) (\<lambda>_. ret 0)"
  have one: "ref_chunk L = (\<lambda>e. bnd (la_touserdata doc L (Idx (-1))) (\<lambda>p. with_chars p (\<lambda>f. ?rest f e)))"
    by (simp add: lcf_ref_lcode_chunk_def lbind_checkmetatable_def fun_eq_iff cong: if_cong)
  have rest: "follows_one view L (bnd (bnd (lbind_checkmetatable A L LRK_LCODE_CHUNK_TABLE ''lcode chunk table not exist'')
      (\<lambda>_. bnd (la_pushstring A L f) (\<lambda>_. bnd (bnd (la_loadfile A L f) (\<lambda>_. ret ()))
      (\<lambda>_. bnd (la_settable A L (Idx (-3))) (\<lambda>_. ret ()))))) (\<lambda>_. ret 0)) (?rest f)" for f
    by (rule follows_one_bnd, rule follows_one_after, rule checkmetatable_follows [OF ok],
        rule follows_one_after, rule api_follows(12) [OF ok], rule follows_one_bnd, rule follows_one_bnd, rule api_loads [OF ok])
      (intro follow_intros api_follows [OF ok])+
  have chars: "follows_one view L (with_chars p m) (\<lambda>e. with_chars p (\<lambda>f. s f e))"
    if "\<And>f. follows_one view L (m f) (s f)" for p and m :: "string \<Rightarrow> ('a, int) lprog" and s
    using that by (cases p) (simp_all add: with_chars_def follows_undef)
  show ?thesis
    unfolding one unfolding lcf_ref_lcode_chunk_def steps.simps
    by (rule follows_one_after, rule api_follows(8) [OF ok], rule chars, rule rest)
qed

lemma unref_chunk_follows: "api_ok view A \<Longrightarrow> follows view L (lcf_unref_lcode_chunk A L) (lcf_unref_lcode_chunk doc L)"
  unfolding lcf_unref_lcode_chunk_def by (intro follow_intros api_follows)

lemma get_chunk_follows: "api_ok view A \<Longrightarrow> follows view L (lcf_get_lcode_chunk A L) (lcf_get_lcode_chunk doc L)"
  unfolding lcf_get_lcode_chunk_def by (intro follow_intros api_follows)

lemma get_vars_follows: "api_ok view A \<Longrightarrow> follows view L (lcf_get_thread_local_vars A L) (lcf_get_thread_local_vars doc L)"
  unfolding lcf_get_thread_local_vars_def by (intro follow_intros api_follows)

lemma set_vars_follows: "api_ok view A \<Longrightarrow> follows view L (lcf_set_va_list A L) (lcf_set_va_list doc L)"
  unfolding lcf_set_va_list_def by (intro follow_intros api_follows)

lemma append_follows: "api_ok view A \<Longrightarrow> follows view L (lcf_append_lua_package_field A L) (lcf_append_lua_package_field doc L)"
  unfolding lcf_append_lua_package_field_def by (intro follow_intros api_follows) (auto split: option.splits intro!: follow_intros api_follows)

subsection \<open>Protected calls\<close>

text \<open>The state in which a function starts that is called with \<open>args\<close>.\<close>

definition called :: "addr \<Rightarrow> lv list \<Rightarrow> lview \<Rightarrow> lview" where
  "called L args w = w\<lparr>lw_stk := (lw_stk w)(L := (length args + LUA_MINSTACK, rev args) # lw_stk w L)\<rparr>"

text \<open>Back from it with \<open>vs\<close>, the last first.\<close>

definition returned :: "addr \<Rightarrow> lv list \<Rightarrow> lview \<Rightarrow> lview" where
  "returned L vs w = (let w = w\<lparr>lw_stk := (lw_stk w)(L := tl (lw_stk w L))\<rparr> in set_frame L (vs @ frame L w) w)"

lemma room_eq: "lw_stk w L \<noteq> [] \<Longrightarrow> room L w = fst (hd (lw_stk w L)) - length (frame L w)"
  by (auto simp: room_def frame_def split: list.splits)

lemma push_frame:
  assumes "api_ok view A" and "length args \<le> room L (view x)" and "L < lw_next (view x)"
  shows "\<exists>y. steps (map (la_push A L) args) x = (Fine (), y) \<and> view y = set_frame L (rev args @ frame L (view x)) (view x)"
  using assms(2,3)
proof (induction args arbitrary: x)
  case Nil
  then show ?case by (simp add: ret_def)
next
  case (Cons v args)
  then have stk: "lw_stk (view x) L \<noteq> []" using room_pos by fastforce
  have "la_push doc L v (view x) = (Fine (), set_frame L (v # frame L (view x)) (view x))"
    using Cons.prems by (simp add: doc_def d_push_def)
  with exactlyD [OF api_exactly(1) [OF assms(1)]] obtain y where y: "la_push A L v x = (Fine (), y)" "view y = set_frame L (v # frame L (view x)) (view x)"
    using Cons.prems by blast
  have "room L (view y) = room L (view x) - 1" using y(2) stk by simp (simp add: room_eq)
  with Cons.IH [of y] Cons.prems y stk show ?case by auto
qed

lemma call_back_at:
  assumes at: "protects_at view L (length args) x (la_pcall A L (length args) r f) (la_pcall doc L (length args) r g)" and L: "L < lw_next w" "lw_stk w L \<noteq> []"
    and x: "view x = set_frame L (rev args @ V_C nm # frame L w) w"
    and run: "g (called L args w) = (q, v)" "q \<noteq> Undef" and res: "\<And>k. q = Fine k \<Longrightarrow> 0 \<le> k \<and> k \<le> int (length (frame L v))"
  shows "\<exists>c y. la_pcall A L (length args) r f x = (Fine c, y) \<and>
    ((\<exists>k. q = Fine k \<and> c = LUA_OK \<and> view y = returned L (results (nat k) r (frame L v)) v)
     \<or> c \<noteq> LUA_OK \<and> kept L w (view y) \<and> (\<exists>e. frame L (view y) = e # frame L w))"
proof -
  have enter: "enter L (length args) (view x) = called L args w"
    using L(2) unfolding x by (auto simp: enter_def called_def set_frame_def frame_def split: list.splits)
  have leave: "leave L vs u = returned L vs u" for vs u
    by (auto simp: leave_def returned_def Let_def set_frame_def frame_def split: list.splits)
  have frame: "frame L (view x) = rev args @ V_C nm # frame L w" using L(2) unfolding x by simp
  obtain c where "la_pcall doc L (length args) r g (view x) = (Fine c, if q = Raised then leave L [V_Str ''error''] v else returned L (results (nat (case q of Fine k \<Rightarrow> k | _ \<Rightarrow> 0)) r (frame L v)) v)"
      "c = LUA_OK \<longleftrightarrow> q \<noteq> Raised"
    using run res by (cases q) (auto simp: doc_def d_pcall_def frame enter leave LUA_OK_def)
  note doc = this
  obtain c' y where call: "la_pcall A L (length args) r f x = (Fine c', y)"
    "c = LUA_OK \<and> c' = LUA_OK \<and> view y = returned L (results (nat (case q of Fine k \<Rightarrow> k | _ \<Rightarrow> 0)) r (frame L v)) v
     \<or> c' \<noteq> LUA_OK \<and> kept L (view x) (view y) \<and> (\<exists>e. frame L (view y) = e # drop (length args + 1) (frame L (view x)))"
    using at [unfolded protects_at_def, rule_format, OF doc(1)] L x doc(2) by (auto split: if_splits)
  have "kept L w (view x)" unfolding x by simp
  from call(2) show ?thesis
  proof
    assume "c = LUA_OK \<and> c' = LUA_OK \<and> view y = returned L (results (nat (case q of Fine k \<Rightarrow> k | _ \<Rightarrow> 0)) r (frame L v)) v"
    moreover from this doc(2) run(2) obtain k where "q = Fine k" by (cases q) auto
    ultimately show ?thesis using call(1) by auto
  next
    assume "c' \<noteq> LUA_OK \<and> kept L (view x) (view y) \<and> (\<exists>e. frame L (view y) = e # drop (length args + 1) (frame L (view x)))"
    with call(1) show ?thesis using kept_trans [OF \<open>kept L w (view x)\<close>] by (auto simp: frame)
  qed
qed

lemma call_back:
  assumes ok: "api_ok view A" and fol: "follows view L f g" and L: "L < lw_next w" "lw_stk w L \<noteq> []"
    and x: "view x = set_frame L (rev args @ V_C nm # frame L w) w"
    and run: "g (called L args w) = (q, v)" "q \<noteq> Undef" and res: "\<And>k. q = Fine k \<Longrightarrow> 0 \<le> k \<and> k \<le> int (length (frame L v))"
  shows "\<exists>c y. la_pcall A L (length args) r f x = (Fine c, y) \<and>
    ((\<exists>k. q = Fine k \<and> c = LUA_OK \<and> view y = returned L (results (nat k) r (frame L v)) v)
     \<or> c \<noteq> LUA_OK \<and> kept L w (view y) \<and> (\<exists>e. frame L (view y) = e # frame L w))"
  by (rule call_back_at [OF api_protects_at [OF ok fol] L x run res])

subsection \<open>The tables as maps\<close>

definition the_tab :: "string \<Rightarrow> lview \<Rightarrow> addr" where
  "the_tab name w = (case lw_tab w (lw_reg w) (V_Str name) of V_Tab t \<Rightarrow> t | _ \<Rightarrow> 0)"

record lbinds =
  lb_tid :: "int \<Rightarrow> ptr"
  lb_vars :: "addr \<Rightarrow> (string \<Rightarrow> lv) option"
  lb_code :: "string \<Rightarrow> lv"
  lb_reg :: "string \<Rightarrow> lv"

definition vars_tab :: "lview \<Rightarrow> addr \<Rightarrow> ptr" where
  "vars_tab w T = (case lw_tab w (the_tab LRK_THREAD_LOCAL_VAR_TABLE w) (V_Thr T) of V_Tab u \<Rightarrow> Some u | _ \<Rightarrow> None)"

definition binds :: "lview \<Rightarrow> lbinds" where
  "binds w = \<lparr>
     lb_tid = (\<lambda>n. case lw_tab w (the_tab LRK_TID_THREAD_TABLE w) (V_Int n) of V_Thr T \<Rightarrow> Some T | _ \<Rightarrow> None),
     lb_vars = (\<lambda>T. map_option (\<lambda>u f. lw_tab w u (V_Str f)) (vars_tab w T)),
     lb_code = (\<lambda>f. lw_tab w (the_tab LRK_LCODE_CHUNK_TABLE w) (V_Str f)),
     lb_reg = (\<lambda>f. lw_tab w (lw_reg w) (V_Str f))\<rparr>"

text \<open>
  The tables are there, different, and without metatables that would catch an access; the
  variables of each coroutine are a table of its own.
\<close>

definition binds_ok :: "lview \<Rightarrow> bool" where
  "binds_ok w \<longleftrightarrow> (let r = lw_reg w; t = the_tab LRK_TID_THREAD_TABLE w; v = the_tab LRK_THREAD_LOCAL_VAR_TABLE w;
       c = the_tab LRK_LCODE_CHUNK_TABLE w in
     lw_tab w r (V_Str LRK_TID_THREAD_TABLE) = V_Tab t \<and> lw_tab w r (V_Str LRK_THREAD_LOCAL_VAR_TABLE) = V_Tab v
     \<and> lw_tab w r (V_Str LRK_LCODE_CHUNK_TABLE) = V_Tab c
     \<and> distinct [r, t, v, c] \<and> r < lw_next w \<and> t < lw_next w \<and> v < lw_next w \<and> c < lw_next w
     \<and> lw_meta w r = None \<and> lw_meta w t = None \<and> lw_meta w c = None \<and> lw_meta w v = Some v
     \<and> lw_tab w v (V_Str ''__index'') = V_Nil \<and> lw_tab w v (V_Str ''__newindex'') = V_Nil
     \<and> (\<forall>T u. vars_tab w T = Some u \<longrightarrow> u < lw_next w \<and> lw_meta w u = None \<and> u \<notin> {r, t, v, c})
     \<and> (\<forall>T T' u. vars_tab w T = Some u \<longrightarrow> vars_tab w T' = Some u \<longrightarrow> T = T'))"

lemma lrk_distinct [simp]:
  "LRK_TID_THREAD_TABLE \<noteq> LRK_THREAD_LOCAL_VAR_TABLE" "LRK_TID_THREAD_TABLE \<noteq> LRK_LCODE_CHUNK_TABLE"
  "LRK_THREAD_LOCAL_VAR_TABLE \<noteq> LRK_TID_THREAD_TABLE" "LRK_LCODE_CHUNK_TABLE \<noteq> LRK_TID_THREAD_TABLE"
  "LRK_THREAD_LOCAL_VAR_TABLE \<noteq> LRK_LCODE_CHUNK_TABLE" "LRK_LCODE_CHUNK_TABLE \<noteq> LRK_THREAD_LOCAL_VAR_TABLE"
  by (simp_all add: LRK_TID_THREAD_TABLE_def LRK_THREAD_LOCAL_VAR_TABLE_def LRK_LCODE_CHUNK_TABLE_def)

lemma doc_sel [simp]:
  "la_push doc = d_push" "la_pushstring doc = (\<lambda>L s. d_push L (V_Str s))" "la_pushthread doc = (\<lambda>L. d_push L (V_Thr L))"
  "la_pushvalue doc = (\<lambda>L i w. case lua_at L i w of Some v \<Rightarrow> d_push L v w | None \<Rightarrow> (Undef, w))"
  "la_gettop doc = (\<lambda>L w. (Fine (int (length (frame L w))), w))" "la_type doc = (\<lambda>L i. d_value L i (\<lambda>v. Fine (lua_type v)))"
  "la_tointeger doc = (\<lambda>L i. d_value L i (\<lambda>v. case v of V_Int n \<Rightarrow> Fine n | V_Str _ \<Rightarrow> Undef | _ \<Rightarrow> Fine 0))"
  "la_tostring doc = (\<lambda>L i. d_value L i (\<lambda>v. case v of V_Str s \<Rightarrow> Fine (Some s) | V_Int _ \<Rightarrow> Undef | _ \<Rightarrow> Fine None))"
  "la_touserdata doc = (\<lambda>L i. d_value L i (\<lambda>v. Fine (case v of V_Light p \<Rightarrow> p | V_Ud a \<Rightarrow> Block a | _ \<Rightarrow> NULL_PTR)))"
  "la_tothread doc = (\<lambda>L i. d_value L i (\<lambda>v. Fine (case v of V_Thr T \<Rightarrow> Some T | _ \<Rightarrow> None)))"
  "la_newtable doc = (\<lambda>L. d_new L V_Tab (new_tab (\<lambda>_. V_Nil)))"
  "la_newthread doc = (\<lambda>L. d_new L V_Thr (\<lambda>T w. w\<lparr>lw_stk := (lw_stk w)(T := [(LUA_MINSTACK, [])])\<rparr>))"
  "la_gettable doc = d_gettable" "la_settable doc = d_settable" "la_getfield doc = d_getfield" "la_setfield doc = d_setfield"
  "la_setmetatable doc = d_setmetatable" "la_newmetatable doc = d_newmetatable" "la_error doc = (\<lambda>L w. (Raised, w))"
  "la_setfuncs doc = d_setfuncs" "la_getglobal doc = d_getglobal" "la_newuserdata doc = (\<lambda>L. d_new L V_Ud (\<lambda>a w. w\<lparr>lw_meta := (lw_meta w)(a := None)\<rparr>))"
  "la_checkinteger doc = (\<lambda>L i w. case lua_at L i w of Some (V_Int n) \<Rightarrow> (Fine n, w) | Some (V_Str _) \<Rightarrow> (Undef, w) | _ \<Rightarrow> (Raised, w))"
  "la_checkudata doc = d_checkudata"
  "la_pop doc = (\<lambda>L n w. if n \<le> length (frame L w) then (Fine (), set_frame L (drop n (frame L w)) w) else (Undef, w))"
  "la_loadfile doc = (\<lambda>L s w. case d_push L (snd (lw_file w s)) w of
         (Fine _, w) \<Rightarrow> (Fine (fst (lw_file w s)), w) | (_, w) \<Rightarrow> (Undef, w))"
  by (simp_all add: doc_def)

lemmas run_simps = bnd_def ret_def called_def d_push_def d_value_def d_new_def d_gettable_def d_settable_def d_getfield_def
  d_index_def d_assign_def d_setfield_def d_setmetatable_def new_tab_def lua_at_def slot_of_def frame_def room_def set_frame_def has_meta_def
  LUA_MINSTACK_def lua_type_def LUA_TNIL_def lbind_checkmetatable_def

definition stack_kept :: "addr \<Rightarrow> lview \<Rightarrow> lview \<Rightarrow> bool" where
  "stack_kept L w w' \<longleftrightarrow> kept L w w' \<and> lw_stk w' L = lw_stk w L"

lemma pop_errorI:
  assumes ok: "api_ok view A" and L: "L < lw_next w" "lw_stk w L \<noteq> []"
    and y: "c \<noteq> LUA_OK" "kept L w (view y)" "frame L (view y) = e # frame L w"
  shows "\<exists>z. la_pop A L 1 y = (Fine (), z) \<and> stack_kept L w (view z)"
proof -
  have "la_pop doc L 1 (view y) = (Fine (), set_frame L (frame L w) (view y))" using y(3) by simp
  moreover have "L < lw_next (view y)" using y(2) L(1) by (rule kept_next)
  ultimately obtain z where z: "la_pop A L 1 y = (Fine (), z)" "view z = set_frame L (frame L w) (view y)"
    using exactlyD [OF api_exactly(4) [OF ok]] by blast
  have "lw_stk (set_frame L (frame L w) (view y)) L = lw_stk w L"
    using y(2) L(2) by (auto simp: kept_def set_frame_def frame_def split: list.splits)
  then show ?thesis using z kept_trans [OF y(2) kept_set_frame] by (auto simp: stack_kept_def)
qed

text \<open>A whole binding: push, call, pop the message.\<close>

lemma protected_call_one:
  fixes g :: "string option \<Rightarrow> (lview, int) lprog"
  assumes ok: "api_ok view A" and fol: "follows_one view L f g" and w: "view x = w"
    and L: "L < lw_next w" "length args < room L w"
    and run: "\<And>e. g e (called L args w) = (q e, v e)" "\<And>e. q e \<noteq> Undef" and res: "\<And>e k. q e = Fine k \<Longrightarrow> 0 \<le> k \<and> k \<le> int (length (frame L (v e)))"
  shows "\<exists>e c y. bnd (steps (map (la_push A L) (V_C nm # args))) (\<lambda>_. bnd (la_pcall A L (length args) r f) k) x = k c y
    \<and> ((\<exists>i. q e = Fine i \<and> c = LUA_OK \<and> view y = returned L (results (nat i) r (frame L (v e))) (v e))
       \<or> c \<noteq> LUA_OK \<and> (\<exists>z. la_pop A L 1 y = (Fine (), z) \<and> stack_kept L w (view z)))"
proof -
  have stk: "lw_stk w L \<noteq> []" using L(2) room_pos by fastforce
  obtain x1 where x1: "steps (map (la_push A L) (V_C nm # args)) x = (Fine (), x1)" "view x1 = set_frame L (rev args @ V_C nm # frame L w) w"
    using push_frame [OF ok, of "V_C nm # args" L x] L w by auto
  obtain e where at: "protects_at view L (length args) x1 (la_pcall A L (length args) r f) (la_pcall doc L (length args) r (g e))"
    using api_protects [OF ok fol, of "length args" r] unfolding protects_def by blast
  from call_back_at [OF at L(1) stk x1(2) run res] obtain c y where call: "la_pcall A L (length args) r f x1 = (Fine c, y)"
    "(\<exists>i. q e = Fine i \<and> c = LUA_OK \<and> view y = returned L (results (nat i) r (frame L (v e))) (v e))
     \<or> c \<noteq> LUA_OK \<and> kept L w (view y) \<and> (\<exists>e. frame L (view y) = e # frame L w)" by blast
  have "bnd (steps (map (la_push A L) (V_C nm # args))) (\<lambda>_. bnd (la_pcall A L (length args) r f) k) x = k c y"
    using x1(1) call(1) by (simp add: bnd_def)
  then show ?thesis using call(2) pop_errorI [OF ok L(1) stk] by metis
qed

lemma protected_call:
  assumes "api_ok view A" and fol: "follows view L f g" and "view x = w" and "L < lw_next w" "length args < room L w"
    and "g (called L args w) = (q, v)" "q \<noteq> Undef" and "\<And>k. q = Fine k \<Longrightarrow> 0 \<le> k \<and> k \<le> int (length (frame L v))"
  shows "\<exists>c y. bnd (steps (map (la_push A L) (V_C nm # args))) (\<lambda>_. bnd (la_pcall A L (length args) r f) k) x = k c y
    \<and> ((\<exists>i. q = Fine i \<and> c = LUA_OK \<and> view y = returned L (results (nat i) r (frame L v)) v)
       \<or> c \<noteq> LUA_OK \<and> (\<exists>z. la_pop A L 1 y = (Fine (), z) \<and> stack_kept L w (view z)))"
  using protected_call_one [where g = "\<lambda>_. g" and q = "\<lambda>_. q" and v = "\<lambda>_. v", OF assms(1) _ assms(3-8)] fol by simp

lemma pop_error_simps: "pop_error A L LUA_OK y = (Fine LUA_OK, y)" "c \<noteq> LUA_OK \<Longrightarrow> la_pop A L 1 y = (Fine (), z) \<Longrightarrow> pop_error A L c y = (Fine c, z)"
  by (simp_all add: pop_error_def bnd_def ret_def)

lemma protected_pop:
  assumes "api_ok view A" and "follows view L f g" and "view x = w" and "L < lw_next w" "length args < room L w"
    and "g (called L args w) = (q, v)" "q \<noteq> Undef" and "\<And>k. q = Fine k \<Longrightarrow> 0 \<le> k \<and> k \<le> int (length (frame L v))"
  shows "\<exists>c y. bnd (steps (map (la_push A L) (V_C nm # args))) (\<lambda>_. bnd (la_pcall A L (length args) r f) (pop_error A L)) x = (Fine c, y)
    \<and> ((\<exists>i. q = Fine i \<and> c = LUA_OK \<and> view y = returned L (results (nat i) r (frame L v)) v) \<or> c \<noteq> LUA_OK \<and> stack_kept L w (view y))"
  using protected_call [OF assms, of nm r "pop_error A L"] pop_error_simps by metis

lemma protected_pop_one:
  fixes g :: "string option \<Rightarrow> (lview, int) lprog"
  assumes "api_ok view A" and "follows_one view L f g" and "view x = w" and "L < lw_next w" "length args < room L w"
    and "\<And>e. g e (called L args w) = (q e, v e)" "\<And>e. q e \<noteq> Undef" and "\<And>e k. q e = Fine k \<Longrightarrow> 0 \<le> k \<and> k \<le> int (length (frame L (v e)))"
  shows "\<exists>e c y. bnd (steps (map (la_push A L) (V_C nm # args))) (\<lambda>_. bnd (la_pcall A L (length args) r f) (pop_error A L)) x = (Fine c, y)
    \<and> ((\<exists>i. q e = Fine i \<and> c = LUA_OK \<and> view y = returned L (results (nat i) r (frame L (v e))) (v e)) \<or> c \<noteq> LUA_OK \<and> stack_kept L w (view y))"
  using protected_call_one [OF assms, of nm r "pop_error A L"] pop_error_simps by metis

subsection \<open>Coroutines by thread id\<close>

lemma binds_okD:
  assumes "binds_ok w"
  shows "lw_tab w (lw_reg w) (V_Str LRK_TID_THREAD_TABLE) = V_Tab (the_tab LRK_TID_THREAD_TABLE w)"
    "lw_tab w (lw_reg w) (V_Str LRK_THREAD_LOCAL_VAR_TABLE) = V_Tab (the_tab LRK_THREAD_LOCAL_VAR_TABLE w)"
    "lw_tab w (lw_reg w) (V_Str LRK_LCODE_CHUNK_TABLE) = V_Tab (the_tab LRK_LCODE_CHUNK_TABLE w)"
    "distinct [lw_reg w, the_tab LRK_TID_THREAD_TABLE w, the_tab LRK_THREAD_LOCAL_VAR_TABLE w, the_tab LRK_LCODE_CHUNK_TABLE w]"
    "lw_reg w < lw_next w" "the_tab LRK_TID_THREAD_TABLE w < lw_next w" "the_tab LRK_THREAD_LOCAL_VAR_TABLE w < lw_next w"
    "the_tab LRK_LCODE_CHUNK_TABLE w < lw_next w" "lw_meta w (lw_reg w) = None" "lw_meta w (the_tab LRK_TID_THREAD_TABLE w) = None"
    "lw_meta w (the_tab LRK_LCODE_CHUNK_TABLE w) = None"
    "lw_meta w (the_tab LRK_THREAD_LOCAL_VAR_TABLE w) = Some (the_tab LRK_THREAD_LOCAL_VAR_TABLE w)"
    "lw_tab w (the_tab LRK_THREAD_LOCAL_VAR_TABLE w) (V_Str ''__index'') = V_Nil"
    "lw_tab w (the_tab LRK_THREAD_LOCAL_VAR_TABLE w) (V_Str ''__newindex'') = V_Nil"
    "vars_tab w T = Some u \<Longrightarrow> u < lw_next w" "vars_tab w T = Some u \<Longrightarrow> lw_meta w u = None"
    "vars_tab w T = Some u \<Longrightarrow> u \<noteq> lw_reg w" "vars_tab w T = Some u \<Longrightarrow> u \<noteq> the_tab LRK_TID_THREAD_TABLE w"
    "vars_tab w T = Some u \<Longrightarrow> u \<noteq> the_tab LRK_THREAD_LOCAL_VAR_TABLE w" "vars_tab w T = Some u \<Longrightarrow> u \<noteq> the_tab LRK_LCODE_CHUNK_TABLE w"
    "vars_tab w T = Some u \<Longrightarrow> vars_tab w T' = Some u \<Longrightarrow> T = T'"
  using assms by (auto simp: binds_ok_def Let_def)

text \<open>The new coroutine and its table of variables.\<close>

definition referred :: "u32 \<Rightarrow> lview \<Rightarrow> lview" where
  "referred tid w = (let t = the_tab LRK_TID_THREAD_TABLE w; v = the_tab LRK_THREAD_LOCAL_VAR_TABLE w; T = lw_next w in
     w\<lparr>lw_next := T + 2, lw_meta := (lw_meta w)(T + 1 := None), lw_stk := (lw_stk w)(T := [(LUA_MINSTACK, [])]),
       lw_tab := (lw_tab w)(t := (lw_tab w t)(V_Int (uint tid) := V_Thr T), T + 1 := \<lambda>_. V_Nil,
         v := (lw_tab w v)(V_Thr T := V_Tab (T + 1)))\<rparr>)"

lemma ref_tid_run:
  assumes "binds_ok w" and "L < lw_next w" and "lw_stk w L = (lim, us) # fs"
  shows "\<exists>v. lcf_ref_tid_lthread doc L (called L [V_Int (uint tid)] w) = (Fine 1, v) \<and> length (frame L v) = 4
    \<and> returned L (results 1 1 (frame L v)) v = set_frame L (V_Thr (lw_next w) # frame L w) (referred tid w)"
  using assms(2,3) binds_okD(1-14) [OF assms(1)] unfolding lcf_ref_tid_lthread_def
  by (simp add: run_simps returned_def results_def referred_def Let_def)

lemma referred_binds:
  assumes "binds_ok w"
  shows "binds_ok (referred tid w)" and "binds (referred tid w) = (binds w)\<lparr>lb_tid := (lb_tid (binds w))(uint tid \<mapsto> lw_next w),
    lb_vars := (lb_vars (binds w))(lw_next w \<mapsto> \<lambda>_. V_Nil)\<rparr>"
proof -
  note D = binds_okD [OF assms]
  have tabs: "the_tab nm (referred tid w) = the_tab nm w" for nm
    using D by (simp add: the_tab_def referred_def Let_def)
  have vars: "vars_tab (referred tid w) T = (if T = lw_next w then Some (lw_next w + 1) else vars_tab w T)" for T
    using D by (simp add: vars_tab_def tabs) (simp add: referred_def Let_def)
  show "binds_ok (referred tid w)"
    using D unfolding binds_ok_def tabs vars Let_def by (auto simp: referred_def Let_def split: if_splits) (fastforce dest: D(15))+
  show "binds (referred tid w) = (binds w)\<lparr>lb_tid := (lb_tid (binds w))(uint tid \<mapsto> lw_next w),
    lb_vars := (lb_vars (binds w))(lw_next w \<mapsto> \<lambda>_. V_Nil)\<rparr>"
    using D(1-14) unfolding binds_def tabs vars
    by (auto simp: referred_def Let_def fun_eq_iff map_option_case split: option.splits dest: D(15-20))
qed


lemma room_stk:
  assumes "0 < room L w"
  obtains lim us fs where "lw_stk w L = (lim, us) # fs" and "length us < lim"
  using assms by (auto simp: room_def split: list.splits)

lemma stack_kept_room: "stack_kept L w w' \<Longrightarrow> room L w' = room L w \<and> frame L w' = frame L w"
  by (simp add: stack_kept_def room_def frame_def)

lemma stack_kept_refl [simp]: "stack_kept L w w"
  by (simp add: stack_kept_def)

lemma stack_kept_trans: "stack_kept L u v \<Longrightarrow> stack_kept L v w \<Longrightarrow> stack_kept L u w"
  using kept_trans by (auto simp: stack_kept_def)

lemma referred_stack: "L < lw_next w \<Longrightarrow> stack_kept L w (referred tid w)"
  by (auto simp: stack_kept_def kept_def referred_def Let_def)

lemma ref_tid_call:
  assumes ok: "api_ok view A" and w: "view x = w" "binds_ok w" and L: "L < lw_next w" "1 < room L w"
  shows "\<exists>y. (lbind_ref_tid_lthread A L tid x = (Fine (Some (lw_next w)), y) \<and> view y = referred tid w)
    \<or> (lbind_ref_tid_lthread A L tid x = (Fine None, y) \<and> stack_kept L w (view y))"
proof -
  obtain lim us fs where stk: "lw_stk w L = (lim, us) # fs" using room_stk L(2) by (metis less_trans zero_less_one)
  obtain v where v: "lcf_ref_tid_lthread doc L (called L [V_Int (uint tid)] w) = (Fine 1, v)" "length (frame L v) = 4"
    "returned L (results 1 1 (frame L v)) v = set_frame L (V_Thr (lw_next w) # frame L w) (referred tid w)"
    using ref_tid_run [OF w(2) L(1) stk] by blast
  let ?k = "\<lambda>r. if r = LUA_OK then bnd (la_tothread A L (Idx (-1))) (\<lambda>T. bnd (la_pop A L 1) (\<lambda>_. ret T)) else bnd (la_pop A L 1) (\<lambda>_. ret None)"
  obtain c y where call: "lbind_ref_tid_lthread A L tid x = ?k c y"
    "c = LUA_OK \<and> view y = set_frame L (V_Thr (lw_next w) # frame L w) (referred tid w)
     \<or> c \<noteq> LUA_OK \<and> (\<exists>z. la_pop A L 1 y = (Fine (), z) \<and> stack_kept L w (view z))"
    using protected_call [OF ok ref_tid_follows [OF ok] w(1) L(1), of "[V_Int (uint tid)]" "Fine 1" v "''lcf_ref_tid_lthread''" 1 ?k]
      L(2) v by (auto simp: lbind_ref_tid_lthread_def)
  from call(2) show ?thesis
  proof
    assume y: "c = LUA_OK \<and> view y = set_frame L (V_Thr (lw_next w) # frame L w) (referred tid w)"
    have stk': "lw_stk (referred tid w) L = (lim, us) # fs" using stk L(1) by (simp add: referred_def Let_def)
    have top: "la_tothread doc L (Idx (-1)) (view y) = (Fine (Some (lw_next w)), view y)"
      using y stk' by (simp add: d_value_def lua_at_def slot_of_def)
    have Ly: "L < lw_next (view y)" using y L(1) by (simp add: referred_def Let_def)
    obtain y1 where y1: "la_tothread A L (Idx (-1)) y = (Fine (Some (lw_next w)), y1)" "view y1 = view y"
      using exactlyD [OF api_exactly(9) [OF ok] top _ Ly] by auto
    have "la_pop doc L 1 (view y1) = (Fine (), referred tid w)"
    proof -
      have "frame L w = frame L (referred tid w)" using stk stk' by (simp add: frame_def)
      then show ?thesis using y y1(2) stk' by simp
    qed
    then obtain z where "la_pop A L 1 y1 = (Fine (), z)" "view z = referred tid w"
      using exactlyD [OF api_exactly(4) [OF ok], of L 1 y1] Ly y1(2) by auto
    then show ?thesis using call(1) y y1(1) by (auto simp: bnd_def ret_def)
  next
    assume "c \<noteq> LUA_OK \<and> (\<exists>z. la_pop A L 1 y = (Fine (), z) \<and> stack_kept L w (view z))"
    then show ?thesis using call(1) by (auto simp: bnd_def ret_def)
  qed
qed

lemma stk_idem:
  "lw_stk w L = s \<Longrightarrow> w\<lparr>lw_tab := t, lw_stk := (lw_stk w)(L := s)\<rparr> = w\<lparr>lw_tab := t\<rparr>"
  "lw_stk w L = s \<Longrightarrow> w\<lparr>lw_stk := (lw_stk w)(L := s)\<rparr> = w"
  by (cases w; simp add: fun_upd_idem)+

text \<open>Forgetting a coroutine.\<close>

definition unreferred :: "u32 \<Rightarrow> lview \<Rightarrow> lview" where
  "unreferred tid w = (let t = the_tab LRK_TID_THREAD_TABLE w in
     w\<lparr>lw_tab := (lw_tab w)(t := (lw_tab w t)(V_Int (uint tid) := V_Nil))\<rparr>)"

lemma unref_tid_run:
  assumes "binds_ok w" and "lw_stk w L = (lim, us) # fs"
  shows "\<exists>v. lcf_unref_tid_lthread doc L (called L [V_Int (uint tid)] w) = (Fine 0, v) \<and> returned L (results 0 0 (frame L v)) v = unreferred tid w"
  using assms(2) binds_okD(1-14) [OF assms(1)] unfolding lcf_unref_tid_lthread_def
  by (simp add: run_simps returned_def results_def unreferred_def Let_def stk_idem)

lemma unreferred_binds:
  assumes "binds_ok w"
  shows "binds_ok (unreferred tid w)" and "binds (unreferred tid w) = (binds w)\<lparr>lb_tid := (lb_tid (binds w))(uint tid := None)\<rparr>"
    and "stack_kept L w (unreferred tid w)"
proof -
  note D = binds_okD [OF assms]
  have tabs: "the_tab nm (unreferred tid w) = the_tab nm w" for nm
    using D by (simp add: the_tab_def unreferred_def Let_def)
  have vars: "vars_tab (unreferred tid w) T = vars_tab w T" for T
    using D by (simp add: vars_tab_def tabs) (simp add: unreferred_def Let_def)
  show "binds_ok (unreferred tid w)"
    using D unfolding binds_ok_def tabs vars Let_def by (auto simp: unreferred_def Let_def)
  show "binds (unreferred tid w) = (binds w)\<lparr>lb_tid := (lb_tid (binds w))(uint tid := None)\<rparr>"
    using D(1-14) unfolding binds_def tabs vars
    by (auto simp: unreferred_def Let_def fun_eq_iff map_option_case split: option.splits dest: D(15-20))
  show "stack_kept L w (unreferred tid w)" by (simp add: stack_kept_def kept_def unreferred_def Let_def)
qed

lemma unref_tid_call:
  assumes ok: "api_ok view A" and w: "view x = w" "binds_ok w" and L: "L < lw_next w" "1 < room L w"
  shows "\<exists>c y. lbind_unref_tid_lthread A L tid x = (Fine c, y) \<and> (c = LUA_OK \<and> view y = unreferred tid w \<or> c \<noteq> LUA_OK \<and> stack_kept L w (view y))"
proof -
  obtain lim us fs where stk: "lw_stk w L = (lim, us) # fs" using room_stk L(2) by (metis less_trans zero_less_one)
  obtain v where v: "lcf_unref_tid_lthread doc L (called L [V_Int (uint tid)] w) = (Fine 0, v)" "returned L (results 0 0 (frame L v)) v = unreferred tid w"
    using unref_tid_run [OF w(2) stk] by blast
  show ?thesis
    using protected_pop [OF ok unref_tid_follows [OF ok] w(1) L(1), of "[V_Int (uint tid)]" "Fine 0" v "''lcf_unref_tid_lthread''" 0] L(2) v
    by (auto simp: lbind_unref_tid_lthread_def)
qed


subsection \<open>Compiled code by file\<close>

definition coded :: "string \<Rightarrow> lv \<Rightarrow> lview \<Rightarrow> lview" where
  "coded f v w = (let c = the_tab LRK_LCODE_CHUNK_TABLE w in w\<lparr>lw_tab := (lw_tab w)(c := (lw_tab w c)(V_Str f := v))\<rparr>)"

lemma coded_binds:
  assumes "binds_ok w"
  shows "binds_ok (coded f v w)" and "binds (coded f v w) = (binds w)\<lparr>lb_code := (lb_code (binds w))(f := v)\<rparr>"
    and "stack_kept L w (coded f v w)"
proof -
  note D = binds_okD [OF assms]
  have tabs: "the_tab nm (coded f v w) = the_tab nm w" for nm
    using D by (simp add: the_tab_def coded_def Let_def)
  have vars: "vars_tab (coded f v w) T = vars_tab w T" for T
    using D by (simp add: vars_tab_def tabs) (simp add: coded_def Let_def)
  show "binds_ok (coded f v w)"
    using D unfolding binds_ok_def tabs vars Let_def by (auto simp: coded_def Let_def)
  show "binds (coded f v w) = (binds w)\<lparr>lb_code := (lb_code (binds w))(f := v)\<rparr>"
    using D(1-14) unfolding binds_def tabs vars
    by (auto simp: coded_def Let_def fun_eq_iff map_option_case split: option.splits dest: D(15-20))
  show "stack_kept L w (coded f v w)" by (simp add: stack_kept_def kept_def coded_def Let_def)
qed

text \<open>What the loading of a file leaves on the stack.\<close>

definition loaded :: "lview \<Rightarrow> string \<Rightarrow> string option \<Rightarrow> lv" where
  "loaded w f short = (case short of None \<Rightarrow> snd (lw_file w f) | Some e \<Rightarrow> V_Str e)"

lemma ref_chunk_run:
  assumes "binds_ok w" and "lw_stk w L = (lim, us) # fs"
  shows "\<exists>v. ref_chunk L e (called L [V_Light (Chars f)] w) = (Fine 0, v)
    \<and> returned L (results 0 0 (frame L v)) v = coded f (loaded w f e) w"
proof (cases e)
  case None
  then show ?thesis
    using assms(2) binds_okD(1-14) [OF assms(1)] unfolding lcf_ref_lcode_chunk_def with_chars_def
    by (simp add: run_simps returned_def results_def coded_def Let_def stk_idem loading_def loaded_def)
next
  case (Some m)
  then show ?thesis
    using assms(2) binds_okD(1-14) [OF assms(1)] unfolding lcf_ref_lcode_chunk_def with_chars_def
    by (simp add: run_simps returned_def results_def coded_def Let_def stk_idem loading_def loaded_def)
qed

lemma ref_chunk_doc: "ref_chunk L None = lcf_ref_lcode_chunk doc L"
  by (simp add: lcf_ref_lcode_chunk_def lbind_checkmetatable_def loading_def cong: if_cong del: doc_sel)

lemma ref_chunk_call:
  assumes ok: "api_ok view A" and w: "view x = w" "binds_ok w" and L: "L < lw_next w" "1 < room L w"
  shows "\<exists>c y. lbind_ref_lcode_chunk A L f x = (Fine c, y)
    \<and> (c = LUA_OK \<and> (\<exists>e. view y = coded f (loaded w f e) w) \<or> c \<noteq> LUA_OK \<and> stack_kept L w (view y))"
proof -
  obtain lim us fs where stk: "lw_stk w L = (lim, us) # fs" using room_stk L(2) by (metis less_trans zero_less_one)
  define v where "v e = snd (ref_chunk L e (called L [V_Light (Chars f)] w))" for e
  have v: "ref_chunk L e (called L [V_Light (Chars f)] w) = (Fine 0, v e)"
    "returned L (results 0 0 (frame L (v e))) (v e) = coded f (loaded w f e) w" for e
    using ref_chunk_run [OF w(2) stk, of e f] unfolding v_def by (auto simp del: doc_sel)
  obtain e c y where "lbind_ref_lcode_chunk A L f x = (Fine c, y)"
    "(\<exists>i. Fine 0 = Fine i \<and> c = LUA_OK \<and> view y = returned L (results (nat i) 0 (frame L (v e))) (v e)) \<or> c \<noteq> LUA_OK \<and> stack_kept L w (view y)"
    using protected_pop_one [where q = "\<lambda>_. Fine 0" and args = "[V_Light (Chars f)]" and nm = "''lcf_ref_lcode_chunk''" and r = 0,
        OF ok ref_chunk_one [OF ok] w(1) L(1) _ v(1)] L(2)
    by (fastforce simp: lbind_ref_lcode_chunk_def)
  then show ?thesis using v(2) [of e] by (intro exI [of _ c] exI [of _ y]) auto
qed

text \<open>Where the loading of files does not run out of memory, what is stored is what the file holds.\<close>

lemma ref_chunk_loaded:
  assumes ok: "api_ok view A" and load: "\<And>f. follows view L (la_loadfile A L f) (la_loadfile doc L f)"
    and w: "view x = w" "binds_ok w" and L: "L < lw_next w" "1 < room L w"
    and ref: "lbind_ref_lcode_chunk A L f x = (Fine LUA_OK, y)"
  shows "view y = coded f (snd (lw_file w f)) w"
proof -
  obtain lim us fs where stk: "lw_stk w L = (lim, us) # fs" using room_stk L(2) by (metis less_trans zero_less_one)
  obtain v where v: "lcf_ref_lcode_chunk doc L (called L [V_Light (Chars f)] w) = (Fine 0, v)"
    "returned L (results 0 0 (frame L v)) v = coded f (snd (lw_file w f)) w"
    using ref_chunk_run [OF w(2) stk, of None f] by (auto simp: ref_chunk_doc loaded_def simp del: doc_sel)
  show ?thesis
    using protected_pop [OF ok ref_chunk_follows [OF ok load] w(1) L(1), of "[V_Light (Chars f)]" "Fine 0" v "''lcf_ref_lcode_chunk''" 0] L(2) v ref
    by (auto simp: lbind_ref_lcode_chunk_def)
qed

lemma get_chunk_run:
  assumes "binds_ok w" and "lw_stk w L = (lim, us) # fs"
  shows "\<exists>v. lcf_get_lcode_chunk doc L (called L [V_Light (Chars f)] w) = (Fine 1, v) \<and> 1 \<le> length (frame L v)
    \<and> returned L (results 1 1 (frame L v)) v = set_frame L (lb_code (binds w) f # frame L w) w"
  using assms(2) binds_okD(1-14) [OF assms(1)] unfolding lcf_get_lcode_chunk_def with_chars_def
  by (simp add: run_simps returned_def results_def binds_def Let_def stk_idem)

lemma get_chunk_call:
  assumes ok: "api_ok view A" and w: "view x = w" "binds_ok w" and L: "L < lw_next w" "1 < room L w"
  shows "\<exists>c y. lbind_get_lcode_chunk A L f x = (Fine c, y)
    \<and> (c = LUA_OK \<and> view y = set_frame L (lb_code (binds w) f # frame L w) w \<or> c \<noteq> LUA_OK \<and> stack_kept L w (view y))"
proof -
  obtain lim us fs where stk: "lw_stk w L = (lim, us) # fs" using room_stk L(2) by (metis less_trans zero_less_one)
  obtain v where v: "lcf_get_lcode_chunk doc L (called L [V_Light (Chars f)] w) = (Fine 1, v)" "1 \<le> length (frame L v)"
    "returned L (results 1 1 (frame L v)) v = set_frame L (lb_code (binds w) f # frame L w) w"
    using get_chunk_run [OF w(2) stk] by blast
  show ?thesis
    using protected_pop [OF ok get_chunk_follows [OF ok] w(1) L(1), of "[V_Light (Chars f)]" "Fine 1" v "''lcf_get_lcode_chunk''" 1] L(2) v
    by (auto simp: lbind_get_lcode_chunk_def)
qed

text \<open>To forget a chunk fails: the value at index \<open>-3\<close> is the argument, not a table.\<close>

lemma unref_chunk_run:
  "\<exists>v. lcf_unref_lcode_chunk doc L (called L [V_Light (Chars f)] w) = (Raised, v)"
  unfolding lcf_unref_lcode_chunk_def with_chars_def by (simp add: run_simps)

lemma unref_chunk_call:
  assumes ok: "api_ok view A" and w: "view x = w" and L: "L < lw_next w" "1 < room L w"
  shows "\<exists>c y. lbind_unref_lcode_chunk A L f x = (Fine c, y) \<and> c \<noteq> LUA_OK \<and> stack_kept L w (view y)"
proof -
  obtain v where v: "lcf_unref_lcode_chunk doc L (called L [V_Light (Chars f)] w) = (Raised, v)" using unref_chunk_run by blast
  show ?thesis
    using protected_pop [OF ok unref_chunk_follows [OF ok] w(1) L(1), of "[V_Light (Chars f)]" Raised v "''lcf_unref_lcode_chunk''" 0] L(2) v
    by (auto simp: lbind_unref_lcode_chunk_def)
qed

end
