(* ===== verification/Lua_Vars.thy ===== *)
theory Lua_Vars
  imports Lua_Run
begin

text \<open>
  The variables of a coroutine, and those of the registry: what it takes to read several of them
  and to set several of them, loop by loop.
\<close>

subsection \<open>Reading the variables of a coroutine\<close>

lemma bnd_assoc: "bnd (bnd m f) g = bnd m (\<lambda>a. bnd (f a) g)"
  by (auto simp: bnd_def fun_eq_iff split: prod.splits lres.splits)

lemma bnd_ret [simp]: "bnd (ret a) f = f a"
  by (simp add: bnd_def ret_def fun_eq_iff)

lemma bnd_run: "m x = (Fine a, y) \<Longrightarrow> f a y = z \<Longrightarrow> bnd m f x = z"
  by simp

lemma bnd_ret_right [simp]: "bnd m ret = m"
  by (auto simp: bnd_def ret_def fun_eq_iff split: prod.splits lres.splits)

lemma steps_append: "steps (ms @ ns) = bnd (steps ms) (\<lambda>_. steps ns)"
  by (induction ms) (simp_all add: bnd_assoc)

text \<open>The state in the function, with \<open>vs\<close> on the stack.\<close>

definition within :: "addr \<Rightarrow> nat \<Rightarrow> lv list \<Rightarrow> lview \<Rightarrow> lview" where
  "within L lim vs w = w\<lparr>lw_stk := (lw_stk w)(L := (lim, vs) # lw_stk w L)\<rparr>"

lemma within_simps [simp]:
  "frame L (within L lim vs w) = vs" "room L (within L lim vs w) = lim - length vs" "set_frame L us (within L lim vs w) = within L lim us w"
  "lw_tab (within L lim vs w) = lw_tab w" "lw_meta (within L lim vs w) = lw_meta w" "lw_reg (within L lim vs w) = lw_reg w"
  "(within L lim vs w)\<lparr>lw_tab := t\<rparr> = within L lim vs (w\<lparr>lw_tab := t\<rparr>)"
  "returned L us (within L lim vs w) = set_frame L (us @ frame L w) w"
  by (simp_all add: within_def frame_def room_def set_frame_def returned_def Let_def stk_idem)

lemma called_within: "called L args w = within L (length args + LUA_MINSTACK) (rev args) w"
  by (simp add: called_def within_def)

lemma steps_Cons: "m x = (Fine (), y) \<Longrightarrow> steps (m # ms) x = steps ms y"
  by simp

lemma get_one:
  assumes "vs = us @ V_Tab u # ws" and "length ws = n + 1" and "last ws = V_Light (Chars f)" and "lw_meta w u = None" and "length vs < lim"
  shows "bnd (la_touserdata doc L (Idx 1)) (\<lambda>p. with_chars p (\<lambda>field. steps [la_pushstring doc L field, la_gettable doc L (Idx (int n + 2))])) (within L lim vs w)
    = (Fine (), within L lim (lw_tab w u (V_Str f) # vs) w)"
proof -
  have "ws \<noteq> []" using assms(2) by auto
  then have "vs \<noteq> []" "vs ! (length vs - 1) = V_Light (Chars f)"
    using assms(1-3) by (auto simp: last_conv_nth nth_append)
  moreover have "(V_Str f # vs) ! (length vs + 1 - (n + 2)) = V_Tab u"
    using assms(1,2) by (simp add: nth_append)
  ultimately show ?thesis
    using assms(1,2,4,5) by (simp add: bnd_def with_chars_def d_value_def lua_at_def slot_of_def d_push_def d_gettable_def
      d_index_def has_meta_def ret_def nat_add_distrib Suc_le_eq)
qed

lemma get_loop:
  assumes "length us + length is + length ws + 1 \<le> lim" and "length ws = n + 1" and "last ws = V_Light (Chars f)" and "lw_meta w u = None"
  shows "steps (map (\<lambda>i. bnd (la_touserdata doc L (Idx 1)) (\<lambda>p. with_chars p (\<lambda>field.
      steps [la_pushstring doc L field, la_gettable doc L (Idx (int n + 2))]))) is) (within L lim (us @ V_Tab u # ws) w)
    = (Fine (), within L lim (replicate (length is) (lw_tab w u (V_Str f)) @ us @ V_Tab u # ws) w)"
  using assms(1)
proof (induction "is" arbitrary: us)
  case (Cons i "is")
  let ?s = "bnd (la_touserdata doc L (Idx 1)) (\<lambda>p. with_chars p (\<lambda>field. steps [la_pushstring doc L field, la_gettable doc L (Idx (int n + 2))]))"
  have one: "?s (within L lim (us @ V_Tab u # ws) w) = (Fine (), within L lim (lw_tab w u (V_Str f) # us @ V_Tab u # ws) w)"
    by (rule get_one [OF HOL.refl assms(2-4)]) (use Cons.prems in simp)
  have "steps (map (\<lambda>i. ?s) (i # is)) (within L lim (us @ V_Tab u # ws) w)
      = steps (map (\<lambda>i. ?s) is) (within L lim ((lw_tab w u (V_Str f) # us) @ V_Tab u # ws) w)"
    unfolding list.map append_Cons by (rule steps_Cons [of ?s, OF one])
  also note Cons.IH
  finally show ?case using Cons.prems by (simp add: replicate_app_Cons_same)
qed (simp add: ret_def)


lemma checkmetatable_run:
  assumes "lw_tab w (lw_reg w) (V_Str nm) = V_Tab t" and "length vs < lim"
  shows "lbind_checkmetatable doc L nm e (within L lim vs w) = (Fine (), within L lim (V_Tab t # vs) w)"
  using assms by (simp add: lbind_checkmetatable_def bnd_def ret_def d_getfield_def d_index_def lua_at_def d_push_def
      d_value_def slot_of_def lua_type_def LUA_TNIL_def)

lemma vars_start:
  assumes "binds_ok w" and "vars_tab w T = Some u" and "length vs + 2 \<le> lim"
  shows "steps [lbind_checkmetatable doc T LRK_THREAD_LOCAL_VAR_TABLE e, la_pushthread doc T, la_gettable doc T (Idx (-2))] (within T lim vs w)
    = (Fine (), within T lim (V_Tab u # V_Tab (the_tab LRK_THREAD_LOCAL_VAR_TABLE w) # vs) w)"
proof -
  note D = binds_okD [OF assms(1)]
  have "lw_tab w (the_tab LRK_THREAD_LOCAL_VAR_TABLE w) (V_Thr T) = V_Tab u"
    using assms(2) by (auto simp: vars_tab_def split: lv.splits)
  with checkmetatable_run [OF D(2), of vs lim T e] assms(3) show ?thesis
    by (simp add: bnd_def ret_def d_push_def d_gettable_def d_index_def lua_at_def slot_of_def)
qed

lemma get_vars_run:
  assumes "binds_ok w" and "vars_tab w T = Some u" and "length names \<le> 17"
  shows "lcf_get_thread_local_vars doc T (called T (map (\<lambda>f. V_Light (Chars f)) (f # names)) w)
    = (Fine (int (length names) + 1), within T (length names + 1 + LUA_MINSTACK) (replicate (length names + 1) (lw_tab w u (V_Str f))
        @ V_Tab u # V_Tab (the_tab LRK_THREAD_LOCAL_VAR_TABLE w) # rev (map (\<lambda>f. V_Light (Chars f)) (f # names))) w)"
proof -
  let ?args = "map (\<lambda>f. V_Light (Chars f)) (f # names)" and ?n = "length names + 1"
  let ?lim = "?n + LUA_MINSTACK" and ?ws = "V_Tab (the_tab LRK_THREAD_LOCAL_VAR_TABLE w) # rev ?args"
  have loop: "steps (map (\<lambda>i. bnd (la_touserdata doc T (Idx 1)) (\<lambda>p. with_chars p (\<lambda>field.
      steps [la_pushstring doc T field, la_gettable doc T (Idx (int ?n + 2))]))) [1..int ?n]) (within T ?lim ([] @ V_Tab u # ?ws) w)
    = (Fine (), within T ?lim (replicate (length [1..int ?n]) (lw_tab w u (V_Str f)) @ [] @ V_Tab u # ?ws) w)"
    using assms(3) binds_okD(16) [OF assms(1,2)] by (intro get_loop) (simp_all add: LUA_MINSTACK_def)
  have start: "steps [lbind_checkmetatable doc T LRK_THREAD_LOCAL_VAR_TABLE ''thread local var table not exist'',
      la_pushthread doc T, la_gettable doc T (Idx (-2))] (within T ?lim (rev ?args) w) = (Fine (), within T ?lim (V_Tab u # ?ws) w)"
    using assms(3) by (intro vars_start [OF assms(1,2)]) (simp add: LUA_MINSTACK_def)
  have top: "la_gettop doc T (within T ?lim (rev ?args) w) = (Fine (int ?n), within T ?lim (rev ?args) w)" by simp
  have called: "called T ?args w = within T ?lim (rev ?args) w" by (simp add: called_within)
  show ?thesis
    unfolding lcf_get_thread_local_vars_def called steps_append bnd_assoc
    by (rule bnd_run, rule top, rule bnd_run, rule start, rule bnd_run, rule loop [unfolded append_Nil]) (simp add: ret_def add.commute nat_add_distrib)
qed


lemma get_vars_call:
  assumes ok: "api_ok view A" and w: "view x = w" "binds_ok w" and T: "T < lw_next w" "length names + 1 < room T w"
    and vars: "lb_vars (binds w) T = Some vs" and n: "length names \<le> 17"
  shows "\<exists>c y. lbind_get_thread_local_vars A T (f # names) x = (Fine c, y)
    \<and> (c = LUA_OK \<and> view y = set_frame T (replicate (length names + 1) (vs f) @ frame T w) w \<or> c \<noteq> LUA_OK \<and> stack_kept T w (view y))"
proof -
  obtain u where u: "vars_tab w T = Some u" "vs f = lw_tab w u (V_Str f)" using vars by (auto simp: binds_def)
  note run = get_vars_run [OF w(2) u(1) n, of f]
  have res: "results (nat (int (length names) + 1)) (length names + 1) (replicate (length names + 1) (vs f) @ us) = replicate (length names + 1) (vs f)" for us
    by (simp add: results_def nat_add_distrib replicate_app_Cons_same)
  have args: "la_push A T (V_C nm) # map (\<lambda>f. la_push A T (V_Light (Chars f))) fs = map (la_push A T) (V_C nm # map (\<lambda>f. V_Light (Chars f)) fs)" for nm fs
    by (simp add: comp_def)
  show ?thesis
    unfolding lbind_get_thread_local_vars_def args
    using protected_pop [OF ok get_vars_follows [OF ok] w(1) T(1) _ run, of "''lcf_get_thread_local_vars''" "length names + 1"] T(2) res u(2)
    by (simp del: list.map steps.simps replicate.simps)
qed

subsection \<open>Setting variables\<close>

lemma steps_loop:
  assumes "\<And>i s. i \<in> set is \<Longrightarrow> P s \<Longrightarrow> f i (g s) = (Fine (), g (h i s)) \<and> P (h i s)" and "P s"
  shows "steps (map f is) (g s) = (Fine (), g (fold h is s)) \<and> P (fold h is s)"
  using assms by (induction "is" arbitrary: s) (auto simp: ret_def bnd_def)

text \<open>The fields of table \<open>t\<close> assigned one after the other.\<close>

definition assigned :: "addr \<Rightarrow> (string \<times> lv) list \<Rightarrow> lview \<Rightarrow> lview" where
  "assigned t kvs w = w\<lparr>lw_tab := (lw_tab w)(t := fold (\<lambda>(f, v) c. c(V_Str f := v)) kvs (lw_tab w t))\<rparr>"

lemma assigned_simps [simp]:
  "assigned t [] w = w"
  "lw_meta (assigned t kvs w) = lw_meta w" "lw_reg (assigned t kvs w) = lw_reg w" "lw_next (assigned t kvs w) = lw_next w"
  "lw_stk (assigned t kvs w) = lw_stk w"
  by (simp_all add: assigned_def within_def)

lemma assigned_Cons: "assigned t (kv # kvs) w = assigned t kvs (assigned t [kv] w)"
  by (cases kv) (simp add: assigned_def)

text \<open>The arguments of the C function: a type, then a name and a value for each variable.\<close>

definition va_args :: "int \<Rightarrow> (string \<times> lv) list \<Rightarrow> lv list" where
  "va_args ttype kvs = V_Int ttype # concat (map (\<lambda>(f, v). [V_Light (Chars f), v]) kvs)"

lemma length_va_args [simp]: "length (va_args ttype kvs) = 2 * length kvs + 1"
  by (simp add: va_args_def) (induction kvs; auto)

lemma va_args_nth:
  "i < length kvs \<Longrightarrow> va_args ttype kvs ! (2 * i + 1) = V_Light (Chars (fst (kvs ! i)))"
  "i < length kvs \<Longrightarrow> va_args ttype kvs ! (2 * i + 2) = snd (kvs ! i)"
proof -
  let ?c = "\<lambda>kvs. concat (map (\<lambda>(f, v). [V_Light (Chars f), v]) kvs)"
  have "i < length kvs \<Longrightarrow> ?c kvs ! (2 * i) = V_Light (Chars (fst (kvs ! i))) \<and> ?c kvs ! (2 * i + 1) = snd (kvs ! i)" for i
  proof (induction kvs arbitrary: i)
    case (Cons kv kvs)
    then show ?case by (cases kv; cases i) auto
  qed simp
  then show "i < length kvs \<Longrightarrow> va_args ttype kvs ! (2 * i + 1) = V_Light (Chars (fst (kvs ! i)))"
    "i < length kvs \<Longrightarrow> va_args ttype kvs ! (2 * i + 2) = snd (kvs ! i)"
    by (simp_all add: va_args_def)
qed

lemma lua_at_bottom:
  "1 \<le> k \<Longrightarrow> k \<le> length args \<Longrightarrow> lua_at L (Idx (int k)) (within L lim (us @ rev args) w) = Some (args ! (k - 1))"
  by (auto simp: lua_at_def slot_of_def nth_append rev_nth nat_diff_distrib)

lemma set_one:
  assumes i: "1 \<le> i" "i \<le> length kvs" and lim: "length us + 2 * length kvs + 3 \<le> lim"
    and t: "\<And>X. lua_at L tidx (within L lim (X @ us @ rev (va_args ttype kvs)) w) = Some (V_Tab t)" and meta: "lw_meta w t = None"
  shows "bnd (la_touserdata doc L (Idx (int i * 2))) (\<lambda>p. with_chars p (\<lambda>field.
      steps [la_pushstring doc L field, la_pushvalue doc L (Idx (int i * 2 + 1)), la_settable doc L tidx])) (within L lim (us @ rev (va_args ttype kvs)) w)
    = (Fine (), within L lim (us @ rev (va_args ttype kvs)) (assigned t [kvs ! (i - 1)] w))"
proof -
  let ?a = "va_args ttype kvs"
  obtain j where j: "i = Suc j" "j < length kvs" using i by (cases i) auto
  obtain f v where fv: "kvs ! j = (f, v)" by fastforce
  have one: "lua_at L (Idx (int i * 2)) (within L lim (us @ rev ?a) w) = Some (V_Light (Chars f))"
    using lua_at_bottom [of "2 * j + 2" ?a L lim us w] va_args_nth(1) [OF j(2), of ttype] j fv by (simp add: algebra_simps)
  have two: "lua_at L (Idx (int i * 2 + 1)) (within L lim (V_Str f # us @ rev ?a) w) = Some v"
    using lua_at_bottom [of "2 * j + 3" ?a L lim "V_Str f # us" w] va_args_nth(2) [OF j(2), of ttype] j fv
    by (simp add: algebra_simps numeral_3_eq_3)
  have three: "lua_at L tidx (within L lim (v # V_Str f # us @ rev ?a) w) = Some (V_Tab t)" using t [of "[v, V_Str f]"] by simp
  show ?thesis
    using one two three lim meta fv j
    by (simp add: bnd_def d_value_def with_chars_def d_push_def d_settable_def d_assign_def has_meta_def ret_def assigned_def within_def [symmetric])
qed


lemma set_loop:
  assumes lim: "length us + 2 * length kvs + 3 \<le> lim" and meta: "lw_meta w t = None"
    and t: "\<And>X v. lw_reg v = lw_reg w \<Longrightarrow> lua_at L tidx (within L lim (X @ us @ rev (va_args ttype kvs)) v) = Some (V_Tab t)"
  shows "steps (map (\<lambda>i. bnd (la_touserdata doc L (Idx (i * 2))) (\<lambda>p. with_chars p (\<lambda>field.
      steps [la_pushstring doc L field, la_pushvalue doc L (Idx (i * 2 + 1)), la_settable doc L tidx]))) [1..int (length kvs)])
      (within L lim (us @ rev (va_args ttype kvs)) w)
    = (Fine (), within L lim (us @ rev (va_args ttype kvs)) (assigned t kvs w))"
proof -
  let ?f = "\<lambda>i. bnd (la_touserdata doc L (Idx (i * 2))) (\<lambda>p. with_chars p (\<lambda>field.
      steps [la_pushstring doc L field, la_pushvalue doc L (Idx (i * 2 + 1)), la_settable doc L tidx]))"
  let ?g = "\<lambda>v. within L lim (us @ rev (va_args ttype kvs)) v" and ?h = "\<lambda>i. assigned t [kvs ! (nat i - 1)]"
  let ?P = "\<lambda>v. lw_reg v = lw_reg w \<and> lw_meta v t = None"
  have step: "?f i (?g v) = (Fine (), ?g (?h i v)) \<and> ?P (?h i v)" if "i \<in> set [1..int (length kvs)]" and "?P v" for i v
  proof -
    have "i = int (nat i)" "1 \<le> nat i" "nat i \<le> length kvs" using that(1) by auto
    then obtain k where k: "i = int k" "1 \<le> k" "k \<le> length kvs" by blast
    show ?thesis using set_one [OF k(2,3) lim, of L tidx ttype v t] t that(2) k(1) by simp
  qed
  have run: "steps (map ?f [1..int (length kvs)]) (?g w) = (Fine (), ?g (fold ?h [1..int (length kvs)] w)) \<and> ?P (fold ?h [1..int (length kvs)] w)"
  proof (rule steps_loop [of "[1..int (length kvs)]" ?P ?f ?g ?h])
    show "?f i (?g v) = (Fine (), ?g (?h i v)) \<and> ?P (?h i v)" if "i \<in> set [1..int (length kvs)]" and "?P v" for i v
      using that by (rule step)
    show "?P w" using meta by simp
  qed
  have fold: "fold ?h [1..int (length kvs)] v = assigned t kvs v" for v
  proof -
    have "map (\<lambda>i. kvs ! (nat i - 1)) [1..int (length kvs)] = kvs"
      by (rule nth_equalityI) (simp_all add: nth_upto nat_add_distrib)
    moreover have "fold (\<lambda>kv. assigned t [kv]) xs v = assigned t xs v" for xs
      by (induction xs arbitrary: v) (simp_all add: assigned_Cons [symmetric])
    moreover have "fold ?h is v = fold (\<lambda>kv. assigned t [kv]) (map (\<lambda>i. kvs ! (nat i - 1)) is) v" for "is"
      by (simp add: fold_map comp_def)
    ultimately show ?thesis by simp
  qed
  from run show ?thesis unfolding fold by (rule conjunct1)
qed

lemma set_vars_run:
  assumes ok: "binds_ok w" and u: "vars_tab w T = Some u" and n: "length kvs \<le> 9"
  shows "\<exists>v. lcf_set_va_list doc T (called T (va_args LTTYPE_THREAD_LOCAL_VAR kvs) w) = (Fine 0, v)
    \<and> returned T (results 0 0 (frame T v)) v = assigned u kvs w"
proof -
  let ?a = "va_args LTTYPE_THREAD_LOCAL_VAR kvs" and ?lim = "2 * length kvs + 1 + LUA_MINSTACK"
  let ?us = "[V_Tab u, V_Tab (the_tab LRK_THREAD_LOCAL_VAR_TABLE w)]"
  have called: "called T ?a w = within T ?lim (rev ?a) w" by (simp add: called_within)
  have top: "la_gettop doc T (within T ?lim (rev ?a) w) = (Fine (2 * int (length kvs) + 1), within T ?lim (rev ?a) w)" by simp
  have ty: "la_tointeger doc T (Idx 1) (within T ?lim (rev ?a) w) = (Fine 0, within T ?lim (rev ?a) w)"
    using lua_at_bottom [of 1 ?a T ?lim "[]" w] by (simp add: d_value_def) (simp add: va_args_def LTTYPE_THREAD_LOCAL_VAR_def)
  have start: "steps [lbind_checkmetatable doc T LRK_THREAD_LOCAL_VAR_TABLE ''thread local var table not exist'',
      la_pushthread doc T, la_gettable doc T (Idx (-2))] (within T ?lim (rev ?a) w) = (Fine (), within T ?lim (?us @ rev ?a) w)"
    using vars_start [OF ok u, of "rev ?a" ?lim] by (simp add: LUA_MINSTACK_def del: steps.simps doc_sel)
  have at: "lua_at T (Idx (2 * int (length kvs) + 1 + 2)) (within T ?lim (X @ ?us @ rev ?a) v) = Some (V_Tab u)" for X v
    using lua_at_bottom [of "2 * length kvs + 3" "?a @ rev ?us" T ?lim X v] by (simp add: nth_append algebra_simps)
  have loop: "steps (map (\<lambda>i. bnd (la_touserdata doc T (Idx (i * 2))) (\<lambda>p. with_chars p (\<lambda>field.
      steps [la_pushstring doc T field, la_pushvalue doc T (Idx (i * 2 + 1)), la_settable doc T (Idx (2 * int (length kvs) + 1 + 2))])))
        [1..int (length kvs)]) (within T ?lim (?us @ rev ?a) w) = (Fine (), within T ?lim (?us @ rev ?a) (assigned u kvs w))"
    by (rule set_loop) (use n binds_okD(16) [OF ok u] in \<open>simp_all only: at\<close>, simp add: LUA_MINSTACK_def)
  have half: "(2 * int (length kvs) + 1) div 2 = int (length kvs)" by simp
  have start': "bnd (steps [lbind_checkmetatable doc T LRK_THREAD_LOCAL_VAR_TABLE ''thread local var table not exist'',
      la_pushthread doc T, la_gettable doc T (Idx (-2))]) (\<lambda>_. ret (Idx (2 * int (length kvs) + 1 + 2))) (within T ?lim (rev ?a) w)
    = (Fine (Idx (2 * int (length kvs) + 1 + 2)), within T ?lim (?us @ rev ?a) w)"
    by (rule bnd_run, rule start) (simp add: ret_def)
  have to_int0: "(if to_int 0 = LTTYPE_REGISTRY then m else m') = m'" for m m' :: "(lview, lidx) lprog"
    by (simp add: LTTYPE_REGISTRY_def)
  have "lcf_set_va_list doc T (called T ?a w) = (Fine 0, within T ?lim (?us @ rev ?a) (assigned u kvs w))"
    unfolding lcf_set_va_list_def called
    by (rule bnd_run, rule top, rule bnd_run, rule ty, rule bnd_run, unfold to_int0, rule start', unfold half, rule bnd_run, rule loop) (simp add: ret_def)
  then show ?thesis by (intro exI conjI) (assumption, simp add: results_def)
qed


lemma reg_vars_run:
  assumes meta: "lw_meta w (lw_reg w) = None" and n: "length kvs \<le> 9"
  shows "\<exists>v. lcf_set_va_list doc T (called T (va_args LTTYPE_REGISTRY kvs) w) = (Fine 0, v)
    \<and> returned T (results 0 0 (frame T v)) v = assigned (lw_reg w) kvs w"
proof -
  let ?a = "va_args LTTYPE_REGISTRY kvs" and ?lim = "2 * length kvs + 1 + LUA_MINSTACK"
  have called: "called T ?a w = within T ?lim (rev ?a) w" by (simp add: called_within)
  have top: "la_gettop doc T (within T ?lim (rev ?a) w) = (Fine (2 * int (length kvs) + 1), within T ?lim (rev ?a) w)" by simp
  have ty: "la_tointeger doc T (Idx 1) (within T ?lim (rev ?a) w) = (Fine 1, within T ?lim (rev ?a) w)"
    using lua_at_bottom [of 1 ?a T ?lim "[]" w] by (simp add: d_value_def) (simp add: va_args_def LTTYPE_REGISTRY_def)
  have loop: "steps (map (\<lambda>i. bnd (la_touserdata doc T (Idx (i * 2))) (\<lambda>p. with_chars p (\<lambda>field.
      steps [la_pushstring doc T field, la_pushvalue doc T (Idx (i * 2 + 1)), la_settable doc T Registry])))
        [1..int (length kvs)]) (within T ?lim ([] @ rev ?a) w) = (Fine (), within T ?lim ([] @ rev ?a) (assigned (lw_reg w) kvs w))"
    by (rule set_loop) (use n meta in \<open>simp_all add: LUA_MINSTACK_def lua_at_def\<close>)
  have half: "(2 * int (length kvs) + 1) div 2 = int (length kvs)" by simp
  have to_int1: "(if to_int 1 = LTTYPE_REGISTRY then m else m') = m" for m m' :: "(lview, lidx) lprog"
    by (simp add: LTTYPE_REGISTRY_def)
  have "lcf_set_va_list doc T (called T ?a w) = (Fine 0, within T ?lim (rev ?a) (assigned (lw_reg w) kvs w))"
    unfolding lcf_set_va_list_def called
    by (rule bnd_run, rule top, rule bnd_run, rule ty, unfold to_int1 bnd_ret half, rule bnd_run, rule loop [unfolded append_Nil])
       (simp add: ret_def)
  then show ?thesis by (intro exI conjI) (assumption, simp add: results_def)
qed

text \<open>What an argument stands for; \<open>vs\<close> is the stack of the caller.\<close>

definition arg_value :: "lv list \<Rightarrow> lvarg \<Rightarrow> lv" where
  "arg_value vs v = (case v of LTYPE_INT n \<Rightarrow> V_Int n | LTYPE_PTR p \<Rightarrow> V_Light p
     | LTYPE_STACK i \<Rightarrow> (if i < 0 then vs ! (nat (- i) - 1) else vs ! (length vs - nat i)))"

definition arg_ok :: "lv list \<Rightarrow> lvarg \<Rightarrow> bool" where
  "arg_ok vs v \<longleftrightarrow> (case v of LTYPE_STACK i \<Rightarrow> i \<noteq> 0 \<and> \<bar>i\<bar> \<le> int (length vs) | _ \<Rightarrow> True)"

lemma room_more: "lw_stk w L \<noteq> [] \<Longrightarrow> room L (set_frame L (us @ frame L w) w) = room L w - length us"
  by simp (simp add: room_eq)

declare room_set_frame [simp del] room_more [simp]

lemma push_varg_run:
  assumes ok: "api_ok view A" and x: "view x = set_frame L (us @ frame L w) w" and L: "L < lw_next w" "length us < room L w"
    and v: "arg_ok (frame L w) v"
  shows "\<exists>y. push_varg A L (int (length (frame L w))) v x = (Fine (), y) \<and> view y = set_frame L (arg_value (frame L w) v # us @ frame L w) w"
proof -
  have stk: "lw_stk w L \<noteq> []" using L(2) room_pos by fastforce
  have room: "0 < room L (view x)" using L(2) stk x by (simp add: room_more)
  have push: "la_push doc L u (view x) = (Fine (), set_frame L (u # us @ frame L w) w)" for u
    using room stk x by (simp add: d_push_def)
  show ?thesis
  proof (cases v)
    case (LTYPE_STACK i)
    let ?i = "if i < 0 then int (length (frame L w)) + i + 1 else i"
    have fr: "frame L (view x) = us @ frame L w" using stk x by simp
    have i: "1 \<le> ?i" "?i \<le> int (length (frame L w))" using v LTYPE_STACK by (auto simp: arg_ok_def)
    define k where "k = nat ?i"
    have k: "?i = int k" "1 \<le> k" "k \<le> length (frame L w)" using i by (simp_all add: k_def)
    have "arg_value (frame L w) v = frame L w ! (length (frame L w) - k)"
      using LTYPE_STACK i by (auto simp: arg_value_def k_def intro!: arg_cong [where f = "(!) (frame L w)"])
    then have "lua_at L (Idx (int k)) (view x) = Some (arg_value (frame L w) v)"
      using k(2,3) by (auto simp: lua_at_def slot_of_def fr nth_append)
    then have "lua_at L (Idx ?i) (view x) = Some (arg_value (frame L w) v)" using k(1) by simp
    then have "la_pushvalue doc L (Idx ?i) (view x) = (Fine (), set_frame L (arg_value (frame L w) v # us @ frame L w) w)"
      using push by simp
    from exactlyD [OF api_exactly(2) [OF ok] this] x L(1) obtain y where
      "la_pushvalue A L (Idx ?i) x = (Fine (), y)" "view y = set_frame L (arg_value (frame L w) v # us @ frame L w) w" by auto
    then show ?thesis using LTYPE_STACK by (auto simp: push_varg_def)
  qed (use exactlyD [OF api_exactly(1) [OF ok] push] x L(1) in \<open>auto simp: push_varg_def arg_value_def\<close>)
qed

lemma push_va_args:
  assumes ok: "api_ok view A" and L: "L < lw_next w"
  shows "view x = set_frame L (us @ frame L w) w \<Longrightarrow> length us + 2 * length vs \<le> room L w \<Longrightarrow> \<forall>(f, v)\<in>set vs. arg_ok (frame L w) v \<Longrightarrow>
    \<exists>y. steps (concat (map (\<lambda>(f, v). [la_push A L (V_Light (Chars f)), push_varg A L (int (length (frame L w))) v]) vs)) x = (Fine (), y)
      \<and> view y = set_frame L (rev (concat (map (\<lambda>(f, v). [V_Light (Chars f), arg_value (frame L w) v]) vs)) @ us @ frame L w) w"
proof (induction vs arbitrary: x us)
  case (Cons fv vs)
  obtain f v where fv: "fv = (f, v)" by fastforce
  have n: "length us + 1 < room L w" using Cons.prems(2) by simp
  then have stk: "lw_stk w L \<noteq> []" using room_pos by fastforce
  have "0 < room L (view x)" using n stk Cons.prems(1) by (simp add: room_more)
  then have "la_push doc L (V_Light (Chars f)) (view x) = (Fine (), set_frame L ((V_Light (Chars f) # us) @ frame L w) w)"
    using stk Cons.prems(1) by (simp add: d_push_def)
  then obtain x1 where x1: "la_push A L (V_Light (Chars f)) x = (Fine (), x1)" "view x1 = set_frame L ((V_Light (Chars f) # us) @ frame L w) w"
    using exactlyD [OF api_exactly(1) [OF ok]] Cons.prems(1) L by fastforce
  obtain x2 where x2: "push_varg A L (int (length (frame L w))) v x1 = (Fine (), x2)"
    "view x2 = set_frame L (arg_value (frame L w) v # (V_Light (Chars f) # us) @ frame L w) w"
    using push_varg_run [OF ok x1(2) L] n Cons.prems(3) fv by auto
  show ?case using Cons.IH [of x2 "arg_value (frame L w) v # V_Light (Chars f) # us"] x1(1) x2 Cons.prems fv by (auto simp: bnd_def)
qed (simp add: ret_def)


lemma set_call:
  assumes ok: "api_ok view A" and w: "view x = w" and L: "L < lw_next w" "2 * length vs + 1 < room L w"
    and vs: "\<forall>(f, v)\<in>set vs. arg_ok (frame L w) v" and kvs: "kvs = map (\<lambda>(f, v). (f, arg_value (frame L w) v)) vs"
    and run: "lcf_set_va_list doc L (called L (va_args ttype kvs) w) = (Fine 0, v)" "returned L (results 0 0 (frame L v)) v = w'"
  shows "\<exists>c y. lbind_set_va_list A L ttype vs x = (Fine c, y) \<and> (c = LUA_OK \<and> view y = w' \<or> c \<noteq> LUA_OK \<and> stack_kept L w (view y))"
proof -
  have stk: "lw_stk w L \<noteq> []" using L(2) room_pos by fastforce
  have "la_gettop doc L (view x) = (Fine (int (length (frame L w))), w)" using w by simp
  then obtain x0 where x0: "la_gettop A L x = (Fine (int (length (frame L w))), x0)" "view x0 = w"
    using exactlyD [OF api_exactly(5) [OF ok]] L(1) w by fastforce
  obtain x1 where x1: "steps (map (la_push A L) [V_C ''lcf_set_va_list'', V_Int ttype]) x0 = (Fine (), x1)"
    "view x1 = set_frame L ([V_Int ttype, V_C ''lcf_set_va_list''] @ frame L w) w"
    using push_frame [OF ok, of "[V_C ''lcf_set_va_list'', V_Int ttype]" L x0] x0(2) L by auto
  obtain x2 where x2: "steps (concat (map (\<lambda>(f, v). [la_push A L (V_Light (Chars f)), push_varg A L (int (length (frame L w))) v]) vs)) x1 = (Fine (), x2)"
    "view x2 = set_frame L (rev (concat (map (\<lambda>(f, v). [V_Light (Chars f), arg_value (frame L w) v]) vs)) @ [V_Int ttype, V_C ''lcf_set_va_list''] @ frame L w) w"
    using push_va_args [OF ok L(1) x1(2) _ vs] L(2) by auto
  have args: "rev (concat (map (\<lambda>(f, v). [V_Light (Chars f), arg_value (frame L w) v]) vs)) @ [V_Int ttype, V_C ''lcf_set_va_list''] @ us
      = rev (va_args ttype kvs) @ V_C ''lcf_set_va_list'' # us" for us
    by (simp add: va_args_def kvs comp_def case_prod_unfold)
  obtain c y where y: "la_pcall A L (2 * length vs + 1) 0 (lcf_set_va_list A L) x2 = (Fine c, y)"
    "c = LUA_OK \<and> view y = w' \<or> c \<noteq> LUA_OK \<and> kept L w (view y) \<and> (\<exists>e. frame L (view y) = e # frame L w)"
    using call_back [OF ok set_vars_follows [OF ok] L(1) stk x2(2) [unfolded args] run(1), of 0] run(2) kvs by auto
  have "lbind_set_va_list A L ttype vs x = pop_error A L c y"
    using x0(1) x1(1) x2(1) y(1) unfolding lbind_set_va_list_def steps_append by (simp add: bnd_def)
  then show ?thesis using y(2) pop_errorI [OF ok L(1) stk] pop_error_simps by metis
qed

lemma map_of_fold: "fold (\<lambda>(f, v) c. c(V_Str f := v)) kvs c k
  = (case k of V_Str f \<Rightarrow> (case map_of (rev kvs) f of Some v \<Rightarrow> v | None \<Rightarrow> c k) | _ \<Rightarrow> c k)"
  by (induction kvs arbitrary: c) (auto split: lv.splits option.splits simp: map_add_def)

text \<open>The variables of one coroutine change, and nothing else.\<close>

lemma assigned_binds:
  assumes ok: "binds_ok w" and u: "vars_tab w T = Some u"
  shows "binds_ok (assigned u kvs w)" and "stack_kept L w (assigned u kvs w)"
    and "binds (assigned u kvs w) = (binds w)\<lparr>lb_vars := (lb_vars (binds w))(T \<mapsto>
      \<lambda>f. case map_of (rev kvs) f of Some v \<Rightarrow> v | None \<Rightarrow> lw_tab w u (V_Str f))\<rparr>"
proof -
  note D = binds_okD [OF ok]
  have other: "lw_tab (assigned u kvs w) t = lw_tab w t" if "t \<noteq> u" for t using that by (simp add: assigned_def)
  have tabs: "the_tab nm (assigned u kvs w) = the_tab nm w" for nm
    using other D(17) [OF u] by (simp add: the_tab_def)
  have vars: "vars_tab (assigned u kvs w) T' = vars_tab w T'" for T'
    using other D(19) [OF u] by (simp add: vars_tab_def tabs)
  show "binds_ok (assigned u kvs w)"
    using D D(17-20) [OF u] other unfolding binds_ok_def tabs vars Let_def by auto
  show "stack_kept L w (assigned u kvs w)" by (simp add: stack_kept_def kept_def) (simp add: assigned_def)
  have self: "lw_tab (assigned u kvs w) u (V_Str f) = (case map_of (rev kvs) f of Some v \<Rightarrow> v | None \<Rightarrow> lw_tab w u (V_Str f))" for f
    by (simp add: assigned_def map_of_fold)
  have "map_option (\<lambda>v f. lw_tab (assigned u kvs w) v (V_Str f)) (vars_tab w T')
      = ((\<lambda>T. map_option (\<lambda>v f. lw_tab w v (V_Str f)) (vars_tab w T))(T \<mapsto>
          \<lambda>f. case map_of (rev kvs) f of Some v \<Rightarrow> v | None \<Rightarrow> lw_tab w u (V_Str f))) T'" for T'
  proof (cases "T' = T")
    case True
    then show ?thesis using u self by simp
  next
    case False
    then have "vars_tab w T' \<noteq> Some u" using D(21) u by blast
    then show ?thesis using False other by (cases "vars_tab w T'") auto
  qed
  then have vs: "(\<lambda>T. map_option (\<lambda>v f. lw_tab (assigned u kvs w) v (V_Str f)) (vars_tab w T))
      = (\<lambda>T. map_option (\<lambda>v f. lw_tab w v (V_Str f)) (vars_tab w T))(T \<mapsto>
          \<lambda>f. case map_of (rev kvs) f of Some v \<Rightarrow> v | None \<Rightarrow> lw_tab w u (V_Str f))" by (rule ext)
  show "binds (assigned u kvs w) = (binds w)\<lparr>lb_vars := (lb_vars (binds w))(T \<mapsto>
      \<lambda>f. case map_of (rev kvs) f of Some v \<Rightarrow> v | None \<Rightarrow> lw_tab w u (V_Str f))\<rparr>"
    using D(17,18,20) [OF u] other unfolding binds_def tabs vars vs by (simp add: other)
qed

lemma set_vars_call:
  assumes ok: "api_ok view A" and w: "view x = w" "binds_ok w" and T: "T < lw_next w" "2 * length vs + 1 < room T w"
    and vars: "lb_vars (binds w) T = Some old" and n: "length vs \<le> 9" and vs: "\<forall>(f, v)\<in>set vs. arg_ok (frame T w) v"
  shows "\<exists>c y. lbind_set_va_list A T LTTYPE_THREAD_LOCAL_VAR vs x = (Fine c, y) \<and> stack_kept T w (view y)
    \<and> (c = LUA_OK \<longrightarrow> binds_ok (view y) \<and> binds (view y) = (binds w)\<lparr>lb_vars := (lb_vars (binds w))(T \<mapsto>
        \<lambda>f. case map_of (rev vs) f of Some v \<Rightarrow> arg_value (frame T w) v | None \<Rightarrow> old f)\<rparr>)"
proof -
  let ?kvs = "map (\<lambda>(f, v). (f, arg_value (frame T w) v)) vs"
  obtain u where u: "vars_tab w T = Some u" "old = (\<lambda>f. lw_tab w u (V_Str f))" using vars by (auto simp: binds_def)
  obtain v where v: "lcf_set_va_list doc T (called T (va_args LTTYPE_THREAD_LOCAL_VAR ?kvs) w) = (Fine 0, v)"
    "returned T (results 0 0 (frame T v)) v = assigned u ?kvs w"
    using set_vars_run [OF w(2) u(1), of ?kvs] n by auto
  have "map_of (rev ?kvs) = (map_option (arg_value (frame T w)) \<circ> map_of (rev vs))"
    unfolding rev_map by (simp add: map_of_map)
  then have look: "(\<lambda>f. case map_of (rev ?kvs) f of Some v \<Rightarrow> v | None \<Rightarrow> old f)
      = (\<lambda>f. case map_of (rev vs) f of Some v \<Rightarrow> arg_value (frame T w) v | None \<Rightarrow> old f)"
    by (auto simp: fun_eq_iff split: option.splits)
  note after = assigned_binds [where kvs = ?kvs, OF w(2) u(1)]
  have new: "binds (assigned u ?kvs w) = (binds w)\<lparr>lb_vars := (lb_vars (binds w))(T \<mapsto>
      \<lambda>f. case map_of (rev vs) f of Some v \<Rightarrow> arg_value (frame T w) v | None \<Rightarrow> old f)\<rparr>"
    using after(3) unfolding fun_cong [OF u(2), symmetric] look .
  from set_call [OF ok w(1) T vs HOL.refl v] obtain c y where
    "lbind_set_va_list A T LTTYPE_THREAD_LOCAL_VAR vs x = (Fine c, y)"
    "c = LUA_OK \<and> view y = assigned u ?kvs w \<or> c \<noteq> LUA_OK \<and> stack_kept T w (view y)" by blast
  then show ?thesis using after(1,2) new by (intro exI [of _ c] exI [of _ y]) auto
qed


lemma reg_call:
  assumes ok: "api_ok view A" and w: "view x = w" "binds_ok w" and L: "L < lw_next w" "2 * length vs + 1 < room L w"
    and n: "length vs \<le> 9" and vs: "\<forall>(f, v)\<in>set vs. arg_ok (frame L w) v"
    and names: "fst ` set vs \<inter> {LRK_TID_THREAD_TABLE, LRK_THREAD_LOCAL_VAR_TABLE, LRK_LCODE_CHUNK_TABLE} = {}"
  shows "\<exists>c y. lbind_set_va_list A L LTTYPE_REGISTRY vs x = (Fine c, y) \<and> stack_kept L w (view y)
    \<and> (c = LUA_OK \<longrightarrow> binds_ok (view y) \<and> binds (view y) = (binds w)\<lparr>lb_reg :=
        \<lambda>f. case map_of (rev vs) f of Some v \<Rightarrow> arg_value (frame L w) v | None \<Rightarrow> lb_reg (binds w) f\<rparr>)"
proof -
  let ?kvs = "map (\<lambda>(f, v). (f, arg_value (frame L w) v)) vs" and ?r = "lw_reg w"
  let ?w = "assigned ?r ?kvs w"
  note D = binds_okD [OF w(2)]
  obtain v where v: "lcf_set_va_list doc L (called L (va_args LTTYPE_REGISTRY ?kvs) w) = (Fine 0, v)"
    "returned L (results 0 0 (frame L v)) v = ?w"
    using reg_vars_run [OF D(9), of ?kvs] n by auto
  have map: "map_of (rev ?kvs) = (map_option (arg_value (frame L w)) \<circ> map_of (rev vs))"
    unfolding rev_map by (simp add: map_of_map)
  have reg: "lw_tab ?w ?r (V_Str f) = (case map_of (rev vs) f of Some v \<Rightarrow> arg_value (frame L w) v | None \<Rightarrow> lw_tab w ?r (V_Str f))" for f
    unfolding assigned_def by (simp add: map_of_fold map split: option.splits)
  have other: "lw_tab ?w t = lw_tab w t" if "t \<noteq> ?r" for t using that by (simp add: assigned_def)
  have same: "lw_tab ?w ?r (V_Str f) = lw_tab w ?r (V_Str f)" if "f \<notin> fst ` set vs" for f
  proof -
    have "map_of (rev vs) f = None" using that by (simp add: map_of_eq_None_iff)
    then show ?thesis by (simp add: reg)
  qed
  have tabs: "the_tab LRK_TID_THREAD_TABLE ?w = the_tab LRK_TID_THREAD_TABLE w"
    "the_tab LRK_THREAD_LOCAL_VAR_TABLE ?w = the_tab LRK_THREAD_LOCAL_VAR_TABLE w" "the_tab LRK_LCODE_CHUNK_TABLE ?w = the_tab LRK_LCODE_CHUNK_TABLE w"
    "lw_tab ?w ?r (V_Str LRK_TID_THREAD_TABLE) = lw_tab w ?r (V_Str LRK_TID_THREAD_TABLE)"
    "lw_tab ?w ?r (V_Str LRK_THREAD_LOCAL_VAR_TABLE) = lw_tab w ?r (V_Str LRK_THREAD_LOCAL_VAR_TABLE)"
    "lw_tab ?w ?r (V_Str LRK_LCODE_CHUNK_TABLE) = lw_tab w ?r (V_Str LRK_LCODE_CHUNK_TABLE)"
    using names same by (auto simp: the_tab_def)
  have vars: "vars_tab ?w T = vars_tab w T" for T using D(4) other by (simp add: vars_tab_def tabs)
  have ok': "binds_ok ?w"
    using D D(4) unfolding binds_ok_def Let_def tabs vars by (auto simp: other tabs)
  have vs': "map_option (\<lambda>v f. lw_tab ?w v (V_Str f)) (vars_tab w T) = map_option (\<lambda>v f. lw_tab w v (V_Str f)) (vars_tab w T)" for T
    using D(17) other by (cases "vars_tab w T") auto
  have new: "binds ?w = (binds w)\<lparr>lb_reg := \<lambda>f. case map_of (rev vs) f of Some v \<Rightarrow> arg_value (frame L w) v | None \<Rightarrow> lb_reg (binds w) f\<rparr>"
    using D(4) unfolding binds_def tabs vars vs' by (simp add: other reg cong: option.case_cong)
  have stack: "stack_kept L w ?w" by (simp add: stack_kept_def kept_def) (simp add: assigned_def)
  from set_call [OF ok w(1) L vs HOL.refl v] obtain c y where
    "lbind_set_va_list A L LTTYPE_REGISTRY vs x = (Fine c, y)"
    "c = LUA_OK \<and> view y = ?w \<or> c \<noteq> LUA_OK \<and> stack_kept L w (view y)" by blast
  then show ?thesis using ok' new stack by (intro exI [of _ c] exI [of _ y]) auto
qed

end
