(* ===== verification/Lua_Start.thy ===== *)
theory Lua_Start
  imports Lua_Vars
begin

text \<open>
  A Lua state from its beginning: the tables are made, the path of packages is extended, a coroutine
  finds its thread. The properties of the bindings.
\<close>

subsection \<open>The beginning\<close>

text \<open>The standard libraries keep the stack and what the program has in the registry.\<close>

definition libs_ok :: "(lview \<Rightarrow> lview) \<Rightarrow> bool" where
  "libs_ok libs \<longleftrightarrow> (\<forall>w. lw_stk (libs w) = lw_stk w \<and> lw_next w \<le> lw_next (libs w) \<and> lw_reg (libs w) = lw_reg w
     \<and> lw_glob (libs w) = lw_glob w \<and> lw_file (libs w) = lw_file w \<and> lw_meta (libs w) (lw_reg w) = lw_meta w (lw_reg w)
     \<and> (\<forall>s. take 3 s = ''as_'' \<longrightarrow> lw_tab (libs w) (lw_reg w) (V_Str s) = lw_tab w (lw_reg w) (V_Str s)))"

lemmas lrk_defs = LRK_FD_THREAD_TABLE_def LRK_LCODE_CHUNK_TABLE_def LRK_TID_THREAD_TABLE_def LRK_THREAD_LOCAL_VAR_TABLE_def LRK_BYTES_REF_TABLE_def

definition lrks :: "string list" where
  "lrks = [LRK_FD_THREAD_TABLE, LRK_LCODE_CHUNK_TABLE, LRK_TID_THREAD_TABLE, LRK_THREAD_LOCAL_VAR_TABLE, LRK_BYTES_REF_TABLE]"

text \<open>What the five tables are after their creation.\<close>

definition inited :: "lview \<Rightarrow> lview" where
  "inited w = (let n = lw_next w; named = (\<lambda>s. (\<lambda>_. V_Nil)(V_Str ''__name'' := V_Str s));
       weak = (\<lambda>s. (named s)(V_Str ''__mode'' := V_Str ''k'')) in
     w\<lparr>lw_next := n + 5, lw_meta := (lw_meta w)(n := None, n + 1 := None, n + 2 := None, n + 3 \<mapsto> n + 3, n + 4 \<mapsto> n + 4),
       lw_tab := (lw_tab w)(n := named LRK_FD_THREAD_TABLE, n + 1 := named LRK_LCODE_CHUNK_TABLE, n + 2 := named LRK_TID_THREAD_TABLE,
         n + 3 := weak LRK_THREAD_LOCAL_VAR_TABLE, n + 4 := weak LRK_BYTES_REF_TABLE,
         lw_reg w := (lw_tab w (lw_reg w))(V_Str LRK_FD_THREAD_TABLE := V_Tab n, V_Str LRK_LCODE_CHUNK_TABLE := V_Tab (n + 1),
           V_Str LRK_TID_THREAD_TABLE := V_Tab (n + 2), V_Str LRK_THREAD_LOCAL_VAR_TABLE := V_Tab (n + 3),
           V_Str LRK_BYTES_REF_TABLE := V_Tab (n + 4)))\<rparr>)"

lemma add_3_4: "n + 3 = Suc (Suc (Suc n))" "n + 4 = Suc (Suc (Suc (Suc n)))" "n + 5 = Suc (Suc (Suc (Suc (Suc n))))"
  by simp_all

lemma init_run:
  assumes "lw_stk w L = (20, []) # st" and "\<And>s. s \<in> set lrks \<Longrightarrow> lw_tab w (lw_reg w) (V_Str s) = V_Nil" and "lw_reg w < lw_next w"
  shows "lcf_init_state doc (\<lambda>_. ret ()) L w = (Fine 0, (inited w)\<lparr>lw_stk := (lw_stk w)(L := (20,
    map (\<lambda>i. V_Tab (lw_next w + i)) [4, 3, 2, 1, 0]) # st)\<rparr>)"
  using assms(1,3) assms(2) [unfolded lrks_def, simplified, unfolded lrk_defs] unfolding lcf_init_state_def newL_weak_metatable_def lrk_defs
  by (simp add: run_simps d_newmetatable_def Let_def) (simp add: inited_def Let_def fun_upd_twist lrk_defs add_3_4)

lemma inited_binds:
  assumes "lw_reg w < lw_next w" and "lw_meta w (lw_reg w) = None"
  shows "binds_ok ((inited w)\<lparr>lw_stk := st\<rparr>)" and "lb_tid (binds ((inited w)\<lparr>lw_stk := st\<rparr>)) = Map.empty"
    and "lb_vars (binds ((inited w)\<lparr>lw_stk := st\<rparr>)) = Map.empty" and "f \<noteq> ''__name'' \<Longrightarrow> lb_code (binds ((inited w)\<lparr>lw_stk := st\<rparr>)) f = V_Nil"
proof -
  let ?w = "(inited w)\<lparr>lw_stk := st\<rparr>" and ?n = "lw_next w"
  have tabs: "the_tab LRK_TID_THREAD_TABLE ?w = ?n + 2" "the_tab LRK_THREAD_LOCAL_VAR_TABLE ?w = ?n + 3" "the_tab LRK_LCODE_CHUNK_TABLE ?w = ?n + 1"
    by (simp_all add: the_tab_def inited_def Let_def lrk_defs)
  have vars: "vars_tab ?w T = None" for T
    using assms(1) unfolding vars_tab_def tabs by (simp add: inited_def Let_def)
  show "binds_ok ?w" using assms unfolding binds_ok_def Let_def tabs vars by (simp add: inited_def Let_def lrk_defs)
  show "lb_tid (binds ?w) = Map.empty" using assms(1) unfolding binds_def tabs by (simp add: inited_def Let_def)
  show "lb_vars (binds ?w) = Map.empty" unfolding binds_def vars by simp
  show "f \<noteq> ''__name'' \<Longrightarrow> lb_code (binds ?w) f = V_Nil" using assms(1) unfolding binds_def tabs by (simp add: inited_def Let_def)
qed

lemma init_call:
  assumes ok: "api_ok view A" and libs: "libs_ok libs" and opens: "follows view L (openlibs L) (\<lambda>w. (Fine (), libs w))"
    and w: "view x = w" "\<And>s. s \<in> set lrks \<Longrightarrow> lw_tab w (lw_reg w) (V_Str s) = V_Nil" "lw_reg w < lw_next w" "lw_meta w (lw_reg w) = None"
    and L: "L < lw_next w" "0 < room L w"
  shows "\<exists>c y. lbind_init_state A openlibs L x = (Fine c, y) \<and> stack_kept L w (view y)
    \<and> (c = LUA_OK \<longrightarrow> binds_ok (view y) \<and> lb_tid (binds (view y)) = Map.empty \<and> lb_vars (binds (view y)) = Map.empty
        \<and> (\<forall>f. f \<noteq> ''__name'' \<longrightarrow> lb_code (binds (view y)) f = V_Nil))"
proof -
  let ?libs = "\<lambda>(_ :: addr) w. (Fine (), libs w)" and ?w1 = "libs (called L [] w)"
  have lib: "lw_stk ?w1 = lw_stk (called L [] w)" "lw_next w \<le> lw_next ?w1" "lw_reg ?w1 = lw_reg w" "lw_meta ?w1 (lw_reg w) = None"
    "lw_glob ?w1 = lw_glob w" "lw_file ?w1 = lw_file w" "\<And>s. take 3 s = ''as_'' \<Longrightarrow> lw_tab ?w1 (lw_reg w) (V_Str s) = lw_tab w (lw_reg w) (V_Str s)"
    using libs w(4) unfolding libs_ok_def by (auto simp: called_def dest!: spec [of _ "called L [] w"])
  have stk: "lw_stk ?w1 L = (20, []) # lw_stk w L" unfolding lib(1) by (simp add: called_def LUA_MINSTACK_def)
  have "take 3 s = ''as_''" if "s \<in> set lrks" for s using that by (auto simp: lrks_def lrk_defs)
  then have fresh: "lw_tab ?w1 (lw_reg ?w1) (V_Str s) = V_Nil" if "s \<in> set lrks" for s using lib(3,7) w(2) that by simp
  have reg: "lw_reg ?w1 < lw_next ?w1" "lw_meta ?w1 (lw_reg ?w1) = None" using lib w(3) by simp_all
  obtain us where run: "lcf_init_state doc (\<lambda>_. ret ()) L ?w1 = (Fine 0, (inited ?w1)\<lparr>lw_stk := (lw_stk ?w1)(L := (20, us) # lw_stk w L)\<rparr>)"
    using init_run [OF stk fresh reg(1)] by blast
  have "lcf_init_state doc ?libs L (called L [] w) = lcf_init_state doc (\<lambda>_. ret ()) L ?w1"
    by (simp add: lcf_init_state_def bnd_def ret_def)
  with run have run': "lcf_init_state doc ?libs L (called L [] w) = (Fine 0, (inited ?w1)\<lparr>lw_stk := (lw_stk ?w1)(L := (20, us) # lw_stk w L)\<rparr>)"
    by simp
  let ?v = "(inited ?w1)\<lparr>lw_stk := (lw_stk ?w1)(L := (20, us) # lw_stk w L)\<rparr>"
  have returns: "returned L (results 0 0 (frame L ?v)) ?v = (inited ?w1)\<lparr>lw_stk := lw_stk w\<rparr>"
    unfolding lib(1)
    by (simp add: results_def returned_def Let_def called_def fun_upd_idem)
  have kept: "stack_kept L w ((inited ?w1)\<lparr>lw_stk := lw_stk w\<rparr>)"
    using lib by (simp add: stack_kept_def kept_def inited_def Let_def)
  show ?thesis
    using protected_pop [OF ok init_follows [OF ok, of L openlibs ?libs, OF opens] w(1) L(1), where args = "[]" and q = "Fine 0" and v = ?v and nm = "''lcf_init_state''" and r = 0]
      run' returns kept inited_binds [OF reg, where st = "lw_stk w"] L(2)
    by (auto simp: lbind_init_state_def)
qed


subsection \<open>The path of packages\<close>

lemma append_run:
  assumes "lw_tab w (lw_glob w) (V_Str ''package'') = V_Tab pk" and "lw_tab w pk (V_Str f) = V_Str cur" and "lw_stk w L = (lim, us) # fs"
    and "length (c_str cur) + length path + 2 < 2 ^ 31"
  shows "\<exists>v. lcf_append_lua_package_field doc L (called L [V_Light (Chars f), V_Light (Chars path)] w) = (Fine 0, v)
    \<and> returned L (results 0 0 (frame L v)) v = (assigned pk [(f, V_Str (c_str cur @ '';'' @ path))] w)\<lparr>lw_next := lw_next w + 1, lw_meta := (lw_meta w)(lw_next w := None)\<rparr>"
  using assms unfolding lcf_append_lua_package_field_def with_chars_def
  by (simp add: run_simps d_getglobal_def returned_def results_def assigned_def Let_def stk_idem) (cases w; simp add: fun_upd_idem)

lemma append_null_run: "\<exists>v. lcf_append_lua_package_field doc L (called L [V_Light (Chars f), V_Light NULL_PTR] w) = (Raised, v)"
  unfolding lcf_append_lua_package_field_def by (simp add: run_simps)

lemma append_call:
  assumes ok: "api_ok view A" and w: "view x = w" and L: "L < lw_next w" "2 < room L w"
    and pk: "lw_tab w (lw_glob w) (V_Str ''package'') = V_Tab pk" "lw_tab w pk (V_Str f) = V_Str cur" "length (c_str cur) + length path + 2 < 2 ^ 31"
  shows "\<exists>c y. lbind_append_lua_package_field A L f (Chars path) x = (Fine c, y) \<and> stack_kept L w (view y)
    \<and> (c = LUA_OK \<longrightarrow> lw_tab (view y) pk (V_Str f) = V_Str (c_str cur @ '';'' @ path))"
    and "\<exists>c y. lbind_append_lua_package_field A L f NULL_PTR x = (Fine c, y) \<and> c \<noteq> LUA_OK \<and> stack_kept L w (view y)"
proof -
  obtain lim us fs where stk: "lw_stk w L = (lim, us) # fs" using room_stk L(2) by (metis gr_implies_not0 not_gr_zero)
  let ?w = "(assigned pk [(f, V_Str (c_str cur @ '';'' @ path))] w)\<lparr>lw_next := lw_next w + 1, lw_meta := (lw_meta w)(lw_next w := None)\<rparr>"
  obtain v where v: "lcf_append_lua_package_field doc L (called L [V_Light (Chars f), V_Light (Chars path)] w) = (Fine 0, v)"
    "returned L (results 0 0 (frame L v)) v = ?w"
    using append_run [OF pk(1,2) stk pk(3)] by blast
  have "stack_kept L w ?w" by (simp add: stack_kept_def kept_def) (simp add: assigned_def)
  moreover have "lw_tab ?w pk (V_Str f) = V_Str (c_str cur @ '';'' @ path)" by (simp add: assigned_def)
  ultimately show "\<exists>c y. lbind_append_lua_package_field A L f (Chars path) x = (Fine c, y) \<and> stack_kept L w (view y)
    \<and> (c = LUA_OK \<longrightarrow> lw_tab (view y) pk (V_Str f) = V_Str (c_str cur @ '';'' @ path))"
    using protected_pop [OF ok append_follows [OF ok] w L(1), where args = "[V_Light (Chars f), V_Light (Chars path)]"
      and q = "Fine 0" and v = v and nm = "''lcf_append_lua_package_field''" and r = 0] v L(2)
    by (auto simp: lbind_append_lua_package_field_def numeral_2_eq_2)
  obtain v where "lcf_append_lua_package_field doc L (called L [V_Light (Chars f), V_Light NULL_PTR] w) = (Raised, v)"
    using append_null_run by blast
  then show "\<exists>c y. lbind_append_lua_package_field A L f NULL_PTR x = (Fine c, y) \<and> c \<noteq> LUA_OK \<and> stack_kept L w (view y)"
    using protected_pop [OF ok append_follows [OF ok] w L(1), where args = "[V_Light (Chars f), V_Light NULL_PTR]"
      and q = Raised and v = v and nm = "''lcf_append_lua_package_field''" and r = 0] L(2)
    by (auto simp: lbind_append_lua_package_field_def numeral_2_eq_2)
qed

subsection \<open>The module \<open>lm_base\<close>\<close>

lemma get_tid_call:
  assumes ok: "api_ok view A" and w: "view x = w" "binds_ok w" and T: "T < lw_next w" "2 < room T w"
    and vars: "lb_vars (binds w) T = Some vs" "vs LLK_THREAD = V_Light (Block th)" and tid: "tids th = Some tid"
    and got: "lbind_get_thread_local_vars A T [LLK_THREAD] x = (Fine LUA_OK, y)"
  shows "\<exists>z. lcf_get_tid A tids T x = (Fine 1, z) \<and> view z = set_frame T (V_Int (uint tid) # V_Light (Block th) # frame T w) w"
proof -
  have stk: "lw_stk w T \<noteq> []" using T(2) room_pos by fastforce
  have y: "view y = set_frame T ([V_Light (Block th)] @ frame T w) w"
    using get_vars_call [OF ok w T(1) _ vars(1), of "[]" LLK_THREAD] T(2) got vars(2) by auto
  have "la_touserdata doc T (Idx (-1)) (view y) = (Fine (Block th), view y)"
    using stk unfolding y by (simp add: d_value_def lua_at_def slot_of_def)
  from exactlyD [OF api_exactly(8) [OF ok] this] T(1) y obtain y1 where y1: "la_touserdata A T (Idx (-1)) y = (Fine (Block th), y1)" "view y1 = view y"
    by auto
  have "0 < room T (view y1)" using T(2) stk unfolding y1(2) y by (subst room_more) simp_all
  then have "la_push doc T (V_Int (uint tid)) (view y1) = (Fine (), set_frame T (V_Int (uint tid) # V_Light (Block th) # frame T w) w)"
    using stk y y1(2) by (simp add: d_push_def)
  from exactlyD [OF api_exactly(1) [OF ok] this] T(1) y y1(2) obtain z where
    "la_push A T (V_Int (uint tid)) y1 = (Fine (), z)" "view z = set_frame T (V_Int (uint tid) # V_Light (Block th) # frame T w) w" by auto
  then show ?thesis using got y1(1) tid by (simp add: lcf_get_tid_def bnd_def ret_def)
qed


text \<open>A table of constants is made and stored in the table on top.\<close>

definition with_ints :: "addr \<Rightarrow> string \<Rightarrow> (string \<times> int) list \<Rightarrow> lview \<Rightarrow> lview" where
  "with_ints m nm cs w = (let n = lw_next w in
     assigned m [(nm, V_Tab n)] (assigned n (map (\<lambda>(f, k). (f, V_Int k)) cs) (new_tab (\<lambda>_. V_Nil) n (w\<lparr>lw_next := n + 1\<rparr>))))"

lemma with_ints_next: "lw_next (with_ints m nm cs w) = lw_next w + 1"
  by (simp add: with_ints_def Let_def new_tab_def)

lemma with_ints_tab: "m < lw_next w \<Longrightarrow> lw_tab (with_ints m nm cs w) t = (if t = m then (lw_tab w m)(V_Str nm := V_Tab (lw_next w))
    else if t = lw_next w then fold (\<lambda>(f, k) c. c(V_Str f := V_Int k)) cs (\<lambda>_. V_Nil) else lw_tab w t)"
  by (simp add: with_ints_def Let_def new_tab_def assigned_def fold_map comp_def case_prod_unfold)

lemma within_more [simp]:
  "lw_next (within L lim vs w) = lw_next w" "(within L lim vs w)\<lparr>lw_next := n\<rparr> = within L lim vs (w\<lparr>lw_next := n\<rparr>)"
  "(within L lim vs w)\<lparr>lw_meta := m\<rparr> = within L lim vs (w\<lparr>lw_meta := m\<rparr>)"
  "new_tab c n (within L lim vs w) = within L lim vs (new_tab c n w)"
  by (simp_all add: within_def new_tab_def)

lemma ints_run:
  assumes "length us + 3 \<le> lim" and "lw_meta w n = None"
  shows "steps (concat (map (\<lambda>(f, k). [la_push doc L (V_Int k), la_setfield doc L (Idx (-2)) f]) cs)) (within L lim (V_Tab n # us) w)
    = (Fine (), within L lim (V_Tab n # us) (assigned n (map (\<lambda>(f, k). (f, V_Int k)) cs) w))"
  using assms(2)
proof (induction cs arbitrary: w)
  case (Cons c cs)
  obtain f k where c: "c = (f, k)" by fastforce
  have push: "la_push doc L (V_Int k) (within L lim (V_Tab n # us) w) = (Fine (), within L lim (V_Int k # V_Tab n # us) w)"
    using assms(1) by (simp add: d_push_def)
  have store: "la_setfield doc L (Idx (-2)) f (within L lim (V_Int k # V_Tab n # us) w) = (Fine (), within L lim (V_Tab n # us) (assigned n [(f, V_Int k)] w))"
    using Cons.prems by (simp add: d_setfield_def lua_at_def slot_of_def d_assign_def has_meta_def assigned_def)
  show ?case
    using Cons.IH [of "assigned n [(f, V_Int k)] w"] Cons.prems push store
    by (simp add: c bnd_def assigned_Cons [of n "(f, V_Int k)" "map _ cs"] del: doc_sel)
qed (simp add: ret_def)

lemma set_ints_run:
  assumes "length us + 4 \<le> lim" and "lw_meta w m = None" and "m < lw_next w"
  shows "steps (set_ints doc L nm cs) (within L lim (V_Tab m # us) w) = (Fine (), within L lim (V_Tab m # us) (with_ints m nm cs w))"
proof -
  let ?w = "new_tab (\<lambda>_. V_Nil) (lw_next w) (w\<lparr>lw_next := lw_next w + 1\<rparr>)"
  have meta: "lw_meta ?w (lw_next w) = None" "lw_meta ?w m = None" using assms(2,3) by (simp_all add: new_tab_def)
  have "la_newtable doc L (within L lim (V_Tab m # us) w) = (Fine (), within L lim (V_Tab (lw_next w) # V_Tab m # us) ?w)"
    using assms(1) by (simp add: d_new_def d_push_def)
  moreover have "la_setfield doc L (Idx (-2)) nm (within L lim (V_Tab (lw_next w) # V_Tab m # us) u)
      = (Fine (), within L lim (V_Tab m # us) (assigned m [(nm, V_Tab (lw_next w))] u))" if "lw_meta u m = None" for u
    using that by (simp add: d_setfield_def lua_at_def slot_of_def d_assign_def has_meta_def assigned_def)
  ultimately show ?thesis
    using ints_run [of "V_Tab m # us" lim ?w "lw_next w" L cs] assms(1) meta
    by (simp add: set_ints_def with_ints_def steps_append Let_def del: doc_sel)
qed

text \<open>The module with its tables of constants; \<open>S\<close> has no entry for the codes 9 and 10, with which a coroutine may be resumed.\<close>

lemma luaopen_run:
  shows "\<exists>v n. luaopen_lm_base doc L (within L 20 [] w) = (Fine 1, within L 20 [V_Tab n] v) \<and> lw_next w \<le> n \<and> (\<exists>s. lw_tab v n (V_Str ''S'') = V_Tab s
    \<and> lw_tab v s (V_Str ''YIELD_FOR_IO'') = V_Int 5 \<and> lw_tab v s (V_Str ''RESUME_IO'') = V_Int 8
    \<and> lw_tab v s (V_Str ''RESUME_SLEEP'') = V_Int 11 \<and> (\<forall>k. lw_tab v s (V_Str k) \<noteq> V_Int 9 \<and> lw_tab v s (V_Str k) \<noteq> V_Int 10))"
proof -
  define n where "n = lw_next w"
  define w1 where "w1 = new_tab (\<lambda>_. V_Nil) n (w\<lparr>lw_next := n + 1\<rparr>)"
  define w2 where "w2 = w1\<lparr>lw_tab := (lw_tab w1)(n := (lw_tab w1 n)(V_Str ''get_tid'' := V_C ''lcf_get_tid''))\<rparr>"
  have meta: "lw_meta w1 n = None" "lw_meta w2 n = None" "n < lw_next w2"
    by (simp_all add: w1_def w2_def new_tab_def)
  have keep: "lw_meta (with_ints n nm cs u) n = None" "n < lw_next (with_ints n nm cs u)" if "lw_meta u n = None" "n < lw_next u" for nm cs u
    using that by (simp_all add: with_ints_def Let_def new_tab_def)
  have "la_newtable doc L (within L 20 [] w) = (Fine (), within L 20 [V_Tab n] w1)"
    by (simp add: d_new_def d_push_def n_def w1_def)
  moreover have "la_setfuncs doc L [(''get_tid'', ''lcf_get_tid'')] (within L 20 [V_Tab n] w1) = (Fine (), within L 20 [V_Tab n] w2)"
    using meta(1) by (simp add: d_setfuncs_def has_meta_def w2_def)
  ultimately have start: "steps [la_newtable doc L, la_setfuncs doc L [(''get_tid'', ''lcf_get_tid'')]] (within L 20 [] w) = (Fine (), within L 20 [V_Tab n] w2)"
    by (simp add: bnd_def ret_def del: doc_sel)
  have ints: "steps (set_ints doc L nm cs) (within L 20 [V_Tab n] u) = (Fine (), within L 20 [V_Tab n] (with_ints n nm cs u))"
    if "lw_meta u n = None" "n < lw_next u" for nm cs u
    using set_ints_run [of "[]" 20 u n L nm cs] that by simp
  let ?S = "[(''YIELD_FOR_IO'', 5), (''RESUME_IO'', 8), (''RESUME_SLEEP'', 11), (''WAIT_FOR_INPUT'', 0),
         (''WAIT_FOR_OUTPUT'', 1), (''READY_TO_INPUT'', 2), (''READY_TO_OUTPUT'', 3)]"
  let ?v = "with_ints n ''EV'' [(''EPOLLIN'', 1), (''EPOLLOUT'', 4), (''EPOLLET'', 2147483648)] (with_ints n ''D'' [(''TIMEOUT_SECS'', 15)]
    (with_ints n ''E'' [(''EAGAIN'', 11), (''EBADFD'', 77), (''EINVAL'', 22), (''ETIMEDOUT'', 110)] (with_ints n ''S'' ?S w2)))"
  have run: "luaopen_lm_base doc L (within L 20 [] w) = (Fine 1, within L 20 [V_Tab n] ?v)"
    unfolding luaopen_lm_base_def aluaL_newlib_def steps_append bnd_assoc
    by (rule bnd_run, rule start, rule bnd_run, rule ints, (rule keep meta)+, rule bnd_run, rule ints, (rule keep meta)+,
        rule bnd_run, rule ints, (rule keep meta)+, rule bnd_run, rule ints, (rule keep meta)+) (simp add: ret_def)
  note tabs = with_ints_tab [where m = n] with_ints_next
  have w2: "lw_next w2 = n + 1" by (simp add: w1_def w2_def new_tab_def)
  have module: "lw_tab ?v n (V_Str ''S'') = V_Tab (n + 1)" by (simp add: tabs w2)
  have codes: "lw_tab ?v (n + 1) = fold (\<lambda>(f, k) c. c(V_Str f := V_Int k)) ?S (\<lambda>_. V_Nil)" by (simp add: tabs w2)
  show ?thesis
    by (intro exI [of _ ?v] exI [of _ n] exI [of _ "n + 1"] conjI, rule run, simp add: n_def, rule module)
      (simp_all only: codes, simp_all)
qed

text \<open>
  \<open>luaL_getmetatable\<close> gives the type of what it pushes, which for a table is not 1: the value
  stays on the stack below the metatable.
\<close>

lemma newmetatable_run:
  assumes "lw_stk w L = (lim, us) # fs" and "length us + 3 \<le> lim" and "lw_tab w (lw_reg w) (V_Str nm) = V_Tab m" and "lw_meta w m = None"
  shows "\<exists>v. aluaL_newmetatable_with_methods doc L nm fs' w = (Fine (), v) \<and> frame L v = V_Tab m # V_Tab m # us"
  using assms unfolding aluaL_newmetatable_with_methods_def
  by (simp add: run_simps d_newmetatable_def d_setfuncs_def Let_def)


subsection \<open>Properties of the bindings\<close>

text \<open>A first state to try them on: thread 0, with the tables 3 to 7.\<close>

definition demo :: lview where
  "demo = (let w = \<lparr>lw_stk = (\<lambda>_. [])(0 := [(20, [])]), lw_tab = \<lambda>_ _. V_Nil, lw_meta = \<lambda>_. None, lw_next = 3, lw_reg = 1, lw_glob = 2,
       lw_file = \<lambda>f. if f = ''a.lua'' then (0, V_Chunk 7) else (7, V_Str ''cannot open'')\<rparr> in inited w)"

lemma demo_ok: "binds_ok demo" "lw_next demo = 8" "lw_stk demo = (\<lambda>_. [])(0 := [(20, [])])" "lw_file demo ''b.lua'' = (7, V_Str ''cannot open'')"
  "lb_tid (binds demo) = Map.empty"
proof -
  let ?w = "\<lparr>lw_stk = (\<lambda>_. [])(0 := [(20, [])]), lw_tab = \<lambda>_ _. V_Nil, lw_meta = \<lambda>_. None, lw_next = 3, lw_reg = 1, lw_glob = 2,
       lw_file = \<lambda>f. if f = ''a.lua'' then (0, V_Chunk 7) else (7, V_Str ''cannot open'')\<rparr> :: lview"
  have demo: "demo = (inited ?w)\<lparr>lw_stk := (\<lambda>_. [])(0 := [(20, [])])\<rparr>" by (simp add: demo_def inited_def Let_def)
  show "binds_ok demo" "lb_tid (binds demo) = Map.empty" unfolding demo by (rule inited_binds; simp)+
  show "lw_next demo = 8" "lw_stk demo = (\<lambda>_. [])(0 := [(20, [])])" "lw_file demo ''b.lua'' = (7, V_Str ''cannot open'')"
    by (simp_all add: demo_def inited_def Let_def)
qed

lemma demo_room: "room 0 demo = 20" "frame 0 demo = []"
  by (simp_all add: room_def frame_def demo_ok)

lemma demo_pre: "id demo = demo" "0 < lw_next demo" "1 < room 0 demo"
  by (simp_all add: demo_ok demo_room)

text \<open>C39: The bindings that keep coroutines and compiled code return, whatever fails in Lua: no error of Lua and no
  undefined call leaves them, and they leave the stack of their thread as it was, but for
  \<open>lbind_get_lcode_chunk\<close>, which pushes exactly one value where its result is \<open>LUA_OK\<close>.\<close>

theorem bindings_balance:
  assumes ok: "api_ok view A" and w: "view x = w" "binds_ok w" and L: "L < lw_next w" "1 < room L w"
  shows "(\<exists>T y. lbind_ref_tid_lthread A L tid x = (Fine T, y) \<and> stack_kept L w (view y))
    \<and> (\<exists>c y. lbind_unref_tid_lthread A L tid x = (Fine c, y) \<and> stack_kept L w (view y))
    \<and> (\<exists>c y. lbind_ref_lcode_chunk A L f x = (Fine c, y) \<and> stack_kept L w (view y))
    \<and> (\<exists>c y. lbind_unref_lcode_chunk A L f x = (Fine c, y) \<and> stack_kept L w (view y))
    \<and> (\<exists>c y. lbind_get_lcode_chunk A L f x = (Fine c, y) \<and> kept L w (view y)
          \<and> (if c = LUA_OK then \<exists>v. frame L (view y) = v # frame L w else frame L (view y) = frame L w))"
proof (intro conjI)
  show "\<exists>T y. lbind_ref_tid_lthread A L tid x = (Fine T, y) \<and> stack_kept L w (view y)"
    using ref_tid_call [OF ok w L] referred_stack [OF L(1)] by metis
  show "\<exists>c y. lbind_unref_tid_lthread A L tid x = (Fine c, y) \<and> stack_kept L w (view y)"
    using unref_tid_call [OF ok w L] unreferred_binds(3) [OF w(2)] by metis
  show "\<exists>c y. lbind_ref_lcode_chunk A L f x = (Fine c, y) \<and> stack_kept L w (view y)"
    using ref_chunk_call [OF ok w L, of f] coded_binds(3) [OF w(2)] by auto
  show "\<exists>c y. lbind_unref_lcode_chunk A L f x = (Fine c, y) \<and> stack_kept L w (view y)"
    using unref_chunk_call [OF ok w(1) L] by blast
  obtain c y where y: "lbind_get_lcode_chunk A L f x = (Fine c, y)"
    "c = LUA_OK \<and> view y = set_frame L (lb_code (binds w) f # frame L w) w \<or> c \<noteq> LUA_OK \<and> stack_kept L w (view y)"
    using get_chunk_call [OF ok w L] by blast
  have "lw_stk w L \<noteq> []" using L(2) room_pos by fastforce
  with y(2) have "kept L w (view y) \<and> (if c = LUA_OK then \<exists>v. frame L (view y) = v # frame L w else frame L (view y) = frame L w)"
    by (auto simp: stack_kept_def dest: stack_kept_room [unfolded stack_kept_def, OF conjI])
  with y(1) show "\<exists>c y. lbind_get_lcode_chunk A L f x = (Fine c, y) \<and> kept L w (view y)
      \<and> (if c = LUA_OK then \<exists>v. frame L (view y) = v # frame L w else frame L (view y) = frame L w)" by blast
qed

theorem bindings_balance_witness:
  "binds_ok demo \<and> (\<exists>c y. lbind_get_lcode_chunk doc 0 ''b.lua'' demo = (Fine c, y) \<and> kept 0 demo y
     \<and> (if c = LUA_OK then \<exists>v. frame 0 y = v # frame 0 demo else frame 0 y = frame 0 demo))"
  by (rule conjI [OF demo_ok(1) bindings_balance [OF doc_ok demo_pre(1) demo_ok(1) demo_pre(2,3), of 0 "''b.lua''",
      unfolded id_apply, THEN conjunct2, THEN conjunct2, THEN conjunct2, THEN conjunct2]])

text \<open>C24: The table of coroutines refines a map from thread ids: referring makes a fresh coroutine, with an empty stack
  and no variables, and puts it in the map under the id; it gives NULL and keeps the stack where Lua fails.
  Forgetting removes the id and keeps the coroutine's variables.\<close>

theorem coroutine_referred:
  assumes ok: "api_ok view A" and w: "view x = w" "binds_ok w" and L: "L < lw_next w" "1 < room L w"
  shows "(\<exists>r y. lbind_ref_tid_lthread A L tid x = (Fine r, y) \<and> stack_kept L w (view y)
      \<and> (\<forall>T. r = Some T \<longrightarrow> lw_next w \<le> T \<and> T < lw_next (view y) \<and> lw_stk (view y) T = [(LUA_MINSTACK, [])] \<and> binds_ok (view y)
          \<and> binds (view y) = (binds w)\<lparr>lb_tid := (lb_tid (binds w))(uint tid \<mapsto> T), lb_vars := (lb_vars (binds w))(T \<mapsto> \<lambda>_. V_Nil)\<rparr>))
    \<and> (\<exists>c y. lbind_unref_tid_lthread A L tid x = (Fine c, y) \<and> stack_kept L w (view y)
      \<and> (c = LUA_OK \<longrightarrow> binds_ok (view y) \<and> binds (view y) = (binds w)\<lparr>lb_tid := (lb_tid (binds w))(uint tid := None)\<rparr>))"
proof (rule conjI)
  have new: "lw_next w < lw_next (referred tid w)" "lw_stk (referred tid w) (lw_next w) = [(LUA_MINSTACK, [])]"
    by (simp_all add: referred_def Let_def)
  from ref_tid_call [OF ok w L, of tid] obtain r y where "lbind_ref_tid_lthread A L tid x = (Fine r, y)"
    "r = Some (lw_next w) \<and> view y = referred tid w \<or> r = None \<and> stack_kept L w (view y)" by blast
  then show "\<exists>r y. lbind_ref_tid_lthread A L tid x = (Fine r, y) \<and> stack_kept L w (view y)
      \<and> (\<forall>T. r = Some T \<longrightarrow> lw_next w \<le> T \<and> T < lw_next (view y) \<and> lw_stk (view y) T = [(LUA_MINSTACK, [])] \<and> binds_ok (view y)
          \<and> binds (view y) = (binds w)\<lparr>lb_tid := (lb_tid (binds w))(uint tid \<mapsto> T), lb_vars := (lb_vars (binds w))(T \<mapsto> \<lambda>_. V_Nil)\<rparr>)"
    using referred_stack [OF L(1)] referred_binds [OF w(2)] new by (intro exI [of _ r] exI [of _ y]) auto
  from unref_tid_call [OF ok w L, of tid] obtain c y where "lbind_unref_tid_lthread A L tid x = (Fine c, y)"
    "c = LUA_OK \<and> view y = unreferred tid w \<or> c \<noteq> LUA_OK \<and> stack_kept L w (view y)" by blast
  then show "\<exists>c y. lbind_unref_tid_lthread A L tid x = (Fine c, y) \<and> stack_kept L w (view y)
      \<and> (c = LUA_OK \<longrightarrow> binds_ok (view y) \<and> binds (view y) = (binds w)\<lparr>lb_tid := (lb_tid (binds w))(uint tid := None)\<rparr>)"
    using unreferred_binds [OF w(2)] by (intro exI [of _ c] exI [of _ y]) auto
qed

text \<open>A call of \<open>doc\<close> succeeds where the C function does.\<close>

lemma doc_call:
  assumes "g (called L args w) = (Fine i, v)" and "length args < room L w" and "0 \<le> i" "i \<le> int (length (frame L v))"
  shows "bnd (steps (map (la_push doc L) (V_C nm # args))) (\<lambda>_. bnd (la_pcall doc L (length args) r g) k) w
    = k LUA_OK (returned L (results (nat i) r (frame L v)) v)"
proof -
  have stk: "lw_stk w L \<noteq> []" using assms(2) room_pos by fastforce
  have pushed: "steps (map (la_push doc L) vs) w = (Fine (), set_frame L (rev vs @ frame L w) w)" if "length vs \<le> room L w" for vs w
    using that
  proof (induction vs arbitrary: w)
    case (Cons v vs)
    then have "lw_stk w L \<noteq> []" "0 < room L w" using room_pos by fastforce+
    then show ?case using Cons by (simp add: bnd_def d_push_def room_more [of w L "[v]", simplified])
  qed (simp add: ret_def)
  have enter: "enter L (length args) (set_frame L (rev args @ V_C nm # frame L w) w) = called L args w"
    using stk by (auto simp: enter_def called_def set_frame_def frame_def split: list.splits)
  have leave: "leave L vs u = returned L vs u" for vs u
    by (auto simp: leave_def returned_def Let_def set_frame_def frame_def split: list.splits)
  have "la_pcall doc = d_pcall" by (simp add: doc_def)
  then show ?thesis
    using pushed [of "V_C nm # args" w] assms stk by (simp add: bnd_def d_pcall_def enter leave del: steps.simps)
qed

lemma doc_binding:
  assumes "g (called L args w) = (Fine i, v)" and "length args < room L w" and "0 \<le> i" "i \<le> int (length (frame L v))"
  shows "bnd (steps (map (la_push doc L) (V_C nm # args))) (\<lambda>_. bnd (la_pcall doc L (length args) r g) (pop_error doc L)) w
    = (Fine LUA_OK, returned L (results (nat i) r (frame L v)) v)"
  unfolding doc_call [where g = g and k = "pop_error doc L", OF assms] by (rule pop_error_simps(1))

lemma demo_ref: "lbind_ref_tid_lthread doc 0 9 demo = (Fine (Some 8), referred 9 demo)"
proof -
  obtain v where v: "lcf_ref_tid_lthread doc 0 (called 0 [V_Int (uint (9 :: u32))] demo) = (Fine 1, v)" "length (frame 0 v) = 4"
    "returned 0 (results 1 1 (frame 0 v)) v = set_frame 0 (V_Thr (lw_next demo) # frame 0 demo) (referred 9 demo)"
    using ref_tid_run [OF demo_ok(1), of 0 20 "[]" "[]" 9] demo_ok(2,3) by auto
  have stk: "lw_stk (referred 9 demo) 0 = [(20, [])]" by (simp add: referred_def Let_def demo_ok)
  have call: "bnd (steps [la_push doc 0 (V_C ''lcf_ref_tid_lthread''), la_push doc 0 (V_Int (uint (9 :: u32)))])
      (\<lambda>_. bnd (la_pcall doc 0 1 1 (lcf_ref_tid_lthread doc 0)) k) demo = k LUA_OK (set_frame 0 [V_Thr 8] (referred 9 demo))" for k
    using doc_call [where g = "lcf_ref_tid_lthread doc 0", OF v(1), where nm = "''lcf_ref_tid_lthread''" and r = 1 and k = k] v(2,3) demo_room demo_ok(2) by (simp del: steps.simps doc_sel)
  show ?thesis
    unfolding lbind_ref_tid_lthread_def call using stk
    by (simp add: d_value_def lua_at_def slot_of_def bnd_def ret_def demo_ok frame_def set_frame_def stk_idem)
qed


abbreviation demo_co :: lview where "demo_co \<equiv> referred 9 demo"

lemma demo_co: "binds_ok demo_co" "lb_vars (binds demo_co) 8 = Some (\<lambda>_. V_Nil)" "room 8 demo_co = 20" "frame 8 demo_co = []" "lw_next demo_co = 10"
  using referred_binds [OF demo_ok(1), of 9] by (simp_all add: demo_ok(2)) (simp_all add: referred_def Let_def demo_ok(2) room_def frame_def LUA_MINSTACK_def)

text \<open>C26: Setting variables of a coroutine refines an update of its map of variables: where the call succeeds each name has the
  last value given for it, integers, pointers and values of the stack alike, the other names and the other coroutines keep
  theirs; the stack is as before, also where it fails.\<close>

theorem vars_set:
  assumes ok: "api_ok view A" and w: "view x = w" "binds_ok w" and T: "T < lw_next w" "2 * length vs + 1 < room T w"
    and vars: "lb_vars (binds w) T = Some old" and n: "length vs \<le> 9" and vs: "\<forall>(f, v)\<in>set vs. arg_ok (frame T w) v"
    and new: "new = (\<lambda>f. case map_of (rev vs) f of Some v \<Rightarrow> arg_value (frame T w) v | None \<Rightarrow> old f)"
  shows "\<exists>c y. lbind_set_va_list A T LTTYPE_THREAD_LOCAL_VAR vs x = (Fine c, y) \<and> stack_kept T w (view y)
    \<and> (c = LUA_OK \<longrightarrow> binds_ok (view y) \<and> binds (view y) = (binds w)\<lparr>lb_vars := (lb_vars (binds w))(T \<mapsto> new)\<rparr>
        \<and> (\<forall>f. \<exists>c z. lbind_get_thread_local_vars A T [f] y = (Fine c, z) \<and> (c = LUA_OK \<longrightarrow> frame T (view z) = new f # frame T w)))"
proof -
  obtain c y where y: "lbind_set_va_list A T LTTYPE_THREAD_LOCAL_VAR vs x = (Fine c, y)" "stack_kept T w (view y)"
    "c = LUA_OK \<longrightarrow> binds_ok (view y) \<and> binds (view y) = (binds w)\<lparr>lb_vars := (lb_vars (binds w))(T \<mapsto> new)\<rparr>"
    using set_vars_call [OF ok w T vars n vs] unfolding new by blast
  have T': "T < lw_next (view y)" "frame T (view y) = frame T w" "1 < room T (view y)" "lw_stk (view y) T \<noteq> []"
    using y(2) T stack_kept_room [OF y(2)] room_pos [of T w] by (auto simp: stack_kept_def dest: kept_next)
  have "\<exists>c z. lbind_get_thread_local_vars A T [f] y = (Fine c, z) \<and> (c = LUA_OK \<longrightarrow> frame T (view z) = new f # frame T w)"
    if "c = LUA_OK" for f
    using get_vars_call [where names = "[]" and f = f and vs = new, OF ok HOL.refl _ T'(1)] y(3) that T'(2-4) by fastforce
  with y show ?thesis by (intro exI [of _ c] exI [of _ y]) simp
qed

theorem vars_set_witness:
  "\<exists>c y. lbind_set_va_list doc 8 LTTYPE_THREAD_LOCAL_VAR [(LLK_THREAD, LTYPE_PTR (Block 5))] demo_co = (Fine c, y) \<and> stack_kept 8 demo_co (id y)
    \<and> (c = LUA_OK \<longrightarrow> binds_ok (id y) \<and> binds (id y) = (binds demo_co)\<lparr>lb_vars := (lb_vars (binds demo_co))(8 \<mapsto>
        \<lambda>f. case map_of (rev [(LLK_THREAD, LTYPE_PTR (Block 5))]) f of Some v \<Rightarrow> arg_value (frame 8 demo_co) v | None \<Rightarrow> V_Nil)\<rparr>
      \<and> (\<forall>f. \<exists>c z. lbind_get_thread_local_vars doc 8 [f] y = (Fine c, z) \<and> (c = LUA_OK \<longrightarrow> frame 8 (id z)
          = (case map_of (rev [(LLK_THREAD, LTYPE_PTR (Block 5))]) f of Some v \<Rightarrow> arg_value (frame 8 demo_co) v | None \<Rightarrow> V_Nil) # frame 8 demo_co)))"
  by (rule vars_set [OF doc_ok _ _ _ _ demo_co(2)]) (simp_all add: demo_co arg_ok_def)

text \<open>C38: What \<open>lbind_ref_lcode_chunk\<close> stores for a file \<open>lbind_get_lcode_chunk\<close> pushes: exactly what \<open>luaL_loadfile\<close> left on the
  stack, which is a message where the file cannot be loaded, or where memory runs out in it; where it does not, it is
  what the file gives. Other files keep what they had.\<close>

theorem chunk_roundtrip:
  assumes ok: "api_ok view A" and w: "view x = w" "binds_ok w" and L: "L < lw_next w" "1 < room L w"
    and ref: "lbind_ref_lcode_chunk A L f x = (Fine LUA_OK, y)" and got: "lbind_get_lcode_chunk A L g y = (Fine LUA_OK, z)"
  shows "stack_kept L w (view y) \<and> (\<exists>e. view z = set_frame L ((if g = f then loaded w f e else lb_code (binds w) g) # frame L w) (view y)
    \<and> ((\<forall>f. follows view L (la_loadfile A L f) (la_loadfile doc L f)) \<longrightarrow> loaded w f e = snd (lw_file w f)))"
proof -
  obtain e where y: "view y = coded f (loaded w f e) w"
    "(\<forall>f. follows view L (la_loadfile A L f) (la_loadfile doc L f)) \<longrightarrow> loaded w f e = snd (lw_file w f)"
  proof (cases "\<forall>f. follows view L (la_loadfile A L f) (la_loadfile doc L f)")
    case True
    then have "view y = coded f (loaded w f None) w" using ref_chunk_loaded [OF ok _ w L ref] by (simp add: loaded_def)
    then show thesis by (rule that) (simp add: loaded_def)
  next
    case False
    obtain e where "view y = coded f (loaded w f e) w" using ref_chunk_call [OF ok w L, of f] ref by auto
    then show thesis by (rule that) (use False in blast)
  qed
  note after = coded_binds [where f = f and v = "loaded w f e", OF w(2)]
  have kept: "stack_kept L w (view y)" unfolding y by (rule after(3))
  then have L': "L < lw_next (view y)" "1 < room L (view y)" "frame L (view y) = frame L w"
    using L stack_kept_room by (auto simp: stack_kept_def dest: kept_next)
  have "view z = set_frame L ((if g = f then loaded w f e else lb_code (binds w) g) # frame L w) (view y)"
    using get_chunk_call [OF ok HOL.refl _ L'(1,2), of g] got after(1,2) y(1) L'(3) by auto
  then show ?thesis using kept y(2) by blast
qed

lemma demo_chunk: "lbind_ref_lcode_chunk doc 0 ''b.lua'' demo = (Fine LUA_OK, coded ''b.lua'' (V_Str ''cannot open'') demo)"
    "lbind_get_lcode_chunk doc 0 ''b.lua'' (coded ''b.lua'' (V_Str ''cannot open'') demo)
      = (Fine LUA_OK, set_frame 0 [V_Str ''cannot open''] (coded ''b.lua'' (V_Str ''cannot open'') demo))"
proof -
  let ?w = "coded ''b.lua'' (V_Str ''cannot open'') demo"
  obtain v where v: "lcf_ref_lcode_chunk doc 0 (called 0 [V_Light (Chars ''b.lua'')] demo) = (Fine 0, v)" "returned 0 (results 0 0 (frame 0 v)) v = ?w"
    using ref_chunk_run [where L = 0 and lim = 20 and us = "[]" and fs = "[]" and f = "''b.lua''" and e = None, OF demo_ok(1)] demo_ok(3,4)
    by (auto simp: ref_chunk_doc loaded_def simp del: doc_sel)
  show "lbind_ref_lcode_chunk doc 0 ''b.lua'' demo = (Fine LUA_OK, ?w)"
    using doc_binding [where g = "lcf_ref_lcode_chunk doc 0", OF v(1), where nm = "''lcf_ref_lcode_chunk''" and r = 0] demo_room v(2)
    by (simp add: lbind_ref_lcode_chunk_def del: steps.simps doc_sel)
  note after = coded_binds [where f = "''b.lua''" and v = "V_Str ''cannot open''", OF demo_ok(1)]
  have stk: "lw_stk ?w 0 = [(20, [])]" using after(3) by (simp add: stack_kept_def demo_ok)
  then have room: "room 0 ?w = 20" "frame 0 ?w = []" by (simp_all add: room_def frame_def)
  obtain u where u: "lcf_get_lcode_chunk doc 0 (called 0 [V_Light (Chars ''b.lua'')] ?w) = (Fine 1, u)" "1 \<le> length (frame 0 u)"
    "returned 0 (results 1 1 (frame 0 u)) u = set_frame 0 [V_Str ''cannot open''] ?w"
    using get_chunk_run [where f = "''b.lua''", OF after(1) stk] after(2) room by auto
  show "lbind_get_lcode_chunk doc 0 ''b.lua'' ?w = (Fine LUA_OK, set_frame 0 [V_Str ''cannot open''] ?w)"
    using doc_binding [where g = "lcf_get_lcode_chunk doc 0", OF u(1), where nm = "''lcf_get_lcode_chunk''" and r = 1] room u(2,3)
    by (simp add: lbind_get_lcode_chunk_def del: steps.simps doc_sel)
qed

theorem chunk_roundtrip_witness:
  "let y = coded ''b.lua'' (V_Str ''cannot open'') demo in
    stack_kept 0 demo y \<and> set_frame 0 [V_Str ''cannot open''] y = set_frame 0 (snd (lw_file demo ''b.lua'') # frame 0 demo) y"
proof -
  have load: "\<forall>f. follows id 0 (la_loadfile doc 0 f) (la_loadfile doc 0 f)" using follows_id [OF doc_keeps(23)] by blast
  show ?thesis
    using chunk_roundtrip [OF doc_ok demo_pre(1) demo_ok(1) demo_pre(2,3) demo_chunk] load unfolding Let_def id_apply simp_thms if_True by metis
qed

lemma called_binds [simp]: "binds_ok (called L args w) = binds_ok w" "binds (called L args w) = binds w"
  by (simp_all add: binds_ok_def binds_def called_def the_tab_def vars_tab_def)

text \<open>C25: A worker makes a coroutine for a thread and sets its variable \<open>LLK_THREAD\<close> to that thread; where this succeeded
  and the coroutine calls \<open>get_tid\<close>, it gets the id of that thread, if Lua can read the variable.\<close>

theorem thread_finds_itself:
  assumes ok: "api_ok view A" and w: "view x = w" "binds_ok w" and L: "L < lw_next w" "1 < room L w"
    and ref: "lbind_ref_tid_lthread A L tid x = (Fine (Some T), y)"
    and set: "lbind_set_va_list A T LTTYPE_THREAD_LOCAL_VAR [(LLK_THREAD, LTYPE_PTR (Block th))] y = (Fine LUA_OK, z)"
    and call: "view u = called T [] (view z)" and th: "tids th = Some tid'"
    and got: "lbind_get_thread_local_vars A T [LLK_THREAD] u = (Fine LUA_OK, u')"
  shows "\<exists>v. lcf_get_tid A tids T u = (Fine 1, v) \<and> frame T (view v) = [V_Int (uint tid'), V_Light (Block th)]"
proof -
  have y: "T = lw_next w" "view y = referred tid w" using ref_tid_call [OF ok w L, of tid] ref by auto
  note after = referred_binds [OF w(2), of tid]
  have room: "T < lw_next (view y)" "room T (view y) = 20" "lb_vars (binds (view y)) T = Some (\<lambda>_. V_Nil)"
    using after(2) y by (simp_all) (simp_all add: referred_def Let_def room_def LUA_MINSTACK_def)
  have z: "binds_ok (view z)" "stack_kept T (view y) (view z)" "\<exists>vs. lb_vars (binds (view z)) T = Some vs \<and> vs LLK_THREAD = V_Light (Block th)"
    using set_vars_call [where vs = "[(LLK_THREAD, LTYPE_PTR (Block th))]", OF ok HOL.refl _ room(1) _ room(3)] after(1) y room(2) set
    by (auto simp: arg_ok_def arg_value_def)
  have "T < lw_next (view z)" using z(2) room(1) by (auto simp: stack_kept_def dest: kept_next)
  then have u: "T < lw_next (called T [] (view z))" "2 < room T (called T [] (view z))" "frame T (called T [] (view z)) = []"
    "lw_stk (called T [] (view z)) T \<noteq> []"
    by (simp_all add: called_def room_def frame_def LUA_MINSTACK_def)
  obtain vs where vs: "lb_vars (binds (called T [] (view z))) T = Some vs" "vs LLK_THREAD = V_Light (Block th)" using z(3) by auto
  have "binds_ok (called T [] (view z))" using z(1) by simp
  from get_tid_call [where tid = tid' and tids = tids, OF ok call this u(1,2) vs th got] obtain v where
    "lcf_get_tid A tids T u = (Fine 1, v)" "view v = set_frame T (V_Int (uint tid') # V_Light (Block th) # []) (called T [] (view z))"
    unfolding u(3) by blast
  then show ?thesis using u(4) by (intro exI [of _ v]) simp
qed


definition demo_set :: lview where
  "demo_set = assigned 9 [(LLK_THREAD, V_Light (Block 5))] demo_co"

lemma demo_set:
  "lbind_set_va_list doc 8 LTTYPE_THREAD_LOCAL_VAR [(LLK_THREAD, LTYPE_PTR (Block 5))] demo_co = (Fine LUA_OK, demo_set)"
  "\<exists>u. lbind_get_thread_local_vars doc 8 [LLK_THREAD] (called 8 [] demo_set) = (Fine LUA_OK, u)"
proof -
  let ?kvs = "[(LLK_THREAD, V_Light (Block 5))]" and ?u = "called 8 [] demo_set"
  have vars: "vars_tab demo_co 8 = Some 9"
    using binds_okD(1-14) [OF demo_ok(1)] demo_ok(2) by (simp add: vars_tab_def the_tab_def referred_def Let_def)
  obtain v where v: "lcf_set_va_list doc 8 (called 8 (va_args LTTYPE_THREAD_LOCAL_VAR ?kvs) demo_co) = (Fine 0, v)"
    "returned 8 (results 0 0 (frame 8 v)) v = demo_set"
    using set_vars_run [where kvs = ?kvs, OF demo_co(1) vars] by (auto simp: demo_set_def)
  have "lbind_set_va_list doc 8 LTTYPE_THREAD_LOCAL_VAR [(LLK_THREAD, LTYPE_PTR (Block 5))] demo_co
      = bnd (steps (map (la_push doc 8) (V_C ''lcf_set_va_list'' # va_args LTTYPE_THREAD_LOCAL_VAR ?kvs)))
          (\<lambda>_. bnd (la_pcall doc 8 (length (va_args LTTYPE_THREAD_LOCAL_VAR ?kvs)) 0 (lcf_set_va_list doc 8)) (pop_error doc 8)) demo_co"
    by (simp add: lbind_set_va_list_def va_args_def push_varg_def bnd_def [of "\<lambda>w. (Fine (int (length (frame 8 w))), w)"] numeral_3_eq_3)
  also have "\<dots> = (Fine LUA_OK, demo_set)"
    using doc_binding [where g = "lcf_set_va_list doc 8", OF v(1), where nm = "''lcf_set_va_list''" and r = 0] v(2) demo_co(3)
    by (simp del: steps.simps doc_sel)
  finally show "lbind_set_va_list doc 8 LTTYPE_THREAD_LOCAL_VAR [(LLK_THREAD, LTYPE_PTR (Block 5))] demo_co = (Fine LUA_OK, demo_set)" .
  have ok: "binds_ok ?u" using assigned_binds(1) [OF demo_co(1) vars] by (simp add: demo_set_def)
  have vars': "vars_tab ?u 8 = Some 9"
    using vars binds_okD(17,19) [OF demo_co(1) vars]
    by (simp add: vars_tab_def the_tab_def called_def demo_set_def assigned_def)
  have "room 8 ?u = 20" by (simp add: called_def room_def LUA_MINSTACK_def)
  with get_vars_run [where names = "[]" and f = LLK_THREAD, OF ok vars']
    doc_binding [where g = "lcf_get_thread_local_vars doc 8" and args = "[V_Light (Chars LLK_THREAD)]" and w = ?u and nm = "''lcf_get_thread_local_vars''" and r = 1]
  show "\<exists>u. lbind_get_thread_local_vars doc 8 [LLK_THREAD] ?u = (Fine LUA_OK, u)"
    by (simp add: lbind_get_thread_local_vars_def del: steps.simps doc_sel)
qed

theorem thread_finds_itself_witness:
  "\<exists>v. lcf_get_tid doc (\<lambda>th. if th = 5 then Some 9 else None) 8 (called 8 [] demo_set) = (Fine 1, v)
    \<and> frame 8 v = [V_Int 9, V_Light (Block 5)]"
proof -
  obtain u where u: "lbind_get_thread_local_vars doc 8 [LLK_THREAD] (called 8 [] demo_set) = (Fine LUA_OK, u)" using demo_set(2) by blast
  show ?thesis
    using thread_finds_itself [where tids = "\<lambda>th. if th = 5 then Some 9 else None" and tid' = 9 and u = "called 8 [] demo_set",
        OF doc_ok demo_pre(1) demo_ok(1) demo_pre(2,3) demo_ref demo_set(1) _ _ u] by simp
qed

theorem coroutine_referred_witness:
  "\<exists>y. lbind_ref_tid_lthread doc 0 9 demo = (Fine (Some 8), y) \<and> lb_tid (binds y) 9 = Some 8"
  using coroutine_referred [OF doc_ok demo_pre(1) demo_ok(1) demo_pre(2,3), of 9] demo_ref by auto

end
