(* ===== verification/Lua_Files.thy ===== *)
theory Lua_Files
  imports Lua_Start
begin

text \<open>
  Running a file: \<open>lbind_dofile\<close> of \<^verbatim>\<open>src/c/src/lua_bind.c\<close>, and the configuration state that
  \<open>lpconf_new\<close> and \<open>lpconf_destroy\<close> of \<^verbatim>\<open>src/c/src/lua_pconf.c\<close> make of a file and give back.
\<close>

subsection \<open>Definitions\<close>

text \<open>\<open>run\<close> is the program that the compiled chunk of a file is.\<close>

definition check_code :: "'x lua_api \<Rightarrow> addr \<Rightarrow> int \<Rightarrow> ('x, unit) lprog" where
  "check_code A L r = (if r \<noteq> LUA_OK then la_error A L else ret ())"

definition lcf_dofile :: "'x lua_api \<Rightarrow> (string \<Rightarrow> addr \<Rightarrow> ('x, int) lprog) \<Rightarrow> addr \<Rightarrow> ('x, int) lprog" where
  "lcf_dofile A run L = bnd (la_touserdata A L (Idx (-1))) (\<lambda>p. with_chars p (\<lambda>filename.
     bnd (bnd (la_loadfile A L filename) (check_code A L)) (\<lambda>_.
     bnd (bnd (la_pcall A L 0 0 (run filename L)) (check_code A L)) (\<lambda>_. ret 0))))"

definition lbind_dofile :: "'x lua_api \<Rightarrow> (string \<Rightarrow> addr \<Rightarrow> ('x, int) lprog) \<Rightarrow> addr \<Rightarrow> string \<Rightarrow> ('x, int) lprog" where
  "lbind_dofile A run L filename = bnd (steps [la_push A L (V_C ''lcf_dofile''), la_push A L (V_Light (Chars filename))]) (\<lambda>_.
     bnd (la_pcall A L 1 0 (lcf_dofile A run L)) (pop_error A L))"

text \<open>
  The blocks of configurations, with what \<open>_L\<close> holds; \<open>cnf\<close> is what \<open>as_malloc\<close> returns, \<open>new\<close>
  and \<open>close\<close> are \<open>luaL_newstate\<close> and \<open>lua_close\<close>. The program does not test for a state that
  could not be made.
\<close>

record 'x pconfs =
  pc_lua :: 'x
  pc_cnfs :: "ptr store"

abbreviation on_lua :: "('x, 'a) lprog \<Rightarrow> ('x pconfs, 'a) lprog" where
  "on_lua \<equiv> zoom pc_lua pc_lua_update"

definition set_cnf :: "addr \<Rightarrow> ptr option \<Rightarrow> ('x pconfs, unit) lprog" where
  "set_cnf a v s = (Fine (), s\<lparr>pc_cnfs := (pc_cnfs s)(a := v)\<rparr>)"

definition lpconf_new :: "'x lua_api \<Rightarrow> (string \<Rightarrow> addr \<Rightarrow> ('x, int) lprog) \<Rightarrow> ('x, ptr) lprog \<Rightarrow> (addr \<Rightarrow> ('x, unit) lprog) \<Rightarrow> ptr
    \<Rightarrow> string \<Rightarrow> ('x pconfs, ptr) lprog" where
  "lpconf_new A run new close cnf filename = (case cnf of
       None \<Rightarrow> ret None
     | Some a \<Rightarrow> bnd (set_cnf a (Some None)) (\<lambda>_. bnd (on_lua new) (\<lambda>L. case L of
           None \<Rightarrow> undef
         | Some L \<Rightarrow> bnd (on_lua (lbind_dofile A run L filename)) (\<lambda>r.
             if r \<noteq> LUA_OK then bnd (steps [on_lua (close L), set_cnf a None]) (\<lambda>_. ret None)
             else bnd (set_cnf a (Some (Some L))) (\<lambda>_. ret (Some a))))))"

definition lpconf_destroy :: "(addr \<Rightarrow> ('x, unit) lprog) \<Rightarrow> ptr \<Rightarrow> ('x pconfs, unit) lprog" where
  "lpconf_destroy close cnf s = (case cnf of
       None \<Rightarrow> ret () s
     | Some a \<Rightarrow> (case pc_cnfs s a of
           Some (Some L) \<Rightarrow> bnd (on_lua (close L)) (\<lambda>_. set_cnf a None) s
         | _ \<Rightarrow> undef s))"

subsection \<open>A protected call whose failure is passed on\<close>

lemma pcall_keeps:
  assumes "keeps L g"
  shows "keeps L (la_pcall doc L n r g)"
  unfolding keeps_def
proof (intro allI impI)
  fix w c v assume call: "la_pcall doc L n r g w = (c, v)" "c \<noteq> Undef" and L: "L < lw_next w"
  have doc: "la_pcall doc = d_pcall" by (simp add: doc_def)
  from call have n: "n < length (frame L w)" by (auto simp: doc d_pcall_def split: if_splits)
  obtain q u where g: "g (enter L n w) = (q, u)" by fastforce
  have "q \<noteq> Undef" using call g n by (auto simp: doc d_pcall_def)
  then have "kept L (enter L n w) u" using keepsD [OF assms g] L by (simp add: enter_def)
  from leave_enter(1) [OF this L n] show "kept L w v"
    using call g n by (auto simp: doc d_pcall_def split: lres.splits if_splits)
qed

lemma error_raises: "api_ok view A \<Longrightarrow> L < lw_next (view x) \<Longrightarrow> \<exists>y. la_error A L x = (Raised, y) \<and> view y = view x"
  using exactlyD [OF api_exactly(11), of view A L x Raised "view x"] by simp

lemma follows_checked:
  assumes ok: "api_ok view A" and fol: "follows view L f g"
  shows "follows view L (bnd (la_pcall A L n r f) (check_code A L)) (bnd (la_pcall doc L n r g) (check_code doc L))"
proof (rule followsI)
  show "keeps L (bnd (la_pcall doc L n r g) (check_code doc L))"
    using pcall_keeps [OF follows_keeps [OF fol]] unfolding check_code_def by (auto intro!: kept_intros simp del: doc_sel)
next
  fix x q w assume run: "bnd (la_pcall doc L n r g) (check_code doc L) (view x) = (q, w)" "q \<noteq> Undef" and L: "L < lw_next (view x)"
  obtain c v where c: "la_pcall doc L n r g (view x) = (Fine c, v)"
    using run by (auto simp: doc_def d_pcall_def bnd_def split: if_splits lres.splits prod.splits)
  obtain c' y where y: "la_pcall A L n r f x = (Fine c', y)" "c = LUA_OK \<and> c' = LUA_OK \<and> view y = v \<or> c' \<noteq> LUA_OK \<and> kept L (view x) (view y)"
    using api_protects_at [OF ok fol, of n x r, unfolded protects_at_def, rule_format, OF c L] by blast
  from y(2) show "\<exists>r' z. bnd (la_pcall A L n r f) (check_code A L) x = (r', z) \<and> (r' = q \<and> view z = w \<or> r' = Raised \<and> kept L (view x) (view z))"
  proof
    assume "c = LUA_OK \<and> c' = LUA_OK \<and> view y = v"
    then show ?thesis using y(1) c run(1) by (auto simp: bnd_def check_code_def ret_def)
  next
    assume k: "c' \<noteq> LUA_OK \<and> kept L (view x) (view y)"
    then obtain z where "la_error A L y = (Raised, z)" "view z = view y" using error_raises [OF ok] L kept_next by metis
    then show ?thesis using y(1) k by (auto simp: bnd_def check_code_def)
  qed
qed

text \<open>A file that cannot be loaded for want of memory is an error too.\<close>

lemma load_follows:
  assumes ok: "api_ok view A"
  shows "follows view L (bnd (la_loadfile A L f) (check_code A L)) (bnd (la_loadfile doc L f) (check_code doc L))"
proof (rule followsI)
  show "keeps L (bnd (la_loadfile doc L f) (check_code doc L))"
    unfolding check_code_def by (auto intro!: kept_intros simp del: doc_sel)
next
  fix x q w assume run: "bnd (la_loadfile doc L f) (check_code doc L) (view x) = (q, w)" "q \<noteq> Undef" and L: "L < lw_next (view x)"
  obtain e where e: "\<And>r w. loading L f e (view x) = (r, w) \<Longrightarrow> r \<noteq> Undef \<Longrightarrow> L < lw_next (view x) \<Longrightarrow>
      \<exists>r' y. la_loadfile A L f x = (r', y) \<and> kept L (view x) (view y) \<and> (r' = r \<and> view y = w \<or> r' = Raised)"
    using follows_oneD [where x = x, OF api_loads [OF ok, of L f]] by blast
  let ?v = "set_frame L (snd (lw_file (view x) f) # frame L (view x)) (view x)"
  have doc: "la_loadfile doc L f (view x) = (Fine (fst (lw_file (view x) f)), ?v)" and room: "room L (view x) \<noteq> 0"
    using run by (auto simp: bnd_def d_push_def split: if_splits)
  obtain c u where c: "loading L f e (view x) = (Fine c, u)" "e = None \<longrightarrow> c = fst (lw_file (view x) f) \<and> u = ?v" "e \<noteq> None \<longrightarrow> c \<noteq> LUA_OK"
    using doc room by (cases e) (auto simp: loading_def bnd_def ret_def d_push_def LUA_ERRMEM_def LUA_OK_def)
  obtain r' y where y: "la_loadfile A L f x = (r', y)" "kept L (view x) (view y)" "r' = Fine c \<and> view y = u \<or> r' = Raised"
    using e [OF c(1) _ L] by blast
  show "\<exists>r' z. bnd (la_loadfile A L f) (check_code A L) x = (r', z) \<and> (r' = q \<and> view z = w \<or> r' = Raised \<and> kept L (view x) (view z))"
  proof (cases "r' = Fine c \<and> c = LUA_OK")
    case True
    then have "e = None" "view y = ?v" using c(2,3) y(3) by auto
    then show ?thesis using True y(1) c(2) run(1) doc by (auto simp: bnd_def check_code_def ret_def)
  next
    case False
    then consider "r' = Raised" | "r' = Fine c" "c \<noteq> LUA_OK" using y(3) by blast
    then show ?thesis
    proof cases
      case 2
      obtain z where "la_error A L y = (Raised, z)" "view z = view y" using error_raises [OF ok] L y(2) kept_next by metis
      then show ?thesis using y 2 by (auto simp: bnd_def check_code_def)
    qed (use y in \<open>auto simp: bnd_def\<close>)
  qed
qed

lemma dofile_follows:
  assumes "api_ok view A" and "\<And>f. follows view L (run f L) (runs f L)"
  shows "follows view L (lcf_dofile A run L) (lcf_dofile doc runs L)"
  unfolding lcf_dofile_def by (intro follow_intros api_follows load_follows follows_checked assms)


text \<open>Back from a function that keeps what is not its own.\<close>

lemma returned_kept: "kept L (called L args w) v \<Longrightarrow> stack_kept L w (returned L [] v)"
  by (auto simp: stack_kept_def kept_def called_def returned_def Let_def set_frame_def frame_def split: list.splits)

text \<open>The state in which the chunk of a file starts, two calls above \<open>w\<close>.\<close>

definition file_start :: "addr \<Rightarrow> string \<Rightarrow> lview \<Rightarrow> lview" where
  "file_start L f w = called L [] (called L [V_Light (Chars f)] w)"

lemma dofile_run:
  assumes runs: "fst (lw_file w f) = LUA_OK \<Longrightarrow> runs f L (file_start L f w) = (q, v) \<and> q \<noteq> Undef \<and> (\<forall>k. q = Fine k \<longrightarrow> 0 \<le> k \<and> k \<le> int (length (frame L v)))"
  shows "\<exists>r u. lcf_dofile doc runs L (called L [V_Light (Chars f)] w) = (r, u)
    \<and> (r = Raised \<or> r = Fine 0 \<and> fst (lw_file w f) = LUA_OK \<and> (\<exists>k. q = Fine k))"
proof -
  let ?w = "called L [V_Light (Chars f)] w"
  let ?v = "within L 21 [snd (lw_file w f), V_Light (Chars f)] w"
  have w: "?w = within L 21 [V_Light (Chars f)] w" by (simp add: called_within LUA_MINSTACK_def)
  have files: "lw_file (within L lim vs w) = lw_file w" for lim vs by (simp add: within_def)
  have ud: "la_touserdata doc L (Idx (-1)) ?w = (Fine (Chars f), ?w)" by (simp add: w d_value_def lua_at_def slot_of_def)
  have load: "la_loadfile doc L f ?w = (Fine (fst (lw_file w f)), ?v)" using files by (simp add: w d_push_def)
  have doc: "la_pcall doc = d_pcall" by (simp add: doc_def)
  have enter: "enter L 0 ?v = file_start L f w" by (simp add: enter_def within_def file_start_def called_def LUA_MINSTACK_def)
  show ?thesis
  proof (cases "fst (lw_file w f) = LUA_OK")
    case True
    with runs have q: "runs f L (file_start L f w) = (q, v)" "q \<noteq> Undef" "\<forall>k. q = Fine k \<longrightarrow> 0 \<le> k \<and> k \<le> int (length (frame L v))" by auto
    have "bnd (la_pcall doc L 0 0 (runs f L)) (check_code doc L) ?v = (case q of Fine k \<Rightarrow> (Fine (), leave L [] v) | _ \<Rightarrow> (Raised, leave L [V_Str ''error''] v))"
      using q by (cases q) (simp_all add: doc d_pcall_def enter bnd_def check_code_def ret_def results_def LUA_OK_def)
    then show ?thesis
      using ud load True q(2) unfolding lcf_dofile_def
      by (cases q) (simp_all add: bnd_def with_chars_def check_code_def ret_def del: doc_sel)
  next
    case False
    then have "bnd (la_loadfile doc L f) (check_code doc L) ?w = (Raised, ?v)"
      using load by (simp add: bnd_def check_code_def)
    then show ?thesis using ud unfolding lcf_dofile_def by (simp add: with_chars_def bnd_def del: doc_sel)
  qed
qed

text \<open>\<open>lbind_dofile\<close> keeps the stack, whatever the file does, and succeeds only where it could be loaded and ran to its end.\<close>

lemma dofile_call:
  assumes ok: "api_ok view A" and fol: "\<And>f. follows view L (run f L) (runs f L)"
    and w: "view x = w" and L: "L < lw_next w" "1 < room L w"
    and runs: "fst (lw_file w f) = LUA_OK \<Longrightarrow> runs f L (file_start L f w) = (q, v) \<and> q \<noteq> Undef \<and> (\<forall>k. q = Fine k \<longrightarrow> 0 \<le> k \<and> k \<le> int (length (frame L v)))"
  shows "\<exists>c y. lbind_dofile A run L f x = (Fine c, y) \<and> stack_kept L w (view y)
    \<and> (c = LUA_OK \<longrightarrow> fst (lw_file w f) = LUA_OK \<and> (\<exists>k. q = Fine k))"
proof -
  obtain r u where u: "lcf_dofile doc runs L (called L [V_Light (Chars f)] w) = (r, u)"
    "r = Raised \<or> r = Fine 0 \<and> fst (lw_file w f) = LUA_OK \<and> (\<exists>k. q = Fine k)"
    using dofile_run [where runs = runs and f = f and L = L and w = w and q = q and v = v] runs by blast
  note fl = dofile_follows [where run = run and runs = runs, OF ok fol]
  have "kept L (called L [V_Light (Chars f)] w) u"
    using keepsD [OF follows_keeps [OF fl] u(1)] u(2) L(1) by (auto simp: called_def)
  then have kept: "stack_kept L w (returned L [] u)" by (rule returned_kept)
  show ?thesis
    using protected_pop [where args = "[V_Light (Chars f)]" and nm = "''lcf_dofile''" and r = 0, OF ok fl w L(1) _ u(1)] L(2) u(2) kept
    by (auto simp: lbind_dofile_def results_def)
qed


subsection \<open>Configurations\<close>

text \<open>
  A configuration is made only of a file that could be loaded and ran to its end; where it is not
  made its block is freed again and its state closed, and \<open>lpconf_destroy\<close> gives back what was made.
\<close>

lemma lpconf_new_call:
  assumes ok: "api_ok view A" and fol: "\<And>f. follows view L (run f L) (runs f L)"
    and new: "new (pc_lua s) = (Fine (Some L), x)" "view x = w" and L: "L < lw_next w" "1 < room L w" and a: "pc_cnfs s a = None"
    and runs: "fst (lw_file w f) = LUA_OK \<Longrightarrow> runs f L (file_start L f w) = (q, v) \<and> q \<noteq> Undef \<and> (\<forall>k. q = Fine k \<longrightarrow> 0 \<le> k \<and> k \<le> int (length (frame L v)))"
    and close: "\<And>x. \<exists>y. close L x = (Fine (), y)"
  shows "\<exists>r t. lpconf_new A run new close (Some a) f s = (Fine r, t) \<and> (r = None \<and> pc_cnfs t = pc_cnfs s
    \<or> r = Some a \<and> pc_cnfs t = (pc_cnfs s)(a \<mapsto> Some L) \<and> fst (lw_file w f) = LUA_OK \<and> (\<exists>k. q = Fine k)
      \<and> (\<exists>u. lpconf_destroy close r t = (Fine (), u) \<and> pc_cnfs u = pc_cnfs s))"
proof -
  obtain c y where y: "lbind_dofile A run L f x = (Fine c, y)" "c = LUA_OK \<longrightarrow> fst (lw_file w f) = LUA_OK \<and> (\<exists>k. q = Fine k)"
    using dofile_call [where run = run and runs = runs and f = f and q = q and v = v, OF ok fol new(2) L] runs by blast
  have made: "on_lua new (s\<lparr>pc_cnfs := (pc_cnfs s)(a \<mapsto> None)\<rparr>) = (Fine (Some L), s\<lparr>pc_cnfs := (pc_cnfs s)(a \<mapsto> None), pc_lua := x\<rparr>)"
    using new(1) by (simp add: zoom_def)
  obtain z where z: "close L y = (Fine (), z)" using close by blast
  have same: "(pc_cnfs s)(a := None) = pc_cnfs s" using a by (simp add: fun_upd_idem)
  show ?thesis
    using made y z same
    by (cases "c = LUA_OK") (simp_all add: lpconf_new_def lpconf_destroy_def bnd_def set_cnf_def zoom_def ret_def)
qed

end
