(* ===== verification/Lm_Bytes.thy ===== *)
theory Lm_Bytes
  imports Lua_Start Bytes
begin

text \<open>
  The Lua module of byte buffers, \<^verbatim>\<open>src/c/src/lm_bytes.h\<close> and \<^verbatim>\<open>src/c/src/lm_bytes.c\<close>: buffers and
  references to parts of them in userdata of Lua. The stores hold what the userdata contain, each
  a typed view; the buffers use the memory pool of the worker that the registry points to.
\<close>

subsection \<open>Definitions\<close>

record bytes_ref =
  br_ori :: addr
  br_b_start :: ptr
  br_b_offset :: size_t
  br_len :: size_t

record 'x lbytes =
  by_lua :: 'x
  by_bs :: "as_bytes store"
  by_refs :: "bytes_ref store"
  by_io :: bst

definition LM_BYTES :: string where "LM_BYTES = ''as_lm_003''"
definition LM_BYTES_REF :: string where "LM_BYTES_REF = ''as_lm_004''"

abbreviation in_lua :: "('x, 'a) lprog \<Rightarrow> ('x lbytes, 'a) lprog" where
  "in_lua \<equiv> zoom by_lua by_lua_update"

definition new_block :: "'x lua_api \<Rightarrow> addr \<Rightarrow> ('x, addr) lprog" where
  "new_block A L = bnd (la_newuserdata A L) (\<lambda>_. bnd (la_touserdata A L (Idx (-1))) (\<lambda>p. case p of Block a \<Rightarrow> ret a | _ \<Rightarrow> undef))"

text \<open>An operation on the buffer in a userdata.\<close>

definition on_bytes :: "(as_bytes \<Rightarrow> bst \<Rightarrow> ('a \<times> as_bytes \<times> bst) option) \<Rightarrow> addr \<Rightarrow> ('x lbytes, 'a) lprog" where
  "on_bytes f a s = (case by_bs s a of
       None \<Rightarrow> (Undef, s)
     | Some bs \<Rightarrow> (case f bs (by_io s) of
           None \<Rightarrow> (Undef, s)
         | Some (r, bs, io) \<Rightarrow> (Fine r, s\<lparr>by_bs := (by_bs s)(a \<mapsto> bs), by_io := io\<rparr>)))"

text \<open>
  The contents of a new userdata are not initialised; \<open>bytes_init\<close> writes every field. \<open>ctx_pool\<close> is the
  memory pool of the worker context at an address, \<open>rd\<close> what \<open>read\<close> answers on a descriptor.
\<close>

definition blank_bytes :: as_bytes where
  "blank_bytes = \<lparr>bs_size = 0, bs_used = 0, bs_cnt = 0, bs_mp = None, bs_dl = \<lparr>dl_head = None, dl_tail = None\<rparr>\<rparr>"

definition bytes_from :: "(addr \<Rightarrow> ptr option) \<Rightarrow> cptr \<Rightarrow> addr \<Rightarrow> ('x lbytes, unit) lprog" where
  "bytes_from ctx_pool ctx a s = (case ctx of
       Block c \<Rightarrow> (case ctx_pool c of
           Some mp \<Rightarrow> (Fine (), s\<lparr>by_bs := (by_bs s)(a \<mapsto> bytes_init mp blank_bytes)\<rparr>)
         | None \<Rightarrow> (Undef, s))
     | _ \<Rightarrow> (Undef, s))"

definition fd_bytes :: "(int \<Rightarrow> nat \<Rightarrow> size_t \<Rightarrow> read_result) \<Rightarrow> int \<Rightarrow> addr \<Rightarrow> ('x lbytes, size_t) lprog" where
  "fd_bytes rd fd = on_bytes (\<lambda>bs io. bytes_read_from_fd bs (io\<lparr>fd_script := rd fd\<rparr>))"

definition set_ref :: "addr \<Rightarrow> addr \<Rightarrow> size_t \<Rightarrow> ('x lbytes, unit) lprog" where
  "set_ref br a n s = (case by_bs s a of
       None \<Rightarrow> (Undef, s)
     | Some bs \<Rightarrow> (Fine (), s\<lparr>by_refs := (by_refs s)(br \<mapsto>
         \<lparr>br_ori = a, br_b_start = dl_head (bs_dl bs), br_b_offset = 0, br_len = n\<rparr>)\<rparr>))"

text \<open>The three stretches of calls to Lua, before the buffer is filled, before the reference is, and after that.\<close>

definition bytes_open :: "'x lua_api \<Rightarrow> addr \<Rightarrow> ('x, int \<times> cptr \<times> addr) lprog" where
  "bytes_open A L = bnd (la_checkinteger A L (Idx 1)) (\<lambda>fd. bnd (steps [
     lbind_checkmetatable A L LRK_BYTES_REF_TABLE ''bytes ref table not exist'',
     lbind_checkregvalue A L LRK_WORKER_CTX LUA_TLIGHTUSERDATA ''no worker ctx'']) (\<lambda>_.
     bnd (la_touserdata A L (Idx (-1))) (\<lambda>ctx. bnd (new_block A L) (\<lambda>bs. ret (to_int fd, ctx, bs)))))"

definition bytes_typed :: "'x lua_api \<Rightarrow> addr \<Rightarrow> ('x, addr) lprog" where
  "bytes_typed A L = bnd (steps [la_getfield A L Registry LM_BYTES, la_setmetatable A L (Idx (-2))]) (\<lambda>_. new_block A L)"

definition ref_typed :: "'x lua_api \<Rightarrow> addr \<Rightarrow> ('x, unit) lprog" where
  "ref_typed A L = steps [la_getfield A L Registry LM_BYTES_REF, la_setmetatable A L (Idx (-2)),
     la_pushvalue A L (Idx (-1)), la_pushvalue A L (Idx (-2)), la_settable A L (Idx (-4))]"

definition lcf_bytes_read_from_fd :: "'x lua_api \<Rightarrow> (addr \<Rightarrow> ptr option) \<Rightarrow> (int \<Rightarrow> nat \<Rightarrow> size_t \<Rightarrow> read_result) \<Rightarrow> addr \<Rightarrow> ('x lbytes, int) lprog" where
  "lcf_bytes_read_from_fd A ctx_pool rd L = bnd (in_lua (bytes_open A L)) (\<lambda>(fd, ctx, bs).
     bnd (bytes_from ctx_pool ctx bs) (\<lambda>_. bnd (fd_bytes rd fd bs) (\<lambda>size.
       if size = -1 then bnd (in_lua (la_push A L V_Nil)) (\<lambda>_. ret 1)
       else bnd (in_lua (bytes_typed A L)) (\<lambda>br. bnd (set_ref br bs size) (\<lambda>_.
         bnd (in_lua (ref_typed A L)) (\<lambda>_. ret 1))))))"

text \<open>Both lengths check for a buffer; what is read as a reference is then undefined, where it is a buffer.\<close>

definition lcf_bytes_ref_get_length :: "'x lua_api \<Rightarrow> addr \<Rightarrow> ('x lbytes, int) lprog" where
  "lcf_bytes_ref_get_length A L = bnd (in_lua (la_checkudata A L (Idx 1) LM_BYTES)) (\<lambda>a s. case by_refs s a of
       None \<Rightarrow> undef s
     | Some br \<Rightarrow> bnd (in_lua (la_push A L (V_Int (sint (br_len br))))) (\<lambda>_. ret 1) s)"

definition lcf_bytes_get_length :: "'x lua_api \<Rightarrow> addr \<Rightarrow> ('x lbytes, int) lprog" where
  "lcf_bytes_get_length A L = bnd (in_lua (la_checkudata A L (Idx 1) LM_BYTES)) (\<lambda>a s. case by_bs s a of
       None \<Rightarrow> undef s
     | Some bs \<Rightarrow> bnd (in_lua (la_push A L (V_Int (sint (bs_used bs))))) (\<lambda>_. ret 1) s)"

definition lcf_bytes_destroy :: "'x lua_api \<Rightarrow> addr \<Rightarrow> ('x lbytes, int) lprog" where
  "lcf_bytes_destroy A L = bnd (in_lua (la_checkudata A L (Idx 1) LM_BYTES)) (\<lambda>a.
     bnd (on_bytes (\<lambda>bs io. map_option (\<lambda>(bs, io). ((), bs, io)) (bytes_destroy bs io)) a) (\<lambda>_. ret 0))"

definition inc_lm_bytes_metatable :: "'x lua_api \<Rightarrow> addr \<Rightarrow> ('x, unit) lprog" where
  "inc_lm_bytes_metatable A L = steps [
     aluaL_newmetatable_with_methods A L LM_BYTES [(''get_length'', ''lcf_bytes_get_length''), (''__gc'', ''lcf_bytes_destroy'')],
     aluaL_newmetatable_with_methods A L LM_BYTES_REF [(''get_length'', ''lcf_bytes_ref_get_length'')]]"


subsection \<open>The calls to Lua\<close>

lemma checkregvalue_follows [follow_intros]:
  "api_ok view A \<Longrightarrow> follows view L (lbind_checkregvalue A L f t e) (lbind_checkregvalue doc L f t e)"
  unfolding lbind_checkregvalue_def by (intro follow_intros api_follows)

lemma new_block_follows [follow_intros]: "api_ok view A \<Longrightarrow> follows view L (new_block A L) (new_block doc L)"
  unfolding new_block_def by (intro follow_intros api_follows) (auto split: cptr.splits intro!: follow_intros)

lemma bytes_open_follows: "api_ok view A \<Longrightarrow> follows view L (bytes_open A L) (bytes_open doc L)"
  unfolding bytes_open_def by (intro follow_intros api_follows)

lemma bytes_typed_follows: "api_ok view A \<Longrightarrow> follows view L (bytes_typed A L) (bytes_typed doc L)"
  unfolding bytes_typed_def by (intro follow_intros api_follows)

lemma ref_typed_follows: "api_ok view A \<Longrightarrow> follows view L (ref_typed A L) (ref_typed doc L)"
  unfolding ref_typed_def by (intro follow_intros api_follows)

text \<open>What the registry has of the module: a metatable that does not catch assignments, or nothing.\<close>

definition plain_meta :: "string \<Rightarrow> lview \<Rightarrow> ptr \<Rightarrow> bool" where
  "plain_meta nm w m \<longleftrightarrow> lw_tab w (lw_reg w) (V_Str nm) = (case m of Some t \<Rightarrow> V_Tab t | None \<Rightarrow> V_Nil)
     \<and> (\<forall>t. m = Some t \<longrightarrow> lw_tab w t (V_Str ''__newindex'') = V_Nil)"

lemma open_run:
  assumes "lw_tab w (lw_reg w) (V_Str LRK_BYTES_REF_TABLE) = V_Tab t" and "lw_tab w (lw_reg w) (V_Str LRK_WORKER_CTX) = V_Light p"
  shows "bytes_open doc L (called L [V_Int fd] w) = (Fine (to_int fd, p, lw_next w),
    within L 21 [V_Ud (lw_next w), V_Light p, V_Tab t, V_Int fd] (w\<lparr>lw_next := lw_next w + 1, lw_meta := (lw_meta w)(lw_next w := None)\<rparr>))"
  using assms unfolding bytes_open_def lbind_checkregvalue_def new_block_def
  by (simp add: run_simps within_def LUA_TLIGHTUSERDATA_def)

lemma typed_run:
  assumes "length us + 3 \<le> lim" and "plain_meta LM_BYTES w m" and "lw_meta w (lw_reg w) = None"
  shows "bytes_typed doc L (within L lim (V_Ud a # us) w) = (Fine (lw_next w), within L lim (V_Ud (lw_next w) # V_Ud a # us)
    (w\<lparr>lw_next := lw_next w + 1, lw_meta := (lw_meta w)(a := m, lw_next w := None)\<rparr>))"
  using assms unfolding bytes_typed_def new_block_def plain_meta_def
  by (cases m) (simp_all add: bnd_def ret_def d_getfield_def d_index_def has_meta_def lua_at_def slot_of_def d_push_def
      d_setmetatable_def d_new_def d_value_def)

lemma ref_run:
  assumes "length us + 5 \<le> lim" and "plain_meta LM_BYTES_REF w m" and "lw_meta w (lw_reg w) = None" and "a \<noteq> b"
    and "\<And>t. lw_meta w a = Some t \<Longrightarrow> lw_tab w t (V_Str ''__newindex'') = V_Nil"
  shows "\<exists>v. ref_typed doc L (within L lim (V_Ud b # V_Ud a # us) w) = (Raised, v)"
  using assms unfolding ref_typed_def plain_meta_def
  by (cases m; cases "lw_meta w a") (simp_all add: bnd_def ret_def d_getfield_def d_index_def has_meta_def lua_at_def slot_of_def d_push_def
      d_setmetatable_def d_settable_def d_assign_def)


subsection \<open>What the functions give\<close>

lemma in_lua_simps [simp]:
  "m (by_lua s) = (Fine a, y) \<Longrightarrow> bnd (in_lua m) f s = f a (s\<lparr>by_lua := y\<rparr>)"
  "m (by_lua s) = (Raised, y) \<Longrightarrow> bnd (in_lua m) f s = (Raised, s\<lparr>by_lua := y\<rparr>)"
  by (simp_all add: bnd_def zoom_def)

lemma follows_cases:
  assumes "follows view L m d" and "d (view x) = (q, v)" and "q \<noteq> Undef" and "L < lw_next (view x)"
  obtains y where "m x = (Raised, y)" | y where "q \<noteq> Raised" and "m x = (q, y)" and "view y = v"
  using followsD [OF assms] by metis

text \<open>
  A buffer that was read is not given to Lua: its reference is to be stored under the index of the
  buffer itself, which is no table, so the call ends in an error.
\<close>

lemma read_never_delivers:
  assumes ok: "api_ok view A" and call: "view (by_lua s) = called L [V_Int fd] w" and L: "L < lw_next w"
    and reg: "lw_reg w < lw_next w" "lw_meta w (lw_reg w) = None" "lw_tab w (lw_reg w) (V_Str LRK_BYTES_REF_TABLE) = V_Tab t"
      "lw_tab w (lw_reg w) (V_Str LRK_WORKER_CTX) = V_Light (Block c)"
    and meta: "plain_meta LM_BYTES w m" "plain_meta LM_BYTES_REF w m'" and pool: "ctx_pool c = Some mp"
    and read: "bytes_read_from_fd (bytes_init mp blank_bytes) ((by_io s)\<lparr>fd_script := rd (to_int fd)\<rparr>) = Some (n, bs, io)"
  shows "\<exists>r s'. lcf_bytes_read_from_fd A ctx_pool rd L s = (r, s') \<and> (r = Raised \<or> r = Fine 1 \<and> n = -1
    \<and> view (by_lua s') = within L 21 [V_Nil, V_Ud (lw_next w), V_Light (Block c), V_Tab t, V_Int fd]
        (w\<lparr>lw_next := lw_next w + 1, lw_meta := (lw_meta w)(lw_next w := None)\<rparr>))"
proof -
  let ?a = "lw_next w" and ?us = "[V_Light (Block c), V_Tab t, V_Int fd]"
  let ?w1 = "w\<lparr>lw_next := ?a + 1, lw_meta := (lw_meta w)(?a := None)\<rparr>"
  let ?w2 = "?w1\<lparr>lw_next := ?a + 1 + 1, lw_meta := (lw_meta ?w1)(?a := m, ?a + 1 := None)\<rparr>"
  have L0: "L < lw_next (view (by_lua s))" using L call by (simp add: called_def)
  show ?thesis
  proof (rule follows_cases [OF bytes_open_follows [OF ok] open_run [OF reg(3,4), of L fd, folded call] _ L0])
    fix y1 assume y1: "bytes_open A L (by_lua s) = (Fine (to_int fd, Block c, ?a), y1)" "view y1 = within L 21 (V_Ud ?a # ?us) ?w1"
    let ?s2 = "s\<lparr>by_lua := y1, by_bs := (by_bs s)(?a \<mapsto> bs), by_io := io\<rparr>"
    have fill: "lcf_bytes_read_from_fd A ctx_pool rd L s = (if n = -1 then bnd (in_lua (la_push A L V_Nil)) (\<lambda>_. ret 1)
       else bnd (in_lua (bytes_typed A L)) (\<lambda>br. bnd (set_ref br ?a n) (\<lambda>_. bnd (in_lua (ref_typed A L)) (\<lambda>_. ret 1)))) ?s2"
      using y1(1) pool read by (simp add: lcf_bytes_read_from_fd_def bnd_def bytes_from_def fd_bytes_def on_bytes_def zoom_def)
    have L1: "L < lw_next (view y1)" using L y1(2) by simp
    show ?thesis
    proof (cases "n = -1")
      case True
      have "la_push doc L V_Nil (view y1) = (Fine (), within L 21 (V_Nil # V_Ud ?a # ?us) ?w1)" using y1(2) by (simp add: d_push_def)
      from exactlyD [OF api_exactly(1) [OF ok] this _ L1] obtain z where "la_push A L V_Nil y1 = (Fine (), z)"
        "view z = within L 21 (V_Nil # V_Ud ?a # ?us) ?w1" by auto
      then show ?thesis using fill True by (simp add: ret_def)
    next
      case False
      have typed: "bytes_typed doc L (view y1) = (Fine (?a + 1), within L 21 (V_Ud (?a + 1) # V_Ud ?a # ?us) ?w2)"
        unfolding y1(2) using typed_run [of ?us 21 ?w1 m L ?a] meta(1) reg(1,2) by (simp add: plain_meta_def)
      show ?thesis
      proof (rule follows_cases [OF bytes_typed_follows [OF ok] typed _ L1])
        fix y2 assume y2: "bytes_typed A L y1 = (Fine (?a + 1), y2)" "view y2 = within L 21 (V_Ud (?a + 1) # V_Ud ?a # ?us) ?w2"
        obtain v where v: "ref_typed doc L (view y2) = (Raised, v)"
          using ref_run [of ?us 21 ?w2 m' ?a "?a + 1" L] meta reg(1,2) unfolding y2(2) by (auto simp: plain_meta_def)
        have "L < lw_next (view y2)" using L y2(2) by simp
        then obtain y3 where "ref_typed A L y2 = (Raised, y3)" by (rule follows_cases [OF ref_typed_follows [OF ok] v, rotated]) simp_all
        then show ?thesis using fill False y2(1) by (simp add: set_ref_def bnd_def zoom_def)
      qed (use fill False in \<open>auto simp: zoom_def bnd_def\<close>)
    qed
  qed (auto simp: lcf_bytes_read_from_fd_def)
qed


text \<open>The userdata of a buffer, as the first argument of a function.\<close>

definition bytes_arg :: "addr \<Rightarrow> addr \<Rightarrow> lview \<Rightarrow> bool" where
  "bytes_arg L a w \<longleftrightarrow> lua_at L (Idx 1) w = Some (V_Ud a) \<and> (\<exists>m. lw_meta w a = Some m \<and> lw_tab w (lw_reg w) (V_Str LM_BYTES) = V_Tab m)"

lemma bytes_arg_check: "bytes_arg L a w \<Longrightarrow> la_checkudata doc L (Idx 1) LM_BYTES w = (Fine a, w)"
  by (auto simp: bytes_arg_def d_checkudata_def)

lemma get_length_gives:
  assumes ok: "api_ok view A" and a: "bytes_arg L a (view (by_lua s))" "by_bs s a = Some bs" and L: "L < lw_next (view (by_lua s))" "0 < room L (view (by_lua s))"
  shows "\<exists>r t. lcf_bytes_get_length A L s = (r, t) \<and> (r = Raised \<or> r = Fine 1
    \<and> view (by_lua t) = set_frame L (V_Int (sint (bs_used bs)) # frame L (view (by_lua s))) (view (by_lua s)))"
proof (rule follows_cases [OF api_follows(25) [OF ok] bytes_arg_check [OF a(1)] _ L(1)])
  fix y assume y: "la_checkudata A L (Idx 1) LM_BYTES (by_lua s) = (Fine a, y)" "view y = view (by_lua s)"
  let ?w = "set_frame L (V_Int (sint (bs_used bs)) # frame L (view (by_lua s))) (view (by_lua s))"
  have "la_push doc L (V_Int (sint (bs_used bs))) (view y) = (Fine (), ?w)" using L(2) y(2) by (simp add: d_push_def)
  from exactlyD [OF api_exactly(1) [OF ok] this] L(1) y(2) obtain z where "la_push A L (V_Int (sint (bs_used bs))) y = (Fine (), z)" "view z = ?w" by auto
  then show ?thesis using y(1) a(2) by (simp add: lcf_bytes_get_length_def ret_def)
qed (auto simp: lcf_bytes_get_length_def)

text \<open>On a reference the length of a reference is always an error.\<close>

lemma ref_length_raises:
  assumes ok: "api_ok view A" and a: "lua_at L (Idx 1) (view (by_lua s)) = Some (V_Ud a)" "lw_meta (view (by_lua s)) a = Some m"
    "lw_tab (view (by_lua s)) (lw_reg (view (by_lua s))) (V_Str LM_BYTES) \<noteq> V_Tab m" and L: "L < lw_next (view (by_lua s))"
  shows "\<exists>t. lcf_bytes_ref_get_length A L s = (Raised, t)"
proof -
  have "la_checkudata doc L (Idx 1) LM_BYTES (view (by_lua s)) = (Raised, view (by_lua s))" using a by (simp add: d_checkudata_def)
  then show ?thesis
    by (rule follows_cases [OF api_follows(25) [OF ok]]) (use L in \<open>auto simp: lcf_bytes_ref_get_length_def\<close>)
qed

text \<open>The collection of a buffer gives its blocks back.\<close>

lemma destroy_gives:
  assumes ok: "api_ok view A" and a: "bytes_arg L a (view (by_lua s))" "by_bs s a = Some bs" "bytes_destroy bs (by_io s) = Some (bs', io)"
    and L: "L < lw_next (view (by_lua s))"
  shows "\<exists>r t. lcf_bytes_destroy A L s = (r, t) \<and> (r = Raised \<or> r = Fine 0 \<and> by_bs t = (by_bs s)(a \<mapsto> bs') \<and> by_io t = io)"
proof (rule follows_cases [OF api_follows(25) [OF ok] bytes_arg_check [OF a(1)] _ L])
  fix y assume "la_checkudata A L (Idx 1) LM_BYTES (by_lua s) = (Fine a, y)"
  then show ?thesis using a(2,3) by (simp add: lcf_bytes_destroy_def on_bytes_def bnd_def ret_def zoom_def)
qed (auto simp: lcf_bytes_destroy_def)

end
