(* ===== verification/Lua_Modules.thy ===== *)
theory Lua_Modules
  imports Lua_Start
begin

text \<open>
  How the modules \<^verbatim>\<open>src/c/src/lm_counter.c\<close> and \<^verbatim>\<open>src/c/src/lm_socket.c\<close> are opened: the
  metatable of their userdata is registered with its methods, and the module is the table of its
  functions.
\<close>

subsection \<open>Definitions\<close>

definition LM_COUNTER :: string where "LM_COUNTER = ''as_lm_000''"
definition LM_SOCKET :: string where "LM_SOCKET = ''as_lm_002''"

definition as_lm_counter_methods :: "(string \<times> string) list" where
  "as_lm_counter_methods = [(''add'', ''lcf_counter_add''), (''getval'', ''lcf_counter_getval''), (''getname'', ''lcf_counter_getname''),
     (''__gc'', ''lcf_counter_destroy''), (''__tostring'', ''lcf_counter_tostring'')]"

definition as_lm_counter_functions :: "(string \<times> string) list" where
  "as_lm_counter_functions = [(''new'', ''lcf_counter_new'')]"

definition luaopen_lm_counter :: "'x lua_api \<Rightarrow> addr \<Rightarrow> ('x, int) lprog" where
  "luaopen_lm_counter A L = bnd (steps (aluaL_newmetatable_with_methods A L LM_COUNTER as_lm_counter_methods
     # aluaL_newlib A L as_lm_counter_functions)) (\<lambda>_. ret 1)"

definition as_lm_socket_functions :: "(string \<times> string) list" where
  "as_lm_socket_functions = [(''get_msock'', ''lcf_socket_get_msock''), (''new'', ''lcf_socket_new''),
     (''ev_begin'', ''lcf_socket_ev_begin''), (''ev_end'', ''lcf_socket_ev_end''), (''ev_wait'', ''lcf_socket_ev_wait'')]"

definition as_lm_socket_methods :: "(string \<times> string) list" where
  "as_lm_socket_methods = [(''ssend'', ''lcf_socket_ssend''), (''sread'', ''lcf_socket_sread''), (''sread_all'', ''lcf_socket_sread_all''),
     (''send'', ''lcf_socket_send''), (''read'', ''lcf_socket_read''), (''close'', ''lcf_socket_close''), (''get_res'', ''lcf_socket_get_res''),
     (''__tostring'', ''lcf_socket_tostring''), (''__gc'', ''lcf_socket_close'')]"

definition inc_lm_socket_metatable :: "'x lua_api \<Rightarrow> addr \<Rightarrow> ('x, unit) lprog" where
  "inc_lm_socket_metatable A L = aluaL_newmetatable_with_methods A L LM_SOCKET as_lm_socket_methods"

definition luaopen_lm_socket :: "'x lua_api \<Rightarrow> addr \<Rightarrow> ('x, int) lprog" where
  "luaopen_lm_socket A L = bnd (steps (inc_lm_socket_metatable A L # aluaL_newlib A L as_lm_socket_functions)) (\<lambda>_. ret 1)"

subsection \<open>An open module\<close>

text \<open>The first time a metatable is registered: it is its own \<open>__index\<close>, and a nil is left below it.\<close>

lemma register_run:
  assumes "length us + 3 \<le> lim" and "lw_tab w (lw_reg w) (V_Str nm) = V_Nil" and "lw_meta w (lw_reg w) = None" and "lw_reg w < lw_next w"
  shows "\<exists>v. aluaL_newmetatable_with_methods doc L nm I (within L lim us w) = (Fine (), within L lim (V_Tab (lw_next w) # V_Nil # us) v)
    \<and> lw_next v = lw_next w + 1 \<and> lw_reg v = lw_reg w \<and> lw_meta v (lw_reg w) = None \<and> lw_tab v (lw_reg w) (V_Str nm) = V_Tab (lw_next w)
    \<and> lw_tab v (lw_next w) = fold (\<lambda>(f, c) t. t(V_Str f := V_C c)) I ((\<lambda>_. V_Nil)(V_Str ''__name'' := V_Str nm, V_Str ''__index'' := V_Tab (lw_next w)))"
  using assms unfolding aluaL_newmetatable_with_methods_def
  by (simp add: bnd_def ret_def d_getfield_def d_index_def has_meta_def lua_at_def slot_of_def d_push_def d_value_def lua_type_def LUA_TNIL_def
      d_newmetatable_def d_new_def new_tab_def d_setfield_def d_assign_def d_setfuncs_def Let_def)
    (rule exI, rule conjI, rule HOL.refl, simp)

lemma newlib_run:
  assumes "length us + 1 \<le> lim"
  shows "\<exists>v. steps (aluaL_newlib doc L I) (within L lim us w) = (Fine (), within L lim (V_Tab (lw_next w) # us) v)
    \<and> lw_reg v = lw_reg w \<and> (\<forall>t. t \<noteq> lw_next w \<longrightarrow> lw_tab v t = lw_tab w t)
    \<and> lw_tab v (lw_next w) = fold (\<lambda>(f, c) t. t(V_Str f := V_C c)) I (\<lambda>_. V_Nil)"
  using assms unfolding aluaL_newlib_def
  by (simp add: bnd_def ret_def has_meta_def d_push_def d_new_def new_tab_def d_setfuncs_def)
    (rule exI, rule conjI, rule HOL.refl, simp)


lemma reg_fold: "fold (\<lambda>(f, c) t. t(V_Str f := V_C c)) I t (V_Str f) = (case map_of (rev I) f of Some c \<Rightarrow> V_C c | None \<Rightarrow> t (V_Str f))"
  by (induction I arbitrary: t) (auto split: option.splits simp: map_add_def)

text \<open>
  \<open>has_methods I nm v\<close>: the metatable under \<open>nm\<close> is its own \<open>__index\<close> and has the methods \<open>I\<close>.
\<close>

definition has_methods :: "(string \<times> string) list \<Rightarrow> string \<Rightarrow> lview \<Rightarrow> bool" where
  "has_methods I nm v \<longleftrightarrow> (\<exists>m. lw_tab v (lw_reg v) (V_Str nm) = V_Tab m \<and> lw_tab v m (V_Str ''__index'') = V_Tab m
     \<and> (\<forall>(f, c)\<in>set I. lw_tab v m (V_Str f) = V_C c))"

lemma module_run:
  assumes "lw_tab w (lw_reg w) (V_Str nm) = V_Nil" and "lw_meta w (lw_reg w) = None" and "lw_reg w < lw_next w"
    and I: "distinct (map fst I)" "''__index'' \<notin> fst ` set I" and J: "distinct (map fst J)"
  shows "\<exists>t v. bnd (steps (aluaL_newmetatable_with_methods doc L nm I # aluaL_newlib doc L J)) (\<lambda>_. ret 1) (within L 20 [] w)
      = (Fine 1, within L 20 (V_Tab t # [V_Tab (lw_next w), V_Nil]) v)
    \<and> has_methods I nm v \<and> (\<forall>(f, c)\<in>set J. lw_tab v t (V_Str f) = V_C c)"
proof -
  let ?n = "lw_next w"
  obtain u where u: "aluaL_newmetatable_with_methods doc L nm I (within L 20 [] w) = (Fine (), within L 20 [V_Tab ?n, V_Nil] u)"
    "lw_next u = ?n + 1" "lw_reg u = lw_reg w" "lw_tab u (lw_reg w) (V_Str nm) = V_Tab ?n"
    "lw_tab u ?n = fold (\<lambda>(f, c) t. t(V_Str f := V_C c)) I ((\<lambda>_. V_Nil)(V_Str ''__name'' := V_Str nm, V_Str ''__index'' := V_Tab ?n))"
    using register_run [of "[]" 20 w nm L I] assms(1-3) by auto
  obtain v where v: "steps (aluaL_newlib doc L J) (within L 20 [V_Tab ?n, V_Nil] u) = (Fine (), within L 20 [V_Tab (?n + 1), V_Tab ?n, V_Nil] v)"
    "lw_reg v = lw_reg u" "\<forall>t. t \<noteq> ?n + 1 \<longrightarrow> lw_tab v t = lw_tab u t" "lw_tab v (?n + 1) = fold (\<lambda>(f, c) t. t(V_Str f := V_C c)) J (\<lambda>_. V_Nil)"
    using newlib_run [of "[V_Tab ?n, V_Nil]" 20 L J u] u(2) by auto
  have look: "map_of (rev K) f = Some c" if "(f, c) \<in> set K" "distinct (map fst K)" for K f and c :: string
    using that by (simp add: rev_map [symmetric])
  have "has_methods I nm v"
  proof -
    have "lw_tab v ?n (V_Str ''__index'') = V_Tab ?n"
    proof -
      have "map_of (rev I) ''__index'' = None" using I(2) by (simp add: map_of_eq_None_iff)
      then show ?thesis using v(3) u(5) by (simp add: reg_fold)
    qed
    moreover have "lw_tab v (lw_reg v) (V_Str nm) = V_Tab ?n" using v(2,3) u(3,4) assms(3) by simp
    moreover have "lw_tab v ?n (V_Str f) = V_C c" if "(f, c) \<in> set I" for f c using look [OF that I(1)] v(3) u(5) by (simp add: reg_fold)
    ultimately show ?thesis unfolding has_methods_def by blast
  qed
  moreover have "lw_tab v (?n + 1) (V_Str f) = V_C c" if "(f, c) \<in> set J" for f c using look [OF that J] v(4) by (simp add: reg_fold)
  moreover have "bnd (steps (aluaL_newmetatable_with_methods doc L nm I # aluaL_newlib doc L J)) (\<lambda>_. ret 1) (within L 20 [] w)
      = (Fine 1, within L 20 (V_Tab (?n + 1) # [V_Tab ?n, V_Nil]) v)"
    using u(1) v(1) by (simp add: bnd_def ret_def)
  ultimately show ?thesis by (intro exI [of _ "?n + 1"] exI [of _ v]) auto
qed

text \<open>Opened for the first time, both modules have their functions, and their userdata their methods, \<open>__gc\<close> among them.\<close>

lemma open_socket:
  assumes "lw_tab w (lw_reg w) (V_Str LM_SOCKET) = V_Nil" and "lw_meta w (lw_reg w) = None" and "lw_reg w < lw_next w"
  shows "\<exists>t us v. luaopen_lm_socket doc L (within L 20 [] w) = (Fine 1, within L 20 (V_Tab t # us) v)
    \<and> has_methods as_lm_socket_methods LM_SOCKET v \<and> (\<forall>(f, c)\<in>set as_lm_socket_functions. lw_tab v t (V_Str f) = V_C c)"
  unfolding luaopen_lm_socket_def inc_lm_socket_metatable_def
  using module_run [OF assms, of as_lm_socket_methods as_lm_socket_functions L]
  by (auto simp: as_lm_socket_methods_def as_lm_socket_functions_def)

lemma open_counter:
  assumes "lw_tab w (lw_reg w) (V_Str LM_COUNTER) = V_Nil" and "lw_meta w (lw_reg w) = None" and "lw_reg w < lw_next w"
  shows "\<exists>t us v. luaopen_lm_counter doc L (within L 20 [] w) = (Fine 1, within L 20 (V_Tab t # us) v)
    \<and> has_methods as_lm_counter_methods LM_COUNTER v \<and> (\<forall>(f, c)\<in>set as_lm_counter_functions. lw_tab v t (V_Str f) = V_C c)"
  unfolding luaopen_lm_counter_def
  using module_run [OF assms, of as_lm_counter_methods as_lm_counter_functions L]
  by (auto simp: as_lm_counter_methods_def as_lm_counter_functions_def)

end
