(* ===== verification/Channel.thy ===== *)
theory Channel
  imports Prelude
begin

text \<open>
  The two processes of \<^verbatim>\<open>src/c/src/channel.c\<close>. The function \<open>t\<close> makes a pair of connected
  stream sockets and forks; the parent reads what the child writes and answers it. Each side
  is the list of the calls it still has to make; a step of the system is one call of either
  side, so every interleaving is a run.

  Of the kernel the model has what the calls rely on: a pair of sockets with a queue of bytes
  at each end, descriptors that \<open>fork\<close> copies (an end is closed when both processes have closed
  it), a read that waits while its queue is empty and the other end is open, and \<open>SIGPIPE\<close> for
  a write whose other end is closed. Which calls fail is the parameter \<open>fails\<close>.
\<close>

subsection \<open>The calls of a process\<close>

datatype sock = S0 | S1

fun peer :: "sock \<Rightarrow> sock" where
  "peer S0 = S1"
| "peer S1 = S0"

datatype call = Close sock | Read sock | Log | Write sock string

definition parent_calls :: "call list" where
  "parent_calls = [Close S0, Read S1, Log, Write S1 ''world'', Close S1]"

definition child_calls :: "call list" where
  "child_calls = [Close S1, Write S0 ''hello'', Read S0, Log, Close S0]"

text \<open>
  A process: its calls, its descriptors, its buffer of 1024 characters (\<open>None\<close> where nothing
  has been stored yet), what it has logged, and whether a signal has killed it.
\<close>

record proc =
  todo :: "call list"
  opened :: "sock set"
  buf :: "char option list"
  logged :: "string option list"
  killed :: bool

datatype party = Parent | Child

record sys =
  proc_of :: "party \<Rightarrow> proc"
  queue :: "sock \<Rightarrow> string"

text \<open>What \<open>%s\<close> prints: the characters before the terminator, undefined when there is none
  among those stored.\<close>

fun c_string :: "char option list \<Rightarrow> string option" where
  "c_string [] = None"
| "c_string (None # cs) = None"
| "c_string (Some c # cs) = (if c = CHR 0x00 then Some [] else map_option (Cons c) (c_string cs))"

definition store :: "string \<Rightarrow> char option list \<Rightarrow> char option list" where
  "store cs b = map Some cs @ drop (length cs) b"

definition end_open :: "sys \<Rightarrow> sock \<Rightarrow> bool" where
  "end_open y s \<longleftrightarrow> s \<in> opened (proc_of y Parent) \<or> s \<in> opened (proc_of y Child)"

definition put :: "party \<Rightarrow> proc \<Rightarrow> sys \<Rightarrow> sys" where
  "put w p y = y\<lparr>proc_of := (proc_of y)(w := p)\<rparr>"

text \<open>One call of side \<open>w\<close>; \<open>None\<close> when it waits, or has no call left.\<close>

definition call_step :: "(party \<Rightarrow> call \<Rightarrow> bool) \<Rightarrow> party \<Rightarrow> sys \<Rightarrow> sys option" where
  "call_step fails w y = (let p = proc_of y w in case todo p of
       [] \<Rightarrow> None
     | Close s # cs \<Rightarrow> Some (put w (p\<lparr>todo := cs, opened := opened p - {s}\<rparr>) y)
     | Read s # cs \<Rightarrow>
         if fails w (Read s) then Some (put w (p\<lparr>todo := cs\<rparr>) y)
         else if queue y s = [] \<and> end_open y (peer s) then None
         else Some (put w (p\<lparr>todo := cs, buf := store (take 1024 (queue y s)) (buf p)\<rparr>)
                (y\<lparr>queue := (queue y)(s := drop 1024 (queue y s))\<rparr>))
     | Log # cs \<Rightarrow> Some (put w (p\<lparr>todo := cs, logged := logged p @ [c_string (buf p)]\<rparr>) y)
     | Write s m # cs \<Rightarrow>
         if fails w (Write s m) then Some (put w (p\<lparr>todo := cs\<rparr>) y)
         else if \<not> end_open y (peer s) then Some (put w (p\<lparr>todo := [], opened := {}, killed := True\<rparr>) y)
         else Some (put w (p\<lparr>todo := cs\<rparr>) (y\<lparr>queue := (queue y)(peer s := queue y (peer s) @ m)\<rparr>)))"

inductive chan_step :: "(party \<Rightarrow> call \<Rightarrow> bool) \<Rightarrow> sys \<Rightarrow> sys \<Rightarrow> bool" for fails where
  call: "call_step fails w y = Some y' \<Longrightarrow> chan_step fails y y'"

inductive chan_run :: "(party \<Rightarrow> call \<Rightarrow> bool) \<Rightarrow> sys \<Rightarrow> nat \<Rightarrow> sys \<Rightarrow> bool" for fails where
  start: "chan_run fails y 0 y"
| more: "chan_run fails y n y' \<Longrightarrow> chan_step fails y' y'' \<Longrightarrow> chan_run fails y (Suc n) y''"

text \<open>The function: \<open>socketpair\<close> may fail, which ends the program; so may \<open>fork\<close>, which leaves
  one process that returns with both descriptors open.\<close>

definition new_buf :: "char option list" where
  "new_buf = replicate 1024 None"

definition new_proc :: "call list \<Rightarrow> proc" where
  "new_proc cs = \<lparr>todo = cs, opened = {S0, S1}, buf = new_buf, logged = [], killed = False\<rparr>"

definition forked :: sys where
  "forked = \<lparr>proc_of = (\<lambda>w. new_proc (case w of Parent \<Rightarrow> parent_calls | Child \<Rightarrow> child_calls)), queue = (\<lambda>s. [])\<rparr>"

datatype outcome = Exits int | Returns "sock set" | Forked sys

definition channel_t :: "bool \<Rightarrow> bool \<Rightarrow> outcome" where
  "channel_t pair_ok fork_ok =
     (if \<not> pair_ok then Exits 1
      else if \<not> fork_ok then Returns (opened (new_proc []))
      else Forked forked)"

definition over :: "sys \<Rightarrow> bool" where
  "over y \<longleftrightarrow> todo (proc_of y Parent) = [] \<and> todo (proc_of y Child) = []"

definition stuck :: "(party \<Rightarrow> call \<Rightarrow> bool) \<Rightarrow> sys \<Rightarrow> bool" where
  "stuck fails y \<longleftrightarrow> \<not> over y \<and> call_step fails Parent y = None \<and> call_step fails Child y = None"

subsection \<open>Runs\<close>

lemmas call_defs = call_step_def put_def store_def end_open_def

definition calls_left :: "sys \<Rightarrow> nat" where
  "calls_left y = length (todo (proc_of y Parent)) + length (todo (proc_of y Child))"

lemma call_step_shortens: "call_step fails w y = Some y' \<Longrightarrow> calls_left y' < calls_left y"
  by (cases w; cases "todo (proc_of y w)")
    (auto simp: call_step_def put_def calls_left_def Let_def split: call.splits if_splits)

lemma chan_run_length: "chan_run fails y n y' \<Longrightarrow> calls_left y' + n \<le> calls_left y"
proof (induction rule: chan_run.induct)
  case (more y n y' y'')
  then show ?case using call_step_shortens by (fastforce elim!: chan_step.cases)
qed simp

definition no_fail :: "party \<Rightarrow> call \<Rightarrow> bool" where
  "no_fail w c = False"

lemma not_stuck_steps: "\<not> stuck fails y \<Longrightarrow> over y \<or> (\<exists>y'. chan_step fails y y')"
  by (auto simp: stuck_def intro: chan_step.call)


subsection \<open>What a run keeps\<close>

text \<open>Each side has still to make a tail of its calls, and holds the descriptors it has still to close.\<close>

definition parent_left :: "call list set" where
  "parent_left = {[Close S0, Read S1, Log, Write S1 ''world'', Close S1], [Read S1, Log, Write S1 ''world'', Close S1],
     [Log, Write S1 ''world'', Close S1], [Write S1 ''world'', Close S1], [Close S1], []}"

definition child_left :: "call list set" where
  "child_left = {[Close S1, Write S0 ''hello'', Read S0, Log, Close S0], [Write S0 ''hello'', Read S0, Log, Close S0],
     [Read S0, Log, Close S0], [Log, Close S0], [Close S0], []}"

abbreviation left_of :: "party \<Rightarrow> sys \<Rightarrow> call list" where
  "left_of w y \<equiv> todo (proc_of y w)"

definition sides_ok :: "sys \<Rightarrow> bool" where
  "sides_ok y \<longleftrightarrow> todo (proc_of y Parent) \<in> parent_left \<and> todo (proc_of y Child) \<in> child_left
     \<and> (\<forall>w s. s \<in> opened (proc_of y w) \<longleftrightarrow> Close s \<in> set (todo (proc_of y w)))"

lemma parent_left_cases [consumes 1]:
  assumes "cs \<in> parent_left"
  obtains "cs = [Close S0, Read S1, Log, Write S1 ''world'', Close S1]" | "cs = [Read S1, Log, Write S1 ''world'', Close S1]"
    | "cs = [Log, Write S1 ''world'', Close S1]" | "cs = [Write S1 ''world'', Close S1]" | "cs = [Close S1]" | "cs = []"
  using assms unfolding parent_left_def by blast

lemma child_left_cases [consumes 1]:
  assumes "cs \<in> child_left"
  obtains "cs = [Close S1, Write S0 ''hello'', Read S0, Log, Close S0]" | "cs = [Write S0 ''hello'', Read S0, Log, Close S0]"
    | "cs = [Read S0, Log, Close S0]" | "cs = [Log, Close S0]" | "cs = [Close S0]" | "cs = []"
  using assms unfolding child_left_def by blast

lemma tails:
  "[Read S1, Log, Write S1 ''world'', Close S1] \<in> parent_left" "[Log, Write S1 ''world'', Close S1] \<in> parent_left"
  "[Write S1 ''world'', Close S1] \<in> parent_left" "[Close S1] \<in> parent_left" "[] \<in> parent_left"
  "[Write S0 ''hello'', Read S0, Log, Close S0] \<in> child_left" "[Read S0, Log, Close S0] \<in> child_left"
  "[Log, Close S0] \<in> child_left" "[Close S0] \<in> child_left" "[] \<in> child_left"
  by (simp_all add: parent_left_def child_left_def)

lemma open_iff: "sides_ok y \<Longrightarrow> end_open y s \<longleftrightarrow> Close s \<in> set (left_of Parent y) \<or> Close s \<in> set (left_of Child y)"
  by (simp add: sides_ok_def end_open_def)

lemma all_sides: "(\<forall>w. P w) \<longleftrightarrow> P Parent \<and> P Child"
  by (metis party.exhaust)

lemma all_socks: "(\<forall>s. P s) \<longleftrightarrow> P S0 \<and> P S1"
  by (metis sock.exhaust)

lemma sides_kept: "sides_ok y \<Longrightarrow> pred_option sides_ok (call_step fails w y)"
proof -
  assume ok: "sides_ok y"
  have p: "left_of Parent y \<in> parent_left" and c: "left_of Child y \<in> child_left"
    and o: "opened (proc_of y v) = {s. Close s \<in> set (left_of v y)}" for v
    using ok by (auto simp: sides_ok_def)
  show ?thesis
  proof (cases w)
    case Parent
    from p show ?thesis unfolding Parent
      by (cases rule: parent_left_cases) (simp_all add: call_step_def Let_def put_def sides_ok_def all_sides all_socks o c tails)
  next
    case Child
    from c show ?thesis unfolding Child
      by (cases rule: child_left_cases) (simp_all add: call_step_def Let_def put_def sides_ok_def all_sides all_socks o p tails)
  qed
qed

text \<open>A message that was written waits at the parent's end until the parent reads.\<close>

definition hello_waits :: "(party \<Rightarrow> call \<Rightarrow> bool) \<Rightarrow> sys \<Rightarrow> bool" where
  "hello_waits fails y \<longleftrightarrow> (left_of Child y = [Read S0, Log, Close S0] \<longrightarrow> Read S1 \<in> set (left_of Parent y)
     \<longrightarrow> \<not> fails Child (Write S0 ''hello'') \<longrightarrow> queue y S1 \<noteq> [])"

lemma hello_kept: "sides_ok y \<Longrightarrow> hello_waits fails y \<Longrightarrow> pred_option (hello_waits fails) (call_step fails w y)"
proof -
  assume ok: "sides_ok y" and wait: "hello_waits fails y"
  have p: "left_of Parent y \<in> parent_left" and c: "left_of Child y \<in> child_left"
    using ok by (auto simp: sides_ok_def)
  note wait = wait [unfolded hello_waits_def]
  show ?thesis
  proof (cases w)
    case Parent
    from p wait show ?thesis unfolding Parent
      by (cases rule: parent_left_cases) (simp_all add: call_step_def Let_def put_def hello_waits_def)
  next
    case Child
    from c wait show ?thesis unfolding Child
      by (cases rule: child_left_cases) (simp_all add: call_step_def Let_def put_def hello_waits_def)
  qed
qed

text \<open>Who can wait: a side at its read.\<close>

lemma parent_waits:
  assumes "sides_ok y" and "call_step fails Parent y = None" and "left_of Parent y \<noteq> []"
  shows "left_of Parent y = [Read S1, Log, Write S1 ''world'', Close S1] \<and> \<not> fails Parent (Read S1) \<and> queue y S1 = []
    \<and> Close S0 \<in> set (left_of Child y)"
proof -
  have "left_of Parent y \<in> parent_left" using assms(1) by (simp add: sides_ok_def)
  then show ?thesis using assms(2,3) open_iff [OF assms(1)]
    by (cases rule: parent_left_cases) (auto simp: call_step_def Let_def split: if_splits)
qed

lemma child_waits:
  assumes "sides_ok y" and "call_step fails Child y = None" and "left_of Child y \<noteq> []"
  shows "left_of Child y = [Read S0, Log, Close S0] \<and> \<not> fails Child (Read S0) \<and> queue y S0 = []
    \<and> Close S1 \<in> set (left_of Parent y)"
proof -
  have "left_of Child y \<in> child_left" using assms(1) by (simp add: sides_ok_def)
  then show ?thesis using assms(2,3) open_iff [OF assms(1)]
    by (cases rule: child_left_cases) (auto simp: call_step_def Let_def split: if_splits)
qed

lemma stuck_both:
  assumes "sides_ok y" and "stuck fails y"
  shows "left_of Parent y = [Read S1, Log, Write S1 ''world'', Close S1] \<and> left_of Child y = [Read S0, Log, Close S0]
    \<and> queue y S1 = [] \<and> \<not> fails Parent (Read S1) \<and> \<not> fails Child (Read S0)"
proof -
  have no: "call_step fails Parent y = None" "call_step fails Child y = None" using assms(2) by (simp_all add: stuck_def)
  have "left_of Parent y \<noteq> [] \<or> left_of Child y \<noteq> []" using assms(2) by (auto simp: stuck_def over_def)
  with parent_waits [OF assms(1) no(1)] child_waits [OF assms(1) no(2)] show ?thesis by fastforce
qed

text \<open>Without failures: what is on its way, and what each side has stored and logged.\<close>

definition stored_by :: "string \<Rightarrow> bool \<Rightarrow> bool \<Rightarrow> proc \<Rightarrow> bool" where
  "stored_by m unread unlogged p \<longleftrightarrow> \<not> killed p \<and> buf p = (if unread then new_buf else store m new_buf)
     \<and> logged p = (if unlogged then [] else [None])"

definition exchange :: "sys \<Rightarrow> bool" where
  "exchange y \<longleftrightarrow> (let p = left_of Parent y; c = left_of Child y in
     stored_by ''hello'' (Read S1 \<in> set p) (Log \<in> set p) (proc_of y Parent)
   \<and> stored_by ''world'' (Read S0 \<in> set c) (Log \<in> set c) (proc_of y Child)
   \<and> queue y S1 = (if Write S0 ''hello'' \<notin> set c \<and> Read S1 \<in> set p then ''hello'' else [])
   \<and> queue y S0 = (if Write S1 ''world'' \<notin> set p \<and> Read S0 \<in> set c then ''world'' else [])
   \<and> (Read S1 \<notin> set p \<longrightarrow> Write S0 ''hello'' \<notin> set c) \<and> (Read S0 \<notin> set c \<longrightarrow> Write S1 ''world'' \<notin> set p))"

lemma c_string_none: "c_string (replicate n None) = None"
  by (cases n) simp_all

lemma unterminated: "c_string (store ''hello'' new_buf) = None" "c_string (store ''world'' new_buf) = None"
  by (simp_all add: store_def new_buf_def c_string_none)

lemma exchange_kept: "sides_ok y \<Longrightarrow> exchange y \<Longrightarrow> pred_option exchange (call_step no_fail w y)"
proof -
  assume ok: "sides_ok y" and ex: "exchange y"
  have p: "left_of Parent y \<in> parent_left" and c: "left_of Child y \<in> child_left"
    using ok by (auto simp: sides_ok_def)
  note ex = ex [unfolded exchange_def stored_by_def Let_def]
  note sel = call_step_def Let_def put_def exchange_def stored_by_def no_fail_def unterminated open_iff [OF ok]
  show ?thesis
    by (cases w; rule parent_left_cases [OF p]; rule child_left_cases [OF c]) (insert ex, simp_all add: sel)
qed

lemma run_keeps:
  assumes step: "\<And>y w. P y \<Longrightarrow> pred_option P (call_step fails w y)"
  shows "chan_run fails y n y' \<Longrightarrow> P y \<Longrightarrow> P y'"
proof (induction rule: chan_run.induct)
  case (more y n y' y'')
  then obtain w where "call_step fails w y' = Some y''" by (auto elim: chan_step.cases)
  with step [of y' w] more show ?case by simp
qed simp

lemma run_sides: "chan_run fails y n y' \<Longrightarrow> sides_ok y \<Longrightarrow> hello_waits fails y \<Longrightarrow> sides_ok y' \<and> hello_waits fails y'"
proof (rule run_keeps [where P = "\<lambda>y. sides_ok y \<and> hello_waits fails y" and fails = fails])
  show "pred_option (\<lambda>y. sides_ok y \<and> hello_waits fails y) (call_step fails w y)" if "sides_ok y \<and> hello_waits fails y" for y w
    using that sides_kept [of y fails w] hello_kept [of y fails w] by (cases "call_step fails w y") simp_all
qed simp_all

lemma run_exchange: "chan_run no_fail y n y' \<Longrightarrow> sides_ok y \<Longrightarrow> exchange y \<Longrightarrow> sides_ok y' \<and> exchange y'"
proof (rule run_keeps [where P = "\<lambda>y. sides_ok y \<and> exchange y" and fails = no_fail])
  show "pred_option (\<lambda>y. sides_ok y \<and> exchange y) (call_step no_fail w y)" if "sides_ok y \<and> exchange y" for y w
    using that sides_kept [of y no_fail w] exchange_kept [of y w] by (cases "call_step no_fail w y") simp_all
qed simp_all

lemma forked_ok: "sides_ok forked" "hello_waits fails forked" "exchange forked"
  unfolding forked_def sides_ok_def new_proc_def parent_calls_def child_calls_def parent_left_def child_left_def
    hello_waits_def exchange_def stored_by_def Let_def
  by (simp_all add: all_sides all_socks)

lemma forked_calls: "calls_left forked = 10"
  by (simp add: calls_left_def forked_def new_proc_def parent_calls_def child_calls_def)

text \<open>A run along a schedule.\<close>

fun schedule :: "(party \<Rightarrow> call \<Rightarrow> bool) \<Rightarrow> party list \<Rightarrow> sys \<Rightarrow> sys option" where
  "schedule fails [] y = Some y"
| "schedule fails (w # ws) y = do { y \<leftarrow> call_step fails w y; schedule fails ws y }"

lemma schedule_run: "chan_run fails y n y' \<Longrightarrow> schedule fails ws y' = Some y'' \<Longrightarrow> chan_run fails y (n + length ws) y''"
proof (induction ws arbitrary: n y')
  case (Cons w ws)
  then obtain z where "call_step fails w y' = Some z" "schedule fails ws z = Some y''" by (auto split: bind_splits)
  with Cons.IH [OF chan_run.more [OF Cons.prems(1) chan_step.call]] show ?case by simp
qed simp

definition demo_schedule :: "party list" where
  "demo_schedule = [Child, Parent, Child, Parent, Parent, Parent, Child, Parent, Child, Child]"

subsection \<open>The properties\<close>

text \<open>C11: when no call fails, the two processes never wait for each other, whatever their order: after ten calls both
  have ended, each has stored the message of the other, every descriptor is closed and no signal was raised; but
  the line that each logs is undefined, since neither message has a terminator.\<close>

theorem channel_exchange:
  assumes "chan_run no_fail forked n y"
  shows "n \<le> 10 \<and> (over y \<or> (\<exists>y'. chan_step no_fail y y'))
    \<and> (over y \<longrightarrow> buf (proc_of y Parent) = store ''hello'' new_buf \<and> buf (proc_of y Child) = store ''world'' new_buf
      \<and> (\<forall>w. opened (proc_of y w) = {} \<and> \<not> killed (proc_of y w) \<and> logged (proc_of y w) = [None]))"
proof -
  have ok: "sides_ok y" "hello_waits no_fail y" "exchange y"
    using run_sides [OF assms] run_exchange [OF assms] forked_ok by blast+
  have "n \<le> 10" using chan_run_length [OF assms] by (simp add: forked_calls)
  moreover have "\<not> stuck no_fail y"
  proof
    assume "stuck no_fail y"
    from stuck_both [OF ok(1) this] ok(3) show False by (simp add: exchange_def Let_def)
  qed
  then have "over y \<or> (\<exists>y'. chan_step no_fail y y')" by (rule not_stuck_steps)
  moreover have "opened (proc_of y w) = {}" if "over y" for w
    using ok(1) that by (cases w) (auto simp: sides_ok_def over_def)
  ultimately show ?thesis using ok(3) by (simp add: exchange_def stored_by_def over_def all_sides Let_def)
qed

theorem channel_exchange_witness:
  "\<exists>y. chan_run no_fail forked 10 y \<and> over y \<and> buf (proc_of y Parent) = store ''hello'' new_buf"
proof -
  have "map_option over (schedule no_fail demo_schedule forked) = Some True" by code_simp
  then obtain y where y: "schedule no_fail demo_schedule forked = Some y" "over y" by auto
  have "length demo_schedule = 10" by (simp add: demo_schedule_def)
  with schedule_run [OF chan_run.start y(1)] have "chan_run no_fail forked 10 y" by simp
  with channel_exchange [OF this] y(2) show ?thesis by blast
qed

text \<open>C12: the two processes can wait for each other for ever exactly when the child's write fails and both reads
  would wait: after a failed write the child goes on to its read, and the parent has nothing to read.\<close>

theorem channel_deadlock:
  "(\<exists>n y. chan_run fails forked n y \<and> stuck fails y)
   \<longleftrightarrow> fails Child (Write S0 ''hello'') \<and> \<not> fails Parent (Read S1) \<and> \<not> fails Child (Read S0)"
proof
  assume "\<exists>n y. chan_run fails forked n y \<and> stuck fails y"
  then obtain n y where run: "chan_run fails forked n y" and stuck: "stuck fails y" by blast
  have ok: "sides_ok y" "hello_waits fails y" using run_sides [OF run] forked_ok by blast+
  from stuck_both [OF ok(1) stuck] ok(2)
  show "fails Child (Write S0 ''hello'') \<and> \<not> fails Parent (Read S1) \<and> \<not> fails Child (Read S0)"
    by (auto simp: hello_waits_def)
next
  assume f: "fails Child (Write S0 ''hello'') \<and> \<not> fails Parent (Read S1) \<and> \<not> fails Child (Read S0)"
  obtain y where y: "schedule fails [Parent, Child, Child] forked = Some y" "stuck fails y"
    using f by (simp add: forked_def new_proc_def parent_calls_def child_calls_def call_step_def Let_def put_def
        stuck_def over_def end_open_def)
  from schedule_run [OF chan_run.start y(1)] y(2)
  show "\<exists>n y. chan_run fails forked n y \<and> stuck fails y" by blast
qed

end
