(* ===== verification/Buddy_Print.thy ===== *)
theory Buddy_Print
  imports Mem_Buddy
begin

text \<open>
  \<open>buddy_print\<close> of \<^verbatim>\<open>src/c/src/mem_buddy.c\<close>, which draws the arena as a line of
  characters from the array alone, and the proof that the line shows the blocks in use.
\<close>

subsection \<open>Definitions\<close>

text \<open>The body of the loop; \<open>m\<close> is the array of 65 characters, \<open>nsize\<close> the size of the node \<open>i\<close>.\<close>

definition print_node :: "mem_buddy \<Rightarrow> nat \<Rightarrow> nat \<times> char list \<Rightarrow> (nat \<times> char list) option" where
  "print_node b i nm = (case nm of (nsize, m) \<Rightarrow>
     let nsize = (if is_power_of_2 (of_nat (i + 1)) then nsize div 2 else nsize) in do {
       v \<leftarrow> arr_get (bd_longest b) i;
       m \<leftarrow> (if v \<noteq> 0 then Some m
             else if i \<ge> buddy_size b - 1 then arr_set m (i + 1 - buddy_size b) CHR ''*''
             else do {
               l \<leftarrow> arr_get (bd_longest b) (left_child i);
               if l = 0 then Some m
               else do {
                 r \<leftarrow> arr_get (bd_longest b) (right_child i);
                 if r = 0 then Some m
                 else let offset = (i + 1) * nsize - buddy_size b
                      in foldM (\<lambda>j m. arr_set m j CHR ''*'') [offset..<offset + nsize] m
               }
             });
       Some (nsize, m)
     })"

text \<open>What is printed: nothing, or the characters before the terminator.\<close>

definition buddy_print :: "mem_buddy option \<Rightarrow> string option option" where
  "buddy_print bo = (case bo of
       None \<Rightarrow> Some None
     | Some b \<Rightarrow>
         if buddy_size b > 64 then Some None
         else do {
           (nsize, m) \<leftarrow> foldM (print_node b) [0..<2 * buddy_size b - 1] (buddy_size b * 2, replicate 65 CHR ''_'');
           m \<leftarrow> arr_set m (buddy_size b) CHR 0x00;
           Some (Some (takeWhile (\<lambda>c. c \<noteq> CHR 0x00) m))
         })"

subsection \<open>The units a node draws\<close>

definition drawn :: "mem_buddy \<Rightarrow> nat \<Rightarrow> nat set" where
  "drawn b i = (let lg = bd_longest b; nsize = 2 ^ (bd_logn b - lg2 (i + 1)); off = (i + 1) * nsize - buddy_size b in
     if lg ! i \<noteq> 0 then {}
     else if i \<ge> buddy_size b - 1 then {i + 1 - buddy_size b}
     else if lg ! left_child i = 0 \<or> lg ! right_child i = 0 then {} else {off..<off + nsize})"

definition node_size_before :: "nat \<Rightarrow> nat \<Rightarrow> nat" where
  "node_size_before logn i = (if i = 0 then 2 ^ logn * 2 else 2 ^ (logn - lg2 i))"

lemma lg2_node:
  assumes "i < 2 * 2 ^ logn - 1"
  shows "lg2 (i + 1) \<le> logn" and "2 ^ lg2 (i + 1) \<le> i + 1" and "i + 1 < 2 ^ Suc (lg2 (i + 1))"
proof -
  show b: "2 ^ lg2 (i + 1) \<le> i + 1" "i + 1 < 2 ^ Suc (lg2 (i + 1))" using lg2_bounds [of "i + 1"] by simp_all
  have "(2 :: nat) ^ lg2 (i + 1) < 2 ^ Suc logn" using b(1) assms by simp
  then have "lg2 (i + 1) < Suc logn"
    using power_less_imp_less_exp [of "2 :: nat"] by (metis one_less_numeral_iff semiring_norm(76))
  then show "lg2 (i + 1) \<le> logn" by simp
qed

lemma node_size_step:
  assumes "logn \<le> 29" and "i < 2 * 2 ^ logn - 1"
  shows "(if is_power_of_2 (of_nat (i + 1)) then node_size_before logn i div 2 else node_size_before logn i) = 2 ^ (logn - lg2 (i + 1))"
proof -
  have "(2 :: nat) ^ Suc logn \<le> 2 ^ 30" using assms(1) by (intro power_increasing) auto
  then have p: "is_power_of_2 (of_nat (i + 1)) \<longleftrightarrow> i + 1 = 2 ^ lg2 (i + 1)"
    using assms(2) by (intro power_of_2_nat) simp_all
  show ?thesis
  proof (cases "i = 0")
    case True
    have "lg2 1 = 0" by (simp add: lg2.simps)
    with True p show ?thesis by (simp add: node_size_before_def)
  next
    case False
    have "lg2 (i + 1) < Suc logn" using lg2_node(1) [OF assms(2)] by simp
    moreover have "lg2 (i + 1) = (if is_power_of_2 (of_nat (i + 1)) then lg2 i + 1 else lg2 i)"
      unfolding p using False by (intro lg2_Suc) simp
    moreover have "(2 :: nat) ^ (logn - k) div 2 = 2 ^ (logn - Suc k)" if "Suc k < Suc logn" for k
    proof -
      have "logn - k = Suc (logn - Suc k)" using that by simp
      then show ?thesis by simp
    qed
    ultimately show ?thesis using False
      by (cases "is_power_of_2 (of_nat (i + 1))") (simp_all add: node_size_before_def)
  qed
qed

lemma node_range:
  assumes "2 ^ d \<le> i + 1" and "i + 1 < 2 ^ Suc d" and "d \<le> logn"
  shows "2 ^ logn \<le> (i + 1) * 2 ^ (logn - d)" and "(i + 1) * 2 ^ (logn - d) - 2 ^ logn + 2 ^ (logn - d) \<le> (2 :: nat) ^ logn"
proof -
  have n: "(2 :: nat) ^ logn = 2 ^ d * 2 ^ (logn - d)" using assms(3) by (simp flip: power_add)
  show lo: "2 ^ logn \<le> (i + 1) * 2 ^ (logn - d)" unfolding n using assms(1) by (rule mult_le_mono1)
  have "i + 2 \<le> 2 ^ d + 2 ^ d" using assms(2) by simp
  then have "(i + 2) * 2 ^ (logn - d) \<le> (2 ^ d + 2 ^ d) * 2 ^ (logn - d)" by (rule mult_le_mono1)
  moreover have "(i + 2) * 2 ^ (logn - d) = (i + 1) * 2 ^ (logn - d) + 2 ^ (logn - d)" by simp
  moreover have "(2 ^ d + 2 ^ d) * 2 ^ (logn - d) = 2 ^ logn + (2 :: nat) ^ logn" unfolding n by (simp add: add_mult_distrib)
  ultimately show "(i + 1) * 2 ^ (logn - d) - 2 ^ logn + 2 ^ (logn - d) \<le> (2 :: nat) ^ logn" using lo by linarith
qed

lemma drawn_below:
  assumes "i < 2 * buddy_size b - 1"
  shows "drawn b i \<subseteq> {..<buddy_size b}"
proof -
  have i: "i < 2 * 2 ^ bd_logn b - 1" using assms by (simp add: buddy_size_def)
  define s where "s = (2 :: nat) ^ (bd_logn b - lg2 (i + 1))"
  have "(i + 1) * s - buddy_size b + s \<le> buddy_size b"
    using node_range(2) [OF lg2_node(2,3,1) [OF i]] by (simp only: s_def buddy_size_def)
  then have "{(i + 1) * s - buddy_size b..<(i + 1) * s - buddy_size b + s} \<subseteq> {..<buddy_size b}" by auto
  moreover have "i + 1 - buddy_size b < buddy_size b" using assms by linarith
  ultimately show ?thesis unfolding drawn_def Let_def s_def [symmetric] by (simp split: if_splits)
qed

text \<open>What the array of characters holds once the units of \<open>D\<close> have been drawn.\<close>

definition picture :: "char list \<Rightarrow> nat set \<Rightarrow> bool" where
  "picture m D \<longleftrightarrow> length m = 65 \<and> (\<forall>j < 65. m ! j = (if j \<in> D then CHR ''*'' else CHR ''_''))"

lemma picture_set: "picture m D \<Longrightarrow> j < 65 \<Longrightarrow> picture (m[j := CHR ''*'']) (insert j D)"
  by (auto simp: picture_def nth_list_update)

lemma draw_range:
  assumes "picture m D" and "a \<le> b" and "b \<le> 65"
  shows "\<exists>m'. foldM (\<lambda>j m. arr_set m j CHR ''*'') [a..<b] m = Some m' \<and> picture m' (D \<union> {a..<b})"
proof (rule foldM_upt_invariant [where I = "\<lambda>k m. picture m (D \<union> {a..<k})", OF assms(2)])
  show "picture m (D \<union> {a..<a})" using assms(1) by simp
next
  fix k s assume k: "a \<le> k" "k < b" and s: "picture s (D \<union> {a..<k})"
  have "insert k (D \<union> {a..<k}) = D \<union> {a..<Suc k}" using k(1) by auto
  with picture_set [OF s, of k] k assms(3) s
  show "\<exists>s'. arr_set s k CHR ''*'' = Some s' \<and> picture s' (D \<union> {a..<Suc k})" by (simp add: picture_def)
qed


lemma print_node_draws:
  assumes b: "buddy_size b \<le> 64" "length (bd_longest b) = 2 * buddy_size b - 1" and i: "i < 2 * buddy_size b - 1"
    and m: "picture m D"
  shows "\<exists>m'. print_node b i (node_size_before (bd_logn b) i, m) = Some (node_size_before (bd_logn b) (i + 1), m')
    \<and> picture m' (D \<union> drawn b i)"
proof -
  have i': "i < 2 * 2 ^ bd_logn b - 1" using i by (simp add: buddy_size_def)
  have "bd_logn b < 7" using b(1) power_less_imp_less_exp [of "2 :: nat" "bd_logn b" 7] by (simp add: buddy_size_def)
  then have "bd_logn b \<le> 29" by simp
  note now = node_size_step [OF this i']
  have below: "drawn b i \<subseteq> {..<buddy_size b}" by (rule drawn_below [OF i])
  define s where "s = (2 :: nat) ^ (bd_logn b - lg2 (i + 1))"
  define off where "off = (i + 1) * s - buddy_size b"
  have s: "node_size_before (bd_logn b) (i + 1) = s" by (simp add: node_size_before_def s_def)
  have off: "off + s \<le> 65"
    using node_range(2) [OF lg2_node(2,3,1) [OF i']] b(1) by (simp only: s_def off_def buddy_size_def)
  have len: "length m = 65" using m by (simp add: picture_def)
  let ?lg = "bd_longest b"
  have at: "arr_get ?lg i = Some (?lg ! i)" using i b(2) by simp
  note step = print_node_def prod.case now s_def [symmetric] Let_def
  consider "?lg ! i \<noteq> 0" | "?lg ! i = 0" "i \<ge> buddy_size b - 1"
    | "?lg ! i = 0" "i < buddy_size b - 1" by linarith
  then show ?thesis
  proof cases
    case 1
    then have "drawn b i = {}" by (simp add: drawn_def Let_def)
    with 1 m show ?thesis unfolding s step by (simp add: at)
  next
    case 2
    then have d: "drawn b i = {i + 1 - buddy_size b}" by (simp add: drawn_def Let_def)
    have j: "i + 1 - buddy_size b < 65" using i b(1) by linarith
    with 2 picture_set [OF m j] len show ?thesis unfolding s step by (simp add: at d)
  next
    case 3
    then have kids: "left_child i < length ?lg" "right_child i < length ?lg" using b(2) by (simp_all add: left_child_def right_child_def)
    show ?thesis
    proof (cases "?lg ! left_child i = 0 \<or> ?lg ! right_child i = 0")
      case True
      with 3 have "drawn b i = {}" by (simp add: drawn_def Let_def)
      with 3 True m kids show ?thesis unfolding s step by (auto simp: at)
    next
      case False
      with 3 have d: "drawn b i = {off..<off + s}" by (simp add: drawn_def Let_def s_def off_def)
      obtain m' where m': "foldM (\<lambda>j m. arr_set m j CHR ''*'') [off..<off + s] m = Some m'" "picture m' (D \<union> {off..<off + s})"
        using draw_range [OF m _ off, of off] by auto
      have "print_node b i (node_size_before (bd_logn b) i, m) = Some (s, m')"
        using 3 False kids m'(1) unfolding step by (simp add: at off_def)
      with m'(2) d s show ?thesis by simp
    qed
  qed
qed


text \<open>The whole loop draws the units of every node.\<close>

lemma print_loop:
  assumes "buddy_size b \<le> 64" and "length (bd_longest b) = 2 * buddy_size b - 1"
  shows "\<exists>k m. foldM (print_node b) [0..<2 * buddy_size b - 1] (buddy_size b * 2, replicate 65 CHR ''_'') = Some (k, m)
    \<and> picture m (\<Union>i<2 * buddy_size b - 1. drawn b i)"
proof -
  let ?I = "\<lambda>i (k, m). k = node_size_before (bd_logn b) i \<and> picture m (\<Union>j<i. drawn b j)"
  have "\<exists>s. foldM (print_node b) [0..<2 * buddy_size b - 1] (buddy_size b * 2, replicate 65 CHR ''_'') = Some s
    \<and> ?I (2 * buddy_size b - 1) s"
  proof (rule foldM_upt_invariant)
    show "?I 0 (buddy_size b * 2, replicate 65 CHR ''_'')" by (simp add: node_size_before_def buddy_size_def picture_def)
  next
    fix i s assume i: "i < 2 * buddy_size b - 1" and s: "?I i s"
    then obtain k m where sm: "s = (k, m)" "k = node_size_before (bd_logn b) i" "picture m (\<Union>j<i. drawn b j)" by (cases s) simp
    have "(\<Union>j<Suc i. drawn b j) = (\<Union>j<i. drawn b j) \<union> drawn b i" by (auto simp: less_Suc_eq)
    with print_node_draws [OF assms i sm(3)] sm(1,2)
    show "\<exists>s'. print_node b i s = Some s' \<and> ?I (Suc i) s'" by (auto simp del: lessThan_Suc)
  qed simp
  then show ?thesis by fastforce
qed

subsection \<open>The units drawn are those in use\<close>

definition covers :: "(nat \<times> nat) set \<Rightarrow> nat set" where
  "covers B = (\<Union>(x, l)\<in>B. {x..<x + l})"

definition row :: "nat \<Rightarrow> nat \<Rightarrow> nat \<Rightarrow> bool" where
  "row i e x \<longleftrightarrow> 2 ^ e * (i + 1) \<le> x + 1 \<and> x + 1 < 2 ^ e * (i + 2)"

lemma row_Suc: "row i (Suc e) x \<longleftrightarrow> row (left_child i) e x \<or> row (right_child i) e x"
proof -
  have l: "left_child i + 1 = 2 * (i + 1)" "left_child i + 2 = right_child i + 1" "right_child i + 2 = 2 * (i + 2)"
    by (simp_all add: left_child_def right_child_def)
  have "2 ^ e * (right_child i + 1) \<le> 2 ^ e * (2 * (i + 2))" "2 ^ e * (2 * (i + 1)) \<le> 2 ^ e * (right_child i + 1)"
    by (simp_all add: right_child_def)
  moreover have "2 ^ Suc e * (i + 1) = 2 ^ e * (2 * (i + 1))" "2 ^ Suc e * (i + 2) = 2 ^ e * (2 * (i + 2))" by simp_all
  ultimately show ?thesis unfolding row_def l by linarith
qed

lemma sub_eq: "x \<in> sub i k \<longleftrightarrow> (\<exists>e\<le>k. row i e x)"
proof (induction k arbitrary: i)
  case 0
  show ?case by (auto simp: row_def)
next
  case (Suc k)
  have "(\<exists>e\<le>Suc k. row i e x) \<longleftrightarrow> row i 0 x \<or> (\<exists>e\<le>k. row i (Suc e) x)"
    by (metis Suc_le_mono le0 not0_implies_Suc)
  also have "row i 0 x \<longleftrightarrow> x = i" by (auto simp: row_def)
  also have "(\<exists>e\<le>k. row i (Suc e) x) \<longleftrightarrow> (\<exists>e\<le>k. row (left_child i) e x) \<or> (\<exists>e\<le>k. row (right_child i) e x)"
    unfolding row_Suc by blast
  finally show ?case unfolding Suc.IH [symmetric] by simp
qed

lemma sub_root: "sub 0 k = {..<2 * 2 ^ k - 1}"
proof (intro set_eqI iffI)
  fix x assume "x \<in> sub 0 k"
  then obtain e where e: "e \<le> k" "x + 1 < 2 ^ e * 2" by (auto simp: sub_eq row_def)
  then have "(2 :: nat) ^ e \<le> 2 ^ k" by (intro power_increasing) simp_all
  with e(2) have "x + 1 < 2 * 2 ^ k" by linarith
  then show "x \<in> {..<2 * 2 ^ k - 1}" by simp
next
  fix x assume "x \<in> {..<2 * 2 ^ k - (1 :: nat)}"
  then have "x < 2 * 2 ^ k - 1" by simp
  from lg2_node [OF this] show "x \<in> sub 0 k" unfolding sub_eq row_def by (intro exI [of _ "lg2 (x + 1)"]) (simp add: mult.commute)
qed


lemma children_of_free: "brepr lg i (Suc k) t \<Longrightarrow> t = BFree \<or> t = BAlloc \<Longrightarrow> lg ! left_child i \<noteq> 0 \<and> lg ! right_child i \<noteq> 0"
  using brepr_val [of lg "left_child i" k BFree] brepr_val [of lg "right_child i" k BFree] by auto

text \<open>Of the subtree of a node at depth \<open>d\<close> and height \<open>k\<close>.\<close>

lemma drawn_subtree:
  "brepr (bd_longest b) i k t \<Longrightarrow> 2 ^ d \<le> i + 1 \<Longrightarrow> i + 1 < 2 ^ Suc d \<Longrightarrow> d + k = bd_logn b
   \<Longrightarrow> (\<Union>x\<in>sub i k. drawn b x) = covers (blocks ((i + 1) * 2 ^ k - buddy_size b) k t)"
proof (induction k arbitrary: i t d)
  case 0
  then have leaf: "buddy_size b - 1 \<le> i" "bd_longest b ! i = avail 0 t" by (simp_all add: buddy_size_def)
  have "Suc (Suc i) - buddy_size b = Suc (Suc i - buddy_size b)" using 0 by (simp add: buddy_size_def Suc_diff_le)
  with leaf show ?case by (cases t) (use 0 in \<open>simp_all add: drawn_def covers_def Let_def\<close>)
next
  case (Suc k)
  let ?l = "left_child i" and ?r = "right_child i" and ?off = "(i + 1) * 2 ^ Suc k - buddy_size b"
  obtain a c where h: "halves t = (a, c)" by fastforce
  have kids: "brepr (bd_longest b) ?l k a" "brepr (bd_longest b) ?r k c" using brepr_halves [OF Suc.prems(1) h] by simp_all
  have lo: "buddy_size b \<le> (i + 1) * 2 ^ Suc k"
    using node_range(1) [OF Suc.prems(2,3), of "bd_logn b"] Suc.prems(4) [symmetric] by (simp add: buddy_size_def)
  have bases: "(?l + 1) * 2 ^ k - buddy_size b = ?off" "(?r + 1) * 2 ^ k - buddy_size b = ?off + 2 ^ k"
    using lo by (simp_all add: left_child_def right_child_def algebra_simps)
  have depth: "2 ^ Suc d \<le> ?l + 1" "?l + 1 < 2 ^ Suc (Suc d)" "2 ^ Suc d \<le> ?r + 1" "?r + 1 < 2 ^ Suc (Suc d)" "Suc d + k = bd_logn b"
    using Suc.prems(2,3,4) by (simp_all add: left_child_def right_child_def)
  have IH: "(\<Union>x\<in>sub ?l k. drawn b x) = covers (blocks ?off k a)" "(\<Union>x\<in>sub ?r k. drawn b x) = covers (blocks (?off + 2 ^ k) k c)"
    using Suc.IH [OF kids(1) depth(1,2,5)] Suc.IH [OF kids(2) depth(3,4,5)] unfolding bases by blast+
  have split: "(\<Union>x\<in>sub i (Suc k). drawn b x) = drawn b i \<union> covers (blocks ?off k a) \<union> covers (blocks (?off + 2 ^ k) k c)"
    unfolding IH [symmetric] by auto
  have "lg2 (i + 1) = d" using lg2_unique [OF Suc.prems(2,3)] .
  then have s: "bd_logn b - lg2 (i + 1) = Suc k" using Suc.prems(4) by simp
  have "(2 :: nat) ^ Suc d \<le> 2 ^ bd_logn b" using Suc.prems(4) by (intro power_increasing) simp_all
  then have inner: "\<not> buddy_size b - 1 \<le> i" using Suc.prems(3) by (simp add: buddy_size_def)
  have both: "covers (A \<union> B) = covers A \<union> covers B" for A B by (auto simp: covers_def)
  show ?case unfolding split
  proof (cases t)
    case BFree
    then show "drawn b i \<union> covers (blocks ?off k a) \<union> covers (blocks (?off + 2 ^ k) k c) = covers (blocks ?off (Suc k) t)"
      using Suc.prems(1) h by (auto simp: drawn_def covers_def)
  next
    case BAlloc
    with children_of_free [OF Suc.prems(1)] Suc.prems(1)
    have "drawn b i = {?off..<?off + 2 ^ Suc k}" unfolding drawn_def s Let_def by (simp only: inner if_False) simp
    with BAlloc h show "drawn b i \<union> covers (blocks ?off k a) \<union> covers (blocks (?off + 2 ^ k) k c) = covers (blocks ?off (Suc k) t)"
      by (auto simp: covers_def)
  next
    case (BSplit a' c')
    with Suc.prems(1) have "drawn b i = {}" unfolding drawn_def Let_def by (simp only: inner if_False) (auto simp: max_def split: if_splits)
    with BSplit h show "drawn b i \<union> covers (blocks ?off k a) \<union> covers (blocks (?off + 2 ^ k) k c) = covers (blocks ?off (Suc k) t)"
      by (simp add: both)
  qed
qed

text \<open>The line that is printed.\<close>

definition arena_line :: "nat \<Rightarrow> (nat \<times> nat) set \<Rightarrow> string" where
  "arena_line n B = map (\<lambda>j. if \<exists>(x, l)\<in>B. x \<le> j \<and> j < x + l then CHR ''*'' else CHR ''_'') [0..<n]"

lemma covers_iff: "j \<in> covers B \<longleftrightarrow> (\<exists>(x, l)\<in>B. x \<le> j \<and> j < x + l)"
  by (fastforce simp: covers_def)

lemma picture_line:
  assumes "picture m (covers B)" and "n \<le> 64"
  shows "takeWhile (\<lambda>c. c \<noteq> CHR 0x00) (m[n := CHR 0x00]) = arena_line n B"
proof -
  have len: "length m = 65" and at: "\<And>j. j < 65 \<Longrightarrow> m ! j = (if j \<in> covers B then CHR ''*'' else CHR ''_'')"
    using assms(1) by (auto simp: picture_def)
  let ?m = "m[n := CHR 0x00]"
  have "takeWhile (\<lambda>c. c \<noteq> CHR 0x00) ?m = take n ?m"
    by (rule takeWhile_eq_take_P_nth) (use assms(2) len at in \<open>simp_all add: nth_list_update\<close>)
  also have "\<dots> = arena_line n B"
    by (rule nth_equalityI) (use assms(2) len at in \<open>simp_all add: arena_line_def covers_iff [symmetric]\<close>)
  finally show ?thesis .
qed

lemma buddy_print_correct:
  assumes "buddy_rep b B"
  shows "buddy_print (Some b) = Some (if bd_logn b \<le> 6 then Some (arena_line (2 ^ bd_logn b) B) else None)"
proof (cases "bd_logn b \<le> 6")
  case True
  then have "(2 :: nat) ^ bd_logn b \<le> 2 ^ 6" by (intro power_increasing) simp_all
  then have n: "buddy_size b \<le> 64" by (simp add: buddy_size_def)
  obtain t where t: "buddy_ok b t" "B = blocks 0 (bd_logn b) t" using assms by (auto simp: buddy_rep_def)
  then have len: "length (bd_longest b) = 2 * buddy_size b - 1" and rep: "brepr (bd_longest b) 0 (bd_logn b) t"
    by (simp_all add: buddy_ok_def buddy_size_def)
  have "(\<Union>i<2 * buddy_size b - 1. drawn b i) = covers B"
    using drawn_subtree [OF rep, of 0] sub_root [of "bd_logn b"] by (simp add: buddy_size_def t(2))
  with print_loop [OF n len] obtain k m where
    m: "foldM (print_node b) [0..<2 * buddy_size b - 1] (buddy_size b * 2, replicate 65 CHR ''_'') = Some (k, m)" "picture m (covers B)"
    by auto
  have "length m = 65" using m(2) by (simp add: picture_def)
  with m picture_line [OF m(2) n] n True show ?thesis
    by (simp add: buddy_print_def buddy_size_def)
next
  case False
  then have "(2 :: nat) ^ 7 \<le> 2 ^ bd_logn b" by (intro power_increasing) simp_all
  with False show ?thesis by (simp add: buddy_print_def buddy_size_def)
qed

subsection \<open>The test of the program\<close>

text \<open>\<open>mem_buddy_test\<close> of \<^verbatim>\<open>src/c/src/main.c\<close>; the offset goes from \<open>int\<close> to \<open>unsigned\<close>.\<close>

definition mem_buddy_test :: "bool \<Rightarrow> string option option" where
  "mem_buddy_test oom = do {
     b \<leftarrow> buddy_new oom 4;
     (x, b) \<leftarrow> buddy_alloc b 4;
     (_, b) \<leftarrow> buddy_alloc b 8;
     (_, b) \<leftarrow> buddy_alloc b 2;
     b \<leftarrow> buddy_free b (nat (x mod 2 ^ 32));
     buddy_print b
   }"

lemma mem_buddy_test_prints: "mem_buddy_test oom = Some (if oom then None else Some ''____**__********'')"
proof (cases oom)
  case True
  then show ?thesis by (simp add: mem_buddy_test_def buddy_new_def buddy_alloc_def buddy_free_def buddy_print_def)
next
  case False
  let ?b = "\<lparr>bd_logn = 4, bd_longest = [3, 3, 0, 3, 2, 3, 3, 2, 2, 0, 2, 2, 2, 2, 2, 1, 1, 1, 1, 1, 1, 1, 1, 1, 1, 1, 1, 1, 1, 1, 1]\<rparr>"
  have "(do {
      b \<leftarrow> buddy_new False 4; (x, b) \<leftarrow> buddy_alloc b 4; (_, b) \<leftarrow> buddy_alloc b 8; (_, b) \<leftarrow> buddy_alloc b 2;
      buddy_free b (nat (x mod 2 ^ 32)) }) = Some (Some ?b)"
    by code_simp
  then have test: "mem_buddy_test False = buddy_print (Some ?b)"
    by (auto simp: mem_buddy_test_def split: bind_splits prod.splits)
  let ?t = "BSplit (BSplit BFree (BSplit BAlloc BFree)) BAlloc"
  have "buddy_ok ?b ?t" by (simp add: buddy_ok_def left_child_def right_child_def numeral_eq_Suc)
  then have "buddy_rep ?b {(4, 2), (8, 8)}" unfolding buddy_rep_def by (intro exI [of _ ?t]) auto
  from buddy_print_correct [OF this] have "buddy_print (Some ?b) = Some (Some (arena_line 16 {(4, 2), (8, 8)}))" by simp
  moreover have "arena_line 16 {(4, 2), (8, 8)} = ''____**__********''" by code_simp
  ultimately show ?thesis using test False by simp
qed

subsection \<open>The property\<close>

text \<open>C40: for an arena of up to 64 units, whatever has been allocated and released, \<open>buddy_print\<close> never reads or
  writes outside its arrays, and prints a line whose stars are exactly the units of the blocks in use; it prints
  nothing for a larger arena.\<close>

theorem buddy_print_shows:
  assumes "buddy_rep b B"
  shows "buddy_print (Some b) = Some (if bd_logn b \<le> 6 then Some (arena_line (2 ^ bd_logn b) B) else None)"
  by (rule buddy_print_correct [OF assms])

theorem buddy_print_shows_witness:
  "buddy_print (Some \<lparr>bd_logn = 1, bd_longest = [1, 0, 1]\<rparr>) = Some (Some ''*_'')"
proof -
  let ?b = "\<lparr>bd_logn = 1, bd_longest = [1, 0, 1]\<rparr>"
  have "buddy_ok ?b (BSplit BAlloc BFree)" by (simp add: buddy_ok_def left_child_def right_child_def)
  then have "buddy_rep ?b {(0, 1)}" unfolding buddy_rep_def by (intro exI [of _ "BSplit BAlloc BFree"]) simp
  from buddy_print_shows [OF this] show ?thesis by (simp add: arena_line_def upt_rec numeral_2_eq_2)
qed

end
