(* ===== verification/Alloc_Tests.thy ===== *)
theory Alloc_Tests
  imports Mem_Pool_Ops Mem_Slot
begin

text \<open>
  The tests of the allocators in \<^verbatim>\<open>src/c/src/main.c\<close>: what they do on any heap that
  does not run out of memory, and that they leave it as they found it.
\<close>

subsection \<open>Definitions\<close>

text \<open>\<open>memp_data_size\<close> reads the class of a block in use.\<close>

definition memp_data_size :: "ptr \<Rightarrow> mem \<Rightarrow> size_t option" where
  "memp_data_size d s = do {
     b \<leftarrow> deref (blks s) d;
     (p, i) \<leftarrow> link_field (d_p b);
     pl \<leftarrow> pools s p;
     f \<leftarrow> arr_get (mp_f pl) i;
     Some (fld_size f)
   }"

definition test_sizes :: "size_t list" where
  "test_sizes = [8, 12, 16, 24, 32, 48, 64, 128, 256]"

definition bytes_test :: "mem \<Rightarrow> mem option" where
  "bytes_test s = do {
     (p, s) \<leftarrow> memp_new test_sizes 9 s;
     memp_destroy p s
   }"

text \<open>What is logged: a number, or an address. \<open>sizeof(as_mem_data_fixed_t)\<close> is 8.\<close>

datatype line = Num int | Addr ptr

definition mem_pool_test :: "mem \<Rightarrow> (line list \<times> mem) option" where
  "mem_pool_test s = do {
     (p, s) \<leftarrow> memp_new test_sizes 9 s;
     (a, s) \<leftarrow> memp_alloc p 18 s;
     sz \<leftarrow> memp_data_size a s;
     pl \<leftarrow> deref (pools s) p;
     (b, s) \<leftarrow> memp_alloc p 18 s;
     let out = [Num 8, Num (uint sz), Addr a, Num (sint (mp_used pl)), Num (sint (mp_empty pl)), Addr b];
     s \<leftarrow> memp_recycle b s;
     s \<leftarrow> memp_recycle a s;
     s \<leftarrow> memp_destroy p s;
     Some (out, s)
   }"

definition mem_slot_test :: "bool \<Rightarrow> string option" where
  "mem_slot_test full = do {
     let s = slot_new full 4;
     (_, s) \<leftarrow> slot_alloc s 4;
     (a, s) \<leftarrow> slot_alloc s 5;
     (_, s) \<leftarrow> slot_alloc s 3;
     s \<leftarrow> slot_free s a 5;
     (_, s) \<leftarrow> slot_alloc s 6;
     Some (slot_print s)
   }"

subsection \<open>Blocks from a pool of its own\<close>

text \<open>
  Since the state \<open>s0\<close> a pool \<open>p\<close> was made, the blocks \<open>xs\<close> (with their classes) were taken
  from it, and those of \<open>fl\<close> were taken and given back.
\<close>

definition listed :: "nat \<Rightarrow> (addr \<times> nat) list \<Rightarrow> (nat \<Rightarrow> addr list) \<Rightarrow> addr set" where
  "listed n xs fl = fst ` set xs \<union> (\<Union>i<n. set (fl i))"

definition in_class :: "addr \<Rightarrow> nat \<Rightarrow> mp_data store \<Rightarrow> addr \<Rightarrow> bool" where
  "in_class p i h a \<longleftrightarrow> (\<exists>b. h a = Some b \<and> d_p b = Field p i)"

definition pool_at :: "addr \<Rightarrow> size_t list \<Rightarrow> (addr \<times> nat) list \<Rightarrow> (nat \<Rightarrow> addr list) \<Rightarrow> mem \<Rightarrow> mem \<Rightarrow> bool" where
  "pool_at p sizes xs fl s0 s \<longleftrightarrow> memp_inv p fl s \<and> oom s = oom s0
     \<and> (\<exists>pl. pools s = (pools s0)(p \<mapsto> pl) \<and> classes pl = length sizes \<and> map (class_size pl) [0..<length sizes] = sort sizes)
     \<and> distinct (map fst xs) \<and> (\<forall>a i. (a, i) \<in> set xs \<longrightarrow> i < length sizes \<and> in_class p i (blks s) a)
     \<and> (\<forall>a. blks s0 a = (if a \<in> listed (length sizes) xs fl then None else blks s a))"

lemma pool_at_new:
  assumes "sizes \<noteq> []" and "length sizes \<le> 255" and "\<And>x. x \<in> set sizes \<Longrightarrow> unat x < 2 ^ 64 - 8"
    and "fresh_ok (brk s) (blks s)" and "owned (brk s) UNIV (blks s) = {}" and "\<not> oom s (brk s)"
  shows "\<exists>s'. memp_new sizes (of_nat (length sizes)) s = Some (Some (brk s), s') \<and> pool_at (brk s) sizes [] (\<lambda>_. []) s s'"
proof -
  have n: "unat (of_nat (length sizes) :: u32) = length sizes"
    using assms(2) by (simp add: unsigned_of_nat take_bit_nat_eq_self)
  from memp_new_correct [of "of_nat (length sizes)" sizes s] assms n show ?thesis
    by (fastforce simp: pool_at_def listed_def)
qed

lemma pool_at_alloc:
  assumes at: "pool_at p sizes xs (\<lambda>_. []) s0 s" and sz: "sz \<noteq> 0" "c \<in> set sizes" "sz \<le> c" and mem: "\<not> oom s0 (brk s)"
  shows "\<exists>a i s'. memp_alloc (Some p) sz s = Some (Some a, s') \<and> pool_at p sizes ((a, i) # xs) (\<lambda>_. []) s0 s'
    \<and> sz \<le> sort sizes ! i \<and> (\<forall>c'\<in>set sizes. sz \<le> c' \<longrightarrow> sort sizes ! i \<le> c')
    \<and> memp_data_size (Some a) s' = Some (sort sizes ! i)"
proof -
  obtain pl where inv: "memp_inv p (\<lambda>_. []) s" and oom: "oom s = oom s0" and pl: "pools s = (pools s0)(p \<mapsto> pl)"
    and cl: "classes pl = length sizes" "map (class_size pl) [0..<length sizes] = sort sizes"
    and dist: "distinct (map fst xs)" and xs: "\<And>a i. (a, i) \<in> set xs \<Longrightarrow> i < length sizes \<and> in_class p i (blks s) a"
    and bl: "\<And>a. blks s0 a = (if a \<in> listed (length sizes) xs (\<lambda>_. []) then None else blks s a)"
    using at by (auto simp: pool_at_def)
  have size: "class_size pl j = sort sizes ! j" if "j < length sizes" for j
    using cl(2) that by (metis add.left_neutral diff_zero length_upt nth_map nth_upt)
  have at_p: "pools s p = Some pl" using pl by simp
  obtain i where best: "best_class pl sz i" and eq: "memp_alloc (Some p) sz s =
      (if i < classes pl then memp_alloc_class p i s else memp_alloc_large p sz s)"
    using memp_alloc_eq [OF inv at_p sz(1)] by blast
  obtain j where "j < length sizes" "sort sizes ! j = c" using sz(2) by (metis in_set_conv_nth length_sort set_sort)
  with best sz(3) size cl(1) have i: "i < length sizes" unfolding best_class_def by (metis not_less le_neq_implies_less)
  let ?b = "\<lparr>d_p = Field p i, d_d = replicate (unat (class_size pl i)) None\<rparr>"
  let ?s = "s\<lparr>brk := Suc (brk s), blks := (blks s)(brk s \<mapsto> ?b),
    pools := (pools s)(p \<mapsto> pl\<lparr>mp_used := mp_used pl + ucast (class_size pl i)\<rparr>)\<rparr>"
  have alloc: "memp_alloc (Some p) sz s = Some (Some (brk s), ?s)"
    using memp_alloc_class_malloc [OF inv at_p] i cl(1) oom mem unfolding eq by simp
  have inv': "memp_inv p (\<lambda>_. []) ?s"
    using memp_inv_fresh [OF inv at_p, of i "replicate (unat (class_size pl i)) None"] i cl(1) by simp
  have new: "blks s (brk s) = None" using inv by (auto simp: memp_inv_def fresh_ok_def)
  then have out: "brk s \<notin> fst ` set xs" using xs by (fastforce simp: in_class_def)
  have len: "i < length (mp_f pl)" using inv at_p i cl(1) by (auto simp: memp_inv_def pool_shape_def)
  have "pool_at p sizes ((brk s, i) # xs) (\<lambda>_. []) s0 ?s"
    unfolding pool_at_def
  proof (intro conjI)
    show "memp_inv p (\<lambda>_. []) ?s" by (rule inv')
    show "\<exists>pl. pools ?s = (pools s0)(p \<mapsto> pl) \<and> classes pl = length sizes \<and> map (class_size pl) [0..<length sizes] = sort sizes"
      by (rule exI [of _ "pl\<lparr>mp_used := mp_used pl + ucast (class_size pl i)\<rparr>"])
        (use pl cl in \<open>simp add: classes_def class_size_def\<close>)
    show "\<forall>a j. (a, j) \<in> set ((brk s, i) # xs) \<longrightarrow> j < length sizes \<and> in_class p j (blks ?s) a"
    proof (intro allI impI)
      fix a j assume aj: "(a, j) \<in> set ((brk s, i) # xs)"
      show "j < length sizes \<and> in_class p j (blks ?s) a"
      proof (cases "a = brk s")
        case True
        then have "j = i" using aj out by force
        with i True show ?thesis by (simp add: in_class_def)
      next
        case False
        with aj xs show ?thesis by (simp add: in_class_def)
      qed
    qed
    show "\<forall>a. blks s0 a = (if a \<in> listed (length sizes) ((brk s, i) # xs) (\<lambda>_. []) then None else blks ?s a)"
      using bl new by (auto simp: listed_def)
  qed (use oom out dist in simp_all)
  moreover have "memp_data_size (Some (brk s)) ?s = Some (sort sizes ! i)"
    using len size [OF i] by (simp add: memp_data_size_def link_field_def class_size_def)
  moreover have "sz \<le> sort sizes ! i" using best i cl(1) size by (simp add: best_class_def)
  moreover have "sort sizes ! i \<le> c'" if c': "c' \<in> set sizes" "sz \<le> c'" for c'
  proof -
    obtain j where "j < length sizes" "sort sizes ! j = c'" using c'(1) by (metis in_set_conv_nth length_sort set_sort)
    with best i cl(1) size c'(2) show ?thesis by (auto simp: best_class_def)
  qed
  ultimately show ?thesis using alloc by blast
qed

lemma pool_at_give:
  assumes at: "pool_at p sizes (ys @ (a, i) # zs) fl s0 s"
  shows "\<exists>s'. memp_recycle (Some a) s = Some s' \<and> pool_at p sizes (ys @ zs) (fl(i := a # fl i)) s0 s'"
proof -
  obtain pl where inv: "memp_inv p fl s" and oom: "oom s = oom s0" and pl: "pools s = (pools s0)(p \<mapsto> pl)"
    and cl: "classes pl = length sizes" "map (class_size pl) [0..<length sizes] = sort sizes"
    and dist: "distinct (map fst (ys @ (a, i) # zs))"
    and xs: "\<And>a' i'. (a', i') \<in> set (ys @ (a, i) # zs) \<Longrightarrow> i' < length sizes \<and> in_class p i' (blks s) a'"
    and bl: "\<And>a'. blks s0 a' = (if a' \<in> listed (length sizes) (ys @ (a, i) # zs) fl then None else blks s a')"
    using at unfolding pool_at_def by blast
  obtain b where i: "i < length sizes" and b: "blks s a = Some b" "d_p b = Field p i"
    using xs [of a i] by (auto simp: in_class_def)
  have at_p: "pools s p = Some pl" and i': "i < classes pl" using pl i cl(1) by simp_all
  let ?pl = "set_header pl i (Some a)\<lparr>mp_empty := mp_empty pl + ucast (class_size pl i), mp_used := mp_used pl - ucast (class_size pl i)\<rparr>"
  let ?s = "s\<lparr>blks := (blks s)(a \<mapsto> b\<lparr>d_p := Next (hdr_of pl i)\<rparr>), pools := (pools s)(p \<mapsto> ?pl)\<rparr>"
  have rec: "memp_recycle (Some a) s = Some ?s" by (rule memp_recycle_class [OF inv at_p i' b])
  have pl': "classes ?pl = length sizes" "class_size ?pl = class_size pl"
    using cl(1) class_size_set_header [of pl i "Some a"] by (simp_all add: classes_def set_header_def class_size_def fun_eq_iff)
  have held_eq: "listed (length sizes) (ys @ zs) (fl(i := a # fl i)) = listed (length sizes) (ys @ (a, i) # zs) fl"
    using i by (auto simp: listed_def split: if_splits)
  have "pool_at p sizes (ys @ zs) (fl(i := a # fl i)) s0 ?s"
    unfolding pool_at_def
  proof (intro conjI)
    show "memp_inv p (fl(i := a # fl i)) ?s" by (rule memp_inv_give [OF inv at_p i' b])
    show "\<exists>pl. pools ?s = (pools s0)(p \<mapsto> pl) \<and> classes pl = length sizes \<and> map (class_size pl) [0..<length sizes] = sort sizes"
      by (rule exI [of _ ?pl]) (use pl pl' cl in simp)
    show "\<forall>a' j. (a', j) \<in> set (ys @ zs) \<longrightarrow> j < length sizes \<and> in_class p j (blks ?s) a'"
    proof (intro allI impI)
      fix a' j assume aj: "(a', j) \<in> set (ys @ zs)"
      then have "a' \<noteq> a" using dist by force
      with xs [of a' j] aj show "j < length sizes \<and> in_class p j (blks ?s) a'" by (auto simp: in_class_def)
    qed
    show "\<forall>x. blks s0 x = (if x \<in> listed (length sizes) (ys @ zs) (fl(i := a # fl i)) then None else blks ?s x)"
      unfolding held_eq using bl by (auto simp: listed_def)
  qed (use oom dist in simp_all)
  with rec show ?thesis by blast
qed


lemma pool_at_destroy:
  assumes at: "pool_at p sizes [] fl s0 s"
  shows "\<exists>s'. memp_destroy (Some p) s = Some s' \<and> blks s' = blks s0 \<and> pools s' = (pools s0)(p := None)"
proof -
  obtain pl where inv: "memp_inv p fl s" and pl: "pools s = (pools s0)(p \<mapsto> pl)" and cl: "classes pl = length sizes"
    and bl: "\<And>a. blks s0 a = (if a \<in> listed (length sizes) [] fl then None else blks s a)"
    using at by (auto simp: pool_at_def)
  have "pools s p = Some pl" using pl by simp
  from memp_destroy_correct [OF inv this] pl cl bl show ?thesis by (auto simp: listed_def fun_eq_iff)
qed

text \<open>Two blocks taken and given back.\<close>

lemma two_blocks:
  assumes sizes: "sizes \<noteq> []" "length sizes \<le> 255" "\<And>x. x \<in> set sizes \<Longrightarrow> unat x < 2 ^ 64 - 8"
    and heap: "fresh_ok (brk s) (blks s)" "owned (brk s) UNIV (blks s) = {}" "\<And>k. \<not> oom s k"
    and x: "x \<noteq> 0" "c \<in> set sizes" "x \<le> c" and y: "y \<noteq> 0" "d \<in> set sizes" "y \<le> d"
  obtains a b i j s1 s2 s3 s4 s5 s6 where "memp_new sizes (of_nat (length sizes)) s = Some (Some (brk s), s1)"
    and "memp_alloc (Some (brk s)) x s1 = Some (Some a, s2)" and "memp_alloc (Some (brk s)) y s2 = Some (Some b, s3)"
    and "memp_recycle (Some b) s3 = Some s4" and "memp_recycle (Some a) s4 = Some s5"
    and "memp_destroy (Some (brk s)) s5 = Some s6" and "blks s6 = blks s" and "pools s6 = (pools s)(brk s := None)"
    and "pool_at (brk s) sizes [(a, i)] (\<lambda>_. []) s s2" and "memp_data_size (Some a) s2 = Some (sort sizes ! i)"
    and "\<forall>c'\<in>set sizes. x \<le> c' \<longrightarrow> sort sizes ! i \<le> c'" and "x \<le> sort sizes ! i" and "a \<noteq> b"
proof -
  obtain s1 where s1: "memp_new sizes (of_nat (length sizes)) s = Some (Some (brk s), s1)" "pool_at (brk s) sizes [] (\<lambda>_. []) s s1"
    using pool_at_new [OF sizes heap(1,2,3)] by blast
  obtain a i s2 where s2: "memp_alloc (Some (brk s)) x s1 = Some (Some a, s2)" "pool_at (brk s) sizes [(a, i)] (\<lambda>_. []) s s2"
    "x \<le> sort sizes ! i" "\<forall>c'\<in>set sizes. x \<le> c' \<longrightarrow> sort sizes ! i \<le> c'" "memp_data_size (Some a) s2 = Some (sort sizes ! i)"
    using pool_at_alloc [OF s1(2) x heap(3)] by blast
  obtain b j s3 where s3: "memp_alloc (Some (brk s)) y s2 = Some (Some b, s3)" "pool_at (brk s) sizes [(b, j), (a, i)] (\<lambda>_. []) s s3"
    using pool_at_alloc [OF s2(2) y heap(3)] by blast
  obtain s4 where s4: "memp_recycle (Some b) s3 = Some s4" "pool_at (brk s) sizes [(a, i)] ((\<lambda>_. [])(j := [b])) s s4"
    using pool_at_give [of "brk s" sizes "[]" b j "[(a, i)]" "\<lambda>_. []"] s3(2) by auto
  obtain fl s5 where s5: "memp_recycle (Some a) s4 = Some s5" "pool_at (brk s) sizes [] fl s s5"
    using pool_at_give [of "brk s" sizes "[]" a i "[]"] s4(2) by fastforce
  obtain s6 where "memp_destroy (Some (brk s)) s5 = Some s6" "blks s6 = blks s" "pools s6 = (pools s)(brk s := None)"
    using pool_at_destroy [OF s5(2)] by blast
  moreover have "a \<noteq> b" using s3(2) by (auto simp: pool_at_def)
  ultimately show thesis using that s1(1) s2 s3(1) s4(1) s5(1) by blast
qed


subsection \<open>The tests\<close>

definition calm :: "mem \<Rightarrow> bool" where
  "calm s \<longleftrightarrow> fresh_ok (brk s) (blks s) \<and> owned (brk s) UNIV (blks s) = {} \<and> (\<forall>k. \<not> oom s k)"

lemma test_sizes_ok: "test_sizes \<noteq> []" "length test_sizes = 9" "x \<in> set test_sizes \<Longrightarrow> unat x < 2 ^ 64 - 8"
  by (auto simp: test_sizes_def)

lemma bytes_test_keeps:
  assumes "calm s"
  shows "\<exists>s'. bytes_test s = Some s' \<and> blks s' = blks s \<and> pools s' = (pools s)(brk s := None)"
proof -
  have "length test_sizes \<le> 255" by (simp add: test_sizes_ok)
  from pool_at_new [OF test_sizes_ok(1) this test_sizes_ok(3), of s] assms obtain s1 where
    s1: "memp_new test_sizes 9 s = Some (Some (brk s), s1)" "pool_at (brk s) test_sizes [] (\<lambda>_. []) s s1"
    by (auto simp: calm_def test_sizes_ok)
  from pool_at_destroy [OF s1(2)] s1(1) show ?thesis by (auto simp: bytes_test_def)
qed

text \<open>The counters after one block of 24 bytes.\<close>

lemma one_block_counters:
  assumes at: "pool_at p test_sizes [(a, i)] (\<lambda>_. []) s0 s" and none: "owned p UNIV (blks s0) = {}" and i: "sort test_sizes ! i = 24"
  shows "\<exists>pl. pools s p = Some pl \<and> mp_used pl = 24 \<and> mp_empty pl = 0"
proof -
  obtain pl where inv: "memp_inv p (\<lambda>_. []) s" and pl: "pools s p = Some pl" and cl: "classes pl = length test_sizes"
    "map (class_size pl) [0..<length test_sizes] = sort test_sizes" and i9: "i < length test_sizes" and ca: "in_class p i (blks s) a"
    and bl: "\<And>x. blks s0 x = (if x \<in> listed (length test_sizes) [(a, i)] (\<lambda>_. []) then None else blks s x)"
    using at by (auto simp: pool_at_def)
  have size: "class_size pl i = 24"
    using cl(2) i i9 by (metis add.left_neutral diff_zero length_upt nth_map nth_upt)
  obtain b where b: "blks s a = Some b" "d_p b = Field p i" using ca by (auto simp: in_class_def)
  have cap: "cap (blks s) a = 24" using inv pl b cl(1) i9 size by (auto simp: memp_inv_def live_ok_def cap_def)
  have "owned p {..<classes pl} (blks s) = {a}"
  proof
    show "owned p {..<classes pl} (blks s) \<subseteq> {a}"
    proof
      fix x assume "x \<in> owned p {..<classes pl} (blks s)"
      then show "x \<in> {a}" using bl [of x] none by (auto simp: owned_def listed_def split: if_splits)
    qed
    show "{a} \<subseteq> owned p {..<classes pl} (blks s)" using b i9 cl(1) by (auto simp: owned_def)
  qed
  with inv pl cap have "mp_used pl = 24" "mp_empty pl = 0" by (auto simp: memp_inv_def used_ok_def empty_ok_def)
  with pl show ?thesis by blast
qed

lemma sorted_test_sizes: "sort test_sizes = test_sizes"
  by (simp add: test_sizes_def sorted_sort_id)

lemma mem_pool_test_keeps:
  assumes "calm s"
  shows "\<exists>a b s'. mem_pool_test s = Some ([Num 8, Num 24, Addr (Some a), Num 24, Num 0, Addr (Some b)], s')
    \<and> a \<noteq> b \<and> blks s' = blks s \<and> pools s' = (pools s)(brk s := None)"
proof -
  have len: "length test_sizes \<le> 255" by (simp add: test_sizes_ok)
  have c: "(18 :: size_t) \<noteq> 0" "24 \<in> set test_sizes" "(18 :: size_t) \<le> 24" by (simp_all add: test_sizes_def)
  have quiet: "fresh_ok (brk s) (blks s)" "owned (brk s) UNIV (blks s) = {}" "\<And>k. \<not> oom s k" using assms by (simp_all add: calm_def)
  show ?thesis
  proof (rule two_blocks [OF test_sizes_ok(1) len test_sizes_ok(3) quiet c c])
    fix a b i s1 s2 s3 s4 s5 s6
    assume run: "memp_new test_sizes (of_nat (length test_sizes)) s = Some (Some (brk s), s1)"
        "memp_alloc (Some (brk s)) 18 s1 = Some (Some a, s2)" "memp_alloc (Some (brk s)) 18 s2 = Some (Some b, s3)"
        "memp_recycle (Some b) s3 = Some s4" "memp_recycle (Some a) s4 = Some s5" "memp_destroy (Some (brk s)) s5 = Some s6"
        "blks s6 = blks s" "pools s6 = (pools s)(brk s := None)"
      and at: "pool_at (brk s) test_sizes [(a, i)] (\<lambda>_. []) s s2" and sz: "memp_data_size (Some a) s2 = Some (sort test_sizes ! i)"
        "\<forall>c'\<in>set test_sizes. 18 \<le> c' \<longrightarrow> sort test_sizes ! i \<le> c'" "18 \<le> sort test_sizes ! i" and ab: "a \<noteq> b"
    have "i < 9" using at test_sizes_ok(2) by (auto simp: pool_at_def)
    then have "sort test_sizes ! i \<in> set test_sizes" by (metis length_sort nth_mem set_sort test_sizes_ok(2))
    moreover have "sort test_sizes ! i \<le> 24" using sz(2) by (simp add: test_sizes_def)
    ultimately have i: "sort test_sizes ! i = 24" using sz(3) by (auto simp: test_sizes_def)
    obtain pl where "pools s2 (brk s) = Some pl" "mp_used pl = 24" "mp_empty pl = 0"
      using one_block_counters [OF at quiet(2) i] by blast
    with run sz(1) i ab show ?thesis by (simp add: mem_pool_test_def test_sizes_ok Let_def)
  qed
qed

lemma mem_slot_test_prints: "mem_slot_test full = Some (if full then [] else ''****_____*********______________'' @ [CHR 0x0A])"
proof (cases full)
  case True
  then show ?thesis by (simp add: mem_slot_test_def slot_new_def slot_alloc_def slot_free_def slot_print_def Let_def)
next
  case False
  have "mem_slot_test False = Some (''****_____*********______________'' @ [CHR 0x0A])" by code_simp
  with False show ?thesis by simp
qed

end
