(* ===== verification/Rb_Test.thy ===== *)
theory Rb_Test
  imports Rb_Delete Alloc_Tests "HOL-Library.Multiset"
begin

text \<open>
  The test of the red-black tree, \<^verbatim>\<open>src/c/src/rb_tree_test.c\<close>: the nodes are the elements of
  one block of the pool, and are named here by their index in it.
\<close>

subsection \<open>Definitions\<close>

text \<open>What is printed for a node: a brace, its colour and integer, its address and that of its parent.\<close>

datatype token = Brace_Open | Brace_Close | Entry color int addr ptr

partial_function (option) rb_tree_print :: "(addr \<Rightarrow> int) \<Rightarrow> ptr \<Rightarrow> rb_tree \<Rightarrow> token list option" where
  "rb_tree_print i n t = (case n of
       None \<Rightarrow> Some [Brace_Open, Brace_Close]
     | Some a \<Rightarrow> do {
         l \<leftarrow> rb_get rn_left n t;
         xs \<leftarrow> (if l \<noteq> None then rb_tree_print i l t else Some []);
         c \<leftarrow> rb_get rn_color n t;
         p \<leftarrow> rb_get rn_parent n t;
         r \<leftarrow> rb_get rn_right n t;
         ys \<leftarrow> (if r \<noteq> None then rb_tree_print i r t else Some []);
         Some (Brace_Open # xs @ Entry c (i a) a p # ys @ [Brace_Close])
       })"

definition rb_test_sizes :: "size_t list" where
  "rb_test_sizes = [8, 12, 16, 24, 32, 48, 64, 128, 256, 384, 512, 768, 1024]"

definition test_keys :: "int list" where
  "test_keys = [34, 5, 12, 15, 71, 45, 2, 33, 3, 83, 61, 43, 11, 21, 22, 9]"

definition node_lt :: "(addr \<Rightarrow> int) \<Rightarrow> addr \<Rightarrow> addr \<Rightarrow> bool" where
  "node_lt i a b \<longleftrightarrow> i a < i b"

text \<open>The body of the loop; the integer of a node is stored before the node enters the tree.\<close>

definition insert_node :: "(addr \<Rightarrow> int) \<Rightarrow> addr \<Rightarrow> rb_tree \<Rightarrow> rb_tree option" where
  "insert_node i n t = do {
     t \<leftarrow> rb_tree_insert (node_lt i) n t;
     rb_tree_insert_case (Some n) t
   }"

text \<open>
  \<open>nodes\<close> is what the block holds when it is taken; \<open>sizeof(node)\<close> is 40 and that of a tree 8.
  The result is what is printed before and after the deletion.
\<close>

definition rb_tree_test :: "(addr \<Rightarrow> rb_node) \<Rightarrow> mem \<Rightarrow> (token list \<times> token list \<times> mem) option" where
  "rb_tree_test nodes s = do {
     (pool, s) \<leftarrow> memp_new rb_test_sizes 13 s;
     let n = length test_keys;
     (ns, s) \<leftarrow> memp_alloc pool (40 * of_nat n) s;
     (tree, s) \<leftarrow> memp_alloc pool 8 s;
     _ \<leftarrow> tree;
     let t = \<lparr>rb_mem = (\<lambda>a. if ns \<noteq> None \<and> a < n then Some (nodes a) else None), rb_root = None\<rparr>;
     t \<leftarrow> foldM (insert_node (nth test_keys)) [0..<n] t;
     before \<leftarrow> rb_tree_print (nth test_keys) (rb_root t) t;
     t \<leftarrow> rb_tree_delete (Some 5) t;
     after \<leftarrow> rb_tree_print (nth test_keys) (rb_root t) t;
     s \<leftarrow> memp_recycle tree s;
     s \<leftarrow> memp_recycle ns s;
     s \<leftarrow> memp_destroy pool s;
     Some (before, after, s)
   }"

subsection \<open>Printing\<close>

fun shown :: "(addr \<Rightarrow> int) \<Rightarrow> ptr \<Rightarrow> rbt \<Rightarrow> token list" where
  "shown i fa Leaf = []"
| "shown i fa (Node c l a r) = Brace_Open # shown i (Some a) l @ Entry c (i a) a fa # shown i (Some a) r @ [Brace_Close]"

lemma print_shown: "is_tree (rb_mem t) fa T \<Longrightarrow> T \<noteq> Leaf \<Longrightarrow> rb_tree_print i (root_ptr T) t = Some (shown i fa T)"
proof (induction T arbitrary: fa)
  case (Node c l a r)
  have "l \<noteq> Leaf \<Longrightarrow> rb_tree_print i (root_ptr l) t = Some (shown i (Some a) l)" "root_ptr l = None \<longleftrightarrow> l = Leaf"
    "r \<noteq> Leaf \<Longrightarrow> rb_tree_print i (root_ptr r) t = Some (shown i (Some a) r)" "root_ptr r = None \<longleftrightarrow> r = Leaf"
    using Node by (auto elim: root_ptr.elims)
  with Node.prems(1) show ?case
    by (subst rb_tree_print.simps) (auto simp: rb_get_def split: option.splits)
qed simp

definition printed_keys :: "token list \<Rightarrow> int list" where
  "printed_keys ts = concat (map (\<lambda>t. case t of Entry c k a p \<Rightarrow> [k] | _ \<Rightarrow> []) ts)"

lemma keys_shown [simp]: "printed_keys (shown i fa T) = map i (addrs T)"
  by (induction T arbitrary: fa) (simp_all add: printed_keys_def)

lemma print_tree:
  assumes "rb_is m0 t T"
  shows "\<exists>ts. rb_tree_print i (rb_root t) t = Some ts \<and> printed_keys ts = map i (addrs T)"
proof (cases "T = Leaf")
  case True
  then have "rb_root t = None" using assms by (simp add: focus_def)
  with True show ?thesis by (subst rb_tree_print.simps) (simp add: printed_keys_def)
next
  case False
  have "is_tree (rb_mem t) None T" "rb_root t = root_ptr T" using assms by (simp_all add: focus_def)
  with print_shown [OF this(1) False] show ?thesis by simp
qed

subsection \<open>Insertion of all nodes\<close>

lemma mset_ins_after: "mset (ins_after key n xs) = add_mset n (mset xs)"
  by (induction xs) auto

lemma insert_all:
  assumes "rb_is m0 t T" and "rb_valid T" and "sorted (map i (addrs T))" and "distinct ns" and "set ns \<inter> set (addrs T) = {}"
    and "\<And>n. n \<in> set ns \<Longrightarrow> m0 n \<noteq> None"
  shows "\<exists>t' T'. foldM (insert_node i) ns t = Some t' \<and> rb_is m0 t' T' \<and> rb_valid T' \<and> sorted (map i (addrs T'))
    \<and> mset (addrs T') = mset ns + mset (addrs T)"
  using assms
proof (induction ns arbitrary: t T)
  case (Cons n ns)
  have n: "n \<notin> set (addrs T)" "m0 n \<noteq> None" using Cons.prems by auto
  then have "rb_mem t n \<noteq> None" using Cons.prems(1) by (simp add: focus_def)
  from rb_insert_correct [OF Cons.prems(1-3) n(1) this] obtain t1 t2 T' where
    ins: "rb_tree_insert (\<lambda>x a. i x < i a) n t = Some t1" "rb_tree_insert_case (Some n) t1 = Some t2"
    "rb_is m0 t2 T'" "rb_valid T'" "addrs T' = ins_after i n (addrs T)" by blast
  have "insert_node i n t = Some t2" using ins(1,2) by (simp add: insert_node_def node_lt_def [abs_def])
  moreover have "sorted (map i (addrs T'))" using ins(5) sorted_ins_after [OF Cons.prems(3)] by simp
  moreover have "set ns \<inter> set (addrs T') = {}" using Cons.prems(4,5) ins(5) by auto
  ultimately show ?case using Cons.IH [OF ins(3,4)] Cons.prems(4,6) ins(5) by (auto simp: mset_ins_after)
qed auto


subsection \<open>The test\<close>

text \<open>The tree part: the first nodes enter an empty tree, one of them leaves it.\<close>

lemma insert_and_delete:
  assumes "\<And>n. n < k \<Longrightarrow> m0 n \<noteq> None" and "d < k"
  shows "\<exists>t before t' after. foldM (insert_node i) [0..<k] \<lparr>rb_mem = m0, rb_root = None\<rparr> = Some t
    \<and> rb_tree_print i (rb_root t) t = Some before \<and> rb_tree_delete (Some d) t = Some t'
    \<and> rb_tree_print i (rb_root t') t' = Some after
    \<and> printed_keys before = sort (map i [0..<k]) \<and> printed_keys after = sort (map i (remove1 d [0..<k]))"
proof -
  have "rb_is m0 \<lparr>rb_mem = m0, rb_root = None\<rparr> Leaf" "rb_valid Leaf" by (simp_all add: focus_def rb_valid_def)
  from insert_all [OF this, of i "[0..<k]"] assms(1) obtain t T where
    t: "foldM (insert_node i) [0..<k] \<lparr>rb_mem = m0, rb_root = None\<rparr> = Some t" "rb_is m0 t T" "rb_valid T"
      "sorted (map i (addrs T))" "mset (addrs T) = mset [0..<k]"
    by auto
  have "d \<in> set (addrs T)" using assms(2) by (metis t(5) atLeast0LessThan atLeastLessThan_upt lessThan_iff mset_eq_setD)
  then obtain t' T' where t': "rb_tree_delete (Some d) t = Some t'" "rb_is (forget d m0 t') t' T'" "addrs T' = remove1 d (addrs T)"
    by (rule rb_delete_correct [OF t(2,3)])
  obtain before after where p: "rb_tree_print i (rb_root t) t = Some before" "printed_keys before = map i (addrs T)"
      "rb_tree_print i (rb_root t') t' = Some after" "printed_keys after = map i (addrs T')"
    using print_tree [OF t(2)] print_tree [OF t'(2)] by blast
  have "sort (map i [0..<k]) = map i (addrs T)" by (rule properties_for_sort) (simp only: mset_map t(5), rule t(4))
  moreover have "sort (map i (remove1 d [0..<k])) = map i (addrs T')"
  proof (rule properties_for_sort)
    show "mset (map i (addrs T')) = mset (map i (remove1 d [0..<k]))" using t(5) t'(3) by simp
    show "sorted (map i (addrs T'))" unfolding t'(3) using t(4) by (rule sorted_map_remove1)
  qed
  ultimately show ?thesis using t(1) t'(1) p by metis
qed

lemma rb_test_sizes_ok: "rb_test_sizes \<noteq> []" "length rb_test_sizes \<le> 255" "x \<in> set rb_test_sizes \<Longrightarrow> unat x < 2 ^ 64 - 8"
  by (auto simp: rb_test_sizes_def)

lemma rb_tree_test_correct:
  assumes "calm s"
  shows "\<exists>before after s'. rb_tree_test nodes s = Some (before, after, s') \<and> printed_keys before = sort test_keys
    \<and> printed_keys after = sort (remove1 45 test_keys) \<and> blks s' = blks s \<and> pools s' = (pools s)(brk s := None)"
proof -
  have quiet: "fresh_ok (brk s) (blks s)" "owned (brk s) UNIV (blks s) = {}" "\<And>k. \<not> oom s k" using assms by (simp_all add: calm_def)
  have x: "(640 :: size_t) \<noteq> 0" "768 \<in> set rb_test_sizes" "(640 :: size_t) \<le> 768"
    and y: "(8 :: size_t) \<noteq> 0" "8 \<in> set rb_test_sizes" "(8 :: size_t) \<le> 8" by (simp_all add: rb_test_sizes_def)
  have n: "length test_keys = 16" "(40 :: size_t) * of_nat 16 = 640" "length rb_test_sizes = 13" by (simp_all add: test_keys_def rb_test_sizes_def)
  obtain t before t' after where tree: "foldM (insert_node (nth test_keys)) [0..<16] \<lparr>rb_mem = (\<lambda>a. if a < 16 then Some (nodes a) else None), rb_root = None\<rparr> = Some t"
    "rb_tree_print (nth test_keys) (rb_root t) t = Some before" "rb_tree_delete (Some 5) t = Some t'"
    "rb_tree_print (nth test_keys) (rb_root t') t' = Some after"
    "printed_keys before = sort (map (nth test_keys) [0..<16])" "printed_keys after = sort (map (nth test_keys) (remove1 5 [0..<16]))"
    using insert_and_delete [of 16 "\<lambda>a. if a < 16 then Some (nodes a) else None" 5 "nth test_keys"] by auto
  have keys: "map (nth test_keys) [0..<16] = test_keys" "map (nth test_keys) (remove1 5 [0..<16]) = remove1 45 test_keys"
    by (simp_all add: test_keys_def upt_rec)
  show ?thesis
  proof (rule two_blocks [OF rb_test_sizes_ok quiet x y])
    fix a b i s1 s2 s3 s4 s5 s6
    assume "memp_new rb_test_sizes (of_nat (length rb_test_sizes)) s = Some (Some (brk s), s1)"
        "memp_alloc (Some (brk s)) 640 s1 = Some (Some a, s2)" "memp_alloc (Some (brk s)) 8 s2 = Some (Some b, s3)"
        "memp_recycle (Some b) s3 = Some s4" "memp_recycle (Some a) s4 = Some s5" "memp_destroy (Some (brk s)) s5 = Some s6"
        "blks s6 = blks s" "pools s6 = (pools s)(brk s := None)"
    with tree show ?thesis by (simp add: rb_tree_test_def n keys Let_def)
  qed
qed

subsection \<open>The property\<close>

text \<open>On any heap that does not run out of memory, whatever the block listed before, the test never reads or
  writes outside an object: it prints the sixteen integers in order, then the fifteen others once 45 has been
  deleted, and leaves every block as it found it.\<close>

theorem rb_tree_test_prints:
  assumes "calm s"
  shows "\<exists>before after s'. rb_tree_test nodes s = Some (before, after, s') \<and> printed_keys before = sort test_keys
    \<and> printed_keys after = sort (remove1 45 test_keys) \<and> blks s' = blks s \<and> pools s' = (pools s)(brk s := None)"
  by (rule rb_tree_test_correct [OF assms])

lemma no_mem_quiet: "calm no_mem"
  using no_mem_clean by (simp add: calm_def) (simp add: no_mem_def)

theorem rb_tree_test_prints_witness:
  "\<exists>before after s'. rb_tree_test (\<lambda>_. \<lparr>rn_parent = Some 7, rn_left = Some 9, rn_right = None, rn_color = Black\<rparr>) no_mem = Some (before, after, s')
    \<and> printed_keys before = [2, 3, 5, 9, 11, 12, 15, 21, 22, 33, 34, 43, 45, 61, 71, 83]
    \<and> printed_keys after = [2, 3, 5, 9, 11, 12, 15, 21, 22, 33, 34, 43, 61, 71, 83] \<and> blks s' = blks no_mem"
proof -
  have "sort test_keys = [2, 3, 5, 9, 11, 12, 15, 21, 22, 33, 34, 43, 45, 61, 71, 83]"
    "sort (remove1 45 test_keys) = [2, 3, 5, 9, 11, 12, 15, 21, 22, 33, 34, 43, 61, 71, 83]" by code_simp+
  with rb_tree_test_prints [OF no_mem_quiet] show ?thesis by metis
qed

end
