(* ===== verification/Worker_End.thy ===== *)
theory Worker_End
  imports Sock_Life Pconf
begin

text \<open>
  The worker process as a whole, \<open>process\<close> of \<^verbatim>\<open>src/c/src/mw_worker.c\<close> from its start to its
  end: what its loop keeps, what the end does with the threads that still wait, and with
  those that ended in the last turn.
\<close>

subsection \<open>Definitions\<close>

text \<open>
  The handler of \<open>SIGINT\<close>: the new value of \<open>keep_running\<close>. In single mode \<open>process\<close> installs
  it; \<open>keep_running\<close> is the flag as the outside world shows it. \<open>conf\<close> is the configuration; an
  integer of it that has no value is undefined.
\<close>

definition init_handler :: "int \<Rightarrow> int" where
  "init_handler dummy = 0"

definition worker_main ::
  "'x env \<Rightarrow> 'v lua_vals \<Rightarrow> 'v \<Rightarrow> ('x \<Rightarrow> int \<times> 'x) \<Rightarrow> (ptr \<Rightarrow> 'x worker \<Rightarrow> 'x worker option) \<Rightarrow> ('x worker \<Rightarrow> 'x worker option)
   \<Rightarrow> ('x \<Rightarrow> bool) \<Rightarrow> addr \<Rightarrow> addr \<Rightarrow> int \<Rightarrow> bool \<Rightarrow> 'x worker \<Rightarrow> 'x worker option" where
  "worker_main en lv conf create lua_start lua_close keep_running io sl cfd single_mode k = do {
     conn_timeout \<leftarrow> get_cnf_int_val lv conf [''conn_timeout''];
     (cx, k) \<leftarrow> process_start en create lua_start io sl cfd conn_timeout k;
     k \<leftarrow> process_loop keep_running en cx single_mode k;
     process_end en lua_close cx k
   }"

definition worker_process where
  "worker_process en lv conf create lua_start lua_close keep_running io sl channel_fd k =
     worker_main en lv conf create lua_start lua_close keep_running io sl channel_fd False k"

definition test_worker_process where
  "test_worker_process en lv conf create lua_start lua_close keep_running io sl fd k =
     worker_main en lv conf create lua_start lua_close keep_running io sl fd True k"

subsection \<open>The loop keeps the invariant\<close>

lemma turn_keeps:
  assumes "lua_keeps en mp" and "cx_mem_pool cx = Some mp" and "core_ok UNIV mp {} k" and "process_turn en cx single_mode k = Some k'"
  shows "core_ok UNIV mp {} k'"
proof -
  obtain k1 k2 k3 where k: "process_io en cx single_mode (k\<lparr>wk_stop := (wk_stop k)\<lparr>ta_n := 0\<rparr>\<rparr>) = Some k1"
    "process_io_timeout en cx k1 = Some k2" "process_sleep en cx k2 = Some k3"
    using assms(4) by (auto simp: process_turn_def Let_def bind_eq_Some_conv)
  have "cx_stop_threads cx \<noteq> None" using assms(4) by (cases "cx_stop_threads cx") (simp_all add: process_turn_def)
  with assms(4) show ?thesis by (auto intro: turn_ok [OF assms(1-3) k])
qed

lemma loop_keeps:
  assumes "process_loop keep_running en cx single_mode k = Some k'" and "lua_keeps en mp" and "cx_mem_pool cx = Some mp"
    and "core_ok UNIV mp {} k"
  shows "core_ok UNIV mp {} k' \<and> \<not> keep_running (w_ext (wk_world k'))"
proof -
  let ?P = "\<lambda>keep_running en cx (single_mode :: bool) k k'. lua_keeps en mp \<longrightarrow> cx_mem_pool cx = Some mp \<longrightarrow> core_ok UNIV mp {} k
    \<longrightarrow> core_ok UNIV mp {} k' \<and> \<not> keep_running (w_ext (wk_world k'))"
  have "?P keep_running en cx single_mode k k'"
    by (rule process_loop.raw_induct [of ?P, OF _ assms(1)])
      (clarsimp simp: bind_eq_Some_conv split: if_splits, blast dest: turn_keeps)
  with assms show ?thesis by blast
qed

subsection \<open>Threads that ended in the last turn\<close>

lemma free_again: "w_ths (wk_world k) a = None \<Longrightarrow> free_thread en a k = None"
  by (simp add: free_thread_def wk_thread_def)

lemma stop_threads_again:
  assumes "worker_ok mp ys k" and "ys \<noteq> []" and "calls_keep en mp" and "process_stop_threads en cx k = Some k'"
  shows "process_stop_threads en cx k' = None"
proof -
  have cx: "cx_stop_threads cx \<noteq> None" using assms(4) by (cases "cx_stop_threads cx") (simp_all add: process_stop_threads_def)
  have "wk_stop k' = wk_stop k \<and> only_gone (set ys) k k'"
    using process_stop_threads_ok [OF assms(1,3) cx] assms(4) by auto
  moreover have "hd ys \<in> set ys" using assms(2) by simp
  ultimately have k': "wk_stop k' = wk_stop k" "w_ths (wk_world k') (hd ys) = None" using only_gone_None [of "set ys" k k'] by simp_all
  obtain y zs where ys: "ys = y # zs" using assms(2) by (cases ys) auto
  have stop: "ta_n (wk_stop k) = length ys" "take (length ys) (ta_ths (wk_stop k)) = map Some ys"
    using assms(1) by (simp_all add: worker_ok_def stop_ok_def)
  then obtain ths where "ta_ths (wk_stop k) = Some y # ths" using ys by (cases "ta_ths (wk_stop k)") auto
  then have "arr_get (ta_ths (wk_stop k')) 0 = Some (Some y)" using k'(1) by simp
  moreover have "[0..<ta_n (wk_stop k')] = 0 # [1..<length ys]" using k'(1) stop(1) ys by (simp add: upt_conv_Cons del: upt_Suc)
  ultimately show ?thesis using k'(2) ys free_again [of k' y en] cx by (auto simp: process_stop_threads_def)
qed

lemma end_after_stop:
  assumes "lua_keeps en mp" and "cx_mem_pool cx = Some mp" and "core_ok UNIV mp {} k"
    and "process_io en cx single_mode (k\<lparr>wk_stop := (wk_stop k)\<lparr>ta_n := 0\<rparr>\<rparr>) = Some k1"
    and "process_io_timeout en cx k1 = Some k2" and "process_sleep en cx k2 = Some k3" and "stopped (wk_world k3) \<noteq> {}"
  shows "\<exists>k'. process_turn en cx single_mode k = Some k' \<and> process_end en lua_close cx k' = None"
proof (rule turn_ok [OF assms(1-6)])
  fix ys assume ys: "worker_ok mp ys k3" "cx_stop_threads cx = None \<longrightarrow> ys = []"
    and turn: "cx_stop_threads cx \<noteq> None \<Longrightarrow> \<exists>k'. process_turn en cx single_mode k = Some k' \<and> core_ok UNIV mp {} k'
      \<and> only_gone (set ys) k3 k' \<and> (only_gives en mp \<longrightarrow> live mp k' \<subseteq> live mp k3 - set ys)"
  have "ys \<noteq> []" using ys(1) assms(7) by (auto simp: worker_ok_def)
  with ys(2) turn obtain k' where k': "process_turn en cx single_mode k = Some k'" "cx_stop_threads cx \<noteq> None" by auto
  then have stop: "process_stop_threads en cx k3 = Some k'" using assms(4-6) by (auto simp: process_turn_def)
  have "calls_keep en mp" using assms(1) by (simp add: lua_keeps_def)
  from stop_threads_again [OF ys(1) \<open>ys \<noteq> []\<close> this stop] k'(1) show ?thesis by (simp add: process_end_def)
qed


subsection \<open>Threads that still wait\<close>

text \<open>
  The two blocks of the process itself: \<open>st\<close> is the array of stopped threads, \<open>cfd\<close> the resource of
  the listening socket, which is in no thread's list.
\<close>

definition own_blocks :: "addr \<Rightarrow> addr \<Rightarrow> addr \<Rightarrow> 'x worker \<Rightarrow> bool" where
  "own_blocks st cfd mp k \<longleftrightarrow> st \<in> live mp k \<and> st \<notin> dom (w_ths (wk_world k)) \<union> dom (w_res (wk_world k))
     \<and> cfd \<in> dom (w_res (wk_world k))
     \<and> (\<forall>a t rs. w_ths (wk_world k) a = Some t \<longrightarrow> owns (wk_world k) t rs \<longrightarrow> cfd \<notin> set rs)"

text \<open>The calls of Lua leave them alone.\<close>

definition calls_spare :: "'x env \<Rightarrow> addr \<Rightarrow> addr \<Rightarrow> addr \<Rightarrow> bool" where
  "calls_spare en mp st cfd \<longleftrightarrow> (\<forall>c k. core_ok UNIV mp {} k \<longrightarrow> own_blocks st cfd mp k \<longrightarrow> own_blocks st cfd mp (lua_work en c k))"

lemma owns_unique: "owns w t rs \<Longrightarrow> owns w t rs' \<Longrightarrow> rs = rs'"
  by (auto simp: owns_def dest: is_dlist_unique)

lemma own_blocks_freed:
  assumes core: "core_ok UNIV mp S k" and own: "own_blocks st cfd mp k"
    and t: "w_ths (wk_world k) a = Some t" "owns (wk_world k) t rs" "th_mfd_res t = Some m"
    and k': "live mp k' = live mp k - {m, a}" "w_ths (wk_world k') = (w_ths (wk_world k))(a := None)"
      "w_res (wk_world k') = (orphaned (w_res (wk_world k)) (set rs))(m := None)"
  shows "own_blocks st cfd mp k'"
proof -
  let ?w = "wk_world k" and ?w' = "wk_world k'"
  obtain R where R: "\<And>b u. w_ths ?w b = Some u \<Longrightarrow> owns ?w u (R b)"
    "\<And>b c. b \<in> dom (w_ths ?w) \<Longrightarrow> c \<in> dom (w_ths ?w) \<Longrightarrow> b \<noteq> c \<Longrightarrow> set (R b) \<inter> set (R c) = {}"
    using core unfolding core_ok_def owners_ok_def by (elim conjE exE) (rule that, blast+)
  have rs: "rs = R a" by (rule owns_unique [OF t(2) R(1) [OF t(1)]])
  have m: "m \<in> set rs" "set rs \<subseteq> dom (w_res ?w)" using t(2,3) is_dlist_in_dom [of "w_res ?w" "th_resl t" rs] by (simp_all add: owns_def)
  have cfd: "cfd \<noteq> m" using own t(1,2) m(1) by (auto simp: own_blocks_def)
  have st: "st \<noteq> m" "st \<noteq> a" using own t(1) m by (auto simp: own_blocks_def)
  have "cfd \<notin> set rs'" if u: "w_ths ?w' b = Some u" and o: "owns ?w' u rs'" for b u rs'
  proof -
    from u k'(2) have b: "b \<noteq> a" "w_ths ?w b = Some u" by (auto split: if_splits)
    then have ob: "owns ?w u (R b)" by (intro R(1))
    have "m \<notin> set (R b)" using R(2) [of b a] b t(1) m(1) rs by auto
    then have "dseg (w_res ?w') None (R b) None = dseg (orphaned (w_res ?w) (set rs)) None (R b) None"
      unfolding k'(3) by simp
    moreover have links: "map_option link_view (orphaned h A c) = map_option link_view (h c)" for h A c
      by (cases "h c") (simp_all add: orphaned_def link_view_def)
    have "dseg (w_res ?w) None (R b) None" using ob by (simp add: owns_def is_dlist_def)
    then have "dseg (orphaned (w_res ?w) (set rs)) None (R b) None" by (rule dseg_links [OF links])
    ultimately have "owns ?w' u (R b)" using ob by (simp add: owns_def is_dlist_def)
    then have "rs' = R b" using o by (rule owns_unique [symmetric])
    with own b(2) ob show ?thesis by (auto simp: own_blocks_def)
  qed
  moreover have "dom (w_res ?w') = dom (w_res ?w) - {m}" unfolding k'(3) by (auto simp: orphaned_def split: if_splits)
  ultimately show ?thesis using own cfd st k'(1,2) by (auto simp: own_blocks_def)
qed

text \<open>
  While the threads \<open>xs\<close> of the tree \<open>A\<close> are still to be freed: the others of \<open>A\<close> are gone, the
  blocks of the process are still in use, and no node outside \<open>A\<close> was touched.
\<close>

definition to_free :: "addr \<Rightarrow> addr \<Rightarrow> addr \<Rightarrow> addr set \<Rightarrow> 'x worker \<Rightarrow> addr list \<Rightarrow> rb_tree \<times> 'x worker \<Rightarrow> bool" where
  "to_free mp st cfd A k0 xs tk = (case tk of (t, k) \<Rightarrow> A \<subseteq> dom (w_ths (wk_world k0))
     \<and> core_ok UNIV mp {} k \<and> distinct xs \<and> set xs \<subseteq> A \<and> only_gone (A - set xs) k0 k \<and> own_blocks st cfd mp k
     \<and> w_pools (wk_world k) = w_pools (wk_world k0) \<and> (\<forall>b. b \<notin> A \<longrightarrow> rb_mem t b = w_nodes (wk_world k0) b))"

text \<open>The callback, as \<open>travel_threads\<close> runs it on the nodes.\<close>

definition free_node :: "'x env \<Rightarrow> addr \<Rightarrow> rb_tree \<times> 'x worker \<Rightarrow> (rb_tree \<times> 'x worker) option" where
  "free_node en a tk = (case tk of (t, k) \<Rightarrow> map_option (\<lambda>k. (\<lparr>rb_mem = w_nodes (wk_world k), rb_root = rb_root t\<rparr>, k))
     (r_thread_from_pool en a (k\<lparr>wk_world := (wk_world k)\<lparr>w_nodes := rb_mem t\<rparr>\<rparr>)))"

lemma free_node_law:
  assumes calls: "calls_keep en mp" "calls_spare en mp st cfd" and todo: "to_free mp st cfd A k0 (a # xs) (t, k)"
  shows "\<exists>t' k'. free_node en a (t, k) = Some (t', k') \<and> to_free mp st cfd A k0 xs (t', k') \<and> (\<forall>b\<in>set xs. rb_mem t' b = rb_mem t b)"
proof -
  let ?k = "k\<lparr>wk_world := (wk_world k)\<lparr>w_nodes := rb_mem t\<rparr>\<rparr>"
  have A: "A \<subseteq> dom (w_ths (wk_world k0))" using todo by (simp add: to_free_def)
  have core: "core_ok UNIV mp {} ?k" using todo quiet_core [OF nodes_quiet] by (auto simp: to_free_def)
  have own: "own_blocks st cfd mp ?k" using todo by (simp add: to_free_def own_blocks_def owns_def)
  have a: "a \<in> A" "a \<notin> set xs" "set xs \<subseteq> A" "distinct xs" using todo by (auto simp: to_free_def)
  have gone: "only_gone (A - set (a # xs)) k0 ?k" using todo by (simp add: to_free_def only_gone_def)
  obtain th0 where th0: "w_ths (wk_world k0) a = Some th0" using A a(1) by blast
  obtain th where th: "w_ths (wk_world ?k) a = Some th" by (rule only_gone_thread [OF gone th0]) (use a in auto)
  obtain m k1 k' t1 rs where k1: "k1 = lua_work en (LC_Unref (th_T th) (th_tid th)) ?k" and k': "free_thread en a ?k = Some k'"
    "core_ok UNIV mp ({} - {a}) k'" "wk_stop k' = wk_stop ?k" "live mp k' = live mp k1 - {m, a}" "lua_frame ?k k1"
    "w_ths (wk_world k') = (w_ths (wk_world k1))(a := None)" "w_pools (wk_world k') = w_pools (wk_world ?k)"
    "w_nodes (wk_world k') = (w_nodes (wk_world ?k))(a := None)"
    and t1: "core_ok UNIV mp {} k1" "w_ths (wk_world k1) a = Some t1" "owns (wk_world k1) t1 rs" "th_mfd_res t1 = Some m"
    "w_res (wk_world k') = (orphaned (w_res (wk_world k1)) (set rs))(m := None)"
    by (rule free_thread_keeps [OF calls(1) core th]) (rule that)
  have "own_blocks st cfd mp k1" unfolding k1 using calls(2) core own by (simp add: calls_spare_def)
  from own_blocks_freed [OF t1(1) this t1(2-4) k'(4,6) t1(5)] have "own_blocks st cfd mp k'" .
  moreover have "A - set xs = insert a (A - set (a # xs))" using a by auto
  then have "only_gone (A - set xs) k0 k'" using only_gone_step [OF gone k'(5,6)] by simp
  moreover have "free_node en a (t, k) = Some (\<lparr>rb_mem = w_nodes (wk_world k'), rb_root = rb_root t\<rparr>, k')"
    using k'(1) by (simp add: free_node_def r_thread_from_pool_def)
  moreover have "w_pools (wk_world k') = w_pools (wk_world k)" "w_nodes (wk_world k') = (rb_mem t)(a := None)" using k'(7,8) by simp_all
  ultimately show ?thesis using k'(2) a todo
    by (intro exI [of _ "\<lparr>rb_mem = w_nodes (wk_world k'), rb_root = rb_root t\<rparr>"] exI [of _ k']) (auto simp: to_free_def)
qed

text \<open>A callback that also checks the contract of Lua, so that the traversal needs no condition.\<close>

definition freeing :: "'x env \<Rightarrow> addr \<Rightarrow> addr \<Rightarrow> addr \<Rightarrow> addr set \<Rightarrow> 'x worker \<Rightarrow> addr list \<Rightarrow> rb_tree \<times> 'x worker \<Rightarrow> bool" where
  "freeing en mp st cfd A k0 xs tk \<longleftrightarrow> calls_keep en mp \<and> calls_spare en mp st cfd \<and> to_free mp st cfd A k0 xs tk"

interpretation fr: traversal "free_node en" "freeing en mp st cfd A k0" for en mp st cfd A k0
proof
  show "\<exists>t' s'. free_node en a (t, s) = Some (t', s') \<and> freeing en mp st cfd A k0 xs (t', s') \<and> (\<forall>b\<in>set xs. rb_mem t' b = rb_mem t b)"
    if "freeing en mp st cfd A k0 (a # xs) (t, s)" for a xs t s using that free_node_law [of en mp st cfd A k0 a xs t s] by (simp add: freeing_def)
  show "freeing en mp st cfd A k0 xs (t\<lparr>rb_mem := (rb_mem t)(b \<mapsto> nd)\<rparr>, s)" if "freeing en mp st cfd A k0 xs (t, s)" "b \<in> set xs" for xs t s b nd
    using that by (auto simp: freeing_def to_free_def)
qed

text \<open>A pool whose threads all exist.\<close>

definition pool_shape :: "'x world \<Rightarrow> addr \<Rightarrow> rbt \<Rightarrow> bool" where
  "pool_shape w p T \<longleftrightarrow> w_pools w p = Some (root_ptr T) \<and> is_tree (w_nodes w) None T \<and> distinct (addrs T)
     \<and> set (addrs T) \<subseteq> dom (w_ths w)"

lemma free_pool:
  assumes calls: "calls_keep en mp" "calls_spare en mp st cfd"
    and "core_ok UNIV mp {} k" and "pool_shape (wk_world k) p T" and "own_blocks st cfd mp k"
  shows "\<exists>k'. travel_threads (r_thread_from_pool en) (root_ptr T) k = Some k' \<and> core_ok UNIV mp {} k' \<and> own_blocks st cfd mp k'
    \<and> only_gone (set (addrs T)) k k'
    \<and> w_pools (wk_world k') = w_pools (wk_world k) \<and> (\<forall>b. b \<notin> set (addrs T) \<longrightarrow> w_nodes (wk_world k') b = w_nodes (wk_world k) b)"
proof -
  let ?A = "set (addrs T)"
  have A: "?A \<subseteq> dom (w_ths (wk_world k))" using assms(4) by (simp add: pool_shape_def)
  have tree: "is_tree (rb_mem \<lparr>rb_mem = w_nodes (wk_world k), rb_root = None\<rparr>) None T" and dist: "distinct (addrs T)"
    using assms(4) by (simp_all add: pool_shape_def)
  have "freeing en mp st cfd ?A k (postorder T) (\<lparr>rb_mem = w_nodes (wk_world k), rb_root = None\<rparr>, k)"
    using assms A dist by (simp add: freeing_def to_free_def only_gone_def)
  from fr.visits_all [OF tree dist this] obtain t' k' where
    run: "postorder_loop (free_node en) (root_ptr T) (\<lparr>rb_mem = w_nodes (wk_world k), rb_root = None\<rparr>, k) = Some (t', k')"
    and todo: "to_free mp st cfd ?A k [] (t', k')" by (auto simp: freeing_def)
  let ?k = "k'\<lparr>wk_world := (wk_world k')\<lparr>w_nodes := rb_mem t'\<rparr>\<rparr>"
  have "travel_threads (r_thread_from_pool en) (root_ptr T) k = Some ?k"
    using run by (simp add: travel_threads_def free_node_def [abs_def] case_prod_unfold)
  moreover have "core_ok UNIV mp {} ?k" using todo quiet_core [OF nodes_quiet] by (auto simp: to_free_def)
  moreover have "own_blocks st cfd mp ?k" "only_gone ?A k ?k"
    using todo by (simp_all add: to_free_def own_blocks_def owns_def only_gone_def)
  ultimately show ?thesis using todo by (intro exI [of _ ?k]) (simp add: to_free_def)
qed


subsection \<open>The end of the process\<close>

text \<open>What \<open>process\<close> does after its loop until it closes Lua.\<close>

definition end_threads :: "'x env \<Rightarrow> worker_ctx \<Rightarrow> 'x worker \<Rightarrow> 'x worker option" where
  "end_threads en cx k = do {
     k \<leftarrow> process_stop_threads en cx k;
     k \<leftarrow> recycle_threads_from_pool en cx k;
     m \<leftarrow> memp_recycle (cx_stop_threads cx) (wk_mem k);
     recycle_res (Some (cx_cfd_res cx)) (k\<lparr>wk_mem := m\<rparr>)
   }"

lemma process_end_split:
  "process_end en lua_close cx k = do {
     k \<leftarrow> end_threads en cx k;
     k \<leftarrow> lua_close k;
     m \<leftarrow> memp_destroy (cx_mem_pool cx) (wk_mem k);
     Some (k\<lparr>wk_mem := m\<rparr>)
   }"
  by (simp add: process_end_def end_threads_def)

lemma recycle_gives:
  "pool_ok mp m \<Longrightarrow> a \<in> pool_live mp m \<Longrightarrow> \<exists>m'. memp_recycle (Some a) m = Some m' \<and> pool_ok mp m' \<and> pool_live mp m' = pool_live mp m - {a}"
  using mp.recycle_law [of mp m a] by blast

text \<open>The two blocks of the process are given back.\<close>

lemma own_given:
  assumes core: "core_ok UNIV mp {} k" and own: "own_blocks st cfd mp k"
  obtains m k1 where "memp_recycle (Some st) (wk_mem k) = Some m" "recycle_res (Some cfd) (k\<lparr>wk_mem := m\<rparr>) = Some k1"
    "core_ok UNIV mp {} k1" "w_ths (wk_world k1) = w_ths (wk_world k)" "w_res (wk_world k1) = (w_res (wk_world k))(cfd := None)"
proof -
  let ?w = "wk_world k"
  have blocks: "pool_ok mp (wk_mem k)" "dom (w_ths ?w) \<union> dom (w_res ?w) \<subseteq> live mp k" "dom (w_ths ?w) \<inter> dom (w_res ?w) = {}"
    using core by (auto simp: core_ok_def blocks_ok_def)
  have st: "st \<in> live mp k" "st \<notin> dom (w_ths ?w) \<union> dom (w_res ?w)" and cfd: "cfd \<in> dom (w_res ?w)" "cfd \<in> live mp k" "cfd \<noteq> st"
    using own blocks(2) by (auto simp: own_blocks_def)
  obtain m where m: "memp_recycle (Some st) (wk_mem k) = Some m" "pool_ok mp m" "pool_live mp m = live mp k - {st}"
    using recycle_gives [OF blocks(1) st(1)] by blast
  obtain m' where m': "memp_recycle (Some cfd) m = Some m'" "pool_ok mp m'" "pool_live mp m' = live mp k - {st} - {cfd}"
    using recycle_gives [OF m(2), of cfd] m(3) cfd by auto
  let ?w' = "?w\<lparr>w_res := (w_res ?w)(cfd := None)\<rparr>"
  let ?k = "k\<lparr>wk_mem := m', wk_world := ?w'\<rparr>"
  obtain R where R: "\<And>b u. w_ths ?w b = Some u \<Longrightarrow> owns ?w u (R b)"
    "\<forall>b\<in>dom (w_ths ?w). \<forall>c\<in>dom (w_ths ?w). b \<noteq> c \<longrightarrow> set (R b) \<inter> set (R c) = {}"
    using core unfolding core_ok_def owners_ok_def by auto
  have "owns ?w' u (R b)" if "w_ths ?w b = Some u" for b u
  proof -
    have "cfd \<notin> set (R b)" using own that R(1) [OF that] by (auto simp: own_blocks_def)
    with R(1) [OF that] show ?thesis by (simp add: owns_def is_dlist_def)
  qed
  with R(2) have "owners_ok UNIV ?w'" unfolding owners_ok_def by (intro exI [of _ R]) auto
  moreover have "blocks_ok mp ?k" using m'(2,3) blocks st(2) cfd by (auto simp: blocks_ok_def)
  moreover have "stopped ?w' = {}" using core by (simp add: core_ok_def stopped_def)
  ultimately have "core_ok UNIV mp {} ?k" by (simp add: core_ok_def)
  moreover have "recycle_res (Some cfd) (k\<lparr>wk_mem := m\<rparr>) = Some ?k" using m'(1) by (simp add: recycle_res_def)
  ultimately show thesis using m(1) by (intro that [of m ?k]) simp_all
qed

lemma only_gone_trans:
  "only_gone A k k1 \<Longrightarrow> only_gone B k1 k2 \<Longrightarrow> only_gone (A \<union> B) k k2"
  by (auto simp: only_gone_def)

lemma threads_end:
  assumes calls: "calls_keep en mp" "calls_spare en mp st (cx_cfd_res cx)" and core: "core_ok UNIV mp {} k"
    and cx: "cx_stop_threads cx = Some st" and none: "ta_n (wk_stop k) = 0"
    and io: "pool_shape (wk_world k) (cx_io_pool cx) T1" and sl: "pool_shape (wk_world k) (cx_sleep_pool cx) T2"
    and disj: "set (addrs T1) \<inter> set (addrs T2) = {}" and own: "own_blocks st (cx_cfd_res cx) mp k"
  obtains k1 where "end_threads en cx k = Some k1" "core_ok UNIV mp {} k1" "only_gone (set (addrs T1) \<union> set (addrs T2)) k k1"
proof -
  obtain k1 where k1: "travel_threads (r_thread_from_pool en) (root_ptr T1) k = Some k1" "core_ok UNIV mp {} k1"
    "own_blocks st (cx_cfd_res cx) mp k1" "only_gone (set (addrs T1)) k k1"
    "w_pools (wk_world k1) = w_pools (wk_world k)" "\<forall>b. b \<notin> set (addrs T1) \<longrightarrow> w_nodes (wk_world k1) b = w_nodes (wk_world k) b"
    using free_pool [OF calls core io own] by blast
  have "is_tree (w_nodes (wk_world k1)) None T2"
    by (rule is_tree_cong [THEN iffD2, where m1 = "w_nodes (wk_world k)"]) (use sl k1(6) disj in \<open>auto simp: pool_shape_def\<close>)
  moreover have "b \<in> dom (w_ths (wk_world k1))" if b: "b \<in> set (addrs T2)" for b
  proof -
    obtain t where t: "w_ths (wk_world k) b = Some t" using sl b by (auto simp: pool_shape_def)
    have "b \<notin> set (addrs T1)" using disj b by blast
    from only_gone_thread [OF k1(4) t this] show ?thesis by blast
  qed
  ultimately have sl1: "pool_shape (wk_world k1) (cx_sleep_pool cx) T2"
    using sl k1(5) by (auto simp: pool_shape_def)
  obtain k2 where k2: "travel_threads (r_thread_from_pool en) (root_ptr T2) k1 = Some k2" "core_ok UNIV mp {} k2"
    "own_blocks st (cx_cfd_res cx) mp k2" "only_gone (set (addrs T2)) k1 k2"
    using free_pool [OF calls k1(2) sl1 k1(3)] by blast
  obtain m k3 where k3: "memp_recycle (Some st) (wk_mem k2) = Some m" "recycle_res (Some (cx_cfd_res cx)) (k2\<lparr>wk_mem := m\<rparr>) = Some k3"
    "core_ok UNIV mp {} k3" "w_ths (wk_world k3) = w_ths (wk_world k2)"
    by (rule own_given [OF k2(2,3)]) blast
  have pools: "w_pools (wk_world k) (cx_io_pool cx) = Some (root_ptr T1)" "w_pools (wk_world k1) (cx_sleep_pool cx) = Some (root_ptr T2)"
    using io sl1 by (simp_all add: pool_shape_def)
  have "process_stop_threads en cx k = Some k" using none cx by (simp add: process_stop_threads_def)
  then have "end_threads en cx k = Some k3"
    using k1(1) k2(1) pools k3(1,2) cx by (simp add: end_threads_def recycle_threads_from_pool_def)
  moreover have "only_gone (set (addrs T1) \<union> set (addrs T2)) k k3"
    using only_gone_trans [OF k1(4) k2(4)] k3(4) by (simp add: only_gone_def)
  ultimately show thesis using that k3(3) by blast
qed

lemma destroy_ok:
  assumes "pool_ok mp m"
  shows "\<exists>m'. memp_destroy (Some mp) m = Some m' \<and> pools m' mp = None"
proof -
  obtain fl where fl: "memp_inv mp fl m" using assms by (auto simp: pool_ok_def)
  obtain pl where "pools m mp = Some pl" using memp_inv_pool [OF fl] by blast
  from memp_destroy_correct [OF fl this] show ?thesis by auto
qed


subsection \<open>The properties\<close>

text \<open>C5: the array of stopped threads is not emptied after \<open>process_stop_threads\<close>: when a thread ended in the last
  turn, the call after the loop frees it, and its connection, a second time, which is undefined.\<close>

theorem shutdown_frees_twice:
  assumes "lua_keeps en mp" and "cx_mem_pool cx = Some mp" and "core_ok UNIV mp {} k"
    and "process_io en cx single_mode (k\<lparr>wk_stop := (wk_stop k)\<lparr>ta_n := 0\<rparr>\<rparr>) = Some k1"
    and "process_io_timeout en cx k1 = Some k2" and "process_sleep en cx k2 = Some k3" and "stopped (wk_world k3) \<noteq> {}"
  shows "\<exists>k'. process_turn en cx single_mode k = Some k' \<and> process_end en lua_close cx k' = None"
  by (rule end_after_stop [OF assms])

theorem shutdown_frees_twice_witness:
  "\<exists>k'. process_turn life_env life_cx True life_worker = Some k' \<and> process_end life_env Some life_cx k' = None"
proof -
  let ?io = "process_io life_env life_cx True (life_worker\<lparr>wk_stop := (wk_stop life_worker)\<lparr>ta_n := 0\<rparr>\<rparr>)"
  have io: "\<not> Option.is_none ?io" by code_simp
  have to: "\<not> Option.is_none (process_io_timeout life_env life_cx (the ?io))" by code_simp
  have sl: "map_option (\<lambda>k. (ta_n (wk_stop k), map_option th_status (wk_thread 2 k)))
      (process_sleep life_env life_cx (the (process_io_timeout life_env life_cx (the ?io)))) = Some (1, Some TS_Stop)" by code_simp
  from io to sl obtain k1 k2 k3 where k: "?io = Some k1" "process_io_timeout life_env life_cx k1 = Some k2"
    "process_sleep life_env life_cx k2 = Some k3" "map_option th_status (wk_thread 2 k3) = Some TS_Stop" by (auto simp: Option.is_none_def)
  have "cx_mem_pool life_cx = Some 0" by (simp add: life_cx_def demo_cx_def)
  moreover have "stopped (wk_world k3) \<noteq> {}" using k(4) by (auto simp: stopped_def wk_thread_def)
  ultimately show ?thesis using shutdown_frees_twice [OF life_lua _ life_core k(1-3)] by blast
qed

text \<open>C4: the end of \<open>process\<close> when no thread ended in the last turn and the two pools are well-formed, as a
  premise: each is a tree of threads that all exist, and the two have no thread in common (the
  turns of the loop are not shown to keep this: \<open>asthread_th_to_stop\<close> clears the pool of a thread before
  it asks the thread to leave the pool, so that a thread stopped in a tree stays there). Then the
  steps up to \<open>lua_close\<close> never go wrong: every thread that waits in one of the two pools is freed
  once, with its resources, and the array and the resource of the listening socket are given back.
  Closing Lua may collect sockets, and so take resources, descriptors and blocks away: if in the
  state so reached it returns with the memory pool intact, the process ends with the pool given
  back.\<close>

theorem shutdown_frees_waiting:
  assumes "calls_keep en mp" and "calls_spare en mp st (cx_cfd_res cx)" and "core_ok UNIV mp {} k"
    and "cx_stop_threads cx = Some st" and "ta_n (wk_stop k) = 0"
    and "pool_shape (wk_world k) (cx_io_pool cx) T1" and "pool_shape (wk_world k) (cx_sleep_pool cx) T2"
    and "set (addrs T1) \<inter> set (addrs T2) = {}" and "own_blocks st (cx_cfd_res cx) mp k" and "cx_mem_pool cx = Some mp"
    and "\<And>k1. end_threads en cx k = Some k1 \<Longrightarrow> core_ok UNIV mp {} k1 \<Longrightarrow> only_gone (set (addrs T1) \<union> set (addrs T2)) k k1
      \<Longrightarrow> \<exists>k2. lua_close k1 = Some k2 \<and> pool_ok mp (wk_mem k2)"
  shows "\<exists>k1 k2 m. end_threads en cx k = Some k1 \<and> core_ok UNIV mp {} k1 \<and> only_gone (set (addrs T1) \<union> set (addrs T2)) k k1
    \<and> lua_close k1 = Some k2 \<and> process_end en lua_close cx k = Some (k2\<lparr>wk_mem := m\<rparr>) \<and> pools m mp = None"
proof -
  obtain k1 where k1: "end_threads en cx k = Some k1" "core_ok UNIV mp {} k1" "only_gone (set (addrs T1) \<union> set (addrs T2)) k k1"
    by (rule threads_end [OF assms(1-9)])
  obtain k2 where k2: "lua_close k1 = Some k2" "pool_ok mp (wk_mem k2)" using assms(11) [OF k1] by blast
  obtain m where m: "memp_destroy (Some mp) (wk_mem k2) = Some m" "pools m mp = None" using destroy_ok [OF k2(2)] by blast
  have "process_end en lua_close cx k = Some (k2\<lparr>wk_mem := m\<rparr>)" using k1(1) k2(1) m(1) assms(10) by (simp add: process_end_split)
  with k1 k2(1) m(2) show ?thesis by blast
qed

definition nap_env :: "(int list \<times> int list) env" where
  "nap_env = (demo_env accept_next log_close (LYield [LInt LAS_S_YIELD_FOR_SLEEP, LInt 50]))
     \<lparr>en_wait := (\<lambda>_ x. ([\<lparr>ev_events = EPOLLIN, ev_res = 1\<rparr>], x))\<rparr>"

definition nap_start :: "(worker_ctx \<times> (int list \<times> int list) worker) option" where
  "nap_start = process_start nap_env (\<lambda>x. (9, x)) (\<lambda>_ k. Some k) 10 11 8 30 (life_worker\<lparr>wk_mem := no_mem\<rparr>)"

definition nap_turn :: "(worker_ctx \<times> (int list \<times> int list) worker) option" where
  "nap_turn = do { (cx, k) \<leftarrow> nap_start; k \<leftarrow> process_turn nap_env cx True k; Some (cx, k) }"


lemma nap_lua: "lua_keeps nap_env mp"
  by (simp add: lua_keeps_def calls_keep_def nap_env_def demo_env_def)

lemma nap_run:
  obtains cx k where "nap_turn = Some (cx, k)" "core_ok UNIV 0 {} k" "cx_mem_pool cx = Some 0"
proof -
  have "k = on_ext (\<lambda>_. w_ext (wk_world k)) (k\<lparr>wk_mem := wk_mem k\<rparr>)" for k :: "(int list \<times> int list) worker"
    by (simp add: on_ext_def)
  then have boot: "lua_boots (\<lambda>_ k :: (int list \<times> int list) worker. Some k)"
    unfolding lua_boots_def using pool_run.refl by blast
  have k: "wk_mem (life_worker\<lparr>wk_mem := no_mem\<rparr>) = no_mem" "w_ths (wk_world (life_worker\<lparr>wk_mem := no_mem\<rparr>)) = (\<lambda>_. None)"
    "w_res (wk_world (life_worker\<lparr>wk_mem := no_mem\<rparr>)) = (\<lambda>_. None)" by (simp_all add: life_worker_def)
  have full: "\<forall>n. \<not> oom no_mem n" and brk: "brk no_mem = 0" by (simp_all add: no_mem_def)
  from process_start_ok [OF no_mem_clean(1,2) full k boot, of nap_env "\<lambda>x. (9, x)" 10 11 8 30] obtain cx k0 where
    k0: "nap_start = Some (cx, k0)" "cx_mem_pool cx = Some 0" "core_ok UNIV 0 {} k0" by (auto simp: nap_start_def brk)
  have "\<not> Option.is_none nap_turn" by code_simp
  moreover have "nap_turn = do { k \<leftarrow> process_turn nap_env cx True k0; Some (cx, k) }" unfolding nap_turn_def k0(1) by simp
  ultimately obtain k where k: "process_turn nap_env cx True k0 = Some k" by (cases "process_turn nap_env cx True k0") auto
  from turn_keeps [OF nap_lua k0(2,3) k] k0(1,2) k that show thesis unfolding nap_turn_def k0(1) by simp
qed

text \<open>The thread opens a socket of its own before it sleeps; \<open>lua_close\<close> collects it.\<close>

definition nap_open :: "(worker_ctx \<times> (int list \<times> int list) lua) option" where
  "nap_open = do {
     (cx, k) \<leftarrow> nap_turn;
     (_, s) \<leftarrow> lcf_socket_new nap_env cx (Some 3) ''h'' 80
       \<lparr>lu_wk = k, lu_socks = (\<lambda>_. None), lu_sends = (\<lambda>_. None), lu_tab = (\<lambda>_ _. None), lu_next = 0\<rparr>;
     Some (cx, s)
   }"

definition nap_close :: "(int list \<times> int list) lua \<Rightarrow> (int list \<times> int list) worker \<Rightarrow> (int list \<times> int list) worker option" where
  "nap_close s k = map_option (\<lambda>(_, s). lu_wk s) (lcf_socket_close nap_env 0 (s\<lparr>lu_wk := k\<rparr>))"

lemma core_lua_ok:
  assumes "core_ok UNIV mp S (lu_wk s)" and "lu_socks s = (\<lambda>_. None)"
  shows "lua_ok mp S s"
proof -
  obtain R where R: "\<forall>a t. w_ths (wk_world (lu_wk s)) a = Some t \<longrightarrow> owns (wk_world (lu_wk s)) t (R a)"
    "\<forall>a\<in>dom (w_ths (wk_world (lu_wk s))). \<forall>b\<in>dom (w_ths (wk_world (lu_wk s))). a \<noteq> b \<longrightarrow> set (R a) \<inter> set (R b) = {}"
    using assms(1) unfolding core_ok_def owners_ok_def by auto
  then have "lists_are R (wk_world (lu_wk s))" unfolding lists_are_def by blast
  moreover have "socks_ok R s" using assms(2) by (simp add: socks_ok_def custom_def)
  ultimately show ?thesis using assms(1) by (auto simp: lua_ok_def core_ok_def)
qed

lemma nap_threads_ok: "calls_keep nap_env mp" "calls_spare nap_env mp st cfd"
  by (simp_all add: calls_keep_def calls_spare_def nap_env_def demo_env_def)

lemma nap_connects: "make_client_socket (net.truncate nap_env) ''h'' (of_int 80) x = (3, x)"
  by (simp add: make_client_socket_def simple_bind_name_to_socket_def simple_connect_socket_def nap_env_def demo_env_def net.truncate_def)

lemma nap_opens:
  obtains cx s where "nap_open = Some (cx, s)" "lua_ok 0 {} s" "cx_mem_pool cx = Some 0"
proof (rule nap_run)
  fix cx k assume k: "nap_turn = Some (cx, k)" "core_ok UNIV 0 {} k" "cx_mem_pool cx = Some 0"
  let ?s = "\<lparr>lu_wk = k, lu_socks = (\<lambda>_. None), lu_sends = (\<lambda>_. None), lu_tab = (\<lambda>_ _. None), lu_next = 0\<rparr>"
  have ok: "lua_ok 0 {} ?s" by (rule core_lua_ok) (simp_all add: k(2))
  have "map_option (\<lambda>(cx, k). (map_option fst (alloc_res cx k), map_option th_tid (wk_thread 3 k))) nap_turn = Some (Some (Some 5), Some 1)"
    by code_simp
  then obtain k0 t where new: "alloc_res cx k = Some (Some 5, k0)" "wk_thread 3 k = Some t" unfolding k(1) by auto
  have wk: "lu_wk ?s = k" by simp
  have "(0 :: int) \<le> 3" by simp
  from socket_new_at [where s = ?s and en = nap_env, OF ok k(3), unfolded wk, OF new nap_connects this]
  obtain s' where s': "lcf_socket_new nap_env cx (Some 3) ''h'' 80 ?s = Some (LRet [LUd (lu_next ?s)], s')" "lua_ok 0 {} s'" by blast
  from s'(1) have "nap_open = Some (cx, s')" by (simp add: nap_open_def k(1))
  with s'(2) k(3) show thesis by (intro that)
qed

lemma nap_values:
  assumes "nap_open = Some (cx, s)"
  shows "cx_stop_threads cx = Some 2" "cx_cfd_res cx = 1" "cx_io_pool cx = 10" "cx_sleep_pool cx = 11" "ta_n (wk_stop (lu_wk s)) = 0"
    "brk (wk_mem (lu_wk s)) = 6" "lu_next s = 1" "w_pools (wk_world (lu_wk s)) 10 = Some None" "w_pools (wk_world (lu_wk s)) 11 = Some (Some 3)"
    "w_nodes (wk_world (lu_wk s)) 3 = Some (node_of None L Black None None)"
proof -
  have "map_option (\<lambda>(cx, s). ((cx_stop_threads cx, cx_cfd_res cx, cx_io_pool cx, cx_sleep_pool cx), ta_n (wk_stop (lu_wk s)),
      brk (wk_mem (lu_wk s)), lu_next s, (w_pools (wk_world (lu_wk s)) 10, w_pools (wk_world (lu_wk s)) 11), w_nodes (wk_world (lu_wk s)) 3)) nap_open
    = Some ((Some 2, 1, 10, 11), 0, 6, 1, (Some None, Some (Some 3)), Some (node_of None L Black None None))"
    by code_simp
  then show "cx_stop_threads cx = Some 2" "cx_cfd_res cx = 1" "cx_io_pool cx = 10" "cx_sleep_pool cx = 11" "ta_n (wk_stop (lu_wk s)) = 0"
    "brk (wk_mem (lu_wk s)) = 6" "lu_next s = 1" "w_pools (wk_world (lu_wk s)) 10 = Some None" "w_pools (wk_world (lu_wk s)) 11 = Some (Some 3)"
    "w_nodes (wk_world (lu_wk s)) 3 = Some (node_of None L Black None None)"
    unfolding assms by simp_all
qed

lemma nap_blocks:
  assumes "nap_open = Some (cx, s)"
  shows "list_all (\<lambda>a. a = 3 \<or> w_ths (wk_world (lu_wk s)) a = None) [0..<6]" "map_option d_p (blks (wk_mem (lu_wk s)) 2) = Some (Field 0 11)"
    "w_res (wk_world (lu_wk s)) 2 = None" "\<not> Option.is_none (w_res (wk_world (lu_wk s)) 1)"
    "map_option (\<lambda>t. (th_resl t, th_mfd_res t)) (w_ths (wk_world (lu_wk s)) 3) = Some (\<lparr>dl_head = Some 5, dl_tail = Some 4\<rparr>, Some 4)"
    "map_option link_view (w_res (wk_world (lu_wk s)) 5) = Some (Some 4, None)" "map_option link_view (w_res (wk_world (lu_wk s)) 4) = Some (None, Some 5)"
    "map_option rs_th (Option.bind (end_threads nap_env cx (lu_wk s)) (\<lambda>k. w_res (wk_world k) 5)) = Some None"
proof -
  have "map_option (\<lambda>(cx, s). (list_all (\<lambda>a. a = 3 \<or> Option.is_none (w_ths (wk_world (lu_wk s)) a)) [0..<6], map_option d_p (blks (wk_mem (lu_wk s)) 2),
      w_res (wk_world (lu_wk s)) 2, Option.is_none (w_res (wk_world (lu_wk s)) 1))) nap_open = Some (True, Some (Field 0 11), None, False)"
    by code_simp
  then show "list_all (\<lambda>a. a = 3 \<or> w_ths (wk_world (lu_wk s)) a = None) [0..<6]" "map_option d_p (blks (wk_mem (lu_wk s)) 2) = Some (Field 0 11)"
    "w_res (wk_world (lu_wk s)) 2 = None" "\<not> Option.is_none (w_res (wk_world (lu_wk s)) 1)"
    unfolding assms Option.is_none_def by simp_all
  have "map_option (\<lambda>(cx, s). (map_option (\<lambda>t. (th_resl t, th_mfd_res t)) (w_ths (wk_world (lu_wk s)) 3),
      map_option link_view (w_res (wk_world (lu_wk s)) 5), map_option link_view (w_res (wk_world (lu_wk s)) 4))) nap_open
    = Some (Some (\<lparr>dl_head = Some 5, dl_tail = Some 4\<rparr>, Some 4), Some (Some 4, None), Some (None, Some 5))"
    by code_simp
  then show "map_option (\<lambda>t. (th_resl t, th_mfd_res t)) (w_ths (wk_world (lu_wk s)) 3) = Some (\<lparr>dl_head = Some 5, dl_tail = Some 4\<rparr>, Some 4)"
    "map_option link_view (w_res (wk_world (lu_wk s)) 5) = Some (Some 4, None)" "map_option link_view (w_res (wk_world (lu_wk s)) 4) = Some (None, Some 5)"
    unfolding assms by simp_all
  have "map_option (\<lambda>(cx, s). map_option rs_th (Option.bind (end_threads nap_env cx (lu_wk s)) (\<lambda>k. w_res (wk_world k) 5))) nap_open = Some (Some None)"
    by code_simp
  then show "map_option rs_th (Option.bind (end_threads nap_env cx (lu_wk s)) (\<lambda>k. w_res (wk_world k) 5)) = Some None"
    unfolding assms by simp
qed

lemma nap_only_thread:
  assumes "nap_open = Some (cx, s)" and "lua_ok 0 {} s" and "a \<noteq> 3"
  shows "w_ths (wk_world (lu_wk s)) a = None"
proof (rule ccontr)
  assume "w_ths (wk_world (lu_wk s)) a \<noteq> None"
  then have "a \<in> live 0 (lu_wk s)" "pool_ok 0 (wk_mem (lu_wk s))"
    using lua_ok_core [OF assms(2)] by (auto simp: core_ok_def blocks_ok_def)
  then obtain fl b where "memp_inv 0 fl (wk_mem (lu_wk s))" "blks (wk_mem (lu_wk s)) a = Some b"
    unfolding pool_ok_def pool_live_def owned_def by blast
  then have "fresh_ok 6 (blks (wk_mem (lu_wk s)))" using nap_values(6) [OF assms(1)] by (auto simp: memp_inv_def)
  then have "\<not> 6 \<le> a" using \<open>blks (wk_mem (lu_wk s)) a = Some b\<close> by (auto simp: fresh_ok_def)
  with nap_blocks(1) [OF assms(1)] assms(3) \<open>w_ths (wk_world (lu_wk s)) a \<noteq> None\<close> show False
    by (auto simp: list_all_iff)
qed

lemma nap_own:
  assumes s: "nap_open = Some (cx, s)" "lua_ok 0 {} s"
  shows "own_blocks 2 1 0 (lu_wk s)"
proof -
  note b = nap_blocks [OF s(1)]
  obtain t where t: "w_ths (wk_world (lu_wk s)) 3 = Some t" "th_resl t = \<lparr>dl_head = Some 5, dl_tail = Some 4\<rparr>" "th_mfd_res t = Some 4"
    using b(5) by auto
  have "owns (wk_world (lu_wk s)) t [5, 4]"
    using t(2,3) b(6,7) by (auto simp: owns_def is_dlist_def link_view_def)
  then have lists: "1 \<notin> set rs" if "w_ths (wk_world (lu_wk s)) a = Some u" "owns (wk_world (lu_wk s)) u rs" for a u rs
  proof -
    have "a = 3" using nap_only_thread [OF s, of a] that(1) by (cases "a = 3") simp_all
    then have "rs = [5, 4]" using owns_unique [OF that(2), of "[5, 4]"] that(1) t(1) \<open>owns (wk_world (lu_wk s)) t [5, 4]\<close> by simp
    then show ?thesis by simp
  qed
  have "2 \<in> live 0 (lu_wk s)" using b(2) by (auto simp: pool_live_def owned_def)
  moreover have "2 \<notin> dom (w_ths (wk_world (lu_wk s)))" using nap_only_thread [OF s, of 2] by auto
  moreover have "2 \<notin> dom (w_res (wk_world (lu_wk s)))" using b(3) by auto
  moreover have "1 \<in> dom (w_res (wk_world (lu_wk s)))" using b(4) by (auto simp: Option.is_none_def)
  ultimately show ?thesis using lists unfolding own_blocks_def by blast
qed

lemma nap_closes:
  assumes s: "nap_open = Some (cx, s)" "lua_ok 0 {} s"
    and k1: "end_threads nap_env cx (lu_wk s) = Some k1" "core_ok UNIV 0 {} k1" "only_gone {3} (lu_wk s) k1"
  shows "\<exists>k2. nap_close s k1 = Some k2 \<and> pool_ok 0 (wk_mem k2)"
proof -
  obtain Rs where Rs: "socks_ok Rs s" using s(2) by (auto simp: lua_ok_def)
  have "lu_socks s 0 = Some \<lparr>sk_res = Some 5, sk_type = LM_SOCK_TYPE_CUSTOM\<rparr>"
  proof -
    have "map_option (\<lambda>(cx, s). lu_socks s 0) nap_open = Some (Some \<lparr>sk_res = Some 5, sk_type = LM_SOCK_TYPE_CUSTOM\<rparr>)" by code_simp
    then show ?thesis unfolding s(1) by simp
  qed
  then have c0: "custom s 0 5" by (simp add: custom_def)
  have only: "c = 0 \<and> b = 5" if "custom s c b" for c b
  proof -
    have "c < lu_next s" using Rs that unfolding socks_ok_def custom_def by auto
    then have "c = 0" using nap_values(7) [OF s(1)] by simp
    then show ?thesis using c0 that by (simp add: custom_def)
  qed
  have none: "w_ths (wk_world k1) a = None" for a
    using only_gone_None [OF k1(3), of a] nap_only_thread [OF s, of a] by (cases "a = 3") simp_all
  obtain r where r: "w_res (wk_world k1) 5 = Some r" "rs_th r = None" using nap_blocks(8) [OF s(1)] k1(1) by auto
  let ?s = "s\<lparr>lu_wk := k1\<rparr>"
  have custom: "custom ?s = custom s" by (intro ext) (simp add: custom_def)
  have "lists_are Rs (wk_world k1)" using none by (simp add: lists_are_def)
  moreover have "held Rs 5 (wk_world k1)" using r none by (simp add: held_def)
  then have "socks_ok Rs ?s" using Rs only unfolding socks_ok_def custom by auto
  ultimately have ok: "lua_ok 0 {} ?s" using k1(2) by (auto simp: lua_ok_def core_ok_def)
  have "custom ?s 0 5" using c0 by (simp add: custom)
  obtain s' where s': "lcf_socket_close nap_env 0 ?s = Some (LRet [], s')" "lua_ok 0 {} s'"
    by (rule socket_close_ok [OF ok \<open>custom ?s 0 5\<close>, of nap_env]) blast
  then have "pool_ok 0 (wk_mem (lu_wk s'))" by (simp add: lua_ok_def blocks_ok_def)
  with s'(1) show ?thesis by (simp add: nap_close_def)
qed

text \<open>
  The thread of the witness waits with a socket that it opened itself: the end frees the thread and
  closes both descriptors, 3 and 7, and the collection of the socket in \<open>lua_close\<close> takes its resource
  away and gives the block back.
\<close>

theorem shutdown_frees_waiting_witness:
  "\<exists>cx s k1 k2 m. nap_open = Some (cx, s) \<and> wk_thread 3 (lu_wk s) \<noteq> None \<and> end_threads nap_env cx (lu_wk s) = Some k1
    \<and> wk_thread 3 k1 = None \<and> w_res (wk_world k1) 5 \<noteq> None \<and> nap_close s k1 = Some k2
    \<and> process_end nap_env (nap_close s) cx (lu_wk s) = Some (k2\<lparr>wk_mem := m\<rparr>) \<and> pools m 0 = None
    \<and> snd (w_ext (wk_world k2)) = [7, 3] \<and> w_res (wk_world k2) 5 = None"
proof (rule nap_opens)
  fix cx s assume s: "nap_open = Some (cx, s)" "lua_ok 0 {} s" and mp: "cx_mem_pool cx = Some 0"
  note v = nap_values [OF s(1)] and b = nap_blocks [OF s(1)]
  have th: "w_ths (wk_world (lu_wk s)) 3 \<noteq> None" using b(5) by auto
  have io: "pool_shape (wk_world (lu_wk s)) (cx_io_pool cx) Leaf"
    and sl: "pool_shape (wk_world (lu_wk s)) (cx_sleep_pool cx) (Node Black Leaf 3 Leaf)"
    using v th by (auto simp: pool_shape_def)
  have own: "own_blocks 2 (cx_cfd_res cx) 0 (lu_wk s)" using nap_own [OF s] v(2) by simp
  have nodes: "set (addrs Leaf) \<union> set (addrs (Node Black Leaf 3 Leaf)) = {3}" "set (addrs Leaf) \<inter> set (addrs (Node Black Leaf 3 Leaf)) = {}"
    by simp_all
  obtain k1 k2 m where k: "end_threads nap_env cx (lu_wk s) = Some k1" "only_gone {3} (lu_wk s) k1" "nap_close s k1 = Some k2"
    "process_end nap_env (nap_close s) cx (lu_wk s) = Some (k2\<lparr>wk_mem := m\<rparr>)" "pools m 0 = None"
    using shutdown_frees_waiting [OF nap_threads_ok lua_ok_core [OF s(2)] v(1,5) io sl nodes(2) own mp, of "nap_close s", unfolded nodes(1)]
      nap_closes [OF s] by blast
  have "map_option (\<lambda>(cx, s). map_option (\<lambda>k. (snd (w_ext (wk_world k)), w_res (wk_world k) 5))
      (Option.bind (end_threads nap_env cx (lu_wk s)) (nap_close s))) nap_open = Some (Some ([7, 3], None))" by code_simp
  then have "snd (w_ext (wk_world k2)) = [7, 3]" "w_res (wk_world k2) 5 = None" using k(1,3) unfolding s(1) by simp_all
  moreover have "w_ths (wk_world k1) 3 = None" using only_gone_None [OF k(2)] by blast
  moreover have "w_res (wk_world k1) 5 \<noteq> None" using b(8) k(1) by auto
  ultimately show ?thesis unfolding wk_thread_def
    by (intro exI [of _ cx] exI [of _ s] exI [of _ k1] exI [of _ k2] exI [of _ m] conjI) (use s(1) k th in simp_all)
qed

end
