(* ===== verification/Program.thy ===== *)
theory Program
  imports Worker_End Lua_Files Master
begin

text \<open>
  The program as it is built, \<^verbatim>\<open>src/c/src/main.c\<close>: it reads the configuration, opens the
  listening socket and runs one worker on it, in single mode. The other tests of that file
  that use the network or the configuration are here too.
\<close>

subsection \<open>Definitions\<close>

text \<open>
  What \<open>server_test\<close> needs beside the worker: \<open>listen\<close>, a call of the kernel. \<open>exit\<close> ends the
  process, without a return.
\<close>

datatype ending = Exited int | Returned

record ('x, 'v) server_setup =
  su_env :: "'x env"
  su_vals :: "'v lua_vals"
  su_listen :: "int \<Rightarrow> int \<Rightarrow> 'x \<Rightarrow> int \<times> 'x"
  su_create :: "'x \<Rightarrow> int \<times> 'x"
  su_boot :: "ptr \<Rightarrow> 'x worker \<Rightarrow> 'x worker option"
  su_shut :: "'x worker \<Rightarrow> 'x worker option"
  su_running :: "'x \<Rightarrow> bool"
  su_io :: addr
  su_sleep :: addr

definition server_test :: "('x, 'v) server_setup \<Rightarrow> 'v \<Rightarrow> 'x worker \<Rightarrow> (ending \<times> 'x worker) option" where
  "server_test su conf k = do {
     port \<leftarrow> get_cnf_int_val (su_vals su) conf [''tcp_port''];
     let (sock, x) = make_server_socket (net.truncate (su_env su)) (of_int port) (w_ext (wk_world k));
     if sock < 0 then Some (Exited 1, on_ext (\<lambda>_. x) k)
     else do {
       let (_, x) = set_non_block (net.truncate (su_env su)) sock x;
       let (r, x) = su_listen su sock 500 x;
       if r < 0 then Some (Exited 1, on_ext (\<lambda>_. x) k)
       else do {
         k \<leftarrow> test_worker_process (su_env su) (su_vals su) conf (su_create su) (su_boot su) (su_shut su) (su_running su)
                (su_io su) (su_sleep su) sock (on_ext (\<lambda>_. x) k);
         Some (Returned, on_ext (sc_close (su_env su) sock) k)
       }
     }
   }"

text \<open>
  \<open>read\<close> with room for 1024 bytes, then a terminator behind what was read: an error, or 1024
  bytes, puts it outside the buffer. \<open>write\<close> is a parameter, like \<open>read\<close>.
\<close>

datatype out_line = Out_Int int | Out_Text "u8 list"

definition request :: "u8 list" where
  "request = map of_char (''*2'' @ [CHR 0x0D, CHR 0x0A] @ ''$3'' @ [CHR 0x0D, CHR 0x0A] @ ''GET'' @ [CHR 0x0D, CHR 0x0A]
     @ ''$1'' @ [CHR 0x0D, CHR 0x0A] @ ''a'' @ [CHR 0x0D, CHR 0x0A])"

definition client_test :: "'x net \<Rightarrow> (int \<Rightarrow> u8 list \<Rightarrow> 'x \<Rightarrow> (int + nat) \<times> 'x) \<Rightarrow> 'x \<Rightarrow> (out_line list \<times> 'x) option" where
  "client_test net write x = (
     let (sock, x) = make_client_socket net ''127.0.0.1'' 6379 x;
         (n, x) = write sock request x;
         first = Out_Int (case n of Inl e \<Rightarrow> -1 | Inr n \<Rightarrow> to_int (int n));
         (d, x) = sc_read net sock 1024 x
     in case d of
          Inl e \<Rightarrow> None
        | Inr d \<Rightarrow>
            if length d < 1024 then Some ([first, Out_Text (takeWhile (\<lambda>b. b \<noteq> 0) d)], sc_close net sock x)
            else None)"

text \<open>The server with several workers: who this process is, with the port and the number of workers of the configuration.\<close>

definition mw_server_test :: "'x os \<Rightarrow> 'v lua_vals \<Rightarrow> 'v \<Rightarrow> 'x \<Rightarrow> (role \<times> 'x) option" where
  "mw_server_test os lv conf x = do {
     port \<leftarrow> get_cnf_int_val lv conf [''tcp_port''];
     n \<leftarrow> get_cnf_int_val lv conf [''n_workers''];
     if n < 0 then None else master_workers_server os port (nat n) x
   }"

text \<open>\<open>conf\<close> is the value of the global \<open>as_config\<close> in the state of a configuration.\<close>

definition lpconf_test where
  "lpconf_test A run new close cnf lv conf s = (case lpconf_new A run new close cnf ''conf/example.lua'' s of
       (Fine (Some c), s) \<Rightarrow>
         let no = lpconf_get_pconf_value lv (conf c s) [''server_no'', ''2''];
             nm = lpconf_get_pconf_value lv (conf c s) [''name'']
         in (case lpconf_destroy close (Some c) s of
               (Fine _, s) \<Rightarrow> Some ([no, nm], s)
             | _ \<Rightarrow> None)
     | _ \<Rightarrow> None)"

definition DEFAULT_CONF_FILE :: string where
  "DEFAULT_CONF_FILE = ''conf/example.lua''"

text \<open>\<open>argv\<close> holds the name of the program first. The state is that of the configurations and that of the
  server.\<close>

definition main_prog where
  "main_prog A run new close cnf conf su argv s k = (
     case lpconf_new A run new close cnf (case argv of _ # f # _ \<Rightarrow> f | _ \<Rightarrow> DEFAULT_CONF_FILE) s of
       (Fine None, s) \<Rightarrow> Some (Exited 1, s, k)
     | (Fine (Some c), s) \<Rightarrow> do {
         (e, k) \<leftarrow> server_test su (conf c s) k;
         case e of
           Exited n \<Rightarrow> Some (Exited n, s, k)
         | Returned \<Rightarrow> (case lpconf_destroy close (Some c) s of
             (Fine _, s) \<Rightarrow> Some (Exited 0, s, k)
           | _ \<Rightarrow> None)
       }
     | _ \<Rightarrow> None)"

subsection \<open>The client test\<close>

lemma client_test_fits:
  assumes "make_client_socket net ''127.0.0.1'' 6379 x = (sock, x1)" and "write sock request x1 = (w, x2)" and "sc_read net sock 1024 x2 = (d, x3)"
  shows "client_test net write x \<noteq> None \<longleftrightarrow> (\<exists>bs. d = Inr bs \<and> length bs < 1024)"
  using assms by (auto simp: client_test_def split: sum.splits)


subsection \<open>How the program ends\<close>

lemma end_destroys:
  assumes "process_end en lua_close cx k = Some k'" and "cx_mem_pool cx = Some mp"
  shows "pools (wk_mem k') mp = None"
  using assms by (auto simp: process_end_def memp_destroy_def bind_eq_Some_conv)

text \<open>
  On a clean heap the server exits with 1 and leaves memory alone where its socket cannot be made or
  does not listen; it comes back only after its worker has given the memory pool back, and the last thing it
  does is to close its socket.
\<close>

theorem server_ends:
  assumes "fresh_ok (brk s) (blks s)" and "owned (brk s) UNIV (blks s) = {}" and "\<forall>n. \<not> oom s n" and "wk_mem k = s"
    and "w_ths (wk_world k) = (\<lambda>_. None)" and "w_res (wk_world k) = (\<lambda>_. None)" and "lua_boots (su_boot su)"
    and "server_test su conf k = Some (e, k')"
  shows "e = Exited 1 \<and> wk_mem k' = s \<or> e = Returned \<and> pools (wk_mem k') (brk s) = None
    \<and> (\<exists>sock x. 0 \<le> sock \<and> w_ext (wk_world k') = sc_close (su_env su) sock x)"
proof -
  obtain port where port: "get_cnf_int_val (su_vals su) conf [''tcp_port''] = Some port"
    using assms(8) by (auto simp: server_test_def bind_eq_Some_conv)
  obtain sock x1 where sock: "make_server_socket (net.truncate (su_env su)) (of_int port) (w_ext (wk_world k)) = (sock, x1)" by fastforce
  obtain q x2 where nb: "set_non_block (net.truncate (su_env su)) sock x1 = (q, x2)" by fastforce
  obtain r x3 where listen: "su_listen su sock 500 x2 = (r, x3)" by fastforce
  have st: "server_test su conf k = (if sock < 0 then Some (Exited 1, on_ext (\<lambda>_. x1) k)
      else if r < 0 then Some (Exited 1, on_ext (\<lambda>_. x3) k)
      else do {
        k \<leftarrow> test_worker_process (su_env su) (su_vals su) conf (su_create su) (su_boot su) (su_shut su) (su_running su)
               (su_io su) (su_sleep su) sock (on_ext (\<lambda>_. x3) k);
        Some (Returned, on_ext (sc_close (su_env su) sock) k)
      })"
    unfolding server_test_def port sock nb listen bind.bind_lunit Let_def prod.case nb listen ..
  show ?thesis
  proof (cases "sock < 0 \<or> r < 0")
    case True
    then show ?thesis using assms(4,8) unfolding st by (auto simp: on_ext_def split: if_splits)
  next
    case False
    then obtain k2 where k2: "test_worker_process (su_env su) (su_vals su) conf (su_create su) (su_boot su) (su_shut su) (su_running su)
        (su_io su) (su_sleep su) sock (on_ext (\<lambda>_. x3) k) = Some k2"
      and e: "e = Returned" "k' = on_ext (sc_close (su_env su) sock) k2"
      using assms(8) unfolding st by (auto simp: bind_eq_Some_conv)
    then obtain cx k0 k1 ct where run: "process_start (su_env su) (su_create su) (su_boot su) (su_io su) (su_sleep su) sock ct (on_ext (\<lambda>_. x3) k) = Some (cx, k0)"
      "process_end (su_env su) (su_shut su) cx k1 = Some k2"
      by (auto simp: test_worker_process_def worker_main_def bind_eq_Some_conv)
    have k: "wk_mem (on_ext (\<lambda>_. x3) k) = s" "w_ths (wk_world (on_ext (\<lambda>_. x3) k)) = (\<lambda>_. None)"
      "w_res (wk_world (on_ext (\<lambda>_. x3) k)) = (\<lambda>_. None)" using assms(4-6) by (simp_all add: on_ext_def)
    have "cx_mem_pool cx = Some (brk s)"
      using process_start_ok [OF assms(1-3) k assms(7), of "su_env su" "su_create su" "su_io su" "su_sleep su" sock ct] run(1) by auto
    moreover have "0 \<le> sock \<and> w_ext (wk_world k') = sc_close (su_env su) sock (w_ext (wk_world k2))"
      using False e by (simp add: on_ext_def)
    ultimately show ?thesis using end_destroys [OF run(2)] e by (auto simp: on_ext_def)
  qed
qed

end
