(* ===== verification/Sock_All.thy ===== *)
theory Sock_All
  imports Lm_Bytes Lua_Modules Lm_Socket
begin

text \<open>
  Reading a socket to its end, \<open>lcf_socket_sread_all\<close> of \<^verbatim>\<open>src/c/src/lm_socket.c\<close>: it calls
  \<open>lcf_bytes_read_from_fd\<close> of \<^verbatim>\<open>src/c/src/lm_bytes.c\<close> through Lua, and so it works on the sockets,
  their resources and the buffers at once.
\<close>

subsection \<open>Definitions\<close>

record 'x sock_bytes =
  sb_bytes :: "'x lbytes"
  sb_socks :: "lm_sock store"
  sb_res :: "as_res store"

abbreviation of_bytes :: "('x lbytes, 'a) lprog \<Rightarrow> ('x sock_bytes, 'a) lprog" where
  "of_bytes \<equiv> zoom sb_bytes sb_bytes_update"

abbreviation of_lua :: "('x, 'a) lprog \<Rightarrow> ('x sock_bytes, 'a) lprog" where
  "of_lua m \<equiv> of_bytes (in_lua m)"

text \<open>
  \<open>lua_call\<close> of a C function that was pushed below its \<open>n\<close> arguments: Lua makes a frame for it, runs it,
  and puts the wanted number of its results in place of the function and the arguments. An error of the
  function goes on to the caller.
\<close>

record 'x lua_frames =
  lf_enter :: "addr \<Rightarrow> nat \<Rightarrow> ('x, unit) lprog"
  lf_leave :: "addr \<Rightarrow> nat \<Rightarrow> int \<Rightarrow> ('x, unit) lprog"

definition lua_call :: "'x lua_frames \<Rightarrow> addr \<Rightarrow> nat \<Rightarrow> nat \<Rightarrow> ('x sock_bytes, int) lprog \<Rightarrow> ('x sock_bytes, unit) lprog" where
  "lua_call fr T n r f = bnd (of_lua (lf_enter fr T n)) (\<lambda>_. bnd f (\<lambda>k. of_lua (lf_leave fr T r k)))"

definition push_all :: "'x lua_api \<Rightarrow> addr \<Rightarrow> lv list \<Rightarrow> ('x, int) lprog" where
  "push_all A T vs = bnd (steps (map (la_push A T) vs)) (\<lambda>_. ret (int (length vs)))"

text \<open>\<open>errno\<close> is what the last call of the kernel has left.\<close>

definition sread_values :: "'x lua_api \<Rightarrow> ('x sock_bytes \<Rightarrow> int) \<Rightarrow> addr \<Rightarrow> ('x sock_bytes, int) lprog" where
  "sread_values A errno T = bnd (of_lua (la_touserdata A T (Idx (-1)))) (\<lambda>br s. case br of
       NULL_PTR \<Rightarrow> of_lua (push_all A T [V_Int 0, V_Nil, V_Int (errno s)]) s
     | Block a \<Rightarrow> (case by_refs (sb_bytes s) a of
           None \<Rightarrow> undef s
         | Some br \<Rightarrow> of_lua (bnd (steps [la_push A T (V_Int (sint (br_len br))), la_pushvalue A T (Idx (-2)), la_push A T V_Nil]) (\<lambda>_. ret 3)) s)
     | Chars _ \<Rightarrow> undef s)"

definition lcf_socket_sread_all :: "'x lua_api \<Rightarrow> 'x lua_frames \<Rightarrow> (addr \<Rightarrow> ptr option) \<Rightarrow> (int \<Rightarrow> nat \<Rightarrow> size_t \<Rightarrow> read_result)
    \<Rightarrow> ('x sock_bytes \<Rightarrow> int) \<Rightarrow> addr \<Rightarrow> ('x sock_bytes, int) lprog" where
  "lcf_socket_sread_all A fr ctx_pool rd errno T = bnd (of_lua (la_checkudata A T (Idx 1) LM_SOCKET)) (\<lambda>sock s.
     case sb_socks s sock of
       None \<Rightarrow> undef s
     | Some sk \<Rightarrow>
         if sk_res sk = None then of_lua (push_all A T [V_Int 0, V_Nil, V_Int EBADFD]) s
         else (case deref (sb_res s) (sk_res sk) of
           None \<Rightarrow> undef s
         | Some r \<Rightarrow>
             bnd (of_lua (steps [la_push A T (V_C ''lcf_bytes_read_from_fd''), la_push A T (V_Int (res_fd r))])) (\<lambda>_.
             bnd (lua_call fr T 1 1 (of_bytes (lcf_bytes_read_from_fd A ctx_pool rd T))) (\<lambda>_.
             sread_values A errno T)) s))"

subsection \<open>What it gives\<close>

definition frames_ok :: "('x \<Rightarrow> lview) \<Rightarrow> 'x lua_frames \<Rightarrow> bool" where
  "frames_ok view fr \<longleftrightarrow>
     (\<forall>T n x. n < length (frame T (view x)) \<longrightarrow> (\<exists>r y. lf_enter fr T n x = (r, y) \<and> (r = Fine () \<and> view y = enter T n (view x) \<or> r = Raised)))
     \<and> (\<forall>T r k x. 0 \<le> k \<longrightarrow> k \<le> int (length (frame T (view x))) \<longrightarrow>
          (\<exists>y. lf_leave fr T r k x = (Fine (), y) \<and> view y = leave T (results (nat k) r (frame T (view x))) (view x)))"

abbreviation lua_of :: "'x sock_bytes \<Rightarrow> 'x" where
  "lua_of s \<equiv> by_lua (sb_bytes s)"

text \<open>A socket as the first argument of a function.\<close>

definition sock_arg :: "addr \<Rightarrow> addr \<Rightarrow> lview \<Rightarrow> bool" where
  "sock_arg T a w \<longleftrightarrow> lua_at T (Idx 1) w = Some (V_Ud a) \<and> (\<exists>m. lw_meta w a = Some m \<and> lw_tab w (lw_reg w) (V_Str LM_SOCKET) = V_Tab m)"

lemma push_all_gives:
  assumes "api_ok view A" and "length vs \<le> room T (view x)" and "T < lw_next (view x)"
  shows "\<exists>y. push_all A T vs x = (Fine (int (length vs)), y) \<and> view y = set_frame T (rev vs @ frame T (view x)) (view x)"
  using push_frame [OF assms(1), of vs T x] assms(2,3) by (auto simp: push_all_def ret_def)

lemma of_lua_run: "m (lua_of s) = (r, y) \<Longrightarrow> of_lua m s = (r, s\<lparr>sb_bytes := (sb_bytes s)\<lparr>by_lua := y\<rparr>\<rparr>)"
  by (simp add: zoom_def)

lemma closed_sread_all:
  assumes ok: "api_ok view A" and a: "sock_arg T a (view (lua_of s))" "sb_socks s a = Some sk" "sk_res sk = None"
    and T: "T < lw_next (view (lua_of s))" "3 \<le> room T (view (lua_of s))"
  shows "\<exists>r t. lcf_socket_sread_all A fr ctx_pool rd errno T s = (r, t) \<and> (r = Raised \<or> r = Fine 3
    \<and> frame T (view (lua_of t)) = [V_Int EBADFD, V_Nil, V_Int 0] @ frame T (view (lua_of s)))"
proof -
  have "la_checkudata doc T (Idx 1) LM_SOCKET (view (lua_of s)) = (Fine a, view (lua_of s))"
    using a(1) by (auto simp: sock_arg_def d_checkudata_def)
  then show ?thesis
  proof (rule follows_cases [OF api_follows(25) [OF ok]])
    fix y assume y: "la_checkudata A T (Idx 1) LM_SOCKET (lua_of s) = (Fine a, y)" "view y = view (lua_of s)"
    obtain z where z: "push_all A T [V_Int 0, V_Nil, V_Int EBADFD] y = (Fine 3, z)"
      "view z = set_frame T ([V_Int EBADFD, V_Nil, V_Int 0] @ frame T (view y)) (view y)"
      using push_all_gives [OF ok, of "[V_Int 0, V_Nil, V_Int EBADFD]" T y] T y(2) by auto
    have "lw_stk (view y) T \<noteq> []" using T(2) y(2) room_pos by fastforce
    then show ?thesis using y z a(2,3) by (simp add: lcf_socket_sread_all_def bnd_def zoom_def)
  qed (use T in \<open>auto simp: lcf_socket_sread_all_def bnd_def zoom_def\<close>)
qed

lemma called_arg:
  "view y = called T [V_Ud a] w \<Longrightarrow> frame T (view y) = [V_Ud a]" "view y = called T [V_Ud a] w \<Longrightarrow> room T (view y) = 20"
  by (simp_all add: called_def frame_def room_def LUA_MINSTACK_def)

lemma nil_values:
  assumes ok: "api_ok view A" and f: "frame T (view (lua_of s)) = V_Nil # us" "room T (view (lua_of s)) = 19" "T < lw_next (view (lua_of s))"
  shows "\<exists>t. sread_values A errno T s = (Fine 3, t) \<and> (\<exists>e. frame T (view (lua_of t)) = V_Int e # V_Nil # V_Int 0 # V_Nil # us)"
proof -
  have "la_touserdata doc T (Idx (-1)) (view (lua_of s)) = (Fine NULL_PTR, view (lua_of s))"
    using f(1) by (simp add: d_value_def lua_at_def slot_of_def)
  from exactlyD [OF api_exactly(8) [OF ok] this _ f(3)] obtain y where y: "la_touserdata A T (Idx (-1)) (lua_of s) = (Fine NULL_PTR, y)" "view y = view (lua_of s)"
    by auto
  let ?vs = "[V_Int 0, V_Nil, V_Int (errno (s\<lparr>sb_bytes := (sb_bytes s)\<lparr>by_lua := y\<rparr>\<rparr>))]"
  obtain z where z: "push_all A T ?vs y = (Fine 3, z)" "view z = set_frame T (rev ?vs @ frame T (view y)) (view y)"
    using push_all_gives [OF ok, of ?vs T y] f y(2) by auto
  have "lw_stk (view y) T \<noteq> []" using f(2) y(2) room_pos [of T "view y"] by simp
  then have "frame T (view z) = V_Int (errno (s\<lparr>sb_bytes := (sb_bytes s)\<lparr>by_lua := y\<rparr>\<rparr>)) # V_Nil # V_Int 0 # V_Nil # us"
    using z(2) y(2) f(1) by simp
  then show ?thesis using y(1) z(1) by (simp add: sread_values_def bnd_def zoom_def)
qed

text \<open>The call of \<open>lcf_bytes_read_from_fd\<close>: an error, or nil where \<open>read\<close> has failed.\<close>

abbreviation with_block :: "lview \<Rightarrow> lview" where
  "with_block w \<equiv> w\<lparr>lw_next := lw_next w + 1, lw_meta := (lw_meta w)(lw_next w := None)\<rparr>"

lemma read_called:
  assumes ok: "api_ok view A" and frames: "frames_ok view fr" and T: "T < lw_next w"
    and v1: "view (lua_of s) = set_frame T [V_Int fd, V_C nm, V_Ud a] (called T [V_Ud a] w)"
    and reg: "lw_reg w < lw_next w" "lw_meta w (lw_reg w) = None" "lw_tab w (lw_reg w) (V_Str LRK_BYTES_REF_TABLE) = V_Tab t"
      "lw_tab w (lw_reg w) (V_Str LRK_WORKER_CTX) = V_Light (Block c)"
    and meta: "plain_meta LM_BYTES w m" "plain_meta LM_BYTES_REF w m'" and pool: "ctx_pool c = Some mp"
    and read: "bytes_read_from_fd (bytes_init mp blank_bytes) ((by_io (sb_bytes s))\<lparr>fd_script := rd (to_int fd)\<rparr>) = Some (n, bs, io)"
  shows "\<exists>q u. lua_call fr T 1 1 (of_bytes (lcf_bytes_read_from_fd A ctx_pool rd T)) s = (q, u)
    \<and> (q = Raised \<or> q = Fine () \<and> n = -1 \<and> view (lua_of u) = set_frame T [V_Nil, V_Ud a] (with_block (called T [V_Ud a] w)))"
proof -
  let ?w = "called T [V_Ud a] w"
  let ?v = "within T 21 [V_Nil, V_Ud (lw_next ?w), V_Light (Block c), V_Tab t, V_Int fd] (with_block ?w)"
  have "1 < length (frame T (view (lua_of s)))" and "enter T 1 (view (lua_of s)) = called T [V_Int fd] ?w"
    unfolding v1 by (simp_all add: called_def enter_def set_frame_def frame_def)
  with frames obtain q y where y: "lf_enter fr T 1 (lua_of s) = (q, y)" "q = Fine () \<and> view y = called T [V_Int fd] ?w \<or> q = Raised"
    unfolding frames_ok_def by metis
  show ?thesis
  proof (cases "q = Raised")
    case False
    with y(2) have v: "q = Fine ()" "view y = called T [V_Int fd] ?w" by auto
    let ?b = "(sb_bytes s)\<lparr>by_lua := y\<rparr>"
    have "\<exists>q b. lcf_bytes_read_from_fd A ctx_pool rd T ?b = (q, b) \<and> (q = Raised \<or> q = Fine 1 \<and> n = -1 \<and> view (by_lua b) = ?v)"
      by (rule read_never_delivers [where w = ?w and ctx_pool = ctx_pool and mp = mp and m = m and m' = m' and bs = bs and io = io, OF ok])
        (use v T reg meta pool read in \<open>simp_all add: called_def plain_meta_def\<close>)
    then obtain q' b where b: "lcf_bytes_read_from_fd A ctx_pool rd T ?b = (q', b)" "q' = Raised \<or> q' = Fine 1 \<and> n = -1 \<and> view (by_lua b) = ?v"
      by blast
    have "leave T (results (nat 1) 1 (frame T ?v)) ?v = set_frame T [V_Nil, V_Ud a] (with_block ?w)" and "1 \<le> int (length (frame T ?v))"
      by (simp_all add: results_def leave_def within_def called_def set_frame_def frame_def)
    then have "view (by_lua b) = ?v \<Longrightarrow> \<exists>z. lf_leave fr T 1 1 (by_lua b) = (Fine (), z) \<and> view z = set_frame T [V_Nil, V_Ud a] (with_block ?w)"
      using frames unfolding frames_ok_def by (metis zero_le_one)
    then show ?thesis using y(1) v b by (fastforce simp: lua_call_def bnd_def zoom_def)
  qed (use y(1) in \<open>simp add: lua_call_def bnd_def zoom_def\<close>)
qed

text \<open>
  An open socket: what was read never reaches Lua. Either the call ends in an error, or \<open>read\<close> itself has
  failed and Lua gets the three values of a failure.
\<close>

lemma open_sread_all:
  assumes ok: "api_ok view A" and frames: "frames_ok view fr"
    and call: "view (lua_of s) = called T [V_Ud a] w" and T: "T < lw_next w"
    and sock: "sock_arg T a (view (lua_of s))" "sb_socks s a = Some sk" "deref (sb_res s) (sk_res sk) = Some r"
    and reg: "lw_reg w < lw_next w" "lw_meta w (lw_reg w) = None" "lw_tab w (lw_reg w) (V_Str LRK_BYTES_REF_TABLE) = V_Tab t"
      "lw_tab w (lw_reg w) (V_Str LRK_WORKER_CTX) = V_Light (Block c)"
    and meta: "plain_meta LM_BYTES w m" "plain_meta LM_BYTES_REF w m'" and pool: "ctx_pool c = Some mp"
    and read: "bytes_read_from_fd (bytes_init mp blank_bytes) ((by_io (sb_bytes s))\<lparr>fd_script := rd (to_int (res_fd r))\<rparr>) = Some (n, bs, io)"
  shows "\<exists>q u. lcf_socket_sread_all A fr ctx_pool rd errno T s = (q, u) \<and> (q = Raised \<or> q = Fine 3 \<and> n = -1
    \<and> (\<exists>e. frame T (view (lua_of u)) = [V_Int e, V_Nil, V_Int 0, V_Nil, V_Ud a]))"
proof -
  let ?w = "called T [V_Ud a] w" and ?fd = "res_fd r"
  let ?call = "lua_call fr T 1 1 (of_bytes (lcf_bytes_read_from_fd A ctx_pool rd T))"
  obtain p where res: "sk_res sk = Some p" using sock(3) by (auto simp: deref_def split: option.splits)
  have "la_checkudata doc T (Idx 1) LM_SOCKET (view (lua_of s)) = (Fine a, view (lua_of s))"
    using sock(1) by (auto simp: sock_arg_def d_checkudata_def)
  then show ?thesis
  proof (rule follows_cases [OF api_follows(25) [OF ok]])
    fix y0 assume y0: "la_checkudata A T (Idx 1) LM_SOCKET (lua_of s) = (Fine a, y0)" "view y0 = view (lua_of s)"
    then have v0: "view y0 = ?w" using call by simp
    have T0: "T < lw_next (view y0)" using T by (simp add: v0 called_def)
    obtain y1 where y1: "steps [la_push A T (V_C ''lcf_bytes_read_from_fd''), la_push A T (V_Int ?fd)] y0 = (Fine (), y1)"
      "view y1 = set_frame T [V_Int ?fd, V_C ''lcf_bytes_read_from_fd'', V_Ud a] ?w"
      using push_frame [OF ok, of "[V_C ''lcf_bytes_read_from_fd'', V_Int ?fd]" T y0] T0 called_arg [where view = view, OF v0] v0 by auto
    let ?s1 = "s\<lparr>sb_bytes := (sb_bytes s)\<lparr>by_lua := y1\<rparr>\<rparr>"
    have upto: "lcf_socket_sread_all A fr ctx_pool rd errno T s = bnd ?call (\<lambda>_. sread_values A errno T) ?s1"
      using y0(1) y1(1) sock(2,3) res by (simp add: lcf_socket_sread_all_def bnd_def zoom_def)
    obtain q u where u: "?call ?s1 = (q, u)" "q = Raised \<or> q = Fine () \<and> n = -1 \<and> view (lua_of u) = set_frame T [V_Nil, V_Ud a] (with_block ?w)"
      using read_called [where s = ?s1 and ctx_pool = ctx_pool, OF ok frames T _ reg meta pool, of ?fd "''lcf_bytes_read_from_fd''" a rd n bs io] y1(2) read by auto
    show ?thesis
    proof (cases "q = Raised")
      case False
      with u(2) have f: "frame T (view (lua_of u)) = [V_Nil, V_Ud a]" "room T (view (lua_of u)) = 19" "T < lw_next (view (lua_of u))"
        using T by (simp_all add: called_def LUA_MINSTACK_def room_def frame_def set_frame_def)
      from nil_values [OF ok this, of errno] show ?thesis using upto u False by auto
    qed (use upto u(1) in simp)
  qed (use T call in \<open>auto simp: lcf_socket_sread_all_def bnd_def zoom_def called_def\<close>)
qed

end
