(* ===== verification/Thread_Print.thy ===== *)
theory Thread_Print
  imports Thread
begin

text \<open>
  The log of a thread and its resources, \<open>asthread_print_res\<close> of \<^verbatim>\<open>src/c/src/thread.c\<close>.
\<close>

datatype res_line = Line_Th ptr | Line_Mfd ptr | Line_Res addr | Line_End

partial_function (option) print_res_loop :: "as_res store \<Rightarrow> ptr \<Rightarrow> res_line list \<Rightarrow> res_line list option" where
  "print_res_loop h dn ls = (case dn of
       None \<Rightarrow> Some ls
     | Some a \<Rightarrow> do {
         x \<leftarrow> h a;
         print_res_loop h (dl_next x) (ls @ [Line_Res a])
       })"

definition asthread_print_res :: "ptr \<Rightarrow> 'x world \<Rightarrow> res_line list option" where
  "asthread_print_res th w = do {
     t \<leftarrow> deref (w_ths w) th;
     ls \<leftarrow> print_res_loop (w_res w) (dl_head (th_resl t)) [Line_Th th, Line_Mfd (th_mfd_res t)];
     Some (ls @ [Line_End])
   }"

lemma print_res_loop_gives: "dseg h pr rs None \<Longrightarrow> print_res_loop h (hd_ptr rs None) ls = Some (ls @ map Line_Res rs)"
proof (induction rs arbitrary: pr ls)
  case Nil
  then show ?case by (simp add: print_res_loop.simps)
next
  case (Cons a rs)
  then show ?case by (subst print_res_loop.simps) auto
qed

text \<open>The loop ends, and every resource of the thread is shown once, in the order of its list.\<close>

lemma print_res_shows_each:
  assumes "w_ths w th = Some t" and "is_dlist (w_res w) (th_resl t) rs"
  shows "asthread_print_res (Some th) w = Some ([Line_Th (Some th), Line_Mfd (th_mfd_res t)] @ map Line_Res rs @ [Line_End])"
  using assms print_res_loop_gives [of "w_res w" None rs] by (simp add: asthread_print_res_def is_dlist_def deref_def)

end
