(* ===== verification/Lua_Output.thy ===== *)
theory Lua_Output
  imports Lua_Files Lm_Bytes Lua_Alloc
begin

text \<open>
  What shows the state of Lua or sends its answers: the log of a stack (\<^verbatim>\<open>src/c/src/lua_bind.c\<close>), the
  reply to a client of \<^verbatim>\<open>src/c/src/lua_output.c\<close>, and \<open>lbind_new_state\<close> with \<open>luas_test\<close>, the test of the
  bindings in \<^verbatim>\<open>src/c/src/main.c\<close>.
\<close>

subsection \<open>The log of a stack\<close>

text \<open>
  A line for each value, with its index: a string, or its first 16 characters and its length; a number,
  as \<open>lua_tonumber\<close> gives it; an address; or the name of a type.
\<close>

datatype 'n stack_line = Show_Str int string | Show_Cut int string nat | Show_Num int 'n | Show_Ptr int cptr | Show_Type int string

record ('x, 'n) lua_show = "'x lua_api" +
  ls_tonumber :: "addr \<Rightarrow> lidx \<Rightarrow> ('x, 'n) lprog"
  ls_typename :: "int \<Rightarrow> string"

definition LUA_TNUMBER :: int where "LUA_TNUMBER = 3"
definition LUA_TSTRING :: int where "LUA_TSTRING = 4"

definition show_elem :: "('x, 'n) lua_show \<Rightarrow> addr \<Rightarrow> int \<Rightarrow> ('x, 'n stack_line) lprog" where
  "show_elem A L i = bnd (la_type A L (Idx i)) (\<lambda>type.
     if type = LUA_TSTRING then bnd (la_tostring A L (Idx i)) (\<lambda>str. case str of
         None \<Rightarrow> undef
       | Some str \<Rightarrow> ret (if length str < 16 then Show_Str i (c_str str) else Show_Cut i (c_str (take 16 str)) (length str)))
     else if type = LUA_TNUMBER then bnd (ls_tonumber A L (Idx i)) (\<lambda>n. ret (Show_Num i n))
     else if type = LUA_TLIGHTUSERDATA then bnd (la_touserdata A L (Idx i)) (\<lambda>p. ret (Show_Ptr i p))
     else bnd (la_type A L (Idx i)) (\<lambda>type. ret (Show_Type i (ls_typename A type))))"

text \<open>The height of the stack is asked for in each turn.\<close>

partial_function (option) scan_loop ::
  "('x, 'n) lua_show \<Rightarrow> addr \<Rightarrow> int \<Rightarrow> 'n stack_line list \<Rightarrow> 'x \<Rightarrow> ('n stack_line list lres \<times> 'x) option" where
  "scan_loop A L i ls x = (case la_gettop A L x of
       (Fine n, x) \<Rightarrow>
         if i \<le> n then (case show_elem A L i x of
             (Fine l, x) \<Rightarrow> scan_loop A L (i + 1) (ls @ [l]) x
           | (Raised, x) \<Rightarrow> Some (Raised, x)
           | (Undef, x) \<Rightarrow> Some (Undef, x))
         else Some (Fine ls, x)
     | (Raised, x) \<Rightarrow> Some (Raised, x)
     | (Undef, x) \<Rightarrow> Some (Undef, x))"

definition lbind_scan_stack_elem :: "('x, 'n) lua_show \<Rightarrow> addr \<Rightarrow> 'x \<Rightarrow> ('n stack_line list lres \<times> 'x) option" where
  "lbind_scan_stack_elem A L x = scan_loop A L 1 [] x"

text \<open>The line the manual lets one expect for a value.\<close>

definition line_of :: "(lv \<Rightarrow> 'n) \<Rightarrow> (int \<Rightarrow> string) \<Rightarrow> int \<Rightarrow> lv \<Rightarrow> 'n stack_line" where
  "line_of num name i v = (case v of
       V_Str s \<Rightarrow> if length s < 16 then Show_Str i (c_str s) else Show_Cut i (c_str (take 16 s)) (length s)
     | V_Int _ \<Rightarrow> Show_Num i (num v)
     | V_Light p \<Rightarrow> Show_Ptr i p
     | _ \<Rightarrow> Show_Type i (name (lua_type v)))"

definition show_ok :: "('x \<Rightarrow> lview) \<Rightarrow> (lv \<Rightarrow> 'n) \<Rightarrow> ('x, 'n) lua_show \<Rightarrow> bool" where
  "show_ok view num A \<longleftrightarrow> api_ok view (lua_api.truncate A)
     \<and> (\<forall>L i. exactly view L (ls_tonumber A L i) (d_value L i (\<lambda>v. Fine (num v))))
     \<and> (\<forall>L i x s. lua_at L i (view x) = Some (V_Str s) \<longrightarrow> la_tostring A L i x = (Fine (Some s), x))"

lemma lua_at_stack: "i < length (frame L w) \<Longrightarrow> lua_at L (Idx (int i + 1)) w = Some (rev (frame L w) ! i)"
  by (simp add: lua_at_def slot_of_def rev_nth nat_add_distrib)

lemma show_elem_gives:
  assumes ok: "show_ok view num A" and v: "lua_at L (Idx i) (view x) = Some v" and L: "L < lw_next (view x)"
  shows "\<exists>y. show_elem A L i x = (Fine (line_of num (ls_typename A) i v), y) \<and> view y = view x"
proof -
  have api: "api_ok view (lua_api.truncate A)" and num: "\<And>L i. exactly view L (ls_tonumber A L i) (d_value L i (\<lambda>v. Fine (num v)))"
    and str: "\<And>s x. lua_at L (Idx i) (view x) = Some (V_Str s) \<Longrightarrow> la_tostring A L (Idx i) x = (Fine (Some s), x)"
    using ok by (auto simp: show_ok_def)
  have sel: "la_type (lua_api.truncate A) = la_type A" "la_touserdata (lua_api.truncate A) = la_touserdata A"
    by (simp_all add: lua_api.defs)
  have type: "\<exists>z. la_type A L (Idx i) y = (Fine (lua_type v), z) \<and> view z = view x" if "view y = view x" for y
    using exactlyD [OF api_exactly(6) [OF api], of L "Idx i" y "Fine (lua_type v)" "view x"] v L that by (simp add: d_value_def sel)
  have ud: "\<exists>z. la_touserdata A L (Idx i) y = (Fine p, z) \<and> view z = view x" if "view y = view x" "v = V_Light p" for y p
    using exactlyD [OF api_exactly(8) [OF api], of L "Idx i" y "Fine p" "view x"] v L that by (simp add: d_value_def sel)
  have tn: "\<exists>z. ls_tonumber A L (Idx i) y = (Fine (num v), z) \<and> view z = view x" if "view y = view x" for y
    using exactlyD [OF num, of L "Idx i" y "Fine (num v)" "view x"] v L that by (simp add: d_value_def)
  obtain y where y: "la_type A L (Idx i) x = (Fine (lua_type v), y)" "view y = view x" using type by blast
  note defs = show_elem_def line_of_def lua_type_def LUA_TSTRING_def LUA_TNUMBER_def LUA_TLIGHTUSERDATA_def LUA_TNIL_def ret_def
  show ?thesis
  proof (cases v)
    case (V_Str s)
    then show ?thesis using y str [of y s] v by (simp add: defs)
  next
    case (V_Int n)
    then show ?thesis using y tn [OF y(2)] by (auto simp: defs)
  next
    case (V_Light p)
    then show ?thesis using y ud [OF y(2), of p] by (auto simp: defs)
  qed (use y type [OF y(2)] in \<open>auto simp: defs\<close>)
qed

lemma scan_loop_gives:
  assumes ok: "show_ok view num A" and L: "L < lw_next (view x)" and i: "i \<le> length (frame L (view x))"
  shows "\<exists>y. scan_loop A L (int i + 1) ls x
      = Some (Fine (ls @ map (\<lambda>j. line_of num (ls_typename A) (int j + 1) (rev (frame L (view x)) ! j)) [i..<length (frame L (view x))]), y)
    \<and> view y = view x"
  using i L
proof (induction "length (frame L (view x)) - i" arbitrary: i ls x)
  case 0
  have api: "api_ok view (lua_api.truncate A)" using ok by (simp add: show_ok_def)
  have sel: "la_gettop (lua_api.truncate A) = la_gettop A" by (simp add: lua_api.defs)
  obtain y where "la_gettop A L x = (Fine (int (length (frame L (view x)))), y)" "view y = view x"
    using exactlyD [OF api_exactly(5) [OF api], of L x "Fine (int (length (frame L (view x))))" "view x"] 0 by (auto simp: sel)
  then show ?case using 0 by (subst scan_loop.simps) simp
next
  case (Suc k)
  have api: "api_ok view (lua_api.truncate A)" using ok by (simp add: show_ok_def)
  have sel: "la_gettop (lua_api.truncate A) = la_gettop A" by (simp add: lua_api.defs)
  let ?fr = "frame L (view x)"
  obtain y where y: "la_gettop A L x = (Fine (int (length ?fr)), y)" "view y = view x"
    using exactlyD [OF api_exactly(5) [OF api], of L x "Fine (int (length ?fr))" "view x"] Suc.prems by (auto simp: sel)
  have i: "i < length ?fr" using Suc.hyps(2) by simp
  obtain z where z: "show_elem A L (int i + 1) y = (Fine (line_of num (ls_typename A) (int i + 1) (rev ?fr ! i)), z)" "view z = view x"
    using show_elem_gives [OF ok, of L "int i + 1" y "rev ?fr ! i"] lua_at_stack [OF i] y(2) Suc.prems by auto
  have "k = length (frame L (view z)) - Suc i" "Suc i \<le> length (frame L (view z))" "L < lw_next (view z)"
    using Suc.hyps(2) Suc.prems i z(2) by simp_all
  from Suc.hyps(1) [OF this, of "ls @ [line_of num (ls_typename A) (int i + 1) (rev ?fr ! i)]"] z(2) obtain u where
    u: "scan_loop A L (int (Suc i) + 1) (ls @ [line_of num (ls_typename A) (int i + 1) (rev ?fr ! i)]) z
      = Some (Fine ((ls @ [line_of num (ls_typename A) (int i + 1) (rev ?fr ! i)])
        @ map (\<lambda>j. line_of num (ls_typename A) (int j + 1) (rev ?fr ! j)) [Suc i..<length ?fr]), u)" "view u = view x"
    by auto
  have "int (Suc i) + 1 = int i + 1 + 1" by simp
  then show ?case using y z(1) u i by (subst scan_loop.simps) (simp add: upt_conv_Cons)
qed

text \<open>The log shows every value of the stack once, the first at the bottom, and changes nothing.\<close>

lemma scan_stack_shows:
  assumes "show_ok view num A" and "L < lw_next (view x)"
  shows "\<exists>y. lbind_scan_stack_elem A L x = Some (Fine (map (\<lambda>j. line_of num (ls_typename A) (int j + 1) (rev (frame L (view x)) ! j))
      [0..<length (frame L (view x))]), y) \<and> view y = view x"
  using scan_loop_gives [OF assms, of 0 "[]"] by (simp add: lbind_scan_stack_elem_def)

subsection \<open>The reply to a client\<close>

text \<open>
  \<open>run\<close> is the function \<open>redis_ok\<close> of the Lua code, \<open>send\<close> the call of the kernel. The length that Lua
  gives is taken as it is: the terminator may be sent, what lies behind it is undefined.
\<close>

definition lua_error_reply :: string where
  "lua_error_reply = ''-lua error'' @ [CHR 0x0D, CHR 0x0A]"

text \<open>The reply after the call, which gave the code \<open>r\<close>.\<close>

definition redis_reply :: "'x lua_api \<Rightarrow> (int \<Rightarrow> string \<Rightarrow> ('x, unit) lprog) \<Rightarrow> addr \<Rightarrow> int \<Rightarrow> int \<Rightarrow> ('x, int) lprog" where
  "redis_reply A send L fd r = (
     if r \<noteq> LUA_OK then bnd (la_pop A L 1) (\<lambda>_. bnd (steps [send fd lua_error_reply, la_push A L (V_Int r)]) (\<lambda>_. ret 1))
     else bnd (la_tointeger A L (Idx (-1))) (\<lambda>len. bnd (la_tostring A L (Idx (-2))) (\<lambda>msg. let len = to_int len in
       case msg of
         None \<Rightarrow> undef
       | Some msg \<Rightarrow>
           if 0 \<le> len \<and> len \<le> int (length msg) + 1
           then bnd (steps [send fd (take (nat len) (msg @ [CHR 0x00])), la_push A L (V_Int LUA_OK)]) (\<lambda>_. ret 1)
           else undef)))"

definition lcf_write_redis_ok :: "'x lua_api \<Rightarrow> (addr \<Rightarrow> ('x, int) lprog) \<Rightarrow> (int \<Rightarrow> string \<Rightarrow> ('x, unit) lprog) \<Rightarrow> addr \<Rightarrow> ('x, int) lprog" where
  "lcf_write_redis_ok A run send L = bnd (la_tointeger A L (Idx (-1))) (\<lambda>fd. bnd (la_getglobal A L ''redis_ok'') (\<lambda>_.
     bnd (la_pcall A L 0 2 (run L)) (redis_reply A send L (to_int fd))))"

definition loutput_redis_ok :: "'x lua_api \<Rightarrow> (addr \<Rightarrow> ('x, int) lprog) \<Rightarrow> (int \<Rightarrow> string \<Rightarrow> ('x, unit) lprog) \<Rightarrow> addr \<Rightarrow> int \<Rightarrow> ('x, int) lprog" where
  "loutput_redis_ok A run send L fd = bnd (steps [la_push A L (V_C ''lcf_write_redis_ok''), la_push A L (V_Int fd)]) (\<lambda>_.
     bnd (la_pcall A L 1 1 (lcf_write_redis_ok A run send L)) (\<lambda>r.
       if r = LUA_OK then bnd (la_tointeger A L (Idx (-1))) (\<lambda>r. bnd (la_pop A L 1) (\<lambda>_. ret (to_int r)))
       else bnd (la_pop A L 1) (\<lambda>_. ret r)))"

text \<open>What has been \<open>sent\<close> changes by \<open>send\<close> alone.\<close>

definition silent :: "('x \<Rightarrow> 's) \<Rightarrow> ('x, 'a) lprog \<Rightarrow> bool" where
  "silent sent m \<longleftrightarrow> (\<forall>x r y. m x = (r, y) \<longrightarrow> sent y = sent x)"

definition sends_ok :: "('x \<Rightarrow> lview) \<Rightarrow> ('x \<Rightarrow> (int \<times> string) list) \<Rightarrow> 'x lua_api \<Rightarrow> (addr \<Rightarrow> ('x, int) lprog) \<Rightarrow> (int \<Rightarrow> string \<Rightarrow> ('x, unit) lprog) \<Rightarrow> bool" where
  "sends_ok view sent A run send \<longleftrightarrow> (\<forall>fd d x. \<exists>y. send fd d x = (Fine (), y) \<and> view y = view x \<and> sent y = sent x @ [(fd, d)])
     \<and> (\<forall>L i. silent sent (la_tointeger A L i) \<and> silent sent (la_tostring A L i)) \<and> (\<forall>L v. silent sent (la_push A L v))
     \<and> (\<forall>L n. silent sent (la_pop A L n)) \<and> (\<forall>L s. silent sent (la_getglobal A L s)) \<and> (\<forall>L n r. silent sent (la_pcall A L n r (run L)))"

lemma silentD: "silent sent m \<Longrightarrow> m x = (r, y) \<Longrightarrow> sent y = sent x"
  by (simp add: silent_def)

lemma sends_silent:
  assumes "sends_ok view sent A run send"
  shows "la_push A L v x = (r, y) \<Longrightarrow> sent y = sent x" "la_pop A L n x = (r, y) \<Longrightarrow> sent y = sent x"
    "la_tointeger A L i x = (r', y) \<Longrightarrow> sent y = sent x" "la_tostring A L i x = (r'', y) \<Longrightarrow> sent y = sent x"
    "la_getglobal A L s x = (r, y) \<Longrightarrow> sent y = sent x" "la_pcall A L n n' (run L) x = (r', y) \<Longrightarrow> sent y = sent x"
proof -
  have m: "silent sent (la_push A L v)" "silent sent (la_pop A L n)" "silent sent (la_tointeger A L i)"
    "silent sent (la_tostring A L i)" "silent sent (la_getglobal A L s)" "silent sent (la_pcall A L n n' (run L))"
    using assms by (simp_all add: sends_ok_def)
  show "la_push A L v x = (r, y) \<Longrightarrow> sent y = sent x" by (rule silentD [OF m(1)])
  show "la_pop A L n x = (r, y) \<Longrightarrow> sent y = sent x" by (rule silentD [OF m(2)])
  show "la_tointeger A L i x = (r', y) \<Longrightarrow> sent y = sent x" by (rule silentD [OF m(3)])
  show "la_tostring A L i x = (r'', y) \<Longrightarrow> sent y = sent x" by (rule silentD [OF m(4)])
  show "la_getglobal A L s x = (r, y) \<Longrightarrow> sent y = sent x" by (rule silentD [OF m(5)])
  show "la_pcall A L n n' (run L) x = (r', y) \<Longrightarrow> sent y = sent x" by (rule silentD [OF m(6)])
qed

lemma kept_room:
  assumes "kept L w w'" and "lw_stk w L \<noteq> []"
  shows "room L w' = fst (hd (lw_stk w L)) - length (frame L w')" and "lw_stk w' L \<noteq> []"
proof -
  have m: "map fst (lw_stk w' L) = map fst (lw_stk w L)" using assms(1) by (simp add: kept_def)
  then show stk: "lw_stk w' L \<noteq> []" using assms(2) by auto
  from m stk assms(2) have "fst (hd (lw_stk w' L)) = fst (hd (lw_stk w L))" by (metis list.map_sel(1))
  then show "room L w' = fst (hd (lw_stk w L)) - length (frame L w')" using room_eq [OF stk] by simp
qed

text \<open>One reply and one code, whatever the state of the stack below.\<close>

lemma reply_and_code:
  assumes ok: "api_ok view A" and snd: "sends_ok view sent A run send" and L: "L < lw_next (view x)" "0 < room L (view x)"
  shows "\<exists>y. bnd (steps [send fd d, la_push A L (V_Int c)]) (\<lambda>_. ret (1::int)) x = (Fine 1, y)
    \<and> sent y = sent x @ [(fd, d)] \<and> frame L (view y) = V_Int c # frame L (view x)"
proof -
  obtain z where z: "send fd d x = (Fine (), z)" "view z = view x" "sent z = sent x @ [(fd, d)]"
    using snd unfolding sends_ok_def by blast
  have "la_push doc L (V_Int c) (view z) = (Fine (), set_frame L (V_Int c # frame L (view x)) (view x))"
    using L(2) z(2) by (simp add: d_push_def)
  from exactlyD [OF api_exactly(1) [OF ok] this] L(1) z(2) obtain y where y: "la_push A L (V_Int c) z = (Fine (), y)"
    "view y = set_frame L (V_Int c # frame L (view x)) (view x)" by auto
  have "sent y = sent z" using sends_silent(1) [OF snd y(1)] .
  then show ?thesis using z y room_pos [OF L(2)] by (simp add: ret_def)
qed

lemma error_reply:
  assumes ok: "api_ok view A" and snd: "sends_ok view sent A run send" and r: "r \<noteq> LUA_OK"
    and f: "frame L (view x) = e # us" "L < lw_next (view x)" "lw_stk (view x) L \<noteq> []" "length us < fst (hd (lw_stk (view x) L))"
  shows "\<exists>y. redis_reply A send L fd r x = (Fine 1, y) \<and> sent y = sent x @ [(fd, lua_error_reply)] \<and> frame L (view y) = V_Int r # us"
proof -
  have "la_pop doc L 1 (view x) = (Fine (), set_frame L us (view x))" using f(1) by simp
  from exactlyD [OF api_exactly(4) [OF ok] this _ f(2)] obtain z where z: "la_pop A L 1 x = (Fine (), z)" "view z = set_frame L us (view x)" by auto
  have "0 < room L (view z)" "L < lw_next (view z)" 
    unfolding z(2) using room_set_frame [OF f(3), of us] f(2,4) by simp_all
  from reply_and_code [OF ok snd this(2,1), of fd lua_error_reply r] z f(3) sends_silent(2) [OF snd z(1)] r
  show ?thesis by (auto simp: redis_reply_def)
qed

lemma message_reply:
  assumes ok: "api_ok view A" and snd: "sends_ok view sent A run send"
    and f: "frame L (view x) = V_Int n # V_Str m # us" "L < lw_next (view x)" "0 < room L (view x)" and n: "0 \<le> to_int n" "to_int n \<le> int (length m)"
  shows "\<exists>r y. redis_reply A send L fd LUA_OK x = (r, y) \<and> (r = Raised \<and> sent y = sent x
    \<or> r = Fine 1 \<and> sent y = sent x @ [(fd, take (nat (to_int n)) m)] \<and> frame L (view y) = V_Int LUA_OK # frame L (view x))"
proof -
  note quiet = sends_silent [OF snd]
  obtain x4 where x4: "la_tointeger A L (Idx (-1)) x = (Fine n, x4)" "view x4 = view x"
    using exactlyD [OF api_exactly(7) [OF ok], of L "Idx (-1)" x "Fine n" "view x"] f by (auto simp: d_value_def lua_at_def slot_of_def)
  have "la_tostring doc L (Idx (-2)) (view x4) = (Fine (Some m), view x4)"
    using f(1) x4(2) by (simp add: d_value_def lua_at_def slot_of_def)
  then show ?thesis
  proof (rule follows_cases [OF api_follows(13) [OF ok]])
    fix x5 assume "la_tostring A L (Idx (-2)) x4 = (Raised, x5)"
    moreover from this have "sent x5 = sent x" using quiet(4) quiet(3) [OF x4(1)] by metis
    ultimately show ?thesis using x4(1) by (simp add: redis_reply_def)
  next
    fix x5 assume x5: "la_tostring A L (Idx (-2)) x4 = (Fine (Some m), x5)" "view x5 = view x4"
    have "sent x5 = sent x" using quiet(4) [OF x5(1)] quiet(3) [OF x4(1)] by simp
    then show ?thesis
      using reply_and_code [OF ok snd, of L x5 fd "take (nat (to_int n)) m" LUA_OK] f(2,3) x4 x5 n by (auto simp: redis_reply_def Let_def)
  qed (use f(2) x4(2) in simp_all)
qed

text \<open>
  Whatever \<open>redis_ok\<close> does, the client gets at most one reply: the text of the length that \<open>redis_ok\<close> gave, or
  the error; no reply only where Lua has no memory for the call itself.
\<close>

lemma redis_ok_replies:
  assumes ok: "api_ok view A" and fol: "follows view L (run L) runs" and snd: "sends_ok view sent A run send"
    and x: "view x = called L [V_Int fd] w" and L: "L < lw_next w" and glob: "lw_meta w (lw_glob w) = None"
    and runs: "runs (called L [] (called L [V_Int fd] w)) = (q, v)" "q \<noteq> Undef"
    and good: "\<And>k. q = Fine k \<Longrightarrow> 0 \<le> k \<and> k \<le> int (length (frame L v)) \<and> results (nat k) 2 (frame L v) = [V_Int n, V_Str m] \<and> 0 \<le> to_int n \<and> to_int n \<le> int (length m)"
  shows "\<exists>r y. lcf_write_redis_ok A run send L x = (r, y) \<and> (r = Raised \<and> sent y = sent x \<or> r = Fine 1
    \<and> (\<exists>c us d. frame L (view y) = V_Int c # us \<and> sent y = sent x @ [(to_int fd, d)]
        \<and> d = (if c = LUA_OK then take (nat (to_int n)) m else lua_error_reply)))"
proof -
  note quiet = sends_silent [OF snd]
  have w0: "view x = within L 21 [V_Int fd] w" using x by (simp add: called_within LUA_MINSTACK_def)
  have Lx: "L < lw_next (view x)" using L x by (simp add: called_def)
  obtain x1 where x1: "la_tointeger A L (Idx (-1)) x = (Fine fd, x1)" "view x1 = view x"
    using exactlyD [OF api_exactly(7) [OF ok], of L "Idx (-1)" x "Fine fd" "view x"] Lx w0 by (auto simp: d_value_def lua_at_def slot_of_def)
  have s1: "sent x1 = sent x" using quiet(3) [OF x1(1)] .
  let ?u = "lw_tab w (lw_glob w) (V_Str ''redis_ok'')" and ?w = "called L [V_Int fd] w"
  have "la_getglobal doc L ''redis_ok'' (view x1) = (Fine (), within L 21 [?u, V_Int fd] w)"
    using glob x1(2) w0 by (simp add: d_getglobal_def d_index_def has_meta_def d_push_def) (simp add: within_def)
  then show ?thesis
  proof (rule follows_cases [OF api_follows(21) [OF ok]])
    fix x2 assume "la_getglobal A L ''redis_ok'' x1 = (Raised, x2)"
    moreover from this have "sent x2 = sent x1" by (rule quiet(5))
    ultimately show ?thesis using x1(1) s1 by (simp add: lcf_write_redis_ok_def)
  next
    fix x2 assume x2: "la_getglobal A L ''redis_ok'' x1 = (Fine (), x2)" "view x2 = within L 21 [?u, V_Int fd] w"
    have s2: "sent x2 = sent x" using quiet(5) [OF x2(1)] s1 by simp
    have enter: "enter L 0 (view x2) = called L [] ?w" unfolding x2(2) by (simp add: enter_def within_def called_def LUA_MINSTACK_def)
    have L2: "L < lw_next (view x2)" using L x2(2) by (simp add: within_def)
    have vq: "kept L (enter L 0 (view x2)) v"
      using keepsD [OF follows_keeps [OF fol] runs] L unfolding enter by (simp add: called_def)
    have len0: "0 < length (frame L (view x2))" using x2(2) by simp
    note lv = leave_enter [OF vq L2 len0]
    obtain c where c: "la_pcall doc L 0 2 runs (view x2) = (Fine c, if q = Raised then leave L [V_Str ''error''] v else leave L [V_Int n, V_Str m] v)"
      "c = LUA_OK \<longleftrightarrow> q \<noteq> Raised"
      using runs good len0 by (cases q) (auto simp: doc_def d_pcall_def enter LUA_OK_def)
    obtain c' x3 where x3: "la_pcall A L 0 2 (run L) x2 = (Fine c', x3)"
      "c' = LUA_OK \<and> view x3 = leave L [V_Int n, V_Str m] v \<and> q \<noteq> Raised
       \<or> c' \<noteq> LUA_OK \<and> kept L (view x2) (view x3) \<and> (\<exists>e. frame L (view x3) = e # drop 1 (frame L (view x2)))"
      using api_protects_at [OF ok fol, of 0 x2 2, unfolded protects_at_def, rule_format, OF c(1) L2] c(2) by auto
    have s3: "sent x3 = sent x" using quiet(6) [OF x3(1)] s2 by simp
    have stk2: "lw_stk (view x2) L \<noteq> []" "fst (hd (lw_stk (view x2) L)) = 21" unfolding x2(2) by (simp_all add: within_def)
    have upto: "lcf_write_redis_ok A run send L x = redis_reply A send L (to_int fd) c' x3"
      using x1(1) x2(1) x3(1) by (simp add: lcf_write_redis_ok_def)
    from x3(2) show ?thesis
    proof
      assume r: "c' = LUA_OK \<and> view x3 = leave L [V_Int n, V_Str m] v \<and> q \<noteq> Raised"
      then have n: "0 \<le> to_int n" "to_int n \<le> int (length m)" using good runs(2) by (cases q; auto)+
      have f: "frame L (view x3) = [V_Int n, V_Str m, V_Int fd]" "kept L (view x2) (view x3)" using lv r x2(2) by auto
      have "0 < room L (view x3)" using kept_room [OF f(2) stk2(1)] stk2(2) f(1) by simp
      from message_reply [OF ok snd f(1) kept_next [OF f(2) L2] this n, of "to_int fd"] upto r s3 show ?thesis by fastforce
    next
      assume r: "c' \<noteq> LUA_OK \<and> kept L (view x2) (view x3) \<and> (\<exists>e. frame L (view x3) = e # drop 1 (frame L (view x2)))"
      then obtain e where e: "frame L (view x3) = [e, V_Int fd]" "kept L (view x2) (view x3)" using x2(2) by auto
      have "map fst (lw_stk (view x3) L) = map fst (lw_stk (view x2) L)" using e(2) by (simp add: kept_def)
      then have "fst (hd (lw_stk (view x3) L)) = 21" using stk2 kept_room(2) [OF e(2) stk2(1)] by (metis list.map_sel(1))
      then show ?thesis
        using error_reply [OF ok snd _ e(1) kept_next [OF e(2) L2] kept_room(2) [OF e(2) stk2(1)], of c' "to_int fd"] upto r s3 by auto
    qed
  qed (use Lx x1(2) in simp_all)
qed

subsection \<open>A state with a pool, and the test of the bindings\<close>

text \<open>\<open>new\<close> and \<open>new_with\<close> are \<open>luaL_newstate\<close> and \<open>lua_newstate\<close>.\<close>

type_synonym lua_alloc = "ptr \<Rightarrow> ptr \<Rightarrow> size_t \<Rightarrow> size_t \<Rightarrow> mem \<Rightarrow> (ptr \<times> mem) option"

definition lbind_new_state :: "('x, ptr) lprog \<Rightarrow> (lua_alloc \<Rightarrow> ptr \<Rightarrow> ('x, ptr) lprog) \<Rightarrow> ptr \<Rightarrow> ('x, ptr) lprog" where
  "lbind_new_state new new_with mp = (if mp = None then new else new_with lalloc mp)"

definition DEFAULT_FIXED_SIZE :: "size_t list" where
  "DEFAULT_FIXED_SIZE = [8, 12, 16, 24, 32, 48, 64, 128, 256, 384, 512]"

record 'x lua_mem =
  lm_lua :: 'x
  lm_mem :: mem

abbreviation at_lua :: "('x, 'a) lprog \<Rightarrow> ('x lua_mem, 'a) lprog" where
  "at_lua \<equiv> zoom lm_lua lm_lua_update"

definition at_mem :: "(mem \<Rightarrow> ('a \<times> mem) option) \<Rightarrow> ('x lua_mem, 'a) lprog" where
  "at_mem f s = (case f (lm_mem s) of None \<Rightarrow> (Undef, s) | Some (a, m) \<Rightarrow> (Fine a, s\<lparr>lm_mem := m\<rparr>))"

datatype test_line = Thread_Null | Number int

record 'x lua_extra =
  lx_new :: "('x, ptr) lprog"
  lx_new_with :: "lua_alloc \<Rightarrow> ptr \<Rightarrow> ('x, ptr) lprog"
  lx_openlibs :: "addr \<Rightarrow> ('x, unit) lprog"
  lx_gc :: "addr \<Rightarrow> ('x, unit) lprog"
  lx_pcall_all :: "addr \<Rightarrow> ('x, int) lprog"
  lx_close :: "addr \<Rightarrow> ('x, unit) lprog"

text \<open>The second part of the test, with the thread \<open>T\<close>; \<open>lx_pcall_all\<close> calls the function on top with any
  number of results.\<close>

definition luas_test_thread :: "'x lua_api \<Rightarrow> 'x lua_extra \<Rightarrow> string \<Rightarrow> addr \<Rightarrow> addr \<Rightarrow> ('x, test_line list) lprog" where
  "luas_test_thread A X lfilename L T =
     bnd (lbind_get_lcode_chunk A T lfilename) (\<lambda>_. bnd (la_gettop A T) (\<lambda>n.
     bnd (lx_pcall_all X T) (\<lambda>_. bnd (la_gettop A T) (\<lambda>n'. bnd (la_tointeger A T (Idx (-1))) (\<lambda>r.
     bnd (steps [la_pushstring A L ''kk'', la_push A L (V_Int 11), la_settable A L Registry,
       la_pushstring A T ''kk'', la_gettable A T Registry]) (\<lambda>_. bnd (la_tointeger A T (Idx (-1))) (\<lambda>kk.
     bnd (lx_close X L) (\<lambda>_. ret [Number n, Number n', Number r, Number kk]))))))))"

definition luas_test_start :: "'x lua_api \<Rightarrow> 'x lua_extra \<Rightarrow> string \<Rightarrow> ptr \<Rightarrow> ('x, addr \<times> ptr) lprog" where
  "luas_test_start A X lfilename mem_pool =
     bnd (lbind_new_state (lx_new X) (lx_new_with X) mem_pool) (\<lambda>L. case L of None \<Rightarrow> undef | Some L \<Rightarrow>
     bnd (lbind_init_state A (lx_openlibs X) L) (\<lambda>_.
     bnd (lbind_append_lua_package_field A L ''cpath'' (Chars ''./bin/?.so'')) (\<lambda>_.
     bnd (lbind_ref_lcode_chunk A L lfilename) (\<lambda>_.
     bnd (lbind_ref_tid_lthread A L 12) (\<lambda>T.
     bnd (lx_gc X L) (\<lambda>_. ret (L, T)))))))"

definition luas_test :: "'x lua_api \<Rightarrow> 'x lua_extra \<Rightarrow> ('x lua_mem, test_line list) lprog" where
  "luas_test A X = (let lfilename = ''luas/t_counter.lua'' in
     bnd (at_mem (memp_new DEFAULT_FIXED_SIZE (of_nat (length DEFAULT_FIXED_SIZE)))) (\<lambda>mem_pool.
     bnd (at_lua (luas_test_start A X lfilename mem_pool)) (\<lambda>(L, T). case T of
       None \<Rightarrow> ret [Thread_Null]
     | Some T \<Rightarrow> bnd (at_lua (luas_test_thread A X lfilename L T)) (\<lambda>ls.
         bnd (at_mem (\<lambda>m. map_option (Pair ()) (memp_destroy mem_pool m))) (\<lambda>_. ret ls)))))"

lemma fine_bnd: "bnd m f x = (Fine b, z) \<longleftrightarrow> (\<exists>a y. m x = (Fine a, y) \<and> f a y = (Fine b, z))"
  by (auto simp: bnd_def split: prod.splits lres.splits)

lemma at_lua_mem: "at_lua m s = (r, t) \<Longrightarrow> lm_mem t = lm_mem s"
  by (auto simp: zoom_def split: prod.splits)

lemma at_mem_fine: "at_mem f s = (Fine a, t) \<longleftrightarrow> (\<exists>m. f (lm_mem s) = Some (a, m) \<and> t = s\<lparr>lm_mem := m\<rparr>)"
  by (auto simp: at_mem_def split: option.splits)

lemma test_thread_lines: "luas_test_thread A X f L T x = (Fine ls, y) \<Longrightarrow> \<exists>a b c d. ls = map Number [a, b, c, d]"
  by (auto simp: luas_test_thread_def fine_bnd ret_def)

text \<open>The test gives its pool back where it has a thread; where it could not make one, it returns without.\<close>

lemma luas_test_pool:
  assumes "luas_test A X s = (Fine ls, t)" and "memp_new DEFAULT_FIXED_SIZE (of_nat (length DEFAULT_FIXED_SIZE)) (lm_mem s) = Some (mp, m)"
  shows "ls = [Thread_Null] \<and> lm_mem t = m \<or> (\<exists>a b c d. ls = map Number [a, b, c, d]) \<and> memp_destroy mp m = Some (lm_mem t)"
proof -
  obtain L T s2 where s2: "lm_mem s2 = m" and run: "(case T of None \<Rightarrow> ret [Thread_Null]
     | Some T \<Rightarrow> bnd (at_lua (luas_test_thread A X ''luas/t_counter.lua'' L T)) (\<lambda>ls.
         bnd (at_mem (\<lambda>m. map_option (Pair ()) (memp_destroy mp m))) (\<lambda>_. ret ls))) s2 = (Fine ls, t)"
    using assms unfolding luas_test_def Let_def fine_bnd at_mem_fine by (auto dest!: at_lua_mem)
  show ?thesis
  proof (cases T)
    case (Some T')
    with run obtain s3 where s3: "at_lua (luas_test_thread A X ''luas/t_counter.lua'' L T') s2 = (Fine ls, s3)"
      "memp_destroy mp (lm_mem s3) = Some (lm_mem t)"
      by (auto simp: fine_bnd at_mem_fine ret_def)
    then have "\<exists>a b c d. ls = map Number [a, b, c, d]" by (auto simp: zoom_def split: prod.splits dest!: test_thread_lines)
    then show ?thesis using at_lua_mem [OF s3(1)] s2 s3(2) by simp
  qed (use run s2 in \<open>simp add: ret_def\<close>)
qed

end
