(* ===== verification/Lua_Dump.thy ===== *)
theory Lua_Dump
  imports Lua_Output
begin

text \<open>
  The log of the elements of a table (\<^verbatim>\<open>src/c/src/lua_bind.c\<close>) and of the calls of Lua
  (\<^verbatim>\<open>src/c/src/lua_utils.c\<close>).
\<close>

subsection \<open>Definitions\<close>

text \<open>\<open>ld_next\<close> is \<open>lua_next\<close>, \<open>ld_log\<close> writes a line to the log; \<open>ld_info\<close> is \<open>lua_getstack\<close> with
  \<open>lua_getinfo\<close>: what is known of the call at a level, if there is one.\<close>

record call_info =
  ci_name :: "string option"
  ci_short_src :: string
  ci_currentline :: int
  ci_linedefined :: int

record 'x lua_dump = "'x lua_api" +
  ld_next :: "addr \<Rightarrow> lidx \<Rightarrow> ('x, bool) lprog"
  ld_typename :: "int \<Rightarrow> string"
  ld_log :: "string \<Rightarrow> ('x, unit) lprog"
  ld_info :: "addr \<Rightarrow> nat \<Rightarrow> 'x \<Rightarrow> call_info option \<times> 'x"

definition log_elem :: "'x lua_dump \<Rightarrow> addr \<Rightarrow> ('x, unit) lprog" where
  "log_elem A L = bnd (la_type A L (Idx (-2))) (\<lambda>k. bnd (la_type A L (Idx (-1))) (\<lambda>v.
     steps [ld_log A (ld_typename A k @ '' - '' @ ld_typename A v), la_pop A L 1]))"

partial_function (option) next_loop :: "'x lua_dump \<Rightarrow> addr \<Rightarrow> lidx \<Rightarrow> 'x \<Rightarrow> (unit lres \<times> 'x) option" where
  "next_loop A L i x = (case ld_next A L i x of
       (Fine found, x) \<Rightarrow>
         if found then (case log_elem A L x of
             (Fine _, x) \<Rightarrow> next_loop A L i x
           | (Raised, x) \<Rightarrow> Some (Raised, x)
           | (Undef, x) \<Rightarrow> Some (Undef, x))
         else Some (Fine (), x)
     | (Raised, x) \<Rightarrow> Some (Raised, x)
     | (Undef, x) \<Rightarrow> Some (Undef, x))"

text \<open>A loop that does not end is a call about which nothing is said.\<close>

definition log_elems :: "'x lua_dump \<Rightarrow> addr \<Rightarrow> lidx \<Rightarrow> ('x, unit) lprog" where
  "log_elems A L i x = (case next_loop A L i x of None \<Rightarrow> (Undef, x) | Some r \<Rightarrow> r)"

definition lcf_check_metatable_elem :: "'x lua_dump \<Rightarrow> addr \<Rightarrow> ('x, int) lprog" where
  "lcf_check_metatable_elem A L = bnd (steps [la_push A L V_Nil, ld_log A ''table: '', log_elems A L (Idx 1)]) (\<lambda>_. ret 0)"

definition lbind_check_metatable_elem :: "'x lua_dump \<Rightarrow> addr \<Rightarrow> int \<Rightarrow> ('x, int) lprog" where
  "lbind_check_metatable_elem A L idx = bnd (steps [la_push A L (V_C ''lcf_check_metatable_elem''),
     la_pushvalue A L (Idx (if idx < 0 then idx - 1 else idx))]) (\<lambda>_.
     bnd (la_pcall A L 1 0 (lcf_check_metatable_elem A L)) (pop_error (lua_api.truncate A) L))"

definition lcf_check_metatable_elem_by_tname :: "'x lua_dump \<Rightarrow> addr \<Rightarrow> ('x, int) lprog" where
  "lcf_check_metatable_elem_by_tname A L = bnd (la_touserdata A L (Idx 1)) (\<lambda>p. with_chars p (\<lambda>tname.
     bnd (steps [lbind_checkmetatable (lua_api.truncate A) L tname ''no table!'', la_push A L V_Nil, ld_log A ''table: '',
       log_elems A L (Idx 2)]) (\<lambda>_. ret 0)))"

definition lbind_check_metatable_elem_by_tname :: "'x lua_dump \<Rightarrow> addr \<Rightarrow> string \<Rightarrow> ('x, int) lprog" where
  "lbind_check_metatable_elem_by_tname A L tname = bnd (steps [la_push A L (V_C ''lcf_check_metatable_elem_by_tname''),
     la_push A L (V_Light (Chars tname))]) (\<lambda>_.
     bnd (la_pcall A L 1 0 (lcf_check_metatable_elem_by_tname A L)) (pop_error (lua_api.truncate A) L))"

text \<open>A line for each call: its level and what is known of it.\<close>

partial_function (option) traceback_loop ::
  "'x lua_dump \<Rightarrow> addr \<Rightarrow> nat \<Rightarrow> (nat \<times> call_info) list \<Rightarrow> 'x \<Rightarrow> ((nat \<times> call_info) list \<times> 'x) option" where
  "traceback_loop A L n ls x = (case ld_info A L n x of
       (Some ar, x) \<Rightarrow> traceback_loop A L (n + 1) (ls @ [(n, ar)]) x
     | (None, x) \<Rightarrow> Some (ls, x))"

definition trace_line :: "(int \<Rightarrow> string) \<Rightarrow> (nat \<times> call_info) \<Rightarrow> string" where
  "trace_line dec na = (case na of (n, ar) \<Rightarrow>
     [CHR 0x09] @ ''stack['' @ dec (int n) @ ''] -> line '' @ dec (ci_currentline ar) @ '': ''
     @ (case ci_name ar of
          Some name \<Rightarrow> name @ ''()[''
        | None \<Rightarrow> ''Unknown['') @ ci_short_src ar @ '':'' @ dec (ci_linedefined ar) @ '']'' @ [CHR 0x0A])"

text \<open>\<open>dec\<close> writes a number in decimal.\<close>

definition lutils_traceback :: "(int \<Rightarrow> string) \<Rightarrow> 'x lua_dump \<Rightarrow> addr \<Rightarrow> 'x \<Rightarrow> (string list \<times> 'x) option" where
  "lutils_traceback dec A L x = do {
     (ls, x) \<leftarrow> traceback_loop A L 0 [] x;
     Some (map (trace_line dec) ls, x)
   }"

subsection \<open>The calls of Lua\<close>

text \<open>The active calls of a thread, the running one first.\<close>

lemma traceback_loop_gives:
  assumes info: "\<And>n x. ld_info A L n x = (if n < length (calls x) then Some (calls x ! n) else None, x)" and n: "n \<le> length (calls x)"
  shows "traceback_loop A L n ls x = Some (ls @ map (\<lambda>i. (i, calls x ! i)) [n..<length (calls x)], x)"
  using n
proof (induction "length (calls x) - n" arbitrary: n ls)
  case 0
  then show ?case by (subst traceback_loop.simps) (simp add: info)
next
  case (Suc k)
  then have "n < length (calls x)" "k = length (calls x) - Suc n" by simp_all
  with Suc.hyps(1) [of "Suc n" "ls @ [(n, calls x ! n)]"] show ?case
    by (subst traceback_loop.simps) (simp add: info upt_conv_Cons)
qed

lemma traceback_shows_calls:
  assumes "\<And>n x. ld_info A L n x = (if n < length (calls x) then Some (calls x ! n) else None, x)"
  shows "lutils_traceback dec A L x = Some (map (\<lambda>i. trace_line dec (i, calls x ! i)) [0..<length (calls x)], x)"
  using traceback_loop_gives [OF assms, of 0 x "[]"] by (simp add: lutils_traceback_def)

subsection \<open>The elements of a table\<close>

text \<open>\<open>order\<close> is the order in which \<open>lua_next\<close> gives the keys of a table: each key once.\<close>

definition next_key :: "lv list \<Rightarrow> lv \<Rightarrow> lv option option" where
  "next_key ks k = (if k = V_Nil then Some (case ks of [] \<Rightarrow> None | k # _ \<Rightarrow> Some k)
     else case dropWhile (\<lambda>k'. k' \<noteq> k) ks of [] \<Rightarrow> None | _ # r \<Rightarrow> Some (case r of [] \<Rightarrow> None | k # _ \<Rightarrow> Some k))"

definition d_next :: "((lv \<Rightarrow> lv) \<Rightarrow> lv list) \<Rightarrow> addr \<Rightarrow> lidx \<Rightarrow> (lview, bool) lprog" where
  "d_next order L i w = (case (lua_at L i w, frame L w) of
       (Some (V_Tab t), k # vs) \<Rightarrow> (case next_key (order (lw_tab w t)) k of
           None \<Rightarrow> (Raised, w)
         | Some None \<Rightarrow> (Fine False, set_frame L vs w)
         | Some (Some k') \<Rightarrow> if 0 < room L w then (Fine True, set_frame L (lw_tab w t k' # k' # vs) w) else (Undef, w))
     | _ \<Rightarrow> (Undef, w))"

definition ordered :: "((lv \<Rightarrow> lv) \<Rightarrow> lv list) \<Rightarrow> bool" where
  "ordered order \<longleftrightarrow> (\<forall>c. distinct (order c) \<and> V_Nil \<notin> set (order c))"

definition dump_ok :: "('x \<Rightarrow> lview) \<Rightarrow> ((lv \<Rightarrow> lv) \<Rightarrow> lv list) \<Rightarrow> 'x lua_dump \<Rightarrow> bool" where
  "dump_ok view order A \<longleftrightarrow> api_ok view (lua_api.truncate A) \<and> (\<forall>L i. exactly view L (ld_next A L i) (d_next order L i))
     \<and> (\<forall>L s. exactly view L (ld_log A s) (ret ()))"

lemma truncate_sel:
  "la_type (lua_api.truncate A) = la_type A" "la_pop (lua_api.truncate A) = la_pop A" "la_push (lua_api.truncate A) = la_push A"
  "la_pushvalue (lua_api.truncate A) = la_pushvalue A" "la_pcall (lua_api.truncate A) = la_pcall A" "la_touserdata (lua_api.truncate A) = la_touserdata A"
  by (simp_all add: lua_api.defs)

lemma next_key_after:
  assumes "distinct ks" and "V_Nil \<notin> set ks" and "ks = ps @ k # rest"
  shows "next_key ks k = Some (case rest of [] \<Rightarrow> None | k # _ \<Rightarrow> Some k)"
proof -
  have "dropWhile (\<lambda>k'. k' \<noteq> k) ks = k # rest" unfolding assms(3) using assms by (subst dropWhile_append2) auto
  moreover have "k \<noteq> V_Nil" using assms by auto
  ultimately show ?thesis by (simp add: next_key_def)
qed

text \<open>What a function adds to the log.\<close>

definition appends :: "('x \<Rightarrow> 'm list) \<Rightarrow> ('s \<Rightarrow> 'm list) \<Rightarrow> ('s \<Rightarrow> ('x, unit) lprog) \<Rightarrow> bool" where
  "appends out h m \<longleftrightarrow> (\<forall>s x r y. m s x = (r, y) \<longrightarrow> out y = out x @ h s)"

lemma appendsD: "appends out h m \<Longrightarrow> m s x = (r, y) \<Longrightarrow> out y = out x @ h s"
  by (auto simp: appends_def)

lemma log_elem_gives:
  assumes ok: "dump_ok view order A" and f: "frame L (view x) = v # k # us" "L < lw_next (view x)"
    and out: "silent out (la_type A L (Idx (-2)))" "silent out (la_type A L (Idx (-1)))" "silent out (la_pop A L 1)"
      "appends out h (ld_log A)"
  shows "\<exists>y. log_elem A L x = (Fine (), y) \<and> view y = set_frame L (k # us) (view x)
    \<and> out y = out x @ h (ld_typename A (lua_type k) @ '' - '' @ ld_typename A (lua_type v))"
proof -
  have api: "api_ok view (lua_api.truncate A)" using ok by (simp add: dump_ok_def)
  obtain x1 where x1: "la_type A L (Idx (-2)) x = (Fine (lua_type k), x1)" "view x1 = view x"
    using exactlyD [OF api_exactly(6) [OF api], of L "Idx (-2)" x "Fine (lua_type k)" "view x"] f
    by (auto simp: d_value_def lua_at_def slot_of_def truncate_sel)
  obtain x2 where x2: "la_type A L (Idx (-1)) x1 = (Fine (lua_type v), x2)" "view x2 = view x"
    using exactlyD [OF api_exactly(6) [OF api], of L "Idx (-1)" x1 "Fine (lua_type v)" "view x"] f x1(2)
    by (auto simp: d_value_def lua_at_def slot_of_def truncate_sel)
  let ?s = "ld_typename A (lua_type k) @ '' - '' @ ld_typename A (lua_type v)"
  have "exactly view L (ld_log A ?s) (ret ())" using ok by (simp add: dump_ok_def)
  from exactlyD [OF this, of x2 "Fine ()" "view x"] obtain x3 where x3: "ld_log A ?s x2 = (Fine (), x3)" "view x3 = view x"
    using x2(2) f(2) by (auto simp: ret_def)
  obtain x4 where x4: "la_pop A L 1 x3 = (Fine (), x4)" "view x4 = set_frame L (k # us) (view x)"
    using exactlyD [OF api_exactly(4) [OF api], of L 1 x3 "Fine ()" "set_frame L (k # us) (view x)"] f x3(2) by (auto simp: truncate_sel)
  have "out x4 = out x @ h ?s"
    using silentD [OF out(3) x4(1)] appendsD [OF out(4), OF x3(1)] silentD [OF out(2) x2(1)] silentD [OF out(1) x1(1)] by simp
  then show ?thesis using x1(1) x2(1) x3(1) x4 by (simp add: log_elem_def ret_def)
qed

lemma lua_at_below:
  assumes "frame L w = k # us" and "0 < j" and "j \<le> int (length us)"
  shows "lua_at L (Idx j) w = Some (rev us ! (nat j - 1))"
proof -
  obtain n where n: "j = int n" "0 < n" "n \<le> length us" using assms(2,3) by (metis int_nat_eq less_imp_le of_nat_0_less_iff of_nat_le_iff)
  have "Suc (length us) - n = Suc (length us - n)" "length us - Suc (n - 1) = length us - n" using n(2,3) by simp_all
  then show ?thesis using assms(1) n by (simp add: lua_at_def slot_of_def rev_nth)
qed

text \<open>From a key on, the loop logs a line for each of the keys that follow, and leaves the stack without the key.\<close>

lemma next_loop_logs:
  assumes ok: "dump_ok view order A" and ord: "ordered order" and j: "0 < j" "j \<le> int (length us)" "rev us ! (nat j - 1) = V_Tab t"
    and out: "\<And>i. silent out (la_type A L i)" "\<And>n. silent out (la_pop A L n)" "\<And>i. silent out (ld_next A L i)"
      "appends out h (ld_log A)"
  shows "frame L (view x) = k # us \<Longrightarrow> L < lw_next (view x) \<Longrightarrow> 0 < room L (view x)
    \<Longrightarrow> next_key (order (lw_tab (view x) t)) k = Some (case rest of [] \<Rightarrow> None | k # _ \<Rightarrow> Some k)
    \<Longrightarrow> \<exists>ps. order (lw_tab (view x) t) = ps @ rest
    \<Longrightarrow> \<exists>y. next_loop A L (Idx j) x = Some (Fine (), y) \<and> view y = set_frame L us (view x)
      \<and> out y = out x @ concat (map (\<lambda>k. h (ld_typename A (lua_type k) @ '' - '' @ ld_typename A (lua_type (lw_tab (view x) t k)))) rest)"
proof (induction rest arbitrary: k x)
  case Nil
  have at: "lua_at L (Idx j) (view x) = Some (V_Tab t)"
    using lua_at_below [OF Nil(1) j(1,2)] j(3) by simp
  have "d_next order L (Idx j) (view x) = (Fine False, set_frame L us (view x))" using Nil at by (simp add: d_next_def)
  moreover have "exactly view L (ld_next A L (Idx j)) (d_next order L (Idx j))" using ok by (simp add: dump_ok_def)
  ultimately obtain y where y: "ld_next A L (Idx j) x = (Fine False, y)" "view y = set_frame L us (view x)"
    using Nil(2) exactlyD by fastforce
  then show ?case using silentD [OF out(3) y(1)] by (subst next_loop.simps) simp
next
  case (Cons k' rest)
  have at: "lua_at L (Idx j) (view x) = Some (V_Tab t)"
    using lua_at_below [OF Cons.prems(1) j(1,2)] j(3) by simp
  let ?v = "lw_tab (view x) t k'"
  have "d_next order L (Idx j) (view x) = (Fine True, set_frame L (?v # k' # us) (view x))" using Cons.prems at by (simp add: d_next_def)
  moreover have "exactly view L (ld_next A L (Idx j)) (d_next order L (Idx j))" using ok by (simp add: dump_ok_def)
  ultimately obtain y where y: "ld_next A L (Idx j) x = (Fine True, y)" "view y = set_frame L (?v # k' # us) (view x)"
    using Cons.prems(2) exactlyD by fastforce
  have stk: "lw_stk (view x) L \<noteq> []" using Cons.prems(3) by (rule room_pos)
  have "frame L (view y) = ?v # k' # us" "L < lw_next (view y)" using y(2) stk Cons.prems(2) by simp_all
  from log_elem_gives [OF ok this, of out h] out obtain z where z: "log_elem A L y = (Fine (), z)" "view z = set_frame L (k' # us) (view y)"
    "out z = out y @ h (ld_typename A (lua_type k') @ '' - '' @ ld_typename A (lua_type ?v))" by blast
  have vz: "view z = set_frame L (k' # us) (view x)" using z(2) y(2) by simp
  have d: "distinct (order (lw_tab (view x) t))" "V_Nil \<notin> set (order (lw_tab (view x) t))" using ord by (simp_all add: ordered_def)
  obtain ps where ps: "order (lw_tab (view x) t) = ps @ k' # rest" using Cons.prems(5) by blast
  have nk: "next_key (order (lw_tab (view x) t)) k' = Some (case rest of [] \<Rightarrow> None | k # _ \<Rightarrow> Some k)"
    using next_key_after [OF d ps] .
  have room: "0 < room L (view z)" unfolding vz room_set_frame [OF stk] using Cons.prems(1,3) room_eq [OF stk] by simp
  have "\<exists>ps. order (lw_tab (view x) t) = ps @ rest" using ps by (metis append.assoc append_Cons append_Nil)
  with Cons.IH [of z k'] vz stk Cons.prems(2) nk room obtain u where u: "next_loop A L (Idx j) z = Some (Fine (), u)" "view u = set_frame L us (view x)"
    "out u = out z @ concat (map (\<lambda>k. h (ld_typename A (lua_type k) @ '' - '' @ ld_typename A (lua_type (lw_tab (view x) t k)))) rest)"
    by auto
  show ?case using y(1) z(1,3) u silentD [OF out(3) y(1)] by (subst next_loop.simps) simp
qed

subsection \<open>The whole calls\<close>

text \<open>The log of all elements: the line of the title, then one for each key, in the order of \<open>lua_next\<close>.\<close>

lemma elems_logged:
  assumes ok: "dump_ok view order A" and ord: "ordered order" and j: "0 < j" "j \<le> int (length (frame L (view x)))"
      "rev (frame L (view x)) ! (nat j - 1) = V_Tab t"
    and L: "L < lw_next (view x)" "2 \<le> room L (view x)"
    and out: "\<And>i. silent out (la_type A L i)" "\<And>n. silent out (la_pop A L n)" "\<And>i. silent out (ld_next A L i)"
      "\<And>v. silent out (la_push A L v)" "appends out h (ld_log A)"
  shows "\<exists>y. steps [la_push A L V_Nil, ld_log A ''table: '', log_elems A L (Idx j)] x = (Fine (), y) \<and> view y = view x
    \<and> out y = out x @ h ''table: '' @ concat (map (\<lambda>k. h (ld_typename A (lua_type k) @ '' - '' @ ld_typename A (lua_type (lw_tab (view x) t k))))
        (order (lw_tab (view x) t)))"
proof -
  let ?us = "frame L (view x)" and ?ks = "order (lw_tab (view x) t)"
  have api: "api_ok view (lua_api.truncate A)" using ok by (simp add: dump_ok_def)
  have stk: "lw_stk (view x) L \<noteq> []" using L(2) room_pos by fastforce
  obtain x1 where x1: "la_push A L V_Nil x = (Fine (), x1)" "view x1 = set_frame L (V_Nil # ?us) (view x)"
    using exactlyD [OF api_exactly(1) [OF api], of L V_Nil x "Fine ()" "set_frame L (V_Nil # ?us) (view x)"] L by (auto simp: d_push_def truncate_sel)
  have L1: "L < lw_next (view x1)" using L(1) x1(2) by simp
  have "exactly view L (ld_log A ''table: '') (ret ())" using ok by (simp add: dump_ok_def)
  from exactlyD [OF this, of x1 "Fine ()" "view x1"] L1 obtain x2 where x2: "ld_log A ''table: '' x1 = (Fine (), x2)" "view x2 = view x1"
    by (auto simp: ret_def)
  have f2: "frame L (view x2) = V_Nil # ?us" "L < lw_next (view x2)" "lw_tab (view x2) = lw_tab (view x)"
    using x1(2) x2(2) stk L1 by simp_all
  have room: "0 < room L (view x2)" unfolding x2(2) x1(2) room_set_frame [OF stk] using L(2) room_eq [OF stk] by simp
  have nk: "next_key (order (lw_tab (view x2) t)) V_Nil = Some (case ?ks of [] \<Rightarrow> None | k # _ \<Rightarrow> Some k)"
    unfolding f2(3) by (simp add: next_key_def)
  have all: "\<exists>ps. order (lw_tab (view x2) t) = ps @ ?ks" unfolding f2(3) by (rule exI [of _ "[]"]) simp
  note nl = next_loop_logs [where view = view and order = order and A = A and L = L and x = x2 and t = t and j = j and us = ?us and k = V_Nil
      and rest = ?ks and out = out and h = h, OF ok ord j out(1,2,3,5) f2(1,2) room nk all]
  then obtain y where y: "next_loop A L (Idx j) x2 = Some (Fine (), y)" "view y = set_frame L ?us (view x2)"
    "out y = out x2 @ concat (map (\<lambda>k. h (ld_typename A (lua_type k) @ '' - '' @ ld_typename A (lua_type (lw_tab (view x2) t k)))) ?ks)"
    by (elim exE conjE) (rule that)
  have v: "view y = view x" using y(2) x2(2) x1(2) by simp
  have "steps [la_push A L V_Nil, ld_log A ''table: '', log_elems A L (Idx j)] x = (Fine (), y)"
    using x1(1) x2(1) y(1) by (simp add: log_elems_def ret_def)
  moreover have "out y = out x @ h ''table: '' @ concat (map (\<lambda>k. h (ld_typename A (lua_type k) @ '' - '' @ ld_typename A (lua_type (lw_tab (view x) t k)))) ?ks)"
    unfolding y(3) f2(3) appendsD [OF out(5), OF x2(1)] silentD [OF out(4), OF x1(1)] by simp
  ultimately show ?thesis using v by blast
qed

text \<open>So it is a program that changes nothing where there is a table at its index.\<close>

definition d_elems :: "addr \<Rightarrow> int \<Rightarrow> (lview, unit) lprog" where
  "d_elems L j w = (case lua_at L (Idx j) w of
       Some (V_Tab t) \<Rightarrow> if 0 < j \<and> 2 \<le> room L w then (Fine (), w) else (Undef, w)
     | _ \<Rightarrow> (Undef, w))"

lemma elems_follows:
  assumes ok: "dump_ok view order A" and ord: "ordered order"
  shows "follows view L (steps [la_push A L V_Nil, ld_log A ''table: '', log_elems A L (Idx j)]) (d_elems L j)"
proof (rule followsI)
  show "keeps L (d_elems L j)" by (auto simp: keeps_def d_elems_def split: option.splits lv.splits if_splits)
next
  fix x r w assume run: "d_elems L j (view x) = (r, w)" "r \<noteq> Undef" and L: "L < lw_next (view x)"
  then obtain t where t: "lua_at L (Idx j) (view x) = Some (V_Tab t)" "0 < j" "2 \<le> room L (view x)" "r = Fine ()" "w = view x"
    by (auto simp: d_elems_def split: option.splits lv.splits if_splits)
  then have "j \<le> int (length (frame L (view x)))" "rev (frame L (view x)) ! (nat j - 1) = V_Tab t"
    by (auto simp: lua_at_def slot_of_def rev_nth nat_le_iff split: if_splits)
  from elems_logged [OF ok ord t(2) this L t(3), where out = "\<lambda>_. [] :: unit list" and h = "\<lambda>_. []"]
  obtain y where "steps [la_push A L V_Nil, ld_log A ''table: '', log_elems A L (Idx j)] x = (Fine (), y)" "view y = view x"
    by (auto simp: silent_def appends_def)
  then show "\<exists>r' y. steps [la_push A L V_Nil, ld_log A ''table: '', log_elems A L (Idx j)] x = (r', y)
      \<and> (r' = r \<and> view y = w \<or> r' = Raised \<and> kept L (view x) (view y))"
    using t(4,5) by blast
qed

lemma lua_at_shift:
  assumes "lua_at L (Idx i) w = Some v" and "lw_stk w L \<noteq> []"
  shows "lua_at L (Idx (if i < 0 then i - 1 else i)) (set_frame L (c # frame L w) w) = Some v"
proof (cases "i < 0")
  case True
  then obtain n where "i = - int n" "0 < n" by (metis neg_int_cases of_nat_0_less_iff)
  then show ?thesis using assms by (auto simp: lua_at_def slot_of_def nth_Cons' nat_add_distrib split: if_splits)
next
  case False
  then have "0 < i" "i \<le> int (length (frame L w))" using assms(1) by (auto simp: lua_at_def slot_of_def split: if_splits)
  moreover from this have "frame L w ! (length (frame L w) - nat i) = v" using assms(1) by (simp add: lua_at_def slot_of_def)
  ultimately show ?thesis using False assms(2) lua_at_below [of L "set_frame L (c # frame L w) w" c "frame L w" i]
    by (simp add: rev_nth nat_le_iff Suc_diff_Suc)
qed

lemma check_elem_follows:
  assumes "dump_ok view order A" and "ordered order"
  shows "follows view L (lcf_check_metatable_elem A L) (bnd (d_elems L 1) (\<lambda>_. ret 0))"
  unfolding lcf_check_metatable_elem_def by (intro follow_intros elems_follows [OF assms])

lemma check_elem_by_tname_follows:
  assumes "dump_ok view order A" and "ordered order"
  shows "follows view L (lcf_check_metatable_elem_by_tname A L) (bnd (la_touserdata doc L (Idx 1)) (\<lambda>p. with_chars p (\<lambda>tname.
    bnd (bnd (lbind_checkmetatable doc L tname ''no table!'') (\<lambda>_. d_elems L 2)) (\<lambda>_. ret 0))))"
proof -
  have api: "api_ok view (lua_api.truncate A)" using assms(1) by (simp add: dump_ok_def)
  have st: "steps [lbind_checkmetatable (lua_api.truncate A) L tname ''no table!'', la_push A L V_Nil, ld_log A ''table: '', log_elems A L (Idx 2)]
    = bnd (lbind_checkmetatable (lua_api.truncate A) L tname ''no table!'') (\<lambda>_. steps [la_push A L V_Nil, ld_log A ''table: '', log_elems A L (Idx 2)])" for tname
    by simp
  show ?thesis
    unfolding lcf_check_metatable_elem_by_tname_def st
    by (intro follow_intros elems_follows [OF assms] api api_follows(8) [OF api, unfolded truncate_sel])
qed

text \<open>Both functions return whatever Lua does, and leave the stack as it was.\<close>

lemma check_elem_call:
  assumes ok: "dump_ok view order A" and ord: "ordered order" and w: "view x = w" and L: "L < lw_next w" "1 < room L w"
    and t: "lua_at L (Idx idx) w = Some (V_Tab t)"
  shows "\<exists>c y. lbind_check_metatable_elem A L idx x = (Fine c, y) \<and> stack_kept L w (view y)"
proof -
  have api: "api_ok view (lua_api.truncate A)" using ok by (simp add: dump_ok_def)
  let ?c = "V_C ''lcf_check_metatable_elem''" and ?i = "if idx < 0 then idx - 1 else idx"
  have stk: "lw_stk w L \<noteq> []" using L(2) room_pos by fastforce
  obtain x1 where x1: "la_push A L ?c x = (Fine (), x1)" "view x1 = set_frame L (?c # frame L w) w"
    using exactlyD [OF api_exactly(1) [OF api], of L ?c x "Fine ()" "set_frame L (?c # frame L w) w"] L w by (auto simp: d_push_def truncate_sel)
  have "la_pushvalue doc L (Idx ?i) (view x1) = (Fine (), set_frame L (V_Tab t # ?c # frame L w) w)"
    using lua_at_shift [OF t stk, of ?c] L(2) stk room_set_frame [OF stk, of "?c # frame L w"] room_eq [OF stk] unfolding x1(2)
    by (simp add: d_push_def)
  from exactlyD [OF api_exactly(2) [OF api] this] obtain x2 where x2: "la_pushvalue A L (Idx ?i) x1 = (Fine (), x2)"
    "view x2 = set_frame L (V_Tab t # ?c # frame L w) w" using L(1) x1(2) by (auto simp: truncate_sel)
  have run: "bnd (d_elems L 1) (\<lambda>_. ret 0) (called L [V_Tab t] w) = (Fine 0, called L [V_Tab t] w)"
    by (simp add: d_elems_def called_within lua_at_def slot_of_def ret_def LUA_MINSTACK_def bnd_def)
  obtain c y where y: "la_pcall A L 1 0 (lcf_check_metatable_elem A L) x2 = (Fine c, y)"
    "(\<exists>k. Fine 0 = Fine k \<and> c = LUA_OK \<and> view y = returned L (results (nat k) 0 (frame L (called L [V_Tab t] w))) (called L [V_Tab t] w))
     \<or> c \<noteq> LUA_OK \<and> kept L w (view y) \<and> (\<exists>e. frame L (view y) = e # frame L w)"
    using call_back [OF api check_elem_follows [OF ok ord] L(1) stk, of x2 "[V_Tab t]" "''lcf_check_metatable_elem''" "Fine 0" "called L [V_Tab t] w" 0] run x2(2)
    by (auto simp: truncate_sel)
  have all: "lbind_check_metatable_elem A L idx x = pop_error (lua_api.truncate A) L c y"
    using x1(1) x2(1) y(1) by (simp add: lbind_check_metatable_elem_def ret_def)
  from y(2) show ?thesis
  proof
    assume "\<exists>k. Fine 0 = Fine k \<and> c = LUA_OK \<and> view y = returned L (results (nat k) 0 (frame L (called L [V_Tab t] w))) (called L [V_Tab t] w)"
    then have "c = LUA_OK" "view y = w" by (simp_all add: results_def called_within)
    then show ?thesis using all pop_error_simps(1) by fastforce
  next
    assume c: "c \<noteq> LUA_OK \<and> kept L w (view y) \<and> (\<exists>e. frame L (view y) = e # frame L w)"
    then obtain z where "la_pop (lua_api.truncate A) L 1 y = (Fine (), z)" "stack_kept L w (view z)"
      using pop_errorI [OF api L(1) stk] by blast
    then show ?thesis using all c pop_error_simps(2) by fastforce
  qed
qed

lemma check_elem_by_tname_call:
  assumes ok: "dump_ok view order A" and ord: "ordered order" and w: "view x = w" and L: "L < lw_next w" "1 < room L w"
    and reg: "lw_meta w (lw_reg w) = None" "lw_tab w (lw_reg w) (V_Str tname) = V_Tab t \<or> lw_tab w (lw_reg w) (V_Str tname) = V_Nil"
  shows "\<exists>c y. lbind_check_metatable_elem_by_tname A L tname x = (Fine c, y) \<and> stack_kept L w (view y)"
proof -
  have api: "api_ok view (lua_api.truncate A)" using ok by (simp add: dump_ok_def)
  let ?arg = "V_Light (Chars tname)"
  let ?g = "bnd (la_touserdata doc L (Idx 1)) (\<lambda>p. with_chars p (\<lambda>tname.
    bnd (bnd (lbind_checkmetatable doc L tname ''no table!'') (\<lambda>_. d_elems L 2)) (\<lambda>_. ret 0)))"
  obtain q :: "int lres" and v where run: "?g (called L [?arg] w) = (q, v)" "q = Raised \<or> q = Fine 0 \<and> v = within L 21 [V_Tab t, ?arg] w"
  proof (cases "lw_tab w (lw_reg w) (V_Str tname) = V_Nil")
    case True
    then have "\<exists>v. ?g (called L [?arg] w) = (Raised, v)"
      using reg(1) by (simp add: lbind_checkmetatable_def called_within with_chars_def d_value_def lua_at_def slot_of_def d_getfield_def d_index_def
          has_meta_def d_push_def lua_type_def LUA_TNIL_def LUA_MINSTACK_def bnd_def ret_def)
    then show ?thesis using that by blast
  next
    case False
    then have "?g (called L [?arg] w) = (Fine 0, within L 21 [V_Tab t, ?arg] w)"
      using reg by (simp add: lbind_checkmetatable_def called_within with_chars_def d_value_def lua_at_def slot_of_def d_getfield_def d_index_def
          has_meta_def d_push_def lua_type_def LUA_TNIL_def LUA_MINSTACK_def bnd_def ret_def d_elems_def)
    then show ?thesis using that by blast
  qed
  have "stack_kept L w (returned L [] (within L 21 [V_Tab t, ?arg] w))" by simp
  with protected_pop [OF api check_elem_by_tname_follows [OF ok ord] w L(1), of "[?arg]" q v "''lcf_check_metatable_elem_by_tname''" 0] L(2) run
  show ?thesis by (auto simp: lbind_check_metatable_elem_by_tname_def truncate_sel results_def)
qed

end
