(* ===== verification/Spec2Isabelle.thy ===== *)
theory Spec2Isabelle
  imports Mem_Slot Mem_Buddy Sock_Io Master Lua_Alloc Lm_Counter Pconf Test_Servers Lua_Files Lm_Bytes Lua_Modules
    Channel Buddy_Print Rb_Test Program Sock_All Thread_Print Lua_Dump
begin

text \<open>
  A verification development of \<^verbatim>\<open>artorias\<close>, a server in C whose workers run each connection as a
  Lua coroutine (\<^verbatim>\<open>src/c/src\<close>).

  \<^bold>\<open>The program.\<close> A master (\<^verbatim>\<open>mw_server.c\<close>) opens the listening socket, forks workers, and passes
  each connection it accepts to one of them over a pair of sockets. A worker (\<^verbatim>\<open>mw_worker.c\<close>) has a
  Lua state, a memory pool (\<^verbatim>\<open>mem_pool.c\<close>), an epoll set, two pools of waiting threads, ordered by
  deadline in red-black trees (\<^verbatim>\<open>rb_tree.c\<close>), and an array of threads that ended. A thread
  (\<^verbatim>\<open>thread.c\<close>) is a coroutine with a list (\<^verbatim>\<open>dlist.c\<close>) of resources, the sockets it uses. In each
  turn of its loop the worker handles the events of epoll, resumes the threads whose time is up, and
  frees the threads that ended. Lua code opens, reads and writes sockets by the module
  \<^verbatim>\<open>lm_socket.c\<close> over \<^verbatim>\<open>server.c\<close>: a call that has to wait yields to the worker with what it waits
  for. Beside these the program has a byte buffer (\<^verbatim>\<open>bytes.c\<close>), a bitmap and a buddy allocator
  (\<^verbatim>\<open>mem_slot.c\<close>, \<^verbatim>\<open>mem_buddy.c\<close>), a module of counters (\<^verbatim>\<open>lm_counter.c\<close>), its configuration
  (\<^verbatim>\<open>lua_pconf.c\<close>), and two servers without workers (\<^verbatim>\<open>epoll_server.c\<close>, \<^verbatim>\<open>select_server.c\<close>).

  \<^bold>\<open>How C is modelled.\<close> An object is a record in a store, a map from addresses to objects of one type;
  pointers are addresses or \<open>None\<close> for \<open>NULL\<close>; an operation returns \<open>None\<close> where the code has undefined
  behaviour (a dangling or null pointer, an index outside its array, a double free), so a theorem
  that an operation returns \<open>Some\<close> says that it does not go wrong. Unsigned integers are words of
  their width; where an \<open>int\<close> is read from a wider value \<open>to_int\<close> cuts it off. A loop that is not
  structural is a \<open>partial_function (option)\<close>: that it ends is a theorem. Memory for pool blocks comes
  from \<open>mem\<close>, whose \<open>oom\<close> decides when \<open>malloc\<close> fails. The kernel and Lua are not part of the program:
  system calls are the fields of \<open>net\<close> and its extensions \<open>os\<close>, \<open>ep_net\<close>, \<open>sel_net\<close>; the Lua
  interpreter is the field \<open>lua_run\<close> of \<open>env\<close>, what the bindings called by the worker do to its memory
  and its sockets (allocation, garbage collection) the field \<open>lua_work\<close>, and its C interface the record \<open>lua_api\<close>. What a theorem relies on of them is a hypothesis with a
  name (\<open>kernel_ok\<close>, \<open>select_fds\<close>, \<open>lua_keeps\<close>, \<open>calls_keep\<close>, \<open>api_ok\<close> and others), and its witness has a concrete instance.

  \<^bold>\<open>The C interface of Lua.\<close> Nothing is known of the state of Lua but a view of it, \<open>lview\<close>: stacks of
  frames, tables, metatables, what the files on disk compile to. \<open>doc\<close> is the reference manual of
  Lua 5.3 on views, one function for each that the program calls, \<open>Undef\<close> where the manual says
  nothing. \<open>api_ok view A\<close> says that the functions \<open>A\<close> do to the view what \<open>doc\<close> does, or raise an
  error, for want of memory, where the manual allows it (\<open>luaL_loadfile\<close> may also answer with a code
  and a message); \<open>doc_ok\<close> shows that \<open>doc\<close> itself is such an
  interface. A program over \<open>A\<close> \<open>follows\<close> the same program over \<open>doc\<close> (one rule for each construct),
  so that a binding is run once, on \<open>doc\<close>, and its result holds of every \<open>A\<close>. Garbage collection is
  not seen in the view: a weak entry is dropped only when nothing can ask for it, and the finalizers of
  the program change nothing of what the view shows. A C function has room for 20 values, so one call
  sets at most 9 variables and reads at most 18; the program passes one.

  \<^bold>\<open>Theories.\<close>
  \<^item> \<open>Prelude\<close>: addresses, stores, \<open>malloc\<close>, arrays, folds that may fail.
  \<^item> \<open>As_Dlist\<close> (\<^verbatim>\<open>dlist.h\<close>, \<^verbatim>\<open>dlist.c\<close>): the intrusive list; it refines sequences (locale
    \<open>linked_list\<close>). \<open>Utils\<close> (\<^verbatim>\<open>utils.h\<close>): \<open>binary_search\<close>.
  \<^item> \<open>Mem_Pool\<close>, \<open>Mem_Pool_Ops\<close>, \<open>Mem_Pool_Client\<close> (\<^verbatim>\<open>mem_pool.c\<close>): all functions; \<open>memp_inv\<close> states
    that the free lists partition the free blocks, and the counters; the locale \<open>block_pool\<close> is what
    clients rely on. \<open>Bytes\<close> (\<^verbatim>\<open>bytes.c\<close>), \<open>Lua_Alloc\<close> (\<open>lalloc\<close> of \<^verbatim>\<open>lua_bind.c\<close>, locale
    \<open>lua_memory\<close>) and \<open>Lm_Counter\<close> (\<^verbatim>\<open>lm_counter.c\<close>) are such clients.
  \<^item> \<open>Range_Alloc\<close>: the contract of an allocator of ranges (locales \<open>range_allocator\<close> and
    \<open>total_allocator\<close>), met by \<open>Mem_Slot\<close> (\<^verbatim>\<open>mem_slot.c\<close>) and \<open>Mem_Buddy\<close> (\<^verbatim>\<open>mem_buddy.c\<close>).
  \<^item> \<open>Rb_Tree\<close> (\<^verbatim>\<open>rb_tree.h\<close>, \<^verbatim>\<open>rb_tree.c\<close>): the code over linked nodes; \<open>Rb_Shape\<close>: the tree that a
    store stands for, with a focus and a path to the root; \<open>Rb_Insert\<close>, \<open>Rb_Delete\<close>: insertion
    and deletion refine those of an ordered list and keep the red-black invariants;
    \<open>Rb_Search\<close>: the search, and the traversal that takes the tree apart.
  \<^item> \<open>Thread\<close>, \<open>Timeouts\<close> (\<^verbatim>\<open>thread.h\<close>, \<^verbatim>\<open>thread.c\<close>): threads, resources, pools by deadline,
    the removal of expired threads. \<open>Thread_Print\<close>: the log of a thread.
  \<^item> \<open>Server\<close> (\<^verbatim>\<open>server.c\<close>): sockets over system calls that may fail.
  \<^item> \<open>Worker\<close> (\<^verbatim>\<open>mw_worker.c\<close>): resuming a thread, the handlers, one turn of the loop, start and end;
    \<open>Worker_Sort\<close>: what becomes of a thread that was resumed; \<open>Worker_Life\<close>: the invariant of
    threads, resources, memory and the array of stopped threads that every turn keeps, whatever the
    collector takes away in between (\<open>lua_frame\<close> says what it may not touch);
    \<open>Worker_End\<close>: a whole run of a worker, and what its end gives back (\<open>end_threads\<close>, the threads
    that \<open>process\<close> frees, then \<open>lua_close\<close>).
  \<^item> \<open>Lm_Socket\<close> (\<^verbatim>\<open>lm_socket.c\<close>): the functions Lua calls, with their continuations;
    \<open>Sock_Life\<close>: descriptors and blocks are given back once; \<open>Sock_Io\<close>: how reads and sends end;
    \<open>Sock_All\<close>: reading a socket to its end, a call of \<^verbatim>\<open>lm_bytes.c\<close> through Lua.
  \<^item> \<open>Master\<close> (\<^verbatim>\<open>mw_server.c\<close>), \<open>Pconf\<close> (\<^verbatim>\<open>lua_pconf.c\<close>), \<open>Test_Servers\<close> (\<^verbatim>\<open>epoll_server.c\<close>,
    \<^verbatim>\<open>select_server.c\<close>).
  \<^item> \<open>Lua_Api\<close>: the C interface of Lua, its manual and the rules of \<open>follows\<close>. \<open>Lua_Bind\<close>: the code of
    \<^verbatim>\<open>lua_bind.h\<close>, \<^verbatim>\<open>lua_bind.c\<close>, \<^verbatim>\<open>lm_base.c\<close> and \<^verbatim>\<open>lua_adapter53.c\<close>. \<open>Lua_Run\<close>, \<open>Lua_Vars\<close>: the tables
    of the registry as maps (\<open>binds\<close>, with the invariant \<open>binds_ok\<close>), and what each binding does to them.
    \<open>Lua_Start\<close>: the tables are made (\<open>init_call\<close>); the properties of the bindings. \<open>Lua_Files\<close>: running a
    file, the state of a configuration (\<^verbatim>\<open>lua_pconf.c\<close>). \<open>Lm_Bytes\<close> (\<^verbatim>\<open>lm_bytes.c\<close>): buffers in
    userdata. \<open>Lua_Modules\<close>: how the modules for counters and sockets are opened. \<open>Lua_Output\<close>: the log
    of a stack, the reply of \<^verbatim>\<open>lua_output.c\<close>, and the test of the bindings (\<open>luas_test\<close>). \<open>Lua_Dump\<close>: the log of
    the elements of a table, and of the calls of Lua (\<^verbatim>\<open>lua_utils.c\<close>).
  \<^item> \<open>Program\<close> (\<^verbatim>\<open>main.c\<close>): the program as it is built, a worker on the listening socket. The other tests
    of that file are in \<open>Alloc_Tests\<close> and \<open>Buddy_Print\<close> (the picture of a buddy arena, \<^verbatim>\<open>mem_buddy.c\<close>);
    \<open>Rb_Test\<close> is \<^verbatim>\<open>rb_tree_test.c\<close>. \<open>Channel\<close> (\<^verbatim>\<open>channel.c\<close>): two processes as interleaved sequences of
    system calls (\<open>chan_step\<close>).

  \<^bold>\<open>Bounds.\<close> The endless loops of the worker, the master and the test servers are modelled by their
  turns; the theorems hold for every turn. Sizes given to the pool are below \<open>2 ^ 61\<close>, so that the
  size of a block does not wrap around. The buddy allocator is proved for requests of 1 to \<open>2 ^ 31\<close>
  units; what lies outside is a theorem of its own.

  \<^bold>\<open>Not modelled.\<close> Logging (\<open>debug_log\<close>), where it is not all a function does; functions that only call \<open>free\<close>
  (\<open>slot_destroy\<close>, \<open>buddy_destroy\<close>); \<open>container_of\<close>, which is the identity on addresses; the adapter for
  Lua 5.1 (\<^verbatim>\<open>lua_adapter51.c\<close>), which is empty without \<open>LUA51\<close>.
\<close>

end
